(* ===== verification/Blastbox_Prelude.thy ===== *)
theory Blastbox_Prelude
  imports
    Complex_Main
    "HOL-Library.AList"
    "HOL-Library.Product_Lexorder"
    "HOL-Library.List_Lexorder"
    "HOL-Library.Char_ord"
    "HOL-Library.Sublist"
begin

text \<open>
  Shared vocabulary of the development: Python exceptions as values, JSON documents,
  the string and sequence operations of Python that the modelled code uses, and the
  generic lemmas on association lists (Python's insertion-ordered dictionaries) and on
  minima that several components need.

  Conventions.  A Python \<open>str\<close> is a \<^typ>\<open>string\<close>; case folding is the ASCII one.  A
  Python \<open>float\<close> that is known to be finite is a \<^typ>\<open>real\<close>; where the source
  itself tests for \<open>nan\<close> or an infinity it is a \<open>pyfloat\<close>.  A \<open>dict\<close> whose order
  is observable is an association list updated with \<^const>\<open>AList.update\<close>, which keeps
  the position of an existing key and appends a new one, as Python does.
\<close>

named_theorems store_simps \<open>frame and lookup rules of the store operations\<close>
named_theorems fs_simps \<open>rules of the file system walk\<close>

section \<open>Exceptions as values\<close>

datatype py_exc =
    KeyError string
  | ValueError string
  | TypeError string
  | FileNotFoundError
  | OSError int

type_synonym 'a res = "py_exc + 'a"

section \<open>Floats the source inspects\<close>

datatype pyfloat = Fin real | PInf | NInf | NaN

fun isfinite :: "pyfloat \<Rightarrow> bool" where
  "isfinite (Fin _) = True"
| "isfinite _ = False"

section \<open>JSON\<close>

datatype json =
    JNull
  | JBool bool
  | JInt int
  | JFloat real
  | JStr string
  | JList "json list"
  | JObj "(string \<times> json) list"

text \<open>Truthiness of a decoded JSON value (\<open>if x\<close>, \<open>x or default\<close>).\<close>

fun py_truthy :: "json \<Rightarrow> bool" where
  "py_truthy JNull = False"
| "py_truthy (JBool b) = b"
| "py_truthy (JInt i) = (i \<noteq> 0)"
| "py_truthy (JFloat r) = (r \<noteq> 0)"
| "py_truthy (JStr s) = (s \<noteq> [])"
| "py_truthy (JList xs) = (xs \<noteq> [])"
| "py_truthy (JObj kvs) = (kvs \<noteq> [])"

text \<open>\<open>d.get(k)\<close> with the default \<open>None\<close>.\<close>

definition jget :: "(string \<times> json) list \<Rightarrow> string \<Rightarrow> json" where
  "jget kvs k = (case map_of kvs k of None \<Rightarrow> JNull | Some v \<Rightarrow> v)"

section \<open>Strings\<close>

text \<open>\<open>str.lower\<close> on ASCII.\<close>

definition lower_char :: "char \<Rightarrow> char" where
  "lower_char c =
     (let n = (of_char c :: nat) in if 65 \<le> n \<and> n \<le> 90 then char_of (n + 32) else c)"

definition py_lower :: "string \<Rightarrow> string" where
  "py_lower s = map lower_char s"

definition is_space :: "char \<Rightarrow> bool" where
  "is_space c \<longleftrightarrow> (let n = (of_char c :: nat) in n = 32 \<or> (9 \<le> n \<and> n \<le> 13) \<or> (28 \<le> n \<and> n \<le> 31))"

definition py_strip :: "string \<Rightarrow> string" where
  "py_strip s = rev (dropWhile is_space (rev (dropWhile is_space s)))"

definition startswith :: "string \<Rightarrow> string \<Rightarrow> bool" where
  "startswith s p \<longleftrightarrow> take (length p) s = p"

lemma startswith_append [simp]: "startswith (p @ s) p"
  by (simp add: startswith_def)

lemma startswith_iff_prefix: "startswith s p \<longleftrightarrow> prefix p s"
  unfolding startswith_def prefix_def
  by (metis append_take_drop_id append_eq_conv_conj)

lemma length_py_lower [simp]: "length (py_lower s) = length s"
  by (simp add: py_lower_def)

lemma lower_char_idem [simp]: "lower_char (lower_char c) = lower_char c"
  by (auto simp: lower_char_def Let_def)

lemma py_lower_idem [simp]: "py_lower (py_lower s) = py_lower s"
  by (simp add: py_lower_def)

lemma lower_char_not_space: "\<not> is_space c \<Longrightarrow> \<not> is_space (lower_char c)"
  by (auto simp: lower_char_def is_space_def Let_def)

lemma strip_plain: "(\<And>c. c \<in> set s \<Longrightarrow> \<not> is_space c) \<Longrightarrow> py_strip s = s"
proof -
  assume a: "\<And>c. c \<in> set s \<Longrightarrow> \<not> is_space c"
  have "dropWhile is_space s = s" using a by (cases s) auto
  moreover have "dropWhile is_space (rev s) = rev s"
    using a hd_in_set [of "rev s"] by (cases "s = []") (simp_all add: dropWhile_eq_self_iff)
  ultimately show ?thesis by (simp add: py_strip_def)
qed

lemma strip_keep: "s \<noteq> [] \<Longrightarrow> \<not> is_space (hd s) \<Longrightarrow> \<not> is_space (last s) \<Longrightarrow> py_strip s = s"
  by (simp add: py_strip_def dropWhile_eq_self_iff [THEN iffD2] hd_rev)

text \<open>
  \<open>int(s)\<close>: surrounding whitespace, a sign, decimal digits with single underscores between
  digits; \<^const>\<open>None\<close> is \<open>ValueError\<close>.  The flag says whether the last character was a digit.
\<close>

definition digit_val :: "char \<Rightarrow> int option" where
  "digit_val c = (let n = (of_char c :: nat) in if 48 \<le> n \<and> n \<le> 57 then Some (int n - 48) else None)"

fun digits_acc :: "bool \<Rightarrow> int \<Rightarrow> string \<Rightarrow> int option" where
  "digits_acc ok acc [] = (if ok then Some acc else None)"
| "digits_acc ok acc (c # cs) =
     (if c = CHR ''_'' then (if ok then digits_acc False acc cs else None)
      else case digit_val c of None \<Rightarrow> None | Some d \<Rightarrow> digits_acc True (10 * acc + d) cs)"

definition py_int :: "string \<Rightarrow> int option" where
  "py_int s =
     (case py_strip s of
        [] \<Rightarrow> None
      | c # cs \<Rightarrow>
          if c = CHR ''-'' then map_option uminus (digits_acc False 0 cs)
          else if c = CHR ''+'' then digits_acc False 0 cs
          else digits_acc False 0 (c # cs))"

text \<open>The substring test \<open>needle in hay\<close>.\<close>

definition py_in :: "string \<Rightarrow> string \<Rightarrow> bool" where
  "py_in needle hay \<longleftrightarrow> sublist needle hay"

text \<open>\<open>s.split(c)\<close> for a one-character separator.\<close>

fun split_on :: "char \<Rightarrow> string \<Rightarrow> string list" where
  "split_on c [] = [[]]"
| "split_on c (x # xs) =
     (if x = c then [] # split_on c xs
      else case split_on c xs of [] \<Rightarrow> [[x]] | y # ys \<Rightarrow> (x # y) # ys)"

section \<open>Sequences\<close>

text \<open>The slices \<open>xs[i:]\<close> and \<open>xs[:i]\<close>, negative bounds counting from the end.\<close>

definition py_from :: "int \<Rightarrow> 'a list \<Rightarrow> 'a list" where
  "py_from i xs = (if i < 0 then drop (nat (int (length xs) + i)) xs else drop (nat i) xs)"

definition py_upto :: "int \<Rightarrow> 'a list \<Rightarrow> 'a list" where
  "py_upto i xs = (if i < 0 then take (nat (int (length xs) + i)) xs else take (nat i) xs)"

text \<open>
  \<open>sorted(xs, key=k, reverse=True)\<close> keeps the original order of equal elements, so it is
  not the reverse of the ascending sort.
\<close>

definition sorted_by :: "bool \<Rightarrow> ('a \<Rightarrow> 'k::linorder) \<Rightarrow> 'a list \<Rightarrow> 'a list" where
  "sorted_by reverse k xs = (if reverse then rev (sort_key k (rev xs)) else sort_key k xs)"

lemma set_py_from: "set (py_from i xs) \<subseteq> set xs"
  by (auto simp: py_from_def dest: in_set_dropD)

lemma set_py_upto: "set (py_upto i xs) \<subseteq> set xs"
  by (auto simp: py_upto_def dest: in_set_takeD)

lemma set_sorted_by [simp]: "set (sorted_by r k xs) = set xs"
  by (simp add: sorted_by_def)

lemma length_sorted_by [simp]: "length (sorted_by r k xs) = length xs"
  by (simp add: sorted_by_def)

lemma length_py_upto: "0 \<le> i \<Longrightarrow> int (length (py_upto i xs)) \<le> i"
  by (simp add: py_upto_def)

section \<open>Minima\<close>

lemma arg_min_list_le:
  fixes f :: "'a \<Rightarrow> 'b::linorder"
  shows "y \<in> set xs \<Longrightarrow> f (arg_min_list f xs) \<le> f y"
proof (induction f xs rule: arg_min_list.induct)
  case (1 f x)
  then show ?case by simp
next
  case (2 f x y' zs)
  then show ?case by (auto simp: Let_def intro: order.trans)
next
  case (3 f)
  then show ?case by simp
qed

lemma arg_min_list_mem: "xs \<noteq> [] \<Longrightarrow> arg_min_list f xs \<in> set xs"
  by (rule arg_min_list_in)

section \<open>Ordered dictionaries\<close>

lemma map_of_filter_in:
  "distinct (map fst xs) \<Longrightarrow> (k, v) \<in> set xs \<Longrightarrow> map_of xs k = Some v"
  by (simp add: map_of_is_SomeI)

lemma map_of_update_same [simp]: "map_of (AList.update k v xs) k = Some v"
  by (simp add: update_conv)

lemma map_of_update_other: "k' \<noteq> k \<Longrightarrow> map_of (AList.update k v xs) k' = map_of xs k'"
  by (simp add: update_conv)

lemma map_of_delete_same [simp]: "map_of (AList.delete k xs) k = None"
  by (simp add: delete_conv)

lemma map_of_delete_other: "k' \<noteq> k \<Longrightarrow> map_of (AList.delete k xs) k' = map_of xs k'"
  by (simp add: delete_conv)

lemma set_update_subset:
  "set (AList.update k v xs) \<subseteq> insert (k, v) (set xs)"
  by (induction xs) auto

lemma keys_update: "set (map fst (AList.update k v xs)) = insert k (fst ` set xs)"
  by (induction xs) auto

end
