(* ===== verification/Job_Model.thy ===== *)
theory Job_Model
  imports Blastbox_Prelude
begin

text \<open>
  The engine-agnostic job record of \<^verbatim>\<open>host/jobs/base.py\<close>, its JSON form, the field
  updates \<open>update(**fields)\<close> may carry, and the pure helpers every backend shares: the
  engine filter, the cutoff of a delayed claimant, the node-claim prefix and the listing
  window.  Wall-clock values are exact reals; \<open>uuid4\<close> and \<open>time.time()\<close> are arguments.
\<close>

section \<open>The job record\<close>

datatype job_status = QUEUED | RUNNING | DONE | FAILED | EXPIRED

record job =
  job_id :: string
  engine :: string
  filename :: string
  status :: job_status
  created_at :: real
  started_at :: "real option"
  finished_at :: "real option"
  expires_at :: "real option"
  input_sha256 :: "string option"
  result_dir :: "string option"
  worker_runtime :: "string option"
  worker_tier :: "string option"
  target_tier :: "string option"
  net_policy :: "string option"
  claimable_after :: "real option"
  materialise_attempts :: int
  error :: "string option"
  claim_id :: "string option"
  security_warnings :: "json list"
  params :: "(string \<times> json) list"
  result_summary :: json

definition Job_new :: "string \<Rightarrow> string \<Rightarrow> string \<Rightarrow> real \<Rightarrow> job" where
  "Job_new uuid eng fname now =
     \<lparr>job_id = uuid, engine = eng, filename = fname, status = QUEUED, created_at = now,
      started_at = None, finished_at = None, expires_at = None, input_sha256 = None,
      result_dir = None, worker_runtime = None, worker_tier = None, target_tier = None,
      net_policy = None, claimable_after = None, materialise_attempts = 0, error = None,
      claim_id = None, security_warnings = [], params = [], result_summary = JNull\<rparr>"

section \<open>JSON form\<close>

fun status_value :: "job_status \<Rightarrow> string" where
  "status_value QUEUED = ''queued''"
| "status_value RUNNING = ''running''"
| "status_value DONE = ''done''"
| "status_value FAILED = ''failed''"
| "status_value EXPIRED = ''expired''"

definition JobStatus_of :: "string \<Rightarrow> job_status option" where
  "JobStatus_of s =
     (if s = ''queued'' then Some QUEUED else if s = ''running'' then Some RUNNING
      else if s = ''done'' then Some DONE else if s = ''failed'' then Some FAILED
      else if s = ''expired'' then Some EXPIRED else None)"

definition j_opt_str :: "string option \<Rightarrow> json" where
  "j_opt_str x = (case x of None \<Rightarrow> JNull | Some s \<Rightarrow> JStr s)"

definition j_opt_float :: "real option \<Rightarrow> json" where
  "j_opt_float x = (case x of None \<Rightarrow> JNull | Some r \<Rightarrow> JFloat r)"

definition to_dict :: "job \<Rightarrow> (string \<times> json) list" where
  "to_dict j =
     [(''job_id'', JStr (job_id j)), (''engine'', JStr (engine j)),
      (''filename'', JStr (filename j)), (''status'', JStr (status_value (status j))),
      (''created_at'', JFloat (created_at j)), (''started_at'', j_opt_float (started_at j)),
      (''finished_at'', j_opt_float (finished_at j)),
      (''expires_at'', j_opt_float (expires_at j)),
      (''input_sha256'', j_opt_str (input_sha256 j)),
      (''result_dir'', j_opt_str (result_dir j)),
      (''worker_runtime'', j_opt_str (worker_runtime j)),
      (''worker_tier'', j_opt_str (worker_tier j)),
      (''target_tier'', j_opt_str (target_tier j)),
      (''net_policy'', j_opt_str (net_policy j)),
      (''claimable_after'', j_opt_float (claimable_after j)),
      (''materialise_attempts'', JInt (materialise_attempts j)),
      (''error'', j_opt_str (error j)), (''claim_id'', j_opt_str (claim_id j)),
      (''security_warnings'', JList (security_warnings j)),
      (''params'', JObj (params j)), (''result_summary'', result_summary j)]"

text \<open>
  \<open>to_public_dict\<close>: five internal keys are popped and a string \<open>error\<close> is sanitised.
  The regular-expression scrubber \<open>sanitize_public_error\<close> is the argument \<open>san\<close>.
\<close>

definition public_hidden :: "string list" where
  "public_hidden =
     [''result_dir'', ''params'', ''claim_id'', ''claimable_after'', ''materialise_attempts'']"

definition to_public_dict :: "(string \<Rightarrow> string) \<Rightarrow> job \<Rightarrow> (string \<times> json) list" where
  "to_public_dict san j =
     map (\<lambda>(k, v). (k, if k = ''error'' then (case v of JStr e \<Rightarrow> JStr (san e) | _ \<Rightarrow> v) else v))
       (filter (\<lambda>(k, v). k \<notin> set public_hidden) (to_dict j))"

text \<open>
  \<open>float(x)\<close> and \<open>int(x)\<close> on a decoded JSON value.  The model leaves the conversion of a
  numeric \<^emph>\<open>string\<close> out: \<open>to_dict\<close> writes numbers as numbers.
\<close>

fun j_float :: "json \<Rightarrow> real option" where
  "j_float (JInt i) = Some (of_int i)"
| "j_float (JFloat r) = Some r"
| "j_float (JBool b) = Some (if b then 1 else 0)"
| "j_float _ = None"

fun j_int :: "json \<Rightarrow> int option" where
  "j_int (JInt i) = Some i"
| "j_int (JFloat r) = Some (if 0 \<le> r then \<lfloor>r\<rfloor> else \<lceil>r\<rceil>)"
| "j_int (JBool b) = Some (if b then 1 else 0)"
| "j_int _ = None"

text \<open>\<open>float(d[k]) if d.get(k) else None\<close>: a falsy value, zero included, is dropped.\<close>

definition get_float :: "(string \<times> json) list \<Rightarrow> string \<Rightarrow> real option option" where
  "get_float d k =
     (if py_truthy (jget d k) then (case j_float (jget d k) of None \<Rightarrow> None | Some r \<Rightarrow> Some (Some r))
      else Some None)"

definition get_str :: "(string \<times> json) list \<Rightarrow> string \<Rightarrow> string option option" where
  "get_str d k = (case jget d k of JStr s \<Rightarrow> Some (Some s) | JNull \<Rightarrow> Some None | _ \<Rightarrow> None)"

definition need_str :: "(string \<times> json) list \<Rightarrow> string \<Rightarrow> string option" where
  "need_str d k = (case map_of d k of Some (JStr s) \<Rightarrow> Some s | _ \<Rightarrow> None)"

text \<open>
  \<open>from_dict\<close>; \<^const>\<open>None\<close> stands for the \<open>KeyError\<close>, \<open>ValueError\<close> or \<open>TypeError\<close> it raises
  on a payload that is not a job.  Python does not check that the string fields hold strings;
  the record is typed, so such a payload counts as malformed here.
\<close>

definition from_dict :: "(string \<times> json) list \<Rightarrow> job option" where
  "from_dict d =
     Option.bind (need_str d ''job_id'') (\<lambda>jid.
     Option.bind (need_str d ''engine'') (\<lambda>eng.
     Option.bind (need_str d ''filename'') (\<lambda>fname.
     Option.bind (Option.bind (need_str d ''status'') JobStatus_of) (\<lambda>st.
     Option.bind (Option.bind (map_of d ''created_at'') j_float) (\<lambda>ca.
     Option.bind (get_float d ''started_at'') (\<lambda>sa.
     Option.bind (get_float d ''finished_at'') (\<lambda>fa.
     Option.bind (get_float d ''expires_at'') (\<lambda>ea.
     Option.bind (get_str d ''input_sha256'') (\<lambda>ish.
     Option.bind (get_str d ''result_dir'') (\<lambda>rd.
     Option.bind (get_str d ''worker_runtime'') (\<lambda>wr.
     Option.bind (get_str d ''worker_tier'') (\<lambda>wt.
     Option.bind (get_str d ''target_tier'') (\<lambda>tt.
     Option.bind (get_str d ''net_policy'') (\<lambda>np.
     Option.bind (get_float d ''claimable_after'') (\<lambda>caf.
     Option.bind (if py_truthy (jget d ''materialise_attempts'')
                  then j_int (jget d ''materialise_attempts'') else Some 0) (\<lambda>ma.
     Option.bind (get_str d ''error'') (\<lambda>err.
     Option.bind (get_str d ''claim_id'') (\<lambda>cid.
     Option.bind (case jget d ''security_warnings'' of
                    JNull \<Rightarrow> Some [] | JList ws \<Rightarrow> Some ws | _ \<Rightarrow> None) (\<lambda>sw.
     Option.bind (case jget d ''params'' of
                    JObj kvs \<Rightarrow> Some kvs | x \<Rightarrow> (if py_truthy x then None else Some [])) (\<lambda>ps.
     Some \<lparr>job_id = jid, engine = eng, filename = fname, status = st, created_at = ca,
           started_at = sa, finished_at = fa, expires_at = ea, input_sha256 = ish,
           result_dir = rd, worker_runtime = wr, worker_tier = wt, target_tier = tt,
           net_policy = np, claimable_after = caf, materialise_attempts = ma, error = err,
           claim_id = cid, security_warnings = sw, params = ps,
           result_summary = jget d ''result_summary''\<rparr>))))))))))))))))))))"

section \<open>Field updates\<close>

text \<open>
  One keyword argument of \<open>update(job_id, **fields)\<close>.  The values have the type of their
  field; \<open>FUnknown\<close> is a name that is not a field of \<open>Job\<close>, which every backend rejects.
\<close>

datatype field_upd =
    FEngine string
  | FFilename string
  | FStatus job_status
  | FCreatedAt real
  | FStartedAt "real option"
  | FFinishedAt "real option"
  | FExpiresAt "real option"
  | FInputSha "string option"
  | FResultDir "string option"
  | FWorkerRuntime "string option"
  | FWorkerTier "string option"
  | FTargetTier "string option"
  | FNetPolicy "string option"
  | FClaimableAfter "real option"
  | FMaterialiseAttempts int
  | FError "string option"
  | FClaimId "string option"
  | FWarnings "json list"
  | FParams "(string \<times> json) list"
  | FSummary json
  | FUnknown string

fun field_known :: "field_upd \<Rightarrow> bool" where
  "field_known (FUnknown _) = False"
| "field_known _ = True"

text \<open>\<open>setattr(job, k, v)\<close>\<close>

fun setattr :: "field_upd \<Rightarrow> job \<Rightarrow> job" where
  "setattr (FEngine x) j = j\<lparr>engine := x\<rparr>"
| "setattr (FFilename x) j = j\<lparr>filename := x\<rparr>"
| "setattr (FStatus x) j = j\<lparr>status := x\<rparr>"
| "setattr (FCreatedAt x) j = j\<lparr>created_at := x\<rparr>"
| "setattr (FStartedAt x) j = j\<lparr>started_at := x\<rparr>"
| "setattr (FFinishedAt x) j = j\<lparr>finished_at := x\<rparr>"
| "setattr (FExpiresAt x) j = j\<lparr>expires_at := x\<rparr>"
| "setattr (FInputSha x) j = j\<lparr>input_sha256 := x\<rparr>"
| "setattr (FResultDir x) j = j\<lparr>result_dir := x\<rparr>"
| "setattr (FWorkerRuntime x) j = j\<lparr>worker_runtime := x\<rparr>"
| "setattr (FWorkerTier x) j = j\<lparr>worker_tier := x\<rparr>"
| "setattr (FTargetTier x) j = j\<lparr>target_tier := x\<rparr>"
| "setattr (FNetPolicy x) j = j\<lparr>net_policy := x\<rparr>"
| "setattr (FClaimableAfter x) j = j\<lparr>claimable_after := x\<rparr>"
| "setattr (FMaterialiseAttempts x) j = j\<lparr>materialise_attempts := x\<rparr>"
| "setattr (FError x) j = j\<lparr>error := x\<rparr>"
| "setattr (FClaimId x) j = j\<lparr>claim_id := x\<rparr>"
| "setattr (FWarnings x) j = j\<lparr>security_warnings := x\<rparr>"
| "setattr (FParams x) j = j\<lparr>params := x\<rparr>"
| "setattr (FSummary x) j = j\<lparr>result_summary := x\<rparr>"
| "setattr (FUnknown _) j = j"

definition setattrs :: "field_upd list \<Rightarrow> job \<Rightarrow> job" where
  "setattrs fs j = fold setattr fs j"

lemma setattr_job_id [simp]: "job_id (setattr f j) = job_id j"
  by (cases f) auto

lemma setattrs_job_id [simp]: "job_id (setattrs fs j) = job_id j"
  unfolding setattrs_def by (induction fs arbitrary: j) auto

lemma setattrs_Nil [simp]: "setattrs [] j = j"
  by (simp add: setattrs_def)

lemma setattrs_Cons [simp]: "setattrs (f # fs) j = setattrs fs (setattr f j)"
  by (simp add: setattrs_def)

text \<open>No update touches a field it does not name; here the two fields the fences read.\<close>

fun sets_status :: "field_upd \<Rightarrow> bool" where
  "sets_status (FStatus _) = True"
| "sets_status _ = False"

fun sets_claim :: "field_upd \<Rightarrow> bool" where
  "sets_claim (FClaimId _) = True"
| "sets_claim _ = False"

lemma setattr_status [simp]: "\<not> sets_status f \<Longrightarrow> status (setattr f j) = status j"
  by (cases f) auto

lemma setattr_claim [simp]: "\<not> sets_claim f \<Longrightarrow> claim_id (setattr f j) = claim_id j"
  by (cases f) auto

lemma setattrs_claim: "list_all (\<lambda>f. \<not> sets_claim f) fs \<Longrightarrow> claim_id (setattrs fs j) = claim_id j"
  by (induction fs arbitrary: j) auto

section \<open>Routing helpers\<close>

text \<open>Tier vocabulary.\<close>

definition NETWORK_ENDPOINT_TIERS :: "string list" where
  "NETWORK_ENDPOINT_TIERS =
     [''aws-ec2'', ''aws-ec2-hibernate'', ''aws-lambda-microvm'', ''aws-lambda-snapstart'',
      ''static'', ''cascade'']"

definition WARM_TIERS :: "string list" where
  "WARM_TIERS = [''firecracker'', ''gvisor'', ''libvirt-vm''] @ NETWORK_ENDPOINT_TIERS"

definition VALID_TIERS :: "string list" where
  "VALID_TIERS = ''cold'' # WARM_TIERS"

text \<open>The engine argument of \<open>claim_next\<close>: absent, one name, or a collection.\<close>

datatype engine_arg = AnyEngine | OneEngine string | Engines "string list"

fun normalize_engine_filter :: "engine_arg \<Rightarrow> string list option" where
  "normalize_engine_filter AnyEngine = None"
| "normalize_engine_filter (OneEngine e) = Some [e]"
| "normalize_engine_filter (Engines es) = (if es = [] then None else Some es)"

fun untargeted_cutoff :: "pyfloat \<Rightarrow> real \<Rightarrow> real option res" where
  "untargeted_cutoff (Fin v) now =
     (if v < 0 then Inl (ValueError ''untargeted_min_age_s must be a finite value >= 0'')
      else if v = 0 then Inr None else Inr (Some (now - v)))"
| "untargeted_cutoff _ now = Inl (ValueError ''untargeted_min_age_s must be a finite value >= 0'')"

definition NODE_CLAIM_PREFIX :: string where
  "NODE_CLAIM_PREFIX = ''node:''"

definition is_node_claim :: "string option \<Rightarrow> bool" where
  "is_node_claim c = startswith (case c of None \<Rightarrow> '''' | Some s \<Rightarrow> s) NODE_CLAIM_PREFIX"

text \<open>
  The claim predicate every backend applies: queued, routed to this tier, for one of these
  engines, not excluded, not deferred past now, and, if untargeted, old enough.
\<close>

definition tier_match :: "string option \<Rightarrow> job \<Rightarrow> bool" where
  "tier_match tier j \<longleftrightarrow> target_tier j = None \<or> target_tier j = tier"

definition claimable ::
  "string option \<Rightarrow> string list option \<Rightarrow> string list \<Rightarrow> real \<Rightarrow> real option \<Rightarrow> job \<Rightarrow> bool" where
  "claimable tier engines excluded now cutoff j \<longleftrightarrow>
     status j = QUEUED
     \<and> tier_match tier j
     \<and> (case engines of None \<Rightarrow> True | Some es \<Rightarrow> engine j \<in> set es)
     \<and> job_id j \<notin> set excluded
     \<and> (case claimable_after j of None \<Rightarrow> True | Some t \<Rightarrow> t \<le> now)
     \<and> (case cutoff of None \<Rightarrow> True | Some c \<Rightarrow> target_tier j \<noteq> None \<or> created_at j \<le> c)"

definition claim_key :: "job \<Rightarrow> real \<times> string" where
  "claim_key j = (created_at j, job_id j)"

text \<open>The write \<open>claim_next\<close> makes.\<close>

definition claimed :: "real \<Rightarrow> string \<Rightarrow> job \<Rightarrow> job" where
  "claimed started token j = j\<lparr>status := RUNNING, started_at := Some started, claim_id := Some token\<rparr>"

section \<open>Listing\<close>

definition LISTABLE_SORT_FIELDS :: "string list" where
  "LISTABLE_SORT_FIELDS = [''created_at'', ''filename'', ''status'', ''finished_at'']"

text \<open>The page window at the end of \<open>filter_sort_window\<close>.\<close>

definition page_window :: "int \<Rightarrow> int option \<Rightarrow> 'a list \<Rightarrow> 'a list" where
  "page_window offset limit xs =
     (let ys = (if offset \<noteq> 0 then py_from offset xs else xs)
      in case limit of None \<Rightarrow> ys | Some l \<Rightarrow> py_upto l ys)"

text \<open>
  \<open>_job_sort_key\<close> returns a key function; its four keys have two types, so the model sorts
  by each of them.
\<close>

definition sort_jobs :: "string \<Rightarrow> bool \<Rightarrow> job list \<Rightarrow> job list" where
  "sort_jobs field reverse js =
     (if field = ''filename'' then sorted_by reverse (\<lambda>j. (py_lower (filename j), job_id j)) js
      else if field = ''status'' then sorted_by reverse (\<lambda>j. (status_value (status j), job_id j)) js
      else if field = ''finished_at'' then
        sorted_by reverse (\<lambda>j. (case finished_at j of None \<Rightarrow> 0 | Some t \<Rightarrow> t, job_id j)) js
      else sorted_by reverse (\<lambda>j. (created_at j, job_id j)) js)"

definition filter_sort_window ::
  "job list \<Rightarrow> string option \<Rightarrow> string option \<Rightarrow> string \<Rightarrow> bool \<Rightarrow> int \<Rightarrow> int option \<Rightarrow> job list" where
  "filter_sort_window js q sort_f order newest_first offset limit =
     (let js1 = (case q of None \<Rightarrow> js
                 | Some qs \<Rightarrow> if qs = [] then js
                             else filter (\<lambda>j. py_in (py_lower qs) (py_lower (filename j))) js);
          js2 = (case sort_f of
                   Some f \<Rightarrow> if f \<in> set LISTABLE_SORT_FIELDS
                     then sort_jobs f (py_lower (if order = [] then ''desc'' else order) \<noteq> ''asc'') js1
                     else if newest_first then sort_jobs ''created_at'' True js1 else js1
                 | None \<Rightarrow> if newest_first then sort_jobs ''created_at'' True js1 else js1)
      in page_window offset limit js2)"

end
