(* ===== verification/Job_Spec.thy ===== *)
theory Job_Spec
  imports Job_Model
begin

text \<open>
  What the \<open>JobStore\<close> protocol of \<^verbatim>\<open>host/jobs/base.py\<close> promises, as a step relation on a
  partial map from job ids to jobs, and the locale of the backends that implement it.  The
  protocol's safety argument (the claim token as a fence against a stale owner) is proved
  once, about the relation, and reaches each backend through its interpretation.
\<close>

section \<open>Operations and their outcomes\<close>

record claim_req =
  c_tier :: "string option"
  c_engine :: engine_arg
  c_exclude :: "string list"
  c_min_age :: pyfloat
  c_now :: real
  c_started :: real
  c_token :: string

datatype store_op =
    OpCreate job
  | OpUpdate string "field_upd list"
  | OpCas string job_status "string option" "field_upd list"
  | OpClaim claim_req
  | OpDelete string

datatype outcome = ODone | OErr py_exc | OBool bool | OJob "job option"

definition cas_guard :: "job_status \<Rightarrow> string option \<Rightarrow> job \<Rightarrow> bool" where
  "cas_guard st c j \<longleftrightarrow> status j = st \<and> (c = None \<or> claim_id j = c)"

definition eligible_job :: "claim_req \<Rightarrow> real option \<Rightarrow> job \<Rightarrow> bool" where
  "eligible_job r cutoff j =
     claimable (c_tier r) (normalize_engine_filter (c_engine r)) (c_exclude r) (c_now r) cutoff j"

definition win :: "claim_req \<Rightarrow> job \<Rightarrow> job" where
  "win r j = claimed (c_started r) (c_token r) j"

inductive abs_step :: "store_op \<Rightarrow> (string \<rightharpoonup> job) \<Rightarrow> outcome \<Rightarrow> (string \<rightharpoonup> job) \<Rightarrow> bool" where
  create: "abs_step (OpCreate j) m ODone (m(job_id j \<mapsto> j))"
| update: "m k = Some j \<Longrightarrow>
     abs_step (OpUpdate k fs) m (OJob (Some (setattrs fs j))) (m(k \<mapsto> setattrs fs j))"
| update_missing: "m k = None \<Longrightarrow> abs_step (OpUpdate k fs) m (OErr (KeyError k)) m"
| cas_hit: "m k = Some j \<Longrightarrow> cas_guard st c j \<Longrightarrow>
     abs_step (OpCas k st c fs) m (OBool True) (m(k \<mapsto> setattrs fs j))"
| cas_miss: "(\<forall>j. m k = Some j \<longrightarrow> \<not> cas_guard st c j) \<Longrightarrow>
     abs_step (OpCas k st c fs) m (OBool False) m"
| claim_error: "untargeted_cutoff (c_min_age r) (c_now r) = Inl e \<Longrightarrow>
     abs_step (OpClaim r) m (OErr e) m"
| claim_none: "untargeted_cutoff (c_min_age r) (c_now r) = Inr cutoff \<Longrightarrow>
     (\<forall>k j. m k = Some j \<longrightarrow> \<not> eligible_job r cutoff j) \<Longrightarrow>
     abs_step (OpClaim r) m (OJob None) m"
| claim_some: "untargeted_cutoff (c_min_age r) (c_now r) = Inr cutoff \<Longrightarrow>
     m k = Some j \<Longrightarrow> eligible_job r cutoff j \<Longrightarrow>
     (\<forall>k' j'. m k' = Some j' \<longrightarrow> eligible_job r cutoff j' \<longrightarrow> claim_key j \<le> claim_key j') \<Longrightarrow>
     abs_step (OpClaim r) m (OJob (Some (win r j))) (m(k \<mapsto> win r j))"
| delete: "abs_step (OpDelete k) m ODone (m(k := None))"

inductive_cases abs_step_cas: "abs_step (OpCas k st c fs) m r m'"
inductive_cases abs_step_claim: "abs_step (OpClaim q) m r m'"

section \<open>What callers may pass\<close>

text \<open>
  The JSON backends drop a timestamp that is exactly zero (see \<open>get_float\<close>), so a field
  update is admissible when it names a field and stores no zero timestamp.
\<close>

fun field_ok :: "field_upd \<Rightarrow> bool" where
  "field_ok (FUnknown _) = False"
| "field_ok (FStartedAt t) = (t \<noteq> Some 0)"
| "field_ok (FFinishedAt t) = (t \<noteq> Some 0)"
| "field_ok (FExpiresAt t) = (t \<noteq> Some 0)"
| "field_ok (FClaimableAfter t) = (t \<noteq> Some 0)"
| "field_ok _ = True"

definition json_safe :: "job \<Rightarrow> bool" where
  "json_safe j \<longleftrightarrow> started_at j \<noteq> Some 0 \<and> finished_at j \<noteq> Some 0 \<and> expires_at j \<noteq> Some 0
     \<and> claimable_after j \<noteq> Some 0"

fun op_ok :: "store_op \<Rightarrow> bool" where
  "op_ok (OpCreate j) = json_safe j"
| "op_ok (OpUpdate k fs) = list_all field_ok fs"
| "op_ok (OpCas k st c fs) = list_all field_ok fs"
| "op_ok (OpClaim r) = (c_started r \<noteq> 0)"
| "op_ok (OpDelete k) = True"

lemma field_ok_known: "field_ok f \<Longrightarrow> field_known f"
  by (cases f) auto

lemma fields_ok_known: "list_all field_ok fs \<Longrightarrow> list_all field_known fs"
  by (induction fs) (auto simp: field_ok_known)

lemma setattr_json_safe: "field_ok f \<Longrightarrow> json_safe j \<Longrightarrow> json_safe (setattr f j)"
  by (cases f) (auto simp: json_safe_def)

lemma setattrs_json_safe: "list_all field_ok fs \<Longrightarrow> json_safe j \<Longrightarrow> json_safe (setattrs fs j)"
  by (induction fs arbitrary: j) (auto simp: setattr_json_safe)

lemma win_json_safe: "c_started r \<noteq> 0 \<Longrightarrow> json_safe j \<Longrightarrow> json_safe (win r j)"
  by (auto simp: json_safe_def win_def claimed_def)

lemma win_simps [simp]:
  "job_id (win r j) = job_id j" "status (win r j) = RUNNING" "claim_id (win r j) = Some (c_token r)"
  "created_at (win r j) = created_at j"
  by (auto simp: win_def claimed_def)

section \<open>The claim token as a fence\<close>

text \<open>
  An operation is discreet about a token when it does not mint it and, outside a claim,
  never puts a job into RUNNING.  That is how every writer of the source behaves: claims
  stamp a fresh \<open>uuid4\<close>, requeues clear the token, terminal writes leave RUNNING.
\<close>

fun field_discreet :: "string \<Rightarrow> field_upd \<Rightarrow> bool" where
  "field_discreet t (FClaimId c) = (c \<noteq> Some t)"
| "field_discreet t (FStatus st) = (st \<noteq> RUNNING)"
| "field_discreet t _ = True"

fun discreet :: "string \<Rightarrow> store_op \<Rightarrow> bool" where
  "discreet t (OpCreate j) = (claim_id j \<noteq> Some t)"
| "discreet t (OpUpdate k fs) = list_all (field_discreet t) fs"
| "discreet t (OpCas k st c fs) = list_all (field_discreet t) fs"
| "discreet t (OpClaim r) = (c_token r \<noteq> t)"
| "discreet t (OpDelete k) = True"

text \<open>The token is spent: no running job carries it.\<close>

definition live_claim :: "string \<Rightarrow> job \<Rightarrow> bool" where
  "live_claim t j \<longleftrightarrow> status j = RUNNING \<and> claim_id j = Some t"

definition spent :: "string \<Rightarrow> (string \<rightharpoonup> job) \<Rightarrow> bool" where
  "spent t m \<longleftrightarrow> (\<forall>k j. m k = Some j \<longrightarrow> \<not> live_claim t j)"

text \<open>The token is held by at most the job stored under \<open>k\<close>.\<close>

definition only_holder :: "string \<Rightarrow> string \<Rightarrow> (string \<rightharpoonup> job) \<Rightarrow> bool" where
  "only_holder t k m \<longleftrightarrow> (\<forall>k' j. m k' = Some j \<longrightarrow> claim_id j = Some t \<longrightarrow> k' = k)"

definition unminted :: "string \<Rightarrow> (string \<rightharpoonup> job) \<Rightarrow> bool" where
  "unminted t m \<longleftrightarrow> (\<forall>k j. m k = Some j \<longrightarrow> claim_id j \<noteq> Some t)"

lemma setattr_live: "field_discreet t f \<Longrightarrow> live_claim t (setattr f j) \<Longrightarrow> live_claim t j"
  by (cases f) (auto simp: live_claim_def)

lemma setattrs_live: "list_all (field_discreet t) fs \<Longrightarrow> live_claim t (setattrs fs j) \<Longrightarrow> live_claim t j"
  by (induction fs arbitrary: j) (auto dest: setattr_live)

lemma setattr_holds: "field_discreet t f \<Longrightarrow> claim_id (setattr f j) = Some t \<Longrightarrow> claim_id j = Some t"
  by (cases f) auto

lemma setattrs_holds:
  "list_all (field_discreet t) fs \<Longrightarrow> claim_id (setattrs fs j) = Some t \<Longrightarrow> claim_id j = Some t"
  by (induction fs arbitrary: j) (auto dest: setattr_holds)

lemma live_win [simp]: "live_claim t (win r j) \<longleftrightarrow> c_token r = t"
  by (simp add: live_claim_def)

text \<open>A write that sets the status and is discreet leaves the job outside RUNNING.\<close>

lemma setattr_not_running:
  "field_discreet t f \<Longrightarrow> sets_status f \<or> status j \<noteq> RUNNING \<Longrightarrow> status (setattr f j) \<noteq> RUNNING"
  by (cases f) auto

lemma setattrs_not_running:
  "list_all (field_discreet t) fs \<Longrightarrow> list_ex sets_status fs \<or> status j \<noteq> RUNNING \<Longrightarrow>
   status (setattrs fs j) \<noteq> RUNNING"
proof (induction fs arbitrary: j)
  case Nil
  then show ?case by simp
next
  case (Cons f fs)
  have "list_ex sets_status fs \<or> status (setattr f j) \<noteq> RUNNING"
    using Cons.prems setattr_not_running [of t f j] by auto
  with Cons show ?case by simp
qed

lemma abs_step_spent:
  "abs_step op m r m' \<Longrightarrow> discreet t op \<Longrightarrow> spent t m \<Longrightarrow> spent t m'"
  by (induction rule: abs_step.induct)
     (auto simp: spent_def dest: setattrs_live split: if_splits,
      auto simp: live_claim_def)

lemma abs_step_unminted:
  "abs_step op m r m' \<Longrightarrow> discreet t op \<Longrightarrow> unminted t m \<Longrightarrow> unminted t m'"
  by (induction rule: abs_step.induct)
     (auto simp: unminted_def dest: setattrs_holds split: if_splits)

lemma abs_step_only_holder:
  "abs_step op m r m' \<Longrightarrow> discreet t op \<Longrightarrow> only_holder t k m \<Longrightarrow> only_holder t k m'"
  by (induction rule: abs_step.induct)
     (auto simp: only_holder_def dest: setattrs_holds split: if_splits)

lemma unminted_spent: "unminted t m \<Longrightarrow> spent t m"
  by (auto simp: unminted_def spent_def live_claim_def)

lemma claim_only_holder:
  assumes "abs_step (OpClaim r) m (OJob (Some j)) m'" and "unminted (c_token r) m"
  shows "\<exists>k. only_holder (c_token r) k m' \<and> m' k = Some j"
proof (rule abs_step_claim [OF assms(1)])
  fix cutoff k ja
  assume "OJob (Some j) = OJob (Some (win r ja))" and m': "m' = m(k \<mapsto> win r ja)"
  then have "m' k = Some j" by simp
  moreover have "only_holder (c_token r) k m'"
    using assms(2) m' by (simp add: only_holder_def unminted_def)
  ultimately show ?thesis by blast
qed auto

text \<open>A fenced write with a spent token is refused.\<close>

lemma spent_fence:
  "abs_step (OpCas k RUNNING (Some t) fs) m r m' \<Longrightarrow> spent t m \<Longrightarrow> r = OBool False \<and> m' = m"
  by (erule abs_step_cas) (auto simp: cas_guard_def spent_def live_claim_def)

text \<open>A fenced write that takes the job out of RUNNING spends the token.\<close>

lemma fenced_write_spends:
  assumes step: "abs_step (OpCas k RUNNING (Some t) fs) m (OBool True) m'"
    and holder: "only_holder t h m"
    and fs: "list_all (field_discreet t) fs" "list_ex sets_status fs"
  shows "spent t m'"
proof (rule abs_step_cas [OF step])
  fix j
  assume m': "m' = m(k \<mapsto> setattrs fs j)" and j: "m k = Some j" "cas_guard RUNNING (Some t) j"
  then have "k = h" using holder by (auto simp: only_holder_def cas_guard_def)
  with holder have "\<And>k' x. k' \<noteq> k \<Longrightarrow> m k' = Some x \<Longrightarrow> \<not> live_claim t x"
    by (auto simp: only_holder_def live_claim_def)
  moreover have "\<not> live_claim t (setattrs fs j)"
    using setattrs_not_running fs by (auto simp: live_claim_def)
  ultimately show ?thesis by (auto simp: spent_def m')
qed auto

section \<open>The interface of a backend\<close>

text \<open>The state after a sequence of operations, by whatever clients.\<close>

fun run_ops :: "(store_op \<Rightarrow> 's \<Rightarrow> outcome \<times> 's) \<Rightarrow> store_op list \<Rightarrow> 's \<Rightarrow> 's" where
  "run_ops step [] s = s"
| "run_ops step (op # ops) s = run_ops step ops (snd (step op s))"

locale job_store =
  fixes inv :: "'s \<Rightarrow> bool"
    and abs :: "'s \<Rightarrow> (string \<rightharpoonup> job)"
    and get :: "string \<Rightarrow> 's \<Rightarrow> job option"
    and step :: "store_op \<Rightarrow> 's \<Rightarrow> outcome \<times> 's"
  assumes get_abs: "inv s \<Longrightarrow> get k s = abs s k"
    and step_inv: "inv s \<Longrightarrow> op_ok op \<Longrightarrow> inv (snd (step op s))"
    and step_refines: "inv s \<Longrightarrow> op_ok op \<Longrightarrow>
          abs_step op (abs s) (fst (step op s)) (abs (snd (step op s)))"
begin

abbreviation run :: "store_op list \<Rightarrow> 's \<Rightarrow> 's" where
  "run \<equiv> run_ops step"

lemma run_inv: "inv s \<Longrightarrow> list_all op_ok ops \<Longrightarrow> inv (run ops s)"
  by (induction ops arbitrary: s) (auto simp: step_inv)

lemma run_preserves:
  assumes pres: "\<And>op m r m'. abs_step op m r m' \<Longrightarrow> P op \<Longrightarrow> Q m \<Longrightarrow> Q m'"
  shows "inv s \<Longrightarrow> list_all op_ok ops \<Longrightarrow> list_all P ops \<Longrightarrow> Q (abs s) \<Longrightarrow> Q (abs (run ops s))"
proof (induction ops arbitrary: s)
  case Nil
  then show ?case by simp
next
  case (Cons op ops)
  from Cons.prems have "Q (abs (snd (step op s)))"
    by (auto intro: pres [OF step_refines])
  with Cons show ?case by (simp add: step_inv)
qed

lemma run_spent:
  "inv s \<Longrightarrow> list_all op_ok ops \<Longrightarrow> list_all (discreet t) ops \<Longrightarrow> spent t (abs s) \<Longrightarrow>
   spent t (abs (run ops s))"
  by (rule run_preserves [where P = "discreet t"]) (auto intro: abs_step_spent)

lemma run_unminted:
  "inv s \<Longrightarrow> list_all op_ok ops \<Longrightarrow> list_all (discreet t) ops \<Longrightarrow> unminted t (abs s) \<Longrightarrow>
   unminted t (abs (run ops s))"
  by (rule run_preserves [where P = "discreet t"]) (auto intro: abs_step_unminted)

lemma run_only_holder:
  "inv s \<Longrightarrow> list_all op_ok ops \<Longrightarrow> list_all (discreet t) ops \<Longrightarrow> only_holder t k (abs s) \<Longrightarrow>
   only_holder t k (abs (run ops s))"
  by (rule run_preserves [where P = "discreet t"]) (auto intro: abs_step_only_holder)

text \<open>
  One terminal write per claim: after a claim with a fresh token, whatever other clients do
  before, between and after, once one write fenced by that token took the job out of
  RUNNING, every later write fenced by it is refused and changes nothing.
\<close>

lemma one_terminal_write:
  assumes inv: "inv s" and fresh: "unminted (c_token r) (abs s)"
    and claim: "step (OpClaim r) s = (OJob (Some j), s1)" and started: "c_started r \<noteq> 0"
    and ops: "list_all op_ok ops" "list_all (discreet (c_token r)) ops"
    and ops': "list_all op_ok ops'" "list_all (discreet (c_token r)) ops'"
    and fs: "list_all field_ok fs" "list_all (field_discreet (c_token r)) fs"
            "list_ex sets_status fs"
    and fs': "list_all field_ok fs'"
    and won: "step (OpCas k RUNNING (Some (c_token r)) fs) (run ops s1) = (OBool True, s2)"
  shows "fst (step (OpCas k' RUNNING (Some (c_token r)) fs') (run ops' s2)) = OBool False"
    and "abs (snd (step (OpCas k' RUNNING (Some (c_token r)) fs') (run ops' s2))) = abs (run ops' s2)"
proof -
  let ?t = "c_token r"
  have i1: "inv s1" and a1: "abs_step (OpClaim r) (abs s) (OJob (Some j)) (abs s1)"
    using step_inv [of s "OpClaim r"] step_refines [of s "OpClaim r"] inv started claim by auto
  obtain h where h: "only_holder ?t h (abs s1)"
    using claim_only_holder [OF a1 fresh] by blast
  have i2: "inv (run ops s1)" using i1 ops(1) by (rule run_inv)
  have h2: "only_holder ?t h (abs (run ops s1))"
    using i1 ops h by (rule run_only_holder)
  have i3: "inv s2" and a3: "abs_step (OpCas k RUNNING (Some ?t) fs) (abs (run ops s1)) (OBool True) (abs s2)"
    using step_inv [of _ "OpCas k RUNNING (Some ?t) fs"] i2 fs(1)
      step_refines [of _ "OpCas k RUNNING (Some ?t) fs"] won by (metis fst_conv snd_conv op_ok.simps(3))+
  have "spent ?t (abs s2)"
    using a3 h2 fs(2,3) by (rule fenced_write_spends)
  with i3 ops' have sp: "spent ?t (abs (run ops' s2))" by (auto intro: run_spent)
  have "abs_step (OpCas k' RUNNING (Some ?t) fs') (abs (run ops' s2))
      (fst (step (OpCas k' RUNNING (Some ?t) fs') (run ops' s2)))
      (abs (snd (step (OpCas k' RUNNING (Some ?t) fs') (run ops' s2))))"
    using run_inv [OF i3 ops'(1)] fs' by (intro step_refines) auto
  from spent_fence [OF this sp]
  show "fst (step (OpCas k' RUNNING (Some ?t) fs') (run ops' s2)) = OBool False"
    and "abs (snd (step (OpCas k' RUNNING (Some ?t) fs') (run ops' s2))) = abs (run ops' s2)"
    by auto
qed

text \<open>A stale owner: the token it holds no longer names a running job.\<close>

lemma stale_owner:
  assumes "inv s" "spent t (abs s)" "list_all op_ok ops" "list_all (discreet t) ops" "list_all field_ok fs"
  shows "fst (step (OpCas k RUNNING (Some t) fs) (run ops s)) = OBool False"
    and "get k' (snd (step (OpCas k RUNNING (Some t) fs) (run ops s))) = get k' (run ops s)"
proof -
  have i: "inv (run ops s)" using assms by (auto intro: run_inv)
  have sp: "spent t (abs (run ops s))" using assms by (auto intro: run_spent)
  have st: "abs_step (OpCas k RUNNING (Some t) fs) (abs (run ops s))
      (fst (step (OpCas k RUNNING (Some t) fs) (run ops s)))
      (abs (snd (step (OpCas k RUNNING (Some t) fs) (run ops s))))"
    and i': "inv (snd (step (OpCas k RUNNING (Some t) fs) (run ops s)))"
    using i assms(5) by (auto intro: step_refines step_inv)
  from spent_fence [OF st sp]
  show "fst (step (OpCas k RUNNING (Some t) fs) (run ops s)) = OBool False"
    and "get k' (snd (step (OpCas k RUNNING (Some t) fs) (run ops s))) = get k' (run ops s)"
    by (auto simp: get_abs [OF i] get_abs [OF i'])
qed

end

end
