(* ===== verification/Job_Memory.thy ===== *)
theory Job_Memory
  imports Job_Spec
begin

text \<open>
  The in-memory backend, \<^verbatim>\<open>host/jobs/memory.py\<close>.  Every method runs under one lock, so a
  method is one step of the state.  \<open>_jobs\<close> is an insertion-ordered dictionary; the
  snapshots handed to callers are values here, so aliasing cannot arise.
\<close>

section \<open>State and operations\<close>

record mem_store =
  mem_jobs :: "(string \<times> job) list"
  mem_blob_target :: "string option"
  mem_signing_key :: "string option"

definition mem_empty :: mem_store where
  "mem_empty = \<lparr>mem_jobs = [], mem_blob_target = None, mem_signing_key = None\<rparr>"

definition mem_claim_blob_target :: "string \<Rightarrow> mem_store \<Rightarrow> string option \<times> mem_store" where
  "mem_claim_blob_target fp s =
     (let s' = (if mem_blob_target s = None then s\<lparr>mem_blob_target := Some fp\<rparr> else s)
      in (mem_blob_target s', s'))"

definition mem_get_blob_target :: "mem_store \<Rightarrow> string option" where
  "mem_get_blob_target s = mem_blob_target s"

definition mem_clear_blob_target :: "mem_store \<Rightarrow> mem_store" where
  "mem_clear_blob_target s = s\<lparr>mem_blob_target := None\<rparr>"

definition mem_claim_signing_key :: "string \<Rightarrow> mem_store \<Rightarrow> string option \<times> mem_store" where
  "mem_claim_signing_key cand s =
     (let s' = (if mem_signing_key s = None then s\<lparr>mem_signing_key := Some cand\<rparr> else s)
      in (mem_signing_key s', s'))"

definition mem_get_signing_key :: "mem_store \<Rightarrow> string option" where
  "mem_get_signing_key s = mem_signing_key s"

definition mem_clear_signing_key :: "mem_store \<Rightarrow> mem_store" where
  "mem_clear_signing_key s = s\<lparr>mem_signing_key := None\<rparr>"

definition mem_create :: "job \<Rightarrow> mem_store \<Rightarrow> mem_store" where
  "mem_create j s = s\<lparr>mem_jobs := AList.update (job_id j) j (mem_jobs s)\<rparr>"

definition mem_get :: "string \<Rightarrow> mem_store \<Rightarrow> job option" where
  "mem_get k s = map_of (mem_jobs s) k"

text \<open>
  The loop of \<open>update\<close> sets attributes on the live object and raises at the first unknown
  name, so the fields before it stay written.
\<close>

fun live_setattrs :: "field_upd list \<Rightarrow> job \<Rightarrow> py_exc option \<times> job" where
  "live_setattrs [] j = (None, j)"
| "live_setattrs (f # fs) j =
     (if field_known f then live_setattrs fs (setattr f j)
      else (Some (ValueError ''unknown Job field in update()''), j))"

definition mem_update :: "string \<Rightarrow> field_upd list \<Rightarrow> mem_store \<Rightarrow> job res \<times> mem_store" where
  "mem_update k fs s =
     (case map_of (mem_jobs s) k of
        None \<Rightarrow> (Inl (KeyError k), s)
      | Some j \<Rightarrow>
          (case live_setattrs fs j of
             (err, j') \<Rightarrow>
               (case err of None \<Rightarrow> Inr j' | Some e \<Rightarrow> Inl e,
                s\<lparr>mem_jobs := AList.update k j' (mem_jobs s)\<rparr>)))"

definition mem_update_if_status ::
  "string \<Rightarrow> job_status \<Rightarrow> string option \<Rightarrow> field_upd list \<Rightarrow> mem_store \<Rightarrow> bool res \<times> mem_store" where
  "mem_update_if_status k expect_status expect_claim_id fs s =
     (if \<not> list_all field_known fs
      then (Inl (ValueError ''unknown Job field in update_if_status()''), s)
      else case map_of (mem_jobs s) k of
        None \<Rightarrow> (Inr False, s)
      | Some j \<Rightarrow>
          if status j \<noteq> expect_status then (Inr False, s)
          else if expect_claim_id \<noteq> None \<and> claim_id j \<noteq> expect_claim_id then (Inr False, s)
          else (Inr True, s\<lparr>mem_jobs := AList.update k (setattrs fs j) (mem_jobs s)\<rparr>))"

definition mem_list ::
  "job_status option \<Rightarrow> string option \<Rightarrow> string option \<Rightarrow> string \<Rightarrow> bool \<Rightarrow> int \<Rightarrow> int option \<Rightarrow>
   mem_store \<Rightarrow> job list" where
  "mem_list st q sort_f order newest_first offset limit s =
     (let js = map snd (mem_jobs s);
          js1 = (case st of None \<Rightarrow> js | Some x \<Rightarrow> filter (\<lambda>j. status j = x) js)
      in filter_sort_window js1 q sort_f order newest_first offset limit)"

text \<open>The chain of filters in \<open>count\<close>, as a test on one job.\<close>

definition count_match ::
  "job_status option \<Rightarrow> string option \<Rightarrow> engine_arg \<Rightarrow> string option \<Rightarrow> bool \<Rightarrow> job \<Rightarrow> bool" where
  "count_match st q eng tier untargeted_only j \<longleftrightarrow>
     (case st of None \<Rightarrow> True | Some x \<Rightarrow> status j = x)
     \<and> (case normalize_engine_filter eng of None \<Rightarrow> True | Some es \<Rightarrow> engine j \<in> set es)
     \<and> (if untargeted_only then target_tier j = None
        else tier = None \<or> target_tier j = None \<or> target_tier j = tier)
     \<and> (case q of None \<Rightarrow> True
        | Some qs \<Rightarrow> qs = [] \<or> py_in (py_lower qs) (py_lower (filename j)))"

definition mem_count ::
  "job_status option \<Rightarrow> string option \<Rightarrow> engine_arg \<Rightarrow> string option \<Rightarrow> bool \<Rightarrow> mem_store \<Rightarrow> nat" where
  "mem_count st q eng tier untargeted_only s =
     length (filter (count_match st q eng tier untargeted_only) (map snd (mem_jobs s)))"

definition mem_claim_next :: "claim_req \<Rightarrow> mem_store \<Rightarrow> job option res \<times> mem_store" where
  "mem_claim_next r s =
     (case untargeted_cutoff (c_min_age r) (c_now r) of
        Inl e \<Rightarrow> (Inl e, s)
      | Inr cutoff \<Rightarrow>
          (let queued = filter (\<lambda>(k, j). claimable (c_tier r) (normalize_engine_filter (c_engine r))
                                  (c_exclude r) (c_now r) cutoff j) (mem_jobs s)
           in if queued = [] then (Inr None, s)
              else (let (k, j) = arg_min_list (\<lambda>(k, j). claim_key j) queued;
                        j' = claimed (c_started r) (c_token r) j
                    in (Inr (Some j'), s\<lparr>mem_jobs := AList.update k j' (mem_jobs s)\<rparr>))))"

definition mem_delete :: "string \<Rightarrow> mem_store \<Rightarrow> mem_store" where
  "mem_delete k s = s\<lparr>mem_jobs := AList.delete k (mem_jobs s)\<rparr>"

text \<open>The methods as one step function over \<^typ>\<open>store_op\<close>.\<close>

fun lift_res :: "('a \<Rightarrow> outcome) \<Rightarrow> 'a res \<Rightarrow> outcome" where
  "lift_res f (Inl e) = OErr e"
| "lift_res f (Inr x) = f x"

fun mem_step :: "store_op \<Rightarrow> mem_store \<Rightarrow> outcome \<times> mem_store" where
  "mem_step (OpCreate j) s = (ODone, mem_create j s)"
| "mem_step (OpUpdate k fs) s = apfst (lift_res (\<lambda>j. OJob (Some j))) (mem_update k fs s)"
| "mem_step (OpCas k st c fs) s = apfst (lift_res OBool) (mem_update_if_status k st c fs s)"
| "mem_step (OpClaim r) s = apfst (lift_res OJob) (mem_claim_next r s)"
| "mem_step (OpDelete k) s = (ODone, mem_delete k s)"

section \<open>Well-formed stores\<close>

definition mem_inv :: "mem_store \<Rightarrow> bool" where
  "mem_inv s \<longleftrightarrow> distinct (map fst (mem_jobs s)) \<and> (\<forall>(k, j) \<in> set (mem_jobs s). job_id j = k)"

lemma mem_inv_empty: "mem_inv mem_empty"
  by (simp add: mem_inv_def mem_empty_def)

lemma mem_inv_put:
  "mem_inv s \<Longrightarrow> job_id j = k \<Longrightarrow> mem_inv (s\<lparr>mem_jobs := AList.update k j (mem_jobs s)\<rparr>)"
  using set_update_subset [of k j "mem_jobs s"]
  by (fastforce simp: mem_inv_def distinct_update)

lemma delete_subset: "set (AList.delete k xs) \<subseteq> set xs"
  by (auto simp: AList.delete_eq)

lemma mem_inv_delete: "mem_inv s \<Longrightarrow> mem_inv (mem_delete k s)"
  using distinct_delete [of "mem_jobs s" k]
  by (auto simp: mem_inv_def mem_delete_def dest: set_mp [OF delete_subset])

lemma mem_get_put [store_simps]:
  "mem_get k (s\<lparr>mem_jobs := AList.update k' j (mem_jobs s)\<rparr>) = ((\<lambda>k. mem_get k s)(k' \<mapsto> j)) k"
  by (simp add: mem_get_def update_conv)

lemma mem_get_id: "mem_inv s \<Longrightarrow> mem_get k s = Some j \<Longrightarrow> job_id j = k"
  by (auto simp: mem_inv_def mem_get_def dest: map_of_SomeD)

lemma live_setattrs_known: "list_all field_known fs \<Longrightarrow> live_setattrs fs j = (None, setattrs fs j)"
  by (induction fs arbitrary: j) auto

lemma live_setattrs_id: "job_id (snd (live_setattrs fs j)) = job_id j"
  by (induction fs arbitrary: j) auto

text \<open>The job \<open>claim_next\<close> selects.\<close>

lemma mem_claim_next_eq:
  "untargeted_cutoff (c_min_age r) (c_now r) = Inr cutoff \<Longrightarrow>
   mem_claim_next r s =
     (let queued = filter (\<lambda>(k, j). eligible_job r cutoff j) (mem_jobs s)
      in if queued = [] then (Inr None, s)
         else (case arg_min_list (\<lambda>(k, j). claim_key j) queued of
                 (k, j) \<Rightarrow> (Inr (Some (win r j)),
                    s\<lparr>mem_jobs := AList.update k (win r j) (mem_jobs s)\<rparr>)))"
  by (simp add: mem_claim_next_def eligible_job_def win_def Let_def)

lemma mem_claim_total:
  assumes "untargeted_cutoff (c_min_age r) (c_now r) = Inr cutoff"
  shows "\<exists>o' s'. mem_claim_next r s = (Inr o', s')"
  by (cases "arg_min_list (\<lambda>(k, j). claim_key j) (filter (\<lambda>(k, j). eligible_job r cutoff j) (mem_jobs s))")
     (simp add: mem_claim_next_eq [OF assms] Let_def)

lemma mem_claim_some:
  assumes "mem_inv s" and cut: "untargeted_cutoff (c_min_age r) (c_now r) = Inr cutoff"
    and "mem_claim_next r s = (Inr (Some j'), s')"
  obtains k j where "mem_get k s = Some j" "eligible_job r cutoff j" "j' = win r j"
    "\<And>k' x. mem_get k' s = Some x \<Longrightarrow> eligible_job r cutoff x \<Longrightarrow> claim_key j \<le> claim_key x"
    "s' = s\<lparr>mem_jobs := AList.update k j' (mem_jobs s)\<rparr>"
proof -
  let ?key = "\<lambda>(k :: string, j). claim_key j"
  let ?Q = "filter (\<lambda>(k, j). eligible_job r cutoff j) (mem_jobs s)"
  obtain k j where kj: "arg_min_list ?key ?Q = (k, j)" by (cases "arg_min_list ?key ?Q")
  have ne: "?Q \<noteq> []"
    using assms(3) by (auto simp: mem_claim_next_eq [OF cut] Let_def split: if_splits)
  then have mem: "(k, j) \<in> set ?Q" using arg_min_list_mem [of ?Q ?key] kj by simp
  have res: "j' = win r j" "s' = s\<lparr>mem_jobs := AList.update k j' (mem_jobs s)\<rparr>"
    using assms(3) ne kj by (auto simp: mem_claim_next_eq [OF cut] Let_def)
  show ?thesis
  proof (rule that [of k j])
    show "mem_get k s = Some j"
      using mem assms(1) by (auto simp: mem_get_def mem_inv_def intro: map_of_is_SomeI)
    show "claim_key j \<le> claim_key x" if "mem_get k' s = Some x" "eligible_job r cutoff x" for k' x
    proof -
      have "(k', x) \<in> set ?Q" using that by (auto simp: mem_get_def dest: map_of_SomeD)
      from arg_min_list_le [OF this, of ?key] show ?thesis by (simp add: kj)
    qed
  qed (use mem res in auto)
qed

lemma mem_claim_empty:
  assumes "mem_claim_next r s = (Inr None, s')"
    and "untargeted_cutoff (c_min_age r) (c_now r) = Inr cutoff"
  shows "s' = s" "\<And>k j. mem_get k s = Some j \<Longrightarrow> \<not> eligible_job r cutoff j"
  using assms(1)
  by (auto simp: mem_claim_next_eq [OF assms(2)] mem_get_def Let_def filter_empty_conv
      split: if_splits prod.splits dest!: map_of_SomeD)

section \<open>The backend implements the protocol\<close>

lemma mem_step_claim_refines:
  assumes inv: "mem_inv s"
  shows "abs_step (OpClaim r) (\<lambda>k. mem_get k s) (fst (mem_step (OpClaim r) s))
           (\<lambda>k. mem_get k (snd (mem_step (OpClaim r) s)))"
proof (cases "untargeted_cutoff (c_min_age r) (c_now r)")
  case (Inl e)
  then show ?thesis by (simp add: mem_claim_next_def abs_step.claim_error)
next
  case (Inr cutoff)
  obtain o' s' where r: "mem_claim_next r s = (Inr o', s')"
    by (metis mem_claim_total [OF Inr])
  show ?thesis
  proof (cases o')
    case None
    with mem_claim_empty [of r s s' cutoff] r Inr show ?thesis
      by (auto intro: abs_step.claim_none)
  next
    case (Some j')
    from mem_claim_some [OF inv Inr, of j' s'] r Some
    obtain k j where w: "mem_get k s = Some j" "eligible_job r cutoff j" "j' = win r j"
      "\<And>k' x. mem_get k' s = Some x \<Longrightarrow> eligible_job r cutoff x \<Longrightarrow> claim_key j \<le> claim_key x"
      "s' = s\<lparr>mem_jobs := AList.update k j' (mem_jobs s)\<rparr>"
      by metis
    have "(\<lambda>k. mem_get k s') = (\<lambda>k. mem_get k s)(k \<mapsto> win r j)"
      by (rule ext) (simp add: w store_simps)
    with r Some w Inr show ?thesis by (auto intro!: abs_step.claim_some)
  qed
qed

lemma mem_step_refines:
  assumes "mem_inv s" "op_ok op"
  shows "abs_step op (\<lambda>k. mem_get k s) (fst (mem_step op s)) (\<lambda>k. mem_get k (snd (mem_step op s)))"
proof (cases op)
  case (OpCreate j)
  have "(\<lambda>k. mem_get k (mem_create j s)) = (\<lambda>k. mem_get k s)(job_id j \<mapsto> j)"
    by (rule ext) (simp add: mem_create_def store_simps)
  with OpCreate show ?thesis by (auto intro: abs_step.create)
next
  case (OpUpdate k fs)
  show ?thesis
  proof (cases "mem_get k s")
    case None
    then show ?thesis
      by (simp add: OpUpdate mem_update_def mem_get_def [symmetric] abs_step.update_missing)
  next
    case (Some j)
    have fs: "live_setattrs fs j = (None, setattrs fs j)"
      using assms(2) OpUpdate by (simp add: live_setattrs_known fields_ok_known)
    have "(\<lambda>k'. mem_get k' (s\<lparr>mem_jobs := AList.update k (setattrs fs j) (mem_jobs s)\<rparr>))
       = (\<lambda>k. mem_get k s)(k \<mapsto> setattrs fs j)"
      by (rule ext) (simp add: store_simps)
    with Some fs show ?thesis
      by (simp add: OpUpdate mem_update_def mem_get_def [symmetric] abs_step.update)
  qed
next
  case (OpCas k st c fs)
  have known: "list_all field_known fs" using assms(2) OpCas by (simp add: fields_ok_known)
  show ?thesis
  proof (cases "\<exists>j. mem_get k s = Some j \<and> cas_guard st c j")
    case True
    then obtain j where j: "mem_get k s = Some j" "cas_guard st c j" by blast
    have "(\<lambda>k'. mem_get k' (s\<lparr>mem_jobs := AList.update k (setattrs fs j) (mem_jobs s)\<rparr>))
       = (\<lambda>k. mem_get k s)(k \<mapsto> setattrs fs j)"
      by (rule ext) (simp add: store_simps)
    with j known show ?thesis
      by (auto simp: OpCas mem_update_if_status_def mem_get_def [symmetric] cas_guard_def
          intro!: abs_step.cas_hit)
  next
    case False
    with known have "mem_update_if_status k st c fs s = (Inr False, s)"
      by (auto simp: mem_update_if_status_def mem_get_def cas_guard_def split: option.splits)
    with False show ?thesis by (auto simp: OpCas intro!: abs_step.cas_miss)
  qed
next
  case (OpClaim r)
  with mem_step_claim_refines [OF assms(1), of r] show ?thesis by simp
next
  case (OpDelete k)
  have "(\<lambda>k'. mem_get k' (mem_delete k s)) = (\<lambda>k. mem_get k s)(k := None)"
    by (rule ext) (simp add: mem_delete_def mem_get_def delete_conv)
  with OpDelete show ?thesis by (auto intro: abs_step.delete)
qed

lemma mem_update_inv: "mem_inv s \<Longrightarrow> mem_inv (snd (mem_update k fs s))"
  by (auto simp: mem_update_def mem_get_def [symmetric] live_setattrs_id [of fs, simplified]
      split: option.splits prod.splits intro!: mem_inv_put dest: mem_get_id)
     (metis live_setattrs_id mem_get_id snd_conv)+

lemma mem_cas_inv: "mem_inv s \<Longrightarrow> mem_inv (snd (mem_update_if_status k st c fs s))"
  by (auto simp: mem_update_if_status_def mem_get_def [symmetric]
      split: option.splits intro!: mem_inv_put dest: mem_get_id)

lemma mem_claim_inv:
  assumes inv: "mem_inv s"
  shows "mem_inv (snd (mem_claim_next r s))"
proof (cases "untargeted_cutoff (c_min_age r) (c_now r)")
  case (Inl e)
  with inv show ?thesis by (simp add: mem_claim_next_def)
next
  case (Inr cutoff)
  obtain o' s' where r: "mem_claim_next r s = (Inr o', s')"
    by (metis mem_claim_total [OF Inr])
  show ?thesis
  proof (cases o')
    case None
    with mem_claim_empty(1) [of r s s' cutoff] r Inr inv show ?thesis by simp
  next
    case (Some j')
    from mem_claim_some [OF inv Inr, of j' s'] r Some
    obtain k j where "mem_get k s = Some j" "j' = win r j"
      "s' = s\<lparr>mem_jobs := AList.update k j' (mem_jobs s)\<rparr>"
      by metis
    with r mem_get_id [OF inv] show ?thesis by (auto intro!: mem_inv_put [OF inv])
  qed
qed

lemma mem_step_inv: "mem_inv s \<Longrightarrow> mem_inv (snd (mem_step op s))"
  by (cases op) (auto simp: mem_create_def mem_update_inv mem_cas_inv mem_claim_inv mem_inv_delete
                  intro: mem_inv_put)

interpretation mem: job_store mem_inv "\<lambda>s k. mem_get k s" mem_get mem_step
  by unfold_locales (auto simp: mem_step_inv mem_step_refines)

section \<open>Properties\<close>

text \<open>A store with two queued jobs, used by the witnesses below.\<close>

definition demo_old :: job where
  "demo_old = Job_new ''a1'' ''eng'' ''doc.pdf'' 10"

definition demo_new :: job where
  "demo_new = Job_new ''b2'' ''eng'' ''mal.doc'' 20"

definition demo_store :: mem_store where
  "demo_store = mem_create demo_new (mem_create demo_old mem_empty)"

definition demo_req :: "string \<Rightarrow> claim_req" where
  "demo_req tok = \<lparr>c_tier = None, c_engine = AnyEngine, c_exclude = [], c_min_age = Fin 0,
     c_now = 100, c_started = 101, c_token = tok\<rparr>"

lemmas demo_defs = demo_old_def demo_new_def demo_store_def demo_req_def Job_new_def

lemma demo_store_jobs: "mem_jobs demo_store = [(''a1'', demo_old), (''b2'', demo_new)]"
  by (simp add: demo_defs mem_create_def mem_empty_def)

lemma demo_store_inv: "mem_inv demo_store"
  by (simp add: mem_inv_def demo_store_jobs) (simp add: demo_old_def demo_new_def Job_new_def)

lemma demo_claim:
  "mem_claim_next (demo_req tok) demo_store =
     (Inr (Some (claimed 101 tok demo_old)),
      demo_store\<lparr>mem_jobs := [(''a1'', claimed 101 tok demo_old), (''b2'', demo_new)]\<rparr>)"
  unfolding mem_claim_next_def demo_store_jobs
  by (simp add: demo_old_def demo_new_def demo_req_def Job_new_def claimable_def tier_match_def
      claim_key_def Let_def)

text \<open>
  C9: claim_next on the in-memory store.  When it hands out a job, that job was queued and
  eligible under the request, no eligible job is older (by creation time, then id), the job
  returned is the stored one flipped to RUNNING under the fresh token, and no other job of
  the store changes; when it hands out nothing, no job was eligible and nothing changes.
\<close>

theorem mem_claim_next_correct:
  assumes "mem_inv s"
    and "untargeted_cutoff (c_min_age r) (c_now r) = Inr cutoff"
    and "mem_claim_next r s = (Inr res, s')"
  shows "case res of
      None \<Rightarrow> s' = s \<and> (\<forall>k j. mem_get k s = Some j \<longrightarrow> \<not> eligible_job r cutoff j)
    | Some j' \<Rightarrow> \<exists>j. mem_get (job_id j) s = Some j \<and> eligible_job r cutoff j
        \<and> (\<forall>k x. mem_get k s = Some x \<longrightarrow> eligible_job r cutoff x \<longrightarrow> claim_key j \<le> claim_key x)
        \<and> j' = claimed (c_started r) (c_token r) j
        \<and> mem_get (job_id j) s' = Some j'
        \<and> (\<forall>k. k \<noteq> job_id j \<longrightarrow> mem_get k s' = mem_get k s)"
proof (cases res)
  case None
  with mem_claim_empty [of r s s' cutoff] assms show ?thesis by simp
next
  case (Some j')
  from mem_claim_some [OF assms(1,2), of j' s'] assms(3) Some
  obtain k j where w: "mem_get k s = Some j" "eligible_job r cutoff j" "j' = win r j"
    "\<And>k' x. mem_get k' s = Some x \<Longrightarrow> eligible_job r cutoff x \<Longrightarrow> claim_key j \<le> claim_key x"
    "s' = s\<lparr>mem_jobs := AList.update k j' (mem_jobs s)\<rparr>"
    by metis
  have "job_id j = k" using mem_get_id [OF assms(1) w(1)] .
  with w Some show ?thesis by (auto simp: store_simps win_def)
qed

theorem mem_claim_next_correct_witness:
  "\<exists>j. mem_get (job_id j) demo_store = Some j \<and> eligible_job (demo_req ''tok'') None j
        \<and> claimed 101 ''tok'' demo_old = claimed (c_started (demo_req ''tok'')) ''tok'' j"
proof -
  have cut: "untargeted_cutoff (c_min_age (demo_req ''tok'')) (c_now (demo_req ''tok'')) = Inr None"
    by (simp add: demo_req_def)
  have tok: "c_token (demo_req ''tok'') = ''tok''" by (simp add: demo_req_def)
  from mem_claim_next_correct [OF demo_store_inv cut demo_claim] show ?thesis
    unfolding tok option.case by blast
qed

text \<open>
  C10: the in-memory store implements the writing half of the JobStore protocol.  From a well-formed
  store, each of create, update, update_if_status, claim_next and delete, called with known fields and
  without a zero timestamp (\<open>op_ok\<close>), is a step of the abstract protocol with the outcome the method
  returns, and leaves the store well-formed.
\<close>

theorem mem_refines_protocol:
  assumes "mem_inv s" and "op_ok op"
  shows "abs_step op (\<lambda>k. mem_get k s) (fst (mem_step op s)) (\<lambda>k. mem_get k (snd (mem_step op s)))
         \<and> mem_inv (snd (mem_step op s))"
  using mem.step_refines [OF assms] mem.step_inv [OF assms] by simp

theorem mem_refines_protocol_witness:
  "abs_step (OpClaim (demo_req ''tok'')) (\<lambda>k. mem_get k demo_store)
      (OJob (Some (claimed 101 ''tok'' demo_old)))
      (\<lambda>k. mem_get k (snd (mem_step (OpClaim (demo_req ''tok'')) demo_store)))"
  using mem_refines_protocol [OF demo_store_inv, of "OpClaim (demo_req ''tok'')"]
  by (simp add: demo_claim) (simp add: demo_req_def)

text \<open>
  C6: at most one terminal write per claim.  After a claim under a fresh token, whatever
  other clients do in between (claims under other tokens, requeues, deletions, updates),
  once one compare-and-set fenced by (RUNNING, token) moved the job out of RUNNING, every
  later one fenced by the same token is refused and changes no job: a stale owner cannot
  clobber a job that was requeued, reclaimed or finished.
\<close>

theorem mem_one_terminal_write:
  assumes "mem_inv s" and "\<forall>k j. mem_get k s = Some j \<longrightarrow> claim_id j \<noteq> Some (c_token r)"
    and "mem_claim_next r s = (Inr (Some j), s1)" and "c_started r \<noteq> 0"
    and "list_all op_ok ops" "list_all (discreet (c_token r)) ops"
    and "list_all op_ok ops'" "list_all (discreet (c_token r)) ops'"
    and "list_all field_ok fs" "list_all (field_discreet (c_token r)) fs" "list_ex sets_status fs"
    and "list_all field_ok fs'"
    and "mem_update_if_status k RUNNING (Some (c_token r)) fs (run_ops mem_step ops s1) = (Inr True, s2)"
  shows "fst (mem_update_if_status k' RUNNING (Some (c_token r)) fs' (run_ops mem_step ops' s2)) = Inr False
         \<and> (\<forall>i. mem_get i (snd (mem_update_if_status k' RUNNING (Some (c_token r)) fs'
                                     (run_ops mem_step ops' s2)))
                = mem_get i (run_ops mem_step ops' s2))"
proof -
  have fresh: "unminted (c_token r) (\<lambda>k. mem_get k s)" using assms(2) by (simp add: unminted_def)
  have claim: "mem_step (OpClaim r) s = (OJob (Some j), s1)" using assms(3) by simp
  have won: "mem_step (OpCas k RUNNING (Some (c_token r)) fs) (run_ops mem_step ops s1) = (OBool True, s2)"
    using assms(13) by simp
  have known: "list_all field_known fs'" using assms(12) by (rule fields_ok_known)
  note main = mem.one_terminal_write [OF assms(1) fresh claim assms(4-12) won, of k']
  from main(1) have "fst (mem_update_if_status k' RUNNING (Some (c_token r)) fs' (run_ops mem_step ops' s2)) = Inr False"
    by (cases "fst (mem_update_if_status k' RUNNING (Some (c_token r)) fs' (run_ops mem_step ops' s2))") auto
  with main(2) show ?thesis by (auto simp: fun_eq_iff)
qed

text \<open>The witness's history: claim, requeue by a reaper with a fence, reclaim, late write.\<close>

definition demo_finish :: "field_upd list" where
  "demo_finish = [FStatus DONE, FFinishedAt (Some 200)]"

definition demo_requeue :: "field_upd list" where
  "demo_requeue = [FStatus QUEUED, FClaimId None]"

lemma demo_run:
  "mem_update_if_status ''a1'' RUNNING (Some ''t1'') demo_requeue
     (run_ops mem_step [] (snd (mem_claim_next (demo_req ''t1'') demo_store))) =
   (Inr True, demo_store\<lparr>mem_jobs :=
      [(''a1'', setattrs demo_requeue (claimed 101 ''t1'' demo_old)), (''b2'', demo_new)]\<rparr>)"
  by (simp add: demo_claim mem_update_if_status_def demo_requeue_def claimed_def)

theorem mem_one_terminal_write_witness:
  "fst (mem_update_if_status ''a1'' RUNNING (Some ''t1'') demo_finish
      (run_ops mem_step [OpClaim (demo_req ''t2'')]
        (demo_store\<lparr>mem_jobs := [(''a1'', setattrs demo_requeue (claimed 101 ''t1'' demo_old)),
           (''b2'', demo_new)]\<rparr>))) = Inr False"
proof -
  have claim: "mem_claim_next (demo_req ''t1'') demo_store =
      (Inr (Some (claimed 101 ''t1'' demo_old)), snd (mem_claim_next (demo_req ''t1'') demo_store))"
    by (simp add: demo_claim)
  have fresh: "\<forall>k j. mem_get k demo_store = Some j \<longrightarrow> claim_id j \<noteq> Some (c_token (demo_req ''t1''))"
    by (auto simp: mem_get_def demo_store_jobs demo_old_def demo_new_def Job_new_def split: if_splits)
  have [simp]: "c_token (demo_req t) = t" "c_started (demo_req t) = 101" for t
    by (simp_all add: demo_req_def)
  show ?thesis
    using mem_one_terminal_write [OF demo_store_inv fresh claim, of "[]" "[OpClaim (demo_req ''t2'')]"
        demo_requeue demo_finish "''a1''" _ "''a1''"] demo_run
    by (simp add: demo_requeue_def demo_finish_def)
qed

text \<open>
  an unknown field name.  update on the in-memory store raises ValueError but keeps the
  fields before the bad one written into the live job, while update_if_status rejects the
  whole call before touching the store.
\<close>

theorem mem_unknown_field:
  assumes "mem_get k s = Some j" and "list_all field_known fs"
  shows "(\<exists>e. fst (mem_update k (fs @ FUnknown x # fs') s) = Inl (ValueError e))
         \<and> mem_get k (snd (mem_update k (fs @ FUnknown x # fs') s)) = Some (setattrs fs j)
         \<and> snd (mem_update_if_status k st c (fs @ FUnknown x # fs') s) = s
         \<and> (\<exists>e. fst (mem_update_if_status k st c (fs @ FUnknown x # fs') s) = Inl (ValueError e))"
proof -
  have "live_setattrs (fs @ FUnknown x # fs') j =
      (Some (ValueError ''unknown Job field in update()''), setattrs fs j)"
    using assms(2) by (induction fs arbitrary: j) auto
  with assms(1) show ?thesis
    by (simp add: mem_update_def mem_get_def mem_update_if_status_def)
qed

theorem mem_unknown_field_witness:
  "mem_get ''a1'' (snd (mem_update ''a1'' [FStatus DONE, FUnknown ''stauts''] demo_store))
   = Some (demo_old\<lparr>status := DONE\<rparr>)"
  using mem_unknown_field [of "''a1''" demo_store demo_old "[FStatus DONE]" "''stauts''" "[]"]
  by (simp add: mem_get_def demo_store_jobs)

end
