(* ===== verification/Job_Redis.thy ===== *)
theory Job_Redis
  imports Job_Memory
begin

text \<open>
  The Redis backend, \<^verbatim>\<open>host/jobs/redis_store.py\<close>.  The server is a key space of payloads;
  a payload is a JSON document or a text that \<open>json.loads\<close> rejects.  The optimistic
  transactions (WATCH, read, MULTI, SET, EXEC, retried on \<open>WatchError\<close>) are loops over the
  foreign writes that land between WATCH and EXEC in each attempt: EXEC goes through exactly
  when none of them touched the watched key.  \<open>scan_iter\<close> is the key space in the server's
  order.  Expiry by TTL is one kind of foreign write.
\<close>

section \<open>The server\<close>

datatype payload = Doc json | Text string

type_synonym kv = "(string \<times> payload) list"

text \<open>Writes of other clients; \<^const>\<open>None\<close> deletes the key.\<close>

type_synonym foreign = "(string \<times> payload option) list"

definition apply_foreign :: "foreign \<Rightarrow> kv \<Rightarrow> kv" where
  "apply_foreign ws s =
     fold (\<lambda>(k, v) s. case v of None \<Rightarrow> AList.delete k s | Some p \<Rightarrow> AList.update k p s) ws s"

definition touches :: "foreign \<Rightarrow> string \<Rightarrow> bool" where
  "touches ws k \<longleftrightarrow> k \<in> set (map fst ws)"

lemma apply_foreign_Nil [simp]: "apply_foreign [] s = s"
  by (simp add: apply_foreign_def)

lemma apply_foreign_frame:
  "\<not> touches ws k \<Longrightarrow> map_of (apply_foreign ws s) k = map_of s k"
  unfolding apply_foreign_def touches_def
  by (induction ws arbitrary: s)
     (auto simp: map_of_update_other map_of_delete_other split: option.splits)

section \<open>Keys and payloads\<close>

definition redis_PREFIX :: string where
  "redis_PREFIX = ''blastbox:job:''"

definition redis_key :: "string \<Rightarrow> string" where
  "redis_key k = redis_PREFIX @ k"

lemma redis_key_inj [simp]: "redis_key a = redis_key b \<longleftrightarrow> a = b"
  by (simp add: redis_key_def)

definition decode_job :: "payload \<Rightarrow> job option" where
  "decode_job p = (case p of Doc (JObj d) \<Rightarrow> from_dict d | _ \<Rightarrow> None)"

definition encode_job :: "job \<Rightarrow> payload" where
  "encode_job j = Doc (JObj (to_dict j))"

definition fetch :: "kv \<Rightarrow> string \<Rightarrow> job option" where
  "fetch s key = (case map_of s key of None \<Rightarrow> None | Some p \<Rightarrow> decode_job p)"

section \<open>Registries\<close>

definition BLOB_TARGET_KEY :: string where "BLOB_TARGET_KEY = ''blastbox:blob_target''"
definition SIGNING_KEY_KEY :: string where "SIGNING_KEY_KEY = ''blastbox:claim_signing_key''"

text \<open>
  SET NX, then GET, with the foreign writes between the two commands.  A payload that is a
  document never lives under a registry key; reading one gives its text back as unknown.
\<close>

definition redis_get_reg :: "string \<Rightarrow> kv \<Rightarrow> string option" where
  "redis_get_reg rk s = (case map_of s rk of Some (Text t) \<Rightarrow> Some t | _ \<Rightarrow> None)"

definition redis_claim_reg :: "string \<Rightarrow> foreign \<Rightarrow> string \<Rightarrow> kv \<Rightarrow> string option \<times> kv" where
  "redis_claim_reg rk ws v s =
     (let s1 = (case map_of s rk of None \<Rightarrow> AList.update rk (Text v) s | Some _ \<Rightarrow> s);
          s2 = apply_foreign ws s1
      in (redis_get_reg rk s2, s2))"

definition redis_claim_blob_target :: "foreign \<Rightarrow> string \<Rightarrow> kv \<Rightarrow> string option \<times> kv" where
  "redis_claim_blob_target = redis_claim_reg BLOB_TARGET_KEY"

definition redis_get_blob_target :: "kv \<Rightarrow> string option" where
  "redis_get_blob_target = redis_get_reg BLOB_TARGET_KEY"

definition redis_clear_blob_target :: "kv \<Rightarrow> kv" where
  "redis_clear_blob_target s = AList.delete BLOB_TARGET_KEY s"

definition redis_claim_signing_key :: "foreign \<Rightarrow> string \<Rightarrow> kv \<Rightarrow> string option \<times> kv" where
  "redis_claim_signing_key = redis_claim_reg SIGNING_KEY_KEY"

definition redis_get_signing_key :: "kv \<Rightarrow> string option" where
  "redis_get_signing_key = redis_get_reg SIGNING_KEY_KEY"

definition redis_clear_signing_key :: "kv \<Rightarrow> kv" where
  "redis_clear_signing_key s = AList.delete SIGNING_KEY_KEY s"

section \<open>Job operations\<close>

definition redis_create :: "job \<Rightarrow> kv \<Rightarrow> kv" where
  "redis_create j s = AList.update (redis_key (job_id j)) (encode_job j) s"

definition redis_get :: "string \<Rightarrow> kv \<Rightarrow> job option" where
  "redis_get k s = fetch s (redis_key k)"

text \<open>One list element per attempt: the foreign writes between its WATCH and its EXEC.\<close>

fun redis_update :: "foreign list \<Rightarrow> string \<Rightarrow> field_upd list \<Rightarrow> kv \<Rightarrow> job res \<times> kv" where
  "redis_update wss k fs s =
     (case fetch s (redis_key k) of
        None \<Rightarrow> (Inl (KeyError k), s)
      | Some j \<Rightarrow>
          if \<not> list_all field_known fs
          then (Inl (ValueError ''unknown Job field in update()''), s)
          else (case wss of
             [] \<Rightarrow> (Inr (setattrs fs j),
                    AList.update (redis_key k) (encode_job (setattrs fs j)) s)
           | ws # wss' \<Rightarrow>
               if touches ws (redis_key k) then redis_update wss' k fs (apply_foreign ws s)
               else (Inr (setattrs fs j),
                     AList.update (redis_key k) (encode_job (setattrs fs j)) (apply_foreign ws s))))"

declare redis_update.simps [simp del]

fun redis_cas_loop ::
  "foreign list \<Rightarrow> string \<Rightarrow> job_status \<Rightarrow> string option \<Rightarrow> field_upd list \<Rightarrow> kv \<Rightarrow> bool \<times> kv" where
  "redis_cas_loop wss k st c fs s =
     (case fetch s (redis_key k) of
        None \<Rightarrow> (False, s)
      | Some j \<Rightarrow>
          if status j \<noteq> st \<or> (c \<noteq> None \<and> claim_id j \<noteq> c) then (False, s)
          else (case wss of
             [] \<Rightarrow> (True, AList.update (redis_key k) (encode_job (setattrs fs j)) s)
           | ws # wss' \<Rightarrow>
               if touches ws (redis_key k) then redis_cas_loop wss' k st c fs (apply_foreign ws s)
               else (True, AList.update (redis_key k) (encode_job (setattrs fs j))
                             (apply_foreign ws s))))"

declare redis_cas_loop.simps [simp del]

definition redis_update_if_status ::
  "foreign list \<Rightarrow> string \<Rightarrow> job_status \<Rightarrow> string option \<Rightarrow> field_upd list \<Rightarrow> kv \<Rightarrow>
   bool res \<times> kv" where
  "redis_update_if_status wss k st c fs s =
     (if \<not> list_all field_known fs
      then (Inl (ValueError ''unknown Job field in update_if_status()''), s)
      else apfst Inr (redis_cas_loop wss k st c fs s))"

text \<open>The decoded jobs a scan yields, each with its key.\<close>

definition redis_scan :: "kv \<Rightarrow> (string \<times> job) list" where
  "redis_scan s =
     List.map_filter (\<lambda>(key, p). if startswith key redis_PREFIX
                                 then map_option (Pair key) (decode_job p) else None) s"

definition redis_list ::
  "job_status option \<Rightarrow> string option \<Rightarrow> string option \<Rightarrow> string \<Rightarrow> bool \<Rightarrow> int \<Rightarrow> int option \<Rightarrow>
   kv \<Rightarrow> job list" where
  "redis_list st q sort_f order newest_first offset limit s =
     filter_sort_window
       (filter (\<lambda>j. case st of None \<Rightarrow> True | Some x \<Rightarrow> status j = x) (map snd (redis_scan s)))
       q sort_f order newest_first offset limit"

text \<open>The body of the counting loop: does this job reach \<open>n += 1\<close>?\<close>

definition redis_counts ::
  "job_status option \<Rightarrow> string option \<Rightarrow> engine_arg \<Rightarrow> string option \<Rightarrow> bool \<Rightarrow> job \<Rightarrow> bool" where
  "redis_counts st q eng tier untargeted_only j =
     (if (case st of None \<Rightarrow> False | Some x \<Rightarrow> status j \<noteq> x) then False
      else if (case normalize_engine_filter eng of None \<Rightarrow> False | Some es \<Rightarrow> engine j \<notin> set es) then False
      else if untargeted_only \<and> target_tier j \<noteq> None then False
      else if \<not> untargeted_only \<and> tier \<noteq> None
              \<and> \<not> (target_tier j = None \<or> target_tier j = tier) then False
      else if (case q of None \<Rightarrow> False
               | Some qs \<Rightarrow> qs \<noteq> [] \<and> \<not> py_in (py_lower qs) (py_lower (filename j))) then False
      else True)"

definition redis_count ::
  "job_status option \<Rightarrow> string option \<Rightarrow> engine_arg \<Rightarrow> string option \<Rightarrow> bool \<Rightarrow> kv \<Rightarrow> nat" where
  "redis_count st q eng tier untargeted_only s =
     foldl (\<lambda>n (key, j). if redis_counts st q eng tier untargeted_only j then Suc n else n)
       0 (redis_scan s)"

text \<open>
  The re-check inside the transaction: every predicate of the scan but the exclusion list.
\<close>

definition recheck :: "claim_req \<Rightarrow> real option \<Rightarrow> job \<Rightarrow> bool" where
  "recheck r cutoff j \<longleftrightarrow>
     claimable (c_tier r) (normalize_engine_filter (c_engine r)) [] (c_now r) cutoff j"

text \<open>
  \<open>claim_next\<close>.  Each attempt carries the foreign writes between the scan and WATCH, those
  between WATCH and EXEC, and the clock the next attempt would read.
\<close>

fun redis_claim_loop ::
  "(foreign \<times> foreign \<times> real) list \<Rightarrow> claim_req \<Rightarrow> kv \<Rightarrow> job option res \<times> kv" where
  "redis_claim_loop atts r s =
     (case untargeted_cutoff (c_min_age r) (c_now r) of
        Inl e \<Rightarrow> (Inl e, s)
      | Inr cutoff \<Rightarrow>
          let cands = filter (\<lambda>(key, j). eligible_job r cutoff j) (redis_scan s)
          in if cands = [] then (Inr None, s)
             else case arg_min_list (\<lambda>(key, j). claim_key j) cands of
               (key, j0) \<Rightarrow>
                 (case atts of
                    [] \<Rightarrow> (Inr (Some (win r j0)), AList.update key (encode_job (win r j0)) s)
                  | (ws1, ws2, now') # atts' \<Rightarrow>
                      (let s1 = apply_foreign ws1 s; s2 = apply_foreign ws2 s1
                       in case fetch s1 key of
                            None \<Rightarrow> redis_claim_loop atts' (r\<lparr>c_now := now'\<rparr>) s2
                          | Some j \<Rightarrow>
                              if \<not> recheck r cutoff j
                              then redis_claim_loop atts' (r\<lparr>c_now := now'\<rparr>) s2
                              else if touches ws2 key
                              then redis_claim_loop atts' (r\<lparr>c_now := now'\<rparr>) s2
                              else (Inr (Some (win r j)),
                                    AList.update key (encode_job (win r j)) s2))))"

declare redis_claim_loop.simps [simp del]

definition redis_claim_next :: "(foreign \<times> foreign \<times> real) list \<Rightarrow> claim_req \<Rightarrow> kv \<Rightarrow> job option res \<times> kv" where
  "redis_claim_next atts r s = redis_claim_loop atts r s"

definition redis_delete :: "string \<Rightarrow> kv \<Rightarrow> kv" where
  "redis_delete k s = AList.delete (redis_key k) s"

fun redis_lift :: "('a \<Rightarrow> outcome) \<Rightarrow> 'a res \<Rightarrow> outcome" where
  "redis_lift f (Inl e) = OErr e"
| "redis_lift f (Inr x) = f x"

text \<open>The methods when no other client interferes.\<close>

fun redis_step :: "store_op \<Rightarrow> kv \<Rightarrow> outcome \<times> kv" where
  "redis_step (OpCreate j) s = (ODone, redis_create j s)"
| "redis_step (OpUpdate k fs) s = apfst (redis_lift (\<lambda>j. OJob (Some j))) (redis_update [] k fs s)"
| "redis_step (OpCas k st c fs) s = apfst (redis_lift OBool) (redis_update_if_status [] k st c fs s)"
| "redis_step (OpClaim r) s = apfst (redis_lift OJob) (redis_claim_next [] r s)"
| "redis_step (OpDelete k) s = (ODone, redis_delete k s)"

section \<open>The JSON round trip\<close>

lemma JobStatus_status_value [simp]: "JobStatus_of (status_value st) = Some st"
  by (cases st) (simp_all add: JobStatus_of_def)

lemma py_truthy_opt_float:
  "py_truthy (j_opt_float t) \<longleftrightarrow> (\<exists>r. t = Some r \<and> r \<noteq> 0)"
  by (cases t) (auto simp: j_opt_float_def)

lemma get_float_hit:
  "jget d k = j_opt_float t \<Longrightarrow> get_float d k = Some (if t = Some 0 then None else t)"
  by (cases t) (auto simp: get_float_def j_opt_float_def)

lemma get_str_hit: "jget d k = j_opt_str t \<Longrightarrow> get_str d k = Some t"
  by (cases t) (auto simp: get_str_def j_opt_str_def)

text \<open>\<open>from_dict (to_dict j)\<close> is \<open>j\<close> with its zero timestamps dropped.\<close>

definition drop_zero :: "real option \<Rightarrow> real option" where
  "drop_zero t = (if t = Some 0 then None else t)"

definition dezero :: "job \<Rightarrow> job" where
  "dezero j = j\<lparr>started_at := drop_zero (started_at j), finished_at := drop_zero (finished_at j),
     expires_at := drop_zero (expires_at j), claimable_after := drop_zero (claimable_after j)\<rparr>"

lemma from_dict_to_dict: "from_dict (to_dict j) = Some (dezero j)"
proof -
  have lk: "jget (to_dict j) ''started_at'' = j_opt_float (started_at j)"
    "jget (to_dict j) ''finished_at'' = j_opt_float (finished_at j)"
    "jget (to_dict j) ''expires_at'' = j_opt_float (expires_at j)"
    "jget (to_dict j) ''claimable_after'' = j_opt_float (claimable_after j)"
    "jget (to_dict j) ''input_sha256'' = j_opt_str (input_sha256 j)"
    "jget (to_dict j) ''result_dir'' = j_opt_str (result_dir j)"
    "jget (to_dict j) ''worker_runtime'' = j_opt_str (worker_runtime j)"
    "jget (to_dict j) ''worker_tier'' = j_opt_str (worker_tier j)"
    "jget (to_dict j) ''target_tier'' = j_opt_str (target_tier j)"
    "jget (to_dict j) ''net_policy'' = j_opt_str (net_policy j)"
    "jget (to_dict j) ''error'' = j_opt_str (error j)"
    "jget (to_dict j) ''claim_id'' = j_opt_str (claim_id j)"
    "jget (to_dict j) ''materialise_attempts'' = JInt (materialise_attempts j)"
    "jget (to_dict j) ''security_warnings'' = JList (security_warnings j)"
    "jget (to_dict j) ''params'' = JObj (params j)"
    "jget (to_dict j) ''result_summary'' = result_summary j"
    "map_of (to_dict j) ''created_at'' = Some (JFloat (created_at j))"
    by (simp_all add: jget_def to_dict_def)
  have ns: "need_str (to_dict j) ''job_id'' = Some (job_id j)"
    "need_str (to_dict j) ''engine'' = Some (engine j)"
    "need_str (to_dict j) ''filename'' = Some (filename j)"
    "need_str (to_dict j) ''status'' = Some (status_value (status j))"
    by (simp_all add: need_str_def to_dict_def)
  show ?thesis
    by (simp add: from_dict_def lk ns get_float_hit [OF lk(1)] get_float_hit [OF lk(2)]
        get_float_hit [OF lk(3)] get_float_hit [OF lk(4)] get_str_hit [OF lk(5)]
        get_str_hit [OF lk(6)] get_str_hit [OF lk(7)] get_str_hit [OF lk(8)]
        get_str_hit [OF lk(9)] get_str_hit [OF lk(10)] get_str_hit [OF lk(11)]
        get_str_hit [OF lk(12)] dezero_def drop_zero_def)
qed

lemma dezero_safe: "json_safe j \<Longrightarrow> dezero j = j"
  by (simp add: json_safe_def dezero_def drop_zero_def)

lemma dezero_iff: "dezero j = j \<longleftrightarrow> json_safe j"
proof
  assume "dezero j = j"
  then have "started_at (dezero j) = started_at j" "finished_at (dezero j) = finished_at j"
    "expires_at (dezero j) = expires_at j" "claimable_after (dezero j) = claimable_after j" by simp_all
  then show "json_safe j" by (auto simp: dezero_def drop_zero_def json_safe_def split: if_splits)
qed (rule dezero_safe)

lemma decode_encode [store_simps]: "json_safe j \<Longrightarrow> decode_job (encode_job j) = Some j"
  by (simp add: decode_job_def encode_job_def from_dict_to_dict dezero_safe)

text \<open>A decoded job never carries a zero timestamp.\<close>

lemma get_float_nonzero: "get_float d k = Some t \<Longrightarrow> t \<noteq> Some 0"
  by (cases "jget d k") (auto simp: get_float_def split: if_splits)

lemma from_dict_safe: "from_dict d = Some j \<Longrightarrow> json_safe j"
  unfolding from_dict_def json_safe_def
  by (auto simp: Option.bind_eq_Some_conv dest: get_float_nonzero)

lemma decode_safe: "decode_job p = Some j \<Longrightarrow> json_safe j"
  by (auto simp: decode_job_def dest: from_dict_safe split: payload.splits json.splits)

lemma fetch_safe: "fetch s key = Some j \<Longrightarrow> json_safe j"
  by (auto simp: fetch_def dest: decode_safe split: option.splits)

section \<open>The backend implements the protocol\<close>

definition redis_inv :: "kv \<Rightarrow> bool" where
  "redis_inv s \<longleftrightarrow> distinct (map fst s) \<and>
     (\<forall>(key, p) \<in> set s. \<forall>j. startswith key redis_PREFIX \<longrightarrow> decode_job p = Some j \<longrightarrow>
        key = redis_key (job_id j))"

lemma redis_inv_empty: "redis_inv []"
  by (simp add: redis_inv_def)

lemma fetch_update [store_simps]:
  "json_safe j \<Longrightarrow> fetch (AList.update key (encode_job j) s) = (fetch s)(key \<mapsto> j)"
  by (rule ext) (auto simp: fetch_def update_conv store_simps)

lemma redis_inv_put:
  "redis_inv s \<Longrightarrow> json_safe j \<Longrightarrow> redis_inv (AList.update (redis_key (job_id j)) (encode_job j) s)"
  using set_update_subset [of "redis_key (job_id j)" "encode_job j" s]
  by (fastforce simp: redis_inv_def distinct_update decode_encode)

lemma redis_inv_fetch:
  "redis_inv s \<Longrightarrow> fetch s (redis_key k) = Some j \<Longrightarrow> job_id j = k"
  by (fastforce simp: redis_inv_def fetch_def redis_key_def dest: map_of_SomeD split: option.splits)

lemma scan_mem:
  "(key, j) \<in> set (redis_scan s) \<longleftrightarrow>
   startswith key redis_PREFIX \<and> (\<exists>p. (key, p) \<in> set s \<and> decode_job p = Some j)"
  by (force simp: redis_scan_def map_filter_def split: if_splits)

lemma fetch_mem:
  "distinct (map fst s) \<Longrightarrow> fetch s key = Some j \<longleftrightarrow> (\<exists>p. (key, p) \<in> set s \<and> decode_job p = Some j)"
  by (auto simp: fetch_def split: option.splits dest: map_of_SomeD eq_key_imp_eq_value)

lemma scan_fetch_distinct:
  "distinct (map fst s) \<Longrightarrow> (key, j) \<in> set (redis_scan s) \<Longrightarrow> fetch s key = Some j"
  by (auto simp: scan_mem fetch_mem)

lemma scan_fetch:
  assumes "redis_inv s"
  shows "(key, j) \<in> set (redis_scan s) \<longleftrightarrow> key = redis_key (job_id j) \<and> fetch s key = Some j"
proof -
  have d: "distinct (map fst s)" using assms by (simp add: redis_inv_def)
  have "key = redis_key (job_id j)" if "(key, p) \<in> set s" "startswith key redis_PREFIX" "decode_job p = Some j" for p
    using assms that by (auto simp: redis_inv_def)
  then show ?thesis
    by (auto simp: scan_mem fetch_mem [OF d] redis_key_def)
qed

lemma redis_inv_write:
  assumes "redis_inv s" "fetch s (redis_key k) = Some j" "list_all field_ok fs"
  shows "redis_inv (AList.update (redis_key k) (encode_job (setattrs fs j)) s)"
proof -
  have "json_safe (setattrs fs j)" using assms by (auto intro: setattrs_json_safe fetch_safe)
  from redis_inv_put [OF assms(1) this] redis_inv_fetch [OF assms(1,2)] show ?thesis by simp
qed

lemma redis_inv_delete: "redis_inv s \<Longrightarrow> redis_inv (redis_delete k s)"
  using distinct_delete [of s "redis_key k"]
  by (auto simp: redis_inv_def redis_delete_def AList.delete_eq)

lemma redis_claim_eq:
  "untargeted_cutoff (c_min_age r) (c_now r) = Inr cutoff \<Longrightarrow>
   redis_claim_next [] r s =
     (let cands = filter (\<lambda>(key, j). eligible_job r cutoff j) (redis_scan s)
      in if cands = [] then (Inr None, s)
         else case arg_min_list (\<lambda>(key, j). claim_key j) cands of
           (key, j) \<Rightarrow> (Inr (Some (win r j)), AList.update key (encode_job (win r j)) s))"
  by (simp add: redis_claim_next_def redis_claim_loop.simps Let_def)

lemma redis_claim_cases:
  assumes inv: "redis_inv s" and cut: "untargeted_cutoff (c_min_age r) (c_now r) = Inr cutoff"
  obtains (none) "redis_claim_next [] r s = (Inr None, s)"
      "\<And>k j. redis_get k s = Some j \<Longrightarrow> \<not> eligible_job r cutoff j"
    | (some) j where "redis_get (job_id j) s = Some j" "eligible_job r cutoff j"
      "redis_claim_next [] r s =
         (Inr (Some (win r j)), AList.update (redis_key (job_id j)) (encode_job (win r j)) s)"
      "\<And>k x. redis_get k s = Some x \<Longrightarrow> eligible_job r cutoff x \<Longrightarrow> claim_key j \<le> claim_key x"
proof -
  let ?key = "\<lambda>(key :: string, j). claim_key j"
  let ?C = "filter (\<lambda>(key, j). eligible_job r cutoff j) (redis_scan s)"
  have in_C: "(redis_key k, x) \<in> set ?C" if "redis_get k s = Some x" "eligible_job r cutoff x" for k x
    using that redis_inv_fetch [OF inv, of k x] by (auto simp: scan_fetch [OF inv] redis_get_def)
  show thesis
  proof (cases "?C = []")
    case True
    with in_C have "\<And>k j. redis_get k s = Some j \<Longrightarrow> \<not> eligible_job r cutoff j"
      by (metis empty_iff list.set(1))
    with True show thesis by (auto simp: redis_claim_eq [OF cut] intro: none)
  next
    case False
    obtain key j where kj: "arg_min_list ?key ?C = (key, j)" by (cases "arg_min_list ?key ?C")
    with arg_min_list_mem [OF False, of ?key] have mem: "(key, j) \<in> set ?C" by simp
    then have j: "key = redis_key (job_id j)" "redis_get (job_id j) s = Some j" "eligible_job r cutoff j"
      by (auto simp: scan_fetch [OF inv] redis_get_def)
    show thesis
    proof (rule some [of j])
      show "claim_key j \<le> claim_key x" if "redis_get k s = Some x" "eligible_job r cutoff x" for k x
        using arg_min_list_le [OF in_C [OF that], of ?key] by (simp add: kj)
    qed (use j False kj in \<open>simp_all add: redis_claim_eq [OF cut]\<close>)
  qed
qed

lemma redis_get_put [store_simps]:
  "json_safe j \<Longrightarrow>
   (\<lambda>k'. redis_get k' (AList.update (redis_key k) (encode_job j) s)) = (\<lambda>k. redis_get k s)(k \<mapsto> j)"
  by (rule ext) (auto simp: redis_get_def store_simps)

lemma redis_step_inv:
  assumes a: "redis_inv s" "op_ok op"
  shows "redis_inv (snd (redis_step op s))"
proof (cases op)
  case (OpClaim r)
  show ?thesis
  proof (cases "untargeted_cutoff (c_min_age r) (c_now r)")
    case (Inl e)
    with a OpClaim show ?thesis by (simp add: redis_claim_next_def redis_claim_loop.simps)
  next
    case (Inr cutoff)
    from a(1) Inr show ?thesis
    proof (cases rule: redis_claim_cases [consumes 2])
      case none
      with a OpClaim show ?thesis by simp
    next
      case (some j)
      have "json_safe (win r j)"
        using some(1) a(2) OpClaim by (auto simp: redis_get_def dest: fetch_safe intro: win_json_safe)
      from redis_inv_put [OF a(1) this] some(3) OpClaim show ?thesis by simp
    qed
  qed
next
  case (OpCreate j)
  then show ?thesis
    using a by (simp add: redis_create_def redis_inv_put)
next
  case (OpUpdate k fs)
  then show ?thesis
    using a by (auto simp: redis_update.simps redis_inv_write split: option.splits)
next
  case (OpCas k st c fs)
  then show ?thesis
    using a by (auto simp: redis_update_if_status_def redis_cas_loop.simps redis_inv_write
        split: option.splits)
next
  case (OpDelete k)
  then show ?thesis
    using a by (simp add: redis_inv_delete)
qed

lemma redis_claim_refines:
  assumes inv: "redis_inv s" and ok: "op_ok (OpClaim r)"
  shows "abs_step (OpClaim r) (\<lambda>k. redis_get k s) (fst (redis_step (OpClaim r) s))
           (\<lambda>k. redis_get k (snd (redis_step (OpClaim r) s)))"
proof (cases "untargeted_cutoff (c_min_age r) (c_now r)")
  case (Inl e)
  then show ?thesis
    by (simp add: redis_claim_next_def redis_claim_loop.simps abs_step.claim_error)
next
  case (Inr cutoff)
  from inv Inr show ?thesis
  proof (cases rule: redis_claim_cases [consumes 2])
    case none
    with Inr show ?thesis by (auto intro: abs_step.claim_none)
  next
    case (some j)
    have safe: "json_safe (win r j)"
      using some(1) ok by (auto simp: redis_get_def dest: fetch_safe intro: win_json_safe)
    have "abs_step (OpClaim r) (\<lambda>k. redis_get k s) (OJob (Some (win r j)))
        ((\<lambda>k. redis_get k s)(job_id j \<mapsto> win r j))"
      by (rule abs_step.claim_some [OF Inr]) (use some in auto)
    with some(3) show ?thesis by (simp add: redis_get_put [OF safe])
  qed
qed

lemma redis_cas_once:
  "redis_cas_loop [] k st c fs s =
     (case redis_get k s of
        Some j \<Rightarrow> if cas_guard st c j
                  then (True, AList.update (redis_key k) (encode_job (setattrs fs j)) s)
                  else (False, s)
      | None \<Rightarrow> (False, s))"
  by (auto simp: redis_cas_loop.simps redis_get_def cas_guard_def split: option.splits)

lemma redis_step_refines:
  assumes "redis_inv s" "op_ok op"
  shows "abs_step op (\<lambda>k. redis_get k s) (fst (redis_step op s)) (\<lambda>k. redis_get k (snd (redis_step op s)))"
proof (cases op)
  case (OpCreate j)
  with assms show ?thesis by (simp add: redis_create_def redis_get_put abs_step.create)
next
  case (OpUpdate k fs)
  show ?thesis
  proof (cases "redis_get k s")
    case None
    then show ?thesis
      by (simp add: OpUpdate redis_update.simps redis_get_def [symmetric] abs_step.update_missing)
  next
    case (Some j)
    have "json_safe (setattrs fs j)"
      using Some assms(2) OpUpdate by (auto simp: redis_get_def dest: fetch_safe intro: setattrs_json_safe)
    with Some assms(2) show ?thesis
      by (simp add: OpUpdate redis_update.simps redis_get_def [symmetric] fields_ok_known
          redis_get_put abs_step.update)
  qed
next
  case (OpCas k st c fs)
  have known: "list_all field_known fs" using assms(2) OpCas by (simp add: fields_ok_known)
  show ?thesis
  proof (cases "\<exists>j. redis_get k s = Some j \<and> cas_guard st c j")
    case True
    then obtain j where j: "redis_get k s = Some j" "cas_guard st c j" by blast
    have "json_safe (setattrs fs j)"
      using j assms(2) OpCas by (auto simp: redis_get_def dest: fetch_safe intro: setattrs_json_safe)
    with j known show ?thesis
      by (auto simp: OpCas redis_update_if_status_def redis_cas_once redis_get_put intro!: abs_step.cas_hit)
  next
    case False
    with known have "redis_update_if_status [] k st c fs s = (Inr False, s)"
      by (auto simp: redis_update_if_status_def redis_cas_once split: option.splits)
    with False show ?thesis by (auto simp: OpCas intro!: abs_step.cas_miss)
  qed
next
  case (OpClaim r)
  with redis_claim_refines [of s r] assms show ?thesis by simp
next
  case (OpDelete k)
  have "(\<lambda>k'. redis_get k' (redis_delete k s)) = (\<lambda>k. redis_get k s)(k := None)"
    by (rule ext) (simp add: redis_delete_def redis_get_def fetch_def delete_conv)
  with OpDelete show ?thesis by (auto intro: abs_step.delete)
qed

interpretation redis: job_store redis_inv "\<lambda>s k. redis_get k s" redis_get redis_step
  by unfold_locales (auto simp: redis_step_inv redis_step_refines)

section \<open>The optimistic transactions linearise\<close>

definition apply_all :: "foreign list \<Rightarrow> kv \<Rightarrow> kv" where
  "apply_all wss s = fold apply_foreign wss s"

lemma fetch_frame: "\<not> touches ws key \<Longrightarrow> fetch (apply_foreign ws s) key = fetch s key"
  by (simp add: fetch_def apply_foreign_frame)

text \<open>
  The compare-and-set loop under interference behaves like one uninterrupted call made
  after some prefix of the foreign writes.
\<close>

lemma redis_cas_linear:
  "\<exists>n. redis_cas_loop wss k st c fs s = redis_cas_loop [] k st c fs (apply_all (take n wss) s)"
proof (induction wss arbitrary: s)
  case Nil
  then show ?case by (simp add: apply_all_def)
next
  case (Cons ws wss)
  consider (miss) "redis_cas_loop (ws # wss) k st c fs s = redis_cas_loop [] k st c fs s"
    | (retry) "redis_cas_loop (ws # wss) k st c fs s = redis_cas_loop wss k st c fs (apply_foreign ws s)"
    | (exec) "redis_cas_loop (ws # wss) k st c fs s = redis_cas_loop [] k st c fs (apply_foreign ws s)"
  proof (cases "\<exists>j. redis_get k s = Some j \<and> cas_guard st c j")
    case False
    then have "redis_cas_loop (ws # wss) k st c fs s = (False, s)"
      by (auto simp: redis_cas_loop.simps redis_get_def cas_guard_def split: option.splits)
    with False show ?thesis by (intro that(1)) (auto simp: redis_cas_once split: option.splits)
  next
    case True
    then obtain j where j: "redis_get k s = Some j" "cas_guard st c j" by blast
    have step: "redis_cas_loop (ws # wss) k st c fs s =
        (if touches ws (redis_key k) then redis_cas_loop wss k st c fs (apply_foreign ws s)
         else (True, AList.update (redis_key k) (encode_job (setattrs fs j)) (apply_foreign ws s)))"
      using j by (subst redis_cas_loop.simps) (auto simp: redis_get_def cas_guard_def)
    show ?thesis
    proof (cases "touches ws (redis_key k)")
      case True
      with step show ?thesis by (intro that(2)) simp
    next
      case False
      with j fetch_frame [OF this, of s] step show ?thesis
        by (intro that(3)) (simp add: redis_cas_once redis_get_def)
    qed
  qed
  then show ?case
  proof cases
    case miss
    then show ?thesis by (intro exI [of _ 0]) (simp add: apply_all_def)
  next
    case retry
    from Cons.IH [of "apply_foreign ws s"] obtain n where
      "redis_cas_loop wss k st c fs (apply_foreign ws s)
       = redis_cas_loop [] k st c fs (apply_all (take n wss) (apply_foreign ws s))" ..
    with retry show ?thesis by (intro exI [of _ "Suc n"]) (simp add: apply_all_def)
  next
    case exec
    then show ?thesis by (intro exI [of _ 1]) (simp add: apply_all_def)
  qed
qed

text \<open>
  A claim under interference hands out a job that, at the instant of EXEC, was queued and
  met every predicate of the request but the exclusion list.
\<close>

definition interference :: "(foreign \<times> foreign \<times> real) list \<Rightarrow> foreign list" where
  "interference atts = concat (map (\<lambda>(ws1, ws2, _). [ws1, ws2]) atts)"

definition claim_exec_at ::
  "claim_req \<Rightarrow> real set \<Rightarrow> foreign list \<Rightarrow> kv \<Rightarrow> job \<Rightarrow> kv \<Rightarrow> bool" where
  "claim_exec_at r clocks wss s j' s' \<longleftrightarrow>
     (\<exists>m n key j0 j now cutoff. m \<le> n \<and> now \<in> clocks
        \<and> untargeted_cutoff (c_min_age r) now = Inr cutoff
        \<and> (key, j0) \<in> set (redis_scan (apply_all (take m wss) s)) \<and> eligible_job (r\<lparr>c_now := now\<rparr>) cutoff j0
        \<and> (\<forall>(k, i) \<in> set (redis_scan (apply_all (take m wss) s)).
             eligible_job (r\<lparr>c_now := now\<rparr>) cutoff i \<longrightarrow> claim_key j0 \<le> claim_key i)
        \<and> fetch (apply_all (take n wss) s) key = Some j
        \<and> recheck (r\<lparr>c_now := now\<rparr>) cutoff j \<and> j' = win r j
        \<and> s' = AList.update key (encode_job j') (apply_all (take n wss) s))"

lemma distinct_apply_foreign: "distinct (map fst s) \<Longrightarrow> distinct (map fst (apply_foreign ws s))"
  unfolding apply_foreign_def
  by (induction ws arbitrary: s)
     (auto simp: distinct_update distinct_delete split: option.splits)

lemma win_now [simp]: "win (r\<lparr>c_now := now\<rparr>) j = win r j"
  by (simp add: win_def)

lemma eligible_recheck: "eligible_job r cutoff j \<Longrightarrow> recheck r cutoff j"
  by (simp add: eligible_job_def recheck_def claimable_def)

lemma claim_exec_later:
  assumes "claim_exec_at (r\<lparr>c_now := now\<rparr>) clocks wss (apply_foreign ws2 (apply_foreign ws1 s)) j' s'"
    and "clocks \<subseteq> clocks'"
  shows "claim_exec_at r clocks' (ws1 # ws2 # wss) s j' s'"
proof -
  have "apply_all (take (Suc (Suc n)) (ws1 # ws2 # wss)) s = apply_all (take n wss) (apply_foreign ws2 (apply_foreign ws1 s))" for n
    by (simp add: apply_all_def)
  then show ?thesis
    using assms unfolding claim_exec_at_def
    by (elim exE, rename_tac m n key j0 j t cutoff, rule_tac x = "Suc (Suc m)" in exI, rule_tac x = "Suc (Suc n)" in exI)
       (simp, blast)
qed

lemma scan_oldest:
  assumes "filter (\<lambda>(key, j). eligible_job r cutoff j) (redis_scan s) \<noteq> []"
    and "arg_min_list (\<lambda>(key, j). claim_key j) (filter (\<lambda>(key, j). eligible_job r cutoff j) (redis_scan s)) = (key, j0)"
  shows "(key, j0) \<in> set (redis_scan s)" "eligible_job r cutoff j0"
    "\<forall>(k, i) \<in> set (redis_scan s). eligible_job r cutoff i \<longrightarrow> claim_key j0 \<le> claim_key i"
proof -
  let ?C = "filter (\<lambda>(key, j). eligible_job r cutoff j) (redis_scan s)" and ?f = "\<lambda>(key :: string, j). claim_key j"
  have "(key, j0) \<in> set ?C" using arg_min_list_mem [OF assms(1), of ?f] assms(2) by simp
  then show "(key, j0) \<in> set (redis_scan s)" "eligible_job r cutoff j0" by auto
  have "claim_key j0 \<le> ?f x" if "x \<in> set ?C" for x using arg_min_list_le [OF that, of ?f] assms(2) by simp
  then show "\<forall>(k, i) \<in> set (redis_scan s). eligible_job r cutoff i \<longrightarrow> claim_key j0 \<le> claim_key i" by fastforce
qed

lemma redis_claim_at_exec:
  "distinct (map fst s) \<Longrightarrow> redis_claim_loop atts r s = (Inr (Some j'), s') \<Longrightarrow>
   claim_exec_at r (set (c_now r # map (\<lambda>(_, _, t). t) atts)) (interference atts) s j' s'"
proof (induction atts arbitrary: r s)
  case Nil
  then obtain cutoff where cut: "untargeted_cutoff (c_min_age r) (c_now r) = Inr cutoff"
    by (cases "untargeted_cutoff (c_min_age r) (c_now r)") (auto simp: redis_claim_loop.simps)
  let ?C = "filter (\<lambda>(key, j). eligible_job r cutoff j) (redis_scan s)"
  obtain key j where kj: "arg_min_list (\<lambda>(key, j). claim_key j) ?C = (key, j)"
    by (cases "arg_min_list (\<lambda>(key, j). claim_key j) ?C")
  from Nil.prems(2) have ne: "?C \<noteq> []"
    and res: "j' = win r j" "s' = AList.update key (encode_job (win r j)) s"
    using kj by (auto simp: redis_claim_loop.simps cut Let_def split: if_splits)
  note old = scan_oldest [OF ne kj]
  then have "fetch s key = Some j" "recheck r cutoff j"
    using scan_fetch_distinct [OF Nil.prems(1)] by (auto intro: eligible_recheck)
  with res cut old show ?case
    unfolding claim_exec_at_def interference_def apply_all_def
    by (intro exI [of _ 0] exI [of _ key] exI [of _ j] exI [of _ "c_now r"] exI [of _ cutoff]) simp
next
  case (Cons att atts)
  obtain ws1 ws2 now' where att: "att = (ws1, ws2, now')" by (cases att)
  let ?s1 = "apply_foreign ws1 s" and ?s2 = "apply_foreign ws2 (apply_foreign ws1 s)"
  obtain cutoff where cut: "untargeted_cutoff (c_min_age r) (c_now r) = Inr cutoff"
    using Cons.prems(2)
    by (cases "untargeted_cutoff (c_min_age r) (c_now r)") (auto simp: redis_claim_loop.simps)
  let ?C = "filter (\<lambda>(key, j). eligible_job r cutoff j) (redis_scan s)"
  obtain key j0 where kj: "arg_min_list (\<lambda>(key, j). claim_key j) ?C = (key, j0)"
    by (cases "arg_min_list (\<lambda>(key, j). claim_key j) ?C")
  have ne: "?C \<noteq> []" using Cons.prems(2) by (auto simp: redis_claim_loop.simps cut Let_def)
  have eq: "(case fetch ?s1 key of
      None \<Rightarrow> redis_claim_loop atts (r\<lparr>c_now := now'\<rparr>) ?s2
    | Some j \<Rightarrow> if \<not> recheck r cutoff j \<or> touches ws2 key
        then redis_claim_loop atts (r\<lparr>c_now := now'\<rparr>) ?s2
        else (Inr (Some (win r j)), AList.update key (encode_job (win r j)) ?s2)) = (Inr (Some j'), s')"
    using Cons.prems(2) kj
    by (subst (asm) redis_claim_loop.simps)
       (auto simp: att cut Let_def split: if_splits option.splits)
  show ?case
  proof (cases "redis_claim_loop atts (r\<lparr>c_now := now'\<rparr>) ?s2 = (Inr (Some j'), s')")
    case True
    have "distinct (map fst ?s2)" using Cons.prems(1) by (simp add: distinct_apply_foreign)
    from claim_exec_later [OF Cons.IH [OF this True], of "set (c_now r # map (\<lambda>(_, _, t). t) (att # atts))"] show ?thesis
      by (auto simp: att interference_def)
  next
    case False
    with eq obtain j where j: "fetch ?s1 key = Some j" "recheck r cutoff j" "\<not> touches ws2 key"
      "j' = win r j" "s' = AList.update key (encode_job (win r j)) ?s2"
      by (auto split: option.splits if_splits)
    from j(1,3) have "fetch ?s2 key = Some j" by (simp add: fetch_frame)
    with j cut scan_oldest [OF ne kj] show ?thesis
      unfolding claim_exec_at_def interference_def apply_all_def att
      by (intro exI [of _ 0] exI [of _ 2] exI [of _ key] exI [of _ j0] exI [of _ j] exI [of _ "c_now r"] exI [of _ cutoff])
         (simp add: numeral_2_eq_2)
  qed
qed

section \<open>Properties\<close>

lemma redis_counts_match: "redis_counts = count_match"
  by (intro ext) (auto simp: redis_counts_def count_match_def split: option.splits)

lemma foldl_count: "foldl (\<lambda>n x. if P x then Suc n else n) m xs = m + length (filter P xs)"
  by (induction xs arbitrary: m) auto

lemma redis_count_filter:
  "redis_count st q eng tier uo s = length (filter (count_match st q eng tier uo) (map snd (redis_scan s)))"
  by (simp add: redis_count_def redis_counts_match foldl_count [of "\<lambda>(key, j). _ j", simplified split_def]
      split_def filter_map o_def)

text \<open>A server holding the two demonstration jobs.\<close>

definition demo_kv :: kv where
  "demo_kv = redis_create demo_new (redis_create demo_old [])"

lemma demo_safe: "json_safe demo_old" "json_safe demo_new"
  by (simp_all add: json_safe_def demo_old_def demo_new_def Job_new_def)

lemma demo_ids [simp]: "job_id demo_old = ''a1''" "job_id demo_new = ''b2''"
  by (simp_all add: demo_old_def demo_new_def Job_new_def)

lemma demo_kv_eq:
  "demo_kv = [(redis_key ''a1'', encode_job demo_old), (redis_key ''b2'', encode_job demo_new)]"
  by (simp add: demo_kv_def redis_create_def)

lemma demo_kv_inv: "redis_inv demo_kv"
  by (simp add: redis_inv_def demo_kv_eq decode_encode demo_safe)

lemma demo_kv_get: "redis_get ''a1'' demo_kv = Some demo_old" "redis_get ''b2'' demo_kv = Some demo_new"
  by (simp_all add: redis_get_def fetch_def demo_kv_eq decode_encode demo_safe)

lemma demo_kv_scan: "redis_scan demo_kv = [(redis_key ''a1'', demo_old), (redis_key ''b2'', demo_new)]"
  by (simp add: demo_kv_eq redis_scan_def map_filter_def redis_key_def decode_encode demo_safe)

text \<open>
  C11: the Redis store implements the writing half of the JobStore protocol.  On a well-formed key space
  and without interference, each of create, update, update_if_status, claim_next and delete, called with
  known fields and without a zero timestamp (\<open>op_ok\<close>), is a step of the abstract protocol with the
  outcome it returns and keeps the key space well-formed, although every job goes through its JSON form on
  each write and read.
\<close>

theorem redis_refines_protocol:
  assumes "redis_inv s" and "op_ok op"
  shows "abs_step op (\<lambda>k. redis_get k s) (fst (redis_step op s)) (\<lambda>k. redis_get k (snd (redis_step op s)))
         \<and> redis_inv (snd (redis_step op s))"
  using redis.step_refines [OF assms] redis.step_inv [OF assms] by simp

theorem redis_refines_protocol_witness:
  "abs_step (OpUpdate ''a1'' demo_finish) (\<lambda>k. redis_get k demo_kv)
     (OJob (Some (setattrs demo_finish demo_old)))
     (\<lambda>k. redis_get k (snd (redis_step (OpUpdate ''a1'' demo_finish) demo_kv)))"
  using redis_refines_protocol [OF demo_kv_inv, of "OpUpdate ''a1'' demo_finish"]
  by (simp add: demo_finish_def redis_update.simps redis_get_def [symmetric] demo_kv_get)

text \<open>
  the compare-and-set of the Redis store linearises.  Whatever other clients write
  between WATCH and EXEC in each attempt, update_if_status returns what one uninterrupted
  call would return after some prefix of those writes, and leaves the key space that call
  would leave.
\<close>

theorem redis_update_if_status_linearises:
  "\<exists>n \<le> length wss. redis_update_if_status wss k st c fs s
       = redis_update_if_status [] k st c fs (apply_all (take n wss) s)"
proof (cases "list_all field_known fs")
  case False
  then show ?thesis by (intro exI [of _ 0]) (simp add: redis_update_if_status_def apply_all_def)
next
  case True
  obtain n where "redis_cas_loop wss k st c fs s = redis_cas_loop [] k st c fs (apply_all (take n wss) s)"
    using redis_cas_linear [of wss k st c fs s] ..
  moreover have "take n wss = take (min n (length wss)) wss" by (simp add: min_def)
  ultimately show ?thesis
    using True by (intro exI [of _ "min n (length wss)"]) (simp add: redis_update_if_status_def)
qed

text \<open>What a claim asks for of a job at a given time.\<close>

definition asked_for :: "claim_req \<Rightarrow> real \<Rightarrow> job \<Rightarrow> bool" where
  "asked_for r now j \<longleftrightarrow> status j = QUEUED \<and> (target_tier j = None \<or> target_tier j = c_tier r)
     \<and> (case c_engine r of AnyEngine \<Rightarrow> True | OneEngine e \<Rightarrow> engine j = e | Engines es \<Rightarrow> es = [] \<or> engine j \<in> set es)
     \<and> (\<forall>t. claimable_after j = Some t \<longrightarrow> t \<le> now)
     \<and> (\<forall>v. c_min_age r = Fin v \<and> 0 < v \<and> target_tier j = None \<longrightarrow> created_at j \<le> now - v)"

lemma asked_for_recheck:
  assumes "untargeted_cutoff (c_min_age r) now = Inr cutoff"
  shows "recheck (r\<lparr>c_now := now\<rparr>) cutoff j = asked_for r now j"
    "eligible_job (r\<lparr>c_now := now\<rparr>) cutoff j = (asked_for r now j \<and> job_id j \<notin> set (c_exclude r))"
  using assms
  by (cases "c_min_age r"; cases "c_engine r";
      auto simp: recheck_def eligible_job_def claimable_def asked_for_def tier_match_def split: if_splits option.splits)+

text \<open>
  C26: a claim on the Redis store under any interference.  Whatever other clients write between
  the scan, the WATCH and the EXEC of each of its attempts, a claim that returns a job did this at some
  point of those writes: it chose, with one of its clock readings, the oldest of the jobs that were asked
  for and not excluded; and when its transaction committed, that job's row was still stored, queued and
  asked for, and the commit changed exactly this row, to RUNNING, with the start and the fresh token.
  So two claims that race cannot both get it.
\<close>

theorem redis_claim_commits_queued_job:
  assumes "distinct (map fst s)" and "redis_claim_next atts r s = (Inr (Some j'), s')"
  shows "\<exists>m n key j0 j now. m \<le> n \<and> now \<in> set (c_now r # map (\<lambda>(_, _, t). t) atts)
    \<and> (let seen = redis_scan (apply_all (take m (interference atts)) s) in
        (key, j0) \<in> set seen \<and> asked_for r now j0 \<and> job_id j0 \<notin> set (c_exclude r)
        \<and> (\<forall>(k, i) \<in> set seen. asked_for r now i \<and> job_id i \<notin> set (c_exclude r) \<longrightarrow>
             (created_at j0, job_id j0) \<le> (created_at i, job_id i)))
    \<and> fetch (apply_all (take n (interference atts)) s) key = Some j \<and> asked_for r now j
    \<and> j' = j\<lparr>status := RUNNING, started_at := Some (c_started r), claim_id := Some (c_token r)\<rparr>
    \<and> s' = AList.update key (encode_job j') (apply_all (take n (interference atts)) s)"
proof -
  obtain m n key j0 j now cutoff where e: "m \<le> n" "now \<in> set (c_now r # map (\<lambda>(_, _, t). t) atts)"
    and cut: "untargeted_cutoff (c_min_age r) now = Inr cutoff"
    and c: "(key, j0) \<in> set (redis_scan (apply_all (take m (interference atts)) s))" "eligible_job (r\<lparr>c_now := now\<rparr>) cutoff j0"
      "\<forall>(k, i) \<in> set (redis_scan (apply_all (take m (interference atts)) s)).
         eligible_job (r\<lparr>c_now := now\<rparr>) cutoff i \<longrightarrow> claim_key j0 \<le> claim_key i"
    and f: "fetch (apply_all (take n (interference atts)) s) key = Some j" "recheck (r\<lparr>c_now := now\<rparr>) cutoff j"
      "j' = win r j" "s' = AList.update key (encode_job j') (apply_all (take n (interference atts)) s)"
    using redis_claim_at_exec [OF assms(1), of atts r j' s'] assms(2)
    unfolding redis_claim_next_def claim_exec_at_def by blast
  note asked = asked_for_recheck [OF cut]
  have j': "j' = j\<lparr>status := RUNNING, started_at := Some (c_started r), claim_id := Some (c_token r)\<rparr>"
    by (simp add: f(3) win_def claimed_def)
  show ?thesis
    unfolding Let_def using e c [unfolded asked claim_key_def] f(1,4) f(2) [unfolded asked] j' by blast
qed

theorem redis_claim_commits_queued_job_witness:
  "\<exists>n key j now. now \<in> {c_now (demo_req ''t''), 5}
      \<and> fetch (apply_all (take n (interference [([], [(redis_key ''a1'', None)], 5)])) demo_kv) key = Some j
      \<and> asked_for (demo_req ''t'') now j"
proof -
  have d: "distinct (map fst demo_kv)" using demo_kv_inv by (simp add: redis_inv_def)
  let ?atts = "[([], [(redis_key ''a1'', None)], 5)] :: (foreign \<times> foreign \<times> real) list"
  have scan: "redis_scan [(redis_key ''b2'', encode_job demo_new)] = [(redis_key ''b2'', demo_new)]"
    by (simp add: redis_scan_def map_filter_def redis_key_def decode_encode demo_safe)
  have el: "eligible_job (r\<lparr>c_now := t\<rparr>) None j" "eligible_job r None j" "recheck r None j"
    if "r = demo_req ''t''" "j = demo_old \<or> j = demo_new" for r t j
    using that by (auto simp: eligible_job_def recheck_def claimable_def tier_match_def demo_req_def
        demo_old_def demo_new_def Job_new_def)
  have ck: "claim_key demo_old \<le> claim_key demo_new"
    by (simp add: claim_key_def demo_old_def demo_new_def Job_new_def)
  have f1: "fetch demo_kv (redis_key ''a1'') = Some demo_old"
    using demo_kv_get by (simp add: redis_get_def)
  have del: "apply_foreign [(redis_key ''a1'', None)] demo_kv = [(redis_key ''b2'', encode_job demo_new)]"
    by (simp add: apply_foreign_def demo_kv_eq)
  have cut: "untargeted_cutoff (c_min_age (demo_req ''t'')) n = Inr None" for n
    by (simp add: demo_req_def)
  have run: "redis_claim_next ?atts (demo_req ''t'') demo_kv
      = (Inr (Some (win (demo_req ''t'') demo_new)),
         [(redis_key ''b2'', encode_job (win (demo_req ''t'') demo_new))])"
    unfolding redis_claim_next_def
    using ck
    by (subst redis_claim_loop.simps, simp add: cut demo_kv_scan el f1 touches_def,
        subst redis_claim_loop.simps, simp add: cut scan el del)
  from redis_claim_commits_queued_job [OF d run] show ?thesis unfolding Let_def by simp blast
qed

text \<open>
  the JSON form of a job.  Encoding a job and decoding it again gives the job back
  exactly when no optional timestamp is the number zero: from_dict tests the timestamps for
  truth, so a stored 0.0 comes back as absent.
\<close>

theorem redis_roundtrip:
  "decode_job (encode_job j) = Some j \<longleftrightarrow>
     started_at j \<noteq> Some 0 \<and> finished_at j \<noteq> Some 0 \<and> expires_at j \<noteq> Some 0 \<and> claimable_after j \<noteq> Some 0"
  by (simp add: decode_job_def encode_job_def from_dict_to_dict dezero_iff json_safe_def)

text \<open>
  the two backends answer listings alike.  When the in-memory store and the Redis scan
  hold the same jobs in the same order, list and count return the same for every filter,
  sort and window.
\<close>

theorem backends_list_alike:
  assumes "map snd (redis_scan kv) = map snd (mem_jobs s)"
  shows "redis_list st q sf ord nf off lm kv = mem_list st q sf ord nf off lm s
         \<and> redis_count st q eng tier uo kv = mem_count st q eng tier uo s"
  using assms
  by (auto simp: redis_list_def mem_list_def redis_count_filter mem_count_def Let_def split: option.splits)

theorem backends_list_alike_witness:
  "redis_count (Some QUEUED) None (OneEngine ''eng'') None True demo_kv
     = mem_count (Some QUEUED) None (OneEngine ''eng'') None True demo_store"
proof -
  have "map snd (redis_scan demo_kv) = map snd (mem_jobs demo_store)"
    by (simp add: demo_store_jobs demo_kv_scan)
  from backends_list_alike [OF this] show ?thesis by blast
qed

end
