(* ===== verification/Contract_Nodes.thy ===== *)
theory Contract_Nodes
  imports Blastbox_Prelude "HOL-Library.Word"
begin

text \<open>
  The typed payload tree of \<^verbatim>\<open>contract/leaf.py\<close>, \<^verbatim>\<open>contract/nodes.py\<close> and
  \<^verbatim>\<open>contract/walk.py\<close>: leaf values with their validators, the node types, the registry of
  engine node types, and the explicit-stack walkers.  Pydantic itself is a third-party
  package; its validators appear as predicates on already-typed values.
\<close>

section \<open>Leaf values\<close>

definition is_hex_char :: "char \<Rightarrow> bool" where
  "is_hex_char c \<longleftrightarrow> (let n = (of_char c :: nat) in
     (48 \<le> n \<and> n \<le> 57) \<or> (97 \<le> n \<and> n \<le> 102) \<or> (65 \<le> n \<and> n \<le> 70))"

text \<open>The character class \<open>[A-Za-z0-9._-]\<close> of artifact ids.\<close>

definition is_id_char :: "char \<Rightarrow> bool" where
  "is_id_char c \<longleftrightarrow> (let n = (of_char c :: nat) in
     (48 \<le> n \<and> n \<le> 57) \<or> (97 \<le> n \<and> n \<le> 122) \<or> (65 \<le> n \<and> n \<le> 90)
     \<or> n = 46 \<or> n = 95 \<or> n = 45)"

definition safe_id :: "string \<Rightarrow> bool" where
  "safe_id s \<longleftrightarrow> 1 \<le> length s \<and> length s \<le> 128 \<and> list_all is_id_char s"

datatype hash_algo = Sha256 | Phash | Dhash | Ahash | Colorhash

fun HASH_HEXLEN :: "hash_algo \<Rightarrow> nat option" where
  "HASH_HEXLEN Sha256 = Some 64"
| "HASH_HEXLEN Phash = Some 16"
| "HASH_HEXLEN Dhash = Some 16"
| "HASH_HEXLEN Ahash = Some 16"
| "HASH_HEXLEN Colorhash = None"

record hash =
  algo :: hash_algo
  hvalue :: string

text \<open>The validator \<open>Hash._hex\<close>: hex digits, the algorithm's length, lower-cased.\<close>

definition mk_hash :: "hash_algo \<Rightarrow> string \<Rightarrow> hash res" where
  "mk_hash a v =
     (if v = [] \<or> \<not> list_all is_hex_char v then Inl (ValueError ''hash value must be hex'')
      else case HASH_HEXLEN a of
        Some n \<Rightarrow> if length v \<noteq> n then Inl (ValueError ''expected hex chars'')
                  else Inr \<lparr>algo = a, hvalue = py_lower v\<rparr>
      | None \<Rightarrow> Inr \<lparr>algo = a, hvalue = py_lower v\<rparr>)"

text \<open>\<open>int(hex_str, 16)\<close>; \<^const>\<open>None\<close> is Python's \<open>ValueError\<close>.\<close>

definition hex_digit :: "char \<Rightarrow> nat option" where
  "hex_digit c = (let n = (of_char c :: nat) in
     if 48 \<le> n \<and> n \<le> 57 then Some (n - 48)
     else if 97 \<le> n \<and> n \<le> 102 then Some (n - 87)
     else if 65 \<le> n \<and> n \<le> 70 then Some (n - 55) else None)"

fun parse_hex_acc :: "nat \<Rightarrow> string \<Rightarrow> nat option" where
  "parse_hex_acc acc [] = Some acc"
| "parse_hex_acc acc (c # cs) =
     (case hex_digit c of None \<Rightarrow> None | Some d \<Rightarrow> parse_hex_acc (16 * acc + d) cs)"

definition phash_hex_to_int8 :: "string \<Rightarrow> int option" where
  "phash_hex_to_int8 s =
     (if s = [] then None
      else case parse_hex_acc 0 s of
        None \<Rightarrow> None
      | Some n \<Rightarrow> let v = int n in Some (if 2 ^ 63 \<le> v then v - 2 ^ 64 else v))"

definition hex_char :: "nat \<Rightarrow> char" where
  "hex_char d = (if d < 10 then char_of (d + 48) else char_of (d + 87))"

fun hex_pad :: "nat \<Rightarrow> nat \<Rightarrow> string" where
  "hex_pad 0 n = []"
| "hex_pad (Suc w) n = hex_pad w (n div 16) @ [hex_char (n mod 16)]"

text \<open>The mask \<open>value & ((1 << 64) - 1)\<close> of a Python integer is its residue modulo \<open>2^64\<close>.\<close>

definition int8_to_phash_hex :: "int \<Rightarrow> string" where
  "int8_to_phash_hex v = hex_pad 16 (nat (v mod 2 ^ 64))"

record detection =
  d_label :: string
  d_mime :: string
  d_confidence :: real
  d_source :: string

definition detection_ok :: "detection \<Rightarrow> bool" where
  "detection_ok d \<longleftrightarrow> 1 \<le> length (d_label d) \<and> length (d_label d) \<le> 64 \<and> length (d_mime d) \<le> 255
     \<and> 0 \<le> d_confidence d \<and> d_confidence d \<le> 1
     \<and> 1 \<le> length (d_source d) \<and> length (d_source d) \<le> 32"

record warning =
  w_code :: string
  w_message :: string
  w_context :: "string option"

definition warning_ok :: "warning \<Rightarrow> bool" where
  "warning_ok w \<longleftrightarrow> 1 \<le> length (w_code w) \<and> length (w_code w) \<le> 64 \<and> length (w_message w) \<le> 2000
     \<and> (case w_context w of None \<Rightarrow> True | Some c \<Rightarrow> length c \<le> 255)"

datatype dim_unit = MM | PX | PT

record dimensions =
  dim_width :: real
  dim_height :: real
  dim_unit :: dim_unit

section \<open>Nodes\<close>

text \<open>
  \<open>Scalar\<close>, \<open>RecordValue\<close> and the four base node types, and a node of a registered engine
  type (its discriminator, the references its own fields hold, its children).
\<close>

datatype scalar = SStr string | SInt int | SFloat real | SBool bool | SNone

datatype record_value =
    RScalar scalar
  | RList "scalar list"
  | RRecord "(string \<times> record_value) list"

datatype node =
    Record "(string \<times> record_value) list"
  | ExtractedText string int "string option"
  | Page int dimensions string "hash list" "node list"
  | EmbeddedResource string string int "(string \<times> record_value) list option" "node list"
  | EngineNode string "string list" "node list"

fun children :: "node \<Rightarrow> node list" where
  "children (Page _ _ _ _ cs) = cs"
| "children (EmbeddedResource _ _ _ _ cs) = cs"
| "children (EngineNode _ _ cs) = cs"
| "children _ = []"

text \<open>The field bounds pydantic enforces on each node type.\<close>

fun node_ok :: "node \<Rightarrow> bool" where
  "node_ok (Record fs) = (length fs \<le> 4096)"
| "node_ok (ExtractedText t n l) =
     (length t \<le> 10000000 \<and> 0 \<le> n
      \<and> (case l of None \<Rightarrow> True | Some c \<Rightarrow> 2 \<le> length c \<and> length c \<le> 64))"
| "node_ok (Page i d img hs cs) =
     (0 \<le> i \<and> 0 < dim_width d \<and> 0 < dim_height d \<and> safe_id img \<and> length hs \<le> 32
      \<and> length cs \<le> 10000 \<and> list_all node_ok cs)"
| "node_ok (EmbeddedResource p ct dep md cs) =
     (length p \<le> 4096 \<and> length ct \<le> 255 \<and> 0 \<le> dep \<and> dep \<le> 64
      \<and> (case md of None \<Rightarrow> True | Some fs \<Rightarrow> length fs \<le> 4096)
      \<and> length cs \<le> 10000 \<and> list_all node_ok cs)"
| "node_ok (EngineNode ty refs cs) = (list_all safe_id refs \<and> list_all node_ok cs)"

section \<open>The registry of engine node types\<close>

text \<open>A registered class is its identity and its discriminator value.\<close>

type_synonym node_class = "nat \<times> string"

definition BASE_TYPES :: "string list" where
  "BASE_TYPES = [''page'', ''embedded_resource'', ''extracted_text'', ''record'']"

fun replace_disc :: "node_class \<Rightarrow> node_class list \<Rightarrow> node_class list option" where
  "replace_disc c [] = None"
| "replace_disc c (x # xs) =
     (if snd x = snd c then Some (c # xs) else map_option ((#) x) (replace_disc c xs))"

definition register_node_type :: "node_class \<Rightarrow> node_class list \<Rightarrow> node_class list" where
  "register_node_type c reg =
     (if c \<in> set reg then reg
      else case replace_disc c reg of Some reg' \<Rightarrow> reg' | None \<Rightarrow> reg @ [c])"

text \<open>The discriminator values of the union \<open>rebuild_node_union\<close> builds.\<close>

definition union_discriminators :: "node_class list \<Rightarrow> string list" where
  "union_discriminators reg = BASE_TYPES @ map snd reg"

section \<open>Walking the tree\<close>

text \<open>
  \<open>iter_nodes\<close> with its explicit stack: the nodes yielded, and whether the walk ended with
  the depth error.  The stack's top is the head of the list.
\<close>

definition WALK_MAX_DEPTH :: nat where "WALK_MAX_DEPTH = 128"

definition stack_size :: "(node \<times> nat) list \<Rightarrow> nat" where
  "stack_size st = sum_list (map (\<lambda>(n, d). Suc (size n)) st)"

lemma size_list_children: "size_list size (children n) \<le> size n"
  by (cases n) auto

lemma sum_list_Suc_size: "sum_list (map (\<lambda>x. Suc (size x)) xs) = size_list size xs"
  by (induction xs) auto

function iter_loop :: "nat \<Rightarrow> (node \<times> nat) list \<Rightarrow> node list \<times> bool" where
  "iter_loop mx [] = ([], True)"
| "iter_loop mx ((n, d) # st) =
     (if mx < d then ([], False)
      else apfst ((#) n) (iter_loop mx (map (\<lambda>c. (c, Suc d)) (children n) @ st)))"
  by pat_completeness auto
termination
proof (relation "measure (\<lambda>(mx, st). stack_size st)", simp, goal_cases)
  case (1 mx n d st)
  show ?case
    using size_list_children [of n] by (simp add: stack_size_def o_def sum_list_Suc_size)
qed

definition iter_nodes :: "nat \<Rightarrow> node \<Rightarrow> node list res" where
  "iter_nodes mx nd =
     (case iter_loop mx [(nd, 0)] of
        (ns, ok) \<Rightarrow> if ok then Inr ns
                   else Inl (ValueError ''payload tree exceeds maximum nesting depth''))"

definition find_by_type :: "(node \<Rightarrow> bool) \<Rightarrow> node \<Rightarrow> node list res" where
  "find_by_type is_type nd =
     (case iter_nodes WALK_MAX_DEPTH nd of Inl e \<Rightarrow> Inl e | Inr ns \<Rightarrow> Inr (filter is_type ns))"

text \<open>The walk's specification: recursive pre-order, and the depth of the tree.\<close>

fun preorder :: "node \<Rightarrow> node list" where
  "preorder (Page i d r h cs) = Page i d r h cs # concat (map preorder cs)"
| "preorder (EmbeddedResource p c d m cs) = EmbeddedResource p c d m cs # concat (map preorder cs)"
| "preorder (EngineNode t r cs) = EngineNode t r cs # concat (map preorder cs)"
| "preorder n = [n]"

fun tree_depth :: "node \<Rightarrow> nat" where
  "tree_depth (Page i d r h cs) = fold max (map (\<lambda>c. Suc (tree_depth c)) cs) 0"
| "tree_depth (EmbeddedResource p c d m cs) = fold max (map (\<lambda>c. Suc (tree_depth c)) cs) 0"
| "tree_depth (EngineNode t r cs) = fold max (map (\<lambda>c. Suc (tree_depth c)) cs) 0"
| "tree_depth n = 0"

lemma fold_max_le: "fold max xs (a::nat) \<le> m \<longleftrightarrow> a \<le> m \<and> (\<forall>x \<in> set xs. x \<le> m)"
  by (induction xs arbitrary: a) auto

lemma preorder_children: "preorder n = n # concat (map preorder (children n))"
  by (cases n) auto

lemma tree_depth_le:
  "tree_depth n + d \<le> mx \<longleftrightarrow> d \<le> mx \<and> (\<forall>c \<in> set (children n). tree_depth c + Suc d \<le> mx)"
proof (cases "d \<le> mx")
  case True
  then have "tree_depth n + d \<le> mx \<longleftrightarrow> tree_depth n \<le> mx - d" by arith
  moreover have "tree_depth n = fold max (map (\<lambda>c. Suc (tree_depth c)) (children n)) 0"
    by (cases n) auto
  ultimately have "tree_depth n + d \<le> mx \<longleftrightarrow> (\<forall>c \<in> set (children n). Suc (tree_depth c) \<le> mx - d)"
    by (simp add: fold_max_le)
  moreover have "Suc (tree_depth c) \<le> mx - d \<longleftrightarrow> tree_depth c + Suc d \<le> mx" for c
    using True by arith
  ultimately show ?thesis using True by simp
qed auto

lemma iter_loop_spec:
  "iter_loop mx st = (ns, ok) \<Longrightarrow>
     ok = (\<forall>(n, d) \<in> set st. tree_depth n + d \<le> mx)
     \<and> (ok \<longrightarrow> ns = concat (map (preorder \<circ> fst) st))"
proof (induction mx st arbitrary: ns ok rule: iter_loop.induct)
  case (1 mx)
  then show ?case by simp
next
  case (2 mx n d st)
  show ?case
  proof (cases "mx < d")
    case True
    with "2.prems" show ?thesis by auto
  next
    case False
    let ?st = "map (\<lambda>c. (c, Suc d)) (children n) @ st"
    obtain ns' where r: "iter_loop mx ?st = (ns', ok)" and ns: "ns = n # ns'"
      using False "2.prems" by (cases "iter_loop mx ?st") auto
    note IH = "2.IH" [OF False r]
    have "(\<forall>(n, d) \<in> set ?st. tree_depth n + d \<le> mx)
       \<longleftrightarrow> (\<forall>c \<in> set (children n). tree_depth c + Suc d \<le> mx) \<and> (\<forall>(n, d) \<in> set st. tree_depth n + d \<le> mx)"
      by (simp add: ball_Un)
    then have "ok = (\<forall>(n, d) \<in> set ((n, d) # st). tree_depth n + d \<le> mx)"
      using IH False by (simp add: tree_depth_le [of n d])
    moreover have "ok \<longrightarrow> ns = concat (map (preorder \<circ> fst) ((n, d) # st))"
      using IH ns by (auto simp: preorder_children [of n] o_def)
    ultimately show ?thesis by blast
  qed
qed

lemma iter_nodes_eq:
  "iter_nodes mx nd =
     (if tree_depth nd \<le> mx then Inr (preorder nd)
      else Inl (ValueError ''payload tree exceeds maximum nesting depth''))"
  using iter_loop_spec [of mx "[(nd, 0)]"]
  by (cases "iter_loop mx [(nd, 0)]") (auto simp: iter_nodes_def)

section \<open>Collecting artifact references\<close>

text \<open>
  \<open>_collect_refs\<close> walks any Python value: models (their fields), lists, dictionaries and
  references.  The generic values it meets:
\<close>

datatype pyobj = OLeaf | ORef string | OBag "pyobj list"

fun obj_of_rv :: "record_value \<Rightarrow> pyobj" where
  "obj_of_rv (RScalar _) = OLeaf"
| "obj_of_rv (RList xs) = OBag (map (\<lambda>_. OLeaf) xs)"
| "obj_of_rv (RRecord fs) = OBag [OLeaf, OBag (map (\<lambda>(k, v). obj_of_rv v) fs)]"

definition obj_of_fields :: "(string \<times> record_value) list \<Rightarrow> pyobj" where
  "obj_of_fields fs = OBag [OLeaf, OBag (map (\<lambda>(k, v). obj_of_rv v) fs)]"

fun obj_of_node :: "node \<Rightarrow> pyobj" where
  "obj_of_node (Record fs) = obj_of_fields fs"
| "obj_of_node (ExtractedText t n l) = OBag [OLeaf, OLeaf, OLeaf, OLeaf]"
| "obj_of_node (Page i d img hs cs) =
     OBag [OLeaf, OLeaf, OBag [OLeaf, OLeaf, OLeaf], ORef img,
           OBag (map (\<lambda>_. OBag [OLeaf, OLeaf]) hs), OBag (map obj_of_node cs)]"
| "obj_of_node (EmbeddedResource p ct dep md cs) =
     OBag [OLeaf, OLeaf, OLeaf, OLeaf,
           (case md of None \<Rightarrow> OLeaf | Some fs \<Rightarrow> obj_of_fields fs), OBag (map obj_of_node cs)]"
| "obj_of_node (EngineNode ty refs cs) =
     OBag [OLeaf, OBag (map ORef refs), OBag (map obj_of_node cs)]"

lemma size_list_rev: "size_list f (rev xs) = size_list f xs"
  by (induction xs) (auto simp: size_list_append)

function refs_loop :: "pyobj list \<Rightarrow> string list \<Rightarrow> string list" where
  "refs_loop [] acc = acc"
| "refs_loop (OLeaf # st) acc = refs_loop st acc"
| "refs_loop (ORef r # st) acc = refs_loop st (r # acc)"
| "refs_loop (OBag xs # st) acc = refs_loop (rev xs @ st) acc"
  by pat_completeness auto
termination
  by (relation "measure (\<lambda>(st, acc). sum_list (map (\<lambda>x. Suc (size x)) st))")
     (simp_all add: size_list_rev sum_list_Suc_size)

definition collect_refs :: "node \<Rightarrow> string set" where
  "collect_refs n = set (refs_loop [obj_of_node n] [])"

text \<open>Its specification: the references of the tree, by structure.\<close>

fun node_refs :: "node \<Rightarrow> string set" where
  "node_refs (Page i d img hs cs) = insert img (\<Union> (set (map node_refs cs)))"
| "node_refs (EmbeddedResource p ct dep md cs) = \<Union> (set (map node_refs cs))"
| "node_refs (EngineNode ty refs cs) = set refs \<union> \<Union> (set (map node_refs cs))"
| "node_refs _ = {}"

fun obj_refs :: "pyobj \<Rightarrow> string set" where
  "obj_refs OLeaf = {}"
| "obj_refs (ORef r) = {r}"
| "obj_refs (OBag xs) = \<Union> (set (map obj_refs xs))"

lemma refs_loop_spec: "set (refs_loop st acc) = \<Union> (set (map obj_refs st)) \<union> set acc"
  by (induction st acc rule: refs_loop.induct) auto

lemma obj_refs_rv [simp]: "obj_refs (obj_of_rv v) = {}"
  by (induction v rule: obj_of_rv.induct) auto

lemma obj_refs_fields [simp]: "obj_refs (obj_of_fields fs) = {}"
  by (auto simp: obj_of_fields_def)

lemma obj_refs_node: "obj_refs (obj_of_node n) = node_refs n"
  by (induction n rule: obj_of_node.induct) (auto split: option.splits)

lemma collect_refs_eq: "collect_refs n = node_refs n"
  by (simp add: collect_refs_def refs_loop_spec obj_refs_node)

section \<open>Perceptual hashes\<close>

lemma hex_digit_char: "d < 16 \<Longrightarrow> hex_digit (hex_char d) = Some d"
  by (auto simp: hex_digit_def hex_char_def Let_def)

lemma parse_hex_append:
  "parse_hex_acc acc (xs @ ys) = Option.bind (parse_hex_acc acc xs) (\<lambda>a. parse_hex_acc a ys)"
  by (induction xs arbitrary: acc) (auto split: option.splits)

lemma parse_hex_pad: "parse_hex_acc acc (hex_pad w n) = Some (acc * 16 ^ w + n mod 16 ^ w)"
proof (induction w arbitrary: n)
  case 0
  then show ?case by simp
next
  case (Suc w)
  have "n mod 16 ^ Suc w = 16 * (n div 16 mod 16 ^ w) + n mod 16"
    by (simp add: mod_mult2_eq)
  with Suc show ?case
    by (simp add: parse_hex_append hex_digit_char algebra_simps)
qed

lemma hex_pad_length [simp]: "length (hex_pad w n) = w"
  by (induction w arbitrary: n) auto

lemma replace_disc_Some: "replace_disc c xs = Some ys \<Longrightarrow> map snd ys = map snd xs"
  by (induction xs arbitrary: ys) (auto split: if_splits)

lemma replace_disc_None: "replace_disc c xs = None \<longleftrightarrow> snd c \<notin> snd ` set xs"
  by (induction xs) (auto simp: image_iff)

section \<open>Properties\<close>

text \<open>
  iter_nodes.  The explicit-stack walk yields exactly the recursive pre-order of the
  tree when the tree is at most max_depth deep, and raises the depth error otherwise, for
  every tree and every bound.
\<close>

theorem iter_nodes_preorder:
  "iter_nodes mx nd =
     (if tree_depth nd \<le> mx then Inr (preorder nd)
      else Inl (ValueError ''payload tree exceeds maximum nesting depth''))"
  by (rule iter_nodes_eq)

text \<open>
  _collect_refs.  The stack walk over every field of every model finds exactly the
  artifact references of the payload: the image of each page and the references of engine
  nodes, at any depth, and nothing from record fields, text or metadata.
\<close>

theorem collect_refs_complete: "collect_refs nd = node_refs nd"
  by (rule collect_refs_eq)

text \<open>
  perceptual hashes survive the signed 64-bit index.  Writing a signed 64-bit value as
  hex and reading it back gives the value, the text has sixteen hex digits, and it passes
  the validator of a phash leaf unchanged in length.
\<close>

theorem phash_roundtrip:
  assumes "- (2 ^ 63) \<le> v" and "v < 2 ^ 63"
  shows "phash_hex_to_int8 (int8_to_phash_hex v) = Some v \<and> length (int8_to_phash_hex v) = 16"
proof -
  let ?n = "nat (v mod 2 ^ 64)"
  have lt: "?n < 16 ^ 16" by (simp add: nat_less_iff)
  have len: "length (int8_to_phash_hex v) = 16" by (simp add: int8_to_phash_hex_def)
  then have ne: "int8_to_phash_hex v \<noteq> []" by auto
  have parse: "parse_hex_acc 0 (int8_to_phash_hex v) = Some ?n"
    using lt by (simp add: int8_to_phash_hex_def parse_hex_pad)
  have "(if (2::int) ^ 63 \<le> v mod 2 ^ 64 then v mod 2 ^ 64 - 2 ^ 64 else v mod 2 ^ 64) = v"
  proof (cases "0 \<le> v")
    case True
    with assms show ?thesis by (simp add: mod_pos_pos_trivial)
  next
    case False
    have "v mod 2 ^ 64 = (v + 2 ^ 64) mod 2 ^ 64" by simp
    also have "\<dots> = v + 2 ^ 64"
      using assms False by (intro mod_pos_pos_trivial) auto
    finally have "v mod 2 ^ 64 = v + 2 ^ 64" .
    with assms False show ?thesis by simp
  qed
  then show ?thesis using parse ne len by (auto simp: phash_hex_to_int8_def Let_def split: if_splits)
qed

theorem phash_roundtrip_witness:
  "phash_hex_to_int8 (int8_to_phash_hex (- 1)) = Some (- 1)"
  using phash_roundtrip [of "- 1"] by simp

text \<open>
  registering an engine node type keeps the discriminated union well-formed: if no two
  registered classes share a discriminator before, none do after, and the new class's
  discriminator is registered.
\<close>

theorem register_keeps_union_wellformed:
  assumes "distinct (map snd reg)"
  shows "distinct (map snd (register_node_type c reg)) \<and> c \<in> set (register_node_type c reg)"
proof (cases "c \<in> set reg")
  case True
  with assms show ?thesis by (simp add: register_node_type_def)
next
  case False
  have mem: "replace_disc c reg = Some r \<Longrightarrow> c \<in> set r" for r
    by (induction reg arbitrary: r) (auto split: if_splits)
  show ?thesis
  proof (cases "replace_disc c reg")
    case None
    then have "snd c \<notin> snd ` set reg" by (simp add: replace_disc_None)
    with assms False None show ?thesis by (simp add: register_node_type_def)
  next
    case (Some r)
    with assms False replace_disc_Some [OF Some] mem [OF Some] show ?thesis
      by (simp add: register_node_type_def)
  qed
qed

theorem register_keeps_union_wellformed_witness:
  "register_node_type (2, ''mail'') [(1, ''mail''), (3, ''link'')] = [(2, ''mail''), (3, ''link'')]
   \<and> distinct (map snd (register_node_type (2, ''mail'') [(1, ''mail''), (3, ''link'')]))"
  using register_keeps_union_wellformed [of "[(1, ''mail''), (3, ''link'')]" "(2, ''mail'')"]
  by (simp add: register_node_type_def)

end
