(* ===== verification/Contract_Envelope.thy ===== *)
theory Contract_Envelope
  imports Contract_Nodes
begin

text \<open>
  The security envelope, \<^verbatim>\<open>contract/envelope.py\<close>: the confined open of a worker-written
  path, the capped hash of a file, \<open>seal_envelope\<close>, \<open>validate_envelope\<close>, the two depth
  guards and \<open>envelope_from_json\<close>.

  The output directory is a tree as the kernel would show it to the no-follow walk; a file
  carries what \<open>fstat\<close> reports and, separately, what reading it yields, so a worker that
  grows a file between the two is inside the model.  The kernel may fail any open or read
  with an errno.  SHA-256, \<open>json.loads\<close> and pydantic's parsing are parameters, as is what
  \<open>Path.resolve\<close> and \<open>stat\<close> report to \<open>validate_envelope\<close>.
\<close>

section \<open>The output directory\<close>

record file_info =
  f_dev :: nat
  f_ino :: nat
  f_stat_size :: nat
  f_content :: string
  f_read_fault :: "int option"

datatype fnode = Dir "(string \<times> fnode) list" | Reg file_info | Symlink | Fifo | Sock

record fsys =
  fs_root :: fnode
  fs_fault :: "string list \<Rightarrow> int option"

definition ELOOP :: int where "ELOOP = 40"
definition ENOTDIR :: int where "ENOTDIR = 20"
definition ENXIO :: int where "ENXIO = 6"

text \<open>Exceptions: a \<open>ValueError\<close> with its cause, \<open>FileNotFoundError\<close>, any other \<open>OSError\<close>.\<close>

datatype env_exc = VErr string "env_exc option" | NotFound | OsErr int

text \<open>\<open>Path(relpath).parts\<close> of a relative path.\<close>

definition path_parts :: "string \<Rightarrow> string list" where
  "path_parts rel = filter (\<lambda>p. p \<noteq> [] \<and> p \<noteq> ''.'') (split_on CHR ''/'' rel)"

definition is_absolute :: "string \<Rightarrow> bool" where
  "is_absolute rel = startswith rel ''/''"

fun open_walk ::
  "(string list \<Rightarrow> int option) \<Rightarrow> string list \<Rightarrow> fnode \<Rightarrow> string list \<Rightarrow> env_exc + file_info" where
  "open_walk flt pre nd [] = Inl (VErr ''unsafe path'' None)"
| "open_walk flt pre nd (p # ps) =
     (case nd of
        Dir es \<Rightarrow>
          (case flt (pre @ [p]) of
             Some e \<Rightarrow> Inl (OsErr e)
           | None \<Rightarrow>
               (case map_of es p of
                  None \<Rightarrow> Inl NotFound
                | Some child \<Rightarrow>
                    if ps = [] then
                      (case child of
                         Reg f \<Rightarrow> Inr f
                       | Symlink \<Rightarrow> Inl (OsErr ELOOP)
                       | Sock \<Rightarrow> Inl (OsErr ENXIO)
                       | _ \<Rightarrow> Inl (VErr ''not a regular file'' None))
                    else
                      (case child of
                         Dir es' \<Rightarrow> open_walk flt (pre @ [p]) (Dir es') ps
                       | _ \<Rightarrow> Inl (OsErr ENOTDIR))))
      | _ \<Rightarrow> Inl (OsErr ENOTDIR))"

definition open_confined_regular_fd :: "fsys \<Rightarrow> string \<Rightarrow> env_exc + file_info" where
  "open_confined_regular_fd fs rel =
     (if is_absolute rel \<or> path_parts rel = [] \<or> ''..'' \<in> set (path_parts rel)
      then Inl (VErr ''unsafe path (absolute, empty, or contains ..)'' None)
      else case fs_fault fs [] of
        Some e \<Rightarrow> Inl (OsErr e)
      | None \<Rightarrow> open_walk (fs_fault fs) [] (fs_root fs) (path_parts rel))"

text \<open>\<open>_hash_fd\<close>: one-mebibyte reads, the cap tested on the running tot.\<close>

definition READ_CHUNK :: nat where "READ_CHUNK = 1048576"

definition exceeds :: "nat option \<Rightarrow> nat \<Rightarrow> bool" where
  "exceeds cap n = (case cap of None \<Rightarrow> False | Some m \<Rightarrow> m < n)"

function hash_loop :: "nat option \<Rightarrow> nat \<Rightarrow> string \<Rightarrow> string \<Rightarrow> env_exc + (string \<times> nat)" where
  "hash_loop cap tot digest rest =
     (let chunk = take READ_CHUNK rest
      in if chunk = [] then Inr (digest, tot)
         else if exceeds cap (tot + length chunk)
         then Inl (VErr ''file grew past the cap during read'' None)
         else hash_loop cap (tot + length chunk) (digest @ chunk) (drop READ_CHUNK rest))"
  by pat_completeness auto
termination
  by (relation "measure (\<lambda>(cap, tot, digest, rest). length rest)") (auto simp: READ_CHUNK_def)

declare hash_loop.simps [simp del]

definition hash_fd :: "(string \<Rightarrow> string) \<Rightarrow> nat option \<Rightarrow> file_info \<Rightarrow> env_exc + (string \<times> nat)" where
  "hash_fd sha cap f =
     (case f_read_fault f of
        Some e \<Rightarrow> Inl (OsErr e)
      | None \<Rightarrow> (case hash_loop cap 0 [] (f_content f) of
                  Inl e \<Rightarrow> Inl e | Inr (digest, n) \<Rightarrow> Inr (sha digest, n)))"

section \<open>Artifacts and envelopes\<close>

record declared_artifact =
  da_id :: string
  da_path :: string
  da_kind :: string

text \<open>The validators of \<open>DeclaredArtifact\<close>.\<close>

definition declared_ok :: "declared_artifact \<Rightarrow> bool" where
  "declared_ok d \<longleftrightarrow> safe_id (da_id d) \<and> length (da_path d) \<le> 4096
     \<and> 1 \<le> length (da_kind d) \<and> length (da_kind d) \<le> 64"

record artifact =
  a_id :: string
  a_path :: string
  a_kind :: string
  a_sha256 :: string
  a_bytes :: nat

definition is_sha256_hex :: "string \<Rightarrow> bool" where
  "is_sha256_hex s \<longleftrightarrow> length s = 64 \<and> list_all (\<lambda>c. is_hex_char c \<and> lower_char c = c) s"

datatype env_status = EnvOk | EnvRejected | EnvEngineError

record envelope =
  e_engine :: string
  e_status :: env_status
  e_input_sha256 :: string
  e_detected :: detection
  e_artifacts :: "artifact list"
  e_warnings :: "warning list"
  e_payload :: node

definition MAX_ARTIFACTS :: nat where "MAX_ARTIFACTS = 16384"

text \<open>What constructing \<open>Envelope\<close> and its \<open>Artifact\<close>s checks.\<close>

definition envelope_ok :: "envelope \<Rightarrow> bool" where
  "envelope_ok e \<longleftrightarrow> 1 \<le> length (e_engine e) \<and> length (e_engine e) \<le> 64
     \<and> is_sha256_hex (e_input_sha256 e) \<and> length (e_artifacts e) \<le> MAX_ARTIFACTS
     \<and> list_all (\<lambda>a. is_sha256_hex (a_sha256 a)) (e_artifacts e)"

section \<open>Sealing\<close>

type_synonym inode_cache = "((nat \<times> nat) \<times> (string \<times> nat)) list"

definition inode_key :: "file_info \<Rightarrow> (nat \<times> nat) option" where
  "inode_key f = (if f_ino f \<noteq> 0 then Some (f_dev f, f_ino f) else None)"

definition cached_hash :: "inode_cache \<Rightarrow> file_info \<Rightarrow> (string \<times> nat) option" where
  "cached_hash cache f = (case inode_key f of None \<Rightarrow> None | Some k \<Rightarrow> map_of cache k)"

definition remember :: "inode_cache \<Rightarrow> file_info \<Rightarrow> string \<times> nat \<Rightarrow> inode_cache" where
  "remember cache f hn = (case inode_key f of None \<Rightarrow> cache | Some k \<Rightarrow> AList.update k hn cache)"

text \<open>The two reserved spellings of the root-level metadata file, matched on the path text.\<close>

definition reserved_output :: "string \<Rightarrow> bool" where
  "reserved_output path \<longleftrightarrow> path = ''metadata.json'' \<or> startswith path ''.metadata.json.''"

definition seal_open :: "fsys \<Rightarrow> string \<Rightarrow> env_exc + file_info" where
  "seal_open fs path =
     (case open_confined_regular_fd fs path of
        Inl NotFound \<Rightarrow> Inl (VErr ''declared artifact file missing'' (Some NotFound))
      | Inl e \<Rightarrow> Inl (VErr ''declared artifact path not confined to outdir or not a regular file'' (Some e))
      | Inr f \<Rightarrow> Inr f)"

fun seal_loop ::
  "(string \<Rightarrow> string) \<Rightarrow> fsys \<Rightarrow> nat option \<Rightarrow> string list \<Rightarrow> inode_cache \<Rightarrow> declared_artifact list \<Rightarrow>
   env_exc + artifact list" where
  "seal_loop sha fs cap ids cache [] = Inr []"
| "seal_loop sha fs cap ids cache (d # ds) =
     (if da_id d \<in> set ids then Inl (VErr ''duplicate artifact id'' None)
      else if reserved_output (da_path d)
      then Inl (VErr ''reserved output path may not be a declared artifact'' None)
      else case seal_open fs (da_path d) of
        Inl e \<Rightarrow> Inl e
      | Inr f \<Rightarrow>
          if exceeds cap (f_stat_size f) then Inl (VErr ''declared artifact size exceeds the cap'' None)
          else case (case cached_hash cache f of Some hn \<Rightarrow> Inr hn | None \<Rightarrow> hash_fd sha cap f) of
            Inl e \<Rightarrow> Inl e
          | Inr hn \<Rightarrow>
              (case seal_loop sha fs cap (da_id d # ids)
                      (if cached_hash cache f = None then remember cache f hn else cache) ds of
                 Inl e \<Rightarrow> Inl e
               | Inr as \<Rightarrow>
                   Inr (\<lparr>a_id = da_id d, a_path = da_path d, a_kind = da_kind d,
                         a_sha256 = fst hn, a_bytes = snd hn\<rparr> # as)))"

definition seal_envelope ::
  "(string \<Rightarrow> string) \<Rightarrow> fsys \<Rightarrow> string \<Rightarrow> string \<Rightarrow> detection \<Rightarrow> declared_artifact list \<Rightarrow>
   warning list \<Rightarrow> node \<Rightarrow> env_status \<Rightarrow> nat option \<Rightarrow> nat \<Rightarrow> env_exc + envelope" where
  "seal_envelope sha fs eng input_sha detected declared warnings payload st cap max_artifacts =
     (if max_artifacts < length declared then Inl (VErr ''artifact count exceeds the cap'' None)
      else case seal_loop sha fs cap [] [] declared of
        Inl e \<Rightarrow> Inl e
      | Inr as \<Rightarrow>
          if \<not> collect_refs payload \<subseteq> set (map da_id declared)
          then Inl (VErr ''payload has unresolved ArtifactRef(s)'' None)
          else let env = \<lparr>e_engine = eng, e_status = st, e_input_sha256 = input_sha,
                          e_detected = detected, e_artifacts = as, e_warnings = warnings,
                          e_payload = payload\<rparr>
               in if envelope_ok env then Inr env else Inl (VErr ''validation error'' None))"

section \<open>Re-validation on the host\<close>

text \<open>What \<open>(outdir / path).resolve()\<close>, \<open>is_file()\<close> and \<open>stat()\<close> report.\<close>

datatype restat = ReFault int | ReOutside | ReNotFile | ReFile nat

fun caps_loop :: "(string \<Rightarrow> restat) \<Rightarrow> nat \<Rightarrow> nat \<Rightarrow> artifact list \<Rightarrow> env_exc + nat" where
  "caps_loop restat cap tot [] = Inr tot"
| "caps_loop restat cap tot (a # as) =
     (case restat (a_path a) of
        ReFault e \<Rightarrow> Inl (OsErr e)
      | ReOutside \<Rightarrow> Inl (VErr ''artifact path not confined to outdir'' None)
      | ReNotFile \<Rightarrow> Inl (VErr ''artifact file missing or not a regular file'' None)
      | ReFile sz \<Rightarrow>
          if sz \<noteq> a_bytes a then Inl (VErr ''declared bytes differ from the on-disk size'' None)
          else if cap < sz then Inl (VErr ''artifact bytes exceed the cap'' None)
          else caps_loop restat cap (tot + sz) as)"

definition validate_envelope ::
  "(string \<Rightarrow> restat) \<Rightarrow> envelope \<Rightarrow> nat \<Rightarrow> nat \<Rightarrow> nat \<Rightarrow> env_exc + envelope" where
  "validate_envelope restat env max_artifact_bytes max_total_bytes max_artifacts =
     (if max_artifacts < length (e_artifacts env) then Inl (VErr ''artifact count exceeds the cap'' None)
      else case caps_loop restat max_artifact_bytes 0 (e_artifacts env) of
        Inl e \<Rightarrow> Inl e
      | Inr tot \<Rightarrow>
          if max_total_bytes < tot then Inl (VErr ''tot artifact bytes exceed the cap'' None)
          else Inr env)"

section \<open>Parsing worker metadata\<close>

definition MAX_PAYLOAD_DEPTH :: nat where "MAX_PAYLOAD_DEPTH = 128"

text \<open>What the depth check pushes for a node: the values of a dict, the items of a list.\<close>

fun jchildren :: "json \<Rightarrow> json list" where
  "jchildren (JObj kvs) = map snd kvs"
| "jchildren (JList xs) = xs"
| "jchildren _ = []"

lemma size_jchildren: "size_list size (jchildren j) \<le> size j"
proof (cases j)
  case (JObj kvs)
  have "size_list size (map snd kvs) \<le> size_list (size_prod (\<lambda>_. 0) size) kvs"
    by (induction kvs) (auto simp: size_prod_simp split: prod.splits)
  with JObj show ?thesis by simp
qed auto

function json_depth_loop :: "nat \<Rightarrow> (json \<times> nat) list \<Rightarrow> bool" where
  "json_depth_loop mx [] = True"
| "json_depth_loop mx ((j, d) # st) =
     (if mx < d then False
      else json_depth_loop mx (rev (map (\<lambda>v. (v, Suc d)) (jchildren j)) @ st))"
  by pat_completeness auto
termination
proof (relation "measure (\<lambda>(mx, st). size_list (\<lambda>(j, d). size j) st)", simp, goal_cases)
  case (1 mx j d st)
  have "size_list (\<lambda>(j, d). size j) (map (\<lambda>v. (v, Suc d)) (jchildren j)) = size_list size (jchildren j)"
    by (induction "jchildren j") (auto simp: o_def)
  then show ?case using size_jchildren [of j] by (simp add: size_list_rev)
qed

definition check_json_depth :: "json \<Rightarrow> nat \<Rightarrow> bool" where
  "check_json_depth j mx = json_depth_loop mx [(j, 0)]"

record scan_state =
  sc_depth :: int
  sc_max :: int
  sc_str :: bool
  sc_esc :: bool

definition scan_byte :: "char \<Rightarrow> scan_state \<Rightarrow> scan_state" where
  "scan_byte b s =
     (let n = (of_char b :: nat) in
      if sc_str s then
        (if sc_esc s then s\<lparr>sc_esc := False\<rparr>
         else if n = 0x5C then s\<lparr>sc_esc := True\<rparr>
         else if n = 0x22 then s\<lparr>sc_str := False\<rparr> else s)
      else if n = 0x22 then s\<lparr>sc_str := True\<rparr>
      else if n = 0x7B \<or> n = 0x5B then
        (let d = sc_depth s + 1 in s\<lparr>sc_depth := d, sc_max := (if sc_max s < d then d else sc_max s)\<rparr>)
      else if n = 0x7D \<or> n = 0x5D then s\<lparr>sc_depth := sc_depth s - 1\<rparr>
      else s)"

definition scan_start :: scan_state where
  "scan_start = \<lparr>sc_depth = 0, sc_max = 0, sc_str = False, sc_esc = False\<rparr>"

definition raw_json_max_depth :: "string \<Rightarrow> int" where
  "raw_json_max_depth raw = sc_max (fold scan_byte raw scan_start)"

text \<open>The third-party parsers \<open>envelope_from_json\<close> calls.\<close>

record parsers =
  p_loads :: "string \<Rightarrow> json option"
  p_node :: "json \<Rightarrow> node option"
  p_envelope :: "(string \<times> json) list \<Rightarrow> node \<Rightarrow> envelope option"

definition envelope_from_json :: "parsers \<Rightarrow> string \<Rightarrow> nat \<Rightarrow> envelope res" where
  "envelope_from_json P raw max_bytes =
     (if max_bytes < length raw then Inl (ValueError ''metadata json exceeds max_bytes'')
      else if int MAX_PAYLOAD_DEPTH < raw_json_max_depth raw
      then Inl (ValueError ''JSON nesting exceeds maximum depth'')
      else case p_loads P raw of
        None \<Rightarrow> Inl (ValueError ''invalid JSON'')
      | Some (JObj obj) \<Rightarrow>
          (case jget obj ''payload'' of
             JNull \<Rightarrow> Inl (ValueError ''envelope JSON missing required payload field'')
           | payload \<Rightarrow>
               if \<not> check_json_depth payload MAX_PAYLOAD_DEPTH
               then Inl (ValueError ''payload nesting exceeds maximum depth'')
               else case p_node P payload of
                 None \<Rightarrow> Inl (ValueError ''invalid payload node'')
               | Some nd \<Rightarrow>
                   (case p_envelope P obj nd of
                      None \<Rightarrow> Inl (ValueError ''invalid envelope'')
                    | Some env \<Rightarrow> Inr env))
      | Some _ \<Rightarrow> Inl (ValueError ''envelope JSON must be a JSON object''))"

text \<open>\<open>read_confined_regular_bytes\<close>: the size cap by \<open>fstat\<close>, then on the running tot.\<close>

definition read_confined_regular_bytes :: "fsys \<Rightarrow> string \<Rightarrow> nat \<Rightarrow> env_exc + string" where
  "read_confined_regular_bytes fs rel max_bytes =
     (case open_confined_regular_fd fs rel of
        Inl e \<Rightarrow> Inl e
      | Inr f \<Rightarrow>
          if max_bytes < f_stat_size f then Inl (VErr ''exceeds max bytes'' None)
          else case f_read_fault f of
            Some e \<Rightarrow> Inl (OsErr e)
          | None \<Rightarrow>
              (case hash_loop (Some max_bytes) 0 [] (f_content f) of
                 Inl _ \<Rightarrow> Inl (VErr ''exceeds max bytes'' None)
               | Inr (bytes, n) \<Rightarrow> Inr bytes))"

section \<open>Confinement\<close>

text \<open>What a path names in the tree when every step goes through a real directory.\<close>

fun lookup_path :: "fnode \<Rightarrow> string list \<Rightarrow> fnode option" where
  "lookup_path nd [] = Some nd"
| "lookup_path nd (p # ps) =
     (case nd of Dir es \<Rightarrow> (case map_of es p of None \<Rightarrow> None | Some c \<Rightarrow> lookup_path c ps) | _ \<Rightarrow> None)"

lemma open_walk_lookup [fs_simps]:
  "open_walk flt pre nd ps = Inr f \<Longrightarrow> lookup_path nd ps = Some (Reg f)"
  by (induction flt pre nd ps rule: open_walk.induct)
     (auto split: fnode.splits option.splits if_splits)

definition confined_path :: "string \<Rightarrow> bool" where
  "confined_path rel \<longleftrightarrow> \<not> is_absolute rel \<and> path_parts rel \<noteq> [] \<and> ''..'' \<notin> set (path_parts rel)"

lemma open_confined_lookup:
  "open_confined_regular_fd fs rel = Inr f \<Longrightarrow>
   confined_path rel \<and> lookup_path (fs_root fs) (path_parts rel) = Some (Reg f)"
  by (auto simp: open_confined_regular_fd_def confined_path_def fs_simps split: if_splits option.splits)

lemma seal_open_Inr: "seal_open fs path = Inr f \<longleftrightarrow> open_confined_regular_fd fs path = Inr f"
  by (auto simp: seal_open_def split: sum.splits env_exc.splits)

section \<open>The capped hash\<close>

lemma exceeds_mono: "exceeds cap m \<Longrightarrow> m \<le> n \<Longrightarrow> exceeds cap n"
  by (auto simp: exceeds_def split: option.splits)

lemma exceeds_zero [simp]: "\<not> exceeds cap 0"
  by (simp add: exceeds_def split: option.splits)

lemma hash_loop_eq:
  "\<not> exceeds cap tot \<Longrightarrow>
   hash_loop cap tot digest rest =
     (if exceeds cap (tot + length rest) then Inl (VErr ''file grew past the cap during read'' None)
      else Inr (digest @ rest, tot + length rest))"
proof (induction cap tot digest rest rule: hash_loop.induct)
  case (1 cap tot digest rest)
  let ?c = "take READ_CHUNK rest"
  show ?case
  proof (cases "?c = []")
    case True
    then have "rest = []" by (simp add: READ_CHUNK_def)
    with 1 show ?thesis by (subst hash_loop.simps) simp
  next
    case False
    show ?thesis
    proof (cases "exceeds cap (tot + length ?c)")
      case True
      moreover from this have "exceeds cap (tot + length rest)"
        by (rule exceeds_mono) simp
      ultimately show ?thesis using False by (subst hash_loop.simps) simp
    next
      case nx: False
      have len: "tot + length ?c + length (drop READ_CHUNK rest) = tot + length rest" by simp
      from "1.IH" [OF refl False nx nx] False nx show ?thesis
        unfolding len by (subst hash_loop.simps) simp
    qed
  qed
qed

lemma hash_fd_Inr:
  "hash_fd sha cap f = Inr hn \<Longrightarrow>
   hn = (sha (f_content f), length (f_content f)) \<and> \<not> exceeds cap (length (f_content f))
   \<and> f_read_fault f = None"
  by (auto simp: hash_fd_def hash_loop_eq split: option.splits if_splits)

section \<open>What a seal certifies\<close>

text \<open>Files the kernel reports under one non-zero inode number are the same file.\<close>

definition inode_consistent :: "fsys \<Rightarrow> bool" where
  "inode_consistent fs \<longleftrightarrow>
     (\<forall>p q f g. lookup_path (fs_root fs) p = Some (Reg f) \<longrightarrow> lookup_path (fs_root fs) q = Some (Reg g) \<longrightarrow>
        inode_key f \<noteq> None \<longrightarrow> inode_key f = inode_key g \<longrightarrow> f = g)"

definition hash_ok :: "(string \<Rightarrow> string) \<Rightarrow> nat option \<Rightarrow> file_info \<Rightarrow> string \<times> nat \<Rightarrow> bool" where
  "hash_ok sha cap f hn \<longleftrightarrow>
     hn = (sha (f_content f), length (f_content f)) \<and> \<not> exceeds cap (length (f_content f))"

definition cache_ok :: "(string \<Rightarrow> string) \<Rightarrow> fsys \<Rightarrow> nat option \<Rightarrow> inode_cache \<Rightarrow> bool" where
  "cache_ok sha fs cap cache \<longleftrightarrow>
     (\<forall>k hn p f. map_of cache k = Some hn \<longrightarrow> lookup_path (fs_root fs) p = Some (Reg f) \<longrightarrow>
        inode_key f = Some k \<longrightarrow> hash_ok sha cap f hn)"

definition seals :: "(string \<Rightarrow> string) \<Rightarrow> fsys \<Rightarrow> nat option \<Rightarrow> declared_artifact \<Rightarrow> artifact \<Rightarrow> bool" where
  "seals sha fs cap d a \<longleftrightarrow>
     a_id a = da_id d \<and> a_path a = da_path d \<and> a_kind a = da_kind d
     \<and> confined_path (da_path d) \<and> \<not> reserved_output (da_path d)
     \<and> (\<exists>f. lookup_path (fs_root fs) (path_parts (da_path d)) = Some (Reg f)
          \<and> a_sha256 a = sha (f_content f) \<and> a_bytes a = length (f_content f)
          \<and> \<not> exceeds cap (f_stat_size f) \<and> \<not> exceeds cap (length (f_content f)))"

lemma cache_ok_empty: "cache_ok sha fs cap []"
  by (simp add: cache_ok_def)

lemma cache_ok_remember:
  assumes "inode_consistent fs" "cache_ok sha fs cap cache"
    and f: "lookup_path (fs_root fs) p = Some (Reg f)"
    and hn: "hash_ok sha cap f hn"
  shows "cache_ok sha fs cap (remember cache f hn)"
proof (cases "inode_key f")
  case None
  with assms show ?thesis by (simp add: remember_def)
next
  case (Some k)
  have same: "g = f" if "lookup_path (fs_root fs) q = Some (Reg g)" "inode_key g = Some k" for q g
    using assms(1) f that Some unfolding inode_consistent_def by (metis option.distinct(1))
  show ?thesis
    unfolding cache_ok_def remember_def Some option.case update_conv
    using assms(2) [unfolded cache_ok_def] same hn
    by (intro allI impI) (metis fun_upd_apply option.inject)
qed

lemma cached_hash_ok:
  assumes "cache_ok sha fs cap cache" "cached_hash cache f = Some hn"
    "lookup_path (fs_root fs) p = Some (Reg f)"
  shows "hash_ok sha cap f hn"
proof (cases "inode_key f")
  case None
  with assms(2) show ?thesis by (simp add: cached_hash_def)
next
  case (Some k)
  with assms(2) have "map_of cache k = Some hn" by (simp add: cached_hash_def)
  with Some assms(1,3) show ?thesis unfolding cache_ok_def by blast
qed

lemma seal_loop_spec:
  assumes "inode_consistent fs"
  shows "cache_ok sha fs cap cache \<Longrightarrow> seal_loop sha fs cap ids cache ds = Inr as \<Longrightarrow>
    list_all2 (seals sha fs cap) ds as \<and> distinct (map da_id ds) \<and> set (map da_id ds) \<inter> set ids = {}"
proof (induction ds arbitrary: ids cache as)
  case Nil
  then show ?case by simp
next
  case (Cons d ds)
  from Cons.prems(2) have new: "da_id d \<notin> set ids" "\<not> reserved_output (da_path d)"
    by (auto split: if_splits)
  with Cons.prems(2) obtain f where f: "seal_open fs (da_path d) = Inr f"
    "\<not> exceeds cap (f_stat_size f)"
    by (auto split: sum.splits if_splits)
  then have path: "confined_path (da_path d)"
    "lookup_path (fs_root fs) (path_parts (da_path d)) = Some (Reg f)"
    by (auto simp: seal_open_Inr dest: open_confined_lookup)
  let ?H = "case cached_hash cache f of Some hn \<Rightarrow> Inr hn | None \<Rightarrow> hash_fd sha cap f"
  let ?cache = "\<lambda>hn. if cached_hash cache f = None then remember cache f hn else cache"
  from Cons.prems(2) new f obtain hn as' where hn: "?H = Inr hn"
    and rest: "seal_loop sha fs cap (da_id d # ids) (?cache hn) ds = Inr as'"
    and as: "as = \<lparr>a_id = da_id d, a_path = da_path d, a_kind = da_kind d,
                   a_sha256 = fst hn, a_bytes = snd hn\<rparr> # as'"
    by (auto split: sum.splits)
  have val: "hash_ok sha cap f hn"
    using hn cached_hash_ok [OF Cons.prems(1) _ path(2)] hash_fd_Inr
    by (auto simp: hash_ok_def split: option.splits)
  have "cache_ok sha fs cap (?cache hn)"
    using cache_ok_remember [OF assms Cons.prems(1) path(2)] val Cons.prems(1) by simp
  from Cons.IH [OF this rest] have IH: "list_all2 (seals sha fs cap) ds as'" "distinct (map da_id ds)"
    "set (map da_id ds) \<inter> set (da_id d # ids) = {}" by auto
  have "seals sha fs cap d (hd as)"
    unfolding seals_def as list.sel using new path f(2) val by (auto simp: hash_ok_def)
  with IH new show ?case by (auto simp: as)
qed

section \<open>Nesting depth\<close>

fun jdepth :: "json \<Rightarrow> nat" where
  "jdepth (JObj kvs) = fold max (map (\<lambda>(k, v). Suc (jdepth v)) kvs) 0"
| "jdepth (JList xs) = fold max (map (\<lambda>v. Suc (jdepth v)) xs) 0"
| "jdepth _ = 0"

lemma jdepth_children: "jdepth j = fold max (map (\<lambda>v. Suc (jdepth v)) (jchildren j)) 0"
  by (cases j) (auto simp: o_def split_def)

lemma jdepth_le:
  "jdepth j + d \<le> mx \<longleftrightarrow> d \<le> mx \<and> (\<forall>v \<in> set (jchildren j). jdepth v + Suc d \<le> mx)"
proof (cases "d \<le> mx")
  case True
  then have "jdepth j + d \<le> mx \<longleftrightarrow> jdepth j \<le> mx - d" by arith
  then have "jdepth j + d \<le> mx \<longleftrightarrow> (\<forall>v \<in> set (jchildren j). Suc (jdepth v) \<le> mx - d)"
    by (simp add: jdepth_children [of j] fold_max_le)
  moreover have "Suc (jdepth v) \<le> mx - d \<longleftrightarrow> jdepth v + Suc d \<le> mx" for v
    using True by arith
  ultimately show ?thesis using True by simp
qed auto

lemma json_depth_loop_spec: "json_depth_loop mx st \<longleftrightarrow> (\<forall>(j, d) \<in> set st. jdepth j + d \<le> mx)"
proof (induction mx st rule: json_depth_loop.induct)
  case (2 mx j d st)
  have "(\<forall>(j, d) \<in> set (rev (map (\<lambda>v. (v, Suc d)) (jchildren j)) @ st). jdepth j + d \<le> mx)
     \<longleftrightarrow> (\<forall>v \<in> set (jchildren j). jdepth v + Suc d \<le> mx) \<and> (\<forall>(j, d) \<in> set st. jdepth j + d \<le> mx)"
    by (simp add: ball_Un)
  with 2 show ?case by (auto simp: jdepth_le [of j d])
qed simp

text \<open>
  Texts with balanced brackets outside string literals, with their nesting depth.  Every
  JSON text is one: scalars and separators are plain characters, an escape in a literal is a
  backslash and a character.
\<close>

inductive str_body :: "string \<Rightarrow> bool" where
  body_end: "str_body []"
| body_char: "of_char c \<noteq> (0x22::nat) \<Longrightarrow> of_char c \<noteq> (0x5C::nat) \<Longrightarrow> str_body s \<Longrightarrow> str_body (c # s)"
| body_escape: "str_body s \<Longrightarrow> str_body (CHR 0x5C # c # s)"

definition plain_char :: "char \<Rightarrow> bool" where
  "plain_char c \<longleftrightarrow> (of_char c :: nat) \<notin> {0x22, 0x7B, 0x5B, 0x7D, 0x5D}"

inductive nested_text :: "string \<Rightarrow> nat \<Rightarrow> bool" where
  empty: "nested_text [] 0"
| plain: "plain_char c \<Longrightarrow> nested_text [c] 0"
| literal: "str_body s \<Longrightarrow> nested_text (CHR 0x22 # s @ [CHR 0x22]) 0"
| append: "nested_text a m \<Longrightarrow> nested_text b n \<Longrightarrow> nested_text (a @ b) (max m n)"
| bracket: "nested_text a m \<Longrightarrow> (o', c') \<in> {(CHR 0x7B, CHR 0x7D), (CHR 0x5B, CHR 0x5D)} \<Longrightarrow>
     nested_text (o' # a @ [c']) (Suc m)"

lemma scan_body:
  "str_body s \<Longrightarrow> sc_str st \<Longrightarrow> \<not> sc_esc st \<Longrightarrow> fold scan_byte s st = st"
proof (induction arbitrary: st rule: str_body.induct)
  case (body_escape s c)
  have "scan_byte c (scan_byte CHR 0x5C st) = st"
    using body_escape.prems by (simp add: scan_byte_def)
  with body_escape show ?case by simp
qed (auto simp: scan_byte_def)

lemma scan_nested:
  "nested_text s d \<Longrightarrow> \<not> sc_str st \<Longrightarrow> \<not> sc_esc st \<Longrightarrow> sc_depth st \<le> sc_max st \<Longrightarrow>
   fold scan_byte s st = st\<lparr>sc_max := max (sc_max st) (sc_depth st + int d)\<rparr>"
proof (induction arbitrary: st rule: nested_text.induct)
  case empty
  then show ?case by (simp add: max_def)
next
  case (plain c)
  then show ?case by (auto simp: scan_byte_def plain_char_def max_def Let_def)
next
  case (literal s)
  have "fold scan_byte s (st\<lparr>sc_str := True\<rparr>) = st\<lparr>sc_str := True\<rparr>"
    using literal by (intro scan_body) auto
  moreover have "scan_byte CHR 0x22 st = st\<lparr>sc_str := True\<rparr>"
    "scan_byte CHR 0x22 (st\<lparr>sc_str := True\<rparr>) = st"
    using literal.prems by (simp_all add: scan_byte_def)
  ultimately show ?case using literal.prems by (simp add: max_def)
next
  case (append a m b n)
  then show ?case by (simp add: max_def)
next
  case (bracket a m o' c')
  let ?st = "st\<lparr>sc_depth := sc_depth st + 1,
                sc_max := (if sc_max st < sc_depth st + 1 then sc_depth st + 1 else sc_max st)\<rparr>"
  have op: "scan_byte o' st = ?st"
    using bracket by (auto simp: scan_byte_def Let_def)
  have "fold scan_byte a ?st = ?st\<lparr>sc_max := max (sc_max ?st) (sc_depth ?st + int m)\<rparr>"
    using bracket by (intro bracket.IH) auto
  moreover have "scan_byte c' (?st\<lparr>sc_max := max (sc_max ?st) (sc_depth ?st + int m)\<rparr>) =
      st\<lparr>sc_max := max (sc_max ?st) (sc_depth ?st + int m)\<rparr>"
    using bracket by (auto simp: scan_byte_def)
  ultimately show ?case using op by (simp add: max_def)
qed

section \<open>Properties\<close>

lemma seal_envelope_Inr:
  "seal_envelope sha fs eng ish det ds ws pl st cap mx = Inr env \<longleftrightarrow>
     (\<exists>as. length ds \<le> mx \<and> seal_loop sha fs cap [] [] ds = Inr as
        \<and> node_refs pl \<subseteq> set (map da_id ds)
        \<and> env = \<lparr>e_engine = eng, e_status = st, e_input_sha256 = ish, e_detected = det,
                 e_artifacts = as, e_warnings = ws, e_payload = pl\<rparr>
        \<and> envelope_ok env)"
  by (auto simp: seal_envelope_def collect_refs_eq Let_def not_less split: sum.splits if_splits)

text \<open>A directory with one file under two names and a symlink.\<close>

definition demo_file :: file_info where
  "demo_file = \<lparr>f_dev = 1, f_ino = 7, f_stat_size = 3, f_content = ''png'', f_read_fault = None\<rparr>"

definition demo_fs :: fsys where
  "demo_fs = \<lparr>fs_root = Dir [(''page-001.png'', Reg demo_file), (''meta'', Dir [(''p.png'', Reg demo_file)]),
                             (''evil'', Symlink), (''metadata.json'', Reg demo_file)],
              fs_fault = (\<lambda>_. None)\<rparr>"

definition demo_sha :: "string \<Rightarrow> string" where
  "demo_sha s = replicate 64 CHR ''a''"

definition demo_det :: detection where
  "demo_det = \<lparr>d_label = ''pdf'', d_mime = ''application/pdf'', d_confidence = 1, d_source = ''magic''\<rparr>"

definition demo_page :: node where
  "demo_page = Page 0 \<lparr>dim_width = 210, dim_height = 297, dim_unit = MM\<rparr> ''p0'' [] []"

definition demo_decl :: "declared_artifact list" where
  "demo_decl = [\<lparr>da_id = ''p0'', da_path = ''page-001.png'', da_kind = ''image''\<rparr>,
                \<lparr>da_id = ''p1'', da_path = ''meta/p.png'', da_kind = ''image''\<rparr>]"

lemma demo_fs_consistent: "inode_consistent demo_fs"
proof -
  have "f = demo_file" if "lookup_path (fs_root demo_fs) p = Some (Reg f)" for p f
    using that by (cases p; cases "tl p"; cases "tl (tl p)")
      (auto simp: demo_fs_def split: if_splits fnode.splits option.splits)
  then show ?thesis unfolding inode_consistent_def by metis
qed

lemma demo_open:
  "seal_open demo_fs ''page-001.png'' = Inr demo_file"
  "seal_open demo_fs ''meta/p.png'' = Inr demo_file"
  by (simp_all add: seal_open_def open_confined_regular_fd_def is_absolute_def startswith_def
      path_parts_def demo_fs_def)

lemma demo_hash: "hash_fd sha (Some 100) demo_file = Inr (sha ''png'', 3)"
  by (simp add: hash_fd_def hash_loop_eq demo_file_def) (simp add: exceeds_def)

lemma demo_seal:
  "seal_envelope demo_sha demo_fs ''clippy'' (demo_sha []) demo_det demo_decl [] demo_page EnvOk (Some 100) 10 =
   Inr \<lparr>e_engine = ''clippy'', e_status = EnvOk, e_input_sha256 = demo_sha [], e_detected = demo_det,
        e_artifacts = [\<lparr>a_id = ''p0'', a_path = ''page-001.png'', a_kind = ''image'',
                        a_sha256 = demo_sha ''png'', a_bytes = 3\<rparr>,
                       \<lparr>a_id = ''p1'', a_path = ''meta/p.png'', a_kind = ''image'',
                        a_sha256 = demo_sha ''png'', a_bytes = 3\<rparr>],
        e_warnings = [], e_payload = demo_page\<rparr>"
proof -
  have hex: "is_sha256_hex (demo_sha s)" for s
    by (simp add: is_sha256_hex_def demo_sha_def list_all_iff is_hex_char_def lower_char_def)
  have size: "\<not> exceeds (Some 100) (f_stat_size demo_file)" by (simp add: exceeds_def demo_file_def)
  have "seal_loop demo_sha demo_fs (Some 100) [] [] demo_decl =
      Inr [\<lparr>a_id = ''p0'', a_path = ''page-001.png'', a_kind = ''image'',
            a_sha256 = demo_sha ''png'', a_bytes = 3\<rparr>,
           \<lparr>a_id = ''p1'', a_path = ''meta/p.png'', a_kind = ''image'',
            a_sha256 = demo_sha ''png'', a_bytes = 3\<rparr>]"
    by (simp add: demo_decl_def demo_open size demo_hash cached_hash_def remember_def
        reserved_output_def startswith_def split: option.splits)
  then show ?thesis
    by (simp add: seal_envelope_Inr hex envelope_ok_def MAX_ARTIFACTS_def)
       (simp add: demo_decl_def demo_page_def)
qed

text \<open>
  C8: what seal_envelope certifies.  When sealing succeeds, the artifacts correspond one to
  one to the declarations, ids are distinct, and for each of them the path is relative, has
  no dot-dot, is not a reserved name, and names a regular file reached through real
  directories only; the recorded hash and size are those of that file's bytes (also when
  the hash came from the inode cache), within the byte cap; the count is within its cap; and
  every artifact reference of the payload is declared.
\<close>

theorem seal_certifies_disk:
  assumes "inode_consistent fs"
    and "seal_envelope sha fs eng ish det ds ws pl st cap mx = Inr env"
  shows "list_all2 (seals sha fs cap) ds (e_artifacts env) \<and> distinct (map da_id ds)
         \<and> length (e_artifacts env) \<le> mx \<and> node_refs pl \<subseteq> set (map a_id (e_artifacts env))
         \<and> e_engine env = eng \<and> e_input_sha256 env = ish \<and> e_payload env = pl \<and> e_status env = st"
proof -
  obtain as where as: "length ds \<le> mx" "seal_loop sha fs cap [] [] ds = Inr as"
    "node_refs pl \<subseteq> set (map da_id ds)" "e_artifacts env = as" "e_engine env = eng"
    "e_input_sha256 env = ish" "e_payload env = pl" "e_status env = st"
    using assms(2) by (auto simp: seal_envelope_Inr)
  note spec = seal_loop_spec [OF assms(1) cache_ok_empty as(2)]
  then have l2: "list_all2 (seals sha fs cap) ds as" by blast
  then have "map a_id as = map da_id ds"
    by (auto simp: list_all2_conv_all_nth seals_def intro!: nth_equalityI)
  then have "set (map da_id ds) = set (map a_id as)" by simp
  with spec as list_all2_lengthD [OF l2] show ?thesis by auto
qed

theorem seal_certifies_disk_witness:
  "\<exists>as. list_all2 (seals demo_sha demo_fs (Some 100)) demo_decl as
        \<and> map a_bytes as = [3, 3] \<and> node_refs demo_page \<subseteq> set (map a_id as)"
  using seal_certifies_disk [OF demo_fs_consistent demo_seal]
  by (intro exI conjI) (erule conjunct1, simp_all)

text \<open>
  the raw-bytes depth guard is exact.  On any text whose brackets balance outside string
  literals (every JSON text), the string-aware scan returns the nesting depth of the text:
  brackets inside literals, also after escaped quotes, do not count.
\<close>

theorem raw_json_depth_exact:
  assumes "nested_text raw d"
  shows "raw_json_max_depth raw = int d"
  using scan_nested [OF assms, of scan_start] by (simp add: raw_json_max_depth_def scan_start_def)

theorem raw_json_depth_exact_witness:
  "raw_json_max_depth ''{[ ]}'' = 2"
proof -
  have "nested_text ''{[ ]}'' (Suc (Suc 0))"
    using nested_text.bracket [OF nested_text.bracket [OF nested_text.plain [of "CHR 0x20"]],
        of "CHR 0x5B" "CHR 0x5D" "CHR 0x7B" "CHR 0x7D"]
    by (simp add: plain_char_def)
  from raw_json_depth_exact [OF this] show ?thesis by simp
qed

text \<open>
  the structural depth guard.  The stack walk over a parsed JSON value accepts it
  exactly when no value in it, through objects and arrays, lies deeper than the bound.
\<close>

theorem check_json_depth_exact: "check_json_depth j mx \<longleftrightarrow> jdepth j \<le> mx"
  by (simp add: check_json_depth_def json_depth_loop_spec)

text \<open>
  the reserved-name check reads the path text, the open reads its parts.  Declaring
  metadata.json is refused, but declaring ./metadata.json seals the very same root-level
  file, whose bytes the host later overwrites with the sealed envelope.
\<close>

theorem reserved_name_spelling:
  assumes "fs_root fs = Dir es" and "map_of es ''metadata.json'' = Some (Reg f)"
    and "\<forall>p. fs_fault fs p = None" and "f_read_fault f = None"
  shows "seal_loop sha fs None [] [] [\<lparr>da_id = i, da_path = ''metadata.json'', da_kind = k\<rparr>]
           = Inl (VErr ''reserved output path may not be a declared artifact'' None)
       \<and> seal_loop sha fs None [] [] [\<lparr>da_id = i, da_path = ''./metadata.json'', da_kind = k\<rparr>]
           = Inr [\<lparr>a_id = i, a_path = ''./metadata.json'', a_kind = k,
                   a_sha256 = sha (f_content f), a_bytes = length (f_content f)\<rparr>]"
proof -
  have "seal_open fs ''./metadata.json'' = Inr f"
    using assms(1-3)
    by (simp add: seal_open_def open_confined_regular_fd_def is_absolute_def startswith_def path_parts_def)
  moreover have "hash_fd sha None f = Inr (sha (f_content f), length (f_content f))"
    using assms(4) by (simp add: hash_fd_def hash_loop_eq) (simp add: exceeds_def)
  ultimately show ?thesis
    by (simp add: reserved_output_def startswith_def exceeds_def cached_hash_def split: option.splits)
qed

theorem reserved_name_spelling_witness:
  "seal_loop demo_sha demo_fs None [] [] [\<lparr>da_id = ''m'', da_path = ''./metadata.json'', da_kind = ''x''\<rparr>]
     = Inr [\<lparr>a_id = ''m'', a_path = ''./metadata.json'', a_kind = ''x'',
             a_sha256 = demo_sha ''png'', a_bytes = 3\<rparr>]"
  using reserved_name_spelling [of demo_fs _ demo_file demo_sha "''m''" "''x''"]
  by (simp add: demo_fs_def demo_file_def)

end
