(* ===== verification/Resource_Limits.thy ===== *)
theory Resource_Limits
  imports Blastbox_Prelude
begin

text \<open>
  \<^verbatim>\<open>limits.py\<close>: the resource caps, the check every construction runs, and their
  reading from \<open>BLASTBOX_*\<close> environment variables.
\<close>

record limits =
  timeout_s :: int
  memory_bytes :: int
  tmpfs_bytes :: int
  max_input_bytes :: int
  max_metadata_bytes :: int
  max_artifact_bytes :: int
  max_total_artifact_bytes :: int
  max_artifacts :: int
  disclose_security_internals :: bool
  net_egress :: bool

definition limits_default :: limits where
  "limits_default =
     \<lparr>timeout_s = 120, memory_bytes = 8 * 1024 * 1024 * 1024, tmpfs_bytes = 1024 * 1024 * 1024,
      max_input_bytes = 100 * 1024 * 1024, max_metadata_bytes = 4 * 1024 * 1024,
      max_artifact_bytes = 50 * 1024 * 1024, max_total_artifact_bytes = 500 * 1024 * 1024,
      max_artifacts = 1000, disclose_security_internals = False, net_egress = False\<rparr>"

definition MAX_BYTES_CEILING :: int where "MAX_BYTES_CEILING = 256 * 1024 * 1024 * 1024"
definition MAX_ARTIFACTS_CEILING :: int where "MAX_ARTIFACTS_CEILING = 65536"
definition MAX_TIMEOUT_S :: int where "MAX_TIMEOUT_S = 3600"

definition in_range :: "int \<Rightarrow> int \<Rightarrow> bool" where
  "in_range v hi \<longleftrightarrow> 1 \<le> v \<and> v \<le> hi"

text \<open>\<open>__post_init__\<close>: the first bound violated, in the source's order.\<close>

definition post_init :: "limits \<Rightarrow> limits res" where
  "post_init l =
     (if \<not> in_range (timeout_s l) MAX_TIMEOUT_S then Inl (ValueError ''timeout_s'')
      else if \<not> in_range (max_artifacts l) MAX_ARTIFACTS_CEILING then Inl (ValueError ''max_artifacts'')
      else case find (\<lambda>(n, v). \<not> in_range v MAX_BYTES_CEILING)
                 [(''memory_bytes'', memory_bytes l), (''tmpfs_bytes'', tmpfs_bytes l),
                  (''max_input_bytes'', max_input_bytes l),
                  (''max_metadata_bytes'', max_metadata_bytes l),
                  (''max_artifact_bytes'', max_artifact_bytes l),
                  (''max_total_artifact_bytes'', max_total_artifact_bytes l)] of
        Some (n, v) \<Rightarrow> Inl (ValueError n)
      | None \<Rightarrow> Inr l)"

definition limits_ok :: "limits \<Rightarrow> bool" where
  "limits_ok l \<longleftrightarrow> in_range (timeout_s l) MAX_TIMEOUT_S \<and> in_range (max_artifacts l) MAX_ARTIFACTS_CEILING
     \<and> in_range (memory_bytes l) MAX_BYTES_CEILING \<and> in_range (tmpfs_bytes l) MAX_BYTES_CEILING
     \<and> in_range (max_input_bytes l) MAX_BYTES_CEILING \<and> in_range (max_metadata_bytes l) MAX_BYTES_CEILING
     \<and> in_range (max_artifact_bytes l) MAX_BYTES_CEILING
     \<and> in_range (max_total_artifact_bytes l) MAX_BYTES_CEILING"

lemma post_init_Inr: "post_init l = Inr l' \<longleftrightarrow> l' = l \<and> limits_ok l"
  by (auto simp: post_init_def limits_ok_def)

text \<open>The security flags are on only for an explicit truthy token.\<close>

definition TRUTHY :: "string list" where
  "TRUTHY = [''1'', ''true'', ''yes'', ''on'']"

definition coerce_flag :: "string \<Rightarrow> bool" where
  "coerce_flag s \<longleftrightarrow> py_lower (py_strip s) \<in> set TRUTHY"

text \<open>The fields in declaration order, with the variable each is read from.\<close>

datatype lim_field =
    LTimeout | LMem | LTmpfs | LMaxInput | LMaxMetadata | LMaxArtifact | LMaxTotal
  | LMaxArtifacts | LDisclose | LEgress

definition ALL_FIELDS :: "lim_field list" where
  "ALL_FIELDS = [LTimeout, LMem, LTmpfs, LMaxInput, LMaxMetadata, LMaxArtifact, LMaxTotal,
                 LMaxArtifacts, LDisclose, LEgress]"

fun env_name :: "lim_field \<Rightarrow> string" where
  "env_name LTimeout = ''BLASTBOX_TIMEOUT''"
| "env_name LMem = ''BLASTBOX_MEM''"
| "env_name LTmpfs = ''BLASTBOX_TMPFS''"
| "env_name LMaxInput = ''BLASTBOX_MAX_INPUT''"
| "env_name LMaxMetadata = ''BLASTBOX_MAX_METADATA''"
| "env_name LMaxArtifact = ''BLASTBOX_MAX_ARTIFACT''"
| "env_name LMaxTotal = ''BLASTBOX_MAX_TOTAL_ARTIFACTS''"
| "env_name LMaxArtifacts = ''BLASTBOX_MAX_ARTIFACTS''"
| "env_name LDisclose = ''BLASTBOX_DISCLOSE_SECURITY_INTERNALS''"
| "env_name LEgress = ''BLASTBOX_NET_EGRESS''"

datatype lim_val = VInt int | VBool bool

fun is_flag :: "lim_field \<Rightarrow> bool" where
  "is_flag LDisclose = True"
| "is_flag LEgress = True"
| "is_flag _ = False"

definition coerce_env :: "lim_field \<Rightarrow> string \<Rightarrow> lim_val option" where
  "coerce_env f raw = (if is_flag f then Some (VBool (coerce_flag raw)) else map_option VInt (py_int raw))"

text \<open>\<open>cls(**values)\<close> before the check; a value of the wrong kind cannot arise.\<close>

fun set_limit_field :: "lim_field \<times> lim_val \<Rightarrow> limits \<Rightarrow> limits" where
  "set_limit_field (LTimeout, VInt v) l = l\<lparr>timeout_s := v\<rparr>"
| "set_limit_field (LMem, VInt v) l = l\<lparr>memory_bytes := v\<rparr>"
| "set_limit_field (LTmpfs, VInt v) l = l\<lparr>tmpfs_bytes := v\<rparr>"
| "set_limit_field (LMaxInput, VInt v) l = l\<lparr>max_input_bytes := v\<rparr>"
| "set_limit_field (LMaxMetadata, VInt v) l = l\<lparr>max_metadata_bytes := v\<rparr>"
| "set_limit_field (LMaxArtifact, VInt v) l = l\<lparr>max_artifact_bytes := v\<rparr>"
| "set_limit_field (LMaxTotal, VInt v) l = l\<lparr>max_total_artifact_bytes := v\<rparr>"
| "set_limit_field (LMaxArtifacts, VInt v) l = l\<lparr>max_artifacts := v\<rparr>"
| "set_limit_field (LDisclose, VBool b) l = l\<lparr>disclose_security_internals := b\<rparr>"
| "set_limit_field (LEgress, VBool b) l = l\<lparr>net_egress := b\<rparr>"
| "set_limit_field _ l = l"

fun read_env :: "(string \<rightharpoonup> string) \<Rightarrow> lim_field list \<Rightarrow> (lim_field \<times> lim_val) list res" where
  "read_env env [] = Inr []"
| "read_env env (f # fs) =
     (case env (env_name f) of
        None \<Rightarrow> read_env env fs
      | Some raw \<Rightarrow>
          (case coerce_env f raw of
             None \<Rightarrow> Inl (ValueError (env_name f))
           | Some v \<Rightarrow> (case read_env env fs of Inl e \<Rightarrow> Inl e | Inr vs \<Rightarrow> Inr ((f, v) # vs))))"

definition limits_from_env ::
  "(string \<rightharpoonup> string) \<Rightarrow> (lim_field \<times> lim_val) list \<Rightarrow> limits res" where
  "limits_from_env env overrides =
     (case read_env env ALL_FIELDS of
        Inl e \<Rightarrow> Inl e
      | Inr vals \<Rightarrow> post_init (fold set_limit_field (vals @ overrides) limits_default))"

text \<open>Each field is read at most once, so a flag is decided by its own variable.\<close>

lemma fold_egress:
  assumes "read_env env fs = Inr vs" "distinct fs"
  shows "net_egress (fold set_limit_field vs l) =
    (if LEgress \<in> set fs then (case env (env_name LEgress) of None \<Rightarrow> net_egress l | Some s \<Rightarrow> coerce_flag s)
     else net_egress l)"
  using assms
proof (induction fs arbitrary: vs l)
  case (Cons f fs)
  show ?case
  proof (cases "env (env_name f)")
    case None
    with Cons show ?thesis by (cases f) auto
  next
    case (Some raw)
    with Cons.prems obtain v vs' where v: "coerce_env f raw = Some v" "read_env env fs = Inr vs'" "vs = (f, v) # vs'"
      by (auto split: option.splits sum.splits)
    with Cons.IH [OF v(2), of "set_limit_field (f, v) l"] Cons.prems(2) Some show ?thesis
      by (cases f; cases v) (auto simp: coerce_env_def split: option.splits)
  qed
qed simp

lemma fold_disclose:
  assumes "read_env env fs = Inr vs" "distinct fs"
  shows "disclose_security_internals (fold set_limit_field vs l) =
    (if LDisclose \<in> set fs
     then (case env (env_name LDisclose) of None \<Rightarrow> disclose_security_internals l | Some s \<Rightarrow> coerce_flag s)
     else disclose_security_internals l)"
  using assms
proof (induction fs arbitrary: vs l)
  case (Cons f fs)
  show ?case
  proof (cases "env (env_name f)")
    case None
    with Cons show ?thesis by (cases f) auto
  next
    case (Some raw)
    with Cons.prems obtain v vs' where v: "coerce_env f raw = Some v" "read_env env fs = Inr vs'" "vs = (f, v) # vs'"
      by (auto split: option.splits sum.splits)
    with Cons.IH [OF v(2), of "set_limit_field (f, v) l"] Cons.prems(2) Some show ?thesis
      by (cases f; cases v) (auto simp: coerce_env_def split: option.splits)
  qed
qed simp

section \<open>Properties\<close>

text \<open>
  no environment can disable a cap.  Whatever the environment and the overrides hold,
  Limits.from_env either raises a ValueError that names the offending field or variable, or
  returns limits in which every cap lies between one and its hard ceiling.
\<close>

theorem limits_from_env_bounded:
  "case limits_from_env env overrides of
     Inl e \<Rightarrow> \<exists>n. e = ValueError n
   | Inr l \<Rightarrow> limits_ok l"
proof -
  have env: "\<exists>n. e = ValueError n" if "read_env env fs = Inl e" for fs e
    using that by (induction fs) (auto split: option.splits sum.splits)
  have post: "\<exists>n. e = ValueError n" if "post_init l = Inl e" for l e
    using that by (auto simp: post_init_def split: if_splits option.splits)
  show ?thesis
    using env post by (auto simp: limits_from_env_def post_init_Inr split: sum.splits)
qed

text \<open>
  the two security flags are fail-closed.  Reading the environment with no override,
  network egress and security disclosure are on exactly when their variable is set to one of
  1, true, yes, on, up to case and surrounding whitespace.
\<close>

theorem limits_flags_fail_closed:
  assumes "limits_from_env env [] = Inr l"
  shows "net_egress l = (case env ''BLASTBOX_NET_EGRESS'' of None \<Rightarrow> False | Some s \<Rightarrow> coerce_flag s)
       \<and> disclose_security_internals l =
           (case env ''BLASTBOX_DISCLOSE_SECURITY_INTERNALS'' of None \<Rightarrow> False | Some s \<Rightarrow> coerce_flag s)"
proof -
  obtain vals where v: "read_env env ALL_FIELDS = Inr vals" "l = fold set_limit_field vals limits_default"
    using assms by (auto simp: limits_from_env_def post_init_Inr split: sum.splits)
  have dist: "distinct ALL_FIELDS" by (simp add: ALL_FIELDS_def)
  have mem: "LEgress \<in> set ALL_FIELDS" "LDisclose \<in> set ALL_FIELDS" by (simp_all add: ALL_FIELDS_def)
  show ?thesis
    using fold_egress [OF v(1) dist, of limits_default] fold_disclose [OF v(1) dist, of limits_default] mem v(2)
    by (simp split: option.splits) (simp_all add: limits_default_def)
qed

definition demo_env :: "string \<rightharpoonup> string" where
  "demo_env = [''BLASTBOX_NET_EGRESS'' \<mapsto> '' TRUE '', ''BLASTBOX_TIMEOUT'' \<mapsto> ''30'']"

theorem limits_flags_fail_closed_witness:
  "\<exists>l. limits_from_env demo_env [] = Inr l \<and> net_egress l \<and> \<not> disclose_security_internals l"
proof -
  have "coerce_flag '' TRUE ''" by code_simp
  moreover have "py_int ''30'' = Some 30" by code_simp
  ultimately have "limits_from_env demo_env [] = Inr (limits_default\<lparr>timeout_s := 30, net_egress := True\<rparr>)"
    by (simp add: limits_from_env_def ALL_FIELDS_def demo_env_def coerce_env_def
        limits_default_def post_init_def in_range_def MAX_TIMEOUT_S_def MAX_ARTIFACTS_CEILING_def MAX_BYTES_CEILING_def)
  from limits_flags_fail_closed [OF this] this show ?thesis
    by (simp add: limits_default_def)
qed

end
