(* ===== verification/Errors.thy ===== *)
theory Errors
  imports Blastbox_Prelude
begin

text \<open>
  \<^verbatim>\<open>errors.py\<close>: whose fault a failure is.  Python's exceptions form a graph through
  \<open>__cause__\<close>, \<open>__context__\<close> and a \<open>URLError\<close>'s \<open>reason\<close>, and the graph may be cyclic, so the
  model is a heap of exception objects and the classifiers walk references in it.
\<close>

section \<open>Exception objects\<close>

text \<open>The classes the predicates distinguish; each test is an \<open>isinstance\<close> check.\<close>

datatype exc_class =
    PlainOSError
  | GaiError
  | UrlError
  | HttpError int
  | SocketTimeout
  | ConnError
  | SslError
  | HostDiskTimeout
  | OtherExc

record exc_obj =
  x_class :: exc_class
  x_errno :: "int option"
  x_reason :: "nat option"
  x_cause :: "nat option"
  x_context :: "nat option"

type_synonym exc_heap = "exc_obj list"

definition xat :: "exc_heap \<Rightarrow> nat \<Rightarrow> exc_obj option" where
  "xat h i = (if i < length h then Some (h ! i) else None)"

fun is_oserror :: "exc_class \<Rightarrow> bool" where
  "is_oserror HostDiskTimeout = False"
| "is_oserror OtherExc = False"
| "is_oserror _ = True"

fun is_urlerror :: "exc_class \<Rightarrow> bool" where
  "is_urlerror UrlError = True"
| "is_urlerror (HttpError _) = True"
| "is_urlerror _ = False"

text \<open>Linux errno values.\<close>

definition EIO :: int where "EIO = 5"
definition EAGAIN :: int where "EAGAIN = 11"
definition ENOMEM :: int where "ENOMEM = 12"
definition ENFILE :: int where "ENFILE = 23"
definition EMFILE :: int where "EMFILE = 24"
definition ENOSPC :: int where "ENOSPC = 28"
definition EROFS :: int where "EROFS = 30"
definition EADDRNOTAVAIL :: int where "EADDRNOTAVAIL = 99"
definition ENETUNREACH :: int where "ENETUNREACH = 101"
definition ENOBUFS :: int where "ENOBUFS = 105"
definition EINPROGRESS :: int where "EINPROGRESS = 115"
definition EDQUOT :: int where "EDQUOT = 122"

definition HOST_RESOURCE_ERRNOS :: "int list" where
  "HOST_RESOURCE_ERRNOS = [EMFILE, ENFILE, ENOMEM, EIO, ENOSPC, EDQUOT, EROFS]"

definition LOCAL_RESOURCE_ERRNOS :: "int list" where
  "LOCAL_RESOURCE_ERRNOS =
     [EMFILE, ENFILE, ENOMEM, ENOBUFS, EADDRNOTAVAIL, ENETUNREACH, EINPROGRESS, EAGAIN]"

text \<open>\<open>EAI_AGAIN\<close>, \<open>EAI_SYSTEM\<close>, \<open>EAI_MEMORY\<close>.\<close>

definition TRANSIENT_RESOLVER_ERRORS :: "int list" where
  "TRANSIENT_RESOLVER_ERRORS = [-3, -11, -10]"

definition errno_in :: "int list \<Rightarrow> exc_obj \<Rightarrow> bool" where
  "errno_in es x = (case x_errno x of None \<Rightarrow> False | Some e \<Rightarrow> e \<in> set es)"

section \<open>Our own exhaustion, or the peer's answer\<close>

text \<open>One unwrapping: the reason of a \<open>URLError\<close>, else the cause, else the context.\<close>

definition unwrap_ref :: "nat \<Rightarrow> exc_obj \<Rightarrow> nat option" where
  "unwrap_ref i x =
     (if is_urlerror (x_class x) \<and> x_reason x \<noteq> None then x_reason x
      else if x_cause x \<noteq> None then x_cause x
      else if x_context x \<noteq> None \<and> x_context x \<noteq> Some i then x_context x
      else None)"

fun unwrap_loop :: "nat \<Rightarrow> exc_heap \<Rightarrow> nat \<Rightarrow> exc_obj \<Rightarrow> exc_obj" where
  "unwrap_loop 0 h i x = x"
| "unwrap_loop (Suc k) h i x =
     (case unwrap_ref i x of
        None \<Rightarrow> x
      | Some j \<Rightarrow>
          (case xat h j of
             None \<Rightarrow> x
           | Some y \<Rightarrow>
               if is_oserror (x_class y) \<and> x_errno y \<noteq> None then y
               else unwrap_loop k h j y))"

definition is_local_resource_error :: "exc_heap \<Rightarrow> nat \<Rightarrow> bool" where
  "is_local_resource_error h i =
     (case xat h i of
        None \<Rightarrow> False
      | Some x \<Rightarrow>
          let y = unwrap_loop 4 h i x
          in if x_class y = GaiError then errno_in TRANSIENT_RESOLVER_ERRORS y
             else is_oserror (x_class y) \<and> errno_in LOCAL_RESOURCE_ERRNOS y)"

fun wire_class :: "exc_class \<Rightarrow> bool" where
  "wire_class UrlError = True"
| "wire_class (HttpError _) = True"
| "wire_class SocketTimeout = True"
| "wire_class ConnError = True"
| "wire_class SslError = True"
| "wire_class _ = False"

definition is_transport_error :: "exc_heap \<Rightarrow> nat \<Rightarrow> bool" where
  "is_transport_error h i =
     (if is_local_resource_error h i then False
      else case xat h i of None \<Rightarrow> False | Some x \<Rightarrow> wire_class (x_class x))"

definition is_answered_http_rejection :: "exc_heap \<Rightarrow> nat \<Rightarrow> bool" where
  "is_answered_http_rejection h i =
     (case xat h i of
        None \<Rightarrow> False
      | Some x \<Rightarrow> (case x_class x of HttpError code \<Rightarrow> 400 \<le> code \<and> code < 500 | _ \<Rightarrow> False))"

section \<open>The host running out\<close>

definition host_fault :: "exc_obj \<Rightarrow> bool" where
  "host_fault x \<longleftrightarrow>
     (is_oserror (x_class x) \<and> errno_in HOST_RESOURCE_ERRNOS x) \<or> x_class x = HostDiskTimeout"

definition chain_ref :: "exc_obj \<Rightarrow> nat option" where
  "chain_ref x = (case x_cause x of Some j \<Rightarrow> Some j | None \<Rightarrow> x_context x)"

text \<open>The walk of the chain, stopped by \<open>seen\<close> on a cycle.\<close>

function host_loop :: "exc_heap \<Rightarrow> nat list \<Rightarrow> nat option \<Rightarrow> bool" where
  "host_loop h seen cur =
     (case cur of
        None \<Rightarrow> False
      | Some i \<Rightarrow>
          if i \<in> set seen then False
          else case xat h i of
            None \<Rightarrow> False
          | Some x \<Rightarrow> if host_fault x then True else host_loop h (i # seen) (chain_ref x))"
  by pat_completeness auto
termination
proof (relation "measure (\<lambda>(h, seen, cur). card ({..<length h} - set seen))", simp, goal_cases)
  case (1 h seen cur i x)
  then have "i \<in> {..<length h} - set seen" by (auto simp: xat_def split: if_splits)
  then have "{..<length h} - set (i # seen) \<subset> {..<length h} - set seen" by auto
  then show ?case by (simp add: psubset_card_mono)
qed

declare host_loop.simps [simp del]

definition is_host_resource_failure :: "exc_heap \<Rightarrow> nat \<Rightarrow> bool" where
  "is_host_resource_failure h i = host_loop h [] (Some i)"

section \<open>What the walk decides\<close>

text \<open>The chain from an exception: itself, its cause or else its context, and so on.\<close>

inductive on_chain :: "exc_heap \<Rightarrow> nat \<Rightarrow> nat \<Rightarrow> bool" for h where
  here: "i < length h \<Longrightarrow> on_chain h i i"
| step: "xat h i = Some x \<Longrightarrow> chain_ref x = Some j \<Longrightarrow> on_chain h j k \<Longrightarrow> on_chain h i k"

inductive_cases on_chainE: "on_chain h i k"

lemma host_loop_sound:
  "host_loop h seen (Some i) \<Longrightarrow> \<exists>k x. on_chain h i k \<and> xat h k = Some x \<and> host_fault x"
proof (induction h seen "Some i" arbitrary: i rule: host_loop.induct)
  case (1 h seen)
  from "1.prems" obtain x where x: "i \<notin> set seen" "xat h i = Some x"
    and c: "host_fault x \<or> host_loop h (i # seen) (chain_ref x)"
    by (subst (asm) host_loop.simps) (auto split: if_splits option.splits)
  then have i: "i < length h" by (auto simp: xat_def split: if_splits)
  show ?case
  proof (cases "host_fault x")
    case True
    with x i show ?thesis by (blast intro: on_chain.here)
  next
    case False
    with c have rec: "host_loop h (i # seen) (chain_ref x)" by blast
    then obtain j where j: "chain_ref x = Some j"
      by (subst (asm) host_loop.simps) (auto split: option.splits)
    from "1.hyps" [OF refl x(1,2) False j] rec j x(2) show ?thesis
      by (metis on_chain.step)
  qed
qed

text \<open>
  A chain is deterministic, so a faulty object is found before the walk can come back to an
  object it has seen: \<open>reach n\<close> is the object \<open>n\<close> steps along.
\<close>

fun nth_on :: "exc_heap \<Rightarrow> nat \<Rightarrow> nat \<Rightarrow> nat option" where
  "nth_on h 0 i = (if i < length h then Some i else None)"
| "nth_on h (Suc n) i = (case xat h i of None \<Rightarrow> None | Some x \<Rightarrow>
     (case chain_ref x of None \<Rightarrow> None | Some j \<Rightarrow> nth_on h n j))"

lemma on_chain_nth: "on_chain h i k \<Longrightarrow> \<exists>n. nth_on h n i = Some k"
proof (induction rule: on_chain.induct)
  case (here i)
  then show ?case by (intro exI [of _ 0]) simp
next
  case (step i x j k)
  then obtain n where "nth_on h n j = Some k" by blast
  with step show ?case by (intro exI [of _ "Suc n"]) simp
qed

definition fault_at :: "exc_heap \<Rightarrow> nat \<Rightarrow> bool" where
  "fault_at h k = (case xat h k of None \<Rightarrow> False | Some x \<Rightarrow> host_fault x)"

lemma nth_on_add:
  "nth_on h m i = Some j \<Longrightarrow> nth_on h (m + n) i = nth_on h n j"
proof (induction m arbitrary: i)
  case 0
  then show ?case by (auto split: if_splits)
next
  case (Suc m)
  then show ?case by (auto split: option.splits)
qed

lemma host_loop_complete:
  assumes "nth_on h n i = Some k" "fault_at h k"
    and "\<forall>m < n. \<forall>j. nth_on h m i = Some j \<longrightarrow> \<not> fault_at h j"
    and "\<forall>m \<le> n. \<forall>j. nth_on h m i = Some j \<longrightarrow> j \<notin> set seen"
  shows "host_loop h seen (Some i)"
  using assms
proof (induction n arbitrary: i seen)
  case 0
  then show ?case
    by (subst host_loop.simps) (auto simp: fault_at_def split: if_splits option.splits)
next
  case (Suc n)
  from Suc.prems(1) obtain x j where x: "xat h i = Some x" "chain_ref x = Some j" "nth_on h n j = Some k"
    by (auto split: option.splits)
  then have i: "i < length h" by (auto simp: xat_def split: if_splits)
  have seen: "i \<notin> set seen" using Suc.prems(4) i by (metis le0 nth_on.simps(1))
  have nf: "\<not> host_fault x"
    using Suc.prems(3) i x(1) by (auto simp: fault_at_def dest: spec [of _ 0])
  have shift: "nth_on h (Suc m) i = nth_on h m j" for m using x by simp
  have new: "j' \<noteq> i" if m: "m \<le> n" and j': "nth_on h m j = Some j'" for m j'
  proof
    assume "j' = i"
    then have again: "nth_on h (Suc m) i = Some i" using j' shift by simp
    have "Suc n = Suc m + (n - m)" using m by simp
    then have "nth_on h (Suc n) i = nth_on h (n - m) i" using nth_on_add [OF again] by metis
    moreover have "n - m < Suc n" by simp
    ultimately show False using Suc.prems(1-3) by metis
  qed
  have "host_loop h (i # seen) (Some j)"
  proof (rule Suc.IH [OF x(3) Suc.prems(2)])
    show "\<forall>m<n. \<forall>j'. nth_on h m j = Some j' \<longrightarrow> \<not> fault_at h j'"
      using Suc.prems(3) shift by (metis Suc_less_eq)
    show "\<forall>m\<le>n. \<forall>j'. nth_on h m j = Some j' \<longrightarrow> j' \<notin> set (i # seen)"
      using Suc.prems(4) shift new by (metis Suc_le_mono set_ConsD)
  qed
  with x seen nf show ?case by (subst host_loop.simps) simp
qed

lemma host_loop_iff:
  "is_host_resource_failure h i \<longleftrightarrow> (\<exists>k. on_chain h i k \<and> fault_at h k)"
proof
  assume "is_host_resource_failure h i"
  then show "\<exists>k. on_chain h i k \<and> fault_at h k"
    unfolding is_host_resource_failure_def fault_at_def by (fastforce dest: host_loop_sound)
next
  assume "\<exists>k. on_chain h i k \<and> fault_at h k"
  then obtain k n where "nth_on h n i = Some k \<and> fault_at h k" using on_chain_nth by blast
  then have ex: "\<exists>n k. nth_on h n i = Some k \<and> fault_at h k" by blast
  define n where "n = (LEAST n. \<exists>k. nth_on h n i = Some k \<and> fault_at h k)"
  obtain k where k: "nth_on h n i = Some k" "fault_at h k"
    using LeastI_ex [OF ex] unfolding n_def by blast
  have least: "\<forall>m < n. \<forall>j. nth_on h m i = Some j \<longrightarrow> \<not> fault_at h j"
    unfolding n_def by (blast dest: not_less_Least)
  show "is_host_resource_failure h i"
    unfolding is_host_resource_failure_def
    by (rule host_loop_complete [OF k least]) simp
qed

section \<open>Properties\<close>

text \<open>
  is_host_resource_failure sees through every wrapper.  On any exception graph, cyclic or
  not, the walk ends, and it answers yes exactly when some exception on the chain (the
  exception, its cause or else its context, and so on, however long) is an OSError with a
  host-resource errno or a host-disk timeout.
\<close>

theorem host_failure_exact:
  "is_host_resource_failure h i \<longleftrightarrow> (\<exists>k x. on_chain h i k \<and> xat h k = Some x \<and> host_fault x)"
  unfolding host_loop_iff fault_at_def by (auto split: option.splits)

text \<open>
  is_local_resource_error inspects an exception only after unwrapping it.  An OSError with
  a local-exhaustion errno and nothing chained is recognised, but the same OSError raised while
  another exception was being handled is judged by that other exception: with a context that is
  no OSError and has no chain of its own, the exhaustion is not recognised.
\<close>

theorem local_error_shadowed_by_context:
  assumes "e \<in> set LOCAL_RESOURCE_ERRNOS"
  shows "is_local_resource_error
           [\<lparr>x_class = PlainOSError, x_errno = Some e, x_reason = None, x_cause = None, x_context = None\<rparr>] 0
       \<and> \<not> is_local_resource_error
           [\<lparr>x_class = PlainOSError, x_errno = Some e, x_reason = None, x_cause = None, x_context = Some 1\<rparr>,
            \<lparr>x_class = OtherExc, x_errno = None, x_reason = None, x_cause = None, x_context = None\<rparr>] 0"
  using assms
  by (simp add: is_local_resource_error_def xat_def unwrap_ref_def errno_in_def numeral_eq_Suc Let_def)

theorem local_error_shadowed_by_context_witness:
  "\<not> is_local_resource_error
      [\<lparr>x_class = PlainOSError, x_errno = Some 24, x_reason = None, x_cause = None, x_context = Some 1\<rparr>,
       \<lparr>x_class = OtherExc, x_errno = None, x_reason = None, x_cause = None, x_context = None\<rparr>] 0"
  using local_error_shadowed_by_context [of 24]
  by (simp add: LOCAL_RESOURCE_ERRNOS_def EMFILE_def)

end
