(* ===== verification/Output_Trust.thy ===== *)
theory Output_Trust
  imports Contract_Envelope Resource_Limits Errors
begin

text \<open>
  \<^verbatim>\<open>host/trust.py\<close>: the verdict on a worker's output.  The directory may be shared with a
  live worker, so the metadata read, the re-seal and the caps pass each see the tree as it is
  at that moment: \<open>fs_meta\<close>, \<open>fs_seal\<close> and \<open>restat\<close>.
\<close>

section \<open>Reserved paths\<close>

text \<open>The anchor-stripped \<open>PurePosixPath(path).parts\<close>, and \<open>posixpath.normpath\<close>.\<close>

definition norm_step :: "bool \<Rightarrow> string list \<Rightarrow> string \<Rightarrow> string list" where
  "norm_step anchored comps c =
     (if c = [] \<or> c = ''.'' then comps
      else if c \<noteq> ''..'' \<or> (\<not> anchored \<and> comps = []) \<or> (comps \<noteq> [] \<and> last comps = ''..'')
      then comps @ [c]
      else if comps \<noteq> [] then butlast comps else comps)"

definition join_slash :: "string list \<Rightarrow> string" where
  "join_slash ps = (case ps of [] \<Rightarrow> [] | p # qs \<Rightarrow> p @ concat (map (\<lambda>q. CHR ''/'' # q) qs))"

definition normpath :: "string \<Rightarrow> string" where
  "normpath path =
     (if path = [] then ''.''
      else let anchor = (if startswith path ''//'' \<and> \<not> startswith path ''///'' then ''//''
                         else if startswith path ''/'' then ''/'' else []);
               p = anchor @ join_slash (foldl (norm_step (anchor \<noteq> [])) [] (split_on CHR ''/'' path))
           in if p = [] then ''.'' else p)"

definition RESERVED_NAMES :: "string list" where
  "RESERVED_NAMES = [''attestation.json'', ''attestation.withheld.json'']"

definition is_reserved_path :: "string \<Rightarrow> string list \<Rightarrow> bool" where
  "is_reserved_path path names =
     ((case path_parts path of [] \<Rightarrow> False | p # _ \<Rightarrow> p \<in> set names)
      \<or> list_ex (\<lambda>n. normpath path = n \<or> startswith (normpath path) (n @ ''/'')) names)"

section \<open>The verdict\<close>

text \<open>
  \<open>OutputTrustError\<close> (evidence against the worker), \<open>OutputTrustUnknown\<close> (the check could not
  be completed), and an exception of another type that leaves the function.
\<close>

datatype verdict = Trusted envelope | Convicted | Unknown | Escaped

definition is_host_errno :: "int \<Rightarrow> bool" where
  "is_host_errno e \<longleftrightarrow> e \<in> set HOST_RESOURCE_ERRNOS"

definition host_cause :: "env_exc option \<Rightarrow> bool" where
  "host_cause c = (case c of Some (OsErr e) \<Rightarrow> is_host_errno e | _ \<Rightarrow> False)"

text \<open>The exception clauses of the metadata read, of the re-seal and of the caps pass.\<close>

fun judge_read :: "env_exc \<Rightarrow> verdict" where
  "judge_read NotFound = Convicted"
| "judge_read (VErr m c) = Convicted"
| "judge_read (OsErr e) = (if is_host_errno e then Unknown else Convicted)"

fun judge_seal :: "env_exc \<Rightarrow> verdict" where
  "judge_seal (VErr m c) = (if host_cause c then Unknown else Convicted)"
| "judge_seal NotFound = Unknown"
| "judge_seal (OsErr e) = Unknown"

fun judge_caps :: "env_exc \<Rightarrow> verdict" where
  "judge_caps (OsErr e) = (if is_host_errno e then Unknown else Convicted)"
| "judge_caps NotFound = Convicted"
| "judge_caps (VErr m c) = (if host_cause c then Unknown else Convicted)"

definition redeclare :: "artifact \<Rightarrow> declared_artifact" where
  "redeclare a = \<lparr>da_id = a_id a, da_path = a_path a, da_kind = a_kind a\<rparr>"

definition judge_parsed ::
  "(string \<Rightarrow> string) \<Rightarrow> fsys \<Rightarrow> (string \<Rightarrow> restat) \<Rightarrow> string \<Rightarrow> string \<Rightarrow> limits \<Rightarrow> envelope \<Rightarrow> verdict" where
  "judge_parsed sha fs_seal restat input_sha eng l parsed =
     (if e_engine parsed \<noteq> eng then Convicted
      else if list_ex (\<lambda>a. is_reserved_path (a_path a) RESERVED_NAMES) (e_artifacts parsed) then Convicted
      else if \<not> list_all (\<lambda>a. declared_ok (redeclare a)) (e_artifacts parsed) then Escaped
      else case seal_envelope sha fs_seal eng input_sha (e_detected parsed)
                  (map redeclare (e_artifacts parsed)) (e_warnings parsed) (e_payload parsed)
                  (e_status parsed) (Some (nat (max_artifact_bytes l))) (nat (max_artifacts l)) of
        Inl e \<Rightarrow> judge_seal e
      | Inr sealed \<Rightarrow>
          if e_input_sha256 parsed \<noteq> input_sha then Convicted
          else case validate_envelope restat sealed (nat (max_artifact_bytes l))
                      (nat (max_total_artifact_bytes l)) (nat (max_artifacts l)) of
            Inl e \<Rightarrow> judge_caps e
          | Inr _ \<Rightarrow> Trusted sealed)"

definition validate_worker_output ::
  "parsers \<Rightarrow> (string \<Rightarrow> string) \<Rightarrow> fsys \<Rightarrow> fsys \<Rightarrow> (string \<Rightarrow> restat) \<Rightarrow> string \<Rightarrow> string \<Rightarrow> limits \<Rightarrow> verdict" where
  "validate_worker_output P sha fs_meta fs_seal restat input_sha eng l =
     (case read_confined_regular_bytes fs_meta ''metadata.json'' (nat (max_metadata_bytes l)) of
        Inl e \<Rightarrow> judge_read e
      | Inr raw \<Rightarrow>
          (case envelope_from_json P raw (nat (max_metadata_bytes l)) of
             Inl _ \<Rightarrow> Convicted
           | Inr parsed \<Rightarrow> judge_parsed sha fs_seal restat input_sha eng l parsed))"

section \<open>What a trusted envelope guarantees\<close>

definition caps_hold :: "(string \<Rightarrow> restat) \<Rightarrow> nat \<Rightarrow> artifact list \<Rightarrow> bool" where
  "caps_hold restat cap as \<longleftrightarrow>
     (\<forall>a \<in> set as. restat (a_path a) = ReFile (a_bytes a) \<and> a_bytes a \<le> cap)"

lemma caps_loop_Inr:
  "caps_loop restat cap tot as = Inr t \<longleftrightarrow>
   caps_hold restat cap as \<and> t = tot + sum_list (map a_bytes as)"
proof (induction as arbitrary: tot)
  case Nil
  then show ?case by (auto simp: caps_hold_def)
next
  case (Cons a as)
  then show ?case
    by (cases "restat (a_path a)") (auto simp: caps_hold_def not_less add.assoc)
qed

lemma validate_envelope_Inr:
  "validate_envelope restat env cap tot mx = Inr env' \<longleftrightarrow>
   env' = env \<and> length (e_artifacts env) \<le> mx \<and> caps_hold restat cap (e_artifacts env)
   \<and> sum_list (map a_bytes (e_artifacts env)) \<le> tot"
  by (auto simp: validate_envelope_def caps_loop_Inr not_less split: sum.splits if_splits)
     (metis sum.distinct(1) sum.exhaust caps_loop_Inr)+

text \<open>No reserved name is the first step of the walk the seal makes.\<close>

definition walks_reserved :: "string \<Rightarrow> bool" where
  "walks_reserved path \<longleftrightarrow> path_parts path \<noteq> [] \<and> hd (path_parts path) \<in> set RESERVED_NAMES"

lemma reserved_covers_walk: "walks_reserved path \<Longrightarrow> is_reserved_path path RESERVED_NAMES"
  by (auto simp: walks_reserved_def is_reserved_path_def split: list.splits)

lemma judge_parsed_Trusted:
  "judge_parsed sha fs restat ish eng l parsed = Trusted env \<Longrightarrow>
     e_engine parsed = eng \<and> e_input_sha256 parsed = ish
     \<and> (\<forall>a \<in> set (e_artifacts parsed). \<not> is_reserved_path (a_path a) RESERVED_NAMES)
     \<and> seal_envelope sha fs eng ish (e_detected parsed) (map redeclare (e_artifacts parsed))
         (e_warnings parsed) (e_payload parsed) (e_status parsed)
         (Some (nat (max_artifact_bytes l))) (nat (max_artifacts l)) = Inr env
     \<and> validate_envelope restat env (nat (max_artifact_bytes l))
         (nat (max_total_artifact_bytes l)) (nat (max_artifacts l)) = Inr env"
proof -
  have ne: "judge_seal e \<noteq> Trusted env" "judge_caps e \<noteq> Trusted env" for e env
    by (cases e; simp)+
  assume j: "judge_parsed sha fs restat ish eng l parsed = Trusted env"
  then show ?thesis
    using ne by (auto simp: judge_parsed_def list_ex_iff validate_envelope_Inr
        split: if_splits sum.splits)
qed

lemma judge_read_not_Trusted: "judge_read e \<noteq> Trusted env"
  by (cases e) simp_all

lemma trusted_inv:
  "validate_worker_output P sha fs_meta fs_seal restat ish eng l = Trusted env \<Longrightarrow>
   \<exists>raw parsed. read_confined_regular_bytes fs_meta ''metadata.json'' (nat (max_metadata_bytes l)) = Inr raw
     \<and> envelope_from_json P raw (nat (max_metadata_bytes l)) = Inr parsed
     \<and> judge_parsed sha fs_seal restat ish eng l parsed = Trusted env"
  using judge_read_not_Trusted
  by (auto simp: validate_worker_output_def split: sum.splits)

section \<open>Host faults\<close>

text \<open>
  A fault variant of a directory: the same tree, but any open may fail, and any opened file
  may fail to be read, with a host-resource errno.
\<close>

definition fault_variant :: "fsys \<Rightarrow> fsys \<Rightarrow> bool" where
  "fault_variant fs fs' \<longleftrightarrow>
     (\<forall>p. open_confined_regular_fd fs' p = open_confined_regular_fd fs p
        \<or> (\<exists>e. is_host_errno e \<and> open_confined_regular_fd fs' p = Inl (OsErr e))
        \<or> (\<exists>f e. is_host_errno e \<and> open_confined_regular_fd fs p = Inr f
              \<and> open_confined_regular_fd fs' p = Inr (f\<lparr>f_read_fault := Some e\<rparr>)))"

definition host_faulted :: "env_exc + 'a \<Rightarrow> bool" where
  "host_faulted r \<longleftrightarrow>
     (\<exists>e. is_host_errno e \<and> (r = Inl (OsErr e) \<or> (\<exists>m. r = Inl (VErr m (Some (OsErr e))))))"

lemma host_faulted_Inl [simp]:
  "is_host_errno e \<Longrightarrow> host_faulted (Inl (OsErr e))"
  "is_host_errno e \<Longrightarrow> host_faulted (Inl (VErr m (Some (OsErr e))))"
  by (auto simp: host_faulted_def)

lemma seal_open_variant:
  assumes "fault_variant fs fs'" "seal_open fs p = Inr f"
  shows "seal_open fs' p = Inr f \<or> host_faulted (seal_open fs' p)
       \<or> (\<exists>e. is_host_errno e \<and> seal_open fs' p = Inr (f\<lparr>f_read_fault := Some e\<rparr>))"
  using assms unfolding fault_variant_def seal_open_Inr
  by (auto simp: seal_open_def host_faulted_def dest!: spec [of _ p])

lemma cached_hash_fault [simp]: "cached_hash c (f\<lparr>f_read_fault := r\<rparr>) = cached_hash c f"
  by (simp add: cached_hash_def inode_key_def)

lemma remember_fault [simp]: "remember c (f\<lparr>f_read_fault := r\<rparr>) hn = remember c f hn"
  by (simp add: remember_def inode_key_def)

lemma seal_loop_variant:
  assumes "fault_variant fs fs'"
  shows "seal_loop sha fs cap ids cache ds = Inr as \<Longrightarrow>
    seal_loop sha fs' cap ids cache ds = Inr as \<or> host_faulted (seal_loop sha fs' cap ids cache ds)"
proof (induction ds arbitrary: ids cache as)
  case (Cons d ds)
  let ?H = "\<lambda>f. case cached_hash cache f of Some hn \<Rightarrow> Inr hn | None \<Rightarrow> hash_fd sha cap f"
  let ?cache = "\<lambda>f hn. if cached_hash cache f = None then remember cache f hn else cache"
  let ?rest = "\<lambda>fs f hn. seal_loop sha fs cap (da_id d # ids) (?cache f hn) ds"
  from Cons.prems have new: "da_id d \<notin> set ids" "\<not> reserved_output (da_path d)"
    by (auto split: if_splits)
  with Cons.prems obtain f where f: "seal_open fs (da_path d) = Inr f" "\<not> exceeds cap (f_stat_size f)"
    by (auto split: sum.splits if_splits)
  with Cons.prems new obtain hn as' where hn: "?H f = Inr hn" and rest: "?rest fs f hn = Inr as'"
    and as: "as = \<lparr>a_id = da_id d, a_path = da_path d, a_kind = da_kind d,
                   a_sha256 = fst hn, a_bytes = snd hn\<rparr> # as'"
    by (auto split: sum.splits)
  have IH: "?rest fs' f hn = Inr as' \<or> host_faulted (?rest fs' f hn)"
    by (rule Cons.IH [OF rest])
  have step: "seal_loop sha fs' cap ids cache (d # ds) = Inr as
      \<or> host_faulted (seal_loop sha fs' cap ids cache (d # ds))"
    if g: "seal_open fs' (da_path d) = Inr g" "?H g = Inr hn" "?rest fs' g hn = ?rest fs' f hn"
      "f_stat_size g = f_stat_size f" for g
  proof -
    have "seal_loop sha fs' cap ids cache (d # ds) =
       (case ?rest fs' f hn of Inl e \<Rightarrow> Inl e | Inr as \<Rightarrow> Inr (\<lparr>a_id = da_id d, a_path = da_path d,
           a_kind = da_kind d, a_sha256 = fst hn, a_bytes = snd hn\<rparr> # as))"
      using g new f(2) by simp
    with IH as show ?thesis by (auto simp: host_faulted_def)
  qed
  from seal_open_variant [OF assms f(1)]
  consider "seal_open fs' (da_path d) = Inr f" | "host_faulted (seal_open fs' (da_path d))"
    | e where "is_host_errno e" "seal_open fs' (da_path d) = Inr (f\<lparr>f_read_fault := Some e\<rparr>)"
    by blast
  then show ?case
  proof cases
    case 1
    then show ?thesis using hn by (intro step [of f]) simp_all
  next
    case 2
    then show ?thesis using new by (auto simp: host_faulted_def)
  next
    case (3 e)
    let ?g = "f\<lparr>f_read_fault := Some e\<rparr>"
    show ?thesis
    proof (cases "cached_hash cache f")
      case None
      with 3 new f(2) show ?thesis by (simp add: hash_fd_def)
    next
      case (Some v)
      with 3 hn show ?thesis by (intro step [of ?g]) simp_all
    qed
  qed
qed simp

lemma seal_envelope_variant:
  assumes "fault_variant fs fs'"
    "seal_envelope sha fs eng ish det ds ws pl st cap mx = Inr env"
  shows "seal_envelope sha fs' eng ish det ds ws pl st cap mx = Inr env
       \<or> host_faulted (seal_envelope sha fs' eng ish det ds ws pl st cap mx)"
proof -
  from assms(2) obtain as where as: "length ds \<le> mx" "seal_loop sha fs cap [] [] ds = Inr as"
    by (auto simp: seal_envelope_Inr)
  from seal_loop_variant [OF assms(1) as(2)]
  consider "seal_loop sha fs' cap [] [] ds = Inr as" | "host_faulted (seal_loop sha fs' cap [] [] ds)"
    by blast
  then show ?thesis
  proof cases
    case 1
    with assms(2) as show ?thesis by (simp add: seal_envelope_def)
  next
    case 2
    with as(1) show ?thesis by (auto simp: seal_envelope_def host_faulted_def)
  qed
qed

definition restat_variant :: "(string \<Rightarrow> restat) \<Rightarrow> (string \<Rightarrow> restat) \<Rightarrow> bool" where
  "restat_variant r r' \<longleftrightarrow> (\<forall>p. r' p = r p \<or> (\<exists>e. is_host_errno e \<and> r' p = ReFault e))"

lemma caps_loop_variant:
  assumes "restat_variant r r'"
  shows "caps_loop r cap tot as = Inr t \<Longrightarrow>
     caps_loop r' cap tot as = Inr t \<or> host_faulted (caps_loop r' cap tot as)"
proof (induction as arbitrary: tot)
  case (Cons a as)
  have v: "r' (a_path a) = r (a_path a) \<or> (\<exists>e. is_host_errno e \<and> r' (a_path a) = ReFault e)"
    using assms by (simp add: restat_variant_def)
  from Cons.prems have r: "r (a_path a) = ReFile (a_bytes a)" "\<not> cap < a_bytes a"
    and t: "caps_loop r cap (tot + a_bytes a) as = Inr t"
    by (auto split: restat.splits if_splits)
  from v show ?case
  proof
    assume "r' (a_path a) = r (a_path a)"
    with r Cons.IH [OF t] show ?thesis by simp
  next
    assume "\<exists>e. is_host_errno e \<and> r' (a_path a) = ReFault e"
    then show ?thesis by auto
  qed
qed simp

lemma validate_envelope_variant:
  assumes "restat_variant r r'" "validate_envelope r env cap tot mx = Inr env"
  shows "validate_envelope r' env cap tot mx = Inr env \<or> host_faulted (validate_envelope r' env cap tot mx)"
proof -
  from assms(2) obtain t where t: "length (e_artifacts env) \<le> mx" "t \<le> tot"
    "caps_loop r cap 0 (e_artifacts env) = Inr t"
    by (auto simp: validate_envelope_Inr caps_loop_Inr)
  from caps_loop_variant [OF assms(1) t(3)] t(1,2) show ?thesis
    by (auto simp: validate_envelope_def host_faulted_def)
qed

lemma judge_host_faulted:
  "host_faulted (Inl x :: env_exc + 'a) \<Longrightarrow> judge_seal x = Unknown \<and> judge_caps x = Unknown"
  by (auto simp: host_faulted_def host_cause_def)

lemma read_variant:
  assumes "fault_variant fs fs'" "read_confined_regular_bytes fs p m = Inr raw"
  shows "read_confined_regular_bytes fs' p m = Inr raw
       \<or> (\<exists>e. is_host_errno e \<and> read_confined_regular_bytes fs' p m = Inl (OsErr e))"
  using assms unfolding fault_variant_def
  by (auto simp: read_confined_regular_bytes_def split: sum.splits if_splits option.splits
      dest!: spec [of _ p])

section \<open>Properties\<close>

text \<open>A worker's metadata, as the parser returns it, with false hashes.\<close>

definition demo_parsed :: envelope where
  "demo_parsed =
     \<lparr>e_engine = ''clippy'', e_status = EnvOk, e_input_sha256 = demo_sha [], e_detected = demo_det,
      e_artifacts = [\<lparr>a_id = ''p0'', a_path = ''page-001.png'', a_kind = ''image'',
                      a_sha256 = [], a_bytes = 999\<rparr>,
                     \<lparr>a_id = ''p1'', a_path = ''meta/p.png'', a_kind = ''image'',
                      a_sha256 = [], a_bytes = 0\<rparr>],
      e_warnings = [], e_payload = demo_page\<rparr>"

definition demo_parsers :: parsers where
  "demo_parsers = \<lparr>p_loads = (\<lambda>_. Some (JObj [(''payload'', JBool True)])),
                   p_node = (\<lambda>_. Some demo_page), p_envelope = (\<lambda>_ _. Some demo_parsed)\<rparr>"

definition demo_restat :: "string \<Rightarrow> restat" where
  "demo_restat p = ReFile 3"

definition demo_limits :: limits where
  "demo_limits = limits_default\<lparr>max_artifact_bytes := 100, max_artifacts := 10\<rparr>"

definition demo_sealed :: envelope where
  "demo_sealed = demo_parsed\<lparr>e_artifacts :=
     [\<lparr>a_id = ''p0'', a_path = ''page-001.png'', a_kind = ''image'', a_sha256 = demo_sha ''png'', a_bytes = 3\<rparr>,
      \<lparr>a_id = ''p1'', a_path = ''meta/p.png'', a_kind = ''image'', a_sha256 = demo_sha ''png'', a_bytes = 3\<rparr>]\<rparr>"

lemma demo_read:
  "read_confined_regular_bytes demo_fs ''metadata.json'' (nat (max_metadata_bytes demo_limits)) = Inr ''png''"
proof -
  have "open_confined_regular_fd demo_fs ''metadata.json'' = Inr demo_file"
    by (simp add: open_confined_regular_fd_def is_absolute_def startswith_def path_parts_def demo_fs_def)
  then show ?thesis
    by (simp add: read_confined_regular_bytes_def demo_limits_def limits_default_def demo_file_def
        hash_loop_eq) (simp add: exceeds_def)
qed

lemma demo_parse: "envelope_from_json demo_parsers ''png'' (nat (max_metadata_bytes demo_limits)) = Inr demo_parsed"
proof -
  have "raw_json_max_depth ''png'' = 0" by code_simp
  moreover have "check_json_depth (JBool True) MAX_PAYLOAD_DEPTH" by code_simp
  ultimately show ?thesis
    by (simp add: envelope_from_json_def demo_parsers_def demo_limits_def limits_default_def
        MAX_PAYLOAD_DEPTH_def jget_def)
qed

lemma demo_redeclare: "map redeclare (e_artifacts demo_parsed) = demo_decl"
  by (simp add: demo_parsed_def redeclare_def demo_decl_def)

lemma demo_declared_ok: "list_all (\<lambda>a. declared_ok (redeclare a)) (e_artifacts demo_parsed)"
  by code_simp

lemma demo_not_reserved: "\<not> list_ex (\<lambda>a. is_reserved_path (a_path a) RESERVED_NAMES) (e_artifacts demo_parsed)"
  by code_simp

lemma demo_sealed_ok: "seal_envelope demo_sha demo_fs ''clippy'' (demo_sha []) demo_det demo_decl []
    demo_page EnvOk (Some 100) 10 = Inr demo_sealed"
  unfolding demo_seal by (simp add: demo_sealed_def demo_parsed_def)

lemma demo_trusted:
  "validate_worker_output demo_parsers demo_sha demo_fs demo_fs demo_restat (demo_sha []) ''clippy'' demo_limits
     = Trusted demo_sealed"
proof -
  have fields: "e_engine demo_parsed = ''clippy''" "e_input_sha256 demo_parsed = demo_sha []"
    "e_detected demo_parsed = demo_det" "e_warnings demo_parsed = []" "e_payload demo_parsed = demo_page"
    "e_status demo_parsed = EnvOk" "nat (max_artifact_bytes demo_limits) = 100" "nat (max_artifacts demo_limits) = 10"
    "nat (max_total_artifact_bytes demo_limits) = 524288000"
    by (simp_all add: demo_parsed_def demo_limits_def limits_default_def)
  have caps: "validate_envelope demo_restat demo_sealed 100 524288000 10 = Inr demo_sealed"
    unfolding validate_envelope_Inr by (simp add: demo_sealed_def caps_hold_def demo_restat_def)
  show ?thesis
    unfolding validate_worker_output_def demo_read sum.case demo_parse judge_parsed_def fields
      demo_redeclare demo_sealed_ok caps
    using demo_not_reserved demo_declared_ok by simp
qed

text \<open>
  C1: what a trusted output guarantees.  If validate_worker_output returns an envelope, then it
  carries the expected engine and input hash; every artifact is a regular file reached through
  real directories of the output directory, recorded with the hash and size recomputed from
  disk and never a reserved name of the host's receipt; the count, each size and their sum are
  within the caps; artifact references resolve; and the metadata was within its size cap and
  nested at most 128 deep.
\<close>

theorem trusted_output_guarantees:
  assumes "inode_consistent fs_seal"
    and "validate_worker_output P sha fs_meta fs_seal restat ish eng l = Trusted env"
  shows "e_engine env = eng \<and> e_input_sha256 env = ish
    \<and> (\<exists>ds. list_all2 (seals sha fs_seal (Some (nat (max_artifact_bytes l)))) ds (e_artifacts env)
         \<and> distinct (map da_id ds))
    \<and> (\<forall>a \<in> set (e_artifacts env). \<not> walks_reserved (a_path a)
         \<and> restat (a_path a) = ReFile (a_bytes a) \<and> a_bytes a \<le> nat (max_artifact_bytes l))
    \<and> length (e_artifacts env) \<le> nat (max_artifacts l)
    \<and> sum_list (map a_bytes (e_artifacts env)) \<le> nat (max_total_artifact_bytes l)
    \<and> node_refs (e_payload env) \<subseteq> set (map a_id (e_artifacts env))
    \<and> (\<exists>raw. read_confined_regular_bytes fs_meta ''metadata.json'' (nat (max_metadata_bytes l)) = Inr raw
         \<and> length raw \<le> nat (max_metadata_bytes l) \<and> raw_json_max_depth raw \<le> int MAX_PAYLOAD_DEPTH)"
proof -
  obtain raw parsed where r: "read_confined_regular_bytes fs_meta ''metadata.json'' (nat (max_metadata_bytes l)) = Inr raw"
    and p: "envelope_from_json P raw (nat (max_metadata_bytes l)) = Inr parsed"
    and j: "judge_parsed sha fs_seal restat ish eng l parsed = Trusted env"
    using trusted_inv [OF assms(2)] by blast
  have raw: "length raw \<le> nat (max_metadata_bytes l) \<and> raw_json_max_depth raw \<le> int MAX_PAYLOAD_DEPTH"
    using p by (simp add: envelope_from_json_def not_less split: if_splits)
  let ?ds = "map redeclare (e_artifacts parsed)"
  note parts = judge_parsed_Trusted [OF j]
  from parts have res: "\<forall>a \<in> set (e_artifacts parsed). \<not> is_reserved_path (a_path a) RESERVED_NAMES"
    and seal: "seal_envelope sha fs_seal eng ish (e_detected parsed) ?ds (e_warnings parsed)
      (e_payload parsed) (e_status parsed) (Some (nat (max_artifact_bytes l))) (nat (max_artifacts l)) = Inr env"
    and caps: "validate_envelope restat env (nat (max_artifact_bytes l))
      (nat (max_total_artifact_bytes l)) (nat (max_artifacts l)) = Inr env"
    by simp_all
  obtain as where as: "seal_loop sha fs_seal (Some (nat (max_artifact_bytes l))) [] [] ?ds = Inr as"
    "node_refs (e_payload parsed) \<subseteq> set (map da_id ?ds)" "e_artifacts env = as" "e_engine env = eng"
    "e_input_sha256 env = ish" "e_payload env = e_payload parsed"
    using seal by (auto simp: seal_envelope_Inr)
  note spec = seal_loop_spec [OF assms(1) cache_ok_empty as(1)]
  then have l2: "list_all2 (seals sha fs_seal (Some (nat (max_artifact_bytes l)))) ?ds as" by blast
  then have ids: "map a_id as = map da_id ?ds" and paths: "map a_path as = map da_path ?ds"
    by (auto simp: list_all2_conv_all_nth seals_def intro!: nth_equalityI)
  have "set (map a_path as) = set (map a_path (e_artifacts parsed))"
    unfolding paths by (simp add: redeclare_def image_image)
  then have walk: "\<forall>a \<in> set as. \<not> walks_reserved (a_path a)"
    using res reserved_covers_walk by (metis (no_types, lifting) imageE image_eqI list.set_map)
  have ref: "node_refs (e_payload env) \<subseteq> set (map a_id as)"
    using as(2,6) unfolding ids by simp
  show ?thesis
    using as(3-5) l2 spec walk ref caps r raw unfolding validate_envelope_Inr caps_hold_def by blast
qed

theorem trusted_output_guarantees_witness:
  "e_engine demo_sealed = ''clippy'' \<and> e_input_sha256 demo_sealed = demo_sha []
   \<and> sum_list (map a_bytes (e_artifacts demo_sealed)) \<le> nat (max_total_artifact_bytes demo_limits)"
  using trusted_output_guarantees [OF demo_fs_consistent demo_trusted] by blast

text \<open>
  C7: a failing host never convicts a worker.  Take any output the validator trusts.  If, at
  any opens, reads, hashes or stats of the run, the kernel instead fails with a host-resource
  errno (out of descriptors, memory or disk, I/O error, quota, read-only), the verdict is
  the same envelope or OutputTrustUnknown, never evidence against the worker.
\<close>

theorem host_faults_never_convict:
  assumes "validate_worker_output P sha fs_meta fs_seal restat ish eng l = Trusted env"
    and "fault_variant fs_meta fs_meta'" "fault_variant fs_seal fs_seal'" "restat_variant restat restat'"
  shows "validate_worker_output P sha fs_meta' fs_seal' restat' ish eng l \<in> {Trusted env, Unknown}"
proof -
  obtain raw parsed where r: "read_confined_regular_bytes fs_meta ''metadata.json'' (nat (max_metadata_bytes l)) = Inr raw"
    and p: "envelope_from_json P raw (nat (max_metadata_bytes l)) = Inr parsed"
    and j: "judge_parsed sha fs_seal restat ish eng l parsed = Trusted env"
    using trusted_inv [OF assms(1)] by blast
  note parts = judge_parsed_Trusted [OF j]
  have ok: "list_all (\<lambda>a. declared_ok (redeclare a)) (e_artifacts parsed)"
    using j by (auto simp: judge_parsed_def split: if_splits)
  let ?seal = "\<lambda>fs. seal_envelope sha fs eng ish (e_detected parsed) (map redeclare (e_artifacts parsed))
      (e_warnings parsed) (e_payload parsed) (e_status parsed) (Some (nat (max_artifact_bytes l))) (nat (max_artifacts l))"
  let ?caps = "\<lambda>r. validate_envelope r env (nat (max_artifact_bytes l)) (nat (max_total_artifact_bytes l)) (nat (max_artifacts l))"
  have s: "?seal fs_seal' = Inr env \<or> host_faulted (?seal fs_seal')"
    by (rule seal_envelope_variant [OF assms(3)]) (use parts in blast)
  have c: "?caps restat' = Inr env \<or> host_faulted (?caps restat')"
    by (rule validate_envelope_variant [OF assms(4)]) (use parts in blast)
  have "judge_parsed sha fs_seal' restat' ish eng l parsed \<in> {Trusted env, Unknown}"
    using parts ok s c
    by (auto simp: judge_parsed_def list_ex_iff host_cause_def host_faulted_def split: sum.splits)
  with read_variant [OF assms(2) r] p show ?thesis
    by (auto simp: validate_worker_output_def)
qed

definition emfile_fs :: fsys where
  "emfile_fs = demo_fs\<lparr>fs_fault := (\<lambda>p. if p = [] then Some EMFILE else None)\<rparr>"

theorem host_faults_never_convict_witness:
  "validate_worker_output demo_parsers demo_sha demo_fs emfile_fs demo_restat (demo_sha []) ''clippy'' demo_limits
     \<in> {Trusted demo_sealed, Unknown}"
proof -
  have host: "is_host_errno EMFILE" by (simp add: is_host_errno_def HOST_RESOURCE_ERRNOS_def)
  have "fault_variant demo_fs emfile_fs"
    using host by (auto simp: fault_variant_def emfile_fs_def open_confined_regular_fd_def)
  moreover have "fault_variant fs fs" "restat_variant r r" for fs r
    by (simp_all add: fault_variant_def restat_variant_def)
  ultimately show ?thesis by (intro host_faults_never_convict [OF demo_trusted])
qed

text \<open>
  the claimed hashes and sizes of the worker never reach the verdict.  Two outputs on the
  same disk whose metadata parse to envelopes that differ only in what they say of artifact
  hashes and byte counts get the same verdict.
\<close>

theorem claimed_hashes_ignored:
  assumes "map redeclare (e_artifacts e1) = map redeclare (e_artifacts e2)"
    and "e2 = e1\<lparr>e_artifacts := e_artifacts e2\<rparr>"
  shows "judge_parsed sha fs restat ish eng l e1 = judge_parsed sha fs restat ish eng l e2"
proof -
  have same: "e_engine e2 = e_engine e1" "e_status e2 = e_status e1" "e_input_sha256 e2 = e_input_sha256 e1"
    "e_detected e2 = e_detected e1" "e_warnings e2 = e_warnings e1" "e_payload e2 = e_payload e1"
    using assms(2) by (metis envelope.select_convs envelope.surjective envelope.update_convs(5))+
  have la: "list_all (\<lambda>a. declared_ok (redeclare a)) (e_artifacts e) =
      list_all declared_ok (map redeclare (e_artifacts e))" for e
    by (simp add: list.pred_map comp_def)
  have le: "list_ex (\<lambda>a. is_reserved_path (a_path a) RESERVED_NAMES) (e_artifacts e) =
      list_ex (\<lambda>d. is_reserved_path (da_path d) RESERVED_NAMES) (map redeclare (e_artifacts e))" for e
    by (simp add: list_ex_iff redeclare_def)
  show ?thesis unfolding judge_parsed_def la le same assms(1) ..
qed

theorem claimed_hashes_ignored_witness:
  "judge_parsed demo_sha demo_fs demo_restat (demo_sha []) ''clippy'' demo_limits demo_parsed =
   judge_parsed demo_sha demo_fs demo_restat (demo_sha []) ''clippy'' demo_limits demo_sealed"
  by (rule claimed_hashes_ignored) (simp_all add: demo_parsed_def demo_sealed_def redeclare_def)

text \<open>
  an artifact whose id or kind the declaration rejects is not a verdict.  The metadata
  model leaves artifact ids and kinds unconstrained, and the stricter DeclaredArtifact is built
  outside every try block, so such an output, from the right engine and with no reserved
  path, leaves validate_worker_output as a raw validation error, neither trust error; and
  nothing else does.
\<close>

theorem unconvertible_artifact_escapes:
  assumes "read_confined_regular_bytes fs_meta ''metadata.json'' (nat (max_metadata_bytes l)) = Inr raw"
    and "envelope_from_json P raw (nat (max_metadata_bytes l)) = Inr parsed"
  shows "validate_worker_output P sha fs_meta fs_seal restat ish eng l = Escaped \<longleftrightarrow>
     e_engine parsed = eng
     \<and> (\<forall>a \<in> set (e_artifacts parsed). \<not> is_reserved_path (a_path a) RESERVED_NAMES)
     \<and> (\<exists>a \<in> set (e_artifacts parsed). \<not> declared_ok (redeclare a))"
proof -
  have "judge_seal e \<noteq> Escaped" "judge_caps e \<noteq> Escaped" for e by (cases e; simp)+
  with assms show ?thesis
    by (auto simp: validate_worker_output_def judge_parsed_def list_ex_iff list_all_iff split: sum.splits)
qed

definition escape_parsers :: parsers where
  "escape_parsers = demo_parsers\<lparr>p_envelope := (\<lambda>_ _. Some (demo_parsed\<lparr>e_artifacts :=
      [\<lparr>a_id = ''a b'', a_path = ''page-001.png'', a_kind = ''image'', a_sha256 = [], a_bytes = 3\<rparr>]\<rparr>))\<rparr>"

theorem unconvertible_artifact_escapes_witness:
  "validate_worker_output escape_parsers demo_sha demo_fs demo_fs demo_restat (demo_sha []) ''clippy'' demo_limits
     = Escaped"
proof -
  let ?e = "demo_parsed\<lparr>e_artifacts :=
      [\<lparr>a_id = ''a b'', a_path = ''page-001.png'', a_kind = ''image'', a_sha256 = [], a_bytes = 3\<rparr>]\<rparr>"
  have "raw_json_max_depth ''png'' = 0" by code_simp
  moreover have "check_json_depth (JBool True) MAX_PAYLOAD_DEPTH" by code_simp
  ultimately have p: "envelope_from_json escape_parsers ''png'' (nat (max_metadata_bytes demo_limits)) = Inr ?e"
    by (simp add: envelope_from_json_def escape_parsers_def demo_parsers_def demo_limits_def limits_default_def
        MAX_PAYLOAD_DEPTH_def jget_def)
  have "\<not> declared_ok (redeclare \<lparr>a_id = ''a b'', a_path = ''page-001.png'', a_kind = ''image'', a_sha256 = [], a_bytes = 3\<rparr>)"
    by code_simp
  moreover have "\<not> is_reserved_path ''page-001.png'' RESERVED_NAMES" by code_simp
  moreover have "e_engine ?e = ''clippy''" by (simp add: demo_parsed_def)
  ultimately show ?thesis
    unfolding unconvertible_artifact_escapes [OF demo_read p] by simp
qed

end
