(* ===== verification/Node_Sizer.thy ===== *)
theory Node_Sizer
  imports Blastbox_Prelude
begin

text \<open>
  \<^verbatim>\<open>host/node_sizer.py\<close>: the allocator that splits a node's RAM and vCPU budget over its warm
  pools, the report of floors it could not seat, and the classification of cascades.  Floating
  point is modelled by exact reals.  The three loops of \<open>plan_sizes\<close> have one body, so they are
  one function of the target each pool is raised to and of the key that picks the next pool.
\<close>

section \<open>Which runtimes are sized\<close>

definition NODE_MANAGED_RUNTIMES :: "string list" where
  "NODE_MANAGED_RUNTIMES = [''firecracker'', ''gvisor'']"

definition manages :: "string \<Rightarrow> bool" where
  "manages rt \<longleftrightarrow> py_lower (py_strip rt) \<in> set NODE_MANAGED_RUNTIMES"

text \<open>
  A runtime object as the code inspects it: its \<open>kind\<close>, its \<open>tiers\<close> and deferred tiers
  (\<^const>\<open>None\<close> when the attribute is not iterable), each tier's name and, if it parses, capacity.
\<close>

record tier_obj =
  to_name :: string
  to_capacity :: "int option"

record runtime_obj =
  ro_kind :: "string option"
  ro_tiers :: "tier_obj list option"
  ro_deferred :: "tier_obj list option"

definition cascade_all_local :: "runtime_obj \<Rightarrow> bool" where
  "cascade_all_local r =
     (if ro_kind r \<noteq> Some ''cascade'' then False
      else case ro_tiers r of
        None \<Rightarrow> False
      | Some ms \<Rightarrow>
          (case ro_deferred r of
             None \<Rightarrow> False
           | Some ds \<Rightarrow> ms @ ds \<noteq> [] \<and> list_all (\<lambda>t. manages (to_name t)) (ms @ ds)))"

definition cascade_capacity :: "runtime_obj \<Rightarrow> int option" where
  "cascade_capacity r =
     (if ro_kind r \<noteq> Some ''cascade'' then None
      else case ro_tiers r of
        None \<Rightarrow> Some 0
      | Some ms \<Rightarrow> Some (sum_list (map (\<lambda>t. case to_capacity t of None \<Rightarrow> 0 | Some c \<Rightarrow> max 0 c) ms)))"

section \<open>Pools and budgets\<close>

record node_budget =
  nb_ram :: real
  nb_vcpus :: real

record pool_spec =
  ps_name :: string
  ps_ram :: real
  ps_vcpus :: real
  ps_demand :: real
  ps_min_warm :: int
  ps_max_ceiling :: int
  ps_reserved :: int
  ps_queued :: real

record pool_size =
  sz_warm :: int
  sz_ceiling :: int

text \<open>The allocation so far, and the resources it uses.\<close>

record fill_state =
  fl_alloc :: "string \<Rightarrow> int"
  fl_ram :: real
  fl_vcpu :: real

definition clamp_spec :: "pool_spec \<Rightarrow> pool_spec" where
  "clamp_spec s =
     (if 0 < ps_ram s \<and> 0 < ps_vcpus s then s
      else s\<lparr>ps_ram := max (ps_ram s) 1, ps_vcpus := max (ps_vcpus s) (1 / 100)\<rparr>)"

definition budget_has_room :: "node_budget \<Rightarrow> fill_state \<Rightarrow> pool_spec \<Rightarrow> bool" where
  "budget_has_room b st s \<longleftrightarrow>
     fl_ram st + ps_ram s \<le> nb_ram b \<and> fl_vcpu st + ps_vcpus s \<le> nb_vcpus b"

definition give :: "pool_spec \<Rightarrow> fill_state \<Rightarrow> fill_state" where
  "give s st = st\<lparr>fl_alloc := (fl_alloc st)(ps_name s := fl_alloc st (ps_name s) + 1),
                 fl_ram := fl_ram st + ps_ram s, fl_vcpu := fl_vcpu st + ps_vcpus s\<rparr>"

definition below ::
  "node_budget \<Rightarrow> (pool_spec \<Rightarrow> int) \<Rightarrow> pool_spec list \<Rightarrow> fill_state \<Rightarrow> pool_spec list" where
  "below b tgt specs st = filter (\<lambda>s. fl_alloc st (ps_name s) < tgt s \<and> budget_has_room b st s) specs"

definition pick :: "((string \<Rightarrow> int) \<Rightarrow> pool_spec \<Rightarrow> 'k::linorder) \<Rightarrow> fill_state \<Rightarrow> pool_spec list \<Rightarrow> pool_spec" where
  "pick key st cs = arg_min_list (key (fl_alloc st)) cs"

lemma sum_list_less:
  fixes f g :: "'a \<Rightarrow> nat"
  assumes "\<forall>y \<in> set xs. f y \<le> g y" "x \<in> set xs" "f x < g x"
  shows "sum_list (map f xs) < sum_list (map g xs)"
  using assms
proof (induction xs)
  case (Cons a xs)
  have le: "sum_list (map f xs) \<le> sum_list (map g xs)"
    using Cons.prems(1) by (intro sum_list_mono) simp
  show ?case
  proof (cases "x = a")
    case True
    with Cons.prems(3) le show ?thesis by simp
  next
    case False
    with Cons have "sum_list (map f xs) < sum_list (map g xs)" by simp
    with Cons.prems(1) show ?thesis by (simp add: add_le_less_mono)
  qed
qed simp

lemma pick_below: "below b tgt specs st \<noteq> [] \<Longrightarrow> pick key st (below b tgt specs st) \<in> set (below b tgt specs st)"
  by (simp add: pick_def arg_min_list_mem)

function fill_loop ::
  "node_budget \<Rightarrow> (pool_spec \<Rightarrow> int) \<Rightarrow> ((string \<Rightarrow> int) \<Rightarrow> pool_spec \<Rightarrow> 'k::linorder) \<Rightarrow>
   pool_spec list \<Rightarrow> fill_state \<Rightarrow> fill_state" where
  "fill_loop b tgt key specs st =
     (if below b tgt specs st = [] then st
      else fill_loop b tgt key specs (give (pick key st (below b tgt specs st)) st))"
  by pat_completeness auto
termination
proof (relation "measure (\<lambda>(b, tgt, key, specs, st). sum_list (map (\<lambda>s. nat (tgt s - fl_alloc st (ps_name s))) specs))",
    simp, goal_cases)
  case (1 b tgt key specs st)
  let ?p = "pick key st (below b tgt specs st)"
  have "?p \<in> set (below b tgt specs st)" by (rule pick_below [OF 1])
  then have p: "?p \<in> set specs" "fl_alloc st (ps_name ?p) < tgt ?p" by (auto simp: below_def)
  have "sum_list (map (\<lambda>s. nat (tgt s - fl_alloc (give ?p st) (ps_name s))) specs)
      < sum_list (map (\<lambda>s. nat (tgt s - fl_alloc st (ps_name s))) specs)"
    by (rule sum_list_less [OF _ p(1)]) (use p(2) in \<open>auto simp: give_def\<close>)
  then show ?case by simp
qed

declare fill_loop.simps [simp del]

section \<open>The allocator\<close>

text \<open>The targets and keys of the three loops: in-use slots, warm floors, the water-fill.\<close>

definition reserved_target :: "pool_spec \<Rightarrow> int" where
  "reserved_target s = min (ps_reserved s) (ps_max_ceiling s)"

definition reserved_key :: "(string \<Rightarrow> int) \<Rightarrow> pool_spec \<Rightarrow> real" where
  "reserved_key alloc s = - ps_demand s"

definition floor_target :: "pool_spec \<Rightarrow> int" where
  "floor_target s = min (ps_min_warm s) (ps_max_ceiling s)"

definition floor_key :: "(string \<Rightarrow> int) \<Rightarrow> pool_spec \<Rightarrow> nat \<times> real \<times> real \<times> real \<times> string" where
  "floor_key alloc s =
     (if 0 < ps_queued s then 0 else 1, real_of_int (alloc (ps_name s)) / real_of_int (floor_target s),
      - ps_queued s, - ps_demand s, ps_name s)"

definition slot_cost :: "node_budget \<Rightarrow> pool_spec \<Rightarrow> real" where
  "slot_cost b s =
     max (max (if 0 < nb_ram b then ps_ram s / nb_ram b else 0)
              (if 0 < nb_vcpus b then ps_vcpus s / nb_vcpus b else 0)) (1 / 10 ^ 12)"

definition fill_key :: "node_budget \<Rightarrow> (string \<Rightarrow> int) \<Rightarrow> pool_spec \<Rightarrow> real" where
  "fill_key b alloc s =
     - ((ps_demand s + 1 / 1000) / (real_of_int (alloc (ps_name s) + 1) * slot_cost b s))"

definition baseline :: "pool_spec list \<Rightarrow> fill_state" where
  "baseline specs = \<lparr>fl_alloc = (\<lambda>_. 1), fl_ram = sum_list (map ps_ram specs), fl_vcpu = sum_list (map ps_vcpus specs)\<rparr>"

definition allocate :: "node_budget \<Rightarrow> pool_spec list \<Rightarrow> fill_state" where
  "allocate b specs =
     fill_loop b ps_max_ceiling (fill_key b) specs
       (fill_loop b floor_target floor_key specs
         (fill_loop b reserved_target reserved_key specs (baseline specs)))"

definition size_of :: "fill_state \<Rightarrow> pool_spec \<Rightarrow> pool_size" where
  "size_of st s =
     (let ceiling = fl_alloc st (ps_name s)
      in \<lparr>sz_warm = max 0 (min ceiling (max (ps_min_warm s) \<lceil>ps_demand s\<rceil>)), sz_ceiling = ceiling\<rparr>)"

definition plan_sizes :: "pool_spec list \<Rightarrow> node_budget \<Rightarrow> (string \<times> pool_size) list" where
  "plan_sizes specs b =
     (let cs = map clamp_spec specs; st = allocate b cs
      in foldl (\<lambda>out s. AList.update (ps_name s) (size_of st s) out) [] cs)"

definition unseatable_floors :: "pool_spec list \<Rightarrow> node_budget \<Rightarrow> (string \<times> (int \<times> int)) list" where
  "unseatable_floors specs b =
     (let plan = plan_sizes specs b
      in foldl (\<lambda>out s.
           let wanted = floor_target s
           in case map_of plan (ps_name s) of
                None \<Rightarrow> out
              | Some z \<Rightarrow>
                  if 0 < wanted \<and> sz_warm z < wanted
                  then AList.update (ps_name s) (sz_warm z, wanted) out else out) [] specs)"

section \<open>What one loop does\<close>

definition unique :: "pool_spec list \<Rightarrow> bool" where
  "unique specs \<longleftrightarrow> distinct (map ps_name specs)"

lemma fill_loop_step:
  "below b tgt specs st \<noteq> [] \<Longrightarrow>
   fill_loop b tgt key specs st = fill_loop b tgt key specs (give (pick key st (below b tgt specs st)) st)"
  by (subst fill_loop.simps) simp

lemma fill_loop_done: "below b tgt specs st = [] \<Longrightarrow> fill_loop b tgt key specs st = st"
  by (subst fill_loop.simps) simp

text \<open>An invariant of every step is an invariant of the loop.\<close>

lemma fill_loop_invariant:
  assumes step: "\<And>p st. p \<in> set specs \<Longrightarrow> fl_alloc st (ps_name p) < tgt p \<Longrightarrow>
                   budget_has_room b st p \<Longrightarrow> I st \<Longrightarrow> I (give p st)"
  shows "I st \<Longrightarrow> I (fill_loop b tgt key specs st)"
  using step
proof (induction b tgt key specs st rule: fill_loop.induct)
  case (1 b tgt key specs st)
  show ?case
  proof (cases "below b tgt specs st = []")
    case True
    with "1.prems"(1) show ?thesis by (simp add: fill_loop_done)
  next
    case False
    let ?p = "pick key st (below b tgt specs st)"
    have "?p \<in> set (below b tgt specs st)" by (rule pick_below [OF False])
    then have p: "?p \<in> set specs" "fl_alloc st (ps_name ?p) < tgt ?p" "budget_has_room b st ?p"
      by (auto simp: below_def)
    have "I (give ?p st)" by (rule "1.prems"(2) [OF p "1.prems"(1)])
    then show ?thesis
      unfolding fill_loop_step [OF False] by (rule "1.IH" [OF False]) (rule "1.prems"(2))
  qed
qed

lemma fill_loop_maximal: "below b tgt specs (fill_loop b tgt key specs st) = []"
proof (induction b tgt key specs st rule: fill_loop.induct)
  case (1 b tgt key specs st)
  then show ?case
    by (cases "below b tgt specs st = []") (simp_all add: fill_loop_done fill_loop_step)
qed

lemma fill_loop_grows: "fl_alloc st n \<le> fl_alloc (fill_loop b tgt key specs st) n"
  by (rule fill_loop_invariant [where I = "\<lambda>st'. fl_alloc st n \<le> fl_alloc st' n"])
     (auto simp: give_def)

lemma fill_loop_upper:
  assumes "unique specs" "s \<in> set specs"
  shows "fl_alloc (fill_loop b tgt key specs st) (ps_name s) \<le> max (fl_alloc st (ps_name s)) (tgt s)"
proof (rule fill_loop_invariant [where I = "\<lambda>st'. fl_alloc st' (ps_name s) \<le> max (fl_alloc st (ps_name s)) (tgt s)"])
  fix p and st' :: fill_state
  assume p: "p \<in> set specs" "fl_alloc st' (ps_name p) < tgt p"
    and I: "fl_alloc st' (ps_name s) \<le> max (fl_alloc st (ps_name s)) (tgt s)"
  show "fl_alloc (give p st') (ps_name s) \<le> max (fl_alloc st (ps_name s)) (tgt s)"
  proof (cases "ps_name p = ps_name s")
    case True
    then have "p = s" using assms p(1) by (auto simp: unique_def inj_on_def distinct_map)
    with p(2) show ?thesis by (simp add: give_def)
  next
    case False
    with I show ?thesis by (simp add: give_def)
  qed
qed simp

text \<open>The accumulators count exactly the slots handed out.\<close>

definition cost :: "(pool_spec \<Rightarrow> real) \<Rightarrow> pool_spec list \<Rightarrow> (string \<Rightarrow> int) \<Rightarrow> real" where
  "cost f specs alloc = sum_list (map (\<lambda>s. real_of_int (alloc (ps_name s)) * f s) specs)"

lemma cost_give:
  assumes "unique specs" "p \<in> set specs"
  shows "cost f specs (fl_alloc (give p st)) = cost f specs (fl_alloc st) + f p"
  using assms
proof (induction specs)
  case (Cons a specs)
  show ?case
  proof (cases "p = a")
    case True
    then have "\<forall>s \<in> set specs. ps_name s \<noteq> ps_name p"
      using Cons.prems by (auto simp: unique_def image_iff dest: bspec)
    then have "cost f specs (fl_alloc (give p st)) = cost f specs (fl_alloc st)"
      unfolding cost_def by (intro arg_cong [where f = sum_list] map_cong) (auto simp: give_def)
    with True show ?thesis by (simp add: cost_def give_def algebra_simps)
  next
    case False
    with Cons.prems have "ps_name a \<noteq> ps_name p" by (auto simp: unique_def)
    with False Cons show ?thesis by (simp add: cost_def unique_def give_def)
  qed
qed simp

definition accounted :: "pool_spec list \<Rightarrow> fill_state \<Rightarrow> bool" where
  "accounted specs st \<longleftrightarrow>
     fl_ram st = cost ps_ram specs (fl_alloc st) \<and> fl_vcpu st = cost ps_vcpus specs (fl_alloc st)"

lemma accounted_baseline: "accounted specs (baseline specs)"
  by (simp add: accounted_def baseline_def cost_def)

lemma accounted_give:
  "unique specs \<Longrightarrow> p \<in> set specs \<Longrightarrow> accounted specs st \<Longrightarrow> accounted specs (give p st)"
  unfolding accounted_def by (simp add: cost_give) (simp add: give_def)

lemma accounted_fill:
  "unique specs \<Longrightarrow> accounted specs st \<Longrightarrow> accounted specs (fill_loop b tgt key specs st)"
  by (rule fill_loop_invariant [where I = "accounted specs"]) (auto intro: accounted_give)

lemma fill_loop_budget:
  "fl_ram (fill_loop b tgt key specs st) \<le> max (nb_ram b) (fl_ram st)
   \<and> fl_vcpu (fill_loop b tgt key specs st) \<le> max (nb_vcpus b) (fl_vcpu st)"
  by (rule fill_loop_invariant [where I = "\<lambda>st'. fl_ram st' \<le> max (nb_ram b) (fl_ram st)
        \<and> fl_vcpu st' \<le> max (nb_vcpus b) (fl_vcpu st)"])
     (auto simp: give_def budget_has_room_def)

text \<open>If raising every pool to its target fits the budget, the loop does it.\<close>

definition affordable :: "node_budget \<Rightarrow> pool_spec list \<Rightarrow> (pool_spec \<Rightarrow> int) \<Rightarrow> bool" where
  "affordable b specs goal \<longleftrightarrow>
     sum_list (map (\<lambda>s. real_of_int (goal s) * ps_ram s) specs) \<le> nb_ram b
     \<and> sum_list (map (\<lambda>s. real_of_int (goal s) * ps_vcpus s) specs) \<le> nb_vcpus b"

definition positive :: "pool_spec list \<Rightarrow> bool" where
  "positive specs \<longleftrightarrow> (\<forall>s \<in> set specs. 0 < ps_ram s \<and> 0 < ps_vcpus s)"

lemma cost_room:
  fixes st :: fill_state
  assumes "unique specs" "p \<in> set specs" "\<forall>s \<in> set specs. 0 < f s"
    and "\<forall>s \<in> set specs. fl_alloc st (ps_name s) \<le> goal s" "fl_alloc st (ps_name p) < goal p"
  shows "cost f specs (fl_alloc st) + f p \<le> sum_list (map (\<lambda>s. real_of_int (goal s) * f s) specs)"
proof -
  have "fl_alloc (give p st) (ps_name s) \<le> goal s" if "s \<in> set specs" for s
  proof (cases "ps_name s = ps_name p")
    case True
    then have "s = p" using assms(1,2) that by (auto simp: unique_def inj_on_def distinct_map)
    with assms(5) show ?thesis by (simp add: give_def)
  next
    case False
    with assms(4) that show ?thesis by (simp add: give_def)
  qed
  then have "cost f specs (fl_alloc (give p st)) \<le> sum_list (map (\<lambda>s. real_of_int (goal s) * f s) specs)"
    unfolding cost_def using assms(3) by (intro sum_list_mono) (simp add: less_imp_le mult_right_mono)
  then show ?thesis using cost_give [OF assms(1,2)] by metis
qed

lemma fill_loop_reaches:
  fixes st :: fill_state
  assumes u: "unique specs" and pos: "positive specs" and acc: "accounted specs st"
    and le: "\<forall>s \<in> set specs. fl_alloc st (ps_name s) \<le> goal s"
    and tg: "\<forall>s \<in> set specs. tgt s \<le> goal s" and fit: "affordable b specs goal"
    and s: "s \<in> set specs"
  shows "tgt s \<le> fl_alloc (fill_loop b tgt key specs st) (ps_name s)"
proof (rule ccontr)
  let ?st = "fill_loop b tgt key specs st"
  assume "\<not> tgt s \<le> fl_alloc ?st (ps_name s)"
  then have lt: "fl_alloc ?st (ps_name s) < tgt s" by simp
  have le': "\<forall>x \<in> set specs. fl_alloc ?st (ps_name x) \<le> goal x"
    using fill_loop_upper [OF u] le tg by (meson max.bounded_iff order.trans max.boundedI)
  have acc': "accounted specs ?st" by (rule accounted_fill [OF u acc])
  have lt': "fl_alloc ?st (ps_name s) < goal s" using lt tg s by force
  have pr: "\<forall>s \<in> set specs. 0 < ps_ram s" "\<forall>s \<in> set specs. 0 < ps_vcpus s"
    using pos by (auto simp: positive_def)
  have "budget_has_room b ?st s"
    using cost_room [OF u s pr(1) le' lt'] cost_room [OF u s pr(2) le' lt'] acc' fit
    unfolding budget_has_room_def accounted_def affordable_def by linarith
  with lt s fill_loop_maximal [of b tgt specs key st] show False
    by (auto simp: below_def filter_empty_conv)
qed

section \<open>The whole plan\<close>

lemma clamp_fields [simp]:
  "ps_name (clamp_spec s) = ps_name s" "ps_min_warm (clamp_spec s) = ps_min_warm s"
  "ps_max_ceiling (clamp_spec s) = ps_max_ceiling s" "ps_reserved (clamp_spec s) = ps_reserved s"
  "ps_demand (clamp_spec s) = ps_demand s" "ps_queued (clamp_spec s) = ps_queued s"
  by (simp_all add: clamp_spec_def)

lemma clamp_positive: "positive (map clamp_spec specs)"
  by (auto simp: positive_def clamp_spec_def)

lemma unique_clamp [simp]: "unique (map clamp_spec specs) = unique specs"
  by (simp add: unique_def comp_def)

lemma map_of_plan:
  "map_of (foldl (\<lambda>out s. AList.update (ps_name s) (f s) out) acc specs) n =
     (case find (\<lambda>s. ps_name s = n) (rev specs) of None \<Rightarrow> map_of acc n | Some s \<Rightarrow> Some (f s))"
proof (induction specs rule: rev_induct)
  case (snoc s specs)
  then show ?case by (simp add: update_conv)
qed simp

lemma find_Some_mem: "find P xs = Some x \<Longrightarrow> x \<in> set xs \<and> P x"
  by (induction xs) (auto split: if_splits)

lemma find_unique:
  assumes "unique specs" "s \<in> set specs"
  shows "find (\<lambda>x. ps_name x = ps_name s) (rev specs) = Some s"
proof -
  have "find (\<lambda>x. ps_name x = ps_name s) (rev specs) \<noteq> None"
    using assms(2) by (auto simp: find_None_iff)
  then obtain x where x: "find (\<lambda>x. ps_name x = ps_name s) (rev specs) = Some x" by auto
  then have "x \<in> set specs" "ps_name x = ps_name s"
    by (auto dest: find_Some_mem)
  then have "x = s" using assms by (auto simp: unique_def inj_on_def distinct_map)
  with x show ?thesis by simp
qed

abbreviation plan_state :: "pool_spec list \<Rightarrow> node_budget \<Rightarrow> fill_state" where
  "plan_state specs b \<equiv> allocate b (map clamp_spec specs)"

lemma plan_lookup:
  assumes "unique specs" "s \<in> set specs"
  shows "map_of (plan_sizes specs b) (ps_name s) = Some (size_of (plan_state specs b) (clamp_spec s))"
  using find_unique [of "map clamp_spec specs" "clamp_spec s"] assms
  by (simp add: plan_sizes_def Let_def map_of_plan)

text \<open>The loops in order; each keeps the accounting and only grows the allocation.\<close>

lemma allocate_accounted: "unique specs \<Longrightarrow> accounted specs (allocate b specs)"
  unfolding allocate_def by (intro accounted_fill accounted_baseline)

lemma allocate_budget:
  "fl_ram (allocate b specs) \<le> max (nb_ram b) (sum_list (map ps_ram specs))
   \<and> fl_vcpu (allocate b specs) \<le> max (nb_vcpus b) (sum_list (map ps_vcpus specs))"
  unfolding allocate_def
  using fill_loop_budget [of b ps_max_ceiling "fill_key b" specs]
    fill_loop_budget [of b floor_target floor_key specs]
    fill_loop_budget [of b reserved_target reserved_key specs "baseline specs"]
  by (simp add: baseline_def) (smt (verit, best))

lemma baseline_alloc [simp]: "fl_alloc (baseline specs) n = 1"
  by (simp add: baseline_def)

lemma allocate_lower: "1 \<le> fl_alloc (allocate b specs) n"
proof -
  let ?r = "fill_loop b reserved_target reserved_key specs (baseline specs)"
  let ?f = "fill_loop b floor_target floor_key specs ?r"
  have "1 \<le> fl_alloc ?r n" using fill_loop_grows [of "baseline specs" n] by simp
  also have "\<dots> \<le> fl_alloc ?f n" by (rule fill_loop_grows)
  also have "\<dots> \<le> fl_alloc (allocate b specs) n" unfolding allocate_def by (rule fill_loop_grows)
  finally show ?thesis .
qed

lemma allocate_upper:
  assumes "unique specs" "s \<in> set specs"
  shows "fl_alloc (allocate b specs) (ps_name s) \<le> max 1 (ps_max_ceiling s)"
  using fill_loop_upper [OF assms, of b ps_max_ceiling "fill_key b"]
    fill_loop_upper [OF assms, of b floor_target floor_key]
    fill_loop_upper [OF assms, of b reserved_target reserved_key "baseline specs"]
  unfolding allocate_def floor_target_def reserved_target_def baseline_alloc
  by (smt (verit, best))

definition demo_budget :: node_budget where
  "demo_budget = \<lparr>nb_ram = 10, nb_vcpus = 100\<rparr>"

definition demo_pool :: "string \<Rightarrow> real \<Rightarrow> int \<Rightarrow> int \<Rightarrow> pool_spec" where
  "demo_pool n d w r = \<lparr>ps_name = n, ps_ram = 2, ps_vcpus = 1, ps_demand = d, ps_min_warm = w,
     ps_max_ceiling = 4, ps_reserved = r, ps_queued = d\<rparr>"

definition demo_pools :: "pool_spec list" where
  "demo_pools = [demo_pool ''redtusk'' 3 2 0, demo_pool ''clippy'' 0 1 2]"

lemma demo_unique: "unique demo_pools"
  by (simp add: unique_def demo_pools_def demo_pool_def)

section \<open>Properties\<close>

text \<open>
  the plan never oversubscribes the node.  For pools with distinct names, the sum over
  the planned ceilings of the slot footprints is within the budget on RAM and on vCPU, except
  for the mandatory one slot per pool: it never exceeds the larger of the budget and that
  baseline.
\<close>

theorem plan_within_budget:
  assumes "unique specs"
  shows "sum_list (map (\<lambda>s. real_of_int (sz_ceiling (the (map_of (plan_sizes specs b) (ps_name s)))) * ps_ram (clamp_spec s)) specs)
           \<le> max (nb_ram b) (sum_list (map (\<lambda>s. ps_ram (clamp_spec s)) specs))
       \<and> sum_list (map (\<lambda>s. real_of_int (sz_ceiling (the (map_of (plan_sizes specs b) (ps_name s)))) * ps_vcpus (clamp_spec s)) specs)
           \<le> max (nb_vcpus b) (sum_list (map (\<lambda>s. ps_vcpus (clamp_spec s)) specs))"
proof -
  have c: "sum_list (map (\<lambda>s. real_of_int (sz_ceiling (the (map_of (plan_sizes specs b) (ps_name s)))) * f (clamp_spec s)) specs)
      = cost f (map clamp_spec specs) (fl_alloc (plan_state specs b))" for f
    using plan_lookup [OF assms]
    by (auto simp: cost_def size_of_def Let_def comp_def intro!: arg_cong [where f = sum_list] map_cong)
  have a: "accounted (map clamp_spec specs) (plan_state specs b)"
    using assms by (intro allocate_accounted) simp
  show ?thesis
    using a allocate_budget [of b "map clamp_spec specs"]
    unfolding c accounted_def by (simp add: comp_def)
qed

theorem plan_within_budget_witness:
  "sum_list (map (\<lambda>s. real_of_int (sz_ceiling (the (map_of (plan_sizes demo_pools demo_budget) (ps_name s))))
      * ps_ram (clamp_spec s)) demo_pools) \<le> 10"
proof -
  have m: "max (nb_ram demo_budget) (sum_list (map (\<lambda>s. ps_ram (clamp_spec s)) demo_pools)) = 10"
    by (simp add: demo_budget_def demo_pools_def demo_pool_def clamp_spec_def)
  show ?thesis
    using plan_within_budget [OF demo_unique, of demo_budget, THEN conjunct1] unfolding m .
qed

text \<open>The footprint of a slot, one that is not positive raised, and what a plan takes of it.\<close>

definition slot_ram :: "pool_spec \<Rightarrow> real" where
  "slot_ram s = (if 0 < ps_ram s \<and> 0 < ps_vcpus s then ps_ram s else max (ps_ram s) 1)"

definition slot_vcpus :: "pool_spec \<Rightarrow> real" where
  "slot_vcpus s = (if 0 < ps_ram s \<and> 0 < ps_vcpus s then ps_vcpus s else max (ps_vcpus s) (1 / 100))"

definition planned :: "(string \<times> pool_size) list \<Rightarrow> pool_spec \<Rightarrow> int" where
  "planned plan s = sz_ceiling (the (map_of plan (ps_name s)))"

definition takes :: "(pool_spec \<Rightarrow> real) \<Rightarrow> pool_spec list \<Rightarrow> (string \<times> pool_size) list \<Rightarrow> real" where
  "takes f specs plan = (\<Sum>s \<leftarrow> specs. real_of_int (planned plan s) * f s)"

lemma clamp_footprint [simp]: "ps_ram (clamp_spec s) = slot_ram s" "ps_vcpus (clamp_spec s) = slot_vcpus s"
  by (auto simp: clamp_spec_def slot_ram_def slot_vcpus_def)

lemma takes_cost:
  assumes "unique specs"
  shows "takes (\<lambda>s. f (clamp_spec s)) specs (plan_sizes specs b) = cost f (map clamp_spec specs) (fl_alloc (plan_state specs b))"
  using plan_lookup [OF assms]
  by (auto simp: takes_def planned_def cost_def size_of_def Let_def comp_def intro!: arg_cong [where f = sum_list] map_cong)

lemma plan_uses:
  assumes "unique specs"
  shows "fl_ram (plan_state specs b) = takes slot_ram specs (plan_sizes specs b)"
    "fl_vcpu (plan_state specs b) = takes slot_vcpus specs (plan_sizes specs b)"
proof -
  have "accounted (map clamp_spec specs) (plan_state specs b)" using assms by (intro allocate_accounted) simp
  then show "fl_ram (plan_state specs b) = takes slot_ram specs (plan_sizes specs b)"
    "fl_vcpu (plan_state specs b) = takes slot_vcpus specs (plan_sizes specs b)"
    using takes_cost [OF assms, of ps_ram b] takes_cost [OF assms, of ps_vcpus b] by (simp_all add: accounted_def)
qed

lemma plan_names: "dom (map_of (plan_sizes specs b)) = ps_name ` set specs"
proof -
  have "dom (map_of (foldl (\<lambda>out s. AList.update (ps_name s) (f s) out) acc xs)) = dom (map_of acc) \<union> ps_name ` set xs"
    for f :: "pool_spec \<Rightarrow> pool_size" and acc xs
    by (induction xs rule: rev_induct) (simp_all add: dom_map_of_conv_image_fst dom_update)
  then show ?thesis by (simp add: plan_sizes_def Let_def image_image)
qed

text \<open>
  C39: For pools with distinct names, the plan is sane, affordable and wastes nothing, measured on the
  plan itself.  It names exactly the pools.  Each gets a ceiling of at least one and at most its cap (or
  one), and keeps warm what its floor and its demand, rounded up, ask for, within the ceiling.  The
  footprints of all planned ceilings are within the budget, on RAM and on vCPU, except for the mandatory
  one slot per pool; and a pool below its cap cannot be given one more slot within the budget.
\<close>

theorem plan_sane_and_maximal:
  assumes "unique specs" and "plan_sizes specs b = plan"
  shows "dom (map_of plan) = ps_name ` set specs
    \<and> takes slot_ram specs plan \<le> max (nb_ram b) (\<Sum>s \<leftarrow> specs. slot_ram s)
    \<and> takes slot_vcpus specs plan \<le> max (nb_vcpus b) (\<Sum>s \<leftarrow> specs. slot_vcpus s)
    \<and> (\<forall>s \<in> set specs. 1 \<le> planned plan s \<and> planned plan s \<le> max 1 (ps_max_ceiling s)
         \<and> sz_warm (the (map_of plan (ps_name s))) = max 0 (min (planned plan s) (max (ps_min_warm s) \<lceil>ps_demand s\<rceil>))
         \<and> (planned plan s < ps_max_ceiling s \<longrightarrow>
              nb_ram b < takes slot_ram specs plan + slot_ram s
              \<or> nb_vcpus b < takes slot_vcpus specs plan + slot_vcpus s))"
proof -
  let ?cs = "map clamp_spec specs"
  note uses = plan_uses [OF assms(1), of b, unfolded assms(2)]
  have look: "planned plan s = fl_alloc (plan_state specs b) (ps_name s)"
    "sz_warm (the (map_of plan (ps_name s))) = max 0 (min (planned plan s) (max (ps_min_warm s) \<lceil>ps_demand s\<rceil>))"
    if "s \<in> set specs" for s
    using plan_lookup [OF assms(1) that, of b] assms(2) by (auto simp: planned_def size_of_def Let_def)
  have "below b ps_max_ceiling ?cs (plan_state specs b) = []"
    unfolding allocate_def by (rule fill_loop_maximal)
  then have full: "nb_ram b < takes slot_ram specs plan + slot_ram s \<or> nb_vcpus b < takes slot_vcpus specs plan + slot_vcpus s"
    if "s \<in> set specs" "planned plan s < ps_max_ceiling s" for s
    using that look(1) uses by (fastforce simp: below_def filter_empty_conv budget_has_room_def)
  have upper: "planned plan s \<le> max 1 (ps_max_ceiling s)" if "s \<in> set specs" for s
    using allocate_upper [of ?cs "clamp_spec s" b] that look(1) assms(1) by simp
  have lower: "1 \<le> planned plan s" if "s \<in> set specs" for s
    using allocate_lower [of b ?cs "ps_name s"] look(1) [OF that] by simp
  have budget: "takes slot_ram specs plan \<le> max (nb_ram b) (\<Sum>s \<leftarrow> specs. slot_ram s)"
    "takes slot_vcpus specs plan \<le> max (nb_vcpus b) (\<Sum>s \<leftarrow> specs. slot_vcpus s)"
    using allocate_budget [of b ?cs] uses by (simp_all add: comp_def)
  show ?thesis using plan_names [of specs b] assms(2) budget full upper lower look(2) by blast
qed

theorem plan_sane_and_maximal_witness:
  "takes slot_ram demo_pools (plan_sizes demo_pools demo_budget) \<le> 10
   \<and> planned (plan_sizes demo_pools demo_budget) (demo_pool ''clippy'' 0 1 2) \<le> 4"
proof -
  have "max (nb_ram demo_budget) (\<Sum>s \<leftarrow> demo_pools. slot_ram s) = 10"
    by (simp add: demo_budget_def demo_pools_def demo_pool_def slot_ram_def)
  moreover have "demo_pool ''clippy'' 0 1 2 \<in> set demo_pools" "max 1 (ps_max_ceiling (demo_pool ''clippy'' 0 1 2)) = 4"
    by (simp_all add: demo_pools_def demo_pool_def)
  ultimately show ?thesis using plan_sane_and_maximal [OF demo_unique refl, of demo_budget] by metis
qed

definition guaranteed :: "pool_spec \<Rightarrow> int" where
  "guaranteed s = max 1 (max (reserved_target s) (floor_target s))"

lemma allocate_guaranteed:
  assumes u: "unique specs" and pos: "positive specs" and fit: "affordable b specs guaranteed"
    and s: "s \<in> set specs"
  shows "max (reserved_target s) (floor_target s) \<le> fl_alloc (allocate b specs) (ps_name s)"
proof -
  let ?r = "fill_loop b reserved_target reserved_key specs (baseline specs)"
  let ?f = "fill_loop b floor_target floor_key specs ?r"
  have r: "reserved_target s \<le> fl_alloc ?r (ps_name s)"
    by (rule fill_loop_reaches [OF u pos accounted_baseline _ _ fit s])
       (auto simp: guaranteed_def)
  have up: "\<forall>x \<in> set specs. fl_alloc ?r (ps_name x) \<le> guaranteed x"
    using fill_loop_upper [OF u, of _ b reserved_target reserved_key "baseline specs"]
    by (fastforce simp: guaranteed_def)
  have f: "floor_target s \<le> fl_alloc ?f (ps_name s)"
    by (rule fill_loop_reaches [OF u pos accounted_fill [OF u accounted_baseline] up _ fit s])
       (auto simp: guaranteed_def)
  have "fl_alloc ?r (ps_name s) \<le> fl_alloc ?f (ps_name s)"
    "fl_alloc ?f (ps_name s) \<le> fl_alloc (allocate b specs) (ps_name s)"
    unfolding allocate_def by (rule fill_loop_grows)+
  with r f show ?thesis by linarith
qed

lemma unseatable_none:
  assumes "\<And>s z. s \<in> set specs \<Longrightarrow> map_of (plan_sizes specs b) (ps_name s) = Some z \<Longrightarrow>
             \<not> (0 < floor_target s \<and> sz_warm z < floor_target s)"
  shows "unseatable_floors specs b = []"
proof -
  have "foldl (\<lambda>out s. let wanted = floor_target s in case map_of (plan_sizes specs b) (ps_name s) of
          None \<Rightarrow> out | Some z \<Rightarrow> if 0 < wanted \<and> sz_warm z < wanted
             then AList.update (ps_name s) (sz_warm z, wanted) out else out) [] xs = []"
    if "set xs \<subseteq> set specs" for xs
    using that
  proof (induction xs rule: rev_induct)
    case (snoc s xs)
    then show ?case using assms [of s] by (auto simp: Let_def split: option.splits)
  qed simp
  then show ?thesis by (simp add: unseatable_floors_def Let_def)
qed

text \<open>
  reservations and warm floors are honoured whenever they fit.  If one slot per pool,
  every pool's in-use slots and every pool's warm floor, each capped by the pool's ceiling,
  fit the budget together, then every pool's planned ceiling covers its in-use slots, its warm
  target covers its floor, and unseatable_floors reports nothing.
\<close>

theorem plan_honours_floors:
  assumes "unique specs" and "affordable b (map clamp_spec specs) guaranteed"
  shows "(\<forall>s \<in> set specs. case map_of (plan_sizes specs b) (ps_name s) of
            None \<Rightarrow> False
          | Some z \<Rightarrow> min (ps_reserved s) (ps_max_ceiling s) \<le> sz_ceiling z
              \<and> min (ps_min_warm s) (ps_max_ceiling s) \<le> sz_warm z)
       \<and> unseatable_floors specs b = []"
proof -
  have u: "unique (map clamp_spec specs)" using assms(1) by simp
  have each: "case map_of (plan_sizes specs b) (ps_name s) of
            None \<Rightarrow> False
          | Some z \<Rightarrow> min (ps_reserved s) (ps_max_ceiling s) \<le> sz_ceiling z
              \<and> min (ps_min_warm s) (ps_max_ceiling s) \<le> sz_warm z" if s: "s \<in> set specs" for s
  proof -
    have "clamp_spec s \<in> set (map clamp_spec specs)" using s by simp
    from allocate_guaranteed [OF u clamp_positive assms(2) this]
    have "min (ps_reserved s) (ps_max_ceiling s) \<le> fl_alloc (plan_state specs b) (ps_name s)"
      "min (ps_min_warm s) (ps_max_ceiling s) \<le> fl_alloc (plan_state specs b) (ps_name s)"
      by (simp_all add: reserved_target_def floor_target_def)
    then show ?thesis using plan_lookup [OF assms(1) s] by (auto simp: size_of_def Let_def)
  qed
  have "unseatable_floors specs b = []"
  proof (rule unseatable_none)
    fix s z
    assume "s \<in> set specs" "map_of (plan_sizes specs b) (ps_name s) = Some z"
    with each [of s] show "\<not> (0 < floor_target s \<and> sz_warm z < floor_target s)"
      by (auto simp: floor_target_def)
  qed
  with each show ?thesis by blast
qed

theorem plan_honours_floors_witness:
  "unseatable_floors demo_pools demo_budget = []"
proof -
  have "affordable demo_budget (map clamp_spec demo_pools) guaranteed"
    by (simp add: affordable_def demo_pools_def demo_pool_def clamp_spec_def guaranteed_def
        reserved_target_def floor_target_def demo_budget_def)
  from plan_honours_floors [OF demo_unique this] show ?thesis by blast
qed

end
