(* ===== verification/Placement.thy ===== *)
theory Placement
  imports Blastbox_Prelude "HOL-Library.Multiset"
begin

text \<open>
  \<^verbatim>\<open>host/placement.py\<close> with the grants and records it reads (\<^verbatim>\<open>host/pki.py\<close>,
  \<^verbatim>\<open>host/node_registry.py\<close>): what a node's certificate permits, the merge of disagreeing
  certificates, the eligible set and its order, and the self-check every dispatcher runs.
  Certificate verification is a parameter; so are the environment and the egress tier's file.
\<close>

section \<open>Grants, claims, records\<close>

record node_grants =
  g_engines :: "string list"
  g_tiers :: "string list"
  g_credentials :: bool

definition allows_engine :: "node_grants \<Rightarrow> string \<Rightarrow> bool" where
  "allows_engine g e \<longleftrightarrow> e \<in> set (g_engines g)"

definition allows_tier :: "node_grants \<Rightarrow> string \<Rightarrow> bool" where
  "allows_tier g t \<longleftrightarrow> t \<in> set (g_tiers g)"

record node_claims =
  c_engines :: "string list"
  c_slots :: int
  c_free_ram_mib :: int
  c_backlog :: int

record node_record =
  nr_id :: string
  nr_claims :: node_claims

record candidate =
  cand_id :: string
  cand_record :: node_record
  cand_grants :: node_grants

definition free_slots :: "candidate \<Rightarrow> int" where
  "free_slots c = max 0 (c_slots (nr_claims (cand_record c)))"

definition cand_backlog :: "candidate \<Rightarrow> int" where
  "cand_backlog c = max 0 (c_backlog (nr_claims (cand_record c)))"

section \<open>The predicate\<close>

datatype refusal_reason = NoCertificate | EngineNotGranted | TierNotGranted | NeedsCredentials | UnreadableTier

definition refusal :: "node_grants option \<Rightarrow> string \<Rightarrow> string option \<Rightarrow> bool \<Rightarrow> refusal_reason option" where
  "refusal grants eng tier require_credentials =
     (case grants of
        None \<Rightarrow> Some NoCertificate
      | Some g \<Rightarrow>
          if \<not> allows_engine g eng then Some EngineNotGranted
          else if (case tier of None \<Rightarrow> False | Some t \<Rightarrow> \<not> allows_tier g t) then Some TierNotGranted
          else if require_credentials \<and> \<not> g_credentials g then Some NeedsCredentials
          else None)"

definition permits :: "node_grants \<Rightarrow> string \<Rightarrow> string option \<Rightarrow> bool \<Rightarrow> bool" where
  "permits g eng tier cred \<longleftrightarrow>
     eng \<in> set (g_engines g) \<and> (\<forall>t. tier = Some t \<longrightarrow> t \<in> set (g_tiers g)) \<and> (cred \<longrightarrow> g_credentials g)"

lemma refusal_None: "refusal gr eng tier cred = None \<longleftrightarrow> (\<exists>g. gr = Some g \<and> permits g eng tier cred)"
  by (auto simp: refusal_def permits_def allows_engine_def allows_tier_def split: option.splits)

section \<open>Certificates on disk\<close>

text \<open>
  \<open>identity\<close> is \<open>node_identity\<close> under this host's trust anchor, \<^const>\<open>None\<close> when it raises.
  Files are visited in the order of their names; an unreadable one is skipped.
\<close>

definition sorted_inter :: "string list \<Rightarrow> string list \<Rightarrow> string list" where
  "sorted_inter xs ys = sort (remdups (filter (\<lambda>x. x \<in> set ys) xs))"

definition merge_grants :: "node_grants \<Rightarrow> node_grants \<Rightarrow> node_grants" where
  "merge_grants p g = \<lparr>g_engines = sorted_inter (g_engines p) (g_engines g),
                       g_tiers = sorted_inter (g_tiers p) (g_tiers g),
                       g_credentials = (g_credentials p \<and> g_credentials g)\<rparr>"

type_synonym grant_map = "(string \<times> node_grants) list"

definition add_cert :: "(string \<Rightarrow> (string \<times> node_grants) option) \<Rightarrow> string option \<Rightarrow> grant_map \<Rightarrow> grant_map" where
  "add_cert identity bytes out =
     (case bytes of
        None \<Rightarrow> out
      | Some raw \<Rightarrow>
          (case identity raw of
             None \<Rightarrow> out
           | Some (nid, g) \<Rightarrow>
               (case map_of out nid of
                  None \<Rightarrow> AList.update nid g out
                | Some prior \<Rightarrow> AList.update nid (if prior \<noteq> g then merge_grants prior g else g) out)))"

definition fleet_grants ::
  "bool \<Rightarrow> (string \<Rightarrow> (string \<times> node_grants) option) \<Rightarrow> (string \<times> string option) list \<Rightarrow> grant_map" where
  "fleet_grants ca_loads identity files =
     (if \<not> ca_loads then []
      else fold (\<lambda>(name, bytes) out. add_cert identity bytes out) (sort_key fst files) [])"

section \<open>The fleet view\<close>

definition eligible ::
  "node_record list \<Rightarrow> grant_map \<Rightarrow> string \<Rightarrow> string option \<Rightarrow> bool \<Rightarrow> candidate list" where
  "eligible view grants eng tier cred =
     sort_key cand_id
       (concat (map (\<lambda>r. case map_of grants (nr_id r) of
           None \<Rightarrow> []
         | Some g \<Rightarrow> if refusal (Some g) eng tier cred = None
                     then [\<lparr>cand_id = nr_id r, cand_record = r, cand_grants = g\<rparr>] else []) view))"

definition rank_key :: "candidate \<Rightarrow> int \<times> int \<times> string" where
  "rank_key c = (cand_backlog c, - free_slots c, cand_id c)"

definition rank :: "candidate list \<Rightarrow> candidate list" where
  "rank cs = sort_key rank_key cs"

definition unverified_nodes :: "node_record list \<Rightarrow> grant_map \<Rightarrow> string list" where
  "unverified_nodes view grants = sort (map nr_id (filter (\<lambda>r. map_of grants (nr_id r) = None) view))"

definition over_claiming_nodes :: "node_record list \<Rightarrow> grant_map \<Rightarrow> (string \<times> string list) list" where
  "over_claiming_nodes view grants =
     sort (concat (map (\<lambda>r. case map_of grants (nr_id r) of
         None \<Rightarrow> []
       | Some g \<Rightarrow>
           (let extra = sort (filter (\<lambda>e. \<not> allows_engine g e) (c_engines (nr_claims r)))
            in if extra = [] then [] else [(nr_id r, extra)])) view))"

section \<open>The self-check\<close>

definition UNGOVERNED_TIERS :: "string list" where "UNGOVERNED_TIERS = [''none'', ''drop'']"
definition ALWAYS_CREDENTIALED :: "string list" where "ALWAYS_CREDENTIALED = [''socks'', ''httpproxy'']"
definition CREDENTIALED_IN_LOCAL_MODE :: "string list" where
  "CREDENTIALED_IN_LOCAL_MODE = [''openvpn'', ''wireguard'']"

definition WARN_CAP :: nat where "WARN_CAP = 64"
definition CERT_ENV :: string where "CERT_ENV = ''BLASTBOX_NODE_CERT''"
definition GATE_ENV :: string where "GATE_ENV = ''BLASTBOX_NODE_GRANTS_GATE''"
definition PKI_ENV :: string where "PKI_ENV = ''BLASTBOX_PKI_DIR''"
definition LEGACY_ID_ENV :: string where "LEGACY_ID_ENV = ''BLASTBOX_NODE_ID''"

text \<open>
  A warning's arguments; an exception is compared by identity, so each one raised is a new
  value.  The log records the keys of the warnings emitted.
\<close>

datatype warn_arg = WStr string | WExc nat

record self_grants =
  sg_node_id :: string
  sg_warned :: "(string \<times> warn_arg list) list"
  sg_log :: "string list"

definition sg_init :: self_grants where
  "sg_init = \<lparr>sg_node_id = [], sg_warned = [], sg_log = []\<rparr>"

definition warn_once :: "string \<Rightarrow> warn_arg list \<Rightarrow> self_grants \<Rightarrow> self_grants" where
  "warn_once key args sg =
     (let stamp = (key, take 2 args)
      in if stamp \<in> set (sg_warned sg) then sg
         else if WARN_CAP \<le> length (sg_warned sg) then
           (if (''__capped__'', []) \<in> set (sg_warned sg) then sg
            else sg\<lparr>sg_warned := (''__capped__'', []) # sg_warned sg, sg_log := ''__capped__'' # sg_log sg\<rparr>)
         else sg\<lparr>sg_warned := stamp # sg_warned sg, sg_log := key # sg_log sg\<rparr>)"

text \<open>
  What the check reads: the environment; whether a legacy certificate file exists; the
  verification of a certificate file under a PKI directory, where \<open>Inl\<close> is the exception
  raised; whether the egress file exists (\<^const>\<open>None\<close>: an \<open>OSError\<close>) and the mode it declares.
\<close>

record sg_world =
  w_env :: "string \<Rightarrow> string option"
  w_legacy :: "string \<Rightarrow> string \<Rightarrow> bool"
  w_verify :: "string \<Rightarrow> string \<Rightarrow> nat + (string \<times> node_grants)"
  w_egress_file :: "bool option"
  w_egress_mode :: "string option"

definition pki_dir :: "sg_world \<Rightarrow> string" where
  "pki_dir w = (case w_env w PKI_ENV of None \<Rightarrow> ''/var/lib/blastbox/pki'' | Some d \<Rightarrow> d)"

definition warn_if_legacy_arming :: "sg_world \<Rightarrow> self_grants \<Rightarrow> self_grants" where
  "warn_if_legacy_arming w sg =
     (let node_id = py_strip (case w_env w LEGACY_ID_ENV of None \<Rightarrow> [] | Some s \<Rightarrow> s)
      in if node_id = [] then sg
         else if w_legacy w (pki_dir w) node_id
         then warn_once ''legacy-arming'' [WStr LEGACY_ID_ENV, WStr node_id, WStr (pki_dir w)] sg
         else sg)"

definition cert_path :: "sg_world \<Rightarrow> self_grants \<Rightarrow> string option \<times> self_grants" where
  "cert_path w sg =
     (case w_env w CERT_ENV of
        None \<Rightarrow> (None, warn_if_legacy_arming w sg)
      | Some s \<Rightarrow> (Some (if py_strip s \<noteq> [] then py_strip s else ''<BLASTBOX_NODE_CERT is set but empty>''), sg))"

datatype gate_force = GOn | GOff | GUnset

definition gate_forced :: "sg_world \<Rightarrow> self_grants \<Rightarrow> gate_force \<times> self_grants" where
  "gate_forced w sg =
     (let raw = py_strip (case w_env w GATE_ENV of None \<Rightarrow> [] | Some s \<Rightarrow> s)
      in if raw = [] then (GUnset, sg)
         else if py_lower raw \<in> {''0'', ''false'', ''no'', ''off''} then (GOff, sg)
         else if py_lower raw \<notin> {''1'', ''true'', ''yes'', ''on''}
         then (GOn, warn_once ''gate-value'' [WStr GATE_ENV, WStr raw] sg)
         else (GOn, sg))"

datatype gate_answer = NoGate | NothingGranted | Grants node_grants

definition self_grants_of :: "sg_world \<Rightarrow> self_grants \<Rightarrow> gate_answer \<times> self_grants" where
  "self_grants_of w sg =
     (case gate_forced w sg of (forced, sg1) \<Rightarrow>
        if forced = GOff then (NoGate, sg1)
        else case cert_path w sg1 of (path, sg2) \<Rightarrow>
          (case path of
             None \<Rightarrow>
               if forced = GOn
               then (NothingGranted, warn_once ''forced-no-cert'' [WStr GATE_ENV, WStr CERT_ENV] sg2)
               else (NoGate, sg2)
           | Some p \<Rightarrow>
               (case w_verify w (pki_dir w) p of
                  Inl exc \<Rightarrow>
                    (NothingGranted, (warn_once ''verify-failed'' [WStr p, WExc exc] sg2)\<lparr>sg_node_id := []\<rparr>)
                | Inr (nid, g) \<Rightarrow> (Grants g, sg2\<lparr>sg_node_id := nid\<rparr>))))"

definition egress_mode :: "sg_world \<Rightarrow> self_grants \<Rightarrow> string \<times> self_grants" where
  "egress_mode w sg =
     (if w_egress_file w = Some False then ([], sg)
      else case w_egress_mode w of
        None \<Rightarrow> (''local'', warn_once ''egress-mode'' [WStr ''ENV_FILE''] sg)
      | Some mode \<Rightarrow> if mode = [] then (''local'', warn_once ''egress-mode'' [WStr ''ENV_FILE''] sg) else (mode, sg))"

definition holds_credentials :: "sg_world \<Rightarrow> string \<Rightarrow> self_grants \<Rightarrow> bool \<times> self_grants" where
  "holds_credentials w driver sg =
     (if driver \<in> set ALWAYS_CREDENTIALED then (True, sg)
      else if driver \<in> set CREDENTIALED_IN_LOCAL_MODE
      then (case egress_mode w sg of (m, sg') \<Rightarrow> (m = ''local'', sg'))
      else (False, sg))"

text \<open>\<open>refuse\<close>; the personality is its \<open>exit_driver\<close>, \<^const>\<open>None\<close> when it cannot be read.\<close>

definition refuse ::
  "sg_world \<Rightarrow> string \<Rightarrow> string option \<Rightarrow> self_grants \<Rightarrow> refusal_reason option \<times> self_grants" where
  "refuse w eng exit_driver sg =
     (case self_grants_of w sg of (answer, sg1) \<Rightarrow>
        if answer = NoGate then (None, sg1)
        else let driver = (case exit_driver of None \<Rightarrow> [] | Some d \<Rightarrow> d)
             in if driver = [] then (Some UnreadableTier, sg1)
                else case holds_credentials w driver sg1 of (cred, sg2) \<Rightarrow>
                  (refusal (case answer of Grants g \<Rightarrow> Some g | _ \<Rightarrow> None) eng
                     (if driver \<in> set UNGOVERNED_TIERS then None else Some driver) cred, sg2))"

section \<open>Sorting lemmas\<close>

lemma sort_key_agree:
  assumes "mset xs = mset ys" "inj_on k (set xs)"
  shows "sort_key k xs = sort_key k ys"
proof (rule properties_for_sort_key)
  show "mset (sort_key k ys) = mset xs" using assms(1) by simp
  show "sorted (map k (sort_key k ys))" by simp
  fix x assume x: "x \<in> set (sort_key k ys)"
  have eq: "filter (\<lambda>y. k x = k y) zs = filter (\<lambda>y. y = x) zs" if "set zs = set xs" for zs
    using assms x that mset_eq_setD [OF assms(1)] by (intro filter_cong) (auto dest: inj_onD)
  have "filter (\<lambda>y. y = x) zs = replicate (count_list zs x) x" for zs
    by (induction zs) auto
  then show "filter (\<lambda>y. k x = k y) (sort_key k ys) = filter (\<lambda>y. k x = k y) xs"
    using mset_eq_setD [OF assms(1)] assms(1) by (simp add: eq count_mset [symmetric])
qed

section \<open>The merge of certificates\<close>

definition certs_for ::
  "(string \<Rightarrow> (string \<times> node_grants) option) \<Rightarrow> (string \<times> string option) list \<Rightarrow> string \<Rightarrow> node_grants set" where
  "certs_for identity files nid = {g. \<exists>name raw. (name, Some raw) \<in> set files \<and> identity raw = Some (nid, g)}"

definition meets :: "node_grants \<Rightarrow> node_grants set \<Rightarrow> bool" where
  "meets g cs \<longleftrightarrow> (\<forall>e. allows_engine g e \<longleftrightarrow> (\<forall>c \<in> cs. allows_engine c e))
     \<and> (\<forall>t. allows_tier g t \<longleftrightarrow> (\<forall>c \<in> cs. allows_tier c t))
     \<and> (g_credentials g \<longleftrightarrow> (\<forall>c \<in> cs. g_credentials c))"

definition merged :: "node_grants option \<Rightarrow> node_grants set \<Rightarrow> bool" where
  "merged gr cs \<longleftrightarrow> (case gr of None \<Rightarrow> cs = {} | Some g \<Rightarrow> cs \<noteq> {} \<and> meets g cs)"

lemma meets_merge: "meets p cs \<Longrightarrow> meets (merge_grants p g) (insert g cs)"
  by (auto simp: meets_def merge_grants_def sorted_inter_def allows_engine_def allows_tier_def)

lemma meets_same: "meets g cs \<Longrightarrow> meets g (insert g cs)"
  by (auto simp: meets_def)

lemma meets_single: "meets g {g}"
  by (simp add: meets_def)

lemma certs_for_snoc:
  "certs_for identity (fs @ [(name, bytes)]) nid =
     (case bytes of None \<Rightarrow> certs_for identity fs nid
      | Some raw \<Rightarrow> (case identity raw of
            Some (i, g) \<Rightarrow> if i = nid then insert g (certs_for identity fs nid) else certs_for identity fs nid
          | None \<Rightarrow> certs_for identity fs nid))"
  by (auto simp: certs_for_def split: option.splits)

lemma add_cert_merged:
  assumes "merged (map_of out nid) (certs_for identity fs nid)"
  shows "merged (map_of (add_cert identity bytes out) nid) (certs_for identity (fs @ [(name, bytes)]) nid)"
proof (cases "\<exists>raw g. bytes = Some raw \<and> identity raw = Some (nid, g)")
  case True
  then obtain raw g where r: "bytes = Some raw" "identity raw = Some (nid, g)" by blast
  show ?thesis
  proof (cases "map_of out nid")
    case None
    with assms r show ?thesis by (simp add: merged_def certs_for_snoc add_cert_def meets_single)
  next
    case (Some p)
    with assms r show ?thesis
      by (auto simp: merged_def certs_for_snoc add_cert_def intro: meets_merge meets_same)
  qed
next
  case False
  then show ?thesis
    using assms
    by (auto simp: certs_for_snoc add_cert_def map_of_update_other split: option.splits)
qed

lemma fleet_fold_merged:
  "merged (map_of (fold (\<lambda>(name, bytes) out. add_cert identity bytes out) fs []) nid) (certs_for identity fs nid)"
proof (induction fs rule: rev_induct)
  case Nil
  then show ?case by (simp add: merged_def certs_for_def)
next
  case (snoc f fs)
  then show ?case by (cases f) (simp add: add_cert_merged)
qed

section \<open>Bounded warnings\<close>

definition warn_ok :: "self_grants \<Rightarrow> bool" where
  "warn_ok sg \<longleftrightarrow> length (sg_warned sg) = length (sg_log sg)
     \<and> (if (''__capped__'', []) \<in> set (sg_warned sg) then length (sg_warned sg) \<le> Suc WARN_CAP
        else length (sg_warned sg) \<le> WARN_CAP)"

lemma warn_once_ok: "warn_ok sg \<Longrightarrow> args \<noteq> [] \<Longrightarrow> warn_ok (warn_once k args sg)"
  by (auto simp: warn_ok_def warn_once_def Let_def)

lemma warn_once_id [simp]: "sg_node_id (warn_once k args sg) = sg_node_id sg"
  by (simp add: warn_once_def Let_def)

lemma warn_ok_id [simp]: "warn_ok (sg\<lparr>sg_node_id := i\<rparr>) = warn_ok sg"
  by (simp add: warn_ok_def)

lemma warn_ok_gate: "warn_ok sg \<Longrightarrow> warn_ok (snd (gate_forced w sg))"
  by (simp add: gate_forced_def Let_def warn_once_ok)

lemma warn_ok_cert: "warn_ok sg \<Longrightarrow> warn_ok (snd (cert_path w sg))"
  by (simp add: cert_path_def warn_if_legacy_arming_def Let_def warn_once_ok split: option.splits)

lemma warn_ok_grants: "warn_ok sg \<Longrightarrow> warn_ok (snd (self_grants_of w sg))"
  using warn_ok_gate [of sg w] warn_ok_cert [of "snd (gate_forced w sg)" w]
  by (auto simp: self_grants_of_def warn_once_ok split: prod.splits option.splits sum.splits)

lemma warn_ok_holds: "warn_ok sg \<Longrightarrow> warn_ok (snd (holds_credentials w d sg))"
  by (auto simp: holds_credentials_def egress_mode_def warn_once_ok split: option.splits)

lemma warn_ok_refuse: "warn_ok sg \<Longrightarrow> warn_ok (snd (refuse w eng drv sg))"
  using warn_ok_grants [of sg w] warn_ok_holds [of "snd (self_grants_of w sg)" w]
  by (simp add: refuse_def Let_def split_beta)

section \<open>Properties\<close>

text \<open>
  the grants of a fleet are the intersection of the verifiable certificates.  Whatever
  the number and file-system order of the certificate files, a node id has grants exactly when
  some readable certificate verifies for it, and an engine, a tier or credentials are granted
  exactly when every such certificate grants them.
\<close>

theorem fleet_grants_intersection:
  "merged (map_of (fleet_grants ca identity files) nid) (if ca then certs_for identity files nid else {})"
proof (cases ca)
  case True
  have "certs_for identity (sort_key fst files) nid = certs_for identity files nid"
    by (simp add: certs_for_def)
  with True show ?thesis using fleet_fold_merged [of identity "sort_key fst files" nid]
    by (simp add: fleet_grants_def)
next
  case False
  then show ?thesis by (simp add: fleet_grants_def merged_def)
qed

text \<open>
  eligibility reads certificates, never claims.  The node ids eligible for a job are,
  sorted, those of the view whose grants permit the engine, the tier and the credentials; what
  the nodes claim about themselves and the order of the view do not enter.
\<close>

theorem eligible_by_grants:
  "map cand_id (eligible view grants eng tier cred) =
     sort (filter (\<lambda>i. \<exists>g. map_of grants i = Some g \<and> permits g eng tier cred) (map nr_id view))"
proof -
  have key: "map cand_id (sort_key cand_id cs) = sort (map cand_id cs)" for cs
    by (rule properties_for_sort [symmetric]) simp_all
  have "map cand_id (concat (map (\<lambda>r. case map_of grants (nr_id r) of
           None \<Rightarrow> []
         | Some g \<Rightarrow> if refusal (Some g) eng tier cred = None
                     then [\<lparr>cand_id = nr_id r, cand_record = r, cand_grants = g\<rparr>] else []) view)) =
      filter (\<lambda>i. \<exists>g. map_of grants i = Some g \<and> permits g eng tier cred) (map nr_id view)"
    by (induction view) (auto simp: refusal_None split: option.splits)
  then show ?thesis unfolding eligible_def key by simp
qed

text \<open>
  every dispatcher ranks alike.  Two dispatchers that hold the same candidates, in any
  order, with distinct node ids, compute the same ranking, which is a permutation of them
  ordered by backlog, then free slots, then node id.
\<close>

theorem rank_deterministic:
  assumes "mset cs1 = mset cs2" and "distinct (map cand_id cs1)"
  shows "rank cs1 = rank cs2 \<and> mset (rank cs1) = mset cs1 \<and> sorted (map rank_key (rank cs1))"
proof -
  have "inj_on rank_key (set cs1)"
    using assms(2) by (auto simp: inj_on_def rank_key_def distinct_map)
  then show ?thesis using sort_key_agree [OF assms(1), of rank_key] assms(1) by (auto simp: rank_def)
qed

definition demo_cand :: "string \<Rightarrow> int \<Rightarrow> candidate" where
  "demo_cand i b = \<lparr>cand_id = i, cand_record = \<lparr>nr_id = i, nr_claims = \<lparr>c_engines = [], c_slots = 2,
     c_free_ram_mib = 0, c_backlog = b\<rparr>\<rparr>, cand_grants = \<lparr>g_engines = [''boxjs''], g_tiers = [], g_credentials = False\<rparr>\<rparr>"

theorem rank_deterministic_witness:
  "rank [demo_cand ''a'' 5, demo_cand ''b'' 1] = rank [demo_cand ''b'' 1, demo_cand ''a'' 5]"
  using rank_deterministic [of "[demo_cand ''a'' 5, demo_cand ''b'' 1]" "[demo_cand ''b'' 1, demo_cand ''a'' 5]"]
  by (simp add: demo_cand_def add_mset_commute)

definition needs_credentials :: "sg_world \<Rightarrow> string \<Rightarrow> bool" where
  "needs_credentials w d \<longleftrightarrow> d \<in> set ALWAYS_CREDENTIALED
     \<or> (d \<in> set CREDENTIALED_IN_LOCAL_MODE \<and> w_egress_file w \<noteq> Some False
        \<and> w_egress_mode w \<in> {None, Some [], Some ''local''})"

lemma holds_credentials_fst: "fst (holds_credentials w d sg) = needs_credentials w d"
  by (auto simp: holds_credentials_def needs_credentials_def egress_mode_def split: option.splits)

definition configured_path :: "string \<Rightarrow> string" where
  "configured_path p =
     (if py_strip p \<noteq> [] then py_strip p else ''<BLASTBOX_NODE_CERT is set but empty>'')"

text \<open>
  C40: Where the grants gate is in force, the self-check fails closed.  Suppose the operator did not
  force the gate off, and a certificate variable is set or the gate is forced on.  If a job is let
  through, then a certificate variable is set, the certificate it names verified in this very call
  against the directory of the platform's keys, and it grants the engine, grants the job's exit driver
  unless that is none or drop, and grants credentials when the driver is socks or httpproxy, or openvpn
  or wireguard on a node whose egress mode is local or cannot be read; and the driver was readable.
\<close>

theorem self_check_sound:
  assumes "fst (refuse w eng drv sg) = None"
    and "fst (gate_forced w sg) \<noteq> GOff" "w_env w CERT_ENV \<noteq> None \<or> fst (gate_forced w sg) = GOn"
  shows "\<exists>p nid g d. w_env w CERT_ENV = Some p \<and> drv = Some d \<and> d \<noteq> []
           \<and> w_verify w (pki_dir w) (configured_path p) = Inr (nid, g)
           \<and> eng \<in> set (g_engines g)
           \<and> (d \<notin> {''none'', ''drop''} \<longrightarrow> d \<in> set (g_tiers g))
           \<and> (d \<in> {''socks'', ''httpproxy''}
              \<or> d \<in> {''openvpn'', ''wireguard''} \<and> w_egress_file w \<noteq> Some False
                \<and> w_egress_mode w \<in> {None, Some [], Some ''local''}
              \<longrightarrow> g_credentials g)"
proof -
  obtain answer sg1 where sg: "self_grants_of w sg = (answer, sg1)" by (cases "self_grants_of w sg")
  have gate: "answer \<noteq> NoGate"
    using sg assms(2,3)
    by (auto simp: self_grants_of_def cert_path_def split: prod.splits option.splits sum.splits if_splits)
  let ?d = "case drv of None \<Rightarrow> [] | Some d \<Rightarrow> d"
  obtain cred sg2 where hc: "holds_credentials w ?d sg1 = (cred, sg2)" by (cases "holds_credentials w ?d sg1")
  then have cred: "cred = needs_credentials w ?d" using holds_credentials_fst by (metis fst_conv)
  have "?d \<noteq> []" using assms(1) sg gate by (auto simp: refuse_def Let_def)
  then obtain d where d: "drv = Some d" "d \<noteq> []" by (cases drv) auto
  have "refusal (case answer of Grants g \<Rightarrow> Some g | _ \<Rightarrow> None) eng
      (if d \<in> set UNGOVERNED_TIERS then None else Some d) (needs_credentials w d) = None"
    using assms(1) sg gate d hc cred by (simp add: refuse_def Let_def)
  then obtain g where g: "answer = Grants g"
    "permits g eng (if d \<in> set UNGOVERNED_TIERS then None else Some d) (needs_credentials w d)"
    by (auto simp: refusal_None split: gate_answer.splits)
  have "\<exists>p nid. w_env w CERT_ENV = Some p \<and> w_verify w (pki_dir w) (configured_path p) = Inr (nid, g)"
    using sg g(1)
    by (auto simp: self_grants_of_def cert_path_def configured_path_def
        split: prod.splits option.splits sum.splits if_splits)
  then show ?thesis
    using g(2) d
    by (auto simp: permits_def UNGOVERNED_TIERS_def needs_credentials_def ALWAYS_CREDENTIALED_def
        CREDENTIALED_IN_LOCAL_MODE_def split: if_splits)
qed

definition demo_world :: sg_world where
  "demo_world = \<lparr>w_env = [CERT_ENV \<mapsto> ''/etc/node.crt''], w_legacy = (\<lambda>_ _. False),
     w_verify = (\<lambda>_ _. Inr (''n1'', \<lparr>g_engines = [''boxjs''], g_tiers = [''tor''], g_credentials = False\<rparr>)),
     w_egress_file = Some False, w_egress_mode = None\<rparr>"

theorem self_check_sound_witness:
  "fst (refuse demo_world ''boxjs'' (Some ''tor'') sg_init) = None
   \<and> (\<exists>g :: node_grants. ''boxjs'' \<in> set (g_engines g) \<and> ''tor'' \<in> set (g_tiers g))"
proof -
  have n: "fst (refuse demo_world ''boxjs'' (Some ''tor'') sg_init) = None" by code_simp
  have g: "fst (gate_forced demo_world sg_init) \<noteq> GOff" by code_simp
  have c: "w_env demo_world CERT_ENV \<noteq> None \<or> fst (gate_forced demo_world sg_init) = GOn" by (simp add: demo_world_def)
  show ?thesis using self_check_sound [OF n g c] n by simp blast
qed

text \<open>
  the warnings stay bounded.  Through any sequence of self-checks from a fresh node,
  whatever the environment, certificates and exceptions are at each, the warn-once set never
  holds more than its cap plus the one suppression notice, and exactly one line is logged per
  entry.
\<close>

theorem warnings_bounded:
  "case fold (\<lambda>(w, eng, drv) sg. snd (refuse w eng drv sg)) calls sg_init of
     sg \<Rightarrow> length (sg_warned sg) \<le> Suc WARN_CAP \<and> length (sg_log sg) = length (sg_warned sg)"
proof -
  have "warn_ok (fold (\<lambda>(w, eng, drv) sg. snd (refuse w eng drv sg)) calls sg_init)"
    by (induction calls rule: rev_induct)
       (auto simp: sg_init_def warn_ok_def [of "\<lparr>sg_node_id = _, sg_warned = _, sg_log = _\<rparr>"] warn_ok_refuse split: prod.splits)
  then show ?thesis by (auto simp: warn_ok_def split: if_splits)
qed

text \<open>
  a failing certificate is reported again on every check, not once.  The key of the
  verify-failed warning takes the first two arguments, which are the path and the exception
  object itself; each failure raises a new exception, so every one of the first 64 checks of a
  node whose certificate does not verify logs the same line, and the set is then full: a later,
  different configuration warning is not reported at all.
\<close>

definition failing :: "sg_world \<Rightarrow> nat \<Rightarrow> sg_world" where
  "failing w i = w\<lparr>w_verify := (\<lambda>_ _. Inl i)\<rparr>"

definition after_failures :: "sg_world \<Rightarrow> string \<Rightarrow> nat \<Rightarrow> self_grants" where
  "after_failures w eng n = fold (\<lambda>i sg. snd (refuse (failing w i) eng (Some ''none'') sg)) [0..<n] sg_init"

lemma failing_step:
  assumes "w_env w CERT_ENV = Some p" "py_strip p \<noteq> []" "w_env w GATE_ENV = None"
  shows "snd (refuse (failing w i) eng (Some ''none'') sg) =
     (warn_once ''verify-failed'' [WStr (py_strip p), WExc i] sg)\<lparr>sg_node_id := []\<rparr>"
proof -
  have "py_strip [] = []" by (simp add: py_strip_def)
  with assms show ?thesis
    by (simp add: refuse_def self_grants_of_def gate_forced_def cert_path_def failing_def Let_def
        holds_credentials_def ALWAYS_CREDENTIALED_def CREDENTIALED_IN_LOCAL_MODE_def)
qed

lemma after_failures_state:
  assumes "w_env w CERT_ENV = Some p" "py_strip p \<noteq> []" "w_env w GATE_ENV = None"
  shows "n \<le> WARN_CAP \<Longrightarrow>
     sg_warned (after_failures w eng n) = map (\<lambda>i. (''verify-failed'', [WStr (py_strip p), WExc i])) (rev [0..<n])
     \<and> sg_log (after_failures w eng n) = replicate n ''verify-failed''"
proof (induction n)
  case 0
  then show ?case by (simp add: after_failures_def sg_init_def)
next
  case (Suc n)
  have "after_failures w eng (Suc n) =
      (warn_once ''verify-failed'' [WStr (py_strip p), WExc n] (after_failures w eng n))\<lparr>sg_node_id := []\<rparr>"
    unfolding after_failures_def by (simp add: failing_step [OF assms])
  with Suc show ?case by (auto simp: warn_once_def Let_def)
qed

theorem verify_failure_floods:
  assumes "w_env w CERT_ENV = Some p" "py_strip p \<noteq> []" "w_env w GATE_ENV = None" "n \<le> WARN_CAP"
    and "k \<noteq> ''verify-failed''" "args \<noteq> []"
  shows "sg_log (after_failures w eng n) = replicate n ''verify-failed''
       \<and> sg_log (warn_once k args (after_failures w eng WARN_CAP)) =
           ''__capped__'' # replicate WARN_CAP ''verify-failed''"
  using after_failures_state [OF assms(1-3), of n] after_failures_state [OF assms(1-3), of WARN_CAP] assms(4-6)
  by (auto simp: warn_once_def Let_def)

theorem verify_failure_floods_witness:
  "sg_log (after_failures demo_world ''boxjs'' 3) = [''verify-failed'', ''verify-failed'', ''verify-failed'']"
proof -
  have "py_strip ''/etc/node.crt'' \<noteq> []" by code_simp
  moreover have "w_env demo_world GATE_ENV = None" by (simp add: demo_world_def GATE_ENV_def CERT_ENV_def)
  moreover have "w_env demo_world CERT_ENV = Some ''/etc/node.crt''" by (simp add: demo_world_def)
  ultimately show ?thesis
    using verify_failure_floods [of demo_world "''/etc/node.crt''" 3 "''x''" "[WStr []]" "''boxjs''"]
    by (simp add: WARN_CAP_def numeral_eq_Suc)
qed

end
