(* ===== verification/Concurrency_Gate.thy ===== *)
theory Concurrency_Gate
  imports Blastbox_Prelude
begin

text \<open>
  \<^verbatim>\<open>host/concurrency_gate.py\<close>: the gate on cold admission.  Every method body runs under the
  condition's lock, so it is one step; \<open>acquire\<close> gives the lock up only inside \<open>wait\<close>, so it
  is a loop over the steps other threads take between its checks, each with the time left when
  the waiter wakes.
\<close>

record gate =
  gt_limit :: int
  gt_in_flight :: nat

definition gate_new :: "int \<Rightarrow> gate" where
  "gate_new limit = \<lparr>gt_limit = max 1 limit, gt_in_flight = 0\<rparr>"

definition set_limit :: "int \<Rightarrow> gate \<Rightarrow> gate" where
  "set_limit limit g = g\<lparr>gt_limit := max 1 limit\<rparr>"

definition release :: "gate \<Rightarrow> gate" where
  "release g = (if 0 < gt_in_flight g then g\<lparr>gt_in_flight := gt_in_flight g - 1\<rparr> else g)"

text \<open>What other threads do, and a test of the gate with no time to wait.\<close>

datatype gate_op = SetLimit int | Release | TryAcquire

definition full :: "gate \<Rightarrow> bool" where
  "full g \<longleftrightarrow> gt_limit g \<le> int (gt_in_flight g)"

definition take_permit :: "gate \<Rightarrow> gate" where
  "take_permit g = g\<lparr>gt_in_flight := Suc (gt_in_flight g)\<rparr>"

fun gate_step :: "gate_op \<Rightarrow> gate \<Rightarrow> gate" where
  "gate_step (SetLimit n) g = set_limit n g"
| "gate_step Release g = release g"
| "gate_step TryAcquire g = (if full g then g else take_permit g)"

text \<open>
  \<open>acquire\<close>: check, give up when no time remains, else wait; each element is one wait: the
  time remaining when it was entered and what the others did before the waiter ran again.
\<close>

fun acquire :: "(real \<times> gate_op list) list \<Rightarrow> gate \<Rightarrow> bool \<times> gate" where
  "acquire [] g = (if full g then (False, g) else (True, take_permit g))"
| "acquire ((remaining, others) # waits) g =
     (if \<not> full g then (True, take_permit g)
      else if remaining \<le> 0 then (False, g)
      else acquire waits (fold gate_step others g))"

section \<open>Traces\<close>

definition gate_ok :: "gate \<Rightarrow> bool" where
  "gate_ok g \<longleftrightarrow> 1 \<le> gt_limit g"

lemma gate_ok_step: "gate_ok g \<Longrightarrow> gate_ok (gate_step opn g)"
  by (cases opn) (auto simp: gate_ok_def set_limit_def release_def take_permit_def)

lemma gate_ok_fold: "gate_ok g \<Longrightarrow> gate_ok (fold gate_step ops g)"
  by (induction ops arbitrary: g) (auto simp: gate_ok_step)

text \<open>The highest limit in force while a permit could be granted.\<close>

fun peak :: "int \<Rightarrow> gate_op list \<Rightarrow> int" where
  "peak m [] = m"
| "peak m (SetLimit n # ops) = max m (peak (max 1 n) ops)"
| "peak m (_ # ops) = peak m ops"

lemma peak_ge: "m \<le> peak m ops"
proof (induction ops arbitrary: m)
  case (Cons a ops)
  then show ?case by (cases a) auto
qed simp

lemma in_flight_peak:
  "int (gt_in_flight g) \<le> bnd \<Longrightarrow> peak (gt_limit g) ops \<le> bnd \<Longrightarrow>
   int (gt_in_flight (fold gate_step ops g)) \<le> bnd"
proof (induction ops arbitrary: g)
  case (Cons a ops)
  have lim: "gt_limit g \<le> bnd" using Cons.prems(2) peak_ge order.trans by blast
  show ?case
  proof (cases a)
    case (SetLimit n)
    with Cons.prems show ?thesis by (auto simp: set_limit_def intro!: Cons.IH)
  next
    case Release
    with Cons.prems show ?thesis by (auto simp: release_def intro!: Cons.IH)
  next
    case TryAcquire
    with Cons.prems lim show ?thesis
      by (auto simp: full_def take_permit_def intro!: Cons.IH)
  qed
qed simp

section \<open>Properties\<close>

text \<open>
  the cold path is bounded.  From a fresh gate, through any interleaving of limit changes,
  releases and admissions, the number of jobs in flight never exceeds the highest limit set so
  far, and the limit is never below one, so the cold path can never be shut for good.
\<close>

theorem gate_bounds_cold_jobs:
  "int (gt_in_flight (fold gate_step ops (gate_new n))) \<le> peak (max 1 n) ops
   \<and> 1 \<le> gt_limit (fold gate_step ops (gate_new n))"
  using in_flight_peak [of "gate_new n" "peak (max 1 n) ops" ops] peak_ge [of "max 1 n" ops]
    gate_ok_fold [of "gate_new n" ops]
  by (auto simp: gate_new_def gate_ok_def)

text \<open>
  what acquire returns.  It returns True only by taking exactly one permit while the gate
  was below the limit in force at that instant, after some prefix of what the other threads did;
  when it returns False it has changed nothing itself; and with room on entry it succeeds at
  once, whatever the timeout.
\<close>

theorem acquire_correct:
  "(\<exists>k \<le> length waits. let g' = fold gate_step (concat (map snd (take k waits))) g in
      case acquire waits g of
        (True, r) \<Rightarrow> \<not> full g' \<and> r = take_permit g'
      | (False, r) \<Rightarrow> full g' \<and> r = g')
   \<and> (\<not> full g \<longrightarrow> acquire waits g = (True, take_permit g))"
proof (induction waits arbitrary: g)
  case Nil
  then show ?case by simp
next
  case (Cons w waits)
  obtain remaining others where w: "w = (remaining, others)" by (cases w)
  show ?case
  proof (cases "full g \<and> 0 < remaining")
    case False
    then show ?thesis by (intro conjI exI [of _ 0]) (auto simp: w)
  next
    case True
    from Cons.IH [of "fold gate_step others g"] obtain k where k: "k \<le> length waits"
      "let g' = fold gate_step (concat (map snd (take k waits))) (fold gate_step others g) in
       case acquire waits (fold gate_step others g) of
         (True, r) \<Rightarrow> \<not> full g' \<and> r = take_permit g' | (False, r) \<Rightarrow> full g' \<and> r = g'" by blast
    with True show ?thesis by (intro conjI exI [of _ "Suc k"]) (auto simp: w)
  qed
qed

theorem acquire_correct_witness:
  "acquire [(5, [SetLimit 3, Release])] (gate_new 1) = (True, take_permit (gate_new 1))"
  using acquire_correct [of "[(5, [SetLimit 3, Release])]" "gate_new 1"]
  by (simp add: full_def gate_new_def)

end
