(* ===== verification/Node_Share.thy ===== *)
theory Node_Share
  imports Blastbox_Prelude
begin

text \<open>
  \<^verbatim>\<open>host/node_share.py\<close>: the directory in which the dispatchers of a node publish their
  demand.  A file holds what \<open>json.loads\<close> returns for it (or fails to parse); field values
  keep their dynamic type, because the validation is about wrong types and values.  SHA-256 is
  a parameter.
\<close>

section \<open>Values and snapshots\<close>

datatype jval = VNone | VBool bool | VInt int | VFlt pyfloat | VStr string | VOther

datatype content = Unparsable | NotObject | Fields "(string \<times> jval) list"

record share_file =
  sf_content :: content
  sf_mtime :: real

type_synonym snapshot = "(string \<times> jval) list"

text \<open>The fields without a default, and the fields with theirs.\<close>

definition REQUIRED :: "string list" where
  "REQUIRED = [''engine'', ''backlog'', ''assigned'', ''slot_ram_mib'', ''slot_vcpus'', ''min_warm'',
     ''max_ceiling'', ''weight'', ''ts'']"

definition DEFAULTS :: snapshot where
  "DEFAULTS = [(''node'', VStr []), (''tier'', VStr []), (''refresh_s'', VFlt (Fin 0)),
     (''instance'', VStr []), (''balancing'', VBool False), (''stale_after_s'', VFlt (Fin 0)),
     (''budget_ram_mib'', VFlt (Fin 0)), (''budget_vcpus'', VFlt (Fin 0)),
     (''untargeted_backlog'', VInt 0), (''overflow_only'', VNone), (''lease'', VNone),
     (''running'', VNone), (''engines'', VNone), (''serving'', VNone)]"

definition known_field :: "string \<Rightarrow> bool" where
  "known_field f \<longleftrightarrow> f \<in> set REQUIRED \<or> f \<in> fst ` set DEFAULTS"

text \<open>\<open>DemandSnapshot(**known)\<close>; a missing required field is a \<open>TypeError\<close>.\<close>

definition make_snapshot :: "(string \<times> jval) list \<Rightarrow> snapshot option" where
  "make_snapshot data =
     (let known = filter (\<lambda>(k, v). known_field k) data
      in if list_all (\<lambda>f. map_of known f \<noteq> None) REQUIRED
         then Some (known @ filter (\<lambda>(k, v). map_of known k = None) DEFAULTS) else None)"

definition fld :: "snapshot \<Rightarrow> string \<Rightarrow> jval" where
  "fld s f = (case map_of s f of None \<Rightarrow> VNone | Some v \<Rightarrow> v)"

fun num :: "jval \<Rightarrow> real option" where
  "num (VInt i) = Some (real_of_int i)"
| "num (VFlt (Fin r)) = Some r"
| "num _ = None"

fun str :: "jval \<Rightarrow> string option" where
  "str (VStr s) = Some s"
| "str _ = None"

definition finite_in :: "jval \<Rightarrow> real \<Rightarrow> real \<Rightarrow> bool" where
  "finite_in v lo hi = (case num v of None \<Rightarrow> False | Some r \<Rightarrow> lo \<le> r \<and> r \<le> hi)"

definition num0 :: "jval \<Rightarrow> real" where
  "num0 v = (case num v of None \<Rightarrow> 0 | Some r \<Rightarrow> r)"

definition is_str :: "jval \<Rightarrow> bool" where "is_str v \<longleftrightarrow> str v \<noteq> None"

definition is_bool :: "jval \<Rightarrow> bool" where "is_bool v \<longleftrightarrow> (case v of VBool _ \<Rightarrow> True | _ \<Rightarrow> False)"

definition is_int :: "jval \<Rightarrow> bool" where
  "is_int v \<longleftrightarrow> (case v of VInt _ \<Rightarrow> True | VBool _ \<Rightarrow> True | _ \<Rightarrow> False)"

definition MAX_CEILING_SANE :: real where "MAX_CEILING_SANE = 4096"
definition MAX_SLOT_RAM_MIB :: real where "MAX_SLOT_RAM_MIB = 1024 * 1024"
definition MAX_COUNT :: real where "MAX_COUNT = 2 ^ 30"
definition MAX_WEIGHT :: real where "MAX_WEIGHT = 2 ^ 20"
definition MAX_TS :: real where "MAX_TS = 2 ^ 40"

definition valid :: "snapshot \<Rightarrow> bool" where
  "valid s \<longleftrightarrow>
     list_all (\<lambda>f. is_str (fld s f)) [''engine'', ''tier'', ''node'', ''instance'']
     \<and> finite_in (fld s ''slot_ram_mib'') (1 / 10 ^ 9) MAX_SLOT_RAM_MIB \<and> 0 < num0 (fld s ''slot_ram_mib'')
     \<and> finite_in (fld s ''slot_vcpus'') (1 / 10 ^ 9) 1024 \<and> 0 < num0 (fld s ''slot_vcpus'')
     \<and> finite_in (fld s ''backlog'') 0 MAX_COUNT
     \<and> finite_in (fld s ''assigned'') 0 MAX_COUNT
     \<and> finite_in (fld s ''max_ceiling'') 1 MAX_CEILING_SANE
     \<and> finite_in (fld s ''min_warm'') 0 MAX_CEILING_SANE
     \<and> finite_in (fld s ''weight'') 0 MAX_WEIGHT
     \<and> finite_in (fld s ''ts'') (- MAX_TS) MAX_TS
     \<and> finite_in (fld s ''refresh_s'') 0 MAX_TS
     \<and> is_bool (fld s ''balancing'')
     \<and> finite_in (fld s ''budget_ram_mib'') 0 (MAX_SLOT_RAM_MIB * MAX_CEILING_SANE)
     \<and> finite_in (fld s ''budget_vcpus'') 0 (1024 * MAX_CEILING_SANE)
     \<and> finite_in (fld s ''stale_after_s'') 0 MAX_TS
     \<and> finite_in (fld s ''untargeted_backlog'') 0 MAX_COUNT
     \<and> (fld s ''overflow_only'' = VNone \<or> is_bool (fld s ''overflow_only''))
     \<and> (fld s ''lease'' = VNone \<or> is_bool (fld s ''lease''))
     \<and> (fld s ''running'' = VNone \<or> finite_in (fld s ''running'') 0 MAX_COUNT)
     \<and> (fld s ''engines'' = VNone \<or> (is_int (fld s ''engines'') \<and> finite_in (fld s ''engines'') 1 MAX_CEILING_SANE))
     \<and> (fld s ''serving'' = VNone \<or> is_bool (fld s ''serving''))"

section \<open>File names\<close>

definition MAX_KEY_LEN :: nat where "MAX_KEY_LEN = 180"

definition join_at :: "string list \<Rightarrow> string" where
  "join_at ps = (case ps of [] \<Rightarrow> [] | p # qs \<Rightarrow> p @ concat (map (\<lambda>q. CHR ''@'' # q) qs))"

definition opt_part :: "string \<Rightarrow> string list" where
  "opt_part s = (if s = [] then [] else [s])"

definition file_key :: "string \<Rightarrow> string \<Rightarrow> string \<Rightarrow> string \<Rightarrow> string" where
  "file_key eng tier nd inst = join_at (eng # opt_part tier @ opt_part nd @ opt_part inst)"

definition filename :: "(string \<Rightarrow> string) \<Rightarrow> string \<Rightarrow> string \<Rightarrow> string \<Rightarrow> string \<Rightarrow> string" where
  "filename sha eng tier nd inst =
     (let joined = file_key eng tier nd inst
      in (if MAX_KEY_LEN < length joined then ''h_'' @ take 40 (sha joined) else joined) @ ''.json'')"

definition str0 :: "jval \<Rightarrow> string" where
  "str0 v = (case str v of None \<Rightarrow> [] | Some s \<Rightarrow> s)"

definition snap_filename :: "(string \<Rightarrow> string) \<Rightarrow> snapshot \<Rightarrow> string" where
  "snap_filename sha s = filename sha (str0 (fld s ''engine'')) (str0 (fld s ''tier''))
      (str0 (fld s ''node'')) (str0 (fld s ''instance''))"

section \<open>Classification\<close>

definition GC_AGE_MULT :: real where "GC_AGE_MULT = 20"
definition GC_AGE_FLOOR_S :: real where "GC_AGE_FLOOR_S = 300"

definition window :: "jval \<Rightarrow> real \<Rightarrow> real" where
  "window v k = (if finite_in v 0 MAX_TS then num0 v * k else 0)"

definition declared_window :: "snapshot \<Rightarrow> real" where
  "declared_window s = max (window (fld s ''refresh_s'') 2) (window (fld s ''stale_after_s'') 1)"

definition effective_window :: "snapshot \<Rightarrow> real \<Rightarrow> real" where
  "effective_window s max_age =
     (if 0 < declared_window s then min (declared_window s) GC_AGE_FLOOR_S else max_age)"

datatype class_result = Raised | Invalid | Stale | Accepted snapshot

definition classify :: "(string \<Rightarrow> string) \<Rightarrow> string \<Rightarrow> content \<Rightarrow> real \<Rightarrow> real \<Rightarrow> class_result" where
  "classify sha name c max_age now =
     (case c of
        Fields data \<Rightarrow>
          (case make_snapshot data of
             None \<Rightarrow> Raised
           | Some s \<Rightarrow>
               if \<not> (valid s \<and> name = snap_filename sha s \<and> finite_in (fld s ''ts'') (- MAX_TS) MAX_TS)
               then Invalid
               else let eff = effective_window s max_age; age = now - num0 (fld s ''ts'')
                    in if \<not> (- eff \<le> age \<and> age \<le> eff) then Stale else Accepted s)
      | _ \<Rightarrow> Raised)"

section \<open>The directory\<close>

type_synonym share_dir = "(string \<times> share_file) list"

definition endswith :: "string \<Rightarrow> string \<Rightarrow> bool" where
  "endswith s suf \<longleftrightarrow> startswith (rev s) (rev suf)"

definition safe_name :: "string \<Rightarrow> bool" where
  "safe_name name \<longleftrightarrow> CHR ''/'' \<notin> set name"

text \<open>A published snapshot always has every field.\<close>

definition publish :: "(string \<Rightarrow> string) \<Rightarrow> real \<Rightarrow> snapshot \<Rightarrow> share_dir \<Rightarrow> share_dir res" where
  "publish sha mtime s dir =
     (let name = snap_filename sha s
      in if safe_name name then Inr (AList.update name \<lparr>sf_content = Fields s, sf_mtime = mtime\<rparr> dir)
         else Inl (ValueError name))"

definition remove_snapshot :: "(string \<Rightarrow> string) \<Rightarrow> snapshot \<Rightarrow> share_dir \<Rightarrow> share_dir" where
  "remove_snapshot sha s dir =
     (let name = snap_filename sha s in if safe_name name then AList.delete name dir else dir)"

definition gc :: "real \<Rightarrow> real \<Rightarrow> share_dir \<Rightarrow> share_dir" where
  "gc wall older dir =
     filter (\<lambda>(n, f). \<not> ((endswith n ''.json'' \<or> endswith n ''.tmp'') \<and> older < wall - sf_mtime f)) dir"

definition read_all ::
  "(string \<Rightarrow> string) \<Rightarrow> real \<Rightarrow> real \<Rightarrow> real \<Rightarrow> share_dir \<Rightarrow> snapshot list \<times> share_dir" where
  "read_all sha wall max_age now dir =
     (concat (map (\<lambda>(n, f). case classify sha n (sf_content f) max_age now of Accepted s \<Rightarrow> [s] | _ \<Rightarrow> [])
        (sort_key fst (filter (\<lambda>(n, f). endswith n ''.json'') dir))),
      gc wall (max GC_AGE_FLOOR_S (max_age * GC_AGE_MULT)) dir)"

section \<open>Lemmas\<close>

lemma valid_ts: "valid s \<Longrightarrow> finite_in (fld s ''ts'') (- MAX_TS) MAX_TS"
  by (simp add: valid_def)

lemma classify_Accepted:
  "classify sha n c max_age now = Accepted s \<longleftrightarrow>
     (\<exists>data. c = Fields data \<and> make_snapshot data = Some s \<and> valid s \<and> n = snap_filename sha s
        \<and> \<bar>now - num0 (fld s ''ts'')\<bar> \<le> effective_window s max_age)"
  by (auto simp: classify_def Let_def valid_ts abs_le_iff split: content.splits option.splits if_splits)

lemma read_all_mem:
  "s \<in> set (fst (read_all sha wall max_age now dir)) \<longleftrightarrow>
     (\<exists>n f. (n, f) \<in> set dir \<and> endswith n ''.json'' \<and> classify sha n (sf_content f) max_age now = Accepted s)"
proof -
  have "s \<in> set (case classify sha n c max_age now of Accepted x \<Rightarrow> [x] | _ \<Rightarrow> [])
      \<longleftrightarrow> classify sha n c max_age now = Accepted s" for n c
    by (auto split: class_result.splits)
  then show ?thesis by (force simp: read_all_def)
qed

lemma split_at_unique:
  assumes "c \<notin> set a" "c \<notin> set b" "a @ c # xs = b @ c # ys"
  shows "a = b \<and> xs = ys"
  using assms
proof (induction a arbitrary: b)
  case Nil
  then show ?case by (cases b) auto
next
  case (Cons x a)
  then show ?case by (cases b) auto
qed

lemma join_at_Cons2: "join_at (p # q # qs) = p @ CHR ''@'' # join_at (q # qs)"
  by (simp add: join_at_def)

lemma join_at_inject:
  "\<forall>p \<in> set ps. CHR ''@'' \<notin> set p \<Longrightarrow> \<forall>p \<in> set qs. CHR ''@'' \<notin> set p \<Longrightarrow>
   length ps = length qs \<Longrightarrow> join_at ps = join_at qs \<Longrightarrow> ps = qs"
proof (induction ps qs rule: list_induct2')
  case (4 p ps q qs)
  show ?case
  proof (cases ps)
    case Nil
    with 4 show ?thesis by (simp add: join_at_def)
  next
    case (Cons p' ps')
    with 4 obtain q' qs' where qs: "qs = q' # qs'" by (cases qs) auto
    have "p @ CHR ''@'' # join_at ps = q @ CHR ''@'' # join_at qs"
      using "4.prems"(4) by (simp add: Cons qs join_at_Cons2)
    from split_at_unique [OF _ _ this] 4 show ?thesis by simp
  qed
qed auto

lemma endswith_append [simp]: "endswith (p @ s) s"
  by (simp add: endswith_def)

lemma filename_json: "endswith (snap_filename sha s) ''.json''"
  by (simp add: snap_filename_def filename_def Let_def)

section \<open>Properties\<close>

definition sane :: "snapshot \<Rightarrow> bool" where
  "sane s \<longleftrightarrow> (\<exists>ram vcpu ceil backlog assigned.
      num (fld s ''slot_ram_mib'') = Some ram \<and> 0 < ram \<and> ram \<le> 1048576
    \<and> num (fld s ''slot_vcpus'') = Some vcpu \<and> 0 < vcpu \<and> vcpu \<le> 1024
    \<and> num (fld s ''max_ceiling'') = Some ceil \<and> 1 \<le> ceil \<and> ceil \<le> 4096
    \<and> num (fld s ''backlog'') = Some backlog \<and> 0 \<le> backlog \<and> backlog \<le> 2 ^ 30
    \<and> num (fld s ''assigned'') = Some assigned \<and> 0 \<le> assigned \<and> assigned \<le> 2 ^ 30)"

lemma finite_in_num: "finite_in v lo hi \<longleftrightarrow> (\<exists>r. num v = Some r \<and> lo \<le> r \<and> r \<le> hi)"
  by (simp add: finite_in_def split: option.splits)

lemma valid_sane: "valid s \<Longrightarrow> sane s"
  by (auto simp: valid_def sane_def finite_in_num num0_def MAX_SLOT_RAM_MIB_def MAX_CEILING_SANE_def MAX_COUNT_def)

text \<open>
  what a reader takes from the directory.  Every snapshot in the node view was in a file
  whose name is the canonical one of the identity it declares (so no file speaks for another
  unit); all its numbers are finite and within the sanity bounds, its footprints positive; and
  it is at most its effective window away from the reader's clock, a window that never
  exceeds the larger of 300 seconds and the reader's own.
\<close>

theorem view_is_sane:
  assumes "s \<in> set (fst (read_all sha wall max_age now dir))"
  shows "(\<exists>f. (snap_filename sha s, f) \<in> set dir) \<and> sane s
       \<and> \<bar>now - num0 (fld s ''ts'')\<bar> \<le> effective_window s max_age
       \<and> effective_window s max_age \<le> max 300 max_age"
  using assms unfolding read_all_mem classify_Accepted
  by (auto simp: effective_window_def GC_AGE_FLOOR_S_def intro: valid_sane)

definition demo_snap :: snapshot where
  "demo_snap = [(''engine'', VStr ''clippy''), (''backlog'', VInt 3), (''assigned'', VInt 1),
     (''slot_ram_mib'', VFlt (Fin 2048)), (''slot_vcpus'', VInt 1), (''min_warm'', VInt 1),
     (''max_ceiling'', VInt 8), (''weight'', VInt 1), (''ts'', VFlt (Fin 100)),
     (''tier'', VStr ''gvisor''), (''stale_after_s'', VFlt (Fin 20))] @ DEFAULTS"

definition demo_dir :: share_dir where
  "demo_dir = [(''clippy@gvisor.json'', \<lparr>sf_content = Fields demo_snap, sf_mtime = 100\<rparr>),
               (''evil.json'', \<lparr>sf_content = Fields demo_snap, sf_mtime = 100\<rparr>),
               (''torn.json'', \<lparr>sf_content = Unparsable, sf_mtime = 100\<rparr>)]"

definition complete :: "snapshot \<Rightarrow> bool" where
  "complete s \<longleftrightarrow> list_all (\<lambda>(k, v). known_field k) s \<and> list_all (\<lambda>f. map_of s f \<noteq> None) (REQUIRED @ map fst DEFAULTS)"

lemma make_complete:
  assumes "complete s"
  shows "make_snapshot s = Some s"
proof -
  have "list_all (\<lambda>(k, v). known_field k) s" using assms by (simp add: complete_def)
  then have "filter (\<lambda>(k, v). known_field k) s = s" by (induction s) auto
  moreover have "filter (\<lambda>(k, v). map_of s k = None) DEFAULTS = []"
  proof -
    have "map_of s k \<noteq> None" if "(k, v) \<in> set DEFAULTS" for k v
      using assms image_eqI [OF _ that, of k fst] unfolding complete_def list_all_iff by simp
    then show ?thesis by (auto simp: filter_empty_conv)
  qed
  ultimately show ?thesis using assms by (simp add: make_snapshot_def Let_def complete_def)
qed

lemma demo_snap_facts: "complete demo_snap" "valid demo_snap"
  "snap_filename sha demo_snap = ''clippy@gvisor.json''"
proof -
  show "complete demo_snap" by code_simp
  show "valid demo_snap"
    by (simp add: valid_def demo_snap_def DEFAULTS_def fld_def is_str_def finite_in_def num0_def is_bool_def
        MAX_SLOT_RAM_MIB_def MAX_CEILING_SANE_def MAX_COUNT_def MAX_WEIGHT_def MAX_TS_def)
  show "snap_filename sha demo_snap = ''clippy@gvisor.json''"
    by (simp add: snap_filename_def demo_snap_def DEFAULTS_def fld_def str0_def filename_def file_key_def
        join_at_def opt_part_def MAX_KEY_LEN_def)
qed

lemma demo_window: "effective_window demo_snap m = 20" "num0 (fld demo_snap ''ts'') = 100"
  by (simp_all add: effective_window_def declared_window_def window_def demo_snap_def DEFAULTS_def fld_def
      finite_in_def num0_def GC_AGE_FLOOR_S_def MAX_TS_def)

lemma demo_classify: "classify sha ''clippy@gvisor.json'' (Fields demo_snap) m 110 = Accepted demo_snap"
  unfolding classify_Accepted demo_snap_facts(3) demo_window
  using make_complete demo_snap_facts(1,2) by simp

lemma demo_read_back: "demo_snap \<in> set (fst (read_all sha 100 20 110 demo_dir))"
  unfolding read_all_mem using demo_classify
  by (intro exI [of _ "''clippy@gvisor.json''"]) (auto simp: demo_dir_def endswith_def startswith_def)

theorem view_is_sane_witness:
  "sane demo_snap \<and> (\<exists>f. (snap_filename (\<lambda>s. s) demo_snap, f) \<in> set demo_dir)"
  using view_is_sane [OF demo_read_back] by blast

text \<open>
  all readers agree on liveness.  Once a publisher declares a window (its refresh period or
  staleness horizon is positive), whether its file is accepted, stale or invalid does not depend
  on the reader's own window, so two dispatchers of a node cannot disagree about a peer.
\<close>

theorem readers_agree:
  assumes "make_snapshot data = Some s" and "0 < declared_window s"
  shows "classify sha n (Fields data) age1 now = classify sha n (Fields data) age2 now"
  using assms by (simp add: classify_def effective_window_def)

theorem readers_agree_witness:
  "classify sha ''clippy@gvisor.json'' (Fields demo_snap) 1 110 =
   classify sha ''clippy@gvisor.json'' (Fields demo_snap) 900 110"
proof (rule readers_agree)
  show "make_snapshot demo_snap = Some (demo_snap)"
    by (rule make_complete [OF demo_snap_facts(1)])
  show "0 < declared_window (demo_snap)"
    by (simp add: declared_window_def window_def demo_snap_def DEFAULTS_def fld_def finite_in_def num0_def MAX_TS_def)
qed

text \<open>
  what is published is read back.  A unit that publishes a complete, valid snapshot under
  a safe name sees exactly it in its own node view until its window has passed, whatever else
  the directory holds; and after it removes it, nothing in the view carries its file name.
\<close>

theorem publish_read_back:
  assumes "complete s" "valid s" "safe_name (snap_filename sha s)"
    and "\<bar>now - num0 (fld s ''ts'')\<bar> \<le> effective_window s max_age" "distinct (map fst dir)"
  shows "(\<exists>dir'. publish sha m s dir = Inr dir' \<and> s \<in> set (fst (read_all sha wall max_age now dir')))
       \<and> (\<forall>x \<in> set (fst (read_all sha wall max_age now (remove_snapshot sha s dir))).
            snap_filename sha x \<noteq> snap_filename sha s)"
proof -
  let ?n = "snap_filename sha s" and ?f = "\<lparr>sf_content = Fields s, sf_mtime = m\<rparr>"
  let ?dir = "AList.update ?n ?f dir"
  have "(?n, ?f) \<in> set ?dir" by (metis map_of_SomeD map_of_update_same)
  moreover have "classify sha ?n (Fields s) max_age now = Accepted s"
    unfolding classify_Accepted using make_complete [OF assms(1)] assms by simp
  ultimately have "s \<in> set (fst (read_all sha wall max_age now ?dir))"
    unfolding read_all_mem using filename_json by (metis share_file.select_convs(1))
  moreover have "publish sha m s dir = Inr ?dir" using assms(3) by (simp add: publish_def Let_def)
  moreover have "snap_filename sha x \<noteq> ?n"
    if "x \<in> set (fst (read_all sha wall max_age now (remove_snapshot sha s dir)))" for x
  proof
    assume "snap_filename sha x = ?n"
    with that obtain f where "(?n, f) \<in> set (AList.delete ?n dir)"
      using assms(3) unfolding read_all_mem classify_Accepted remove_snapshot_def by (auto simp: Let_def)
    then show False by (auto simp: AList.delete_eq)
  qed
  ultimately show ?thesis by blast
qed

theorem publish_read_back_witness:
  "\<exists>dir'. publish (\<lambda>s. s) 100 demo_snap [] = Inr dir'
     \<and> demo_snap \<in> set (fst (read_all (\<lambda>s. s) 100 20 110 dir'))"
proof -
  have "safe_name ''clippy@gvisor.json''" by code_simp
  then show ?thesis
    using publish_read_back [of demo_snap "\<lambda>s. s" 110 20 "[]" 100 100] demo_snap_facts demo_window by simp
qed

definition plain_part :: "string \<Rightarrow> bool" where
  "plain_part p \<longleftrightarrow> CHR ''@'' \<notin> set p"

text \<open>
  identities and file names.  Two units whose identity parts contain no at-sign, whose keys
  are short enough not to be hashed and that leave the same optional parts empty have the same
  file only if they are the same unit.  When they leave different parts empty they may collide:
  a unit with tier x and no node shares its file with a unit with no tier and node x.
\<close>

theorem filename_identity:
  assumes "list_all plain_part [e1, t1, n1, i1, e2, t2, n2, i2]"
    and "length (file_key e1 t1 n1 i1) \<le> MAX_KEY_LEN" "length (file_key e2 t2 n2 i2) \<le> MAX_KEY_LEN"
    and "(t1 = []) = (t2 = [])" "(n1 = []) = (n2 = [])" "(i1 = []) = (i2 = [])"
    and "filename sha e1 t1 n1 i1 = filename sha e2 t2 n2 i2"
  shows "(e1, t1, n1, i1) = (e2, t2, n2, i2)
       \<and> filename sha e x [] [] = filename sha e [] x []"
proof -
  have "join_at (e1 # opt_part t1 @ opt_part n1 @ opt_part i1) = join_at (e2 # opt_part t2 @ opt_part n2 @ opt_part i2)"
    using assms(2,3,7) by (simp add: filename_def file_key_def Let_def)
  then have "e1 # opt_part t1 @ opt_part n1 @ opt_part i1 = e2 # opt_part t2 @ opt_part n2 @ opt_part i2"
    using assms(1,4-6) by (intro join_at_inject) (auto simp: opt_part_def plain_part_def)
  then show ?thesis
    using assms(4-6) by (auto simp: opt_part_def filename_def file_key_def split: if_splits)
qed

theorem filename_identity_witness:
  "filename (\<lambda>s. s) ''clippy'' ''gvisor'' [] [] = filename (\<lambda>s. s) ''clippy'' [] ''gvisor'' []"
  by (rule filename_identity [where ?e1.0 = "''a''" and ?e2.0 = "''a''" and ?t1.0 = "[]" and ?t2.0 = "[]"
        and ?n1.0 = "[]" and ?n2.0 = "[]" and ?i1.0 = "[]" and ?i2.0 = "[]", THEN conjunct2])
     (simp_all add: plain_part_def file_key_def join_at_def opt_part_def MAX_KEY_LEN_def)

end
