(* ===== verification/Pool_Protocol.thy ===== *)
theory Pool_Protocol
  imports Blastbox_Prelude "HOL-Library.Multiset"
begin

text \<open>
  \<^verbatim>\<open>host/pool.py\<close>: the life of a warm slot under concurrency.  The code holds the pool's lock
  around short blocks and calls the runtime outside it; each block is a function on the pool's
  state, and the threads (claims, releases, reapers, the tick, shutdown) are activities between
  two blocks.  A step runs one block or lets one runtime call return, in any order.  A claim tests
  the stop flag before it takes the lock, so the flag may be set when its block runs; one run of
  the pool from \<open>start\<close> to the end of \<open>stop\<close> is modelled.

  \<open>Slot\<close> objects are shared, so a slot's state is kept per object (\<open>w_state\<close>) and the pool's
  dictionary is the list of tracked ids in insertion order (\<open>w_slots\<close>).  \<open>born\<close> and
  \<open>disposed\<close> are history: the workers spawned, and the successful \<open>runtime.reap\<close> calls.
\<close>

section \<open>State\<close>

datatype slot_state = SPAWNING | WARMING | IDLE | ASSIGNED | DRAINING

record wpool =
  w_state :: "string \<Rightarrow> slot_state"
  w_slots :: "string list"
  w_reaping :: "string set"
  w_deferred :: "string set"
  w_deferred_next :: "string set"
  w_suspected :: "string set"
  w_never_ready :: "string set"
  w_tries :: "string \<Rightarrow> nat option"
  w_stop :: bool
  w_ceiling :: nat

text \<open>Who called \<open>_reap_and_count\<close>.\<close>

datatype reaper = ByRelease | ByRetire | ByDrain | BySurplus | ByPromote | ByHealth | ByUnpublished | ByStop

definition require_tracked :: "reaper \<Rightarrow> bool" where
  "require_tracked r \<longleftrightarrow> r \<noteq> ByUnpublished"

definition pop_on_success :: "reaper \<Rightarrow> bool" where
  "pop_on_success r \<longleftrightarrow> r \<noteq> ByUnpublished \<and> r \<noteq> ByStop"

definition max_tries :: nat where "max_tries = 3"

section \<open>The locked blocks\<close>

definition set_state :: "string \<Rightarrow> slot_state \<Rightarrow> wpool \<Rightarrow> wpool" where
  "set_state i st p = p\<lparr>w_state := (w_state p)(i := st)\<rparr>"

definition tracked :: "wpool \<Rightarrow> string \<Rightarrow> bool" where
  "tracked p i \<longleftrightarrow> i \<in> set (w_slots p)"

definition track :: "string \<Rightarrow> wpool \<Rightarrow> wpool" where
  "track i p = (if tracked p i then p else p\<lparr>w_slots := w_slots p @ [i]\<rparr>)"

text \<open>\<open>self._slots.pop\<close> with \<open>_forget_slot_health\<close>.\<close>

definition untrack :: "string \<Rightarrow> wpool \<Rightarrow> wpool" where
  "untrack i p = p\<lparr>w_slots := filter (\<lambda>j. j \<noteq> i) (w_slots p), w_tries := (w_tries p)(i := None),
     w_deferred_next := w_deferred_next p - {i}, w_never_ready := w_never_ready p - {i},
     w_suspected := w_suspected p - {i}\<rparr>"

definition queue_deferred :: "string \<Rightarrow> wpool \<Rightarrow> wpool" where
  "queue_deferred i p = (if w_stop p then p else p\<lparr>w_deferred := insert i (w_deferred p)\<rparr>)"

text \<open>The first idle slot not in this claim's cooldown, and the three outcomes of its probe.\<close>

definition claim_candidate :: "string set \<Rightarrow> wpool \<Rightarrow> string option" where
  "claim_candidate skip p = find (\<lambda>i. w_state p i = IDLE \<and> i \<notin> skip) (w_slots p)"

definition claim_unknown :: "string \<Rightarrow> wpool \<Rightarrow> wpool" where
  "claim_unknown i p = (if w_state p i = ASSIGNED then set_state i IDLE p else p)"

definition claim_dead :: "string \<Rightarrow> wpool \<Rightarrow> wpool" where
  "claim_dead i p = queue_deferred i (set_state i DRAINING p)"

definition unclaim :: "string \<Rightarrow> wpool \<Rightarrow> wpool" where
  "unclaim i p = (if tracked p i \<and> w_state p i = ASSIGNED then set_state i IDLE p else p)"

text \<open>The end of a recycle, and the block in which a release or a retire starts the drain.\<close>

definition can_republish :: "string \<Rightarrow> wpool \<Rightarrow> bool" where
  "can_republish i p \<longleftrightarrow> tracked p i \<and> w_state p i = ASSIGNED"

definition begin_drain :: "string \<Rightarrow> wpool \<Rightarrow> wpool" where
  "begin_drain i p = (if tracked p i then set_state i DRAINING p else p)"

text \<open>The two locked blocks of \<open>_reap_and_count\<close>.\<close>

definition may_reap :: "reaper \<Rightarrow> string \<Rightarrow> wpool \<Rightarrow> bool" where
  "may_reap r i p \<longleftrightarrow> i \<notin> w_reaping p \<and> (require_tracked r \<longrightarrow> tracked p i)"

definition reap_begin :: "string \<Rightarrow> wpool \<Rightarrow> wpool" where
  "reap_begin i p = p\<lparr>w_reaping := insert i (w_reaping p)\<rparr>"

definition reap_end :: "reaper \<Rightarrow> bool \<Rightarrow> string \<Rightarrow> wpool \<Rightarrow> wpool" where
  "reap_end r ok i p =
     (let q = (if pop_on_success r \<and> ok then untrack i p else p)
      in q\<lparr>w_reaping := w_reaping q - {i}\<rparr>)"

text \<open>After \<open>_reap_and_count\<close> returned, and after it raised, per caller.\<close>

definition after_return :: "reaper \<Rightarrow> bool \<Rightarrow> string \<Rightarrow> wpool \<Rightarrow> wpool" where
  "after_return r reaped i p =
     (case r of
        ByDrain \<Rightarrow> p\<lparr>w_suspected := w_suspected p - {i}, w_tries := (w_tries p)(i := None)\<rparr>
      | ByUnpublished \<Rightarrow>
          if reaped then p\<lparr>w_never_ready := w_never_ready p - {i}\<rparr> else track i (set_state i DRAINING p)
      | _ \<Rightarrow> p)"

definition drain_failed :: "string \<Rightarrow> wpool \<Rightarrow> wpool" where
  "drain_failed i p =
     (let q =
        (if w_stop p then p\<lparr>w_tries := (w_tries p)(i := None)\<rparr>
         else case w_tries p i of
           Some t \<Rightarrow>
             if t + 1 < max_tries
             then p\<lparr>w_tries := (w_tries p)(i := Some (t + 1)), w_deferred_next := insert i (w_deferred_next p)\<rparr>
             else p\<lparr>w_tries := (w_tries p)(i := None)\<rparr>
         | None \<Rightarrow>
             if i \<in> w_suspected p \<and> tracked p i \<and> w_state p i = DRAINING
             then set_state i (if i \<in> w_never_ready p then WARMING else IDLE) p else p)
      in q\<lparr>w_suspected := w_suspected q - {i}\<rparr>)"

definition after_raise :: "reaper \<Rightarrow> string \<Rightarrow> wpool \<Rightarrow> wpool" where
  "after_raise r i p =
     (case r of ByDrain \<Rightarrow> drain_failed i p | ByUnpublished \<Rightarrow> track i (set_state i DRAINING p) | _ \<Rightarrow> p)"

text \<open>The deferred reaper's pick, and the merge of the retry set.\<close>

definition drain_pick :: "string \<Rightarrow> wpool \<Rightarrow> wpool" where
  "drain_pick i p = p\<lparr>w_deferred := w_deferred p - {i}\<rparr>"

definition drain_merge :: "wpool \<Rightarrow> wpool" where
  "drain_merge p = p\<lparr>w_deferred := w_deferred p \<union> w_deferred_next p, w_deferred_next := {}\<rparr>"

text \<open>Promotion, demotion by the health check, surplus, maintenance.\<close>

definition promote :: "string \<Rightarrow> wpool \<Rightarrow> wpool" where
  "promote i p = (if tracked p i \<and> w_state p i = WARMING
                  then (set_state i IDLE p)\<lparr>w_never_ready := w_never_ready p - {i}\<rparr> else p)"

definition demotable :: "string \<Rightarrow> wpool \<Rightarrow> bool" where
  "demotable i p \<longleftrightarrow> tracked p i \<and> w_state p i \<in> {IDLE, WARMING}"

definition demote_suspected :: "string \<Rightarrow> wpool \<Rightarrow> wpool" where
  "demote_suspected i p =
     queue_deferred i ((set_state i DRAINING p)\<lparr>w_suspected := insert i (w_suspected p)\<rparr>)"

definition maintain_back :: "string \<Rightarrow> wpool \<Rightarrow> wpool" where
  "maintain_back i p = (if tracked p i \<and> w_state p i = ASSIGNED then set_state i IDLE p else p)"

definition maintain_husk :: "string \<Rightarrow> wpool \<Rightarrow> wpool" where
  "maintain_husk i p =
     (if tracked p i \<and> w_state p i = ASSIGNED
      then (let q = queue_deferred i (set_state i DRAINING p)
            in if w_stop p then q else q\<lparr>w_tries := (w_tries q)(i := Some 0)\<rparr>)
      else p)"

text \<open>A spawned worker becomes a warming slot, then is published unless the pool is full.\<close>

definition spawned :: "string \<Rightarrow> wpool \<Rightarrow> wpool" where
  "spawned i p = (set_state i WARMING p)\<lparr>w_never_ready := insert i (w_never_ready p)\<rparr>"

definition drop_spawn :: "wpool \<Rightarrow> bool" where
  "drop_spawn p \<longleftrightarrow> w_stop p \<or> w_ceiling p \<le> length (w_slots p)"

text \<open>Shutdown: every tracked slot is drained and the deferred sets are dropped.\<close>

definition stop_flip :: "wpool \<Rightarrow> wpool" where
  "stop_flip p = p\<lparr>w_deferred := {}, w_deferred_next := {},
     w_state := (\<lambda>i. if tracked p i then DRAINING else w_state p i)\<rparr>"

section \<open>Threads\<close>

datatype act =
    Probing string
  | Held string
  | Recycling string
  | Maintaining string
  | PromoteProbe string
  | ToReap string reaper
  | Reaping string reaper
  | ReapRaised string reaper
  | StopPop string
  | Spawning
  | Publishing string

text \<open>The tick runs promotion to its end before the health check, and so on.\<close>

datatype phase = Promoting | Checking

record history =
  h_born :: "string set"
  h_disposed :: "string list"
  h_phase :: phase
  h_flipped :: bool

type_synonym sys = "wpool \<times> act multiset \<times> history"

fun promote_act :: "act \<Rightarrow> bool" where
  "promote_act (PromoteProbe _) = True"
| "promote_act (ToReap _ r) = (r = ByPromote)"
| "promote_act (Reaping _ r) = (r = ByPromote)"
| "promote_act (ReapRaised _ r) = (r = ByPromote)"
| "promote_act _ = False"

definition stop_acts :: "string list \<Rightarrow> act multiset" where
  "stop_acts xs = mset (map (\<lambda>i. ToReap i ByStop) xs)"

inductive step :: "string option \<Rightarrow> sys \<Rightarrow> sys \<Rightarrow> bool" where
  claim_take: "claim_candidate skip p = Some i \<Longrightarrow>
    step (Some i) (p, A, h) (set_state i ASSIGNED p, add_mset (Probing i) A, h)"
| claim_unknown: "step (Some i) (p, add_mset (Probing i) A, h) (claim_unknown i p, A, h)"
| claim_alive: "step (Some i) (p, add_mset (Probing i) A, h) (p, add_mset (Held i) A, h)"
| claim_dead: "step (Some i) (p, add_mset (Probing i) A, h) (claim_dead i p, A, h)"
| unclaim: "step (Some i) (p, add_mset (Held i) A, h) (unclaim i p, A, h)"
| release_recycle: "tracked p i \<Longrightarrow> step (Some i) (p, add_mset (Held i) A, h) (p, add_mset (Recycling i) A, h)"
| release_gone: "\<not> tracked p i \<Longrightarrow> step (Some i) (p, add_mset (Held i) A, h) (p, A, h)"
| release_drain: "tracked p i \<Longrightarrow>
    step (Some i) (p, add_mset (Held i) A, h) (begin_drain i p, add_mset (ToReap i ByRelease) A, h)"
| recycle_ok: "can_republish i p \<Longrightarrow> step (Some i) (p, add_mset (Recycling i) A, h) (set_state i IDLE p, A, h)"
| recycle_gone: "\<not> tracked p i \<Longrightarrow> step (Some i) (p, add_mset (Recycling i) A, h) (p, A, h)"
| recycle_drain: "tracked p i \<Longrightarrow>
    step (Some i) (p, add_mset (Recycling i) A, h) (begin_drain i p, add_mset (ToReap i ByRelease) A, h)"
| retire: "tracked p i \<Longrightarrow>
    step (Some i) (p, add_mset (Held i) A, h) (begin_drain i p, add_mset (ToReap i ByRetire) (add_mset (Held i) A), h)"
| reap_enter: "may_reap r i p \<Longrightarrow>
    step (Some i) (p, add_mset (ToReap i r) A, h) (reap_begin i p, add_mset (Reaping i r) A, h)"
| reap_skip: "\<not> may_reap r i p \<Longrightarrow>
    step (Some i) (p, add_mset (ToReap i r) A, h) (after_return r False i p, A, h)"
| reap_ok: "r \<noteq> ByStop \<Longrightarrow>
    step (Some i) (p, add_mset (Reaping i r) A, h)
         (after_return r True i (reap_end r True i p), A, h\<lparr>h_disposed := i # h_disposed h\<rparr>)"
| reap_ok_stop:
    "step (Some i) (p, add_mset (Reaping i ByStop) A, h)
          (reap_end ByStop True i p, add_mset (StopPop i) A, h\<lparr>h_disposed := i # h_disposed h\<rparr>)"
| stop_pop: "step (Some i) (p, add_mset (StopPop i) A, h) (untrack i p, A, h)"
| reap_fail: "step (Some i) (p, add_mset (Reaping i r) A, h) (reap_end r False i p, add_mset (ReapRaised i r) A, h)"
| raise_handled: "step (Some i) (p, add_mset (ReapRaised i r) A, h) (after_raise r i p, A, h)"
| drain_take: "i \<in> w_deferred p \<Longrightarrow> tracked p i \<Longrightarrow>
    step (Some i) (p, A, h) (drain_pick i p, add_mset (ToReap i ByDrain) A, h)"
| drain_gone: "i \<in> w_deferred p \<Longrightarrow> \<not> tracked p i \<Longrightarrow> step (Some i) (p, A, h) (drain_pick i p, A, h)"
| drain_merge: "\<not> w_stop p \<Longrightarrow> step None (p, A, h) (drain_merge p, A, h)"
| promote_probe: "h_phase h = Promoting \<Longrightarrow> tracked p i \<Longrightarrow> w_state p i = WARMING \<Longrightarrow>
    step (Some i) (p, A, h) (p, add_mset (PromoteProbe i) A, h)"
| promote_ready: "step (Some i) (p, add_mset (PromoteProbe i) A, h) (promote i p, A, h)"
| promote_wait: "step (Some i) (p, add_mset (PromoteProbe i) A, h) (p, A, h)"
| promote_reap: "w_state p i = DRAINING \<Longrightarrow>
    step (Some i) (p, add_mset (PromoteProbe i) A, h) (p, add_mset (ToReap i ByPromote) A, h)"
| to_check: "\<forall>a \<in># A. \<not> promote_act a \<Longrightarrow> step None (p, A, h) (p, A, h\<lparr>h_phase := Checking\<rparr>)"
| to_promote: "step None (p, A, h) (p, A, h\<lparr>h_phase := Promoting\<rparr>)"
| health_dead: "h_phase h = Checking \<Longrightarrow> demotable i p \<Longrightarrow>
    step (Some i) (p, A, h) (set_state i DRAINING p, add_mset (ToReap i ByHealth) A, h)"
| health_suspect: "h_phase h = Checking \<Longrightarrow> demotable i p \<Longrightarrow>
    step (Some i) (p, A, h) (demote_suspected i p, A, h)"
| surplus: "tracked p i \<Longrightarrow> w_state p i = IDLE \<Longrightarrow>
    step (Some i) (p, A, h) (set_state i DRAINING p, add_mset (ToReap i BySurplus) A, h)"
| maintain_take: "\<not> w_stop p \<Longrightarrow> tracked p i \<Longrightarrow> w_state p i = IDLE \<Longrightarrow>
    step (Some i) (p, A, h) (set_state i ASSIGNED p, add_mset (Maintaining i) A, h)"
| maintain_ok: "step (Some i) (p, add_mset (Maintaining i) A, h) (maintain_back i p, A, h)"
| maintain_bad: "step (Some i) (p, add_mset (Maintaining i) A, h) (maintain_husk i p, A, h)"
| spawn_start: "length (w_slots p) < w_ceiling p \<Longrightarrow> step None (p, A, h) (p, add_mset Spawning A, h)"
| spawn_fail: "step None (p, add_mset Spawning A, h) (p, A, h)"
| spawn_ok: "i \<notin> h_born h \<Longrightarrow>
    step (Some i) (p, add_mset Spawning A, h)
         (spawned i p, add_mset (Publishing i) A, h\<lparr>h_born := insert i (h_born h)\<rparr>)"
| publish: "\<not> drop_spawn p \<Longrightarrow> step (Some i) (p, add_mset (Publishing i) A, h) (track i p, A, h)"
| publish_drop: "drop_spawn p \<Longrightarrow>
    step (Some i) (p, add_mset (Publishing i) A, h) (p, add_mset (ToReap i ByUnpublished) A, h)"
| resize: "1 \<le> n \<Longrightarrow> step None (p, A, h) (p\<lparr>w_ceiling := n\<rparr>, A, h)"
| stop_begin: "step None (p, A, h) (p\<lparr>w_stop := True\<rparr>, A, h)"
| stop_drain: "w_stop p \<Longrightarrow>
    step None (p, A, h)
      (stop_flip p, stop_acts (w_slots p) + A, h\<lparr>h_flipped := True\<rparr>)"

definition pool_init :: "nat \<Rightarrow> sys" where
  "pool_init n = (\<lparr>w_state = (\<lambda>_. SPAWNING), w_slots = [], w_reaping = {}, w_deferred = {},
      w_deferred_next = {}, w_suspected = {}, w_never_ready = {}, w_tries = (\<lambda>_. None),
      w_stop = False, w_ceiling = n\<rparr>, {#},
    \<lparr>h_born = {}, h_disposed = [], h_phase = Promoting, h_flipped = False\<rparr>)"

definition reachable :: "nat \<Rightarrow> sys \<Rightarrow> bool" where
  "reachable n s \<longleftrightarrow> (\<lambda>s t. \<exists>l. step l s t)\<^sup>*\<^sup>* (pool_init n) s"

lemma reachable_induct [consumes 1, case_names init step]:
  assumes "reachable n s" "P (pool_init n)" "\<And>s t l. reachable n s \<Longrightarrow> P s \<Longrightarrow> step l s t \<Longrightarrow> P t"
  shows "P s"
  using assms(1) unfolding reachable_def
proof (induction rule: rtranclp_induct)
  case base
  show ?case by (rule assms(2))
next
  case (step y z)
  then obtain l where "step l y z" by blast
  with step show ?case using assms(3) unfolding reachable_def by blast
qed

section \<open>Counting activities\<close>

fun claims :: "string \<Rightarrow> act \<Rightarrow> bool" where
  "claims i (Probing j) = (i = j)"
| "claims i (Held j) = (i = j)"
| "claims i (Recycling j) = (i = j)"
| "claims i (Maintaining j) = (i = j)"
| "claims i _ = False"

fun drains :: "string \<Rightarrow> act \<Rightarrow> bool" where
  "drains i (ToReap j r) = (i = j \<and> r = ByDrain)"
| "drains i (Reaping j r) = (i = j \<and> r = ByDrain)"
| "drains i (ReapRaised j r) = (i = j \<and> r = ByDrain)"
| "drains i _ = False"

fun disposes :: "string \<Rightarrow> act \<Rightarrow> bool" where
  "disposes i (ToReap j r) = (i = j \<and> r \<noteq> ByDrain \<and> r \<noteq> ByUnpublished)"
| "disposes i (Reaping j r) = (i = j \<and> r \<noteq> ByDrain \<and> r \<noteq> ByUnpublished)"
| "disposes i (ReapRaised j r) = (i = j \<and> r \<noteq> ByDrain \<and> r \<noteq> ByUnpublished)"
| "disposes i (StopPop j) = (i = j)"
| "disposes i _ = False"

fun unpublished :: "string \<Rightarrow> act \<Rightarrow> bool" where
  "unpublished i (Publishing j) = (i = j)"
| "unpublished i (ToReap j r) = (i = j \<and> r = ByUnpublished)"
| "unpublished i (Reaping j r) = (i = j \<and> r = ByUnpublished)"
| "unpublished i (ReapRaised j r) = (i = j \<and> r = ByUnpublished)"
| "unpublished i _ = False"

fun promotes :: "string \<Rightarrow> act \<Rightarrow> bool" where
  "promotes i (PromoteProbe j) = (i = j)"
| "promotes i _ = False"

fun reaping_act :: "string \<Rightarrow> act \<Rightarrow> bool" where
  "reaping_act i (Reaping j r) = (i = j)"
| "reaping_act i _ = False"

fun about :: "string \<Rightarrow> act \<Rightarrow> bool" where
  "about i Spawning = False"
| "about i (Probing j) = (i = j)"
| "about i (Held j) = (i = j)"
| "about i (Recycling j) = (i = j)"
| "about i (Maintaining j) = (i = j)"
| "about i (PromoteProbe j) = (i = j)"
| "about i (ToReap j r) = (i = j)"
| "about i (Reaping j r) = (i = j)"
| "about i (ReapRaised j r) = (i = j)"
| "about i (StopPop j) = (i = j)"
| "about i (Publishing j) = (i = j)"

definition acts :: "(act \<Rightarrow> bool) \<Rightarrow> act multiset \<Rightarrow> nat" where
  "acts P A = size (filter_mset P A)"

lemma acts_simps [simp]:
  "acts P {#} = 0" "acts P (add_mset a A) = (if P a then Suc (acts P A) else acts P A)"
  "acts P (A + B) = acts P A + acts P B"
  by (simp_all add: acts_def)

lemma acts_stop_acts:
  "acts P (stop_acts xs) = length (filter (\<lambda>i. P (ToReap i ByStop)) xs)"
  by (induction xs) (simp_all add: stop_acts_def)

lemma acts_stop_none [simp]:
  "acts (claims i) (stop_acts xs) = 0" "acts (drains i) (stop_acts xs) = 0"
  "acts (unpublished i) (stop_acts xs) = 0" "acts (promotes i) (stop_acts xs) = 0"
  "acts (reaping_act i) (stop_acts xs) = 0" "acts promote_act (stop_acts xs) = 0"
  by (simp_all add: acts_stop_acts)

lemma acts_stop_some [simp]:
  "acts (disposes i) (stop_acts xs) = 0 \<longleftrightarrow> i \<notin> set xs" "acts (about i) (stop_acts xs) = 0 \<longleftrightarrow> i \<notin> set xs"
  by (auto simp: acts_stop_acts filter_empty_conv)

lemma acts_zero: "acts P A = 0 \<longleftrightarrow> (\<forall>a \<in># A. \<not> P a)"
  by (induction A) auto

lemma acts_mono: "(\<And>a. P a \<Longrightarrow> Q a) \<Longrightarrow> acts P A \<le> acts Q A"
  by (induction A) auto

lemma about_zero:
  assumes "acts (about i) A = 0"
  shows "acts (claims i) A = 0" "acts (drains i) A = 0" "acts (disposes i) A = 0" "acts (unpublished i) A = 0"
    "acts (promotes i) A = 0" "acts (reaping_act i) A = 0"
proof -
  have "claims i a \<Longrightarrow> about i a" "drains i a \<Longrightarrow> about i a" "disposes i a \<Longrightarrow> about i a"
    "unpublished i a \<Longrightarrow> about i a" "promotes i a \<Longrightarrow> about i a" "reaping_act i a \<Longrightarrow> about i a" for a
    by (cases a; simp)+
  with assms show "acts (claims i) A = 0" "acts (drains i) A = 0" "acts (disposes i) A = 0"
    "acts (unpublished i) A = 0" "acts (promotes i) A = 0" "acts (reaping_act i) A = 0"
    by (metis acts_zero)+
qed

section \<open>Invariants\<close>

lemma tracked_update [simp]:
  "tracked (p\<lparr>w_state := a\<rparr>) = tracked p" "tracked (p\<lparr>w_reaping := b\<rparr>) = tracked p"
  "tracked (p\<lparr>w_deferred := c\<rparr>) = tracked p" "tracked (p\<lparr>w_deferred_next := d\<rparr>) = tracked p"
  "tracked (p\<lparr>w_suspected := e\<rparr>) = tracked p" "tracked (p\<lparr>w_never_ready := f\<rparr>) = tracked p"
  "tracked (p\<lparr>w_tries := g\<rparr>) = tracked p" "tracked (p\<lparr>w_stop := h\<rparr>) = tracked p"
  "tracked (p\<lparr>w_ceiling := k\<rparr>) = tracked p"
  by (simp_all add: tracked_def fun_eq_iff)

lemma set_state_facts [simp]:
  "tracked (set_state i st p) = tracked p" "w_state (set_state i st p) = (w_state p)(i := st)"
  "w_reaping (set_state i st p) = w_reaping p" "w_deferred (set_state i st p) = w_deferred p"
  "w_deferred_next (set_state i st p) = w_deferred_next p" "w_suspected (set_state i st p) = w_suspected p"
  "w_never_ready (set_state i st p) = w_never_ready p" "w_tries (set_state i st p) = w_tries p"
  "w_stop (set_state i st p) = w_stop p" "w_slots (set_state i st p) = w_slots p"
  by (simp_all add: set_state_def)

lemma track_facts [simp]:
  "tracked (track i p) j \<longleftrightarrow> tracked p j \<or> j = i" "w_state (track i p) = w_state p"
  "w_reaping (track i p) = w_reaping p" "w_deferred (track i p) = w_deferred p"
  "w_deferred_next (track i p) = w_deferred_next p" "w_suspected (track i p) = w_suspected p"
  "w_stop (track i p) = w_stop p"
  by (auto simp: track_def tracked_def)

lemma untrack_facts [simp]:
  "tracked (untrack i p) j \<longleftrightarrow> tracked p j \<and> j \<noteq> i" "w_state (untrack i p) = w_state p"
  "w_reaping (untrack i p) = w_reaping p" "w_deferred (untrack i p) = w_deferred p"
  "w_deferred_next (untrack i p) = w_deferred_next p - {i}" "w_suspected (untrack i p) = w_suspected p - {i}"
  "w_stop (untrack i p) = w_stop p"
  by (auto simp: untrack_def tracked_def)

lemma queue_deferred_facts [simp]:
  "tracked (queue_deferred i p) = tracked p" "w_state (queue_deferred i p) = w_state p"
  "w_reaping (queue_deferred i p) = w_reaping p"
  "w_deferred (queue_deferred i p) = (if w_stop p then w_deferred p else insert i (w_deferred p))"
  "w_deferred_next (queue_deferred i p) = w_deferred_next p" "w_suspected (queue_deferred i p) = w_suspected p"
  "w_stop (queue_deferred i p) = w_stop p"
  by (simp_all add: queue_deferred_def)

lemmas block_defs = claim_unknown_def claim_dead_def unclaim_def can_republish_def begin_drain_def
  may_reap_def reap_begin_def drain_pick_def drain_merge_def promote_def demotable_def
  demote_suspected_def maintain_back_def maintain_husk_def spawned_def stop_flip_def Let_def

lemma claim_candidate_Some:
  "claim_candidate skip p = Some i \<Longrightarrow> tracked p i \<and> w_state p i = IDLE"
  by (auto simp: claim_candidate_def tracked_def find_Some_iff)

text \<open>Every id is a spawned worker's.\<close>

fun inv_ids :: "sys \<Rightarrow> bool" where
  "inv_ids (p, A, h) \<longleftrightarrow>
     (\<forall>i. i \<notin> h_born h \<longrightarrow> \<not> tracked p i \<and> acts (about i) A = 0 \<and> i \<notin> w_deferred p
        \<and> i \<notin> w_deferred_next p \<and> i \<notin> w_suspected p \<and> i \<notin> set (h_disposed h))"

lemma after_return_facts [simp]:
  "w_deferred (after_return r b i p) = w_deferred p"
  "w_deferred_next (after_return r b i p) = w_deferred_next p"
  "w_reaping (after_return r b i p) = w_reaping p"
  "w_stop (after_return r b i p) = w_stop p"
  "tracked (after_return r b i p) j \<longleftrightarrow> tracked p j \<or> (r = ByUnpublished \<and> \<not> b \<and> j = i)"
  "w_state (after_return r b i p) = (if r = ByUnpublished \<and> \<not> b then (w_state p)(i := DRAINING) else w_state p)"
  "w_suspected (after_return r b i p) = (if r = ByDrain then w_suspected p - {i} else w_suspected p)"
  by (auto simp: after_return_def split: reaper.splits)

text \<open>What the failure handler of the deferred reaper can do.\<close>

definition undoes :: "string \<Rightarrow> wpool \<Rightarrow> bool" where
  "undoes i p \<longleftrightarrow> \<not> w_stop p \<and> w_tries p i = None \<and> i \<in> w_suspected p \<and> tracked p i \<and> w_state p i = DRAINING"

definition retries :: "string \<Rightarrow> wpool \<Rightarrow> bool" where
  "retries i p \<longleftrightarrow> \<not> w_stop p \<and> (\<exists>t. w_tries p i = Some t \<and> t + 1 < max_tries)"

lemma drain_failed_facts [simp]:
  "w_deferred (drain_failed i p) = w_deferred p" "w_reaping (drain_failed i p) = w_reaping p"
  "w_stop (drain_failed i p) = w_stop p" "tracked (drain_failed i p) = tracked p"
  "w_suspected (drain_failed i p) = w_suspected p - {i}"
  "w_deferred_next (drain_failed i p) = (if retries i p then insert i (w_deferred_next p) else w_deferred_next p)"
  "w_state (drain_failed i p) =
     (if undoes i p then (w_state p)(i := (if i \<in> w_never_ready p then WARMING else IDLE)) else w_state p)"
  by (auto simp: drain_failed_def undoes_def retries_def Let_def split: option.splits)

lemma after_raise_facts [simp]:
  "w_deferred (after_raise r i p) = w_deferred p" "w_reaping (after_raise r i p) = w_reaping p"
  "w_stop (after_raise r i p) = w_stop p"
  "tracked (after_raise r i p) j \<longleftrightarrow> tracked p j \<or> (r = ByUnpublished \<and> j = i)"
  "w_suspected (after_raise r i p) = (if r = ByDrain then w_suspected p - {i} else w_suspected p)"
  "w_deferred_next (after_raise r i p) =
     (if r = ByDrain \<and> retries i p then insert i (w_deferred_next p) else w_deferred_next p)"
  "w_state (after_raise r i p) =
     (if r = ByUnpublished then (w_state p)(i := DRAINING)
      else if r = ByDrain \<and> undoes i p then (w_state p)(i := (if i \<in> w_never_ready p then WARMING else IDLE))
      else w_state p)"
  by (auto simp: after_raise_def split: reaper.splits)

lemma reap_end_facts [simp]:
  "w_deferred (reap_end r ok i p) = w_deferred p" "w_stop (reap_end r ok i p) = w_stop p"
  "w_state (reap_end r ok i p) = w_state p" "w_reaping (reap_end r ok i p) = w_reaping p - {i}"
  "tracked (reap_end r ok i p) j \<longleftrightarrow> tracked p j \<and> \<not> (pop_on_success r \<and> ok \<and> j = i)"
  "w_deferred_next (reap_end r ok i p) =
     (if pop_on_success r \<and> ok then w_deferred_next p - {i} else w_deferred_next p)"
  "w_suspected (reap_end r ok i p) =
     (if pop_on_success r \<and> ok then w_suspected p - {i} else w_suspected p)"
  by (auto simp: reap_end_def Let_def)

lemma inv_ids_step: "step l s t \<Longrightarrow> inv_ids s \<Longrightarrow> inv_ids t"
proof (induction rule: step.induct)
  case (claim_take skip p i A h)
  then show ?case by (auto dest!: claim_candidate_Some)
next
  case (stop_drain p A h)
  then show ?case by (auto simp: stop_flip_def tracked_def)
qed (auto simp: block_defs split: if_splits)

text \<open>
  Per slot: an unpublished worker is known to nobody else; at most one activity has claimed a
  slot, and only while it is assigned or draining; whoever is about to dispose of a slot finds
  it draining; a suspected slot is in the hands of one deferred reap and of nothing else.
\<close>

definition slot_ok :: "wpool \<Rightarrow> act multiset \<Rightarrow> string \<Rightarrow> bool" where
  "slot_ok p A i \<longleftrightarrow>
     acts (unpublished i) A \<le> 1
     \<and> (acts (unpublished i) A \<noteq> 0 \<longrightarrow> \<not> tracked p i \<and> acts (claims i) A = 0 \<and> acts (drains i) A = 0
          \<and> acts (disposes i) A = 0 \<and> acts (promotes i) A = 0 \<and> i \<notin> w_deferred p
          \<and> i \<notin> w_deferred_next p \<and> i \<notin> w_suspected p)
     \<and> acts (claims i) A \<le> 1
     \<and> (acts (claims i) A \<noteq> 0 \<longrightarrow> w_state p i = ASSIGNED \<or> w_state p i = DRAINING)
     \<and> (acts (drains i) A \<noteq> 0 \<or> acts (disposes i) A \<noteq> 0 \<or> i \<in> w_deferred p \<or> i \<in> w_deferred_next p \<longrightarrow>
          w_state p i = DRAINING)
     \<and> (\<not> w_stop p \<and> i \<in> w_suspected p \<longrightarrow>
          w_state p i = DRAINING \<and> acts (claims i) A = 0 \<and> acts (promotes i) A = 0 \<and> acts (disposes i) A = 0
          \<and> acts (drains i) A + of_bool (i \<in> w_deferred p) + of_bool (i \<in> w_deferred_next p) \<le> 1)"

fun inv_slots :: "sys \<Rightarrow> bool" where
  "inv_slots (p, A, h) \<longleftrightarrow> (\<forall>i. slot_ok p A i) \<and> (h_phase h = Checking \<longrightarrow> acts promote_act A = 0)"

lemma no_promotes: "acts promote_act A = 0 \<Longrightarrow> acts (promotes i) A = 0"
  unfolding acts_zero by (metis promote_act.simps(1) promotes.elims(2))

lemma slot_ok_other:
  assumes "slot_ok p A j"
    and "acts (unpublished j) B = acts (unpublished j) A" "acts (claims j) B = acts (claims j) A"
      "acts (drains j) B = acts (drains j) A" "acts (disposes j) B = acts (disposes j) A"
      "acts (promotes j) B = acts (promotes j) A"
    and "tracked q j = tracked p j" "w_state q j = w_state p j" "w_stop p \<longrightarrow> w_stop q"
      "j \<in> w_deferred q \<longleftrightarrow> j \<in> w_deferred p" "j \<in> w_deferred_next q \<longrightarrow> j \<in> w_deferred_next p"
      "j \<in> w_suspected q \<longrightarrow> j \<in> w_suspected p"
  shows "slot_ok q B j"
proof -
  have le: "of_bool (j \<in> w_deferred_next q) \<le> (of_bool (j \<in> w_deferred_next p) :: nat)"
    using assms(11) by simp
  show ?thesis
    using assms(1,9,11,12) le unfolding slot_ok_def assms(2-8,10) by linarith
qed

text \<open>A step that touches one slot only has that slot left to check.\<close>

definition others_same :: "string \<Rightarrow> wpool \<Rightarrow> act multiset \<Rightarrow> wpool \<Rightarrow> act multiset \<Rightarrow> bool" where
  "others_same i p A q B \<longleftrightarrow> (w_stop p \<longrightarrow> w_stop q) \<and> (\<forall>j. j \<noteq> i \<longrightarrow>
     acts (unpublished j) B = acts (unpublished j) A \<and> acts (claims j) B = acts (claims j) A
     \<and> acts (drains j) B = acts (drains j) A \<and> acts (disposes j) B = acts (disposes j) A
     \<and> acts (promotes j) B = acts (promotes j) A
     \<and> tracked q j = tracked p j \<and> w_state q j = w_state p j
     \<and> (j \<in> w_deferred q \<longleftrightarrow> j \<in> w_deferred p) \<and> (j \<in> w_deferred_next q \<longrightarrow> j \<in> w_deferred_next p)
     \<and> (j \<in> w_suspected q \<longrightarrow> j \<in> w_suspected p))"

text \<open>A step about one slot leaves every other slot alone, and keeps that one in order.\<close>

fun touches_only :: "string \<Rightarrow> sys \<Rightarrow> sys \<Rightarrow> bool" where
  "touches_only i (p, A, h) (q, B, g) \<longleftrightarrow> others_same i p A q B"

lemma step_touches: "step l s t \<Longrightarrow> l = Some i \<Longrightarrow> touches_only i s t"
  by (induction rule: step.induct)
     (auto simp: others_same_def block_defs split: if_splits)

fun ok_at :: "string \<Rightarrow> sys \<Rightarrow> bool" where
  "ok_at i (p, A, h) \<longleftrightarrow> slot_ok p A i"

fun quiet :: "sys \<Rightarrow> bool" where
  "quiet (p, A, h) \<longleftrightarrow> (h_phase h = Checking \<longrightarrow> acts promote_act A = 0)"

lemma step_quiet: "step l s t \<Longrightarrow> quiet s \<Longrightarrow> quiet t"
proof (induction rule: step.induct)
  case (to_check A p h)
  then show ?case by (simp add: acts_zero)
qed (auto split: if_splits)

lemma step_ok:
  "step l s t \<Longrightarrow> l = Some i \<Longrightarrow> inv_ids s \<Longrightarrow> quiet s \<Longrightarrow> ok_at i s \<Longrightarrow> ok_at i t"
proof (induction rule: step.induct)
  case (health_suspect h j p A)
  then have "acts (promotes i) A = 0" by (auto intro: no_promotes)
  with health_suspect show ?case by (auto simp: slot_ok_def block_defs)
next
  case (spawn_ok j h p A)
  then have "acts (about i) A = 0" by simp
  from about_zero [OF this] spawn_ok show ?case by (simp add: slot_ok_def block_defs)
next
  case (claim_take skip p j A h)
  then show ?case using claim_candidate_Some [of skip p j] by (auto simp: slot_ok_def)
next
  case (raise_handled p j r A h)
  then show ?case by (cases r) (auto simp: slot_ok_def undoes_def retries_def)
next
  case (reap_ok r p j A h)
  then show ?case by (cases r) (auto simp: slot_ok_def pop_on_success_def)
next
  case (reap_fail p j r A h)
  then show ?case by (cases r) (auto simp: slot_ok_def)
next
  case (reap_skip r j p A h)
  then show ?case by (cases r) (auto simp: slot_ok_def)
next
  case (reap_enter r j p A h)
  then show ?case by (cases r) (auto simp: slot_ok_def block_defs)
qed (auto simp: slot_ok_def block_defs)

lemma touches_only_ok: "touches_only i s t \<Longrightarrow> j \<noteq> i \<Longrightarrow> ok_at j s \<Longrightarrow> ok_at j t"
  by (cases s; cases t) (auto simp: others_same_def elim!: slot_ok_other)

text \<open>The steps about no slot in particular.\<close>

lemma step_none:
  "step l s t \<Longrightarrow> l = None \<Longrightarrow> ok_at j s \<Longrightarrow> ok_at j t"
proof (induction rule: step.induct)
  case (drain_merge p A h)
  then show ?case by (auto simp: slot_ok_def block_defs)
next
  case (stop_drain p A h)
  then show ?case by (auto simp: slot_ok_def block_defs tracked_def)
qed (auto simp: slot_ok_def)

lemma inv_slots_iff: "inv_slots s \<longleftrightarrow> (\<forall>i. ok_at i s) \<and> quiet s"
  by (cases s) auto

lemma inv_slots_step:
  assumes "step l s t" "inv_ids s" "inv_slots s"
  shows "inv_slots t"
proof (cases l)
  case None
  with assms step_none step_quiet show ?thesis unfolding inv_slots_iff by blast
next
  case (Some i)
  have "ok_at j t" for j
    using step_ok [OF assms(1) Some assms(2)] touches_only_ok [OF step_touches [OF assms(1) Some], of j] assms(3)
    unfolding inv_slots_iff by (cases "j = i") auto
  with assms step_quiet show ?thesis unfolding inv_slots_iff by blast
qed

lemma reachable_ids: "reachable n s \<Longrightarrow> inv_ids s"
  by (induction rule: reachable_induct) (auto simp: pool_init_def tracked_def intro: inv_ids_step)

lemma reachable_slots: "reachable n s \<Longrightarrow> inv_slots s"
proof (induction rule: reachable_induct)
  case init
  show ?case by (auto simp: pool_init_def slot_ok_def)
next
  case (step s t l)
  then show ?case by (blast intro: inv_slots_step reachable_ids)
qed

end
