(* ===== verification/Pool_Ownership.thy ===== *)
theory Pool_Ownership
  imports Pool_Protocol
begin

text \<open>
  Invariants of the slot lifecycle of \<open>Pool_Protocol\<close> over every interleaving, and what they
  give: exclusive claims, reaps of draining slots only, one reap at a time, one disposal per
  worker until shutdown, no lost worker; and the trace on which shutdown disposes twice.
\<close>

section \<open>Invariants\<close>

fun stop_act :: "act \<Rightarrow> bool" where
  "stop_act (ToReap _ r) = (r = ByStop)"
| "stop_act (Reaping _ r) = (r = ByStop)"
| "stop_act (ReapRaised _ r) = (r = ByStop)"
| "stop_act (StopPop _) = True"
| "stop_act _ = False"

fun popping :: "string \<Rightarrow> act \<Rightarrow> bool" where
  "popping i (StopPop j) = (i = j)"
| "popping i _ = False"

lemma acts_stop_popping [simp]: "acts (popping i) (stop_acts xs) = 0"
  by (simp add: acts_stop_acts)

fun single_flight :: "string \<Rightarrow> sys \<Rightarrow> bool" where
  "single_flight i (p, A, h) \<longleftrightarrow> acts (reaping_act i) A = of_bool (i \<in> w_reaping p)"

lemma step_single_flight: "step l s t \<Longrightarrow> single_flight i s \<Longrightarrow> single_flight i t"
  by (induction rule: step.induct) (auto simp: block_defs of_bool_def split: if_splits)

fun held_tracked :: "string \<Rightarrow> sys \<Rightarrow> bool" where
  "held_tracked i (p, A, h) \<longleftrightarrow> (acts (claims i) A \<noteq> 0 \<longrightarrow> w_state p i = ASSIGNED \<longrightarrow> tracked p i)"

lemma step_held_tracked:
  "step l s t \<Longrightarrow> ok_at i s \<Longrightarrow> held_tracked i s \<Longrightarrow> held_tracked i t"
proof (induction rule: step.induct)
  case (claim_take skip p j A h)
  then show ?case using claim_candidate_Some [of skip p j] by auto
next
  case (reap_ok r j p A h)
  then show ?case by (cases r) (auto simp: slot_ok_def)
qed (auto simp: slot_ok_def block_defs split: if_splits)

fun stop_flags :: "sys \<Rightarrow> bool" where
  "stop_flags (p, A, h) \<longleftrightarrow> (if h_flipped h then w_stop p else acts stop_act A = 0)"

lemma step_stop_flags: "step l s t \<Longrightarrow> stop_flags s \<Longrightarrow> stop_flags t"
  by (induction rule: step.induct) (auto simp: block_defs split: if_splits)

fun pops_disposed :: "sys \<Rightarrow> bool" where
  "pops_disposed (p, A, h) \<longleftrightarrow> (\<forall>i. acts (popping i) A \<noteq> 0 \<longrightarrow> i \<in> set (h_disposed h))"

lemma step_pops_disposed: "step l s t \<Longrightarrow> pops_disposed s \<Longrightarrow> pops_disposed t"
  by (induction rule: step.induct) (auto split: if_splits)

fun none_lost :: "sys \<Rightarrow> bool" where
  "none_lost (p, A, h) \<longleftrightarrow>
     (\<forall>i \<in> h_born h. tracked p i \<or> i \<in> set (h_disposed h) \<or> acts (unpublished i) A \<noteq> 0)"

lemma step_accounted: "step l s t \<Longrightarrow> pops_disposed s \<Longrightarrow> none_lost s \<Longrightarrow> none_lost t"
  by (induction rule: step.induct) (auto simp: block_defs split: if_splits)

fun gone :: "string \<Rightarrow> sys \<Rightarrow> bool" where
  "gone i (p, A, h) \<longleftrightarrow>
     (i \<in> set (h_disposed h) \<longrightarrow> acts (unpublished i) A = 0
        \<and> (tracked p i \<longrightarrow> h_flipped h \<and> w_state p i = DRAINING))"

lemma step_gone:
  "step l s t \<Longrightarrow> inv_ids s \<Longrightarrow> ok_at i s \<Longrightarrow> stop_flags s \<Longrightarrow> gone i s \<Longrightarrow> gone i t"
proof (induction rule: step.induct)
  case (claim_take skip p j A h)
  then show ?case using claim_candidate_Some [of skip p j] by auto
next
  case (raise_handled j p r A h)
  have u: "undoes j p \<Longrightarrow> \<not> w_stop p" by (simp add: undoes_def)
  from raise_handled show ?case by (cases r) (auto dest: u split: if_splits)
next
  case (reap_ok r j p A h)
  then show ?case by (cases r) (auto simp: slot_ok_def pop_on_success_def split: if_splits)
next
  case (reap_ok_stop j p A h)
  then show ?case by (auto simp: slot_ok_def pop_on_success_def split: if_splits)
qed (auto simp: block_defs split: if_splits)

fun once :: "string \<Rightarrow> sys \<Rightarrow> bool" where
  "once i (p, A, h) \<longleftrightarrow>
     (\<not> h_flipped h \<longrightarrow> count (mset (h_disposed h)) i \<le> 1 \<and> (i \<in> set (h_disposed h) \<longrightarrow> i \<notin> w_reaping p))"

lemma step_once:
  "step l s t \<Longrightarrow> stop_flags s \<Longrightarrow> single_flight i s \<Longrightarrow> gone i s \<Longrightarrow> once i s \<Longrightarrow> once i t"
proof (induction rule: step.induct)
  case (reap_enter r j p A h)
  then show ?case by (cases r) (auto simp: block_defs require_tracked_def split: if_splits)
next
  case (reap_ok r j p A h)
  then show ?case by (auto simp: count_mset_0_iff split: if_splits)
qed (auto simp: block_defs split: if_splits)

section \<open>Reachable states\<close>

lemma reachable_single_flight: "reachable n s \<Longrightarrow> single_flight i s"
  by (induction rule: reachable_induct) (auto simp: pool_init_def intro: step_single_flight)

lemma reachable_stop_flags: "reachable n s \<Longrightarrow> stop_flags s"
  by (induction rule: reachable_induct) (auto simp: pool_init_def intro: step_stop_flags)

lemma reachable_pops_disposed: "reachable n s \<Longrightarrow> pops_disposed s"
  by (induction rule: reachable_induct) (auto simp: pool_init_def intro: step_pops_disposed)

lemma reachable_ok: "reachable n s \<Longrightarrow> ok_at i s"
  using reachable_slots inv_slots_iff by blast

lemma reachable_held_tracked: "reachable n s \<Longrightarrow> held_tracked i s"
proof (induction rule: reachable_induct)
  case (step s t l)
  then show ?case by (blast intro: step_held_tracked reachable_ok)
qed (simp add: pool_init_def)

lemma reachable_accounted: "reachable n s \<Longrightarrow> none_lost s"
proof (induction rule: reachable_induct)
  case (step s t l)
  then show ?case by (blast intro: step_accounted reachable_pops_disposed)
qed (simp add: pool_init_def)

lemma reachable_gone: "reachable n s \<Longrightarrow> gone i s"
proof (induction rule: reachable_induct)
  case (step s t l)
  then show ?case by (blast intro: step_gone reachable_ids reachable_ok reachable_stop_flags)
qed (simp add: pool_init_def)

lemma reachable_once: "reachable n s \<Longrightarrow> once i s"
proof (induction rule: reachable_induct)
  case (step s t l)
  then show ?case by (blast intro: step_once reachable_single_flight reachable_gone reachable_stop_flags)
qed (simp add: pool_init_def)

lemma reaping_act_kinds:
  "acts (reaping_act i) A \<le> acts (drains i) A + acts (disposes i) A + acts (unpublished i) A"
proof (induction A)
  case (add a A)
  then show ?case by (cases a) auto
qed simp

lemma acts_member: "a \<in># A \<Longrightarrow> P a \<Longrightarrow> acts P A \<noteq> 0"
  using acts_zero by blast

text \<open>A worker is spawned, published, promoted and claimed; the holder is running a job on it.\<close>

definition demo_free :: wpool where
  "demo_free = promote ''a'' (track ''a'' (spawned ''a'' (fst (pool_init 1))))"

definition demo_history :: history where
  "demo_history = \<lparr>h_born = {''a''}, h_disposed = [], h_phase = Promoting, h_flipped = False\<rparr>"

definition demo_busy :: wpool where
  "demo_busy = set_state ''a'' ASSIGNED demo_free"

lemma demo_tracked [simp]: "tracked demo_free ''a''" "tracked demo_busy ''a''"
  by (simp_all add: demo_free_def demo_busy_def promote_def pool_init_def spawned_def)

lemma demo_facts [simp]:
  "w_state demo_free ''a'' = IDLE" "w_slots demo_free = [''a'']" "\<not> w_stop demo_free" "w_reaping demo_free = {}"
  "w_state demo_busy ''a'' = ASSIGNED" "w_slots demo_busy = [''a'']" "\<not> w_stop demo_busy" "w_reaping demo_busy = {}"
  by (simp_all add: demo_free_def demo_busy_def promote_def pool_init_def spawned_def track_def tracked_def set_state_def)

lemma reach_step: "reachable n s \<Longrightarrow> step l s t \<Longrightarrow> reachable n t"
  unfolding reachable_def by (metis (mono_tags, lifting) rtranclp.rtrancl_into_rtrancl)

lemma demo_free_reachable: "reachable 1 (demo_free, {#}, demo_history)"
proof -
  define p where "p = fst (pool_init 1)"
  define h where "h = \<lparr>h_born = {}, h_disposed = [], h_phase = Promoting, h_flipped = False\<rparr>"
  have i: "pool_init 1 = (p, {#}, h)" by (simp add: p_def h_def pool_init_def)
  have sl: "w_slots p = []" "w_ceiling p = 1" "\<not> w_stop p" by (simp_all add: p_def pool_init_def)
  have "reachable 1 (p, {#}, h)" unfolding i [symmetric] by (simp add: reachable_def)
  from reach_step [OF this step.spawn_start] have "reachable 1 (p, {#Spawning#}, h)" by (simp add: sl)
  from reach_step [OF this step.spawn_ok [of "''a''"]]
  have "reachable 1 (spawned ''a'' p, {#Publishing ''a''#}, demo_history)"
    by (simp add: h_def demo_history_def)
  from reach_step [OF this step.publish]
  have "reachable 1 (track ''a'' (spawned ''a'' p), {#}, demo_history)"
    by (simp add: sl drop_spawn_def spawned_def set_state_def)
  from reach_step [OF this step.promote_probe [of _ _ "''a''"]]
  have "reachable 1 (track ''a'' (spawned ''a'' p), {#PromoteProbe ''a''#}, demo_history)"
    by (simp add: demo_history_def spawned_def)
  from reach_step [OF this step.promote_ready] show ?thesis
    by (simp add: demo_free_def p_def)
qed

lemma demo_busy_reachable: "reachable 1 (demo_busy, {#Held ''a''#}, demo_history)"
proof -
  have "claim_candidate {} demo_free = Some ''a''" by (simp add: claim_candidate_def)
  from reach_step [OF demo_free_reachable step.claim_take [OF this]]
  have "reachable 1 (demo_busy, {#Probing ''a''#}, demo_history)" by (simp add: demo_busy_def)
  from reach_step [OF this step.claim_alive] show ?thesis .
qed

section \<open>Properties\<close>

text \<open>C5: At every reachable interleaving at most one claim (a job or a maintenance) has a slot, and
  then the slot is assigned or draining; while it is assigned the slot is tracked, no thread is
  reaping its worker, and the worker has not been disposed of.\<close>

theorem claim_exclusive:
  assumes "reachable n (p, A, h)"
  shows "acts (claims i) A \<le> 1
    \<and> (acts (claims i) A \<noteq> 0 \<longrightarrow> w_state p i = ASSIGNED \<or> w_state p i = DRAINING)
    \<and> (acts (claims i) A \<noteq> 0 \<and> w_state p i = ASSIGNED \<longrightarrow>
           tracked p i \<and> acts (reaping_act i) A = 0 \<and> i \<notin> set (h_disposed h))"
proof (intro conjI impI; (elim conjE)?)
  have ok: "slot_ok p A i" using reachable_ok [OF assms, of i] by simp
  then show "acts (claims i) A \<le> 1" by (simp add: slot_ok_def)
  show "w_state p i = ASSIGNED \<or> w_state p i = DRAINING" if "acts (claims i) A \<noteq> 0"
    using ok that by (simp add: slot_ok_def)
  assume c: "acts (claims i) A \<noteq> 0" and a: "w_state p i = ASSIGNED"
  with ok have "acts (drains i) A + acts (disposes i) A + acts (unpublished i) A = 0"
    by (auto simp: slot_ok_def)
  moreover have "tracked p i" using reachable_held_tracked [OF assms, of i] c a by simp
  moreover from this have "i \<notin> set (h_disposed h)" using reachable_gone [OF assms, of i] a by auto
  ultimately show "tracked p i" "acts (reaping_act i) A = 0" "i \<notin> set (h_disposed h)"
    using reaping_act_kinds [of i A] by simp_all
qed

theorem claim_exclusive_witness:
  "acts (claims ''a'') {#Held ''a''#} = 1 \<and> w_state demo_busy ''a'' = ASSIGNED
   \<and> tracked demo_busy ''a'' \<and> acts (reaping_act ''a'') {#Held ''a''#} = 0
   \<and> ''a'' \<notin> set (h_disposed demo_history)"
  using claim_exclusive [OF demo_busy_reachable, of "''a''"] by simp

text \<open>Whoever is about to reap a published slot, or is reaping it, has found it draining: no
  path destroys a worker that a claim could be handed, and a claim never picks such a slot.\<close>

theorem reap_only_draining:
  assumes "reachable n (p, A, h)" "ToReap i r \<in># A \<or> Reaping i r \<in># A" "r \<noteq> ByUnpublished"
  shows "w_state p i = DRAINING \<and> claim_candidate skip p \<noteq> Some i"
proof -
  have "acts (drains i) A \<noteq> 0 \<or> acts (disposes i) A \<noteq> 0"
    using assms(2,3) acts_member [of "ToReap i r" A "drains i"] acts_member [of "Reaping i r" A "drains i"]
      acts_member [of "ToReap i r" A "disposes i"] acts_member [of "Reaping i r" A "disposes i"]
    by (cases "r = ByDrain") auto
  with reachable_ok [OF assms(1), of i] have "w_state p i = DRAINING" by (auto simp: slot_ok_def)
  then show ?thesis using claim_candidate_Some [of skip p i] by auto
qed

lemma demo_release_reachable:
  "reachable 1 (begin_drain ''a'' demo_busy, {#ToReap ''a'' ByRelease#}, demo_history)"
  using reach_step [OF demo_busy_reachable step.release_drain] by simp

theorem reap_only_draining_witness:
  "w_state (begin_drain ''a'' demo_busy) ''a'' = DRAINING
   \<and> claim_candidate {} (begin_drain ''a'' demo_busy) \<noteq> Some ''a''"
  by (rule reap_only_draining [OF demo_release_reachable, of _ ByRelease]) simp_all

text \<open>Single flight: at most one thread is inside \<open>runtime.reap\<close> for a slot, exactly when the
  slot's id is in the reaping set.\<close>

theorem reap_single_flight:
  assumes "reachable n (p, A, h)"
  shows "acts (reaping_act i) A \<le> 1 \<and> (i \<in> w_reaping p \<longleftrightarrow> acts (reaping_act i) A = 1)"
  using reachable_single_flight [OF assms, of i] by simp

theorem reap_single_flight_witness:
  "acts (reaping_act ''a'') {#Held ''a''#} \<le> 1 \<and> ''a'' \<notin> w_reaping demo_busy"
  using reap_single_flight [OF demo_busy_reachable, of "''a''"] by simp

text \<open>Until shutdown starts to drain the slots, no worker is disposed of twice, and a disposed
  worker is no longer tracked.\<close>

theorem disposed_once:
  assumes "reachable n (p, A, h)" "\<not> h_flipped h"
  shows "distinct (h_disposed h) \<and> (i \<in> set (h_disposed h) \<longrightarrow> \<not> tracked p i)"
proof
  have "count (mset (h_disposed h)) j = (if j \<in> set (h_disposed h) then 1 else 0)" for j
    using reachable_once [OF assms(1), of j] assms(2) by (auto simp: le_Suc_eq count_mset_0_iff)
  then show "distinct (h_disposed h)" by (simp add: distinct_count_atmost_1)
  show "i \<in> set (h_disposed h) \<longrightarrow> \<not> tracked p i"
    using reachable_gone [OF assms(1), of i] assms(2) by simp
qed

lemma demo_reaped_reachable:
  "reachable 1 (after_return ByRelease True ''a'' (reap_end ByRelease True ''a'' (reap_begin ''a'' (begin_drain ''a'' demo_busy))),
     {#}, demo_history\<lparr>h_disposed := [''a'']\<rparr>)"
proof -
  have "may_reap ByRelease ''a'' (begin_drain ''a'' demo_busy)" by (simp add: may_reap_def begin_drain_def)
  note enter = reach_step [OF demo_release_reachable step.reap_enter [OF this]]
  show ?thesis
    using reach_step [OF enter step.reap_ok] by (simp add: demo_history_def)
qed

theorem disposed_once_witness:
  "distinct [''a'']
   \<and> \<not> tracked (after_return ByRelease True ''a'' (reap_end ByRelease True ''a''
         (reap_begin ''a'' (begin_drain ''a'' demo_busy)))) ''a''"
  using disposed_once [OF demo_reaped_reachable, of "''a''"] by (simp add: demo_history_def)

text \<open>No worker is lost: a worker that was spawned is tracked by the pool, or it has been
  disposed of, or one thread still holds it on its way to being published or reaped.\<close>

theorem no_worker_lost:
  assumes "reachable n (p, A, h)" "i \<in> h_born h"
  shows "tracked p i \<or> i \<in> set (h_disposed h) \<or> acts (unpublished i) A = 1"
  using reachable_accounted [OF assms(1)] reachable_ok [OF assms(1), of i] assms(2)
  by (fastforce simp: slot_ok_def)

theorem no_worker_lost_witness:
  "tracked demo_busy ''a'' \<or> ''a'' \<in> set (h_disposed demo_history) \<or> acts (unpublished ''a'') {#Held ''a''#} = 1"
  by (rule no_worker_lost [OF demo_busy_reachable]) (simp add: demo_history_def)

text \<open>Shutdown breaks the single disposal: it reaps without the pop, so between its reap and
  its own pop the holder of the same slot, whose release finds it still tracked, reaps the worker
  a second time.\<close>

theorem stop_can_reap_twice:
  "\<exists>s. reachable 1 s \<and> h_disposed (snd (snd s)) = [''a'', ''a'']"
proof -
  let ?b = "demo_busy\<lparr>w_stop := True\<rparr>"
  have "reachable 1 (?b, {#Held ''a''#}, demo_history)"
    by (rule reach_step [OF demo_busy_reachable step.stop_begin])
  from reach_step [OF this step.stop_drain]
  have "reachable 1 (stop_flip ?b, {#ToReap ''a'' ByStop, Held ''a''#}, demo_history\<lparr>h_flipped := True\<rparr>)"
    by (simp add: stop_acts_def add_mset_commute)
  moreover define q where "q = stop_flip ?b"
  moreover define h where "h = demo_history\<lparr>h_flipped := True\<rparr>"
  ultimately have r: "reachable 1 (q, {#ToReap ''a'' ByStop, Held ''a''#}, h)" by simp
  have q: "tracked q ''a''" "w_reaping q = {}" "h_disposed h = []"
    by (simp_all add: q_def stop_flip_def h_def demo_history_def)
  have "may_reap ByStop ''a'' q" by (simp add: may_reap_def q)
  from reach_step [OF r step.reap_enter [OF this]]
  have "reachable 1 (reap_begin ''a'' q, {#Reaping ''a'' ByStop, Held ''a''#}, h)" .
  from reach_step [OF this step.reap_ok_stop]
  have "reachable 1 (reap_end ByStop True ''a'' (reap_begin ''a'' q), {#StopPop ''a'', Held ''a''#},
          h\<lparr>h_disposed := [''a'']\<rparr>)" by (simp add: q)
  then have r2: "reachable 1 (reap_end ByStop True ''a'' (reap_begin ''a'' q),
      add_mset (Held ''a'') {#StopPop ''a''#}, h\<lparr>h_disposed := [''a'']\<rparr>)"
    by (simp add: add_mset_commute)
  define u where "u = reap_end ByStop True ''a'' (reap_begin ''a'' q)"
  have u: "tracked u ''a''" "w_reaping u = {}"
    by (simp_all add: u_def q pop_on_success_def reap_begin_def)
  from reach_step [OF r2 step.release_drain] u(1)
  have r3: "reachable 1 (begin_drain ''a'' u, add_mset (ToReap ''a'' ByRelease) {#StopPop ''a''#},
      h\<lparr>h_disposed := [''a'']\<rparr>)" by (simp add: u_def)
  have "may_reap ByRelease ''a'' (begin_drain ''a'' u)" by (simp add: may_reap_def begin_drain_def u)
  from reach_step [OF reach_step [OF r3 step.reap_enter [OF this]] step.reap_ok]
  show ?thesis by fastforce
qed

end
