(* ===== verification/Pool_Sizing.thy ===== *)
theory Pool_Sizing
  imports Blastbox_Prelude Complex_Main
begin

text \<open>
  \<^verbatim>\<open>host/pool.py\<close>: the numbers that say how many workers the pool keeps: the warm target and the
  ceiling with the thresholds derived from them (\<open>resize\<close>), the burst automaton
  (\<open>_record_demand_miss\<close>, \<open>_update_burst\<close>), the effective target, and the token bucket that
  limits spawns.  Times are clock readings.
\<close>

section \<open>State\<close>

record sizing =
  z_warm :: int
  z_ceiling :: int
  z_evict_cap :: int
  z_evict_explicit :: bool
  z_rebuild_after :: int
  z_rebuild_explicit :: bool
  z_autosized :: bool
  z_burst_size :: int
  z_trigger :: real
  z_drain :: real
  z_burst :: bool
  z_first_miss :: "real option"
  z_last_miss :: "real option"

section \<open>Targets and thresholds\<close>

definition rederive_warm_size_thresholds :: "sizing \<Rightarrow> sizing" where
  "rederive_warm_size_thresholds z =
     z\<lparr>z_evict_cap := (if z_evict_explicit z then z_evict_cap z else max 2 (z_warm z)),
       z_rebuild_after := (if z_rebuild_explicit z then z_rebuild_after z else max 4 (2 * max 1 (z_warm z)))\<rparr>"

definition clamp_warm :: "sizing \<Rightarrow> sizing" where
  "clamp_warm z = (if z_ceiling z < z_warm z then z\<lparr>z_warm := z_ceiling z\<rparr> else z)"

text \<open>The constructor's part; the two overrides are the caller's own thresholds.\<close>

definition init_sizing ::
  "int \<Rightarrow> int \<Rightarrow> int option \<Rightarrow> int option \<Rightarrow> int \<Rightarrow> real \<Rightarrow> real \<Rightarrow> sizing" where
  "init_sizing warm cap evictions rebuild burst trigger drain =
     rederive_warm_size_thresholds (clamp_warm
       \<lparr>z_warm = warm, z_ceiling = cap,
        z_evict_cap = (case evictions of None \<Rightarrow> max 2 warm | Some n \<Rightarrow> max 0 n),
        z_evict_explicit = (evictions \<noteq> None),
        z_rebuild_after = (case rebuild of None \<Rightarrow> max 4 (2 * max 1 warm) | Some n \<Rightarrow> max 0 n),
        z_rebuild_explicit = (rebuild \<noteq> None),
        z_autosized = False, z_burst_size = burst, z_trigger = trigger, z_drain = drain,
        z_burst = False, z_first_miss = None, z_last_miss = None\<rparr>)"

text \<open>\<open>resize\<close>: the \<open>ValueError\<close> it raises, if any, and the state it leaves behind; the fields
  assigned before the error stay assigned.\<close>

definition resize_warm :: "int option \<Rightarrow> bool \<Rightarrow> sizing \<Rightarrow> string option \<times> sizing" where
  "resize_warm warm mark z =
     (if (case warm of Some w \<Rightarrow> w < 0 | None \<Rightarrow> False) then (Some ''warm_size must be >= 0'', z)
      else let y = rederive_warm_size_thresholds (clamp_warm
                     (case warm of Some w \<Rightarrow> z\<lparr>z_warm := w\<rparr> | None \<Rightarrow> z))
           in (None, if mark then y\<lparr>z_autosized := True\<rparr> else y))"

definition resize :: "int option \<Rightarrow> int option \<Rightarrow> bool \<Rightarrow> sizing \<Rightarrow> string option \<times> sizing" where
  "resize warm cap mark z =
     (case cap of
        None \<Rightarrow> resize_warm warm mark z
      | Some c \<Rightarrow> if c < 1 then (Some ''concurrent_ceiling must be >= 1'', z)
                  else resize_warm warm mark (z\<lparr>z_ceiling := c\<rparr>))"

definition effective_target :: "sizing \<Rightarrow> int" where
  "effective_target z = (if z_burst z then min (z_warm z + z_burst_size z) (z_ceiling z) else z_warm z)"

section \<open>Burst\<close>

definition record_demand_miss :: "real \<Rightarrow> sizing \<Rightarrow> sizing" where
  "record_demand_miss now z =
     z\<lparr>z_first_miss := (case z_first_miss z of None \<Rightarrow> Some now | Some t \<Rightarrow> Some t), z_last_miss := Some now\<rparr>"

definition update_burst :: "bool \<Rightarrow> real \<Rightarrow> sizing \<Rightarrow> sizing" where
  "update_burst ready now z =
     (if \<not> ready then z\<lparr>z_first_miss := None, z_last_miss := None\<rparr>
      else if \<not> z_burst z then
        (case (z_first_miss z, z_last_miss z) of
           (Some t, Some _) \<Rightarrow> if z_trigger z \<le> now - t then z\<lparr>z_burst := True\<rparr> else z
         | _ \<Rightarrow> z)
      else if (case z_last_miss z of None \<Rightarrow> True | Some t \<Rightarrow> z_drain z \<le> now - t)
           then z\<lparr>z_burst := False, z_first_miss := None, z_last_miss := None\<rparr> else z)"

section \<open>Spawn rate\<close>

record bucket =
  b_rate :: real
  b_tokens :: real
  b_last :: real

definition new_bucket :: "real \<Rightarrow> real \<Rightarrow> bucket" where
  "new_bucket rate now = \<lparr>b_rate = rate, b_tokens = rate, b_last = now\<rparr>"

definition consume :: "nat \<Rightarrow> real \<Rightarrow> bucket \<Rightarrow> bool \<times> bucket" where
  "consume n now b =
     (let t = min (b_rate b) (b_tokens b + (now - b_last b) * b_rate b);
          c = b\<lparr>b_last := now, b_tokens := t\<rparr>
      in if real n \<le> t then (True, c\<lparr>b_tokens := t - real n\<rparr>) else (False, c))"

text \<open>The grants of a sequence of requests at the given times.\<close>

fun granted :: "(nat \<times> real) list \<Rightarrow> bucket \<Rightarrow> nat" where
  "granted [] b = 0"
| "granted ((n, t) # rs) b = (let (ok, c) = consume n t b in (if ok then n else 0) + granted rs c)"

section \<open>Serving\<close>

datatype serving_slot = Usable_Idle | Usable_Assigned | Other_State

definition serving_restore_failures :: nat where "serving_restore_failures = 3"

definition needs_recovery_probe :: "nat \<Rightarrow> bool" where
  "needs_recovery_probe streak \<longleftrightarrow> serving_restore_failures \<le> streak"

definition is_serving :: "serving_slot list \<Rightarrow> nat \<Rightarrow> bool" where
  "is_serving slots streak \<longleftrightarrow>
     list_ex (\<lambda>s. s = Usable_Idle \<or> s = Usable_Assigned) slots \<or> streak < serving_restore_failures"

definition is_healthy :: "serving_slot list \<Rightarrow> real option \<Rightarrow> real option \<Rightarrow> real \<Rightarrow> real \<Rightarrow> bool" where
  "is_healthy slots last_idle started grace now \<longleftrightarrow>
     list_ex (\<lambda>s. s = Usable_Idle) slots
     \<or> (case last_idle of Some t \<Rightarrow> now - t < 30 | None \<Rightarrow> False)
     \<or> (case started of Some t \<Rightarrow> now - t < grace | None \<Rightarrow> False)"

section \<open>Well-formed sizes\<close>

definition sizing_ok :: "sizing \<Rightarrow> bool" where
  "sizing_ok z \<longleftrightarrow> z_warm z \<le> z_ceiling z
     \<and> (\<not> z_evict_explicit z \<longrightarrow> z_evict_cap z = max 2 (z_warm z))
     \<and> (\<not> z_rebuild_explicit z \<longrightarrow> z_rebuild_after z = max 4 (2 * max 1 (z_warm z)))"

lemma rederive_ok: "sizing_ok (rederive_warm_size_thresholds (clamp_warm z))"
  by (simp add: sizing_ok_def rederive_warm_size_thresholds_def clamp_warm_def)

lemma init_sizing_ok: "sizing_ok (init_sizing w c e r b t d)"
  unfolding init_sizing_def by (rule rederive_ok)

lemma resize_warm_ok: "fst (resize_warm w m z) = None \<Longrightarrow> sizing_ok (snd (resize_warm w m z))"
  using rederive_ok [of "case w of Some w \<Rightarrow> z\<lparr>z_warm := w\<rparr> | None \<Rightarrow> z"]
  by (auto simp: resize_warm_def Let_def sizing_ok_def split: if_splits)

lemma resize_ok: "fst (resize w c m z) = None \<Longrightarrow> sizing_ok (snd (resize w c m z))"
  by (auto simp: resize_def resize_warm_ok split: option.splits if_splits)

lemma burst_keeps_ok [simp]:
  "sizing_ok (record_demand_miss now z) = sizing_ok z" "sizing_ok (update_burst ready now z) = sizing_ok z"
  by (auto simp: sizing_ok_def record_demand_miss_def update_burst_def split: option.splits)

datatype sizing_event = Miss real | Beat bool real | Resize "int option" "int option" bool

fun apply_event :: "sizing_event \<Rightarrow> sizing \<Rightarrow> sizing" where
  "apply_event (Miss t) z = record_demand_miss t z"
| "apply_event (Beat ready t) z = update_burst ready t z"
| "apply_event (Resize w c m) z = snd (resize w c m z)"

fun accepted :: "sizing_event \<Rightarrow> sizing \<Rightarrow> bool" where
  "accepted (Resize w c m) z = (fst (resize w c m z) = None)"
| "accepted _ z = True"

fun run_events :: "sizing_event list \<Rightarrow> sizing \<Rightarrow> sizing option" where
  "run_events [] z = Some z"
| "run_events (e # es) z = (if accepted e z then run_events es (apply_event e z) else None)"

lemma run_events_ok: "sizing_ok z \<Longrightarrow> run_events es z = Some y \<Longrightarrow> sizing_ok y"
proof (induction es arbitrary: z)
  case (Cons e es)
  then have "accepted e z" "run_events es (apply_event e z) = Some y" by (simp_all split: if_splits)
  moreover from this Cons.prems(1) have "sizing_ok (apply_event e z)" by (cases e) (simp_all add: resize_ok)
  ultimately show ?case using Cons.IH by blast
qed simp

lemma effective_target_ceiling: "sizing_ok z \<Longrightarrow> effective_target z \<le> z_ceiling z"
  by (simp add: sizing_ok_def effective_target_def)

section \<open>Properties\<close>

text \<open>As long as no \<open>resize\<close> is refused, any sequence of resizes, demand misses and burst
  updates leaves the warm target and the effective target within the ceiling, and the eviction cap
  and the rebuild threshold at the values derived from the current warm target.\<close>

theorem target_within_ceiling:
  assumes "run_events es (init_sizing w c e r b t d) = Some z"
  shows "effective_target z \<le> z_ceiling z \<and> z_warm z \<le> z_ceiling z
    \<and> (\<not> z_evict_explicit z \<longrightarrow> z_evict_cap z = max 2 (z_warm z))
    \<and> (\<not> z_rebuild_explicit z \<longrightarrow> z_rebuild_after z = max 4 (2 * max 1 (z_warm z)))"
  using run_events_ok [OF init_sizing_ok assms] effective_target_ceiling by (simp add: sizing_ok_def)

theorem target_within_ceiling_witness:
  "effective_target (snd (resize (Some 9) (Some 6) True (init_sizing 4 16 None None 4 3 60))) \<le> 6"
  using target_within_ceiling [of "[Resize (Some 9) (Some 6) True]" 4 16 None None 4 3 60]
  by (simp add: resize_def resize_warm_def rederive_warm_size_thresholds_def clamp_warm_def init_sizing_def Let_def)

text \<open>A refused \<open>resize\<close> is not a no-op: with an acceptable new ceiling and a negative warm
  size it raises after the ceiling was assigned, and the pool keeps a target above its ceiling.\<close>

theorem refused_resize_breaks_ceiling:
  "let z = init_sizing 8 16 None None 4 3 60; r = resize (Some (- 1)) (Some 2) True z
   in fst r = Some ''warm_size must be >= 0'' \<and> z_ceiling (snd r) = 2 \<and> effective_target (snd r) = 8"
  by (simp add: resize_def resize_warm_def rederive_warm_size_thresholds_def clamp_warm_def init_sizing_def
      effective_target_def Let_def)

text \<open>Burst needs no sustained demand: one miss, at any time, is enough; the first update that
  comes \<open>burst_trigger_s\<close> later switches burst on, however many claims were served in between.\<close>

theorem single_miss_activates_burst:
  assumes "\<not> z_burst z" "z_first_miss z = None" "z_trigger z \<le> now - t"
  shows "z_burst (update_burst True now (record_demand_miss t z))"
  using assms by (simp add: update_burst_def record_demand_miss_def)

theorem single_miss_activates_burst_witness:
  "z_burst (update_burst True 3600 (record_demand_miss 0 (init_sizing 4 16 None None 4 3 60)))"
  by (rule single_miss_activates_burst)
     (simp_all add: init_sizing_def rederive_warm_size_thresholds_def clamp_warm_def)

text \<open>Once on, burst lasts while the last miss is less than \<open>burst_drain_s\<close> old and goes off
  at the first update after that; it never goes on without a miss
  at least \<open>burst_trigger_s\<close> old, and never while the runtime is not ready.\<close>

theorem burst_hysteresis:
  "z_burst (update_burst ready now z) \<longleftrightarrow>
     (if z_burst z then \<not> ready \<or> (\<exists>t. z_last_miss z = Some t \<and> now - t < z_drain z)
      else ready \<and> z_last_miss z \<noteq> None \<and> (\<exists>t. z_first_miss z = Some t \<and> z_trigger z \<le> now - t))"
  by (auto simp: update_burst_def split: option.splits)

lemma consume_bounds:
  assumes "0 \<le> b_rate b" "b_tokens b \<le> b_rate b" "b_last b \<le> now" "consume n now b = (ok, c)"
  shows "b_rate c = b_rate b \<and> b_tokens c \<le> b_rate b \<and> b_last c = now
    \<and> (if ok then real n else 0) + b_tokens c \<le> b_tokens b + (now - b_last b) * b_rate b"
  using assms by (auto simp: consume_def Let_def split: if_splits)

lemma granted_bound:
  "0 \<le> b_rate b \<Longrightarrow> 0 \<le> b_tokens b \<Longrightarrow> b_tokens b \<le> b_rate b \<Longrightarrow> sorted (b_last b # map snd rs) \<Longrightarrow>
   real (granted rs b) \<le> b_tokens b + (last (b_last b # map snd rs) - b_last b) * b_rate b"
proof (induction rs arbitrary: b)
  case (Cons r rs)
  obtain n t where r: "r = (n, t)" by fastforce
  obtain ok c where c: "consume n t b = (ok, c)" by fastforce
  have le: "b_last b \<le> t" using Cons.prems(4) r by simp
  note cb = consume_bounds [OF Cons.prems(1,3) le c]
  have pos: "0 \<le> b_tokens c"
    using c Cons.prems(1,2) le by (auto simp: consume_def Let_def split: if_splits)
  have "sorted (b_last c # map snd rs)" using Cons.prems(4) r cb by simp
  then have "real (granted rs c) \<le> b_tokens c + (last (b_last c # map snd rs) - b_last c) * b_rate c"
    using Cons.IH [of c] Cons.prems(1) cb pos by simp
  moreover have "last (b_last b # map snd (r # rs)) = last (b_last c # map snd rs)"
    using cb r by simp
  ultimately show ?case using cb c r by (simp add: algebra_simps split: if_splits)
qed simp

text \<open>The token bucket bounds the spawn rate: over any sequence of requests at nondecreasing
  times, the tokens granted are at most one second's burst plus the rate times the elapsed time.\<close>

theorem spawn_rate_bounded:
  assumes "0 \<le> rate" "sorted (start # map snd rs)"
  shows "real (granted rs (new_bucket rate start)) \<le> rate + rate * (last (start # map snd rs) - start)"
  using granted_bound [of "new_bucket rate start" rs] assms by (simp add: new_bucket_def mult.commute)

theorem spawn_rate_bounded_witness:
  "real (granted [(1, 0), (1, 0), (1, 0), (1, 1)] (new_bucket 2 0)) \<le> 2 + 2 * (1 - 0)"
  using spawn_rate_bounded [of 2 0 "[(1, 0), (1, 0), (1, 0), (1, 1)]"] by simp

text \<open>A pool that stops serving has no idle and no assigned worker and asks for a recovery
  probe, so the fleet is never told to look elsewhere while a worker could take a job.\<close>

theorem not_serving_means_probe:
  "\<not> is_serving slots streak \<longleftrightarrow>
     Usable_Idle \<notin> set slots \<and> Usable_Assigned \<notin> set slots \<and> needs_recovery_probe streak"
  by (auto simp: is_serving_def needs_recovery_probe_def list_ex_iff)

end
