(* ===== verification/Pool_Health.thy ===== *)
theory Pool_Health
  imports Blastbox_Prelude "HOL-Library.AList" Complex_Main
begin

text \<open>
  \<^verbatim>\<open>host/pool.py\<close>: what the pool learns from finished jobs.  \<open>release\<close> files each outcome under the
  physical worker and under the base image it was restored from; a worker that keeps failing is
  burned out, within an eviction budget, and a base that keeps failing is invalidated and rebuilt
  (\<open>_maybe_rebuild_base\<close>, \<open>_invalidate_now\<close>).  Each locked block is a function on the record
  below; what other threads do between two blocks of one rebuild is a function argument.
\<close>

section \<open>State\<close>

record health =
  hp_key :: "(string \<times> string) list"
  hp_failures :: "(string \<times> nat) list"
  hp_success :: "(string \<times> real) list"
  hp_stamp :: "(string \<times> string \<times> nat) list"
  hp_generation :: "(string \<times> nat) list"
  hp_streak :: "(string \<times> nat) list"
  hp_pre_guest :: "(string \<times> string set) list"
  hp_clean :: nat
  hp_clean_by :: "(string \<times> nat) list"
  hp_spawn_streak :: nat
  hp_restore_streak :: nat
  hp_unproven :: "string set"
  hp_last_rebuild :: "real option"
  hp_winner :: "string set"
  hp_rebuilds :: nat
  hp_evictions :: "(real \<times> string) list"

record policy =
  hc_max_failures :: nat
  hc_max_jobs :: nat
  hc_evict_cap :: nat
  hc_evict_window :: real
  hc_rebuild_after :: nat
  hc_pre_guest_after :: nat
  hc_cooldown :: real

definition nat_get :: "(string \<times> nat) list \<Rightarrow> string \<Rightarrow> nat" where
  "nat_get d k = (case map_of d k of Some n \<Rightarrow> n | None \<Rightarrow> 0)"

definition set_get :: "(string \<times> string set) list \<Rightarrow> string \<Rightarrow> string set" where
  "set_get d k = (case map_of d k of Some s \<Rightarrow> s | None \<Rightarrow> {})"

section \<open>Keys and generations\<close>

text \<open>\<open>_health_key\<close>: the runtime's name of the physical worker, asked once per slot; an empty or a
  missing answer leaves the slot id.\<close>

definition health_key :: "(string \<Rightarrow> string option) \<Rightarrow> string \<Rightarrow> health \<Rightarrow> string \<times> health" where
  "health_key worker_identity sid h =
     (case map_of (hp_key h) sid of
        Some k \<Rightarrow> (k, h)
      | None \<Rightarrow>
          let k = (case worker_identity sid of Some w \<Rightarrow> if w = [] then sid else w | None \<Rightarrow> sid)
          in (k, h\<lparr>hp_key := AList.update sid k (hp_key h)\<rparr>))"

text \<open>A slot speaks for the base now installed unless it was restored from a retired generation.\<close>

definition current_stamp :: "string \<Rightarrow> health \<Rightarrow> bool" where
  "current_stamp sid h = (case map_of (hp_stamp h) sid of
     None \<Rightarrow> True | Some (base, g) \<Rightarrow> g = nat_get (hp_generation h) base)"

definition advance_base_generation :: "string \<Rightarrow> health \<Rightarrow> health" where
  "advance_base_generation name h =
     h\<lparr>hp_generation := AList.update name (nat_get (hp_generation h) name + 1) (hp_generation h)\<rparr>"

section \<open>Release accounting\<close>

text \<open>A job the worker answered, whether it succeeded or failed on its own account.\<close>

definition account_served :: "string \<Rightarrow> string \<Rightarrow> string \<Rightarrow> health \<Rightarrow> health" where
  "account_served sid hkey ident h =
     (let cur = current_stamp sid h
      in h\<lparr>hp_failures := AList.delete hkey (hp_failures h),
           hp_streak := AList.delete ident (hp_streak h),
           hp_pre_guest := (if cur then AList.delete ident (hp_pre_guest h) else hp_pre_guest h),
           hp_spawn_streak := 0,
           hp_unproven := hp_unproven h - {sid},
           hp_restore_streak := (if cur then 0 else hp_restore_streak h),
           hp_clean := (if cur then hp_clean h + 1 else hp_clean h),
           hp_clean_by := (if cur then AList.update ident (nat_get (hp_clean_by h) ident + 1) (hp_clean_by h)
                           else hp_clean_by h)\<rparr>)"

definition account_worker_fault :: "string \<Rightarrow> string \<Rightarrow> string \<Rightarrow> string \<Rightarrow> health \<Rightarrow> health" where
  "account_worker_fault sid hkey ident stage h =
     (let k = h\<lparr>hp_failures := AList.update hkey (nat_get (hp_failures h) hkey + 1) (hp_failures h)\<rparr>
      in if current_stamp sid h
         then k\<lparr>hp_streak := AList.update ident (nat_get (hp_streak h) ident + 1) (hp_streak h),
                hp_pre_guest := (if stage = ''pre_guest''
                  then AList.update ident (insert sid (set_get (hp_pre_guest h) ident)) (hp_pre_guest h)
                  else hp_pre_guest h)\<rparr>
         else k)"

text \<open>A dirty release that names no fault is of an unknown one, and proves nothing.\<close>

definition named_fault :: "bool \<Rightarrow> string option \<Rightarrow> string option" where
  "named_fault dirty fault =
     (if \<not> dirty then None else case fault of None \<Rightarrow> Some ''unknown''
        | Some f \<Rightarrow> if f = [] then Some ''unknown'' else Some f)"

definition release_account ::
  "real \<Rightarrow> string \<Rightarrow> string \<Rightarrow> string \<Rightarrow> bool \<Rightarrow> string option \<Rightarrow> string \<Rightarrow> health \<Rightarrow> nat \<times> health" where
  "release_account now sid hkey ident tracked fault stage h =
     (if \<not> tracked
      then (0, h\<lparr>hp_key := AList.delete sid (hp_key h), hp_stamp := AList.delete sid (hp_stamp h)\<rparr>)
      else let k = (case fault of
             None \<Rightarrow> (account_served sid hkey ident h)\<lparr>hp_success := AList.update hkey now (hp_success h)\<rparr>
           | Some f \<Rightarrow> if f = ''job'' then account_served sid hkey ident h
                       else if f = ''worker'' then account_worker_fault sid hkey ident stage h
                       else h)
           in (nat_get (hp_failures k) hkey, k))"

section \<open>The eviction budget\<close>

definition recent_evictions :: "policy \<Rightarrow> real \<Rightarrow> (real \<times> string) list \<Rightarrow> (real \<times> string) list" where
  "recent_evictions c now es = filter (\<lambda>e. now - fst e < hc_evict_window c) es"

definition eviction_allowed :: "policy \<Rightarrow> real \<Rightarrow> string \<Rightarrow> health \<Rightarrow> bool \<times> health" where
  "eviction_allowed c now owner h =
     (if hc_evict_cap c = 0 then (False, h)
      else if hc_evict_window c \<le> 0 then (True, h)
      else let es = recent_evictions c now (hp_evictions h)
           in if hc_evict_cap c \<le> length es then (False, h\<lparr>hp_evictions := es\<rparr>)
              else (True, h\<lparr>hp_evictions := es @ [(now, owner)]\<rparr>))"

fun drop_first_owner :: "string \<Rightarrow> (real \<times> string) list \<Rightarrow> (real \<times> string) list" where
  "drop_first_owner owner [] = []"
| "drop_first_owner owner (e # es) = (if snd e = owner then es else e # drop_first_owner owner es)"

text \<open>\<open>_refund_eviction_unlocked\<close>: the newest reservation of that owner.\<close>

definition refund_eviction :: "string \<Rightarrow> health \<Rightarrow> health" where
  "refund_eviction owner h = h\<lparr>hp_evictions := rev (drop_first_owner owner (rev (hp_evictions h)))\<rparr>"

definition burned_out :: "policy \<Rightarrow> real \<Rightarrow> string \<Rightarrow> nat \<Rightarrow> health \<Rightarrow> bool \<times> health" where
  "burned_out c now sid slot_failures h =
     (if 0 < hc_max_failures c \<and> hc_max_failures c \<le> slot_failures
      then eviction_allowed c now sid h else (False, h))"

text \<open>A released slot is recycled, or else drained and reaped.\<close>

definition recycles :: "policy \<Rightarrow> bool \<Rightarrow> bool \<Rightarrow> bool \<Rightarrow> nat \<Rightarrow> bool" where
  "recycles c recyclable tracked burned jobs \<longleftrightarrow>
     recyclable \<and> tracked \<and> \<not> burned \<and> \<not> (hc_max_jobs c \<noteq> 0 \<and> hc_max_jobs c \<le> jobs)"

section \<open>Base rebuilds\<close>

text \<open>Python's \<open>max(items, key=..., default=...)\<close>: the first of the largest.\<close>

fun max_item :: "('a \<Rightarrow> nat) \<Rightarrow> string \<times> 'a \<Rightarrow> (string \<times> 'a) list \<Rightarrow> string \<times> 'a" where
  "max_item f d [] = d"
| "max_item f d (x # xs) = foldl (\<lambda>best y. if f (snd best) < f (snd y) then y else best) x xs"

datatype rebuild_reason = JobFaults | SpawnFaults

record episode =
  e_reason :: rebuild_reason
  e_ident :: string
  e_count :: nat
  e_slots :: "string set"
  e_token :: nat
  e_scope :: "string list"

text \<open>The evidence a job-side decision consumes, taken under the lock.\<close>

definition pick_episode :: "policy \<Rightarrow> health \<Rightarrow> episode option \<times> health" where
  "pick_episode c h =
     (if hc_rebuild_after c = 0 then (None, h\<lparr>hp_pre_guest := []\<rparr>)
      else let worst = max_item (\<lambda>n. n) ('''', 0) (hp_streak h);
               pre = max_item card ('''', {}) (hp_pre_guest h);
               crossed = (0 < hc_pre_guest_after c \<and> hc_pre_guest_after c \<le> card (snd pre));
               w = (if crossed then (fst pre, card (snd pre)) else worst)
           in if snd worst < hc_rebuild_after c \<and> \<not> crossed then (None, h)
              else (Some \<lparr>e_reason = JobFaults, e_ident = fst w, e_count = snd w,
                          e_slots = set_get (hp_pre_guest h) (fst w),
                          e_token = nat_get (hp_clean_by h) (fst w), e_scope = []\<rparr>,
                    h\<lparr>hp_streak := AList.delete (fst w) (hp_streak h),
                      hp_pre_guest := AList.delete (fst w) (hp_pre_guest h)\<rparr>))"

definition scoped_clean_releases :: "string list \<Rightarrow> health \<Rightarrow> nat" where
  "scoped_clean_releases scope h = sum_list (map (nat_get (hp_clean_by h)) scope)"

text \<open>The restore-side decision carries its own streak; \<open>guilty\<close> are the identities the runtime
  names after the success counters were read.\<close>

definition spawn_episode :: "policy \<Rightarrow> nat \<Rightarrow> string list \<Rightarrow> health \<Rightarrow> episode option \<times> health" where
  "spawn_episode c streak guilty h =
     (if hc_rebuild_after c = 0 then (None, h\<lparr>hp_pre_guest := []\<rparr>)
      else if streak < hc_rebuild_after c then (None, h)
      else (Some \<lparr>e_reason = SpawnFaults, e_ident = '''', e_count = streak, e_slots = {},
                  e_token = (if guilty \<noteq> [] then scoped_clean_releases guilty h else hp_clean h),
                  e_scope = guilty\<rparr>, h))"

definition succeeded_since :: "episode \<Rightarrow> health \<Rightarrow> bool" where
  "succeeded_since e h \<longleftrightarrow>
     (if e_scope e \<noteq> [] then scoped_clean_releases (e_scope e) h \<noteq> e_token e
      else if e_ident e = [] then hp_clean h \<noteq> e_token e
      else nat_get (hp_clean_by h) (e_ident e) \<noteq> e_token e)"

definition restore_episode :: "episode \<Rightarrow> health \<Rightarrow> health" where
  "restore_episode e h =
     (if e_reason e = SpawnFaults \<or> succeeded_since e h then h
      else h\<lparr>hp_streak := AList.update (e_ident e) (max (nat_get (hp_streak h) (e_ident e)) (e_count e)) (hp_streak h),
             hp_pre_guest := (if e_slots e = {} then hp_pre_guest h
               else AList.update (e_ident e) (set_get (hp_pre_guest h) (e_ident e) \<union> e_slots e) (hp_pre_guest h))\<rparr>)"

definition cooling :: "policy \<Rightarrow> real \<Rightarrow> health \<Rightarrow> bool" where
  "cooling c now h \<longleftrightarrow>
     0 < hc_cooldown c \<and> (case hp_last_rebuild h of None \<Rightarrow> False | Some t \<Rightarrow> now - t < hc_cooldown c)"

text \<open>Suppressed by the cooldown of an earlier repair.\<close>

definition forget_episode :: "episode \<Rightarrow> health \<Rightarrow> health" where
  "forget_episode e h = h\<lparr>hp_streak := AList.delete (e_ident e) (hp_streak h),
     hp_pre_guest := AList.delete (e_ident e) (hp_pre_guest h)\<rparr>"

definition suppressed :: "episode \<Rightarrow> health \<Rightarrow> health" where
  "suppressed e h =
     (if e_reason e = SpawnFaults
      then (if e_scope e = [] \<or> list_ex (\<lambda>i. i \<in> hp_winner h) (e_scope e) then h\<lparr>hp_spawn_streak := 0\<rparr> else h)
      else if e_ident e \<in> hp_winner h then forget_episode e h else restore_episode e h)"

text \<open>Under the invalidation lock: another repair completed while this one waited.  The time of
  that repair is tested for truth here, so a repair at clock 0 does not count.\<close>

definition raced :: "policy \<Rightarrow> real \<Rightarrow> health \<Rightarrow> bool" where
  "raced c now h \<longleftrightarrow> 0 < hc_cooldown c
     \<and> (case hp_last_rebuild h of None \<Rightarrow> False | Some t \<Rightarrow> t \<noteq> 0 \<and> now - t < hc_cooldown c)"

definition lost_race :: "episode \<Rightarrow> health \<Rightarrow> health" where
  "lost_race e h = (if e_ident e \<in> hp_winner h then h else restore_episode e h)"

text \<open>What the runtime's \<open>invalidate_base\<close> did: it named the bases it repaired, it named none, or it
  raised after repairing some.\<close>

datatype drop_result = Repaired "string list" | Unnamed | Failed "string list"

definition retire_bases :: "string list \<Rightarrow> health \<Rightarrow> health" where
  "retire_bases names h = fold advance_base_generation (remdups names) h"

definition forget_bases :: "string list \<Rightarrow> health \<Rightarrow> health" where
  "forget_bases names h = h\<lparr>hp_streak := filter (\<lambda>x. fst x \<notin> set names) (hp_streak h)\<rparr>"

definition forget_pre_guest :: "string list \<Rightarrow> health \<Rightarrow> health" where
  "forget_pre_guest names h = h\<lparr>hp_pre_guest := filter (\<lambda>x. fst x \<notin> set names) (hp_pre_guest h)\<rparr>"

definition repair_failed :: "string list \<Rightarrow> episode \<Rightarrow> health \<Rightarrow> health" where
  "repair_failed names e h =
     (let k = (if names = [] then h
               else (forget_pre_guest names (forget_bases names (retire_bases names h)))
                      \<lparr>hp_winner := hp_winner h \<union> set names\<rparr>)
      in if e_reason e = SpawnFaults then k else restore_episode e k)"

text \<open>The commit; a runtime that names no base may have replaced any base a slot came from.\<close>

definition commit_repair :: "real \<Rightarrow> string list option \<Rightarrow> episode \<Rightarrow> health \<Rightarrow> health" where
  "commit_repair now named e h =
     (let committed = (case named of Some ns \<Rightarrow> if ns = [] then [e_ident e] else ns | None \<Rightarrow> [e_ident e]);
          forgot = (if e_reason e = SpawnFaults then h\<lparr>hp_spawn_streak := 0\<rparr> else forget_bases [e_ident e] h);
          cleared = forget_pre_guest (case named of Some ns \<Rightarrow> ns | None \<Rightarrow> [e_ident e])
                      (forget_bases committed forgot);
          retired = retire_bases (case named of Some ns \<Rightarrow> ns | None \<Rightarrow> '''' # map (fst \<circ> snd) (hp_stamp h)) cleared
      in retired\<lparr>hp_winner := set committed, hp_last_rebuild := Some now\<rparr>)"

definition invalidate_now :: "real \<Rightarrow> drop_result \<Rightarrow> episode \<Rightarrow> health \<Rightarrow> bool \<times> health" where
  "invalidate_now now r e h =
     (case r of Failed names \<Rightarrow> (False, repair_failed names e h)
      | Repaired names \<Rightarrow> (True, commit_repair now (Some names) e h)
      | Unnamed \<Rightarrow> (True, commit_repair now None e h))"

text \<open>The decision on an episode that was picked: \<open>env1\<close> is what other threads did before the
  cooldown is read, \<open>env2\<close> while waiting for the invalidation lock, \<open>env3\<close> during the repair.\<close>

definition rebuild_base ::
  "policy \<Rightarrow> real \<Rightarrow> nat \<Rightarrow> bool \<Rightarrow> (health \<Rightarrow> health) \<Rightarrow> (health \<Rightarrow> health) \<Rightarrow> (health \<Rightarrow> health)
     \<Rightarrow> drop_result \<Rightarrow> episode \<Rightarrow> health \<Rightarrow> bool \<times> health" where
  "rebuild_base c now usable can_drop env1 env2 env3 r e h =
     (let h1 = env1 h in
      if cooling c now h1 then (False, suppressed e h1)
      else if e_reason e = SpawnFaults \<and> 0 < usable then (False, h1)
      else if \<not> can_drop then (False, h1)
      else if succeeded_since e h1 then (False, h1)
      else let h2 = env2 (h1\<lparr>hp_rebuilds := hp_rebuilds h1 + 1\<rparr>) in
        if raced c now h2 then (False, lost_race e h2)
        else if succeeded_since e h2 then (False, h2)
        else invalidate_now now r e (env3 h2))"

section \<open>Lemmas\<close>

lemma nat_get_update [simp]:
  "nat_get (AList.update k v d) j = (if j = k then v else nat_get d j)"
  by (simp add: nat_get_def update_conv)

lemma nat_get_delete [simp]: "nat_get (AList.delete k d) j = (if j = k then 0 else nat_get d j)"
  by (simp add: nat_get_def delete_conv)

lemma set_get_delete [simp]: "set_get (AList.delete k d) j = (if j = k then {} else set_get d j)"
  by (simp add: set_get_def delete_conv)

lemma account_simps [simp]:
  "hp_stamp (account_served s k b h) = hp_stamp h" "hp_generation (account_served s k b h) = hp_generation h"
  "hp_stamp (account_worker_fault s k b st h) = hp_stamp h"
  "hp_generation (account_worker_fault s k b st h) = hp_generation h"
  "hp_failures (account_served s k b h) = AList.delete k (hp_failures h)"
  "hp_failures (account_worker_fault s k b st h) = AList.update k (nat_get (hp_failures h) k + 1) (hp_failures h)"
  by (simp_all add: account_served_def account_worker_fault_def Let_def)

text \<open>The outcomes of one physical worker, newest last.\<close>

record release_event =
  r_slot :: string
  r_key :: string
  r_base :: string
  r_fault :: "string option"
  r_stage :: string
  r_time :: real

definition do_release :: "release_event \<Rightarrow> health \<Rightarrow> health" where
  "do_release r h = snd (release_account (r_time r) (r_slot r) (r_key r) (r_base r) True (r_fault r) (r_stage r) h)"

fun streak_step :: "string \<Rightarrow> nat \<Rightarrow> release_event \<Rightarrow> nat" where
  "streak_step k n r =
     (if r_key r \<noteq> k then n
      else case r_fault r of None \<Rightarrow> 0
        | Some f \<Rightarrow> if f = ''job'' then 0 else if f = ''worker'' then n + 1 else n)"

lemma do_release_failures:
  "nat_get (hp_failures (do_release r h)) k = streak_step k (nat_get (hp_failures h) k) r"
  by (auto simp: do_release_def release_account_def Let_def split: option.splits)

lemma releases_failures:
  "nat_get (hp_failures (fold do_release rs h)) k = foldl (streak_step k) (nat_get (hp_failures h) k) rs"
  by (induction rs arbitrary: h) (simp_all add: do_release_failures)

lemma max_item_mem: "xs \<noteq> [] \<Longrightarrow> max_item f d xs \<in> set xs"
proof (cases xs)
  case (Cons y ys)
  have "foldl (\<lambda>best y. if f (snd best) < f (snd y) then y else best) x ys \<in> insert x (set ys)" for x
  proof (induction ys arbitrary: x)
    case (Cons w ws)
    show ?case using Cons.IH [of "if f (snd x) < f (snd w) then w else x"] by (auto split: if_splits)
  qed simp
  then show ?thesis using Cons by simp
qed simp

lemma max_item_ge:
  assumes "(k, v) \<in> set xs"
  shows "f v \<le> f (snd (max_item f d xs))"
proof (cases xs)
  case (Cons y ys)
  have "f (snd z) \<le> f (snd (foldl (\<lambda>best y. if f (snd best) < f (snd y) then y else best) x ys))"
    if "z \<in> set (x # ys)" for x z
    using that
  proof (induction ys arbitrary: x z)
    case (Cons w ws)
    let ?b = "if f (snd x) < f (snd w) then w else x"
    have b: "f (snd ?b) \<le> f (snd (foldl (\<lambda>best y. if f (snd best) < f (snd y) then y else best) ?b ws))"
      using Cons.IH [of ?b ?b] by simp
    show ?case
    proof (cases "z \<in> set ws")
      case True
      then show ?thesis using Cons.IH [of z ?b] by simp
    next
      case False
      then have "f (snd z) \<le> f (snd ?b)" using Cons.prems by auto
      then show ?thesis using b by simp
    qed
  qed simp
  from this [of "(k, v)" y] show ?thesis using assms Cons by simp
qed (use assms in simp)

lemma retire_generation:
  "nat_get (hp_generation (retire_bases ns h)) b = nat_get (hp_generation h) b + (if b \<in> set ns then 1 else 0)"
proof -
  have "nat_get (hp_generation (fold advance_base_generation ms h)) b
      = nat_get (hp_generation h) b + (if b \<in> set ms then 1 else 0)" if "distinct ms" for ms h
    using that by (induction ms arbitrary: h) (auto simp: advance_base_generation_def)
  from this [of "remdups ns"] show ?thesis by (simp add: retire_bases_def)
qed

lemma retire_facts [simp]:
  "hp_stamp (retire_bases ns h) = hp_stamp h" "hp_streak (retire_bases ns h) = hp_streak h"
  "hp_pre_guest (retire_bases ns h) = hp_pre_guest h" "hp_clean (retire_bases ns h) = hp_clean h"
  "hp_clean_by (retire_bases ns h) = hp_clean_by h" "hp_spawn_streak (retire_bases ns h) = hp_spawn_streak h"
proof -
  have "hp_stamp (fold advance_base_generation ms h) = hp_stamp h
    \<and> hp_streak (fold advance_base_generation ms h) = hp_streak h
    \<and> hp_pre_guest (fold advance_base_generation ms h) = hp_pre_guest h
    \<and> hp_clean (fold advance_base_generation ms h) = hp_clean h
    \<and> hp_clean_by (fold advance_base_generation ms h) = hp_clean_by h
    \<and> hp_spawn_streak (fold advance_base_generation ms h) = hp_spawn_streak h" for ms
    by (induction ms arbitrary: h) (simp_all add: advance_base_generation_def)
  from this [of "remdups ns"] show
    "hp_stamp (retire_bases ns h) = hp_stamp h" "hp_streak (retire_bases ns h) = hp_streak h"
    "hp_pre_guest (retire_bases ns h) = hp_pre_guest h" "hp_clean (retire_bases ns h) = hp_clean h"
    "hp_clean_by (retire_bases ns h) = hp_clean_by h" "hp_spawn_streak (retire_bases ns h) = hp_spawn_streak h"
    by (simp_all add: retire_bases_def)
qed

lemma forget_facts [simp]:
  "hp_stamp (forget_bases ns h) = hp_stamp h" "hp_generation (forget_bases ns h) = hp_generation h"
  "hp_stamp (forget_pre_guest ns h) = hp_stamp h" "hp_generation (forget_pre_guest ns h) = hp_generation h"
  "hp_clean (forget_bases ns h) = hp_clean h" "hp_clean_by (forget_bases ns h) = hp_clean_by h"
  "hp_clean (forget_pre_guest ns h) = hp_clean h" "hp_clean_by (forget_pre_guest ns h) = hp_clean_by h"
  by (simp_all add: forget_bases_def forget_pre_guest_def)

lemma commit_generation:
  "nat_get (hp_generation (commit_repair now named e h)) b =
     nat_get (hp_generation h) b
     + (if b \<in> (case named of Some ns \<Rightarrow> set ns | None \<Rightarrow> insert '''' (fst ` snd ` set (hp_stamp h))) then 1 else 0)"
  by (cases named) (auto simp: commit_repair_def Let_def retire_generation image_image)

lemma commit_stamp: "hp_stamp (commit_repair now named e h) = hp_stamp h"
  by (simp add: commit_repair_def Let_def split: option.splits)

section \<open>Eviction grants\<close>

fun grants :: "policy \<Rightarrow> (real \<times> string) list \<Rightarrow> health \<Rightarrow> real list" where
  "grants c [] h = []"
| "grants c ((t, o') # rs) h =
     (let (ok, k) = eviction_allowed c t o' h in if ok then t # grants c rs k else grants c rs k)"

lemma recent_twice:
  assumes "s \<le> t"
  shows "recent_evictions c t (recent_evictions c s es) = recent_evictions c t es"
  using assms by (induction es) (auto simp: recent_evictions_def)

text \<open>At every later time the recorded evictions count at least the grants of the window.\<close>

lemma grants_window:
  assumes "0 < hc_evict_window c" "0 < hc_evict_cap c"
  shows "sorted (map fst rs) \<Longrightarrow> \<forall>r \<in> set rs. fst r \<le> now \<Longrightarrow>
    length (recent_evictions c now (hp_evictions h)) \<le> hc_evict_cap c \<Longrightarrow>
    length (recent_evictions c now (hp_evictions h))
      + length (filter (\<lambda>t. now - t < hc_evict_window c) (grants c rs h)) \<le> hc_evict_cap c"
proof (induction rs arbitrary: h)
  case (Cons r rs)
  obtain t ow where r: "r = (t, ow)" by fastforce
  have tn: "t \<le> now" using Cons.prems(2) r by simp
  let ?es = "recent_evictions c t (hp_evictions h)"
  have es: "recent_evictions c now ?es = recent_evictions c now (hp_evictions h)"
    by (rule recent_twice [OF tn])
  have le: "length (recent_evictions c now (hp_evictions h)) \<le> length ?es"
    unfolding es [symmetric] by (subst (1) recent_evictions_def) (rule length_filter_le)
  note IH = Cons.IH [of "h\<lparr>hp_evictions := ?es\<rparr>"]
  have app: "recent_evictions c now (?es @ [(t, ow)])
      = recent_evictions c now (hp_evictions h) @ (if now - t < hc_evict_window c then [(t, ow)] else [])"
    using es by (simp add: recent_evictions_def)
  show ?case
  proof (cases "hc_evict_cap c \<le> length ?es")
    case True
    then show ?thesis using IH Cons.prems assms r es
      by (simp add: eviction_allowed_def Let_def)
  next
    case False
    let ?k = "h\<lparr>hp_evictions := ?es @ [(t, ow)]\<rparr>"
    have g: "grants c (r # rs) h = t # grants c rs ?k"
      using False assms r by (simp add: eviction_allowed_def Let_def)
    have "length (recent_evictions c now (hp_evictions ?k)) \<le> hc_evict_cap c"
      using False le Cons.prems(3) by (simp add: app)
    then have "length (recent_evictions c now (hp_evictions ?k))
        + length (filter (\<lambda>t. now - t < hc_evict_window c) (grants c rs ?k)) \<le> hc_evict_cap c"
      using Cons.IH [of ?k] Cons.prems(1,2) r by simp
    then show ?thesis unfolding g by (simp add: app split: if_splits)
  qed
qed simp

section \<open>Properties\<close>

text \<open>A worker is burned out only by consecutive worker faults of its own: the counter that
  \<open>release\<close> compares with the limit is the number of worker faults of that physical worker since its
  last answered job, whatever other workers and faults of unknown cause do in between.\<close>

theorem failure_streak_is_consecutive:
  "nat_get (hp_failures (fold do_release rs h)) k = foldl (streak_step k) (nat_get (hp_failures h) k) rs"
  by (rule releases_failures)

text \<open>The eviction budget: over any nondecreasing sequence of requests, no window of
  \<open>eviction_window_s\<close> ending at the last request or later holds more grants than the cap.\<close>

theorem eviction_budget:
  assumes "0 < hc_evict_window c" "0 < hc_evict_cap c" "hp_evictions h = []"
    and "sorted (map fst rs)" "\<forall>r \<in> set rs. fst r \<le> now"
  shows "length (filter (\<lambda>t. now - t < hc_evict_window c) (grants c rs h)) \<le> hc_evict_cap c"
  using grants_window [OF assms(1,2,4,5), of h] assms(3) by (simp add: recent_evictions_def)

definition demo_policy :: policy where
  "demo_policy = \<lparr>hc_max_failures = 2, hc_max_jobs = 0, hc_evict_cap = 1, hc_evict_window = 600,
     hc_rebuild_after = 2, hc_pre_guest_after = 3, hc_cooldown = 300\<rparr>"

definition fresh_health :: health where
  "fresh_health = \<lparr>hp_key = [], hp_failures = [], hp_success = [], hp_stamp = [], hp_generation = [],
     hp_streak = [], hp_pre_guest = [], hp_clean = 0, hp_clean_by = [], hp_spawn_streak = 0,
     hp_restore_streak = 0, hp_unproven = {}, hp_last_rebuild = None, hp_winner = {}, hp_rebuilds = 0,
     hp_evictions = []\<rparr>"

theorem eviction_budget_witness:
  "length (filter (\<lambda>t. 700 - t < 600) (grants demo_policy [(0, ''a''), (5, ''b''), (700, ''c'')] fresh_health)) \<le> 1"
  using eviction_budget [of demo_policy fresh_health "[(0, ''a''), (5, ''b''), (700, ''c'')]" 700]
  by (simp add: demo_policy_def fresh_health_def)

text \<open>A worker fault of a slot restored from a retired generation is filed under the worker only:
  neither the streak nor the pre-guest evidence of any base moves.\<close>

theorem retired_failure_convicts_no_base:
  assumes "\<not> current_stamp sid h"
  shows "hp_streak (snd (release_account now sid k b True (Some ''worker'') st h)) = hp_streak h
    \<and> hp_pre_guest (snd (release_account now sid k b True (Some ''worker'') st h)) = hp_pre_guest h
    \<and> fst (release_account now sid k b True (Some ''worker'') st h) = nat_get (hp_failures h) k + 1"
  using assms by (simp add: release_account_def account_worker_fault_def Let_def)

definition retired_health :: health where
  "retired_health = fresh_health\<lparr>hp_stamp := [(''s'', ''tier'', 0)], hp_generation := [(''tier'', 1)],
     hp_streak := [(''tier'', 1)]\<rparr>"

theorem retired_failure_convicts_no_base_witness:
  "hp_streak (snd (release_account 0 ''s'' ''s'' ''tier'' True (Some ''worker'') '''' retired_health)) = [(''tier'', 1)]"
proof -
  have "\<not> current_stamp ''s'' retired_health"
    by (simp add: current_stamp_def retired_health_def nat_get_def)
  from retired_failure_convicts_no_base [OF this, of 0 "''s''" "''tier''" "''''"] show ?thesis
    by (simp add: retired_health_def)
qed

text \<open>The guard is on one side only: a late success of a slot restored from a retired generation
  still wipes the streak that the base installed since has collected, and the spawn failures.\<close>

theorem retired_success_wipes_streak:
  assumes "\<not> current_stamp sid h"
  shows "nat_get (hp_streak (snd (release_account now sid k b True None st h))) b = 0
    \<and> hp_spawn_streak (snd (release_account now sid k b True None st h)) = 0
    \<and> hp_clean (snd (release_account now sid k b True None st h)) = hp_clean h"
  using assms by (simp add: release_account_def account_served_def Let_def)

theorem retired_success_wipes_streak_witness:
  "nat_get (hp_streak retired_health) ''tier'' = 1
   \<and> nat_get (hp_streak (snd (release_account 0 ''s'' ''s'' ''tier'' True None '''' retired_health))) ''tier'' = 0"
proof -
  have "\<not> current_stamp ''s'' retired_health"
    by (simp add: current_stamp_def retired_health_def nat_get_def)
  from retired_success_wipes_streak [OF this, of 0 "''s''" "''tier''" "''''"] show ?thesis
    by (simp add: retired_health_def nat_get_def)
qed

text \<open>C38: A job-side decision is taken only on evidence over a threshold, a streak of worker faults
  or enough distinct slots that never reached their guest, and takes that evidence away, so that no
  second thread can decide on it.\<close>

theorem conviction_needs_evidence:
  assumes "pick_episode c h = (Some e, k)"
  shows "(\<exists>n. (e_ident e, n) \<in> set (hp_streak h) \<and> hc_rebuild_after c \<le> n \<and> e_count e = n
          \<or> (\<exists>s. (e_ident e, s) \<in> set (hp_pre_guest h) \<and> 0 < hc_pre_guest_after c
                \<and> hc_pre_guest_after c \<le> card s \<and> e_count e = card s))
    \<and> nat_get (hp_streak k) (e_ident e) = 0 \<and> set_get (hp_pre_guest k) (e_ident e) = {}
    \<and> e_token e = nat_get (hp_clean_by h) (e_ident e)"
proof -
  let ?w = "max_item (\<lambda>n. n) ('''', 0) (hp_streak h)" and ?p = "max_item card ('''', {}) (hp_pre_guest h)"
  let ?x = "0 < hc_pre_guest_after c \<and> hc_pre_guest_after c \<le> card (snd ?p)"
  have nz: "hc_rebuild_after c \<noteq> 0" using assms by (auto simp: pick_episode_def split: if_splits)
  have some: "\<not> (snd ?w < hc_rebuild_after c \<and> \<not> ?x)"
    using assms nz by (auto simp: pick_episode_def Let_def split: if_splits)
  have parts: "e_ident e = (if ?x then fst ?p else fst ?w)" "e_count e = (if ?x then card (snd ?p) else snd ?w)"
    "e_token e = nat_get (hp_clean_by h) (e_ident e)"
    "hp_streak k = AList.delete (e_ident e) (hp_streak h)" "hp_pre_guest k = AList.delete (e_ident e) (hp_pre_guest h)"
    using assms nz some by (auto simp: pick_episode_def Let_def)
  have "?p \<in> set (hp_pre_guest h)" if ?x
    using that by (intro max_item_mem) auto
  moreover have "?w \<in> set (hp_streak h)" if "\<not> ?x"
    using that some nz by (intro max_item_mem) auto
  ultimately show ?thesis using parts some
    by (metis (no_types, lifting) nat_get_delete not_less prod.collapse set_get_delete)
qed

definition poisoned_health :: health where
  "poisoned_health = fresh_health\<lparr>hp_streak := [(''a'', 1), (''b'', 2)], hp_stamp := [(''s'', ''b'', 0)]\<rparr>"

definition poisoned_episode :: episode where
  "poisoned_episode = \<lparr>e_reason = JobFaults, e_ident = ''b'', e_count = 2, e_slots = {}, e_token = 0, e_scope = []\<rparr>"

lemma pick_poisoned:
  "pick_episode demo_policy poisoned_health = (Some poisoned_episode, poisoned_health\<lparr>hp_streak := [(''a'', 1)]\<rparr>)"
  by (simp add: pick_episode_def demo_policy_def poisoned_health_def poisoned_episode_def fresh_health_def
      set_get_def nat_get_def Let_def)

theorem conviction_needs_evidence_witness:
  "nat_get (hp_streak (poisoned_health\<lparr>hp_streak := [(''a'', 1)]\<rparr>)) ''b'' = 0 \<and> e_token poisoned_episode = 0"
  using conviction_needs_evidence [OF pick_poisoned] by (simp add: poisoned_episode_def poisoned_health_def
      fresh_health_def nat_get_def)

text \<open>Whatever other threads do meanwhile, a base is invalidated only if no job succeeded on it
  between the decision and the repair, no repair was cooling down when the decision was judged, and
  the runtime can rebuild; the commit stamps the time of the repair.\<close>

theorem no_rebuild_after_success:
  assumes "rebuild_base c now usable can_drop env1 env2 env3 r e h = (True, k)"
  shows "\<not> succeeded_since e (env1 h)
    \<and> \<not> succeeded_since e (env2 ((env1 h)\<lparr>hp_rebuilds := hp_rebuilds (env1 h) + 1\<rparr>))
    \<and> \<not> cooling c now (env1 h) \<and> can_drop
    \<and> (e_reason e = SpawnFaults \<longrightarrow> usable = 0) \<and> hp_last_rebuild k = Some now"
proof -
  let ?h2 = "env2 ((env1 h)\<lparr>hp_rebuilds := hp_rebuilds (env1 h) + 1\<rparr>)"
  have run: "\<not> cooling c now (env1 h)" "\<not> (e_reason e = SpawnFaults \<and> 0 < usable)" "can_drop"
    "\<not> succeeded_since e (env1 h)" "\<not> succeeded_since e ?h2" "invalidate_now now r e (env3 ?h2) = (True, k)"
    using assms by (auto simp: rebuild_base_def Let_def split: if_splits)
  from run(6) have "hp_last_rebuild k = Some now"
    by (auto simp: invalidate_now_def commit_repair_def Let_def split: drop_result.splits)
  with run(1-5) show ?thesis by auto
qed

lemma rebuild_poisoned:
  "rebuild_base demo_policy 10 1 True id id id (Repaired [''b'']) poisoned_episode
     (poisoned_health\<lparr>hp_streak := [(''a'', 1)]\<rparr>)
   = (True, commit_repair 10 (Some [''b'']) poisoned_episode (poisoned_health\<lparr>hp_streak := [(''a'', 1)], hp_rebuilds := 1\<rparr>))"
  by (simp add: rebuild_base_def Let_def demo_policy_def poisoned_episode_def poisoned_health_def fresh_health_def
      succeeded_since_def cooling_def raced_def invalidate_now_def nat_get_def)

theorem no_rebuild_after_success_witness:
  "hp_last_rebuild (commit_repair 10 (Some [''b'']) poisoned_episode
     (poisoned_health\<lparr>hp_streak := [(''a'', 1)], hp_rebuilds := 1\<rparr>)) = Some 10"
  using no_rebuild_after_success [OF rebuild_poisoned] by simp

text \<open>A committed repair retires every slot restored from a base it replaced: none of them speaks
  for the new base any more, so its faults cannot convict it.\<close>

theorem repair_retires_slots:
  assumes "map_of (hp_stamp h) sid = Some (base, g)" "current_stamp sid h"
    and "base \<in> (case named of Some ns \<Rightarrow> set ns | None \<Rightarrow> insert '''' (fst ` snd ` set (hp_stamp h)))"
  shows "\<not> current_stamp sid (commit_repair now named e h)"
  using assms commit_generation [of now named e h base] by (simp add: current_stamp_def commit_stamp)

theorem repair_retires_slots_witness:
  "current_stamp ''s'' poisoned_health \<and> \<not> current_stamp ''s'' (commit_repair 10 None poisoned_episode poisoned_health)"
proof -
  have m: "map_of (hp_stamp poisoned_health) ''s'' = Some (''b'', 0)" by (simp add: poisoned_health_def)
  have c: "current_stamp ''s'' poisoned_health"
    by (simp add: current_stamp_def poisoned_health_def fresh_health_def nat_get_def)
  show ?thesis using repair_retires_slots [OF m c, of None 10 poisoned_episode] c
    by (simp add: poisoned_health_def)
qed

text \<open>A decision that did not repair hands its evidence back: after a failed repair, or a cooldown
  opened for another base, the base's streak is at least what the decision took, unless the base
  has succeeded since.\<close>

theorem evidence_handed_back:
  assumes "e_reason e = JobFaults" "\<not> succeeded_since e h"
  shows "e_count e \<le> nat_get (hp_streak (repair_failed names e h)) (e_ident e)
    \<and> (e_ident e \<notin> hp_winner h \<longrightarrow> e_count e \<le> nat_get (hp_streak (suppressed e h)) (e_ident e)
         \<and> e_count e \<le> nat_get (hp_streak (lost_race e h)) (e_ident e))"
proof -
  have r: "e_count e \<le> nat_get (hp_streak (restore_episode e k)) (e_ident e)" if "\<not> succeeded_since e k" for k
    using that assms(1) by (simp add: restore_episode_def)
  define k where "k = (forget_pre_guest names (forget_bases names (retire_bases names h)))
        \<lparr>hp_winner := hp_winner h \<union> set names\<rparr>"
  have "succeeded_since e k = succeeded_since e h"
    by (simp add: k_def succeeded_since_def scoped_clean_releases_def)
  then have "e_count e \<le> nat_get (hp_streak (restore_episode e k)) (e_ident e)" using assms(2) r by blast
  moreover have "e_count e \<le> nat_get (hp_streak (restore_episode e h)) (e_ident e)" using assms(2) r by blast
  ultimately show ?thesis
    using assms(1) by (simp add: repair_failed_def suppressed_def lost_race_def k_def)
qed

theorem evidence_handed_back_witness:
  "2 \<le> nat_get (hp_streak (repair_failed [] poisoned_episode fresh_health)) ''b''"
  using evidence_handed_back [of poisoned_episode fresh_health "[]"]
  by (simp add: poisoned_episode_def fresh_health_def succeeded_since_def nat_get_def)

text \<open>Evidence filed under no base name can never lead to a repair once any named base has served
  a job: the decision keeps the unnamed base's own success count as its token but compares it with
  the pool-wide count, so it is judged stale at once, and the evidence it consumed is gone.\<close>

theorem unnamed_base_never_rebuilt:
  assumes "pick_episode c h = (Some e, k)" "e_ident e = ''''" "hp_clean h \<noteq> nat_get (hp_clean_by h) ''''"
    and "\<not> cooling c now k"
  shows "rebuild_base c now usable can_drop id id id r e k = (False, k) \<and> nat_get (hp_streak k) '''' = 0"
proof -
  have e: "e_token e = nat_get (hp_clean_by h) (e_ident e)" "e_reason e = JobFaults" "e_scope e = []"
    "hp_clean k = hp_clean h" "hp_streak k = AList.delete (e_ident e) (hp_streak h)"
    using assms(1) by (auto simp: pick_episode_def Let_def split: if_splits)
  then have "succeeded_since e k" using assms(2,3) by (simp add: succeeded_since_def)
  then show ?thesis using assms(2,4) e by (simp add: rebuild_base_def)
qed

definition mixed_health :: health where
  "mixed_health = fresh_health\<lparr>hp_streak := [('''', 2)], hp_clean := 1, hp_clean_by := [(''b'', 1)]\<rparr>"

theorem unnamed_base_never_rebuilt_witness:
  "rebuild_base demo_policy 10 0 True id id id Unnamed
     \<lparr>e_reason = JobFaults, e_ident = '''', e_count = 2, e_slots = {}, e_token = 0, e_scope = []\<rparr>
     (mixed_health\<lparr>hp_streak := []\<rparr>) = (False, mixed_health\<lparr>hp_streak := []\<rparr>)"
proof -
  have p: "pick_episode demo_policy mixed_health
    = (Some \<lparr>e_reason = JobFaults, e_ident = '''', e_count = 2, e_slots = {}, e_token = 0, e_scope = []\<rparr>,
       mixed_health\<lparr>hp_streak := []\<rparr>)"
    by (simp add: pick_episode_def demo_policy_def mixed_health_def fresh_health_def set_get_def nat_get_def Let_def)
  show ?thesis using unnamed_base_never_rebuilt [OF p]
    by (simp add: mixed_health_def fresh_health_def nat_get_def cooling_def)
qed

end
