(* ===== verification/Net_Policy.thy ===== *)
theory Net_Policy
  imports Blastbox_Prelude 
begin

text \<open>
  \<^verbatim>\<open>host/netpolicy.py\<close>: the declared network personalities and the fail-closed resolution of a
  job's effective one.  The environment is an insertion-ordered list of variables.
\<close>

section \<open>Personalities\<close>

definition VALID_EXIT_DRIVERS :: "string list" where
  "VALID_EXIT_DRIVERS = [''none'', ''drop'', ''direct'', ''inetsim'', ''tor'', ''socks'', ''httpproxy'',
     ''wireguard'', ''openvpn'']"

record personality =
  pn_name :: string
  pn_exit :: string
  pn_inspect :: bool
  pn_config :: "(string \<times> string) list"

definition NONE :: personality where
  "NONE = \<lparr>pn_name = ''none'', pn_exit = ''none'', pn_inspect = False, pn_config = []\<rparr>"

definition NETPOLICY_PREFIX :: string where
  "NETPOLICY_PREFIX = ''BLASTBOX_NETPOLICY_''"

text \<open>\<open>item.partition("=")\<close> on an item that contains the sign.\<close>

definition partition_eq :: "string \<Rightarrow> string \<times> string" where
  "partition_eq s = (takeWhile (\<lambda>c. c \<noteq> CHR ''='') s, drop 1 (dropWhile (\<lambda>c. c \<noteq> CHR ''='') s))"

text \<open>The entries of a declaration; \<^const>\<open>None\<close> when one of them is not a pair.\<close>

fun parse_items :: "string list \<Rightarrow> (string \<times> string) list \<Rightarrow> (string \<times> string) list option" where
  "parse_items [] kv = Some kv"
| "parse_items (raw # items) kv =
     (let item = py_strip raw in
      if item = [] then parse_items items kv
      else if CHR ''='' \<notin> set item then None
      else let (k, v) = partition_eq item
           in parse_items items (AList.update (py_lower (py_strip k)) (py_strip v) kv))"

definition parse_decl :: "string \<Rightarrow> string \<Rightarrow> personality option" where
  "parse_decl name raw =
     (case parse_items (split_on CHR '','' raw) [] of
        None \<Rightarrow> None
      | Some kv \<Rightarrow>
          let exit_driver = (case map_of kv ''exit'' of None \<Rightarrow> '''' | Some e \<Rightarrow> e);
              kv1 = AList.delete ''exit'' kv;
              insp = (case map_of kv1 ''inspect'' of None \<Rightarrow> '''' | Some v \<Rightarrow> v)
          in if exit_driver \<notin> set VALID_EXIT_DRIVERS then None
             else Some \<lparr>pn_name = name, pn_exit = exit_driver,
                        pn_inspect = py_lower insp \<in> {''1'', ''true'', ''yes'', ''on''},
                        pn_config = AList.delete ''inspect'' kv1\<rparr>)"

definition add_decl :: "string \<times> string \<Rightarrow> (string \<times> personality) list \<Rightarrow> (string \<times> personality) list" where
  "add_decl kv registry =
     (let (env_key, raw) = kv; name = py_lower (drop (length NETPOLICY_PREFIX) env_key)
      in if \<not> startswith env_key NETPOLICY_PREFIX \<or> name = [] \<or> name = ''none'' then registry
         else case parse_decl name raw of None \<Rightarrow> registry | Some p \<Rightarrow> AList.update name p registry)"

definition parse_personalities :: "(string \<times> string) list \<Rightarrow> (string \<times> personality) list" where
  "parse_personalities env = fold add_decl env [(''none'', NONE)]"

text \<open>The two fallbacks: the engine's declared default, then the registry's own \<open>none\<close>.\<close>

definition resolve_default :: "string \<Rightarrow> (string \<times> personality) list \<Rightarrow> personality" where
  "resolve_default engine_default registry =
     (case map_of registry engine_default of
        Some p \<Rightarrow> p
      | None \<Rightarrow> (case map_of registry ''none'' of Some p \<Rightarrow> p | None \<Rightarrow> NONE))"

definition resolve_net_policy ::
  "string option \<Rightarrow> string \<Rightarrow> (string \<times> personality) list \<Rightarrow> bool \<Rightarrow> personality" where
  "resolve_net_policy job_net_policy engine_default registry allow_override =
     (case job_net_policy of
        Some n \<Rightarrow>
          (case (if allow_override \<and> n \<noteq> [] then map_of registry n else None) of
             Some p \<Rightarrow> p | None \<Rightarrow> resolve_default engine_default registry)
      | None \<Rightarrow> resolve_default engine_default registry)"

section \<open>Registries\<close>

text \<open>Where a registered personality comes from: \<open>none\<close>, or a declaration in the environment.\<close>

definition declares :: "(string \<times> string) list \<Rightarrow> string \<Rightarrow> personality \<Rightarrow> bool" where
  "declares env n p \<longleftrightarrow> (\<exists>k raw. (k, raw) \<in> set env \<and> startswith k NETPOLICY_PREFIX
     \<and> n = py_lower (drop (length NETPOLICY_PREFIX) k) \<and> n \<noteq> ''none'' \<and> parse_decl n raw = Some p)"

definition registry_ok :: "(string \<times> string) list \<Rightarrow> (string \<times> personality) list \<Rightarrow> bool" where
  "registry_ok env r \<longleftrightarrow> map_of r ''none'' = Some NONE
     \<and> (\<forall>n p. map_of r n = Some p \<longrightarrow> n = ''none'' \<or> declares env n p)"

lemma parse_decl_valid:
  "parse_decl n raw = Some p \<Longrightarrow> pn_name p = n \<and> pn_exit p \<in> set VALID_EXIT_DRIVERS"
  by (auto simp: parse_decl_def Let_def split: option.splits if_splits)

lemma add_decl_ok:
  assumes "registry_ok env r" "kv \<in> set env"
  shows "registry_ok env (add_decl kv r)"
proof -
  obtain k raw where kv: "kv = (k, raw)" by fastforce
  let ?n = "py_lower (drop (length NETPOLICY_PREFIX) k)"
  show ?thesis
  proof (cases "startswith k NETPOLICY_PREFIX \<and> ?n \<noteq> [] \<and> ?n \<noteq> ''none''")
    case False
    then show ?thesis using assms(1) kv by (auto simp: add_decl_def)
  next
    case True
    show ?thesis
    proof (cases "parse_decl ?n raw")
      case None
      then show ?thesis using assms(1) kv True by (simp add: add_decl_def)
    next
      case (Some p)
      have "declares env ?n p" unfolding declares_def using assms(2) kv True Some by blast
      then show ?thesis using assms(1) kv True Some
        by (auto simp: add_decl_def registry_ok_def update_conv Let_def)
    qed
  qed
qed

lemma parse_personalities_ok: "registry_ok env (parse_personalities env)"
proof -
  have "registry_ok env (fold add_decl xs r)" if "registry_ok env r" "set xs \<subseteq> set env" for xs r
    using that by (induction xs arbitrary: r) (auto simp: add_decl_ok)
  from this [of "[(''none'', NONE)]" env] show ?thesis
    by (simp add: parse_personalities_def registry_ok_def)
qed

section \<open>Properties\<close>

text \<open>Network policy fails closed.  Whatever the environment, the job and the engine say, the
  effective personality is the built-in \<open>none\<close>, or one that an environment variable declares with a
  valid exit driver under a name other than \<open>none\<close>, and that name is the engine's default, or the
  job's own request where overrides are allowed.\<close>

theorem net_policy_fails_closed:
  "let p = resolve_net_policy want dflt (parse_personalities env) allow
   in p = NONE
      \<or> (\<exists>n. declares env n p \<and> pn_name p = n \<and> pn_exit p \<in> set VALID_EXIT_DRIVERS \<and> n \<noteq> ''none''
            \<and> (n = dflt \<or> allow \<and> want = Some n))"
proof -
  let ?r = "parse_personalities env" and ?p = "resolve_net_policy want dflt (parse_personalities env) allow"
  have none: "map_of ?r ''none'' = Some NONE" and reg: "\<And>n p. map_of ?r n = Some p \<Longrightarrow> n = ''none'' \<or> declares env n p"
    using parse_personalities_ok [of env] by (auto simp: registry_ok_def)
  have "?p = NONE \<or> (\<exists>n. map_of ?r n = Some ?p \<and> (n = dflt \<or> allow \<and> want = Some n))"
    by (auto simp: resolve_net_policy_def resolve_default_def none split: option.splits)
  then consider "?p = NONE" | n where "map_of ?r n = Some ?p" "n = dflt \<or> allow \<and> want = Some n" by blast
  then show ?thesis
  proof cases
    case 2
    show ?thesis
    proof (cases "n = ''none''")
      case False
      then have d: "declares env n ?p" using reg [OF 2(1)] by simp
      then obtain raw where "parse_decl n raw = Some ?p" unfolding declares_def by blast
      with d False 2(2) parse_decl_valid show ?thesis unfolding Let_def by blast
    qed (use 2 none in simp)
  qed simp
qed

text \<open>The reserved name cannot be redefined.\<close>

lemma none_reserved: "map_of (parse_personalities env) ''none'' = Some NONE"
  using parse_personalities_ok by (simp add: registry_ok_def)

end
