(* ===== verification/Dispatch_Backoff.thy ===== *)
theory Dispatch_Backoff
  imports Blastbox_Prelude
begin

text \<open>
  \<^verbatim>\<open>host/dispatch.py\<close>: how long a dispatcher stays away from a job it had to hand back, because
  its egress is degraded or its certificate does not grant the work: the attempt counters with
  their eviction floor (\<open>_bump_egress_defer\<close>, \<open>_note_grants_refusal\<close>) and the two windows computed
  from them (\<open>_egress_defer_plan\<close>).
\<close>

section \<open>State\<close>

definition EGRESS_DEFER_MAX :: nat where "EGRESS_DEFER_MAX = 4096"
definition EGRESS_DEFER_EVICT :: nat where "EGRESS_DEFER_EVICT = 1024"

record backoff =
  bo_n :: "(string \<times> nat) list"
  bo_floor :: nat

definition bo_get :: "(string \<times> nat) list \<Rightarrow> string \<Rightarrow> nat" where
  "bo_get d k = (case map_of d k of Some n \<Rightarrow> n | None \<Rightarrow> 0)"

section \<open>Operations\<close>

text \<open>What the store is told and how long this node stays away, for attempt \<open>n\<close>, counted from 1.\<close>

definition egress_defer_plan :: "real \<Rightarrow> real \<Rightarrow> nat \<Rightarrow> real \<times> real" where
  "egress_defer_plan cap shared n =
     (let local = min cap (2 * 2 ^ min (n - 1) 8) in (min shared local, local))"

definition evict_stale :: "string \<Rightarrow> string \<times> nat \<Rightarrow> backoff \<Rightarrow> backoff" where
  "evict_stale own kv b =
     (if fst kv = own then b
      else b\<lparr>bo_floor := max (bo_floor b) (snd kv), bo_n := AList.delete (fst kv) (bo_n b)\<rparr>)"

definition shrink :: "string \<Rightarrow> backoff \<Rightarrow> backoff" where
  "shrink own b =
     (if EGRESS_DEFER_MAX < length (bo_n b)
      then fold (evict_stale own) (take EGRESS_DEFER_EVICT (sort_key snd (bo_n b))) b else b)"

definition bump_egress_defer :: "string \<Rightarrow> backoff \<Rightarrow> nat \<times> backoff" where
  "bump_egress_defer own b =
     (let n = max (bo_get (bo_n b) own) (bo_floor b) + 1
      in (n, shrink own (b\<lparr>bo_n := AList.update own n (bo_n b)\<rparr>)))"

text \<open>A job this node may run again drops its counter; the floor goes with the last one.\<close>

definition clear_defer :: "string \<Rightarrow> backoff \<Rightarrow> backoff" where
  "clear_defer own b =
     (let d = AList.delete own (bo_n b)
      in b\<lparr>bo_n := d, bo_floor := (if d = [] then 0 else bo_floor b)\<rparr>)"

text \<open>The refusals of the grants gate keep counters of their own, with the end of each local
  cooldown; the clock is read when the cooldown is written and again when expired ones are dropped.\<close>

record grants_defer = backoff +
  gd_cooldown :: "(string \<times> real) list"

definition note_grants_refusal ::
  "real \<Rightarrow> real \<Rightarrow> real \<Rightarrow> real \<Rightarrow> string \<Rightarrow> grants_defer \<Rightarrow> (nat \<times> real) \<times> grants_defer" where
  "note_grants_refusal cap shared now now' own g =
     (let b = \<lparr>bo_n = bo_n g, bo_floor = bo_floor g\<rparr>;
          (n, b') = bump_egress_defer own b;
          (shared_defer, local) = egress_defer_plan cap shared n;
          cool = AList.update own (now + local) (gd_cooldown g);
          full = EGRESS_DEFER_MAX < length (AList.update own n (bo_n g))
      in ((n, shared_defer),
          \<lparr>bo_n = bo_n b', bo_floor = bo_floor b',
           gd_cooldown = (if full then filter (\<lambda>kv. now' < snd kv) cool else cool)\<rparr>))"

definition in_cooldown :: "real \<Rightarrow> string \<Rightarrow> grants_defer \<Rightarrow> bool" where
  "in_cooldown now job g = (case map_of (gd_cooldown g) job of None \<Rightarrow> False | Some t \<Rightarrow> t \<noteq> 0 \<and> now < t)"

section \<open>What a job's history amounts to\<close>

text \<open>The counter of a job, evicted or not, is known to be at least \<open>m\<close>.\<close>

definition remembers :: "string \<Rightarrow> nat \<Rightarrow> backoff \<Rightarrow> bool" where
  "remembers k m b \<longleftrightarrow> m \<le> max (bo_get (bo_n b) k) (bo_floor b)"

lemma bo_get_update [simp]: "bo_get (AList.update k v d) j = (if j = k then v else bo_get d j)"
  by (simp add: bo_get_def update_conv)

lemma bo_get_delete [simp]: "bo_get (AList.delete k d) j = (if j = k then 0 else bo_get d j)"
  by (simp add: bo_get_def delete_conv)

lemma bo_get_mem: "distinct (map fst d) \<Longrightarrow> (k, v) \<in> set d \<Longrightarrow> bo_get d k = v"
  by (simp add: bo_get_def)

lemma remembers_evict:
  assumes "remembers k m b" "snd kv = bo_get (bo_n b) (fst kv)"
  shows "remembers k m (evict_stale own kv b)"
  using assms by (auto simp: remembers_def evict_stale_def)

lemma evict_keeps:
  assumes "j \<noteq> fst kv"
  shows "bo_get (bo_n (evict_stale own kv b)) j = bo_get (bo_n b) j"
  using assms by (simp add: evict_stale_def)

lemma remembers_evicts:
  assumes "remembers k m b" "distinct (map fst kvs)" "\<forall>kv \<in> set kvs. snd kv = bo_get (bo_n b) (fst kv)"
  shows "remembers k m (fold (evict_stale own) kvs b)"
  using assms
proof (induction kvs arbitrary: b)
  case (Cons kv kvs)
  then have "\<forall>x \<in> set kvs. snd x = bo_get (bo_n (evict_stale own kv b)) (fst x)"
    by (metis distinct.simps(2) evict_keeps image_eqI list.set_intros(2) list.simps(9) list.set_map)
  then show ?case using Cons remembers_evict by simp
qed simp

definition bo_ok :: "backoff \<Rightarrow> bool" where
  "bo_ok b \<longleftrightarrow> distinct (map fst (bo_n b)) \<and> length (bo_n b) \<le> EGRESS_DEFER_MAX"

lemma evicts_delete:
  "bo_n (fold (evict_stale own) kvs b) = fold AList.delete (filter (\<lambda>k. k \<noteq> own) (map fst kvs)) (bo_n b)"
  by (induction kvs arbitrary: b) (simp_all add: evict_stale_def)

lemma distinct_deletes: "distinct (map fst d) \<Longrightarrow> distinct (map fst (fold AList.delete ks d))"
  by (induction ks arbitrary: d) (simp_all add: distinct_delete)

lemma keys_delete: "fst ` set (AList.delete k d) = fst ` set d - {k}"
  by (force simp: AList.delete_eq)

lemma keys_deletes: "fst ` set (fold AList.delete ks d) = fst ` set d - set ks"
  by (induction ks arbitrary: d) (auto simp: keys_delete)

lemma shrink_ok:
  assumes d: "distinct (map fst (bo_n b))" and len: "length (bo_n b) \<le> EGRESS_DEFER_MAX + 1"
  shows "bo_ok (shrink own b)"
proof (cases "EGRESS_DEFER_MAX < length (bo_n b)")
  case False
  then show ?thesis using d by (simp add: shrink_def bo_ok_def)
next
  case True
  define kvs where "kvs = take EGRESS_DEFER_EVICT (sort_key snd (bo_n b))"
  define ks where "ks = filter (\<lambda>k. k \<noteq> own) (map fst kvs)"
  let ?r = "fold AList.delete ks (bo_n b)"
  have r: "bo_n (shrink own b) = ?r" using True by (simp add: shrink_def kvs_def ks_def evicts_delete)
  have dk: "distinct (map fst (sort_key snd (bo_n b)))"
    using d by (simp add: distinct_map inj_on_def distinct_sort)
  then have dks: "distinct (map fst kvs)" unfolding kvs_def take_map [symmetric] by (rule distinct_take)
  have "length kvs = EGRESS_DEFER_EVICT"
    using True by (simp add: kvs_def EGRESS_DEFER_MAX_def EGRESS_DEFER_EVICT_def)
  then have "card (set (map fst kvs)) = EGRESS_DEFER_EVICT" using dks by (simp add: distinct_card del: set_map)
  then have "2 \<le> card (set (map fst kvs))" by (simp add: EGRESS_DEFER_EVICT_def del: set_map)
  moreover have "set ks = set (map fst kvs) - {own}" by (auto simp: ks_def)
  ultimately have c: "1 \<le> card (set ks)" using card_Diff1_le [of "set (map fst kvs)" own]
    by (cases "own \<in> set (map fst kvs)") (auto simp: card_Diff_singleton simp del: set_map)
  have sub: "set ks \<subseteq> fst ` set (bo_n b)"
    using set_take_subset [of EGRESS_DEFER_EVICT "sort_key snd (bo_n b)"] by (auto simp: ks_def kvs_def)
  have dr: "distinct (map fst ?r)" by (rule distinct_deletes [OF d])
  have "length ?r = card (fst ` set ?r)" using distinct_card [OF dr] by simp
  also have "\<dots> = card (fst ` set (bo_n b)) - card (set ks)"
    unfolding keys_deletes by (rule card_Diff_subset) (use sub in auto)
  also have "card (fst ` set (bo_n b)) = length (bo_n b)" using distinct_card [OF d] by simp
  finally have "length ?r \<le> EGRESS_DEFER_MAX" using len c by simp
  with dr show ?thesis by (simp add: bo_ok_def r)
qed

lemma length_dict_update: "length (AList.update k v d) \<le> Suc (length d)"
  by (induction d) auto

lemma bump_ok:
  assumes "bo_ok b"
  shows "bo_ok (snd (bump_egress_defer own b))"
proof -
  have "distinct (map fst (AList.update own n (bo_n b)))" for n
    using assms by (simp add: bo_ok_def distinct_update)
  moreover have "length (AList.update own n (bo_n b)) \<le> EGRESS_DEFER_MAX + 1" for n
    using assms length_dict_update [of own n "bo_n b"] by (simp add: bo_ok_def)
  ultimately show ?thesis by (simp add: bump_egress_defer_def Let_def shrink_ok)
qed

lemma remembers_shrink:
  assumes "remembers k m b" "distinct (map fst (bo_n b))"
  shows "remembers k m (shrink own b)"
proof -
  let ?kvs = "take EGRESS_DEFER_EVICT (sort_key snd (bo_n b))"
  have "distinct (map fst (sort_key snd (bo_n b)))"
    using assms(2) by (simp add: distinct_map inj_on_def distinct_sort)
  then have "distinct (map fst ?kvs)" unfolding take_map [symmetric] by (rule distinct_take)
  moreover have "\<forall>kv \<in> set ?kvs. snd kv = bo_get (bo_n b) (fst kv)"
    using bo_get_mem [OF assms(2)] set_take_subset [of EGRESS_DEFER_EVICT "sort_key snd (bo_n b)"]
    by fastforce
  ultimately show ?thesis using assms(1) by (simp add: shrink_def remembers_evicts)
qed

lemma remembers_bump:
  assumes "bo_ok b" "remembers k m b"
  shows "remembers k m (snd (bump_egress_defer own b))"
proof -
  have "distinct (map fst (AList.update own n (bo_n b)))" for n
    using assms(1) by (simp add: bo_ok_def distinct_update)
  moreover have "remembers k m (b\<lparr>bo_n := AList.update own (max (bo_get (bo_n b) own) (bo_floor b) + 1) (bo_n b)\<rparr>)"
    using assms(2) by (auto simp: remembers_def)
  ultimately show ?thesis by (simp add: bump_egress_defer_def Let_def remembers_shrink)
qed

lemma bump_remembered:
  assumes "bo_ok b" "bump_egress_defer own b = (n, b')"
  shows "remembers own n b'" "remembers own m b \<Longrightarrow> m < n"
proof -
  let ?n = "max (bo_get (bo_n b) own) (bo_floor b) + 1"
  have n: "n = ?n" "b' = shrink own (b\<lparr>bo_n := AList.update own ?n (bo_n b)\<rparr>)"
    using assms(2) by (auto simp: bump_egress_defer_def Let_def)
  have "distinct (map fst (AList.update own ?n (bo_n b)))"
    using assms(1) by (simp add: bo_ok_def distinct_update)
  then show "remembers own n b'" unfolding n
    by (intro remembers_shrink) (simp_all add: remembers_def)
  show "remembers own m b \<Longrightarrow> m < n" by (simp add: n remembers_def)
qed

text \<open>The attempt numbers of a sequence of deferred jobs.\<close>

fun attempts :: "string list \<Rightarrow> backoff \<Rightarrow> nat list" where
  "attempts [] b = []"
| "attempts (j # js) b = (let (n, b') = bump_egress_defer j b in n # attempts js b')"

lemma length_attempts [simp]: "length (attempts js b) = length js"
  by (induction js arbitrary: b) (simp_all add: split_beta Let_def)

lemma attempts_remembered:
  "bo_ok b \<Longrightarrow> remembers j m b \<Longrightarrow> k < length js \<Longrightarrow> js ! k = j \<Longrightarrow> m < attempts js b ! k"
proof (induction js arbitrary: b k)
  case (Cons i js)
  obtain n b' where b: "bump_egress_defer i b = (n, b')" by fastforce
  have ok: "bo_ok b'" using bump_ok [OF Cons.prems(1), of i] b by simp
  show ?case
  proof (cases k)
    case 0
    then show ?thesis using Cons.prems bump_remembered(2) [OF Cons.prems(1) b] b by auto
  next
    case (Suc k')
    have "remembers j m b'" using remembers_bump [OF Cons.prems(1,2), of i] b by simp
    then show ?thesis using Cons.IH [OF ok] Cons.prems Suc b by simp
  qed
qed simp

section \<open>Properties\<close>

text \<open>The back-off of a job never restarts while the outage lasts: over any sequence of deferrals,
  with the evictions that keep the table bounded, a later deferral of the same job counts higher
  than an earlier one.\<close>

theorem backoff_never_restarts:
  assumes "bo_ok b" "i < k" "k < length js" "js ! i = js ! k"
  shows "attempts js b ! i < attempts js b ! k"
  using assms
proof (induction js arbitrary: b i k)
  case (Cons j js)
  obtain n b' where b: "bump_egress_defer j b = (n, b')" by fastforce
  have ok: "bo_ok b'" using bump_ok [OF Cons.prems(1), of j] b by simp
  obtain k' where k: "k = Suc k'" using Cons.prems(2) by (cases k) auto
  show ?case
  proof (cases i)
    case 0
    have "n < attempts js b' ! k'"
      using attempts_remembered [OF ok bump_remembered(1) [OF Cons.prems(1) b]] Cons.prems k 0 by auto
    then show ?thesis using 0 k b by simp
  next
    case (Suc i')
    then show ?thesis using Cons.IH [OF ok, of i' k'] Cons.prems k b by simp
  qed
qed simp

theorem backoff_never_restarts_witness:
  "attempts [''a'', ''b'', ''a''] \<lparr>bo_n = [], bo_floor = 0\<rparr> ! 0
   < attempts [''a'', ''b'', ''a''] \<lparr>bo_n = [], bo_floor = 0\<rparr> ! 2"
  by (rule backoff_never_restarts) (simp_all add: bo_ok_def)

text \<open>The table of counters never outgrows its bound, whatever is deferred.\<close>

theorem backoff_bounded:
  assumes "bo_ok b"
  shows "bo_ok (fold (\<lambda>j. snd \<circ> bump_egress_defer j) js b)"
  using assms by (induction js arbitrary: b) (simp_all add: bump_ok)

theorem backoff_bounded_witness:
  "bo_ok (fold (\<lambda>j. snd \<circ> bump_egress_defer j) [''a'', ''b''] \<lparr>bo_n = [], bo_floor = 0\<rparr>)"
  by (rule backoff_bounded) (simp add: bo_ok_def)

text \<open>The windows: the store is never told to wait longer than this node itself stays away nor
  longer than the shared bound, the local window is at least two seconds and at most the cap, and it
  grows with the attempts, but never past 512 seconds, however high the cap is set.\<close>

theorem defer_plan_bounds:
  assumes "2 \<le> cap" "1 \<le> shared" "1 \<le> m" "m \<le> n"
  shows "fst (egress_defer_plan cap shared n) \<le> snd (egress_defer_plan cap shared n)
    \<and> fst (egress_defer_plan cap shared n) \<le> shared \<and> 1 \<le> fst (egress_defer_plan cap shared n)
    \<and> 2 \<le> snd (egress_defer_plan cap shared n) \<and> snd (egress_defer_plan cap shared n) \<le> min cap 512
    \<and> snd (egress_defer_plan cap shared m) \<le> snd (egress_defer_plan cap shared n)"
proof -
  define x y :: real where "x = 2 ^ min (m - 1) 8" and "y = 2 ^ min (n - 1) 8"
  have "x \<le> y" using assms(4) unfolding x_def y_def by (intro power_increasing) auto
  moreover have "y \<le> 2 ^ 8" unfolding y_def by (intro power_increasing) auto
  moreover have "1 \<le> x" by (simp add: x_def)
  ultimately show ?thesis using assms(1,2)
    unfolding egress_defer_plan_def Let_def x_def [symmetric] y_def [symmetric] by (auto simp: min_le_iff_disj)
qed

theorem defer_plan_bounds_witness:
  "snd (egress_defer_plan 3600 5 20) \<le> 512 \<and> snd (egress_defer_plan 3600 5 1) \<le> snd (egress_defer_plan 3600 5 20)"
  using defer_plan_bounds [of 3600 5 1 20] by simp

end
