(* ===== verification/Dispatch_Recovery.thy ===== *)
theory Dispatch_Recovery
  imports Job_Memory Job_Redis
begin

text \<open>
  \<^verbatim>\<open>host/dispatch.py\<close>: how a dispatcher gives a claimed job back, fails it, recovers the jobs of
  dispatchers that went away, expires jobs nobody claims, and when it may delete a job's files.
  Every write is one fenced compare-and-set of the job store, so the operations are
  \<^typ>\<open>store_op\<close> values and the sweeps run them on any store; what other clients do before each
  write of a sweep is an argument.  The texts of messages and the scrubber of public errors are
  arguments as well.
\<close>

section \<open>Single writes\<close>

definition requeue_fields :: "real option \<Rightarrow> field_upd list" where
  "requeue_fields defer_until =
     [FStatus QUEUED, FStartedAt None, FWorkerRuntime None, FWorkerTier None, FClaimId None, FError None]
     @ (case defer_until of None \<Rightarrow> [] | Some t \<Rightarrow> [FClaimableAfter (Some t)])"

definition requeue_claimed :: "real \<Rightarrow> real \<Rightarrow> bool \<Rightarrow> real option \<Rightarrow> job \<Rightarrow> store_op" where
  "requeue_claimed now backoff_s defer defer_s j =
     OpCas (job_id j) RUNNING (claim_id j)
       (requeue_fields (if defer then Some (now + max 2 (case defer_s of None \<Rightarrow> backoff_s | Some d \<Rightarrow> d)) else None))"

definition expires_after :: "real \<Rightarrow> real \<Rightarrow> real option" where
  "expires_after retention finished = (if 0 < retention then Some (finished + retention) else None)"

definition fail_fields :: "(string \<Rightarrow> string) \<Rightarrow> real \<Rightarrow> real \<Rightarrow> string \<Rightarrow> field_upd list" where
  "fail_fields san retention finished reason =
     [FStatus FAILED, FFinishedAt (Some finished), FExpiresAt (expires_after retention finished),
      FError (Some (san reason))]"

definition fail_if_running ::
  "(string \<Rightarrow> string) \<Rightarrow> real \<Rightarrow> real \<Rightarrow> string \<Rightarrow> string option \<Rightarrow> job \<Rightarrow> store_op" where
  "fail_if_running san retention finished reason warning j =
     OpCas (job_id j) RUNNING (claim_id j)
       (fail_fields san retention finished reason
        @ (case warning of None \<Rightarrow> [] | Some w \<Rightarrow> [FWarnings (security_warnings j @ [JStr w])]))"

definition fail_job :: "(string \<Rightarrow> string) \<Rightarrow> real \<Rightarrow> real \<Rightarrow> string \<Rightarrow> job \<Rightarrow> store_op" where
  "fail_job san retention finished reason j =
     OpCas (job_id j) RUNNING (claim_id j) (fail_fields san retention finished reason)"

text \<open>The guard of \<open>_purge_job_dir_if_claim_matches\<close> and of \<open>_delete_input_if_owned\<close>: the lookup
  failed, or found no record, or a record with some claim.  A job whose result upload failed keeps
  its directory, once.\<close>

definition may_purge :: "job option option \<Rightarrow> string option \<Rightarrow> bool" where
  "may_purge final own = (case final of None \<Rightarrow> False | Some None \<Rightarrow> True | Some (Some j) \<Rightarrow> claim_id j = own)"

definition purge_job_dir ::
  "string set \<Rightarrow> string \<Rightarrow> job option option \<Rightarrow> string option \<Rightarrow> bool \<times> string set" where
  "purge_job_dir upload_failed jid final own =
     (if jid \<in> upload_failed then (False, upload_failed - {jid}) else (may_purge final own, upload_failed))"

section \<open>Sweeps\<close>

text \<open>The ids whose write went through, and the store afterwards.\<close>

fun sweep ::
  "(store_op \<Rightarrow> 's \<Rightarrow> outcome \<times> 's) \<Rightarrow> (job \<Rightarrow> store_op list) \<Rightarrow> (job \<Rightarrow> store_op) \<Rightarrow> job list \<Rightarrow> 's
     \<Rightarrow> string list \<times> 's" where
  "sweep step foreign op [] s = ([], s)"
| "sweep step foreign op (j # js) s =
     (let (out, s1) = step (op j) (run_ops step (foreign j) s);
          (won, s2) = sweep step foreign op js s1
      in (if out = OBool True then job_id j # won else won, s2))"

record recovery =
  rc_grace :: real
  rc_timeout :: real
  rc_retention :: real
  rc_san :: "string \<Rightarrow> string"
  rc_reason :: string
  rc_warm_note :: string
  rc_cold_note :: string

definition warm_orphan :: "recovery \<Rightarrow> string list \<Rightarrow> real \<Rightarrow> job \<Rightarrow> bool" where
  "warm_orphan c excluded now j \<longleftrightarrow>
     job_id j \<notin> set excluded \<and> worker_runtime j = Some ''warm'' \<and> \<not> is_node_claim (claim_id j)
     \<and> (case started_at j of None \<Rightarrow> False | Some t \<Rightarrow> t < now - (rc_timeout c + rc_grace c))"

definition cold_orphan :: "recovery \<Rightarrow> string list \<Rightarrow> string list \<Rightarrow> real \<Rightarrow> job \<Rightarrow> bool" where
  "cold_orphan c excluded active now j \<longleftrightarrow>
     job_id j \<notin> set excluded \<and> job_id j \<notin> set active \<and> worker_runtime j \<noteq> Some ''warm''
     \<and> \<not> is_node_claim (claim_id j)
     \<and> \<not> (case started_at j of None \<Rightarrow> False | Some t \<Rightarrow> now - rc_grace c < t)"

definition fail_warm :: "recovery \<Rightarrow> (job \<Rightarrow> real) \<Rightarrow> job \<Rightarrow> store_op" where
  "fail_warm c finished j =
     fail_if_running (rc_san c) (rc_retention c) (finished j) (rc_reason c) (Some (rc_warm_note c)) j"

definition requeue_cold :: "recovery \<Rightarrow> job \<Rightarrow> store_op" where
  "requeue_cold c j = OpCas (job_id j) RUNNING (claim_id j)
     [FStatus QUEUED, FStartedAt None, FWorkerRuntime None, FWorkerTier None, FClaimId None,
      FWarnings (security_warnings j @ [JStr (rc_cold_note c)]), FError None]"

text \<open>\<open>requeue_orphaned_jobs\<close> on the listed running jobs; \<open>active\<close> is \<^const>\<open>None\<close> when the worker
  containers could not be listed.\<close>

definition requeue_orphaned_jobs ::
  "(store_op \<Rightarrow> 's \<Rightarrow> outcome \<times> 's) \<Rightarrow> (job \<Rightarrow> store_op list) \<Rightarrow> recovery \<Rightarrow> string list \<Rightarrow> string list option
     \<Rightarrow> real \<Rightarrow> (job \<Rightarrow> real) \<Rightarrow> job list \<Rightarrow> 's \<Rightarrow> string list \<times> 's" where
  "requeue_orphaned_jobs step foreign c excluded active now finished running s =
     (let (failed, s1) = sweep step foreign (fail_warm c finished) (filter (warm_orphan c excluded now) running) s
      in case active of None \<Rightarrow> (failed, s1)
         | Some act \<Rightarrow>
             (let (requeued, s2) = sweep step foreign (requeue_cold c) (filter (cold_orphan c excluded act now) running) s1
              in (failed @ requeued, s2)))"

text \<open>\<open>_fail_stale_queued_jobs\<close> on the listed queued jobs.\<close>

definition fail_stale :: "recovery \<Rightarrow> (job \<Rightarrow> real) \<Rightarrow> job \<Rightarrow> store_op" where
  "fail_stale c finished j =
     OpCas (job_id j) QUEUED None (fail_fields (rc_san c) (rc_retention c) (finished j) (rc_reason c))"

definition fail_stale_queued_jobs ::
  "(store_op \<Rightarrow> 's \<Rightarrow> outcome \<times> 's) \<Rightarrow> (job \<Rightarrow> store_op list) \<Rightarrow> recovery \<Rightarrow> real \<Rightarrow> real \<Rightarrow> (job \<Rightarrow> real)
     \<Rightarrow> job list \<Rightarrow> 's \<Rightarrow> string list \<times> 's" where
  "fail_stale_queued_jobs step foreign c max_age now finished queued s =
     (if max_age \<le> 0 then ([], s)
      else sweep step foreign (fail_stale c finished) (filter (\<lambda>j. created_at j \<le> now - max_age) queued) s)"

section \<open>What the writes do to a job\<close>

lemma requeue_fields_ok: "(case u of None \<Rightarrow> True | Some t \<Rightarrow> t \<noteq> 0) \<Longrightarrow> list_all field_ok (requeue_fields u)"
  by (auto simp: requeue_fields_def split: option.splits)

lemma fail_fields_ok:
  "0 < f \<Longrightarrow> list_all field_ok (fail_fields san r f m)"
  by (auto simp: fail_fields_def expires_after_def)

lemma requeue_fields_result [simp]:
  "status (setattrs (requeue_fields u) j) = QUEUED" "claim_id (setattrs (requeue_fields u) j) = None"
  "job_id (setattrs (requeue_fields u) j) = job_id j"
  "claimable_after (setattrs (requeue_fields (Some t)) j) = Some t"
  "target_tier (setattrs (requeue_fields u) j) = target_tier j" "engine (setattrs (requeue_fields u) j) = engine j"
  by (auto simp: requeue_fields_def split: option.splits)

lemma fail_fields_status [simp]: "status (setattrs (fail_fields san r f m) j) = FAILED"
  by (simp add: fail_fields_def)

definition warm_fields :: "recovery \<Rightarrow> (job \<Rightarrow> real) \<Rightarrow> job \<Rightarrow> field_upd list" where
  "warm_fields c finished r =
     fail_fields (rc_san c) (rc_retention c) (finished r) (rc_reason c)
     @ [FWarnings (security_warnings r @ [JStr (rc_warm_note c)])]"

definition cold_fields :: "recovery \<Rightarrow> job \<Rightarrow> field_upd list" where
  "cold_fields c r = [FStatus QUEUED, FStartedAt None, FWorkerRuntime None, FWorkerTier None, FClaimId None,
      FWarnings (security_warnings r @ [JStr (rc_cold_note c)]), FError None]"

lemma fail_warm_op: "fail_warm c finished r = OpCas (job_id r) RUNNING (claim_id r) (warm_fields c finished r)"
  by (simp add: fail_warm_def fail_if_running_def warm_fields_def)

lemma requeue_cold_op: "requeue_cold c r = OpCas (job_id r) RUNNING (claim_id r) (cold_fields c r)"
  by (simp add: requeue_cold_def cold_fields_def)

lemma sweep_fields_ok:
  "0 < finished r \<Longrightarrow> list_all field_ok (warm_fields c finished r)" "list_all field_ok (cold_fields c r)"
  using fail_fields_ok by (simp_all add: warm_fields_def cold_fields_def)

section \<open>On any store\<close>

text \<open>Foreign operations that leave one job alone.\<close>

fun spares :: "string \<Rightarrow> store_op \<Rightarrow> bool" where
  "spares k (OpCreate j) = (job_id j \<noteq> k)"
| "spares k (OpUpdate i fs) = (i \<noteq> k)"
| "spares k (OpCas i st c fs) = (i \<noteq> k)"
| "spares k (OpClaim r) = True"
| "spares k (OpDelete i) = (i \<noteq> k)"

lemma abs_step_spares:
  "abs_step op m r m' \<Longrightarrow> spares k op \<Longrightarrow> m k = Some j \<Longrightarrow> status j = RUNNING \<Longrightarrow> m' k = Some j"
  by (induction rule: abs_step.induct) (auto simp: eligible_job_def claimable_def)

context job_store
begin

lemma get_run_spares:
  assumes "inv s" "list_all op_ok ops" "list_all (spares k) ops" "get k s = Some j" "status j = RUNNING"
  shows "get k (run ops s) = Some j"
proof -
  have "abs (run ops s) k = Some j"
    using assms(1-3)
    by (rule run_preserves [where P = "spares k" and Q = "\<lambda>m. m k = Some j", rotated])
       (use assms abs_step_spares in \<open>auto simp: get_abs\<close>)
  then show ?thesis using run_inv [OF assms(1,2)] by (simp add: get_abs)
qed

lemma cas_step:
  assumes "inv s" "list_all field_ok fs"
  shows "step (OpCas k st c fs) s = (OBool True, s') \<Longrightarrow>
           \<exists>j. get k s = Some j \<and> cas_guard st c j \<and> abs s' = (abs s)(k \<mapsto> setattrs fs j)"
    and "(\<exists>j. get k s = Some j \<and> cas_guard st c j) \<Longrightarrow> fst (step (OpCas k st c fs) s) = OBool True"
    and "\<not> (\<exists>j. get k s = Some j \<and> cas_guard st c j) \<Longrightarrow>
           fst (step (OpCas k st c fs) s) = OBool False \<and> abs (snd (step (OpCas k st c fs) s)) = abs s"
proof -
  have a: "abs_step (OpCas k st c fs) (abs s) (fst (step (OpCas k st c fs) s)) (abs (snd (step (OpCas k st c fs) s)))"
    using assms by (intro step_refines) auto
  show "step (OpCas k st c fs) s = (OBool True, s') \<Longrightarrow>
      \<exists>j. get k s = Some j \<and> cas_guard st c j \<and> abs s' = (abs s)(k \<mapsto> setattrs fs j)"
    using a by (auto simp: get_abs [OF assms(1)] elim: abs_step_cas)
  show "(\<exists>j. get k s = Some j \<and> cas_guard st c j) \<Longrightarrow> fst (step (OpCas k st c fs) s) = OBool True"
    using a by (auto simp: get_abs [OF assms(1)] elim: abs_step_cas)
  show "\<not> (\<exists>j. get k s = Some j \<and> cas_guard st c j) \<Longrightarrow>
      fst (step (OpCas k st c fs) s) = OBool False \<and> abs (snd (step (OpCas k st c fs) s)) = abs s"
    using a by (auto simp: get_abs [OF assms(1)] elim: abs_step_cas)
qed

lemma sweep_Cons:
  "fst (sweep step foreign op (j # js) s) =
     (if fst (step (op j) (run (foreign j) s)) = OBool True
      then job_id j # fst (sweep step foreign op js (snd (step (op j) (run (foreign j) s))))
      else fst (sweep step foreign op js (snd (step (op j) (run (foreign j) s)))))"
  "snd (sweep step foreign op (j # js) s) = snd (sweep step foreign op js (snd (step (op j) (run (foreign j) s))))"
  by (simp_all only: sweep.simps Let_def split_beta fst_conv snd_conv)

lemma sweep_inv:
  assumes "\<And>j. j \<in> set js \<Longrightarrow> list_all op_ok (foreign j) \<and> op_ok (op j)"
  shows "inv s \<Longrightarrow> inv (snd (sweep step foreign op js s))"
  using assms
proof (induction js arbitrary: s)
  case (Cons j js)
  have "inv (snd (step (op j) (run (foreign j) s)))"
    using Cons.prems by (intro step_inv run_inv) auto
  then show ?case using Cons by (auto simp: split_beta Let_def)
qed simp

text \<open>A running job under a claim that no listed copy of it carries is left alone.\<close>

lemma sweep_spares:
  assumes ops: "\<And>r. r \<in> set js \<Longrightarrow> list_all op_ok (foreign r) \<and> list_all (spares k) (foreign r)
        \<and> op r = OpCas (job_id r) RUNNING (claim_id r) (upd r) \<and> list_all field_ok (upd r)
        \<and> (job_id r = k \<longrightarrow> claim_id r \<noteq> None \<and> claim_id r \<noteq> claim_id j)"
  shows "inv s \<Longrightarrow> get k s = Some j \<Longrightarrow> status j = RUNNING \<Longrightarrow>
    get k (snd (sweep step foreign op js s)) = Some j \<and> k \<notin> set (fst (sweep step foreign op js s))"
  using ops
proof (induction js arbitrary: s)
  case (Cons r js)
  let ?s0 = "run (foreign r) s" and ?s1 = "snd (step (op r) (run (foreign r) s))"
  have r: "list_all op_ok (foreign r)" "list_all (spares k) (foreign r)"
    "op r = OpCas (job_id r) RUNNING (claim_id r) (upd r)" "list_all field_ok (upd r)"
    "job_id r = k \<Longrightarrow> claim_id r \<noteq> None \<and> claim_id r \<noteq> claim_id j"
    using Cons.prems(4) [of r] by auto
  have i0: "inv ?s0" by (rule run_inv [OF Cons.prems(1) r(1)])
  have g0: "get k ?s0 = Some j" by (rule get_run_spares [OF Cons.prems(1) r(1,2) Cons.prems(2,3)])
  have i1: "inv ?s1" using i0 r(3,4) by (auto intro: step_inv)
  have miss: "fst (step (op r) ?s0) \<noteq> OBool True" if "job_id r = k"
    using cas_step(3) [OF i0 r(4), of k RUNNING "claim_id r"] that r(3,5) g0 by (auto simp: cas_guard_def)
  have g1: "get k ?s1 = Some j"
  proof (cases "job_id r = k")
    case True
    then have "abs ?s1 = abs ?s0"
      using cas_step(3) [OF i0 r(4), of k RUNNING "claim_id r"] r(3,5) g0 by (auto simp: cas_guard_def)
    then show ?thesis using g0 by (simp add: get_abs [OF i0] get_abs [OF i1])
  next
    case False
    have "abs_step (op r) (abs ?s0) (fst (step (op r) ?s0)) (abs ?s1)"
      using i0 r(3,4) by (auto intro: step_refines)
    moreover have "spares k (op r)" using False by (simp add: r(3))
    moreover have "abs ?s0 k = Some j" using g0 by (simp add: get_abs [OF i0])
    ultimately have "abs ?s1 k = Some j" using Cons.prems(3) by (rule abs_step_spares)
    then show ?thesis by (simp add: get_abs [OF i1])
  qed
  have "get k (snd (sweep step foreign op js ?s1)) = Some j \<and> k \<notin> set (fst (sweep step foreign op js ?s1))"
  proof (rule Cons.IH [OF i1 g1 Cons.prems(3)])
    fix q
    assume "q \<in> set js"
    then have "q \<in> set (r # js)" by (rule list.set_intros)
    then show "list_all op_ok (foreign q) \<and> list_all (spares k) (foreign q)
        \<and> op q = OpCas (job_id q) RUNNING (claim_id q) (upd q) \<and> list_all field_ok (upd q)
        \<and> (job_id q = k \<longrightarrow> claim_id q \<noteq> None \<and> claim_id q \<noteq> claim_id j)"
      by (rule Cons.prems(4))
  qed
  then show ?case
    by (cases "job_id r = k") (auto simp only: sweep_Cons miss simp_thms if_False list.set split: if_splits)
qed simp

text \<open>Without interference every listed job that is still as listed is written.\<close>

lemma sweep_quiet:
  assumes ops: "\<And>r. r \<in> set js \<Longrightarrow> op r = OpCas (job_id r) st (fence r) (upd r) \<and> list_all field_ok (upd r)
        \<and> status r = st \<and> (fence r = None \<or> fence r = claim_id r) \<and> foreign r = []"
  shows "inv s \<Longrightarrow> distinct (map job_id js) \<Longrightarrow> (\<And>r. r \<in> set js \<Longrightarrow> get (job_id r) s = Some r) \<Longrightarrow>
    fst (sweep step foreign op js s) = map job_id js
    \<and> get k (snd (sweep step foreign op js s))
      = (case find (\<lambda>r. job_id r = k) js of Some r \<Rightarrow> Some (setattrs (upd r) r) | None \<Rightarrow> get k s)"
  using ops
proof (induction js arbitrary: s)
  case (Cons r js)
  let ?s1 = "snd (step (op r) s)"
  have r: "op r = OpCas (job_id r) st (fence r) (upd r)" "list_all field_ok (upd r)" "status r = st"
    "fence r = None \<or> fence r = claim_id r" "foreign r = []" "get (job_id r) s = Some r"
    using Cons.prems(3,4) by auto
  have hit: "fst (step (op r) s) = OBool True"
    using cas_step(2) [OF Cons.prems(1) r(2)] r by (auto simp: cas_guard_def)
  then have "step (op r) s = (OBool True, ?s1)" by (cases "step (op r) s") simp
  then obtain x where x: "get (job_id r) s = Some x" "abs ?s1 = (abs s)(job_id r \<mapsto> setattrs (upd r) x)"
    using cas_step(1) [OF Cons.prems(1) r(2)] r(1) by metis
  have i1: "inv ?s1" using Cons.prems(1) r(1,2) by (auto intro: step_inv)
  have g1: "get i ?s1 = (if i = job_id r then Some (setattrs (upd r) r) else get i s)" for i
    using x r(6) by (simp add: get_abs [OF i1] get_abs [OF Cons.prems(1)])
  have ne: "job_id q \<noteq> job_id r" if "q \<in> set js" for q
    using Cons.prems(2) that by (metis distinct.simps(2) image_eqI list.set_map list.simps(9))
  have "fst (sweep step foreign op js ?s1) = map job_id js
    \<and> get k (snd (sweep step foreign op js ?s1))
      = (case find (\<lambda>r. job_id r = k) js of Some r \<Rightarrow> Some (setattrs (upd r) r) | None \<Rightarrow> get k ?s1)"
  proof (rule Cons.IH [OF i1])
    fix q
    assume "q \<in> set js"
    then have "q \<in> set (r # js)" by (rule list.set_intros)
    then show "op q = OpCas (job_id q) st (fence q) (upd q) \<and> list_all field_ok (upd q)
        \<and> status q = st \<and> (fence q = None \<or> fence q = claim_id q) \<and> foreign q = []"
      by (rule Cons.prems(4))
  next
    show "distinct (map job_id js)" using Cons.prems(2) by simp
    show "get (job_id q) ?s1 = Some q" if "q \<in> set js" for q
      using Cons.prems(3) [of q] that ne [OF that] by (simp add: g1)
  qed
  moreover have "find (\<lambda>r. job_id r = k) js = None" if "job_id r = k"
    using ne by (simp add: find_None_iff that [symmetric])
  moreover have "get k ?s1 = (if job_id r = k then Some (setattrs (upd r) r) else get k s)"
    by (simp only: g1 eq_commute [of k])
  ultimately show ?case
    unfolding sweep_Cons r(5) by (cases "job_id r = k") (simp_all add: hit split: option.split)
qed simp

text \<open>Once the owner has given a job back, its claim is nowhere in the store, now or later.\<close>

lemma requeued_unclaimed:
  assumes inv: "inv s" and fresh: "unminted (c_token r) (abs s)"
    and claim: "step (OpClaim r) s = (OJob (Some j), s1)" and started: "c_started r \<noteq> 0"
    and ops: "list_all op_ok ops" "list_all (discreet (c_token r)) ops"
    and ops': "list_all op_ok ops'" "list_all (discreet (c_token r)) ops'"
    and now: "0 \<le> now"
    and gave: "step (requeue_claimed now backoff_s defer defer_s j) (run ops s1) = (OBool True, s2)"
  shows "get k (run ops' s2) = Some x \<Longrightarrow> claim_id x \<noteq> Some (c_token r)"
proof -
  let ?t = "c_token r"
  have i1: "inv s1" and a1: "abs_step (OpClaim r) (abs s) (OJob (Some j)) (abs s1)"
    using step_inv [of s "OpClaim r"] step_refines [of s "OpClaim r"] inv started claim by auto
  obtain h where h: "only_holder ?t h (abs s1)" using claim_only_holder [OF a1 fresh] by blast
  have c: "claim_id j = Some ?t" using a1 by (auto elim: abs_step_claim)
  define u where "u = (if defer then Some (now + max 2 (case defer_s of None \<Rightarrow> backoff_s | Some d \<Rightarrow> d)) else None)"
  have f: "list_all field_ok (requeue_fields u)" using now by (intro requeue_fields_ok) (auto simp: u_def)
  have i2: "inv (run ops s1)" by (rule run_inv [OF i1 ops(1)])
  have h2: "only_holder ?t h (abs (run ops s1))" by (rule run_only_holder [OF i1 ops h])
  have b: "step (OpCas (job_id j) RUNNING (Some ?t) (requeue_fields u)) (run ops s1) = (OBool True, s2)"
    using gave by (simp add: requeue_claimed_def u_def c)
  obtain y where y: "get (job_id j) (run ops s1) = Some y" "cas_guard RUNNING (Some ?t) y"
      "abs s2 = (abs (run ops s1))(job_id j \<mapsto> setattrs (requeue_fields u) y)"
    using cas_step(1) [OF i2 f b] by blast
  then have "h = job_id j" using h2 by (auto simp: only_holder_def cas_guard_def get_abs [OF i2])
  then have "unminted ?t (abs s2)" using h2 y(3) by (auto simp: unminted_def only_holder_def)
  moreover have i3: "inv s2" using step_inv [OF i2, of "OpCas (job_id j) RUNNING (Some ?t) (requeue_fields u)"] f b by simp
  ultimately have "unminted ?t (abs (run ops' s2))" using ops' by (intro run_unminted)
  then show "get k (run ops' s2) = Some x \<Longrightarrow> claim_id x \<noteq> Some ?t"
    by (simp add: unminted_def get_abs [OF run_inv [OF i3 ops'(1)]])
qed

text \<open>Both passes of the recovery, against interference and without it.\<close>

lemma recovery_spares:
  assumes inv: "inv s" and own: "get k s = Some j" "status j = RUNNING"
    and fin: "\<And>r. 0 < finished r"
    and env: "\<And>r. r \<in> set running \<Longrightarrow> list_all op_ok (foreign r) \<and> list_all (spares k) (foreign r)"
    and seen: "\<And>r. r \<in> set running \<Longrightarrow> job_id r = k \<Longrightarrow>
        warm_orphan c excluded now r \<or> (\<exists>act. active = Some act \<and> cold_orphan c excluded act now r) \<Longrightarrow>
        claim_id r \<noteq> None \<and> claim_id r \<noteq> claim_id j"
  shows "get k (snd (requeue_orphaned_jobs step foreign c excluded active now finished running s)) = Some j
    \<and> k \<notin> set (fst (requeue_orphaned_jobs step foreign c excluded active now finished running s))"
proof -
  let ?W = "filter (warm_orphan c excluded now) running"
  let ?s1 = "snd (sweep step foreign (fail_warm c finished) ?W s)"
  have w: "get k ?s1 = Some j \<and> k \<notin> set (fst (sweep step foreign (fail_warm c finished) ?W s))"
    using env seen fin
    by (intro sweep_spares [where upd = "warm_fields c finished", OF _ inv own]) (simp add: fail_warm_op sweep_fields_ok)
  have i1: "inv ?s1"
    using env fin by (intro sweep_inv [OF _ inv]) (simp add: fail_warm_op sweep_fields_ok)
  show ?thesis
  proof (cases active)
    case None
    then show ?thesis using w by (simp add: requeue_orphaned_jobs_def split_beta Let_def)
  next
    case (Some act)
    let ?C = "filter (cold_orphan c excluded act now) running"
    have "get k (snd (sweep step foreign (requeue_cold c) ?C ?s1)) = Some j
        \<and> k \<notin> set (fst (sweep step foreign (requeue_cold c) ?C ?s1))"
      using env seen Some w
      by (intro sweep_spares [where upd = "cold_fields c", OF _ i1 _ own(2)])
         (simp_all add: requeue_cold_op sweep_fields_ok)
    then show ?thesis using w Some by (simp add: requeue_orphaned_jobs_def split_beta Let_def)
  qed
qed

lemma recovery_quiet:
  assumes inv: "inv s" and d: "distinct (map job_id running)"
    and seen: "\<And>r. r \<in> set running \<Longrightarrow> get (job_id r) s = Some r \<and> status r = RUNNING"
    and fin: "\<And>r. 0 < finished r"
  shows "fst (requeue_orphaned_jobs step (\<lambda>_. []) c excluded active now finished running s)
      = map job_id (filter (warm_orphan c excluded now) running
          @ (case active of None \<Rightarrow> [] | Some act \<Rightarrow> filter (cold_orphan c excluded act now) running))"
    and "r \<in> set running \<Longrightarrow>
      get (job_id r) (snd (requeue_orphaned_jobs step (\<lambda>_. []) c excluded active now finished running s))
      = Some (if warm_orphan c excluded now r then setattrs (warm_fields c finished r) r
              else case active of None \<Rightarrow> r
                | Some act \<Rightarrow> if cold_orphan c excluded act now r then setattrs (cold_fields c r) r else r)"
proof -
  let ?W = "filter (warm_orphan c excluded now) running"
  let ?sw = "sweep step (\<lambda>_. []) (fail_warm c finished) ?W s" and ?s1 = "snd (sweep step (\<lambda>_. []) (fail_warm c finished) ?W s)"
  have w: "fst ?sw = map job_id ?W"
    "get k ?s1 = (case find (\<lambda>r. job_id r = k) ?W of Some r \<Rightarrow> Some (setattrs (warm_fields c finished r) r) | None \<Rightarrow> get k s)" for k
    using sweep_quiet [where upd = "warm_fields c finished" and fence = claim_id and st = RUNNING and js = ?W
        and op = "fail_warm c finished" and foreign = "\<lambda>_. []" and k = k, OF _ inv]
      seen fin d by (simp_all add: fail_warm_op sweep_fields_ok distinct_map_filter)
  have i1: "inv ?s1" using fin by (intro sweep_inv [OF _ inv]) (simp add: fail_warm_op sweep_fields_ok)
  have pick: "find (\<lambda>q. job_id q = job_id r) (filter P running) = (if P r then Some r else None)"
    if "r \<in> set running" for P r
    using that d
    by (induction running) (auto simp: find_None_iff image_iff)
  have w': "get (job_id r) ?s1 = Some (if warm_orphan c excluded now r then setattrs (warm_fields c finished r) r else r)"
    if "r \<in> set running" for r
    using that seen by (simp add: w(2) pick)
  have cw: "\<not> warm_orphan c excluded now r" if "cold_orphan c excluded act now r" for act r
    using that by (simp add: warm_orphan_def cold_orphan_def)
  have g: "get (job_id r) ?s1 = Some r" if "r \<in> set (filter (cold_orphan c excluded act now) running)" for act r
    using that w' [of r] cw [of act r] by auto
  have q: "fst (sweep step (\<lambda>_. []) (requeue_cold c) (filter (cold_orphan c excluded act now) running) ?s1)
        = map job_id (filter (cold_orphan c excluded act now) running)"
    "get k (snd (sweep step (\<lambda>_. []) (requeue_cold c) (filter (cold_orphan c excluded act now) running) ?s1))
      = (case find (\<lambda>r. job_id r = k) (filter (cold_orphan c excluded act now) running) of
           Some r \<Rightarrow> Some (setattrs (cold_fields c r) r) | None \<Rightarrow> get k ?s1)" for act k
    using sweep_quiet [where upd = "cold_fields c" and fence = claim_id and st = RUNNING
        and js = "filter (cold_orphan c excluded act now) running"
        and op = "requeue_cold c" and foreign = "\<lambda>_. []" and k = k, OF _ i1 _ g [where act = act]]
      seen d by (simp_all add: requeue_cold_op sweep_fields_ok distinct_map_filter)
  show "fst (requeue_orphaned_jobs step (\<lambda>_. []) c excluded active now finished running s)
      = map job_id (?W @ (case active of None \<Rightarrow> [] | Some act \<Rightarrow> filter (cold_orphan c excluded act now) running))"
    using w(1) q(1) by (simp add: requeue_orphaned_jobs_def split_beta Let_def split: option.split)
  show "get (job_id r) (snd (requeue_orphaned_jobs step (\<lambda>_. []) c excluded active now finished running s))
      = Some (if warm_orphan c excluded now r then setattrs (warm_fields c finished r) r
              else case active of None \<Rightarrow> r
                | Some act \<Rightarrow> if cold_orphan c excluded act now r then setattrs (cold_fields c r) r else r)"
    if "r \<in> set running"
    using that w' cw by (simp add: requeue_orphaned_jobs_def split_beta Let_def q(2) pick split: option.split)
qed

lemma recovery_others:
  assumes inv: "inv s" and d: "distinct (map job_id running)"
    and seen: "\<And>r. r \<in> set running \<Longrightarrow> get (job_id r) s = Some r \<and> status r = RUNNING"
    and fin: "\<And>r. 0 < finished r" and k: "k \<notin> job_id ` set running"
  shows "get k (snd (requeue_orphaned_jobs step (\<lambda>_. []) c excluded active now finished running s)) = get k s"
proof -
  let ?W = "filter (warm_orphan c excluded now) running"
  let ?s1 = "snd (sweep step (\<lambda>_. []) (fail_warm c finished) ?W s)"
  have no: "find (\<lambda>r. job_id r = k) (filter P running) = None" for P
    using k by (auto simp: find_None_iff)
  have w: "get x ?s1 = (case find (\<lambda>r. job_id r = x) ?W of Some r \<Rightarrow> Some (setattrs (warm_fields c finished r) r) | None \<Rightarrow> get x s)" for x
    using sweep_quiet [where upd = "warm_fields c finished" and fence = claim_id and st = RUNNING and js = ?W
        and op = "fail_warm c finished" and foreign = "\<lambda>_. []" and k = x, OF _ inv]
      seen fin d by (simp_all add: fail_warm_op sweep_fields_ok distinct_map_filter)
  have i1: "inv ?s1" using fin by (intro sweep_inv [OF _ inv]) (simp add: fail_warm_op sweep_fields_ok)
  have g: "get (job_id r) ?s1 = Some r" if "r \<in> set (filter (cold_orphan c excluded act now) running)" for act r
  proof -
    have "r \<in> set running" "\<not> warm_orphan c excluded now r" using that by (auto simp: warm_orphan_def cold_orphan_def)
    moreover from this have "find (\<lambda>q. job_id q = job_id r) ?W = None"
      using d by (auto simp: find_None_iff distinct_map inj_on_def)
    ultimately show ?thesis using seen by (simp add: w)
  qed
  have q: "get k (snd (sweep step (\<lambda>_. []) (requeue_cold c) (filter (cold_orphan c excluded act now) running) ?s1)) = get k ?s1" for act
    using sweep_quiet [where upd = "cold_fields c" and fence = claim_id and st = RUNNING
        and js = "filter (cold_orphan c excluded act now) running"
        and op = "requeue_cold c" and foreign = "\<lambda>_. []" and k = k, OF _ i1 _ g [where act = act]]
      seen d by (simp_all add: requeue_cold_op sweep_fields_ok distinct_map_filter no)
  show ?thesis
    by (simp add: requeue_orphaned_jobs_def split_beta Let_def q w no split: option.split)
qed

end

lemma node_claim_iff: "is_node_claim cl \<longleftrightarrow> (\<exists>t. cl = Some t \<and> take 5 t = ''node:'')"
  by (cases cl) (auto simp: is_node_claim_def NODE_CLAIM_PREFIX_def startswith_def eval_nat_numeral)

section \<open>Properties\<close>

text \<open>A configuration, and a job under two claims, used by the witnesses.\<close>

definition demo_rec :: recovery where
  "demo_rec = \<lparr>rc_grace = 60, rc_timeout = 300, rc_retention = 86400, rc_san = (\<lambda>x. x),
     rc_reason = ''gone'', rc_warm_note = ''warm owner gone'', rc_cold_note = ''container disappeared''\<rparr>"

definition demo_run_job :: "string \<Rightarrow> job" where
  "demo_run_job t = claimed 50 t demo_old"

lemma demo_run_job_simps [simp]:
  "job_id (demo_run_job t) = ''a1''" "status (demo_run_job t) = RUNNING" "claim_id (demo_run_job t) = Some t"
  "worker_runtime (demo_run_job t) = None" "started_at (demo_run_job t) = Some 50" "json_safe (demo_run_job t)"
  by (simp_all add: demo_run_job_def claimed_def demo_old_def Job_new_def json_safe_def)

lemma demo_run_kv:
  "redis_inv (redis_create (demo_run_job t) [])" "redis_get ''a1'' (redis_create (demo_run_job t) []) = Some (demo_run_job t)"
  by (simp_all add: redis_create_def redis_inv_def redis_get_def fetch_def decode_encode)

lemma demo_run_mem:
  "mem_inv (mem_create (demo_run_job t) mem_empty)"
  "mem_get ''a1'' (mem_create (demo_run_job t) mem_empty) = Some (demo_run_job t)"
  by (simp_all add: mem_create_def mem_empty_def mem_inv_def mem_get_def)

lemma demo_cold: "cold_orphan demo_rec [] [] 1000 (demo_run_job ''t1'')" "\<not> warm_orphan demo_rec [] 1000 (demo_run_job t)"
  by (simp_all add: cold_orphan_def warm_orphan_def demo_rec_def is_node_claim_def NODE_CLAIM_PREFIX_def startswith_def)

text \<open>
  recovery never touches a job that somebody works on.  On the Redis store, while other
  clients write whatever they like to other jobs before every write of the sweep, a running job
  whose claim is not the one the sweep saw when it listed the job, or that the sweep does not
  judge orphaned (excluded, warm and recently started, cold with a live container, inside the
  grace window, held by a federated node), keeps its record and is not counted.
\<close>

theorem recovery_spares_live_claims:
  assumes "redis_inv s" and "redis_get k s = Some j" and "status j = RUNNING"
    and "\<forall>r. 0 < finished r"
    and "\<forall>r \<in> set running. list_all op_ok (foreign r) \<and> list_all (spares k) (foreign r)"
    and "\<forall>r \<in> set running. job_id r = k \<and> (warm_orphan c excluded now r
            \<or> (\<exists>act. active = Some act \<and> cold_orphan c excluded act now r))
          \<longrightarrow> claim_id r \<noteq> None \<and> claim_id r \<noteq> claim_id j"
  shows "redis_get k (snd (requeue_orphaned_jobs redis_step foreign c excluded active now finished running s)) = Some j
    \<and> k \<notin> set (fst (requeue_orphaned_jobs redis_step foreign c excluded active now finished running s))"
  using assms by (intro redis.recovery_spares) auto

theorem recovery_spares_live_claims_witness:
  "redis_get ''a1'' (snd (requeue_orphaned_jobs redis_step (\<lambda>_. [OpDelete ''b2'']) demo_rec [] (Some []) 1000
       (\<lambda>_. 1000) [demo_run_job ''t1''] (redis_create (demo_run_job ''t2'') []))) = Some (demo_run_job ''t2'')
   \<and> cold_orphan demo_rec [] [] 1000 (demo_run_job ''t1'')"
  using recovery_spares_live_claims [where finished = "\<lambda>_. 1000" and running = "[demo_run_job ''t1'']"
      and foreign = "\<lambda>_. [OpDelete ''b2'']" and c = demo_rec and excluded = "[]" and active = "Some []" and now = 1000,
      OF demo_run_kv(1,2)]
  by (simp add: demo_cold)

text \<open>Whom a recovery takes, and what it leaves in the row, without the code's words for it.\<close>

lemma warm_orphan_iff:
  "warm_orphan c excluded now r \<longleftrightarrow> job_id r \<notin> set excluded \<and> \<not> (\<exists>t. claim_id r = Some t \<and> take 5 t = ''node:'')
     \<and> worker_runtime r = Some ''warm'' \<and> (\<exists>t. started_at r = Some t \<and> t + rc_timeout c + rc_grace c < now)"
  by (auto simp: warm_orphan_def node_claim_iff algebra_simps split: option.splits)

lemma cold_orphan_iff:
  "(\<exists>act. active = Some act \<and> cold_orphan c excluded act now r) \<longleftrightarrow>
     job_id r \<notin> set excluded \<and> \<not> (\<exists>t. claim_id r = Some t \<and> take 5 t = ''node:'')
     \<and> worker_runtime r \<noteq> Some ''warm'' \<and> (\<exists>live. active = Some live \<and> job_id r \<notin> set live)
     \<and> (\<forall>t. started_at r = Some t \<longrightarrow> t + rc_grace c \<le> now)"
  by (auto simp: cold_orphan_def node_claim_iff algebra_simps split: option.splits)

lemma recovered_rows:
  "setattrs (warm_fields c finished r) r = r\<lparr>status := FAILED, finished_at := Some (finished r),
     expires_at := (if 0 < rc_retention c then Some (finished r + rc_retention c) else None),
     error := Some (rc_san c (rc_reason c)), security_warnings := security_warnings r @ [JStr (rc_warm_note c)]\<rparr>"
  "setattrs (cold_fields c r) r = r\<lparr>status := QUEUED, started_at := None, worker_runtime := None, worker_tier := None,
     claim_id := None, security_warnings := security_warnings r @ [JStr (rc_cold_note c)], error := None\<rparr>"
  by (simp_all add: warm_fields_def cold_fields_def fail_fields_def expires_after_def)

lemma recovered_ids:
  assumes "distinct (map job_id running)"
    and ids: "ids = map job_id (filter (warm_orphan c excluded now) running
        @ (case active of None \<Rightarrow> [] | Some act \<Rightarrow> filter (cold_orphan c excluded act now) running))"
  shows "distinct ids" "set ids \<subseteq> job_id ` set running"
    and "r \<in> set running \<Longrightarrow> job_id r \<in> set ids \<longleftrightarrow> warm_orphan c excluded now r
      \<or> (\<exists>act. active = Some act \<and> cold_orphan c excluded act now r)"
proof -
  have inj: "inj_on job_id (set running)" and dr: "distinct running" using assms(1) by (simp_all add: distinct_map)
  show "set ids \<subseteq> job_id ` set running" by (auto simp: ids split: option.splits)
  show "r \<in> set running \<Longrightarrow> job_id r \<in> set ids \<longleftrightarrow> warm_orphan c excluded now r
      \<or> (\<exists>act. active = Some act \<and> cold_orphan c excluded act now r)"
    using inj by (auto simp: ids inj_on_eq_iff split: option.splits)
  let ?taken = "filter (warm_orphan c excluded now) running
        @ (case active of None \<Rightarrow> [] | Some act \<Rightarrow> filter (cold_orphan c excluded act now) running)"
  have "distinct ?taken" using dr by (auto simp: warm_orphan_def cold_orphan_def split: option.split)
  moreover have "set ?taken \<subseteq> set running" by (auto split: option.split)
  ultimately show "distinct ids" unfolding ids distinct_map using inj inj_on_subset by blast
qed

text \<open>
  C13: what recovery does to the jobs it judges, and that it does nothing else.  On the in-memory store
  without interference, a listed running job is recovered exactly when it is not excluded, not held by a
  federated node, and, if it ran on a warm slot, its start lies further back than the worker's timeout and
  the grace; if not, when the containers could be listed, has none, and did not start within the grace.  A
  job recovered from a warm slot ends FAILED, with the reason, the note and an expiry when results are
  kept, and keeps its claim, so its late owner can still delete its own files; the others end QUEUED with
  the note and under no claim.  No other field of a recovered job changes and no other record of the store,
  listed or not; each job is counted once.
\<close>

theorem recovery_exact:
  assumes "mem_inv s" and "distinct (map job_id running)"
    and "\<forall>r \<in> set running. mem_get (job_id r) s = Some r \<and> status r = RUNNING"
    and "\<forall>r. 0 < finished r"
    and "requeue_orphaned_jobs mem_step (\<lambda>_. []) c excluded active now finished running s = (ids, s')"
  shows "distinct ids \<and> set ids \<subseteq> job_id ` set running
    \<and> (\<forall>k. k \<notin> set ids \<longrightarrow> mem_get k s' = mem_get k s)
    \<and> (\<forall>r \<in> set running.
         let ours = job_id r \<notin> set excluded \<and> \<not> (\<exists>t. claim_id r = Some t \<and> take 5 t = ''node:'');
             warm = worker_runtime r = Some ''warm'';
             stalled = (\<exists>t. started_at r = Some t \<and> t + rc_timeout c + rc_grace c < now);
             gone = (\<exists>live. active = Some live \<and> job_id r \<notin> set live);
             settled = (\<forall>t. started_at r = Some t \<longrightarrow> t + rc_grace c \<le> now)
         in (job_id r \<in> set ids \<longleftrightarrow> ours \<and> (if warm then stalled else gone \<and> settled))
          \<and> (job_id r \<in> set ids \<longrightarrow> mem_get (job_id r) s' = Some
              (if warm
               then r\<lparr>status := FAILED, finished_at := Some (finished r),
                      expires_at := (if 0 < rc_retention c then Some (finished r + rc_retention c) else None),
                      error := Some (rc_san c (rc_reason c)),
                      security_warnings := security_warnings r @ [JStr (rc_warm_note c)]\<rparr>
               else r\<lparr>status := QUEUED, started_at := None, worker_runtime := None, worker_tier := None, claim_id := None,
                      security_warnings := security_warnings r @ [JStr (rc_cold_note c)], error := None\<rparr>)))"
proof -
  have seen: "\<And>r. r \<in> set running \<Longrightarrow> mem_get (job_id r) s = Some r \<and> status r = RUNNING" using assms(3) by blast
  have fin: "\<And>r. 0 < finished r" using assms(4) by blast
  have out: "snd (requeue_orphaned_jobs mem_step (\<lambda>_. []) c excluded active now finished running s) = s'"
    and ids: "ids = map job_id (filter (warm_orphan c excluded now) running
        @ (case active of None \<Rightarrow> [] | Some act \<Rightarrow> filter (cold_orphan c excluded act now) running))"
    using mem.recovery_quiet(1) [of s running finished c excluded active now, OF assms(1,2) seen fin] assms(5) by auto
  note taken = recovered_ids [OF assms(2) ids]
  have row: "mem_get (job_id r) s' = Some (if warm_orphan c excluded now r then setattrs (warm_fields c finished r) r
              else case active of None \<Rightarrow> r
                | Some act \<Rightarrow> if cold_orphan c excluded act now r then setattrs (cold_fields c r) r else r)"
    if "r \<in> set running" for r
    using mem.recovery_quiet(2) [of s running finished r c excluded active now, OF assms(1,2) seen fin that] out by simp
  have rest: "mem_get k s' = mem_get k s" if k: "k \<notin> set ids" for k
  proof (cases "k \<in> job_id ` set running")
    case True
    then obtain r where r: "r \<in> set running" "k = job_id r" by blast
    then show ?thesis using row [OF r(1)] taken(3) [OF r(1)] k seen [OF r(1)] by (auto split: option.split)
  next
    case False
    from mem.recovery_others [of s running finished k c excluded active now, OF assms(1,2) seen fin this] show ?thesis using out by simp
  qed
  have cond: "job_id r \<in> set ids \<longleftrightarrow> (job_id r \<notin> set excluded \<and> \<not> (\<exists>t. claim_id r = Some t \<and> take 5 t = ''node:''))
      \<and> (if worker_runtime r = Some ''warm'' then \<exists>t. started_at r = Some t \<and> t + rc_timeout c + rc_grace c < now
         else (\<exists>live. active = Some live \<and> job_id r \<notin> set live) \<and> (\<forall>t. started_at r = Some t \<longrightarrow> t + rc_grace c \<le> now))"
    if "r \<in> set running" for r
    unfolding taken(3) [OF that] warm_orphan_iff cold_orphan_iff by (cases "worker_runtime r = Some ''warm''") simp_all
  have val: "mem_get (job_id r) s' = Some (if worker_runtime r = Some ''warm'' then setattrs (warm_fields c finished r) r
        else setattrs (cold_fields c r) r)" if r: "r \<in> set running" and t: "job_id r \<in> set ids" for r
    using row [OF r] t unfolding taken(3) [OF r] by (auto simp: warm_orphan_def cold_orphan_def split: option.splits)
  show ?thesis unfolding Let_def using taken(1,2) rest cond val unfolding recovered_rows by blast
qed

theorem recovery_exact_witness:
  "mem_get ''a1'' (snd (requeue_orphaned_jobs mem_step (\<lambda>_. []) demo_rec [] (Some []) 1000 (\<lambda>_. 1000)
        [demo_run_job ''t1''] (mem_create (demo_run_job ''t1'') mem_empty)))
     = Some ((demo_run_job ''t1'')\<lparr>status := QUEUED, started_at := None, worker_runtime := None, worker_tier := None,
         claim_id := None, security_warnings := security_warnings (demo_run_job ''t1'') @ [JStr ''container disappeared''], error := None\<rparr>)"
proof -
  let ?R = "requeue_orphaned_jobs mem_step (\<lambda>_. []) demo_rec [] (Some []) 1000 (\<lambda>_. 1000)
        [demo_run_job ''t1''] (mem_create (demo_run_job ''t1'') mem_empty)"
  have "?R = (fst ?R, snd ?R)" by simp
  from recovery_exact [OF demo_run_mem(1) _ _ _ this]
  show ?thesis by (simp add: demo_run_mem Let_def) (simp add: demo_rec_def)
qed

text \<open>
  a job given back with a delay stays out of reach for exactly that long.  After the owner's
  fenced requeue went through at \<open>now\<close>, no claim made before \<open>now\<close> plus the delay (at least two
  seconds) returns the job, and a claim made from then on that the job's routing admits does not
  come back empty-handed.
\<close>

theorem deferred_job_window:
  assumes "mem_inv s" and "0 \<le> now" and "mem_get (job_id j) s = Some j0"
    and "mem_step (requeue_claimed now backoff_s True defer_s j) s = (OBool True, s1)"
    and "untargeted_cutoff (c_min_age q) (c_now q) = Inr cutoff"
    and "mem_claim_next q s1 = (Inr res, s2)"
  shows "(c_now q < now + max 2 (case defer_s of None \<Rightarrow> backoff_s | Some d \<Rightarrow> d) \<longrightarrow>
            (\<forall>x. res = Some x \<longrightarrow> job_id x \<noteq> job_id j))
    \<and> (now + max 2 (case defer_s of None \<Rightarrow> backoff_s | Some d \<Rightarrow> d) \<le> c_now q
        \<and> tier_match (c_tier q) j0
        \<and> (\<forall>es. normalize_engine_filter (c_engine q) = Some es \<longrightarrow> engine j0 \<in> set es)
        \<and> job_id j \<notin> set (c_exclude q) \<and> cutoff = None
        \<longrightarrow> (\<exists>x. res = Some x \<and> status x = RUNNING \<and> claim_id x = Some (c_token q)))"
proof -
  let ?u = "now + max 2 (case defer_s of None \<Rightarrow> backoff_s | Some d \<Rightarrow> d)"
  have ok: "list_all field_ok (requeue_fields (Some ?u))" using assms(2) by (intro requeue_fields_ok) auto
  have st: "mem_step (OpCas (job_id j) RUNNING (claim_id j) (requeue_fields (Some ?u))) s = (OBool True, s1)"
    using assms(4) by (simp add: requeue_claimed_def)
  from mem.cas_step(1) [OF assms(1) ok st] assms(3)
  have "(\<lambda>k. mem_get k s1) = (\<lambda>k. mem_get k s)(job_id j \<mapsto> setattrs (requeue_fields (Some ?u)) j0)" by auto
  then have g: "mem_get (job_id j) s1 = Some (setattrs (requeue_fields (Some ?u)) j0)" by (metis fun_upd_same)
  have i1: "mem_inv s1"
    using mem.step_inv [OF assms(1), of "OpCas (job_id j) RUNNING (claim_id j) (requeue_fields (Some ?u))"] ok st
    by (simp only: op_ok.simps snd_conv)
  have id0: "job_id j0 = job_id j" using mem_get_id [OF assms(1,3)] by simp
  show ?thesis
  proof (cases res)
    case None
    then show ?thesis
      using mem_claim_empty(2) [of q s1 s2 cutoff, OF _ assms(5) g] assms(6) id0
      by (auto simp: eligible_job_def claimable_def tier_match_def split: option.splits)
  next
    case (Some x)
    from assms(6) this obtain k y where y: "mem_get k s1 = Some y" "eligible_job q cutoff y" "x = win q y"
      by (auto elim: mem_claim_some [OF i1 assms(5)])
    moreover have "job_id y = k" using mem_get_id [OF i1 y(1)] .
    ultimately show ?thesis using Some g
      by (auto simp: eligible_job_def claimable_def)
  qed
qed

theorem deferred_job_window_witness:
  "\<exists>x. fst (mem_claim_next (demo_req ''t9'') (snd (mem_step (requeue_claimed 20 2 True (Some 30) (demo_run_job ''t1''))
         (mem_create (demo_run_job ''t1'') mem_empty)))) = Inr (Some x)"
proof -
  let ?s1 = "snd (mem_step (requeue_claimed 20 2 True (Some 30) (demo_run_job ''t1'')) (mem_create (demo_run_job ''t1'') mem_empty))"
  have a: "mem_step (requeue_claimed 20 2 True (Some 30) (demo_run_job ''t1'')) (mem_create (demo_run_job ''t1'') mem_empty)
      = (OBool True, ?s1)"
    by (simp add: requeue_claimed_def requeue_fields_def mem_create_def mem_empty_def mem_update_if_status_def cas_guard_def)
  have cut: "untargeted_cutoff (c_min_age (demo_req ''t9'')) (c_now (demo_req ''t9'')) = Inr None"
    by (simp add: demo_req_def)
  obtain res s2 where c: "mem_claim_next (demo_req ''t9'') ?s1 = (Inr res, s2)"
    using mem_claim_total [OF cut] by blast
  have "job_id (demo_run_job ''t1'') = ''a1''" by simp
  with deferred_job_window [OF demo_run_mem(1) _ _ a cut c, of "demo_run_job ''t1''"] demo_run_mem(2) c
  show ?thesis
    by (auto simp: demo_req_def tier_match_def demo_run_job_def claimed_def demo_old_def Job_new_def)
qed

text \<open>
  the staged input outlives a requeue.  On the Redis store, once the owner of a claim has given
  the job back, whatever discreet clients do before and after, no record the owner finds later lets
  it delete the job's directory, so the next claimant finds the input; only a job whose record is
  gone is purged.
\<close>

theorem input_survives_requeue:
  assumes "redis_inv s" and "\<forall>k j. redis_get k s = Some j \<longrightarrow> claim_id j \<noteq> Some (c_token r)"
    and "redis_step (OpClaim r) s = (OJob (Some j), s1)" and "c_started r \<noteq> 0"
    and "list_all op_ok ops" "list_all (discreet (c_token r)) ops"
    and "list_all op_ok ops'" "list_all (discreet (c_token r)) ops'" and "0 \<le> now"
    and "redis_step (requeue_claimed now backoff_s defer defer_s j) (run_ops redis_step ops s1) = (OBool True, s2)"
    and "fst (purge_job_dir failed jid (Some (redis_get jid (run_ops redis_step ops' s2))) (Some (c_token r)))"
  shows "redis_get jid (run_ops redis_step ops' s2) = None \<and> jid \<notin> failed"
proof -
  have fresh: "unminted (c_token r) (\<lambda>k. redis_get k s)" using assms(2) by (simp add: unminted_def)
  note un = redis.requeued_unclaimed [OF assms(1) fresh assms(3-10)]
  show ?thesis
    using assms(11) un [of jid] by (auto simp: purge_job_dir_def may_purge_def split: if_splits option.splits)
qed

lemma demo_first_claim:
  "redis_step (OpClaim (demo_req ''t1'')) demo_kv =
     (OJob (Some (win (demo_req ''t1'') demo_old)), snd (redis_step (OpClaim (demo_req ''t1'')) demo_kv))"
  "redis_get ''a1'' (snd (redis_step (OpClaim (demo_req ''t1'')) demo_kv)) = Some (win (demo_req ''t1'') demo_old)"
proof -
  have cut: "untargeted_cutoff (c_min_age (demo_req ''t1'')) (c_now (demo_req ''t1'')) = Inr None"
    by (simp add: demo_req_def)
  have el: "eligible_job (demo_req ''t1'') None demo_old" "eligible_job (demo_req ''t1'') None demo_new"
    "claim_key demo_old \<le> claim_key demo_new"
    by (simp_all add: eligible_job_def claimable_def tier_match_def demo_defs claim_key_def)
  have c: "redis_claim_next [] (demo_req ''t1'') demo_kv = (Inr (Some (win (demo_req ''t1'') demo_old)),
      AList.update (redis_key ''a1'') (encode_job (win (demo_req ''t1'') demo_old)) demo_kv)"
    by (simp add: redis_claim_eq [OF cut] demo_kv_scan el Let_def)
  then show "redis_step (OpClaim (demo_req ''t1'')) demo_kv =
     (OJob (Some (win (demo_req ''t1'') demo_old)), snd (redis_step (OpClaim (demo_req ''t1'')) demo_kv))"
    by simp
  have "json_safe (win (demo_req ''t1'') demo_old)" by (rule win_json_safe) (simp_all add: demo_req_def demo_safe)
  then show "redis_get ''a1'' (snd (redis_step (OpClaim (demo_req ''t1'')) demo_kv)) = Some (win (demo_req ''t1'') demo_old)"
    by (simp add: c redis_get_def fetch_update)
qed

theorem input_survives_requeue_witness:
  "\<not> fst (purge_job_dir {} ''a1''
      (Some (redis_get ''a1'' (snd (redis_step (requeue_claimed 110 2 False None (win (demo_req ''t1'') demo_old))
        (snd (redis_step (OpClaim (demo_req ''t1'')) demo_kv)))))) (Some ''t1''))"
proof
  let ?s1 = "snd (redis_step (OpClaim (demo_req ''t1'')) demo_kv)"
  let ?q = "requeue_claimed 110 2 False None (win (demo_req ''t1'') demo_old)"
  assume purge: "fst (purge_job_dir {} ''a1'' (Some (redis_get ''a1'' (snd (redis_step ?q ?s1)))) (Some ''t1''))"
  have q: "?q = OpCas ''a1'' RUNNING (Some ''t1'') (requeue_fields None)"
    by (simp add: requeue_claimed_def) (simp add: demo_req_def)
  have f: "list_all field_ok (requeue_fields None)" by (rule requeue_fields_ok) simp
  have i1: "redis_inv ?s1" by (rule redis.step_inv [OF demo_kv_inv]) (simp add: demo_req_def)
  have hit: "\<exists>x. redis_get ''a1'' ?s1 = Some x \<and> cas_guard RUNNING (Some ''t1'') x"
    unfolding demo_first_claim(2) by (simp add: cas_guard_def) (simp add: demo_req_def)
  have won: "redis_step ?q ?s1 = (OBool True, snd (redis_step ?q ?s1))"
    using redis.cas_step(2) [OF i1 f hit] by (simp only: q prod_eq_iff fst_conv snd_conv simp_thms)
  have fresh: "\<forall>k x. redis_get k demo_kv = Some x \<longrightarrow> claim_id x \<noteq> Some (c_token (demo_req ''t1''))"
    by (simp add: redis_get_def fetch_def demo_kv_eq decode_encode demo_safe)
       (simp add: demo_old_def demo_new_def Job_new_def)
  have "redis_get ''a1'' (snd (redis_step ?q ?s1)) = None"
    using input_survives_requeue [OF demo_kv_inv fresh demo_first_claim(1), of "[]" "[]" 110 2 False None _ "{}" "''a1''"]
      won purge by (simp add: demo_req_def)
  moreover obtain x where "(\<lambda>k. redis_get k (snd (redis_step ?q ?s1))) = (\<lambda>k. redis_get k ?s1)(''a1'' \<mapsto> x)"
    using redis.cas_step(1) [OF i1 f won [unfolded q]] unfolding q by blast
  ultimately show False by (metis fun_upd_same option.distinct(1))
qed

text \<open>
  jobs nobody claims expire.  Without interference, the sweep over the queued jobs fails those
  created at least \<open>max_age\<close> ago, with an expiry when results are retained, and leaves the younger
  ones queued; an age of zero or less switches it off.
\<close>

theorem stale_queued_jobs_fail:
  assumes "mem_inv s" and "distinct (map job_id queued)"
    and "\<forall>r \<in> set queued. mem_get (job_id r) s = Some r \<and> status r = QUEUED"
    and "\<forall>r. 0 < finished r" and "r \<in> set queued"
  shows "mem_get (job_id r) (snd (fail_stale_queued_jobs mem_step (\<lambda>_. []) c max_age now finished queued s)) =
    Some (if 0 < max_age \<and> created_at r \<le> now - max_age
          then setattrs (fail_fields (rc_san c) (rc_retention c) (finished r) (rc_reason c)) r else r)"
proof (cases "max_age \<le> 0")
  case True
  then show ?thesis using assms(3,5) by (simp add: fail_stale_queued_jobs_def)
next
  case False
  let ?Q = "filter (\<lambda>j. created_at j \<le> now - max_age) queued"
  have pick: "find (\<lambda>q. job_id q = job_id r) (filter P queued) = (if P r then Some r else None)" for P
    using assms(2,5) by (induction queued) (auto simp: find_None_iff image_iff)
  have "mem_get (job_id r) (snd (sweep mem_step (\<lambda>_. []) (fail_stale c finished) ?Q s))
      = (case find (\<lambda>q. job_id q = job_id r) ?Q of
           Some q \<Rightarrow> Some (setattrs (fail_fields (rc_san c) (rc_retention c) (finished q) (rc_reason c)) q)
         | None \<Rightarrow> mem_get (job_id r) s)"
    using mem.sweep_quiet [where js = ?Q and op = "fail_stale c finished" and st = QUEUED and fence = "\<lambda>_. None"
        and upd = "\<lambda>q. fail_fields (rc_san c) (rc_retention c) (finished q) (rc_reason c)"
        and foreign = "\<lambda>_. []" and k = "job_id r", OF _ assms(1)] assms(2-4)
    by (simp add: fail_stale_def fail_fields_ok distinct_map_filter)
  then show ?thesis using False assms(3,5) by (simp add: fail_stale_queued_jobs_def pick)
qed

theorem stale_queued_jobs_fail_witness:
  "\<exists>x. mem_get ''a1'' (snd (fail_stale_queued_jobs mem_step (\<lambda>_. []) demo_rec 60 100 (\<lambda>_. 100)
        [demo_old, demo_new] demo_store)) = Some x \<and> status x = FAILED"
proof -
  have q: "status demo_old = QUEUED" "status demo_new = QUEUED" "created_at demo_old = 10"
    "mem_get ''a1'' demo_store = Some demo_old" "mem_get ''b2'' demo_store = Some demo_new"
    by (simp_all add: mem_get_def demo_store_jobs) (simp_all add: demo_old_def demo_new_def Job_new_def)
  show ?thesis
    using stale_queued_jobs_fail [OF demo_store_inv, of "[demo_old, demo_new]" "\<lambda>_. 100" demo_old demo_rec 60 100]
    by (simp add: q)
qed

end
