(* ===== verification/Net_Daemon.thy ===== *)
theory Net_Daemon
  imports Net_Wire
begin

text \<open>
  \<^verbatim>\<open>host/netd.py\<close>: the daemon that puts a leak guard into a worker's network namespace and then
  gives it its route out.  Every command it runs is an entry of a log, with the container it was run
  for and the exit status (\<^const>\<open>None\<close> when starting it raised); \<open>ask\<close> answers the next command
  from the log so far.  Packet capture is only present as the set of captured containers.
\<close>

section \<open>State\<close>

datatype call = NsRun int "string list" | NsSpawn int "string list" | HostRun "string list" | Terminate

type_synonym entry = "string \<times> call \<times> int option"
type_synonym asked = "entry list \<Rightarrow> string \<Rightarrow> call \<Rightarrow> int option"

text \<open>The configuration; an unset address or URL is empty.\<close>

record netd_cfg =
  nc_nsenter :: bool
  nc_spawn :: bool
  nc_host :: bool
  nc_socks :: string
  nc_vpn :: string
  nc_inspect :: string
  nc_transproxy :: string
  nc_trans_port :: int
  nc_dns_port :: int
  nc_canon :: "string \<Rightarrow> string option"

record netd =
  nd_active :: "string set"
  nd_wired :: "string set"
  nd_procs :: "string set"
  nd_inspect :: "string set"
  nd_transproxy :: "(string \<times> string) list"
  nd_guarded :: "string set"
  nd_failed :: "string set"
  nd_log :: "entry list"

definition netd_init :: netd where
  "netd_init = \<lparr>nd_active = {}, nd_wired = {}, nd_procs = {}, nd_inspect = {}, nd_transproxy = [],
     nd_guarded = {}, nd_failed = {}, nd_log = []\<rparr>"

definition call :: "asked \<Rightarrow> string \<Rightarrow> call \<Rightarrow> netd \<Rightarrow> int option \<times> netd" where
  "call ask cid c s = (let r = ask (nd_log s) cid c in (r, s\<lparr>nd_log := nd_log s @ [(cid, c, r)]\<rparr>))"

text \<open>Run commands until one does not return zero.\<close>

fun run_all :: "asked \<Rightarrow> string \<Rightarrow> call list \<Rightarrow> netd \<Rightarrow> bool \<times> netd" where
  "run_all ask cid [] s = (True, s)"
| "run_all ask cid (c # cs) s =
     (let (r, s1) = call ask cid c s in if r = Some 0 then run_all ask cid cs s1 else (False, s1))"

section \<open>The leak guard\<close>

definition V6_PROBE :: "string \<Rightarrow> string list" where
  "V6_PROBE addr = [''ip'', ''-6'', ''route'', ''get'', addr]"

text \<open>The two route probes of a host whose \<^verbatim>\<open>ip6tables\<close> failed; \<^const>\<open>True\<close> when both say there is
  no IPv6 path.\<close>

definition no_v6_path :: "asked \<Rightarrow> int \<Rightarrow> string \<Rightarrow> netd \<Rightarrow> bool \<times> netd" where
  "no_v6_path ask pid cid s =
     (let (r1, s1) = call ask cid (NsRun pid (V6_PROBE ''2606:4700:4700::1111'')) s
      in case r1 of None \<Rightarrow> (False, s1)
         | Some n \<Rightarrow> if n = 0 then (False, s1)
             else let (r2, s2) = call ask cid (NsRun pid (V6_PROBE ''ff02::1'')) s1
                  in case r2 of None \<Rightarrow> (False, s2) | Some m \<Rightarrow> (m \<noteq> 0, s2))"

fun install_v6 :: "asked \<Rightarrow> int \<Rightarrow> string \<Rightarrow> string list list \<Rightarrow> netd \<Rightarrow> bool \<times> netd" where
  "install_v6 ask pid cid [] s = (True, s)"
| "install_v6 ask pid cid (rule # rules) s =
     (let (r, s1) = call ask cid (NsRun pid rule) s
      in case r of None \<Rightarrow> (False, s1)
         | Some n \<Rightarrow> if n = 0 then install_v6 ask pid cid rules s1 else no_v6_path ask pid cid s1)"

definition install_v6_guard :: "asked \<Rightarrow> int \<Rightarrow> string \<Rightarrow> netd \<Rightarrow> bool \<times> netd" where
  "install_v6_guard ask pid cid s = install_v6 ask pid cid leak_guard_rules_v6 s"

text \<open>The rules a container's labels ask for.\<close>

definition guard_rules :: "container \<Rightarrow> (int \<times> string list list res) option" where
  "guard_rules ct =
     (case leakguard_from_inspect ct of
        None \<Rightarrow> None
      | Some (pid, dns, drop_non_tcp) \<Rightarrow>
          (case egress_filter_from_inspect ct of (ports, block) \<Rightarrow>
             Some (pid, leak_guard_rules dns ports block drop_non_tcp)))"

definition fail_guard :: "string \<Rightarrow> netd \<Rightarrow> netd" where
  "fail_guard cid s = s\<lparr>nd_failed := insert cid (nd_failed s)\<rparr>"

definition maybe_leakguard :: "asked \<Rightarrow> netd_cfg \<Rightarrow> string \<Rightarrow> container \<Rightarrow> netd \<Rightarrow> netd" where
  "maybe_leakguard ask cfg cid ct s =
     (if \<not> nc_nsenter cfg \<or> cid \<in> nd_guarded s then s
      else case guard_rules ct of
        None \<Rightarrow> s
      | Some (pid, Inl e) \<Rightarrow> fail_guard cid s
      | Some (pid, Inr rules) \<Rightarrow>
          (let (ok, s1) = run_all ask cid (map (NsRun pid) rules) s
           in if \<not> ok then fail_guard cid s1
              else let (ok6, s2) = install_v6_guard ask pid cid s1
                   in if ok6 then s2\<lparr>nd_guarded := insert cid (nd_guarded s2)\<rparr> else fail_guard cid s2))"

section \<open>The route out\<close>

definition mark_wired :: "string \<Rightarrow> bool \<Rightarrow> netd \<Rightarrow> netd" where
  "mark_wired cid proc s =
     s\<lparr>nd_wired := insert cid (nd_wired s), nd_procs := (if proc then insert cid (nd_procs s) else nd_procs s)\<rparr>"

definition TUN_WAIT_TRIES :: nat where "TUN_WAIT_TRIES = 40"

text \<open>Waiting for the device: \<^const>\<open>Some\<close> whether it appeared, \<^const>\<open>None\<close> when asking raised.\<close>

fun wait_tun :: "asked \<Rightarrow> string \<Rightarrow> int \<Rightarrow> nat \<Rightarrow> netd \<Rightarrow> bool option \<times> netd" where
  "wait_tun ask cid pid 0 s = (Some False, s)"
| "wait_tun ask cid pid (Suc n) s =
     (let (r, s1) = call ask cid (NsRun pid [''ip'', ''link'', ''show'', TUN_DEV]) s
      in case r of None \<Rightarrow> (None, s1) | Some k \<Rightarrow> if k = 0 then (Some True, s1) else wait_tun ask cid pid n s1)"

definition terminate :: "asked \<Rightarrow> string \<Rightarrow> netd \<Rightarrow> netd" where
  "terminate ask cid s = snd (call ask cid Terminate s)"

definition wire_socks :: "asked \<Rightarrow> netd_cfg \<Rightarrow> string \<Rightarrow> wire_target \<Rightarrow> netd \<Rightarrow> netd" where
  "wire_socks ask cfg cid wt s =
     (let url = (if wt_socks_proxy wt = [] then nc_socks cfg else wt_socks_proxy wt)
      in if url = [] \<or> \<not> nc_spawn cfg \<or> \<not> nc_nsenter cfg then s
         else case validate_socks_url url of
           Inl e \<Rightarrow> s
         | Inr proxy \<Rightarrow>
             (let (r, s1) = call ask cid (NsSpawn (wt_pid wt) (tun2socks_argv proxy)) s
              in if r = None then s1
                 else let (ready, s2) = wait_tun ask cid (wt_pid wt) TUN_WAIT_TRIES s1
                      in if ready \<noteq> Some True then terminate ask cid s2
                         else let (ok, s3) = run_all ask cid (map (NsRun (wt_pid wt)) tun_setup_commands) s2
                              in if ok then mark_wired cid True s3 else terminate ask cid s3))"

definition wire_gateway :: "asked \<Rightarrow> netd_cfg \<Rightarrow> string \<Rightarrow> string \<Rightarrow> wire_target \<Rightarrow> netd \<Rightarrow> bool \<times> netd" where
  "wire_gateway ask cfg gw cid wt s =
     (if gw = [] \<or> \<not> nc_nsenter cfg then (False, s)
      else case gateway_route_commands (nc_canon cfg) gw of
        Inl e \<Rightarrow> (False, s)
      | Inr cmds \<Rightarrow> run_all ask cid (map (NsRun (wt_pid wt)) cmds) s)"

definition wire_vpn :: "asked \<Rightarrow> netd_cfg \<Rightarrow> string \<Rightarrow> wire_target \<Rightarrow> netd \<Rightarrow> netd" where
  "wire_vpn ask cfg cid wt s =
     (let (ok, s1) = wire_gateway ask cfg (nc_vpn cfg) cid wt s in if ok then mark_wired cid False s1 else s1)"

definition wire_inspect :: "asked \<Rightarrow> netd_cfg \<Rightarrow> string \<Rightarrow> wire_target \<Rightarrow> netd \<Rightarrow> netd" where
  "wire_inspect ask cfg cid wt s =
     (let (ok, s1) = wire_gateway ask cfg (nc_inspect cfg) cid wt s
      in if ok then (mark_wired cid False s1)\<lparr>nd_inspect := insert cid (nd_inspect s1)\<rparr> else s1)"

text \<open>Teardown runs every delete, whatever each returns.\<close>

definition teardown_transproxy :: "asked \<Rightarrow> netd_cfg \<Rightarrow> string \<Rightarrow> string \<Rightarrow> netd \<Rightarrow> netd" where
  "teardown_transproxy ask cfg cid ip s =
     (if \<not> nc_host cfg \<or> ip = [] then s
      else case transproxy_redirect_rules (nc_canon cfg) ip (nc_trans_port cfg) (nc_dns_port cfg) False of
        Inl e \<Rightarrow> s
      | Inr rules \<Rightarrow> fold (\<lambda>rule s. snd (call ask cid (HostRun rule) s)) rules s)"

text \<open>The rules are computed outside the handler's own \<^verbatim>\<open>try\<close>: a bad port escapes as \<^const>\<open>False\<close>.\<close>

definition wire_transproxy :: "asked \<Rightarrow> netd_cfg \<Rightarrow> string \<Rightarrow> wire_target \<Rightarrow> netd \<Rightarrow> bool \<times> netd" where
  "wire_transproxy ask cfg cid wt s =
     (if nc_transproxy cfg = [] \<or> \<not> nc_host cfg \<or> \<not> nc_nsenter cfg \<or> wt_worker_ip wt = [] then (True, s)
      else case transproxy_redirect_rules (nc_canon cfg) (wt_worker_ip wt) (nc_trans_port cfg) (nc_dns_port cfg) True of
        Inl e \<Rightarrow> (False, s)
      | Inr rules \<Rightarrow>
          (let (ok, s1) = run_all ask cid (map HostRun rules) s;
               (ok2, s2) = (if \<not> ok then (False, s1)
                            else case gateway_route_commands (nc_canon cfg) (nc_transproxy cfg) of
                              Inl e \<Rightarrow> (False, s1)
                            | Inr cmds \<Rightarrow> run_all ask cid (map (NsRun (wt_pid wt)) cmds) s1)
           in (True,
               if ok2 then (mark_wired cid False s2)\<lparr>nd_transproxy := AList.update cid (wt_worker_ip wt) (nd_transproxy s2)\<rparr>
               else teardown_transproxy ask cfg cid (wt_worker_ip wt) s2)))"

definition maybe_wire :: "asked \<Rightarrow> netd_cfg \<Rightarrow> string \<Rightarrow> container \<Rightarrow> netd \<Rightarrow> bool \<times> netd" where
  "maybe_wire ask cfg cid ct s =
     (if \<not> nc_nsenter cfg \<or> cid \<in> nd_wired s then (True, s)
      else case wire_target_from_inspect (nc_canon cfg) ct of
        None \<Rightarrow> (True, s)
      | Some wt \<Rightarrow>
          if wt_mode wt = ''socks'' then (True, wire_socks ask cfg cid wt s)
          else if wt_mode wt = ''vpn'' then (True, wire_vpn ask cfg cid wt s)
          else if wt_mode wt = ''inspect'' then (True, wire_inspect ask cfg cid wt s)
          else wire_transproxy ask cfg cid wt s)"

section \<open>Events\<close>

text \<open>A start: what inspecting the container answered (\<^const>\<open>None\<close> when it failed), and whether a
  capture of it was started; \<^const>\<open>False\<close> when the handler raised.\<close>

definition handle_start :: "asked \<Rightarrow> netd_cfg \<Rightarrow> string \<Rightarrow> container option \<Rightarrow> bool \<Rightarrow> netd \<Rightarrow> bool \<times> netd" where
  "handle_start ask cfg cid inspected captured s =
     (case inspected of
        None \<Rightarrow> (True, s)
      | Some ct \<Rightarrow>
          (let s1 = (if captured then s\<lparr>nd_active := insert cid (nd_active s)\<rparr> else s);
               s2 = maybe_leakguard ask cfg cid ct s1
           in if cid \<in> nd_failed s2 then (True, s2) else maybe_wire ask cfg cid ct s2))"

definition handle_die :: "asked \<Rightarrow> netd_cfg \<Rightarrow> string \<Rightarrow> netd \<Rightarrow> netd" where
  "handle_die ask cfg cid s =
     (let s1 = s\<lparr>nd_active := nd_active s - {cid}, nd_inspect := nd_inspect s - {cid}\<rparr>;
          s2 = (case map_of (nd_transproxy s1) cid of
                  None \<Rightarrow> s1
                | Some ip \<Rightarrow> teardown_transproxy ask cfg cid ip
                               (s1\<lparr>nd_transproxy := AList.delete cid (nd_transproxy s1)\<rparr>));
          s3 = s2\<lparr>nd_guarded := nd_guarded s2 - {cid}, nd_failed := nd_failed s2 - {cid},
                  nd_wired := nd_wired s2 - {cid}, nd_procs := nd_procs s2 - {cid}\<rparr>
      in if cid \<in> nd_procs s2 then terminate ask cid s3 else s3)"

definition tracked_ids :: "netd \<Rightarrow> string set" where
  "tracked_ids s = nd_active s \<union> nd_wired s \<union> set (map fst (nd_transproxy s)) \<union> nd_guarded s \<union> nd_inspect s"

text \<open>\<open>_reconcile\<close> with the vanished and the running workers in the order the sets are walked;
  it stops at the first handler that raises.\<close>

fun start_all :: "asked \<Rightarrow> netd_cfg \<Rightarrow> (string \<times> container option \<times> bool) list \<Rightarrow> netd \<Rightarrow> bool \<times> netd" where
  "start_all ask cfg [] s = (True, s)"
| "start_all ask cfg ((cid, ct, captured) # rest) s =
     (let (ok, s1) = handle_start ask cfg cid ct captured s
      in if ok then start_all ask cfg rest s1 else (False, s1))"

definition reconcile ::
  "asked \<Rightarrow> netd_cfg \<Rightarrow> string list \<Rightarrow> (string \<times> container option \<times> bool) list \<Rightarrow> netd \<Rightarrow> bool \<times> netd" where
  "reconcile ask cfg vanished running s = start_all ask cfg running (fold (handle_die ask cfg) vanished s)"

datatype netd_event =
    Start string bool bool
  | Die string
  | Reconcile "string list" "(string \<times> bool \<times> bool) list"

text \<open>Labels and pid of a container do not change while it runs; inspecting it may fail.\<close>

definition seen :: "(string \<Rightarrow> container) \<Rightarrow> string \<Rightarrow> bool \<Rightarrow> container option" where
  "seen info cid ok = (if ok then Some (info cid) else None)"

fun on_event :: "asked \<Rightarrow> netd_cfg \<Rightarrow> (string \<Rightarrow> container) \<Rightarrow> netd_event \<Rightarrow> netd \<Rightarrow> netd" where
  "on_event ask cfg info (Start cid ok captured) s = snd (handle_start ask cfg cid (seen info cid ok) captured s)"
| "on_event ask cfg info (Die cid) s = handle_die ask cfg cid s"
| "on_event ask cfg info (Reconcile vanished running) s =
     snd (reconcile ask cfg vanished (map (\<lambda>(cid, ok, captured). (cid, seen info cid ok, captured)) running) s)"

section \<open>What a step may change\<close>

text \<open>The log grows by entries with a property; the record of guarded containers stays.\<close>

definition logs :: "(entry \<Rightarrow> bool) \<Rightarrow> netd \<Rightarrow> netd \<Rightarrow> bool" where
  "logs P s s' \<longleftrightarrow> (\<exists>es. nd_log s' = nd_log s @ es \<and> (\<forall>e \<in> set es. P e)) \<and> nd_guarded s' = nd_guarded s
     \<and> nd_failed s' = nd_failed s"

lemma logs_refl [simp]: "logs P s s"
  by (simp add: logs_def)

lemma logs_fields [simp]:
  "logs P s (t\<lparr>nd_inspect := x\<rparr>) = logs P s t" "logs P s (t\<lparr>nd_transproxy := y\<rparr>) = logs P s t"
  "logs P s (t\<lparr>nd_active := x\<rparr>) = logs P s t" "logs P s (t\<lparr>nd_wired := x\<rparr>) = logs P s t"
  "logs P s (t\<lparr>nd_procs := x\<rparr>) = logs P s t"
  by (simp_all add: logs_def)

lemma logs_trans: "logs P s s1 \<Longrightarrow> logs P s1 s2 \<Longrightarrow> logs P s s2"
  by (fastforce simp: logs_def)

lemma logs_mono: "logs P s s' \<Longrightarrow> (\<And>e. P e \<Longrightarrow> Q e) \<Longrightarrow> logs Q s s'"
  by (auto simp: logs_def)

lemma call_logs: "call ask cid c s = (r, s') \<Longrightarrow> P (cid, c, r) \<Longrightarrow> logs P s s'"
  by (auto simp: call_def logs_def Let_def)

lemma snd_call_logs: "(\<And>r. P (cid, c, r)) \<Longrightarrow> logs P s (snd (call ask cid c s))"
  by (rule call_logs [of ask cid c s "fst (call ask cid c s)"]) auto

lemma run_all_logs:
  "run_all ask cid cs s = (ok, s') \<Longrightarrow> (\<And>c r. c \<in> set cs \<Longrightarrow> P (cid, c, r)) \<Longrightarrow> logs P s s'"
proof (induction cs arbitrary: s)
  case (Cons c cs)
  obtain r s1 where c: "call ask cid c s = (r, s1)" by fastforce
  then have "logs P s s1" using Cons.prems(2) by (intro call_logs) auto
  then show ?case using Cons c by (auto intro: logs_trans split: if_splits)
qed simp

lemma run_all_ok:
  "run_all ask cid cs s = (True, s') \<Longrightarrow> s' = s\<lparr>nd_log := nd_log s @ map (\<lambda>c. (cid, c, Some 0)) cs\<rparr>"
proof (induction cs arbitrary: s)
  case (Cons c cs)
  then have "run_all ask cid cs (s\<lparr>nd_log := nd_log s @ [(cid, c, Some 0)]\<rparr>) = (True, s')"
    by (auto simp: call_def Let_def split: if_splits)
  then show ?case using Cons.IH by fastforce
qed simp

lemma wait_tun_logs: "wait_tun ask cid pid n s = (r, s') \<Longrightarrow> logs (\<lambda>e. fst e = cid) s s'"
proof (induction n arbitrary: s)
  case (Suc n)
  obtain k s1 where c: "call ask cid (NsRun pid [''ip'', ''link'', ''show'', TUN_DEV]) s = (k, s1)" by fastforce
  then have "logs (\<lambda>e. fst e = cid) s s1" by (rule call_logs) simp
  then show ?case using Suc c by (auto intro: logs_trans split: option.splits if_splits)
qed simp

lemma mark_wired_logs: "logs P s (mark_wired cid b s)" "logs P s s1 \<Longrightarrow> logs P s (mark_wired cid b s1)"
  by (simp_all add: logs_def mark_wired_def)

lemma teardown_logs:
  assumes p: "\<And>rule r. P (cid, HostRun rule, r)"
  shows "logs P s (teardown_transproxy ask cfg cid ip s)"
proof -
  have "logs P s (fold (\<lambda>rule s. snd (call ask cid (HostRun rule) s)) rules s)" for rules s
  proof (induction rules arbitrary: s)
    case (Cons r rules)
    have l: "logs P s (snd (call ask cid (HostRun r) s))" using p by (rule snd_call_logs)
    show ?case using logs_trans [OF l Cons.IH] by simp
  qed simp
  then show ?thesis by (simp add: teardown_transproxy_def split: sum.split)
qed

lemma wire_gateway_logs: "wire_gateway ask cfg gw cid wt s = (ok, s') \<Longrightarrow> logs (\<lambda>e. fst e = cid) s s'"
  by (auto simp: wire_gateway_def split: if_splits sum.splits elim!: run_all_logs)

lemma wire_socks_logs: "logs (\<lambda>e. fst e = cid) s (wire_socks ask cfg cid wt s)"
proof -
  have "logs (\<lambda>e. fst e = cid) s
      (let (r, s1) = call ask cid (NsSpawn (wt_pid wt) (tun2socks_argv proxy)) s
       in if r = None then s1
          else let (ready, s2) = wait_tun ask cid (wt_pid wt) TUN_WAIT_TRIES s1
               in if ready \<noteq> Some True then terminate ask cid s2
                  else let (ok, s3) = run_all ask cid (map (NsRun (wt_pid wt)) tun_setup_commands) s2
                       in if ok then mark_wired cid True s3 else terminate ask cid s3)" for proxy
  proof -
    let ?P = "\<lambda>e. fst e = cid"
    obtain r s1 where c: "call ask cid (NsSpawn (wt_pid wt) (tun2socks_argv proxy)) s = (r, s1)" by fastforce
    obtain ready s2 where w: "wait_tun ask cid (wt_pid wt) TUN_WAIT_TRIES s1 = (ready, s2)" by fastforce
    obtain ok s3 where a: "run_all ask cid (map (NsRun (wt_pid wt)) tun_setup_commands) s2 = (ok, s3)" by fastforce
    have l1: "logs ?P s s1" using c by (rule call_logs) simp
    have l2: "logs ?P s s2" using l1 wait_tun_logs [OF w] by (rule logs_trans)
    have l3: "logs ?P s s3" using l2 run_all_logs [OF a, of ?P] by (auto intro: logs_trans)
    have t: "logs ?P x (terminate ask cid x)" for x unfolding terminate_def by (rule snd_call_logs) simp
    show ?thesis
      using l1 l2 l3 t [of s2] t [of s3] logs_trans [of ?P s s2] logs_trans [of ?P s s3]
      by (simp add: c w a mark_wired_logs)
  qed
  then show ?thesis by (simp add: wire_socks_def Let_def split: sum.split)
qed

lemma wire_transproxy_logs: "wire_transproxy ask cfg cid wt s = (ok, s') \<Longrightarrow> logs (\<lambda>e. fst e = cid) s s'"
proof -
  assume w: "wire_transproxy ask cfg cid wt s = (ok, s')"
  let ?P = "\<lambda>e. fst e = cid"
  show ?thesis
  proof (cases "nc_transproxy cfg = [] \<or> \<not> nc_host cfg \<or> \<not> nc_nsenter cfg \<or> wt_worker_ip wt = []")
    case True
    then show ?thesis using w by (simp add: wire_transproxy_def)
  next
    case False
    show ?thesis
    proof (cases "transproxy_redirect_rules (nc_canon cfg) (wt_worker_ip wt) (nc_trans_port cfg) (nc_dns_port cfg) True")
      case (Inl e)
      then show ?thesis using w False by (simp add: wire_transproxy_def)
    next
      case (Inr rules)
      obtain ok1 s1 where a: "run_all ask cid (map HostRun rules) s = (ok1, s1)" by fastforce
      define p where "p = (if \<not> ok1 then (False, s1)
          else case gateway_route_commands (nc_canon cfg) (nc_transproxy cfg) of
            Inl e \<Rightarrow> (False, s1) | Inr cmds \<Rightarrow> run_all ask cid (map (NsRun (wt_pid wt)) cmds) s1)"
      have l1: "logs ?P s s1" using a by (rule run_all_logs) simp
      have "logs ?P s1 (snd p)"
      proof (cases "gateway_route_commands (nc_canon cfg) (nc_transproxy cfg)")
        case (Inr cmds)
        have "logs ?P s1 (snd (run_all ask cid (map (NsRun (wt_pid wt)) cmds) s1))"
          by (rule run_all_logs [OF prod.collapse [symmetric]]) simp
        then show ?thesis using Inr by (simp add: p_def)
      qed (simp add: p_def)
      with l1 have l2: "logs ?P s (snd p)" by (rule logs_trans)
      have "s' = (if fst p then (mark_wired cid False (snd p))\<lparr>nd_transproxy :=
            AList.update cid (wt_worker_ip wt) (nd_transproxy (snd p))\<rparr>
          else teardown_transproxy ask cfg cid (wt_worker_ip wt) (snd p))"
        using w False Inr by (cases ok1; cases "gateway_route_commands (nc_canon cfg) (nc_transproxy cfg)")
           (simp_all add: wire_transproxy_def a Let_def split_beta p_def cong: if_cong)
      moreover have "logs ?P s ((mark_wired cid False (snd p))\<lparr>nd_transproxy := x\<rparr>)" for x
        using l2 by (simp add: logs_def mark_wired_def)
      ultimately show ?thesis using l2 teardown_logs [of ?P cid "snd p"] by (auto intro: logs_trans)
    qed
  qed
qed

lemma maybe_wire_logs: "logs (\<lambda>e. fst e = cid) s (snd (maybe_wire ask cfg cid ct s))"
proof -
  have v: "logs (\<lambda>e. fst e = cid) s (wire_vpn ask cfg cid wt s)" "logs (\<lambda>e. fst e = cid) s (wire_inspect ask cfg cid wt s)" for wt
  proof -
    have "logs (\<lambda>e. fst e = cid) s (snd (wire_gateway ask cfg gw cid wt s))" for gw
      by (rule wire_gateway_logs [OF prod.collapse [symmetric]])
    then show "logs (\<lambda>e. fst e = cid) s (wire_vpn ask cfg cid wt s)" "logs (\<lambda>e. fst e = cid) s (wire_inspect ask cfg cid wt s)"
      by (simp_all add: wire_vpn_def wire_inspect_def split_beta Let_def mark_wired_logs)
  qed
  have t: "logs (\<lambda>e. fst e = cid) s (snd (wire_transproxy ask cfg cid wt s))" for wt
    by (rule wire_transproxy_logs [OF prod.collapse [symmetric]])
  show ?thesis by (simp add: maybe_wire_def wire_socks_logs v t split: option.split)
qed

section \<open>The guard before the route\<close>

text \<open>A command that gives a worker its route out, and the log of a completed guard: every IPv4 rule
  succeeded, and after them either every IPv6 rule, or IPv6 rules up to one that failed, with both
  route probes failing as well.\<close>

definition egress_entry :: "entry \<Rightarrow> bool" where
  "egress_entry e \<longleftrightarrow> (\<exists>pid argv. fst (snd e) = NsRun pid argv \<and> take 3 argv = [''ip'', ''route'', ''replace''])"

definition v6_log :: "string \<Rightarrow> int \<Rightarrow> string list list \<Rightarrow> entry list \<Rightarrow> bool" where
  "v6_log cid pid rules es \<longleftrightarrow>
     es = map (\<lambda>r. (cid, NsRun pid r, Some 0)) rules
     \<or> (\<exists>n k1 k2 k3. n < length rules \<and> k1 \<noteq> 0 \<and> k2 \<noteq> 0 \<and> k3 \<noteq> 0
          \<and> es = map (\<lambda>r. (cid, NsRun pid r, Some 0)) (take n rules)
               @ [(cid, NsRun pid (rules ! n), Some k1),
                  (cid, NsRun pid (V6_PROBE ''2606:4700:4700::1111''), Some k2),
                  (cid, NsRun pid (V6_PROBE ''ff02::1''), Some k3)])"

definition guard_done :: "entry list \<Rightarrow> string \<Rightarrow> int \<Rightarrow> string list list \<Rightarrow> bool" where
  "guard_done lg cid pid rules \<longleftrightarrow>
     (\<exists>a es b. lg = a @ map (\<lambda>r. (cid, NsRun pid r, Some 0)) rules @ es @ b \<and> v6_log cid pid leak_guard_rules_v6 es)"

definition behind_guard :: "(string \<Rightarrow> container) \<Rightarrow> entry list \<Rightarrow> string \<Rightarrow> bool" where
  "behind_guard info lg cid \<longleftrightarrow>
     (case guard_rules (info cid) of
        None \<Rightarrow> True | Some (pid, Inl e) \<Rightarrow> False | Some (pid, Inr rules) \<Rightarrow> guard_done lg cid pid rules)"

definition log_guarded :: "(string \<Rightarrow> container) \<Rightarrow> entry list \<Rightarrow> bool" where
  "log_guarded info lg \<longleftrightarrow> (\<forall>a e b. lg = a @ e # b \<longrightarrow> egress_entry e \<longrightarrow> behind_guard info a (fst e))"

definition netd_inv :: "(string \<Rightarrow> container) \<Rightarrow> netd \<Rightarrow> bool" where
  "netd_inv info s \<longleftrightarrow> log_guarded info (nd_log s) \<and> (\<forall>cid \<in> nd_guarded s. behind_guard info (nd_log s) cid)"

lemma guard_done_mono: "guard_done lg cid pid rules \<Longrightarrow> guard_done (lg @ es) cid pid rules"
proof -
  assume "guard_done lg cid pid rules"
  then obtain a v b where "lg = a @ map (\<lambda>r. (cid, NsRun pid r, Some 0)) rules @ v @ b"
      "v6_log cid pid leak_guard_rules_v6 v"
    unfolding guard_done_def by blast
  then show ?thesis unfolding guard_done_def by (intro exI [of _ a] exI [of _ v] exI [of _ "b @ es"]) simp
qed

lemma behind_guard_mono: "behind_guard info lg cid \<Longrightarrow> behind_guard info (lg @ es) cid"
  by (auto simp: behind_guard_def guard_done_mono split: option.splits sum.splits)

lemma log_guarded_append:
  assumes "log_guarded info lg" and "\<And>e. e \<in> set es \<Longrightarrow> egress_entry e \<Longrightarrow> behind_guard info lg (fst e)"
  shows "log_guarded info (lg @ es)"
  unfolding log_guarded_def
proof (intro allI impI)
  fix a e b
  assume split: "lg @ es = a @ e # b" and eg: "egress_entry e"
  from split consider c where "lg = a @ e # c" | c where "a = lg @ c" "es = c @ e # b"
    by (auto simp: append_eq_append_conv2 append_eq_Cons_conv)
  then show "behind_guard info a (fst e)"
  proof cases
    case 1
    then show ?thesis using assms(1) eg unfolding log_guarded_def by blast
  next
    case 2
    then have "behind_guard info lg (fst e)" using assms(2) eg by simp
    then show ?thesis using 2(1) by (simp add: behind_guard_mono)
  qed
qed

lemma netd_inv_logs:
  assumes inv: "netd_inv info s" and l: "logs P s s'"
    and p: "\<And>e. P e \<Longrightarrow> egress_entry e \<Longrightarrow> behind_guard info (nd_log s) (fst e)"
  shows "netd_inv info s'"
proof -
  obtain es where es: "nd_log s' = nd_log s @ es" "\<forall>e \<in> set es. P e" "nd_guarded s' = nd_guarded s"
    using l by (auto simp: logs_def)
  have "log_guarded info (nd_log s @ es)"
    using inv es(2) p by (intro log_guarded_append) (auto simp: netd_inv_def)
  then show ?thesis using inv es by (auto simp: netd_inv_def behind_guard_mono)
qed

section \<open>Every step keeps the guard first\<close>

lemma iptables_not_egress:
  "hd argv \<noteq> ''ip'' \<Longrightarrow> argv \<noteq> [] \<Longrightarrow> \<not> egress_entry (cid, NsRun pid argv, r)"
  "\<not> egress_entry (cid, NsRun pid (V6_PROBE x), r)" "\<not> egress_entry (cid, HostRun argv, r)"
  "\<not> egress_entry (cid, Terminate, r)"
  by (cases argv; auto simp: egress_entry_def V6_PROBE_def)+

lemma guard_rules_argv:
  assumes "leak_guard_rules dns ports block non_tcp = Inr rules" and "r \<in> set rules"
  shows "hd r = ''iptables'' \<and> r \<noteq> []"
proof -
  have o: "hd (out_rule x) = ''iptables''" "out_rule x \<noteq> []" "[] \<noteq> out_rule x" for x by (simp_all add: out_rule_def)
  have "r \<in> range out_rule"
    using assms by (cases ports) (auto simp: leak_guard_rules_def Let_def split: if_splits)
  then show ?thesis using o by auto
qed

lemma guard_rules_valid: "guard_rules ct \<noteq> Some (pid, Inl e)"
proof -
  have "\<exists>rules. leak_guard_rules d (fst (egress_filter_from_inspect ct)) b n = Inr rules" for d b n
    by (rule leak_guard_rules_total) (auto simp: egress_filter_from_inspect_def parse_egress_ports_ok split: option.splits)
  then show ?thesis
    by (auto simp: guard_rules_def split: option.splits prod.splits)
      (metis fst_conv sum.distinct(1))
qed

lemma guard_rules_pid_argv:
  "guard_rules ct = Some (pid, Inr rules) \<Longrightarrow> r \<in> set rules \<Longrightarrow> hd r = ''iptables'' \<and> r \<noteq> []"
  by (auto simp: guard_rules_def dest: guard_rules_argv split: option.splits prod.splits)

lemma no_v6_path_spec:
  assumes "no_v6_path ask pid cid s = (b, s')"
  shows "logs (\<lambda>e. \<not> egress_entry e) s s'"
    and "b \<Longrightarrow> \<exists>k2 k3. k2 \<noteq> 0 \<and> k3 \<noteq> 0 \<and> s' = s\<lparr>nd_log := nd_log s @
      [(cid, NsRun pid (V6_PROBE ''2606:4700:4700::1111''), Some k2), (cid, NsRun pid (V6_PROBE ''ff02::1''), Some k3)]\<rparr>"
  using assms
  by (auto simp: no_v6_path_def call_def logs_def Let_def iptables_not_egress split: option.splits if_splits)

lemma v6_log_cases:
  assumes "v6_log cid pid rules es"
  obtains (complete) "es = map (\<lambda>r. (cid, NsRun pid r, Some 0)) rules"
    | (broke) n k1 k2 k3 where "n < length rules" "k1 \<noteq> 0" "k2 \<noteq> 0" "k3 \<noteq> 0"
        "es = map (\<lambda>r. (cid, NsRun pid r, Some 0)) (take n rules)
             @ [(cid, NsRun pid (rules ! n), Some k1),
                (cid, NsRun pid (V6_PROBE ''2606:4700:4700::1111''), Some k2),
                (cid, NsRun pid (V6_PROBE ''ff02::1''), Some k3)]"
  using assms unfolding v6_log_def by blast

lemma install_v6_spec:
  "install_v6 ask pid cid rules s = (b, s') \<Longrightarrow> \<forall>r \<in> set rules. hd r \<noteq> ''ip'' \<and> r \<noteq> [] \<Longrightarrow>
   logs (\<lambda>e. \<not> egress_entry e) s s'
   \<and> (b \<longrightarrow> (\<exists>es. s' = s\<lparr>nd_log := nd_log s @ es\<rparr> \<and> v6_log cid pid rules es))"
proof (induction rules arbitrary: s)
  case Nil
  then show ?case by (auto simp: v6_log_def intro!: exI [of _ "[]"])
next
  case (Cons rule rules)
  obtain r s1 where c: "call ask cid (NsRun pid rule) s = (r, s1)" by fastforce
  have l1: "logs (\<lambda>e. \<not> egress_entry e) s s1" using c Cons.prems(2) by (auto intro: call_logs simp: iptables_not_egress)
  have s1: "s1 = s\<lparr>nd_log := nd_log s @ [(cid, NsRun pid rule, r)]\<rparr>" using c by (auto simp: call_def Let_def)
  consider "r = None" | "r = Some 0" | k where "r = Some k" "k \<noteq> 0" by (cases r) auto
  then show ?case
  proof cases
    case 1
    then show ?thesis using Cons.prems(1) c l1 by simp
  next
    case 2
    then have "install_v6 ask pid cid rules s1 = (b, s')" using Cons.prems(1) c by simp
    note ih = Cons.IH [OF this] 
    have l: "logs (\<lambda>e. \<not> egress_entry e) s s'" using ih Cons.prems(2) l1 by (auto intro: logs_trans)
    have "\<exists>es. s' = s\<lparr>nd_log := nd_log s @ es\<rparr> \<and> v6_log cid pid (rule # rules) es" if b
    proof -
      obtain es where es: "s' = s1\<lparr>nd_log := nd_log s1 @ es\<rparr>" "v6_log cid pid rules es"
        using ih Cons.prems(2) \<open>b\<close> by auto
      from es(2) have "v6_log cid pid (rule # rules) ((cid, NsRun pid rule, Some 0) # es)"
      proof (cases rule: v6_log_cases)
        case (broke n k1 k2 k3)
        then show ?thesis unfolding v6_log_def
          by (intro disjI2 exI [of _ "Suc n"] exI [of _ k1] exI [of _ k2] exI [of _ k3]) simp
      qed (simp add: v6_log_def)
      then show ?thesis using es(1) s1 2 by (intro exI [of _ "(cid, NsRun pid rule, Some 0) # es"]) simp
    qed
    with l show ?thesis by blast
  next
    case 3
    then have n: "no_v6_path ask pid cid s1 = (b, s')" using Cons.prems(1) c by simp
    have l: "logs (\<lambda>e. \<not> egress_entry e) s s'" using l1 no_v6_path_spec(1) [OF n] by (rule logs_trans)
    have "\<exists>es. s' = s\<lparr>nd_log := nd_log s @ es\<rparr> \<and> v6_log cid pid (rule # rules) es" if b
    proof -
      obtain k2 k3 where k: "k2 \<noteq> 0" "k3 \<noteq> 0" "s' = s1\<lparr>nd_log := nd_log s1 @
          [(cid, NsRun pid (V6_PROBE ''2606:4700:4700::1111''), Some k2), (cid, NsRun pid (V6_PROBE ''ff02::1''), Some k3)]\<rparr>"
        using no_v6_path_spec(2) [OF n \<open>b\<close>] by blast
      let ?es = "[(cid, NsRun pid rule, Some k), (cid, NsRun pid (V6_PROBE ''2606:4700:4700::1111''), Some k2),
          (cid, NsRun pid (V6_PROBE ''ff02::1''), Some k3)]"
      have "v6_log cid pid (rule # rules) ?es" unfolding v6_log_def
        using 3(2) k by (intro disjI2 exI [of _ 0] exI [of _ k] exI [of _ k2] exI [of _ k3]) simp
      then show ?thesis using s1 3(1) k(3) by (intro exI [of _ ?es]) simp
    qed
    with l show ?thesis by blast
  qed
qed

lemma maybe_leakguard_step:
  assumes inv: "netd_inv info s"
  shows "netd_inv info (maybe_leakguard ask cfg cid (info cid) s)"
    and "nc_nsenter cfg \<Longrightarrow> cid \<notin> nd_failed (maybe_leakguard ask cfg cid (info cid) s) \<Longrightarrow>
      behind_guard info (nd_log (maybe_leakguard ask cfg cid (info cid) s)) cid"
proof -
  let ?s' = "maybe_leakguard ask cfg cid (info cid) s"
  have fg: "netd_inv info (fail_guard cid t) = netd_inv info t" and ff: "cid \<in> nd_failed (fail_guard cid t)" for t
    by (simp_all add: netd_inv_def fail_guard_def)
  have "netd_inv info ?s' \<and> (nc_nsenter cfg \<longrightarrow> cid \<notin> nd_failed ?s' \<longrightarrow> behind_guard info (nd_log ?s') cid)"
  proof (cases "nc_nsenter cfg \<and> cid \<notin> nd_guarded s")
    case False
    then show ?thesis using inv by (auto simp: maybe_leakguard_def netd_inv_def)
  next
    case True
    show ?thesis
    proof (cases "guard_rules (info cid)")
      case None
      then show ?thesis using True inv by (simp add: maybe_leakguard_def behind_guard_def)
    next
      case (Some pr)
      then obtain pid rules where gr: "guard_rules (info cid) = Some (pid, Inr rules)"
        using guard_rules_valid by (metis old.sum.exhaust surj_pair)
      obtain ok s1 where a: "run_all ask cid (map (NsRun pid) rules) s = (ok, s1)" by fastforce
      have l1: "logs (\<lambda>e. \<not> egress_entry e) s s1"
        by (rule run_all_logs [OF a]) (use guard_rules_pid_argv [OF gr] in \<open>auto simp: iptables_not_egress\<close>)
      have i1: "netd_inv info s1" using netd_inv_logs [OF inv l1] by blast
      obtain ok6 s2 where b: "install_v6_guard ask pid cid s1 = (ok6, s2)" by fastforce
      have v6: "logs (\<lambda>e. \<not> egress_entry e) s1 s2
          \<and> (ok6 \<longrightarrow> (\<exists>es. s2 = s1\<lparr>nd_log := nd_log s1 @ es\<rparr> \<and> v6_log cid pid leak_guard_rules_v6 es))"
        using b unfolding install_v6_guard_def by (rule install_v6_spec) (simp add: leak_guard_rules_v6_def)
      have i2: "netd_inv info s2" using netd_inv_logs [OF i1 conjunct1 [OF v6]] by blast
      show ?thesis
      proof (cases "ok \<and> ok6")
        case False
        then have "?s' = fail_guard cid s1 \<or> ?s' = fail_guard cid s2"
          using True gr a b by (cases ok) (simp_all add: maybe_leakguard_def)
        then show ?thesis using i1 i2 by (elim disjE) (simp_all add: fg ff)
      next
        case okk: True
        then obtain es where es: "s2 = s1\<lparr>nd_log := nd_log s1 @ es\<rparr>" "v6_log cid pid leak_guard_rules_v6 es"
          using v6 by blast
        have s1: "s1 = s\<lparr>nd_log := nd_log s @ map (\<lambda>r. (cid, NsRun pid r, Some 0)) rules\<rparr>"
          using run_all_ok [of ask cid "map (NsRun pid) rules" s s1] a okk by (simp add: comp_def)
        have "guard_done (nd_log s2) cid pid rules"
          unfolding guard_done_def using es s1 by (intro exI [of _ "nd_log s"] exI [of _ es] exI [of _ "[]"]) simp
        then have "behind_guard info (nd_log s2) cid" using gr by (simp add: behind_guard_def)
        moreover have "?s' = s2\<lparr>nd_guarded := insert cid (nd_guarded s2)\<rparr>"
          using True gr a b okk by (simp add: maybe_leakguard_def)
        ultimately show ?thesis using i2 by (simp add: netd_inv_def)
      qed
    qed
  qed
  then show "netd_inv info ?s'"
    and "nc_nsenter cfg \<Longrightarrow> cid \<notin> nd_failed ?s' \<Longrightarrow> behind_guard info (nd_log ?s') cid" by auto
qed

lemma handle_start_inv:
  assumes inv: "netd_inv info s"
  shows "netd_inv info (snd (handle_start ask cfg cid (seen info cid ok) captured s))"
proof (cases ok)
  case True
  define s1 where "s1 = (if captured then s\<lparr>nd_active := insert cid (nd_active s)\<rparr> else s)"
  have i1: "netd_inv info s1" using inv by (simp add: s1_def netd_inv_def)
  let ?s2 = "maybe_leakguard ask cfg cid (info cid) s1"
  have h: "snd (handle_start ask cfg cid (seen info cid ok) captured s) =
      (if cid \<in> nd_failed ?s2 then ?s2 else snd (maybe_wire ask cfg cid (info cid) ?s2))"
    using True by (simp add: handle_start_def seen_def s1_def)
  note g = maybe_leakguard_step [OF i1, where ask = ask and cfg = cfg and cid = cid]
  show ?thesis
  proof (cases "cid \<in> nd_failed ?s2 \<or> \<not> nc_nsenter cfg")
    case True
    then show ?thesis using g(1) by (auto simp: h maybe_wire_def)
  next
    case False
    have "netd_inv info (snd (maybe_wire ask cfg cid (info cid) ?s2))"
      using g(2) False by (intro netd_inv_logs [OF g(1) maybe_wire_logs]) auto
    then show ?thesis using False by (simp add: h)
  qed
qed (use inv in \<open>simp add: handle_start_def seen_def\<close>)

lemma netd_inv_quiet: "netd_inv info s \<Longrightarrow> logs (\<lambda>e. \<not> egress_entry e) s s' \<Longrightarrow> netd_inv info s'"
  using netd_inv_logs [of info s "\<lambda>e. \<not> egress_entry e" s'] by blast

lemma handle_die_inv:
  assumes inv: "netd_inv info s"
  shows "netd_inv info (handle_die ask cfg cid s)"
proof -
  define s1 where "s1 = s\<lparr>nd_active := nd_active s - {cid}, nd_inspect := nd_inspect s - {cid}\<rparr>"
  define s2 where "s2 = (case map_of (nd_transproxy s1) cid of None \<Rightarrow> s1
      | Some ip \<Rightarrow> teardown_transproxy ask cfg cid ip (s1\<lparr>nd_transproxy := AList.delete cid (nd_transproxy s1)\<rparr>))"
  define s3 where "s3 = s2\<lparr>nd_guarded := nd_guarded s2 - {cid}, nd_failed := nd_failed s2 - {cid},
      nd_wired := nd_wired s2 - {cid}, nd_procs := nd_procs s2 - {cid}\<rparr>"
  have h: "handle_die ask cfg cid s = (if cid \<in> nd_procs s2 then terminate ask cid s3 else s3)"
    unfolding handle_die_def Let_def s3_def s2_def s1_def by (rule refl)
  have i1: "netd_inv info (s1\<lparr>nd_transproxy := x\<rparr>)" "netd_inv info s1" for x using inv by (simp_all add: s1_def netd_inv_def)
  have "netd_inv info s2"
    using i1 netd_inv_quiet [OF i1(1) teardown_logs] by (auto simp: s2_def iptables_not_egress split: option.split)
  then have i3: "netd_inv info s3" by (simp add: s3_def netd_inv_def)
  have "netd_inv info (terminate ask cid s3)"
    unfolding terminate_def by (rule netd_inv_quiet [OF i3 snd_call_logs]) (simp add: iptables_not_egress)
  then show ?thesis using i3 by (simp add: h)
qed

lemma reconcile_inv:
  assumes "netd_inv info s"
  shows "netd_inv info (snd (reconcile ask cfg vanished (map (\<lambda>(cid, ok, cap). (cid, seen info cid ok, cap)) running) s))"
proof -
  have v: "netd_inv info s \<Longrightarrow> netd_inv info (fold (handle_die ask cfg) vs s)" for vs s
    by (induction vs arbitrary: s) (auto simp: handle_die_inv)
  have "netd_inv info s \<Longrightarrow>
      netd_inv info (snd (start_all ask cfg (map (\<lambda>(cid, ok, cap). (cid, seen info cid ok, cap)) rs) s))" for rs s
    by (induction rs arbitrary: s) (auto simp: handle_start_inv split_beta Let_def)
  then show ?thesis using v assms by (simp add: reconcile_def)
qed

lemma on_event_inv: "netd_inv info s \<Longrightarrow> netd_inv info (on_event ask cfg info ev s)"
  by (cases ev) (auto simp: handle_start_inv handle_die_inv reconcile_inv)

lemma events_inv: "netd_inv info s \<Longrightarrow> netd_inv info (fold (on_event ask cfg info) evs s)"
  by (induction evs arbitrary: s) (auto simp: on_event_inv)

section \<open>Bookkeeping\<close>

definition only_log :: "netd \<Rightarrow> netd \<Rightarrow> bool" where
  "only_log s s' \<longleftrightarrow> (\<exists>l. s' = s\<lparr>nd_log := l\<rparr>)"

lemma only_log_refl [simp]: "only_log s s"
  unfolding only_log_def by (intro exI [of _ "nd_log s"]) simp

lemma only_log_trans: "only_log s s1 \<Longrightarrow> only_log s1 s2 \<Longrightarrow> only_log s s2"
  by (auto simp: only_log_def)

lemma only_log_call: "only_log s (snd (call ask cid c s))"
  by (auto simp: only_log_def call_def Let_def)

lemma only_log_run_all: "only_log s (snd (run_all ask cid cs s))"
proof (induction cs arbitrary: s)
  case (Cons c cs)
  then show ?case using only_log_call [of s ask cid c] by (auto simp: split_beta Let_def intro: only_log_trans)
qed simp

lemma only_log_wait_tun: "only_log s (snd (wait_tun ask cid pid n s))"
proof (induction n arbitrary: s)
  case (Suc n)
  then show ?case using only_log_call [of s ask cid "NsRun pid [''ip'', ''link'', ''show'', TUN_DEV]"]
    by (auto simp: split_beta Let_def intro: only_log_trans split: option.split)
qed simp

lemma only_log_install_v6: "only_log s (snd (install_v6 ask pid cid rules s))"
proof (induction rules arbitrary: s)
  case (Cons r rules)
  have "only_log t (snd (no_v6_path ask pid cid t))" for t
    using only_log_call only_log_trans by (fastforce simp: no_v6_path_def split_beta Let_def split: option.split)
  then show ?case using Cons only_log_call [of s ask cid "NsRun pid r"]
    by (auto simp: split_beta Let_def intro: only_log_trans split: option.split)
qed simp

lemma only_log_teardown: "only_log s (teardown_transproxy ask cfg cid ip s)"
proof -
  have "only_log s (fold (\<lambda>rule s. snd (call ask cid (HostRun rule) s)) rules s)" for rules s
  proof (induction rules arbitrary: s)
    case (Cons r rules)
    show ?case using only_log_trans [OF only_log_call Cons.IH] by simp
  qed simp
  then show ?thesis by (simp add: teardown_transproxy_def split: sum.split)
qed

lemma only_log_tracked: "only_log s s' \<Longrightarrow> tracked_ids s' = tracked_ids s \<and> nd_procs s' = nd_procs s \<and> nd_failed s' = nd_failed s"
  by (auto simp: only_log_def tracked_ids_def)

lemma handle_die_tracked: "tracked_ids (handle_die ask cfg cid s) = tracked_ids s - {cid}"
proof -
  define s1 where "s1 = s\<lparr>nd_active := nd_active s - {cid}, nd_inspect := nd_inspect s - {cid}\<rparr>"
  define s1' where "s1' = s1\<lparr>nd_transproxy := AList.delete cid (nd_transproxy s1)\<rparr>"
  define s2 where "s2 = (case map_of (nd_transproxy s1) cid of None \<Rightarrow> s1
      | Some ip \<Rightarrow> teardown_transproxy ask cfg cid ip s1')"
  define s3 where "s3 = s2\<lparr>nd_guarded := nd_guarded s2 - {cid}, nd_failed := nd_failed s2 - {cid},
      nd_wired := nd_wired s2 - {cid}, nd_procs := nd_procs s2 - {cid}\<rparr>"
  have h: "handle_die ask cfg cid s = (if cid \<in> nd_procs s2 then terminate ask cid s3 else s3)"
    unfolding handle_die_def Let_def s3_def s2_def s1_def s1'_def by (rule refl)
  have s1': "s1' = s1" if "map_of (nd_transproxy s1) cid = None"
    using that by (simp add: s1'_def delete_id map_of_eq_None_iff)
  have "only_log s1' s2"
    using only_log_teardown s1' by (auto simp: s2_def split: option.split)
  then obtain l where l: "s2 = s1'\<lparr>nd_log := l\<rparr>" by (auto simp: only_log_def)
  have "tracked_ids s3 = tracked_ids s - {cid}"
    by (auto simp: s3_def l s1'_def s1_def tracked_ids_def delete_keys)
  then show ?thesis
    using only_log_tracked [OF only_log_call [of s3 ask cid Terminate]] by (simp add: h terminate_def)
qed

lemma tracked_mark_wired: "tracked_ids (mark_wired cid b s) = insert cid (tracked_ids s)"
  by (auto simp: tracked_ids_def mark_wired_def)

lemma maybe_leakguard_tracked:
  "tracked_ids (maybe_leakguard ask cfg cid ct s) \<subseteq> insert cid (tracked_ids s)"
proof -
  have g: "tracked_ids (fail_guard cid t) = tracked_ids t"
    "tracked_ids (t\<lparr>nd_guarded := insert cid (nd_guarded t)\<rparr>) = insert cid (tracked_ids t)" for t
    by (auto simp: tracked_ids_def fail_guard_def)
  have r: "tracked_ids (snd (run_all ask cid cs t)) = tracked_ids t" for cs t
    using only_log_tracked [OF only_log_run_all] by blast
  have v: "tracked_ids (snd (install_v6_guard ask pid cid t)) = tracked_ids t" for pid t
    using only_log_tracked [OF only_log_install_v6] by (simp add: install_v6_guard_def)
  show ?thesis
    by (auto simp: maybe_leakguard_def split_beta Let_def g r v split: option.splits sum.splits prod.splits)
qed

lemma maybe_wire_tracked: "tracked_ids (snd (maybe_wire ask cfg cid ct s)) \<subseteq> insert cid (tracked_ids s)"
proof -
  have r: "tracked_ids (snd (run_all ask cid cs t)) = tracked_ids t" "tracked_ids (terminate ask cid t) = tracked_ids t"
    "tracked_ids (snd (call ask cid c t)) = tracked_ids t" "tracked_ids (snd (wait_tun ask cid pid n t)) = tracked_ids t"
    "tracked_ids (teardown_transproxy ask cfg cid ip t) = tracked_ids t" for cs t c pid n ip
    using only_log_tracked [OF only_log_run_all] only_log_tracked [OF only_log_call]
      only_log_tracked [OF only_log_wait_tun] only_log_tracked [OF only_log_teardown]
    by (simp_all add: terminate_def)
  have g: "tracked_ids (snd (wire_gateway ask cfg gw cid wt s)) = tracked_ids s" for gw wt
    by (simp add: wire_gateway_def r split: sum.split)
  have i: "tracked_ids (t\<lparr>nd_inspect := insert cid X\<rparr>) \<subseteq> insert cid (tracked_ids t \<union> X)"
    "tracked_ids ((mark_wired cid False t)\<lparr>nd_transproxy := AList.update cid x (nd_transproxy t)\<rparr>) = insert cid (tracked_ids t)" for t X x
    by (auto simp: tracked_ids_def dom_update mark_wired_def)
  have w: "tracked_ids (wire_vpn ask cfg cid wt s) \<subseteq> insert cid (tracked_ids s)" for wt
    using g [of "nc_vpn cfg" wt] by (auto simp: wire_vpn_def split_beta Let_def tracked_mark_wired)
  have n: "nd_inspect t \<subseteq> tracked_ids t" for t by (auto simp: tracked_ids_def)
  have "tracked_ids (wire_inspect ask cfg cid wt s) \<subseteq> insert cid (tracked_ids s)" for wt
  proof -
    let ?g = "wire_gateway ask cfg (nc_inspect cfg) cid wt s"
    have "tracked_ids ((mark_wired cid False (snd ?g))\<lparr>nd_inspect := insert cid (nd_inspect (snd ?g))\<rparr>)
        \<subseteq> insert cid (tracked_ids (mark_wired cid False (snd ?g)) \<union> nd_inspect (snd ?g))" by (rule i(1))
    then have "tracked_ids ((mark_wired cid False (snd ?g))\<lparr>nd_inspect := insert cid (nd_inspect (snd ?g))\<rparr>)
        \<subseteq> insert cid (tracked_ids s)"
      using g [of "nc_inspect cfg" wt] n [of "snd ?g"] by (auto simp: tracked_mark_wired)
    then show ?thesis using g [of "nc_inspect cfg" wt] by (auto simp: wire_inspect_def split_beta Let_def)
  qed
  moreover have "tracked_ids (wire_socks ask cfg cid wt s) \<subseteq> insert cid (tracked_ids s)" for wt
    by (auto simp: wire_socks_def split_beta Let_def tracked_mark_wired r split: sum.split)
  moreover have "tracked_ids (snd (wire_transproxy ask cfg cid wt s)) \<subseteq> insert cid (tracked_ids s)" for wt
    by (auto simp: wire_transproxy_def split_beta Let_def tracked_mark_wired r i split: sum.splits if_splits)
  ultimately show ?thesis using w by (simp add: maybe_wire_def subset_insertI split: option.split)
qed

lemma handle_start_tracked:
  "tracked_ids (snd (handle_start ask cfg cid ct captured s)) \<subseteq> insert cid (tracked_ids s)"
proof -
  define s1 where "s1 = (if captured then s\<lparr>nd_active := insert cid (nd_active s)\<rparr> else s)"
  have s1: "tracked_ids s1 \<subseteq> insert cid (tracked_ids s)" by (auto simp: s1_def tracked_ids_def)
  show ?thesis
  proof (cases ct)
    case (Some c)
    let ?s2 = "maybe_leakguard ask cfg cid c s1"
    have "snd (handle_start ask cfg cid ct captured s) = ?s2
        \<or> snd (handle_start ask cfg cid ct captured s) = snd (maybe_wire ask cfg cid c ?s2)"
      using Some by (simp add: handle_start_def s1_def Let_def)
    moreover have g: "tracked_ids ?s2 \<subseteq> insert cid (tracked_ids s)"
      using s1 maybe_leakguard_tracked [of ask cfg cid c s1] by auto
    moreover have "tracked_ids (snd (maybe_wire ask cfg cid c ?s2)) \<subseteq> insert cid (tracked_ids s)"
      using g maybe_wire_tracked [of ask cfg cid c ?s2] by auto
    ultimately show ?thesis by (elim disjE) simp_all
  qed (auto simp: handle_start_def)
qed

lemma start_all_tracked:
  "tracked_ids (snd (start_all ask cfg running s)) \<subseteq> set (map fst running) \<union> tracked_ids s"
proof (induction running arbitrary: s)
  case (Cons r running)
  obtain cid ct captured where r: "r = (cid, ct, captured)" by (cases r)
  let ?s1 = "snd (handle_start ask cfg cid ct captured s)"
  have "tracked_ids (snd (start_all ask cfg (r # running) s)) = tracked_ids ?s1
      \<or> tracked_ids (snd (start_all ask cfg (r # running) s)) = tracked_ids (snd (start_all ask cfg running ?s1))"
    by (simp add: r split_beta Let_def)
  then show ?case using handle_start_tracked [of ask cfg cid ct captured s] Cons.IH [of ?s1] r by auto
qed simp

lemma die_all_tracked: "tracked_ids (fold (handle_die ask cfg) vs s) = tracked_ids s - set vs"
  by (induction vs arbitrary: s) (auto simp: handle_die_tracked)

lemma log_behind_guard:
  assumes "nd_log (fold (on_event ask cfg info) evs netd_init) = before @ e # later" and "egress_entry e"
  shows "behind_guard info before (fst e)"
proof -
  have "netd_inv info netd_init" by (simp add: netd_inv_def netd_init_def log_guarded_def)
  then have "netd_inv info (fold (on_event ask cfg info) evs netd_init)" by (rule events_inv)
  then show ?thesis using assms unfolding netd_inv_def log_guarded_def by blast
qed

section \<open>Properties\<close>

text \<open>
  C4: no route before the guard.  Whatever events arrive in whatever order, whatever each command
  returns or raises, and whichever inspections fail: every command that gives a worker its route out
  was run only after the complete leak guard that its labels ask for had succeeded in its namespace
  (every IPv4 rule, and every IPv6 rule unless the worker has no IPv6 path), in this order in the log.
\<close>

theorem route_only_behind_guard:
  assumes "nd_log (fold (on_event ask cfg info) evs netd_init) = before @ e # later" and "egress_entry e"
  shows "behind_guard info before (fst e)"
  using assms by (rule log_behind_guard)

definition demo_cfg :: netd_cfg where
  "demo_cfg = \<lparr>nc_nsenter = True, nc_spawn = True, nc_host = False, nc_socks = [], nc_vpn = ''10.8.0.1'',
     nc_inspect = [], nc_transproxy = [], nc_trans_port = 9040, nc_dns_port = 5353, nc_canon = Some\<rparr>"

definition demo_ct :: container where
  "demo_ct = \<lparr>ct_labels = Some [(WIRE_LABEL, ''vpn''), (JOB_ID_LABEL, ''j1''), (LEAKGUARD_LABEL, ''allip''),
       (BLOCK_INTERNAL_LABEL, ''1'')], ct_pid = Some 77, ct_name = ''/w1'', ct_ips = []\<rparr>"

text \<open>A VPN worker with internal networks blocked, every command succeeding.\<close>

lemma demo_log:
  "nd_log (fold (on_event (\<lambda>_ _ _. Some 0) demo_cfg (\<lambda>_. demo_ct)) [Start ''c1'' True False] netd_init)
     = map (\<lambda>r. (''c1'', NsRun 77 r, Some 0))
         (out_rule [''-o'', ''lo'', ''-j'', ''ACCEPT''] # map (\<lambda>net. out_rule [''-d'', net, ''-j'', ''DROP'']) INTERNAL_NETS
          @ leak_guard_rules_v6)
       @ [(''c1'', NsRun 77 [''ip'', ''route'', ''replace'', ''default'', ''via'', ''10.8.0.1''], Some 0)]"
  by code_simp

theorem route_only_behind_guard_witness:
  "behind_guard (\<lambda>_. demo_ct)
     (map (\<lambda>r. (''c1'', NsRun 77 r, Some 0))
         (out_rule [''-o'', ''lo'', ''-j'', ''ACCEPT''] # map (\<lambda>net. out_rule [''-d'', net, ''-j'', ''DROP'']) INTERNAL_NETS
          @ leak_guard_rules_v6)) ''c1''"
  using route_only_behind_guard [OF demo_log] by (simp add: egress_entry_def)

text \<open>
  after a gap in the event stream the daemon tracks running workers only.  Reconciling with
  the vanished workers torn down and the running ones started leaves no capture, wire, host rule or
  guard recorded for a worker that is not running, even when a start handler raised on the way.
\<close>

theorem reconcile_tracks_running:
  assumes "set vanished = tracked_ids s - set (map fst running)"
  shows "tracked_ids (snd (reconcile ask cfg vanished running s)) \<subseteq> set (map fst running)"
  using start_all_tracked [of ask cfg running "fold (handle_die ask cfg) vanished s"] assms
  by (auto simp: reconcile_def die_all_tracked)

theorem reconcile_tracks_running_witness:
  "tracked_ids (snd (reconcile (\<lambda>_ _ _. Some 0) demo_cfg [''c1''] [(''c2'', Some demo_ct, False)]
      (netd_init\<lparr>nd_wired := {''c1''}, nd_guarded := {''c1''}\<rparr>))) \<subseteq> {''c2''}"
  using reconcile_tracks_running [of "[''c1'']" "netd_init\<lparr>nd_wired := {''c1''}, nd_guarded := {''c1''}\<rparr>"
      "[(''c2'', Some demo_ct, False)]"]
  by (simp add: tracked_ids_def netd_init_def)

text \<open>A guard that failed once keeps a worker without a route until it dies, also when a later replay
  of its start installs the whole guard; and the entry is not among those reconciling takes away.\<close>

lemma failed_guard_sticks:
  assumes "cid \<in> nd_failed s"
  shows "cid \<in> nd_failed (snd (handle_start ask cfg cid ct captured s))
    \<and> nd_wired (snd (handle_start ask cfg cid ct captured s)) = nd_wired s"
proof (cases ct)
  case (Some c)
  have ol: "nd_failed (snd (run_all ask cid cs t)) = nd_failed t \<and> nd_wired (snd (run_all ask cid cs t)) = nd_wired t"
    "nd_failed (snd (install_v6_guard ask pid cid t)) = nd_failed t \<and> nd_wired (snd (install_v6_guard ask pid cid t)) = nd_wired t"
    for cs t pid
    using only_log_run_all [of t ask cid cs] only_log_install_v6 [of t ask pid cid leak_guard_rules_v6]
    by (auto simp: only_log_def install_v6_guard_def)
  have "cid \<in> nd_failed (maybe_leakguard ask cfg cid c t) \<and> nd_wired (maybe_leakguard ask cfg cid c t) = nd_wired t"
    if "cid \<in> nd_failed t" for t
    using that ol by (auto simp: maybe_leakguard_def fail_guard_def split_beta Let_def split: option.split sum.split)
  then show ?thesis using assms Some by (simp add: handle_start_def Let_def)
qed (use assms in \<open>simp add: handle_start_def\<close>)

lemma failed_guard_not_tracked: "tracked_ids (netd_init\<lparr>nd_failed := X\<rparr>) = {}"
  by (simp add: tracked_ids_def netd_init_def)

end
