(* ===== verification/Dispatch_Net.thy ===== *)
theory Dispatch_Net
  imports Net_Daemon
begin

text \<open>
  The networking part of \<open>_dispatch_inner\<close> in \<^verbatim>\<open>host/dispatch.py\<close> with \<^verbatim>\<open>worker_resolv_conf\<close> of
  \<^verbatim>\<open>host/netapply.py\<close>: which personalities a cold worker may run under, and the docker network,
  labels, resolver file and environment it gets.  The labels are the only thing the network daemon
  sees, so the properties say what it makes of them.
\<close>

section \<open>The plan\<close>

datatype plan_error = NeedsNetns | NoGateway | FilterNotEnforceable | NoValidPort

definition config_get :: "personality \<Rightarrow> string \<Rightarrow> string" where
  "config_get p k = (case map_of (pn_config p) k of None \<Rightarrow> [] | Some v \<Rightarrow> v)"

definition needs_netns_wiring :: "personality \<Rightarrow> bool" where
  "needs_netns_wiring p \<longleftrightarrow>
     pn_exit p \<in> {''tor'', ''socks'', ''openvpn'', ''wireguard''} \<or> inspect_routes_via_gateway p"

definition gated_by_gateway_health :: "personality \<Rightarrow> bool" where
  "gated_by_gateway_health p \<longleftrightarrow> pn_exit p \<in> {''openvpn'', ''wireguard''}"

definition routed_via_gateway :: "personality \<Rightarrow> bool" where
  "routed_via_gateway p \<longleftrightarrow> pn_exit p \<in> {''tor'', ''openvpn'', ''wireguard''} \<or> inspect_routes_via_gateway p"

definition declares_ports :: "personality \<Rightarrow> bool" where
  "declares_ports p \<longleftrightarrow> py_strip (config_get p ''egress_ports'') \<noteq> []"

definition blocks_internal :: "personality \<Rightarrow> bool" where
  "blocks_internal p \<longleftrightarrow> on_word (config_get p ''block_internal'')"

definition wants_egress_filter :: "personality \<Rightarrow> bool" where
  "wants_egress_filter p \<longleftrightarrow> declares_ports p \<or> blocks_internal p"

text \<open>The refusals after the runtime check, in the order they are made.\<close>

definition net_refusal :: "personality \<Rightarrow> plan_error option" where
  "net_refusal p =
     (if routed_via_gateway p \<and> config_get p ''gateway'' = [] then Some NoGateway
      else if wants_egress_filter p \<and> pn_exit p \<notin> {''tor'', ''openvpn'', ''wireguard''} then Some FilterNotEnforceable
      else if declares_ports p \<and> parse_egress_ports (config_get p ''egress_ports'') = None then Some NoValidPort
      else None)"

definition has_egress :: "personality \<Rightarrow> bool" where
  "has_egress p \<longleftrightarrow> pn_exit p \<notin> {''none'', ''drop''}"

text \<open>\<open>dns_tcp\<close> defaults to \<^verbatim>\<open>1\<close> only when it is absent.\<close>

definition dns_over_udp :: "personality \<Rightarrow> bool" where
  "dns_over_udp p \<longleftrightarrow>
     py_lower (py_strip (case map_of (pn_config p) ''dns_tcp'' of None \<Rightarrow> ''1'' | Some v \<Rightarrow> v)) \<in> {''0'', ''false'', ''no''}"

definition wire_labels :: "personality \<Rightarrow> (string \<times> string) list \<Rightarrow> (string \<times> string) list" where
  "wire_labels p l =
     (if inspect_routes_via_gateway p then AList.update WIRE_LABEL ''inspect'' l
      else if pn_exit p = ''tor'' then AList.update WIRE_LABEL ''transproxy'' l
      else if pn_exit p = ''socks'' then
        (let l1 = AList.update WIRE_LABEL ''socks'' l
         in if config_get p ''proxy'' = [] then l1 else AList.update SOCKS_PROXY_LABEL (config_get p ''proxy'') l1)
      else if pn_exit p \<in> {''openvpn'', ''wireguard''} then AList.update WIRE_LABEL ''vpn'' l
      else l)"

definition guard_labels :: "personality \<Rightarrow> (string \<times> string) list \<Rightarrow> (string \<times> string) list" where
  "guard_labels p l =
     (if pn_exit p = ''tor'' \<or> pn_exit p = ''socks'' \<and> dns_over_udp p then AList.update LEAKGUARD_LABEL ''dns'' l
      else if pn_exit p \<in> {''socks'', ''httpproxy''} then AList.update LEAKGUARD_LABEL ''strict'' l
      else l)"

definition filter_labels :: "personality \<Rightarrow> (string \<times> string) list \<Rightarrow> (string \<times> string) list" where
  "filter_labels p l =
     (if \<not> wants_egress_filter p then l
      else let l1 = (case parse_egress_ports (config_get p ''egress_ports'') of
                       None \<Rightarrow> l | Some ps \<Rightarrow> AList.update EGRESS_PORTS_LABEL (render_ports ps) l);
               l2 = (if blocks_internal p then AList.update BLOCK_INTERNAL_LABEL ''1'' l1 else l1)
           in (case map_of l2 LEAKGUARD_LABEL of None \<Rightarrow> AList.update LEAKGUARD_LABEL ''allip'' l2 | Some _ \<Rightarrow> l2))"

definition worker_labels :: "string \<Rightarrow> bool \<Rightarrow> personality \<Rightarrow> (string \<times> string) list" where
  "worker_labels job net_capture p =
     (let l0 = [(''blastbox.role'', ''worker''), (JOB_ID_LABEL, job)];
          l1 = (if net_capture \<and> has_egress p then AList.update ''blastbox.net.capture'' ''1'' l0 else l0)
      in filter_labels p (guard_labels p (wire_labels p l1)))"

text \<open>The resolver file: the parseable addresses of \<^verbatim>\<open>dns=\<close>, one line each.\<close>

fun ws_words :: "string \<Rightarrow> string \<Rightarrow> string list" where
  "ws_words acc [] = (if acc = [] then [] else [rev acc])"
| "ws_words acc (c # cs) =
     (if is_space c then (if acc = [] then ws_words [] cs else rev acc # ws_words [] cs) else ws_words (c # acc) cs)"

definition worker_resolv_conf :: "(string \<Rightarrow> string option) \<Rightarrow> personality \<Rightarrow> string option" where
  "worker_resolv_conf canon p =
     (let servers = List.map_filter canon (ws_words [] (config_get p ''dns''))
      in if pn_exit p \<notin> set EGRESS_DRIVERS \<union> {''httpproxy''} \<or> servers = [] then None
         else Some (concat (map (\<lambda>s. ''nameserver '' @ s @ [NL]) servers)
                @ (if pn_exit p = ''socks'' \<and> \<not> dns_over_udp p then ''options use-vc'' @ [NL] else [])))"

record net_plan =
  np_args :: "string list"
  np_labels :: "(string \<times> string) list"
  np_resolv :: "string option"
  np_env :: "(string \<times> string) list"

definition net_env :: "personality \<Rightarrow> (string \<times> string) list" where
  "net_env p =
     [(''BLASTBOX_NET_EGRESS'', if has_egress p then ''1'' else ''0''),
      (''BLASTBOX_NET_WAIT_GATEWAY'', if routed_via_gateway p then config_get p ''gateway'' else []),
      (''BLASTBOX_NET_WAIT_TUN'', if pn_exit p = ''socks'' \<and> \<not> pn_inspect p then TUN_DEV else [])]"

definition net_plan_of ::
  "(string \<Rightarrow> string option) \<Rightarrow> string \<Rightarrow> string \<Rightarrow> bool \<Rightarrow> personality \<Rightarrow> plan_error + net_plan" where
  "net_plan_of canon runtime job net_capture p =
     (if needs_netns_wiring p \<and> runtime \<noteq> ''runc'' then Inl NeedsNetns
      else case net_refusal p of
        Some e \<Rightarrow> Inl e
      | None \<Rightarrow> Inr \<lparr>np_args = docker_network_args p, np_labels = worker_labels job net_capture p,
                    np_resolv = worker_resolv_conf canon p, np_env = net_env p\<rparr>)"

section \<open>What the daemon makes of the labels\<close>

lemmas label_names = WIRE_LABEL_def JOB_ID_LABEL_def SOCKS_PROXY_LABEL_def LEAKGUARD_LABEL_def
  EGRESS_PORTS_LABEL_def BLOCK_INTERNAL_LABEL_def

lemma label_neq [simp]:
  "LEAKGUARD_LABEL \<noteq> WIRE_LABEL" "LEAKGUARD_LABEL \<noteq> JOB_ID_LABEL" "LEAKGUARD_LABEL \<noteq> SOCKS_PROXY_LABEL"
  "LEAKGUARD_LABEL \<noteq> EGRESS_PORTS_LABEL" "LEAKGUARD_LABEL \<noteq> BLOCK_INTERNAL_LABEL"
  "EGRESS_PORTS_LABEL \<noteq> WIRE_LABEL" "EGRESS_PORTS_LABEL \<noteq> JOB_ID_LABEL" "EGRESS_PORTS_LABEL \<noteq> SOCKS_PROXY_LABEL"
  "EGRESS_PORTS_LABEL \<noteq> LEAKGUARD_LABEL" "EGRESS_PORTS_LABEL \<noteq> BLOCK_INTERNAL_LABEL"
  "BLOCK_INTERNAL_LABEL \<noteq> WIRE_LABEL" "BLOCK_INTERNAL_LABEL \<noteq> JOB_ID_LABEL" "BLOCK_INTERNAL_LABEL \<noteq> SOCKS_PROXY_LABEL"
  "BLOCK_INTERNAL_LABEL \<noteq> LEAKGUARD_LABEL" "BLOCK_INTERNAL_LABEL \<noteq> EGRESS_PORTS_LABEL"
  "WIRE_LABEL \<noteq> JOB_ID_LABEL" "WIRE_LABEL \<noteq> SOCKS_PROXY_LABEL" "WIRE_LABEL \<noteq> LEAKGUARD_LABEL"
  "WIRE_LABEL \<noteq> EGRESS_PORTS_LABEL" "WIRE_LABEL \<noteq> BLOCK_INTERNAL_LABEL"
  "JOB_ID_LABEL \<noteq> WIRE_LABEL" "JOB_ID_LABEL \<noteq> SOCKS_PROXY_LABEL" "JOB_ID_LABEL \<noteq> LEAKGUARD_LABEL"
  "JOB_ID_LABEL \<noteq> EGRESS_PORTS_LABEL" "JOB_ID_LABEL \<noteq> BLOCK_INTERNAL_LABEL"
  "''blastbox.role'' \<noteq> WIRE_LABEL" "''blastbox.role'' \<noteq> LEAKGUARD_LABEL" "''blastbox.role'' \<noteq> EGRESS_PORTS_LABEL"
  "''blastbox.role'' \<noteq> BLOCK_INTERNAL_LABEL" "''blastbox.role'' \<noteq> JOB_ID_LABEL"
  "''blastbox.net.capture'' \<noteq> WIRE_LABEL" "''blastbox.net.capture'' \<noteq> LEAKGUARD_LABEL"
  "''blastbox.net.capture'' \<noteq> EGRESS_PORTS_LABEL" "''blastbox.net.capture'' \<noteq> BLOCK_INTERNAL_LABEL"
  "''blastbox.net.capture'' \<noteq> JOB_ID_LABEL"
  by (simp_all add: label_names)

definition base_labels :: "string \<Rightarrow> bool \<Rightarrow> personality \<Rightarrow> (string \<times> string) list" where
  "base_labels job net_capture p =
     (let l0 = [(''blastbox.role'', ''worker''), (JOB_ID_LABEL, job)]
      in if net_capture \<and> has_egress p then AList.update ''blastbox.net.capture'' ''1'' l0 else l0)"

lemma base_label [simp]:
  "map_of (base_labels job c p) WIRE_LABEL = None" "map_of (base_labels job c p) LEAKGUARD_LABEL = None"
  "map_of (base_labels job c p) EGRESS_PORTS_LABEL = None" "map_of (base_labels job c p) BLOCK_INTERNAL_LABEL = None"
  "map_of (base_labels job c p) JOB_ID_LABEL = Some job"
  by (simp_all add: base_labels_def update_conv label_names Let_def)

lemma wire_label:
  "map_of (wire_labels p l) k =
     (if k = WIRE_LABEL \<and> inspect_routes_via_gateway p then Some ''inspect''
      else if k = WIRE_LABEL \<and> pn_exit p = ''tor'' then Some ''transproxy''
      else if k = WIRE_LABEL \<and> pn_exit p = ''socks'' then Some ''socks''
      else if k = WIRE_LABEL \<and> pn_exit p \<in> {''openvpn'', ''wireguard''} then Some ''vpn''
      else if k = SOCKS_PROXY_LABEL \<and> \<not> inspect_routes_via_gateway p \<and> pn_exit p = ''socks'' \<and> config_get p ''proxy'' \<noteq> []
           then Some (config_get p ''proxy'')
      else map_of l k)"
  by (auto simp: wire_labels_def update_conv Let_def)

lemma guard_label:
  "map_of (guard_labels p l) k =
     (if k = LEAKGUARD_LABEL \<and> (pn_exit p = ''tor'' \<or> pn_exit p = ''socks'' \<and> dns_over_udp p) then Some ''dns''
      else if k = LEAKGUARD_LABEL \<and> pn_exit p \<in> {''socks'', ''httpproxy''} then Some ''strict''
      else map_of l k)"
  by (auto simp: guard_labels_def update_conv)

lemma filter_label:
  "map_of (filter_labels p l) k =
     (if \<not> wants_egress_filter p then map_of l k
      else if k = EGRESS_PORTS_LABEL \<and> parse_egress_ports (config_get p ''egress_ports'') \<noteq> None
           then Some (render_ports (the (parse_egress_ports (config_get p ''egress_ports''))))
      else if k = BLOCK_INTERNAL_LABEL \<and> blocks_internal p then Some ''1''
      else if k = LEAKGUARD_LABEL \<and> map_of l LEAKGUARD_LABEL = None then Some ''allip''
      else map_of l k)"
proof -
  define l1 where "l1 = (case parse_egress_ports (config_get p ''egress_ports'') of
      None \<Rightarrow> l | Some ps \<Rightarrow> AList.update EGRESS_PORTS_LABEL (render_ports ps) l)"
  define l2 where "l2 = (if blocks_internal p then AList.update BLOCK_INTERNAL_LABEL ''1'' l1 else l1)"
  have m2: "map_of l2 k = (if k = BLOCK_INTERNAL_LABEL \<and> blocks_internal p then Some ''1'' else map_of l1 k)" for k
    by (simp add: l2_def update_conv)
  have m1: "map_of l1 k = (if k = EGRESS_PORTS_LABEL \<and> parse_egress_ports (config_get p ''egress_ports'') \<noteq> None
      then Some (render_ports (the (parse_egress_ports (config_get p ''egress_ports'')))) else map_of l k)" for k
    by (auto simp: l1_def update_conv split: option.split)
  have f: "filter_labels p l = (if \<not> wants_egress_filter p then l
      else case map_of l2 LEAKGUARD_LABEL of None \<Rightarrow> AList.update LEAKGUARD_LABEL ''allip'' l2 | Some _ \<Rightarrow> l2)"
    unfolding filter_labels_def Let_def l2_def l1_def by (rule refl)
  show ?thesis unfolding f by (auto simp: m1 m2 update_conv split: option.split)
qed

lemma worker_labels_eq: "worker_labels job c p = filter_labels p (guard_labels p (wire_labels p (base_labels job c p)))"
  by (simp add: worker_labels_def base_labels_def Let_def)

text \<open>What a personality's guard is: DNS over UDP, the ports, internal networks, non-TCP.\<close>

definition wants_guard :: "personality \<Rightarrow> bool" where
  "wants_guard p \<longleftrightarrow> pn_exit p \<in> {''tor'', ''socks'', ''httpproxy''} \<or> wants_egress_filter p"

definition guard_of :: "personality \<Rightarrow> bool \<times> int list option \<times> bool \<times> bool" where
  "guard_of p =
     (pn_exit p = ''tor'' \<or> pn_exit p = ''socks'' \<and> dns_over_udp p,
      if declares_ports p then parse_egress_ports (config_get p ''egress_ports'') else None,
      blocks_internal p,
      pn_exit p \<in> {''tor'', ''socks'', ''httpproxy''})"

lemma no_ports: "\<not> declares_ports p \<Longrightarrow> parse_egress_ports (config_get p ''egress_ports'') = None"
  by (simp add: declares_ports_def parse_egress_ports_def map_filter_simps keep_first_def)

lemma words_kept: "py_lower (py_strip ''dns'') = ''dns''" "py_lower (py_strip ''strict'') = ''strict''"
  "py_lower (py_strip ''allip'') = ''allip''" "py_lower (py_strip ''1'') = ''1''" "py_strip [] = []" "py_lower [] = []"
  "py_lower (py_strip ''inspect'') = ''inspect''" "py_lower (py_strip ''transproxy'') = ''transproxy''"
  "py_lower (py_strip ''socks'') = ''socks''" "py_lower (py_strip ''vpn'') = ''vpn''"
  by code_simp+

lemma guard_rules_of_plan:
  assumes labels: "ct_labels ct = Some (worker_labels job c p)" and pid: "ct_pid ct = Some pid" "0 < pid"
  shows "guard_rules ct =
    (if wants_guard p then (case guard_of p of (dns, ports, block, non_tcp) \<Rightarrow>
        Some (pid, leak_guard_rules dns ports block non_tcp)) else None)"
proof -
  let ?l = "worker_labels job c p"
  have lg: "label_or_empty ct LEAKGUARD_LABEL =
      (if pn_exit p = ''tor'' \<or> pn_exit p = ''socks'' \<and> dns_over_udp p then ''dns''
       else if pn_exit p \<in> {''socks'', ''httpproxy''} then ''strict''
       else if wants_egress_filter p then ''allip'' else [])"
    by (auto simp: label_or_empty_def labels worker_labels_eq filter_label guard_label wire_label)
  have po: "label_or_empty ct EGRESS_PORTS_LABEL =
      (if declares_ports p then (case parse_egress_ports (config_get p ''egress_ports'') of
          None \<Rightarrow> [] | Some ps \<Rightarrow> render_ports ps) else [])"
    using no_ports [of p]
    by (auto simp: label_or_empty_def labels worker_labels_eq filter_label guard_label wire_label wants_egress_filter_def
        split: option.split)
  have bl: "label_or_empty ct BLOCK_INTERNAL_LABEL = (if blocks_internal p then ''1'' else [])"
    by (auto simp: label_or_empty_def labels worker_labels_eq filter_label guard_label wire_label wants_egress_filter_def)
  have ports: "parse_egress_ports (label_or_empty ct EGRESS_PORTS_LABEL) = fst (snd (guard_of p))"
    using parse_render_ports [OF parse_egress_ports_ok]
    by (auto simp: po guard_of_def parse_egress_ports_def [of "[]"] words_kept map_filter_simps keep_first_def split: option.split)
  have block: "on_word (label_or_empty ct BLOCK_INTERNAL_LABEL) = blocks_internal p"
    by (simp add: bl on_word_def words_kept)
  have guard: "leakguard_from_inspect ct = (if wants_guard p
      then Some (pid, pn_exit p = ''tor'' \<or> pn_exit p = ''socks'' \<and> dns_over_udp p, pn_exit p \<in> {''tor'', ''socks'', ''httpproxy''})
      else None)"
    using pid by (auto simp: leakguard_from_inspect_def lg words_kept wants_guard_def real_pid_def Let_def)
  show ?thesis
    by (simp add: guard_rules_def guard egress_filter_from_inspect_def ports block guard_of_def)
qed

section \<open>Properties\<close>

lemma plan_labels:
  "net_plan_of canon runtime job c p = Inr plan \<Longrightarrow> np_labels plan = worker_labels job c p \<and> net_refusal p = None"
  by (auto simp: net_plan_of_def split: if_splits option.splits)

text \<open>
  C20: what a guarded worker can reach, from the personality to the packet.  When the dispatcher has
  planned a worker whose exit carries only TCP, or whose personality restricts ports or blocks
  internal networks, then at every command with which the network daemon opens the worker's route out,
  under any history of events and failures, a set of rules has been installed in the worker, and what
  they let out (outside the loopback) is exactly what the personality asks for: nothing to an internal
  network when those are blocked; when it lists ports, TCP to those ports and DNS over UDP if port 53 is
  among them; otherwise, on a TCP-only exit, TCP and, for tor and for a socks exit that resolves over UDP,
  DNS over UDP; and without a port list on another exit, everything else.
\<close>

theorem planned_egress_confined:
  assumes "net_plan_of canon runtime job capture p = Inr plan"
    and "pn_exit p \<in> {''tor'', ''socks'', ''httpproxy''} \<or> declares_ports p \<or> blocks_internal p"
    and "ct_labels (info cid) = Some (np_labels plan)" and "ct_pid (info cid) = Some pid" and "0 < pid"
    and "nd_log (fold (on_event ask cfg info) evs netd_init) = before @ (cid, route) # later"
    and "egress_entry (cid, route)" and "iptables_doc hit"
  shows "\<exists>rules. guard_done before cid pid rules
    \<and> (\<forall>pkt. \<not> pk_lo pkt \<longrightarrow> (accepts hit rules pkt \<longleftrightarrow>
         \<not> (blocks_internal p \<and> (\<exists>net \<in> set INTERNAL_NETS. pk_to pkt net))
         \<and> (if declares_ports p
            then \<exists>ps. parse_egress_ports (config_get p ''egress_ports'') = Some ps \<and> pk_dport pkt \<in> set ps
                   \<and> (pk_proto pkt = ''tcp'' \<or> pk_proto pkt = ''udp'' \<and> pk_dport pkt = 53)
            else pn_exit p \<in> {''tor'', ''socks'', ''httpproxy''} \<longrightarrow>
                   pk_proto pkt = ''tcp''
                   \<or> (pn_exit p = ''tor'' \<or> pn_exit p = ''socks'' \<and> dns_over_udp p)
                       \<and> pk_proto pkt = ''udp'' \<and> pk_dport pkt = 53)))"
proof -
  have pl: "np_labels plan = worker_labels job capture p" "net_refusal p = None"
    using plan_labels [OF assms(1)] by auto
  obtain dns ports block non_tcp where g: "guard_of p = (dns, ports, block, non_tcp)" by (cases "guard_of p")
  have want: "wants_guard p" using assms(2) by (auto simp: wants_guard_def wants_egress_filter_def)
  have ps: "case ports of None \<Rightarrow> True | Some ps \<Rightarrow> port_list ps"
    using g by (auto simp: guard_of_def parse_egress_ports_ok split: option.split if_splits)
  obtain rules where r: "leak_guard_rules dns ports block non_tcp = Inr rules"
    using leak_guard_rules_total [OF ps] by blast
  have gr: "guard_rules (info cid) = Some (pid, Inr rules)"
    using guard_rules_of_plan [of "info cid" job capture p pid] assms(3-5) pl(1) want g r by simp
  have "behind_guard info before (fst (cid, route))"
    using log_behind_guard [OF assms(6,7)] .
  then have gd: "guard_done before cid pid rules" using gr by (simp add: behind_guard_def)
  have acc: "accepts hit rules pkt = guard_allows dns ports block non_tcp pkt" for pkt
    using assms(8) ps r by (rule leak_guard_decides)
  have listed: "\<exists>qs. parse_egress_ports (config_get p ''egress_ports'') = Some qs" if "declares_ports p"
    using pl(2) that by (auto simp: net_refusal_def split: if_splits)
  have parts: "dns = (pn_exit p = ''tor'' \<or> pn_exit p = ''socks'' \<and> dns_over_udp p)"
    "ports = (if declares_ports p then parse_egress_ports (config_get p ''egress_ports'') else None)"
    "block = blocks_internal p" "non_tcp = (pn_exit p \<in> {''tor'', ''socks'', ''httpproxy''})"
    using g unfolding guard_of_def by blast+
  show ?thesis
  proof (intro exI [of _ rules] conjI gd allI impI)
    fix pkt :: packet
    assume lo: "\<not> pk_lo pkt"
    show "accepts hit rules pkt \<longleftrightarrow>
         \<not> (blocks_internal p \<and> (\<exists>net \<in> set INTERNAL_NETS. pk_to pkt net))
         \<and> (if declares_ports p
            then \<exists>ps. parse_egress_ports (config_get p ''egress_ports'') = Some ps \<and> pk_dport pkt \<in> set ps
                   \<and> (pk_proto pkt = ''tcp'' \<or> pk_proto pkt = ''udp'' \<and> pk_dport pkt = 53)
            else pn_exit p \<in> {''tor'', ''socks'', ''httpproxy''} \<longrightarrow>
                   pk_proto pkt = ''tcp''
                   \<or> (pn_exit p = ''tor'' \<or> pn_exit p = ''socks'' \<and> dns_over_udp p)
                       \<and> pk_proto pkt = ''udp'' \<and> pk_dport pkt = 53)"
    proof (cases "declares_ports p")
      case True
      obtain qs where q: "parse_egress_ports (config_get p ''egress_ports'') = Some qs" using listed [OF True] by blast
      have o: "ports = Some qs" using parts(2) True q by simp
      show ?thesis unfolding acc guard_allows_def o option.case parts(3) using lo True q by auto
    next
      case False
      have o: "ports = None" using parts(2) False by simp
      show ?thesis unfolding acc guard_allows_def o option.case parts(1,3,4) using lo False by simp
    qed
  qed
qed

text \<open>A VPN personality that blocks internal networks.\<close>

definition demo_vpn :: personality where
  "demo_vpn = \<lparr>pn_name = ''vpn'', pn_exit = ''openvpn'', pn_inspect = False,
     pn_config = [(''gateway'', ''10.8.0.1''), (''block_internal'', ''1'')]\<rparr>"

definition demo_vpn_labels :: "(string \<times> string) list" where
  "demo_vpn_labels = [(''blastbox.role'', ''worker''), (JOB_ID_LABEL, ''j1''), (WIRE_LABEL, ''vpn''),
     (BLOCK_INTERNAL_LABEL, ''1''), (LEAKGUARD_LABEL, ''allip'')]"

definition demo_vpn_ct :: container where
  "demo_vpn_ct = \<lparr>ct_labels = Some demo_vpn_labels, ct_pid = Some 77, ct_name = ''/w1'', ct_ips = []\<rparr>"

lemma demo_vpn_log:
  "nd_log (fold (on_event (\<lambda>_ _ _. Some 0) demo_cfg (\<lambda>_. demo_vpn_ct)) [Start ''c1'' True False] netd_init)
     = map (\<lambda>r. (''c1'', NsRun 77 r, Some 0))
         (out_rule [''-o'', ''lo'', ''-j'', ''ACCEPT''] # map (\<lambda>net. out_rule [''-d'', net, ''-j'', ''DROP'']) INTERNAL_NETS
          @ leak_guard_rules_v6)
       @ (''c1'', NsRun 77 [''ip'', ''route'', ''replace'', ''default'', ''via'', ''10.8.0.1''], Some 0) # []"
  by code_simp

theorem planned_egress_confined_witness:
  "\<exists>rules. guard_done (map (\<lambda>r. (''c1'', NsRun 77 r, Some 0))
         (out_rule [''-o'', ''lo'', ''-j'', ''ACCEPT''] # map (\<lambda>net. out_rule [''-d'', net, ''-j'', ''DROP'']) INTERNAL_NETS
          @ leak_guard_rules_v6)) ''c1'' 77 rules
     \<and> \<not> accepts demo_hit rules \<lparr>pk_lo = False, pk_proto = ''tcp'', pk_dport = 80, pk_to = (\<lambda>net. net = ''169.254.0.0/16'')\<rparr>"
proof -
  have labels: "worker_labels ''j1'' False demo_vpn = demo_vpn_labels" by code_simp
  have refusal: "net_refusal demo_vpn = None" by code_simp
  have plan: "net_plan_of Some ''runc'' ''j1'' False demo_vpn = Inr \<lparr>np_args = docker_network_args demo_vpn,
      np_labels = demo_vpn_labels, np_resolv = worker_resolv_conf Some demo_vpn, np_env = net_env demo_vpn\<rparr>"
    by (simp add: net_plan_of_def refusal labels)
  have block: "blocks_internal demo_vpn" by code_simp
  have "\<exists>rules. guard_done (map (\<lambda>r. (''c1'', NsRun 77 r, Some 0))
         (out_rule [''-o'', ''lo'', ''-j'', ''ACCEPT''] # map (\<lambda>net. out_rule [''-d'', net, ''-j'', ''DROP'']) INTERNAL_NETS
          @ leak_guard_rules_v6)) ''c1'' 77 rules
      \<and> (\<forall>pkt. accepts demo_hit rules pkt \<and> \<not> pk_lo pkt \<longrightarrow> \<not> (\<exists>net \<in> set INTERNAL_NETS. pk_to pkt net))"
    using planned_egress_confined [OF plan _ _ _ _ demo_vpn_log _ demo_hit_doc, of 77] block
    by (simp add: demo_vpn_ct_def egress_entry_def) blast
  then show ?thesis by (force simp: INTERNAL_NETS_def)
qed

text \<open>
  a personality without an exit stays without one.  Under \<open>none\<close> and \<open>drop\<close>, and under an
  inspected exit that has no routed path, a planned worker has no docker network at all, and the
  network daemon does not wire it.
\<close>

theorem plan_without_exit_isolated:
  assumes "net_plan_of canon runtime job capture p = Inr plan"
    and "pn_exit p \<in> {''none'', ''drop''} \<or> pn_inspect p \<and> pn_exit p \<notin> set EGRESS_DRIVERS"
    and "ct_labels ct = Some (np_labels plan)"
  shows "np_args plan = [''--network=none''] \<and> wire_target_from_inspect canon ct = None
    \<and> (pn_exit p \<in> {''none'', ''drop''} \<longrightarrow> map_of (np_env plan) ''BLASTBOX_NET_EGRESS'' = Some ''0'' \<and> guard_rules ct = None)"
proof -
  have np: "plan = \<lparr>np_args = docker_network_args p, np_labels = worker_labels job capture p,
      np_resolv = worker_resolv_conf canon p, np_env = net_env p\<rparr>" "net_refusal p = None"
    using assms(1) by (auto simp: net_plan_of_def split: if_splits option.splits)
  have out: "\<not> inspect_routes_via_gateway p" "pn_exit p \<notin> {''tor'', ''socks'', ''openvpn'', ''wireguard''}"
    using assms(2) by (auto simp: inspect_routes_via_gateway_def EGRESS_DRIVERS_def)
  have "label_or_empty ct WIRE_LABEL = []"
    using out assms(3) by (simp add: label_or_empty_def np worker_labels_eq filter_label guard_label wire_label)
  then have "wire_target_from_inspect canon ct = None" by (simp add: wire_target_from_inspect_def words_kept)
  moreover have "guard_rules ct = None" if "pn_exit p \<in> {''none'', ''drop''}"
  proof -
    have "\<not> wants_egress_filter p" using np(2) that by (auto simp: net_refusal_def split: if_splits)
    then have "label_or_empty ct LEAKGUARD_LABEL = []"
      using that assms(3) by (auto simp: label_or_empty_def np worker_labels_eq filter_label guard_label wire_label)
    then show ?thesis by (simp add: guard_rules_def leakguard_from_inspect_def words_kept)
  qed
  ultimately show ?thesis
    using assms(2) out(1) np by (auto simp: docker_network_args_def net_env_def has_egress_def)
qed

theorem plan_without_exit_isolated_witness:
  "docker_network_args NONE = [''--network=none''] \<and> wire_target_from_inspect Some
     (demo_vpn_ct\<lparr>ct_labels := Some (worker_labels ''j1'' True NONE)\<rparr>) = None"
proof -
  have plan: "net_plan_of Some ''runsc'' ''j1'' True NONE = Inr \<lparr>np_args = docker_network_args NONE,
      np_labels = worker_labels ''j1'' True NONE, np_resolv = worker_resolv_conf Some NONE, np_env = net_env NONE\<rparr>"
  proof -
    have "net_refusal NONE = None" "\<not> needs_netns_wiring NONE" by code_simp+
    then show ?thesis by (simp add: net_plan_of_def)
  qed
  show ?thesis
    using plan_without_exit_isolated [OF plan, of "demo_vpn_ct\<lparr>ct_labels := Some (worker_labels ''j1'' True NONE)\<rparr>"]
    by (simp add: NONE_def)
qed

end
