(* ===== verification/AppArmor.thy ===== *)
theory AppArmor
  imports Blastbox_Prelude
begin

text \<open>
  \<^verbatim>\<open>worker/sandbox/apparmor.py\<close>: whether a sandbox backend's AppArmor profile is enforcing.  The
  evidence is the kernel's profile table, or what the dispatcher measured on the host, or an assertion
  of the operator; evidence short of the kernel's is measured from inside a jail, with a memory of the
  last verdict, and a backend that was admitted as confined refuses to run when the confinement is
  gone.  The file, the environment, the clock and the probes' answers are arguments.
\<close>

section \<open>Text\<close>

text \<open>\<open>str.partition\<close> and \<open>str.rpartition\<close>; \<^const>\<open>None\<close> when the separator does not occur.\<close>

fun partition_str :: "string \<Rightarrow> string \<Rightarrow> (string \<times> string) option" where
  "partition_str sep [] = (if sep = [] then Some ([], []) else None)"
| "partition_str sep (c # cs) =
     (if startswith (c # cs) sep then Some ([], drop (length sep) (c # cs))
      else map_option (apfst (Cons c)) (partition_str sep cs))"

definition rpartition_str :: "string \<Rightarrow> string \<Rightarrow> (string \<times> string) option" where
  "rpartition_str sep s = map_option (\<lambda>(a, b). (rev b, rev a)) (partition_str (rev sep) (rev s))"

definition head_of :: "string \<Rightarrow> string \<Rightarrow> string" where
  "head_of sep s = (case partition_str sep s of None \<Rightarrow> s | Some (a, b) \<Rightarrow> a)"

definition tail_of :: "string \<Rightarrow> string \<Rightarrow> string" where
  "tail_of sep s = (case partition_str sep s of None \<Rightarrow> [] | Some (a, b) \<Rightarrow> b)"

definition py_rstrip :: "(char \<Rightarrow> bool) \<Rightarrow> string \<Rightarrow> string" where
  "py_rstrip P s = rev (dropWhile P (rev s))"

definition mode_of :: "string \<Rightarrow> string" where
  "mode_of rest = py_rstrip (\<lambda>c. c = CHR '')'') (py_rstrip is_space rest)"

section \<open>Evidence\<close>

definition ENFORCING_MODES :: "string list" where "ENFORCING_MODES = [''enforce'', ''kill'']"
definition DEFAULT_PROFILE :: string where "DEFAULT_PROFILE = ''blastbox-sandbox''"
definition OBSERVED_ENV :: string where "OBSERVED_ENV = ''BLASTBOX_APPARMOR_OBSERVED''"
definition ABSENT :: string where "ABSENT = ''absent''"
definition OPEN_PAREN :: string where "OPEN_PAREN = '' (''"

type_synonym environ = "string \<Rightarrow> string option"

definition env_text :: "environ \<Rightarrow> string \<Rightarrow> string" where
  "env_text env k = py_strip (case env k of None \<Rightarrow> [] | Some v \<Rightarrow> v)"

definition resolve_profile :: "environ \<Rightarrow> string option \<Rightarrow> string" where
  "resolve_profile env explicit =
     (case explicit of
        Some p \<Rightarrow> if p \<noteq> [] then p
                  else let v = env_text env ''BLASTBOX_APPARMOR_PROFILE'' in if v = [] then DEFAULT_PROFILE else v
      | None \<Rightarrow> let v = env_text env ''BLASTBOX_APPARMOR_PROFILE'' in if v = [] then DEFAULT_PROFILE else v)"

definition line_is_enforcing :: "string \<Rightarrow> string \<Rightarrow> bool" where
  "line_is_enforcing line profile \<longleftrightarrow>
     head_of OPEN_PAREN (py_strip line) = profile
     \<and> mode_of (tail_of OPEN_PAREN (py_strip line)) \<in> set ENFORCING_MODES"

text \<open>The dispatcher's reading; \<open>lines\<close> is \<^const>\<open>None\<close> when the table cannot be read.\<close>

fun mode_in :: "string list \<Rightarrow> string \<Rightarrow> string option" where
  "mode_in [] profile = Some ABSENT"
| "mode_in (line # lines) profile =
     (case rpartition_str OPEN_PAREN (py_strip line) of
        None \<Rightarrow> mode_in lines profile
      | Some (name, rest) \<Rightarrow>
          if py_strip name = profile then (if mode_of rest = [] then None else Some (mode_of rest))
          else mode_in lines profile)"

definition observed_mode :: "string list option \<Rightarrow> string \<Rightarrow> string option" where
  "observed_mode lines profile = (case lines of None \<Rightarrow> None | Some ls \<Rightarrow> mode_in ls profile)"

fun observed_item :: "string list \<Rightarrow> string \<Rightarrow> bool option" where
  "observed_item [] profile = None"
| "observed_item (item # items) profile =
     (if py_strip (head_of '':'' (py_strip item)) = profile
      then Some (py_strip (tail_of '':'' (py_strip item)) \<in> set ENFORCING_MODES)
      else observed_item items profile)"

definition host_observed :: "environ \<Rightarrow> string \<Rightarrow> bool option" where
  "host_observed env profile = observed_item (split_on CHR '','' (env_text env OBSERVED_ENV)) profile"

definition asserted :: "environ \<Rightarrow> string set" where
  "asserted env = set (filter (\<lambda>p. p \<noteq> []) (map py_strip (split_on CHR '','' (env_text env ''BLASTBOX_APPARMOR_PROFILES''))))"

datatype evidence = KERNEL | HOST_OBSERVED | ASSERTED | NO_EVIDENCE

definition profile_evidence :: "string list option \<Rightarrow> environ \<Rightarrow> string \<Rightarrow> evidence" where
  "profile_evidence lines env profile =
     (case lines of
        None \<Rightarrow>
          (case host_observed env profile of
             Some ok \<Rightarrow> if ok then HOST_OBSERVED else NO_EVIDENCE
           | None \<Rightarrow> if profile \<in> asserted env then ASSERTED else NO_EVIDENCE)
      | Some ls \<Rightarrow> if \<exists>line \<in> set ls. line_is_enforcing line profile then KERNEL else NO_EVIDENCE)"

definition profile_loaded :: "string list option \<Rightarrow> environ \<Rightarrow> string \<Rightarrow> bool" where
  "profile_loaded lines env profile \<longleftrightarrow> profile_evidence lines env profile \<noteq> NO_EVIDENCE"

section \<open>The proof\<close>

definition PROOF_TTL_S :: real where "PROOF_TTL_S = 30"
definition TRANSIENT_TTL_S :: real where "TRANSIENT_TTL_S = 2"
definition TRANSIENT_SETTLED_AFTER :: nat where "TRANSIENT_SETTLED_AFTER = 3"

record verdict_memo =
  vm_ok :: bool
  vm_at :: real
  vm_ttl :: real
  vm_measured :: bool

text \<open>A backend: whether the helper is there, the profile, the last verdict, how many probes failed in a
  row, what was already warned about, why nothing can be attached, the baseline, and whether it is
  suspended for a diagnosis.\<close>

record backend =
  bk_helper :: bool
  bk_profile :: string
  bk_proof :: "verdict_memo option"
  bk_transients :: nat
  bk_warned :: "string set"
  bk_blocked :: bool
  bk_armed :: "bool option"
  bk_suspended :: bool

text \<open>What one call finds: the time on entry, what the reader printed in the jail, whether the
  profile attaches at all, asked twice at most, and the time when the verdict is noted.\<close>

record probe =
  pr_entry :: real
  pr_reader :: "string option"
  pr_attach :: "bool option"
  pr_attach_again :: "bool option"
  pr_noted :: real

definition prove_apparmor_attachment :: "backend \<Rightarrow> probe \<Rightarrow> string option" where
  "prove_apparmor_attachment b p = (if bk_helper b then pr_reader p else None)"

definition attached_as :: "string \<Rightarrow> string \<Rightarrow> bool" where
  "attached_as profile got \<longleftrightarrow>
     py_strip (head_of OPEN_PAREN got) = profile
     \<and> (startswith (tail_of OPEN_PAREN got) ''enforce'' \<or> startswith (tail_of OPEN_PAREN got) ''kill'')"

definition note_verdict :: "bool \<Rightarrow> real \<Rightarrow> real \<Rightarrow> bool \<Rightarrow> backend \<Rightarrow> backend" where
  "note_verdict ok noted ttl measured b =
     b\<lparr>bk_proof := Some \<lparr>vm_ok = ok, vm_at = noted, vm_ttl = ttl, vm_measured = measured\<rparr>\<rparr>"

definition warn_once_of :: "string \<Rightarrow> backend \<Rightarrow> backend" where
  "warn_once_of key b = b\<lparr>bk_warned := insert key (bk_warned b)\<rparr>"

definition fresh :: "real \<Rightarrow> backend \<Rightarrow> bool" where
  "fresh now b \<longleftrightarrow> (case bk_proof b of None \<Rightarrow> False | Some v \<Rightarrow> now - vm_at v < vm_ttl v)"

text \<open>Both attach probes failed to run.\<close>

definition transient_failure :: "probe \<Rightarrow> backend \<Rightarrow> bool \<times> backend" where
  "transient_failure p b =
     (let n = bk_transients b + 1; b1 = b\<lparr>bk_transients := n\<rparr>;
          b2 = note_verdict False (pr_noted p) (if TRANSIENT_SETTLED_AFTER \<le> n then PROOF_TTL_S else TRANSIENT_TTL_S) False
                 (warn_once_of ''unmeasurable'' (b1\<lparr>bk_blocked := True\<rparr>))
      in case bk_proof b of
           Some v \<Rightarrow> if vm_measured v then (vm_ok v, b1) else (False, b2)
         | None \<Rightarrow> (False, b2))"

definition apparmor_attachment_is_believable :: "probe \<Rightarrow> backend \<Rightarrow> bool \<times> backend" where
  "apparmor_attachment_is_believable p b =
     (if fresh (pr_entry p) b then (vm_ok (the (bk_proof b)), b)
      else case prove_apparmor_attachment b p of
        Some got \<Rightarrow>
          (let ok = attached_as (bk_profile b) got
           in (ok, note_verdict ok (pr_noted p) PROOF_TTL_S True (b\<lparr>bk_transients := 0\<rparr>)))
      | None \<Rightarrow>
          (case (if pr_attach p = None then pr_attach_again p else pr_attach p) of
             None \<Rightarrow> transient_failure p b
           | Some attaches \<Rightarrow>
               (let b1 = b\<lparr>bk_transients := 0\<rparr>
                in (attaches, note_verdict attaches (pr_noted p) PROOF_TTL_S True
                      (if attaches then warn_once_of ''reader-denied'' b1 else b1)))))"

section \<open>The guard\<close>

definition apparmor_active :: "string list option \<Rightarrow> environ \<Rightarrow> probe \<Rightarrow> backend \<Rightarrow> bool \<times> backend" where
  "apparmor_active lines env p b =
     (if \<not> bk_helper b \<or> \<not> profile_loaded lines env (bk_profile b) then (False, b)
      else if profile_evidence lines env (bk_profile b) \<in> {ASSERTED, HOST_OBSERVED}
      then apparmor_attachment_is_believable p b
      else (True, b))"

definition env_truthy :: "environ \<Rightarrow> string \<Rightarrow> bool" where
  "env_truthy env k \<longleftrightarrow> py_lower (env_text env k) \<in> {''1'', ''true'', ''yes'', ''on''}"

definition note_admitted :: "bool \<Rightarrow> backend \<Rightarrow> backend" where
  "note_admitted armed b = b\<lparr>bk_armed := Some armed\<rparr>"

text \<open>The answer is whether the launch may go on; \<^verbatim>\<open>SandboxUnavailable\<close> otherwise.\<close>

definition refuse_if_confinement_regressed :: "environ \<Rightarrow> bool \<Rightarrow> backend \<Rightarrow> bool \<times> backend" where
  "refuse_if_confinement_regressed env attached b =
     (if bk_suspended b then (True, b)
      else case bk_armed b of
        None \<Rightarrow> (True, b\<lparr>bk_armed := Some attached\<rparr>)
      | Some armed \<Rightarrow> (\<not> armed \<or> attached \<or> env_truthy env ''BLASTBOX_ALLOW_CONFINEMENT_LOSS'', b))"

text \<open>\<open>apparmor_suspended\<close> around a launch, and a launch: one reading for the guard and the argv.  The
  answer is whether it runs, and with the profile.\<close>

definition suspended :: "(backend \<Rightarrow> 'a \<times> backend) \<Rightarrow> backend \<Rightarrow> 'a \<times> backend" where
  "suspended act b =
     (case act (b\<lparr>bk_helper := False, bk_suspended := True\<rparr>) of
        (r, b') \<Rightarrow> (r, b'\<lparr>bk_helper := bk_helper b, bk_suspended := bk_suspended b\<rparr>))"

definition launch :: "string list option \<Rightarrow> environ \<Rightarrow> probe \<Rightarrow> backend \<Rightarrow> (bool \<times> bool) \<times> backend" where
  "launch lines env p b =
     (case apparmor_active lines env p b of (attached, b1) \<Rightarrow>
        (case refuse_if_confinement_regressed env attached b1 of (go, b2) \<Rightarrow> ((go, attached), b2)))"

section \<open>The verdict is the last measurement\<close>

text \<open>What a call that probes measures; \<^const>\<open>None\<close> when the probes failed to run.\<close>

definition measured :: "backend \<Rightarrow> probe \<Rightarrow> bool option" where
  "measured b p =
     (case prove_apparmor_attachment b p of
        Some got \<Rightarrow> Some (attached_as (bk_profile b) got)
      | None \<Rightarrow> if pr_attach p = None then pr_attach_again p else pr_attach p)"

record reading =
  rd_lines :: "string list option"
  rd_env :: environ
  rd_probe :: probe

definition believes :: "reading \<Rightarrow> backend \<Rightarrow> bool" where
  "believes r b \<longleftrightarrow> bk_helper b \<and> profile_evidence (rd_lines r) (rd_env r) (bk_profile b) \<in> {ASSERTED, HOST_OBSERVED}"

definition measures :: "reading \<Rightarrow> backend \<Rightarrow> bool option" where
  "measures r b = (if believes r b \<and> \<not> fresh (pr_entry (rd_probe r)) b then measured b (rd_probe r) else None)"

text \<open>A run of readings: after each the answer, what was measured, and the last measurement so far.\<close>

fun readings :: "reading list \<Rightarrow> bool option \<Rightarrow> backend \<Rightarrow> (bool \<times> bool option) list" where
  "readings [] m b = []"
| "readings (r # rs) m b =
     (let m' = (case measures r b of None \<Rightarrow> m | Some v \<Rightarrow> Some v);
          (answer, b') = apparmor_active (rd_lines r) (rd_env r) (rd_probe r) b
      in (answer, m') # readings rs m' b')"

definition memo_ok :: "bool option \<Rightarrow> backend \<Rightarrow> bool" where
  "memo_ok m b \<longleftrightarrow> (case bk_proof b of
     None \<Rightarrow> m = None
   | Some v \<Rightarrow> if vm_measured v then m = Some (vm_ok v) else m = None \<and> \<not> vm_ok v)"

lemma note_verdict_simps [simp]:
  "bk_proof (note_verdict ok noted ttl ms b) = Some \<lparr>vm_ok = ok, vm_at = noted, vm_ttl = ttl, vm_measured = ms\<rparr>"
  "bk_profile (note_verdict ok noted ttl ms b) = bk_profile b" "bk_helper (note_verdict ok noted ttl ms b) = bk_helper b"
  "bk_armed (note_verdict ok noted ttl ms b) = bk_armed b" "bk_suspended (note_verdict ok noted ttl ms b) = bk_suspended b"
  by (simp_all add: note_verdict_def)

lemma warn_once_simps [simp]:
  "bk_proof (warn_once_of k b) = bk_proof b" "bk_profile (warn_once_of k b) = bk_profile b"
  "bk_helper (warn_once_of k b) = bk_helper b" "bk_armed (warn_once_of k b) = bk_armed b"
  "bk_suspended (warn_once_of k b) = bk_suspended b"
  by (simp_all add: warn_once_of_def)

lemma believable_frame:
  "bk_profile (snd (apparmor_attachment_is_believable p b)) = bk_profile b"
  "bk_helper (snd (apparmor_attachment_is_believable p b)) = bk_helper b"
  "bk_armed (snd (apparmor_attachment_is_believable p b)) = bk_armed b"
  "bk_suspended (snd (apparmor_attachment_is_believable p b)) = bk_suspended b"
  by (auto simp: apparmor_attachment_is_believable_def transient_failure_def Let_def split: option.split)

lemma active_frame [simp]:
  "bk_profile (snd (apparmor_active l e p b)) = bk_profile b" "bk_helper (snd (apparmor_active l e p b)) = bk_helper b"
  "bk_armed (snd (apparmor_active l e p b)) = bk_armed b" "bk_suspended (snd (apparmor_active l e p b)) = bk_suspended b"
  by (simp_all add: apparmor_active_def believable_frame)

lemma believable_memo:
  assumes "memo_ok m b"
  shows "fst (apparmor_attachment_is_believable p b) =
      ((if fresh (pr_entry p) b then m else case measured b p of None \<Rightarrow> m | Some v \<Rightarrow> Some v) = Some True)"
    and "memo_ok (if fresh (pr_entry p) b then m else case measured b p of None \<Rightarrow> m | Some v \<Rightarrow> Some v)
      (snd (apparmor_attachment_is_believable p b))"
  using assms
  by (auto simp: apparmor_attachment_is_believable_def measured_def transient_failure_def memo_ok_def fresh_def Let_def
      split: option.splits if_splits)

lemma active_memo:
  assumes "memo_ok m b"
  shows "fst (apparmor_active (rd_lines r) (rd_env r) (rd_probe r) b) \<longleftrightarrow>
      bk_helper b \<and> (profile_evidence (rd_lines r) (rd_env r) (bk_profile b) = KERNEL
        \<or> believes r b \<and> (case measures r b of None \<Rightarrow> m | Some v \<Rightarrow> Some v) = Some True)"
    and "memo_ok (case measures r b of None \<Rightarrow> m | Some v \<Rightarrow> Some v) (snd (apparmor_active (rd_lines r) (rd_env r) (rd_probe r) b))"
  using believable_memo [OF assms, of "rd_probe r"] assms
  by (cases "profile_evidence (rd_lines r) (rd_env r) (bk_profile b)";
      auto simp: apparmor_active_def profile_loaded_def believes_def measures_def split: option.splits if_splits)+

section \<open>Launches and diagnoses\<close>

datatype use = Launch reading | Diagnose reading

text \<open>What each launch of a backend's life answered; a diagnosis is a launch while suspended.\<close>

fun life :: "use list \<Rightarrow> backend \<Rightarrow> ((bool \<times> bool) \<times> reading) list" where
  "life [] b = []"
| "life (Launch r # us) b =
     (case launch (rd_lines r) (rd_env r) (rd_probe r) b of (res, b') \<Rightarrow> (res, r) # life us b')"
| "life (Diagnose r # us) b = life us (snd (suspended (launch (rd_lines r) (rd_env r) (rd_probe r)) b))"

lemma launch_armed:
  assumes "bk_armed b = Some a" "\<not> bk_suspended b"
  shows "launch l e p b = ((\<not> a \<or> fst (apparmor_active l e p b) \<or> env_truthy e ''BLASTBOX_ALLOW_CONFINEMENT_LOSS'',
      fst (apparmor_active l e p b)), snd (apparmor_active l e p b))"
  using assms by (simp add: launch_def refuse_if_confinement_regressed_def split_beta)

lemma diagnose_frame:
  "bk_armed (snd (suspended (launch l e p) b)) = bk_armed b" "bk_suspended (snd (suspended (launch l e p) b)) = bk_suspended b"
  by (simp_all add: suspended_def launch_def refuse_if_confinement_regressed_def split_beta)

section \<open>The dispatcher's measurement\<close>

text \<open>The kernel's table: one line per profile, its name and its mode.\<close>

definition table_line :: "string \<times> string \<Rightarrow> string" where
  "table_line nm = fst nm @ OPEN_PAREN @ snd nm @ '')'' @ [CHR 0x0A]"

definition plain_name :: "string \<Rightarrow> bool" where
  "plain_name n \<longleftrightarrow> n \<noteq> [] \<and> \<not> is_space (hd n) \<and> \<not> is_space (last n) \<and> CHR ''('' \<notin> set n \<and> CHR '','' \<notin> set n \<and> CHR '':'' \<notin> set n"

definition plain_mode :: "string \<Rightarrow> bool" where
  "plain_mode m \<longleftrightarrow> m \<noteq> [] \<and> list_all (\<lambda>c. \<not> is_space c \<and> c \<notin> {CHR '')'', CHR ''('', CHR '','', CHR '':''}) m"

lemma partition_str_paren: "CHR ''('' \<notin> set a \<Longrightarrow> partition_str OPEN_PAREN (a @ OPEN_PAREN @ r) = Some (a, r)"
proof (induction a)
  case Nil
  then show ?case by (simp add: OPEN_PAREN_def startswith_def)
next
  case (Cons c a)
  have "\<not> startswith ((c # a) @ OPEN_PAREN @ r) OPEN_PAREN"
    using Cons.prems by (cases a) (auto simp: OPEN_PAREN_def startswith_def)
  then show ?case using Cons by simp
qed

lemma partition_str_rparen: "CHR ''('' \<notin> set a \<Longrightarrow> partition_str (rev OPEN_PAREN) (a @ rev OPEN_PAREN @ r) = Some (a, r)"
proof (induction a)
  case Nil
  then show ?case by (simp add: OPEN_PAREN_def startswith_def)
next
  case (Cons c a)
  have "\<not> startswith ((c # a) @ rev OPEN_PAREN @ r) (rev OPEN_PAREN)"
    using Cons.prems by (auto simp: OPEN_PAREN_def startswith_def)
  then show ?case using Cons by simp
qed

lemma rpartition_str_paren: "CHR ''('' \<notin> set r \<Longrightarrow> rpartition_str OPEN_PAREN (a @ OPEN_PAREN @ r) = Some (a, r)"
  using partition_str_rparen [of "rev r" "rev a"] by (simp add: rpartition_str_def)

lemma partition_str_char: "c \<notin> set a \<Longrightarrow> partition_str [c] (a @ c # r) = Some (a, r)"
  by (induction a) (auto simp: startswith_def)

lemma plain_mode_chars:
  assumes "plain_mode m"
  shows "m \<noteq> []" "CHR ''('' \<notin> set m" "CHR '','' \<notin> set m" "CHR '':'' \<notin> set m" "py_strip m = m"
    "mode_of (m @ '')'') = m"
proof -
  show "m \<noteq> []" "CHR ''('' \<notin> set m" "CHR '','' \<notin> set m" "CHR '':'' \<notin> set m" "py_strip m = m"
    using assms by (auto simp: plain_mode_def list_all_iff intro!: strip_plain)
  have "rev m = rev m @ []" by simp
  moreover have "\<not> (\<lambda>c. c = CHR '')'') (hd (rev m))" using assms by (cases m rule: rev_cases) (auto simp: plain_mode_def)
  ultimately show "mode_of (m @ '')'') = m" using \<open>m \<noteq> []\<close>
    by (cases m rule: rev_cases) (simp_all add: mode_of_def py_rstrip_def is_space_def)
qed

lemma table_line_strip:
  assumes "plain_name n" "plain_mode m"
  shows "py_strip (table_line (n, m)) = n @ OPEN_PAREN @ m @ '')''"
proof -
  have "py_strip (n @ OPEN_PAREN @ m @ '')'') = n @ OPEN_PAREN @ m @ '')''"
    using assms by (intro strip_keep) (auto simp: plain_name_def OPEN_PAREN_def is_space_def)
  moreover have nl: "py_strip (s @ [CHR 0x0A]) = py_strip s" if "s \<noteq> []" "\<not> is_space (hd s)" for s
    using that by (cases s) (simp_all add: py_strip_def dropWhile_append is_space_def)
  have "py_strip ((n @ OPEN_PAREN @ m @ '')'') @ [CHR 0x0A]) = py_strip (n @ OPEN_PAREN @ m @ '')'')"
    using assms(1) by (intro nl) (auto simp: plain_name_def)
  ultimately show ?thesis by (simp add: table_line_def)
qed

lemma table_line_enforcing:
  assumes "plain_name n" "plain_mode m"
  shows "line_is_enforcing (table_line (n, m)) p \<longleftrightarrow> n = p \<and> m \<in> set ENFORCING_MODES"
  using assms partition_str_paren [of n "m @ '')''"] plain_mode_chars [OF assms(2)]
  by (simp add: line_is_enforcing_def table_line_strip head_of_def tail_of_def plain_name_def)

lemma mode_in_table:
  assumes "\<forall>(n, m) \<in> set tab. plain_name n \<and> plain_mode m" "plain_name p"
  shows "mode_in (map table_line tab) p = Some (case map_of tab p of None \<Rightarrow> ABSENT | Some m \<Rightarrow> m)"
  using assms(1)
proof (induction tab)
  case (Cons nm tab)
  obtain n m where nm: "nm = (n, m)" by fastforce
  have ok: "plain_name n" "plain_mode m" using Cons.prems nm by auto
  have "py_strip n = n" using ok(1) by (auto simp: plain_name_def intro: strip_keep)
  moreover have "rpartition_str OPEN_PAREN (py_strip (table_line nm)) = Some (n, m @ '')'')"
    using rpartition_str_paren [of "m @ '')''" n] plain_mode_chars [OF ok(2)] table_line_strip [OF ok] nm by simp
  ultimately show ?case using Cons plain_mode_chars [OF ok(2)] nm by (auto simp: ABSENT_def)
qed simp

lemma observed_one:
  assumes "plain_name p" "plain_mode m"
  shows "env OBSERVED_ENV = Some (p @ '':'' @ m) \<Longrightarrow> host_observed env p = Some (m \<in> set ENFORCING_MODES)"
proof -
  let ?v = "p @ '':'' @ m"
  note mc = plain_mode_chars [OF assms(2)]
  have nc: "CHR '','' \<notin> set ?v" using assms(1) mc by (auto simp: plain_name_def)
  have sp: "split_on CHR '','' s = [s]" if "CHR '','' \<notin> set s" for s using that by (induction s) auto
  have "\<not> is_space (last m)" using assms(2) mc(1) by (auto simp: plain_mode_def list_all_iff)
  then have st: "py_strip ?v = ?v" using assms(1) mc(1) by (intro strip_keep) (auto simp: plain_name_def)
  have "partition_str '':'' ?v = Some (p, m)"
    using partition_str_char [of "CHR '':''" p m] assms(1) by (simp add: plain_name_def)
  moreover have "py_strip p = p" using assms(1) by (auto simp: plain_name_def intro: strip_keep)
  moreover assume "env OBSERVED_ENV = Some ?v"
  ultimately show ?thesis using st mc(5) sp [OF nc] by (simp add: host_observed_def env_text_def head_of_def tail_of_def)
qed

section \<open>Properties\<close>

lemma measurement_decides:
  assumes "\<forall>(n, m) \<in> set tab. plain_name n \<and> plain_mode m" and "distinct (map fst tab)" and "plain_name p"
    and "observed_mode (Some (map table_line tab)) p = Some m" and "env OBSERVED_ENV = Some (p @ '':'' @ m)"
  shows "profile_evidence None env p =
      (if profile_evidence (Some (map table_line tab)) env' p = KERNEL then HOST_OBSERVED else NO_EVIDENCE)"
proof -
  have m: "m = (case map_of tab p of None \<Rightarrow> ABSENT | Some m \<Rightarrow> m)"
    using mode_in_table [OF assms(1,3)] assms(4) by (simp add: observed_mode_def)
  have pm: "plain_mode m"
  proof (cases "map_of tab p")
    case None
    then show ?thesis by (simp add: m ABSENT_def plain_mode_def is_space_def)
  next
    case (Some m')
    then show ?thesis using assms(1) map_of_SomeD [OF Some] by (auto simp: m)
  qed
  have w: "profile_evidence None env p = (if m \<in> set ENFORCING_MODES then HOST_OBSERVED else NO_EVIDENCE)"
    using observed_one [where p = p and m = m and env = env] assms(3,5) pm by (simp add: profile_evidence_def)
  have "(\<exists>line \<in> set (map table_line tab). line_is_enforcing line p) \<longleftrightarrow> (\<exists>m'. (p, m') \<in> set tab \<and> m' \<in> set ENFORCING_MODES)"
  proof -
    have "line_is_enforcing (table_line nm) p \<longleftrightarrow> fst nm = p \<and> snd nm \<in> set ENFORCING_MODES" if "nm \<in> set tab" for nm
      using table_line_enforcing [of "fst nm" "snd nm" p] assms(1) that by (simp add: case_prod_beta)
    then show ?thesis by (simp add: image_def) (metis fst_conv snd_conv prod.collapse)
  qed
  also have "\<dots> \<longleftrightarrow> m \<in> set ENFORCING_MODES"
  proof (cases "map_of tab p")
    case None
    then have "(p, m') \<notin> set tab" for m' by (auto simp: map_of_eq_None_iff image_iff)
    moreover have "ABSENT \<notin> set ENFORCING_MODES" by (simp add: ABSENT_def ENFORCING_MODES_def)
    ultimately show ?thesis using None by (simp add: m)
  next
    case (Some m')
    have "(p, q) \<in> set tab \<longleftrightarrow> q = m'" for q
      using map_of_eq_Some_iff [OF assms(2), of p q] Some by auto
    then show ?thesis using Some by (simp add: m)
  qed
  finally show ?thesis using w by (simp add: profile_evidence_def)
qed

text \<open>
  what the host measured is what the worker concludes.  For a kernel table in the kernel's format
  with one line per profile, the mode the dispatcher reads and hands over makes a worker that cannot
  read the table conclude exactly what the table says: confined when the profile is listed in an
  enforcing mode, not confined when it is listed in another mode or not listed at all, whatever the
  operator asserted.
\<close>

theorem host_measurement_decides:
  assumes "\<forall>(n, m) \<in> set tab. plain_name n \<and> plain_mode m" and "distinct (map fst tab)" and "plain_name p"
    and "observed_mode (Some (map table_line tab)) p = Some m" and "env OBSERVED_ENV = Some (p @ '':'' @ m)"
  shows "profile_evidence None env p =
      (if profile_evidence (Some (map table_line tab)) env' p = KERNEL then HOST_OBSERVED else NO_EVIDENCE)"
  using assms by (rule measurement_decides)

theorem host_measurement_decides_witness:
  "profile_evidence None [OBSERVED_ENV \<mapsto> ''blastbox-sandbox:complain'', ''BLASTBOX_APPARMOR_PROFILES'' \<mapsto> ''blastbox-sandbox'']
     ''blastbox-sandbox'' = NO_EVIDENCE"
proof -
  let ?tab = "[(''blastbox-sandbox'', ''complain''), (''lsb'', ''enforce'')]"
  have t: "\<forall>(n, m) \<in> set ?tab. plain_name n \<and> plain_mode m" "plain_name ''blastbox-sandbox''"
    by (simp_all add: plain_name_def plain_mode_def is_space_def)
  have o: "observed_mode (Some (map table_line ?tab)) ''blastbox-sandbox'' = Some ''complain''"
    unfolding observed_mode_def using mode_in_table [OF t] by simp
  have k: "profile_evidence (Some (map table_line ?tab)) Map.empty ''blastbox-sandbox'' = NO_EVIDENCE"
    using table_line_enforcing t by (simp add: profile_evidence_def ENFORCING_MODES_def)
  show ?thesis
    using host_measurement_decides [OF t(1) _ t(2) o, of "[OBSERVED_ENV \<mapsto> ''blastbox-sandbox:complain'',
        ''BLASTBOX_APPARMOR_PROFILES'' \<mapsto> ''blastbox-sandbox'']" Map.empty] k
    by (simp add: OBSERVED_ENV_def)
qed

text \<open>
  the memory answers the last measurement.  From a backend that measured nothing yet, whatever
  sequence of readings follows, a profile is reported attached exactly when the helper is there and
  either the kernel itself lists it as enforcing, or there is host or operator evidence and the last
  measurement made from inside the jail so far said so: expired entries, failed probes and cached
  verdicts never turn an unmeasured or disproved assertion into confinement.
\<close>

lemma readings_step:
  assumes "memo_ok m b" "n < length rs"
  shows "fst (readings rs m b ! n) \<longleftrightarrow> bk_helper b
     \<and> (profile_evidence (rd_lines (rs ! n)) (rd_env (rs ! n)) (bk_profile b) = KERNEL
        \<or> profile_evidence (rd_lines (rs ! n)) (rd_env (rs ! n)) (bk_profile b) \<in> {ASSERTED, HOST_OBSERVED}
          \<and> snd (readings rs m b ! n) = Some True)"
  using assms
proof (induction rs arbitrary: m b n)
  case (Cons r rs)
  let ?m = "case measures r b of None \<Rightarrow> m | Some v \<Rightarrow> Some v"
  obtain answer b' where a: "apparmor_active (rd_lines r) (rd_env r) (rd_probe r) b = (answer, b')" by fastforce
  have f: "bk_helper b' = bk_helper b" "bk_profile b' = bk_profile b"
    using active_frame(1,2) [of "rd_lines r" "rd_env r" "rd_probe r" b] a by simp_all
  have s: "readings (r # rs) m b = (answer, ?m) # readings rs ?m b'" by (simp add: a Let_def)
  show ?case
  proof (cases n)
    case 0
    then show ?thesis using active_memo(1) [OF Cons.prems(1), of r] a unfolding s by (auto simp: believes_def)
  next
    case (Suc n')
    have "memo_ok ?m b'" using active_memo(2) [OF Cons.prems(1), of r] a by simp
    from Cons.IH [OF this, of n'] show ?thesis using Cons.prems(2) Suc f unfolding s by simp
  qed
qed simp

theorem active_is_last_measurement:
  assumes "bk_proof b = None" and "n < length rs"
  shows "fst (readings rs None b ! n) \<longleftrightarrow> bk_helper b
     \<and> (profile_evidence (rd_lines (rs ! n)) (rd_env (rs ! n)) (bk_profile b) = KERNEL
        \<or> profile_evidence (rd_lines (rs ! n)) (rd_env (rs ! n)) (bk_profile b) \<in> {ASSERTED, HOST_OBSERVED}
          \<and> snd (readings rs None b ! n) = Some True)"
  using readings_step [OF _ assms(2), of None b] assms(1) by (simp add: memo_ok_def)

definition demo_backend :: backend where
  "demo_backend = \<lparr>bk_helper = True, bk_profile = ''p'', bk_proof = None, bk_transients = 0, bk_warned = {},
     bk_blocked = False, bk_armed = None, bk_suspended = False\<rparr>"

definition demo_reading :: "real \<Rightarrow> string option \<Rightarrow> reading" where
  "demo_reading t out = \<lparr>rd_lines = None, rd_env = [''BLASTBOX_APPARMOR_PROFILES'' \<mapsto> ''p''],
     rd_probe = \<lparr>pr_entry = t, pr_reader = out, pr_attach = None, pr_attach_again = None, pr_noted = t + 1\<rparr>\<rparr>"

lemma demo_asserted: "profile_evidence None [''BLASTBOX_APPARMOR_PROFILES'' \<mapsto> ''p''] ''p'' = ASSERTED"
  by (simp add: profile_evidence_def host_observed_def asserted_def env_text_def OBSERVED_ENV_def py_strip_def is_space_def
      head_of_def)

text \<open>Enforcing when measured, then failing probes past every expiry: still the last measurement.\<close>

theorem active_is_last_measurement_witness:
  "fst (readings [demo_reading 0 (Some ''p (enforce)''), demo_reading 500 None] None demo_backend ! 1)"
proof -
  let ?rs = "[demo_reading 0 (Some ''p (enforce)''), demo_reading 500 None]"
  have "snd (readings ?rs None demo_backend ! 1) = Some True"
    using demo_asserted
    by (simp add: Let_def split_beta apparmor_active_def measures_def believes_def measured_def fresh_def
        profile_loaded_def demo_reading_def demo_backend_def prove_apparmor_attachment_def
        apparmor_attachment_is_believable_def attached_as_def head_of_def tail_of_def OPEN_PAREN_def startswith_def
        py_strip_def is_space_def PROOF_TTL_S_def)
  with active_is_last_measurement [of demo_backend 1 ?rs] demo_asserted show ?thesis
    by (simp add: demo_backend_def demo_reading_def)
qed

lemma life_armed:
  assumes "bk_armed b = Some a" "\<not> bk_suspended b" "((go, attached), r) \<in> set (life us b)"
  shows "go \<longleftrightarrow> \<not> a \<or> attached \<or> env_truthy (rd_env r) ''BLASTBOX_ALLOW_CONFINEMENT_LOSS''"
  using assms
proof (induction us b rule: life.induct)
  case (2 q us b)
  note la = launch_armed [OF 2(2,3), of "rd_lines q" "rd_env q" "rd_probe q"]
  show ?case
  proof (cases "((go, attached), r) = (fst (launch (rd_lines q) (rd_env q) (rd_probe q) b), q)")
    case True
    then show ?thesis using la by auto
  next
    case False
    have "((go, attached), r) \<in> set (life us (snd (apparmor_active (rd_lines q) (rd_env q) (rd_probe q) b)))"
      using 2(4) False la by auto
    then show ?thesis using 2(1) [OF surjective_pairing [symmetric]] 2(2,3) la by simp
  qed
next
  case (3 q us b)
  then show ?case by (simp add: diagnose_frame)
qed simp

text \<open>Nothing recorded: the first launch goes ahead and its reading becomes the record.\<close>

lemma life_unarmed:
  assumes "bk_armed b = None" "\<not> bk_suspended b" "life us b = ((go0, attached0), r0) # later"
  shows "go0 \<and> (\<forall>((go, attached), r) \<in> set later.
    go \<longleftrightarrow> \<not> attached0 \<or> attached \<or> env_truthy (rd_env r) ''BLASTBOX_ALLOW_CONFINEMENT_LOSS'')"
  using assms
proof (induction us b rule: life.induct)
  case (2 q us b)
  obtain u b1 where a: "apparmor_active (rd_lines q) (rd_env q) (rd_probe q) b = (u, b1)" by fastforce
  have f: "bk_armed b1 = None" "\<not> bk_suspended b1"
    using active_frame [of "rd_lines q" "rd_env q" "rd_probe q" b] 2(2,3) a by simp_all
  then have l: "launch (rd_lines q) (rd_env q) (rd_probe q) b = ((True, u), b1\<lparr>bk_armed := Some u\<rparr>)"
    by (simp add: launch_def a refuse_if_confinement_regressed_def)
  then have e: "go0" "attached0 = u" "later = life us (b1\<lparr>bk_armed := Some u\<rparr>)" using 2(4) by auto
  have f2: "bk_armed (b1\<lparr>bk_armed := Some u\<rparr>) = Some u" "\<not> bk_suspended (b1\<lparr>bk_armed := Some u\<rparr>)" using f(2) by simp_all
  show ?case using e(1) life_armed [OF f2] unfolding e(2,3) case_prod_unfold by (metis prod.collapse)
next
  case (3 q us b)
  then show ?case by (simp add: diagnose_frame)
qed simp

text \<open>
  C18: confinement that was there at admission is never lost silently.  Over the whole life of a backend,
  with any number of diagnoses in between: once it is recorded as admitted confined, or, when nothing was
  recorded, once its first launch found the profile attached (that launch goes ahead), every later launch
  runs exactly when the profile is attached at that launch or the operator's override allows the loss;
  otherwise it is refused.  A backend recorded as admitted without the profile is not held to it.
\<close>

theorem confinement_loss_refused:
  assumes "\<not> bk_suspended b"
  shows "(\<forall>go attached r. ((go, attached), r) \<in> set (life us (note_admitted True b)) \<longrightarrow>
        (go \<longleftrightarrow> attached \<or> env_truthy (rd_env r) ''BLASTBOX_ALLOW_CONFINEMENT_LOSS''))
    \<and> (\<forall>go0 r0 later. bk_armed b = None \<and> life us b = ((go0, True), r0) # later \<longrightarrow>
        go0 \<and> (\<forall>go attached r. ((go, attached), r) \<in> set later \<longrightarrow>
          (go \<longleftrightarrow> attached \<or> env_truthy (rd_env r) ''BLASTBOX_ALLOW_CONFINEMENT_LOSS'')))
    \<and> (\<forall>go attached r. ((go, attached), r) \<in> set (life us (note_admitted False b)) \<longrightarrow> go)"
proof -
  have n: "bk_armed (note_admitted a b) = Some a" "\<not> bk_suspended (note_admitted a b)" for a
    using assms by (simp_all add: note_admitted_def)
  show ?thesis
  proof (intro conjI allI impI)
    fix go attached r
    assume "((go, attached), r) \<in> set (life us (note_admitted True b))"
    from life_armed [OF n this] show "go \<longleftrightarrow> attached \<or> env_truthy (rd_env r) ''BLASTBOX_ALLOW_CONFINEMENT_LOSS''" by simp
  next
    fix go0 r0 later
    assume a: "bk_armed b = None \<and> life us b = ((go0, True), r0) # later"
    from a life_unarmed [OF _ assms, of us go0 True r0 later] show "go0" by blast
    show "go \<longleftrightarrow> attached \<or> env_truthy (rd_env r) ''BLASTBOX_ALLOW_CONFINEMENT_LOSS''"
      if "((go, attached), r) \<in> set later" for go attached r
      using a life_unarmed [OF _ assms, of us go0 True r0 later] that by auto
  next
    fix go attached r
    assume "((go, attached), r) \<in> set (life us (note_admitted False b))"
    from life_armed [OF n this] show go by simp
  qed
qed

theorem confinement_loss_refused_witness:
  "life [Diagnose (demo_reading 0 None), Launch (demo_reading 0 (Some ''p (complain)''))] (note_admitted True demo_backend)
     = [((False, False), demo_reading 0 (Some ''p (complain)''))]"
proof -
  let ?us = "[Diagnose (demo_reading 0 None), Launch (demo_reading 0 (Some ''p (complain)''))]"
  have at: "map (\<lambda>x. (snd (fst x), snd x)) (life ?us (note_admitted True demo_backend)) = [(False, demo_reading 0 (Some ''p (complain)''))]"
    using demo_asserted
    by (simp add: launch_def suspended_def note_admitted_def split_beta apparmor_active_def fresh_def
        profile_loaded_def demo_reading_def demo_backend_def prove_apparmor_attachment_def
        apparmor_attachment_is_believable_def attached_as_def head_of_def tail_of_def OPEN_PAREN_def startswith_def
        py_strip_def is_space_def refuse_if_confinement_regressed_def Let_def)
  then obtain go where l: "life ?us (note_admitted True demo_backend) = [((go, False), demo_reading 0 (Some ''p (complain)''))]"
    by (auto simp: map_eq_Cons_conv)
  have b: "\<not> bk_suspended demo_backend" by (simp add: demo_backend_def)
  have "((go, False), demo_reading 0 (Some ''p (complain)'')) \<in> set (life ?us (note_admitted True demo_backend))" unfolding l by simp
  then have "go \<longleftrightarrow> False \<or> env_truthy (rd_env (demo_reading 0 (Some ''p (complain)''))) ''BLASTBOX_ALLOW_CONFINEMENT_LOSS''"
    using confinement_loss_refused [OF b, of ?us] by blast
  with l show ?thesis by (simp add: demo_reading_def env_truthy_def env_text_def py_strip_def py_lower_def)
qed

end
