(* ===== verification/Worker_Launch.thy ===== *)
theory Worker_Launch
  imports Dispatch_Net AppArmor Job_Model Contract_Envelope
begin

text \<open>
  \<^verbatim>\<open>host/runtime/docker.py\<close> with the parameter gate of \<^verbatim>\<open>host/dispatch.py\<close>: which runtime a cold
  worker runs under, what of a client's parameters reaches it, and the \<^verbatim>\<open>docker run\<close> command line.
  The environment of the dispatcher, the runtimes docker reports, the loaded profiles and the resolved
  host paths are arguments.
\<close>

section \<open>The runtime\<close>

record runtime =
  rt_name :: string
  rt_secure :: bool
  rt_warnings :: "string list"

definition RUNSC_WARNING :: string where
  "RUNSC_WARNING = ''runsc unavailable; falling back to runc (insecure)''"
definition APPARMOR_WARNING :: string where
  "APPARMOR_WARNING = ''blastbox AppArmor profile not loaded; worker runs under docker-default''"
definition SECCOMP_WARNING :: string where
  "SECCOMP_WARNING = ''BLASTBOX_SECCOMP_JSON_HOST not set; worker runs under docker-default seccomp''"
definition NONO_SKIP_WARNING :: string where
  "NONO_SKIP_WARNING = ''BLASTBOX_WORKER_NONO_WRAP set but skipped under runsc''"

text \<open>A switch is on unless it is one of the words for off; the default is \<^verbatim>\<open>0\<close>.\<close>

definition switched_on :: "environ \<Rightarrow> string \<Rightarrow> bool" where
  "switched_on env k \<longleftrightarrow>
     py_lower (py_strip (case env k of None \<Rightarrow> ''0'' | Some v \<Rightarrow> v)) \<notin> {'''', ''0'', ''false'', ''no''}"

definition normalize_runtimes :: "string list \<Rightarrow> string set" where
  "normalize_runtimes rs = set (map (\<lambda>r. py_lower (py_strip r)) (filter (\<lambda>r. py_strip r \<noteq> []) rs))"

text \<open>\<^verbatim>\<open>InsecureRuntimeRefused\<close> is \<^const>\<open>None\<close>.\<close>

definition finalize_runtime :: "environ \<Rightarrow> runtime \<Rightarrow> runtime option" where
  "finalize_runtime env r =
     (if \<not> rt_secure r then
        if switched_on env ''BLASTBOX_REQUIRE_SECURE_RUNTIME'' then None
        else if \<not> switched_on env ''BLASTBOX_ALLOW_RUNC'' then None
        else Some r
      else Some r)"

definition select_worker_runtime :: "environ \<Rightarrow> string list \<Rightarrow> runtime option" where
  "select_worker_runtime env available =
     (let forced = py_lower (env_text env ''BLASTBOX_WORKER_RUNTIME'')
      in if forced \<in> {''runc'', ''runsc''} then
           finalize_runtime env \<lparr>rt_name = forced, rt_secure = (forced = ''runsc''),
             rt_warnings = (if forced = ''runsc'' then [] else [RUNSC_WARNING])\<rparr>
         else if ''runsc'' \<in> normalize_runtimes available then
           finalize_runtime env \<lparr>rt_name = ''runsc'', rt_secure = True, rt_warnings = []\<rparr>
         else finalize_runtime env \<lparr>rt_name = ''runc'', rt_secure = False, rt_warnings = [RUNSC_WARNING]\<rparr>)"

section \<open>Parameters of a client\<close>

definition MAX_ENV_VALUE_LEN :: nat where "MAX_ENV_VALUE_LEN = 4096"

definition valid_env_key :: "string \<Rightarrow> bool" where
  "valid_env_key k =
     (case k of [] \<Rightarrow> False
      | c # cs \<Rightarrow> char_between CHR ''A'' CHR ''Z'' c
          \<and> list_all (\<lambda>x. char_between CHR ''A'' CHR ''Z'' x \<or> digit_c x \<or> x = CHR ''_'') cs)"

definition RESERVED_ENV_PREFIXES :: "string list" where
  "RESERVED_ENV_PREFIXES = [''BLASTBOX_'', ''LD_'', ''PYTHON'']"

definition RESERVED_ENV_KEYS :: "string list" where "RESERVED_ENV_KEYS = [''PATH'', ''IFS'']"

definition is_reserved_env_key :: "string list \<Rightarrow> string \<Rightarrow> bool" where
  "is_reserved_env_key engine_reserved key \<longleftrightarrow>
     key \<in> set RESERVED_ENV_KEYS \<or> key \<in> set engine_reserved \<or> list_ex (startswith key) RESERVED_ENV_PREFIXES"

record engine_spec =
  es_image :: string
  es_argv :: "string list"
  es_allowed :: "string list option"
  es_reserved :: "string list"
  es_defaults :: "(string \<times> string) list"
  es_net_policy :: string
  es_runtimes :: "string list option"

text \<open>\<open>str(value)\<close>; values other than strings and null are rendered by an argument.\<close>

definition param_text :: "(json \<Rightarrow> string) \<Rightarrow> json \<Rightarrow> string" where
  "param_text render v = (case v of JStr s \<Rightarrow> s | JNull \<Rightarrow> [] | _ \<Rightarrow> render v)"

definition keep_param :: "string list option \<Rightarrow> string list \<Rightarrow> string \<Rightarrow> bool" where
  "keep_param allowed reserved key \<longleftrightarrow>
     valid_env_key key \<and> \<not> is_reserved_env_key reserved key
     \<and> (case allowed of None \<Rightarrow> True | Some ks \<Rightarrow> key \<in> set ks)"

definition sanitize_params ::
  "(json \<Rightarrow> string) \<Rightarrow> (string \<times> json) list \<Rightarrow> string list option \<Rightarrow> string list \<Rightarrow> (string \<times> string) list
     \<Rightarrow> (string \<times> string) list" where
  "sanitize_params render ps allowed reserved defaults =
     (let merged = fold (\<lambda>(k, v). AList.update k v) ps (map (apsnd JStr) defaults)
      in map (\<lambda>(k, v). (k, take MAX_ENV_VALUE_LEN (param_text render v)))
           (filter (\<lambda>(k, v). keep_param allowed reserved k) merged))"

text \<open>The environment of the container: the client's parameters, then the platform's, which win.\<close>

definition extra_env ::
  "(json \<Rightarrow> string) \<Rightarrow> engine_spec \<Rightarrow> (string \<times> json) list \<Rightarrow> personality \<Rightarrow> (string \<times> string) list \<Rightarrow> (string \<times> string) list" where
  "extra_env render es ps p proxy_env =
     fold (\<lambda>(k, v). AList.update k v)
       ([(''BLASTBOX_INPUT_DIR'', ''/input''), (''BLASTBOX_OUTPUT_DIR'', ''/output'')] @ net_env p @ proxy_env)
       (sanitize_params render ps (es_allowed es) (es_reserved es) (es_defaults es))"

section \<open>The command line\<close>

definition env_or :: "environ \<Rightarrow> string \<Rightarrow> string \<Rightarrow> string" where
  "env_or env k dflt = (if env_text env k = [] then dflt else env_text env k)"

record launch_host =
  lh_env :: environ
  lh_worker_profile :: bool
  lh_profiles :: "string list option"

record worker_run =
  wr_image :: string
  wr_input :: string
  wr_input_mount :: string
  wr_output :: string
  wr_output_mount :: string
  wr_argv :: "string list"
  wr_network :: "string list option"
  wr_resolv :: "string option"
  wr_name :: "string option"
  wr_uid :: nat
  wr_gid :: nat
  wr_workdir :: string
  wr_labels :: "(string \<times> string) list"
  wr_env :: "(string \<times> string) list"

definition nono_enabled :: "environ \<Rightarrow> bool" where
  "nono_enabled env \<longleftrightarrow> py_lower (env_text env ''BLASTBOX_WORKER_NONO_WRAP'') \<notin> {'''', ''0'', ''false'', ''no''}"

definition NONO_RO_ROOTS :: "string list" where
  "NONO_RO_ROOTS = [''/usr'', ''/lib'', ''/lib64'', ''/bin'', ''/sbin'', ''/etc'', ''/opt'', ''/var'', ''/proc'', ''/sys'']"

definition nono_launch_wrap :: "string list \<Rightarrow> string \<Rightarrow> string \<Rightarrow> string \<Rightarrow> string \<Rightarrow> string \<Rightarrow> string list" where
  "nono_launch_wrap worker_argv nono_bin profile state_dir input_mount output_mount =
     (let grants = (if profile \<noteq> [] then [''-p'', profile]
                    else concat (map (\<lambda>d. [''-r'', d]) NONO_RO_ROOTS)
                      @ [''-a'', ''/tmp'', ''-a'', ''/dev'', ''-a'', output_mount, ''--read-file'', input_mount])
      in [''/usr/bin/env'', ''HOME='' @ state_dir, nono_bin, ''wrap'', ''--silent''] @ grants
         @ [''--block-net'', ''--'', ''/usr/bin/env'', ''HOME=/tmp''] @ worker_argv)"

definition nono_state_dir :: "environ \<Rightarrow> string" where
  "nono_state_dir env = env_or env ''BLASTBOX_WORKER_NONO_STATE_DIR'' ''/run/nono''"

definition fixed_flags :: "environ \<Rightarrow> runtime \<Rightarrow> worker_run \<Rightarrow> string list" where
  "fixed_flags env rt w =
     [''--rm'', ''--runtime='' @ rt_name rt, ''--user'', str_nat (wr_uid w) @ '':'' @ str_nat (wr_gid w)]
     @ (case wr_network w of None \<Rightarrow> [''--network=none''] | Some args \<Rightarrow> args)
     @ [''--cap-drop=ALL'', ''--security-opt=no-new-privileges'', ''--read-only'',
        ''--memory'', env_or env ''BLASTBOX_WORKER_MEMORY'' ''4g'',
        ''--memory-swap'', env_or env ''BLASTBOX_WORKER_MEMORY'' ''4g'',
        ''--pids-limit'', env_or env ''BLASTBOX_WORKER_PIDS_LIMIT'' ''256'',
        ''--cpus'', env_or env ''BLASTBOX_WORKER_CPUS'' ''1.0'',
        ''--ulimit'', (let n = env_or env ''BLASTBOX_WORKER_NOFILE'' ''4096'' in ''nofile='' @ n @ '':'' @ n)]
     @ (if rt_name rt = ''runsc'' \<or> \<not> rt_secure rt then [''-e'', ''BLASTBOX_WARN_ON_INSECURE=1''] else [])
     @ [''-e'', ''HOME=/tmp'', ''--tmpfs'', ''/tmp:rw,nosuid,noexec,size=512m'',
        ''--mount'', ''type=bind,src='' @ wr_input w @ '',dst='' @ wr_input_mount w @ '',readonly'',
        ''--mount'', ''type=bind,src='' @ wr_output w @ '',dst='' @ wr_output_mount w]
     @ (case wr_resolv w of None \<Rightarrow> []
        | Some src \<Rightarrow> if src = [] then [] else [''--mount'', ''type=bind,src='' @ src @ '',dst=/etc/resolv.conf,readonly''])
     @ [''--workdir'', wr_workdir w]"

definition profile_flags :: "launch_host \<Rightarrow> bool \<Rightarrow> string list" where
  "profile_flags h apply_nono =
     (let env = lh_env h; child = resolve_profile env None; seccomp = env_text env ''BLASTBOX_SECCOMP_JSON_HOST''
      in (if apply_nono then [''--tmpfs'', nono_state_dir env @ '':rw,nosuid,nodev,size=32m''] else [])
         @ (if lh_worker_profile h then [''--security-opt'', ''apparmor=blastbox-worker''] else [])
         @ (case observed_mode (lh_profiles h) child of
              None \<Rightarrow> [] | Some m \<Rightarrow> [''-e'', OBSERVED_ENV @ ''='' @ child @ '':'' @ m])
         @ (if seccomp \<noteq> [] then [''--security-opt'', ''seccomp='' @ seccomp] else []))"

definition pair_flags :: "string \<Rightarrow> (string \<times> string) list \<Rightarrow> string list" where
  "pair_flags opt kvs = concat (map (\<lambda>(k, v). [opt, k @ ''='' @ v]) kvs)"

text \<open>The command line, and the warnings the runtime carries afterwards.\<close>

definition build_worker_docker_run_argv :: "launch_host \<Rightarrow> runtime \<Rightarrow> worker_run \<Rightarrow> string list \<times> string list" where
  "build_worker_docker_run_argv h rt w =
     (let env = lh_env h; apply_nono = nono_enabled env \<and> rt_name rt \<noteq> ''runsc''
      in ([''docker'', ''run''] @ fixed_flags env rt w @ profile_flags h apply_nono @ pair_flags ''-e'' (wr_env w)
            @ (case wr_name w of None \<Rightarrow> [] | Some n \<Rightarrow> if n = [] then [] else [''--name'', n])
            @ pair_flags ''--label'' (wr_labels w) @ [wr_image w]
            @ (if apply_nono
               then nono_launch_wrap (wr_argv w) (env_or env ''BLASTBOX_WORKER_NONO_BIN'' ''/usr/local/bin/nono'')
                      (env_text env ''BLASTBOX_WORKER_NONO_PROFILE'') (nono_state_dir env) (wr_input_mount w) (wr_output_mount w)
               else wr_argv w),
          rt_warnings rt
            @ (if nono_enabled env \<and> rt_name rt = ''runsc'' then [NONO_SKIP_WARNING] else [])
            @ (if lh_worker_profile h then [] else [APPARMOR_WARNING])
            @ (if env_text env ''BLASTBOX_SECCOMP_JSON_HOST'' = [] then [SECCOMP_WARNING] else [])))"

text \<open>\<open>Path(s).name\<close>, and the run of \<open>_dispatch_inner\<close>; \<open>dir\<close> is the resolved directory of the job.\<close>

definition path_name :: "string \<Rightarrow> string" where
  "path_name s = (case path_parts s of [] \<Rightarrow> [] | p # ps \<Rightarrow> last (p # ps))"

definition container_name :: "string \<Rightarrow> string" where
  "container_name jid = ''blastbox-worker-'' @ take 12 jid"

definition cold_run ::
  "(json \<Rightarrow> string) \<Rightarrow> engine_spec \<Rightarrow> job \<Rightarrow> net_plan \<Rightarrow> personality \<Rightarrow> string \<Rightarrow> (string \<times> string) list \<Rightarrow> worker_run" where
  "cold_run render es j np p dir proxy_env =
     \<lparr>wr_image = es_image es, wr_input = dir @ ''/input/'' @ path_name (filename j),
      wr_input_mount = ''/input/'' @ path_name (filename j), wr_output = dir @ ''/output'', wr_output_mount = ''/output'',
      wr_argv = es_argv es, wr_network = Some (np_args np),
      wr_resolv = (case np_resolv np of None \<Rightarrow> None | Some content \<Rightarrow> Some (dir @ ''/resolv.conf'')),
      wr_name = Some (container_name (job_id j)), wr_uid = 10001, wr_gid = 10001, wr_workdir = ''/tmp'',
      wr_labels = np_labels np, wr_env = extra_env render es (params j) p proxy_env\<rparr>"

section \<open>How docker reads a command line\<close>

text \<open>The options of \<^verbatim>\<open>docker run\<close> that take the next word as their value, and the switches; another
  word that starts with two dashes carries its value after the sign; the first other word is the image
  and what follows is the command.\<close>

definition VALUE_OPTIONS :: "string list" where
  "VALUE_OPTIONS = [''--user'', ''--network'', ''--memory'', ''--memory-swap'', ''--pids-limit'', ''--cpus'', ''--ulimit'',
     ''-e'', ''--tmpfs'', ''--mount'', ''--workdir'', ''--security-opt'', ''--name'', ''--label'']"

definition SWITCHES :: "string list" where "SWITCHES = [''--rm'', ''--read-only'']"

type_synonym docker_cmd = "(string \<times> string) list \<times> string list"

fun read_run :: "string list \<Rightarrow> docker_cmd option" where
  "read_run [] = None"
| "read_run (a # as) =
     (if a \<in> set SWITCHES then map_option (apfst (Cons (a, []))) (read_run as)
      else if a \<in> set VALUE_OPTIONS then
        (case as of [] \<Rightarrow> None | v # rest \<Rightarrow> map_option (apfst (Cons (a, v))) (read_run rest))
      else if startswith a ''--'' then
        (if CHR ''='' \<in> set a then map_option (apfst (Cons (partition_eq a))) (read_run as) else None)
      else if startswith a ''-'' then None
      else Some ([], a # as))"

definition reads :: "string list \<Rightarrow> (string \<times> string) list \<Rightarrow> bool" where
  "reads ws os \<longleftrightarrow> (\<forall>rest os' c. read_run rest = Some (os', c) \<longrightarrow> read_run (ws @ rest) = Some (os @ os', c))"

lemma reads_Nil [simp]: "reads [] []"
  by (simp add: reads_def)

lemma reads_append: "reads ws os \<Longrightarrow> reads ws' os' \<Longrightarrow> reads (ws @ ws') (os @ os')"
  by (simp add: reads_def)

lemma reads_switch: "a \<in> set SWITCHES \<Longrightarrow> reads [a] [(a, [])]"
  by (simp add: reads_def)

lemma reads_value: "a \<in> set VALUE_OPTIONS \<Longrightarrow> reads [a, v] [(a, v)]"
  by (auto simp: reads_def SWITCHES_def VALUE_OPTIONS_def)

lemma reads_sign:
  "startswith a ''--'' \<Longrightarrow> CHR ''='' \<in> set a \<Longrightarrow> reads [a] [partition_eq a]"
proof -
  assume a: "startswith a ''--''" "CHR ''='' \<in> set a"
  have "a \<notin> set SWITCHES" "a \<notin> set VALUE_OPTIONS" using a(2) by (auto simp: SWITCHES_def VALUE_OPTIONS_def)
  then show ?thesis using a by (simp add: reads_def)
qed

lemma reads_pairs: "opt \<in> set VALUE_OPTIONS \<Longrightarrow> reads (pair_flags opt kvs) (map (\<lambda>(k, v). (opt, k @ ''='' @ v)) kvs)"
proof (induction kvs)
  case (Cons kv kvs)
  then show ?case using reads_append [OF reads_value [OF Cons.prems]] by (simp add: pair_flags_def split_beta)
qed (simp add: pair_flags_def)

lemma read_image:
  "reads ws os \<Longrightarrow> img \<noteq> [] \<Longrightarrow> \<not> startswith img ''-'' \<Longrightarrow> read_run (ws @ img # cmd) = Some (os, img # cmd)"
proof -
  assume r: "reads ws os" and i: "img \<noteq> []" "\<not> startswith img ''-''"
  have "img \<notin> set SWITCHES" "img \<notin> set VALUE_OPTIONS" "\<not> startswith img ''--''"
    using i by (cases img; auto simp: SWITCHES_def VALUE_OPTIONS_def startswith_def)+
  then have "read_run (img # cmd) = Some ([], img # cmd)" using i by simp
  then show ?thesis using r by (simp add: reads_def)
qed

section \<open>The options of a launch\<close>

definition network_of :: "personality \<Rightarrow> string" where
  "network_of p = (case docker_network_args p of [a, b] \<Rightarrow> b | _ \<Rightarrow> ''none'')"

lemma network_reads: "reads (docker_network_args p) [(''--network'', network_of p)]"
proof -
  have n: "reads [''--network=none''] [(''--network'', ''none'')]"
    using reads_sign [of "''--network=none''"] by (simp add: startswith_def partition_eq_def)
  have v: "reads [''--network'', b] [(''--network'', b)]" for b
    by (rule reads_value) (simp add: VALUE_OPTIONS_def)
  show ?thesis using n v by (auto simp: docker_network_args_def network_of_def split: option.split)
qed

text \<open>Words that read as one option each.\<close>

lemma reads_step:
  "reads ws os \<Longrightarrow> a \<in> set SWITCHES \<Longrightarrow> reads (a # ws) ((a, []) # os)"
  "reads ws os \<Longrightarrow> a \<in> set VALUE_OPTIONS \<Longrightarrow> reads (a # v # ws) ((a, v) # os)"
  "reads ws os \<Longrightarrow> startswith a ''--'' \<Longrightarrow> CHR ''='' \<in> set a \<Longrightarrow> reads (a # ws) (partition_eq a # os)"
  using reads_append [OF reads_switch, of a ws os] reads_append [OF reads_value, of a ws os v]
    reads_append [OF reads_sign, of a ws os] by simp_all

definition hard_options :: "environ \<Rightarrow> (string \<times> string) list" where
  "hard_options env =
     [(''--cap-drop'', ''ALL''), (''--security-opt'', ''no-new-privileges''), (''--read-only'', []),
      (''--memory'', env_or env ''BLASTBOX_WORKER_MEMORY'' ''4g''),
      (''--memory-swap'', env_or env ''BLASTBOX_WORKER_MEMORY'' ''4g''),
      (''--pids-limit'', env_or env ''BLASTBOX_WORKER_PIDS_LIMIT'' ''256''),
      (''--cpus'', env_or env ''BLASTBOX_WORKER_CPUS'' ''1.0''),
      (''--ulimit'', (let n = env_or env ''BLASTBOX_WORKER_NOFILE'' ''4096'' in ''nofile='' @ n @ '':'' @ n))]"

definition mount_values :: "worker_run \<Rightarrow> string list" where
  "mount_values w =
     [''type=bind,src='' @ wr_input w @ '',dst='' @ wr_input_mount w @ '',readonly'',
      ''type=bind,src='' @ wr_output w @ '',dst='' @ wr_output_mount w]
     @ (case wr_resolv w of None \<Rightarrow> []
        | Some src \<Rightarrow> if src = [] then [] else [''type=bind,src='' @ src @ '',dst=/etc/resolv.conf,readonly''])"

definition first_env :: "runtime \<Rightarrow> string list" where
  "first_env rt = (if rt_name rt = ''runsc'' \<or> \<not> rt_secure rt then [''BLASTBOX_WARN_ON_INSECURE=1''] else []) @ [''HOME=/tmp'']"

definition fixed_options :: "environ \<Rightarrow> runtime \<Rightarrow> worker_run \<Rightarrow> string \<Rightarrow> (string \<times> string) list" where
  "fixed_options env rt w net =
     [(''--rm'', []), (''--runtime'', rt_name rt), (''--user'', str_nat (wr_uid w) @ '':'' @ str_nat (wr_gid w)), (''--network'', net)]
     @ hard_options env @ map (Pair ''-e'') (first_env rt) @ [(''--tmpfs'', ''/tmp:rw,nosuid,noexec,size=512m'')]
     @ map (Pair ''--mount'') (mount_values w) @ [(''--workdir'', wr_workdir w)]"

lemma fixed_reads:
  assumes "wr_network w = Some (docker_network_args p)"
  shows "reads (fixed_flags env rt w) (fixed_options env rt w (network_of p))"
proof -
  have pe: "partition_eq (''--runtime='' @ r) = (''--runtime'', r)" "partition_eq ''--cap-drop=ALL'' = (''--cap-drop'', ''ALL'')"
    "partition_eq ''--security-opt=no-new-privileges'' = (''--security-opt'', ''no-new-privileges'')" for r
    by (simp_all add: partition_eq_def)
  have r: "reads [''--rm'', ''--runtime='' @ rt_name rt, ''--user'', u] [(''--rm'', []), (''--runtime'', rt_name rt), (''--user'', u)]" for u
    using reads_step(1) [OF reads_step(3) [OF reads_step(2) [OF reads_Nil]], of "''--user''" "''--runtime='' @ rt_name rt" "''--rm''" u] pe(1)
    by (simp add: startswith_def SWITCHES_def VALUE_OPTIONS_def)
  have h: "reads [''--cap-drop=ALL'', ''--security-opt=no-new-privileges'', ''--read-only'',
        ''--memory'', m, ''--memory-swap'', m, ''--pids-limit'', q, ''--cpus'', c, ''--ulimit'', u]
      [(''--cap-drop'', ''ALL''), (''--security-opt'', ''no-new-privileges''), (''--read-only'', []), (''--memory'', m),
       (''--memory-swap'', m), (''--pids-limit'', q), (''--cpus'', c), (''--ulimit'', u)]" for m q c u
    by (subst pe(2) [symmetric], subst pe(3) [symmetric]) (intro reads_step reads_Nil; simp add: startswith_def SWITCHES_def VALUE_OPTIONS_def)
  have e: "reads (if b then [''-e'', x] else []) (map (Pair ''-e'') (if b then [x] else []))" for b x
    by (auto intro!: reads_step(2) reads_Nil simp: VALUE_OPTIONS_def)
  have t: "reads [''-e'', ''HOME=/tmp'', ''--tmpfs'', x, ''--mount'', y, ''--mount'', z]
      [(''-e'', ''HOME=/tmp''), (''--tmpfs'', x), (''--mount'', y), (''--mount'', z)]" for x y z
    by (intro reads_step reads_Nil; simp add: VALUE_OPTIONS_def)
  have s: "reads (case wr_resolv w of None \<Rightarrow> [] | Some src \<Rightarrow> if src = [] then [] else [''--mount'', f src])
      (map (Pair ''--mount'') (case wr_resolv w of None \<Rightarrow> [] | Some src \<Rightarrow> if src = [] then [] else [f src]))" for f
    by (auto intro!: reads_step(2) reads_Nil simp: VALUE_OPTIONS_def split: option.split)
  have d: "reads [''--workdir'', x] [(''--workdir'', x)]" for x by (rule reads_value) (simp add: VALUE_OPTIONS_def)
  note all = reads_append [OF r reads_append [OF network_reads reads_append [OF h reads_append [OF e
      reads_append [OF t reads_append [OF s d]]]]]]
  show ?thesis unfolding fixed_flags_def fixed_options_def hard_options_def mount_values_def first_env_def assms
    using all by simp
qed

definition observed_env :: "launch_host \<Rightarrow> string list" where
  "observed_env h =
     (let child = resolve_profile (lh_env h) None
      in case observed_mode (lh_profiles h) child of None \<Rightarrow> [] | Some m \<Rightarrow> [OBSERVED_ENV @ ''='' @ child @ '':'' @ m])"

definition profile_options :: "launch_host \<Rightarrow> bool \<Rightarrow> (string \<times> string) list" where
  "profile_options h nono =
     (if nono then [(''--tmpfs'', nono_state_dir (lh_env h) @ '':rw,nosuid,nodev,size=32m'')] else [])
     @ (if lh_worker_profile h then [(''--security-opt'', ''apparmor=blastbox-worker'')] else [])
     @ map (Pair ''-e'') (observed_env h)
     @ (let sc = env_text (lh_env h) ''BLASTBOX_SECCOMP_JSON_HOST'' in if sc = [] then [] else [(''--security-opt'', ''seccomp='' @ sc)])"

lemma profile_reads: "reads (profile_flags h nono) (profile_options h nono)"
proof -
  have o: "reads (if b then [a, x] else []) (if b then [(a, x)] else [])" if "a \<in> set VALUE_OPTIONS" for a x b
    using that by (auto intro!: reads_step(2) reads_Nil)
  have c: "reads (case v of None \<Rightarrow> [] | Some m \<Rightarrow> [''-e'', f m]) (map (Pair ''-e'') (case v of None \<Rightarrow> [] | Some m \<Rightarrow> [f m]))" for v :: "string option" and f
    by (auto intro!: reads_step(2) reads_Nil simp: VALUE_OPTIONS_def split: option.split)
  have n: "reads (if x \<noteq> [] then [a, y] else []) (if x = [] then [] else [(a, y)])" if "a \<in> set VALUE_OPTIONS" for a y and x :: string
    using that by (auto intro!: reads_step(2) reads_Nil)
  have v: "''--tmpfs'' \<in> set VALUE_OPTIONS" "''--security-opt'' \<in> set VALUE_OPTIONS" by (simp_all add: VALUE_OPTIONS_def)
  show ?thesis unfolding profile_flags_def profile_options_def observed_env_def Let_def
    by (intro reads_append o c n v)
qed

definition name_options :: "worker_run \<Rightarrow> (string \<times> string) list" where
  "name_options w = (case wr_name w of None \<Rightarrow> [] | Some n \<Rightarrow> if n = [] then [] else [(''--name'', n)])"

definition launch_options :: "launch_host \<Rightarrow> runtime \<Rightarrow> worker_run \<Rightarrow> string \<Rightarrow> (string \<times> string) list" where
  "launch_options h rt w net =
     fixed_options (lh_env h) rt w net @ profile_options h (nono_enabled (lh_env h) \<and> rt_name rt \<noteq> ''runsc'')
     @ map (\<lambda>(k, v). (''-e'', k @ ''='' @ v)) (wr_env w) @ name_options w
     @ map (\<lambda>(k, v). (''--label'', k @ ''='' @ v)) (wr_labels w)"

definition launch_command :: "launch_host \<Rightarrow> runtime \<Rightarrow> worker_run \<Rightarrow> string list" where
  "launch_command h rt w =
     (if nono_enabled (lh_env h) \<and> rt_name rt \<noteq> ''runsc''
      then nono_launch_wrap (wr_argv w) (env_or (lh_env h) ''BLASTBOX_WORKER_NONO_BIN'' ''/usr/local/bin/nono'')
             (env_text (lh_env h) ''BLASTBOX_WORKER_NONO_PROFILE'') (nono_state_dir (lh_env h)) (wr_input_mount w) (wr_output_mount w)
      else wr_argv w)"

lemma read_launch:
  assumes "wr_network w = Some (docker_network_args p)" "wr_image w \<noteq> []" "\<not> startswith (wr_image w) ''-''"
  shows "\<exists>ws. fst (build_worker_docker_run_argv h rt w) = ''docker'' # ''run'' # ws
    \<and> read_run ws = Some (launch_options h rt w (network_of p), wr_image w # launch_command h rt w)"
proof -
  have nm: "reads (case wr_name w of None \<Rightarrow> [] | Some n \<Rightarrow> if n = [] then [] else [''--name'', n]) (name_options w)"
    by (auto intro!: reads_step(2) reads_Nil simp: name_options_def VALUE_OPTIONS_def split: option.split)
  have ev: "''-e'' \<in> set VALUE_OPTIONS" "''--label'' \<in> set VALUE_OPTIONS" by (simp_all add: VALUE_OPTIONS_def)
  note all = reads_append [OF fixed_reads [OF assms(1)] reads_append [OF profile_reads reads_append [OF reads_pairs [OF ev(1)]
      reads_append [OF nm reads_pairs [OF ev(2)]]]]]
  show ?thesis
    unfolding build_worker_docker_run_argv_def Let_def launch_options_def launch_command_def
    using read_image [OF all assms(2,3)] by simp
qed

definition known_option :: "string \<times> string \<Rightarrow> bool" where
  "known_option o' \<longleftrightarrow> fst o' \<in> set (''--runtime'' # ''--cap-drop'' # SWITCHES @ VALUE_OPTIONS)"

lemma option_names: "list_all known_option (launch_options h rt w net)"
proof -
  have k [simp]: "known_option (a, v) \<longleftrightarrow> a \<in> set (''--runtime'' # ''--cap-drop'' # SWITCHES @ VALUE_OPTIONS)" for a v
    by (simp add: known_option_def)
  have p: "list_all known_option (map (Pair ''-e'') xs)" "list_all known_option (map (Pair ''--mount'') xs)"
    "list_all known_option (map (\<lambda>(k, v). (''-e'', k @ ''='' @ v)) kvs)"
    "list_all known_option (map (\<lambda>(k, v). (''--label'', k @ ''='' @ v)) kvs)" for xs kvs
    by (auto simp: list_all_iff VALUE_OPTIONS_def)
  have f: "list_all known_option (fixed_options (lh_env h) rt w net)"
    unfolding fixed_options_def list_all_append by (intro conjI p) (simp_all add: hard_options_def SWITCHES_def VALUE_OPTIONS_def)
  have q: "list_all known_option (profile_options h nono)" for nono
    unfolding profile_options_def list_all_append Let_def by (intro conjI p) (simp_all add: VALUE_OPTIONS_def)
  have n: "list_all known_option (name_options w)" by (simp add: name_options_def VALUE_OPTIONS_def split: option.split)
  show ?thesis unfolding launch_options_def list_all_append by (intro conjI f q n p)
qed

text \<open>The values of one option, in order.\<close>

definition option_values :: "string \<Rightarrow> (string \<times> string) list \<Rightarrow> string list" where
  "option_values a opts = map snd (filter (\<lambda>o'. fst o' = a) opts)"

lemma option_values_append [simp]: "option_values a (xs @ ys) = option_values a xs @ option_values a ys"
  by (simp add: option_values_def)

lemma option_values_Cons [simp]: "option_values a (x # xs) = (if fst x = a then [snd x] else []) @ option_values a xs"
  by (simp add: option_values_def)

lemma option_values_Nil [simp]: "option_values a [] = []"
  by (simp add: option_values_def)

lemma option_values_map [simp]:
  "option_values a (map (Pair b) vs) = (if b = a then vs else [])"
  "option_values a (map (\<lambda>(k, v). (b, f k v)) kvs) = (if b = a then map (\<lambda>(k, v). f k v) kvs else [])"
  by (induction vs) (simp_all, induction kvs, auto)

lemma option_values_if: "option_values a (if b then xs else ys) = (if b then option_values a xs else option_values a ys)"
  by simp

section \<open>Properties\<close>

text \<open>
  no worker without gVisor unless the operator said so.  A runtime is selected only if it is gVisor's,
  or plain runc was allowed explicitly and a secure runtime is not required; gVisor is chosen whenever
  docker offers it and no runtime is forced, and a selected insecure runtime always carries the warning
  that is put on the job.
\<close>

theorem runtime_selection_sound:
  "select_worker_runtime env available = Some rt \<Longrightarrow>
     rt_secure rt = (rt_name rt = ''runsc'') \<and> rt_name rt \<in> {''runsc'', ''runc''}
     \<and> (rt_secure rt \<or> switched_on env ''BLASTBOX_ALLOW_RUNC'' \<and> \<not> switched_on env ''BLASTBOX_REQUIRE_SECURE_RUNTIME''
          \<and> RUNSC_WARNING \<in> set (rt_warnings rt))
     \<and> (''runsc'' \<in> normalize_runtimes available \<and> py_lower (env_text env ''BLASTBOX_WORKER_RUNTIME'') \<noteq> ''runc''
          \<longrightarrow> rt_secure rt)"
  by (auto simp: select_worker_runtime_def finalize_runtime_def Let_def split: if_splits)

theorem runtime_selection_sound_witness:
  "\<exists>rt. select_worker_runtime Map.empty ['' RunSC '', ''runc''] = Some rt \<and> rt_secure rt \<and> rt_name rt = ''runsc''"
proof -
  have "py_lower (py_strip '' RunSC '') = ''runsc''" "py_strip '' RunSC '' \<noteq> []" by code_simp+
  then have "''runsc'' \<in> normalize_runtimes ['' RunSC '', ''runc'']" by (simp add: normalize_runtimes_def)
  moreover from this obtain rt where "select_worker_runtime Map.empty ['' RunSC '', ''runc''] = Some rt"
    by (auto simp: select_worker_runtime_def finalize_runtime_def env_text_def py_strip_def py_lower_def)
  ultimately show ?thesis
    using runtime_selection_sound [of Map.empty "['' RunSC '', ''runc'']" rt]
    by (auto simp: env_text_def py_strip_def py_lower_def)
qed

text \<open>
  C16: what docker makes of a cold worker's command line, option by option.  Whatever the job carries, the
  words read as the engine's own image and command behind options of eighteen names, and the values of
  each are exactly: the chosen runtime; the unprivileged user; one network, which is none for a personality
  without egress; all capabilities dropped, a read-only root, the security options of the host; the memory,
  process, processor and file limits of the operator or their defaults; the platform's first variables,
  the host's measurement and then the environment built for the job; the scratch file systems; the mounts
  of the job's own input, read-only, of its output and of its resolver file; the working directory; the
  container's name; and the labels planned for the personality.
\<close>

theorem worker_launch_confined:
  assumes "net_plan_of canon (rt_name rt) (job_id j) capture p = Inr np"
    and "es_image es \<noteq> []" and "\<not> startswith (es_image es) ''-''"
  shows "\<exists>ws opts. fst (build_worker_docker_run_argv h rt (cold_run render es j np p dir px)) = ''docker'' # ''run'' # ws
    \<and> read_run ws = Some (opts, es_image es # launch_command h rt (cold_run render es j np p dir px))
    \<and> fst ` set opts \<subseteq> set [''--runtime'', ''--user'', ''--network'', ''--cap-drop'', ''--security-opt'', ''--read-only'', ''--rm'',
         ''--memory'', ''--memory-swap'', ''--pids-limit'', ''--cpus'', ''--ulimit'', ''-e'', ''--tmpfs'', ''--mount'', ''--workdir'',
         ''--name'', ''--label'']
    \<and> option_values ''--runtime'' opts = [rt_name rt]
    \<and> option_values ''--user'' opts = [''10001:10001'']
    \<and> option_values ''--network'' opts = [network_of p] \<and> (\<not> has_egress p \<longrightarrow> network_of p = ''none'')
    \<and> option_values ''--cap-drop'' opts = [''ALL''] \<and> option_values ''--read-only'' opts = [''''] \<and> option_values ''--rm'' opts = ['''']
    \<and> option_values ''--security-opt'' opts =
        [''no-new-privileges''] @ (if lh_worker_profile h then [''apparmor=blastbox-worker''] else [])
        @ (let sc = env_text (lh_env h) ''BLASTBOX_SECCOMP_JSON_HOST'' in if sc = [] then [] else [''seccomp='' @ sc])
    \<and> option_values ''--memory'' opts = [env_or (lh_env h) ''BLASTBOX_WORKER_MEMORY'' ''4g'']
    \<and> option_values ''--memory-swap'' opts = [env_or (lh_env h) ''BLASTBOX_WORKER_MEMORY'' ''4g'']
    \<and> option_values ''--pids-limit'' opts = [env_or (lh_env h) ''BLASTBOX_WORKER_PIDS_LIMIT'' ''256'']
    \<and> option_values ''--cpus'' opts = [env_or (lh_env h) ''BLASTBOX_WORKER_CPUS'' ''1.0'']
    \<and> option_values ''--ulimit'' opts = (let n = env_or (lh_env h) ''BLASTBOX_WORKER_NOFILE'' ''4096'' in [''nofile='' @ n @ '':'' @ n])
    \<and> option_values ''-e'' opts =
        (if rt_name rt = ''runsc'' \<or> \<not> rt_secure rt then [''BLASTBOX_WARN_ON_INSECURE=1''] else []) @ [''HOME=/tmp''] @ observed_env h
        @ map (\<lambda>(k, v). k @ ''='' @ v) (extra_env render es (params j) p px)
    \<and> option_values ''--tmpfs'' opts = [''/tmp:rw,nosuid,noexec,size=512m'']
        @ (if nono_enabled (lh_env h) \<and> rt_name rt \<noteq> ''runsc'' then [nono_state_dir (lh_env h) @ '':rw,nosuid,nodev,size=32m''] else [])
    \<and> option_values ''--mount'' opts =
        (let file = path_name (filename j)
         in [''type=bind,src='' @ dir @ ''/input/'' @ file @ '',dst=/input/'' @ file @ '',readonly'',
             ''type=bind,src='' @ dir @ ''/output,dst=/output'']
            @ (if worker_resolv_conf canon p = None then [] else [''type=bind,src='' @ dir @ ''/resolv.conf,dst=/etc/resolv.conf,readonly'']))
    \<and> option_values ''--workdir'' opts = [''/tmp'']
    \<and> option_values ''--name'' opts = [''blastbox-worker-'' @ take 12 (job_id j)]
    \<and> option_values ''--label'' opts = map (\<lambda>(k, v). k @ ''='' @ v) (worker_labels (job_id j) capture p)"
proof -
  let ?w = "cold_run render es j np p dir px"
  have np: "np_args np = docker_network_args p" "np_labels np = worker_labels (job_id j) capture p" "np_resolv np = worker_resolv_conf canon p"
    using assms(1) by (auto simp: net_plan_of_def split: if_splits option.splits)
  have w: "wr_network ?w = Some (docker_network_args p)" "wr_image ?w \<noteq> []" "\<not> startswith (wr_image ?w) ''-''"
    using assms(2,3) np by (simp_all add: cold_run_def)
  let ?o = "launch_options h rt ?w (network_of p)"
  have d: "digit_char 0 = CHR ''0''" "digit_char 1 = CHR ''1''" by code_simp+
  have uid: "str_nat 10001 = ''10001''"
    using d by (simp add: str_nat.simps [of 10001] str_nat.simps [of 1000] str_nat.simps [of 100] str_nat.simps [of 10]
        str_nat.simps [of "Suc 0"])
  have e: "\<not> has_egress p \<longrightarrow> network_of p = ''none''"
    by (auto simp: has_egress_def network_of_def docker_network_args_def)
  have m: "mount_values ?w = (let file = path_name (filename j)
         in [''type=bind,src='' @ dir @ ''/input/'' @ file @ '',dst=/input/'' @ file @ '',readonly'',
             ''type=bind,src='' @ dir @ ''/output,dst=/output'']
            @ (if worker_resolv_conf canon p = None then [] else [''type=bind,src='' @ dir @ ''/resolv.conf,dst=/etc/resolv.conf,readonly'']))"
    by (simp add: mount_values_def cold_run_def np(3) Let_def split: option.split)
  have n: "name_options ?w = [(''--name'', ''blastbox-worker-'' @ take 12 (job_id j))]"
    by (simp add: name_options_def cold_run_def container_name_def)
  have f: "wr_uid ?w = 10001" "wr_gid ?w = 10001" "wr_workdir ?w = ''/tmp''" "wr_labels ?w = worker_labels (job_id j) capture p"
    "wr_env ?w = extra_env render es (params j) p px"
    by (simp_all add: cold_run_def np(2))
  have o: "?o = [(''--rm'', []), (''--runtime'', rt_name rt), (''--user'', ''10001:10001''), (''--network'', network_of p)]
     @ hard_options (lh_env h) @ map (Pair ''-e'') (first_env rt) @ [(''--tmpfs'', ''/tmp:rw,nosuid,noexec,size=512m'')]
     @ map (Pair ''--mount'') (mount_values ?w) @ [(''--workdir'', ''/tmp'')]
     @ (if nono_enabled (lh_env h) \<and> rt_name rt \<noteq> ''runsc'' then [(''--tmpfs'', nono_state_dir (lh_env h) @ '':rw,nosuid,nodev,size=32m'')] else [])
     @ (if lh_worker_profile h then [(''--security-opt'', ''apparmor=blastbox-worker'')] else [])
     @ map (Pair ''-e'') (observed_env h)
     @ (let sc = env_text (lh_env h) ''BLASTBOX_SECCOMP_JSON_HOST'' in if sc = [] then [] else [(''--security-opt'', ''seccomp='' @ sc)])
     @ map (\<lambda>(k, v). (''-e'', k @ ''='' @ v)) (extra_env render es (params j) p px)
     @ [(''--name'', ''blastbox-worker-'' @ take 12 (job_id j))]
     @ map (\<lambda>(k, v). (''--label'', k @ ''='' @ v)) (worker_labels (job_id j) capture p)"
    by (simp add: launch_options_def fixed_options_def profile_options_def n f uid)
  have k: "fst ` set ?o \<subseteq> set (''--runtime'' # ''--cap-drop'' # SWITCHES @ VALUE_OPTIONS)"
    using option_names [of h rt ?w "network_of p"] unfolding list_all_iff known_option_def by blast
  have i: "wr_image ?w = es_image es" by (simp add: cold_run_def)
  obtain ws where ws: "fst (build_worker_docker_run_argv h rt ?w) = ''docker'' # ''run'' # ws"
    "read_run ws = Some (?o, es_image es # launch_command h rt ?w)"
    using read_launch [OF w, of h rt] unfolding i by blast
  show ?thesis
  proof (rule exI [of _ ws], rule exI [of _ ?o], intro conjI ws e)
    show "fst ` set ?o \<subseteq> set [''--runtime'', ''--user'', ''--network'', ''--cap-drop'', ''--security-opt'', ''--read-only'', ''--rm'',
         ''--memory'', ''--memory-swap'', ''--pids-limit'', ''--cpus'', ''--ulimit'', ''-e'', ''--tmpfs'', ''--mount'', ''--workdir'',
         ''--name'', ''--label'']"
      using k by (rule subset_trans) (auto simp: SWITCHES_def VALUE_OPTIONS_def)
  qed (simp_all only: o m hard_options_def first_env_def option_values_append option_values_Cons option_values_Nil option_values_map
        option_values_if Let_def fst_conv snd_conv, simp_all)
qed

definition demo_engine :: engine_spec where
  "demo_engine = \<lparr>es_image = ''blastbox/eng:1'', es_argv = [''run''], es_allowed = None, es_reserved = [''JAVA_OPTS''],
     es_defaults = [(''DEPTH'', ''2'')], es_net_policy = ''none'', es_runtimes = None\<rparr>"

definition demo_host :: launch_host where
  "demo_host = \<lparr>lh_env = Map.empty, lh_worker_profile = True, lh_profiles = Some []\<rparr>"

definition demo_runsc :: runtime where
  "demo_runsc = \<lparr>rt_name = ''runsc'', rt_secure = True, rt_warnings = []\<rparr>"

definition demo_plan :: net_plan where
  "demo_plan = \<lparr>np_args = docker_network_args NONE, np_labels = worker_labels ''a1'' False NONE,
     np_resolv = worker_resolv_conf (\<lambda>_. None) NONE, np_env = net_env NONE\<rparr>"

lemma demo_planned: "net_plan_of (\<lambda>_. None) (rt_name demo_runsc) ''a1'' False NONE = Inr demo_plan"
  by (simp add: net_plan_of_def demo_plan_def needs_netns_wiring_def net_refusal_def routed_via_gateway_def wants_egress_filter_def
      declares_ports_def blocks_internal_def config_get_def inspect_routes_via_gateway_def NONE_def words_kept on_word_def)

definition demo_job :: job where "demo_job = Job_new ''a1'' ''eng'' ''doc.pdf'' 10"

theorem worker_launch_confined_witness:
  "\<exists>ws opts cmd. fst (build_worker_docker_run_argv demo_host demo_runsc
       (cold_run (\<lambda>_. []) demo_engine demo_job demo_plan NONE ''/jobs/a1'' [])) = ''docker'' # ''run'' # ws
     \<and> read_run ws = Some (opts, ''blastbox/eng:1'' # cmd) \<and> option_values ''--cap-drop'' opts = [''ALL'']
     \<and> option_values ''--runtime'' opts = [''runsc''] \<and> option_values ''--network'' opts = [''none'']
     \<and> option_values ''--name'' opts = [''blastbox-worker-a1'']"
proof -
  have e: "es_image demo_engine = ''blastbox/eng:1''" by (simp add: demo_engine_def)
  have j: "job_id demo_job = ''a1''" by (simp add: demo_job_def Job_new_def)
  have p: "net_plan_of (\<lambda>_. None) (rt_name demo_runsc) (job_id demo_job) False NONE = Inr demo_plan"
    using demo_planned j by simp
  have i: "es_image demo_engine \<noteq> []" "\<not> startswith (es_image demo_engine) ''-''" by (simp_all add: e startswith_def)
  have n: "\<not> has_egress NONE" by (simp add: has_egress_def NONE_def)
  from worker_launch_confined [OF p i, of demo_host "\<lambda>_. []" "''/jobs/a1''" "[]"]
  obtain ws opts where o: "fst (build_worker_docker_run_argv demo_host demo_runsc
       (cold_run (\<lambda>_. []) demo_engine demo_job demo_plan NONE ''/jobs/a1'' [])) = ''docker'' # ''run'' # ws"
    "read_run ws = Some (opts, es_image demo_engine # launch_command demo_host demo_runsc
       (cold_run (\<lambda>_. []) demo_engine demo_job demo_plan NONE ''/jobs/a1'' []))"
    "option_values ''--runtime'' opts = [rt_name demo_runsc]" "option_values ''--network'' opts = [network_of NONE]"
    "\<not> has_egress NONE \<longrightarrow> network_of NONE = ''none''" "option_values ''--cap-drop'' opts = [''ALL'']"
    "option_values ''--name'' opts = [''blastbox-worker-'' @ take 12 (job_id demo_job)]"
    by (elim exE conjE) (rule that)
  have v: "option_values ''--runtime'' opts = [''runsc'']" "option_values ''--network'' opts = [''none'']"
    "option_values ''--name'' opts = [''blastbox-worker-a1'']"
    using o(3-5,7) n by (simp_all add: demo_runsc_def j)
  show ?thesis
    by (rule exI [of _ ws], rule exI [of _ opts], rule exI, intro conjI, rule o(1), rule o(2) [unfolded e],
        rule o(6), rule v(1), rule v(2), rule v(3))
qed

end
