(* ===== verification/Worker_Env.thy ===== *)
theory Worker_Env
  imports Worker_Launch
begin

text \<open>
  What of a client's parameters reaches the environment of a cold worker's container, and what does
  not: the command line of \<open>Worker_Launch\<close> is read as docker reads it.
\<close>

section \<open>What reaches the container's environment\<close>

lemma fold_update_map: "map_of (fold (\<lambda>(k, v). AList.update k v) kvs m) = map_of m ++ map_of (rev kvs)"
proof (induction kvs arbitrary: m)
  case (Cons kv kvs)
  obtain k v where kv: "kv = (k, v)" by fastforce
  have "map_of (AList.update k v m) ++ map_of (rev kvs) = map_of m ++ map_of (rev (kv # kvs))"
    by (rule ext) (simp add: kv update_conv map_add_def split: option.split)
  then show ?case using Cons.IH kv by simp
qed simp

lemma fold_update_distinct: "distinct (map fst m) \<Longrightarrow> distinct (map fst (fold (\<lambda>(k, v). AList.update k v) kvs m))"
  by (induction kvs arbitrary: m) (auto simp: distinct_update)

lemma map_of_mapped: "map_of (map (\<lambda>(k, v). (k, f v)) xs) k = map_option f (map_of xs k)"
  by (induction xs) auto

lemma map_of_filter_key: "map_of (filter (\<lambda>(k, v). P k) xs) k = (if P k then map_of xs k else None)"
  by (induction xs) auto

lemma sanitized:
  "map_of (sanitize_params render ps allowed reserved defaults) k =
     (if keep_param allowed reserved k
      then map_option (\<lambda>v. take MAX_ENV_VALUE_LEN (param_text render v)) ((map_of (map (apsnd JStr) defaults) ++ map_of (rev ps)) k)
      else None)"
  by (simp add: sanitize_params_def Let_def map_of_mapped map_of_filter_key fold_update_map)

text \<open>The variables of a container: the last word for a name counts.\<close>

definition container_env :: "(string \<times> string) list \<Rightarrow> string \<Rightarrow> string option" where
  "container_env opts = map_of (rev (map (\<lambda>o'. partition_eq (snd o')) (filter (\<lambda>o'. fst o' = ''-e'') opts)))"

lemma partition_eq_key: "CHR ''='' \<notin> set k \<Longrightarrow> partition_eq (k @ CHR ''='' # v) = (k, v)"
  using takeWhile_stop [of "CHR ''=''" k v] dropWhile_stop [of "CHR ''=''" k v] by (simp add: partition_eq_def)

definition platform_env :: "personality \<Rightarrow> (string \<times> string) list \<Rightarrow> (string \<times> string) list" where
  "platform_env p proxy_env = [(''BLASTBOX_INPUT_DIR'', ''/input''), (''BLASTBOX_OUTPUT_DIR'', ''/output'')] @ net_env p @ proxy_env"

definition plain_keys :: "(string \<times> string) list \<Rightarrow> bool" where
  "plain_keys kvs \<longleftrightarrow> (\<forall>(k, v) \<in> set kvs. CHR ''='' \<notin> set k)"

lemma valid_key_plain: "valid_env_key k \<Longrightarrow> CHR ''='' \<notin> set k"
  by (cases k) (auto simp: valid_env_key_def list_all_iff char_between_def digit_c_def)

lemma plain_update: "CHR ''='' \<notin> set k \<Longrightarrow> plain_keys m \<Longrightarrow> plain_keys (AList.update k v m)"
  by (induction m) (auto simp: plain_keys_def)

lemma plain_fold: "plain_keys kvs \<Longrightarrow> plain_keys m \<Longrightarrow> plain_keys (fold (\<lambda>(k, v). AList.update k v) kvs m)"
proof (induction kvs arbitrary: m)
  case (Cons kv kvs)
  obtain k v where kv: "kv = (k, v)" by fastforce
  have c: "CHR ''='' \<notin> set k" "plain_keys kvs" using Cons.prems(1) by (simp_all add: plain_keys_def kv)
  have "plain_keys (AList.update k v m)" by (rule plain_update [OF c(1) Cons.prems(2)])
  from Cons.IH [OF c(2) this] show ?case by (simp add: kv)
qed simp

lemma sanitized_ok:
  "plain_keys (sanitize_params render ps al rs df)"
  "distinct (map fst df) \<Longrightarrow> distinct (map fst (sanitize_params render ps al rs df))"
proof -
  show "plain_keys (sanitize_params render ps al rs df)"
    using valid_key_plain by (fastforce simp: plain_keys_def sanitize_params_def Let_def keep_param_def)
  assume d: "distinct (map fst df)"
  let ?m = "fold (\<lambda>(k, v). AList.update k v) ps (map (apsnd JStr) df)"
  have "distinct (map fst (map (apsnd JStr) df))" using d by (simp add: comp_def)
  then have m: "distinct (map fst ?m)" by (rule fold_update_distinct)
  have f: "map fst (map (\<lambda>(k, v). (k, f v)) xs) = map fst xs" for f :: "json \<Rightarrow> string" and xs :: "(string \<times> json) list"
    by (induction xs) auto
  show "distinct (map fst (sanitize_params render ps al rs df))"
    unfolding sanitize_params_def Let_def f using m by (rule distinct_map_filter)
qed

lemma extra_env_eq: "extra_env render es ps p px = fold (\<lambda>(k, v). AList.update k v) (platform_env p px)
    (sanitize_params render ps (es_allowed es) (es_reserved es) (es_defaults es))"
  by (simp add: extra_env_def platform_env_def)

lemma platform_plain: "plain_keys px \<Longrightarrow> plain_keys (platform_env p px)"
  by (auto simp: platform_env_def plain_keys_def net_env_def)

text \<open>What an environment built this way gives a name.\<close>

lemma launched_env:
  assumes "plain_keys px" "distinct (map fst (es_defaults es))" "wr_env w = extra_env render es ps p px"
  shows "container_env (launch_options h rt w net) k =
      (map_of (rev (map partition_eq (first_env rt @ observed_env h)))
       ++ map_of (sanitize_params render ps (es_allowed es) (es_reserved es) (es_defaults es))
       ++ map_of (rev (platform_env p px))) k"
proof -
  let ?e = "extra_env render es ps p px"
  have pk: "plain_keys ?e" unfolding extra_env_eq by (intro plain_fold platform_plain sanitized_ok assms(1))
  have dk: "distinct (map fst ?e)" unfolding extra_env_eq by (intro fold_update_distinct sanitized_ok assms(2))
  have words: "map (\<lambda>o'. partition_eq (snd o')) (map (\<lambda>(k, v). (''-e'', k @ ''='' @ v)) kvs) = kvs" if "plain_keys kvs" for kvs
    using that by (induction kvs) (auto simp: plain_keys_def partition_eq_key)
  have ev: "filter (\<lambda>o'. fst o' = ''-e'') (launch_options h rt w net) =
      map (Pair ''-e'') (first_env rt @ observed_env h) @ map (\<lambda>(k, v). (''-e'', k @ ''='' @ v)) ?e"
    by (simp add: launch_options_def fixed_options_def profile_options_def hard_options_def name_options_def assms(3)
        filter_map comp_def split_beta Let_def first_env_def mount_values_def split: option.split)
  have "container_env (launch_options h rt w net) = map_of (rev (map partition_eq (first_env rt @ observed_env h) @ ?e))"
    unfolding container_env_def ev map_append words [OF pk] by (simp add: comp_def)
  then have c: "container_env (launch_options h rt w net) =
      map_of (rev (map partition_eq (first_env rt @ observed_env h))) ++ map_of (rev ?e)" by simp
  have "map_of (rev ?e) = map_of ?e" using dk map_of_inject_set [of "rev ?e" ?e] by (simp add: rev_map [symmetric])
  then show ?thesis unfolding c extra_env_eq fold_update_map by simp
qed

section \<open>Properties\<close>

text \<open>
  a client reaches only the variables it may set.  Two jobs that differ in nothing but their
  parameters give every reserved name (the platform's, the loader's, the interpreter's, the engine's own)
  and every name outside the engine's allowlist the same value in the container, or none; a parameter
  the gate passes arrives with its value cut to 4096 characters, unless the platform sets that name.
\<close>

theorem params_reach_allowed_only:
  assumes "plain_keys px" and "distinct (map fst (es_defaults es))"
  shows "(\<not> keep_param (es_allowed es) (es_reserved es) k \<longrightarrow>
      container_env (launch_options h rt (cold_run render es j np p dir px) net) k =
      container_env (launch_options h rt (cold_run render es (j\<lparr>params := ps\<rparr>) np p dir px) net) k)
    \<and> (keep_param (es_allowed es) (es_reserved es) k \<and> map_of (platform_env p px) k = None
        \<and> map_of (rev (params j)) k = Some v \<longrightarrow>
      container_env (launch_options h rt (cold_run render es j np p dir px) net) k = Some (take 4096 (param_text render v)))"
proof -
  have w: "wr_env (cold_run render es j' np p dir px) = extra_env render es (params j') p px" for j'
    by (simp add: cold_run_def)
  note env = launched_env [OF assms w]
  have r: "map_of (rev xs) k = None" if "map_of xs k = None" for xs :: "(string \<times> string) list"
    using that by (simp add: map_of_eq_None_iff)
  show ?thesis by (auto simp: env sanitized map_add_def r MAX_ENV_VALUE_LEN_def split: option.split)
qed

text \<open>The loader path of a client stays out; an allowed parameter arrives.\<close>

theorem params_reach_allowed_only_witness:
  "container_env (launch_options demo_host demo_runsc (cold_run (\<lambda>_. []) demo_engine
       (demo_job\<lparr>params := [(''LD_PRELOAD'', JStr ''/tmp/x.so''), (''DEPTH'', JStr ''3'')]\<rparr>) demo_plan NONE ''/jobs/a1'' []) ''none'') ''LD_PRELOAD'' =
   container_env (launch_options demo_host demo_runsc (cold_run (\<lambda>_. []) demo_engine
       (demo_job\<lparr>params := []\<rparr>) demo_plan NONE ''/jobs/a1'' []) ''none'') ''LD_PRELOAD''
   \<and> container_env (launch_options demo_host demo_runsc (cold_run (\<lambda>_. []) demo_engine
       (demo_job\<lparr>params := [(''LD_PRELOAD'', JStr ''/tmp/x.so''), (''DEPTH'', JStr ''3'')]\<rparr>) demo_plan NONE ''/jobs/a1'' []) ''none'') ''DEPTH'' = Some ''3''"
proof -
  let ?ps = "[(''LD_PRELOAD'', JStr ''/tmp/x.so''), (''DEPTH'', JStr ''3'')]"
  have px: "plain_keys []" "distinct (map fst (es_defaults demo_engine))" by (simp_all add: plain_keys_def demo_engine_def)
  have ld: "\<not> keep_param (es_allowed demo_engine) (es_reserved demo_engine) ''LD_PRELOAD''"
    by (simp add: keep_param_def is_reserved_env_key_def RESERVED_ENV_PREFIXES_def startswith_def)
  have dp: "valid_env_key ''DEPTH''" by code_simp
  have depth: "keep_param (es_allowed demo_engine) (es_reserved demo_engine) ''DEPTH''"
    using dp by (simp add: keep_param_def is_reserved_env_key_def RESERVED_ENV_PREFIXES_def RESERVED_ENV_KEYS_def startswith_def demo_engine_def)
  have pl: "map_of (platform_env NONE []) ''DEPTH'' = None" by (simp add: platform_env_def net_env_def)
  show ?thesis
    using params_reach_allowed_only [OF px, of "''LD_PRELOAD''" demo_host demo_runsc "\<lambda>_. []" "demo_job\<lparr>params := ?ps\<rparr>"
          demo_plan NONE "''/jobs/a1''" "''none''" "[]" "JNull"]
      params_reach_allowed_only [OF px, of "''DEPTH''" demo_host demo_runsc "\<lambda>_. []" "demo_job\<lparr>params := ?ps\<rparr>"
          demo_plan NONE "''/jobs/a1''" "''none''" "[]" "JStr ''3''"] ld depth pl
    by (simp add: param_text_def)
qed



end
