(* ===== verification/Dispatch_Steps.thy ===== *)
theory Dispatch_Steps
  imports Dispatch_Recovery Output_Trust Dispatch_Backoff Placement Concurrency_Gate Worker_Launch
begin

text \<open>
  What the two ways of running a claimed job in \<^verbatim>\<open>host/dispatch.py\<close> share: the access to the job
  store, making the sample available, the check that the claim is still ours, the upload, and the
  terminal writes.  The store is any store with a step function; \<open>dp_foreign\<close> lists what other
  clients do before each access.  Everything a run does is appended to \<open>dp_trace\<close>.
\<close>

section \<open>A run\<close>

datatype devent =
    Wrote store_op outcome
  | Looked string "job option option"
  | Staged
  | GoSent
  | Launched runtime worker_run
  | Published
  | Uploaded bool
  | Reaped
  | MarkedPending
  | ClearedPending
  | InputDeleted
  | Indexed
  | SlotReleased bool "string option" "string option"
  | SlotClaimed bool
  | ReservationReleased
  | PermitTaken
  | PermitReleased
  | OrphanKept string
  | Purged bool
  | Deleted bool

text \<open>The state of a dispatcher: the store and what others will do to it, the jobs whose upload
  failed, the refusals by the egress gate and by the grants gate, the self-check's memory, the
  reserved warm slots, the gate on cold workers, the containers not confirmed gone, and the trace.\<close>

record 's disp =
  dp_store :: 's
  dp_foreign :: "store_op list list"
  dp_failed_uploads :: "string set"
  dp_egress :: grants_defer
  dp_grants :: grants_defer
  dp_self :: self_grants
  dp_reserved :: nat
  dp_gate :: "gate option"
  dp_orphans :: "(string \<times> string \<times> string option) list"
  dp_trace :: "devent list"

definition emit :: "devent \<Rightarrow> 's disp \<Rightarrow> 's disp" where
  "emit e d = d\<lparr>dp_trace := dp_trace d @ [e]\<rparr>"

text \<open>One access: first the others, then the operation.\<close>

definition others :: "(store_op \<Rightarrow> 's \<Rightarrow> outcome \<times> 's) \<Rightarrow> 's disp \<Rightarrow> 's disp" where
  "others step d =
     (case dp_foreign d of [] \<Rightarrow> d
      | ops # rest \<Rightarrow> d\<lparr>dp_store := run_ops step ops (dp_store d), dp_foreign := rest\<rparr>)"

definition submit :: "(store_op \<Rightarrow> 's \<Rightarrow> outcome \<times> 's) \<Rightarrow> store_op \<Rightarrow> 's disp \<Rightarrow> outcome \<times> 's disp" where
  "submit step op d =
     (let d1 = others step d; (out, s') = step op (dp_store d1)
      in (out, emit (Wrote op out) (d1\<lparr>dp_store := s'\<rparr>)))"

definition cas :: "(store_op \<Rightarrow> 's \<Rightarrow> outcome \<times> 's) \<Rightarrow> job \<Rightarrow> field_upd list \<Rightarrow> 's disp \<Rightarrow> bool \<times> 's disp" where
  "cas step j fs d =
     (let (out, d1) = submit step (OpCas (job_id j) RUNNING (claim_id j) fs) d in (out = OBool True, d1))"

text \<open>A lookup; the answer is \<^const>\<open>None\<close> when the store could not be asked.\<close>

definition look ::
  "(store_op \<Rightarrow> 's \<Rightarrow> outcome \<times> 's) \<Rightarrow> (string \<Rightarrow> 's \<Rightarrow> job option) \<Rightarrow> bool \<Rightarrow> string \<Rightarrow> 's disp
     \<Rightarrow> job option option \<times> 's disp" where
  "look step get up k d =
     (let d1 = others step d; r = (if up then Some (get k (dp_store d1)) else None)
      in (r, emit (Looked k r) d1))"

text \<open>A run's trace grows; some of its events have a property.\<close>

definition grows :: "(devent \<Rightarrow> bool) \<Rightarrow> 's disp \<Rightarrow> 's disp \<Rightarrow> bool" where
  "grows P d d' \<longleftrightarrow> (\<exists>es. dp_trace d' = dp_trace d @ es \<and> list_all P es)"

lemma grows_refl [simp]: "grows P d d"
  by (simp add: grows_def)

lemma grows_trans: "grows P d d1 \<Longrightarrow> grows P d1 d2 \<Longrightarrow> grows P d d2"
  by (fastforce simp: grows_def)

lemma grows_mono: "grows P d d' \<Longrightarrow> (\<And>e. P e \<Longrightarrow> Q e) \<Longrightarrow> grows Q d d'"
  unfolding grows_def by (elim exE conjE, rule exI, erule conjI, erule list.pred_mono_strong, blast)

lemma grows_emit: "grows P d d1 \<Longrightarrow> P e \<Longrightarrow> grows P d (emit e d1)"
  by (auto simp: grows_def emit_def)

lemma others_trace [simp]: "dp_trace (others step d) = dp_trace d"
  by (simp add: others_def split: list.split)

lemma submit_trace: "submit step op d = (out, d') \<Longrightarrow> dp_trace d' = dp_trace d @ [Wrote op out]"
  by (auto simp: submit_def emit_def Let_def split_beta)

lemma look_trace: "look step get up k d = (r, d') \<Longrightarrow> dp_trace d' = dp_trace d @ [Looked k r]"
  by (auto simp: look_def emit_def Let_def)

section \<open>Shared operations\<close>

text \<open>The constants of a dispatcher and the clock readings of a run.\<close>

record disp_cfg =
  dc_engines :: "(string \<times> engine_spec) list"
  dc_registry :: "(string \<times> personality) list"
  dc_allow_net_override :: bool
  dc_net_capture :: bool
  dc_host :: launch_host
  dc_render :: "json \<Rightarrow> string"
  dc_job_dir :: "string \<Rightarrow> string"
  dc_retention :: real
  dc_blob_backoff :: real
  dc_san :: "string \<Rightarrow> string"
  dc_tier :: string
  dc_requeue_backoff :: real
  dc_defer_cap :: real
  dc_shared_defer :: real

definition MAX_MATERIALISE_ATTEMPTS :: nat where "MAX_MATERIALISE_ATTEMPTS = 3"

definition write_failed ::
  "(store_op \<Rightarrow> 's \<Rightarrow> outcome \<times> 's) \<Rightarrow> disp_cfg \<Rightarrow> real \<Rightarrow> job \<Rightarrow> string \<Rightarrow> 's disp \<Rightarrow> bool \<times> 's disp" where
  "write_failed step c now j reason d =
     (let (out, d1) = submit step (fail_job (dc_san c) (dc_retention c) now reason j) d in (out = OBool True, d1))"

datatype sample = Present | NoHash | Fetched | FetchFailed

definition materialise_sample ::
  "(store_op \<Rightarrow> 's \<Rightarrow> outcome \<times> 's) \<Rightarrow> disp_cfg \<Rightarrow> real \<Rightarrow> job \<Rightarrow> sample \<Rightarrow> 's disp \<Rightarrow> bool \<times> 's disp" where
  "materialise_sample step c now j smp d =
     (case smp of
        Present \<Rightarrow> (True, d)
      | NoHash \<Rightarrow> (False, snd (write_failed step c now j ''spooled input missing'' d))
      | FetchFailed \<Rightarrow>
          (let n = materialise_attempts j + 1
           in (False, emit InputDeleted (snd (cas step j
                (if int MAX_MATERIALISE_ATTEMPTS \<le> n then
                   [FStatus FAILED, FFinishedAt (Some now), FError (Some (dc_san c ''sample could not be materialised'')),
                    FMaterialiseAttempts n, FExpiresAt (expires_after (dc_retention c) now)]
                 else
                   [FStatus QUEUED, FClaimId None, FWorkerRuntime None, FWorkerTier None,
                    FClaimableAfter (Some (now + dc_blob_backoff c)), FMaterialiseAttempts n]) d))))
      | Fetched \<Rightarrow>
          (True, if materialise_attempts j = 0 then d else snd (cas step j [FMaterialiseAttempts 0] d)))"

definition claim_is_still_ours ::
  "(store_op \<Rightarrow> 's \<Rightarrow> outcome \<times> 's) \<Rightarrow> (string \<Rightarrow> 's \<Rightarrow> job option) \<Rightarrow> bool \<Rightarrow> job \<Rightarrow> 's disp \<Rightarrow> bool \<times> 's disp" where
  "claim_is_still_ours step get up j d =
     (case look step get up (job_id j) d of (r, d1) \<Rightarrow>
        (case r of Some (Some cur) \<Rightarrow> (status cur = RUNNING \<and> claim_id cur = claim_id j, d1) | _ \<Rightarrow> (False, d1)))"

text \<open>\<open>_upload_output\<close>: the retries are one answer; \<open>reap_up\<close> is whether the store answers the check
  before the partial result is reaped.\<close>

definition upload_output ::
  "(store_op \<Rightarrow> 's \<Rightarrow> outcome \<times> 's) \<Rightarrow> (string \<Rightarrow> 's \<Rightarrow> job option) \<Rightarrow> bool \<Rightarrow> bool \<Rightarrow> bool \<Rightarrow> job \<Rightarrow> 's disp
     \<Rightarrow> bool \<times> 's disp" where
  "upload_output step get sealed stored reap_up j d =
     (let d1 = (if sealed then emit (Uploaded stored) d else d)
      in if sealed \<and> stored then (True, d1)
         else case claim_is_still_ours step get reap_up j d1 of (ours, d2) \<Rightarrow>
           (False, if ours then emit Reaped d2 else d2))"

definition retain_for_upload_retry ::
  "(store_op \<Rightarrow> 's \<Rightarrow> outcome \<times> 's) \<Rightarrow> disp_cfg \<Rightarrow> real \<Rightarrow> job \<Rightarrow> string \<Rightarrow> 's disp \<Rightarrow> 's disp" where
  "retain_for_upload_retry step c now j reason d =
     (case write_failed step c now j reason (emit MarkedPending d) of (won, d1) \<Rightarrow>
        if won then d1 else emit ClearedPending d1)"

definition done_fields :: "disp_cfg \<Rightarrow> real \<Rightarrow> json \<Rightarrow> field_upd list" where
  "done_fields c now summary =
     [FStatus DONE, FFinishedAt (Some now), FExpiresAt (expires_after (dc_retention c) now), FSummary summary, FError None]"

text \<open>How both ways of running a job end once the output is judged: the claim is checked, the result
  uploaded, DONE written under the claim and the pages indexed.  The result tells whether the write of
  DONE went through.\<close>

record final_seams =
  fs_claim_up :: bool
  fs_sealed :: bool
  fs_stored :: bool
  fs_reap_up :: bool
  fs_now :: real
  fs_done_at :: real
  fs_summary :: "envelope \<Rightarrow> json"

definition finish ::
  "(store_op \<Rightarrow> 's \<Rightarrow> outcome \<times> 's) \<Rightarrow> (string \<Rightarrow> 's \<Rightarrow> job option) \<Rightarrow> disp_cfg \<Rightarrow> job
     \<Rightarrow> 'a final_seams_scheme \<Rightarrow> envelope \<Rightarrow> 's disp \<Rightarrow> bool \<times> 's disp" where
  "finish step get c j fs env d =
     (case claim_is_still_ours step get (fs_claim_up fs) j d of (ours, d1) \<Rightarrow>
        if \<not> ours then (False, d1)
        else case upload_output step get (fs_sealed fs) (fs_stored fs) (fs_reap_up fs) j d1 of (up, d2) \<Rightarrow>
          if \<not> up then
            (False, retain_for_upload_retry step c (fs_now fs) j ''result upload failed''
               (d2\<lparr>dp_failed_uploads := insert (job_id j) (dp_failed_uploads d2)\<rparr>))
          else case cas step j (done_fields c (fs_done_at fs) (fs_summary fs env)) d2 of (applied, d3) \<Rightarrow>
            if applied then (True, emit Indexed d3) else (False, d3))"

section \<open>What the shared operations do to the trace\<close>

fun sets_done :: "field_upd \<Rightarrow> bool" where
  "sets_done (FStatus st) = (st = DONE)"
| "sets_done _ = False"

text \<open>An attempt to write DONE.\<close>

fun done_write :: "devent \<Rightarrow> bool" where
  "done_write (Wrote (OpCas k st c fs) out) = list_ex sets_done fs"
| "done_write (Wrote (OpUpdate k fs) out) = list_ex sets_done fs"
| "done_write (Wrote (OpCreate j) out) = (status j = DONE)"
| "done_write _ = False"

fun is_release :: "devent \<Rightarrow> bool" where
  "is_release (SlotReleased dirty fault stage) = True"
| "is_release _ = False"

fun is_launch :: "devent \<Rightarrow> bool" where
  "is_launch (Launched rt w) = True"
| "is_launch _ = False"

abbreviation quiet :: "devent \<Rightarrow> bool" where "quiet e \<equiv> \<not> done_write e \<and> \<not> is_release e \<and> \<not> is_launch e"

lemma cas_trace:
  "cas step j fs d = (b, d') \<Longrightarrow>
   \<exists>out. dp_trace d' = dp_trace d @ [Wrote (OpCas (job_id j) RUNNING (claim_id j) fs) out] \<and> b = (out = OBool True)"
  by (auto simp: cas_def split: prod.splits dest!: submit_trace)

lemma cas_grows: "cas step j fs d = (b, d') \<Longrightarrow> \<not> list_ex sets_done fs \<Longrightarrow> grows quiet d d'"
  by (auto simp: grows_def dest!: cas_trace)

lemma write_failed_trace:
  "write_failed step c now j reason d = (b, d') \<Longrightarrow>
   \<exists>out. dp_trace d' = dp_trace d @ [Wrote (fail_job (dc_san c) (dc_retention c) now reason j) out] \<and> b = (out = OBool True)"
  by (auto simp: write_failed_def split: prod.splits dest!: submit_trace)

lemma write_failed_grows: "write_failed step c now j reason d = (b, d') \<Longrightarrow> grows quiet d d'"
  by (auto simp: grows_def fail_job_def fail_fields_def dest!: write_failed_trace)

lemma write_failed_quiet: "grows quiet d (snd (write_failed step c now j reason d))"
  by (rule write_failed_grows [OF prod.collapse [symmetric]])

lemma cas_quiet: "\<not> list_ex sets_done fs \<Longrightarrow> grows quiet d (snd (cas step j fs d))"
  by (rule cas_grows [OF prod.collapse [symmetric]])

lemma materialise_quiet: "grows quiet d (snd (materialise_sample step c now j smp d))"
  by (cases smp) (auto simp: materialise_sample_def Let_def write_failed_quiet cas_quiet intro!: grows_emit)

lemma claim_check_quiet: "grows quiet d (snd (claim_is_still_ours step get up j d))"
proof -
  obtain r d1 where l: "look step get up (job_id j) d = (r, d1)" by fastforce
  have "grows quiet d d1" using look_trace [OF l] by (simp add: grows_def)
  then show ?thesis by (auto simp: claim_is_still_ours_def l split: option.split)
qed

lemma upload_output_cases:
  assumes "upload_output step get sealed stored reap_up j d = (b, d')"
  shows "grows quiet d d' \<and> b = (sealed \<and> stored) \<and> (b \<longrightarrow> dp_trace d' = dp_trace d @ [Uploaded True])"
proof -
  let ?d1 = "if sealed then emit (Uploaded stored) d else d"
  have q: "grows quiet d ?d1" by (auto intro!: grows_emit)
  obtain ours d2 where o: "claim_is_still_ours step get reap_up j ?d1 = (ours, d2)" by fastforce
  have q2: "grows quiet d d2" using q claim_check_quiet [of ?d1 step get reap_up j] o by (auto intro: grows_trans)
  show ?thesis
  proof (cases "sealed \<and> stored")
    case True
    then show ?thesis using assms q by (auto simp: upload_output_def emit_def)
  next
    case False
    have "upload_output step get sealed stored reap_up j d = (False, if ours then emit Reaped d2 else d2)"
      using False o by (auto simp: upload_output_def Let_def)
    then show ?thesis using assms False q2 by (auto intro!: grows_emit)
  qed
qed

lemma retain_quiet: "grows quiet d (retain_for_upload_retry step c now j reason d)"
proof -
  obtain won d1 where w: "write_failed step c now j reason (emit MarkedPending d) = (won, d1)" by fastforce
  have "grows quiet d (emit MarkedPending d)" by (auto intro!: grows_emit)
  then have "grows quiet d d1" using write_failed_grows [OF w] by (rule grows_trans)
  then show ?thesis by (auto simp: retain_for_upload_retry_def w intro!: grows_emit)
qed

definition done_op :: "disp_cfg \<Rightarrow> job \<Rightarrow> 'a final_seams_scheme \<Rightarrow> envelope \<Rightarrow> store_op" where
  "done_op c j fs env = OpCas (job_id j) RUNNING (claim_id j) (done_fields c (fs_done_at fs) (fs_summary fs env))"

text \<open>The lookup that showed a conditional write's own condition: the row was there, in the state and
  under the claim the write will ask for.\<close>

fun own_look :: "store_op \<Rightarrow> devent \<Rightarrow> bool" where
  "own_look (OpCas k st c fs) (Looked k' (Some (Some cur))) = (k' = k \<and> status cur = st \<and> claim_id cur = c)"
| "own_look _ _ = False"

lemma claim_check_own:
  assumes "claim_is_still_ours step get up j d = (True, d1)"
  shows "\<exists>l. dp_trace d1 = dp_trace d @ [l] \<and> own_look (OpCas (job_id j) RUNNING (claim_id j) fs) l"
proof -
  obtain r d2 where l: "look step get up (job_id j) d = (r, d2)" by fastforce
  from look_trace [OF l] show ?thesis using assms l
    by (auto simp: claim_is_still_ours_def split: option.splits)
qed

text \<open>What a run adds to the trace: no write of DONE, or one, of an envelope \<open>T\<close> allows, right after
  the claim was seen to be its own and the result was stored.\<close>

definition commits :: "(envelope \<Rightarrow> store_op \<Rightarrow> bool) \<Rightarrow> 's disp \<Rightarrow> bool \<times> 's disp \<Rightarrow> bool" where
  "commits T d r \<longleftrightarrow>
     grows quiet d (snd r) \<and> \<not> fst r
     \<or> (\<exists>env op pre l out. T env op \<and> list_all quiet pre \<and> own_look op l
          \<and> dp_trace (snd r) = dp_trace d @ (pre @ [l]) @ [Uploaded True, Wrote op out] @ (if out = OBool True then [Indexed] else [])
          \<and> fst r = (out = OBool True))"

lemma own_look_quiet: "own_look op l \<Longrightarrow> quiet l"
  by (auto elim: own_look.elims)

lemma commits_cases:
  assumes "commits T d r"
  obtains (stop) "grows quiet d (snd r)" "\<not> fst r"
    | (commit) env op pre out where "T env op" "list_all quiet pre" "fst r = (out = OBool True)"
        "dp_trace (snd r) = dp_trace d @ pre @ [Uploaded True, Wrote op out] @ (if out = OBool True then [Indexed] else [])"
        "pre \<noteq> []" "own_look op (last pre)"
proof -
  from assms consider (a) "grows quiet d (snd r)" "\<not> fst r"
    | (b) env op pre l out where "T env op" "list_all quiet pre" "own_look op l" "fst r = (out = OBool True)"
        "dp_trace (snd r) = dp_trace d @ (pre @ [l]) @ [Uploaded True, Wrote op out] @ (if out = OBool True then [Indexed] else [])"
    unfolding commits_def by blast
  then show thesis
  proof cases
    case a
    then show ?thesis by (rule stop)
  next
    case b
    from own_look_quiet [OF b(3)] b(2) have "list_all quiet (pre @ [l])" by simp
    from commit [of env op "pre @ [l]" out] this b show ?thesis by simp
  qed
qed

lemma commits_stop [simp]: "grows quiet d d' \<Longrightarrow> commits T d (False, d')"
  by (simp add: commits_def)

lemma commits_commit:
  assumes "T env op" "list_all quiet pre" "own_look op l" "fst r = (out = OBool True)"
    "dp_trace (snd r) = dp_trace d @ (pre @ [l]) @ [Uploaded True, Wrote op out] @ (if out = OBool True then [Indexed] else [])"
  shows "commits T d r"
  unfolding commits_def using assms by blast

lemma commits_prefix: "grows quiet d d1 \<Longrightarrow> commits T d1 r \<Longrightarrow> commits T d r"
proof -
  assume g: "grows quiet d d1" and e: "commits T d1 r"
  from e show ?thesis
  proof (cases rule: commits_cases)
    case stop
    then show ?thesis using grows_trans [OF g stop(1)] by (simp add: commits_def)
  next
    case (commit env op pre out)
    obtain es where es: "dp_trace d1 = dp_trace d @ es" "list_all quiet es" using g by (auto simp: grows_def)
    have "list_all quiet (es @ butlast pre)" using commit(2) es(2) by (auto simp: list_all_iff dest: in_set_butlastD)
    then show ?thesis using commit es(1)
      by (intro commits_commit [where T = T and env = env and op = op and pre = "es @ butlast pre" and l = "last pre" and out = out])
        simp_all
  qed
qed

lemma finish_commits:
  assumes T: "fs_sealed fs \<Longrightarrow> fs_stored fs \<Longrightarrow> T env (done_op c j fs env)"
  shows "commits T d (finish step get c j fs env d)"
proof -
  obtain ours d1 where o: "claim_is_still_ours step get (fs_claim_up fs) j d = (ours, d1)" by fastforce
  have g1: "grows quiet d d1" using claim_check_quiet [of d step get "fs_claim_up fs" j] o by simp
  obtain up d2 where u: "upload_output step get (fs_sealed fs) (fs_stored fs) (fs_reap_up fs) j d1 = (up, d2)" by fastforce
  note uc = upload_output_cases [OF u]
  obtain applied d3 where a: "cas step j (done_fields c (fs_done_at fs) (fs_summary fs env)) d2 = (applied, d3)" by fastforce
  obtain out where out: "dp_trace d3 = dp_trace d2 @ [Wrote (done_op c j fs env) out]" "applied = (out = OBool True)"
    using cas_trace [OF a] by (auto simp: done_op_def)
  show ?thesis
  proof (cases "ours \<and> up")
    case False
    let ?d2' = "d2\<lparr>dp_failed_uploads := insert (job_id j) (dp_failed_uploads d2)\<rparr>"
    let ?d4 = "retain_for_upload_retry step c (fs_now fs) j ''result upload failed'' ?d2'"
    have "grows quiet d1 ?d2'" using uc by (simp add: grows_def)
    then have "grows quiet d1 ?d4" using retain_quiet by (rule grows_trans)
    then have "grows quiet d ?d4" by (rule grows_trans [OF g1])
    then show ?thesis using False g1 o u by (auto simp: finish_def intro: commits_stop)
  next
    case True
    have "T env (done_op c j fs env)" using T True uc by simp
    moreover obtain l where l: "dp_trace d1 = dp_trace d @ [l]" "own_look (done_op c j fs env) l"
      using claim_check_own o True by (fastforce simp: done_op_def)
    moreover have "finish step get c j fs env d = (if applied then (True, emit Indexed d3) else (False, d3))"
      using True o u a by (simp add: finish_def)
    ultimately show ?thesis using out uc True
      by (intro commits_commit [where env = env and op = "done_op c j fs env" and pre = "[]" and l = l and out = out])
        (auto simp: emit_def)
  qed
qed

text \<open>So a write of DONE in a run is the one write of its envelope, after a look at its own claim and
  before the page index alone.\<close>

lemma commits_done:
  assumes "commits T d r" and "dp_trace (snd r) = dp_trace d @ es" and "e \<in> set es" and "done_write e"
  shows "\<exists>env op pre out post. T env op \<and> e = Wrote op out \<and> es = pre @ [Uploaded True, e] @ post
    \<and> list_all quiet (pre @ post) \<and> fst r = (out = OBool True)
    \<and> pre \<noteq> [] \<and> own_look op (last pre) \<and> set post \<subseteq> {Indexed}"
  using assms(1)
proof (cases rule: commits_cases)
  case stop
  then show ?thesis using assms(2-4) by (auto simp: grows_def list_all_iff)
next
  case (commit env op pre out)
  let ?post = "if out = OBool True then [Indexed] else []"
  have es: "es = pre @ [Uploaded True, Wrote op out] @ ?post" using commit(4) assms(2) by simp
  have np: "list_all quiet (pre @ ?post)" using commit(2) by simp
  have "e \<in> set (pre @ ?post) \<or> e = Uploaded True \<or> e = Wrote op out" using assms(3) es by auto
  then have "e = Wrote op out" using np assms(4) by (auto simp: list_all_iff)
  moreover have "set ?post \<subseteq> {Indexed}" by auto
  ultimately show ?thesis using commit(1,3,5,6) es np by blast
qed

text \<open>A write of an owner whose claim is spent is refused, whatever discreet clients do first.\<close>

definition patient :: "string \<Rightarrow> 's disp \<Rightarrow> bool" where
  "patient t d \<longleftrightarrow> list_all (list_all op_ok) (dp_foreign d) \<and> list_all (list_all (discreet t)) (dp_foreign d)"

lemma run_snoc: "run_ops step (ops @ [op]) s = snd (step op (run_ops step ops s))"
  by (induction ops arbitrary: s) simp_all

context job_store
begin

lemma stale_cas:
  assumes "inv (dp_store d)" "spent t (abs (dp_store d))" "patient t d" "claim_id j = Some t" "list_all field_ok fs"
  shows "\<exists>d'. submit step (OpCas (job_id j) RUNNING (claim_id j) fs) d = (OBool False, d')"
proof -
  obtain ops where ops: "dp_store (others step d) = run ops (dp_store d)" "list_all op_ok ops" "list_all (discreet t) ops"
  proof (cases "dp_foreign d")
    case Nil
    then show ?thesis using that [of "[]"] by (simp add: others_def)
  next
    case (Cons ops rest)
    then show ?thesis using that [of ops] assms(3) by (simp add: others_def patient_def)
  qed
  have "fst (step (OpCas (job_id j) RUNNING (Some t) fs) (run ops (dp_store d))) = OBool False"
    by (rule stale_owner(1) [OF assms(1,2) ops(2,3) assms(5)])
  then show ?thesis by (auto simp: submit_def Let_def split_beta assms(4) ops(1))
qed

text \<open>And the claim stays spent, whatever the refused write and the others did.\<close>

lemma stale_submit:
  assumes "inv (dp_store d)" "spent t (abs (dp_store d))" "patient t d" "claim_id j = Some t" "list_all field_ok fs"
    and "list_all (field_discreet t) fs"
    and s: "submit step (OpCas (job_id j) RUNNING (claim_id j) fs) d = (out, d')"
  shows "out = OBool False" "inv (dp_store d')" "spent t (abs (dp_store d'))" "patient t d'"
proof -
  show "out = OBool False" using stale_cas [OF assms(1-5)] s by auto
  let ?op = "OpCas (job_id j) RUNNING (claim_id j) fs"
  obtain ops where ops: "dp_store d' = run (ops @ [?op]) (dp_store d)" "list_all op_ok ops" "list_all (discreet t) ops"
    "patient t d'"
  proof (cases "dp_foreign d")
    case Nil
    then show ?thesis using that [of "[]"] s assms(3)
      by (auto simp: submit_def others_def Let_def split_beta emit_def patient_def)
  next
    case (Cons ops rest)
    then show ?thesis using that [of ops] s assms(3)
      by (auto simp: submit_def others_def Let_def split_beta emit_def patient_def run_snoc)
  qed
  have ok: "list_all op_ok (ops @ [?op])" "list_all (discreet t) (ops @ [?op])"
    using ops(2,3) assms(5,6) by simp_all
  show "inv (dp_store d')" unfolding ops(1) by (rule run_inv [OF assms(1) ok(1)])
  show "spent t (abs (dp_store d'))" unfolding ops(1) by (rule run_spent [OF assms(1) ok assms(2)])
  show "patient t d'" by (rule ops(4))
qed

end

end
