(* ===== verification/Dispatch_Warm.thy ===== *)
theory Dispatch_Warm
  imports Dispatch_Steps Pool_Health
begin

text \<open>
  \<open>_dispatch_warm\<close> of \<^verbatim>\<open>host/dispatch.py\<close>: one claimed job on one warm slot.  What the seams to the
  worker answer is a record; the verdict on the output is the one of \<open>Output_Trust\<close>.  Each stage ends
  the run or goes on to the next; the result is the fault the release will name, whether the run was
  clean, and whether an exception leaves the method.
\<close>

section \<open>Answers of the seams\<close>

datatype stage_answer = StagedOver | StageRaised bool | Copied | CopyFailed
datatype go_answer = GoOk | GoFailed bool bool "int option"
datatype wait_answer = WaitOk | WaitTimedOut bool | WaitRaised
datatype fetch_answer = NoSeam | FetchOk | FetchRaised bool bool bool
datatype check_answer = CheckOk | CheckConvicted | CheckUnknown | CheckRaised

record warm_seams = final_seams +
  ws_sample :: sample
  ws_stage :: stage_answer
  ws_go :: go_answer
  ws_late :: bool
  ws_wait :: wait_answer
  ws_fetch :: fetch_answer
  ws_size :: check_answer
  ws_verdict :: verdict
  ws_publish :: check_answer
  ws_started :: "bool option"
  ws_seal_at :: real

type_synonym wout = "string \<times> bool \<times> bool"

abbreviation stopped :: "string \<Rightarrow> wout" where "stopped f \<equiv> (f, False, False)"
abbreviation escaped :: "string \<Rightarrow> wout" where "escaped f \<equiv> (f, False, True)"

definition check_fault :: "check_answer \<Rightarrow> string" where
  "check_fault a = (if a = CheckConvicted then ''worker'' else ''unknown'')"

section \<open>The stages, last first\<close>

definition warm_fail ::
  "(store_op \<Rightarrow> 's \<Rightarrow> outcome \<times> 's) \<Rightarrow> disp_cfg \<Rightarrow> job \<Rightarrow> warm_seams \<Rightarrow> string \<Rightarrow> string \<Rightarrow> 's disp \<Rightarrow> wout \<times> 's disp" where
  "warm_fail step c j ws fault reason d = (stopped fault, snd (write_failed step c (fs_now ws) j reason d))"

definition warm_publish ::
  "(store_op \<Rightarrow> 's \<Rightarrow> outcome \<times> 's) \<Rightarrow> (string \<Rightarrow> 's \<Rightarrow> job option) \<Rightarrow> disp_cfg \<Rightarrow> job \<Rightarrow> warm_seams
     \<Rightarrow> envelope \<Rightarrow> 's disp \<Rightarrow> wout \<times> 's disp" where
  "warm_publish step get c j ws env d =
     (case ws_publish ws of
        CheckOk \<Rightarrow>
          (case finish step get c j ws env (emit Published d) of (clean, d1) \<Rightarrow>
             ((if clean then ''unknown'' else ''job'', clean, False), d1))
      | CheckRaised \<Rightarrow> (escaped ''unknown'', d)
      | a \<Rightarrow> warm_fail step c j ws (check_fault a) ''failed to materialize warm output'' d)"

definition warm_judge ::
  "(store_op \<Rightarrow> 's \<Rightarrow> outcome \<times> 's) \<Rightarrow> (string \<Rightarrow> 's \<Rightarrow> job option) \<Rightarrow> disp_cfg \<Rightarrow> job \<Rightarrow> warm_seams
     \<Rightarrow> 's disp \<Rightarrow> wout \<times> 's disp" where
  "warm_judge step get c j ws d =
     (case ws_verdict ws of
        Trusted env \<Rightarrow>
          if e_status env = EnvEngineError then warm_fail step c j ws ''job'' ''engine_error'' d
          else warm_publish step get c j ws env d
      | Convicted \<Rightarrow> warm_fail step c j ws ''worker'' ''output trust validation failed'' d
      | Unknown \<Rightarrow> warm_fail step c j ws ''unknown'' ''output trust validation failed'' d
      | Escaped \<Rightarrow> warm_fail step c j ws ''unknown'' ''unexpected trust validation error'' d)"

definition warm_size ::
  "(store_op \<Rightarrow> 's \<Rightarrow> outcome \<times> 's) \<Rightarrow> (string \<Rightarrow> 's \<Rightarrow> job option) \<Rightarrow> disp_cfg \<Rightarrow> job \<Rightarrow> warm_seams
     \<Rightarrow> 's disp \<Rightarrow> wout \<times> 's disp" where
  "warm_size step get c j ws d =
     (case ws_size ws of
        CheckOk \<Rightarrow> warm_judge step get c j ws d
      | CheckRaised \<Rightarrow> (escaped ''unknown'', d)
      | a \<Rightarrow> warm_fail step c j ws (check_fault a) ''warm output too large'' d)"

text \<open>The output is read back under a claim that was refreshed first.\<close>

definition fetch_fault :: "bool \<Rightarrow> bool \<Rightarrow> bool \<Rightarrow> string" where
  "fetch_fault host_io oserror guest_seam =
     (if host_io \<or> oserror \<and> \<not> guest_seam then ''unknown'' else ''worker'')"

definition warm_output ::
  "(store_op \<Rightarrow> 's \<Rightarrow> outcome \<times> 's) \<Rightarrow> (string \<Rightarrow> 's \<Rightarrow> job option) \<Rightarrow> disp_cfg \<Rightarrow> job \<Rightarrow> warm_seams
     \<Rightarrow> 's disp \<Rightarrow> wout \<times> 's disp" where
  "warm_output step get c j ws d =
     (case cas step j [FStartedAt (Some (ws_seal_at ws))] d of (ours, d1) \<Rightarrow>
        if \<not> ours then (stopped ''unknown'', d1)
        else case ws_fetch ws of
          FetchRaised host_io oserror guest_seam \<Rightarrow>
            warm_fail step c j ws (fetch_fault host_io oserror guest_seam) ''failed to read warm worker output'' d1
        | _ \<Rightarrow> warm_size step get c j ws d1)"

definition warm_wait ::
  "(store_op \<Rightarrow> 's \<Rightarrow> outcome \<times> 's) \<Rightarrow> (string \<Rightarrow> 's \<Rightarrow> job option) \<Rightarrow> disp_cfg \<Rightarrow> job \<Rightarrow> warm_seams
     \<Rightarrow> 's disp \<Rightarrow> wout \<times> 's disp" where
  "warm_wait step get c j ws d =
     (if ws_late ws then warm_fail step c j ws ''worker'' ''warm worker timed out'' d
      else case ws_wait ws of
        WaitOk \<Rightarrow> warm_output step get c j ws d
      | WaitTimedOut host_io \<Rightarrow>
          warm_fail step c j ws (if host_io then ''unknown'' else ''worker'') ''warm worker timed out'' d
      | WaitRaised \<Rightarrow> (escaped ''unknown'', d))"

definition go_fault :: "bool \<Rightarrow> bool \<Rightarrow> int option \<Rightarrow> string" where
  "go_fault transport host_io errno =
     (if transport \<and> \<not> host_io then ''worker''
      else case errno of
        None \<Rightarrow> ''unknown'' | Some e \<Rightarrow> if e \<in> set HOST_RESOURCE_ERRNOS then ''unknown'' else ''worker'')"

definition warm_go ::
  "(store_op \<Rightarrow> 's \<Rightarrow> outcome \<times> 's) \<Rightarrow> (string \<Rightarrow> 's \<Rightarrow> job option) \<Rightarrow> disp_cfg \<Rightarrow> job \<Rightarrow> warm_seams
     \<Rightarrow> 's disp \<Rightarrow> wout \<times> 's disp" where
  "warm_go step get c j ws d =
     (let d1 = emit GoSent d
      in case ws_go ws of
           GoOk \<Rightarrow> warm_wait step get c j ws d1
         | GoFailed transport host_io errno \<Rightarrow>
             warm_fail step c j ws (go_fault transport host_io errno) ''failed to signal go to warm worker'' d1)"

definition warm_stage ::
  "(store_op \<Rightarrow> 's \<Rightarrow> outcome \<times> 's) \<Rightarrow> (string \<Rightarrow> 's \<Rightarrow> job option) \<Rightarrow> disp_cfg \<Rightarrow> job \<Rightarrow> warm_seams
     \<Rightarrow> 's disp \<Rightarrow> wout \<times> 's disp" where
  "warm_stage step get c j ws d =
     (case ws_stage ws of
        StageRaised transport \<Rightarrow> (escaped (if transport then ''worker'' else ''unknown''), d)
      | CopyFailed \<Rightarrow> warm_fail step c j ws ''unknown'' ''failed to stage input to warm slot'' d
      | _ \<Rightarrow> warm_go step get c j ws (emit Staged d))"

definition warm_run ::
  "(store_op \<Rightarrow> 's \<Rightarrow> outcome \<times> 's) \<Rightarrow> (string \<Rightarrow> 's \<Rightarrow> job option) \<Rightarrow> disp_cfg \<Rightarrow> job \<Rightarrow> warm_seams
     \<Rightarrow> 's disp \<Rightarrow> wout \<times> 's disp" where
  "warm_run step get c j ws d =
     (if map_of (dc_engines c) (engine j) = None then warm_fail step c j ws ''unknown'' ''unknown engine'' d
      else case cas step j [FWorkerRuntime (Some ''warm''), FWorkerTier (Some (dc_tier c))] d of (ours, d1) \<Rightarrow>
        if \<not> ours then (stopped ''unknown'', d1)
        else case materialise_sample step c (fs_now ws) j (ws_sample ws) d1 of (have, d2) \<Rightarrow>
          if have then warm_stage step get c j ws d2 else (stopped ''unknown'', d2))"

text \<open>\<open>warm_fault_stage\<close>, and the release in the \<^verbatim>\<open>finally\<close>.\<close>

definition warm_fault_stage :: "bool \<Rightarrow> string \<Rightarrow> bool option \<Rightarrow> string option" where
  "warm_fault_stage clean fault started =
     (if clean \<or> fault \<noteq> ''worker'' then None else if started = Some False then Some ''pre_guest'' else None)"

definition dispatch_warm ::
  "(store_op \<Rightarrow> 's \<Rightarrow> outcome \<times> 's) \<Rightarrow> (string \<Rightarrow> 's \<Rightarrow> job option) \<Rightarrow> disp_cfg \<Rightarrow> job \<Rightarrow> warm_seams
     \<Rightarrow> 's disp \<Rightarrow> bool \<times> 's disp" where
  "dispatch_warm step get c j ws d =
     (case warm_run step get c j ws d of ((fault, clean, raised), d1) \<Rightarrow>
        (raised, emit (SlotReleased (\<not> clean) (if clean then None else Some fault)
                         (warm_fault_stage clean fault (ws_started ws))) d1))"

section \<open>How a run may end\<close>

text \<open>Stopped without a DONE, or committed: the output was judged trusted and sealed into the job's
  directory, the claim was still ours, the upload was stored, and only then DONE was written.\<close>

definition trusted_with :: "warm_seams \<Rightarrow> envelope \<Rightarrow> bool" where
  "trusted_with ws env \<longleftrightarrow> ws_verdict ws = Trusted env \<and> e_status env \<noteq> EnvEngineError \<and> ws_size ws = CheckOk
     \<and> ws_publish ws = CheckOk \<and> fs_sealed ws \<and> fs_stored ws"

definition warm_allows :: "disp_cfg \<Rightarrow> job \<Rightarrow> warm_seams \<Rightarrow> envelope \<Rightarrow> store_op \<Rightarrow> bool" where
  "warm_allows c j ws env op \<longleftrightarrow> trusted_with ws env \<and> op = done_op c j ws env"

abbreviation warm_ends :: "disp_cfg \<Rightarrow> job \<Rightarrow> warm_seams \<Rightarrow> 's disp \<Rightarrow> wout \<times> 's disp \<Rightarrow> bool" where
  "warm_ends c j ws d r \<equiv> commits (warm_allows c j ws) d (fst (snd (fst r)), snd r)"

lemma warm_ends_stop: "grows quiet d d' \<Longrightarrow> warm_ends c j ws d (stopped f, d')" "grows quiet d d' \<Longrightarrow> warm_ends c j ws d (escaped f, d')"
  by (simp_all add: commits_stop)

lemmas warm_ends_prefix = commits_prefix

lemma warm_fail_ends: "warm_ends c j ws d (warm_fail step c j ws f reason d)"
  unfolding warm_fail_def by (rule warm_ends_stop(1) [OF write_failed_quiet])

lemma warm_publish_ends:
  assumes "ws_verdict ws = Trusted env" "e_status env \<noteq> EnvEngineError" "ws_size ws = CheckOk"
  shows "warm_ends c j ws d (warm_publish step get c j ws env d)"
proof (cases "ws_publish ws")
  case CheckOk
  have g: "grows quiet d (emit Published d)" by (rule grows_emit) simp_all
  have "commits (warm_allows c j ws) (emit Published d) (finish step get c j ws env (emit Published d))"
    by (rule finish_commits) (simp add: warm_allows_def trusted_with_def assms CheckOk)
  then show ?thesis using commits_prefix [OF g] CheckOk by (simp add: warm_publish_def split_beta)
qed (simp_all add: warm_publish_def warm_fail_ends warm_ends_stop)

lemma warm_judge_ends: "ws_size ws = CheckOk \<Longrightarrow> warm_ends c j ws d (warm_judge step get c j ws d)"
  by (cases "ws_verdict ws") (auto simp: warm_judge_def warm_fail_ends warm_publish_ends)

lemma warm_size_ends: "warm_ends c j ws d (warm_size step get c j ws d)"
  by (cases "ws_size ws") (simp_all add: warm_size_def warm_fail_ends warm_judge_ends warm_ends_stop)

lemma warm_output_ends: "warm_ends c j ws d (warm_output step get c j ws d)"
proof -
  obtain ours d1 where o: "cas step j [FStartedAt (Some (ws_seal_at ws))] d = (ours, d1)" by fastforce
  have g: "grows quiet d d1" using o by (rule cas_grows) simp
  show ?thesis
    using warm_ends_stop [OF g] warm_ends_prefix [OF g warm_fail_ends] warm_ends_prefix [OF g warm_size_ends]
    by (auto simp: warm_output_def o split: fetch_answer.split)
qed

lemma warm_go_ends: "warm_ends c j ws d (warm_go step get c j ws d)"
proof -
  have w: "warm_ends c j ws x (warm_wait step get c j ws x)" for x
    by (auto simp: warm_wait_def warm_fail_ends warm_output_ends warm_ends_stop split: wait_answer.split)
  have g: "grows quiet d (emit GoSent d)" by (rule grows_emit) simp_all
  show ?thesis
    using warm_ends_prefix [OF g w] warm_ends_prefix [OF g warm_fail_ends]
    by (auto simp: warm_go_def Let_def split: go_answer.split)
qed

lemma warm_stage_ends: "warm_ends c j ws d (warm_stage step get c j ws d)"
proof -
  have g: "grows quiet d (emit Staged d)" by (rule grows_emit) simp_all
  show ?thesis
    using warm_ends_prefix [OF g warm_go_ends]
    by (auto simp: warm_stage_def warm_fail_ends warm_ends_stop split: stage_answer.split)
qed

lemma warm_run_ends: "warm_ends c j ws d (warm_run step get c j ws d)"
proof -
  obtain ours d1 where o: "cas step j [FWorkerRuntime (Some ''warm''), FWorkerTier (Some (dc_tier c))] d = (ours, d1)"
    by fastforce
  have g1: "grows quiet d d1" using o by (rule cas_grows) simp
  obtain have_it d2 where m: "materialise_sample step c (fs_now ws) j (ws_sample ws) d1 = (have_it, d2)" by fastforce
  have g2: "grows quiet d d2" using grows_trans [OF g1 materialise_quiet] m by (metis snd_conv)
  show ?thesis
    using warm_fail_ends warm_ends_stop [OF g1] warm_ends_stop [OF g2] warm_ends_prefix [OF g2 warm_stage_ends]
    by (auto simp: warm_run_def o m)
qed

text \<open>What counts as evidence against the worker.\<close>

definition worker_evidence :: "warm_seams \<Rightarrow> bool" where
  "worker_evidence ws \<longleftrightarrow>
     ws_stage ws = StageRaised True
     \<or> (\<exists>transport host_io errno. ws_go ws = GoFailed transport host_io errno \<and> go_fault transport host_io errno = ''worker'')
     \<or> ws_late ws \<or> ws_wait ws = WaitTimedOut False
     \<or> (\<exists>host_io oserror seam. ws_fetch ws = FetchRaised host_io oserror seam \<and> \<not> host_io \<and> (oserror \<longrightarrow> seam))
     \<or> ws_size ws = CheckConvicted \<or> ws_verdict ws = Convicted \<or> ws_publish ws = CheckConvicted"

lemma warm_fault_evidence: "fst (fst (warm_run step get c j ws d)) = ''worker'' \<Longrightarrow> worker_evidence ws"
proof -
  assume w: "fst (fst (warm_run step get c j ws d)) = ''worker''"
  have p: "fst (fst (warm_publish step get c j ws env x)) = ''worker'' \<Longrightarrow> worker_evidence ws" for env x
    by (cases "ws_publish ws") (auto simp: warm_publish_def warm_fail_def check_fault_def worker_evidence_def split_beta split: if_splits)
  have jd: "fst (fst (warm_judge step get c j ws x)) = ''worker'' \<Longrightarrow> worker_evidence ws" for x
    using p by (cases "ws_verdict ws") (auto simp: warm_judge_def warm_fail_def worker_evidence_def split: if_splits)
  have sz: "fst (fst (warm_size step get c j ws x)) = ''worker'' \<Longrightarrow> worker_evidence ws" for x
    using jd by (cases "ws_size ws") (simp_all add: warm_size_def warm_fail_def check_fault_def worker_evidence_def)
  have ot: "fst (fst (warm_output step get c j ws x)) = ''worker'' \<Longrightarrow> worker_evidence ws" for x
    using sz by (cases "ws_fetch ws")
      (auto simp: warm_output_def warm_fail_def fetch_fault_def worker_evidence_def split_beta split: if_splits)
  have wt: "fst (fst (warm_wait step get c j ws x)) = ''worker'' \<Longrightarrow> worker_evidence ws" for x
    using ot by (cases "ws_wait ws") (auto simp: warm_wait_def warm_fail_def worker_evidence_def split: if_splits)
  have go: "fst (fst (warm_go step get c j ws x)) = ''worker'' \<Longrightarrow> worker_evidence ws" for x
    using wt by (cases "ws_go ws") (auto simp: warm_go_def warm_fail_def worker_evidence_def Let_def)
  have st: "fst (fst (warm_stage step get c j ws x)) = ''worker'' \<Longrightarrow> worker_evidence ws" for x
    using go by (cases "ws_stage ws") (auto simp: warm_stage_def warm_fail_def worker_evidence_def split: if_splits)
  show ?thesis using w st by (auto simp: warm_run_def warm_fail_def split_beta split: if_splits)
qed

section \<open>Properties\<close>

text \<open>
  C3: DONE is written for trusted output only, and last.  In a warm run an attempt to write DONE happens
  at most once, under the claim of the run: the job's row was looked up and seen to be running under
  that claim, then the upload was stored, then DONE was written, and no write of the run follows.  It
  happens only when the output was judged trusted, is no engine error, was within the size cap, was
  sealed into the job's directory and got its receipt; the slot is released clean exactly when that
  write went through.
\<close>

theorem warm_done_only_after_trust:
  assumes "dispatch_warm step get c j ws d = (raised, d')" and "dp_trace d' = dp_trace d @ es"
    and "e \<in> set es" and "done_write e"
  shows "\<exists>env pre cur out post. trusted_with ws env \<and> e = Wrote (done_op c j ws env) out
    \<and> es = pre @ [Looked (job_id j) (Some (Some cur)), Uploaded True, e] @ post
    \<and> status cur = RUNNING \<and> claim_id cur = claim_id j
    \<and> list_all (\<lambda>x. \<not> done_write x) pre \<and> (\<forall>op out'. Wrote op out' \<notin> set post)
    \<and> (SlotReleased False None None \<in> set post) = (out = OBool True)"
proof -
  obtain f clean r d1 where w: "warm_run step get c j ws d = ((f, clean, r), d1)" by (metis prod.collapse)
  let ?r = "SlotReleased (\<not> clean) (if clean then None else Some f) (warm_fault_stage clean f (ws_started ws))"
  have d': "dp_trace d' = dp_trace d1 @ [?r]" using assms(1) w by (auto simp: dispatch_warm_def emit_def)
  obtain ws' where ws': "dp_trace d1 = dp_trace d @ ws'" "es = ws' @ [?r]"
    using warm_run_ends [of c j ws d step get] w d' assms(2)
    by (auto simp: grows_def elim!: commits_cases split: if_splits)
  have "e \<in> set ws'" using assms(3,4) ws'(2) by auto
  then obtain env op pre out post where e: "warm_allows c j ws env op" "e = Wrote op out" "ws' = pre @ [Uploaded True, e] @ post"
    "list_all quiet (pre @ post)" "clean = (out = OBool True)" "pre \<noteq> []" "own_look op (last pre)" "set post \<subseteq> {Indexed}"
    using commits_done [OF warm_run_ends [of c j ws d step get], of ws' e] w ws'(1) assms(4) by auto
  have op: "op = done_op c j ws env" "trusted_with ws env" using e(1) by (simp_all add: warm_allows_def)
  obtain cur where cur: "last pre = Looked (job_id j) (Some (Some cur))" "status cur = RUNNING" "claim_id cur = claim_id j"
    using e(7) by (auto simp: op done_op_def elim: own_look.elims)
  have pre: "pre = butlast pre @ [Looked (job_id j) (Some (Some cur))]" using e(6) cur(1) by (metis append_butlast_last_id)
  have "es = butlast pre @ [Looked (job_id j) (Some (Some cur)), Uploaded True, e] @ post @ [?r]"
    using ws'(2) e(3) pre by (metis append.assoc append_Cons append_Nil)
  moreover have "list_all (\<lambda>x. \<not> done_write x) (butlast pre)" using e(4) by (auto simp: list_all_iff dest: in_set_butlastD)
  moreover have "\<forall>op out'. Wrote op out' \<notin> set (post @ [?r])" using e(8) by auto
  moreover have "(SlotReleased False None None \<in> set (post @ [?r])) = (out = OBool True)"
    using e(5,8) by (auto simp: warm_fault_stage_def)
  ultimately show ?thesis using cur(2,3) op e(2) by blast
qed

text \<open>
  the slot comes back once, with a fault the pool may believe.  Every warm run, however it ends,
  releases its slot exactly once, as its last act; it names the worker as the fault only on evidence
  against the worker, so a run without any (lost claims, the blob store, the dispatcher's own disk, an
  engine error, a failed upload) never adds to the failures the pool counts against a worker.
\<close>

theorem warm_release_attribution:
  assumes "dispatch_warm step get c j ws d = (raised, d')"
  shows "\<exists>pre dirty fault stage. dp_trace d' = dp_trace d @ pre @ [SlotReleased dirty fault stage]
    \<and> list_all (\<lambda>e. \<not> is_release e) pre
    \<and> (\<not> worker_evidence ws \<longrightarrow> stage = None
        \<and> (\<forall>now sid hkey ident tracked st h k.
             nat_get (hp_failures (snd (release_account now sid hkey ident tracked (named_fault dirty fault) st h))) k
               \<le> nat_get (hp_failures h) k))"
proof -
  obtain f clean r d1 where w: "warm_run step get c j ws d = ((f, clean, r), d1)" by (metis prod.collapse)
  let ?dirty = "\<not> clean" and ?fault = "if clean then None else Some f"
  have d': "dp_trace d' = dp_trace d1 @ [SlotReleased ?dirty ?fault (warm_fault_stage clean f (ws_started ws))]"
    using assms w by (auto simp: dispatch_warm_def emit_def)
  obtain pre where pre: "dp_trace d1 = dp_trace d @ pre" "list_all (\<lambda>e. \<not> is_release e) pre"
  proof -
    have "grows (\<lambda>e. \<not> is_release e) d d1"
      using warm_run_ends [of c j ws d step get] w
      by (auto simp: grows_def list_all_iff warm_allows_def done_op_def elim!: commits_cases)
    then show ?thesis using that by (auto simp: grows_def)
  qed
  have charge: "nat_get (hp_failures (snd (release_account now sid hkey ident tracked (named_fault ?dirty ?fault) st h))) k
      \<le> nat_get (hp_failures h) k" if "\<not> worker_evidence ws" for now sid hkey ident tracked st h k
  proof -
    have "f \<noteq> ''worker''" using warm_fault_evidence [of step get c j ws d] w that by auto
    then show ?thesis
      by (auto simp: release_account_def named_fault_def account_served_def Let_def nat_get_def delete_conv
          split: option.split)
  qed
  have "warm_fault_stage clean f (ws_started ws) = None" if "\<not> worker_evidence ws"
    using warm_fault_evidence [of step get c j ws d] w that by (auto simp: warm_fault_stage_def)
  then show ?thesis using d' pre charge
    by (intro exI [of _ pre] exI [of _ ?dirty] exI [of _ ?fault] exI [of _ "warm_fault_stage clean f (ws_started ws)"]) simp
qed


text \<open>
  a stale claim detonates nothing.  When no running job carries the token a dispatcher holds, and
  the other clients neither mint it nor put a job back into RUNNING, its warm run is one refused write
  and the release of the slot with no fault charged: nothing is staged, no go is sent, no output is
  read, published or uploaded, and no write goes through.
\<close>

theorem lost_claim_runs_nothing:
  assumes "redis_inv (dp_store d)" and "spent t (\<lambda>k. redis_get k (dp_store d))" and "patient t d"
    and "claim_id j = Some t" and "0 < fs_now ws"
  shows "\<exists>op d'. dispatch_warm redis_step redis_get c j ws d = (False, d')
    \<and> dp_trace d' = dp_trace d @ [Wrote op (OBool False), SlotReleased True (Some ''unknown'') None]"
proof (cases "map_of (dc_engines c) (engine j)")
  case (Some es)
  have ok: "list_all field_ok [FWorkerRuntime (Some ''warm''), FWorkerTier (Some (dc_tier c))]" by simp
  obtain d1 where s: "submit redis_step (OpCas (job_id j) RUNNING (claim_id j)
      [FWorkerRuntime (Some ''warm''), FWorkerTier (Some (dc_tier c))]) d = (OBool False, d1)"
    using redis.stale_cas [OF assms(1-4) ok] by blast
  show ?thesis using submit_trace [OF s] Some
    by (simp add: dispatch_warm_def warm_run_def cas_def s emit_def warm_fault_stage_def)
next
  case None
  obtain d1 where s: "submit redis_step (OpCas (job_id j) RUNNING (claim_id j)
      (fail_fields (dc_san c) (dc_retention c) (fs_now ws) ''unknown engine'')) d = (OBool False, d1)"
    using redis.stale_cas [OF assms(1-4) fail_fields_ok [OF assms(5)]] by blast
  show ?thesis using submit_trace [OF s] None
    by (simp add: dispatch_warm_def warm_run_def warm_fail_def write_failed_def fail_job_def s emit_def warm_fault_stage_def)
qed

section \<open>A concrete run\<close>

definition demo_cfg :: disp_cfg where
  "demo_cfg = \<lparr>dc_engines = [(''eng'', demo_engine)], dc_registry = [(''none'', NONE)], dc_allow_net_override = False,
     dc_net_capture = False, dc_host = demo_host, dc_render = (\<lambda>_. []), dc_job_dir = (@) ''/jobs/'', dc_retention = 3600, dc_blob_backoff = 30, dc_san = id, dc_tier = ''warm'',
     dc_requeue_backoff = 2, dc_defer_cap = 300, dc_shared_defer = 5\<rparr>"

definition demo_seams :: "envelope \<Rightarrow> warm_seams" where
  "demo_seams env = \<lparr>fs_claim_up = True, fs_sealed = True,
     fs_stored = True, fs_reap_up = True, fs_now = 200, fs_done_at = 200, fs_summary = (\<lambda>_. JNull),
     ws_sample = Present, ws_stage = Copied, ws_go = GoOk, ws_late = False,
     ws_wait = WaitOk, ws_fetch = NoSeam, ws_size = CheckOk, ws_verdict = Trusted env, ws_publish = CheckOk,
     ws_started = Some True, ws_seal_at = 150\<rparr>"

definition demo_disp :: "'s \<Rightarrow> 's disp" where
  "demo_disp s = \<lparr>dp_store = s, dp_foreign = [], dp_failed_uploads = {},
     dp_egress = \<lparr>bo_n = [], bo_floor = 0, gd_cooldown = []\<rparr>, dp_grants = \<lparr>bo_n = [], bo_floor = 0, gd_cooldown = []\<rparr>,
     dp_self = sg_init, dp_reserved = 0, dp_gate = None, dp_orphans = [], dp_trace = []\<rparr>"

definition demo_warm_run :: "bool \<times> mem_store disp" where
  "demo_warm_run = dispatch_warm mem_step mem_get demo_cfg (demo_run_job ''t1'') (demo_seams demo_sealed)
     (demo_disp (mem_create (demo_run_job ''t1'') mem_empty))"

lemmas warm_defs = dispatch_warm_def warm_run_def warm_stage_def warm_go_def warm_wait_def warm_output_def warm_size_def
  warm_judge_def warm_publish_def warm_fail_def warm_fault_stage_def

lemmas demo_store_defs = mem_create_def mem_empty_def mem_get_def mem_update_if_status_def demo_run_job_def claimed_def
  demo_old_def Job_new_def

lemmas disp_defs = cas_def submit_def others_def emit_def look_def claim_is_still_ours_def upload_output_def
  materialise_sample_def done_fields_def finish_def Let_def

lemma demo_warm_trace:
  "\<exists>a b l w. dp_trace (snd demo_warm_run) =
     [a, Staged, GoSent, b, Published, l, Uploaded True, w, Indexed, SlotReleased False None None]
     \<and> done_write w \<and> \<not> is_release a \<and> \<not> is_release b \<and> \<not> is_release l"
  by (simp add: demo_warm_run_def warm_defs disp_defs demo_store_defs demo_seams_def demo_cfg_def demo_disp_def
      demo_sealed_def demo_parsed_def)

text \<open>The run of the demonstration commits, with the envelope that was judged.\<close>

theorem warm_done_only_after_trust_witness:
  "\<exists>env pre cur w post. trusted_with (demo_seams demo_sealed) env \<and> done_write w \<and> status cur = RUNNING
     \<and> dp_trace (snd demo_warm_run) = pre @ [Looked ''a1'' (Some (Some cur)), Uploaded True, w] @ post \<and> pre \<noteq> []"
proof -
  obtain a b l w where t: "dp_trace (snd demo_warm_run) =
      [a, Staged, GoSent, b, Published, l, Uploaded True, w, Indexed, SlotReleased False None None]" "done_write w"
    using demo_warm_trace by blast
  let ?d = "demo_disp (mem_create (demo_run_job ''t1'') mem_empty)" and ?es = "dp_trace (snd demo_warm_run)"
  have r: "dispatch_warm mem_step mem_get demo_cfg (demo_run_job ''t1'') (demo_seams demo_sealed) ?d = (fst demo_warm_run, snd demo_warm_run)"
    by (simp add: demo_warm_run_def)
  have e: "dp_trace (snd demo_warm_run) = dp_trace ?d @ ?es" by (simp add: demo_disp_def)
  have m: "w \<in> set ?es" using t(1) by simp
  obtain env pre cur post where p: "trusted_with (demo_seams demo_sealed) env" "status cur = RUNNING"
      "?es = pre @ [Looked (job_id (demo_run_job ''t1'')) (Some (Some cur)), Uploaded True, w] @ post"
    using warm_done_only_after_trust [OF r e m t(2)] by blast
  have "pre \<noteq> []" using p(3) t(1) by (cases pre) auto
  then show ?thesis using p t(2) by auto
qed

text \<open>A run without evidence against its worker: one release, the last of ten events.\<close>

theorem warm_release_attribution_witness:
  "\<exists>pre dirty fault. dp_trace (snd demo_warm_run) = pre @ [SlotReleased dirty fault None] \<and> length pre = 9"
proof -
  have e: "\<not> worker_evidence (demo_seams demo_sealed)" by (simp add: worker_evidence_def demo_seams_def)
  have "dispatch_warm mem_step mem_get demo_cfg (demo_run_job ''t1'') (demo_seams demo_sealed)
     (demo_disp (mem_create (demo_run_job ''t1'') mem_empty)) = (fst demo_warm_run, snd demo_warm_run)"
    by (simp add: demo_warm_run_def)
  from warm_release_attribution [OF this] e
  obtain pre dirty fault where "dp_trace (snd demo_warm_run) = pre @ [SlotReleased dirty fault None]"
    by (auto simp: demo_disp_def)
  moreover obtain a b l w where "dp_trace (snd demo_warm_run) =
      [a, Staged, GoSent, b, Published, l, Uploaded True, w, Indexed, SlotReleased False None None]"
    using demo_warm_trace by blast
  ultimately show ?thesis by (intro exI [of _ pre]) (auto dest: arg_cong [where f = length])
qed

theorem lost_claim_runs_nothing_witness:
  "\<exists>op d'. dispatch_warm redis_step redis_get demo_cfg (demo_run_job ''t1'') (demo_seams demo_sealed)
      (demo_disp (redis_create (demo_run_job ''t2'') [])) = (False, d')
    \<and> dp_trace d' = [Wrote op (OBool False), SlotReleased True (Some ''unknown'') None]"
proof -
  have "redis_inv (dp_store (demo_disp (redis_create (demo_run_job ''t2'') [])))"
    "spent ''t1'' (\<lambda>k. redis_get k (dp_store (demo_disp (redis_create (demo_run_job ''t2'') []))))"
    "patient ''t1'' (demo_disp (redis_create (demo_run_job ''t2'') []))"
    using demo_run_kv(1) [of "''t2''"]
    by (auto simp: demo_disp_def patient_def spent_def live_claim_def redis_create_def redis_get_def fetch_def decode_encode
        split: if_splits)
  from lost_claim_runs_nothing [OF this, of "demo_run_job ''t1''" "demo_seams demo_sealed" demo_cfg]
  show ?thesis by (simp add: demo_seams_def demo_disp_def)
qed

end
