(* ===== verification/Dispatch_Cold.thy ===== *)
theory Dispatch_Cold
  imports Dispatch_Warm
begin

text \<open>
  \<open>_dispatch_inner\<close> of \<^verbatim>\<open>host/dispatch.py\<close>: one claimed job in one fresh worker container.  The
  network plan is the one of \<open>Dispatch_Net\<close>, the refusals for a degraded node are counted as in
  \<open>Dispatch_Backoff\<close>, the verdict on the output is the one of \<open>Output_Trust\<close>; what the runtime
  selector, docker, the gateway probe and the file system answer is a record.  The result is whether an
  exception leaves the method, and the container that could not be confirmed gone.
\<close>

section \<open>The egress gate\<close>

text \<open>A refusal on a degraded node: the counter, the local cooldown, and the drop of expired cooldowns
  when there are too many.\<close>

definition note_egress_refusal ::
  "real \<Rightarrow> real \<Rightarrow> real \<Rightarrow> real \<Rightarrow> string \<Rightarrow> grants_defer \<Rightarrow> real \<times> grants_defer" where
  "note_egress_refusal cap shared now now' own g =
     (let (n, b') = bump_egress_defer own \<lparr>bo_n = bo_n g, bo_floor = bo_floor g\<rparr>;
          (shared_defer, delay) = egress_defer_plan cap shared n;
          cool = AList.update own (now + delay) (gd_cooldown g)
      in (shared_defer,
          \<lparr>bo_n = bo_n b', bo_floor = bo_floor b',
           gd_cooldown = (if EGRESS_DEFER_MAX < length cool then filter (\<lambda>kv. now' < snd kv) cool else cool)\<rparr>))"

text \<open>Cleared refusals, by the egress gate and, with counters of its own, by the grants gate.\<close>

definition clear_refusal :: "string \<Rightarrow> grants_defer \<Rightarrow> grants_defer" where
  "clear_refusal own g =
     (let b = clear_defer own \<lparr>bo_n = bo_n g, bo_floor = bo_floor g\<rparr>
      in \<lparr>bo_n = bo_n b, bo_floor = bo_floor b, gd_cooldown = AList.delete own (gd_cooldown g)\<rparr>)"

datatype launch_answer = Exited | TimedOut bool | LaunchRaised
datatype size_answer = SizeOk | SizeExceeded | SizeRaised

record cold_seams = final_seams +
  cs_sample :: sample
  cs_runtime :: "runtime option"
  cs_proxy_env :: "(string \<times> string) list"
  cs_clock :: real
  cs_clock_drop :: real
  cs_healthy :: "bool option"
  cs_canon :: "string \<Rightarrow> string option"
  cs_prepared :: bool
  cs_launch :: launch_answer
  cs_size :: size_answer
  cs_verdict :: verdict
  cs_written :: bool

definition requeue_now ::
  "(store_op \<Rightarrow> 's \<Rightarrow> outcome \<times> 's) \<Rightarrow> disp_cfg \<Rightarrow> real \<Rightarrow> bool \<Rightarrow> real option \<Rightarrow> job \<Rightarrow> 's disp \<Rightarrow> 's disp" where
  "requeue_now step c now defer_it defer_s j d =
     snd (submit step (requeue_claimed now (dc_requeue_backoff c) defer_it defer_s j) d)"

definition egress_gate ::
  "(store_op \<Rightarrow> 's \<Rightarrow> outcome \<times> 's) \<Rightarrow> disp_cfg \<Rightarrow> job \<Rightarrow> cold_seams \<Rightarrow> personality \<Rightarrow> 's disp \<Rightarrow> bool \<times> 's disp" where
  "egress_gate step c j cs p d =
     (if \<not> gated_by_gateway_health p then (True, d)
      else if in_cooldown (cs_clock cs) (job_id j) (dp_egress d)
      then (False, requeue_now step c (fs_now cs) True (Some (dc_shared_defer c)) j d)
      else if cs_healthy cs = Some False
      then (case note_egress_refusal (dc_defer_cap c) (dc_shared_defer c) (cs_clock cs) (cs_clock_drop cs)
                   (job_id j) (dp_egress d) of
              (shared_defer, g) \<Rightarrow> (False, requeue_now step c (fs_now cs) True (Some shared_defer) j (d\<lparr>dp_egress := g\<rparr>)))
      else (True, d\<lparr>dp_egress := clear_refusal (job_id j) (dp_egress d)\<rparr>))"

section \<open>The stages, last first\<close>

type_synonym cout = "bool \<times> string option"

definition cold_fail ::
  "(store_op \<Rightarrow> 's \<Rightarrow> outcome \<times> 's) \<Rightarrow> disp_cfg \<Rightarrow> job \<Rightarrow> cold_seams \<Rightarrow> string \<Rightarrow> 's disp \<Rightarrow> cout \<times> 's disp" where
  "cold_fail step c j cs reason d = ((False, None), snd (write_failed step c (fs_now cs) j reason d))"

definition cold_publish ::
  "(store_op \<Rightarrow> 's \<Rightarrow> outcome \<times> 's) \<Rightarrow> (string \<Rightarrow> 's \<Rightarrow> job option) \<Rightarrow> disp_cfg \<Rightarrow> job \<Rightarrow> cold_seams
     \<Rightarrow> envelope \<Rightarrow> 's disp \<Rightarrow> cout \<times> 's disp" where
  "cold_publish step get c j cs env d =
     (if \<not> cs_written cs then ((True, None), d)
      else ((False, None), snd (finish step get c j cs env (emit Published d))))"

definition cold_judge ::
  "(store_op \<Rightarrow> 's \<Rightarrow> outcome \<times> 's) \<Rightarrow> (string \<Rightarrow> 's \<Rightarrow> job option) \<Rightarrow> disp_cfg \<Rightarrow> job \<Rightarrow> cold_seams
     \<Rightarrow> 's disp \<Rightarrow> cout \<times> 's disp" where
  "cold_judge step get c j cs d =
     (case cs_verdict cs of
        Trusted env \<Rightarrow>
          if e_status env = EnvEngineError then cold_fail step c j cs ''engine_error'' d
          else cold_publish step get c j cs env d
      | Escaped \<Rightarrow> cold_fail step c j cs ''unexpected trust validation error'' d
      | _ \<Rightarrow> cold_fail step c j cs ''output trust validation failed'' d)"

definition cold_output ::
  "(store_op \<Rightarrow> 's \<Rightarrow> outcome \<times> 's) \<Rightarrow> (string \<Rightarrow> 's \<Rightarrow> job option) \<Rightarrow> disp_cfg \<Rightarrow> job \<Rightarrow> cold_seams
     \<Rightarrow> 's disp \<Rightarrow> cout \<times> 's disp" where
  "cold_output step get c j cs d =
     (case cs_size cs of
        SizeOk \<Rightarrow> cold_judge step get c j cs d
      | SizeExceeded \<Rightarrow> cold_fail step c j cs ''output too large'' d
      | SizeRaised \<Rightarrow> ((True, None), d))"

text \<open>The claim is written once more, with the runtime, directly before the container starts.\<close>

definition cold_launch ::
  "(store_op \<Rightarrow> 's \<Rightarrow> outcome \<times> 's) \<Rightarrow> (string \<Rightarrow> 's \<Rightarrow> job option) \<Rightarrow> disp_cfg \<Rightarrow> job \<Rightarrow> cold_seams
     \<Rightarrow> runtime \<Rightarrow> worker_run \<Rightarrow> 's disp \<Rightarrow> cout \<times> 's disp" where
  "cold_launch step get c j cs rt w d =
     (case cas step j [FWorkerRuntime (Some (rt_name rt)),
          FWarnings (security_warnings j @ map JStr (snd (build_worker_docker_run_argv (dc_host c) rt w)))] d of
        (ours, d1) \<Rightarrow>
          if \<not> ours then ((False, None), d1)
          else if \<not> cs_prepared cs then ((True, None), d1)
          else let d2 = emit (Launched rt w) d1
               in case cs_launch cs of
                    Exited \<Rightarrow> cold_output step get c j cs d2
                  | TimedOut killed \<Rightarrow>
                      (case cold_fail step c j cs ''worker timed out'' d2 of (r, d3) \<Rightarrow>
                         ((False, if killed then None else Some (container_name (job_id j))), d3))
                  | LaunchRaised \<Rightarrow> cold_fail step c j cs ''docker launch failed'' d2)"

definition cold_admit ::
  "(store_op \<Rightarrow> 's \<Rightarrow> outcome \<times> 's) \<Rightarrow> (string \<Rightarrow> 's \<Rightarrow> job option) \<Rightarrow> disp_cfg \<Rightarrow> job \<Rightarrow> cold_seams
     \<Rightarrow> engine_spec \<Rightarrow> runtime \<Rightarrow> personality \<Rightarrow> 's disp \<Rightarrow> cout \<times> 's disp" where
  "cold_admit step get c j cs es rt p d =
     (case net_plan_of (cs_canon cs) (rt_name rt) (job_id j) (dc_net_capture c) p of plan \<Rightarrow>
        if plan = Inl NeedsNetns then cold_fail step c j cs ''netpolicy needs netd'' d
        else case egress_gate step c j cs p d of (go, d1) \<Rightarrow>
          if \<not> go then ((False, None), d1)
          else case plan of
            Inl e \<Rightarrow> cold_fail step c j cs ''netpolicy refused'' d1
          | Inr np \<Rightarrow> cold_launch step get c j cs rt
              (cold_run (dc_render c) es j np p (dc_job_dir c (job_id j)) (cs_proxy_env cs)) d1)"

definition resolve_personality :: "disp_cfg \<Rightarrow> job \<Rightarrow> personality" where
  "resolve_personality c j =
     resolve_net_policy (net_policy j) (case map_of (dc_engines c) (engine j) of Some es \<Rightarrow> es_net_policy es | None \<Rightarrow> ''none'')
       (dc_registry c) (dc_allow_net_override c)"

definition dispatch_inner ::
  "(store_op \<Rightarrow> 's \<Rightarrow> outcome \<times> 's) \<Rightarrow> (string \<Rightarrow> 's \<Rightarrow> job option) \<Rightarrow> disp_cfg \<Rightarrow> job \<Rightarrow> cold_seams
     \<Rightarrow> 's disp \<Rightarrow> cout \<times> 's disp" where
  "dispatch_inner step get c j cs d =
     (case map_of (dc_engines c) (engine j) of
        None \<Rightarrow> cold_fail step c j cs ''unknown engine'' d
      | Some es \<Rightarrow>
          (case materialise_sample step c (fs_now cs) j (cs_sample cs) d of (have, d1) \<Rightarrow>
             if \<not> have then ((False, None), d1)
             else case cs_runtime cs of
               None \<Rightarrow> cold_fail step c j cs ''runtime selection failed'' d1
             | Some rt \<Rightarrow> cold_admit step get c j cs es rt (resolve_personality c j) d1))"

section \<open>What a run adds to the trace\<close>

definition cold_trusted :: "cold_seams \<Rightarrow> envelope \<Rightarrow> bool" where
  "cold_trusted cs env \<longleftrightarrow> cs_verdict cs = Trusted env \<and> e_status env \<noteq> EnvEngineError \<and> cs_size cs = SizeOk
     \<and> cs_launch cs = Exited \<and> cs_written cs \<and> fs_sealed cs \<and> fs_stored cs"

definition cold_allows :: "disp_cfg \<Rightarrow> job \<Rightarrow> cold_seams \<Rightarrow> envelope \<Rightarrow> store_op \<Rightarrow> bool" where
  "cold_allows c j cs env op \<longleftrightarrow> cold_trusted cs env \<and> op = done_op c j cs env"

text \<open>After the launch the trace only grows by quiet events, and by one write of DONE for trusted output.\<close>

abbreviation cold_after :: "disp_cfg \<Rightarrow> job \<Rightarrow> cold_seams \<Rightarrow> 's disp \<Rightarrow> cout \<times> 's disp \<Rightarrow> bool" where
  "cold_after c j cs d r \<equiv> \<exists>b. commits (cold_allows c j cs) d (b, snd r)"

lemma cold_after_quiet: "grows quiet d d' \<Longrightarrow> cold_after c j cs d (r, d')"
  by (auto intro!: exI [of _ False])

lemma cold_fail_quiet: "grows quiet d (snd (cold_fail step c j cs reason d))"
  by (simp add: cold_fail_def write_failed_quiet)

lemma cold_fail_after: "cold_after c j cs d (cold_fail step c j cs reason d)"
  using cold_after_quiet [OF cold_fail_quiet, of c j cs d _ step c j cs reason] by simp

lemma cold_output_after:
  assumes "cs_launch cs = Exited"
  shows "cold_after c j cs d (cold_output step get c j cs d)"
proof -
  have pub: "cold_after c j cs d (cold_publish step get c j cs env d)"
    if "cs_verdict cs = Trusted env" "e_status env \<noteq> EnvEngineError" "cs_size cs = SizeOk" for env
  proof (cases "cs_written cs")
    case True
    have g: "grows quiet d (emit Published d)" by (rule grows_emit) simp_all
    have "commits (cold_allows c j cs) (emit Published d) (finish step get c j cs env (emit Published d))"
      by (rule finish_commits) (simp add: cold_allows_def cold_trusted_def that assms True)
    then have "commits (cold_allows c j cs) d (finish step get c j cs env (emit Published d))" by (rule commits_prefix [OF g])
    then show ?thesis using True by (auto simp: cold_publish_def intro!: exI [of _ "fst (finish step get c j cs env (emit Published d))"])
  qed (auto simp: cold_publish_def intro!: exI [of _ False])
  have "cold_after c j cs d (cold_judge step get c j cs d)" if "cs_size cs = SizeOk"
    using pub that cold_fail_after by (cases "cs_verdict cs") (auto simp: cold_judge_def)
  then show ?thesis using cold_fail_after cold_after_quiet [of d d] by (cases "cs_size cs") (auto simp: cold_output_def)
qed

text \<open>A launch: right after the write that confirmed the claim, under a plan that was accepted.\<close>

definition claim_op :: "disp_cfg \<Rightarrow> job \<Rightarrow> runtime \<Rightarrow> worker_run \<Rightarrow> store_op" where
  "claim_op c j rt w = OpCas (job_id j) RUNNING (claim_id j) [FWorkerRuntime (Some (rt_name rt)),
     FWarnings (security_warnings j @ map JStr (snd (build_worker_docker_run_argv (dc_host c) rt w)))]"

definition planned_run :: "disp_cfg \<Rightarrow> job \<Rightarrow> cold_seams \<Rightarrow> runtime \<Rightarrow> worker_run \<Rightarrow> bool" where
  "planned_run c j cs rt w \<longleftrightarrow> cs_runtime cs = Some rt \<and>
     (\<exists>es np. map_of (dc_engines c) (engine j) = Some es
        \<and> net_plan_of (cs_canon cs) (rt_name rt) (job_id j) (dc_net_capture c) (resolve_personality c j) = Inr np
        \<and> w = cold_run (dc_render c) es j np (resolve_personality c j) (dc_job_dir c (job_id j)) (cs_proxy_env cs))"

definition egress_open :: "disp_cfg \<Rightarrow> job \<Rightarrow> cold_seams \<Rightarrow> 's disp \<Rightarrow> bool" where
  "egress_open c j cs d \<longleftrightarrow> (gated_by_gateway_health (resolve_personality c j) \<longrightarrow>
     cs_healthy cs \<noteq> Some False \<and> \<not> in_cooldown (cs_clock cs) (job_id j) (dp_egress d))"

definition cold_ends :: "(runtime \<Rightarrow> worker_run \<Rightarrow> bool) \<Rightarrow> disp_cfg \<Rightarrow> job \<Rightarrow> cold_seams \<Rightarrow> 's disp \<Rightarrow> cout \<times> 's disp \<Rightarrow> bool" where
  "cold_ends P c j cs d r \<longleftrightarrow>
     grows quiet d (snd r)
     \<or> (\<exists>pre rt w d2. list_all quiet pre \<and> P rt w
          \<and> dp_trace d2 = dp_trace d @ pre @ [Wrote (claim_op c j rt w) (OBool True), Launched rt w]
          \<and> cold_after c j cs d2 r)"

lemma cold_ends_quiet: "grows quiet d (snd r) \<Longrightarrow> cold_ends P c j cs d r"
  by (simp add: cold_ends_def)

lemma cold_ends_still: "grows quiet d d' \<Longrightarrow> cold_ends P c j cs d (r, d')"
  by (rule cold_ends_quiet) simp

lemma cold_fail_ends: "cold_ends P c j cs d (cold_fail step c j cs reason d)"
  by (rule cold_ends_quiet [OF cold_fail_quiet])

lemma cold_ends_prefix: "grows quiet d d1 \<Longrightarrow> cold_ends P c j cs d1 r \<Longrightarrow> cold_ends P c j cs d r"
proof -
  assume g: "grows quiet d d1" and e: "cold_ends P c j cs d1 r"
  obtain es where es: "dp_trace d1 = dp_trace d @ es" "list_all quiet es" using g by (auto simp: grows_def)
  from e consider "grows quiet d1 (snd r)"
    | pre rt w d2 where "list_all quiet pre" "P rt w" "cold_after c j cs d2 r"
        "dp_trace d2 = dp_trace d1 @ pre @ [Wrote (claim_op c j rt w) (OBool True), Launched rt w]"
    unfolding cold_ends_def by blast
  then show ?thesis
  proof cases
    case 1
    then show ?thesis by (intro cold_ends_quiet grows_trans [OF g])
  next
    case 2
    then show ?thesis unfolding cold_ends_def
      by (intro disjI2 exI [of _ "es @ pre"] exI [of _ rt] exI [of _ w] exI [of _ d2]) (simp add: es)
  qed
qed

lemma cold_launch_ends:
  assumes "P rt w"
  shows "cold_ends P c j cs d (cold_launch step get c j cs rt w d)"
proof -
  let ?fs = "[FWorkerRuntime (Some (rt_name rt)),
      FWarnings (security_warnings j @ map JStr (snd (build_worker_docker_run_argv (dc_host c) rt w)))]"
  obtain ours d1 where o: "cas step j ?fs d = (ours, d1)" by fastforce
  obtain out where out: "dp_trace d1 = dp_trace d @ [Wrote (claim_op c j rt w) out]" "ours = (out = OBool True)"
    using cas_trace [OF o] by (auto simp: claim_op_def)
  have g: "grows quiet d d1" using o by (rule cas_grows) simp
  let ?d2 = "emit (Launched rt w) d1"
  show ?thesis
  proof (cases "ours \<and> cs_prepared cs")
    case True
    have "cold_after c j cs ?d2 (cold_launch step get c j cs rt w d)"
      using True cold_output_after [of cs c j ?d2 step get] cold_fail_after [of c j cs ?d2 step]
        cold_after_quiet [OF cold_fail_quiet, of c j cs ?d2 _ step c j cs]
      by (auto simp: cold_launch_def o Let_def split_beta split: launch_answer.split)
    then show ?thesis using assms out True unfolding cold_ends_def
      by (intro disjI2 exI [of _ "[]"] exI [of _ rt] exI [of _ w] exI [of _ ?d2]) (simp add: emit_def)
  next
    case False
    then show ?thesis using g by (intro cold_ends_quiet) (auto simp: cold_launch_def o)
  qed
qed

lemma materialise_egress: "materialise_sample step c now j smp d = (b, d1) \<Longrightarrow> dp_egress d1 = dp_egress d"
proof -
  have s: "dp_egress (snd (submit step op d)) = dp_egress d" for op
    by (simp add: submit_def others_def emit_def Let_def split_beta split: list.split)
  have "dp_egress (snd (materialise_sample step c now j smp d)) = dp_egress d"
    by (cases smp) (simp_all add: materialise_sample_def Let_def write_failed_def cas_def split_beta s, simp_all add: emit_def s)
  then show "materialise_sample step c now j smp d = (b, d1) \<Longrightarrow> dp_egress d1 = dp_egress d" by simp
qed

lemma requeue_quiet: "grows quiet d (requeue_now step c now df ds j d)"
proof -
  obtain out d1 where s: "submit step (requeue_claimed now (dc_requeue_backoff c) df ds j) d = (out, d1)" by fastforce
  have "\<not> done_write (Wrote (requeue_claimed now (dc_requeue_backoff c) df ds j) out)"
    by (simp add: requeue_claimed_def requeue_fields_def)
  then show ?thesis using submit_trace [OF s] by (simp add: requeue_now_def s grows_def)
qed

lemma egress_gate_quiet: "grows quiet d (snd (egress_gate step c j cs p d))"
proof -
  have "grows quiet d (requeue_now step c now df ds j (d\<lparr>dp_egress := g\<rparr>))" for now df ds g
    using requeue_quiet [of "d\<lparr>dp_egress := g\<rparr>" step c now df ds j] by (simp add: grows_def)
  then show ?thesis by (auto simp: egress_gate_def requeue_quiet split_beta) (simp add: grows_def)
qed

lemma egress_gate_open: "fst (egress_gate step c j cs (resolve_personality c j) d) = egress_open c j cs d"
  by (auto simp: egress_gate_def egress_open_def split_beta)

lemma dispatch_inner_ends: "cold_ends (\<lambda>rt w. planned_run c j cs rt w \<and> egress_open c j cs d) c j cs d (dispatch_inner step get c j cs d)"
proof (cases "map_of (dc_engines c) (engine j)")
  case None
  then show ?thesis by (simp add: dispatch_inner_def cold_ends_quiet cold_fail_quiet)
next
  case (Some es)
  obtain have_it d1 where m: "materialise_sample step c (fs_now cs) j (cs_sample cs) d = (have_it, d1)" by fastforce
  have g: "grows quiet d d1" using materialise_quiet [of d step c "fs_now cs" j "cs_sample cs"] m by simp
  have eg: "dp_egress d1 = dp_egress d" using m by (rule materialise_egress)
  let ?P = "\<lambda>rt w. planned_run c j cs rt w \<and> egress_open c j cs d"
  have "cold_ends ?P c j cs d1 (cold_admit step get c j cs es rt (resolve_personality c j) d1)" if rt: "cs_runtime cs = Some rt" for rt
  proof -
    obtain go d2 where e: "egress_gate step c j cs (resolve_personality c j) d1 = (go, d2)" by fastforce
    have g2: "grows quiet d1 d2" using egress_gate_quiet [of d1 step c j cs "resolve_personality c j"] e by simp
    have op: "go = egress_open c j cs d" using egress_gate_open [of step c j cs d1] e eg by (simp add: egress_open_def)
    show ?thesis
      using cold_ends_prefix [OF g2 cold_launch_ends] cold_ends_prefix [OF g2 cold_fail_ends]
        cold_fail_ends cold_ends_still [OF g2] Some rt op
      by (auto simp: cold_admit_def e planned_run_def split: sum.splits)
  qed
  then show ?thesis
    using Some cold_ends_prefix [OF g] cold_ends_still [OF g] cold_ends_prefix [OF g cold_fail_ends]
    by (auto simp: dispatch_inner_def m split: option.split)
qed

section \<open>A claim that is gone\<close>

text \<open>Nothing launched, and every write refused.\<close>

definition lost :: "devent \<Rightarrow> bool" where
  "lost e \<longleftrightarrow> \<not> is_launch e \<and> (\<forall>op out. e = Wrote op out \<longrightarrow> out = OBool False)"

context job_store
begin

definition stale :: "string \<Rightarrow> 's disp \<Rightarrow> bool" where
  "stale t d \<longleftrightarrow> inv (dp_store d) \<and> spent t (abs (dp_store d)) \<and> patient t d"

lemma stale_frame [simp]: "stale t (d\<lparr>dp_egress := g\<rparr>) = stale t d" "stale t (emit e d) = stale t d"
  by (simp_all add: stale_def patient_def emit_def)

lemma stale_write:
  assumes "stale t d" "claim_id j = Some t" "list_all field_ok fs" "list_all (field_discreet t) fs"
    "submit step (OpCas (job_id j) RUNNING (claim_id j) fs) d = (out, d')"
  shows "out = OBool False" "stale t d'" "grows lost d d'"
proof -
  note s = stale_submit [OF _ _ _ assms(2-5)]
  show "out = OBool False" using s(1) assms(1) by (simp add: stale_def)
  then show "grows lost d d'" using submit_trace [OF assms(5)] by (simp add: grows_def lost_def)
  show "stale t d'" using s(2-4) assms(1) by (simp add: stale_def)
qed

lemma stale_cas_write:
  assumes "stale t d" "claim_id j = Some t" "list_all field_ok fs" "list_all (field_discreet t) fs" "cas step j fs d = (b, d')"
  shows "\<not> b" "stale t d'" "grows lost d d'"
proof -
  obtain out where s: "submit step (OpCas (job_id j) RUNNING (claim_id j) fs) d = (out, d')" "b = (out = OBool True)"
    using assms(5) by (auto simp: cas_def split: prod.splits)
  show "\<not> b" "stale t d'" "grows lost d d'" using stale_write [OF assms(1-4) s(1)] s(2) by auto
qed

lemma stale_cold_fail:
  assumes "stale t d" "claim_id j = Some t" "0 < fs_now cs"
  shows "grows lost d (snd (cold_fail step c j cs reason d))"
proof -
  obtain out d' where s: "submit step (OpCas (job_id j) RUNNING (claim_id j)
      (fail_fields (dc_san c) (dc_retention c) (fs_now cs) reason)) d = (out, d')" by fastforce
  have "list_all (field_discreet t) (fail_fields (dc_san c) (dc_retention c) (fs_now cs) reason)" by (simp add: fail_fields_def)
  from stale_write(3) [OF assms(1,2) fail_fields_ok [OF assms(3)] this s]
  show ?thesis by (simp add: cold_fail_def write_failed_def fail_job_def s)
qed

lemma stale_requeue:
  assumes "stale t d" "claim_id j = Some t" "0 < now"
  shows "grows lost d (requeue_now step c now df ds j d)"
proof -
  let ?u = "if df then Some (now + max 2 (case ds of None \<Rightarrow> dc_requeue_backoff c | Some d \<Rightarrow> d)) else None"
  obtain out d' where s: "submit step (OpCas (job_id j) RUNNING (claim_id j) (requeue_fields ?u)) d = (out, d')" by fastforce
  have "now + max 2 x \<noteq> 0" for x :: real using assms(3) by linarith
  then have "list_all field_ok (requeue_fields ?u)" by (intro requeue_fields_ok) simp
  moreover have "list_all (field_discreet t) (requeue_fields ?u)" by (simp add: requeue_fields_def split: option.split)
  ultimately show ?thesis using stale_write(3) [OF assms(1,2) _ _ s]
    unfolding requeue_now_def requeue_claimed_def s by simp
qed

lemma stale_materialise:
  assumes "stale t d" "claim_id j = Some t" "0 < now" "0 \<le> dc_blob_backoff c"
    "materialise_sample step c now j smp d = (b, d')"
  shows "stale t d' \<and> grows lost d d'"
proof (cases smp)
  case NoHash
  obtain out d1 where s: "submit step (OpCas (job_id j) RUNNING (claim_id j)
      (fail_fields (dc_san c) (dc_retention c) now ''spooled input missing'')) d = (out, d1)" by fastforce
  have "list_all (field_discreet t) (fail_fields (dc_san c) (dc_retention c) now ''spooled input missing'')" by (simp add: fail_fields_def)
  from stale_write(2,3) [OF assms(1,2) fail_fields_ok [OF assms(3)] this s]
  show ?thesis using assms(5) NoHash by (auto simp: materialise_sample_def write_failed_def fail_job_def s)
next
  case FetchFailed
  let ?fs = "if int MAX_MATERIALISE_ATTEMPTS \<le> materialise_attempts j + 1 then
      [FStatus FAILED, FFinishedAt (Some now), FError (Some (dc_san c ''sample could not be materialised'')),
       FMaterialiseAttempts (materialise_attempts j + 1), FExpiresAt (expires_after (dc_retention c) now)]
    else [FStatus QUEUED, FClaimId None, FWorkerRuntime None, FWorkerTier None,
       FClaimableAfter (Some (now + dc_blob_backoff c)), FMaterialiseAttempts (materialise_attempts j + 1)]"
  obtain ours d1 where c: "cas step j ?fs d = (ours, d1)" by fastforce
  have "list_all field_ok ?fs" "list_all (field_discreet t) ?fs" using assms(3,4) by (auto simp: expires_after_def)
  from stale_cas_write(2,3) [OF assms(1,2) this c] have "stale t d1" "grows lost d d1" by simp_all
  moreover have "d' = emit InputDeleted d1" using assms(5) FetchFailed c by (simp add: materialise_sample_def Let_def)
  ultimately show ?thesis by (auto intro!: grows_emit simp: lost_def)
next
  case Fetched
  show ?thesis
  proof (cases "materialise_attempts j = 0")
    case False
    obtain ours d1 where c: "cas step j [FMaterialiseAttempts 0] d = (ours, d1)" by fastforce
    have "stale t d1" "grows lost d d1" using stale_cas_write(2,3) [OF assms(1,2) _ _ c] by simp_all
    then show ?thesis using assms(5) Fetched False c by (simp add: materialise_sample_def)
  qed (use assms Fetched in \<open>simp add: materialise_sample_def\<close>)
qed (use assms in \<open>simp add: materialise_sample_def\<close>)

lemma stale_cold:
  assumes "stale t d" "claim_id j = Some t" "0 < fs_now cs" "0 \<le> dc_blob_backoff c"
  shows "grows lost d (snd (dispatch_inner step get c j cs d)) \<and> fst (dispatch_inner step get c j cs d) = (False, None)"
proof (cases "map_of (dc_engines c) (engine j)")
  case None
  then show ?thesis using stale_cold_fail [OF assms(1-3)] by (simp add: dispatch_inner_def) (simp add: cold_fail_def)
next
  case (Some es)
  obtain have_it d1 where m: "materialise_sample step c (fs_now cs) j (cs_sample cs) d = (have_it, d1)" by fastforce
  have s1: "stale t d1" and g1: "grows lost d d1" using stale_materialise [OF assms m] by simp_all
  have fail: "grows lost d (snd (cold_fail step c j cs reason x)) \<and> fst (cold_fail step c j cs reason x) = (False, None)"
    if "stale t x" "grows lost d x" for x reason
    using grows_trans [OF that(2) stale_cold_fail [OF that(1) assms(2,3)]] by (simp add: cold_fail_def)
  have adm: "grows lost d (snd (cold_admit step get c j cs es rt p d1)) \<and> fst (cold_admit step get c j cs es rt p d1) = (False, None)" for rt p
  proof -
    obtain go d2 where e: "egress_gate step c j cs p d1 = (go, d2)" by fastforce
    have g2: "grows lost d1 d2"
    proof -
      have rq: "grows lost d1 (requeue_now step c (fs_now cs) True ds j (d1\<lparr>dp_egress := g\<rparr>))" for ds g
        using stale_requeue [of t "d1\<lparr>dp_egress := g\<rparr>" j "fs_now cs" c True ds] s1 assms(2,3) by (simp add: grows_def)
      show ?thesis using rq stale_requeue [OF s1 assms(2,3)] e
        by (auto simp: egress_gate_def split_beta split: if_splits) (simp_all add: grows_def)
    qed
    have gs: "stale t d2" if go using e that s1 by (auto simp: egress_gate_def split_beta split: if_splits)
    have g: "grows lost d d2" by (rule grows_trans [OF g1 g2])
    have lau: "grows lost d (snd (cold_launch step get c j cs rt w d2)) \<and> fst (cold_launch step get c j cs rt w d2) = (False, None)"
      if go for w
    proof -
      let ?fs = "[FWorkerRuntime (Some (rt_name rt)),
          FWarnings (security_warnings j @ map JStr (snd (build_worker_docker_run_argv (dc_host c) rt w)))]"
      obtain ours d3 where c: "cas step j ?fs d2 = (ours, d3)" by fastforce
      have "\<not> ours" "grows lost d2 d3" using stale_cas_write(1,3) [OF gs [OF that] assms(2) _ _ c] by simp_all
      then show ?thesis using grows_trans [OF g] by (simp add: cold_launch_def c)
    qed
    show ?thesis
      using fail [OF s1 g1] fail [OF gs g] lau g by (auto simp: cold_admit_def e split: sum.split)
  qed
  show ?thesis using fail [OF s1 g1] adm g1 by (auto simp: dispatch_inner_def Some m split: option.split)
qed

end

section \<open>Properties\<close>

text \<open>
  C2: a cold run writes DONE for trusted output only.  An attempt to write DONE happens at most once,
  directly after the upload was stored, after the one container of the run was started right behind a
  confirming write of the claim and under an accepted plan, and only when the container exited by itself
  and its output was judged trusted, is no engine error, was within the size cap, was written back sealed
  and got its receipt.
\<close>

theorem cold_done_only_after_trust:
  assumes "dispatch_inner step get c j cs d = (r, d')" and "dp_trace d' = dp_trace d @ es"
    and "e \<in> set es" and "done_write e"
  shows "\<exists>env out rt w pre mid post. cold_trusted cs env \<and> planned_run c j cs rt w \<and> e = Wrote (done_op c j cs env) out
    \<and> es = pre @ [Wrote (claim_op c j rt w) (OBool True), Launched rt w] @ mid @ [Uploaded True, e] @ post
    \<and> list_all quiet (pre @ mid @ post)"
proof -
  have "cold_ends (\<lambda>rt w. planned_run c j cs rt w \<and> egress_open c j cs d) c j cs d (r, d')"
    using dispatch_inner_ends [of c j cs d step get] assms(1) by simp
  then consider (still) "grows quiet d d'"
    | (launch) pre rt w d2 b where "list_all quiet pre" "planned_run c j cs rt w"
        "dp_trace d2 = dp_trace d @ pre @ [Wrote (claim_op c j rt w) (OBool True), Launched rt w]"
        "commits (cold_allows c j cs) d2 (b, d')"
    unfolding cold_ends_def by auto
  then show ?thesis
  proof cases
    case still
    then show ?thesis using assms(2-4) by (auto simp: grows_def list_all_iff)
  next
    case launch
    obtain qs where qs: "dp_trace d' = dp_trace d2 @ qs" using launch(4)
      by (auto simp: grows_def elim!: commits_cases)
    have es: "es = pre @ [Wrote (claim_op c j rt w) (OBool True), Launched rt w] @ qs"
      using qs launch(3) assms(2) by simp
    have "\<not> done_write x" if "x \<in> set pre" for x using launch(1) that by (simp add: list_all_iff)
    then have "e \<in> set qs" using assms(3,4) es by (auto simp: claim_op_def)
    then obtain env op mid out post where e: "cold_allows c j cs env op" "e = Wrote op out" "qs = mid @ [Uploaded True, e] @ post"
      "list_all quiet (mid @ post)"
      using commits_done [OF launch(4), of qs e] qs assms(4) by auto
    then show ?thesis using launch(1,2) es unfolding cold_allows_def
      by (intro exI [of _ env] exI [of _ out] exI [of _ rt] exI [of _ w] exI [of _ pre] exI [of _ mid] exI [of _ post]) simp
  qed
qed

text \<open>
  a container starts at most once per claim, and only behind the fence.  When a cold run starts a
  container, the store has just confirmed the claim in a write that went through, nothing else starts
  before or after, what starts is the run the accepted network plan gives for the engine's own image,
  and a personality behind a gateway starts on a node whose egress is not known to be degraded and not
  in a cooldown.
\<close>

theorem cold_launch_fenced:
  assumes "dispatch_inner step get c j cs d = (r, d')" and "dp_trace d' = dp_trace d @ es"
    and "Launched rt w \<in> set es"
  shows "planned_run c j cs rt w \<and> egress_open c j cs d
    \<and> (\<exists>pre post. es = pre @ [Wrote (claim_op c j rt w) (OBool True), Launched rt w] @ post
        \<and> list_all (\<lambda>e. \<not> is_launch e) (pre @ post))"
proof -
  have "cold_ends (\<lambda>rt w. planned_run c j cs rt w \<and> egress_open c j cs d) c j cs d (r, d')"
    using dispatch_inner_ends [of c j cs d step get] assms(1) by simp
  then consider (still) "grows quiet d d'"
    | (launch) pre rt' w' d2 b where "list_all quiet pre" "planned_run c j cs rt' w'" "egress_open c j cs d"
        "dp_trace d2 = dp_trace d @ pre @ [Wrote (claim_op c j rt' w') (OBool True), Launched rt' w']"
        "commits (cold_allows c j cs) d2 (b, d')"
    unfolding cold_ends_def by auto
  then show ?thesis
  proof cases
    case still
    then show ?thesis using assms(2,3) by (auto simp: grows_def list_all_iff)
  next
    case launch
    obtain qs where qs: "dp_trace d' = dp_trace d2 @ qs" "list_all (\<lambda>e. \<not> is_launch e) qs" using launch(5)
      by (auto simp: grows_def list_all_iff elim!: commits_cases)
    have es: "es = pre @ [Wrote (claim_op c j rt' w') (OBool True), Launched rt' w'] @ qs"
      using qs launch(4) assms(2) by simp
    have np: "list_all (\<lambda>e. \<not> is_launch e) (pre @ qs)" using launch(1) qs(2) unfolding list_all_iff set_append by blast
    have "\<not> is_launch x" if "x \<in> set (pre @ qs)" for x using np that unfolding list_all_iff by blast
    from this [of "Launched rt w"] have "Launched rt w \<notin> set (pre @ qs)" by auto
    then have "rt' = rt" "w' = w" using assms(3) es by auto
    then show ?thesis using launch(2,3) es np by blast
  qed
qed

text \<open>
  a stale claim starts no container.  When no running job carries the token the dispatcher holds and
  the other clients are discreet about it, a cold run launches nothing, every write it attempts is
  refused, it raises nothing and leaves no container behind.
\<close>

theorem lost_claim_never_launches:
  assumes "redis_inv (dp_store d)" and "spent t (\<lambda>k. redis_get k (dp_store d))" and "patient t d"
    and "claim_id j = Some t" and "0 < fs_now cs" and "0 \<le> dc_blob_backoff c"
  shows "\<exists>d' es. dispatch_inner redis_step redis_get c j cs d = ((False, None), d')
    \<and> dp_trace d' = dp_trace d @ es \<and> list_all lost es"
proof -
  have "redis.stale t d" using assms(1-3) by (simp add: redis.stale_def)
  from redis.stale_cold [OF this assms(4-6)] show ?thesis
    by (metis grows_def prod.collapse)
qed

text \<open>The refusal on a degraded node starts a cooldown of at least two seconds.\<close>

lemma map_of_filter_kept: "map_of xs k = Some v \<Longrightarrow> P (k, v) \<Longrightarrow> map_of (filter P xs) k = Some v"
  by (induction xs) (auto split: if_splits)

lemma refusal_cools:
  assumes "2 \<le> cap" "0 < now" "now' < now + 2" "note_egress_refusal cap shared now now' own g = (s, g')"
  shows "s \<le> shared \<and> (\<forall>t < now + 2. in_cooldown t own g')"
proof -
  obtain n b' where b: "bump_egress_defer own \<lparr>bo_n = bo_n g, bo_floor = bo_floor g\<rparr> = (n, b')" by fastforce
  obtain sd delay where p: "egress_defer_plan cap shared n = (sd, delay)" by fastforce
  have "(1::real) \<le> 2 ^ min (n - 1) 8" by (rule one_le_power) simp
  then have d: "2 \<le> delay" "sd \<le> shared" using p assms(1) by (auto simp: egress_defer_plan_def Let_def)
  let ?cool = "AList.update own (now + delay) (gd_cooldown g)"
  have g': "s = sd" "gd_cooldown g' = (if EGRESS_DEFER_MAX < length ?cool then filter (\<lambda>kv. now' < snd kv) ?cool else ?cool)"
    using assms(4) by (auto simp: note_egress_refusal_def b p Let_def)
  have m: "map_of ?cool own = Some (now + delay)" by (simp add: update_conv)
  have "map_of (gd_cooldown g') own = Some (now + delay)"
    using g'(2) m map_of_filter_kept [OF m, of "\<lambda>kv. now' < snd kv"] assms(3) d(1) by simp
  then show ?thesis using g'(1) d assms(2) by (auto simp: in_cooldown_def)
qed

text \<open>
  a node with degraded egress keeps nobody's job.  A job whose personality leaves through a gateway
  that is known to be degraded is not run and not failed: the run is one write that puts it back into
  the queue, open to peers after the shared bound at most, and this node stays away from it for at least
  two seconds; within that time a further claim is given back in the same way, without asking the
  gateway again.
\<close>

theorem degraded_egress_releases:
  assumes "map_of (dc_engines c) (engine j) = Some es" and "cs_sample cs = Present" and "cs_runtime cs = Some rt"
    and "rt_name rt = ''runc''" and "gated_by_gateway_health (resolve_personality c j)"
    and "cs_healthy cs = Some False \<or> in_cooldown (cs_clock cs) (job_id j) (dp_egress d)"
    and "2 \<le> dc_defer_cap c" "0 < cs_clock cs" "cs_clock_drop cs < cs_clock cs + 2"
  shows "\<exists>out s d'. dispatch_inner step get c j cs d = ((False, None), d') \<and> s \<le> dc_shared_defer c
    \<and> dp_trace d' = dp_trace d @ [Wrote (requeue_claimed (fs_now cs) (dc_requeue_backoff c) True (Some s) j) out]
    \<and> (\<not> in_cooldown (cs_clock cs) (job_id j) (dp_egress d) \<longrightarrow>
         (\<forall>t < cs_clock cs + 2. in_cooldown t (job_id j) (dp_egress d')))"
proof -
  let ?p = "resolve_personality c j"
  have plan: "net_plan_of (cs_canon cs) (rt_name rt) (job_id j) (dc_net_capture c) ?p \<noteq> Inl NeedsNetns"
    using assms(4) by (auto simp: net_plan_of_def net_refusal_def split: option.splits)
  have rq: "\<exists>out. dp_trace (requeue_now step c (fs_now cs) True (Some s) j x) = dp_trace x
      @ [Wrote (requeue_claimed (fs_now cs) (dc_requeue_backoff c) True (Some s) j) out]
      \<and> dp_egress (requeue_now step c (fs_now cs) True (Some s) j x) = dp_egress x" for s x
  proof -
    obtain out x' where sb: "submit step (requeue_claimed (fs_now cs) (dc_requeue_backoff c) True (Some s) j) x = (out, x')" by fastforce
    have "dp_egress x' = dp_egress x"
      using sb by (auto simp: submit_def others_def emit_def Let_def split_beta split: list.splits)
    then show ?thesis using submit_trace [OF sb] by (simp add: requeue_now_def sb)
  qed
  have e: "dispatch_inner step get c j cs d = ((False, None), snd (egress_gate step c j cs ?p d))"
    if "\<not> fst (egress_gate step c j cs ?p d)"
    using that plan assms(1-3) by (simp add: dispatch_inner_def materialise_sample_def cold_admit_def split_beta)
  show ?thesis
  proof (cases "in_cooldown (cs_clock cs) (job_id j) (dp_egress d)")
    case True
    then have "egress_gate step c j cs ?p d = (False, requeue_now step c (fs_now cs) True (Some (dc_shared_defer c)) j d)"
      using assms(5) by (simp add: egress_gate_def)
    then show ?thesis using e rq [of "dc_shared_defer c" d] True by auto
  next
    case False
    obtain s g where n: "note_egress_refusal (dc_defer_cap c) (dc_shared_defer c) (cs_clock cs) (cs_clock_drop cs)
        (job_id j) (dp_egress d) = (s, g)" by fastforce
    have "egress_gate step c j cs ?p d = (False, requeue_now step c (fs_now cs) True (Some s) j (d\<lparr>dp_egress := g\<rparr>))"
      using assms(5,6) False n by (simp add: egress_gate_def)
    moreover obtain out where "dp_trace (requeue_now step c (fs_now cs) True (Some s) j (d\<lparr>dp_egress := g\<rparr>)) =
        dp_trace d @ [Wrote (requeue_claimed (fs_now cs) (dc_requeue_backoff c) True (Some s) j) out]"
      "dp_egress (requeue_now step c (fs_now cs) True (Some s) j (d\<lparr>dp_egress := g\<rparr>)) = g"
      using rq [of s "d\<lparr>dp_egress := g\<rparr>"] by auto
    ultimately show ?thesis
      using e refusal_cools [OF assms(7-9) n]
      by (intro exI [of _ out] exI [of _ s] exI [of _ "requeue_now step c (fs_now cs) True (Some s) j (d\<lparr>dp_egress := g\<rparr>)"]) simp
  qed
qed

section \<open>A concrete run\<close>

definition demo_cold :: "launch_answer \<Rightarrow> envelope \<Rightarrow> cold_seams" where
  "demo_cold answer env = \<lparr>fs_claim_up = True, fs_sealed = True, fs_stored = True, fs_reap_up = True, fs_now = 200,
     fs_done_at = 200, fs_summary = (\<lambda>_. JNull), cs_sample = Present, cs_runtime = Some demo_runsc, cs_proxy_env = [],
     cs_clock = 100, cs_clock_drop = 100, cs_healthy = None, cs_canon = (\<lambda>_. None), cs_prepared = True, cs_launch = answer,
     cs_size = SizeOk, cs_verdict = Trusted env, cs_written = True\<rparr>"

definition demo_cold_run :: "cout \<times> mem_store disp" where
  "demo_cold_run = dispatch_inner mem_step mem_get demo_cfg (demo_run_job ''t1'') (demo_cold Exited demo_sealed)
     (demo_disp (mem_create (demo_run_job ''t1'') mem_empty))"

lemmas cold_defs = dispatch_inner_def cold_admit_def cold_launch_def cold_output_def cold_judge_def cold_publish_def
  cold_fail_def egress_gate_def

lemma demo_job_facts [simp]: "net_policy (demo_run_job t) = None" "engine (demo_run_job t) = ''eng''"
  by (simp_all add: demo_run_job_def claimed_def demo_old_def Job_new_def)

lemma demo_cold_plan:
  "resolve_personality demo_cfg (demo_run_job t) = NONE" "map_of (dc_engines demo_cfg) (engine (demo_run_job t)) = Some demo_engine"
  "net_plan_of (\<lambda>_. None) (rt_name demo_runsc) (job_id (demo_run_job t)) (dc_net_capture demo_cfg) NONE = Inr demo_plan"
  "\<not> gated_by_gateway_health NONE"
  using demo_planned
  by (simp_all add: resolve_personality_def resolve_net_policy_def resolve_default_def demo_cfg_def demo_engine_def
      gated_by_gateway_health_def NONE_def)

lemma demo_cold_trace:
  "\<exists>a rt w b l. dp_trace (snd demo_cold_run) = [a, Launched rt w, Published, l, Uploaded True, b, Indexed] \<and> done_write b"
proof -
  obtain w where w: "w = cold_run (dc_render demo_cfg) demo_engine (demo_run_job ''t1'') demo_plan NONE (dc_job_dir demo_cfg ''a1'') []"
    by blast
  have a: "dispatch_inner mem_step mem_get demo_cfg (demo_run_job ''t1'') (demo_cold Exited demo_sealed)
      (demo_disp (mem_create (demo_run_job ''t1'') mem_empty)) =
    cold_launch mem_step mem_get demo_cfg (demo_run_job ''t1'') (demo_cold Exited demo_sealed) demo_runsc w
      (demo_disp (mem_create (demo_run_job ''t1'') mem_empty))"
    using demo_cold_plan(1-3) [where t = "''t1''"] demo_cold_plan(4) by (simp add: w dispatch_inner_def cold_admit_def egress_gate_def demo_cold_def materialise_sample_def)
  show ?thesis unfolding demo_cold_run_def a
    by (simp add: cold_defs disp_defs demo_store_defs demo_cold_def demo_disp_def demo_sealed_def demo_parsed_def)
qed

text \<open>The run of the demonstration commits the envelope that was judged, behind its launch.\<close>

theorem cold_done_only_after_trust_witness:
  "\<exists>env rt w pre mid x e post. cold_trusted (demo_cold Exited demo_sealed) env \<and> done_write e
     \<and> dp_trace (snd demo_cold_run) = pre @ [x, Launched rt w] @ mid @ [Uploaded True, e] @ post"
proof -
  obtain a rt w b l where t: "dp_trace (snd demo_cold_run) = [a, Launched rt w, Published, l, Uploaded True, b, Indexed]" "done_write b"
    using demo_cold_trace by blast
  have d: "dp_trace (demo_disp (mem_create (demo_run_job ''t1'') mem_empty)) = []" by (simp add: demo_disp_def)
  from cold_done_only_after_trust [of mem_step mem_get demo_cfg "demo_run_job ''t1''" "demo_cold Exited demo_sealed"
      "demo_disp (mem_create (demo_run_job ''t1'') mem_empty)" "fst demo_cold_run" "snd demo_cold_run"
      "dp_trace (snd demo_cold_run)" b] d t
  show ?thesis by (fastforce simp: demo_cold_run_def)
qed

theorem cold_launch_fenced_witness:
  "\<exists>rt w pre post. planned_run demo_cfg (demo_run_job ''t1'') (demo_cold Exited demo_sealed) rt w
     \<and> dp_trace (snd demo_cold_run) = pre @ [Wrote (claim_op demo_cfg (demo_run_job ''t1'') rt w) (OBool True), Launched rt w] @ post"
proof -
  obtain a rt w b l where t: "dp_trace (snd demo_cold_run) = [a, Launched rt w, Published, l, Uploaded True, b, Indexed]"
    using demo_cold_trace by blast
  have d: "dp_trace (demo_disp (mem_create (demo_run_job ''t1'') mem_empty)) = []" by (simp add: demo_disp_def)
  from cold_launch_fenced [of mem_step mem_get demo_cfg "demo_run_job ''t1''" "demo_cold Exited demo_sealed"
      "demo_disp (mem_create (demo_run_job ''t1'') mem_empty)" "fst demo_cold_run" "snd demo_cold_run"
      "dp_trace (snd demo_cold_run)" rt w] d t
  show ?thesis by (fastforce simp: demo_cold_run_def)
qed

theorem lost_claim_never_launches_witness:
  "\<exists>d' es. dispatch_inner redis_step redis_get demo_cfg (demo_run_job ''t1'') (demo_cold Exited demo_sealed)
      (demo_disp (redis_create (demo_run_job ''t2'') [])) = ((False, None), d')
    \<and> dp_trace d' = es \<and> list_all lost es"
proof -
  have "redis_inv (dp_store (demo_disp (redis_create (demo_run_job ''t2'') [])))"
    "spent ''t1'' (\<lambda>k. redis_get k (dp_store (demo_disp (redis_create (demo_run_job ''t2'') []))))"
    "patient ''t1'' (demo_disp (redis_create (demo_run_job ''t2'') []))"
    using demo_run_kv(1) [of "''t2''"]
    by (auto simp: demo_disp_def patient_def spent_def live_claim_def redis_create_def redis_get_def fetch_def decode_encode
        split: if_splits)
  from lost_claim_never_launches [OF this, of "demo_run_job ''t1''" "demo_cold Exited demo_sealed" demo_cfg]
  show ?thesis by (simp add: demo_cold_def demo_disp_def demo_cfg_def)
qed

definition demo_vpn :: personality where
  "demo_vpn = \<lparr>pn_name = ''vpn'', pn_exit = ''openvpn'', pn_inspect = False, pn_config = [(''gateway'', ''10.0.0.1'')]\<rparr>"

theorem degraded_egress_releases_witness:
  "\<exists>out s d'. dp_trace d' = [Wrote (requeue_claimed 200 2 True (Some s) (demo_run_job ''t1'')) out] \<and> s \<le> 5
     \<and> snd (dispatch_inner mem_step mem_get
         (demo_cfg\<lparr>dc_registry := [(''vpn'', demo_vpn)], dc_engines := [(''eng'', demo_engine\<lparr>es_net_policy := ''vpn''\<rparr>)]\<rparr>)
         (demo_run_job ''t1'')
         ((demo_cold Exited demo_sealed)\<lparr>cs_runtime := Some (demo_runsc\<lparr>rt_name := ''runc''\<rparr>), cs_healthy := Some False\<rparr>)
         (demo_disp (mem_create (demo_run_job ''t1'') mem_empty))) = d'"
proof -
  let ?c = "demo_cfg\<lparr>dc_registry := [(''vpn'', demo_vpn)], dc_engines := [(''eng'', demo_engine\<lparr>es_net_policy := ''vpn''\<rparr>)]\<rparr>"
  let ?cs = "(demo_cold Exited demo_sealed)\<lparr>cs_runtime := Some (demo_runsc\<lparr>rt_name := ''runc''\<rparr>), cs_healthy := Some False\<rparr>"
  let ?d = "demo_disp (mem_create (demo_run_job ''t1'') mem_empty)"
  have p: "resolve_personality ?c (demo_run_job ''t1'') = demo_vpn"
    by (simp add: resolve_personality_def resolve_net_policy_def resolve_default_def)
  have g: "gated_by_gateway_health (resolve_personality ?c (demo_run_job ''t1''))"
    unfolding p by (simp add: gated_by_gateway_health_def demo_vpn_def)
  have "\<exists>out s d'. dispatch_inner mem_step mem_get ?c (demo_run_job ''t1'') ?cs ?d = ((False, None), d') \<and> s \<le> dc_shared_defer ?c
    \<and> dp_trace d' = dp_trace ?d @ [Wrote (requeue_claimed (fs_now ?cs) (dc_requeue_backoff ?c) True (Some s) (demo_run_job ''t1'')) out]
    \<and> (\<not> in_cooldown (cs_clock ?cs) (job_id (demo_run_job ''t1'')) (dp_egress ?d) \<longrightarrow>
         (\<forall>t < cs_clock ?cs + 2. in_cooldown t (job_id (demo_run_job ''t1'')) (dp_egress d')))"
    by (rule degraded_egress_releases [where rt = "demo_runsc\<lparr>rt_name := ''runc''\<rparr>" and es = "demo_engine\<lparr>es_net_policy := ''vpn''\<rparr>", OF _ _ _ _ g])
      (simp_all add: demo_cfg_def demo_cold_def demo_runsc_def)
  then obtain out s d' where "snd (dispatch_inner mem_step mem_get ?c (demo_run_job ''t1'') ?cs ?d) = d'" "s \<le> 5"
    "dp_trace d' = [Wrote (requeue_claimed 200 2 True (Some s) (demo_run_job ''t1'')) out]"
    by (elim exE conjE) (simp add: demo_cfg_def demo_cold_def demo_disp_def)
  then show ?thesis by (intro exI [of _ out] exI [of _ s] exI [of _ d']) simp
qed

end
