(* ===== verification/Dispatch_Once.thy ===== *)
theory Dispatch_Once
  imports Dispatch_Cold
begin

text \<open>
  \<open>dispatch_once\<close> and \<open>_dispatch_claimed_job\<close> of \<^verbatim>\<open>host/dispatch.py\<close>: claim one job, ask the node's
  grants, and run it on a warm slot or in a cold container, with the reservations of warm slots, the
  permits of the concurrency gate, the containers not confirmed gone and the deletion of the job's files
  that go with it; and \<open>_reconcile_cold_orphans\<close>, which gives the permits of gone containers back.
\<close>

section \<open>The operations\<close>

datatype slot_answer = GotSlot | NoSlot | ClaimRaised

record once_seams =
  on_idle :: "int option"
  on_request :: claim_req
  on_clock :: real
  on_clock_noted :: real
  on_clock_drop :: real
  on_world :: sg_world
  on_slot :: slot_answer
  on_warm :: "job \<Rightarrow> warm_seams"
  on_cold :: "job \<Rightarrow> cold_seams"
  on_now :: real
  on_warm_only :: bool
  on_stopping :: bool
  on_input_up :: bool
  on_purge_up :: bool

text \<open>\<open>_reserve_warm_slot\<close>: \<open>on_idle\<close> is the pool's idle count, \<^const>\<open>None\<close> without a pool.\<close>

definition reserve_warm_slot :: "int option \<Rightarrow> 's disp \<Rightarrow> bool \<times> 's disp" where
  "reserve_warm_slot idle d =
     (case idle of
        None \<Rightarrow> (False, d)
      | Some n \<Rightarrow> if n - int (dp_reserved d) \<le> 0 then (False, d) else (True, d\<lparr>dp_reserved := dp_reserved d + 1\<rparr>))"

definition release_warm_reservation :: "bool \<Rightarrow> 's disp \<Rightarrow> 's disp" where
  "release_warm_reservation reserved d =
     (if reserved then emit ReservationReleased (if 0 < dp_reserved d then d\<lparr>dp_reserved := dp_reserved d - 1\<rparr> else d) else d)"

text \<open>The files of a job go only while its claim is still the run's, or its record is gone.\<close>

definition delete_input_if_owned ::
  "(store_op \<Rightarrow> 's \<Rightarrow> outcome \<times> 's) \<Rightarrow> (string \<Rightarrow> 's \<Rightarrow> job option) \<Rightarrow> bool \<Rightarrow> job \<Rightarrow> 's disp \<Rightarrow> 's disp" where
  "delete_input_if_owned step get up j d =
     (case look step get up (job_id j) d of (r, d1) \<Rightarrow> if may_purge r (claim_id j) then emit (Deleted True) d1 else d1)"

definition purge_job_dir_if_owned ::
  "(store_op \<Rightarrow> 's \<Rightarrow> outcome \<times> 's) \<Rightarrow> (string \<Rightarrow> 's \<Rightarrow> job option) \<Rightarrow> bool \<Rightarrow> string \<Rightarrow> string option \<Rightarrow> 's disp \<Rightarrow> 's disp" where
  "purge_job_dir_if_owned step get up jid claim d =
     (if jid \<in> dp_failed_uploads d then d\<lparr>dp_failed_uploads := dp_failed_uploads d - {jid}\<rparr>
      else case look step get up jid d of (r, d1) \<Rightarrow> if may_purge r claim then emit (Purged True) d1 else d1)"

text \<open>A refusal by the grants gate: counted, and the job handed back for a window.\<close>

definition refuse_job ::
  "(store_op \<Rightarrow> 's \<Rightarrow> outcome \<times> 's) \<Rightarrow> disp_cfg \<Rightarrow> once_seams \<Rightarrow> bool \<Rightarrow> job \<Rightarrow> 's disp \<Rightarrow> 's disp" where
  "refuse_job step c s reserved j d =
     (case note_grants_refusal (dc_defer_cap c) (dc_shared_defer c) (on_clock_noted s) (on_clock_drop s) (job_id j) (dp_grants d) of
        ((n, shared_defer), g) \<Rightarrow>
          requeue_now step c (on_now s) True (Some shared_defer) j (release_warm_reservation reserved (d\<lparr>dp_grants := g\<rparr>)))"

definition after_warm ::
  "(store_op \<Rightarrow> 's \<Rightarrow> outcome \<times> 's) \<Rightarrow> (string \<Rightarrow> 's \<Rightarrow> job option) \<Rightarrow> once_seams \<Rightarrow> job \<Rightarrow> 's disp \<Rightarrow> 's disp" where
  "after_warm step get s j d =
     purge_job_dir_if_owned step get (on_purge_up s) (job_id j) (claim_id j) (delete_input_if_owned step get (on_input_up s) j d)"

text \<open>The \<^verbatim>\<open>finally\<close> of a cold run: a container not confirmed gone keeps its permit and its directory.\<close>

definition after_cold ::
  "(store_op \<Rightarrow> 's \<Rightarrow> outcome \<times> 's) \<Rightarrow> (string \<Rightarrow> 's \<Rightarrow> job option) \<Rightarrow> once_seams \<Rightarrow> job \<Rightarrow> string option \<Rightarrow> 's disp \<Rightarrow> 's disp" where
  "after_cold step get s j orphan d =
     (case orphan of
        Some n \<Rightarrow>
          delete_input_if_owned step get (on_input_up s) j
            (emit (OrphanKept n) (d\<lparr>dp_orphans := AList.update n (job_id j, claim_id j) (dp_orphans d)\<rparr>))
      | None \<Rightarrow>
          (let d1 = (case dp_gate d of None \<Rightarrow> d | Some g \<Rightarrow> emit PermitReleased (d\<lparr>dp_gate := Some (release g)\<rparr>))
           in purge_job_dir_if_owned step get (on_purge_up s) (job_id j) (claim_id j)
                (delete_input_if_owned step get (on_input_up s) j d1)))"

definition run_cold ::
  "(store_op \<Rightarrow> 's \<Rightarrow> outcome \<times> 's) \<Rightarrow> (string \<Rightarrow> 's \<Rightarrow> job option) \<Rightarrow> disp_cfg \<Rightarrow> once_seams \<Rightarrow> job \<Rightarrow> 's disp \<Rightarrow> bool \<times> 's disp" where
  "run_cold step get c s j d =
     (case dispatch_inner step get c j (on_cold s j) d of ((raised, orphan), d1) \<Rightarrow> (raised, after_cold step get s j orphan d1))"

definition cold_path ::
  "(store_op \<Rightarrow> 's \<Rightarrow> outcome \<times> 's) \<Rightarrow> (string \<Rightarrow> 's \<Rightarrow> job option) \<Rightarrow> disp_cfg \<Rightarrow> once_seams \<Rightarrow> job \<Rightarrow> 's disp \<Rightarrow> bool \<times> 's disp" where
  "cold_path step get c s j d =
     (case dp_gate d of
        None \<Rightarrow> run_cold step get c s j d
      | Some g \<Rightarrow>
          if on_stopping s then (False, requeue_now step c (on_now s) False None j d)
          else (case acquire [] g of (ok, g') \<Rightarrow>
            if \<not> ok then (False, requeue_now step c (on_now s) True None j (d\<lparr>dp_gate := Some g'\<rparr>))
            else run_cold step get c s j (emit PermitTaken (d\<lparr>dp_gate := Some g'\<rparr>))))"

text \<open>With a pool: an egress personality never takes a slot; a claim that raises gives the reservation
  back and leaves the method.\<close>

definition warm_or_cold ::
  "(store_op \<Rightarrow> 's \<Rightarrow> outcome \<times> 's) \<Rightarrow> (string \<Rightarrow> 's \<Rightarrow> job option) \<Rightarrow> disp_cfg \<Rightarrow> once_seams \<Rightarrow> bool \<Rightarrow> job \<Rightarrow> 's disp
     \<Rightarrow> bool \<times> 's disp" where
  "warm_or_cold step get c s reserved j d =
     (if on_idle s = None then cold_path step get c s j d
      else let egress = has_egress (resolve_personality c j); answer = (if egress then NoSlot else on_slot s);
               d1 = release_warm_reservation reserved (if egress then d else emit (SlotClaimed (answer = GotSlot)) d)
           in case answer of
                ClaimRaised \<Rightarrow> (True, d1)
              | GotSlot \<Rightarrow> (case dispatch_warm step get c j (on_warm s j) d1 of (raised, d2) \<Rightarrow> (raised, after_warm step get s j d2))
              | NoSlot \<Rightarrow>
                  if on_warm_only s then (False, requeue_now step c (on_now s) False None j d1)
                  else cold_path step get c s j d1)"

definition dispatch_claimed_job ::
  "(store_op \<Rightarrow> 's \<Rightarrow> outcome \<times> 's) \<Rightarrow> (string \<Rightarrow> 's \<Rightarrow> job option) \<Rightarrow> disp_cfg \<Rightarrow> once_seams \<Rightarrow> bool \<Rightarrow> job \<Rightarrow> 's disp
     \<Rightarrow> bool \<times> 's disp" where
  "dispatch_claimed_job step get c s reserved j d =
     (if in_cooldown (on_clock s) (job_id j) (dp_grants d) then
        (False, requeue_now step c (on_now s) True (Some (dc_shared_defer c)) j (release_warm_reservation reserved d))
      else if map_of (dc_engines c) (engine j) = None then
        (case self_grants_of (on_world s) (dp_self d) of (answer, sg) \<Rightarrow>
           if answer \<noteq> NoGate then (False, refuse_job step c s reserved j (d\<lparr>dp_self := sg\<rparr>))
           else warm_or_cold step get c s reserved j (d\<lparr>dp_self := sg\<rparr>))
      else (case refuse (on_world s) (engine j) (Some (pn_exit (resolve_personality c j))) (dp_self d) of (why, sg) \<Rightarrow>
        if why \<noteq> None then (False, refuse_job step c s reserved j (d\<lparr>dp_self := sg\<rparr>))
        else warm_or_cold step get c s reserved j
               (d\<lparr>dp_self := sg, dp_grants := clear_refusal (job_id j) (dp_grants d)\<rparr>)))"

text \<open>\<open>dispatch_once\<close>: the answer is whether a job was claimed, and whether an exception leaves.\<close>

definition dispatch_once ::
  "(store_op \<Rightarrow> 's \<Rightarrow> outcome \<times> 's) \<Rightarrow> (string \<Rightarrow> 's \<Rightarrow> job option) \<Rightarrow> disp_cfg \<Rightarrow> once_seams \<Rightarrow> 's disp
     \<Rightarrow> (bool \<times> bool) \<times> 's disp" where
  "dispatch_once step get c s d =
     (case (if on_warm_only s then reserve_warm_slot (on_idle s) d else (True, d)) of (go, d1) \<Rightarrow>
        if \<not> go then ((False, False), d1)
        else case submit step (OpClaim (on_request s)) d1 of (out, d2) \<Rightarrow>
          (case out of
             OJob (Some j) \<Rightarrow> (case dispatch_claimed_job step get c s (on_warm_only s) j d2 of (raised, d3) \<Rightarrow> ((True, raised), d3))
           | OJob None \<Rightarrow> ((False, False), release_warm_reservation (on_warm_only s) d2)
           | _ \<Rightarrow> ((False, True), release_warm_reservation (on_warm_only s) d2)))"

text \<open>\<open>_reconcile_cold_orphans\<close>: \<open>live\<close> are the job ids docker lists, \<^const>\<open>None\<close> when it could not.\<close>

definition gone_orphans :: "string list \<Rightarrow> 's disp \<Rightarrow> (string \<times> string \<times> string option) list" where
  "gone_orphans live d = filter (\<lambda>o'. fst o' \<notin> set (map container_name live)) (dp_orphans d)"

definition reconcile_cold_orphans ::
  "(store_op \<Rightarrow> 's \<Rightarrow> outcome \<times> 's) \<Rightarrow> (string \<Rightarrow> 's \<Rightarrow> job option) \<Rightarrow> bool \<Rightarrow> string list option \<Rightarrow> 's disp \<Rightarrow> 's disp" where
  "reconcile_cold_orphans step get up live d =
     (case live of
        None \<Rightarrow> d
      | Some ids \<Rightarrow>
          (let gone = gone_orphans ids d;
               d1 = d\<lparr>dp_orphans := filter (\<lambda>o'. fst o' \<in> set (map container_name ids)) (dp_orphans d),
                      dp_gate := map_option ((release ^^ length gone)) (dp_gate d)\<rparr>
           in fold (\<lambda>o'. purge_job_dir_if_owned step get up (fst (snd o')) (snd (snd o'))) gone d1))"

section \<open>The books\<close>

text \<open>What a run itself leaves alone: the reservations, the gate, the retained containers, and the grants.\<close>

definition books :: "'s disp \<Rightarrow> nat \<times> gate option \<times> (string \<times> string \<times> string option) list" where
  "books d = (dp_reserved d, dp_gate d, dp_orphans d)"

lemma books_frame [simp]:
  "books (emit e d) = books d" "books (others step d) = books d" "books (d\<lparr>dp_egress := g\<rparr>) = books d"
  "books (d\<lparr>dp_failed_uploads := fu\<rparr>) = books d" "books (d\<lparr>dp_grants := g\<rparr>) = books d" "books (d\<lparr>dp_self := sg\<rparr>) = books d"
  by (simp_all add: books_def emit_def others_def split: list.split)

lemma books_submit [simp]: "books (snd (submit step op d)) = books d"
proof -
  have "books (d\<lparr>dp_store := s\<rparr>) = books d" for s and d :: "'a disp" by (simp add: books_def)
  then show ?thesis by (simp add: submit_def Let_def split_beta)
qed

lemma books_look [simp]: "books (snd (look step get up k d)) = books d"
  by (simp add: look_def Let_def)

lemma books_ops [simp]:
  "books (snd (cas step j fs d)) = books d" "books (snd (write_failed step c now j reason d)) = books d"
  "books (requeue_now step c now df ds j d) = books d" "books (snd (claim_is_still_ours step get up j d)) = books d"
  by (simp_all add: cas_def write_failed_def requeue_now_def claim_is_still_ours_def split_beta split: option.split)

lemma books_materialise [simp]: "books (snd (materialise_sample step c now j smp d)) = books d"
  by (cases smp) (simp_all add: materialise_sample_def Let_def)

lemma books_upload [simp]: "books (snd (upload_output step get sealed stored up j d)) = books d"
  by (simp add: upload_output_def Let_def split_beta)

lemma books_retain [simp]: "books (retain_for_upload_retry step c now j reason d) = books d"
  by (simp add: retain_for_upload_retry_def split_beta)

lemma books_finish [simp]: "books (snd (finish step get c j fs env d)) = books d"
  by (simp add: finish_def split_beta)

lemma books_warm [simp]: "books (snd (dispatch_warm step get c j ws d)) = books d"
proof -
  have f: "books (snd (warm_fail step c j ws fault reason x)) = books x" for fault reason and x :: "'a disp"
    by (simp add: warm_fail_def)
  have p: "books (snd (warm_publish step get c j ws env x)) = books x" for env and x :: "'a disp"
    by (cases "ws_publish ws") (simp_all add: warm_publish_def split_beta f)
  have jd: "books (snd (warm_judge step get c j ws x)) = books x" for x :: "'a disp"
    by (cases "ws_verdict ws") (simp_all add: warm_judge_def f p)
  have sz: "books (snd (warm_size step get c j ws x)) = books x" for x :: "'a disp"
    by (cases "ws_size ws") (simp_all add: warm_size_def f jd)
  have ot: "books (snd (warm_output step get c j ws x)) = books x" for x :: "'a disp"
    by (cases "ws_fetch ws") (simp_all add: warm_output_def f sz split_beta)
  have w: "books (snd (warm_wait step get c j ws x)) = books x" for x :: "'a disp"
    by (cases "ws_wait ws") (simp_all add: warm_wait_def f ot)
  have g: "books (snd (warm_go step get c j ws x)) = books x" for x :: "'a disp"
    by (cases "ws_go ws") (simp_all add: warm_go_def Let_def f w)
  have st: "books (snd (warm_stage step get c j ws x)) = books x" for x :: "'a disp"
    by (cases "ws_stage ws") (simp_all add: warm_stage_def f g)
  have "books (snd (warm_run step get c j ws d)) = books d" by (simp add: warm_run_def f st split_beta)
  then show ?thesis by (simp add: dispatch_warm_def split_beta)
qed

lemma books_inner [simp]: "books (snd (dispatch_inner step get c j cs d)) = books d"
proof -
  have f: "books (snd (cold_fail step c j cs reason x)) = books x" for reason and x :: "'a disp"
    by (simp add: cold_fail_def)
  have jd: "books (snd (cold_judge step get c j cs x)) = books x" for x :: "'a disp"
    by (cases "cs_verdict cs") (simp_all add: cold_judge_def cold_publish_def f)
  have ot: "books (snd (cold_output step get c j cs x)) = books x" for x :: "'a disp"
    by (cases "cs_size cs") (simp_all add: cold_output_def f jd)
  have l: "books (snd (cold_launch step get c j cs rt w x)) = books x" for rt w and x :: "'a disp"
    by (cases "cs_launch cs") (simp_all add: cold_launch_def Let_def f ot split_beta)
  have e: "books (snd (egress_gate step c j cs p x)) = books x" for p and x :: "'a disp"
    by (simp add: egress_gate_def split_beta)
  have a: "books (snd (cold_admit step get c j cs es rt p x)) = books x" for es rt p and x :: "'a disp"
    by (simp add: cold_admit_def split_beta f l e split: sum.split)
  show ?thesis by (simp add: dispatch_inner_def f a split_beta split: option.split)
qed

lemma books_delete [simp]: "books (delete_input_if_owned step get up j d) = books d"
  by (simp add: delete_input_if_owned_def split_beta)

lemma books_purge [simp]: "books (purge_job_dir_if_owned step get up jid claim d) = books d"
  by (simp add: purge_job_dir_if_owned_def split_beta)

lemma books_reservation: "books (release_warm_reservation r d) = (if r then dp_reserved d - 1 else dp_reserved d, dp_gate d, dp_orphans d)"
  by (simp add: release_warm_reservation_def books_def emit_def)

text \<open>A claimed job settles the reservation, and what it adds to the retained containers it adds to the
  permits in flight.\<close>

definition settled :: "bool \<Rightarrow> job \<Rightarrow> 's disp \<Rightarrow> 's disp \<Rightarrow> bool" where
  "settled reserved j d d' \<longleftrightarrow>
     dp_reserved d' = (if reserved then dp_reserved d - 1 else dp_reserved d)
     \<and> (dp_gate d' = dp_gate d \<and> dp_orphans d' = dp_orphans d
        \<or> dp_gate d' = map_option take_permit (dp_gate d)
          \<and> dp_orphans d' = AList.update (container_name (job_id j)) (job_id j, claim_id j) (dp_orphans d))"

lemma inner_orphan: "fst (dispatch_inner step get c j cs d) = (raised, Some n) \<Longrightarrow> n = container_name (job_id j)"
proof -
  have f: "snd (fst (cold_fail step c j cs reason x)) = None" for reason x by (simp add: cold_fail_def)
  have ot: "snd (fst (cold_output step get c j cs x)) = None" for x
    by (cases "cs_size cs"; cases "cs_verdict cs") (simp_all add: cold_output_def cold_judge_def cold_publish_def f)
  have l: "snd (fst (cold_launch step get c j cs rt w x)) \<in> {None, Some (container_name (job_id j))}" for rt w x
    by (cases "cs_launch cs") (auto simp: cold_launch_def Let_def f ot split_beta)
  have a: "snd (fst (cold_admit step get c j cs es rt p x)) \<in> {None, Some (container_name (job_id j))}" for es rt p x
    using l f by (auto simp: cold_admit_def split_beta split: sum.split)
  have "snd (fst (dispatch_inner step get c j cs d)) \<in> {None, Some (container_name (job_id j))}"
    using a f by (auto simp: dispatch_inner_def split_beta split: option.split)
  then show "fst (dispatch_inner step get c j cs d) = (raised, Some n) \<Longrightarrow> n = container_name (job_id j)" by auto
qed

lemma books_eq: "books d' = books d \<Longrightarrow> dp_reserved d' = dp_reserved d \<and> dp_gate d' = dp_gate d \<and> dp_orphans d' = dp_orphans d"
  by (simp add: books_def)

lemma run_cold_books:
  "\<exists>n. books (snd (run_cold step get c s j d)) =
     (dp_reserved d, if n then dp_gate d else map_option release (dp_gate d),
      if n then AList.update (container_name (job_id j)) (job_id j, claim_id j) (dp_orphans d) else dp_orphans d)"
proof -
  obtain raised orphan d1 where r: "dispatch_inner step get c j (on_cold s j) d = ((raised, orphan), d1)" by (metis prod.collapse)
  have b: "books d1 = books d" using books_inner [of step get c j "on_cold s j" d] r by simp
  note be = books_eq [OF b]
  show ?thesis
  proof (cases orphan)
    case None
    then have "books (snd (run_cold step get c s j d)) = (dp_reserved d, map_option release (dp_gate d), dp_orphans d)"
      using be by (cases "dp_gate d") (auto simp: run_cold_def r after_cold_def Let_def, auto simp: books_def emit_def)
    then show ?thesis by (intro exI [of _ False]) simp
  next
    case (Some n)
    have n: "n = container_name (job_id j)" using inner_orphan [of step get c j "on_cold s j" d raised n] r Some by simp
    have "books (snd (run_cold step get c s j d)) =
        (dp_reserved d, dp_gate d, AList.update (container_name (job_id j)) (job_id j, claim_id j) (dp_orphans d))"
      using be n Some by (simp add: run_cold_def r after_cold_def) (simp add: books_def)
    then show ?thesis by (intro exI [of _ True]) simp
  qed
qed

lemma release_take [simp]: "release (take_permit g) = g"
  by (simp add: release_def take_permit_def)

lemma cold_path_settles: "settled False j d (snd (cold_path step get c s j d))"
proof (cases "dp_gate d")
  case None
  obtain n where "books (snd (run_cold step get c s j d)) =
     (dp_reserved d, if n then dp_gate d else map_option release (dp_gate d),
      if n then AList.update (container_name (job_id j)) (job_id j, claim_id j) (dp_orphans d) else dp_orphans d)"
    using run_cold_books by blast
  then show ?thesis using None by (cases n) (simp_all add: cold_path_def settled_def books_def)
next
  case (Some g)
  show ?thesis
  proof (cases "on_stopping s \<or> full g")
    case True
    have "books (snd (cold_path step get c s j d)) = books d"
      using True Some by (auto simp: cold_path_def) (simp add: books_def)
    then show ?thesis by (simp add: books_def settled_def)
  next
    case False
    let ?d1 = "emit PermitTaken (d\<lparr>dp_gate := Some (take_permit g)\<rparr>)"
    obtain n where "books (snd (run_cold step get c s j ?d1)) =
       (dp_reserved ?d1, if n then dp_gate ?d1 else map_option release (dp_gate ?d1),
        if n then AList.update (container_name (job_id j)) (job_id j, claim_id j) (dp_orphans ?d1) else dp_orphans ?d1)"
      using run_cold_books by blast
    then have "books (snd (cold_path step get c s j d)) =
       (dp_reserved d, Some (if n then take_permit g else g),
        if n then AList.update (container_name (job_id j)) (job_id j, claim_id j) (dp_orphans d) else dp_orphans d)"
      using False Some by (cases n) (simp_all add: cold_path_def emit_def)
    then show ?thesis using Some by (cases n) (simp_all add: books_def settled_def)
  qed
qed

lemma settled_prefix: "books d1 = books (release_warm_reservation r d) \<Longrightarrow> settled False j d1 d' \<Longrightarrow> settled r j d d'"
  by (auto simp: settled_def books_reservation) (simp_all add: books_def)

lemma settled_books: "books d' = books (release_warm_reservation r d) \<Longrightarrow> settled r j d d'"
  unfolding books_reservation by (auto simp: settled_def books_def)

lemma release_books: "books d1 = books d \<Longrightarrow> books (release_warm_reservation r d1) = books (release_warm_reservation r d)"
  unfolding books_reservation by (auto simp: books_def)

lemma warm_or_cold_settles:
  assumes "reserved \<Longrightarrow> on_idle s \<noteq> None" and "books d1 = books d"
  shows "settled reserved j d (snd (warm_or_cold step get c s reserved j d1))"
proof (cases "on_idle s")
  case None
  then have "\<not> reserved" using assms(1) by blast
  then have "books d1 = books (release_warm_reservation reserved d)" using assms(2) by (simp add: release_warm_reservation_def)
  from settled_prefix [OF this cold_path_settles] show ?thesis using None by (simp add: warm_or_cold_def)
next
  case (Some idle)
  define egress where "egress = has_egress (resolve_personality c j)"
  define answer where "answer = (if egress then NoSlot else on_slot s)"
  define d2 where "d2 = release_warm_reservation reserved (if egress then d1 else emit (SlotClaimed (answer = GotSlot)) d1)"
  have eq: "warm_or_cold step get c s reserved j d1 = (case answer of
      ClaimRaised \<Rightarrow> (True, d2)
    | GotSlot \<Rightarrow> (case dispatch_warm step get c j (on_warm s j) d2 of (raised, d3) \<Rightarrow> (raised, after_warm step get s j d3))
    | NoSlot \<Rightarrow> if on_warm_only s then (False, requeue_now step c (on_now s) False None j d2) else cold_path step get c s j d2)"
    using Some unfolding warm_or_cold_def Let_def d2_def answer_def egress_def by simp
  have b: "books d2 = books (release_warm_reservation reserved d)"
    unfolding d2_def by (rule release_books) (simp add: assms(2))
  have c: "settled reserved j d (snd (cold_path step get c s j d2))" by (rule settled_prefix [OF b cold_path_settles])
  have x: "settled reserved j d x" if "books x = books d2" for x
    using settled_books [of x reserved d j] that b by simp
  have w: "books (snd (case dispatch_warm step get c j (on_warm s j) d2 of (raised, d3) \<Rightarrow> (raised, after_warm step get s j d3))) = books d2"
    by (simp add: split_beta after_warm_def)
  have q: "books (requeue_now step c (on_now s) False None j d2) = books d2" by simp
  show ?thesis
  proof (cases answer)
    case GotSlot
    show ?thesis unfolding eq GotSlot slot_answer.case by (rule x [OF w])
  next
    case NoSlot
    show ?thesis unfolding eq NoSlot slot_answer.case using c x [OF q] by (cases "on_warm_only s") simp_all
  next
    case ClaimRaised
    show ?thesis unfolding eq ClaimRaised slot_answer.case snd_conv by (rule x) (rule refl)
  qed
qed

lemma refuse_job_settles: "books d1 = books d \<Longrightarrow> settled reserved j d (refuse_job step c s reserved j d1)"
proof (rule settled_books)
  assume "books d1 = books d"
  then have "books (release_warm_reservation reserved (d1\<lparr>dp_grants := g\<rparr>)) = books (release_warm_reservation reserved d)" for g
    by (intro release_books) simp
  then show "books (refuse_job step c s reserved j d1) = books (release_warm_reservation reserved d)"
    by (simp add: refuse_job_def split_beta)
qed

lemma claimed_job_settles:
  assumes "reserved \<Longrightarrow> on_idle s \<noteq> None"
  shows "settled reserved j d (snd (dispatch_claimed_job step get c s reserved j d))"
proof -
  have r: "settled reserved j d (requeue_now step c now df ds j (release_warm_reservation reserved d))" for now df ds
    by (rule settled_books) simp
  have f: "settled reserved j d (refuse_job step c s reserved j (d\<lparr>dp_self := sg\<rparr>))" for sg
    by (rule refuse_job_settles) simp
  have w: "settled reserved j d (snd (warm_or_cold step get c s reserved j (d\<lparr>dp_self := sg\<rparr>)))" for sg
    by (rule warm_or_cold_settles [OF assms]) simp_all
  have w': "settled reserved j d (snd (warm_or_cold step get c s reserved j (d\<lparr>dp_self := sg, dp_grants := g\<rparr>)))" for sg g
    by (rule warm_or_cold_settles [OF assms]) simp_all
  show ?thesis using r f w w' by (simp add: dispatch_claimed_job_def split_beta)
qed

section \<open>A life of a dispatcher\<close>

datatype disp_op = Once once_seams | Reconcile bool "string list option"

fun disp_step ::
  "(store_op \<Rightarrow> 's \<Rightarrow> outcome \<times> 's) \<Rightarrow> (string \<Rightarrow> 's \<Rightarrow> job option) \<Rightarrow> disp_cfg \<Rightarrow> disp_op \<Rightarrow> 's disp \<Rightarrow> 's disp" where
  "disp_step step get c (Once s) d = snd (dispatch_once step get c s d)"
| "disp_step step get c (Reconcile up live) d = reconcile_cold_orphans step get up live d"

text \<open>Every retained container holds a permit of its own.\<close>

definition covered :: "'s disp \<Rightarrow> bool" where
  "covered d \<longleftrightarrow> (\<exists>g. dp_gate d = Some g \<and> length (dp_orphans d) \<le> gt_in_flight g)"

lemma settled_covered: "settled r j d d' \<Longrightarrow> covered d \<Longrightarrow> covered d'"
proof -
  assume s: "settled r j d d'" and c: "covered d"
  obtain g where g: "dp_gate d = Some g" "length (dp_orphans d) \<le> gt_in_flight g" using c by (auto simp: covered_def)
  have len: "length (AList.update k v xs) \<le> Suc (length xs)" for k :: string and v and xs :: "(string \<times> string \<times> string option) list"
    by (induction xs) auto
  from s consider "dp_gate d' = dp_gate d" "dp_orphans d' = dp_orphans d"
    | "dp_gate d' = Some (take_permit g)" "dp_orphans d' = AList.update (container_name (job_id j)) (job_id j, claim_id j) (dp_orphans d)"
    using g(1) by (auto simp: settled_def)
  then show ?thesis
  proof cases
    case 1
    then show ?thesis using c by (simp add: covered_def)
  next
    case 2
    then show ?thesis using g(2) len [of "container_name (job_id j)" "(job_id j, claim_id j)" "dp_orphans d"]
      by (auto simp: covered_def take_permit_def)
  qed
qed

lemma covered_books: "books d' = books d \<Longrightarrow> covered d' = covered d"
  by (simp add: covered_def books_def)

lemma reserve_books: "reserve_warm_slot idle d = (go, d1) \<Longrightarrow>
    dp_reserved d1 = (if go then dp_reserved d + 1 else dp_reserved d) \<and> dp_gate d1 = dp_gate d \<and> dp_orphans d1 = dp_orphans d
    \<and> (go \<longrightarrow> idle \<noteq> None)"
  by (auto simp: reserve_warm_slot_def split: option.splits if_splits)

text \<open>What one call does to the books.\<close>

lemma once_cases:
  obtains (none) "books (snd (dispatch_once step get c s d)) = books d"
    | (job) j d2 r where "settled r j d2 (snd (dispatch_once step get c s d))" "dp_gate d2 = dp_gate d" "dp_orphans d2 = dp_orphans d"
        "dp_reserved d2 = (if r then dp_reserved d + 1 else dp_reserved d)"
proof -
  let ?r = "on_warm_only s"
  obtain go d1 where d1: "(if ?r then reserve_warm_slot (on_idle s) d else (True, d)) = (go, d1)" by fastforce
  have b1: "dp_gate d1 = dp_gate d" "dp_orphans d1 = dp_orphans d"
    "dp_reserved d1 = (if ?r \<and> go then dp_reserved d + 1 else dp_reserved d)" "?r \<Longrightarrow> go \<Longrightarrow> on_idle s \<noteq> None"
    using d1 reserve_books [of "on_idle s" d go d1] by (auto split: if_splits)
  obtain out d2 where d2: "submit step (OpClaim (on_request s)) d1 = (out, d2)" by fastforce
  have "books d2 = books d1" using books_submit [of step "OpClaim (on_request s)" d1] d2 by simp
  then have b2: "dp_gate d2 = dp_gate d" "dp_orphans d2 = dp_orphans d" "go \<Longrightarrow> dp_reserved d2 = (if ?r then dp_reserved d + 1 else dp_reserved d)"
    using b1 by (auto simp: books_def)
  consider "\<not> go" | j where "go" "out = OJob (Some j)" | "go" "\<nexists>j. out = OJob (Some j)" by blast
  then show ?thesis
  proof cases
    case 1
    then have "snd (dispatch_once step get c s d) = d1" by (simp add: dispatch_once_def d1)
    then show ?thesis using b1 1 by (intro none) (simp add: books_def)
  next
    case 2
    then have "snd (dispatch_once step get c s d) = snd (dispatch_claimed_job step get c s ?r j d2)"
      by (simp add: dispatch_once_def d1 d2 split_beta)
    moreover have "settled ?r j d2 (snd (dispatch_claimed_job step get c s ?r j d2))"
      by (rule claimed_job_settles) (use b1(4) 2(1) in blast)
    ultimately show ?thesis using job [of ?r j d2] b2 2(1) by simp
  next
    case 3
    then have "snd (dispatch_once step get c s d) = release_warm_reservation ?r d2"
      by (cases out) (auto simp: dispatch_once_def d1 d2 split: option.split)
    then have "books (snd (dispatch_once step get c s d)) = books d"
      using books_reservation [of ?r d2] b2 3(1) by (simp add: books_def)
    then show ?thesis by (rule none)
  qed
qed

lemma release_gone: "gt_in_flight ((release ^^ n) g) = gt_in_flight g - n"
  by (induction n) (auto simp: release_def)

lemma reconcile_books:
  "books (reconcile_cold_orphans step get up live d) =
     (case live of None \<Rightarrow> books d
      | Some ids \<Rightarrow> (dp_reserved d, map_option (release ^^ length (gone_orphans ids d)) (dp_gate d),
          filter (\<lambda>o'. fst o' \<in> set (map container_name ids)) (dp_orphans d)))"
proof -
  have f: "books (fold (\<lambda>o'. purge_job_dir_if_owned step get up (fst (snd o')) (snd (snd o'))) xs x) = books x" for xs x
    by (induction xs arbitrary: x) simp_all
  show ?thesis by (simp add: reconcile_cold_orphans_def Let_def f split: option.split) (simp add: books_def)
qed

lemma step_covered: "covered d \<Longrightarrow> covered (disp_step step get c op d)"
proof (cases op)
  case (Once s)
  assume c: "covered d"
  show ?thesis
  proof (cases rule: once_cases [of step get c s d])
    case none
    from covered_books [OF none] show ?thesis using c Once by simp
  next
    case (job j d2 r)
    have "covered d2" using c job(2,3) by (simp add: covered_def)
    then show ?thesis using settled_covered [OF job(1)] Once by simp
  qed
next
  case (Reconcile up live)
  assume "covered d"
  then obtain g where g: "dp_gate d = Some g" "length (dp_orphans d) \<le> gt_in_flight g" by (auto simp: covered_def)
  have b: "books (disp_step step get c op d) = (case live of None \<Rightarrow> books d
      | Some ids \<Rightarrow> (dp_reserved d, map_option (release ^^ length (gone_orphans ids d)) (dp_gate d),
          filter (\<lambda>o'. fst o' \<in> set (map container_name ids)) (dp_orphans d)))"
    unfolding Reconcile disp_step.simps by (rule reconcile_books)
  show ?thesis
  proof (cases live)
    case None
    then show ?thesis using b g by (simp add: covered_def books_def)
  next
    case (Some ids)
    have "length (filter (\<lambda>o'. fst o' \<in> set (map container_name ids)) (dp_orphans d)) + length (gone_orphans ids d) = length (dp_orphans d)"
      unfolding gone_orphans_def by (rule sum_length_filter_compl)
    then show ?thesis using b g Some by (auto simp: covered_def books_def release_gone)
  qed
qed

section \<open>Properties\<close>

text \<open>
  no reservation of a warm slot is lost or doubled.  Whatever one call of the dispatcher meets (no
  idle slot, nothing to claim, a failing store, a refusal, a raising pool, a run that raises), it leaves as
  many slots reserved as it found.
\<close>

theorem reservations_balanced: "dp_reserved (snd (dispatch_once step get c s d)) = dp_reserved d"
  by (cases rule: once_cases [of step get c s d]) (auto simp: books_def settled_def)

definition demo_once :: once_seams where
  "demo_once = \<lparr>on_idle = Some 1, on_request = demo_req ''t1'', on_clock = 50, on_clock_noted = 50, on_clock_drop = 50,
     on_world = demo_world, on_slot = NoSlot, on_warm = (\<lambda>_. demo_seams demo_sealed), on_cold = (\<lambda>_. demo_cold Exited demo_sealed),
     on_now = 60, on_warm_only = False, on_stopping = False, on_input_up = True, on_purge_up = True\<rparr>"

text \<open>The list is keyed by container name: a second container of the same name that cannot be confirmed
  gone takes a permit, but no entry of its own, so a sweep gives one permit back for both.\<close>

lemma same_name_keeps_a_permit:
  assumes "dp_gate d = Some g" "\<not> full g" "\<not> on_stopping s" "container_name (job_id j) \<in> fst ` set (dp_orphans d)"
    and "fst (dispatch_inner step get c j (on_cold s j) (emit PermitTaken (d\<lparr>dp_gate := Some (take_permit g)\<rparr>))) = (raised, Some n)"
  shows "dp_gate (snd (cold_path step get c s j d)) = Some (take_permit g)"
    and "length (dp_orphans (snd (cold_path step get c s j d))) = length (dp_orphans d)"
proof -
  let ?d1 = "emit PermitTaken (d\<lparr>dp_gate := Some (take_permit g)\<rparr>)"
  obtain d2 where r: "dispatch_inner step get c j (on_cold s j) ?d1 = ((raised, Some n), d2)"
    using assms(5) by (metis prod.collapse)
  have n: "n = container_name (job_id j)" using inner_orphan [of step get c j "on_cold s j" ?d1 raised n] assms(5) by simp
  have b2: "books d2 = (dp_reserved d, Some (take_permit g), dp_orphans d)"
    using books_inner [of step get c j "on_cold s j" ?d1] r by (simp add: books_def emit_def)
  have b: "books (snd (cold_path step get c s j d)) =
      (dp_reserved d, Some (take_permit g), AList.update n (job_id j, claim_id j) (dp_orphans d))"
    using assms(1-3) r b2 by (simp add: cold_path_def run_cold_def after_cold_def) (simp add: books_def)
  have len: "k \<in> fst ` set xs \<Longrightarrow> length (AList.update k v xs) = length xs" for k :: string and v and xs :: "(string \<times> string \<times> string option) list"
    by (induction xs) auto
  show "dp_gate (snd (cold_path step get c s j d)) = Some (take_permit g)"
    "length (dp_orphans (snd (cold_path step get c s j d))) = length (dp_orphans d)"
    using b len [OF assms(4)] n by (simp_all add: books_def)
qed

definition refuses :: "disp_cfg \<Rightarrow> once_seams \<Rightarrow> job \<Rightarrow> 's disp \<Rightarrow> bool" where
  "refuses c s j d \<longleftrightarrow>
     (if map_of (dc_engines c) (engine j) = None then fst (self_grants_of (on_world s) (dp_self d)) \<noteq> NoGate
      else fst (refuse (on_world s) (engine j) (Some (pn_exit (resolve_personality c j))) (dp_self d)) \<noteq> None)"

lemma grants_refusal_cools:
  assumes "2 \<le> cap" "0 < now" "now' < now + 2" "note_grants_refusal cap shared now now' own g = ((n, s), g')"
  shows "s \<le> shared \<and> (\<forall>t < now + 2. in_cooldown t own g')"
proof -
  obtain m b' where b: "bump_egress_defer own \<lparr>bo_n = bo_n g, bo_floor = bo_floor g\<rparr> = (m, b')" by fastforce
  obtain sd delay where p: "egress_defer_plan cap shared m = (sd, delay)" by fastforce
  have "(1::real) \<le> 2 ^ min (m - 1) 8" by (rule one_le_power) simp
  then have d: "2 \<le> delay" "sd \<le> shared" using p assms(1) by (auto simp: egress_defer_plan_def Let_def)
  let ?cool = "AList.update own (now + delay) (gd_cooldown g)"
  have g': "s = sd" "gd_cooldown g' = ?cool \<or> gd_cooldown g' = filter (\<lambda>kv. now' < snd kv) ?cool"
    using assms(4) by (auto simp: note_grants_refusal_def b p Let_def)
  have mo: "map_of ?cool own = Some (now + delay)" by (simp add: update_conv)
  have "map_of (gd_cooldown g') own = Some (now + delay)"
    using g'(2) mo map_of_filter_kept [OF mo, of "\<lambda>kv. now' < snd kv"] assms(3) d(1) by auto
  then show ?thesis using g'(1) d assms(2) by (auto simp: in_cooldown_def)
qed

lemma requeue_trace:
  obtains out where "dp_trace (requeue_now step c now df ds j d) = dp_trace d @ [Wrote (requeue_claimed now (dc_requeue_backoff c) df ds j) out]"
    "dp_grants (requeue_now step c now df ds j d) = dp_grants d"
proof -
  obtain out d1 where sb: "submit step (requeue_claimed now (dc_requeue_backoff c) df ds j) d = (out, d1)" by fastforce
  have "dp_grants d1 = dp_grants d"
    using sb by (auto simp: submit_def others_def emit_def Let_def split_beta split: list.splits)
  then show ?thesis using that submit_trace [OF sb] by (simp add: requeue_now_def sb)
qed

lemma reservation_trace:
  "dp_trace (release_warm_reservation r d) = dp_trace d @ (if r then [ReservationReleased] else [])"
  "dp_grants (release_warm_reservation r d) = dp_grants d"
  by (simp_all add: release_warm_reservation_def emit_def)

text \<open>
  refused work is handed back, not run.  A claimed job the node's grants refuse, or that is in a
  cooldown after such a refusal, or whose engine a gated node does not have, costs exactly one write, the
  requeue with a window of at most the shared bound, after the reservation was given back; no slot is
  claimed, no permit taken, nothing is launched, failed or deleted, and a refusal keeps this node away
  from the job for at least two seconds.
\<close>

theorem refused_job_only_requeued:
  assumes "in_cooldown (on_clock s) (job_id j) (dp_grants d) \<or> refuses c s j d"
    and "2 \<le> dc_defer_cap c" "0 < on_clock_noted s" "on_clock_drop s < on_clock_noted s + 2"
  shows "\<exists>sh out d'. dispatch_claimed_job step get c s reserved j d = (False, d') \<and> sh \<le> dc_shared_defer c
    \<and> dp_trace d' = dp_trace d @ (if reserved then [ReservationReleased] else [])
        @ [Wrote (requeue_claimed (on_now s) (dc_requeue_backoff c) True (Some sh) j) out]
    \<and> (\<not> in_cooldown (on_clock s) (job_id j) (dp_grants d) \<longrightarrow>
         (\<forall>t < on_clock_noted s + 2. in_cooldown t (job_id j) (dp_grants d')))"
proof (cases "in_cooldown (on_clock s) (job_id j) (dp_grants d)")
  case True
  let ?d' = "requeue_now step c (on_now s) True (Some (dc_shared_defer c)) j (release_warm_reservation reserved d)"
  have e: "dispatch_claimed_job step get c s reserved j d = (False, ?d')" using True by (simp add: dispatch_claimed_job_def)
  obtain out where "dp_trace ?d' = dp_trace (release_warm_reservation reserved d)
      @ [Wrote (requeue_claimed (on_now s) (dc_requeue_backoff c) True (Some (dc_shared_defer c)) j) out]"
    by (rule requeue_trace)
  then show ?thesis using True unfolding e reservation_trace
    by (intro exI [of _ "dc_shared_defer c"] exI [of _ out] exI [of _ ?d']) simp
next
  case False
  then have rf: "refuses c s j d" using assms(1) by blast
  obtain sg where e: "dispatch_claimed_job step get c s reserved j d = (False, refuse_job step c s reserved j (d\<lparr>dp_self := sg\<rparr>))"
    using rf False by (auto simp: dispatch_claimed_job_def refuses_def split_beta split: if_splits)
  obtain n sh g where g: "note_grants_refusal (dc_defer_cap c) (dc_shared_defer c) (on_clock_noted s) (on_clock_drop s)
      (job_id j) (dp_grants d) = ((n, sh), g)" by (metis prod.collapse)
  let ?d1 = "release_warm_reservation reserved (d\<lparr>dp_self := sg, dp_grants := g\<rparr>)"
  let ?d' = "requeue_now step c (on_now s) True (Some sh) j ?d1"
  have e': "dispatch_claimed_job step get c s reserved j d = (False, ?d')"
    unfolding e by (simp add: refuse_job_def g)
  obtain out where o: "dp_trace ?d' = dp_trace ?d1
      @ [Wrote (requeue_claimed (on_now s) (dc_requeue_backoff c) True (Some sh) j) out]" "dp_grants ?d' = dp_grants ?d1"
    by (rule requeue_trace)
  show ?thesis using grants_refusal_cools [OF assms(2-4) g] o unfolding e' reservation_trace
    by (intro exI [of _ sh] exI [of _ out] exI [of _ ?d']) simp
qed

theorem refused_job_only_requeued_witness:
  "\<exists>sh out d'. dispatch_claimed_job mem_step mem_get (demo_cfg\<lparr>dc_engines := []\<rparr>) demo_once True (demo_run_job ''t1'')
      (demo_disp (mem_create (demo_run_job ''t1'') mem_empty)) = (False, d') \<and> sh \<le> 5
    \<and> dp_trace d' = [ReservationReleased, Wrote (requeue_claimed 60 2 True (Some sh) (demo_run_job ''t1'')) out]"
proof -
  have "fst (self_grants_of demo_world sg_init) \<noteq> NoGate" by code_simp
  then have "refuses (demo_cfg\<lparr>dc_engines := []\<rparr>) demo_once (demo_run_job ''t1'') (demo_disp (mem_create (demo_run_job ''t1'') mem_empty))"
    by (simp add: refuses_def demo_once_def demo_disp_def)
  moreover have "2 \<le> dc_defer_cap (demo_cfg\<lparr>dc_engines := []\<rparr>)" "dc_shared_defer (demo_cfg\<lparr>dc_engines := []\<rparr>) = 5"
    "dc_requeue_backoff (demo_cfg\<lparr>dc_engines := []\<rparr>) = 2"
    by (simp_all add: demo_cfg_def)
  moreover have "0 < on_clock_noted demo_once" "on_clock_drop demo_once < on_clock_noted demo_once + 2" "on_now demo_once = 60"
    by (simp_all add: demo_once_def)
  moreover have "dp_trace (demo_disp (mem_create (demo_run_job ''t1'') mem_empty)) = []" by (simp add: demo_disp_def)
  ultimately show ?thesis
    using refused_job_only_requeued [OF disjI2, of "demo_cfg\<lparr>dc_engines := []\<rparr>" demo_once "demo_run_job ''t1''"
        "demo_disp (mem_create (demo_run_job ''t1'') mem_empty)" mem_step mem_get True]
    by (simp only: if_True append_Nil append_Cons) blast
qed

lemma warm_no_launch: "grows (\<lambda>e. \<not> is_launch e) d (snd (dispatch_warm step get c j ws d))"
proof -
  obtain f clean r d1 where w: "warm_run step get c j ws d = ((f, clean, r), d1)" by (metis prod.collapse)
  have q: "grows (\<lambda>e. \<not> is_launch e) d x" if "grows quiet d x" for x
    using that unfolding grows_def by (elim exE conjE) (rule exI, erule conjI, erule list.pred_mono_strong, blast)
  have "commits (warm_allows c j ws) d (clean, d1)" using warm_run_ends [of c j ws d step get] w by simp
  then have "grows (\<lambda>e. \<not> is_launch e) d d1"
  proof (cases rule: commits_cases)
    case stop
    then show ?thesis using q by simp
  next
    case (commit env op pre out)
    have "list_all (\<lambda>e. \<not> is_launch e) pre" using commit(2) by (rule list.pred_mono_strong) blast
    then show ?thesis using commit(4) by (simp add: grows_def)
  qed
  then show ?thesis by (auto simp: dispatch_warm_def w intro!: grows_emit)
qed

lemma no_launch_ops:
  "grows (\<lambda>e. \<not> is_launch e) d (requeue_now step c now df ds j d)"
  "grows (\<lambda>e. \<not> is_launch e) d (after_warm step get s j d)"
  "grows (\<lambda>e. \<not> is_launch e) d (release_warm_reservation r d)"
proof -
  show "grows (\<lambda>e. \<not> is_launch e) d (requeue_now step c now df ds j d)"
    by (rule requeue_trace [of step c now df ds j d]) (simp add: grows_def)
  show "grows (\<lambda>e. \<not> is_launch e) d (release_warm_reservation r d)"
    by (simp add: grows_def reservation_trace)
  have l: "grows (\<lambda>e. \<not> is_launch e) x (snd (look step get up k x))" for up k x
    using look_trace [of step get up k x] by (metis grows_def is_launch.simps(3) list.pred_inject(1,2) prod.collapse)
  have dl: "grows (\<lambda>e. \<not> is_launch e) x (delete_input_if_owned step get up j x)" for up x
    using l by (auto simp: delete_input_if_owned_def split_beta intro!: grows_emit)
  have pg: "grows (\<lambda>e. \<not> is_launch e) x (purge_job_dir_if_owned step get up k cl x)" for up k cl x
  proof -
    have "grows (\<lambda>e. \<not> is_launch e) x (x\<lparr>dp_failed_uploads := dp_failed_uploads x - {k}\<rparr>)" by (simp add: grows_def)
    then show ?thesis using l by (auto simp: purge_job_dir_if_owned_def split_beta intro!: grows_emit)
  qed
  show "grows (\<lambda>e. \<not> is_launch e) d (after_warm step get s j d)"
    unfolding after_warm_def by (rule grows_trans [OF dl pg])
qed

lemma warm_only_no_launch:
  assumes "on_warm_only s" "on_idle s \<noteq> None" "dp_trace d1 = dp_trace d"
  shows "grows (\<lambda>e. \<not> is_launch e) d (snd (warm_or_cold step get c s reserved j d1))"
proof -
  define egress where "egress = has_egress (resolve_personality c j)"
  define answer where "answer = (if egress then NoSlot else on_slot s)"
  define d2 where "d2 = release_warm_reservation reserved (if egress then d1 else emit (SlotClaimed (answer = GotSlot)) d1)"
  have eq: "warm_or_cold step get c s reserved j d1 = (case answer of
      ClaimRaised \<Rightarrow> (True, d2)
    | GotSlot \<Rightarrow> (case dispatch_warm step get c j (on_warm s j) d2 of (raised, d3) \<Rightarrow> (raised, after_warm step get s j d3))
    | NoSlot \<Rightarrow> (False, requeue_now step c (on_now s) False None j d2))"
  proof -
    obtain n where "on_idle s = Some n" using assms(2) by blast
    then show ?thesis using assms(1) unfolding warm_or_cold_def Let_def d2_def answer_def egress_def by simp
  qed
  have g1: "grows (\<lambda>e. \<not> is_launch e) d (if egress then d1 else emit (SlotClaimed (answer = GotSlot)) d1)"
    using assms(3) by (simp add: grows_def emit_def)
  have g2: "grows (\<lambda>e. \<not> is_launch e) d d2" unfolding d2_def by (rule grows_trans [OF g1 no_launch_ops(3)])
  show ?thesis unfolding eq
    using g2 grows_trans [OF g2 no_launch_ops(1)] grows_trans [OF grows_trans [OF g2 warm_no_launch] no_launch_ops(2)]
    by (cases answer) (simp_all add: split_beta)
qed

lemma reserve_trace: "dp_trace (snd (reserve_warm_slot idle d)) = dp_trace d"
  by (simp add: reserve_warm_slot_def split: option.split)

lemma warm_only_claimed:
  assumes "on_warm_only s" "on_idle s \<noteq> None"
  shows "grows (\<lambda>e. \<not> is_launch e) d (snd (dispatch_claimed_job step get c s r j d))"
proof -
  have rq: "grows (\<lambda>e. \<not> is_launch e) d (requeue_now step c now df ds j (release_warm_reservation r d))" for now df ds
    by (rule grows_trans [OF no_launch_ops(3) no_launch_ops(1)])
  have rf: "grows (\<lambda>e. \<not> is_launch e) d (refuse_job step c s r j (d\<lparr>dp_self := sg\<rparr>))" for sg
  proof -
    have "grows (\<lambda>e. \<not> is_launch e) d (release_warm_reservation r (d\<lparr>dp_self := sg, dp_grants := g\<rparr>))" for g
      by (simp add: grows_def reservation_trace)
    then show ?thesis by (auto simp: refuse_job_def split_beta intro: grows_trans [OF _ no_launch_ops(1)])
  qed
  have wc: "grows (\<lambda>e. \<not> is_launch e) d (snd (warm_or_cold step get c s r j d1))" if "dp_trace d1 = dp_trace d" for d1
    by (rule warm_only_no_launch [OF assms that])
  show ?thesis
    by (simp add: dispatch_claimed_job_def rq rf wc split_beta)
qed

text \<open>
  a warm-only dispatcher never runs a job cold.  Whatever the pool answers, also for a job that needs
  egress and so may not take a slot, and also without a pool, nothing is launched: the job runs on a slot,
  goes back to the queue for a dispatcher that has a cold path, or is never claimed.
\<close>

theorem warm_only_never_cold:
  assumes "on_warm_only s"
  shows "\<exists>es. dp_trace (snd (dispatch_once step get c s d)) = dp_trace d @ es \<and> list_all (\<lambda>e. \<not> is_launch e) es"
proof -
  obtain go d1 where d1: "reserve_warm_slot (on_idle s) d = (go, d1)" by fastforce
  have t1: "dp_trace d1 = dp_trace d" using reserve_trace [of "on_idle s" d] d1 by simp
  obtain out d2 where d2: "submit step (OpClaim (on_request s)) d1 = (out, d2)" by fastforce
  have g: "grows (\<lambda>e. \<not> is_launch e) d d2" using submit_trace [OF d2] t1 by (simp add: grows_def)
  have idle: "go \<Longrightarrow> on_idle s \<noteq> None" using d1 by (cases "on_idle s") (simp_all add: reserve_warm_slot_def)
  have "grows (\<lambda>e. \<not> is_launch e) d (snd (dispatch_once step get c s d))"
  proof (cases go)
    case False
    then show ?thesis using t1 assms by (simp add: dispatch_once_def d1 grows_def)
  next
    case True
    note cj = grows_trans [OF g warm_only_claimed [OF assms idle [OF True], of d2 step get c True]]
    note rel = grows_trans [OF g no_launch_ops(3) [of d2 True]]
    show ?thesis
      using assms True cj rel
      by (simp add: dispatch_once_def d1 d2 split_beta split: outcome.split option.split)
  qed
  then show ?thesis by (simp add: grows_def)
qed

theorem warm_only_never_cold_witness:
  "\<exists>es. dp_trace (snd (dispatch_once mem_step mem_get demo_cfg (demo_once\<lparr>on_warm_only := True, on_idle := Some 1\<rparr>)
      (demo_disp (mem_create (demo_run_job ''t1'') mem_empty)))) = es \<and> list_all (\<lambda>e. \<not> is_launch e) es"
  using warm_only_never_cold [of "demo_once\<lparr>on_warm_only := True, on_idle := Some 1\<rparr>" mem_step mem_get demo_cfg
      "demo_disp (mem_create (demo_run_job ''t1'') mem_empty)"]
  by (simp add: demo_disp_def)

section \<open>Containers whose end nobody saw\<close>

text \<open>Of the launches in a stretch of the trace: the container has the name the books use.\<close>

definition named_launch :: "string \<Rightarrow> devent \<Rightarrow> bool" where
  "named_launch n e \<longleftrightarrow> (\<forall>rt w. e = Launched rt w \<longrightarrow> wr_name w = Some n)"

lemma quiet_named: "quiet e \<Longrightarrow> named_launch n e"
  by (cases e) (simp_all add: named_launch_def)

lemma no_launch_named: "\<not> is_launch e \<Longrightarrow> named_launch n e"
  by (cases e) (simp_all add: named_launch_def)

lemma commits_no_launch:
  assumes "commits T d (b, d')"
  shows "grows (\<lambda>e. \<not> is_launch e) d d'"
  using assms
proof (cases rule: commits_cases)
  case stop
  then show ?thesis by (auto elim: grows_mono)
next
  case (commit env op pre out)
  have "list_all (\<lambda>e. \<not> is_launch e) pre" using commit(2) by (rule list.pred_mono_strong) blast
  then show ?thesis using commit(4) by (simp add: grows_def)
qed

lemma inner_names: "grows (named_launch (container_name (job_id j))) d (snd (dispatch_inner step get c j cs d))"
proof -
  let ?d' = "snd (dispatch_inner step get c j cs d)" and ?N = "named_launch (container_name (job_id j))"
  from dispatch_inner_ends [of c j cs d step get] consider (still) "grows quiet d ?d'"
    | (launch) pre rt w d2 b where "list_all quiet pre" "planned_run c j cs rt w"
        "dp_trace d2 = dp_trace d @ pre @ [Wrote (claim_op c j rt w) (OBool True), Launched rt w]"
        "commits (cold_allows c j cs) d2 (b, ?d')"
    unfolding cold_ends_def by auto
  then show ?thesis
  proof cases
    case still
    then show ?thesis by (rule grows_mono) (rule quiet_named)
  next
    case launch
    have l: "?N (Launched rt w)" using launch(2) by (auto simp: named_launch_def planned_run_def cold_run_def)
    have "list_all ?N pre" using launch(1) by (rule list.pred_mono_strong) (rule quiet_named)
    then have "grows ?N d d2" using launch(3) l by (simp add: grows_def) (simp add: named_launch_def)
    moreover have "grows ?N d2 ?d'" using commits_no_launch [OF launch(4)] by (rule grows_mono) (rule no_launch_named)
    ultimately show ?thesis by (rule grows_trans)
  qed
qed

text \<open>A container that timed out and could not be confirmed killed is what the run answers.\<close>

lemma inner_unconfirmed:
  assumes "cs_launch cs = TimedOut False" "snd (fst (dispatch_inner step get c j cs d)) = None"
  shows "grows (\<lambda>e. \<not> is_launch e) d (snd (dispatch_inner step get c j cs d))"
proof -
  have q: "grows (\<lambda>e. \<not> is_launch e) x y" if "grows quiet x y" for x y :: "'a disp"
    using that by (rule grows_mono) blast
  have f: "grows (\<lambda>e. \<not> is_launch e) x (snd (cold_fail step c j cs reason x))" for reason x
    by (rule q [OF cold_fail_quiet])
  have l: "grows (\<lambda>e. \<not> is_launch e) x (snd (cold_launch step get c j cs rt w x))"
    if "snd (fst (cold_launch step get c j cs rt w x)) = None" for rt w x
  proof -
    obtain ours d1 where o: "cas step j [FWorkerRuntime (Some (rt_name rt)),
        FWarnings (security_warnings j @ map JStr (snd (build_worker_docker_run_argv (dc_host c) rt w)))] x = (ours, d1)" by fastforce
    have g: "grows quiet x d1" using o by (rule cas_grows) simp
    show ?thesis using that assms(1) q [OF g] by (auto simp: cold_launch_def o split_beta Let_def split: if_splits)
  qed
  have e: "grows quiet x (snd (egress_gate step c j cs p x))" for p x
    by (rule egress_gate_quiet)
  have a: "grows (\<lambda>e. \<not> is_launch e) x (snd (cold_admit step get c j cs es rt p x))"
    if "snd (fst (cold_admit step get c j cs es rt p x)) = None" for es rt p x
  proof -
    obtain go d1 where g: "egress_gate step c j cs p x = (go, d1)" by fastforce
    have g1: "grows (\<lambda>e. \<not> is_launch e) x d1" using q [OF e [of x p]] g by simp
    show ?thesis using that f l grows_trans [OF g1 f] grows_trans [OF g1 l] g1
      by (auto simp: cold_admit_def g split: sum.splits if_splits)
  qed
  have m: "grows (\<lambda>e. \<not> is_launch e) d (snd (materialise_sample step c (fs_now cs) j (cs_sample cs) d))"
    by (rule q [OF materialise_quiet])
  show ?thesis using assms(2) f a m grows_trans [OF m f] grows_trans [OF m a]
    by (auto simp: dispatch_inner_def split_beta split: option.splits if_splits)
qed

text \<open>What a claimed job leaves behind: if its container's end would not be confirmed, then either none
  was started, or its name is among the retained ones.\<close>

definition accounts :: "job \<Rightarrow> cold_seams \<Rightarrow> 's disp \<Rightarrow> 's disp \<Rightarrow> bool" where
  "accounts j cs d d' \<longleftrightarrow> (cs_launch cs = TimedOut False \<longrightarrow>
     grows (\<lambda>e. \<not> is_launch e) d d' \<or> container_name (job_id j) \<in> fst ` set (dp_orphans d'))
   \<and> grows (named_launch (container_name (job_id j))) d d'"

lemma accounts_silent: "grows (\<lambda>e. \<not> is_launch e) d d' \<Longrightarrow> accounts j cs d d'"
  unfolding accounts_def by (auto elim: grows_mono intro: no_launch_named)

lemma accounts_prefix: "grows (\<lambda>e. \<not> is_launch e) d d1 \<Longrightarrow> accounts j cs d1 d' \<Longrightarrow> accounts j cs d d'"
  unfolding accounts_def by (blast intro: grows_trans grows_mono no_launch_named)

lemma delete_no_launch: "grows (\<lambda>e. \<not> is_launch e) d (delete_input_if_owned step get up j d)"
proof -
  obtain r d1 where l: "look step get up (job_id j) d = (r, d1)" by fastforce
  have "grows (\<lambda>e. \<not> is_launch e) d d1" using look_trace [OF l] by (simp add: grows_def)
  then show ?thesis by (auto simp: delete_input_if_owned_def l intro!: grows_emit)
qed

lemma purge_no_launch: "grows (\<lambda>e. \<not> is_launch e) d (purge_job_dir_if_owned step get up k cl d)"
proof -
  obtain r d1 where l: "look step get up k d = (r, d1)" by fastforce
  have "grows (\<lambda>e. \<not> is_launch e) d d1" using look_trace [OF l] by (simp add: grows_def)
  moreover have "grows (\<lambda>e. \<not> is_launch e) d (d\<lparr>dp_failed_uploads := dp_failed_uploads d - {k}\<rparr>)" by (simp add: grows_def)
  ultimately show ?thesis by (auto simp: purge_job_dir_if_owned_def l intro!: grows_emit)
qed

lemma orphans_frame [simp]:
  "dp_orphans (delete_input_if_owned step get up j d) = dp_orphans d"
  "dp_orphans (purge_job_dir_if_owned step get up k cl d) = dp_orphans d"
  using books_eq [OF books_delete [of step get up j d]] books_eq [OF books_purge [of step get up k cl d]] by simp_all

lemma after_cold_no_launch: "grows (\<lambda>e. \<not> is_launch e) d (after_cold step get s j orphan d)"
proof (cases orphan)
  case None
  have "grows (\<lambda>e. \<not> is_launch e) d (case dp_gate d of None \<Rightarrow> d | Some g \<Rightarrow> emit PermitReleased (d\<lparr>dp_gate := Some (release g)\<rparr>))"
    by (cases "dp_gate d") (simp_all add: grows_def emit_def)
  from grows_trans [OF this grows_trans [OF delete_no_launch purge_no_launch]] show ?thesis
    by (simp add: after_cold_def None Let_def)
next
  case (Some n)
  have "grows (\<lambda>e. \<not> is_launch e) d (emit (OrphanKept n) (d\<lparr>dp_orphans := AList.update n (job_id j, claim_id j) (dp_orphans d)\<rparr>))"
    by (simp add: grows_def emit_def)
  from grows_trans [OF this delete_no_launch] show ?thesis by (simp add: after_cold_def Some)
qed

lemma run_cold_accounts: "accounts j (on_cold s j) d (snd (run_cold step get c s j d))"
proof -
  obtain raised orphan d1 where r: "dispatch_inner step get c j (on_cold s j) d = ((raised, orphan), d1)" by (metis prod.collapse)
  have o: "snd (run_cold step get c s j d) = after_cold step get s j orphan d1" by (simp add: run_cold_def r)
  have n: "grows (named_launch (container_name (job_id j))) d (after_cold step get s j orphan d1)"
    using inner_names [of j d step get c "on_cold s j"] after_cold_no_launch [of d1 step get s j orphan] r
    by (auto intro: grows_trans grows_mono no_launch_named)
  show ?thesis
  proof (cases orphan)
    case None
    then have "grows (\<lambda>e. \<not> is_launch e) d (after_cold step get s j orphan d1)" if "cs_launch (on_cold s j) = TimedOut False"
      using grows_trans [OF _ after_cold_no_launch, of d d1 step get s j orphan] inner_unconfirmed [OF that, of step get c j d] r by simp
    then show ?thesis unfolding accounts_def o using n by blast
  next
    case (Some m)
    have "m = container_name (job_id j)" using inner_orphan [of step get c j "on_cold s j" d raised m] r Some by simp
    then have "container_name (job_id j) \<in> fst ` set (dp_orphans (after_cold step get s j orphan d1))"
      by (simp add: after_cold_def Some emit_def dom_update)
    then show ?thesis unfolding accounts_def o using n by blast
  qed
qed

lemma cold_path_accounts: "accounts j (on_cold s j) d (snd (cold_path step get c s j d))"
proof (cases "dp_gate d")
  case None
  then show ?thesis using run_cold_accounts by (simp add: cold_path_def)
next
  case (Some g)
  have rq: "accounts j (on_cold s j) d (requeue_now step c now df ds j d)" for now df ds
    by (rule accounts_silent) (rule no_launch_ops(1))
  have rq': "accounts j (on_cold s j) d (requeue_now step c now df ds j (d\<lparr>dp_gate := Some g'\<rparr>))" for now df ds g'
  proof -
    have "grows (\<lambda>e. \<not> is_launch e) d (d\<lparr>dp_gate := Some g'\<rparr>)" by (simp add: grows_def)
    from grows_trans [OF this no_launch_ops(1)] show ?thesis by (rule accounts_silent)
  qed
  have rc: "accounts j (on_cold s j) d (snd (run_cold step get c s j (emit PermitTaken (d\<lparr>dp_gate := Some g'\<rparr>))))" for g'
    by (rule accounts_prefix [OF _ run_cold_accounts]) (simp add: grows_def emit_def)
  show ?thesis using rq rq' rc by (simp add: cold_path_def Some split_beta)
qed

lemma warm_or_cold_accounts:
  assumes "grows (\<lambda>e. \<not> is_launch e) d d1"
  shows "accounts j (on_cold s j) d (snd (warm_or_cold step get c s reserved j d1))"
proof (cases "on_idle s")
  case None
  then show ?thesis using accounts_prefix [OF assms cold_path_accounts] by (simp add: warm_or_cold_def)
next
  case (Some idle)
  define egress where "egress = has_egress (resolve_personality c j)"
  define answer where "answer = (if egress then NoSlot else on_slot s)"
  define d2 where "d2 = release_warm_reservation reserved (if egress then d1 else emit (SlotClaimed (answer = GotSlot)) d1)"
  have eq: "warm_or_cold step get c s reserved j d1 = (case answer of
      ClaimRaised \<Rightarrow> (True, d2)
    | GotSlot \<Rightarrow> (case dispatch_warm step get c j (on_warm s j) d2 of (raised, d3) \<Rightarrow> (raised, after_warm step get s j d3))
    | NoSlot \<Rightarrow> if on_warm_only s then (False, requeue_now step c (on_now s) False None j d2) else cold_path step get c s j d2)"
    using Some unfolding warm_or_cold_def Let_def d2_def answer_def egress_def by simp
  have "grows (\<lambda>e. \<not> is_launch e) d (if egress then d1 else emit (SlotClaimed (answer = GotSlot)) d1)"
    using assms by (auto intro: grows_emit)
  then have g: "grows (\<lambda>e. \<not> is_launch e) d d2" unfolding d2_def by (rule grows_trans [OF _ no_launch_ops(3)])
  have w: "accounts j (on_cold s j) d (after_warm step get s j (snd (dispatch_warm step get c j (on_warm s j) d2)))"
    by (rule accounts_silent) (rule grows_trans [OF grows_trans [OF g warm_no_launch] no_launch_ops(2)])
  show ?thesis unfolding eq
    using accounts_silent [OF g] w accounts_silent [OF grows_trans [OF g no_launch_ops(1)]] accounts_prefix [OF g cold_path_accounts]
    by (cases answer) (simp_all add: split_beta)
qed

lemma claimed_job_accounts: "accounts j (on_cold s j) d (snd (dispatch_claimed_job step get c s reserved j d))"
proof -
  have r: "grows (\<lambda>e. \<not> is_launch e) d (requeue_now step c now df ds j (release_warm_reservation reserved d))" for now df ds
    by (rule grows_trans [OF no_launch_ops(3) no_launch_ops(1)])
  have f: "grows (\<lambda>e. \<not> is_launch e) d (refuse_job step c s reserved j (d\<lparr>dp_self := sg\<rparr>))" for sg
  proof -
    have "grows (\<lambda>e. \<not> is_launch e) d (release_warm_reservation reserved (d\<lparr>dp_self := sg, dp_grants := g\<rparr>))" for g
      by (simp add: grows_def reservation_trace)
    then show ?thesis by (auto simp: refuse_job_def split_beta intro: grows_trans [OF _ no_launch_ops(1)])
  qed
  have w: "accounts j (on_cold s j) d (snd (warm_or_cold step get c s reserved j d1))" if "dp_trace d1 = dp_trace d" for d1
    by (rule warm_or_cold_accounts) (simp add: grows_def that)
  show ?thesis using accounts_silent [OF r] accounts_silent [OF f] w
    by (simp add: dispatch_claimed_job_def split_beta)
qed

text \<open>One call of the dispatcher that claimed a job and started a container whose end it could not
  confirm has retained it; and what is retained stays until docker answers without it.\<close>

lemma once_retains:
  assumes t: "dp_trace (snd (dispatch_once step get c s d)) = dp_trace d @ Wrote (OpClaim (on_request s)) (OJob (Some j)) # es"
    and l: "Launched rt w \<in> set es" "wr_name w = Some n" and u: "cs_launch (on_cold s j) = TimedOut False"
  shows "n \<in> fst ` set (dp_orphans (snd (dispatch_once step get c s d)))"
proof -
  let ?r = "on_warm_only s"
  obtain go d1 where d1: "(if ?r then reserve_warm_slot (on_idle s) d else (True, d)) = (go, d1)" by fastforce
  have t1: "dp_trace d1 = dp_trace d" using d1 reserve_trace [of "on_idle s" d] by (auto split: if_splits)
  have go: "go" using t t1 by (cases go) (simp_all add: dispatch_once_def d1)
  obtain out d2 where d2: "submit step (OpClaim (on_request s)) d1 = (out, d2)" by fastforce
  have t2: "dp_trace d2 = dp_trace d @ [Wrote (OpClaim (on_request s)) out]" using submit_trace [OF d2] t1 by simp
  have e: "dispatch_once step get c s d = (case out of
       OJob (Some k) \<Rightarrow> (case dispatch_claimed_job step get c s ?r k d2 of (raised, d3) \<Rightarrow> ((True, raised), d3))
     | OJob None \<Rightarrow> ((False, False), release_warm_reservation ?r d2)
     | _ \<Rightarrow> ((False, True), release_warm_reservation ?r d2))"
    using go by (simp add: dispatch_once_def d1 d2)
  obtain ys where ys: "dp_trace (snd (dispatch_once step get c s d)) = dp_trace d2 @ ys"
  proof -
    have "\<exists>ys. dp_trace (snd (dispatch_claimed_job step get c s ?r k d2)) = dp_trace d2 @ ys" for k
      using claimed_job_accounts [of k s d2 step get c ?r] unfolding accounts_def grows_def by blast
    then have "\<exists>ys. dp_trace (snd (dispatch_once step get c s d)) = dp_trace d2 @ ys"
      unfolding e using reservation_trace(1) [of ?r d2] by (auto simp: split_beta split: outcome.split option.split)
    then show ?thesis using that by blast
  qed
  have "out = OJob (Some j)" "ys = es" using t ys t2 by simp_all
  then have o: "snd (dispatch_once step get c s d) = snd (dispatch_claimed_job step get c s ?r j d2)"
    unfolding e by (simp add: split_beta)
  have a: "accounts j (on_cold s j) d2 (snd (dispatch_once step get c s d))" unfolding o by (rule claimed_job_accounts)
  obtain zs where zs: "dp_trace (snd (dispatch_once step get c s d)) = dp_trace d2 @ zs" "list_all (named_launch (container_name (job_id j))) zs"
    using a unfolding accounts_def grows_def by blast
  have "zs = es" using zs(1) ys \<open>ys = es\<close> by simp
  then have "n = container_name (job_id j)" using zs(2) l by (auto simp: list_all_iff named_launch_def)
  moreover have "\<not> grows (\<lambda>e. \<not> is_launch e) d2 (snd (dispatch_once step get c s d))"
    using ys \<open>ys = es\<close> l(1) by (auto simp: grows_def list_all_iff intro!: bexI [of _ "Launched rt w"])
  ultimately show ?thesis using a u unfolding accounts_def by blast
qed

lemma step_keeps:
  assumes "n \<in> fst ` set (dp_orphans d)" "\<forall>up ids. op = Reconcile up (Some ids) \<longrightarrow> n \<in> set (map container_name ids)"
  shows "n \<in> fst ` set (dp_orphans (disp_step step get c op d))"
proof (cases op)
  case (Once s)
  show ?thesis
  proof (cases rule: once_cases [of step get c s d])
    case none
    then show ?thesis using assms(1) Once by (simp add: books_def)
  next
    case (job j d2 r)
    have dom: "fst ` set (AList.update k v xs) = insert k (fst ` set xs)" for k :: string and v and xs :: "(string \<times> string \<times> string option) list"
      by (simp add: dom_update)
    have "dp_orphans (snd (dispatch_once step get c s d)) \<in>
        {dp_orphans d, AList.update (container_name (job_id j)) (job_id j, claim_id j) (dp_orphans d)}"
      using job by (auto simp: settled_def)
    then have "n \<in> fst ` set (dp_orphans (snd (dispatch_once step get c s d)))"
      using assms(1) dom [of "container_name (job_id j)" "(job_id j, claim_id j)" "dp_orphans d"] by (metis insertCI insertE singletonD)
    then show ?thesis using Once by simp
  qed
next
  case (Reconcile up live)
  have b: "dp_orphans (disp_step step get c op d) = (case live of None \<Rightarrow> dp_orphans d
      | Some ids \<Rightarrow> filter (\<lambda>o'. fst o' \<in> set (map container_name ids)) (dp_orphans d))"
    using reconcile_books [of step get up live d] Reconcile by (simp add: books_def split: option.splits)
  show ?thesis unfolding b using assms Reconcile by (auto split: option.splits)
qed

lemma life_covered: "covered d \<Longrightarrow> covered (fold (disp_step step get c) ops d)"
  by (induction ops arbitrary: d) (simp_all add: step_covered)

lemma life_keeps:
  "n \<in> fst ` set (dp_orphans d) \<Longrightarrow> \<forall>up ids. Reconcile up (Some ids) \<in> set ops \<longrightarrow> n \<in> set (map container_name ids) \<Longrightarrow>
   n \<in> fst ` set (dp_orphans (fold (disp_step step get c) ops d))"
proof (induction ops arbitrary: d)
  case (Cons op ops)
  have "n \<in> fst ` set (dp_orphans (disp_step step get c op d))" by (rule step_keeps) (use Cons.prems in auto)
  from Cons.IH [OF this] Cons.prems(2) show ?case by simp
qed simp

text \<open>
  C12: a container that may still run keeps its permit.  Through any sequence of dispatches and sweeps,
  from books in which it holds, the permits in flight are at least the retained containers, so the gate
  never admits new work in the place of one of them.  And none is forgotten: when a dispatch claimed a job
  and started a container that timed out and whose kill was not confirmed, its name is retained from then
  on, until a sweep in which docker answered and did not list it.
\<close>

theorem permits_cover_containers:
  assumes "dp_gate d = Some g" and "length (dp_orphans d) \<le> gt_in_flight g"
  shows "(\<exists>g'. dp_gate (fold (disp_step step get c) ops d) = Some g'
      \<and> length (dp_orphans (fold (disp_step step get c) ops d)) \<le> gt_in_flight g')
    \<and> (\<forall>before s after d1 j es rt w n. ops = before @ Once s # after \<and> d1 = fold (disp_step step get c) before d
        \<and> dp_trace (disp_step step get c (Once s) d1) = dp_trace d1 @ Wrote (OpClaim (on_request s)) (OJob (Some j)) # es
        \<and> Launched rt w \<in> set es \<and> wr_name w = Some n \<and> cs_launch (on_cold s j) = TimedOut False
        \<and> (\<forall>up ids. Reconcile up (Some ids) \<in> set after \<longrightarrow> n \<in> set (map container_name ids))
        \<longrightarrow> n \<in> fst ` set (dp_orphans (fold (disp_step step get c) ops d)))"
proof -
  have "covered d" using assms by (simp add: covered_def)
  then have cov: "covered (fold (disp_step step get c) ops d)" by (rule life_covered)
  have kept: "n \<in> fst ` set (dp_orphans (fold (disp_step step get c) ops d))"
    if o: "ops = before @ Once s # after" and d1: "d1 = fold (disp_step step get c) before d"
      and t: "dp_trace (disp_step step get c (Once s) d1) = dp_trace d1 @ Wrote (OpClaim (on_request s)) (OJob (Some j)) # es"
      and l: "Launched rt w \<in> set es" "wr_name w = Some n" "cs_launch (on_cold s j) = TimedOut False"
      and r: "\<forall>up ids. Reconcile up (Some ids) \<in> set after \<longrightarrow> n \<in> set (map container_name ids)"
    for before s after d1 j es rt w n
  proof -
    have "n \<in> fst ` set (dp_orphans (disp_step step get c (Once s) d1))"
      using once_retains [OF t [unfolded disp_step.simps] l] by simp
    from life_keeps [OF this r] show ?thesis by (simp add: o d1)
  qed
  show ?thesis using cov kept unfolding covered_def by blast
qed

text \<open>A dispatcher without a pool whose container times out and cannot be confirmed killed.\<close>

definition lost_once :: once_seams where
  "lost_once = demo_once\<lparr>on_idle := None, on_world := demo_world\<lparr>w_env := Map.empty\<rparr>,
     on_cold := (\<lambda>_. demo_cold (TimedOut False) demo_sealed)\<rparr>"

definition lost_disp :: "mem_store disp" where
  "lost_disp = (demo_disp (mem_create demo_old mem_empty))\<lparr>dp_gate := Some \<lparr>gt_limit = 2, gt_in_flight = 0\<rparr>\<rparr>"

definition lost_job :: job where "lost_job = claimed 101 ''t1'' demo_old"

lemma lost_job_facts [simp]:
  "net_policy lost_job = None" "engine lost_job = ''eng''" "job_id lost_job = ''a1''" "claim_id lost_job = Some ''t1''"
  "status lost_job = RUNNING"
  by (simp_all add: lost_job_def claimed_def demo_old_def Job_new_def)

lemma lost_plan:
  "resolve_personality demo_cfg lost_job = NONE" "map_of (dc_engines demo_cfg) ''eng'' = Some demo_engine"
  "net_plan_of (\<lambda>_. None) (rt_name demo_runsc) ''a1'' (dc_net_capture demo_cfg) NONE = Inr demo_plan"
  using demo_planned
  by (simp_all add: resolve_personality_def resolve_net_policy_def resolve_default_def demo_cfg_def demo_engine_def
      gated_by_gateway_health_def NONE_def)

lemma lost_claim:
  "submit mem_step (OpClaim (demo_req ''t1'')) lost_disp = (OJob (Some lost_job),
     lost_disp\<lparr>dp_store := mem_create lost_job mem_empty, dp_trace := [Wrote (OpClaim (demo_req ''t1'')) (OJob (Some lost_job))]\<rparr>)"
proof -
  have "claimable None None [] 100 None demo_old" by (simp add: claimable_def tier_match_def demo_old_def Job_new_def)
  then have "mem_step (OpClaim (demo_req ''t1'')) (mem_create demo_old mem_empty) = (OJob (Some lost_job), mem_create lost_job mem_empty)"
    by (simp add: mem_claim_next_def mem_create_def mem_empty_def demo_req_def lost_job_def claimed_def Let_def demo_old_def Job_new_def)
  then show ?thesis by (simp add: submit_def others_def lost_disp_def demo_disp_def emit_def Let_def)
qed

lemma lost_run:
  assumes "dp_foreign d = []" "dp_store d = mem_create lost_job mem_empty"
  shows "\<exists>rt w out. dp_trace (snd (dispatch_inner mem_step mem_get demo_cfg lost_job (demo_cold (TimedOut False) demo_sealed) d))
     = dp_trace d @ [Wrote (claim_op demo_cfg lost_job rt w) (OBool True), Launched rt w, out] \<and> wr_name w = Some (container_name ''a1'')"
proof -
  let ?cs = "demo_cold (TimedOut False) demo_sealed"
  define w where "w = cold_run (dc_render demo_cfg) demo_engine lost_job demo_plan NONE (dc_job_dir demo_cfg ''a1'') []"
  have a: "dispatch_inner mem_step mem_get demo_cfg lost_job ?cs d = cold_launch mem_step mem_get demo_cfg lost_job ?cs demo_runsc w d"
    using lost_plan demo_cold_plan(4)
    by (simp add: w_def dispatch_inner_def cold_admit_def egress_gate_def demo_cold_def materialise_sample_def)
  have i: "mem_inv (mem_create lost_job mem_empty)" by (simp add: mem_create_def mem_empty_def mem_inv_def)
  have g: "mem_get ''a1'' (mem_create lost_job mem_empty) = Some lost_job" by (simp add: mem_create_def mem_empty_def mem_get_def)
  let ?fs = "[FWorkerRuntime (Some (rt_name demo_runsc)),
      FWarnings (security_warnings lost_job @ map JStr (snd (build_worker_docker_run_argv (dc_host demo_cfg) demo_runsc w)))]"
  have hit: "fst (mem_step (OpCas ''a1'' RUNNING (Some ''t1'') ?fs) (mem_create lost_job mem_empty)) = OBool True"
    by (rule mem.cas_step(2) [OF i]) (use g in \<open>auto simp: cas_guard_def\<close>)
  obtain ours d1 where o: "cas mem_step lost_job ?fs d = (ours, d1)" by fastforce
  have ours: "ours" using o hit assms by (auto simp: cas_def submit_def others_def Let_def split_beta)
  then have t1: "dp_trace d1 = dp_trace d @ [Wrote (claim_op demo_cfg lost_job demo_runsc w) (OBool True)]"
    using cas_trace [OF o] by (auto simp: claim_op_def)
  obtain won d3 where f: "write_failed mem_step demo_cfg 200 lost_job ''worker timed out'' (emit (Launched demo_runsc w) d1) = (won, d3)" by fastforce
  from write_failed_trace [OF f] obtain out where
    t3: "dp_trace d3 = dp_trace d1 @ [Launched demo_runsc w, out]" by (auto simp: emit_def)
  have "snd (cold_launch mem_step mem_get demo_cfg lost_job ?cs demo_runsc w d) = d3"
    using o ours f by (simp add: cold_launch_def Let_def cold_fail_def) (simp add: demo_cold_def cold_fail_def)
  then show ?thesis using t1 t3 by (intro exI [of _ demo_runsc] exI [of _ w] exI [of _ out]) (simp add: a w_def cold_run_def)
qed

theorem permits_cover_containers_witness:
  "container_name ''a1'' \<in> fst ` set (dp_orphans (fold (disp_step mem_step mem_get demo_cfg)
     [Reconcile True None, Once lost_once, Reconcile False (Some [''b2'', ''a1''])] lost_disp))"
proof -
  let ?d1 = "lost_disp\<lparr>dp_store := mem_create lost_job mem_empty, dp_trace := [Wrote (OpClaim (demo_req ''t1'')) (OJob (Some lost_job))]\<rparr>"
  let ?ops = "[Reconcile True None, Once lost_once, Reconcile False (Some [''b2'', ''a1''])]"
  have free: "fst (self_grants_of (demo_world\<lparr>w_env := Map.empty\<rparr>) sg_init) = NoGate" by code_simp
  obtain sg where rf: "refuse (demo_world\<lparr>w_env := Map.empty\<rparr>) ''eng'' (Some (pn_exit NONE)) (dp_self ?d1) = (None, sg)"
    using free by (auto simp: refuse_def Let_def split_beta lost_disp_def demo_disp_def intro: that)
  define d2 where "d2 = emit PermitTaken (?d1\<lparr>dp_self := sg, dp_grants := clear_refusal ''a1'' (dp_grants ?d1),
      dp_gate := Some \<lparr>gt_limit = 2, gt_in_flight = 1\<rparr>\<rparr>)"
  have d2: "dp_foreign d2 = []" "dp_store d2 = mem_create lost_job mem_empty" by (simp_all add: d2_def emit_def lost_disp_def demo_disp_def)
  have once: "snd (dispatch_once mem_step mem_get demo_cfg lost_once lost_disp) = snd (run_cold mem_step mem_get demo_cfg lost_once lost_job d2)"
    using lost_claim lost_plan(1,2) rf
    by (simp add: dispatch_once_def lost_once_def demo_once_def dispatch_claimed_job_def)
      (simp add: warm_or_cold_def cold_path_def d2_def lost_disp_def demo_disp_def in_cooldown_def take_permit_def full_def split_beta)
  obtain r d3 where r: "dispatch_inner mem_step mem_get demo_cfg lost_job (demo_cold (TimedOut False) demo_sealed) d2 = (r, d3)" by fastforce
  obtain rt w out where l: "dp_trace d3 = dp_trace d2 @ [Wrote (claim_op demo_cfg lost_job rt w) (OBool True), Launched rt w, out]"
      "wr_name w = Some (container_name ''a1'')"
    using lost_run [OF d2] r by auto
  have rc: "snd (run_cold mem_step mem_get demo_cfg lost_once lost_job d2) = after_cold mem_step mem_get lost_once lost_job (snd r) d3"
    using r by (simp add: run_cold_def lost_once_def split_beta)
  obtain es where es: "dp_trace (after_cold mem_step mem_get lost_once lost_job (snd r) d3) = dp_trace d3 @ es"
    using after_cold_no_launch unfolding grows_def by blast
  have t: "dp_trace (disp_step mem_step mem_get demo_cfg (Once lost_once) lost_disp) = dp_trace lost_disp
      @ Wrote (OpClaim (on_request lost_once)) (OJob (Some lost_job))
      # ([PermitTaken, Wrote (claim_op demo_cfg lost_job rt w) (OBool True), Launched rt w, out] @ es)"
    using once rc es l(1) by (simp add: d2_def emit_def) (simp add: lost_disp_def demo_disp_def lost_once_def demo_once_def)
  have g: "dp_gate lost_disp = Some \<lparr>gt_limit = 2, gt_in_flight = 0\<rparr>" "length (dp_orphans lost_disp) \<le> gt_in_flight \<lparr>gt_limit = 2, gt_in_flight = 0\<rparr>"
    by (simp_all add: lost_disp_def demo_disp_def)
  have c: "cs_launch (on_cold lost_once lost_job) = TimedOut False" by (simp add: lost_once_def demo_cold_def)
  have "?ops = [Reconcile True None] @ Once lost_once # [Reconcile False (Some [''b2'', ''a1''])]
      \<and> lost_disp = fold (disp_step mem_step mem_get demo_cfg) [Reconcile True None] lost_disp
      \<and> dp_trace (disp_step mem_step mem_get demo_cfg (Once lost_once) lost_disp) = dp_trace lost_disp
        @ Wrote (OpClaim (on_request lost_once)) (OJob (Some lost_job))
        # ([PermitTaken, Wrote (claim_op demo_cfg lost_job rt w) (OBool True), Launched rt w, out] @ es)
      \<and> Launched rt w \<in> set ([PermitTaken, Wrote (claim_op demo_cfg lost_job rt w) (OBool True), Launched rt w, out] @ es)
      \<and> wr_name w = Some (container_name ''a1'') \<and> cs_launch (on_cold lost_once lost_job) = TimedOut False
      \<and> (\<forall>up ids. Reconcile up (Some ids) \<in> set [Reconcile False (Some [''b2'', ''a1''])] \<longrightarrow> container_name ''a1'' \<in> set (map container_name ids))"
    using t l(2) c by (simp add: reconcile_cold_orphans_def)
  with permits_cover_containers [OF g, of mem_step mem_get demo_cfg ?ops] show ?thesis by blast
qed

end
