(* ===== verification/Job_Retention.thy ===== *)
theory Job_Retention
  imports Dispatch_Recovery
begin

text \<open>
  \<^verbatim>\<open>host/jobs/retention.py\<close>: what a node does with job directories and stored results after a run.
  Expiry reserves a row before it destroys anything; the upload sweep makes retained results durable and
  repairs their rows; the scratch reclaim removes old directories, but not the last copy of a result.
  A node keeps its directories and shares the job store and the blob store; other clients may write to
  the job store before every access, and every access may fail.
\<close>

section \<open>The node\<close>

text \<open>A job directory: what the tests of the code see of it.  \<open>tr_marker\<close> is the pending-upload
  sentinel (\<^const>\<open>None\<close> when absent, \<^term>\<open>Some None\<close> when unreadable), \<open>tr_meta\<close> whether
  \<^verbatim>\<open>output/metadata.json\<close> is a file, \<open>tr_seal\<close> the answer of \<open>_holds_local_seal\<close>, \<open>tr_orphan\<close> the
  time of the retained-orphan sentinel, \<open>tr_stamps\<close> the modification and change times of the directory and
  everything readable in it (\<^const>\<open>None\<close> when it cannot be read).\<close>

record tree =
  tr_link :: bool
  tr_dir :: bool
  tr_marker :: "string option option"
  tr_meta :: bool
  tr_seal :: bool
  tr_orphan :: "real option"
  tr_guarded :: bool
  tr_stamps :: "(real \<times> real) list option"

datatype kevent =
    KWrote store_op outcome
  | KLooked string "job option option"
  | KHas string "bool option"
  | KPut string bool
  | KDropped string bool
  | KRemoving string
  | KMarked string
  | KIndexed string
  | KUnmarked string

record 's keep =
  kp_store :: 's
  kp_foreign :: "store_op list list"
  kp_trees :: "(string \<times> tree) list"
  kp_blobs :: "string set"
  kp_uploads_at :: nat
  kp_scratch_at :: nat
  kp_trace :: "kevent list"

definition jot :: "kevent \<Rightarrow> 's keep \<Rightarrow> 's keep" where
  "jot e w = w\<lparr>kp_trace := kp_trace w @ [e]\<rparr>"

definition before_access :: "(store_op \<Rightarrow> 's \<Rightarrow> outcome \<times> 's) \<Rightarrow> 's keep \<Rightarrow> 's keep" where
  "before_access step w =
     (case kp_foreign w of [] \<Rightarrow> w
      | ops # rest \<Rightarrow> w\<lparr>kp_store := run_ops step ops (kp_store w), kp_foreign := rest\<rparr>)"

definition write_row :: "(store_op \<Rightarrow> 's \<Rightarrow> outcome \<times> 's) \<Rightarrow> store_op \<Rightarrow> 's keep \<Rightarrow> bool \<times> 's keep" where
  "write_row step op w =
     (let w1 = before_access step w; (out, s') = step op (kp_store w1)
      in (out = OBool True, jot (KWrote op out) (w1\<lparr>kp_store := s'\<rparr>)))"

definition read_row ::
  "(store_op \<Rightarrow> 's \<Rightarrow> outcome \<times> 's) \<Rightarrow> (string \<Rightarrow> 's \<Rightarrow> job option) \<Rightarrow> bool \<Rightarrow> string \<Rightarrow> 's keep
     \<Rightarrow> job option option \<times> 's keep" where
  "read_row step get up k w =
     (let w1 = before_access step w; r = (if up then Some (get k (kp_store w1)) else None)
      in (r, jot (KLooked k r) w1))"

text \<open>\<open>has_output\<close>; a raise counts as not durable.\<close>

definition has_output :: "bool \<Rightarrow> string \<Rightarrow> 's keep \<Rightarrow> bool \<times> 's keep" where
  "has_output up k w =
     (let r = (if up then Some (k \<in> kp_blobs w) else None) in (r = Some True, jot (KHas k r) w))"

definition put_output :: "bool \<Rightarrow> string \<Rightarrow> 's keep \<Rightarrow> 's keep" where
  "put_output ok k w = jot (KPut k ok) (if ok then w\<lparr>kp_blobs := insert k (kp_blobs w)\<rparr> else w)"

definition delete_blob :: "bool \<Rightarrow> string \<Rightarrow> 's keep \<Rightarrow> bool \<times> 's keep" where
  "delete_blob ok k w = (ok, jot (KDropped k ok) (if ok then w\<lparr>kp_blobs := kp_blobs w - {k}\<rparr> else w))"

text \<open>\<open>clear_pending_upload\<close> without a claim.\<close>

definition clear_marker :: "string \<Rightarrow> 's keep \<Rightarrow> 's keep" where
  "clear_marker k w =
     jot (KUnmarked k) (w\<lparr>kp_trees := map (\<lambda>(k', t). (k', if k' = k then t\<lparr>tr_marker := None\<rparr> else t)) (kp_trees w)\<rparr>)"

section \<open>Names, ages, paths\<close>

text \<open>\<open>_JOB_ID_RE\<close>: five groups of hexadecimal digits.\<close>

definition hex_char :: "char \<Rightarrow> bool" where
  "hex_char c \<longleftrightarrow> c \<in> set ''0123456789abcdefABCDEF''"

definition job_id_like :: "string \<Rightarrow> bool" where
  "job_id_like s \<longleftrightarrow>
     map length (split_on CHR ''-'' s) = [8, 4, 4, 4, 12] \<and> list_all hex_char (filter (\<lambda>c. c \<noteq> CHR ''-'') s)"

text \<open>\<open>_evidence\<close> against the cutoff: a time in the future counts by the change time, and when that is in
  the future as well the tree is taken to be live.\<close>

definition touched_since :: "real \<Rightarrow> real \<Rightarrow> real \<times> real \<Rightarrow> bool" where
  "touched_since now cutoff st =
     (if fst st \<le> now + 60 then cutoff < fst st else if snd st \<le> now + 60 then cutoff < snd st else True)"

text \<open>\<open>purge_job_dir\<close>: what it may remove.  Paths are lists of components; \<open>is_link\<close>, \<open>resolve\<close> are the
  file system (\<^const>\<open>None\<close> when it raises).\<close>

record filesys =
  fs_link :: "string list \<Rightarrow> bool option"
  fs_resolve :: "string list \<Rightarrow> string list option"
  fs_exists :: "string list \<Rightarrow> bool"

definition purge_target :: "filesys \<Rightarrow> string list \<Rightarrow> string \<Rightarrow> string list option" where
  "purge_target f jroot jid =
     (if jid = [] \<or> CHR ''/'' \<in> set jid \<or> CHR 0x5C \<in> set jid then None
      else let p = jroot @ [jid] in
        if fs_link f p \<noteq> Some False then None
        else case (fs_resolve f p, fs_resolve f jroot) of
          (Some r, Some jr) \<Rightarrow> if r = jr \<or> \<not> prefix jr r then None else Some r
        | _ \<Rightarrow> None)"

text \<open>\<open>_safe_rmtree\<close>: the directory it removes for a stored \<open>result_dir\<close>; \<open>jroot\<close> is the resolved job
  root.  The outer \<^const>\<open>None\<close> is an exception that leaves the method.\<close>

definition safe_rmtree_target :: "filesys \<Rightarrow> string list \<Rightarrow> string list \<Rightarrow> string list option option" where
  "safe_rmtree_target f jroot rd =
     (let parent = (case fs_resolve f (butlast rd) of Some p \<Rightarrow> p | None \<Rightarrow> butlast rd)
      in case (if parent = jroot then (if fs_exists f rd then fs_resolve f rd else Some rd) else Some parent) of
           None \<Rightarrow> None
         | Some target \<Rightarrow>
             (case fs_resolve f target of
                None \<Rightarrow> Some None
              | Some r \<Rightarrow> if prefix jroot r \<and> fs_exists f target then Some (Some r) else Some None))"

definition remove_under :: "string list \<Rightarrow> string list \<Rightarrow> 's keep \<Rightarrow> 's keep" where
  "remove_under jroot p w = w\<lparr>kp_trees := filter (\<lambda>(k, t). \<not> prefix p (jroot @ [k])) (kp_trees w)\<rparr>"

section \<open>The window of a sweep\<close>

text \<open>A sweep starts where the last one stopped and goes round.\<close>

definition window :: "nat \<Rightarrow> 'a list \<Rightarrow> 'a list" where
  "window start xs = rotate (start mod length xs) xs"

definition advance :: "nat \<Rightarrow> nat \<Rightarrow> 'a list \<Rightarrow> nat" where
  "advance start m xs = (start mod length xs + m) mod length xs"

section \<open>Retrying uploads\<close>

text \<open>\<open>upload_output_with_retry\<close>: at most \<open>max 1 attempts\<close> calls; the answers of the calls are given.\<close>

fun upload_tries :: "nat \<Rightarrow> (nat \<Rightarrow> bool) \<Rightarrow> nat \<Rightarrow> bool \<times> nat" where
  "upload_tries 0 ans i = (False, i)"
| "upload_tries (Suc n) ans i = (if ans i then (True, Suc i) else upload_tries n ans (Suc i))"

definition upload_output_with_retry :: "nat \<Rightarrow> (nat \<Rightarrow> bool) \<Rightarrow> bool \<times> nat" where
  "upload_output_with_retry attempts ans = upload_tries (max 1 attempts) ans 0"

text \<open>A write whose answer was lost may have happened.\<close>

datatype answer = Answered | Lost bool

record retry_cfg =
  rq_attempts :: nat
  rq_retention :: real
  rq_now :: real
  rq_row_up :: bool
  rq_has_up :: bool
  rq_receipt_ok :: bool
  rq_puts :: "nat \<Rightarrow> bool"
  rq_repair :: answer
  rq_after_up :: bool
  rq_drop_ok :: bool

definition repair_op :: "retry_cfg \<Rightarrow> string \<Rightarrow> store_op" where
  "repair_op c k = OpCas k FAILED None
     [FStatus DONE, FError None, FFinishedAt (Some (rq_now c)), FExpiresAt (expires_after (rq_retention c) (rq_now c))]"

definition repair_row :: "(store_op \<Rightarrow> 's \<Rightarrow> outcome \<times> 's) \<Rightarrow> retry_cfg \<Rightarrow> string \<Rightarrow> 's keep \<Rightarrow> bool \<times> 's keep" where
  "repair_row step c k w =
     (case rq_repair c of
        Answered \<Rightarrow> write_row step (repair_op c k) w
      | Lost happened \<Rightarrow> (False, if happened then snd (write_row step (repair_op c k) w) else w))"

text \<open>\<open>_retry_pending_one\<close> from the repair on: the output is durable.\<close>

definition settle_repair ::
  "(store_op \<Rightarrow> 's \<Rightarrow> outcome \<times> 's) \<Rightarrow> (string \<Rightarrow> 's \<Rightarrow> job option) \<Rightarrow> retry_cfg \<Rightarrow> string \<Rightarrow> 's keep \<Rightarrow> 's keep" where
  "settle_repair step get c k w =
     (case repair_row step c k w of (repaired, w1) \<Rightarrow>
        if repaired then clear_marker k (jot (KIndexed k) w1)
        else case read_row step get (rq_after_up c) k w1 of (r, w2) \<Rightarrow>
          (case r of
             Some (Some after) \<Rightarrow>
               if status after = EXPIRED then clear_marker k (snd (delete_blob (rq_drop_ok c) k w2)) else w2
           | _ \<Rightarrow> w2))"

definition retry_pending_one ::
  "(store_op \<Rightarrow> 's \<Rightarrow> outcome \<times> 's) \<Rightarrow> (string \<Rightarrow> 's \<Rightarrow> job option) \<Rightarrow> retry_cfg \<Rightarrow> string \<times> tree \<Rightarrow> 's keep
     \<Rightarrow> 's keep" where
  "retry_pending_one step get c kt w =
     (case kt of (k, t) \<Rightarrow>
        if tr_link t \<or> \<not> tr_dir t \<or> \<not> job_id_like k \<or> tr_marker t = None \<or> \<not> tr_meta t then w
        else case read_row step get (rq_row_up c) k w of (r, w1) \<Rightarrow>
          (case r of
             Some (Some row) \<Rightarrow>
               if status row \<noteq> FAILED then w1
               else (case tr_marker t of
                  Some (Some claim) \<Rightarrow>
                    if claim \<noteq> [] \<and> claim \<noteq> (case claim_id row of None \<Rightarrow> [] | Some x \<Rightarrow> x) then w1
                    else case has_output (rq_has_up c) k w1 of (durable, w2) \<Rightarrow>
                      if durable then settle_repair step get c k w2
                      else if \<not> rq_receipt_ok c then w2
                      else let stored = fst (upload_output_with_retry (rq_attempts c) (rq_puts c));
                               w3 = put_output stored k (jot (KMarked k) w2)
                           in if stored then settle_repair step get c k w3 else w3
                | _ \<Rightarrow> w1)
           | _ \<Rightarrow> w1))"

definition retry_pending_uploads ::
  "(store_op \<Rightarrow> 's \<Rightarrow> outcome \<times> 's) \<Rightarrow> (string \<Rightarrow> 's \<Rightarrow> job option) \<Rightarrow> nat \<Rightarrow> (string \<Rightarrow> retry_cfg) \<Rightarrow> 's keep
     \<Rightarrow> 's keep" where
  "retry_pending_uploads step get m c w =
     (let entries = kp_trees w;
          rotates = entries \<noteq> [] \<and> 0 < m;
          todo = (if rotates then take m (window (kp_uploads_at w) entries) else entries);
          w1 = (if rotates then w\<lparr>kp_uploads_at := advance (kp_uploads_at w) m entries\<rparr> else w)
      in fold (\<lambda>kt. retry_pending_one step get (c (fst kt)) kt) todo w1)"

section \<open>Reclaiming scratch space\<close>

record scratch_cfg =
  sc_now :: real
  sc_max_age :: real
  sc_retained :: "string set"
  sc_recovery :: bool
  sc_blobs :: bool
  sc_row_up :: "string \<Rightarrow> bool"
  sc_has_up :: "string \<Rightarrow> bool"
  sc_removed :: "string \<Rightarrow> bool"

text \<open>The directories the reclaim considers, and those old enough.\<close>

definition considered :: "scratch_cfg \<Rightarrow> string \<times> tree \<Rightarrow> bool" where
  "considered c kt =
     (case kt of (k, t) \<Rightarrow> \<not> tr_link t \<and> tr_dir t \<and> job_id_like k
        \<and> (case tr_orphan t of None \<Rightarrow> True | Some at' \<Rightarrow> at' \<le> sc_now c - sc_max_age c * 2)
        \<and> \<not> tr_guarded t)"

definition aged :: "scratch_cfg \<Rightarrow> tree \<Rightarrow> bool" where
  "aged c t =
     (case tr_stamps t of None \<Rightarrow> False
      | Some ss \<Rightarrow> \<not> list_ex (touched_since (sc_now c) (sc_now c - sc_max_age c)) ss)"

definition is_terminal :: "job_status \<Rightarrow> bool" where
  "is_terminal st \<longleftrightarrow> st = DONE \<or> st = FAILED \<or> st = EXPIRED"

definition purge_dir :: "scratch_cfg \<Rightarrow> string \<Rightarrow> 's keep \<Rightarrow> 's keep" where
  "purge_dir c k w =
     jot (KRemoving k) (if sc_removed c k then w\<lparr>kp_trees := filter (\<lambda>(k', t). k' \<noteq> k) (kp_trees w)\<rparr> else w)"

definition reap_one ::
  "(store_op \<Rightarrow> 's \<Rightarrow> outcome \<times> 's) \<Rightarrow> (string \<Rightarrow> 's \<Rightarrow> job option) \<Rightarrow> scratch_cfg \<Rightarrow> string \<times> tree \<Rightarrow> 's keep
     \<Rightarrow> 's keep" where
  "reap_one step get c kt w =
     (case kt of (k, t) \<Rightarrow>
        if \<not> aged c t \<or> k \<in> sc_retained c then w
        else case read_row step get (sc_row_up c k) k w of (r, w1) \<Rightarrow>
          (case r of
             None \<Rightarrow> w1
           | Some row \<Rightarrow>
               if (case row of None \<Rightarrow> False | Some j \<Rightarrow> \<not> is_terminal (status j)) then w1
               else let marked = (tr_marker t \<noteq> None);
                        pending = (marked \<and> sc_recovery c \<and> (case row of None \<Rightarrow> False | Some j \<Rightarrow> status j = FAILED));
                        is_done = (case row of None \<Rightarrow> False | Some j \<Rightarrow> status j = DONE)
                    in if pending \<or> is_done then
                         (case (if sc_blobs c then has_output (sc_has_up c k) k w1 else (False, w1)) of (durable, w2) \<Rightarrow>
                            if \<not> durable \<and> (pending \<or> tr_seal t) then w2
                            else if pending \<and> \<not> is_done then w2
                            else purge_dir c k w2)
                       else purge_dir c k w1))"

fun reap_loop ::
  "(store_op \<Rightarrow> 's \<Rightarrow> outcome \<times> 's) \<Rightarrow> (string \<Rightarrow> 's \<Rightarrow> job option) \<Rightarrow> scratch_cfg \<Rightarrow> nat \<Rightarrow> (string \<times> tree) list \<Rightarrow> 's keep
     \<Rightarrow> 's keep" where
  "reap_loop step get c n [] w = w"
| "reap_loop step get c n (kt # kts) w =
     (if \<not> considered c kt then reap_loop step get c n kts w
      else case n of 0 \<Rightarrow> w | Suc n' \<Rightarrow> reap_loop step get c n' kts (reap_one step get c kt w))"

text \<open>\<open>reap_stale_scratch\<close>; \<open>busy\<close> is the answer of \<open>yield_to_work\<close>, a raise counts as not busy.\<close>

definition reap_stale_scratch ::
  "(store_op \<Rightarrow> 's \<Rightarrow> outcome \<times> 's) \<Rightarrow> (string \<Rightarrow> 's \<Rightarrow> job option) \<Rightarrow> bool \<Rightarrow> nat \<Rightarrow> scratch_cfg \<Rightarrow> 's keep \<Rightarrow> 's keep" where
  "reap_stale_scratch step get busy m c w =
     (if sc_max_age c \<le> 0 \<or> busy then w
      else let entries = kp_trees w;
               rotates = entries \<noteq> [] \<and> 0 < m;
               todo = (if rotates then window (kp_scratch_at w) entries else entries);
               w1 = (if rotates then w\<lparr>kp_scratch_at := advance (kp_scratch_at w) m entries\<rparr> else w)
           in reap_loop step get c m todo w1)"

section \<open>Expiry\<close>

record expiry_cfg =
  ex_now :: real
  ex_now2 :: "string \<Rightarrow> real"
  ex_root :: "string list"
  ex_fs :: filesys
  ex_path :: "string \<Rightarrow> string list"
  ex_blobs :: bool
  ex_row_up :: "string \<Rightarrow> bool"
  ex_cas_up :: "string \<Rightarrow> answer"
  ex_drop_ok :: "string \<Rightarrow> bool"
  ex_after_up :: "string \<Rightarrow> bool"
  ex_final_up :: "string \<Rightarrow> answer"

definition due :: "real \<Rightarrow> job \<Rightarrow> bool" where
  "due now j \<longleftrightarrow> (case expires_at j of None \<Rightarrow> False | Some t \<Rightarrow> t \<le> now)"

definition guarded_write :: "(store_op \<Rightarrow> 's \<Rightarrow> outcome \<times> 's) \<Rightarrow> answer \<Rightarrow> store_op \<Rightarrow> 's keep \<Rightarrow> bool \<times> 's keep" where
  "guarded_write step a op w =
     (case a of Answered \<Rightarrow> write_row step op w
      | Lost happened \<Rightarrow> (False, if happened then snd (write_row step op w) else w))"

definition reserve_op :: "job \<Rightarrow> store_op" where
  "reserve_op j = OpCas (job_id j) (status j) None [FStatus EXPIRED]"

definition forget_op :: "string \<Rightarrow> store_op" where
  "forget_op k = OpCas k EXPIRED None [FStatus EXPIRED, FResultDir None, FExpiresAt None]"

text \<open>The local files of a reserved job: none of a job with a pending upload.\<close>

definition drop_files :: "expiry_cfg \<Rightarrow> job \<Rightarrow> 's keep \<Rightarrow> bool \<times> 's keep" where
  "drop_files c j w =
     (let pending = (case map_of (kp_trees w) (job_id j) of None \<Rightarrow> False | Some t \<Rightarrow> tr_marker t \<noteq> None)
      in if pending then (True, w)
         else case result_dir j of
           None \<Rightarrow> (True, w)
         | Some rd \<Rightarrow>
             (case safe_rmtree_target (ex_fs c) (ex_root c) (ex_path c rd) of
                None \<Rightarrow> (False, w)
              | Some None \<Rightarrow> (True, w)
              | Some (Some p) \<Rightarrow> (True, jot (KRemoving (job_id j)) (remove_under (ex_root c) p w))))"

text \<open>What follows a won reservation, and the whole of \<open>_expire_job\<close>.\<close>

definition expire_reserved ::
  "(store_op \<Rightarrow> 's \<Rightarrow> outcome \<times> 's) \<Rightarrow> (string \<Rightarrow> 's \<Rightarrow> job option) \<Rightarrow> expiry_cfg \<Rightarrow> job \<Rightarrow> 's keep \<Rightarrow> 's keep" where
  "expire_reserved step get c j w =
     (case drop_files c j w of (ok, w1) \<Rightarrow>
        if \<not> ok then w1
        else case (if ex_blobs c then delete_blob (ex_drop_ok c (job_id j)) (job_id j) w1 else (True, w1)) of (gone, w2) \<Rightarrow>
          if \<not> gone then w2
          else case read_row step get (ex_after_up c (job_id j)) (job_id j) w2 of (r, w3) \<Rightarrow>
            (case r of
               Some (Some _) \<Rightarrow> snd (guarded_write step (ex_final_up c (job_id j)) (forget_op (job_id j)) w3)
             | _ \<Rightarrow> w3))"

definition expire_job ::
  "(store_op \<Rightarrow> 's \<Rightarrow> outcome \<times> 's) \<Rightarrow> (string \<Rightarrow> 's \<Rightarrow> job option) \<Rightarrow> expiry_cfg \<Rightarrow> job \<Rightarrow> 's keep \<Rightarrow> 's keep" where
  "expire_job step get c j w =
     (case read_row step get (ex_row_up c (job_id j)) (job_id j) w of (r, w1) \<Rightarrow>
        (case r of
           Some (Some fresh) \<Rightarrow>
             if status fresh \<noteq> status j \<or> \<not> due (ex_now2 c (job_id j)) fresh then w1
             else (case guarded_write step (ex_cas_up c (job_id j)) (reserve_op j) w1 of (won, w2) \<Rightarrow>
               if won then expire_reserved step get c j w2 else w2)
         | _ \<Rightarrow> w1))"

text \<open>\<open>expire_due\<close> over the rows of one listing.\<close>

definition expire_due ::
  "(store_op \<Rightarrow> 's \<Rightarrow> outcome \<times> 's) \<Rightarrow> (string \<Rightarrow> 's \<Rightarrow> job option) \<Rightarrow> expiry_cfg \<Rightarrow> job list \<Rightarrow> 's keep \<Rightarrow> 's keep" where
  "expire_due step get c rows w =
     fold (expire_job step get c) (filter (\<lambda>j. is_terminal (status j) \<and> due (ex_now c) j) rows) w"

section \<open>What an access changes\<close>

lemma before_access_frame [simp]:
  "kp_trees (before_access step w) = kp_trees w" "kp_blobs (before_access step w) = kp_blobs w"
  "kp_trace (before_access step w) = kp_trace w"
  by (simp_all add: before_access_def split: list.split)

lemma read_row_frame:
  "read_row step get up k w = (r, w1) \<Longrightarrow>
     kp_trees w1 = kp_trees w \<and> kp_blobs w1 = kp_blobs w \<and> kp_trace w1 = kp_trace w @ [KLooked k r]"
  by (auto simp: read_row_def jot_def Let_def)

lemma write_row_frame:
  "write_row step op w = (won, w1) \<Longrightarrow> \<exists>out. won = (out = OBool True) \<and>
     kp_trees w1 = kp_trees w \<and> kp_blobs w1 = kp_blobs w \<and> kp_trace w1 = kp_trace w @ [KWrote op out]"
  by (rule exI [of _ "fst (step op (kp_store (before_access step w)))"])
    (auto simp: write_row_def jot_def Let_def split_beta)

lemma has_output_frame:
  "has_output up k w = (durable, w1) \<Longrightarrow>
     kp_trees w1 = kp_trees w \<and> kp_blobs w1 = kp_blobs w
     \<and> kp_trace w1 = kp_trace w @ [KHas k (if up then Some (k \<in> kp_blobs w) else None)]
     \<and> durable = (up \<and> k \<in> kp_blobs w)"
  by (auto simp: has_output_def jot_def Let_def split: if_splits)

section \<open>The reclaim keeps last copies\<close>

text \<open>Why a directory may go: it is old and not held, its row was found gone or terminal, a done row
  with a local seal has a stored output, and a result waiting for its upload is not touched.\<close>

definition may_reclaim :: "scratch_cfg \<Rightarrow> string set \<Rightarrow> string \<Rightarrow> tree \<Rightarrow> job option \<Rightarrow> bool" where
  "may_reclaim c stored k t row \<longleftrightarrow>
     aged c t \<and> k \<notin> sc_retained c
     \<and> (case row of None \<Rightarrow> True
        | Some j \<Rightarrow> is_terminal (status j) \<and> (status j = DONE \<and> tr_seal t \<longrightarrow> k \<in> stored)
            \<and> \<not> (status j = FAILED \<and> tr_marker t \<noteq> None \<and> sc_recovery c))"

definition reclaimed :: "scratch_cfg \<Rightarrow> (string \<times> tree) set \<Rightarrow> 's keep \<Rightarrow> 's keep \<Rightarrow> bool" where
  "reclaimed c cands w w' \<longleftrightarrow>
     (\<exists>es. kp_trace w' = kp_trace w @ es \<and> kp_blobs w' = kp_blobs w
        \<and> kp_trees w' = filter (\<lambda>(k, t). \<not> (KRemoving k \<in> set es \<and> sc_removed c k)) (kp_trees w)
        \<and> (\<forall>k. KRemoving k \<in> set es \<longrightarrow>
              (\<exists>t row. (k, t) \<in> cands \<and> KLooked k (Some row) \<in> set es \<and> may_reclaim c (kp_blobs w) k t row)))"

lemma reclaimedE:
  assumes "reclaimed c A w w'"
  obtains es where "kp_trace w' = kp_trace w @ es" "kp_blobs w' = kp_blobs w"
    "kp_trees w' = filter (\<lambda>(k, t). \<not> (KRemoving k \<in> set es \<and> sc_removed c k)) (kp_trees w)"
    "\<And>k. KRemoving k \<in> set es \<Longrightarrow> \<exists>t row. (k, t) \<in> A \<and> KLooked k (Some row) \<in> set es \<and> may_reclaim c (kp_blobs w) k t row"
  using assms unfolding reclaimed_def
  by (elim exE conjE) (rule that, assumption, assumption, assumption, erule allE, erule (1) mp)

lemma reclaimed_refl: "kp_trace w' = kp_trace w \<Longrightarrow> kp_blobs w' = kp_blobs w \<Longrightarrow> kp_trees w' = kp_trees w \<Longrightarrow> reclaimed c A w w'"
  by (simp add: reclaimed_def)

lemma reclaimed_mono: "reclaimed c A w w' \<Longrightarrow> A \<subseteq> B \<Longrightarrow> reclaimed c B w w'"
proof -
  assume a: "reclaimed c A w w'" and sub: "A \<subseteq> B"
  obtain es where es: "kp_trace w' = kp_trace w @ es" "kp_blobs w' = kp_blobs w"
    "kp_trees w' = filter (\<lambda>(k, t). \<not> (KRemoving k \<in> set es \<and> sc_removed c k)) (kp_trees w)"
    "\<And>k. KRemoving k \<in> set es \<Longrightarrow> \<exists>t row. (k, t) \<in> A \<and> KLooked k (Some row) \<in> set es \<and> may_reclaim c (kp_blobs w) k t row"
    using a by (rule reclaimedE) (rule that)
  have "\<exists>t row. (k, t) \<in> B \<and> KLooked k (Some row) \<in> set es \<and> may_reclaim c (kp_blobs w) k t row"
    if "KRemoving k \<in> set es" for k
    using es(4) [OF that] sub by (elim exE conjE) (rule exI, rule exI, intro conjI, erule (1) subsetD, assumption+)
  then show ?thesis using es(1-3) unfolding reclaimed_def by (intro exI [of _ es]) simp
qed

lemma reclaimed_quiet:
  assumes "kp_trace w' = kp_trace w @ es" "kp_blobs w' = kp_blobs w" "kp_trees w' = kp_trees w"
    and "\<And>e. e \<in> set es \<Longrightarrow> \<forall>k. e \<noteq> KRemoving k"
  shows "reclaimed c A w w'"
proof -
  have "KRemoving k \<notin> set es" for k using assms(4) by blast
  then show ?thesis using assms(1-3) unfolding reclaimed_def by (intro exI [of _ es]) simp
qed

lemma reclaimed_trans:
  assumes "reclaimed c A w w1" "reclaimed c A w1 w2"
  shows "reclaimed c A w w2"
proof -
  obtain es where 1: "kp_trace w1 = kp_trace w @ es" "kp_blobs w1 = kp_blobs w"
    "kp_trees w1 = filter (\<lambda>(k, t). \<not> (KRemoving k \<in> set es \<and> sc_removed c k)) (kp_trees w)"
    "\<And>k. KRemoving k \<in> set es \<Longrightarrow> \<exists>t row. (k, t) \<in> A \<and> KLooked k (Some row) \<in> set es \<and> may_reclaim c (kp_blobs w) k t row"
    using assms(1) by (rule reclaimedE) (rule that)
  obtain es' where 2: "kp_trace w2 = kp_trace w1 @ es'" "kp_blobs w2 = kp_blobs w1"
    "kp_trees w2 = filter (\<lambda>(k, t). \<not> (KRemoving k \<in> set es' \<and> sc_removed c k)) (kp_trees w1)"
    "\<And>k. KRemoving k \<in> set es' \<Longrightarrow> \<exists>t row. (k, t) \<in> A \<and> KLooked k (Some row) \<in> set es' \<and> may_reclaim c (kp_blobs w1) k t row"
    using assms(2) by (rule reclaimedE) (rule that)
  have "kp_trees w2 = filter (\<lambda>(k, t). \<not> (KRemoving k \<in> set (es @ es') \<and> sc_removed c k)) (kp_trees w)"
    unfolding 2(3) 1(3) filter_filter by (rule filter_cong) auto
  moreover have "\<exists>t row. (k, t) \<in> A \<and> KLooked k (Some row) \<in> set (es @ es') \<and> may_reclaim c (kp_blobs w) k t row"
    if "KRemoving k \<in> set (es @ es')" for k
    using that 1(4) [of k] 2(4) [of k] 1(2) by auto
  ultimately show ?thesis using 1(1,2) 2(1,2) unfolding reclaimed_def by (intro exI [of _ "es @ es'"]) simp
qed

lemma reap_one_reclaims: "reclaimed c {(k, t)} w (reap_one step get c (k, t) w)"
proof -
  obtain r w1 where r: "read_row step get (sc_row_up c k) k w = (r, w1)" by fastforce
  note f1 = read_row_frame [OF r]
  have stop1: "reclaimed c {(k, t)} w w1" by (rule reclaimed_quiet [of _ _ "[KLooked k r]"]) (use f1 in auto)
  obtain durable w2 where h: "(if sc_blobs c then has_output (sc_has_up c k) k w1 else (False, w1)) = (durable, w2)" by fastforce
  obtain hs where f2: "kp_trees w2 = kp_trees w" "kp_blobs w2 = kp_blobs w" "kp_trace w2 = kp_trace w @ KLooked k r # hs"
      "\<And>e. e \<in> set hs \<Longrightarrow> \<forall>k'. e \<noteq> KRemoving k'" "durable \<Longrightarrow> k \<in> kp_blobs w"
    using h has_output_frame [of "sc_has_up c k" k w1 durable w2] f1 by (auto split: if_splits)
  have stop2: "reclaimed c {(k, t)} w w2" by (rule reclaimed_quiet [of _ _ "KLooked k r # hs"]) (use f2 in auto)
  have purge: "reclaimed c {(k, t)} w (purge_dir c k w')"
    if "kp_trees w' = kp_trees w" "kp_blobs w' = kp_blobs w" "kp_trace w' = kp_trace w @ KLooked k (Some row) # hs'"
      "\<And>e. e \<in> set hs' \<Longrightarrow> \<forall>k'. e \<noteq> KRemoving k'" "may_reclaim c (kp_blobs w) k t row" for w' row hs'
  proof -
    have "kp_trace (purge_dir c k w') = kp_trace w @ (KLooked k (Some row) # hs' @ [KRemoving k])"
      "kp_blobs (purge_dir c k w') = kp_blobs w"
      using that by (simp_all add: purge_dir_def jot_def)
    moreover have "KRemoving k' \<notin> set hs'" for k' using that(4) by blast
    moreover have "kp_trees (purge_dir c k w') =
        filter (\<lambda>(k', t). \<not> (KRemoving k' \<in> set (KLooked k (Some row) # hs' @ [KRemoving k]) \<and> sc_removed c k')) (kp_trees w)"
      using that(1) calculation(3) by (auto simp: purge_dir_def jot_def intro!: filter_cong filter_True [symmetric])
    ultimately show ?thesis using that(5) unfolding reclaimed_def
      by (intro exI [of _ "KLooked k (Some row) # hs' @ [KRemoving k]"]) auto
  qed
  show ?thesis
  proof (cases "\<not> aged c t \<or> k \<in> sc_retained c")
    case True
    then show ?thesis by (simp add: reap_one_def reclaimed_refl)
  next
    case old: False
    show ?thesis
    proof (cases r)
      case None
      then show ?thesis using old r stop1 by (simp add: reap_one_def)
    next
      case (Some row)
      have p1: "reclaimed c {(k, t)} w (purge_dir c k w1)" if "may_reclaim c (kp_blobs w) k t row"
        by (rule purge [of w1 row "[]"]) (use f1 Some that in auto)
      have p2: "reclaimed c {(k, t)} w (purge_dir c k w2)" if "may_reclaim c (kp_blobs w) k t row"
        by (rule purge [of w2 row hs]) (use f2 Some that in auto)
      show ?thesis
        using old r h Some stop1 stop2 p1 p2 f2(5)
        by (auto simp: reap_one_def Let_def may_reclaim_def is_terminal_def split: option.splits if_splits)
    qed
  qed
qed

lemma reap_loop_reclaims: "reclaimed c {kt \<in> set kts. considered c kt} w (reap_loop step get c n kts w)"
proof (induction kts arbitrary: n w)
  case Nil
  then show ?case by (simp add: reclaimed_refl)
next
  case (Cons kt kts)
  have more: "reclaimed c {x \<in> set kts. considered c x} a b \<Longrightarrow> reclaimed c {x \<in> set (kt # kts). considered c x} a b" for a b
    by (erule reclaimed_mono) auto
  show ?case
  proof (cases "considered c kt \<and> n \<noteq> 0")
    case True
    then obtain n' where n: "n = Suc n'" using not0_implies_Suc by blast
    have "reclaimed c {x \<in> set (kt # kts). considered c x} w (reap_one step get c kt w)"
      using reap_one_reclaims [of c "fst kt" "snd kt" w step get] True by (auto elim: reclaimed_mono)
    then show ?thesis using True n reclaimed_trans [OF _ more [OF Cons.IH]] by simp
  next
    case False
    then show ?thesis using more [OF Cons.IH] by (cases n) (auto simp: reclaimed_refl)
  qed
qed

lemma reap_reclaims: "reclaimed c {kt \<in> set (kp_trees w). considered c kt} w (reap_stale_scratch step get busy m c w)"
proof -
  have at: "reclaimed c A (w\<lparr>kp_scratch_at := n\<rparr>) w' \<Longrightarrow> reclaimed c A w w'" for A n w'
    by (simp add: reclaimed_def)
  have "set (window n xs) = set xs" for n and xs :: "(string \<times> tree) list" by (simp add: window_def)
  then have lp: "reclaimed c {kt \<in> set (kp_trees w). considered c kt} v (reap_loop step get c n (window i (kp_trees w)) v)" for v n i
    using reap_loop_reclaims [of c "window i (kp_trees w)" v step get n] by simp
  show ?thesis
    using at [OF lp] reap_loop_reclaims [of c "kp_trees w" w step get m]
    by (cases m) (simp_all add: reap_stale_scratch_def Let_def reclaimed_refl)
qed

text \<open>
  C14: the scratch reclaim never destroys the only copy of a result.  Whatever the job store answers and
  other clients write meanwhile, whatever the blob store answers and whichever removals fail: a directory
  is removed only when it is old, not held and its row was read as gone or terminal in this sweep; if the
  row is done and the directory holds the seal, its output is in the blob store; and a failed job's result
  that still waits for its upload is not touched.  Nothing else changes.
\<close>

theorem scratch_keeps_last_copy:
  assumes "w' = reap_stale_scratch step get busy m c w" and "(k, t) \<in> set (kp_trees w)" "(k, t) \<notin> set (kp_trees w')"
    and "distinct (map fst (kp_trees w))"
  shows "considered c (k, t) \<and> kp_blobs w' = kp_blobs w
    \<and> (\<exists>row es. kp_trace w' = kp_trace w @ es \<and> KLooked k (Some row) \<in> set es \<and> may_reclaim c (kp_blobs w') k t row)"
proof -
  obtain es where es: "kp_trace w' = kp_trace w @ es" "kp_blobs w' = kp_blobs w"
    "kp_trees w' = filter (\<lambda>(k, t). \<not> (KRemoving k \<in> set es \<and> sc_removed c k)) (kp_trees w)"
    "\<And>k. KRemoving k \<in> set es \<Longrightarrow> \<exists>t row. (k, t) \<in> {kt \<in> set (kp_trees w). considered c kt} \<and> KLooked k (Some row) \<in> set es
        \<and> may_reclaim c (kp_blobs w) k t row"
    using reap_reclaims [of c w step get busy m] unfolding assms(1) [symmetric] by (rule reclaimedE) (rule that)
  have "KRemoving k \<in> set es" using assms(2,3) es(3) by auto
  then obtain t' row where t': "(k, t') \<in> set (kp_trees w)" "considered c (k, t')" "KLooked k (Some row) \<in> set es"
      "may_reclaim c (kp_blobs w) k t' row"
    using es(4) by blast
  have "t' = t" using assms(2,4) t'(1) by (metis map_of_is_SomeI option.inject)
  then show ?thesis using t' es(1,2) by auto
qed

section \<open>Expiry destroys only what it reserved\<close>

fun destroys :: "kevent \<Rightarrow> bool" where
  "destroys (KRemoving k) = True"
| "destroys (KDropped k ok) = True"
| "destroys _ = False"

text \<open>A run of \<open>_expire_job\<close> that destroys anything looked at the row, found it as selected and still due,
  and won the reservation, in this order.\<close>

definition reserved_first :: "expiry_cfg \<Rightarrow> job \<Rightarrow> kevent list \<Rightarrow> bool" where
  "reserved_first c j es \<longleftrightarrow>
     (\<exists>fresh rest. es = KLooked (job_id j) (Some (Some fresh)) # KWrote (reserve_op j) (OBool True) # rest
        \<and> status fresh = status j \<and> due (ex_now2 c (job_id j)) fresh)"

definition spared :: "'s keep \<Rightarrow> 's keep \<Rightarrow> kevent list \<Rightarrow> bool" where
  "spared w w' es \<longleftrightarrow> kp_trees w' = kp_trees w \<and> kp_blobs w' = kp_blobs w \<and> list_all (\<lambda>e. \<not> destroys e) es"

lemma write_row_spares:
  "write_row step op w = (won, w1) \<Longrightarrow> kp_trees w1 = kp_trees w \<and> kp_blobs w1 = kp_blobs w
     \<and> (\<exists>es. kp_trace w1 = kp_trace w @ es \<and> list_all (\<lambda>e. \<not> destroys e) es \<and> (won \<longrightarrow> es = [KWrote op (OBool True)]))"
  using write_row_frame [of step op w won w1] by auto

lemma guarded_write_frame:
  "guarded_write step a op w = (won, w1) \<Longrightarrow>
     kp_trees w1 = kp_trees w \<and> kp_blobs w1 = kp_blobs w
     \<and> (\<exists>es. kp_trace w1 = kp_trace w @ es \<and> list_all (\<lambda>e. \<not> destroys e) es \<and> (won \<longrightarrow> es = [KWrote op (OBool True)]))"
proof (cases a)
  case (Lost b)
  assume g: "guarded_write step a op w = (won, w1)"
  obtain won' w' where w': "write_row step op w = (won', w')" by fastforce
  have "\<not> won" "w1 = (if b then w' else w)" using g Lost w' by (auto simp: guarded_write_def)
  then show ?thesis using write_row_spares [OF w'] by (cases b) auto
qed (simp add: guarded_write_def write_row_spares)

lemma drop_files_trace: "\<exists>es. kp_trace (snd (drop_files c j w)) = kp_trace w @ es"
  by (auto simp: drop_files_def Let_def jot_def remove_under_def split: option.split)

lemma guarded_write_trace: "\<exists>es. kp_trace (snd (guarded_write step a op w)) = kp_trace w @ es"
  using guarded_write_frame [of step a op w "fst (guarded_write step a op w)" "snd (guarded_write step a op w)"] by auto

lemma expire_reserved_trace: "\<exists>es. kp_trace (expire_reserved step get c j w) = kp_trace w @ es"
proof -
  obtain ok w1 where d: "drop_files c j w = (ok, w1)" by fastforce
  obtain gone w2 where b: "(if ex_blobs c then delete_blob (ex_drop_ok c (job_id j)) (job_id j) w1 else (True, w1)) = (gone, w2)"
    by fastforce
  obtain r w3 where r: "read_row step get (ex_after_up c (job_id j)) (job_id j) w2 = (r, w3)" by fastforce
  obtain won w4 where g: "guarded_write step (ex_final_up c (job_id j)) (forget_op (job_id j)) w3 = (won, w4)" by fastforce
  obtain e1 where t1: "kp_trace w1 = kp_trace w @ e1" using drop_files_trace [of c j w] d by auto
  have "\<exists>e2. kp_trace w2 = kp_trace w1 @ e2" using b by (auto simp: delete_blob_def jot_def split: if_splits)
  then obtain e2 where t2: "kp_trace w2 = kp_trace w1 @ e2" by blast
  obtain e4 where t4: "kp_trace w4 = kp_trace w3 @ e4" using guarded_write_frame [OF g] by blast
  note t3 = read_row_frame [OF r]
  have "expire_reserved step get c j w = (if \<not> ok then w1 else if \<not> gone then w2
      else case r of Some (Some x) \<Rightarrow> w4 | _ \<Rightarrow> w3)"
    using b by (simp add: expire_reserved_def d r g split: option.split)
  then show ?thesis using t1 t2 t3 t4 by (simp split: option.split)
qed

lemma expire_job_trace:
  "\<exists>es. kp_trace (expire_job step get c j w) = kp_trace w @ es
     \<and> (spared w (expire_job step get c j w) es \<or> reserved_first c j es)"
proof -
  let ?k = "job_id j"
  obtain r w1 where r: "read_row step get (ex_row_up c ?k) ?k w = (r, w1)" by fastforce
  note f1 = read_row_frame [OF r]
  have stop: ?thesis if "expire_job step get c j w = w1"
    using that f1 by (intro exI [of _ "[KLooked ?k r]"]) (simp add: spared_def)
  show ?thesis
  proof (cases "\<exists>fresh. r = Some (Some fresh) \<and> status fresh = status j \<and> due (ex_now2 c ?k) fresh")
    case False
    then have "expire_job step get c j w = w1" by (auto simp: expire_job_def r split: option.split)
    then show ?thesis by (rule stop)
  next
    case True
    then obtain fresh where fresh: "r = Some (Some fresh)" "status fresh = status j" "due (ex_now2 c ?k) fresh" by blast
    obtain won w2 where g: "guarded_write step (ex_cas_up c ?k) (reserve_op j) w1 = (won, w2)" by fastforce
    obtain es where f2: "kp_trees w2 = kp_trees w" "kp_blobs w2 = kp_blobs w" "kp_trace w2 = kp_trace w @ KLooked ?k r # es"
        "list_all (\<lambda>e. \<not> destroys e) es" "won \<longrightarrow> es = [KWrote (reserve_op j) (OBool True)]"
      using guarded_write_frame [OF g] f1 by auto
    have eq: "expire_job step get c j w = (if won then expire_reserved step get c j w2 else w2)"
      using fresh by (simp add: expire_job_def r g)
    obtain rest where t: "kp_trace (expire_reserved step get c j w2) = kp_trace w2 @ rest"
      using expire_reserved_trace by blast
    show ?thesis
    proof (cases won)
      case False
      then show ?thesis using f2(1-4) by (intro exI [of _ "KLooked ?k r # es"]) (simp add: eq spared_def)
    next
      case True
      have "kp_trace (expire_job step get c j w) = kp_trace w @ (KLooked ?k r # KWrote (reserve_op j) (OBool True) # rest)"
        using True f2(3,5) t by (simp add: eq)
      moreover have "reserved_first c j (KLooked ?k r # KWrote (reserve_op j) (OBool True) # rest)"
        using fresh by (auto simp: reserved_first_def)
      ultimately show ?thesis by blast
    qed
  qed
qed

lemma before_access_foreign:
  "kp_foreign w = ops # rest \<Longrightarrow>
     kp_store (before_access step w) = run_ops step ops (kp_store w) \<and> kp_foreign (before_access step w) = rest"
  by (simp add: before_access_def)

lemma before_access_none: "kp_foreign w = [] \<Longrightarrow> before_access step w = w"
  by (simp add: before_access_def)

lemma run_ops_append: "run_ops step (a @ b) s = run_ops step b (run_ops step a s)"
  by (induction a arbitrary: s) simp_all

context job_store
begin

lemma cas_effect:
  assumes "inv s" "list_all field_ok fs"
  shows "inv (snd (step (OpCas k st cl fs) s))"
    and "x \<noteq> k \<Longrightarrow> get x (snd (step (OpCas k st cl fs) s)) = get x s"
    and "get k s = Some j \<Longrightarrow> cas_guard st cl j \<Longrightarrow>
       fst (step (OpCas k st cl fs) s) = OBool True \<and> get k (snd (step (OpCas k st cl fs) s)) = Some (setattrs fs j)"
proof -
  show i: "inv (snd (step (OpCas k st cl fs) s))" using assms by (intro step_inv) auto
  have a: "abs_step (OpCas k st cl fs) (abs s) (fst (step (OpCas k st cl fs) s)) (abs (snd (step (OpCas k st cl fs) s)))"
    using assms by (intro step_refines) auto
  show "x \<noteq> k \<Longrightarrow> get x (snd (step (OpCas k st cl fs) s)) = get x s"
    unfolding get_abs [OF i] get_abs [OF assms(1)] by (rule abs_step_cas [OF a]) auto
  show "get k s = Some j \<Longrightarrow> cas_guard st cl j \<Longrightarrow>
       fst (step (OpCas k st cl fs) s) = OBool True \<and> get k (snd (step (OpCas k st cl fs) s)) = Some (setattrs fs j)"
    unfolding get_abs [OF i] get_abs [OF assms(1)] by (rule abs_step_cas [OF a]) auto
qed

lemma cas_refused:
  assumes "inv s" "list_all field_ok fs" "\<And>r. get k s = Some r \<Longrightarrow> status r \<noteq> st"
  shows "fst (step (OpCas k st cl fs) s) = OBool False"
proof -
  have "abs_step (OpCas k st cl fs) (abs s) (fst (step (OpCas k st cl fs) s)) (abs (snd (step (OpCas k st cl fs) s)))"
    using assms by (intro step_refines) auto
  then show ?thesis
    by (rule abs_step_cas) (use assms get_abs in \<open>auto simp: cas_guard_def\<close>)
qed

lemma expiry_spares:
  assumes "inv (kp_store w)" "kp_foreign w = ops1 # ops2 # rest" "list_all op_ok (ops1 @ ops2)"
    and "\<And>r. get (job_id j) (run_ops step (ops1 @ ops2) (kp_store w)) = Some r \<Longrightarrow> status r \<noteq> status j"
  shows "\<exists>es. kp_trace (expire_job step get c j w) = kp_trace w @ es \<and> spared w (expire_job step get c j w) es"
proof -
  let ?k = "job_id j"
  obtain r w1 where r: "read_row step get (ex_row_up c ?k) ?k w = (r, w1)" by fastforce
  note f1 = read_row_frame [OF r]
  have s1: "kp_store w1 = run_ops step ops1 (kp_store w)" "kp_foreign w1 = ops2 # rest"
    using r before_access_foreign [OF assms(2)] by (auto simp: read_row_def jot_def Let_def)
  obtain won w2 where g: "guarded_write step (ex_cas_up c ?k) (reserve_op j) w1 = (won, w2)" by fastforce
  have "fst (step (reserve_op j) (run_ops step (ops1 @ ops2) (kp_store w))) = OBool False"
    unfolding reserve_op_def using run_inv [OF assms(1,3)] assms(4) by (intro cas_refused) auto
  then have "fst (write_row step (reserve_op j) w1) = False"
    using before_access_foreign [OF s1(2)] s1(1) by (simp add: write_row_def Let_def split_beta run_ops_append)
  then have "\<not> won" using g by (cases "ex_cas_up c ?k") (auto simp: guarded_write_def)
  then have "expire_job step get c j w \<in> {w1, w2}"
    by (simp add: expire_job_def r g split: option.split)
  moreover obtain es where "kp_trees w2 = kp_trees w" "kp_blobs w2 = kp_blobs w" "kp_trace w2 = kp_trace w @ KLooked ?k r # es"
      "list_all (\<lambda>e. \<not> destroys e) es"
    using guarded_write_frame [OF g] f1 by auto
  ultimately show ?thesis using f1 by (auto simp: spared_def)
qed

end

text \<open>
  an expiry and the repair of a late result cannot both win.  Whatever other clients write to the
  Redis store around it, and whatever answers get lost: if the row is no longer in the state the sweep
  selected when the reservation reaches the store (a failed job repaired to done, one expired by a peer,
  one deleted), the expiry destroys nothing, neither the directory nor the stored output.
\<close>

theorem expiry_spares_changed_rows:
  assumes "redis_inv (kp_store w)" "kp_foreign w = ops1 # ops2 # rest" "list_all op_ok (ops1 @ ops2)"
    and "\<And>r. redis_get (job_id j) (run_ops redis_step (ops1 @ ops2) (kp_store w)) = Some r \<Longrightarrow> status r \<noteq> status j"
  shows "\<exists>es. kp_trace (expire_job redis_step redis_get c j w) = kp_trace w @ es
    \<and> spared w (expire_job redis_step redis_get c j w) es"
  using assms by (rule redis.expiry_spares)

text \<open>
  whoever destroys has reserved.  A run of the expiry over any store and with any failures leaves the
  directories and the stored outputs alone, or it began with a read that found the row as it was selected
  and still due, followed by the write that turned it to expired and went through.
\<close>

theorem expiry_reserves_before_it_destroys:
  "\<exists>es. kp_trace (expire_job step get c j w) = kp_trace w @ es
     \<and> (spared w (expire_job step get c j w) es \<or> reserved_first c j es)"
  by (rule expire_job_trace)

section \<open>What an expiry achieves, and where it removes\<close>

lemma drop_files_frame:
  "kp_store (snd (drop_files c j w)) = kp_store w \<and> kp_foreign (snd (drop_files c j w)) = kp_foreign w
     \<and> kp_blobs (snd (drop_files c j w)) = kp_blobs w"
  by (auto simp: drop_files_def Let_def jot_def remove_under_def split: option.split)

context job_store
begin

lemma write_row_calm:
  "kp_foreign w = [] \<Longrightarrow> write_row step op w =
     (fst (step op (kp_store w)) = OBool True, jot (KWrote op (fst (step op (kp_store w)))) (w\<lparr>kp_store := snd (step op (kp_store w))\<rparr>))"
  by (simp add: write_row_def before_access_none Let_def split_beta)

lemma read_row_calm:
  "kp_foreign w = [] \<Longrightarrow> read_row step get True k w = (Some (get k (kp_store w)), jot (KLooked k (Some (get k (kp_store w)))) w)"
  by (simp add: read_row_def before_access_none Let_def)

lemma expiry_effect:
  assumes "inv (kp_store w)" "kp_foreign w = []" "get (job_id j) (kp_store w) = Some row" "status row = status j"
    and "due (ex_now2 c (job_id j)) row" "ex_row_up c (job_id j)" "ex_cas_up c (job_id j) = Answered" "ex_blobs c"
    and "fst (drop_files c j w)" "ex_after_up c (job_id j)" "ex_final_up c (job_id j) = Answered"
  defines "w' \<equiv> expire_job step get c j w"
  shows "\<exists>r. get (job_id j) (kp_store w') = Some r \<and> status r = EXPIRED
     \<and> (if ex_drop_ok c (job_id j) then expires_at r = None \<and> result_dir r = None \<and> job_id j \<notin> kp_blobs w'
        else expires_at r = expires_at row \<and> kp_blobs w' = kp_blobs w)"
proof -
  let ?k = "job_id j"
  define w1 where "w1 = jot (KLooked ?k (Some (Some row))) w"
  define s2 where "s2 = snd (step (reserve_op j) (kp_store w))"
  define w2 where "w2 = jot (KWrote (reserve_op j) (OBool True)) (w1\<lparr>kp_store := s2\<rparr>)"
  have cg: "cas_guard (status j) None row" using assms(4) by (simp add: cas_guard_def)
  have c1: "inv s2" "fst (step (reserve_op j) (kp_store w)) = OBool True" "get ?k s2 = Some (row\<lparr>status := EXPIRED\<rparr>)"
    using cas_effect(1) [OF assms(1), of "[FStatus EXPIRED]" ?k "status j" None]
      cas_effect(3) [OF assms(1) _ assms(3) cg, of "[FStatus EXPIRED]"]
    by (simp_all add: reserve_op_def s2_def)
  have g1: "guarded_write step (ex_cas_up c ?k) (reserve_op j) w1 = (True, w2)"
    using assms(2,7) c1(2) by (simp add: guarded_write_def write_row_calm w1_def jot_def w2_def s2_def)
  have eq: "w' = expire_reserved step get c j w2"
    using assms(3-6) read_row_calm [OF assms(2), of ?k] g1 by (simp add: w'_def expire_job_def w1_def)
  have "drop_files c j w2 = (fst (drop_files c j w2), snd (drop_files c j w2))" by simp
  moreover have "fst (drop_files c j w2)" using assms(9)
    by (auto simp: drop_files_def w2_def w1_def jot_def Let_def split: option.splits if_splits)
  ultimately obtain w3 where d: "drop_files c j w2 = (True, w3)" by simp
  have w3: "kp_store w3 = s2" "kp_foreign w3 = []" "kp_blobs w3 = kp_blobs w"
    using drop_files_frame [of c j w2] d assms(2) by (simp_all add: w2_def w1_def jot_def)
  define s5 where "s5 = snd (step (forget_op ?k) s2)"
  have cg5: "cas_guard EXPIRED None (row\<lparr>status := EXPIRED\<rparr>)" by (simp add: cas_guard_def)
  have c5: "get ?k s5 = Some (row\<lparr>status := EXPIRED, result_dir := None, expires_at := None\<rparr>)"
    using cas_effect(3) [OF c1(1) _ c1(3) cg5, of "[FStatus EXPIRED, FResultDir None, FExpiresAt None]"]
    by (simp add: forget_op_def s5_def)
  show ?thesis
  proof (cases "ex_drop_ok c ?k")
    case False
    then have "w' = jot (KDropped ?k False) w3"
      using assms(8) by (simp add: eq expire_reserved_def d delete_blob_def)
    then show ?thesis using c1(3) w3 False by (simp add: jot_def)
  next
    case True
    define w4 where "w4 = jot (KDropped ?k True) (w3\<lparr>kp_blobs := kp_blobs w3 - {?k}\<rparr>)"
    have w4: "kp_foreign w4 = []" "kp_store w4 = s2" "?k \<notin> kp_blobs w4" using w3 by (simp_all add: w4_def jot_def)
    have "w' = snd (guarded_write step Answered (forget_op ?k) (jot (KLooked ?k (Some (get ?k s2))) w4))"
      using True assms(8,10,11) c1(3) read_row_calm [OF w4(1), of ?k] w4(2)
      by (simp add: eq expire_reserved_def d delete_blob_def w4_def [symmetric])
    then show ?thesis using True w4 c5
      by (simp add: guarded_write_def write_row_def before_access_def jot_def Let_def split_beta s5_def)
  qed
qed

end

text \<open>
  an expiry finishes, or stays due.  Undisturbed, the sweep turns a due row to expired; if the stored
  output could be deleted the row is cleared and the output gone, and if not the row keeps the time it
  expired at, so the next sweep selects it again.
\<close>

theorem expiry_finishes_or_stays_due:
  assumes "redis_inv (kp_store w)" "kp_foreign w = []" "redis_get (job_id j) (kp_store w) = Some j" "due (ex_now2 c (job_id j)) j"
    and "ex_row_up c (job_id j)" "ex_cas_up c (job_id j) = Answered" "ex_blobs c" "fst (drop_files c j w)"
    and "ex_after_up c (job_id j)" "ex_final_up c (job_id j) = Answered"
  shows "\<exists>r. redis_get (job_id j) (kp_store (expire_job redis_step redis_get c j w)) = Some r \<and> is_terminal (status r)
     \<and> (if ex_drop_ok c (job_id j)
        then expires_at r = None \<and> result_dir r = None \<and> job_id j \<notin> kp_blobs (expire_job redis_step redis_get c j w)
        else due (ex_now2 c (job_id j)) r \<and> kp_blobs (expire_job redis_step redis_get c j w) = kp_blobs w)"
proof -
  obtain r where "redis_get (job_id j) (kp_store (expire_job redis_step redis_get c j w)) = Some r" "status r = EXPIRED"
    "if ex_drop_ok c (job_id j)
     then expires_at r = None \<and> result_dir r = None \<and> job_id j \<notin> kp_blobs (expire_job redis_step redis_get c j w)
     else expires_at r = expires_at j \<and> kp_blobs (expire_job redis_step redis_get c j w) = kp_blobs w"
    using redis.expiry_effect [OF assms(1-3) refl assms(4-10)] by blast
  then show ?thesis using assms(4) by (auto simp: is_terminal_def due_def split: if_splits)
qed

text \<open>Removals stay under the job root.  \<open>purge_job_dir\<close> removes strictly inside it.\<close>

lemma purge_strictly_inside:
  assumes "purge_target f jroot jid = Some r"
  shows "\<exists>jr x xs. fs_resolve f jroot = Some jr \<and> r = jr @ x # xs"
proof -
  obtain jr where jr: "fs_resolve f jroot = Some jr" "r \<noteq> jr" "prefix jr r"
    using assms by (auto simp: purge_target_def Let_def split: if_splits option.splits)
  then obtain ys where "r = jr @ ys" "ys \<noteq> []" by (auto simp: prefix_def)
  then show ?thesis using jr(1) by (cases ys) auto
qed

lemma safe_rmtree_inside: "safe_rmtree_target f jroot rd = Some (Some r) \<Longrightarrow> prefix jroot r"
  by (auto simp: safe_rmtree_target_def Let_def split: if_splits option.splits)

text \<open>The retention sweep's own removal accepts the job root itself: a link in the job root that leads back
  to it, stored as a result directory, is one.  \<open>purge_job_dir\<close> refuses the same name.\<close>

definition loop_fs :: filesys where
  "loop_fs = \<lparr>fs_link = (\<lambda>p. Some (p = [''jobs'', ''l''])), 
     fs_resolve = (\<lambda>p. Some (if p = [''jobs'', ''l''] then [''jobs''] else p)), fs_exists = (\<lambda>p. True)\<rparr>"

lemma safe_rmtree_takes_the_root:
  "safe_rmtree_target loop_fs [''jobs''] [''jobs'', ''l''] = Some (Some [''jobs''])"
  "purge_target loop_fs [''jobs''] ''l'' = None"
  by (simp_all add: safe_rmtree_target_def purge_target_def loop_fs_def)

section \<open>Examples\<close>

definition demo_id :: string where "demo_id = ''01234567-89ab-cdef-0123-456789abcdef''"

definition demo_row :: "job_status \<Rightarrow> job" where
  "demo_row st = (Job_new demo_id ''eng'' ''doc.pdf'' 10)
     \<lparr>status := st, claim_id := Some ''t1'', expires_at := Some 100, result_dir := Some ''/jobs/x/output''\<rparr>"

definition demo_tree :: "string option option \<Rightarrow> tree" where
  "demo_tree marker = \<lparr>tr_link = False, tr_dir = True, tr_marker = marker, tr_meta = True, tr_seal = True, tr_orphan = None,
     tr_guarded = False, tr_stamps = Some [(0, 0)]\<rparr>"

definition demo_keep :: "'s \<Rightarrow> string option option \<Rightarrow> string set \<Rightarrow> 's keep" where
  "demo_keep s marker stored = \<lparr>kp_store = s, kp_foreign = [], kp_trees = [(demo_id, demo_tree marker)], kp_blobs = stored,
     kp_uploads_at = 7, kp_scratch_at = 3, kp_trace = []\<rparr>"

definition demo_scratch :: scratch_cfg where
  "demo_scratch = \<lparr>sc_now = 100000, sc_max_age = 1000, sc_retained = {}, sc_recovery = True, sc_blobs = True,
     sc_row_up = (\<lambda>_. True), sc_has_up = (\<lambda>_. True), sc_removed = (\<lambda>_. True)\<rparr>"

lemma demo_id_like: "job_id_like demo_id"
  by code_simp

lemma demo_row_simps [simp]:
  "job_id (demo_row st) = demo_id" "status (demo_row st) = st" "claim_id (demo_row st) = Some ''t1''"
  "expires_at (demo_row st) = Some 100" "json_safe (demo_row st)" "result_dir (demo_row st) = Some ''/jobs/x/output''"
  by (simp_all add: demo_row_def Job_new_def json_safe_def)

lemma demo_row_kv:
  "redis_inv (redis_create (demo_row st) [])" "redis_get demo_id (redis_create (demo_row st) []) = Some (demo_row st)"
  by (simp_all add: redis_create_def redis_inv_def redis_get_def fetch_def decode_encode)

lemma demo_row_mem: "mem_get demo_id (mem_create (demo_row st) mem_empty) = Some (demo_row st)"
  by (simp add: mem_create_def mem_empty_def mem_get_def)

text \<open>An old directory of a done job whose output is stored is removed.\<close>

lemma demo_reap:
  "kp_trees (reap_stale_scratch mem_step mem_get False 5 demo_scratch
      (demo_keep (mem_create (demo_row DONE) mem_empty) None {demo_id})) = []"
  by (simp add: reap_stale_scratch_def demo_keep_def demo_scratch_def Let_def window_def advance_def considered_def demo_tree_def
      demo_id_like reap_one_def aged_def touched_since_def read_row_def before_access_def jot_def demo_row_mem is_terminal_def
      has_output_def purge_dir_def numeral_eq_Suc)

theorem scratch_keeps_last_copy_witness:
  "considered demo_scratch (demo_id, demo_tree None)
    \<and> (\<exists>row. may_reclaim demo_scratch {demo_id} demo_id (demo_tree None) row)"
proof -
  let ?w = "demo_keep (mem_create (demo_row DONE) mem_empty) None {demo_id}"
  have "(demo_id, demo_tree None) \<in> set (kp_trees ?w)" "distinct (map fst (kp_trees ?w))" "kp_blobs ?w = {demo_id}"
    by (simp_all add: demo_keep_def)
  with scratch_keeps_last_copy [OF refl, of demo_id "demo_tree None" ?w mem_step mem_get False 5 demo_scratch] demo_reap
  show ?thesis by auto
qed

definition demo_expiry :: "bool \<Rightarrow> expiry_cfg" where
  "demo_expiry ok = \<lparr>ex_now = 200, ex_now2 = (\<lambda>_. 200), ex_root = [''jobs''],
     ex_fs = \<lparr>fs_link = (\<lambda>p. Some False), fs_resolve = Some, fs_exists = (\<lambda>p. True)\<rparr>,
     ex_path = (\<lambda>_. [''jobs'', ''x'', ''output'']), ex_blobs = True, ex_row_up = (\<lambda>_. True), ex_cas_up = (\<lambda>_. Answered),
     ex_drop_ok = (\<lambda>_. ok), ex_after_up = (\<lambda>_. True), ex_final_up = (\<lambda>_. Answered)\<rparr>"

text \<open>A failed row that the upload sweep repairs between the look and the reservation.\<close>

definition demo_repair :: store_op where
  "demo_repair = OpCas demo_id FAILED None [FStatus DONE, FError None, FFinishedAt (Some 150), FExpiresAt (Some 900)]"

lemma demo_repaired_row:
  "redis_get demo_id (run_ops redis_step ([] @ [demo_repair]) (redis_create (demo_row FAILED) []))
     = Some ((demo_row FAILED)\<lparr>status := DONE, error := None, finished_at := Some 150, expires_at := Some 900\<rparr>)"
proof -
  have fs: "list_all field_ok [FStatus DONE, FError None, FFinishedAt (Some 150), FExpiresAt (Some 900)]" by simp
  have cg: "cas_guard FAILED None (demo_row FAILED)" by (simp add: cas_guard_def)
  show ?thesis using redis.cas_effect(3) [OF demo_row_kv(1) fs demo_row_kv(2) cg] by (simp add: demo_repair_def)
qed

theorem expiry_spares_changed_rows_witness:
  "kp_trees (expire_job redis_step redis_get (demo_expiry True) (demo_row FAILED)
      ((demo_keep (redis_create (demo_row FAILED) []) None {demo_id})\<lparr>kp_foreign := [[], [demo_repair]]\<rparr>))
    = [(demo_id, demo_tree None)]"
proof -
  let ?w = "(demo_keep (redis_create (demo_row FAILED) []) None {demo_id})\<lparr>kp_foreign := [[], [demo_repair]]\<rparr>"
  have "\<exists>es. kp_trace (expire_job redis_step redis_get (demo_expiry True) (demo_row FAILED) ?w) = kp_trace ?w @ es
    \<and> spared ?w (expire_job redis_step redis_get (demo_expiry True) (demo_row FAILED) ?w) es"
    by (rule expiry_spares_changed_rows [of _ "[]" "[demo_repair]" "[]"])
      (use demo_row_kv(1) demo_repaired_row in \<open>auto simp: demo_keep_def demo_repair_def\<close>)
  then show ?thesis by (auto simp: spared_def demo_keep_def)
qed

theorem expiry_finishes_or_stays_due_witness:
  "\<exists>r. redis_get demo_id (kp_store (expire_job redis_step redis_get (demo_expiry False) (demo_row DONE)
         (demo_keep (redis_create (demo_row DONE) []) None {demo_id}))) = Some r \<and> is_terminal (status r) \<and> due 200 r"
proof -
  let ?w = "demo_keep (redis_create (demo_row DONE) []) None {demo_id}"
  have "fst (drop_files (demo_expiry False) (demo_row DONE) ?w)"
    by (simp add: drop_files_def demo_keep_def demo_tree_def demo_expiry_def safe_rmtree_target_def Let_def)
  then show ?thesis
    using expiry_finishes_or_stays_due [of ?w "demo_row DONE" "demo_expiry False"] demo_row_kv [of DONE]
    by (auto simp: demo_keep_def demo_expiry_def due_def)
qed

end
