(* ===== verification/Retention_Uploads.thy ===== *)
theory Retention_Uploads
  imports Job_Retention
begin

text \<open>
  The upload sweep of \<^verbatim>\<open>host/jobs/retention.py\<close>: what it may write, and that the results waiting on a
  node all become durable.
\<close>

section \<open>Repairs\<close>

text \<open>A repair that was written had a reason: the row was failed and carried the marker's claim, and the
  output was stored, seen there or put there by this run.\<close>

definition repair_earned :: "string \<Rightarrow> tree \<Rightarrow> kevent list \<Rightarrow> bool" where
  "repair_earned k t es \<longleftrightarrow>
     (\<exists>row claim. KLooked k (Some (Some row)) \<in> set es \<and> status row = FAILED \<and> tr_marker t = Some (Some claim)
        \<and> (claim = [] \<or> Some claim = claim_id row)) \<and> (KHas k (Some True) \<in> set es \<or> KPut k True \<in> set es)"

definition earned_repairs :: "(string \<times> tree) set \<Rightarrow> kevent list \<Rightarrow> bool" where
  "earned_repairs A es \<longleftrightarrow>
     (\<forall>pre k cl fs out post. es = pre @ KWrote (OpCas k FAILED cl fs) out # post \<longrightarrow>
        (\<exists>t. (k, t) \<in> A \<and> repair_earned k t pre))"

fun writes :: "kevent \<Rightarrow> bool" where
  "writes (KWrote op out) = True"
| "writes _ = False"

lemma earned_silent: "list_all (\<lambda>e. \<not> writes e) es \<Longrightarrow> earned_repairs A es"
  by (auto simp: earned_repairs_def)

lemma earned_mono: "earned_repairs A es \<Longrightarrow> A \<subseteq> B \<Longrightarrow> earned_repairs B es"
  unfolding earned_repairs_def by blast

lemma repair_earned_mono: "repair_earned k t es \<Longrightarrow> set es \<subseteq> set es' \<Longrightarrow> repair_earned k t es'"
  unfolding repair_earned_def by blast

lemma split_silent:
  assumes "p @ e # q = p' @ e' # q'" "list_all (\<lambda>e. \<not> writes e) p" "list_all (\<lambda>e. \<not> writes e) q" "writes e'"
  shows "p' = p \<and> e' = e"
proof -
  have "e' \<notin> set p" "e' \<notin> set q" using assms(2-4) by (auto simp: list_all_iff)
  then show ?thesis using assms(1) by (auto simp: append_eq_append_conv2 Cons_eq_append_conv append_eq_Cons_conv)
qed

lemma earned_once:
  assumes "list_all (\<lambda>e. \<not> writes e) p" "list_all (\<lambda>e. \<not> writes e) q" "repair_earned k t p"
  shows "earned_repairs {(k, t)} (p @ KWrote (OpCas k cst cl fs) out # q)"
  unfolding earned_repairs_def using split_silent [OF _ assms(1,2)] assms(3) by fastforce

lemma earned_append:
  assumes "earned_repairs A es1" "earned_repairs A es2"
  shows "earned_repairs A (es1 @ es2)"
  unfolding earned_repairs_def
proof (intro allI impI)
  fix pre k cl fs out post
  let ?e = "KWrote (OpCas k FAILED cl fs) out"
  assume eq: "es1 @ es2 = pre @ ?e # post"
  consider us where "es1 = pre @ ?e # us" | us where "pre = es1 @ us" "es2 = us @ ?e # post"
  proof (cases "length es1 \<le> length pre")
    case True
    then have "pre = es1 @ drop (length es1) pre" using eq by (metis append_eq_append_conv_if append_take_drop_id)
    then show ?thesis using eq that(2) [of "drop (length es1) pre"] by (metis append.assoc same_append_eq)
  next
    case False
    then have le: "length pre < length es1" by simp
    have "es1 = pre @ drop (length pre) es1" using eq le by (metis append_eq_append_conv_if append_take_drop_id less_imp_le)
    then obtain us where us: "es1 = pre @ us" "us \<noteq> []" using le by (metis append_Nil2 less_irrefl)
    then have "us @ es2 = ?e # post" using eq by simp
    then show ?thesis using us that(1) by (auto simp: append_eq_Cons_conv)
  qed
  then show "\<exists>t. (k, t) \<in> A \<and> repair_earned k t pre"
  proof cases
    case 1
    then show ?thesis using assms(1) unfolding earned_repairs_def by blast
  next
    case 2
    then obtain t where "(k, t) \<in> A" "repair_earned k t us" using assms(2) unfolding earned_repairs_def by blast
    then show ?thesis using 2(1) repair_earned_mono [of k t us pre] by auto
  qed
qed

lemma settle_trace:
  "\<exists>out q. (kp_trace (settle_repair step get c k w) = kp_trace w @ q
       \<or> kp_trace (settle_repair step get c k w) = kp_trace w @ KWrote (repair_op c k) out # q)
     \<and> list_all (\<lambda>e. \<not> writes e) q"
proof -
  obtain repaired w1 where r: "repair_row step c k w = (repaired, w1)" by fastforce
  obtain won w' where w': "write_row step (repair_op c k) w = (won, w')" by fastforce
  obtain out where o': "kp_trace w' = kp_trace w @ [KWrote (repair_op c k) out]" using write_row_frame [OF w'] by blast
  have t1: "kp_trace w1 = kp_trace w \<or> kp_trace w1 = kp_trace w @ [KWrote (repair_op c k) out]"
    using r w' o' by (auto simp: repair_row_def split: answer.splits if_splits)
  obtain r' w2 where r': "read_row step get (rq_after_up c) k w1 = (r', w2)" by fastforce
  note f2 = read_row_frame [OF r']
  have "\<exists>q. kp_trace (settle_repair step get c k w) = kp_trace w1 @ q \<and> list_all (\<lambda>e. \<not> writes e) q"
    using f2 by (auto simp: settle_repair_def r r' clear_marker_def jot_def delete_blob_def split: option.split)
  then obtain q where "kp_trace (settle_repair step get c k w) = kp_trace w1 @ q" "list_all (\<lambda>e. \<not> writes e) q" by blast
  then show ?thesis using t1 by (intro exI [of _ out] exI [of _ q]) auto
qed

lemma retry_one_earned:
  "\<exists>es. kp_trace (retry_pending_one step get c (k, t) w) = kp_trace w @ es \<and> earned_repairs {(k, t)} es"
proof -
  obtain r w1 where r: "read_row step get (rq_row_up c) k w = (r, w1)" by fastforce
  note f1 = read_row_frame [OF r]
  obtain durable w2 where h: "has_output (rq_has_up c) k w1 = (durable, w2)" by fastforce
  note f2 = has_output_frame [OF h]
  define stored where "stored = fst (upload_output_with_retry (rq_attempts c) (rq_puts c))"
  define w3 where "w3 = put_output stored k (jot (KMarked k) w2)"
  let ?h = "KHas k (if rq_has_up c then Some (k \<in> kp_blobs w1) else None)"
  have t2: "kp_trace w2 = kp_trace w @ [KLooked k r, ?h]" using f1 f2 by simp
  have t3: "kp_trace w3 = kp_trace w @ [KLooked k r, ?h, KMarked k, KPut k stored]"
    using t2 by (simp add: w3_def put_output_def jot_def)
  define P :: "'a keep \<Rightarrow> bool" where "P v \<longleftrightarrow> (\<exists>es. kp_trace v = kp_trace w @ es \<and> earned_repairs {(k, t)} es)" for v
  have quiet: "P w" "P w1" "P w2" "P w3"
    using f1 t2 t3 by (auto simp: P_def intro!: earned_silent)
  have settle: "P (settle_repair step get c k v)"
    if v: "kp_trace v = kp_trace w @ p" "list_all (\<lambda>e. \<not> writes e) p" "repair_earned k t p" for v p
  proof -
    obtain out q where "kp_trace (settle_repair step get c k v) = kp_trace v @ q
       \<or> kp_trace (settle_repair step get c k v) = kp_trace v @ KWrote (repair_op c k) out # q"
      "list_all (\<lambda>e. \<not> writes e) q"
      using settle_trace [of step get c k v] by blast
    then show ?thesis
      using v(1,2) earned_once [OF v(2) _ v(3), of q] earned_silent [of "p @ q"]
      by (elim disjE) (auto simp: repair_op_def P_def)
  qed
  have "P (retry_pending_one step get c (k, t) w)"
  proof (cases "\<exists>row claim. r = Some (Some row) \<and> status row = FAILED \<and> tr_marker t = Some (Some claim) \<and> (claim = [] \<or> Some claim = claim_id row)")
    case False
    then have "retry_pending_one step get c (k, t) w \<in> {w, w1}"
      by (auto simp: retry_pending_one_def r split: option.split)
    then show ?thesis using quiet by auto
  next
    case True
    then obtain row claim where row: "r = Some (Some row)" "status row = FAILED" "tr_marker t = Some (Some claim)"
        "claim = [] \<or> Some claim = claim_id row" by blast
    have eq: "retry_pending_one step get c (k, t) w =
        (if tr_link t \<or> \<not> tr_dir t \<or> \<not> job_id_like k \<or> \<not> tr_meta t then w
         else if durable then settle_repair step get c k w2 else if \<not> rq_receipt_ok c then w2
         else if stored then settle_repair step get c k w3 else w3)"
    proof (cases "claim = []")
      case True
      then show ?thesis using row(2) by (simp add: retry_pending_one_def r row(1,3) h stored_def w3_def Let_def)
    next
      case False
      then have "claim_id row = Some claim" using row(4) by simp
      then show ?thesis using row(2) by (simp add: retry_pending_one_def r row(1,3) h stored_def w3_def Let_def)
    qed
    have e2: "durable \<Longrightarrow> repair_earned k t [KLooked k r, ?h]"
      using row f2 by (auto simp: repair_earned_def)
    have e3: "stored \<Longrightarrow> repair_earned k t [KLooked k r, ?h, KMarked k, KPut k stored]"
      using row by (auto simp: repair_earned_def)
    show ?thesis
      using settle [OF t2 _ e2] settle [OF t3 _ e3] quiet unfolding eq by (simp split: if_split)
  qed
  then show ?thesis by (simp add: P_def)
qed

lemma retry_earned_fold:
  "\<exists>es. kp_trace (fold (\<lambda>kt. retry_pending_one step get (c (fst kt)) kt) kts w) = kp_trace w @ es \<and> earned_repairs (set kts) es"
proof (induction kts arbitrary: w)
  case Nil
  then show ?case by (simp add: earned_repairs_def)
next
  case (Cons kt kts)
  obtain es where es: "kp_trace (retry_pending_one step get (c (fst kt)) kt w) = kp_trace w @ es" "earned_repairs {kt} es"
    using retry_one_earned [of step get "c (fst kt)" "fst kt" "snd kt" w] by auto
  obtain es' where es': "kp_trace (fold (\<lambda>kt. retry_pending_one step get (c (fst kt)) kt) kts
        (retry_pending_one step get (c (fst kt)) kt w)) = kp_trace (retry_pending_one step get (c (fst kt)) kt w) @ es'"
      "earned_repairs (set kts) es'"
    using Cons.IH by blast
  have "earned_repairs (set (kt # kts)) (es @ es')"
    using earned_append [OF earned_mono [OF es(2)] earned_mono [OF es'(2)], of "set (kt # kts)"] by auto
  then show ?case using es(1) es'(1) by auto
qed

lemma set_window [simp]: "set (window i xs) = set xs"
  by (simp add: window_def)

text \<open>
  a failed job is called done only when its result is stored.  In every upload sweep over any store,
  whatever other clients write and whichever calls fail or lose their answer: a write that repairs a failed
  row is preceded, in the same sweep, by a read that found the row failed under the claim that marked the
  directory, and by the blob store having the output or taking it.
\<close>

theorem repairs_are_earned:
  "\<exists>es. kp_trace (retry_pending_uploads step get m c w) = kp_trace w @ es \<and> earned_repairs (set (kp_trees w)) es"
proof -
  let ?todo = "if kp_trees w \<noteq> [] \<and> 0 < m then take m (window (kp_uploads_at w) (kp_trees w)) else kp_trees w"
  let ?w1 = "if kp_trees w \<noteq> [] \<and> 0 < m then w\<lparr>kp_uploads_at := advance (kp_uploads_at w) m (kp_trees w)\<rparr> else w"
  obtain es where es: "kp_trace (retry_pending_uploads step get m c w) = kp_trace ?w1 @ es" "earned_repairs (set ?todo) es"
    using retry_earned_fold [of step get c ?todo ?w1] by (auto simp: retry_pending_uploads_def Let_def)
  have "set ?todo \<subseteq> set (kp_trees w)" using set_take_subset [of m "window (kp_uploads_at w) (kp_trees w)"] by auto
  from earned_mono [OF es(2) this] show ?thesis using es(1) by auto
qed

section \<open>The backlog drains\<close>

text \<open>Sweep \<open>j\<close> starts \<open>j * m\<close> entries further; after enough sweeps every entry was in a window.\<close>

lemma window_nth:
  assumes "q < length xs"
  shows "window start xs ! q = xs ! ((start + q) mod length xs)"
  using assms by (simp add: window_def nth_rotate mod_simps)

lemma window_reaches:
  assumes "i < length xs" "0 < m" "length xs \<le> n * m"
  shows "\<exists>j < n. xs ! i \<in> set (take m (window (start + j * m) xs))"
proof -
  let ?L = "length xs"
  let ?d = "(i + (?L - start mod ?L)) mod ?L"
  have L: "0 < ?L" using assms(1) by linarith
  have d: "?d < ?L" using L by (rule mod_less_divisor)
  have at: "(start + ?d) mod ?L = i"
  proof -
    have "(start + ?d) mod ?L = (start mod ?L + (i + (?L - start mod ?L))) mod ?L" by (simp add: mod_simps)
    also have "start mod ?L + (i + (?L - start mod ?L)) = i + ?L" using mod_less_divisor [OF L, of start] by simp
    finally show ?thesis using assms(1) by simp
  qed
  define j q where "j = ?d div m" and "q = ?d mod m"
  have dj: "?d = j * m + q" by (simp add: j_def q_def)
  have "j * m < n * m" using dj d assms(3) by linarith
  then have j: "j < n" using assms(2) by simp
  have q1: "q < m" unfolding q_def using assms(2) by (rule mod_less_divisor)
  have "q \<le> ?d" using dj by linarith
  with d have q2: "q < ?L" by linarith
  note q = q1 q2
  have "window (start + j * m) xs ! q = xs ! ((start + j * m + q) mod ?L)" using q(2) by (rule window_nth)
  also have "start + j * m + q = start + ?d" using dj by simp
  finally have "window (start + j * m) xs ! q = xs ! i" using at by simp
  moreover have "length (take m (window (start + j * m) xs)) = min m ?L" by (simp add: window_def)
  then have "take m (window (start + j * m) xs) ! q \<in> set (take m (window (start + j * m) xs))" using q by (intro nth_mem) simp
  then have "window (start + j * m) xs ! q \<in> set (take m (window (start + j * m) xs))" unfolding nth_take [OF q(1)] .
  ultimately have "xs ! i \<in> set (take m (window (start + j * m) xs))" by (rule subst)
  then show ?thesis using j by blast
qed

text \<open>A result that waits for its upload, and one that was repaired.\<close>

definition waiting :: "(string \<Rightarrow> 's \<Rightarrow> job option) \<Rightarrow> string \<Rightarrow> tree \<Rightarrow> 's keep \<Rightarrow> bool" where
  "waiting get k t w \<longleftrightarrow>
     (\<exists>row. get k (kp_store w) = Some row \<and> status row = FAILED \<and> tr_marker t = Some (Some (case claim_id row of None \<Rightarrow> [] | Some x \<Rightarrow> x)))
     \<and> map_of (kp_trees w) k = Some t \<and> job_id_like k \<and> tr_dir t \<and> \<not> tr_link t \<and> tr_meta t"

definition repaired :: "(string \<Rightarrow> 's \<Rightarrow> job option) \<Rightarrow> string \<Rightarrow> 's keep \<Rightarrow> bool" where
  "repaired get k w \<longleftrightarrow>
     (\<exists>row. get k (kp_store w) = Some row \<and> status row = DONE \<and> error row = None) \<and> k \<in> kp_blobs w
     \<and> (\<exists>t. map_of (kp_trees w) k = Some t \<and> tr_marker t = None)"

text \<open>Nothing fails for this job.\<close>

definition healthy :: "retry_cfg \<Rightarrow> bool" where
  "healthy c \<longleftrightarrow> rq_row_up c \<and> rq_has_up c \<and> rq_receipt_ok c \<and> rq_puts c 0 \<and> rq_repair c = Answered"

definition alone :: "'s keep \<Rightarrow> bool" where
  "alone w \<longleftrightarrow> kp_foreign w = [] \<and> distinct (map fst (kp_trees w))"

lemma alone_access: "alone w \<Longrightarrow> before_access step w = w"
  by (simp add: alone_def before_access_none)

lemma map_of_clear:
  "map_of (map (\<lambda>(k', t). (k', if k' = k then t\<lparr>tr_marker := None\<rparr> else t)) xs) x
     = (if x = k then map_option (\<lambda>t. t\<lparr>tr_marker := None\<rparr>) (map_of xs x) else map_of xs x)"
  by (induction xs) auto

lemma fst_clear: "map fst (map (\<lambda>(k', t). (k', if k' = k then t\<lparr>tr_marker := None\<rparr> else t)) xs) = map fst xs"
  by (induction xs) auto

text \<open>What handling one directory may change: the names stay, and nothing of another job.\<close>

definition others_kept :: "(string \<Rightarrow> 's \<Rightarrow> job option) \<Rightarrow> string \<Rightarrow> 's keep \<Rightarrow> 's keep \<Rightarrow> bool" where
  "others_kept get k w w' \<longleftrightarrow>
     kp_foreign w' = kp_foreign w \<and> kp_uploads_at w' = kp_uploads_at w \<and> map fst (kp_trees w') = map fst (kp_trees w)
     \<and> (\<forall>x. x \<noteq> k \<longrightarrow> get x (kp_store w') = get x (kp_store w) \<and> (x \<in> kp_blobs w' \<longleftrightarrow> x \<in> kp_blobs w)
          \<and> map_of (kp_trees w') x = map_of (kp_trees w) x)"

lemma others_kept_refl [simp]: "others_kept get k w w"
  by (simp add: others_kept_def)

lemma others_kept_trans: "others_kept get k w w1 \<Longrightarrow> others_kept get k w1 w2 \<Longrightarrow> others_kept get k w w2"
  by (simp add: others_kept_def)

lemma others_kept_jot [simp]: "others_kept get k w (jot e w') = others_kept get k w w'"
  by (simp add: others_kept_def jot_def)

lemma others_kept_local:
  "others_kept get k w (put_output ok k w)" "others_kept get k w (snd (delete_blob ok k w))"
  "others_kept get k w (clear_marker k w)" "others_kept get k w (snd (has_output up k w))"
  by (auto simp: others_kept_def put_output_def delete_blob_def clear_marker_def has_output_def Let_def map_of_clear fst_clear jot_def
      simp del: map_map)

context job_store
begin

lemma read_row_alone:
  "alone w \<Longrightarrow> read_row step get up k w = (if up then Some (get k (kp_store w)) else None,
     jot (KLooked k (if up then Some (get k (kp_store w)) else None)) w)"
  by (simp add: read_row_def alone_access Let_def)

lemma write_row_alone:
  "alone w \<Longrightarrow> write_row step op w =
     (fst (step op (kp_store w)) = OBool True, jot (KWrote op (fst (step op (kp_store w)))) (w\<lparr>kp_store := snd (step op (kp_store w))\<rparr>))"
  by (simp add: write_row_def alone_access Let_def split_beta)

definition calm :: "'s keep \<Rightarrow> bool" where
  "calm w \<longleftrightarrow> alone w \<and> inv (kp_store w)"

lemma calm_kept: "calm w \<Longrightarrow> others_kept get k w w' \<Longrightarrow> inv (kp_store w') \<Longrightarrow> calm w'"
  by (simp add: calm_def alone_def others_kept_def)

lemma repair_fields_ok: "0 < rq_now c \<Longrightarrow> list_all field_ok
    [FStatus DONE, FError None, FFinishedAt (Some (rq_now c)), FExpiresAt (expires_after (rq_retention c) (rq_now c))]"
  by (simp add: expires_after_def)

lemma repair_write:
  assumes "calm w" "0 < rq_now c"
  shows "others_kept get k w (snd (write_row step (repair_op c k) w)) \<and> inv (kp_store (snd (write_row step (repair_op c k) w)))"
  using assms cas_effect [OF _ repair_fields_ok [OF assms(2)], of "kp_store w"]
  by (simp add: calm_def write_row_alone repair_op_def) (simp add: others_kept_def jot_def)

lemma settle_keeps:
  assumes "calm w" "0 < rq_now c"
  shows "others_kept get k w (settle_repair step get c k w) \<and> inv (kp_store (settle_repair step get c k w))"
proof -
  obtain done' w1 where r: "repair_row step c k w = (done', w1)" by fastforce
  have k1: "others_kept get k w w1" "inv (kp_store w1)"
    using r repair_write [OF assms, of k] assms(1) by (auto simp: repair_row_def calm_def split: answer.splits if_splits)
  have a1: "alone w1" using calm_kept [OF assms(1) k1] by (simp add: calm_def)
  have loc: "others_kept get k w (clear_marker k (jot e w1))" "others_kept get k w (clear_marker k (snd (delete_blob ok k (jot e w1))))"
      "others_kept get k w (jot e w1)" for e ok
  proof -
    have j: "others_kept get k w (jot e w1)" using k1(1) by simp
    show "others_kept get k w (jot e w1)" by (rule j)
    show "others_kept get k w (clear_marker k (jot e w1))" by (rule others_kept_trans [OF j others_kept_local(3)])
    show "others_kept get k w (clear_marker k (snd (delete_blob ok k (jot e w1))))"
      by (rule others_kept_trans [OF others_kept_trans [OF j others_kept_local(2)] others_kept_local(3)])
  qed
  have st: "kp_store (clear_marker k v) = kp_store v" "kp_store (jot e v) = kp_store v" "kp_store (snd (delete_blob ok k v)) = kp_store v"
    for v :: "'s keep" and e ok
    by (simp_all add: clear_marker_def jot_def delete_blob_def)
  show ?thesis
    using loc k1(2) by (auto simp: settle_repair_def r read_row_alone [OF a1] st split: option.split)
qed

lemma retry_one_keeps:
  assumes "calm w" "0 < rq_now c"
  shows "others_kept get k w (retry_pending_one step get c (k, t) w) \<and> inv (kp_store (retry_pending_one step get c (k, t) w))"
proof -
  have al: "alone w" using assms(1) by (simp add: calm_def)
  define w1 where "w1 = snd (read_row step get (rq_row_up c) k w)"
  have k1: "others_kept get k w w1" "kp_store w1 = kp_store w" by (simp_all add: w1_def read_row_alone [OF al] jot_def others_kept_def)
  define w2 where "w2 = snd (has_output (rq_has_up c) k w1)"
  have k2: "others_kept get k w w2" "kp_store w2 = kp_store w"
    using others_kept_trans [OF k1(1) others_kept_local(4)] k1(2) by (simp_all add: w2_def has_output_def jot_def Let_def)
  define w3 where "w3 = put_output (fst (upload_output_with_retry (rq_attempts c) (rq_puts c))) k (jot (KMarked k) w2)"
  have "others_kept get k w (jot (KMarked k) w2)" using k2(1) by simp
  from others_kept_trans [OF this others_kept_local(1)] k2(2)
  have k3: "others_kept get k w w3" "kp_store w3 = kp_store w" by (simp_all add: w3_def put_output_def jot_def)
  have i: "inv (kp_store w)" using assms(1) by (simp add: calm_def)
  have s2: "others_kept get k w (settle_repair step get c k w2) \<and> inv (kp_store (settle_repair step get c k w2))"
    using settle_keeps [OF calm_kept [OF assms(1) k2(1)] assms(2), of k] others_kept_trans [OF k2(1)] k2(2) i by auto
  have s3: "others_kept get k w (settle_repair step get c k w3) \<and> inv (kp_store (settle_repair step get c k w3))"
    using settle_keeps [OF calm_kept [OF assms(1) k3(1)] assms(2), of k] others_kept_trans [OF k3(1)] k3(2) i by auto
  define P where "P v \<longleftrightarrow> others_kept get k w v \<and> inv (kp_store v)" for v
  have P: "P w" "P w1" "P w2" "P w3" "P (settle_repair step get c k w2)" "P (settle_repair step get c k w3)"
    using k1 k2 k3 s2 s3 i by (simp_all add: P_def)
  obtain r where r: "read_row step get (rq_row_up c) k w = (r, w1)" by (simp add: w1_def prod_eq_iff)
  obtain d where d: "has_output (rq_has_up c) k w1 = (d, w2)" by (simp add: w2_def prod_eq_iff)
  have "P (retry_pending_one step get c (k, t) w)"
    unfolding retry_pending_one_def prod.case r d Let_def w3_def [symmetric] using P by (simp split: option.split)
  then show ?thesis by (simp add: P_def)
qed

lemma retry_one_repairs:
  assumes "calm w" "0 < rq_now c" "healthy c" "waiting get k t w"
  shows "repaired get k (retry_pending_one step get c (k, t) w)"
proof -
  obtain row where row: "get k (kp_store w) = Some row" "status row = FAILED"
      "tr_marker t = Some (Some (case claim_id row of None \<Rightarrow> [] | Some x \<Rightarrow> x))" "map_of (kp_trees w) k = Some t"
      "job_id_like k" "tr_dir t" "\<not> tr_link t" "tr_meta t"
    using assms(4) by (auto simp: waiting_def)
  have al: "alone w" and i: "inv (kp_store w)" using assms(1) by (simp_all add: calm_def)
  have up: "fst (upload_output_with_retry n (rq_puts c))" for n
    using assms(3) by (cases "max 1 n") (simp_all add: upload_output_with_retry_def healthy_def)
  have cas: "fst (step (repair_op c k) (kp_store w)) = OBool True \<and> get k (snd (step (repair_op c k) (kp_store w)))
      = Some (setattrs [FStatus DONE, FError None, FFinishedAt (Some (rq_now c)), FExpiresAt (expires_after (rq_retention c) (rq_now c))] row)"
    using cas_effect(3) [OF i repair_fields_ok [OF assms(2)] row(1)] row(2) by (simp add: repair_op_def cas_guard_def)
  have settle: "repaired get k (settle_repair step get c k v)"
    if "alone v" "kp_store v = kp_store w" "kp_trees v = kp_trees w" "k \<in> kp_blobs v" for v
    using that cas assms(3) row(4)
    by (simp add: settle_repair_def repair_row_def healthy_def write_row_alone repaired_def clear_marker_def jot_def map_of_clear)
  show ?thesis
    using row assms(3) up
    by (auto simp: retry_pending_one_def read_row_alone [OF al] healthy_def has_output_def Let_def
        split: option.split intro!: settle)
      (use al in \<open>simp_all add: alone_def jot_def put_output_def\<close>)
qed


lemma retry_one_stays:
  assumes "calm w" "repaired get k w"
  shows "repaired get k (retry_pending_one step get c (k, t) w)"
proof -
  have al: "alone w" using assms(1) by (simp add: calm_def)
  have j: "repaired get k (jot e w)" for e using assms(2) by (simp add: repaired_def jot_def)
  show ?thesis using assms(2) j
    by (auto simp: retry_pending_one_def read_row_alone [OF al] repaired_def split: option.split)
qed

lemma kept_repaired: "others_kept get x w w' \<Longrightarrow> x \<noteq> k \<Longrightarrow> repaired get k w \<Longrightarrow> repaired get k w'"
  by (simp add: others_kept_def repaired_def)

lemma kept_waiting: "others_kept get x w w' \<Longrightarrow> x \<noteq> k \<Longrightarrow> waiting get k t w \<Longrightarrow> waiting get k t w'"
  by (simp add: others_kept_def waiting_def)

text \<open>What one sweep leaves fixed: the names, where the next sweep starts is not touched by the directories.\<close>

definition steady :: "'s keep \<Rightarrow> 's keep \<Rightarrow> bool" where
  "steady w w' \<longleftrightarrow> calm w' \<and> map fst (kp_trees w') = map fst (kp_trees w) \<and> kp_uploads_at w' = kp_uploads_at w"

lemma retry_fold_all:
  fixes kts :: "(string \<times> tree) list"
  assumes "calm w" "\<And>x. 0 < rq_now (c x)"
  defines "w' \<equiv> fold (\<lambda>kt. retry_pending_one step get (c (fst kt)) kt) kts w"
  shows "steady w w' \<and> (repaired get k w \<longrightarrow> repaired get k w')
    \<and> (waiting get k t w \<and> healthy (c k) \<and> (\<forall>t'. (k, t') \<in> set kts \<longrightarrow> t' = t) \<longrightarrow>
        (if (k, t) \<in> set kts then repaired get k w' else waiting get k t w'))"
  using assms(1) unfolding w'_def
proof (induction kts arbitrary: w)
  case Nil
  then show ?case by (simp add: steady_def)
next
  case (Cons kt kts)
  obtain x tx where kt: "kt = (x, tx)" by fastforce
  define w1 where "w1 = retry_pending_one step get (c x) (x, tx) w"
  have f: "fold (\<lambda>kt. retry_pending_one step get (c (fst kt)) kt) (kt # kts) w
      = fold (\<lambda>kt. retry_pending_one step get (c (fst kt)) kt) kts w1" by (simp add: kt w1_def)
  have k1: "others_kept get x w w1" "inv (kp_store w1)"
    using retry_one_keeps [OF Cons.prems assms(2)] unfolding w1_def by blast+
  note IH = Cons.IH [OF calm_kept [OF Cons.prems k1]]
  have r1: "repaired get k w \<Longrightarrow> repaired get k w1"
    using kept_repaired [OF k1(1), of k] retry_one_stays [OF Cons.prems, of k "c x" tx] by (cases "x = k") (simp_all add: w1_def)
  have s1: "steady w (fold (\<lambda>kt. retry_pending_one step get (c (fst kt)) kt) kts w1)"
    using IH k1 by (simp add: steady_def others_kept_def)
  show ?case
  proof (cases "waiting get k t w \<and> healthy (c k) \<and> (\<forall>t'. (k, t') \<in> set (kt # kts) \<longrightarrow> t' = t)")
    case False
    then show ?thesis using IH r1 s1 unfolding f by blast
  next
    case wt: True
    show ?thesis
    proof (cases "x = k")
      case True
      then have "tx = t" using wt kt by simp
      then have "repaired get k w1"
        using retry_one_repairs [OF Cons.prems assms(2), of k k t] True wt by (simp add: w1_def)
      then show ?thesis unfolding f using IH s1 True \<open>tx = t\<close> by (simp add: kt)
    next
      case False
      then have "waiting get k t w1" using kept_waiting [OF k1(1)] wt by blast
      moreover have "\<forall>t'. (k, t') \<in> set kts \<longrightarrow> t' = t" "healthy (c k)" using wt by (simp_all only: list.set insert_iff) blast+
      ultimately have main: "if (k, t) \<in> set kts then repaired get k (fold (\<lambda>kt. retry_pending_one step get (c (fst kt)) kt) kts w1)
          else waiting get k t (fold (\<lambda>kt. retry_pending_one step get (c (fst kt)) kt) kts w1)"
        using IH by blast
      have "(k, t) \<in> set (kt # kts) \<longleftrightarrow> (k, t) \<in> set kts" using False kt by simp
      then show ?thesis unfolding f using IH r1 s1 main by presburger
    qed
  qed
qed

lemma retry_fold:
  assumes "calm w" "\<And>x. 0 < rq_now (c x)"
  shows "steady w (fold (\<lambda>kt. retry_pending_one step get (c (fst kt)) kt) kts w)"
    and "repaired get k w \<Longrightarrow> repaired get k (fold (\<lambda>kt. retry_pending_one step get (c (fst kt)) kt) kts w)"
    and "waiting get k t w \<Longrightarrow> healthy (c k) \<Longrightarrow> (\<And>t'. (k, t') \<in> set kts \<Longrightarrow> t' = t) \<Longrightarrow>
      (if (k, t) \<in> set kts then repaired get k (fold (\<lambda>kt. retry_pending_one step get (c (fst kt)) kt) kts w)
       else waiting get k t (fold (\<lambda>kt. retry_pending_one step get (c (fst kt)) kt) kts w))"
  using retry_fold_all [where c = c and kts = kts and k = k and t = t, OF assms] by blast+

lemma retry_sweep:
  assumes "calm w" "\<And>x. 0 < rq_now (c x)" "0 < m" "kp_trees w \<noteq> []"
  defines "w' \<equiv> retry_pending_uploads step get m c w"
  shows "calm w'" "map fst (kp_trees w') = map fst (kp_trees w)" "kp_uploads_at w' = advance (kp_uploads_at w) m (kp_trees w)"
    and "repaired get k w \<Longrightarrow> repaired get k w'"
    and "waiting get k t w \<Longrightarrow> healthy (c k) \<Longrightarrow>
      (if k \<in> set (take m (window (kp_uploads_at w) (map fst (kp_trees w)))) then repaired get k w' else waiting get k t w')"
proof -
  let ?w1 = "w\<lparr>kp_uploads_at := advance (kp_uploads_at w) m (kp_trees w)\<rparr>"
  let ?todo = "take m (window (kp_uploads_at w) (kp_trees w))"
  have w': "w' = fold (\<lambda>kt. retry_pending_one step get (c (fst kt)) kt) ?todo ?w1"
    using assms(3,4) by (simp add: w'_def retry_pending_uploads_def Let_def)
  have c1: "calm ?w1" using assms(1) by (simp add: calm_def alone_def)
  note f = retry_fold [where c = c, OF c1 assms(2)]
  show "calm w'" "map fst (kp_trees w') = map fst (kp_trees w)" "kp_uploads_at w' = advance (kp_uploads_at w) m (kp_trees w)"
    using f(1) [where kts = ?todo] unfolding w' by (simp_all add: steady_def)
  show "repaired get k w \<Longrightarrow> repaired get k w'"
    using f(2) [where k = k and kts = ?todo] unfolding w' by (simp add: repaired_def)
  assume wt: "waiting get k t w" and h: "healthy (c k)"
  have wt1: "waiting get k t ?w1" using wt by (simp add: waiting_def)
  have d: "distinct (map fst (kp_trees w))" using assms(1) by (simp add: calm_def alone_def)
  have only: "t' = t" if "(k, t') \<in> set ?todo" for t'
  proof -
    have "(k, t') \<in> set (kp_trees w)" using that by (metis in_set_takeD set_window)
    then have "map_of (kp_trees w) k = Some t'" using d by simp
    then show ?thesis using wt by (simp add: waiting_def)
  qed
  have names: "take m (window (kp_uploads_at w) (map fst (kp_trees w))) = map fst ?todo"
    by (simp add: window_def rotate_map take_map)
  have "k \<in> set (map fst ?todo) \<longleftrightarrow> (k, t) \<in> set ?todo" using only by force
  then show "if k \<in> set (take m (window (kp_uploads_at w) (map fst (kp_trees w)))) then repaired get k w' else waiting get k t w'"
    using f(3) [OF wt1 h only] unfolding w' names by simp
qed

text \<open>A series of sweeps, each with its own answers.\<close>

lemma sweeps_stay:
  assumes "calm w" "repaired get k w" "\<And>c x. c \<in> set cs \<Longrightarrow> 0 < rq_now (c x)" "0 < m"
  shows "repaired get k (fold (\<lambda>c. retry_pending_uploads step get m c) cs w)"
  using assms(1-3)
proof (induction cs arbitrary: w)
  case (Cons c cs)
  have ne: "kp_trees w \<noteq> []" using Cons.prems(2) by (auto simp: repaired_def)
  have now: "\<And>x. 0 < rq_now (c x)" using Cons.prems(3) by simp
  note s = retry_sweep [where c = c, OF Cons.prems(1) now assms(4) ne]
  show ?case using Cons.IH [OF s(1) s(4)] Cons.prems by simp
qed simp

lemma sweeps_repair:
  assumes "calm w" "waiting get k t w" "\<And>c. c \<in> set cs \<Longrightarrow> healthy (c k)" "\<And>c x. c \<in> set cs \<Longrightarrow> 0 < rq_now (c x)" "0 < m"
    and "i < length cs" "k \<in> set (take m (window (kp_uploads_at w + i * m) (map fst (kp_trees w))))"
  shows "repaired get k (fold (\<lambda>c. retry_pending_uploads step get m c) cs w)"
  using assms(1-4,6,7)
proof (induction cs arbitrary: w i)
  case (Cons c cs)
  have ne: "kp_trees w \<noteq> []" using Cons.prems(2) by (auto simp: waiting_def)
  have now: "\<And>x. 0 < rq_now (c x)" using Cons.prems(4) by simp
  note s = retry_sweep [where c = c, OF Cons.prems(1) now assms(5) ne]
  have p: "if k \<in> set (take m (window (kp_uploads_at w) (map fst (kp_trees w))))
      then repaired get k (retry_pending_uploads step get m c w) else waiting get k t (retry_pending_uploads step get m c w)"
    using s(5) [OF Cons.prems(2)] Cons.prems(3) by simp
  show ?case
  proof (cases "k \<in> set (take m (window (kp_uploads_at w) (map fst (kp_trees w))))")
    case True
    then show ?thesis using sweeps_stay [of _ k cs m, OF s(1) _ _ assms(5)] p Cons.prems(4) by simp
  next
    case False
    then obtain i' where i': "i = Suc i'" using Cons.prems(6) by (cases i) auto
    let ?w1 = "retry_pending_uploads step get m c w"
    have "window (kp_uploads_at ?w1 + i' * m) (map fst (kp_trees ?w1)) = window (kp_uploads_at w + i * m) (map fst (kp_trees w))"
      unfolding s(2) s(3) by (simp add: window_def advance_def i' mod_simps add.assoc)
    then show ?thesis using Cons.IH [where i = i', OF s(1)] p False Cons.prems(3-6) i' by simp
  qed
qed simp

lemma backlog_drains_for:
  assumes "calm w" "waiting get k t w" "\<And>c. c \<in> set cs \<Longrightarrow> healthy (c k)" "\<And>c x. c \<in> set cs \<Longrightarrow> 0 < rq_now (c x)" "0 < m"
    and "length (kp_trees w) \<le> length cs * m"
  shows "repaired get k (fold (\<lambda>c. retry_pending_uploads step get m c) cs w)"
proof -
  have "k \<in> set (map fst (kp_trees w))"
    using assms(2) by (auto simp: waiting_def dest: map_of_SomeD intro: rev_image_eqI)
  then obtain n where n: "n < length (map fst (kp_trees w))" "map fst (kp_trees w) ! n = k" by (metis in_set_conv_nth)
  obtain i where i: "i < length cs" "k \<in> set (take m (window (kp_uploads_at w + i * m) (map fst (kp_trees w))))"
    using window_reaches [OF n(1) assms(5)] assms(6) n(2) by auto
  show ?thesis by (rule sweeps_repair [of w k t cs m i]) (use assms i in auto)
qed

end

text \<open>
  C15: the upload backlog drains.  A failed job whose sealed result waits on this node is done, its output
  stored and its marker gone, after as many sweeps as it takes to walk the directories in windows of
  \<open>m\<close> entries, wherever the walk starts, whatever happens to the other directories in every sweep, provided no
  other client interferes and the calls for this job succeed; and it stays so in all later sweeps.
\<close>

theorem upload_backlog_drains:
  assumes "redis_inv (kp_store w)" "alone w" "waiting redis_get k t w"
    and "\<forall>c \<in> set cs. healthy (c k) \<and> (\<forall>x. 0 < rq_now (c x))" "0 < m" "length (kp_trees w) \<le> length cs * m"
  shows "repaired redis_get k (fold (\<lambda>c. retry_pending_uploads redis_step redis_get m c) cs w)"
  using assms by (intro redis.backlog_drains_for) (auto simp: redis.calm_def)

definition demo_retry :: retry_cfg where
  "demo_retry = \<lparr>rq_attempts = 1, rq_retention = 0, rq_now = 150, rq_row_up = True, rq_has_up = True, rq_receipt_ok = True,
     rq_puts = (\<lambda>_. True), rq_repair = Answered, rq_after_up = True, rq_drop_ok = True\<rparr>"

theorem upload_backlog_drains_witness:
  "repaired redis_get demo_id (retry_pending_uploads redis_step redis_get 1 (\<lambda>_. demo_retry)
      (demo_keep (redis_create (demo_row FAILED) []) (Some (Some ''t1'')) {}))"
proof -
  let ?w = "demo_keep (redis_create (demo_row FAILED) []) (Some (Some ''t1'')) {}"
  have "waiting redis_get demo_id (demo_tree (Some (Some ''t1''))) ?w"
    using demo_row_kv(2) [of FAILED] by (simp add: waiting_def demo_keep_def demo_tree_def demo_id_like)
  moreover have "redis_inv (kp_store ?w)" "alone ?w" "length (kp_trees ?w) = 1"
    using demo_row_kv(1) [of FAILED] by (simp_all add: demo_keep_def alone_def)
  moreover have "healthy demo_retry" "0 < rq_now demo_retry" by (simp_all add: healthy_def demo_retry_def)
  ultimately show ?thesis
    using upload_backlog_drains [of ?w demo_id "demo_tree (Some (Some ''t1''))" "[\<lambda>_. demo_retry]" 1] by simp
qed

end
