(* ===== verification/Egress_Subnets.thy ===== *)
theory Egress_Subnets
  imports Blastbox_Prelude
begin

text \<open>
  \<^verbatim>\<open>host/egress.py\<close>, the configuration of a node's egress tier and the allocation of its bridge
  subnets against what the host already uses.  Addresses and networks enter as Python's
  \<^verbatim>\<open>ipaddress\<close> parses them: an address is its integer, a network its first address and prefix length.
  The lemmas show that the indexed collision test is the plain one, what an allocation guarantees,
  that a moved configuration stays valid, and two gaps.
\<close>

section \<open>Addresses and networks\<close>

datatype ipaddr = V4 int | V6 int

datatype ipnet = N4 int nat | N6 int nat

fun ip_int :: "ipaddr \<Rightarrow> int" where
  "ip_int (V4 a) = a"
| "ip_int (V6 a) = a"

fun prefixlen :: "ipnet \<Rightarrow> nat" where
  "prefixlen (N4 b p) = p"
| "prefixlen (N6 b p) = p"

fun is_v4 :: "ipnet \<Rightarrow> bool" where
  "is_v4 (N4 b p) = True"
| "is_v4 (N6 b p) = False"

fun first_addr :: "ipnet \<Rightarrow> int" where
  "first_addr (N4 b p) = b"
| "first_addr (N6 b p) = b"

fun num_addresses :: "ipnet \<Rightarrow> int" where
  "num_addresses (N4 b p) = 2 ^ (32 - p)"
| "num_addresses (N6 b p) = 2 ^ (128 - p)"

definition last_addr :: "ipnet \<Rightarrow> int" where
  "last_addr n = first_addr n + num_addresses n - 1"

text \<open>The networks \<^verbatim>\<open>ipaddress\<close> builds: aligned and in range.\<close>

fun net_ok :: "ipnet \<Rightarrow> bool" where
  "net_ok (N4 b p) \<longleftrightarrow> p \<le> 32 \<and> 0 \<le> b \<and> b mod 2 ^ (32 - p) = 0 \<and> b + 2 ^ (32 - p) \<le> 2 ^ 32"
| "net_ok (N6 b p) \<longleftrightarrow> p \<le> 128 \<and> 0 \<le> b \<and> b mod 2 ^ (128 - p) = 0 \<and> b + 2 ^ (128 - p) \<le> 2 ^ 128"

fun in_net :: "ipaddr \<Rightarrow> ipnet \<Rightarrow> bool" where
  "in_net (V4 a) (N4 b p) \<longleftrightarrow> b \<le> a \<and> a < b + 2 ^ (32 - p)"
| "in_net (V6 a) (N6 b p) \<longleftrightarrow> b \<le> a \<and> a < b + 2 ^ (128 - p)"
| "in_net _ _ = False"

fun network_address :: "ipnet \<Rightarrow> ipaddr" where
  "network_address (N4 b p) = V4 b"
| "network_address (N6 b p) = V6 b"

definition broadcast_address :: "ipnet \<Rightarrow> ipaddr" where
  "broadcast_address n = (if is_v4 n then V4 (last_addr n) else V6 (last_addr n))"

definition overlaps :: "ipnet \<Rightarrow> ipnet \<Rightarrow> bool" where
  "overlaps a b \<longleftrightarrow> in_net (network_address b) a \<or> in_net (broadcast_address b) a
     \<or> in_net (network_address a) b \<or> in_net (broadcast_address a) b"

section \<open>The configuration\<close>

record egress_cfg =
  eg_mode :: string
  eg_net0 :: ipnet
  eg_fakenet :: ipnet
  eg_socks :: ipnet
  eg_vpn :: ipnet
  eg_vpn_gateway :: ipaddr
  eg_uplink :: ipaddr
  eg_upstream :: "ipaddr option"
  eg_wg_iface :: string
  eg_wg_port :: int
  eg_overlay :: ipnet
  eg_overlay_gateway :: ipaddr
  eg_rt_table :: string
  eg_rt_table_id :: int
  eg_image :: string
  eg_forwarder :: string
  eg_exit_host :: bool

definition octets :: "int \<Rightarrow> int \<Rightarrow> int \<Rightarrow> int \<Rightarrow> int" where
  "octets a b c d = ((a * 256 + b) * 256 + c) * 256 + d"

definition default_cfg :: egress_cfg where
  "default_cfg = \<lparr>eg_mode = ''local'', eg_net0 = N4 (octets 172 29 0 0) 16, eg_fakenet = N4 (octets 172 28 100 0) 24,
     eg_socks = N4 (octets 172 30 0 0) 16, eg_vpn = N4 (octets 172 31 0 0) 16,
     eg_vpn_gateway = V4 (octets 172 31 0 10), eg_uplink = V4 (octets 172 29 0 10), eg_upstream = None,
     eg_wg_iface = ''bbwg0'', eg_wg_port = 51821, eg_overlay = N4 (octets 10 77 0 0) 24,
     eg_overlay_gateway = V4 (octets 10 77 0 1), eg_rt_table = ''bbwg'', eg_rt_table_id = 220,
     eg_image = ''blastbox-egress-forwarder:dev'', eg_forwarder = ''bb-egress-forwarder'', eg_exit_host = False\<rparr>"

definition name_char :: "char \<Rightarrow> bool" where
  "name_char c \<longleftrightarrow> (CHR ''a'' \<le> c \<and> c \<le> CHR ''z'') \<or> (CHR ''A'' \<le> c \<and> c \<le> CHR ''Z'') \<or> (CHR ''0'' \<le> c \<and> c \<le> CHR ''9'')"

definition name_body :: "string \<Rightarrow> bool" where
  "name_body s \<longleftrightarrow> s \<noteq> [] \<and> name_char (hd s) \<and> list_all (\<lambda>c. name_char c \<or> c \<in> set ''_.-'') (tl s) \<and> length s \<le> 31"

text \<open>\<open>_SAFE_NAME.match\<close>: the dollar also matches before a newline that ends the text.\<close>

definition newline :: char where "newline = CHR 0x0A"

definition SAFE_NAME :: "string \<Rightarrow> bool" where
  "SAFE_NAME s \<longleftrightarrow> name_body s \<or> (s \<noteq> [] \<and> last s = newline \<and> name_body (butlast s))"

definition iface_of :: "string \<Rightarrow> string res" where
  "iface_of s = (if SAFE_NAME (py_strip s) then Inr (py_strip s) else Inl (ValueError ''unsafe interface name''))"

text \<open>\<open>__post_init__\<close>, on values \<^verbatim>\<open>ipaddress\<close> has parsed.\<close>

definition egress_post_init :: "egress_cfg \<Rightarrow> egress_cfg res" where
  "egress_post_init c =
     (if eg_mode c \<notin> {''local'', ''global''} then Inl (ValueError ''mode'')
      else case iface_of (eg_wg_iface c) of
        Inl e \<Rightarrow> Inl e
      | Inr wg \<Rightarrow>
          if \<not> (1 \<le> eg_wg_port c \<and> eg_wg_port c \<le> 65535) then Inl (ValueError ''invalid wg_port'')
          else if \<not> SAFE_NAME (eg_rt_table c) then Inl (ValueError ''unsafe rt_table'')
          else if eg_mode c = ''global'' \<and> eg_upstream c = None then Inl (ValueError ''mode=global requires upstream_gw'')
          else if \<not> in_net (eg_vpn_gateway c) (eg_vpn c) then Inl (ValueError ''vpn_gateway_ip is not inside vpn_subnet'')
          else if eg_mode c = ''global'' \<and> \<not> in_net (eg_uplink c) (eg_net0 c)
               then Inl (ValueError ''forwarder_uplink_ip is not inside net0_subnet'')
          else Inr (c\<lparr>eg_wg_iface := wg\<rparr>))"

definition bridges :: "egress_cfg \<Rightarrow> (string \<times> ipnet) list" where
  "bridges c = [(''bb-net0'', eg_net0 c), (''bb-fakenet'', eg_fakenet c), (''bb-socks'', eg_socks c), (''bb-vpn'', eg_vpn c)]"

section \<open>Allocation\<close>

definition SUMMARY_PREFIXLEN :: nat where "SUMMARY_PREFIXLEN = 8"

definition CANDIDATE_BASES :: "(int \<times> nat) list" where
  "CANDIDATE_BASES = [(octets 172 16 0 0, 12), (octets 10 0 0 0, 8)]"

definition iter_candidates :: "nat \<Rightarrow> ipnet list" where
  "iter_candidates p = concat (map (\<lambda>(b, l). if p < l then []
       else map (\<lambda>i. N4 (b + int i * 2 ^ (32 - p)) p) [0..<2 ^ (p - l)]) CANDIDATE_BASES)"

definition static_index :: "ipnet list \<Rightarrow> ipnet list" where
  "static_index claimed = sort_key first_addr (sort_key last_addr claimed)"

definition widest :: "ipnet list \<Rightarrow> int" where
  "widest claimed = fold max (map num_addresses claimed) (if claimed = [] then 1 else 0)"

definition bisect_right :: "int list \<Rightarrow> int \<Rightarrow> nat" where
  "bisect_right xs x = length (takeWhile (\<lambda>y. y \<le> x) xs)"

fun scan_back :: "int \<Rightarrow> int \<Rightarrow> ipnet list \<Rightarrow> ipnet option" where
  "scan_back lo w [] = None"
| "scan_back lo w (n # ns) =
     (if lo \<le> last_addr n then Some n else if first_addr n < lo - w then None else scan_back lo w ns)"

definition collides :: "ipnet list \<Rightarrow> ipnet list \<Rightarrow> ipnet \<Rightarrow> ipnet option" where
  "collides claimed chosen c =
     (case find (overlaps c) chosen of
        Some n \<Rightarrow> Some n
      | None \<Rightarrow>
          let st = static_index claimed
          in scan_back (first_addr c) (widest claimed) (rev (take (bisect_right (map first_addr st) (last_addr c)) st)))"

record alloc =
  al_cfg :: egress_cfg
  al_chosen :: "ipnet list"
  al_conflicts :: "(string \<times> ipnet \<times> ipnet) list"
  al_moved :: "(string \<times> ipnet \<times> ipnet) list"

text \<open>An address plus an offset; \<^verbatim>\<open>ipaddress\<close> raises outside of the address space.\<close>

definition shifted :: "ipaddr \<Rightarrow> ipnet \<Rightarrow> ipnet \<Rightarrow> ipaddr res" where
  "shifted a want chosen =
     (let v = first_addr chosen + (ip_int a - first_addr want)
      in if 0 \<le> v \<and> v < 2 ^ 32 then Inr (V4 v) else Inl (ValueError ''AddressValueError''))"

definition move_bridge :: "egress_cfg \<Rightarrow> string \<Rightarrow> ipnet \<Rightarrow> ipnet \<Rightarrow> egress_cfg \<Rightarrow> egress_cfg res" where
  "move_bridge cfg name want chosen c =
     (if name = ''bb-vpn'' then
        (case shifted (eg_vpn_gateway cfg) want chosen of
           Inl e \<Rightarrow> Inl e | Inr a \<Rightarrow> Inr (c\<lparr>eg_vpn := chosen, eg_vpn_gateway := a\<rparr>))
      else if name = ''bb-net0'' then
        (case shifted (eg_uplink cfg) want chosen of
           Inl e \<Rightarrow> Inl e | Inr a \<Rightarrow> Inr (c\<lparr>eg_net0 := chosen, eg_uplink := a\<rparr>))
      else if name = ''bb-fakenet'' then Inr (c\<lparr>eg_fakenet := chosen\<rparr>)
      else Inr (c\<lparr>eg_socks := chosen\<rparr>))"

definition place_bridge :: "egress_cfg \<Rightarrow> bool \<Rightarrow> ipnet list \<Rightarrow> string \<times> ipnet \<Rightarrow> alloc \<Rightarrow> alloc res" where
  "place_bridge cfg auto claimed nb a =
     (case nb of (name, want) \<Rightarrow>
        if \<not> is_v4 want then Inl (ValueError ''AddressValueError'')
        else case collides claimed (al_chosen a) want of
          None \<Rightarrow> Inr (a\<lparr>al_chosen := al_chosen a @ [want]\<rparr>)
        | Some hit \<Rightarrow>
            let a1 = a\<lparr>al_conflicts := al_conflicts a @ [(name, want, hit)]\<rparr>
            in if \<not> auto then Inr a1
               else case find (\<lambda>c. collides claimed (al_chosen a) c = None) (iter_candidates (prefixlen want)) of
                 None \<Rightarrow> Inr a1
               | Some chosen \<Rightarrow>
                   (case move_bridge cfg name want chosen (al_cfg a1) of
                      Inl e \<Rightarrow> Inl e
                    | Inr c \<Rightarrow> Inr (a1\<lparr>al_chosen := al_chosen a1 @ [chosen], al_cfg := c,
                                      al_moved := al_moved a1 @ [(name, want, chosen)]\<rparr>)))"

fun place_all ::
  "egress_cfg \<Rightarrow> bool \<Rightarrow> ipnet list \<Rightarrow> string set \<Rightarrow> (string \<times> ipnet) list \<Rightarrow> alloc \<Rightarrow> alloc res" where
  "place_all cfg auto claimed skip [] a = Inr a"
| "place_all cfg auto claimed skip (nb # nbs) a =
     (if fst nb \<in> skip then place_all cfg auto claimed skip nbs a
      else case place_bridge cfg auto claimed nb a of
        Inl e \<Rightarrow> Inl e
      | Inr a' \<Rightarrow> place_all cfg auto claimed skip nbs a')"

record subnet_plan =
  sp_cfg :: egress_cfg
  sp_conflicts :: "(string \<times> ipnet \<times> ipnet) list"
  sp_moved :: "(string \<times> ipnet \<times> ipnet) list"
  sp_advisory :: "ipnet list"

definition blocking :: "ipnet list \<Rightarrow> ipnet list" where
  "blocking taken = filter (\<lambda>n. is_v4 n \<and> SUMMARY_PREFIXLEN < prefixlen n) taken"

text \<open>\<open>replace\<close> runs the checks of the configuration again.\<close>

definition allocate_subnets :: "egress_cfg \<Rightarrow> ipnet list \<Rightarrow> bool \<Rightarrow> string set \<Rightarrow> subnet_plan res" where
  "allocate_subnets cfg taken auto skip =
     (let adv = filter (\<lambda>n. is_v4 n \<and> prefixlen n \<le> SUMMARY_PREFIXLEN) taken
      in case place_all cfg auto (blocking taken) skip (bridges cfg)
                \<lparr>al_cfg = cfg, al_chosen = [], al_conflicts = [], al_moved = []\<rparr> of
           Inl e \<Rightarrow> Inl e
         | Inr a \<Rightarrow>
             (case (if al_moved a = [] then Inr cfg else egress_post_init (al_cfg a)) of
                Inl e \<Rightarrow> Inl e
              | Inr c \<Rightarrow> Inr \<lparr>sp_cfg = c, sp_conflicts = al_conflicts a, sp_moved = al_moved a, sp_advisory = adv\<rparr>))"

section \<open>The collision test\<close>

lemma num_pos: "0 < num_addresses n" by (cases n) auto

lemma first_le_last: "first_addr n \<le> last_addr n"
  using num_pos [of n] by (simp add: last_addr_def)

lemma overlaps_iff:
  assumes "is_v4 a" "is_v4 b"
  shows "overlaps a b \<longleftrightarrow> first_addr a \<le> last_addr b \<and> first_addr b \<le> last_addr a"
proof -
  obtain x p y q where "a = N4 x p" "b = N4 y q" using assms by (cases a; cases b) auto
  moreover define u v where "u = (2::int) ^ (32 - p)" and "v = (2::int) ^ (32 - q)"
  moreover have "0 < u" "0 < v" by (simp_all add: u_def v_def)
  ultimately show ?thesis
    by (auto simp: overlaps_def broadcast_address_def last_addr_def simp flip: u_def v_def)
qed

lemma widest_ge: "n \<in> set claimed \<Longrightarrow> num_addresses n \<le> widest claimed"
proof -
  have "(\<forall>x \<in> set xs. x \<le> fold max xs b) \<and> b \<le> fold max xs b" for xs :: "int list" and b
    by (induction xs arbitrary: b) (auto, (meson max.bounded_iff order_trans)+)
  moreover assume "n \<in> set claimed"
  ultimately show ?thesis unfolding widest_def by (metis image_eqI list.set_map)
qed

lemma scan_back_spec:
  assumes "sorted_wrt (\<lambda>x y. first_addr y \<le> first_addr x) ns" "\<forall>n \<in> set ns. num_addresses n \<le> w"
  shows "(scan_back lo w ns = None \<longleftrightarrow> (\<forall>n \<in> set ns. last_addr n < lo))
     \<and> (\<forall>n. scan_back lo w ns = Some n \<longrightarrow> n \<in> set ns \<and> lo \<le> last_addr n)"
  using assms
proof (induction ns)
  case (Cons m ns)
  have "last_addr n < lo" if "first_addr m < lo - w" "n \<in> set ns" for n
    using Cons.prems that by (fastforce simp: last_addr_def)
  with Cons show ?case by auto
qed simp

lemma static_index_set: "set (static_index claimed) = set claimed"
  by (simp add: static_index_def)

lemma static_index_sorted: "sorted (map first_addr (static_index claimed))"
  by (simp add: static_index_def)

lemma bisect_take:
  assumes "sorted (map f xs)"
  shows "set (take (bisect_right (map f xs) h) xs) = {x \<in> set xs. f x \<le> h}"
  using assms
proof (induction xs)
  case (Cons x xs)
  then show ?case by (cases "f x \<le> h") (force simp: bisect_right_def)+
qed (simp add: bisect_right_def)

lemma sorted_rev_take:
  assumes "sorted (map first_addr st)"
  shows "sorted_wrt (\<lambda>x y. first_addr y \<le> first_addr x) (rev (take k st))"
proof -
  have "sorted_wrt (\<lambda>x y. first_addr x \<le> first_addr y) (take k st)"
    using assms by (simp add: sorted_map sorted_wrt_take)
  then show ?thesis by (simp add: sorted_wrt_rev)
qed

lemma collides_spec:
  assumes "is_v4 c" "\<forall>n \<in> set claimed \<union> set chosen. is_v4 n"
  shows "(collides claimed chosen c = None \<longleftrightarrow> (\<forall>n \<in> set claimed \<union> set chosen. \<not> overlaps c n))
     \<and> (\<forall>n. collides claimed chosen c = Some n \<longrightarrow> n \<in> set claimed \<union> set chosen \<and> overlaps c n)"
proof -
  let ?st = "static_index claimed"
  let ?ns = "rev (take (bisect_right (map first_addr ?st) (last_addr c)) ?st)"
  have ns: "set ?ns = {n \<in> set claimed. first_addr n \<le> last_addr c}"
    using bisect_take [OF static_index_sorted] static_index_set by simp
  note sp = scan_back_spec [OF sorted_rev_take [OF static_index_sorted], of _ claimed "widest claimed" "first_addr c"]
  have sb: "(scan_back (first_addr c) (widest claimed) ?ns = None \<longleftrightarrow> (\<forall>n \<in> set claimed. \<not> overlaps c n))
     \<and> (\<forall>n. scan_back (first_addr c) (widest claimed) ?ns = Some n \<longrightarrow> n \<in> set claimed \<and> overlaps c n)"
    using sp [of "bisect_right (map first_addr ?st) (last_addr c)"] ns widest_ge assms
    by (auto simp: overlaps_iff not_less)
  show ?thesis
  proof (cases "find (overlaps c) chosen")
    case None
    then have "\<forall>n \<in> set chosen. \<not> overlaps c n" by (simp add: find_None_iff)
    then show ?thesis using sb None by (auto simp: collides_def Let_def)
  next
    case (Some n)
    then have "n \<in> set chosen" "overlaps c n" by (auto simp: find_Some_iff)
    with Some show ?thesis by (auto simp: collides_def)
  qed
qed

lemma v4_len: "is_v4 n \<Longrightarrow> net_ok n \<Longrightarrow> prefixlen n \<le> 32"
  by (cases n) auto

lemma overlaps_sym: "overlaps a b = overlaps b a"
  by (auto simp: overlaps_def)

section \<open>Candidates\<close>

lemma base_candidate:
  fixes b :: int
  assumes "b mod 2 ^ (32 - l) = 0" "0 \<le> b" "b + 2 ^ (32 - l) \<le> 2 ^ 32" "l \<le> p" "p \<le> 32" "i < (2::nat) ^ (p - l)"
  shows "net_ok (N4 (b + int i * 2 ^ (32 - p)) p)"
proof -
  have e: "(2::int) ^ (32 - l) = 2 ^ (p - l) * 2 ^ (32 - p)"
    using assms(4,5) by (simp flip: power_add)
  have "(2::int) ^ (32 - p) dvd b"
    using assms(1) unfolding e by (meson dvd_mult_right mod_eq_0_iff_dvd)
  moreover have "(int i + 1) * 2 ^ (32 - p) \<le> 2 ^ (p - l) * (2::int) ^ (32 - p)"
  proof (rule mult_right_mono)
    have "int i < 2 ^ (p - l)" using assms(6) by (metis of_nat_less_iff of_nat_numeral of_nat_power)
    then show "int i + 1 \<le> 2 ^ (p - l)" by linarith
  qed simp
  ultimately show ?thesis using assms e by (simp add: algebra_simps mod_eq_0_iff_dvd)
qed

lemma candidate_ok:
  assumes "n \<in> set (iter_candidates p)" "p \<le> 32"
  shows "is_v4 n" "prefixlen n = p" "net_ok n"
proof -
  obtain b l i where n: "n = N4 (b + int i * 2 ^ (32 - p)) p" "(b, l) \<in> set CANDIDATE_BASES" "l \<le> p" "i < 2 ^ (p - l)"
    using assms(1) by (auto simp: iter_candidates_def not_less split: if_splits)
  then have "b mod 2 ^ (32 - l) = 0" "0 \<le> b" "b + 2 ^ (32 - l) \<le> 2 ^ 32"
    by (auto simp: CANDIDATE_BASES_def octets_def)
  then show "net_ok n" unfolding n(1) by (rule base_candidate) (use n(3,4) assms(2) in auto)
  show "is_v4 n" "prefixlen n = p" by (simp_all add: n(1))
qed

section \<open>What an allocation guarantees\<close>

definition bridge_net :: "egress_cfg \<Rightarrow> string \<Rightarrow> ipnet" where
  "bridge_net c n = the (map_of (bridges c) n)"

definition bridge_names :: "string set" where
  "bridge_names = {''bb-net0'', ''bb-fakenet'', ''bb-socks'', ''bb-vpn''}"

text \<open>The bridges that stay on a subnet in conflict.\<close>

definition unresolved :: "alloc \<Rightarrow> string set" where
  "unresolved a = fst ` set (al_conflicts a) - fst ` set (al_moved a)"

lemma bridge_net_simps [simp]:
  "bridge_net c ''bb-net0'' = eg_net0 c" "bridge_net c ''bb-fakenet'' = eg_fakenet c"
  "bridge_net c ''bb-socks'' = eg_socks c" "bridge_net c ''bb-vpn'' = eg_vpn c"
  by (simp_all add: bridge_net_def bridges_def)

lemma move_bridge_nets:
  assumes "move_bridge cfg n want ch c = Inr c'" "n \<in> bridge_names"
  shows "bridge_net c' n = ch" "m \<in> bridge_names \<Longrightarrow> m \<noteq> n \<Longrightarrow> bridge_net c' m = bridge_net c m"
  using assms by (auto simp: move_bridge_def bridge_names_def split: sum.splits if_splits)

definition placed :: "egress_cfg \<Rightarrow> bool \<Rightarrow> ipnet list \<Rightarrow> string set \<Rightarrow> string list \<Rightarrow> string set \<Rightarrow> alloc \<Rightarrow> bool" where
  "placed cfg auto claimed skip names dn a \<longleftrightarrow>
     al_chosen a = map (bridge_net (al_cfg a)) names \<and> distinct names
   \<and> set names = dn - skip - unresolved a
   \<and> (\<forall>n \<in> bridge_names - set names. bridge_net (al_cfg a) n = bridge_net cfg n)
   \<and> sorted_wrt (\<lambda>x y. \<not> overlaps x y) (al_chosen a)
   \<and> (\<forall>x \<in> set (al_chosen a). is_v4 x \<and> (\<forall>m \<in> set claimed. \<not> overlaps x m))
   \<and> fst ` set (al_conflicts a) \<subseteq> dn - skip \<and> fst ` set (al_moved a) \<subseteq> fst ` set (al_conflicts a)
   \<and> (auto \<longrightarrow> (\<forall>n \<in> unresolved a. \<forall>c \<in> set (iter_candidates (prefixlen (bridge_net cfg n))).
        \<exists>m \<in> set claimed \<union> set (al_chosen a). overlaps c m))"

lemma placedD:
  assumes "placed cfg auto claimed skip names dn a"
  shows "al_chosen a = map (bridge_net (al_cfg a)) names" "distinct names" "set names = dn - skip - unresolved a"
    "\<forall>n \<in> bridge_names - set names. bridge_net (al_cfg a) n = bridge_net cfg n"
    "sorted_wrt (\<lambda>x y. \<not> overlaps x y) (al_chosen a)"
    "\<forall>x \<in> set (al_chosen a). is_v4 x \<and> (\<forall>m \<in> set claimed. \<not> overlaps x m)"
    "fst ` set (al_conflicts a) \<subseteq> dn - skip" "fst ` set (al_moved a) \<subseteq> fst ` set (al_conflicts a)"
    "auto \<longrightarrow> (\<forall>n \<in> unresolved a. \<forall>c \<in> set (iter_candidates (prefixlen (bridge_net cfg n))).
        \<exists>m \<in> set claimed \<union> set (al_chosen a). overlaps c m)"
  using assms unfolding placed_def by - (elim conjE, assumption)+

lemma collides_None:
  assumes "collides claimed chosen c = None" "is_v4 c" "\<forall>n \<in> set claimed \<union> set chosen. is_v4 n"
  shows "n \<in> set claimed \<union> set chosen \<Longrightarrow> \<not> overlaps c n"
  using assms collides_spec by blast

lemma placed_choose:
  assumes "placed cfg auto claimed skip names dn a" "n \<notin> dn" "n \<notin> skip" "dn \<subseteq> bridge_names" "n \<in> bridge_names"
    and "collides claimed (al_chosen a) ch = None" "is_v4 ch" "\<forall>m \<in> set claimed. is_v4 m"
    and "al_chosen a' = al_chosen a @ [ch]" "bridge_net (al_cfg a') n = ch"
    and "\<forall>m \<in> bridge_names - {n}. bridge_net (al_cfg a') m = bridge_net (al_cfg a) m"
    and "unresolved a' = unresolved a" "fst ` set (al_conflicts a') \<subseteq> insert n (fst ` set (al_conflicts a))"
    and "fst ` set (al_moved a') \<subseteq> fst ` set (al_conflicts a')"
  shows "placed cfg auto claimed skip (names @ [n]) (insert n dn) a'"
proof -
  note pl = placedD [OF assms(1)]
  have names: "set names \<subseteq> bridge_names - {n}" and unr: "n \<notin> unresolved a"
    using pl(3,7) assms(2,4) by (auto simp: unresolved_def)
  have free: "\<not> overlaps ch m" if "m \<in> set claimed \<union> set (al_chosen a)" for m
    using collides_None [OF assms(6,7)] assms(8) pl(6) that by blast
  have "al_chosen a' = map (bridge_net (al_cfg a')) (names @ [n])"
    using names assms(9-11) pl(1) by (auto simp: subset_iff)
  moreover have "set (names @ [n]) = insert n dn - skip - unresolved a'"
    using pl(3) assms(3,12) unr by auto
  moreover have "sorted_wrt (\<lambda>x y. \<not> overlaps x y) (al_chosen a')"
    using pl(5) free overlaps_sym unfolding assms(9) sorted_wrt_append by auto
  moreover have "distinct (names @ [n])" using names pl(2) by auto
  moreover have "\<forall>m \<in> bridge_names - set (names @ [n]). bridge_net (al_cfg a') m = bridge_net cfg m"
    using pl(4) assms(11) by auto
  moreover have "\<forall>x \<in> set (al_chosen a'). is_v4 x \<and> (\<forall>m \<in> set claimed. \<not> overlaps x m)"
    using pl(6) assms(7) free unfolding assms(9) by auto
  moreover have "fst ` set (al_conflicts a') \<subseteq> insert n dn - skip"
    using pl(7) assms(3,13) by blast
  moreover have "auto \<longrightarrow> (\<forall>n \<in> unresolved a'. \<forall>c \<in> set (iter_candidates (prefixlen (bridge_net cfg n))).
        \<exists>m \<in> set claimed \<union> set (al_chosen a'). overlaps c m)"
    using pl(9) unfolding assms(9,12) by fastforce
  ultimately show ?thesis
    using assms(14) unfolding placed_def by blast
qed

lemma place_bridge_placed:
  assumes "place_bridge cfg auto claimed (n, bridge_net cfg n) a = Inr a'" "placed cfg auto claimed skip names dn a"
    and "n \<notin> dn" "n \<notin> skip" "dn \<subseteq> bridge_names" "n \<in> bridge_names" "\<forall>m \<in> set claimed. is_v4 m"
    and "prefixlen (bridge_net cfg n) \<le> 32"
  shows "\<exists>names'. placed cfg auto claimed skip names' (insert n dn) a'"
proof -
  let ?want = "bridge_net cfg n"
  let ?f = "find (\<lambda>c. collides claimed (al_chosen a) c = None) (iter_candidates (prefixlen ?want))"
  have v4: "is_v4 ?want" using assms(1) by (auto simp: place_bridge_def split: if_splits)
  note pl = placedD [OF assms(2)]
  have kept: "bridge_net (al_cfg a) n = ?want" using pl(3,4) assms(3,6) by auto
  have conf: "n \<notin> fst ` set (al_conflicts a)" using pl(7) assms(3) by blast
  then have mov: "n \<notin> fst ` set (al_moved a)" using pl(8) by blast
  show ?thesis
  proof (cases "collides claimed (al_chosen a) ?want")
    case None
    then have a': "a' = a\<lparr>al_chosen := al_chosen a @ [?want]\<rparr>"
      using assms(1) v4 by (simp add: place_bridge_def)
    have "placed cfg auto claimed skip (names @ [n]) (insert n dn) a'"
      by (rule placed_choose [OF assms(2-6) None v4 assms(7)])
        (use pl(8) in \<open>auto simp: a' kept unresolved_def\<close>)
    then show ?thesis ..
  next
    case (Some hit)
    show ?thesis
    proof (cases "auto \<and> ?f \<noteq> None")
      case False
      then have a': "a' = a\<lparr>al_conflicts := al_conflicts a @ [(n, ?want, hit)]\<rparr>"
        using assms(1) v4 Some by (auto simp: place_bridge_def Let_def split: if_splits)
      have u: "unresolved a' = insert n (unresolved a)"
        using conf mov by (auto simp: a' unresolved_def)
      have ex: "\<exists>m \<in> set claimed \<union> set (al_chosen a). overlaps c m"
        if "auto" "c \<in> set (iter_candidates (prefixlen ?want))" for c
      proof -
        have "collides claimed (al_chosen a) c \<noteq> None" using False that by (auto simp: find_None_iff)
        then show ?thesis
          using collides_spec [OF candidate_ok(1) [OF that(2) assms(8)], of claimed "al_chosen a"] assms(7) pl(6)
          by blast
      qed
      have "set names = insert n dn - skip - unresolved a'" using pl(3) assms(3) u by auto
      moreover have "auto \<longrightarrow> (\<forall>n \<in> unresolved a'. \<forall>c \<in> set (iter_candidates (prefixlen (bridge_net cfg n))).
          \<exists>m \<in> set claimed \<union> set (al_chosen a'). overlaps c m)"
        using pl(9) ex unfolding u by (simp add: a')
      moreover have "fst ` set (al_conflicts a') \<subseteq> insert n dn - skip"
        "fst ` set (al_moved a') \<subseteq> fst ` set (al_conflicts a')"
        using pl(7,8) assms(4) by (auto simp: a')
      ultimately have "placed cfg auto claimed skip names (insert n dn) a'"
        using pl(1,2,4-6) unfolding placed_def by (simp add: a')
      then show ?thesis ..
    next
      case True
      then obtain ch c where ch: "?f = Some ch" and c: "move_bridge cfg n ?want ch (al_cfg a) = Inr c"
        and a': "a' = a\<lparr>al_conflicts := al_conflicts a @ [(n, ?want, hit)], al_chosen := al_chosen a @ [ch], al_cfg := c,
                       al_moved := al_moved a @ [(n, ?want, ch)]\<rparr>"
        using assms(1) v4 Some by (auto simp: place_bridge_def Let_def split: sum.splits option.splits)
      have none: "collides claimed (al_chosen a) ch = None" and mem: "ch \<in> set (iter_candidates (prefixlen ?want))"
        using ch by (auto simp: find_Some_iff)
      have "placed cfg auto claimed skip (names @ [n]) (insert n dn) a'"
        by (rule placed_choose [OF assms(2-6) none candidate_ok(1) [OF mem assms(8)] assms(7)])
          (use move_bridge_nets [OF c assms(6)] conf mov pl(8) in \<open>auto simp: a' unresolved_def\<close>)
      then show ?thesis ..
    qed
  qed
qed

lemma place_all_placed:
  assumes "place_all cfg auto claimed skip nbs a = Inr a'" "placed cfg auto claimed skip names dn a"
    and "distinct (map fst nbs)" "\<forall>(n, w) \<in> set nbs. n \<in> bridge_names \<and> n \<notin> dn \<and> w = bridge_net cfg n \<and> prefixlen w \<le> 32"
    and "dn \<subseteq> bridge_names" "\<forall>m \<in> set claimed. is_v4 m"
  shows "\<exists>names'. placed cfg auto claimed skip names' (dn \<union> fst ` set nbs) a'"
  using assms
proof (induction nbs arbitrary: a names dn)
  case (Cons nb nbs)
  obtain n where nb: "nb = (n, bridge_net cfg n)" "n \<in> bridge_names" "n \<notin> dn" "prefixlen (bridge_net cfg n) \<le> 32"
    using Cons.prems(4) by (cases nb) auto
  have rest: "distinct (map fst nbs)" "\<forall>(k, w) \<in> set nbs. k \<in> bridge_names \<and> k \<notin> insert n dn \<and> w = bridge_net cfg k \<and> prefixlen w \<le> 32"
      "insert n dn \<subseteq> bridge_names"
    using Cons.prems(3-5) nb by (auto simp: image_iff)
  show ?case
  proof (cases "n \<in> skip")
    case True
    then have "placed cfg auto claimed skip names (insert n dn) a"
      using Cons.prems(2) by (auto simp: placed_def)
    with Cons.IH [OF _ _ rest] Cons.prems(1,6) True nb(1) show ?thesis by fastforce
  next
    case False
    then obtain a1 where a1: "place_bridge cfg auto claimed nb a = Inr a1" "place_all cfg auto claimed skip nbs a1 = Inr a'"
      using Cons.prems(1) nb(1) by (auto split: sum.splits)
    then obtain names1 where "placed cfg auto claimed skip names1 (insert n dn) a1"
      using place_bridge_placed [of cfg auto claimed n a a1 skip names dn] Cons.prems(2,5,6) nb False by auto
    with Cons.IH [OF a1(2) _ rest] Cons.prems(6) nb(1) show ?thesis by fastforce
  qed
qed auto

lemma place_bridge_unmoved:
  assumes "place_bridge cfg auto claimed nb a = Inr a'" "al_moved a = [] \<Longrightarrow> al_cfg a = cfg"
  shows "al_moved a' = [] \<Longrightarrow> al_cfg a' = cfg"
  using assms by (cases nb) (auto simp: place_bridge_def Let_def split: if_splits option.splits sum.splits)

lemma place_all_unmoved:
  assumes "place_all cfg auto claimed skip nbs a = Inr a'" "al_moved a = [] \<longrightarrow> al_cfg a = cfg"
  shows "al_moved a' = [] \<longrightarrow> al_cfg a' = cfg"
  using assms
proof (induction nbs arbitrary: a)
  case (Cons nb nbs)
  show ?case
  proof (cases "fst nb \<in> skip")
    case True
    then show ?thesis using Cons by simp
  next
    case False
    then obtain a1 where a1: "place_bridge cfg auto claimed nb a = Inr a1" "place_all cfg auto claimed skip nbs a1 = Inr a'"
      using Cons.prems(1) by (simp split: sum.splits)
    with Cons.IH [OF a1(2)] place_bridge_unmoved [OF a1(1)] Cons.prems(2) show ?thesis by blast
  qed
qed simp

lemma post_init_result:
  assumes "egress_post_init c = Inr c'"
  shows "c' = c\<lparr>eg_wg_iface := py_strip (eg_wg_iface c)\<rparr>"
  using assms by (auto simp: egress_post_init_def iface_of_def split: if_splits sum.splits)

lemma bridges_nets: "\<forall>(n, w) \<in> set (bridges cfg). n \<in> bridge_names \<and> w = bridge_net cfg n"
  by (simp add: bridges_def bridge_names_def)

definition start_alloc :: "egress_cfg \<Rightarrow> alloc" where
  "start_alloc cfg = \<lparr>al_cfg = cfg, al_chosen = [], al_conflicts = [], al_moved = []\<rparr>"

lemma allocate_Inr:
  assumes "allocate_subnets cfg taken auto skip = Inr plan"
  obtains a where "place_all cfg auto (blocking taken) skip (bridges cfg) (start_alloc cfg) = Inr a"
    and "\<And>n. n \<in> bridge_names \<Longrightarrow> bridge_net (sp_cfg plan) n = bridge_net (al_cfg a) n"
    and "sp_conflicts plan = al_conflicts a" "sp_moved plan = al_moved a"
proof -
  obtain a where a: "place_all cfg auto (blocking taken) skip (bridges cfg) (start_alloc cfg) = Inr a"
    using assms by (auto simp: allocate_subnets_def start_alloc_def Let_def split: sum.splits)
  have un: "al_moved a = [] \<longrightarrow> al_cfg a = cfg"
    by (rule place_all_unmoved [OF a]) (simp add: start_alloc_def)
  have f: "sp_conflicts plan = al_conflicts a" "sp_moved plan = al_moved a"
    "(if al_moved a = [] then Inr cfg else egress_post_init (al_cfg a)) = Inr (sp_cfg plan)"
    using assms a by (auto simp: allocate_subnets_def start_alloc_def Let_def split: sum.splits)
  have "bridge_net (sp_cfg plan) n = bridge_net (al_cfg a) n" if "n \<in> bridge_names" for n
    using f(3) un post_init_result [of "al_cfg a" "sp_cfg plan"] that
    by (cases "al_moved a = []") (auto simp: bridge_names_def)
  with a f(1,2) that show ?thesis by blast
qed

lemma placed_pairs:
  assumes "placed cfg auto claimed skip names dn a" "n \<in> set names" "m \<in> set names" "n \<noteq> m"
  shows "\<not> overlaps (bridge_net (al_cfg a) n) (bridge_net (al_cfg a) m)"
proof -
  note pl = placedD [OF assms(1)]
  obtain i j where i: "i < length names" "n = names ! i" and j: "j < length names" "m = names ! j"
    using assms(2,3) by (metis in_set_conv_nth)
  have lt: "\<not> overlaps (bridge_net (al_cfg a) (names ! i)) (bridge_net (al_cfg a) (names ! j))"
    if "i < j" "j < length names" for i j
    using pl(5) that unfolding pl(1) by (simp add: sorted_wrt_iff_nth_less)
  show ?thesis
    using lt [of i j] lt [of j i] i j assms(4) overlaps_sym by (metis linorder_neqE_nat)
qed

definition settled :: "subnet_plan \<Rightarrow> string set \<Rightarrow> string set" where
  "settled plan skip = bridge_names - skip - (fst ` set (sp_conflicts plan) - fst ` set (sp_moved plan))"

section \<open>A moved configuration\<close>

definition same_place :: "ipaddr \<Rightarrow> ipnet \<Rightarrow> ipaddr \<Rightarrow> ipnet \<Rightarrow> bool" where
  "same_place a n a' n' \<longleftrightarrow> in_net a' n' \<and> ip_int a' - first_addr n' = ip_int a - first_addr n"

text \<open>Bridges keep their size, the pinned addresses their place in them, all else its value.\<close>

definition keeps :: "egress_cfg \<Rightarrow> egress_cfg \<Rightarrow> bool" where
  "keeps cfg c \<longleftrightarrow>
     (\<forall>n \<in> bridge_names. is_v4 (bridge_net c n) \<and> net_ok (bridge_net c n) \<and> prefixlen (bridge_net c n) = prefixlen (bridge_net cfg n))
   \<and> same_place (eg_vpn_gateway cfg) (eg_vpn cfg) (eg_vpn_gateway c) (eg_vpn c)
   \<and> same_place (eg_uplink cfg) (eg_net0 cfg) (eg_uplink c) (eg_net0 c)
   \<and> c\<lparr>eg_net0 := eg_net0 cfg, eg_fakenet := eg_fakenet cfg, eg_socks := eg_socks cfg, eg_vpn := eg_vpn cfg,
       eg_vpn_gateway := eg_vpn_gateway cfg, eg_uplink := eg_uplink cfg\<rparr> = cfg"

lemma in_net_v4: "is_v4 n \<Longrightarrow> in_net a n \<longleftrightarrow> (\<exists>x. a = V4 x \<and> first_addr n \<le> x \<and> x < first_addr n + num_addresses n)"
  by (cases n; cases a) auto

lemma shifted_same_place:
  assumes "in_net a want" "is_v4 want" "is_v4 ch" "net_ok ch" "prefixlen ch = prefixlen want"
  shows "\<exists>a'. shifted a want ch = Inr a' \<and> same_place a want a' ch"
proof -
  obtain x where x: "a = V4 x" "first_addr want \<le> x" "x < first_addr want + num_addresses want"
    using assms(1,2) by (auto simp: in_net_v4)
  have n: "num_addresses want = num_addresses ch" "0 \<le> first_addr ch" "first_addr ch + num_addresses ch \<le> 2 ^ 32"
    using assms(2-5) by (cases want; cases ch; simp)+
  show ?thesis
    using x n assms(3) by (auto simp: shifted_def same_place_def in_net_v4)
qed

lemma move_bridge_keeps:
  assumes "keeps cfg cfg" "keeps cfg c" "n \<in> bridge_names" "is_v4 ch" "net_ok ch" "prefixlen ch = prefixlen (bridge_net cfg n)"
  shows "\<exists>c'. move_bridge cfg n (bridge_net cfg n) ch c = Inr c' \<and> keeps cfg c'"
proof -
  have k: "same_place (eg_vpn_gateway cfg) (eg_vpn cfg) (eg_vpn_gateway cfg) (eg_vpn cfg)"
    "same_place (eg_uplink cfg) (eg_net0 cfg) (eg_uplink cfg) (eg_net0 cfg)" "is_v4 (eg_vpn cfg)" "is_v4 (eg_net0 cfg)"
    using assms(1) by (simp_all add: keeps_def bridge_names_def)
  have vpn: "\<exists>a'. shifted (eg_vpn_gateway cfg) (eg_vpn cfg) ch = Inr a' \<and> same_place (eg_vpn_gateway cfg) (eg_vpn cfg) a' ch"
    if "n = ''bb-vpn''"
    using that k assms(4-6) by (intro shifted_same_place) (simp_all add: same_place_def)
  have net0: "\<exists>a'. shifted (eg_uplink cfg) (eg_net0 cfg) ch = Inr a' \<and> same_place (eg_uplink cfg) (eg_net0 cfg) a' ch"
    if "n = ''bb-net0''"
    using that k assms(4-6) by (intro shifted_same_place) (simp_all add: same_place_def)
  have "n = ''bb-net0'' \<or> n = ''bb-fakenet'' \<or> n = ''bb-socks'' \<or> n = ''bb-vpn''"
    using assms(3) by (simp add: bridge_names_def)
  then show ?thesis
  proof (elim disjE)
    assume n: "n = ''bb-net0''"
    then obtain a' where "shifted (eg_uplink cfg) (eg_net0 cfg) ch = Inr a'" "same_place (eg_uplink cfg) (eg_net0 cfg) a' ch"
      using net0 by blast
    then show ?thesis using assms(2,4-6) n by (simp add: move_bridge_def keeps_def bridge_names_def)
  next
    assume n: "n = ''bb-vpn''"
    then obtain a' where "shifted (eg_vpn_gateway cfg) (eg_vpn cfg) ch = Inr a'" "same_place (eg_vpn_gateway cfg) (eg_vpn cfg) a' ch"
      using vpn by blast
    then show ?thesis using assms(2,4-6) n by (simp add: move_bridge_def keeps_def bridge_names_def)
  qed (use assms(2,4-6) in \<open>simp_all add: move_bridge_def keeps_def bridge_names_def\<close>)
qed

lemma place_all_keeps:
  assumes "keeps cfg cfg" "keeps cfg (al_cfg a)" "\<forall>(n, w) \<in> set nbs. n \<in> bridge_names \<and> w = bridge_net cfg n"
  shows "\<exists>a'. place_all cfg auto claimed skip nbs a = Inr a' \<and> keeps cfg (al_cfg a')"
  using assms
proof (induction nbs arbitrary: a)
  case (Cons nb nbs)
  obtain n where nb: "nb = (n, bridge_net cfg n)" "n \<in> bridge_names" using Cons.prems(3) by (cases nb) auto
  have ok: "is_v4 (bridge_net cfg n)" "prefixlen (bridge_net cfg n) \<le> 32"
    using Cons.prems(1) nb(2) v4_len by (auto simp: keeps_def)
  have "\<exists>a1. place_bridge cfg auto claimed nb a = Inr a1 \<and> keeps cfg (al_cfg a1)"
  proof -
    have "\<exists>c'. move_bridge cfg n (bridge_net cfg n) ch (al_cfg a) = Inr c' \<and> keeps cfg c'"
      if "find P (iter_candidates (prefixlen (bridge_net cfg n))) = Some ch" for P ch
    proof -
      have "ch \<in> set (iter_candidates (prefixlen (bridge_net cfg n)))" using that by (auto simp: find_Some_iff)
      from candidate_ok [OF this ok(2)] show ?thesis by (intro move_bridge_keeps Cons.prems(1,2) nb(2))
    qed
    note move = this
    show ?thesis
    proof (cases "collides claimed (al_chosen a) (bridge_net cfg n)")
      case None
      then show ?thesis using ok(1) nb(1) Cons.prems(2) by (simp add: place_bridge_def)
    next
      case (Some hit)
      show ?thesis
      proof (cases "auto \<and> find (\<lambda>c. collides claimed (al_chosen a) c = None) (iter_candidates (prefixlen (bridge_net cfg n))) \<noteq> None")
        case False
        then show ?thesis using Some ok(1) nb(1) Cons.prems(2) by (auto simp: place_bridge_def Let_def)
      next
        case True
        then obtain ch where "find (\<lambda>c. collides claimed (al_chosen a) c = None) (iter_candidates (prefixlen (bridge_net cfg n))) = Some ch"
          by blast
        with move [OF this] True Some ok(1) nb(1) show ?thesis by (auto simp: place_bridge_def Let_def)
      qed
    qed
  qed
  with Cons.IH Cons.prems show ?case by (cases "fst nb \<in> skip") auto
qed simp

lemma post_init_keeps:
  assumes "egress_post_init cfg = Inr cfg" "keeps cfg c"
  shows "egress_post_init c = Inr c"
proof -
  have "eg_mode c = eg_mode cfg" "eg_wg_iface c = eg_wg_iface cfg" "eg_wg_port c = eg_wg_port cfg"
    "eg_rt_table c = eg_rt_table cfg" "eg_upstream c = eg_upstream cfg"
    "in_net (eg_vpn_gateway c) (eg_vpn c)" "in_net (eg_uplink c) (eg_net0 c)"
    using assms(2) by (cases c; cases cfg; simp add: keeps_def same_place_def)+
  moreover have "eg_wg_iface cfg = py_strip (eg_wg_iface cfg)"
    using arg_cong [OF post_init_result [OF assms(1)], of eg_wg_iface] by simp
  then have "iface_of (eg_wg_iface cfg) = Inr (eg_wg_iface cfg)"
    using assms(1) by (auto simp: egress_post_init_def iface_of_def split: if_splits)
  ultimately show ?thesis
    using assms(1) by (auto simp: egress_post_init_def split: if_splits)
qed

section \<open>Properties\<close>

text \<open>
  the collision test of the allocator is the plain one.  The sorted index, the binary search and the
  early end of the backward scan over the claimed networks answer nothing exactly when the candidate
  overlaps no claimed and no already chosen network, and any answer is a network that overlaps it.
\<close>

theorem collides_exact:
  assumes "is_v4 c" "\<forall>n \<in> set claimed \<union> set chosen. is_v4 n"
  shows "(collides claimed chosen c = None \<longleftrightarrow> (\<forall>n \<in> set claimed \<union> set chosen. \<not> overlaps c n))
     \<and> (\<forall>n. collides claimed chosen c = Some n \<longrightarrow> n \<in> set claimed \<union> set chosen \<and> overlaps c n)"
  using collides_spec [OF assms] .

theorem collides_exact_witness:
  "collides [N4 (octets 10 0 0 0) 9, N4 (octets 10 1 2 3) 32] [N4 (octets 172 16 0 0) 16] (N4 (octets 10 1 0 0) 16) \<noteq> None"
  using collides_exact [of "N4 (octets 10 1 0 0) 16" "[N4 (octets 10 0 0 0) 9, N4 (octets 10 1 2 3) 32]" "[N4 (octets 172 16 0 0) 16]"]
  by (auto simp: octets_def overlaps_iff last_addr_def)

lemma allocation_facts:
  assumes "allocate_subnets cfg taken auto skip = Inr plan"
    and "\<forall>n \<in> bridge_names. is_v4 (bridge_net cfg n) \<and> net_ok (bridge_net cfg n)"
  shows "(\<forall>n \<in> settled plan skip.
            (\<forall>m \<in> set taken. is_v4 m \<and> SUMMARY_PREFIXLEN < prefixlen m \<longrightarrow> \<not> overlaps (bridge_net (sp_cfg plan) n) m)
          \<and> (\<forall>m \<in> settled plan skip - {n}. \<not> overlaps (bridge_net (sp_cfg plan) n) (bridge_net (sp_cfg plan) m)))
     \<and> (\<forall>n \<in> bridge_names - settled plan skip. bridge_net (sp_cfg plan) n = bridge_net cfg n)
     \<and> (auto \<longrightarrow> (\<forall>n \<in> bridge_names - skip - settled plan skip. \<forall>c \<in> set (iter_candidates (prefixlen (bridge_net cfg n))).
          \<exists>m \<in> set (blocking taken) \<union> bridge_net (sp_cfg plan) ` settled plan skip. overlaps c m))"
proof -
  obtain a where a: "place_all cfg auto (blocking taken) skip (bridges cfg) (start_alloc cfg) = Inr a"
    and nets: "\<And>n. n \<in> bridge_names \<Longrightarrow> bridge_net (sp_cfg plan) n = bridge_net (al_cfg a) n"
    and rep: "sp_conflicts plan = al_conflicts a" "sp_moved plan = al_moved a"
    using allocate_Inr [OF assms(1)] by blast
  have len: "prefixlen (bridge_net cfg n) \<le> 32" if "n \<in> bridge_names" for n
    using assms(2) that v4_len by blast
  have "\<forall>(n, w) \<in> set (bridges cfg). n \<in> bridge_names \<and> n \<notin> {} \<and> w = bridge_net cfg n \<and> prefixlen w \<le> 32"
    using len [of "''bb-net0''"] len [of "''bb-fakenet''"] len [of "''bb-socks''"] len [of "''bb-vpn''"]
    by (simp add: bridges_def bridge_names_def)
  moreover have "placed cfg auto (blocking taken) skip [] {} (start_alloc cfg)"
    by (simp add: placed_def start_alloc_def unresolved_def)
  ultimately have "\<exists>names. placed cfg auto (blocking taken) skip names ({} \<union> fst ` set (bridges cfg)) a"
    by (intro place_all_placed [OF a]) (auto simp: bridges_def blocking_def)
  moreover have "fst ` set (bridges cfg) = bridge_names" by (simp add: bridges_def bridge_names_def)
  ultimately obtain names where pl: "placed cfg auto (blocking taken) skip names bridge_names a" by auto
  note d = placedD [OF pl]
  have st: "set names = settled plan skip" using d(3) rep by (simp add: settled_def unresolved_def)
  have sub: "n \<in> bridge_names" if "n \<in> settled plan skip" for n using that by (simp add: settled_def)
  have unr: "bridge_names - skip - settled plan skip = unresolved a"
    using d(7,8) rep by (auto simp: settled_def unresolved_def)
  have img: "bridge_net (sp_cfg plan) ` settled plan skip = set (al_chosen a)"
    using nets sub st unfolding d(1) by auto
  have "\<not> overlaps (bridge_net (sp_cfg plan) n) m"
    if "n \<in> settled plan skip" "m \<in> set taken" "is_v4 m" "SUMMARY_PREFIXLEN < prefixlen m" for n m
    using d(6) img that by (auto simp: blocking_def)
  moreover have "\<not> overlaps (bridge_net (sp_cfg plan) n) (bridge_net (sp_cfg plan) m)"
    if "n \<in> settled plan skip" "m \<in> settled plan skip" "n \<noteq> m" for n m
    using placed_pairs [OF pl] nets sub st that by metis
  moreover have "bridge_net (sp_cfg plan) n = bridge_net cfg n" if "n \<in> bridge_names - settled plan skip" for n
    using d(4) nets st that by auto
  ultimately show ?thesis using d(9) unfolding unr img by blast
qed

text \<open>
  what an allocation guarantees.  In the plan every bridge that is not skipped and not reported as a
  conflict without a move overlaps no network the host uses, summaries of at most eight bits apart, and no
  other such bridge; the others keep the subnet they were configured with; and a conflict is left only
  when every candidate subnet of its size is taken by the host or by these bridges.
\<close>

theorem allocation_disjoint:
  assumes "allocate_subnets cfg taken auto skip = Inr plan"
    and "\<forall>n \<in> bridge_names. is_v4 (bridge_net cfg n) \<and> net_ok (bridge_net cfg n)"
  shows "(\<forall>n \<in> settled plan skip.
            (\<forall>m \<in> set taken. is_v4 m \<and> SUMMARY_PREFIXLEN < prefixlen m \<longrightarrow> \<not> overlaps (bridge_net (sp_cfg plan) n) m)
          \<and> (\<forall>m \<in> settled plan skip - {n}. \<not> overlaps (bridge_net (sp_cfg plan) n) (bridge_net (sp_cfg plan) m)))
     \<and> (\<forall>n \<in> bridge_names - settled plan skip. bridge_net (sp_cfg plan) n = bridge_net cfg n)
     \<and> (auto \<longrightarrow> (\<forall>n \<in> bridge_names - skip - settled plan skip. \<forall>c \<in> set (iter_candidates (prefixlen (bridge_net cfg n))).
          \<exists>m \<in> set (blocking taken) \<union> bridge_net (sp_cfg plan) ` settled plan skip. overlaps c m))"
  using allocation_facts [OF assms] .

text \<open>
  a moved configuration stays a configuration.  From a valid configuration with IPv4 bridges whose
  forwarder address lies in its bridge, the allocation raises nothing, and the configuration of the plan
  passes the same checks again, with every bridge at its size, the gateway and the forwarder at their
  places in their bridges, and everything else unchanged.
\<close>

theorem allocation_stays_valid:
  assumes "egress_post_init cfg = Inr cfg" "\<forall>n \<in> bridge_names. is_v4 (bridge_net cfg n) \<and> net_ok (bridge_net cfg n)"
    and "in_net (eg_uplink cfg) (eg_net0 cfg)"
  shows "\<exists>plan. allocate_subnets cfg taken auto skip = Inr plan \<and> egress_post_init (sp_cfg plan) = Inr (sp_cfg plan)
     \<and> keeps cfg (sp_cfg plan)"
proof -
  have "in_net (eg_vpn_gateway cfg) (eg_vpn cfg)" using assms(1) by (auto simp: egress_post_init_def split: if_splits sum.splits)
  then have k: "keeps cfg cfg" using assms(2,3) by (simp add: keeps_def same_place_def)
  obtain a where a: "place_all cfg auto (blocking taken) skip (bridges cfg) (start_alloc cfg) = Inr a" "keeps cfg (al_cfg a)"
    using place_all_keeps [OF k, of "start_alloc cfg" "bridges cfg" auto "blocking taken" skip] k bridges_nets
    by (simp add: start_alloc_def) blast
  with post_init_keeps [OF assms(1)] k assms(1) show ?thesis
    by (auto simp: allocate_subnets_def start_alloc_def Let_def)
qed

definition demo_plan :: subnet_plan where
  "demo_plan = \<lparr>sp_cfg = default_cfg\<lparr>eg_vpn := N4 (octets 172 16 0 0) 16, eg_vpn_gateway := V4 (octets 172 16 0 10)\<rparr>,
     sp_conflicts = [(''bb-vpn'', N4 (octets 172 31 0 0) 16, N4 (octets 172 31 4 0) 24)],
     sp_moved = [(''bb-vpn'', N4 (octets 172 31 0 0) 16, N4 (octets 172 16 0 0) 16)], sp_advisory = []\<rparr>"

lemma demo_allocation:
  "allocate_subnets default_cfg [N4 (octets 172 31 4 0) 24] True {} = Inr demo_plan"
  by code_simp

lemma demo_settled: "settled demo_plan {} = bridge_names"
  by (auto simp: settled_def demo_plan_def)

theorem allocation_disjoint_witness:
  "\<not> overlaps (eg_vpn (sp_cfg demo_plan)) (N4 (octets 172 31 4 0) 24)
   \<and> \<not> overlaps (eg_vpn (sp_cfg demo_plan)) (eg_net0 (sp_cfg demo_plan))"
proof -
  have n: "''bb-vpn'' \<in> settled demo_plan {}" "''bb-net0'' \<in> settled demo_plan {} - {''bb-vpn''}"
    by (simp_all add: demo_settled bridge_names_def)
  have "\<forall>n \<in> bridge_names. is_v4 (bridge_net default_cfg n) \<and> net_ok (bridge_net default_cfg n)"
    by (simp add: bridge_names_def default_cfg_def octets_def)
  from allocation_disjoint [OF demo_allocation this]
  have all: "\<forall>n \<in> settled demo_plan {}.
      (\<forall>m \<in> set [N4 (octets 172 31 4 0) 24]. is_v4 m \<and> SUMMARY_PREFIXLEN < prefixlen m
         \<longrightarrow> \<not> overlaps (bridge_net (sp_cfg demo_plan) n) m)
    \<and> (\<forall>m \<in> settled demo_plan {} - {n}. \<not> overlaps (bridge_net (sp_cfg demo_plan) n) (bridge_net (sp_cfg demo_plan) m))"
    by (rule conjunct1)
  from bspec [OF all n(1)] bspec [OF conjunct2 [OF bspec [OF all n(1)]] n(2)] show ?thesis
    by (simp add: SUMMARY_PREFIXLEN_def)
qed

theorem allocation_stays_valid_witness:
  "\<exists>plan. allocate_subnets default_cfg [N4 (octets 172 29 0 0) 16, N4 (octets 172 16 0 0) 12] True {''bb-socks''} = Inr plan
     \<and> egress_post_init (sp_cfg plan) = Inr (sp_cfg plan) \<and> keeps default_cfg (sp_cfg plan)"
proof (rule allocation_stays_valid)
  show "egress_post_init default_cfg = Inr default_cfg" by code_simp
qed (simp_all add: bridge_names_def default_cfg_def octets_def)

section \<open>Two gaps\<close>

text \<open>
  In local mode nothing ties the forwarder's address to its bridge, which no container uses there.  Yet
  a bridge that has to move moves the address with it, and the sum may leave the address space: a valid
  configuration and one conflict, and the allocation raises.
\<close>

definition shifted_out :: egress_cfg where
  "shifted_out = default_cfg\<lparr>eg_net0 := N4 (octets 10 1 0 0) 16\<rparr>"

lemma local_allocation_raises:
  "egress_post_init shifted_out = Inr shifted_out
   \<and> allocate_subnets shifted_out [N4 (octets 10 1 2 0) 24] True {} = Inl (ValueError ''AddressValueError'')"
  by code_simp

text \<open>A table name may end with a newline.\<close>

lemma newline_in_table_name:
  "egress_post_init (default_cfg\<lparr>eg_rt_table := ''bbwg'' @ [newline]\<rparr>) = Inr (default_cfg\<lparr>eg_rt_table := ''bbwg'' @ [newline]\<rparr>)"
  by code_simp

end
