(* ===== verification/Egress_Steps.thy ===== *)
theory Egress_Steps
  imports Egress_Subnets
begin

text \<open>
  \<^verbatim>\<open>host/egress.py\<close> and \<^verbatim>\<open>host/egress_apply.py\<close>, the host rules of the egress tier: the steps that
  put a worker node or an exit host behind its chains and source routes, how they are run, and the
  teardown.  A word of a command is text, or the text of an address, a network or a number.  The
  commands themselves are not code of the repository: running one is an argument, and what
  \<^verbatim>\<open>iptables\<close> and \<^verbatim>\<open>ip\<close> document about it is the named hypothesis \<open>documented\<close>.
\<close>

section \<open>Steps\<close>

datatype arg = W string | A ipaddr | N ipnet | D int

record host_step =
  st_argv :: "arg list"
  st_guard :: "arg list option"
  st_ignore_fail :: bool

definition step_of :: "arg list \<Rightarrow> host_step" where
  "step_of argv = \<lparr>st_argv = argv, st_guard = None, st_ignore_fail = False\<rparr>"

definition ensure :: "arg list \<Rightarrow> arg list \<Rightarrow> host_step" where
  "ensure guard argv = \<lparr>st_argv = argv, st_guard = Some guard, st_ignore_fail = False\<rparr>"

definition best_effort :: "arg list \<Rightarrow> host_step" where
  "best_effort argv = \<lparr>st_argv = argv, st_guard = None, st_ignore_fail = True\<rparr>"

record step_result =
  sr_step :: host_step
  sr_ran :: bool
  sr_ok :: bool

text \<open>\<open>run_steps\<close>; a command answers whether it exited with zero.  \<open>None\<close> is the \<^verbatim>\<open>RuntimeError\<close>.\<close>

fun run_steps :: "(arg list \<Rightarrow> 'n \<Rightarrow> bool \<times> 'n) \<Rightarrow> bool \<Rightarrow> host_step list \<Rightarrow> 'n \<Rightarrow> step_result list option \<times> 'n" where
  "run_steps run dry [] n = (Some [], n)"
| "run_steps run dry (st # sts) n =
     (if dry then
        (case run_steps run dry sts n of (out, n') \<Rightarrow>
           (map_option ((#) \<lparr>sr_step = st, sr_ran = False, sr_ok = True\<rparr>) out, n'))
      else case (case st_guard st of None \<Rightarrow> (False, n) | Some g \<Rightarrow> if g = [] then (False, n) else run g n) of (present, n1) \<Rightarrow>
        if present then
          (case run_steps run dry sts n1 of (out, n') \<Rightarrow>
             (map_option ((#) \<lparr>sr_step = st, sr_ran = False, sr_ok = True\<rparr>) out, n'))
        else case run (st_argv st) n1 of (zero, n2) \<Rightarrow>
          if \<not> (zero \<or> st_ignore_fail st) then (None, n2)
          else (case run_steps run dry sts n2 of (out, n') \<Rightarrow>
             (map_option ((#) \<lparr>sr_step = st, sr_ran = True, sr_ok = True\<rparr>) out, n')))"

section \<open>The host rules\<close>

definition CHAIN_FWD :: string where "CHAIN_FWD = ''BB-WG-FWD''"
definition CHAIN_FWD_RET :: string where "CHAIN_FWD_RET = ''BB-WG-FWD-RET''"
definition CHAIN_EXIT :: string where "CHAIN_EXIT = ''BB-WG-EXIT''"
definition CHAIN_EXIT_RET :: string where "CHAIN_EXIT_RET = ''BB-WG-EXIT-RET''"

definition PRIO_OVERLAY_MAIN :: int where "PRIO_OVERLAY_MAIN = 99"
definition PRIO_LOOKUP :: int where "PRIO_LOOKUP = 100"
definition PRIO_BLACKHOLE :: int where "PRIO_BLACKHOLE = 101"

definition iptables :: "arg list \<Rightarrow> arg list" where
  "iptables args = [W ''iptables'', W ''-w'', W ''5''] @ args"

definition ip_rule :: "string \<Rightarrow> arg list \<Rightarrow> arg list" where
  "ip_rule verb args = [W ''ip'', W ''rule'', W verb] @ args"

definition jump :: "string \<Rightarrow> arg list \<Rightarrow> arg list" where
  "jump chain mtch = mtch @ [W ''-j'', W chain]"

definition chain_jump_steps :: "string \<Rightarrow> arg list \<Rightarrow> host_step list" where
  "chain_jump_steps chain mtch =
     [best_effort (iptables [W ''-N'', W chain])]
     @ replicate 4 (best_effort (iptables ([W ''-D'', W ''FORWARD''] @ jump chain mtch)))
     @ [step_of (iptables ([W ''-I'', W ''FORWARD'', W ''1''] @ jump chain mtch)),
        step_of (iptables [W ''-F'', W chain])]"

definition accept_established :: "string \<Rightarrow> arg list" where
  "accept_established oif = [W ''-o'', W oif, W ''-m'', W ''conntrack'', W ''--ctstate'', W ''ESTABLISHED,RELATED'', W ''-j'', W ''ACCEPT'']"

definition accept_out :: "string \<Rightarrow> arg list" where
  "accept_out oif = [W ''-o'', W oif, W ''-j'', W ''ACCEPT'']"

definition drop_all :: "arg list" where "drop_all = [W ''-j'', W ''DROP'']"

definition append_rule :: "string \<Rightarrow> arg list \<Rightarrow> host_step" where
  "append_rule chain spec = step_of (iptables ([W ''-A'', W chain] @ spec))"

definition return_chain_steps :: "string \<Rightarrow> string \<Rightarrow> ipnet \<Rightarrow> host_step list res" where
  "return_chain_steps chain out_iface dest =
     (case iface_of out_iface of
        Inl e \<Rightarrow> Inl e
      | Inr oif \<Rightarrow> Inr (chain_jump_steps chain [W ''-d'', N dest]
                        @ [append_rule chain (accept_established oif), append_rule chain drop_all]))"

definition rule_steps :: "arg list \<Rightarrow> string \<Rightarrow> host_step list" where
  "rule_steps selector table =
     [best_effort (ip_rule ''del'' (selector @ [W ''lookup'', W table])),
      step_of (ip_rule ''add'' (selector @ [W ''lookup'', W table, W ''priority'', D PRIO_LOOKUP])),
      best_effort (ip_rule ''del'' (selector @ [W ''blackhole''])),
      step_of (ip_rule ''add'' (selector @ [W ''blackhole'', W ''priority'', D PRIO_BLACKHOLE]))]"

definition overlay_main_steps :: "ipnet \<Rightarrow> host_step list" where
  "overlay_main_steps overlay =
     [best_effort (ip_rule ''del'' [W ''to'', N overlay, W ''lookup'', W ''main'']),
      step_of (ip_rule ''add'' [W ''to'', N overlay, W ''lookup'', W ''main'', W ''priority'', D PRIO_OVERLAY_MAIN])]"

definition nat_rule :: "string \<Rightarrow> arg list \<Rightarrow> arg list" where
  "nat_rule verb spec = iptables ([W ''-t'', W ''nat'', W verb, W ''POSTROUTING''] @ spec)"

definition masquerade :: "arg list \<Rightarrow> host_step" where
  "masquerade spec = ensure (nat_rule ''-C'' spec) (nat_rule ''-A'' spec)"

definition forward_on :: host_step where
  "forward_on = step_of [W ''sysctl'', W ''-qw'', W ''net.ipv4.ip_forward=1'']"

text \<open>The network of an address with prefix 32.\<close>

fun host_net :: "ipaddr \<Rightarrow> ipnet" where
  "host_net (V4 a) = N4 a 32"
| "host_net (V6 a) = N6 (a - a mod 2 ^ 96) 32"

definition forwarder_source_route_steps :: "egress_cfg \<Rightarrow> string \<Rightarrow> host_step list res" where
  "forwarder_source_route_steps cfg bridge_iface =
     (case iface_of (eg_wg_iface cfg) of
        Inl e \<Rightarrow> Inl e
      | Inr wg \<Rightarrow>
               (case return_chain_steps CHAIN_FWD_RET bridge_iface (host_net (eg_uplink cfg)) of
                  Inl e \<Rightarrow> Inl e
                | Inr ret \<Rightarrow> Inr (
                    [step_of [W ''ip'', W ''route'', W ''replace'', W ''default'', W ''dev'', W wg, W ''table'', W (eg_rt_table cfg)]]
                    @ overlay_main_steps (eg_overlay cfg)
                    @ rule_steps [W ''from'', A (eg_uplink cfg)] (eg_rt_table cfg)
                    @ chain_jump_steps CHAIN_FWD [W ''-s'', A (eg_uplink cfg)]
                    @ [append_rule CHAIN_FWD (accept_out wg), append_rule CHAIN_FWD drop_all,
                       masquerade [W ''-o'', W wg, W ''-j'', W ''MASQUERADE'']]
                    @ ret @ [forward_on])))"

definition exit_host_steps :: "egress_cfg \<Rightarrow> string \<Rightarrow> host_step list res" where
  "exit_host_steps cfg exit_iface =
     (case iface_of exit_iface of
        Inl e \<Rightarrow> Inl e
      | Inr eif \<Rightarrow>
          (case return_chain_steps CHAIN_EXIT_RET (eg_wg_iface cfg) (eg_overlay cfg) of
             Inl e \<Rightarrow> Inl e
           | Inr ret \<Rightarrow> Inr (
               [step_of [W ''ip'', W ''route'', W ''replace'', W ''default'', W ''via'', A (eg_vpn_gateway cfg), W ''dev'', W eif,
                         W ''table'', W (eg_rt_table cfg)]]
               @ overlay_main_steps (eg_overlay cfg)
               @ rule_steps [W ''from'', N (eg_overlay cfg)] (eg_rt_table cfg)
               @ chain_jump_steps CHAIN_EXIT [W ''-s'', N (eg_overlay cfg)]
               @ [append_rule CHAIN_EXIT (accept_out eif), append_rule CHAIN_EXIT drop_all,
                  masquerade [W ''-s'', N (eg_overlay cfg), W ''-o'', W eif, W ''-j'', W ''MASQUERADE'']]
               @ ret @ [forward_on])))"

definition chain_jump_matches :: "egress_cfg \<Rightarrow> (string \<times> arg list) list" where
  "chain_jump_matches cfg =
     [(CHAIN_FWD, [W ''-s'', A (eg_uplink cfg)]), (CHAIN_FWD_RET, [W ''-d'', N (host_net (eg_uplink cfg))]),
      (CHAIN_EXIT, [W ''-s'', N (eg_overlay cfg)]), (CHAIN_EXIT_RET, [W ''-d'', N (eg_overlay cfg)])]"

definition teardown_chain :: "string \<times> arg list \<Rightarrow> host_step list" where
  "teardown_chain cm =
     (case cm of (chain, mtch) \<Rightarrow>
        [best_effort (iptables [W ''-F'', W chain])]
        @ replicate 4 (best_effort (iptables ([W ''-D'', W ''FORWARD''] @ jump chain mtch)))
        @ [best_effort (iptables [W ''-X'', W chain])])"

definition own_rules :: "egress_cfg \<Rightarrow> arg list list" where
  "own_rules cfg =
     [[W ''to'', N (eg_overlay cfg), W ''lookup'', W ''main''],
      [W ''from'', A (eg_uplink cfg), W ''lookup'', W (eg_rt_table cfg)], [W ''from'', A (eg_uplink cfg), W ''blackhole''],
      [W ''from'', N (eg_overlay cfg), W ''lookup'', W (eg_rt_table cfg)], [W ''from'', N (eg_overlay cfg), W ''blackhole'']]"

definition teardown_steps :: "egress_cfg \<Rightarrow> string option \<Rightarrow> host_step list res" where
  "teardown_steps cfg exit_iface =
     (case (case exit_iface of None \<Rightarrow> Inr []
            | Some i \<Rightarrow> (case iface_of i of Inl e \<Rightarrow> Inl e
                | Inr eif \<Rightarrow> Inr (replicate 4 (best_effort (nat_rule ''-D''
                    [W ''-s'', N (eg_overlay cfg), W ''-o'', W eif, W ''-j'', W ''MASQUERADE'']))))) of
        Inl e \<Rightarrow> Inl e
      | Inr snat \<Rightarrow> Inr (
               concat (map (\<lambda>sel. replicate 4 (best_effort (ip_rule ''del'' sel))) (own_rules cfg))
               @ [best_effort [W ''ip'', W ''route'', W ''flush'', W ''table'', W (eg_rt_table cfg)],
                  best_effort (nat_rule ''-D'' [W ''-o'', W (eg_wg_iface cfg), W ''-j'', W ''MASQUERADE''])]
               @ snat @ concat (map teardown_chain (chain_jump_matches cfg))))"

section \<open>What the commands document\<close>

text \<open>The filter table (chains in the order they were made), the source NAT rules and the routing
  rules in the order of their priorities.  Routing tables are looked at separately.\<close>

record netstate =
  ns_filter :: "(string \<times> arg list list) list"
  ns_nat :: "arg list list"
  ns_rules :: "(int \<times> arg list) list"

definition rule_target :: "arg list \<Rightarrow> arg" where "rule_target r = last r"

definition rule_match :: "arg list \<Rightarrow> arg list" where "rule_match r = butlast (butlast r)"

definition chain :: "netstate \<Rightarrow> string \<Rightarrow> arg list list option" where
  "chain s c = map_of (ns_filter s) c"

definition set_chain :: "string \<Rightarrow> arg list list \<Rightarrow> netstate \<Rightarrow> netstate" where
  "set_chain c rs s = s\<lparr>ns_filter := AList.update c rs (ns_filter s)\<rparr>"

definition referenced :: "string \<Rightarrow> netstate \<Rightarrow> bool" where
  "referenced c s \<longleftrightarrow> list_ex (\<lambda>d. case chain s d of None \<Rightarrow> False | Some rs \<Rightarrow> list_ex (\<lambda>r. rule_target r = W c) rs)
     (map fst (ns_filter s))"

definition filter_effect :: "string \<Rightarrow> string \<Rightarrow> arg list \<Rightarrow> netstate \<Rightarrow> netstate option" where
  "filter_effect verb c spec s =
     (if verb = ''-N'' then (if chain s c = None then Some (set_chain c [] s) else None)
      else case chain s c of
        None \<Rightarrow> None
      | Some rs \<Rightarrow>
          if verb = ''-F'' then Some (set_chain c [] s)
          else if verb = ''-A'' then Some (set_chain c (rs @ [spec]) s)
          else if verb = ''-D'' then (if spec \<in> set rs then Some (set_chain c (remove1 spec rs) s) else None)
          else if verb = ''-I'' then (if spec \<noteq> [] \<and> hd spec = W ''1'' then Some (set_chain c (tl spec # rs) s) else None)
          else if verb = ''-X'' then (if rs = [] \<and> \<not> referenced c s then Some (s\<lparr>ns_filter := AList.delete c (ns_filter s)\<rparr>) else None)
          else None)"

definition nat_effect :: "string \<Rightarrow> arg list \<Rightarrow> netstate \<Rightarrow> netstate option" where
  "nat_effect verb spec s =
     (if verb = ''-C'' then (if spec \<in> set (ns_nat s) then Some s else None)
      else if verb = ''-A'' then Some (s\<lparr>ns_nat := ns_nat s @ [spec]\<rparr>)
      else if verb = ''-D'' then (if spec \<in> set (ns_nat s) then Some (s\<lparr>ns_nat := remove1 spec (ns_nat s)\<rparr>) else None)
      else None)"

definition insert_rule :: "int \<Rightarrow> arg list \<Rightarrow> (int \<times> arg list) list \<Rightarrow> (int \<times> arg list) list" where
  "insert_rule p spec rs = takeWhile (\<lambda>r. fst r \<le> p) rs @ [(p, spec)] @ dropWhile (\<lambda>r. fst r \<le> p) rs"

fun remove_rule :: "arg list \<Rightarrow> (int \<times> arg list) list \<Rightarrow> (int \<times> arg list) list" where
  "remove_rule spec [] = []"
| "remove_rule spec (r # rs) = (if snd r = spec then rs else r # remove_rule spec rs)"

definition rule_effect :: "string \<Rightarrow> arg list \<Rightarrow> netstate \<Rightarrow> netstate option" where
  "rule_effect verb args s =
     (if verb = ''add'' then
        (case last args of
           D p \<Rightarrow> Some (s\<lparr>ns_rules := insert_rule p (butlast (butlast args)) (ns_rules s)\<rparr>)
         | _ \<Rightarrow> None)
      else if verb = ''del'' then
        (if args \<in> snd ` set (ns_rules s) then Some (s\<lparr>ns_rules := remove_rule args (ns_rules s)\<rparr>) else None)
      else None)"

text \<open>The effect of a command that succeeds; \<open>None\<close> if it cannot.\<close>

definition effect :: "arg list \<Rightarrow> netstate \<Rightarrow> netstate option" where
  "effect argv s =
     (case argv of
        W prog # W a # W b # rest \<Rightarrow>
          if prog = ''iptables'' then
            (case rest of
               W verb # W c # spec \<Rightarrow>
                 if verb = ''-t'' then
                   (case spec of W verb' # W ch # spec' \<Rightarrow> nat_effect verb' spec' s | _ \<Rightarrow> None)
                 else filter_effect verb c spec s
             | _ \<Rightarrow> None)
          else if prog = ''ip'' \<and> a = ''rule'' then rule_effect b rest s
          else Some s
      | _ \<Rightarrow> None)"

definition documented :: "(arg list \<Rightarrow> 'n \<Rightarrow> bool \<times> 'n) \<Rightarrow> ('n \<Rightarrow> netstate) \<Rightarrow> bool" where
  "documented run view \<longleftrightarrow>
     (\<forall>argv n. if fst (run argv n) then effect argv (view n) = Some (view (snd (run argv n)))
               else view (snd (run argv n)) = view n)"

section \<open>What a run can leave behind\<close>

definition results :: "arg list \<Rightarrow> netstate \<Rightarrow> netstate set" where
  "results argv s = set_option (effect argv s)"

definition step_results :: "host_step \<Rightarrow> netstate \<Rightarrow> netstate set" where
  "step_results st s =
     (case st_guard st of None \<Rightarrow> {} | Some g \<Rightarrow> results g s)
     \<union> results (st_argv st) s \<union> (if st_ignore_fail st then {s} else {})"

fun outcomes :: "host_step list \<Rightarrow> netstate \<Rightarrow> netstate set" where
  "outcomes [] s = {s}"
| "outcomes (st # sts) s = (\<Union>s' \<in> step_results st s. outcomes sts s')"

lemma run_steps_outcomes:
  assumes "documented run view" "run_steps run False sts n = (Some out, n')"
  shows "view n' \<in> outcomes sts (view n)"
  using assms(2)
proof (induction sts arbitrary: n out)
  case (Cons st sts)
  have doc: "if fst (run argv m) then view (snd (run argv m)) \<in> results argv (view m) else view (snd (run argv m)) = view m" for argv m
    using assms(1) by (simp add: documented_def results_def)
  obtain m where m: "view m \<in> step_results st (view n)" "\<exists>out'. run_steps run False sts m = (Some out', n')"
  proof -
    define g where "g = (case st_guard st of None \<Rightarrow> (False, n) | Some g \<Rightarrow> if g = [] then (False, n) else run g n)"
    have pres: "fst g \<Longrightarrow> view (snd g) \<in> step_results st (view n)" and abs: "\<not> fst g \<Longrightarrow> view (snd g) = view n"
      using doc [of "the (st_guard st)" n] by (auto simp: g_def step_results_def split: option.splits if_splits)
    show thesis
    proof (cases "fst g")
      case True
      then show thesis using Cons.prems pres that [of "snd g"] by (auto simp: g_def [symmetric] split: prod.splits)
    next
      case False
      let ?r = "run (st_argv st) (snd g)"
      have "view (snd ?r) \<in> step_results st (view n)" if "fst ?r \<or> st_ignore_fail st"
        using doc [of "st_argv st" "snd g"] abs [OF False] that by (auto simp: step_results_def split: if_splits)
      then show thesis
        using Cons.prems False that [of "snd ?r"] by (auto simp: g_def [symmetric] split: prod.splits if_splits)
    qed
  qed
  then show ?case using Cons.IH by auto
qed simp

lemma outcomes_append: "outcomes (xs @ ys) s = (\<Union>s' \<in> outcomes xs s. outcomes ys s')"
  by (induction xs arbitrary: s) auto

section \<open>What a packet meets\<close>

record fpacket =
  fp_src :: ipaddr
  fp_dst :: ipaddr
  fp_out :: string
  fp_est :: bool

definition verdicts :: "string set" where
  "verdicts = {''ACCEPT'', ''DROP'', ''REJECT'', ''RETURN''}"

text \<open>The walk of a packet through a list of rules: decided, or back to the caller.\<close>

inductive walks :: "(arg list \<Rightarrow> fpacket \<Rightarrow> bool) \<Rightarrow> (string \<Rightarrow> arg list list option) \<Rightarrow> fpacket \<Rightarrow> arg list list \<Rightarrow> bool option \<Rightarrow> bool"
  for hit tbl p where
  w_end: "walks hit tbl p [] None"
| w_skip: "\<not> hit (rule_match r) p \<Longrightarrow> walks hit tbl p rs v \<Longrightarrow> walks hit tbl p (r # rs) v"
| w_accept: "hit (rule_match r) p \<Longrightarrow> rule_target r = W ''ACCEPT'' \<Longrightarrow> walks hit tbl p (r # rs) (Some True)"
| w_drop: "hit (rule_match r) p \<Longrightarrow> rule_target r \<in> {W ''DROP'', W ''REJECT''} \<Longrightarrow> walks hit tbl p (r # rs) (Some False)"
| w_return: "hit (rule_match r) p \<Longrightarrow> rule_target r = W ''RETURN'' \<Longrightarrow> walks hit tbl p (r # rs) None"
| w_call: "hit (rule_match r) p \<Longrightarrow> rule_target r = W c \<Longrightarrow> c \<notin> verdicts \<Longrightarrow> tbl c = Some body
    \<Longrightarrow> walks hit tbl p body (Some b) \<Longrightarrow> walks hit tbl p (r # rs) (Some b)"
| w_back: "hit (rule_match r) p \<Longrightarrow> rule_target r = W c \<Longrightarrow> c \<notin> verdicts \<Longrightarrow> tbl c = Some body
    \<Longrightarrow> walks hit tbl p body None \<Longrightarrow> walks hit tbl p rs v \<Longrightarrow> walks hit tbl p (r # rs) v"
| w_other: "hit (rule_match r) p \<Longrightarrow> \<forall>c. rule_target r = W c \<longrightarrow> c \<notin> verdicts \<and> tbl c = None
    \<Longrightarrow> walks hit tbl p rs v \<Longrightarrow> walks hit tbl p (r # rs) v"

inductive_simps walks_Nil: "walks hit tbl p [] v"
inductive_simps walks_Cons: "walks hit tbl p (r # rs) v"

text \<open>What the match options of the tier document.  An interface name that ends with a plus sign is a
  pattern, so it is not covered.\<close>

definition hit_doc :: "(arg list \<Rightarrow> fpacket \<Rightarrow> bool) \<Rightarrow> bool" where
  "hit_doc hit \<longleftrightarrow> (\<forall>p. hit [] p)
     \<and> (\<forall>a p. hit [W ''-s'', A a] p \<longleftrightarrow> fp_src p = a) \<and> (\<forall>n p. hit [W ''-s'', N n] p \<longleftrightarrow> in_net (fp_src p) n)
     \<and> (\<forall>n p. hit [W ''-d'', N n] p \<longleftrightarrow> in_net (fp_dst p) n)
     \<and> (\<forall>i p. CHR ''+'' \<notin> set i \<longrightarrow> (hit [W ''-o'', W i] p \<longleftrightarrow> fp_out p = i)
          \<and> (hit [W ''-o'', W i, W ''-m'', W ''conntrack'', W ''--ctstate'', W ''ESTABLISHED,RELATED''] p \<longleftrightarrow> fp_out p = i \<and> fp_est p))"

lemma iface_no_plus:
  assumes "iface_of s = Inr i"
  shows "CHR ''+'' \<notin> set i"
proof -
  have body: "CHR ''+'' \<notin> set t" if "name_body t" for t
    using that by (cases t) (auto simp: name_body_def name_char_def list_all_iff)
  have "SAFE_NAME i" using assms by (auto simp: iface_of_def split: if_splits)
  then consider "name_body i" | "i = butlast i @ [newline]" "name_body (butlast i)"
    by (auto simp: SAFE_NAME_def) (metis append_butlast_last_id)
  then show ?thesis
  proof cases
    case 2
    then have "set i = insert newline (set (butlast i))" by (metis insert_is_Un list.simps(15) set_append set_empty2 sup_commute empty_set)
    then show ?thesis using body [OF 2(2)] by (simp add: newline_def)
  qed (rule body)
qed

section \<open>What the groups of steps do\<close>

lemma chain_set_chain [simp]:
  "chain (set_chain c rs s) d = (if d = c then Some rs else chain s d)"
  "ns_nat (set_chain c rs s) = ns_nat s" "ns_rules (set_chain c rs s) = ns_rules s"
  by (simp_all add: chain_def set_chain_def update_conv)

lemma results_filter:
  "v \<noteq> ''-t'' \<Longrightarrow> results (iptables (W v # W c # spec)) s = set_option (filter_effect v c spec s)"
  by (simp add: results_def effect_def iptables_def)

lemma results_nat:
  "results (nat_rule v spec) s = set_option (nat_effect v spec s)"
  by (simp add: results_def effect_def iptables_def nat_rule_def)

lemma results_ip_rule: "results (ip_rule v args) s = set_option (rule_effect v args s)"
  by (simp add: results_def effect_def ip_rule_def)

text \<open>The chains are as before but for the listed ones, and the other tables are untouched.\<close>

definition only_chains :: "string set \<Rightarrow> netstate \<Rightarrow> netstate \<Rightarrow> bool" where
  "only_chains cs s s' \<longleftrightarrow> (\<forall>d. d \<notin> cs \<longrightarrow> chain s' d = chain s d) \<and> ns_nat s' = ns_nat s \<and> ns_rules s' = ns_rules s"

lemma only_chains_trans: "only_chains cs s t \<Longrightarrow> only_chains cs t u \<Longrightarrow> only_chains cs s u"
  by (simp add: only_chains_def)

lemma outcomes_delete:
  assumes "s' \<in> outcomes (replicate k (best_effort (iptables ([W ''-D'', W c] @ J)))) s"
  shows "only_chains {c} s s' \<and> (\<exists>i. chain s' c = map_option (remove1 J ^^ i) (chain s c))"
  using assms
proof (induction k arbitrary: s)
  case 0
  then have "s' = s" by simp
  moreover have "chain s c = map_option (remove1 J ^^ 0) (chain s c)" by (simp add: option.map_id)
  ultimately show ?case by (auto simp: only_chains_def intro: exI [of _ 0])
next
  case (Suc k)
  then obtain t where t: "t \<in> step_results (best_effort (iptables ([W ''-D'', W c] @ J))) s"
    "s' \<in> outcomes (replicate k (best_effort (iptables ([W ''-D'', W c] @ J)))) t"
    by auto
  from Suc.IH [OF t(2)] obtain i where i: "only_chains {c} t s'" "chain s' c = map_option (remove1 J ^^ i) (chain t c)"
    by blast
  have "t = s \<or> (only_chains {c} s t \<and> chain t c = map_option (remove1 J) (chain s c))"
    using t(1) by (auto simp: step_results_def best_effort_def results_filter filter_effect_def only_chains_def
        split: option.splits if_splits)
  then show ?case
  proof
    assume "t = s" with i show ?thesis by blast
  next
    assume d: "only_chains {c} s t \<and> chain t c = map_option (remove1 J) (chain s c)"
    then have "chain s' c = map_option (remove1 J ^^ Suc i) (chain s c)"
      using i(2) by (simp add: option.map_comp funpow_swap1 comp_def)
    with d i(1) only_chains_trans show ?thesis by blast
  qed
qed

lemma outcomes_chain:
  assumes "s' \<in> outcomes (chain_jump_steps c m @ [append_rule c r1, append_rule c r2]) s" "c \<noteq> ''FORWARD''"
  shows "only_chains {c, ''FORWARD''} s s' \<and> chain s' c = Some [r1, r2]
     \<and> (\<exists>fw i. chain s ''FORWARD'' = Some fw \<and> chain s' ''FORWARD'' = Some (jump c m # (remove1 (jump c m) ^^ i) fw))"
proof -
  have "s' \<in> (\<Union>s1 \<in> step_results (best_effort (iptables [W ''-N'', W c])) s.
       \<Union>s2 \<in> outcomes (replicate 4 (best_effort (iptables ([W ''-D'', W ''FORWARD''] @ jump c m)))) s1.
         outcomes [step_of (iptables ([W ''-I'', W ''FORWARD'', W ''1''] @ jump c m)), step_of (iptables [W ''-F'', W c]),
                  append_rule c r1, append_rule c r2] s2)"
    using assms(1) by (simp add: chain_jump_steps_def outcomes_append)
  then obtain s1 s2 where s1: "s1 \<in> step_results (best_effort (iptables [W ''-N'', W c])) s"
    and s2: "s2 \<in> outcomes (replicate 4 (best_effort (iptables ([W ''-D'', W ''FORWARD''] @ jump c m)))) s1"
    and s': "s' \<in> outcomes [step_of (iptables ([W ''-I'', W ''FORWARD'', W ''1''] @ jump c m)), step_of (iptables [W ''-F'', W c]),
                  append_rule c r1, append_rule c r2] s2"
    by (elim UN_E)
  have new: "only_chains {c} s s1 \<and> chain s1 ''FORWARD'' = chain s ''FORWARD''"
    using s1 assms(2) by (auto simp: step_results_def best_effort_def results_filter filter_effect_def only_chains_def
        split: if_splits)
  obtain i where i: "only_chains {''FORWARD''} s1 s2" "chain s2 ''FORWARD'' = map_option (remove1 (jump c m) ^^ i) (chain s1 ''FORWARD'')"
    using outcomes_delete [OF s2] by blast
  have "only_chains {c, ''FORWARD''} s2 s' \<and> chain s' c = Some [r1, r2]
     \<and> (\<exists>fw. chain s2 ''FORWARD'' = Some fw \<and> chain s' ''FORWARD'' = Some (jump c m # fw))"
    using s' assms(2) by (auto simp: step_results_def step_of_def append_rule_def results_filter filter_effect_def only_chains_def
        split: option.splits if_splits)
  then show ?thesis using new i by (auto simp: only_chains_def)
qed

definition rules_only :: "netstate \<Rightarrow> netstate \<Rightarrow> bool" where
  "rules_only s s' \<longleftrightarrow> ns_filter s' = ns_filter s \<and> ns_nat s' = ns_nat s"

lemma outcomes_rules_only:
  assumes "s' \<in> outcomes sts s" "\<forall>st \<in> set sts. st_guard st = None \<and> (\<exists>v args. st_argv st = ip_rule v args)"
  shows "rules_only s s'"
  using assms
proof (induction sts arbitrary: s)
  case (Cons st sts)
  then obtain t where t: "t \<in> step_results st s" "s' \<in> outcomes sts t" by auto
  have "rules_only s t"
    using t(1) Cons.prems(2) by (auto simp: step_results_def results_ip_rule rule_effect_def rules_only_def
        split: if_splits arg.splits)
  with Cons.IH [OF t(2)] Cons.prems(2) show ?case by (simp add: rules_only_def)
qed (simp add: rules_only_def)

lemma remove1_past:
  "a \<noteq> b \<Longrightarrow> (remove1 a ^^ i) (b # xs) = b # (remove1 a ^^ i) xs"
  by (induction i arbitrary: xs) (simp_all add: funpow_swap1)

definition gate_steps :: "arg list \<Rightarrow> host_step list \<Rightarrow> string \<Rightarrow> arg list \<Rightarrow> arg list \<Rightarrow> arg list \<Rightarrow> string \<Rightarrow> arg list \<Rightarrow> arg list \<Rightarrow> host_step list" where
  "gate_steps route rules c1 m1 a1 snat c2 m2 a2 =
     [step_of route] @ rules @ (chain_jump_steps c1 m1 @ [append_rule c1 a1, append_rule c1 drop_all])
     @ [masquerade snat] @ (chain_jump_steps c2 m2 @ [append_rule c2 a2, append_rule c2 drop_all]) @ [forward_on]"

lemma outcomes_gates:
  assumes "s' \<in> outcomes (gate_steps route rules c1 m1 a1 snat c2 m2 a2) s"
    and "\<And>s. effect route s = Some s" "\<forall>st \<in> set rules. st_guard st = None \<and> (\<exists>v args. st_argv st = ip_rule v args)"
    and "distinct [c1, c2, ''FORWARD'']" "m1 \<noteq> m2"
  shows "chain s' c1 = Some [a1, drop_all] \<and> chain s' c2 = Some [a2, drop_all]
     \<and> (\<exists>fw. chain s' ''FORWARD'' = Some (jump c2 m2 # jump c1 m1 # fw))
     \<and> (\<exists>t \<in> outcomes rules s. ns_rules s' = ns_rules t)"
proof -
  have "s' \<in> (\<Union>s0 \<in> step_results (step_of route) s. \<Union>s1 \<in> outcomes rules s0.
       \<Union>s2 \<in> outcomes (chain_jump_steps c1 m1 @ [append_rule c1 a1, append_rule c1 drop_all]) s1.
       \<Union>s3 \<in> step_results (masquerade snat) s2.
       \<Union>s4 \<in> outcomes (chain_jump_steps c2 m2 @ [append_rule c2 a2, append_rule c2 drop_all]) s3. outcomes [forward_on] s4)"
    using assms(1) unfolding gate_steps_def outcomes_append [of "[step_of route]"] outcomes_append [of rules]
      outcomes_append [of "chain_jump_steps c1 m1 @ _"] outcomes_append [of "[masquerade snat]"]
      outcomes_append [of "chain_jump_steps c2 m2 @ _"] by simp
  then obtain s0 s1 s2 s3 s4 where st: "s0 \<in> step_results (step_of route) s" "s1 \<in> outcomes rules s0"
      "s2 \<in> outcomes (chain_jump_steps c1 m1 @ [append_rule c1 a1, append_rule c1 drop_all]) s1"
      "s3 \<in> step_results (masquerade snat) s2"
      "s4 \<in> outcomes (chain_jump_steps c2 m2 @ [append_rule c2 a2, append_rule c2 drop_all]) s3" "s' \<in> outcomes [forward_on] s4"
    by (elim UN_E)
  have s0: "s0 = s" using st(1) assms(2) by (simp add: step_results_def step_of_def results_def)
  have s4: "s4 = s'" using st(6) by (simp add: step_results_def step_of_def forward_on_def results_def effect_def)
  have r: "rules_only s s1" using outcomes_rules_only [OF st(2) assms(3)] s0 by simp
  have nat: "chain s3 d = chain s2 d" "ns_rules s3 = ns_rules s2" for d
    using st(4) by (auto simp: step_results_def masquerade_def ensure_def results_nat nat_effect_def chain_def split: if_splits)
  have g1: "only_chains {c1, ''FORWARD''} s1 s2 \<and> chain s2 c1 = Some [a1, drop_all]
     \<and> (\<exists>fw i. chain s1 ''FORWARD'' = Some fw \<and> chain s2 ''FORWARD'' = Some (jump c1 m1 # (remove1 (jump c1 m1) ^^ i) fw))"
    by (rule outcomes_chain [OF st(3)]) (use assms(4) in auto)
  have g2: "only_chains {c2, ''FORWARD''} s3 s4 \<and> chain s4 c2 = Some [a2, drop_all]
     \<and> (\<exists>fw i. chain s3 ''FORWARD'' = Some fw \<and> chain s4 ''FORWARD'' = Some (jump c2 m2 # (remove1 (jump c2 m2) ^^ i) fw))"
    by (rule outcomes_chain [OF st(5)]) (use assms(4) in auto)
  have "jump c2 m2 \<noteq> jump c1 m1" using assms(5) by (simp add: jump_def)
  then have "\<exists>fw. chain s4 ''FORWARD'' = Some (jump c2 m2 # jump c1 m1 # fw)"
    using g1 g2 nat by (auto simp: remove1_past)
  moreover have "chain s4 c1 = Some [a1, drop_all]" using g1 g2 nat assms(4) by (auto simp: only_chains_def)
  moreover have "ns_rules s4 = ns_rules s1" using g1 g2 nat by (simp add: only_chains_def)
  ultimately show ?thesis using g2 st(2) s0 s4 by auto
qed

section \<open>Containment\<close>

lemma walk_gate:
  assumes "hit_doc hit" "tbl c = Some [jump' , drop_all]" "c \<notin> verdicts" "rule_target jump' = W ''ACCEPT''"
  shows "walks hit tbl p (jump c m # rs) v
     \<longleftrightarrow> (if hit m p then v = Some (hit (rule_match jump') p) else walks hit tbl p rs v)"
proof -
  have j: "rule_match (jump c m) = m" "rule_target (jump c m) = W c"
    by (simp_all add: rule_match_def rule_target_def jump_def butlast_append)
  have d: "rule_match drop_all = []" "rule_target drop_all = W ''DROP''"
    by (simp_all add: rule_match_def rule_target_def drop_all_def)
  have body: "walks hit tbl p [jump', drop_all] w \<longleftrightarrow> w = Some (hit (rule_match jump') p)" for w
    using assms(1,4) by (auto simp: walks_Cons [where rs = "[drop_all]"] walks_Cons [where rs = "[]"] walks_Nil d hit_doc_def
        verdicts_def)
  show ?thesis
    using assms(2,3) unfolding walks_Cons [of hit tbl p "jump c m"] j by (auto simp: body verdicts_def)
qed

text \<open>The rules that lead a packet away, and what is left of it.\<close>

datatype route = Via string | Dropped | Unroutable

fun routed :: "(arg list \<Rightarrow> fpacket \<Rightarrow> bool) \<Rightarrow> (arg \<Rightarrow> fpacket \<Rightarrow> string option) \<Rightarrow> (int \<times> arg list) list \<Rightarrow> fpacket \<Rightarrow> route" where
  "routed hit lk [] p = Unroutable"
| "routed hit lk (r # rs) p =
     (let spec = snd r
      in if last (butlast spec) = W ''lookup'' then
           (if \<not> hit (rule_match spec) p then routed hit lk rs p
            else case lk (last spec) p of Some dev \<Rightarrow> Via dev | None \<Rightarrow> routed hit lk rs p)
         else if last spec \<in> {W ''blackhole'', W ''unreachable'', W ''prohibit''} \<and> hit (butlast spec) p then Dropped
         else routed hit lk rs p)"

definition rule_doc :: "(arg list \<Rightarrow> fpacket \<Rightarrow> bool) \<Rightarrow> bool" where
  "rule_doc hit \<longleftrightarrow> (\<forall>a p. hit [W ''from'', A a] p \<longleftrightarrow> fp_src p = a) \<and> (\<forall>n p. hit [W ''from'', N n] p \<longleftrightarrow> in_net (fp_src p) n)
     \<and> (\<forall>n p. hit [W ''to'', N n] p \<longleftrightarrow> in_net (fp_dst p) n)"

text \<open>A rule that leaves the packet to the rules behind it.\<close>

definition passes :: "(arg list \<Rightarrow> fpacket \<Rightarrow> bool) \<Rightarrow> (arg \<Rightarrow> fpacket \<Rightarrow> string option) \<Rightarrow> fpacket \<Rightarrow> int \<times> arg list \<Rightarrow> bool" where
  "passes hit lk p r \<longleftrightarrow> routed hit lk [r] p = Unroutable"

lemma routed_pass: "passes hit lk p r \<Longrightarrow> routed hit lk (r # rs) p = routed hit lk rs p"
  by (auto simp: passes_def Let_def split: if_splits option.splits)

lemma routed_stop: "\<not> passes hit lk p r \<Longrightarrow> routed hit lk (r # rs) p = routed hit lk [r] p"
  by (auto simp: passes_def Let_def split: if_splits option.splits)

declare routed.simps(2) [simp del]

lemma routed_reaches:
  assumes "sorted (map fst rs)" "(k, a) \<in> set rs" "\<not> passes hit lk p (k, a)"
    and "\<forall>r \<in> set rs. fst r \<le> k \<longrightarrow> r = (k, a) \<or> passes hit lk p r"
  shows "routed hit lk rs p = routed hit lk [(k, a)] p"
  using assms
proof (induction rs)
  case (Cons r rs)
  have "fst r \<le> k" using Cons.prems(1,2) by auto
  then consider "r = (k, a)" | "passes hit lk p r" "r \<noteq> (k, a)" using Cons.prems(4) by auto
  then show ?case
  proof cases
    case 1
    then show ?thesis using routed_stop Cons.prems(3) by blast
  next
    case 2
    then have "routed hit lk rs p = routed hit lk [(k, a)] p" using Cons.prems by (intro Cons.IH) auto
    then show ?thesis using routed_pass [OF 2(1)] by simp
  qed
qed simp

lemma set_insert_rule: "set (insert_rule k a rs) = insert (k, a) (set rs)"
  using set_append [of "takeWhile (\<lambda>r. fst r \<le> k) rs" "dropWhile (\<lambda>r. fst r \<le> k) rs"]
  by (auto simp: insert_rule_def)

lemma sorted_insert_rule: "sorted (map fst rs) \<Longrightarrow> sorted (map fst (insert_rule k a rs))"
proof (induction rs)
  case (Cons r rs)
  have "insert_rule k a (r # rs) = (if fst r \<le> k then r # insert_rule k a rs else (k, a) # r # rs)"
    by (simp add: insert_rule_def)
  with Cons show ?case by (auto simp: set_insert_rule)
qed (simp add: insert_rule_def)

lemma set_remove_rule: "set (remove_rule a rs) \<subseteq> set rs" "x \<in> set rs \<Longrightarrow> snd x \<noteq> a \<Longrightarrow> x \<in> set (remove_rule a rs)"
  by (induction rs) auto

lemma sorted_remove_rule: "sorted (map fst rs) \<Longrightarrow> sorted (map fst (remove_rule a rs))"
  using set_remove_rule(1) by (induction rs) fastforce+

lemma outcomes_refresh:
  assumes "t \<in> outcomes [best_effort (ip_rule ''del'' spec), step_of (ip_rule ''add'' (spec @ [W ''priority'', D k]))] s"
  shows "set (ns_rules t) \<subseteq> insert (k, spec) (set (ns_rules s))" "(k, spec) \<in> set (ns_rules t)"
    "r \<in> set (ns_rules s) \<Longrightarrow> snd r \<noteq> spec \<Longrightarrow> r \<in> set (ns_rules t)"
    "sorted (map fst (ns_rules s)) \<Longrightarrow> sorted (map fst (ns_rules t))"
proof -
  have e: "butlast (butlast (spec @ [W ''priority'', D k])) = spec" by (simp add: butlast_append)
  have "ns_rules t = insert_rule k spec (ns_rules s) \<or> ns_rules t = insert_rule k spec (remove_rule spec (ns_rules s))"
    using assms e by (auto simp: step_results_def best_effort_def step_of_def results_ip_rule rule_effect_def split: if_splits)
  then show "set (ns_rules t) \<subseteq> insert (k, spec) (set (ns_rules s))" "(k, spec) \<in> set (ns_rules t)"
    "r \<in> set (ns_rules s) \<Longrightarrow> snd r \<noteq> spec \<Longrightarrow> r \<in> set (ns_rules t)"
    "sorted (map fst (ns_rules s)) \<Longrightarrow> sorted (map fst (ns_rules t))"
    using set_remove_rule(1) [of spec "ns_rules s"] set_remove_rule(2) [of r "ns_rules s" spec]
    by (auto simp: set_insert_rule sorted_insert_rule sorted_remove_rule)
qed

definition tier_rules :: "ipnet \<Rightarrow> arg list \<Rightarrow> string \<Rightarrow> (int \<times> arg list) set" where
  "tier_rules o' sel table = {(99, [W ''to'', N o', W ''lookup'', W ''main'']), (100, sel @ [W ''lookup'', W table]),
     (101, sel @ [W ''blackhole''])}"

lemma outcomes_rules:
  assumes "t \<in> outcomes (overlay_main_steps o' @ rule_steps sel table) s" "sorted (map fst (ns_rules s))"
    and "[W ''to'', N o', W ''lookup'', W ''main''] \<noteq> sel @ [W ''lookup'', W table]"
  shows "sorted (map fst (ns_rules t))" "tier_rules o' sel table - {(99, [W ''to'', N o', W ''lookup'', W ''main''])} \<subseteq> set (ns_rules t)"
    "set (ns_rules t) \<subseteq> set (ns_rules s) \<union> tier_rules o' sel table"
proof -
  let ?m = "[W ''to'', N o', W ''lookup'', W ''main'']"
  have "t \<in> (\<Union>t1 \<in> outcomes [best_effort (ip_rule ''del'' ?m), step_of (ip_rule ''add'' (?m @ [W ''priority'', D 99]))] s.
     \<Union>t2 \<in> outcomes [best_effort (ip_rule ''del'' (sel @ [W ''lookup'', W table])),
         step_of (ip_rule ''add'' ((sel @ [W ''lookup'', W table]) @ [W ''priority'', D 100]))] t1.
       outcomes [best_effort (ip_rule ''del'' (sel @ [W ''blackhole''])),
         step_of (ip_rule ''add'' ((sel @ [W ''blackhole'']) @ [W ''priority'', D 101]))] t2)"
    using assms(1) by (simp add: overlay_main_steps_def rule_steps_def PRIO_OVERLAY_MAIN_def PRIO_LOOKUP_def PRIO_BLACKHOLE_def)
  then obtain t1 t2 where t: "t1 \<in> outcomes [best_effort (ip_rule ''del'' ?m), step_of (ip_rule ''add'' (?m @ [W ''priority'', D 99]))] s"
      "t2 \<in> outcomes [best_effort (ip_rule ''del'' (sel @ [W ''lookup'', W table])),
         step_of (ip_rule ''add'' ((sel @ [W ''lookup'', W table]) @ [W ''priority'', D 100]))] t1"
      "t \<in> outcomes [best_effort (ip_rule ''del'' (sel @ [W ''blackhole''])),
         step_of (ip_rule ''add'' ((sel @ [W ''blackhole'']) @ [W ''priority'', D 101]))] t2"
    by (elim UN_E)
  show "sorted (map fst (ns_rules t))"
    by (intro outcomes_refresh(4) [OF t(3)] outcomes_refresh(4) [OF t(2)] outcomes_refresh(4) [OF t(1)] assms(2))
  have "(100, sel @ [W ''lookup'', W table]) \<in> set (ns_rules t)"
    by (rule outcomes_refresh(3) [OF t(3) outcomes_refresh(2) [OF t(2)]]) simp
  then show "tier_rules o' sel table - {(99, ?m)} \<subseteq> set (ns_rules t)"
    using outcomes_refresh(2) [OF t(3)] by (auto simp: tier_rules_def)
  show "set (ns_rules t) \<subseteq> set (ns_rules s) \<union> tier_rules o' sel table"
    using outcomes_refresh(1) [OF t(1)] outcomes_refresh(1) [OF t(2)] outcomes_refresh(1) [OF t(3)]
    by (auto simp: tier_rules_def)
qed

lemma iface_of_Inr: "iface_of s = Inr i \<Longrightarrow> i = py_strip s"
  by (simp add: iface_of_def split: if_splits)

lemma exit_host_gates:
  assumes "exit_host_steps cfg eif = Inr steps"
  obtains e w route where "iface_of eif = Inr e" "iface_of (eg_wg_iface cfg) = Inr w" "\<And>s. effect route s = Some s"
    and "steps = gate_steps route (overlay_main_steps (eg_overlay cfg) @ rule_steps [W ''from'', N (eg_overlay cfg)] (eg_rt_table cfg))
       CHAIN_EXIT [W ''-s'', N (eg_overlay cfg)] (accept_out e)
       [W ''-s'', N (eg_overlay cfg), W ''-o'', W e, W ''-j'', W ''MASQUERADE''] CHAIN_EXIT_RET [W ''-d'', N (eg_overlay cfg)] (accept_established w)"
proof -
  obtain e w where i: "iface_of eif = Inr e" "iface_of (eg_wg_iface cfg) = Inr w"
    using assms by (auto simp: exit_host_steps_def return_chain_steps_def split: sum.splits)
  show ?thesis
    by (rule that [OF i, of "[W ''ip'', W ''route'', W ''replace'', W ''default'', W ''via'', A (eg_vpn_gateway cfg), W ''dev'', W e,
                         W ''table'', W (eg_rt_table cfg)]"])
      (use assms i in \<open>auto simp: exit_host_steps_def return_chain_steps_def gate_steps_def effect_def\<close>)
qed

lemma forwarder_gates:
  assumes "forwarder_source_route_steps cfg bridge = Inr steps"
  obtains b w route where "iface_of bridge = Inr b" "iface_of (eg_wg_iface cfg) = Inr w" "\<And>s. effect route s = Some s"
    and "steps = gate_steps route (overlay_main_steps (eg_overlay cfg) @ rule_steps [W ''from'', A (eg_uplink cfg)] (eg_rt_table cfg))
       CHAIN_FWD [W ''-s'', A (eg_uplink cfg)] (accept_out w) [W ''-o'', W w, W ''-j'', W ''MASQUERADE'']
       CHAIN_FWD_RET [W ''-d'', N (host_net (eg_uplink cfg))] (accept_established b)"
proof -
  obtain b w where i: "iface_of bridge = Inr b" "iface_of (eg_wg_iface cfg) = Inr w"
    using assms by (auto simp: forwarder_source_route_steps_def return_chain_steps_def split: sum.splits)
  show ?thesis
    by (rule that [OF i, of "[W ''ip'', W ''route'', W ''replace'', W ''default'', W ''dev'', W w, W ''table'', W (eg_rt_table cfg)]"])
      (use assms i in \<open>auto simp: forwarder_source_route_steps_def return_chain_steps_def gate_steps_def effect_def\<close>)
qed

lemma ip_rule_steps:
  "\<forall>st \<in> set (overlay_main_steps o' @ rule_steps sel table). st_guard st = None \<and> (\<exists>v args. st_argv st = ip_rule v args)"
  by (auto simp: overlay_main_steps_def rule_steps_def best_effort_def step_of_def)

lemma two_gates:
  assumes "hit_doc hit" "tbl c1 = Some [accept_out e, drop_all]" "tbl c2 = Some [accept_established w, drop_all]"
    and "c1 \<notin> verdicts" "c2 \<notin> verdicts" "CHR ''+'' \<notin> set e" "CHR ''+'' \<notin> set w" "hit m1 p"
  shows "walks hit tbl p (jump c2 m2 # jump c1 m1 # rs) v
     \<longleftrightarrow> v = Some (if hit m2 p then fp_out p = w \<and> fp_est p else fp_out p = e)"
proof -
  have a: "rule_match (accept_out e) = [W ''-o'', W e]" "rule_target (accept_out e) = W ''ACCEPT''"
    "rule_match (accept_established w) = [W ''-o'', W w, W ''-m'', W ''conntrack'', W ''--ctstate'', W ''ESTABLISHED,RELATED'']"
    "rule_target (accept_established w) = W ''ACCEPT''"
    by (simp_all add: accept_out_def accept_established_def rule_match_def rule_target_def)
  have h: "hit [W ''-o'', W e] p \<longleftrightarrow> fp_out p = e"
    "hit [W ''-o'', W w, W ''-m'', W ''conntrack'', W ''--ctstate'', W ''ESTABLISHED,RELATED''] p \<longleftrightarrow> fp_out p = w \<and> fp_est p"
    using assms(1,6,7) by (simp_all add: hit_doc_def)
  show ?thesis
    using walk_gate [of hit tbl c2 "accept_established w" p m2 "jump c1 m1 # rs" v] walk_gate [of hit tbl c1 "accept_out e" p m1 rs v]
      assms a h by simp
qed

section \<open>Properties of an applied tier\<close>

text \<open>
  C21: an applied exit host holds its peers in.  Whatever was in the tables before, and whatever the
  commands that may fail did, after a run of the steps that raised nothing every packet from the overlay
  that is forwarded is decided by the two chains of the tier: traffic between peers passes only as an
  established flow back into the tunnel, and everything else only by the exit interface.
\<close>

theorem exit_host_contains:
  assumes "documented run view" "hit_doc hit" "exit_host_steps cfg eif = Inr steps"
    and "run_steps run False steps n = (Some out, n')" "in_net (fp_src p) (eg_overlay cfg)"
  shows "\<exists>fw. chain (view n') ''FORWARD'' = Some fw
     \<and> (\<forall>v. walks hit (chain (view n')) p fw v
          \<longleftrightarrow> v = Some (if in_net (fp_dst p) (eg_overlay cfg) then fp_out p = py_strip (eg_wg_iface cfg) \<and> fp_est p
                      else fp_out p = py_strip eif))"
proof -
  let ?m1 = "[W ''-s'', N (eg_overlay cfg)]" and ?m2 = "[W ''-d'', N (eg_overlay cfg)]" and ?net = "eg_overlay cfg"
  obtain e w route where i: "iface_of eif = Inr e" "iface_of (eg_wg_iface cfg) = Inr w" and route: "\<And>s. effect route s = Some s"
    and steps: "steps = gate_steps route (overlay_main_steps (eg_overlay cfg) @ rule_steps [W ''from'', N (eg_overlay cfg)] (eg_rt_table cfg))
       CHAIN_EXIT [W ''-s'', N (eg_overlay cfg)] (accept_out e)
       [W ''-s'', N (eg_overlay cfg), W ''-o'', W e, W ''-j'', W ''MASQUERADE''] CHAIN_EXIT_RET [W ''-d'', N (eg_overlay cfg)] (accept_established w)"
    using exit_host_gates [OF assms(3)] by blast
  have o': "view n' \<in> outcomes steps (view n)" by (rule run_steps_outcomes [OF assms(1,4)])
  from outcomes_gates [OF o' [unfolded steps] route ip_rule_steps]
  have "chain (view n') CHAIN_EXIT = Some [accept_out e, drop_all]" "chain (view n') CHAIN_EXIT_RET = Some [accept_established w, drop_all]"
    "\<exists>fw. chain (view n') ''FORWARD'' = Some (jump CHAIN_EXIT_RET [W ''-d'', N (eg_overlay cfg)] # jump CHAIN_EXIT [W ''-s'', N (eg_overlay cfg)] # fw)"
    by (auto simp: CHAIN_EXIT_def CHAIN_EXIT_RET_def)
  moreover have "hit [W ''-s'', N (eg_overlay cfg)] p" "hit [W ''-d'', N (eg_overlay cfg)] p \<longleftrightarrow> in_net (fp_dst p) (eg_overlay cfg)"
    using assms(2,5) by (simp_all add: hit_doc_def)
  moreover have "CHAIN_EXIT \<notin> verdicts" "CHAIN_EXIT_RET \<notin> verdicts" by (simp_all add: CHAIN_EXIT_def CHAIN_EXIT_RET_def verdicts_def)
  ultimately obtain fw where fw: "chain (view n') ''FORWARD'' = Some (jump CHAIN_EXIT_RET ?m2 # jump CHAIN_EXIT ?m1 # fw)"
    and h: "chain (view n') CHAIN_EXIT = Some [accept_out e, drop_all]" "chain (view n') CHAIN_EXIT_RET = Some [accept_established w, drop_all]"
      "CHAIN_EXIT \<notin> verdicts" "CHAIN_EXIT_RET \<notin> verdicts" "hit ?m1 p" "hit ?m2 p \<longleftrightarrow> in_net (fp_dst p) ?net"
    by blast
  have "walks hit (chain (view n')) p (jump CHAIN_EXIT_RET ?m2 # jump CHAIN_EXIT ?m1 # fw) v
     \<longleftrightarrow> v = Some (if in_net (fp_dst p) ?net then fp_out p = w \<and> fp_est p else fp_out p = e)" for v
    by (simp only: two_gates [OF assms(2) h(1-4) iface_no_plus [OF i(1)] iface_no_plus [OF i(2)] h(5)] h(6))
  then show ?thesis
    using fw by (auto simp: iface_of_Inr [OF i(1), symmetric] iface_of_Inr [OF i(2), symmetric])
qed

text \<open>
  an applied worker node holds its forwarder in.  After a run that raised nothing, a forwarded packet
  from the forwarder's address leaves by the tunnel or is dropped, and one to that address passes only as
  an established flow onto the forwarder's bridge, whatever else the tables hold.
\<close>

theorem forwarder_contains:
  assumes "documented run view" "hit_doc hit" "forwarder_source_route_steps cfg bridge = Inr steps"
    and "run_steps run False steps n = (Some out, n')" "fp_src p = eg_uplink cfg"
  shows "\<exists>fw. chain (view n') ''FORWARD'' = Some fw
     \<and> (\<forall>v. walks hit (chain (view n')) p fw v
          \<longleftrightarrow> v = Some (if in_net (fp_dst p) (host_net (eg_uplink cfg)) then fp_out p = py_strip bridge \<and> fp_est p
                      else fp_out p = py_strip (eg_wg_iface cfg)))"
proof -
  let ?m1 = "[W ''-s'', A (eg_uplink cfg)]" and ?net = "host_net (eg_uplink cfg)"
  let ?m2 = "[W ''-d'', N ?net]"
  obtain b w route where i: "iface_of bridge = Inr b" "iface_of (eg_wg_iface cfg) = Inr w" and route: "\<And>s. effect route s = Some s"
    and steps: "steps = gate_steps route (overlay_main_steps (eg_overlay cfg) @ rule_steps [W ''from'', A (eg_uplink cfg)] (eg_rt_table cfg))
       CHAIN_FWD [W ''-s'', A (eg_uplink cfg)] (accept_out w) [W ''-o'', W w, W ''-j'', W ''MASQUERADE'']
       CHAIN_FWD_RET [W ''-d'', N (host_net (eg_uplink cfg))] (accept_established b)"
    using forwarder_gates [OF assms(3)] by blast
  have o': "view n' \<in> outcomes steps (view n)" by (rule run_steps_outcomes [OF assms(1,4)])
  from outcomes_gates [OF o' [unfolded steps] route ip_rule_steps]
  have "chain (view n') CHAIN_FWD = Some [accept_out w, drop_all]" "chain (view n') CHAIN_FWD_RET = Some [accept_established b, drop_all]"
    "\<exists>fw. chain (view n') ''FORWARD'' = Some (jump CHAIN_FWD_RET [W ''-d'', N (host_net (eg_uplink cfg))]
       # jump CHAIN_FWD [W ''-s'', A (eg_uplink cfg)] # fw)"
    by (auto simp: CHAIN_FWD_def CHAIN_FWD_RET_def)
  moreover have "hit [W ''-s'', A (eg_uplink cfg)] p"
    "hit [W ''-d'', N (host_net (eg_uplink cfg))] p \<longleftrightarrow> in_net (fp_dst p) (host_net (eg_uplink cfg))"
    using assms(2,5) by (simp_all add: hit_doc_def)
  moreover have "CHAIN_FWD \<notin> verdicts" "CHAIN_FWD_RET \<notin> verdicts" by (simp_all add: CHAIN_FWD_def CHAIN_FWD_RET_def verdicts_def)
  ultimately obtain fw where fw: "chain (view n') ''FORWARD'' = Some (jump CHAIN_FWD_RET ?m2 # jump CHAIN_FWD ?m1 # fw)"
    and h: "chain (view n') CHAIN_FWD = Some [accept_out w, drop_all]" "chain (view n') CHAIN_FWD_RET = Some [accept_established b, drop_all]"
      "CHAIN_FWD \<notin> verdicts" "CHAIN_FWD_RET \<notin> verdicts" "hit ?m1 p" "hit ?m2 p \<longleftrightarrow> in_net (fp_dst p) ?net"
    by blast
  have "walks hit (chain (view n')) p (jump CHAIN_FWD_RET ?m2 # jump CHAIN_FWD ?m1 # fw) v
     \<longleftrightarrow> v = Some (if in_net (fp_dst p) ?net then fp_out p = b \<and> fp_est p else fp_out p = w)" for v
    by (simp only: two_gates [OF assms(2) h(1-4) iface_no_plus [OF i(2)] iface_no_plus [OF i(1)] h(5)] h(6))
  then show ?thesis
    using fw by (auto simp: iface_of_Inr [OF i(1), symmetric] iface_of_Inr [OF i(2), symmetric])
qed

text \<open>
  C22: without a tunnel there is no way out.  After a run on a worker node that raised nothing, a packet of
  the forwarder to outside of the overlay goes where the tier's own table sends it, and is dropped when
  that table has no route: it never reaches the main table, whatever the other tables hold, provided no rule of
  somebody else of priority up to that of the tier's last rule takes it.  Packets to the overlay itself go
  by the main table at priority 99, by design, and are not meant here.
\<close>

theorem tunnel_or_nothing:
  assumes "documented run view" "rule_doc hit" "forwarder_source_route_steps cfg bridge = Inr steps"
    and "run_steps run False steps n = (Some out, n')" "fp_src p = eg_uplink cfg" "\<not> in_net (fp_dst p) (eg_overlay cfg)"
    and "sorted (map fst (ns_rules (view n)))"
    and "\<forall>r \<in> set (ns_rules (view n)). fst r \<le> 101 \<longrightarrow> r \<in> tier_rules (eg_overlay cfg) [W ''from'', A (eg_uplink cfg)] (eg_rt_table cfg)
           \<or> passes hit lk p r"
  shows "routed hit lk (ns_rules (view n')) p
     = (case lk (W (eg_rt_table cfg)) p of Some dev \<Rightarrow> Via dev | None \<Rightarrow> Dropped)"
proof -
  let ?sel = "[W ''from'', A (eg_uplink cfg)]" and ?t = "eg_rt_table cfg"
  let ?lookup = "?sel @ [W ''lookup'', W ?t]" and ?hole = "?sel @ [W ''blackhole'']"
  obtain b w route where "iface_of bridge = Inr b" "iface_of (eg_wg_iface cfg) = Inr w" and route: "\<And>s. effect route s = Some s"
    and steps: "steps = gate_steps route (overlay_main_steps (eg_overlay cfg) @ rule_steps ?sel ?t)
       CHAIN_FWD [W ''-s'', A (eg_uplink cfg)] (accept_out w) [W ''-o'', W w, W ''-j'', W ''MASQUERADE'']
       CHAIN_FWD_RET [W ''-d'', N (host_net (eg_uplink cfg))] (accept_established b)"
    using forwarder_gates [OF assms(3)] by blast
  have o': "view n' \<in> outcomes steps (view n)" by (rule run_steps_outcomes [OF assms(1,4)])
  from outcomes_gates [OF o' [unfolded steps] route ip_rule_steps]
  obtain t where t: "t \<in> outcomes (overlay_main_steps (eg_overlay cfg) @ rule_steps ?sel ?t) (view n)" "ns_rules (view n') = ns_rules t"
    by (auto simp: CHAIN_FWD_def CHAIN_FWD_RET_def)
  have "[W ''to'', N (eg_overlay cfg), W ''lookup'', W ''main''] \<noteq> ?lookup" by simp
  note r = outcomes_rules [OF t(1) assms(7) this, folded t(2)]
  have main: "passes hit lk p (99, [W ''to'', N (eg_overlay cfg), W ''lookup'', W ''main''])"
    using assms(2,6) by (simp add: passes_def routed.simps(2) rule_match_def rule_doc_def)
  have looked: "routed hit lk [(100, ?lookup)] p = (case lk (W ?t) p of Some dev \<Rightarrow> Via dev | None \<Rightarrow> Unroutable)"
    and holed: "routed hit lk [(101, ?hole)] p = Dropped"
    using assms(2,5) by (simp_all add: routed.simps(2) rule_match_def rule_doc_def split: option.split)
  have mem: "(100, ?lookup) \<in> set (ns_rules (view n'))" "(101, ?hole) \<in> set (ns_rules (view n'))"
    using r(2) by (auto simp: tier_rules_def)
  have others: "\<forall>r \<in> set (ns_rules (view n')). fst r \<le> 101 \<longrightarrow> r = (100, ?lookup) \<or> r = (101, ?hole) \<or> passes hit lk p r"
    using r(3) assms(8) main by (auto simp: tier_rules_def)
  show ?thesis
  proof (cases "lk (W ?t) p")
    case None
    then have "passes hit lk p (100, ?lookup)" using looked by (simp add: passes_def)
    with others have "\<forall>r \<in> set (ns_rules (view n')). fst r \<le> 101 \<longrightarrow> r = (101, ?hole) \<or> passes hit lk p r" by blast
    moreover have "\<not> passes hit lk p (101, ?hole)" unfolding passes_def holed by simp
    ultimately have "routed hit lk (ns_rules (view n')) p = routed hit lk [(101, ?hole)] p"
      by (intro routed_reaches [OF r(1) mem(2)])
    with holed None show ?thesis by simp
  next
    case (Some dev)
    have "\<forall>r \<in> set (ns_rules (view n')). fst r \<le> 100 \<longrightarrow> r = (100, ?lookup) \<or> passes hit lk p r" using others by fastforce
    moreover have "\<not> passes hit lk p (100, ?lookup)" unfolding passes_def looked using Some by simp
    ultimately have "routed hit lk (ns_rules (view n')) p = routed hit lk [(100, ?lookup)] p"
      by (intro routed_reaches [OF r(1) mem(1)])
    with looked Some show ?thesis by simp
  qed
qed

section \<open>A demonstration host\<close>

definition demo_run :: "arg list \<Rightarrow> netstate \<Rightarrow> bool \<times> netstate" where
  "demo_run argv s = (case effect argv s of None \<Rightarrow> (False, s) | Some s' \<Rightarrow> (True, s'))"

lemma demo_run_documented: "documented demo_run id"
  by (auto simp: documented_def demo_run_def split: option.splits)

text \<open>A host that accepts everything it forwards.\<close>

definition demo_host :: netstate where
  "demo_host = \<lparr>ns_filter = [(''FORWARD'', [[W ''-j'', W ''ACCEPT'']])], ns_nat = [],
     ns_rules = [(0, [W ''from'', W ''all'', W ''lookup'', W ''local'']), (32766, [W ''from'', W ''all'', W ''lookup'', W ''main''])]\<rparr>"

definition demo_hit :: "arg list \<Rightarrow> fpacket \<Rightarrow> bool" where
  "demo_hit m p =
     (case m of
        [] \<Rightarrow> True
      | [W f, A a] \<Rightarrow> f \<in> {''-s'', ''from''} \<and> fp_src p = a
      | [W f, N n] \<Rightarrow> (f \<in> {''-s'', ''from''} \<and> in_net (fp_src p) n) \<or> (f \<in> {''-d'', ''to''} \<and> in_net (fp_dst p) n)
      | [W f, W i] \<Rightarrow> (f = ''-o'' \<and> fp_out p = i) \<or> (f = ''from'' \<and> i = ''all'')
      | W f # W i # rest \<Rightarrow> f = ''-o'' \<and> rest = [W ''-m'', W ''conntrack'', W ''--ctstate'', W ''ESTABLISHED,RELATED''] \<and> fp_out p = i \<and> fp_est p
      | _ \<Rightarrow> False)"

lemma demo_hit_documented: "hit_doc demo_hit" and demo_rule_doc: "rule_doc demo_hit"
  by (auto simp: hit_doc_def rule_doc_def demo_hit_def)

definition stray :: fpacket where
  "stray = \<lparr>fp_src = V4 (octets 10 77 0 5), fp_dst = V4 (octets 8 8 8 8), fp_out = ''eth0'', fp_est = False\<rparr>"

definition from_forwarder :: fpacket where
  "from_forwarder = stray\<lparr>fp_src := V4 (octets 172 29 0 10)\<rparr>"

lemma demo_exit_runs:
  "case exit_host_steps default_cfg ''eth1'' of Inl e \<Rightarrow> False
   | Inr steps \<Rightarrow> fst (run_steps demo_run False steps demo_host) \<noteq> None"
  by code_simp

lemma demo_forwarder_runs:
  "case forwarder_source_route_steps default_cfg ''br-net0'' of Inl e \<Rightarrow> False
   | Inr steps \<Rightarrow> fst (run_steps demo_run False steps demo_host) \<noteq> None"
  by code_simp

theorem exit_host_contains_witness:
  "\<exists>steps out n' fw. exit_host_steps default_cfg ''eth1'' = Inr steps \<and> run_steps demo_run False steps demo_host = (Some out, n')
     \<and> chain n' ''FORWARD'' = Some fw \<and> walks demo_hit (chain n') stray fw (Some False)"
proof -
  obtain steps out n' where r: "exit_host_steps default_cfg ''eth1'' = Inr steps" "run_steps demo_run False steps demo_host = (Some out, n')"
    using demo_exit_runs by (auto split: sum.splits) (metis prod.collapse)
  have "in_net (fp_src stray) (eg_overlay default_cfg)" "\<not> in_net (fp_dst stray) (eg_overlay default_cfg)" "py_strip ''eth1'' \<noteq> fp_out stray"
    by code_simp+
  with exit_host_contains [OF demo_run_documented demo_hit_documented r, of stray] r show ?thesis by auto
qed

theorem forwarder_contains_witness:
  "\<exists>steps out n' fw. forwarder_source_route_steps default_cfg ''br-net0'' = Inr steps \<and> run_steps demo_run False steps demo_host = (Some out, n')
     \<and> chain n' ''FORWARD'' = Some fw \<and> walks demo_hit (chain n') from_forwarder fw (Some False)"
proof -
  obtain steps out n' where r: "forwarder_source_route_steps default_cfg ''br-net0'' = Inr steps" "run_steps demo_run False steps demo_host = (Some out, n')"
    using demo_forwarder_runs by (auto split: sum.splits) (metis prod.collapse)
  have "fp_src from_forwarder = eg_uplink default_cfg" "\<not> in_net (fp_dst from_forwarder) (host_net (eg_uplink default_cfg))"
    "py_strip (eg_wg_iface default_cfg) \<noteq> fp_out from_forwarder"
    by code_simp+
  with forwarder_contains [OF demo_run_documented demo_hit_documented r, of from_forwarder] r show ?thesis by auto
qed

theorem tunnel_or_nothing_witness:
  "\<exists>steps out n'. forwarder_source_route_steps default_cfg ''br-net0'' = Inr steps \<and> run_steps demo_run False steps demo_host = (Some out, n')
     \<and> routed demo_hit (\<lambda>t p. if t = W ''main'' then Some ''eth0'' else None) (ns_rules n') from_forwarder = Dropped"
proof -
  let ?lk = "\<lambda>t p. if t = W ''main'' then Some ''eth0'' else None"
  obtain steps out n' where r: "forwarder_source_route_steps default_cfg ''br-net0'' = Inr steps" "run_steps demo_run False steps demo_host = (Some out, n')"
    using demo_forwarder_runs by (auto split: sum.splits) (metis prod.collapse)
  have p: "fp_src from_forwarder = eg_uplink default_cfg" "\<not> in_net (fp_dst from_forwarder) (eg_overlay default_cfg)"
    by code_simp+
  have s: "sorted (map fst (ns_rules (id demo_host)))" by (simp add: demo_host_def)
  have f: "\<forall>r \<in> set (ns_rules (id demo_host)). fst r \<le> 101 \<longrightarrow>
      r \<in> tier_rules (eg_overlay default_cfg) [W ''from'', A (eg_uplink default_cfg)] (eg_rt_table default_cfg) \<or> passes demo_hit ?lk from_forwarder r"
    by (simp add: demo_host_def passes_def routed.simps(2) rule_match_def)
  from tunnel_or_nothing [OF demo_run_documented demo_rule_doc r p s f] r show ?thesis
    by (simp add: default_cfg_def)
qed

section \<open>A gap: a refresh that fails half way\<close>

text \<open>The comment on the chains says that a chain is never jumped to and empty for longer than the
  refill takes.  A refill that fails, for example for want of the lock, ends the run there: a host that
  was contained forwards everything until somebody applies again.\<close>

definition locked_run :: "arg list \<Rightarrow> netstate \<Rightarrow> bool \<times> netstate" where
  "locked_run argv s = (if argv = iptables ([W ''-A'', W CHAIN_EXIT] @ accept_out ''eth1'') then (False, s) else demo_run argv s)"

lemma locked_run_documented: "documented locked_run id"
  by (auto simp: documented_def locked_run_def demo_run_def split: option.splits)

definition refreshed :: "netstate option" where
  "refreshed = (case exit_host_steps default_cfg ''eth1'' of Inl e \<Rightarrow> None
     | Inr steps \<Rightarrow> (case run_steps demo_run False steps demo_host of
          (None, s1) \<Rightarrow> None
        | (Some out, s1) \<Rightarrow> (case run_steps locked_run False steps s1 of (None, s2) \<Rightarrow> Some s2 | (Some out', s2) \<Rightarrow> None)))"

lemma refreshed_chains:
  "map_option (\<lambda>s. (chain s ''FORWARD'', chain s CHAIN_EXIT)) refreshed
   = Some (Some [[W ''-s'', N (eg_overlay default_cfg), W ''-j'', W CHAIN_EXIT], [W ''-d'', N (eg_overlay default_cfg), W ''-j'', W CHAIN_EXIT_RET],
                 [W ''-j'', W ''ACCEPT'']], Some [])"
  by code_simp

lemma failed_refresh_opens:
  "\<exists>s fw. refreshed = Some s \<and> chain s ''FORWARD'' = Some fw \<and> walks demo_hit (chain s) stray fw (Some True)"
proof -
  obtain s where s: "refreshed = Some s" "chain s CHAIN_EXIT = Some []"
    "chain s ''FORWARD'' = Some [[W ''-s'', N (eg_overlay default_cfg), W ''-j'', W CHAIN_EXIT],
       [W ''-d'', N (eg_overlay default_cfg), W ''-j'', W CHAIN_EXIT_RET], [W ''-j'', W ''ACCEPT'']]"
    using refreshed_chains by auto
  have src: "demo_hit [W ''-s'', N (eg_overlay default_cfg)] stray" and dst: "\<not> demo_hit [W ''-d'', N (eg_overlay default_cfg)] stray"
    by code_simp+
  have "walks demo_hit (chain s) stray [[W ''-j'', W ''ACCEPT'']] (Some True)"
    by (rule w_accept) (simp_all add: rule_match_def rule_target_def demo_hit_def)
  then have "walks demo_hit (chain s) stray [[W ''-d'', N (eg_overlay default_cfg), W ''-j'', W CHAIN_EXIT_RET], [W ''-j'', W ''ACCEPT'']] (Some True)"
    by (rule w_skip [rotated]) (simp add: rule_match_def dst)
  then have "walks demo_hit (chain s) stray [[W ''-s'', N (eg_overlay default_cfg), W ''-j'', W CHAIN_EXIT],
      [W ''-d'', N (eg_overlay default_cfg), W ''-j'', W CHAIN_EXIT_RET], [W ''-j'', W ''ACCEPT'']] (Some True)"
    by (rule w_back [of demo_hit _ stray CHAIN_EXIT "chain s" "[]", rotated 5])
      (simp_all add: rule_match_def rule_target_def src s(2) w_end verdicts_def, simp add: CHAIN_EXIT_def)
  with s show ?thesis by blast
qed

end
