(* ===== verification/Egress_Teardown.thy ===== *)
theory Egress_Teardown
  imports Egress_Steps
begin

text \<open>
  Applying and tearing down the egress tier of \<^verbatim>\<open>host/egress.py\<close> with commands that fail only when
  they must: what a run does to the tables, step by step, and that the teardown of an exit host undoes
  its application.
\<close>

section \<open>Applying and tearing down\<close>

text \<open>Commands that fail only when they must.\<close>

definition prompt :: "(arg list \<Rightarrow> 'n \<Rightarrow> bool \<times> 'n) \<Rightarrow> ('n \<Rightarrow> netstate) \<Rightarrow> bool" where
  "prompt run view \<longleftrightarrow> documented run view \<and> (\<forall>argv n. effect argv (view n) \<noteq> None \<longrightarrow> fst (run argv n))"

definition attempt :: "arg list \<Rightarrow> netstate \<Rightarrow> netstate" where
  "attempt argv s = (case effect argv s of Some s' \<Rightarrow> s' | None \<Rightarrow> s)"

definition unguarded :: "host_step \<Rightarrow> bool" where
  "unguarded st \<longleftrightarrow> st_guard st = None \<or> st_guard st = Some []"

text \<open>What a run of such commands does, when it raises nothing.\<close>

definition run_one :: "host_step \<Rightarrow> netstate \<Rightarrow> netstate" where
  "run_one st s = (if \<not> unguarded st \<and> effect (the (st_guard st)) s \<noteq> None then attempt (the (st_guard st)) s
                   else attempt (st_argv st) s)"

definition runs :: "host_step \<Rightarrow> netstate \<Rightarrow> bool" where
  "runs st s \<longleftrightarrow> st_ignore_fail st \<or> effect (st_argv st) s \<noteq> None \<or> (\<not> unguarded st \<and> effect (the (st_guard st)) s \<noteq> None)"

fun all_run :: "host_step list \<Rightarrow> netstate \<Rightarrow> bool" where
  "all_run [] s = True"
| "all_run (st # sts) s = (runs st s \<and> all_run sts (run_one st s))"

lemma prompt_run:
  assumes "prompt run view"
  shows "fst (run argv n) = (effect argv (view n) \<noteq> None)" "view (snd (run argv n)) = attempt argv (view n)"
  using assms by (force simp: prompt_def documented_def attempt_def split: option.splits if_splits)+

lemma prompt_steps:
  assumes "prompt run view" "all_run sts (view n)"
  shows "\<exists>out n'. run_steps run False sts n = (Some out, n') \<and> view n' = fold run_one sts (view n)"
  using assms(2)
proof (induction sts arbitrary: n)
  case (Cons st sts)
  note pr = prompt_run [OF assms(1)]
  define g where "g = (case st_guard st of None \<Rightarrow> (False, n) | Some g \<Rightarrow> if g = [] then (False, n) else run g n)"
  have g: "fst g \<longleftrightarrow> \<not> unguarded st \<and> effect (the (st_guard st)) (view n) \<noteq> None"
    "view (snd g) = (if fst g then run_one st (view n) else view n)"
    using pr [of "the (st_guard st)" n] by (auto simp: g_def unguarded_def run_one_def attempt_def split: option.splits)
  show ?case
  proof (cases "fst g")
    case True
    then have "all_run sts (view (snd g))" using Cons.prems g by simp
    from Cons.IH [OF this] True g(2) show ?thesis
      by (auto simp: g_def [symmetric] split: prod.splits)
  next
    case False
    let ?r = "run (st_argv st) (snd g)"
    have r: "view (snd ?r) = run_one st (view n)" "fst ?r \<or> st_ignore_fail st"
      using pr [of "st_argv st" "snd g"] False g Cons.prems by (auto simp: run_one_def runs_def)
    then have "all_run sts (view (snd ?r))" using Cons.prems by simp
    from Cons.IH [OF this] False r show ?thesis
      by (auto simp: g_def [symmetric] split: prod.splits)
  qed
qed simp

lemma all_run_append: "all_run (xs @ ys) s \<longleftrightarrow> all_run xs s \<and> all_run ys (fold run_one xs s)"
  by (induction xs arbitrary: s) auto

lemma all_run_best: "\<forall>st \<in> set sts. st_ignore_fail st \<Longrightarrow> all_run sts s"
  by (induction sts arbitrary: s) (auto simp: runs_def)

lemma run_one_simps [simp]:
  "run_one (best_effort argv) s = attempt argv s" "run_one (step_of argv) s = attempt argv s"
  "runs (best_effort argv) s" "runs (step_of argv) s \<longleftrightarrow> effect argv s \<noteq> None"
  by (simp_all add: run_one_def runs_def best_effort_def step_of_def unguarded_def)

lemma effect_simps:
  "v \<noteq> ''-t'' \<Longrightarrow> effect (iptables (W v # W c # spec)) s = filter_effect v c spec s"
  "effect (nat_rule v spec) s = nat_effect v spec s" "effect (ip_rule v args) s = rule_effect v args s"
  by (simp_all add: effect_def iptables_def nat_rule_def ip_rule_def)

text \<open>States that agree as far as anybody can look.\<close>

definition alike :: "netstate \<Rightarrow> netstate \<Rightarrow> bool" where
  "alike s t \<longleftrightarrow> chain s = chain t \<and> ns_nat s = ns_nat t \<and> ns_rules s = ns_rules t"

lemma attempt_del:
  assumes "chain s ''FORWARD'' = Some fw" "J \<notin> set fw"
  shows "attempt (iptables ([W ''-D'', W ''FORWARD''] @ J)) s = s"
  using assms by (simp add: attempt_def effect_simps filter_effect_def)

lemma fold_idle: "run_one st s = s \<Longrightarrow> fold run_one (replicate k st) s = s"
  by (induction k) auto

lemma fold_dels:
  assumes "chain s ''FORWARD'' = Some fw" "J \<notin> set fw"
  shows "fold run_one (replicate k (best_effort (iptables ([W ''-D'', W ''FORWARD''] @ J)))) s = s"
  using attempt_del [OF assms] by (intro fold_idle) simp

lemma apply_chain:
  fixes c m r1 r2
  assumes "chain s c = None" "chain s ''FORWARD'' = Some fw" "jump c m \<notin> set fw"
  defines "sts \<equiv> chain_jump_steps c m @ [append_rule c r1, append_rule c r2]"
  shows "all_run sts s" "chain (fold run_one sts s) = (chain s)(c \<mapsto> [r1, r2], ''FORWARD'' \<mapsto> jump c m # fw)"
    "ns_nat (fold run_one sts s) = ns_nat s" "ns_rules (fold run_one sts s) = ns_rules s"
proof -
  let ?s1 = "set_chain c [] s" and ?D = "iptables ([W ''-D'', W ''FORWARD''] @ jump c m)"
  have ne: "c \<noteq> ''FORWARD''" using assms(1,2) by auto
  have n: "run_one (best_effort (iptables [W ''-N'', W c])) s = ?s1"
    using assms(1) by (simp add: attempt_def effect_simps filter_effect_def)
  have d: "fold run_one (replicate 4 (best_effort ?D)) ?s1 = ?s1"
    by (rule fold_dels [where fw = fw]) (use assms(2,3) ne in auto)
  have rest: "all_run [step_of (iptables ([W ''-I'', W ''FORWARD'', W ''1''] @ jump c m)), step_of (iptables [W ''-F'', W c]),
        append_rule c r1, append_rule c r2] ?s1
    \<and> fold run_one [step_of (iptables ([W ''-I'', W ''FORWARD'', W ''1''] @ jump c m)), step_of (iptables [W ''-F'', W c]),
        append_rule c r1, append_rule c r2] ?s1
      = set_chain c [r1, r2] (set_chain c [r1] (set_chain c [] (set_chain ''FORWARD'' (jump c m # fw) ?s1)))"
    using assms(2) ne by (simp add: append_rule_def attempt_def effect_simps filter_effect_def)
  have split: "sts = [best_effort (iptables [W ''-N'', W c])] @ replicate 4 (best_effort ?D)
     @ [step_of (iptables ([W ''-I'', W ''FORWARD'', W ''1''] @ jump c m)), step_of (iptables [W ''-F'', W c]),
        append_rule c r1, append_rule c r2]"
    by (simp add: sts_def chain_jump_steps_def)
  have "fold run_one sts s = set_chain c [r1, r2] (set_chain c [r1] (set_chain c [] (set_chain ''FORWARD'' (jump c m # fw) ?s1)))"
    unfolding split fold_append comp_def using rest n d by simp
  then show "chain (fold run_one sts s) = (chain s)(c \<mapsto> [r1, r2], ''FORWARD'' \<mapsto> jump c m # fw)"
    "ns_nat (fold run_one sts s) = ns_nat s" "ns_rules (fold run_one sts s) = ns_rules s"
    using ne by (auto simp: fun_eq_iff)
  have "all_run (replicate 4 (best_effort ?D)) ?s1" by (rule all_run_best) (simp add: best_effort_def)
  then show "all_run sts s" unfolding split all_run_append using rest n d by simp
qed

lemma teardown_absent:
  assumes "chain s c = None" "chain s ''FORWARD'' = Some fw" "jump c m \<notin> set fw"
  shows "fold run_one (teardown_chain (c, m)) s = s"
  using fold_dels [OF assms(2,3), of 4] assms(1)
  by (simp add: teardown_chain_def attempt_def effect_simps filter_effect_def)

lemma teardown_present:
  fixes c m
  assumes "chain s c = Some rs" "chain s ''FORWARD'' = Some fw" "c \<noteq> ''FORWARD''" "jump c m \<in> set fw" "jump c m \<notin> set (remove1 (jump c m) fw)"
    and "\<forall>d rs. d \<noteq> ''FORWARD'' \<longrightarrow> d \<noteq> c \<longrightarrow> chain s d = Some rs \<longrightarrow> (\<forall>r \<in> set rs. rule_target r \<noteq> W c)"
    and "\<forall>r \<in> set (remove1 (jump c m) fw). rule_target r \<noteq> W c"
  defines "sts \<equiv> teardown_chain (c, m)"
  shows "chain (fold run_one sts s) = (chain s)(c := None, ''FORWARD'' \<mapsto> remove1 (jump c m) fw)"
    "ns_nat (fold run_one sts s) = ns_nat s" "ns_rules (fold run_one sts s) = ns_rules s"
proof -
  let ?D = "best_effort (iptables ([W ''-D'', W ''FORWARD''] @ jump c m))"
  let ?s1 = "set_chain c [] s" and ?s2 = "set_chain ''FORWARD'' (remove1 (jump c m) fw) (set_chain c [] s)"
  have f: "run_one (best_effort (iptables [W ''-F'', W c])) s = ?s1"
    using assms(1) by (simp add: attempt_def effect_simps filter_effect_def)
  have d1: "run_one ?D ?s1 = ?s2"
    using assms(2-4) by (simp add: attempt_def effect_simps filter_effect_def)
  have "fold run_one (replicate 3 ?D) ?s2 = ?s2"
    by (rule fold_dels [where fw = "remove1 (jump c m) fw"]) (use assms(5) in auto)
  moreover have "replicate 4 ?D = ?D # replicate 3 ?D" by (simp add: eval_nat_numeral)
  ultimately have d: "fold run_one (replicate 4 ?D) ?s1 = ?s2" using d1 by simp
  have "\<not> referenced c ?s2"
    using assms(3,6,7) by (auto simp: referenced_def list_ex_iff split: option.splits if_splits)
  then have x: "run_one (best_effort (iptables [W ''-X'', W c])) ?s2 = ?s2\<lparr>ns_filter := AList.delete c (ns_filter ?s2)\<rparr>"
    using assms(3) by (simp add: attempt_def effect_simps filter_effect_def)
  have "fold run_one sts s = ?s2\<lparr>ns_filter := AList.delete c (ns_filter ?s2)\<rparr>"
    unfolding sts_def teardown_chain_def using f d x by simp
  moreover have "chain (?s2\<lparr>ns_filter := AList.delete c (ns_filter ?s2)\<rparr>) = (chain ?s2)(c := None)"
    by (rule ext) (simp add: chain_def delete_conv)
  ultimately show "chain (fold run_one sts s) = (chain s)(c := None, ''FORWARD'' \<mapsto> remove1 (jump c m) fw)"
    "ns_nat (fold run_one sts s) = ns_nat s" "ns_rules (fold run_one sts s) = ns_rules s"
    using assms(3) by (auto simp: fun_eq_iff)
qed

lemma insert_rule_Cons:
  "insert_rule k b (r # rs) = (if fst r \<le> k then r # insert_rule k b rs else (k, b) # r # rs)"
  by (simp add: insert_rule_def)

lemma remove_insert_same: "a \<notin> snd ` set rs \<Longrightarrow> remove_rule a (insert_rule k a rs) = rs"
  by (induction rs) (auto simp: insert_rule_Cons, simp add: insert_rule_def)

lemma remove_insert_other:
  "a \<noteq> b \<Longrightarrow> sorted (map fst rs) \<Longrightarrow> remove_rule a (insert_rule k b rs) = insert_rule k b (remove_rule a rs)"
proof (induction rs)
  case (Cons r rs)
  have "insert_rule k b rs = (k, b) # rs" if "\<not> fst r \<le> k"
    using Cons.prems(2) that by (cases rs) (auto simp: insert_rule_Cons, simp add: insert_rule_def)
  with Cons show ?case by (auto simp: insert_rule_Cons)
qed (simp add: insert_rule_def)

lemma remove_rule_absent: "a \<notin> snd ` set rs \<Longrightarrow> remove_rule a rs = rs"
  by (induction rs) auto

lemma attempt_rule_del: "attempt (ip_rule ''del'' a) s = s\<lparr>ns_rules := remove_rule a (ns_rules s)\<rparr>"
  by (simp add: attempt_def effect_simps rule_effect_def remove_rule_absent)

lemma fold_rule_dels:
  assumes "a \<notin> snd ` set (remove_rule a (ns_rules s))"
  shows "fold run_one (replicate 4 (best_effort (ip_rule ''del'' a))) s = s\<lparr>ns_rules := remove_rule a (ns_rules s)\<rparr>"
  using assms by (simp add: eval_nat_numeral attempt_rule_del remove_rule_absent)

lemma apply_rules:
  fixes o' sel table
  assumes "\<forall>x \<in> {[W ''to'', N o', W ''lookup'', W ''main''], sel @ [W ''lookup'', W table], sel @ [W ''blackhole'']}. x \<notin> snd ` set (ns_rules s)"
    and "[W ''to'', N o', W ''lookup'', W ''main''] \<noteq> sel @ [W ''lookup'', W table]"
      "[W ''to'', N o', W ''lookup'', W ''main''] \<noteq> sel @ [W ''blackhole'']"
  defines "sts \<equiv> overlay_main_steps o' @ rule_steps sel table"
  shows "all_run sts s" "fold run_one sts s = s\<lparr>ns_rules := insert_rule 101 (sel @ [W ''blackhole''])
     (insert_rule 100 (sel @ [W ''lookup'', W table]) (insert_rule 99 [W ''to'', N o', W ''lookup'', W ''main''] (ns_rules s)))\<rparr>"
proof -
  have e: "effect (ip_rule ''add'' [W ''to'', N o', W ''lookup'', W ''main'', W ''priority'', D k]) u
      = Some (u\<lparr>ns_rules := insert_rule k [W ''to'', N o', W ''lookup'', W ''main''] (ns_rules u)\<rparr>)"
    "effect (ip_rule ''add'' (sel @ [W ''lookup'', W table, W ''priority'', D k])) u
      = Some (u\<lparr>ns_rules := insert_rule k (sel @ [W ''lookup'', W table]) (ns_rules u)\<rparr>)"
    "effect (ip_rule ''add'' (sel @ [W ''blackhole'', W ''priority'', D k])) u
      = Some (u\<lparr>ns_rules := insert_rule k (sel @ [W ''blackhole'']) (ns_rules u)\<rparr>)" for k u
    by (simp_all add: effect_simps rule_effect_def butlast_append)
  let ?m = "[W ''to'', N o', W ''lookup'', W ''main'']" and ?l = "sel @ [W ''lookup'', W table]" and ?h = "sel @ [W ''blackhole'']"
  have ne: "?l \<noteq> ?m" "?h \<noteq> ?m" "?h \<noteq> ?l" using assms(2,3) by (metis, metis, simp)
  have a: "?m \<notin> snd ` set (ns_rules s)" "?l \<notin> snd ` set (insert_rule 99 ?m (ns_rules s))"
    "?h \<notin> snd ` set (insert_rule 100 ?l (insert_rule 99 ?m (ns_rules s)))"
    using assms(1) ne unfolding set_insert_rule by (auto simp del: append_Cons)
  show "all_run sts s"
    unfolding sts_def overlay_main_steps_def rule_steps_def by (simp add: e)
  show "fold run_one sts s = s\<lparr>ns_rules := insert_rule 101 (sel @ [W ''blackhole''])
     (insert_rule 100 (sel @ [W ''lookup'', W table]) (insert_rule 99 [W ''to'', N o', W ''lookup'', W ''main''] (ns_rules s)))\<rparr>"
    unfolding sts_def overlay_main_steps_def rule_steps_def PRIO_OVERLAY_MAIN_def PRIO_LOOKUP_def PRIO_BLACKHOLE_def
    by (simp add: attempt_rule_del attempt_def [of "ip_rule ''add'' _"] e remove_rule_absent [OF a(1)] remove_rule_absent [OF a(2)]
        remove_rule_absent [OF a(3)])
qed

lemma attempt_idle: "effect argv s \<in> {None, Some s} \<Longrightarrow> attempt argv s = s"
  by (auto simp: attempt_def)

lemma apply_gates:
  fixes route rules c1 m1 a1 snat c2 m2 a2
  assumes "\<And>s. effect route s = Some s" "all_run rules s" "fold run_one rules s = s\<lparr>ns_rules := R\<rparr>"
    and "chain s c1 = None" "chain s c2 = None" "chain s ''FORWARD'' = Some fw" "jump c1 m1 \<notin> set fw" "jump c2 m2 \<notin> set fw"
    and "c1 \<noteq> c2" "m1 \<noteq> m2" "snat \<notin> set (ns_nat s)"
  defines "sts \<equiv> gate_steps route rules c1 m1 a1 snat c2 m2 a2"
  shows "all_run sts s" "chain (fold run_one sts s)
       = (chain s)(c1 \<mapsto> [a1, drop_all], c2 \<mapsto> [a2, drop_all], ''FORWARD'' \<mapsto> jump c2 m2 # jump c1 m1 # fw)"
    "ns_nat (fold run_one sts s) = ns_nat s @ [snat]" "ns_rules (fold run_one sts s) = R"
proof -
  let ?g1 = "chain_jump_steps c1 m1 @ [append_rule c1 a1, append_rule c1 drop_all]"
    and ?g2 = "chain_jump_steps c2 m2 @ [append_rule c2 a2, append_rule c2 drop_all]"
  let ?s1 = "s\<lparr>ns_rules := R\<rparr>" and ?s2 = "fold run_one ?g1 (s\<lparr>ns_rules := R\<rparr>)"
  have c: "chain (u\<lparr>ns_rules := x\<rparr>) = chain u" "chain (u\<lparr>ns_nat := y\<rparr>) = chain u" for u x y
    by (simp_all add: chain_def fun_eq_iff)
  have ne: "c1 \<noteq> ''FORWARD''" "c2 \<noteq> ''FORWARD''" using assms(4-6) by auto
  note g1 = apply_chain [of ?s1 c1 fw m1 a1 drop_all, unfolded c, OF assms(4,6,7)]
  let ?s3 = "?s2\<lparr>ns_nat := ns_nat s @ [snat]\<rparr>"
  have m: "runs (masquerade snat) ?s2" "run_one (masquerade snat) ?s2 = ?s3"
    using assms(11) g1(3) by (simp_all add: run_one_def runs_def masquerade_def ensure_def unguarded_def attempt_def effect_simps nat_effect_def)
  have "jump c2 m2 \<notin> set (jump c1 m1 # fw)" using assms(8,10) by (simp add: jump_def)
  moreover have "chain ?s2 c2 = None" "chain ?s2 ''FORWARD'' = Some (jump c1 m1 # fw)" using assms(5,9) ne g1(2) by simp_all
  ultimately have g2: "all_run ?g2 ?s3" "chain (fold run_one ?g2 ?s3) = (chain ?s2)(c2 \<mapsto> [a2, drop_all], ''FORWARD'' \<mapsto> jump c2 m2 # jump c1 m1 # fw)"
      "ns_nat (fold run_one ?g2 ?s3) = ns_nat s @ [snat]" "ns_rules (fold run_one ?g2 ?s3) = R"
    using apply_chain [of ?s3 c2 "jump c1 m1 # fw" m2 a2 drop_all, unfolded c] g1(4) by simp_all
  have on: "runs forward_on u" "run_one forward_on u = u" for u
    by (simp_all add: forward_on_def effect_def attempt_def)
  have r: "run_one (step_of route) s = s" "runs (step_of route) s" using assms(1) by (simp_all add: attempt_def)
  have all: "sts = [step_of route] @ rules @ ?g1 @ [masquerade snat] @ ?g2 @ [forward_on]"
    by (simp add: sts_def gate_steps_def)
  have gen: "fold run_one ([x] @ rs @ p @ [y] @ q @ [z]) u
      = run_one z (fold run_one q (run_one y (fold run_one p (fold run_one rs (run_one x u)))))" for x rs p y q z u
    by simp
  have gen': "all_run ([x] @ rs @ p @ [y] @ q @ [z]) u \<longleftrightarrow> runs x u \<and> all_run rs (run_one x u) \<and> all_run p (fold run_one rs (run_one x u))
      \<and> runs y (fold run_one p (fold run_one rs (run_one x u))) \<and> all_run q (run_one y (fold run_one p (fold run_one rs (run_one x u))))
      \<and> runs z (fold run_one q (run_one y (fold run_one p (fold run_one rs (run_one x u)))))" for x rs p y q z u
    by (simp add: all_run_append)
  have end': "fold run_one sts s = fold run_one ?g2 ?s3"
    unfolding all gen r(1) assms(3) m(2) on(2) ..
  show "all_run sts s"
    unfolding all gen' r(1) assms(3) m(2) by (intro conjI r(2) assms(2) g1(1) m(1) g2(1) on(1))
  show "chain (fold run_one sts s)
       = (chain s)(c1 \<mapsto> [a1, drop_all], c2 \<mapsto> [a2, drop_all], ''FORWARD'' \<mapsto> jump c2 m2 # jump c1 m1 # fw)"
    unfolding end' g2(2) g1(2) using assms(9) ne by (auto simp: fun_eq_iff)
  show "ns_nat (fold run_one sts s) = ns_nat s @ [snat]" "ns_rules (fold run_one sts s) = R"
    unfolding end' using g2(3,4) by simp_all
qed

definition ALL_CHAINS :: "string list" where
  "ALL_CHAINS = [CHAIN_FWD, CHAIN_EXIT, CHAIN_FWD_RET, CHAIN_EXIT_RET]"

text \<open>A host that has nothing of the tier, with routing rules in the order of their priorities.\<close>

definition untouched :: "egress_cfg \<Rightarrow> string \<Rightarrow> netstate \<Rightarrow> bool" where
  "untouched cfg e s \<longleftrightarrow>
     chain s ''FORWARD'' \<noteq> None \<and> (\<forall>c \<in> set ALL_CHAINS. chain s c = None)
   \<and> (\<forall>d rs. chain s d = Some rs \<longrightarrow> (\<forall>r \<in> set rs. rule_target r \<notin> W ` set ALL_CHAINS))
   \<and> [W ''-s'', N (eg_overlay cfg), W ''-o'', W e, W ''-j'', W ''MASQUERADE''] \<notin> set (ns_nat s)
   \<and> [W ''-o'', W (eg_wg_iface cfg), W ''-j'', W ''MASQUERADE''] \<notin> set (ns_nat s)
   \<and> (\<forall>x \<in> set (own_rules cfg). x \<notin> snd ` set (ns_rules s)) \<and> sorted (map fst (ns_rules s))"

lemma jump_target: "rule_target (jump c m) = W c"
  by (simp add: rule_target_def jump_def)

lemma remove_own_rules:
  assumes "\<forall>x \<in> set (own_rules cfg). x \<notin> snd ` set rs" "sorted (map fst rs)"
    and "ns_rules s = insert_rule 101 [W ''from'', N (eg_overlay cfg), W ''blackhole''] (insert_rule 100 [W ''from'', N (eg_overlay cfg),
       W ''lookup'', W (eg_rt_table cfg)] (insert_rule 99 [W ''to'', N (eg_overlay cfg), W ''lookup'', W ''main''] rs))"
  shows "fold run_one (concat (map (\<lambda>sel. replicate 4 (best_effort (ip_rule ''del'' sel))) (own_rules cfg))) s = s\<lparr>ns_rules := rs\<rparr>"
proof -
  let ?m = "[W ''to'', N (eg_overlay cfg), W ''lookup'', W ''main'']"
    and ?l = "[W ''from'', N (eg_overlay cfg), W ''lookup'', W (eg_rt_table cfg)]"
    and ?h = "[W ''from'', N (eg_overlay cfg), W ''blackhole'']"
    and ?a = "[W ''from'', A (eg_uplink cfg), W ''lookup'', W (eg_rt_table cfg)]" and ?b = "[W ''from'', A (eg_uplink cfg), W ''blackhole'']"
  have own: "?m \<notin> snd ` set rs" "?l \<notin> snd ` set rs" "?h \<notin> snd ` set rs" "?a \<notin> snd ` set rs" "?b \<notin> snd ` set rs"
    using assms(1) by (simp_all add: own_rules_def)
  note st = sorted_insert_rule [OF assms(2)] sorted_insert_rule [OF sorted_insert_rule [OF assms(2)]]
  have m: "remove_rule ?m (ns_rules s) = insert_rule 101 ?h (insert_rule 100 ?l rs)"
    unfolding assms(3) by (subst remove_insert_other, simp, rule st, subst remove_insert_other, simp, rule st)
      (simp only: remove_insert_same [OF own(1)])
  have lm: "remove_rule ?l (insert_rule 101 ?h (insert_rule 100 ?l rs)) = insert_rule 101 ?h rs"
    by (subst remove_insert_other, simp, rule st) (simp only: remove_insert_same [OF own(2)])
  have del: "fold run_one (replicate 4 (best_effort (ip_rule ''del'' x))) u = u\<lparr>ns_rules := R\<rparr>"
    if "remove_rule x (ns_rules u) = R" "x \<notin> snd ` set R" for x u R
    using fold_rule_dels [of x u] that by simp
  have d1: "fold run_one (replicate 4 (best_effort (ip_rule ''del'' ?m))) s = s\<lparr>ns_rules := insert_rule 101 ?h (insert_rule 100 ?l rs)\<rparr>"
    by (rule del [OF m]) (use own in \<open>auto simp: set_insert_rule\<close>)
  have d2: "fold run_one (replicate 4 (best_effort (ip_rule ''del'' x))) (s\<lparr>ns_rules := insert_rule 101 ?h (insert_rule 100 ?l rs)\<rparr>)
      = s\<lparr>ns_rules := insert_rule 101 ?h (insert_rule 100 ?l rs)\<rparr>" if "x = ?a \<or> x = ?b" for x
  proof -
    have x: "x \<notin> snd ` set (insert_rule 101 ?h (insert_rule 100 ?l rs))" using own that by (auto simp: set_insert_rule)
    show ?thesis by (subst del [OF _ x]) (simp_all add: remove_rule_absent [OF x])
  qed
  have d3: "fold run_one (replicate 4 (best_effort (ip_rule ''del'' ?l))) (s\<lparr>ns_rules := insert_rule 101 ?h (insert_rule 100 ?l rs)\<rparr>)
      = s\<lparr>ns_rules := insert_rule 101 ?h rs\<rparr>"
    by (subst del [where R = "insert_rule 101 ?h rs"]) (use own lm in \<open>auto simp: set_insert_rule\<close>)
  have d4: "fold run_one (replicate 4 (best_effort (ip_rule ''del'' ?h))) (s\<lparr>ns_rules := insert_rule 101 ?h rs\<rparr>) = s\<lparr>ns_rules := rs\<rparr>"
    by (subst del [where R = rs]) (use own remove_insert_same [OF own(3)] in auto)
  show ?thesis
    unfolding own_rules_def list.map concat.simps fold_append comp_def append_Nil2 d1 d2 [of ?a, OF disjI1 [OF refl]]
      d2 [of ?b, OF disjI2 [OF refl]] d3 d4 by simp
qed

text \<open>The chains of an applied exit host, taken down in the order of the matches.\<close>

lemma chains_torn:
  assumes "\<forall>k \<in> set ALL_CHAINS. chain s k = None" "chain s ''FORWARD'' = Some fw"
    and "\<And>d rs r. chain s d = Some rs \<Longrightarrow> r \<in> set rs \<Longrightarrow> rule_target r \<notin> W ` set ALL_CHAINS"
    and "chain c = (chain s)(CHAIN_EXIT \<mapsto> [accept_out e, drop_all], CHAIN_EXIT_RET \<mapsto> [accept_established w, drop_all],
           ''FORWARD'' \<mapsto> jump CHAIN_EXIT_RET [W ''-d'', N (eg_overlay cfg)] # jump CHAIN_EXIT [W ''-s'', N (eg_overlay cfg)] # fw)"
  shows "chain (fold run_one (concat (map teardown_chain (chain_jump_matches cfg))) c) = chain s"
    "ns_nat (fold run_one (concat (map teardown_chain (chain_jump_matches cfg))) c) = ns_nat c"
    "ns_rules (fold run_one (concat (map teardown_chain (chain_jump_matches cfg))) c) = ns_rules c"
proof -
  let ?m1 = "[W ''-s'', N (eg_overlay cfg)]" and ?m2 = "[W ''-d'', N (eg_overlay cfg)]"
  let ?J1 = "jump CHAIN_EXIT ?m1" and ?J2 = "jump CHAIN_EXIT_RET ?m2"
  have none: "chain s CHAIN_FWD = None" "chain s CHAIN_FWD_RET = None" "chain s CHAIN_EXIT = None" "chain s CHAIN_EXIT_RET = None"
    using assms(1) by (simp_all add: ALL_CHAINS_def)
  have notin: "jump k x \<notin> set fw" if "k \<in> set ALL_CHAINS" for k x
    using assms(3) [OF assms(2)] jump_target that by force
  have ch: "CHAIN_EXIT \<in> set ALL_CHAINS" "CHAIN_EXIT_RET \<in> set ALL_CHAINS" "CHAIN_FWD \<in> set ALL_CHAINS" "CHAIN_FWD_RET \<in> set ALL_CHAINS"
    "CHAIN_EXIT \<noteq> CHAIN_EXIT_RET"
    by (simp_all add: ALL_CHAINS_def CHAIN_EXIT_def CHAIN_EXIT_RET_def)
  have fwc: "chain c ''FORWARD'' = Some (?J2 # ?J1 # fw)" unfolding assms(4) by simp
  have absent: "fold run_one (teardown_chain (d, x)) c = c" if "d \<in> {CHAIN_FWD, CHAIN_FWD_RET}" for d x
  proof (rule teardown_absent [OF _ fwc])
    show "chain c d = None" unfolding assms(4) using that none
      by (auto simp: CHAIN_FWD_def CHAIN_FWD_RET_def CHAIN_EXIT_def CHAIN_EXIT_RET_def)
    have "jump d x \<noteq> jump k y" if "k \<in> {CHAIN_EXIT, CHAIN_EXIT_RET}" for k y
      using \<open>d \<in> _\<close> that by (auto simp: jump_def CHAIN_FWD_def CHAIN_FWD_RET_def CHAIN_EXIT_def CHAIN_EXIT_RET_def)
    then show "jump d x \<notin> set (?J2 # ?J1 # fw)" using notin [of d x] that ch by auto
  qed
  have bodies: "rule_target r \<notin> W ` set ALL_CHAINS" if "r \<in> {accept_out e, accept_established w, drop_all}" for r
    using that by (auto simp: rule_target_def accept_out_def accept_established_def drop_all_def ALL_CHAINS_def
        CHAIN_FWD_def CHAIN_FWD_RET_def CHAIN_EXIT_def CHAIN_EXIT_RET_def)
  have foreign: "rule_target r \<noteq> W k" if "chain c d = Some rs" "d \<noteq> ''FORWARD''" "r \<in> set rs" "k \<in> set ALL_CHAINS" for d rs r k
    using that assms(3) [of d rs r] bodies [of r] unfolding assms(4) by (auto split: if_splits)
  have fwt: "rule_target r \<noteq> W k" if "r \<in> set fw" "k \<in> set ALL_CHAINS" for r k
    using assms(3) [OF assms(2) that(1)] that(2) by blast
  have J: "?J1 \<noteq> ?J2" by (simp add: jump_def)
  have rm: "remove1 ?J1 (?J2 # ?J1 # fw) = ?J2 # fw" using J by auto
  have ne: "CHAIN_EXIT \<noteq> ''FORWARD''" "CHAIN_EXIT_RET \<noteq> ''FORWARD''" by (simp_all add: CHAIN_EXIT_def CHAIN_EXIT_RET_def)
  let ?d = "fold run_one (teardown_chain (CHAIN_EXIT, ?m1)) c"
  have d: "chain ?d = (chain c)(CHAIN_EXIT := None, ''FORWARD'' \<mapsto> ?J2 # fw)" "ns_nat ?d = ns_nat c" "ns_rules ?d = ns_rules c"
  proof -
    have 1: "chain c CHAIN_EXIT = Some [accept_out e, drop_all]" unfolding assms(4) using ch(5) ne by simp
    have 2: "?J1 \<in> set (?J2 # ?J1 # fw)" "?J1 \<notin> set (remove1 ?J1 (?J2 # ?J1 # fw))"
      unfolding rm using J notin [OF ch(1)] by auto
    have 3: "\<forall>d rs. d \<noteq> ''FORWARD'' \<longrightarrow> d \<noteq> CHAIN_EXIT \<longrightarrow> chain c d = Some rs \<longrightarrow> (\<forall>r \<in> set rs. rule_target r \<noteq> W CHAIN_EXIT)"
      using foreign ch(1) by blast
    have 4: "\<forall>r \<in> set (remove1 ?J1 (?J2 # ?J1 # fw)). rule_target r \<noteq> W CHAIN_EXIT"
      unfolding rm using fwt ch by (auto simp: jump_target)
    show "chain ?d = (chain c)(CHAIN_EXIT := None, ''FORWARD'' \<mapsto> ?J2 # fw)" "ns_nat ?d = ns_nat c" "ns_rules ?d = ns_rules c"
      using teardown_present [OF 1 fwc ne(1) 2 3 4] unfolding rm by blast+
  qed
  let ?e = "fold run_one (teardown_chain (CHAIN_EXIT_RET, ?m2)) ?d"
  have e: "chain ?e = (chain ?d)(CHAIN_EXIT_RET := None, ''FORWARD'' \<mapsto> fw)" "ns_nat ?e = ns_nat ?d" "ns_rules ?e = ns_rules ?d"
  proof -
    have 1: "chain ?d CHAIN_EXIT_RET = Some [accept_established w, drop_all]" "chain ?d ''FORWARD'' = Some (?J2 # fw)"
      unfolding d(1) assms(4) using ch(5) ne by simp_all
    have rm': "remove1 ?J2 (?J2 # fw) = fw" by simp
    have 2: "?J2 \<in> set (?J2 # fw)" "?J2 \<notin> set (remove1 ?J2 (?J2 # fw))" unfolding rm' using notin [OF ch(2)] by auto
    have 3: "\<forall>x rs. x \<noteq> ''FORWARD'' \<longrightarrow> x \<noteq> CHAIN_EXIT_RET \<longrightarrow> chain ?d x = Some rs \<longrightarrow> (\<forall>r \<in> set rs. rule_target r \<noteq> W CHAIN_EXIT_RET)"
      unfolding d(1) using foreign ch(2) by (auto split: if_splits)
    have 4: "\<forall>r \<in> set (remove1 ?J2 (?J2 # fw)). rule_target r \<noteq> W CHAIN_EXIT_RET"
      unfolding rm' using fwt ch(2) by blast
    show "chain ?e = (chain ?d)(CHAIN_EXIT_RET := None, ''FORWARD'' \<mapsto> fw)" "ns_nat ?e = ns_nat ?d" "ns_rules ?e = ns_rules ?d"
      using teardown_present [OF 1 ne(2) 2 3 4] unfolding rm' by blast+
  qed
  have cm: "concat (map teardown_chain (chain_jump_matches cfg))
      = teardown_chain (CHAIN_FWD, [W ''-s'', A (eg_uplink cfg)]) @ teardown_chain (CHAIN_FWD_RET, [W ''-d'', N (host_net (eg_uplink cfg))])
        @ teardown_chain (CHAIN_EXIT, ?m1) @ teardown_chain (CHAIN_EXIT_RET, ?m2)"
    by (simp add: chain_jump_matches_def)
  have whole: "fold run_one (concat (map teardown_chain (chain_jump_matches cfg))) c = ?e"
    unfolding cm fold_append comp_def absent [of CHAIN_FWD, OF insertI1] absent [of CHAIN_FWD_RET, OF insertI2 [OF singletonI]] ..
  show "chain (fold run_one (concat (map teardown_chain (chain_jump_matches cfg))) c) = chain s"
    unfolding whole e d assms(4) using none assms(2) ch(5) ne by (auto simp: fun_eq_iff)
  show "ns_nat (fold run_one (concat (map teardown_chain (chain_jump_matches cfg))) c) = ns_nat c"
    "ns_rules (fold run_one (concat (map teardown_chain (chain_jump_matches cfg))) c) = ns_rules c"
    unfolding whole e d by simp_all
qed

lemma torn_down:
  assumes "exit_host_steps cfg eif = Inr steps" "teardown_steps cfg (Some eif) = Inr td" "untouched cfg (py_strip eif) s"
  shows "all_run steps s" "all_run td (fold run_one steps s)" "alike (fold run_one td (fold run_one steps s)) s"
proof -
  let ?o = "eg_overlay cfg" and ?t = "eg_rt_table cfg"
  let ?m = "[W ''to'', N ?o, W ''lookup'', W ''main'']" and ?l = "[W ''from'', N ?o, W ''lookup'', W ?t]" and ?h = "[W ''from'', N ?o, W ''blackhole'']"
  let ?m1 = "[W ''-s'', N ?o]" and ?m2 = "[W ''-d'', N ?o]"
  obtain e w route where i: "iface_of eif = Inr e" "iface_of (eg_wg_iface cfg) = Inr w" and route: "\<And>s. effect route s = Some s"
    and steps: "steps = gate_steps route (overlay_main_steps ?o @ rule_steps [W ''from'', N ?o] ?t) CHAIN_EXIT ?m1 (accept_out e)
       [W ''-s'', N ?o, W ''-o'', W e, W ''-j'', W ''MASQUERADE''] CHAIN_EXIT_RET ?m2 (accept_established w)"
    using exit_host_gates [OF assms(1)] by blast
  let ?snat = "[W ''-s'', N ?o, W ''-o'', W e, W ''-j'', W ''MASQUERADE'']" and ?wnat = "[W ''-o'', W (eg_wg_iface cfg), W ''-j'', W ''MASQUERADE'']"
  have u: "\<forall>c \<in> set ALL_CHAINS. chain s c = None" "\<And>d rs r. chain s d = Some rs \<Longrightarrow> r \<in> set rs \<Longrightarrow> rule_target r \<notin> W ` set ALL_CHAINS"
    "?snat \<notin> set (ns_nat s)" "?wnat \<notin> set (ns_nat s)" "\<forall>x \<in> set (own_rules cfg). x \<notin> snd ` set (ns_rules s)" "sorted (map fst (ns_rules s))"
    using assms(3) iface_of_Inr [OF i(1)] unfolding untouched_def by blast+
  obtain fw where fw: "chain s ''FORWARD'' = Some fw" using assms(3) by (auto simp: untouched_def)
  have none: "chain s CHAIN_FWD = None" "chain s CHAIN_FWD_RET = None" "chain s CHAIN_EXIT = None" "chain s CHAIN_EXIT_RET = None"
    using u(1) by (simp_all add: ALL_CHAINS_def)
  have notin: "jump c x \<notin> set fw" if "c \<in> set ALL_CHAINS" for c x
    using u(2) [OF fw] jump_target that by force
  have rules: "all_run (overlay_main_steps ?o @ rule_steps [W ''from'', N ?o] ?t) s"
    "fold run_one (overlay_main_steps ?o @ rule_steps [W ''from'', N ?o] ?t) s
       = s\<lparr>ns_rules := insert_rule 101 ?h (insert_rule 100 ?l (insert_rule 99 ?m (ns_rules s)))\<rparr>"
    using apply_rules [of ?o "[W ''from'', N ?o]" ?t s] u(5) by (simp_all add: own_rules_def)
  have ch: "CHAIN_EXIT \<in> set ALL_CHAINS" "CHAIN_EXIT_RET \<in> set ALL_CHAINS" "CHAIN_FWD \<in> set ALL_CHAINS" "CHAIN_FWD_RET \<in> set ALL_CHAINS"
    "CHAIN_EXIT \<noteq> CHAIN_EXIT_RET" "?m1 \<noteq> ?m2"
    by (simp_all add: ALL_CHAINS_def CHAIN_EXIT_def CHAIN_EXIT_RET_def)
  let ?J1 = "jump CHAIN_EXIT ?m1" and ?J2 = "jump CHAIN_EXIT_RET ?m2"
  note g = apply_gates [OF route rules none(3,4) fw notin [OF ch(1)] notin [OF ch(2)] ch(5,6) u(3),
      of "accept_out e" "accept_established w", folded steps]
  show "all_run steps s" by (rule g(1))
  let ?a = "fold run_one steps s"
  let ?snats = "replicate 4 (best_effort (nat_rule ''-D'' ?snat))"
  let ?dels = "concat (map (\<lambda>sel. replicate 4 (best_effort (ip_rule ''del'' sel))) (own_rules cfg))"
    and ?flush = "best_effort [W ''ip'', W ''route'', W ''flush'', W ''table'', W ?t]" and ?unat = "best_effort (nat_rule ''-D'' ?wnat)"
  have td: "td = ?dels @ [?flush, ?unat] @ ?snats @ concat (map teardown_chain (chain_jump_matches cfg))"
    using assms(2) i(1) by (simp add: teardown_steps_def)
  have "\<forall>st \<in> set td. st_ignore_fail st"
    unfolding td by (auto simp: best_effort_def own_rules_def chain_jump_matches_def teardown_chain_def)
  then show "all_run td ?a" by (rule all_run_best)
  let ?b = "?a\<lparr>ns_rules := ns_rules s\<rparr>"
  have b: "fold run_one ?dels ?a = ?b" by (rule remove_own_rules [OF u(5,6)]) (rule g(4))
  have flush: "run_one ?flush ?b = ?b" by (simp add: attempt_def effect_def)
  have unat: "run_one ?unat ?b = ?b"
    using u(4) g(3) by (simp add: attempt_def effect_simps nat_effect_def)
  let ?c = "?b\<lparr>ns_nat := ns_nat s\<rparr>"
  have c1: "run_one (best_effort (nat_rule ''-D'' ?snat)) ?b = ?c"
    using u(3) g(3) by (simp add: attempt_def effect_simps nat_effect_def remove1_append)
  have "run_one (best_effort (nat_rule ''-D'' ?snat)) ?c = ?c"
    using u(3) by (simp add: attempt_def effect_simps nat_effect_def)
  then have c: "fold run_one ?snats ?b = ?c" using c1 by (simp add: eval_nat_numeral)
  have cc: "chain ?c = (chain s)(CHAIN_EXIT \<mapsto> [accept_out e, drop_all], CHAIN_EXIT_RET \<mapsto> [accept_established w, drop_all],
      ''FORWARD'' \<mapsto> ?J2 # ?J1 # fw)"
    using g(2) by (simp add: chain_def fun_eq_iff)
  note t = chains_torn [OF u(1) fw u(2) cc]
  have gen: "fold run_one (p @ [x, y] @ q @ r) v = fold run_one r (fold run_one q (run_one y (run_one x (fold run_one p v))))"
    for p x y q r v by simp
  have whole: "fold run_one td ?a = fold run_one (concat (map teardown_chain (chain_jump_matches cfg))) ?c"
    unfolding td gen b flush unat c ..
  show "alike (fold run_one td ?a) s"
    unfolding whole alike_def using t by simp
qed

text \<open>
  C23: tearing an exit host down undoes applying it.  On a host that has nothing of the tier, with commands
  that answer in time and fail only when they must, applying and then tearing down raises nothing and leaves every chain of
  the filter table, the source NAT rules and the routing rules as they were; rules of others in between
  are neither removed nor reordered.
\<close>

theorem teardown_undoes_apply:
  assumes "prompt run view" "exit_host_steps cfg eif = Inr steps" "teardown_steps cfg (Some eif) = Inr td"
    and "untouched cfg (py_strip eif) (view n)"
  shows "\<exists>out n1 out' n2. run_steps run False steps n = (Some out, n1) \<and> run_steps run False td n1 = (Some out', n2)
     \<and> alike (view n2) (view n)"
proof -
  note t = torn_down [OF assms(2-4)]
  obtain out n1 where 1: "run_steps run False steps n = (Some out, n1)" "view n1 = fold run_one steps (view n)"
    using prompt_steps [OF assms(1) t(1)] by blast
  obtain out' n2 where 2: "run_steps run False td n1 = (Some out', n2)" "view n2 = fold run_one td (view n1)"
    using prompt_steps [OF assms(1), of td n1] t(2) 1(2) by auto
  from 1 2 t(3) show ?thesis by auto
qed

lemma demo_run_prompt: "prompt demo_run id"
  by (auto simp: prompt_def documented_def demo_run_def split: option.splits)

theorem teardown_undoes_apply_witness:
  "\<exists>steps td out n1 out' n2. exit_host_steps default_cfg ''eth1'' = Inr steps \<and> teardown_steps default_cfg (Some ''eth1'') = Inr td
     \<and> run_steps demo_run False steps demo_host = (Some out, n1) \<and> run_steps demo_run False td n1 = (Some out', n2) \<and> alike n2 demo_host"
proof -
  obtain steps td where st: "exit_host_steps default_cfg ''eth1'' = Inr steps" "teardown_steps default_cfg (Some ''eth1'') = Inr td"
    using demo_exit_runs by (auto simp: teardown_steps_def exit_host_steps_def split: sum.splits)
  have c: "chain demo_host d = (if d = ''FORWARD'' then Some [[W ''-j'', W ''ACCEPT'']] else None)" for d
    by (simp add: chain_def demo_host_def)
  have f: "ns_nat demo_host = []" "snd ` set (ns_rules demo_host) = {[W ''from'', W ''all'', W ''lookup'', W ''local''],
      [W ''from'', W ''all'', W ''lookup'', W ''main'']}" "sorted (map fst (ns_rules demo_host))"
    by (simp_all add: demo_host_def)
  have "untouched default_cfg (py_strip ''eth1'') (id demo_host)"
    by (simp add: untouched_def c f own_rules_def ALL_CHAINS_def CHAIN_FWD_def CHAIN_FWD_RET_def CHAIN_EXIT_def CHAIN_EXIT_RET_def
        rule_target_def)
  from teardown_undoes_apply [OF demo_run_prompt st this] st show ?thesis by auto
qed

end
