(* ===== verification/Egress_Check.thy ===== *)
theory Egress_Check
  imports Egress_Steps Dispatch_Net Node_Share
begin

text \<open>
  \<^verbatim>\<open>host/egress_apply.py\<close>, the check that a node's containment is installed and in the path, the
  adoption of bridges that exist, and the registration of the routing table.  The check reads what
  \<^verbatim>\<open>ip rule\<close>, \<^verbatim>\<open>ip route\<close> and \<^verbatim>\<open>iptables -S\<close> print, line by line.  Python's parse of a network is
  the argument \<open>net_of\<close>; what a printed rule means is the named hypothesis \<open>listed_doc\<close>.
\<close>

section \<open>Reading a printed rule\<close>

definition words :: "string \<Rightarrow> string list" where "words s = ws_words [] s"

definition rstrip :: "string \<Rightarrow> string" where "rstrip s = rev (dropWhile is_space (rev s))"

text \<open>\<open>tok[tok.index(flag) + 1]\<close>, \<open>None\<close> for both of its errors.\<close>

definition value_after :: "string \<Rightarrow> string list \<Rightarrow> string option" where
  "value_after flag toks = (case dropWhile (\<lambda>t. t \<noteq> flag) toks of a # v # rest \<Rightarrow> Some v | _ \<Rightarrow> None)"

definition chain_accept_escapes :: "string \<Rightarrow> string option \<Rightarrow> bool" where
  "chain_accept_escapes rule want_dev =
     (if \<not> endswith (rstrip rule) ''-j ACCEPT'' then False
      else case value_after ''-o'' (words rule) of
        None \<Rightarrow> True
      | Some dev \<Rightarrow> Some dev \<noteq> want_dev)"

text \<open>\<open>_rule_matches\<close> on the words of a rule: \<open>all\<close> and what is no network match no source.\<close>

definition rule_matches :: "(string \<Rightarrow> ipnet option) \<Rightarrow> string list \<Rightarrow> ipnet \<Rightarrow> bool" where
  "rule_matches net_of tok source =
     (case value_after ''from'' tok of
        None \<Rightarrow> False
      | Some v \<Rightarrow> v \<noteq> ''all'' \<and> net_of v = Some source)"

definition is_digits :: "string \<Rightarrow> bool" where
  "is_digits s \<longleftrightarrow> s \<noteq> [] \<and> list_all (\<lambda>c. digit_val c \<noteq> None) s"

definition rules_at :: "string list \<Rightarrow> int \<Rightarrow> string list list" where
  "rules_at lines priority =
     List.map_filter (\<lambda>line.
       case partition_at (CHR '':'') line of (head, body) \<Rightarrow>
         if CHR '':'' \<in> set line \<and> is_digits (py_strip head) \<and> py_int (py_strip head) = Some priority
         then Some (words body) else None) lines"

definition UNDERSTOOD_MATCHES :: "string list" where
  "UNDERSTOOD_MATCHES = [''-A'', ''FORWARD'', ''-j'', ''ACCEPT'', ''-s'', ''-i'', ''-o'', ''-d'',
     ''-m'', ''conntrack'', ''--ctstate'', ''state'', ''--state'']"

definition is_value :: "string \<Rightarrow> bool" where
  "is_value t \<longleftrightarrow> 1 < length t \<and> (digit_val (t ! 1) \<noteq> None \<or> t ! 1 = CHR ''.'')"

text \<open>An option value that is not empty.\<close>

definition some_text :: "string option \<Rightarrow> string option" where
  "some_text v = (if v = Some [] then None else v)"

definition accepts_our_traffic :: "(string \<Rightarrow> ipnet option) \<Rightarrow> string \<Rightarrow> ipnet \<Rightarrow> string option \<Rightarrow> bool" where
  "accepts_our_traffic net_of rule fwd bridge =
     (if py_in ''-j DOCKER-FORWARD'' rule \<or> py_in ''-j DOCKER-ISOLATION'' rule then True
      else if \<not> endswith (rstrip rule) ''-j ACCEPT'' then False
      else
        let tokens = words rule
        in if ''!'' \<in> set tokens \<or> list_ex (\<lambda>t. startswith t ''!'') tokens then True
           else if list_ex (\<lambda>t. startswith t ''-'' \<and> t \<notin> set UNDERSTOOD_MATCHES \<and> \<not> is_value t) tokens then True
           else
             let states = (case some_text (value_after ''--ctstate'' tokens) of Some s \<Rightarrow> Some s | None \<Rightarrow> some_text (value_after ''--state'' tokens));
                 iif = some_text (value_after ''-i'' tokens);
                 src = some_text (value_after ''-s'' tokens)
             in if (case states of None \<Rightarrow> False | Some s \<Rightarrow> set (split_on (CHR '','') s) \<subseteq> {''ESTABLISHED'', ''RELATED''}) then False
                else if (case (some_text bridge, iif) of (Some b, Some i) \<Rightarrow> CHR ''+'' \<notin> set i \<and> i \<noteq> b | _ \<Rightarrow> False) then False
                else case src of
                  None \<Rightarrow> True
                | Some s \<Rightarrow> (case net_of s of None \<Rightarrow> True | Some theirs \<Rightarrow> is_v4 fwd = is_v4 theirs \<and> overlaps fwd theirs))"

definition str_int :: "int \<Rightarrow> string" where
  "str_int i = (if i < 0 then CHR ''-'' # str_nat (nat (- i)) else str_nat (nat i))"

section \<open>The check\<close>

text \<open>What the commands answered: the lines, or that the command failed.\<close>

record observed =
  ob_rules :: "string list"
  ob_table :: "string list option"
  ob_forward :: "string list option"
  ob_chain :: "bool \<times> string list"
  ob_exit_dev :: "string option"
  ob_bridge :: "string option"

datatype lack = NoSourceRoute | NoBlackhole | RoutesVia "string option" | NoJump | Buried | NoChain | NoDrop

datatype enforcement = LocalMode | Missing "lack list" | Unverified | InPath | Raised

fun full_net :: "ipaddr \<Rightarrow> ipnet" where
  "full_net (V4 a) = N4 a 32"
| "full_net (V6 a) = N6 a 128"

definition own_source :: "egress_cfg \<Rightarrow> ipnet" where
  "own_source cfg = (if eg_exit_host cfg then eg_overlay cfg else full_net (eg_uplink cfg))"

definition own_chain :: "egress_cfg \<Rightarrow> string" where
  "own_chain cfg = (if eg_exit_host cfg then CHAIN_EXIT else CHAIN_FWD)"

definition want_dev :: "egress_cfg \<Rightarrow> observed \<Rightarrow> string option" where
  "want_dev cfg ob = (if eg_exit_host cfg then ob_exit_dev ob else Some (eg_wg_iface cfg))"

definition routing_lacks :: "(string \<Rightarrow> ipnet option) \<Rightarrow> egress_cfg \<Rightarrow> observed \<Rightarrow> lack list" where
  "routing_lacks net_of cfg ob =
     (if list_ex (\<lambda>r. rule_matches net_of r (own_source cfg)
           \<and> (eg_rt_table cfg \<in> set r \<or> str_int (eg_rt_table_id cfg) \<in> set r))
         (rules_at (ob_rules ob) PRIO_LOOKUP) then [] else [NoSourceRoute])
     @ (if list_ex (\<lambda>r. rule_matches net_of r (own_source cfg) \<and> ''blackhole'' \<in> set r)
         (rules_at (ob_rules ob) PRIO_BLACKHOLE) then [] else [NoBlackhole])"

text \<open>The first default route of the table; \<open>None\<close> if reading it raises.\<close>

definition table_lacks :: "egress_cfg \<Rightarrow> observed \<Rightarrow> lack list option" where
  "table_lacks cfg ob =
     (case ob_table ob of
        None \<Rightarrow> Some []
      | Some lines \<Rightarrow> (case find (\<lambda>l. startswith l ''default'') lines of
            None \<Rightarrow> Some []
          | Some line \<Rightarrow>
              let tok = words line
              in if ''dev'' \<in> set tok \<and> value_after ''dev'' tok = None then None
                 else let dev = value_after ''dev'' tok
                      in Some (if dev \<noteq> want_dev cfg ob then [RoutesVia dev] else [])))"

definition our_jump :: "(string \<Rightarrow> ipnet option) \<Rightarrow> egress_cfg \<Rightarrow> string \<Rightarrow> bool" where
  "our_jump net_of cfg line =
     (endswith line (''-j '' @ own_chain cfg)
      \<and> (case value_after ''-s'' (words line) of
           Some src \<Rightarrow> rule_matches net_of [''from'', src] (own_source cfg)
         | None \<Rightarrow> words line = [''-A'', ''FORWARD'', ''-j'', own_chain cfg]))"

text \<open>The positions of our jump and of the first rule that takes our traffic.\<close>

fun scan_forward ::
  "(string \<Rightarrow> ipnet option) \<Rightarrow> egress_cfg \<Rightarrow> string option \<Rightarrow> nat \<Rightarrow> string list \<Rightarrow> nat option \<times> nat option \<Rightarrow> nat option \<times> nat option" where
  "scan_forward net_of cfg bridge i [] found = found"
| "scan_forward net_of cfg bridge i (line # lines) found =
     (if \<not> startswith line ''-A FORWARD'' then scan_forward net_of cfg bridge (Suc i) lines found
      else
        let jump_at = (if fst found = None \<and> our_jump net_of cfg line then Some i else fst found);
            docker_at = (if snd found = None \<and> accepts_our_traffic net_of line (own_source cfg) bridge then Some i else snd found)
        in scan_forward net_of cfg bridge (Suc i) lines (jump_at, docker_at))"

definition filter_lacks :: "(string \<Rightarrow> ipnet option) \<Rightarrow> egress_cfg \<Rightarrow> observed \<Rightarrow> string list \<Rightarrow> lack list" where
  "filter_lacks net_of cfg ob lines =
     (case scan_forward net_of cfg (ob_bridge ob) 0 lines (None, None) of (jump_at, docker_at) \<Rightarrow>
        let body = filter (\<lambda>l. startswith l (''-A '' @ own_chain cfg)) (snd (ob_chain ob))
        in (case (jump_at, docker_at) of
              (None, _) \<Rightarrow> [NoJump]
            | (Some j, Some d) \<Rightarrow> if d < j then [Buried] else []
            | _ \<Rightarrow> [])
           @ (if \<not> fst (ob_chain ob) \<or> body = [] then [NoChain]
              else if \<not> endswith (last body) ''-j DROP'' \<or> list_ex (\<lambda>l. chain_accept_escapes l (want_dev cfg ob)) body then [NoDrop]
              else []))"

definition enforcement_present :: "(string \<Rightarrow> ipnet option) \<Rightarrow> egress_cfg \<Rightarrow> observed \<Rightarrow> enforcement" where
  "enforcement_present net_of cfg ob =
     (if eg_mode cfg \<noteq> ''global'' \<and> \<not> eg_exit_host cfg then LocalMode
      else case table_lacks cfg ob of
        None \<Rightarrow> Raised
      | Some tls \<Rightarrow>
          let missing = routing_lacks net_of cfg ob @ tls
             @ (case ob_forward ob of None \<Rightarrow> [] | Some lines \<Rightarrow> filter_lacks net_of cfg ob lines)
          in if missing \<noteq> [] then Missing missing else if ob_forward ob = None then Unverified else InPath)"

section \<open>What a printed rule documents\<close>














section \<open>A demonstration, and what the check does not see\<close>

definition demo_net :: "string \<Rightarrow> ipnet option" where
  "demo_net v = map_of [(''172.29.0.10'', N4 (octets 172 29 0 10) 32), (''172.29.0.10/32'', N4 (octets 172 29 0 10) 32),
     (''172.29.0.0/16'', N4 (octets 172 29 0 0) 16), (''10.9.9.9/32'', N4 (octets 10 9 9 9) 32)] v"



definition global_cfg :: egress_cfg where
  "global_cfg = default_cfg\<lparr>eg_mode := ''global'', eg_upstream := Some (V4 (octets 10 77 0 1))\<rparr>"

definition demo_observed :: "string list \<Rightarrow> string list \<Rightarrow> observed" where
  "demo_observed forward body =
     \<lparr>ob_rules = [''0: from all lookup local'', ''100: from 172.29.0.10 lookup bbwg'', ''101: from 172.29.0.10 blackhole''],
      ob_table = Some [''default dev bbwg0 scope link''], ob_forward = Some forward, ob_chain = (True, body),
      ob_exit_dev = None, ob_bridge = Some ''br-net0''\<rparr>"



text \<open>The comment promises that whatever the check does not fully understand counts as burying.  A negated
  device, a final drop that does not match, a negated source and a jump into another chain all pass.\<close>

lemma negated_device_passes:
  "enforcement_present demo_net global_cfg (demo_observed [''-A FORWARD -s 172.29.0.10/32 -j BB-WG-FWD'']
     [''-A BB-WG-FWD ! -o bbwg0 -j ACCEPT'', ''-A BB-WG-FWD -j DROP'']) = InPath"
  by code_simp

lemma narrow_drop_passes:
  "enforcement_present demo_net global_cfg (demo_observed [''-A FORWARD -s 172.29.0.10/32 -j BB-WG-FWD'']
     [''-A BB-WG-FWD -s 10.9.9.9/32 -j DROP'']) = InPath"
  by code_simp

lemma negated_jump_passes:
  "enforcement_present demo_net global_cfg (demo_observed [''-A FORWARD ! -s 172.29.0.10/32 -j BB-WG-FWD'']
     [''-A BB-WG-FWD -o bbwg0 -j ACCEPT'', ''-A BB-WG-FWD -j DROP'']) = InPath"
  by code_simp

lemma other_chain_passes:
  "\<not> accepts_our_traffic demo_net ''-A FORWARD -j DOCKER-USER'' (own_source global_cfg) (Some ''br-net0'')"
  by code_simp

end
