(* ===== verification/Egress_Plan.thy ===== *)
theory Egress_Plan
  imports Egress_Check
begin

text \<open>
  \<^verbatim>\<open>host/egress_apply.py\<close>: the subnet plan of a node, which adopts the bridges that already exist
  and allocates the others, and the registration of the routing table's name.  What the host answers
  about its bridges, routes and files are arguments.
\<close>

section \<open>Adopting bridges\<close>

text \<open>\<open>network_address + k\<close>.\<close>

definition nth_address :: "ipnet \<Rightarrow> int \<Rightarrow> ipaddr res" where
  "nth_address n k =
     (let v = first_addr n + k
      in if 0 \<le> v \<and> v < (if is_v4 n then 2 ^ 32 else 2 ^ 128) then Inr (if is_v4 n then V4 v else V6 v)
         else Inl (ValueError ''AddressValueError''))"

definition adopt_address :: "ipaddr \<Rightarrow> ipnet \<Rightarrow> ipnet \<Rightarrow> ipaddr res" where
  "adopt_address addr old new =
     (if in_net addr new then Inr addr
      else let offset = ip_int addr - first_addr old
           in if 0 < offset \<and> offset < num_addresses new - 1 then nth_address new offset
              else if 11 < num_addresses new then nth_address new 10
              else nth_address new 1)"

definition live_net :: "(string \<times> ipnet) list \<Rightarrow> string \<Rightarrow> ipnet \<Rightarrow> ipnet" where
  "live_net live n own = (case map_of live n of Some w \<Rightarrow> w | None \<Rightarrow> own)"

definition adopt :: "egress_cfg \<Rightarrow> (string \<times> ipnet) list \<Rightarrow> egress_cfg res" where
  "adopt cfg live =
     (case (if map_of live ''bb-vpn'' = None then Inr (eg_vpn_gateway cfg)
            else adopt_address (eg_vpn_gateway cfg) (eg_vpn cfg) (live_net live ''bb-vpn'' (eg_vpn cfg))) of
        Inl e \<Rightarrow> Inl e
      | Inr gw \<Rightarrow>
          (case (if map_of live ''bb-net0'' = None then Inr (eg_uplink cfg)
                 else adopt_address (eg_uplink cfg) (eg_net0 cfg) (live_net live ''bb-net0'' (eg_net0 cfg))) of
             Inl e \<Rightarrow> Inl e
           | Inr up \<Rightarrow>
               if live = [] then Inr cfg
               else egress_post_init (cfg\<lparr>eg_net0 := live_net live ''bb-net0'' (eg_net0 cfg), eg_fakenet := live_net live ''bb-fakenet'' (eg_fakenet cfg),
                      eg_socks := live_net live ''bb-socks'' (eg_socks cfg), eg_vpn := live_net live ''bb-vpn'' (eg_vpn cfg),
                      eg_vpn_gateway := gw, eg_uplink := up\<rparr>)))"

datatype plan_error = HostFactsUnavailable | Invalid py_exc

definition plan_subnets ::
  "egress_cfg \<Rightarrow> (string \<times> ipnet) list \<Rightarrow> ipnet list \<Rightarrow> bool \<Rightarrow> bool \<Rightarrow> bool \<Rightarrow> plan_error + subnet_plan" where
  "plan_subnets cfg live claimed routes_known allow_unknown auto =
     (case adopt cfg live of
        Inl e \<Rightarrow> Inl (Invalid e)
      | Inr c \<Rightarrow>
          if \<not> routes_known \<and> \<not> allow_unknown then Inl HostFactsUnavailable
          else case allocate_subnets c claimed auto (fst ` set live) of
            Inl e \<Rightarrow> Inl (Invalid e)
          | Inr plan \<Rightarrow> Inr plan)"

lemma adopt_address_inside:
  assumes "is_v4 new" "net_ok new" "2 \<le> num_addresses new" "is_v4 old"
  shows "\<exists>a. adopt_address addr old new = Inr a \<and> in_net a new"
proof -
  have n: "0 \<le> first_addr new" "first_addr new + num_addresses new \<le> 2 ^ 32"
    using assms(1,2) by (cases new; simp)+
  have "\<exists>a. nth_address new k = Inr a \<and> in_net a new" if "0 \<le> k" "k < num_addresses new" for k
    using n that assms(1) by (auto simp: nth_address_def in_net_v4)
  then show ?thesis using assms(3) by (auto simp: adopt_address_def Let_def)
qed

text \<open>What the checks of a configuration say about its addresses.\<close>

lemma post_init_addresses:
  assumes "egress_post_init c = Inr c'"
  shows "in_net (eg_vpn_gateway c') (eg_vpn c')" "eg_mode c' = ''global'' \<Longrightarrow> in_net (eg_uplink c') (eg_net0 c')"
  using assms by (auto simp: egress_post_init_def split: if_splits sum.splits)

lemma adopt_nets:
  assumes "adopt cfg live = Inr c" "n \<in> bridge_names"
  shows "bridge_net c n = live_net live n (bridge_net cfg n)"
proof (cases "live = []")
  case True
  then show ?thesis using assms by (auto simp: adopt_def live_net_def split: sum.splits if_splits)
next
  case False
  then obtain gw up where "egress_post_init (cfg\<lparr>eg_net0 := live_net live ''bb-net0'' (eg_net0 cfg), eg_fakenet := live_net live ''bb-fakenet'' (eg_fakenet cfg),
      eg_socks := live_net live ''bb-socks'' (eg_socks cfg), eg_vpn := live_net live ''bb-vpn'' (eg_vpn cfg),
      eg_vpn_gateway := gw, eg_uplink := up\<rparr>) = Inr c"
    using assms(1) by (auto simp: adopt_def split: sum.splits)
  from post_init_result [OF this] assms(2) show ?thesis by (auto simp: bridge_names_def)
qed

lemma allocate_checked:
  assumes "allocate_subnets cfg taken auto skip = Inr plan" "in_net (eg_vpn_gateway cfg) (eg_vpn cfg)"
  shows "in_net (eg_vpn_gateway (sp_cfg plan)) (eg_vpn (sp_cfg plan))"
proof -
  obtain a where a: "place_all cfg auto (blocking taken) skip (bridges cfg) (start_alloc cfg) = Inr a"
    using assms by (auto simp: allocate_subnets_def start_alloc_def Let_def split: sum.splits)
  have "(if al_moved a = [] then Inr cfg else egress_post_init (al_cfg a)) = Inr (sp_cfg plan)"
    using assms(1) a by (auto simp: allocate_subnets_def start_alloc_def Let_def split: sum.splits)
  then have "sp_cfg plan = cfg \<or> (\<exists>a :: alloc. egress_post_init (al_cfg a) = Inr (sp_cfg plan))"
    by (auto split: if_splits)
  with assms(2) post_init_addresses(1) show ?thesis by auto
qed

text \<open>
  live bridges are never renumbered.  In a plan every bridge that exists keeps exactly the subnet the
  host reports for it, the gateway lies in the subnet of its bridge, and a bridge that is to be created
  overlaps neither what the host claims nor a live bridge the host counts among its claims.
\<close>

theorem live_bridges_kept:
  assumes "plan_subnets cfg live claimed routes_known allow_unknown auto = Inr plan" "egress_post_init cfg = Inr cfg"
    and "distinct (map fst live)" "fst ` set live \<subseteq> bridge_names"
    and "\<forall>n \<in> bridge_names. is_v4 (live_net live n (bridge_net cfg n)) \<and> net_ok (live_net live n (bridge_net cfg n))"
    and "\<forall>w \<in> snd ` set live. w \<in> set claimed \<and> SUMMARY_PREFIXLEN < prefixlen w"
  shows "(\<forall>(n, w) \<in> set live. bridge_net (sp_cfg plan) n = w)
     \<and> in_net (eg_vpn_gateway (sp_cfg plan)) (eg_vpn (sp_cfg plan))
     \<and> (\<forall>n \<in> settled plan (fst ` set live). \<forall>(m, w) \<in> set live. \<not> overlaps (bridge_net (sp_cfg plan) n) w)"
proof -
  obtain c where c: "adopt cfg live = Inr c" "allocate_subnets c claimed auto (fst ` set live) = Inr plan"
    using assms(1) by (auto simp: plan_subnets_def split: sum.splits if_splits)
  have nets: "\<forall>n \<in> bridge_names. is_v4 (bridge_net c n) \<and> net_ok (bridge_net c n)"
    using assms(5) adopt_nets [OF c(1)] by simp
  note al = allocation_facts [OF c(2) nets]
  have "bridge_net (sp_cfg plan) n = w" if "(n, w) \<in> set live" for n w
  proof -
    have n: "n \<in> bridge_names" "n \<notin> settled plan (fst ` set live)" using that assms(4) by (force simp: settled_def)+
    then have "bridge_net (sp_cfg plan) n = bridge_net c n" using al by blast
    then show ?thesis using adopt_nets [OF c(1) n(1)] that assms(3) by (simp add: live_net_def)
  qed
  moreover have "in_net (eg_vpn_gateway c) (eg_vpn c)"
  proof (cases "live = []")
    case True
    then show ?thesis using c(1) post_init_addresses(1) [OF assms(2)] by (auto simp: adopt_def split: sum.splits if_splits)
  next
    case False
    then obtain c0 where "egress_post_init c0 = Inr c" using c(1) by (auto simp: adopt_def split: sum.splits)
    then show ?thesis by (rule post_init_addresses(1))
  qed
  then have "in_net (eg_vpn_gateway (sp_cfg plan)) (eg_vpn (sp_cfg plan))" by (rule allocate_checked [OF c(2)])
  moreover have "\<not> overlaps (bridge_net (sp_cfg plan) n) w" if "n \<in> settled plan (fst ` set live)" "(m, w) \<in> set live" for n m w
  proof -
    have w: "w \<in> set claimed" "SUMMARY_PREFIXLEN < prefixlen w" using assms(6) that(2) by force+
    have "m \<in> bridge_names" "live_net live m (bridge_net cfg m) = w" using that(2) assms(3,4) by (force simp: live_net_def)+
    then have "is_v4 w" using assms(5) by force
    with w al that(1) show ?thesis by blast
  qed
  ultimately show ?thesis by blast
qed

definition demo_live :: "(string \<times> ipnet) list" where
  "demo_live = [(''bb-vpn'', N4 (octets 10 31 0 0) 16)]"

theorem live_bridges_kept_witness:
  "\<exists>plan. plan_subnets default_cfg demo_live [N4 (octets 10 31 0 0) 16] True False True = Inr plan
     \<and> eg_vpn (sp_cfg plan) = N4 (octets 10 31 0 0) 16 \<and> in_net (eg_vpn_gateway (sp_cfg plan)) (N4 (octets 10 31 0 0) 16)"
proof -
  have "case plan_subnets default_cfg demo_live [N4 (octets 10 31 0 0) 16] True False True of Inl e \<Rightarrow> False | Inr p \<Rightarrow> True"
    by code_simp
  then obtain plan where p: "plan_subnets default_cfg demo_live [N4 (octets 10 31 0 0) 16] True False True = Inr plan"
    by (auto split: sum.splits)
  have "egress_post_init default_cfg = Inr default_cfg" by code_simp
  note f = live_bridges_kept [OF p this]
  have f: "eg_vpn (sp_cfg plan) = N4 (octets 10 31 0 0) 16 \<and> in_net (eg_vpn_gateway (sp_cfg plan)) (eg_vpn (sp_cfg plan))"
    using f by (clarsimp simp: demo_live_def bridge_names_def live_net_def default_cfg_def octets_def SUMMARY_PREFIXLEN_def)
  then have "in_net (eg_vpn_gateway (sp_cfg plan)) (N4 (octets 10 31 0 0) 16)" by metis
  with f p show ?thesis by blast
qed

lemma moved_address:
  assumes "\<forall>w \<in> snd ` set live. is_v4 w \<and> net_ok w \<and> 2 \<le> num_addresses w" "is_v4 old"
  shows "\<exists>a. (if map_of live n = None then Inr addr else adopt_address addr old (live_net live n old)) = Inr a
     \<and> (in_net addr old \<longrightarrow> in_net a (live_net live n old))"
proof (cases "map_of live n")
  case None
  then show ?thesis by (simp add: live_net_def)
next
  case (Some w)
  then have "w \<in> snd ` set live" by (metis image_eqI map_of_SomeD snd_conv)
  then have "is_v4 w \<and> net_ok w \<and> 2 \<le> num_addresses w" using assms(1) by blast
  then show ?thesis using adopt_address_inside [of w old addr] assms(2) Some by (auto simp: live_net_def)
qed

text \<open>
  adoption always succeeds.  From a valid configuration and live IPv4 bridges of at least two addresses
  each, adopting them raises nothing and yields a configuration that passes the checks again, although the
  gateway and the forwarder may have had to move with their bridges.
\<close>

theorem adoption_stays_valid:
  assumes "egress_post_init cfg = Inr cfg" "is_v4 (eg_vpn cfg)" "is_v4 (eg_net0 cfg)"
    and "\<forall>w \<in> snd ` set live. is_v4 w \<and> net_ok w \<and> 2 \<le> num_addresses w"
  shows "\<exists>c. adopt cfg live = Inr c \<and> egress_post_init c = Inr c"
proof -
  obtain gw where gw: "(if map_of live ''bb-vpn'' = None then Inr (eg_vpn_gateway cfg)
        else adopt_address (eg_vpn_gateway cfg) (eg_vpn cfg) (live_net live ''bb-vpn'' (eg_vpn cfg))) = Inr gw"
      "in_net gw (live_net live ''bb-vpn'' (eg_vpn cfg))"
    using moved_address [OF assms(4,2)] post_init_addresses(1) [OF assms(1)] by blast
  obtain up where up: "(if map_of live ''bb-net0'' = None then Inr (eg_uplink cfg)
        else adopt_address (eg_uplink cfg) (eg_net0 cfg) (live_net live ''bb-net0'' (eg_net0 cfg))) = Inr up"
      "eg_mode cfg = ''global'' \<longrightarrow> in_net up (live_net live ''bb-net0'' (eg_net0 cfg))"
    using moved_address [OF assms(4,3)] post_init_addresses(2) [OF assms(1)] by metis
  define c where "c = cfg\<lparr>eg_net0 := live_net live ''bb-net0'' (eg_net0 cfg), eg_fakenet := live_net live ''bb-fakenet'' (eg_fakenet cfg),
      eg_socks := live_net live ''bb-socks'' (eg_socks cfg), eg_vpn := live_net live ''bb-vpn'' (eg_vpn cfg),
      eg_vpn_gateway := gw, eg_uplink := up\<rparr>"
  have strip: "py_strip (eg_wg_iface cfg) = eg_wg_iface cfg"
    using arg_cong [OF post_init_result [OF assms(1)], of eg_wg_iface] by simp
  have "egress_post_init c = Inr c"
    using assms(1) gw(2) up(2) strip by (auto simp: egress_post_init_def iface_of_def c_def split: if_splits)
  then show ?thesis using gw(1) up(1) assms(1) by (auto simp: adopt_def c_def)
qed

theorem adoption_stays_valid_witness:
  "\<exists>c. adopt default_cfg demo_live = Inr c \<and> egress_post_init c = Inr c"
proof (rule adoption_stays_valid)
  show "egress_post_init default_cfg = Inr default_cfg" by code_simp
qed (simp_all add: demo_live_def default_cfg_def octets_def)

section \<open>The name of the routing table\<close>

definition table_entry :: "string \<Rightarrow> string list" where
  "table_entry raw = words (takeWhile (\<lambda>c. c \<noteq> CHR ''#'') raw)"

definition shares_table :: "string \<Rightarrow> string \<Rightarrow> string list \<Rightarrow> bool" where
  "shares_table tid name entry \<longleftrightarrow> 2 \<le> length entry \<and> (entry ! 0 = tid) \<noteq> (entry ! 1 = name)"

text \<open>\<open>ensure_rt_table\<close>: the new content of the file, \<open>None\<close> for the refusal.\<close>

definition ensure_rt_table :: "int \<Rightarrow> string \<Rightarrow> string \<Rightarrow> string option" where
  "ensure_rt_table table_id table existing =
     (let line = str_int table_id @ '' '' @ table
      in if list_ex (shares_table (str_int table_id) table \<circ> table_entry) (split_on newline existing) then None
         else if py_in line existing then Some existing else Some (existing @ line @ [newline]))"

text \<open>The line is looked for as a part of the text: one that was commented out counts as registered.\<close>

lemma commented_alias_not_registered:
  "ensure_rt_table 220 ''bbwg'' ''#220 bbwg'' = Some ''#220 bbwg'' \<and> table_entry ''#220 bbwg'' = []"
  by code_simp

end
