(* ===== verification/Cascade_Tiers.thy ===== *)
theory Cascade_Tiers
  imports Net_Wire Errors
begin

text \<open>
  \<^verbatim>\<open>host/runtime/cascade.py\<close>, the tiers: how a cascade is built from its declaration, which
  transports it may mix, and how a tier that could not be judged at startup joins later.  What a
  backend answers (its transport, its budgets, whether it can be built, whether a sweep failed)
  is data of the run.  The routing of spawns and the repair of tiers are in \<open>Cascade_Slots\<close>.

  The admission pass runs on its own thread, but the in-flight flag excludes a second pass and
  no other operation writes the tiers, the deferred entries or the owed sweeps, so a pass is a
  function; the values of the closing latch that it reads on its way, which other threads set,
  are data of the pass.
\<close>

section \<open>Runtimes, tiers, deferred tiers\<close>

text \<open>
  The attributes of a backend that the cascade reads.  \<open>rt_id\<close> is the identity of the object,
  which is what \<open>==\<close> compares.
\<close>

record tier_runtime =
  rt_id :: nat
  rt_style :: string
  rt_ctx :: "nat option"
  rt_ready :: real
  rt_cfg_resume :: "real option"
  rt_own_resume :: "real option"
  rt_cfg_cli :: "real option"
  rt_own_cli :: "real option"
  rt_repairs :: bool
  rt_sweeps :: bool
  rt_census :: "(int \<times> int \<times> int) option"
  rt_told_egress :: bool

record tier =
  tr_name :: string
  tr_rt :: tier_runtime
  tr_cap :: int

record deferred_tier =
  df_name :: string
  df_cap :: int
  df_pos :: nat
  df_style :: "string option"
  df_ctx :: "nat option"
  df_ready :: real
  df_resume :: "real option"
  df_cli :: "real option"

datatype cascade_error =
    CascadeMisconfigured string
  | CascadeExhausted
  | CascadeSpawnFailed
  | CascadeSlotUnknown

record cascade =
  cs_tiers :: "tier list"
  cs_deferred :: "deferred_tier list"
  cs_admitted :: "nat set"
  cs_retry :: real
  cs_last_admit :: "real option"
  cs_inflight :: bool
  cs_thread :: bool
  cs_closing :: bool
  cs_owed :: "tier_runtime list"
  cs_egress :: bool
  cs_after :: int
  cs_counts :: "int list"
  cs_owner :: "string \<Rightarrow> nat option"
  cs_job_guilty :: "nat set"
  cs_unreported :: "string set"
  cs_episode :: "nat set"
  cs_failures :: "int list"
  cs_recent :: "nat set"

definition cascade_init :: "tier list \<Rightarrow> int option \<Rightarrow> deferred_tier list \<Rightarrow> real \<Rightarrow> cascade_error + cascade" where
  "cascade_init tiers after deferred retry =
     (if tiers = [] then Inl (CascadeMisconfigured ''cascade needs at least one tier'')
      else Inr
        \<lparr>cs_tiers = tiers, cs_deferred = deferred, cs_admitted = {}, cs_retry = retry, cs_last_admit = None,
         cs_inflight = False, cs_thread = False, cs_closing = False, cs_owed = [], cs_egress = False,
         cs_after = (case after of None \<Rightarrow> 4 | Some n \<Rightarrow> max 0 n),
         cs_counts = replicate (length tiers) 0, cs_owner = (\<lambda>_. None), cs_job_guilty = {},
         cs_unreported = {}, cs_episode = {}, cs_failures = replicate (length tiers) 0, cs_recent = {}\<rparr>)"

text \<open>\<open>name#position\<close>: the identity of a tier's base towards the pool.\<close>

definition tier_identity :: "cascade \<Rightarrow> nat \<Rightarrow> string" where
  "tier_identity c i = tr_name (cs_tiers c ! i) @ ''#'' @ str_nat i"

section \<open>Aggregated facts\<close>

definition dispatch_style :: "cascade \<Rightarrow> cascade_error + string" where
  "dispatch_style c =
     (case remdups (map (\<lambda>t. rt_style (tr_rt t)) (cs_tiers c) @ List.map_filter df_style (cs_deferred c)) of
        [] \<Rightarrow> Inr ''file''
      | [s] \<Rightarrow> Inr s
      | _ \<Rightarrow> Inl (CascadeMisconfigured ''mixed dispatch styles''))"

definition network_ctxs :: "tier list \<Rightarrow> nat option list" where
  "network_ctxs ts = map (\<lambda>t. rt_ctx (tr_rt t)) (filter (\<lambda>t. rt_style (tr_rt t) = ''network'') ts)"

definition ssl_context :: "cascade \<Rightarrow> cascade_error + nat option" where
  "ssl_context c =
     (let ctxs = network_ctxs (cs_tiers c)
                 @ map df_ctx (filter (\<lambda>d. df_style d = Some ''network'') (cs_deferred c))
      in if (\<exists>x \<in> set ctxs. x \<noteq> None) \<and> \<not> (\<forall>x \<in> set ctxs. x \<noteq> None)
         then Inl (CascadeMisconfigured ''mixed TLS postures'')
         else Inr (case find (\<lambda>x. x \<noteq> None) ctxs of None \<Rightarrow> None | Some x \<Rightarrow> x))"

definition cascade_readiness :: "cascade \<Rightarrow> real" where
  "cascade_readiness c =
     (let vals = map (\<lambda>t. rt_ready (tr_rt t)) (cs_tiers c) @ map df_ready (cs_deferred c)
      in if vals = [] then 0 else Max (set vals))"

text \<open>\<open>getattr(cfg, field, None) or getattr(runtime, field, None)\<close>: zero falls through.\<close>

definition or_attr :: "real option \<Rightarrow> real option \<Rightarrow> real option" where
  "or_attr a b = (case a of Some x \<Rightarrow> if x = 0 then b else Some x | None \<Rightarrow> b)"

definition max_opt :: "real list \<Rightarrow> real option" where
  "max_opt vals = (if vals = [] then None else Some (Max (set vals)))"

definition cascade_resume :: "cascade \<Rightarrow> real option" where
  "cascade_resume c =
     max_opt (List.map_filter (\<lambda>t. or_attr (rt_cfg_resume (tr_rt t)) (rt_own_resume (tr_rt t))) (cs_tiers c)
              @ List.map_filter df_resume (cs_deferred c))"

definition cascade_cli :: "cascade \<Rightarrow> real option" where
  "cascade_cli c =
     max_opt (List.map_filter (\<lambda>t. or_attr (rt_cfg_cli (tr_rt t)) (rt_own_cli (tr_rt t))) (cs_tiers c)
              @ List.map_filter df_cli (cs_deferred c))"

definition add3 :: "int \<times> int \<times> int \<Rightarrow> int \<times> int \<times> int \<Rightarrow> int \<times> int \<times> int" where
  "add3 p q = (fst p + fst q, fst (snd p) + fst (snd q), snd (snd p) + snd (snd q))"

fun census_sum :: "tier list \<Rightarrow> int \<times> int \<times> int \<Rightarrow> (int \<times> int \<times> int) option" where
  "census_sum [] acc = Some acc"
| "census_sum (t # ts) acc =
     (case rt_census (tr_rt t) of None \<Rightarrow> None | Some g \<Rightarrow> census_sum ts (add3 acc g))"

definition egress_census :: "cascade \<Rightarrow> (int \<times> int \<times> int) option" where
  "egress_census c = (if cs_deferred c \<noteq> [] then None else census_sum (cs_tiers c) (0, 0, 0))"

section \<open>The declaration\<close>

text \<open>\<open>item.partition(':')\<close>.\<close>

definition before :: "char \<Rightarrow> string \<Rightarrow> string" where "before ch s = takeWhile (\<lambda>c. c \<noteq> ch) s"
definition after :: "char \<Rightarrow> string \<Rightarrow> string" where "after ch s = drop 1 (dropWhile (\<lambda>c. c \<noteq> ch) s)"

definition parse_tier :: "string \<Rightarrow> cascade_error + (string \<times> int)" where
  "parse_tier item =
     (let name = py_strip (before CHR '':'' item); cap = after CHR '':'' item
      in if name = [] \<or> py_strip cap = [] then Inl (CascadeMisconfigured ''tier spec must be backend:capacity'')
         else case py_int cap of
           None \<Rightarrow> Inl (CascadeMisconfigured ''capacity is not an int'')
         | Some n \<Rightarrow> if n < 1 then Inl (CascadeMisconfigured ''capacity must be >= 1'') else Inr (name, n))"

fun parse_tier_items :: "string list \<Rightarrow> cascade_error + (string \<times> int) list" where
  "parse_tier_items [] = Inr []"
| "parse_tier_items (raw # items) =
     (let item = py_strip raw
      in if item = [] then parse_tier_items items
         else case parse_tier item of
           Inl e \<Rightarrow> Inl e
         | Inr x \<Rightarrow> (case parse_tier_items items of Inl e \<Rightarrow> Inl e | Inr xs \<Rightarrow> Inr (x # xs)))"

definition parse_tiers :: "string \<Rightarrow> cascade_error + (string \<times> int) list" where
  "parse_tiers spec = parse_tier_items (split_on CHR '','' spec)"

definition rebuild_after_env :: "string \<Rightarrow> int" where
  "rebuild_after_env raw =
     (if py_strip raw = [] then 4 else case py_int (py_strip raw) of None \<Rightarrow> 4 | Some n \<Rightarrow> max 0 n)"

text \<open>
  What constructing a backend answers: the runtime, or an exception that is a verdict or is
  none (\<open>_is_undecided_availability\<close>).  The declared budgets are read from a construction
  without a probe, which may fail too.
\<close>

datatype build_answer = Built tier_runtime | Undecided | Unusable

definition declared :: "string \<Rightarrow> int \<Rightarrow> nat \<Rightarrow> tier_runtime option \<Rightarrow> deferred_tier" where
  "declared name cap pos rt =
     (case rt of
        None \<Rightarrow> \<lparr>df_name = name, df_cap = cap, df_pos = pos, df_style = None, df_ctx = None, df_ready = 0,
                 df_resume = None, df_cli = None\<rparr>
      | Some r \<Rightarrow> \<lparr>df_name = name, df_cap = cap, df_pos = pos, df_style = Some (rt_style r), df_ctx = rt_ctx r,
                   df_ready = rt_ready r,
                   df_resume = or_attr (rt_cfg_resume r) (rt_own_resume r),
                   df_cli = or_attr (rt_cfg_cli r) (rt_own_cli r)\<rparr>)"

fun collect :: "nat \<Rightarrow> (string \<times> int) list \<Rightarrow> (build_answer \<times> tier_runtime option) list
    \<Rightarrow> cascade_error + (tier list \<times> deferred_tier list)" where
  "collect pos ((name, cap) # parsed) ((a, decl) # answers) =
     (case a of
        Built rt \<Rightarrow>
          (case collect (Suc pos) parsed answers of
             Inl e \<Rightarrow> Inl e
           | Inr (ts, ds) \<Rightarrow> Inr (\<lparr>tr_name = name, tr_rt = rt, tr_cap = cap\<rparr> # ts, ds))
      | Undecided \<Rightarrow>
          if pos = 0 then Inl (CascadeMisconfigured ''primary tier: could not determine availability'')
          else (case collect (Suc pos) parsed answers of
             Inl e \<Rightarrow> Inl e
           | Inr (ts, ds) \<Rightarrow> Inr (ts, declared name cap pos decl # ds))
      | Unusable \<Rightarrow>
          if pos = 0 then Inl (CascadeMisconfigured ''primary tier is unavailable'')
          else collect (Suc pos) parsed answers)"
| "collect pos _ _ = Inr ([], [])"

definition build_cascade_runtime ::
    "string \<Rightarrow> string \<Rightarrow> int option \<Rightarrow> (build_answer \<times> tier_runtime option) list \<Rightarrow> cascade_error + cascade" where
  "build_cascade_runtime spec raw_rebuild rebuild answers =
     (case parse_tiers spec of
        Inl e \<Rightarrow> Inl e
      | Inr [] \<Rightarrow> Inl (CascadeMisconfigured ''BLASTBOX_POOL_TIERS is empty'')
      | Inr parsed \<Rightarrow>
          (case collect 0 parsed answers of
             Inl e \<Rightarrow> Inl e
           | Inr (ts, ds) \<Rightarrow>
               if ts = [] then Inl (CascadeMisconfigured ''no cascade tier is available'')
               else cascade_init ts
                 (Some (max 0 (case rebuild of Some n \<Rightarrow> n | None \<Rightarrow> rebuild_after_env raw_rebuild))) ds 60))"

section \<open>Admission of deferred tiers\<close>

definition transport_conflict :: "cascade \<Rightarrow> tier_runtime \<Rightarrow> bool" where
  "transport_conflict c rt \<longleftrightarrow>
     (let admitted = map (\<lambda>t. rt_style (tr_rt t)) (cs_tiers c); ctxs = network_ctxs (cs_tiers c)
      in (admitted \<noteq> [] \<and> rt_style rt \<notin> set admitted)
         \<or> (rt_style rt = ''network'' \<and> ctxs \<noteq> []
            \<and> (rt_ctx rt \<noteq> None) \<noteq> (\<exists>x \<in> set ctxs. x \<noteq> None)))"

text \<open>
  The answers one entry meets: the latch before the build, the build, the latch before the
  tier is published, the latch before its sweep, and whether the sweep returns.  A pass whose
  answers end before its entries stops there, as at the latch.
\<close>

record tier_probe =
  pr_closing1 :: bool
  pr_build :: build_answer
  pr_closing2 :: bool
  pr_closing3 :: bool
  pr_swept :: bool

definition tell_egress :: "tier_runtime \<Rightarrow> tier_runtime" where "tell_egress rt = rt\<lparr>rt_told_egress := True\<rparr>"

definition published :: "cascade \<Rightarrow> tier_runtime \<Rightarrow> tier_runtime" where
  "published c rt = (if cs_egress c then tell_egress rt else rt)"

definition publish_tier :: "deferred_tier \<Rightarrow> tier_runtime \<Rightarrow> cascade \<Rightarrow> cascade" where
  "publish_tier d rt c =
     c\<lparr>cs_tiers := cs_tiers c @ [\<lparr>tr_name = df_name d, tr_rt = published c rt, tr_cap = df_cap d\<rparr>],
       cs_admitted := insert (df_pos d) (cs_admitted c),
       cs_counts := cs_counts c @ [0], cs_failures := cs_failures c @ [0]\<rparr>"

definition first_sweep :: "tier_runtime \<Rightarrow> tier_probe \<Rightarrow> cascade \<Rightarrow> cascade" where
  "first_sweep rt p c =
     (if pr_closing3 p \<or> (rt_sweeps rt \<and> \<not> pr_swept p) then c\<lparr>cs_owed := cs_owed c @ [rt]\<rparr> else c)"

text \<open>The loop: the entries that stay deferred, the number admitted, the state.\<close>

fun probe_loop :: "deferred_tier list \<Rightarrow> tier_probe list \<Rightarrow> cascade \<Rightarrow> deferred_tier list \<times> nat \<times> cascade" where
  "probe_loop (d # pending) (p # ps) c =
     (if pr_closing1 p then (d # pending, 0, c)
      else case pr_build p of
        Undecided \<Rightarrow> (case probe_loop pending ps c of (st, n, c') \<Rightarrow> (d # st, n, c'))
      | Unusable \<Rightarrow> probe_loop pending ps c
      | Built rt \<Rightarrow>
          if df_pos d \<in> cs_admitted c then probe_loop pending ps c
          else if transport_conflict c rt then probe_loop pending ps c
          else if pr_closing2 p then (d # pending, 0, c)
          else (case probe_loop pending ps (first_sweep (published c rt) p (publish_tier d rt c)) of
                  (st, n, c') \<Rightarrow> (st, Suc n, c')))"
| "probe_loop pending _ c = (pending, 0, c)"

definition admit_probe :: "real \<Rightarrow> tier_probe list \<Rightarrow> cascade \<Rightarrow> nat \<times> cascade" where
  "admit_probe now ps c =
     (case probe_loop (cs_deferred c) ps c of
        (st, n, c') \<Rightarrow>
          (n, c'\<lparr>cs_last_admit := Some now, cs_deferred := filter (\<lambda>d. df_pos d \<notin> cs_admitted c') st\<rparr>))"

definition rate_limited :: "real \<Rightarrow> cascade \<Rightarrow> bool" where
  "rate_limited now c = (case cs_last_admit c of None \<Rightarrow> False | Some t \<Rightarrow> now - t < cs_retry c)"

text \<open>The synchronous pass; \<open>fin\<close> is the clock at its end.\<close>

definition admit_deferred :: "real \<Rightarrow> real \<Rightarrow> tier_probe list \<Rightarrow> cascade \<Rightarrow> nat \<times> cascade" where
  "admit_deferred now fin ps c =
     (if cs_deferred c = [] \<or> cs_inflight c \<or> rate_limited now c then (0, c)
      else case admit_probe fin ps (c\<lparr>cs_last_admit := Some now, cs_inflight := True\<rparr>) of
        (n, c') \<Rightarrow> (n, c'\<lparr>cs_inflight := False\<rparr>))"

text \<open>The start of a pass on its own thread; the host may refuse the thread.\<close>

definition admit_start :: "real \<Rightarrow> bool \<Rightarrow> cascade \<Rightarrow> cascade" where
  "admit_start now started c =
     (if cs_closing c \<or> cs_inflight c \<or> (cs_deferred c = [] \<and> cs_owed c = []) \<or> cs_thread c \<or> rate_limited now c
      then c
      else if started then c\<lparr>cs_last_admit := Some now, cs_inflight := True, cs_thread := True\<rparr>
      else c\<lparr>cs_inflight := False, cs_thread := False\<rparr>)"

text \<open>The owed sweeps: per entry the latch and whether the sweep returns.\<close>

fun sweep_loop :: "tier_runtime list \<Rightarrow> (bool \<times> bool) list \<Rightarrow> cascade \<Rightarrow> cascade" where
  "sweep_loop (rt # owed) ((closing, ok) # as) c =
     (if closing then c\<lparr>cs_owed := cs_owed c @ rt # owed\<rparr>
      else if rt_sweeps rt \<and> \<not> ok then sweep_loop owed as (c\<lparr>cs_owed := cs_owed c @ [rt]\<rparr>)
      else sweep_loop owed as c)"
| "sweep_loop owed _ c = c\<lparr>cs_owed := cs_owed c @ owed\<rparr>"

definition run_owed_sweeps :: "bool \<Rightarrow> (bool \<times> bool) list \<Rightarrow> cascade \<Rightarrow> cascade" where
  "run_owed_sweeps closing as c =
     (if closing then c else sweep_loop (cs_owed c) as (c\<lparr>cs_owed := []\<rparr>))"

definition admit_probe_bg ::
    "bool \<Rightarrow> (bool \<times> bool) list \<Rightarrow> bool \<Rightarrow> real \<Rightarrow> tier_probe list \<Rightarrow> cascade \<Rightarrow> cascade" where
  "admit_probe_bg closing0 as closing1 now ps c =
     (let c1 = run_owed_sweeps closing0 as c;
          c2 = (if closing1 then c1 else snd (admit_probe now ps c1))
      in c2\<lparr>cs_inflight := False, cs_thread := False\<rparr>)"

definition reopen :: "cascade \<Rightarrow> cascade" where "reopen c = c\<lparr>cs_closing := False\<rparr>"
definition begin_close :: "cascade \<Rightarrow> cascade" where "begin_close c = c\<lparr>cs_closing := True\<rparr>"
definition require_egress :: "cascade \<Rightarrow> cascade" where 
  "require_egress c =
     c\<lparr>cs_egress := True, cs_tiers := map (\<lambda>t. t\<lparr>tr_rt := tell_egress (tr_rt t)\<rparr>) (cs_tiers c),
       cs_owed := map tell_egress (cs_owed c)\<rparr>"

section \<open>The declaration is read back\<close>

definition render_tier :: "string \<times> int \<Rightarrow> string" where
  "render_tier x = fst x @ CHR '':'' # str_nat (nat (snd x))"

fun join_items :: "string list \<Rightarrow> string" where
  "join_items [] = []"
| "join_items [x] = x"
| "join_items (x # y # zs) = x @ CHR '','' # join_items (y # zs)"

definition tier_name_ok :: "string \<Rightarrow> bool" where
  "tier_name_ok s \<longleftrightarrow> s \<noteq> [] \<and> py_strip s = s \<and> CHR '':'' \<notin> set s \<and> CHR '','' \<notin> set s"

lemma split_on_plain: "ch \<notin> set s \<Longrightarrow> split_on ch s = [s]"
  by (induction s) auto

lemma split_on_append: "ch \<notin> set s \<Longrightarrow> split_on ch (s @ ch # t) = s # split_on ch t"
  by (induction s) auto

lemma split_join: "xs \<noteq> [] \<Longrightarrow> (\<forall>x \<in> set xs. CHR '','' \<notin> set x) \<Longrightarrow> split_on CHR '','' (join_items xs) = xs"
  by (induction xs rule: join_items.induct) (auto simp: split_on_plain split_on_append)

lemma before_colon: "CHR '':'' \<notin> set s \<Longrightarrow> before CHR '':'' (s @ CHR '':'' # t) = s"
  unfolding before_def by (induction s) auto

lemma after_colon: "CHR '':'' \<notin> set s \<Longrightarrow> after CHR '':'' (s @ CHR '':'' # t) = t"
  unfolding after_def by (induction s) auto

lemma strip_no_ends:
  "py_strip s = s \<Longrightarrow> s \<noteq> [] \<Longrightarrow> \<not> is_space (hd s) \<and> \<not> is_space (last s)"
proof -
  assume a: "py_strip s = s" "s \<noteq> []"
  have f: "dropWhile is_space xs \<noteq> [] \<Longrightarrow> \<not> is_space (hd (dropWhile is_space xs))" for xs
    by (rule hd_dropWhile)
  have l: "\<not> is_space (last s)"
  proof -
    have "rev s = dropWhile is_space (rev (dropWhile is_space s))"
      using a(1) unfolding py_strip_def by (metis rev_rev_ident)
    then show ?thesis using f a(2) by (metis hd_rev rev_is_Nil_conv)
  qed
  moreover have "\<not> is_space (hd s)"
  proof
    assume sp: "is_space (hd s)"
    have "length (py_strip s) \<le> length (dropWhile is_space s)"
      unfolding py_strip_def by (metis length_dropWhile_le length_rev)
    moreover have "length (dropWhile is_space s) < length s"
      using sp a(2) by (cases s) (auto simp: le_imp_less_Suc length_dropWhile_le)
    ultimately show False using a(1) by simp
  qed
  ultimately show ?thesis by blast
qed

lemma str_nat_last: "\<not> is_space (last (str_nat n))"
  using str_nat_plain [of "last (str_nat n)" n] by simp

lemma render_tier_facts:
  assumes "tier_name_ok (fst x)" "1 \<le> snd x"
  shows "py_strip (render_tier x) = render_tier x" "render_tier x \<noteq> []" "CHR '','' \<notin> set (render_tier x)"
    "parse_tier (render_tier x) = Inr x"
proof -
  have n: "fst x \<noteq> []" "py_strip (fst x) = fst x" "CHR '':'' \<notin> set (fst x)" "CHR '','' \<notin> set (fst x)"
    using assms(1) by (auto simp: tier_name_ok_def)
  have h: "\<not> is_space (hd (fst x))" using strip_no_ends [OF n(2) n(1)] by blast
  show "render_tier x \<noteq> []" by (simp add: render_tier_def)
  show "py_strip (render_tier x) = render_tier x"
    using n(1) h str_nat_last [of "nat (snd x)"] by (intro strip_keep) (simp_all add: render_tier_def)
  show "CHR '','' \<notin> set (render_tier x)"
    using n(4) str_nat_plain [of "CHR '',''" "nat (snd x)"] by (auto simp: render_tier_def)
  have "py_strip (str_nat (nat (snd x))) = str_nat (nat (snd x))"
    by (rule strip_plain) (use str_nat_plain in blast)
  then show "parse_tier (render_tier x) = Inr x"
    using n assms(2)
    by (simp add: parse_tier_def render_tier_def before_colon after_colon py_int_str_nat Let_def)
qed

lemma parse_tier_items_render:
  "(\<forall>x \<in> set ts. tier_name_ok (fst x) \<and> 1 \<le> snd x) \<Longrightarrow> parse_tier_items (map render_tier ts) = Inr ts"
  by (induction ts) (simp_all add: render_tier_facts Let_def)

text \<open>
  C29: BLASTBOX_POOL_TIERS round trip.  A list of backends, the same name more than once if wanted,
  written as name:capacity items separated by commas is read back in order, when every name is
  non-empty, without surrounding blanks, colons and commas, and every capacity at least one.
\<close>

theorem tiers_round_trip:
  assumes "ts \<noteq> []" "\<forall>x \<in> set ts. tier_name_ok (fst x) \<and> 1 \<le> snd x"
  shows "parse_tiers (join_items (map render_tier ts)) = Inr ts"
  unfolding parse_tiers_def
  using assms by (subst split_join) (auto simp: render_tier_facts parse_tier_items_render)

theorem tiers_round_trip_witness:
  "parse_tiers (join_items (map render_tier [(''static'', 4), (''aws-ec2'', 16), (''static'', 2)]))
   = Inr [(''static'', 4), (''aws-ec2'', 16), (''static'', 2)]"
  by (rule tiers_round_trip) (simp_all add: tier_name_ok_def py_strip_def is_space_def Let_def)

lemma parse_tier_items_valid:
  "parse_tier_items items = Inr ts \<Longrightarrow> (n, k) \<in> set ts \<Longrightarrow> n \<noteq> [] \<and> 1 \<le> k"
proof (induction items arbitrary: ts)
  case (Cons raw items)
  then show ?case
    by (auto simp: Let_def parse_tier_def split: if_splits sum.splits option.splits)
qed simp

section \<open>What startup builds\<close>

definition built_tiers :: "(string \<times> int) list \<Rightarrow> (build_answer \<times> tier_runtime option) list \<Rightarrow> tier list" where
  "built_tiers parsed answers =
     List.map_filter (\<lambda>((name, cap), a, _).
        case a of Built rt \<Rightarrow> Some \<lparr>tr_name = name, tr_rt = rt, tr_cap = cap\<rparr> | _ \<Rightarrow> None) (zip parsed answers)"

definition undecided_tiers ::
    "nat \<Rightarrow> (string \<times> int) list \<Rightarrow> (build_answer \<times> tier_runtime option) list \<Rightarrow> deferred_tier list" where
  "undecided_tiers pos parsed answers =
     List.map_filter (\<lambda>(i, (name, cap), a, decl).
        case a of Undecided \<Rightarrow> Some (declared name cap i decl) | _ \<Rightarrow> None)
       (zip [pos..<pos + length parsed] (zip parsed answers))"

lemma collect_later:
  "length answers = length parsed \<Longrightarrow> 0 < pos
   \<Longrightarrow> collect pos parsed answers = Inr (built_tiers parsed answers, undecided_tiers pos parsed answers)"
proof (induction pos parsed answers rule: collect.induct)
  case (1 pos name cap parsed a decl answers)
  have u: "[pos..<Suc (pos + length parsed)] = pos # [Suc pos..<Suc (pos + length parsed)]"
    by (rule upt_conv_Cons) simp
  from 1 show ?case
    by (cases a) (simp_all add: built_tiers_def undecided_tiers_def u del: upt_Suc)
qed (auto simp: built_tiers_def undecided_tiers_def)

text \<open>
  What a declaration becomes.  For a declaration that parses to at least one backend, a cascade
  comes up exactly when the first backend can be built, whatever the others answer.  It then has
  the tiers that could be built, in their declared order, with no slot counted; the later
  backends whose availability could not be determined wait as deferred tiers under their declared
  position, and those that are confirmed unusable are left out.
\<close>

theorem startup_exact:
  assumes "parse_tiers spec = Inr ((name, cap) # parsed)" "length answers = Suc (length parsed)"
  shows "case build_cascade_runtime spec raw n answers of
           Inl e \<Rightarrow> (\<forall>rt. fst (hd answers) \<noteq> Built rt)
         | Inr c \<Rightarrow> (\<exists>rt. fst (hd answers) = Built rt)
             \<and> cs_tiers c = built_tiers ((name, cap) # parsed) answers
             \<and> cs_deferred c = undecided_tiers 0 ((name, cap) # parsed) answers
             \<and> cs_counts c = replicate (length (cs_tiers c)) 0 \<and> 0 \<le> cs_after c"
proof -
  obtain a decl as where a: "answers = (a, decl) # as" using assms(2) by (cases answers) auto
  have u: "[0..<Suc (length parsed)] = 0 # [Suc 0..<Suc (length parsed)]" by (rule upt_conv_Cons) simp
  have c: "collect (Suc 0) parsed as = Inr (built_tiers parsed as, undecided_tiers (Suc 0) parsed as)"
    by (rule collect_later) (use assms(2) a in simp_all)
  show ?thesis
    unfolding build_cascade_runtime_def assms(1) a
    by (cases a) (simp_all add: c cascade_init_def built_tiers_def undecided_tiers_def u del: upt_Suc)
qed

end
