(* ===== verification/Cascade_Admission.thy ===== *)
theory Cascade_Admission
  imports Cascade_Tiers
begin

text \<open>
  What the admission of deferred tiers keeps: the transport the dispatcher chose at startup, the
  declared entries and capacity, the owed sweeps, the egress demand, over every history of
  passes, starts, sweeps, shutdowns and other operations of the cascade.
\<close>

section \<open>One transport\<close>

definition one_transport :: "string \<Rightarrow> bool \<Rightarrow> cascade \<Rightarrow> bool" where
  "one_transport s m c \<longleftrightarrow>
     (\<forall>t \<in> set (cs_tiers c). rt_style (tr_rt t) = s \<and> (s = ''network'' \<longrightarrow> (rt_ctx (tr_rt t) \<noteq> None) = m))"

lemma remdups_single: "remdups xs = [s] \<Longrightarrow> x \<in> set xs \<Longrightarrow> x = s"
  by (metis empty_iff empty_set set_ConsD set_remdups)

lemma style_uniform:
  "dispatch_style c = Inr s \<Longrightarrow> t \<in> set (cs_tiers c) \<Longrightarrow> rt_style (tr_rt t) = s"
  unfolding dispatch_style_def
  by (auto split: list.splits dest!: remdups_single [of _ _ "rt_style (tr_rt t)"])

lemma ctx_uniform:
  assumes "ssl_context c = Inr x" "t \<in> set (cs_tiers c)" "rt_style (tr_rt t) = ''network''"
  shows "(rt_ctx (tr_rt t) \<noteq> None) = (x \<noteq> None)"
proof -
  define ctxs where "ctxs = network_ctxs (cs_tiers c) @ map df_ctx (filter (\<lambda>d. df_style d = Some ''network'') (cs_deferred c))"
  have mem: "rt_ctx (tr_rt t) \<in> set ctxs" using assms(2,3) by (auto simp: ctxs_def network_ctxs_def)
  have alt: "(\<forall>y \<in> set ctxs. y = None) \<or> (\<forall>y \<in> set ctxs. y \<noteq> None)"
    and x: "x = (case find (\<lambda>x. x \<noteq> None) ctxs of None \<Rightarrow> None | Some x \<Rightarrow> x)"
    using assms(1) unfolding ssl_context_def ctxs_def [symmetric] by (auto simp: Let_def split: if_splits)
  show ?thesis
  proof (cases "\<exists>y \<in> set ctxs. y \<noteq> None")
    case True
    then obtain y where y: "find (\<lambda>x. x \<noteq> None) ctxs = Some y" "y \<noteq> None"
      by (metis (mono_tags, lifting) find_None_iff find_Some_iff not_None_eq)
    then have "x \<noteq> None" using x by simp
    with True alt mem show ?thesis by blast
  next
    case False
    then have "find (\<lambda>x. x \<noteq> None) ctxs = None" by (simp add: find_None_iff)
    with x False mem show ?thesis by simp
  qed
qed

lemma startup_one_transport:
  "dispatch_style c = Inr s \<Longrightarrow> ssl_context c = Inr x \<Longrightarrow> one_transport s (x \<noteq> None) c"
  unfolding one_transport_def using style_uniform ctx_uniform by blast

lemma conflict_iff:
  assumes "cs_tiers c \<noteq> []" "one_transport s m c"
  shows "transport_conflict c rt \<longleftrightarrow> rt_style rt \<noteq> s \<or> (s = ''network'' \<and> (rt_ctx rt \<noteq> None) \<noteq> m)"
proof -
  have styles: "set (map (\<lambda>t. rt_style (tr_rt t)) (cs_tiers c)) = {s}"
    using assms by (cases "cs_tiers c") (auto simp: one_transport_def)
  have ctx: "network_ctxs (cs_tiers c) \<noteq> [] \<and> (\<exists>x \<in> set (network_ctxs (cs_tiers c)). x \<noteq> None) = m"
    if "s = ''network''"
    using assms that by (cases "cs_tiers c") (auto simp: one_transport_def network_ctxs_def)
  show ?thesis
    unfolding transport_conflict_def Let_def styles using assms(1) ctx by auto
qed

section \<open>One pass\<close>

lemma told_simps [simp]:
  "rt_style (tell_egress rt) = rt_style rt" "rt_ctx (tell_egress rt) = rt_ctx rt"
  "rt_sweeps (tell_egress rt) = rt_sweeps rt" "rt_id (tell_egress rt) = rt_id rt"
  "rt_told_egress (tell_egress rt)"
  by (simp_all add: tell_egress_def)

lemma published_simps [simp]:
  "rt_style (published c rt) = rt_style rt" "rt_ctx (published c rt) = rt_ctx rt"
  "rt_sweeps (published c rt) = rt_sweeps rt" "rt_id (published c rt) = rt_id rt"
  "cs_egress c \<Longrightarrow> rt_told_egress (published c rt)"
  by (simp_all add: published_def)

lemma publish_tier_simps [simp]:
  "cs_tiers (publish_tier d rt c) = cs_tiers c @ [\<lparr>tr_name = df_name d, tr_rt = published c rt, tr_cap = df_cap d\<rparr>]"
  "cs_admitted (publish_tier d rt c) = insert (df_pos d) (cs_admitted c)"
  "cs_counts (publish_tier d rt c) = cs_counts c @ [0]" "cs_failures (publish_tier d rt c) = cs_failures c @ [0]"
  "cs_deferred (publish_tier d rt c) = cs_deferred c" "cs_owed (publish_tier d rt c) = cs_owed c"
  "cs_owner (publish_tier d rt c) = cs_owner c" "cs_egress (publish_tier d rt c) = cs_egress c"
  by (simp_all add: publish_tier_def)

lemma first_sweep_simps [simp]:
  "cs_tiers (first_sweep rt p c) = cs_tiers c" "cs_admitted (first_sweep rt p c) = cs_admitted c"
  "cs_counts (first_sweep rt p c) = cs_counts c" "cs_failures (first_sweep rt p c) = cs_failures c"
  "cs_deferred (first_sweep rt p c) = cs_deferred c" "cs_owner (first_sweep rt p c) = cs_owner c"
  "cs_egress (first_sweep rt p c) = cs_egress c"
  "set (cs_owed c) \<subseteq> set (cs_owed (first_sweep rt p c))"
  by (auto simp: first_sweep_def)

text \<open>The cases of the loop as an induction rule on its result.\<close>

lemma probe_loop_induct [consumes 1, case_names stop keep skip admit]:
  assumes "probe_loop ds ps c = (st, n, c')"
    and "\<And>ds ps c. P ds ps c ds 0 c"
    and "\<And>d ds p ps c st n c'. probe_loop ds ps c = (st, n, c') \<Longrightarrow> P ds ps c st n c' \<Longrightarrow> pr_build p = Undecided \<Longrightarrow> P (d # ds) (p # ps) c (d # st) n c'"
    and "\<And>d ds p ps c st n c'. probe_loop ds ps c = (st, n, c') \<Longrightarrow> P ds ps c st n c'
          \<Longrightarrow> pr_build p = Unusable \<or> (\<exists>rt. pr_build p = Built rt \<and> (df_pos d \<in> cs_admitted c \<or> transport_conflict c rt))
          \<Longrightarrow> P (d # ds) (p # ps) c st n c'"
    and "\<And>d ds p ps c st n c' rt. probe_loop ds ps (first_sweep (published c rt) p (publish_tier d rt c)) = (st, n, c')
          \<Longrightarrow> P ds ps (first_sweep (published c rt) p (publish_tier d rt c)) st n c'
          \<Longrightarrow> pr_build p = Built rt \<Longrightarrow> df_pos d \<notin> cs_admitted c \<Longrightarrow> \<not> transport_conflict c rt
          \<Longrightarrow> P (d # ds) (p # ps) c st (Suc n) c'"
  shows "P ds ps c st n c'"
  using assms(1)
proof (induction ds ps c arbitrary: st n c' rule: probe_loop.induct)
  case (1 d pending p ps c)
  show ?case
  proof (cases "pr_closing1 p")
    case True
    with "1.prems" show ?thesis using assms(2) by simp
  next
    case open1: False
    show ?thesis
    proof (cases "pr_build p")
      case Undecided
      with "1.prems" open1 obtain st' where "probe_loop pending ps c = (st', n, c')" "st = d # st'"
        by (auto split: prod.splits)
      with "1.IH"(4) [OF open1 Undecided] Undecided show ?thesis using assms(3) by blast
    next
      case Unusable
      with "1.prems" open1 "1.IH"(5) [OF open1 Unusable] show ?thesis using assms(4) by simp
    next
      case (Built rt)
      consider "df_pos d \<in> cs_admitted c" | "df_pos d \<notin> cs_admitted c" "transport_conflict c rt"
        | "df_pos d \<notin> cs_admitted c" "\<not> transport_conflict c rt" "pr_closing2 p"
        | "df_pos d \<notin> cs_admitted c" "\<not> transport_conflict c rt" "\<not> pr_closing2 p" by blast
      then show ?thesis
      proof cases
        case 1
        with "1.prems" open1 Built "1.IH"(1) [OF open1 Built 1] show ?thesis using assms(4) by simp
      next
        case 2
        with "1.prems" open1 Built "1.IH"(2) [OF open1 Built 2] show ?thesis using assms(4) by simp
      next
        case 3
        with "1.prems" open1 Built show ?thesis using assms(2) by simp
      next
        case 4
        with "1.prems" open1 Built obtain m
          where m: "probe_loop pending ps (first_sweep (published c rt) p (publish_tier d rt c)) = (st, m, c')" "n = Suc m"
          by (auto split: prod.splits)
        from "1.IH"(3) [OF open1 Built 4 m(1)] show ?thesis
          unfolding m(2) using m(1) Built 4 assms(5) [where d = d and ds = pending and p = p and ps = ps and rt = rt] by blast
      qed
    qed
  qed
qed (use assms(2) in auto)

lemma probe_loop_appends:
  "probe_loop ds ps c = (st, n, c') \<Longrightarrow>
     \<exists>new. cs_tiers c' = cs_tiers c @ new \<and> length new = n
        \<and> cs_counts c' = cs_counts c @ replicate n 0 \<and> cs_failures c' = cs_failures c @ replicate n 0
        \<and> cs_owner c' = cs_owner c \<and> cs_egress c' = cs_egress c \<and> set (cs_owed c) \<subseteq> set (cs_owed c')
        \<and> (cs_egress c \<longrightarrow> (\<forall>t \<in> set new. rt_told_egress (tr_rt t)))"
proof (induction rule: probe_loop_induct)
  case (admit d ds p ps c st n c' rt)
  let ?t = "\<lparr>tr_name = df_name d, tr_rt = published c rt, tr_cap = df_cap d\<rparr>"
  from admit.IH obtain new where new: "cs_tiers c' = (cs_tiers c @ [?t]) @ new" "length new = n"
    "cs_counts c' = (cs_counts c @ [0]) @ replicate n 0" "cs_failures c' = (cs_failures c @ [0]) @ replicate n 0"
    "cs_owner c' = cs_owner c" "cs_egress c' = cs_egress c"
    "set (cs_owed (first_sweep (published c rt) p (publish_tier d rt c))) \<subseteq> set (cs_owed c')"
    "cs_egress c \<longrightarrow> (\<forall>t \<in> set new. rt_told_egress (tr_rt t))"
    by auto
  have ow: "set (cs_owed c) \<subseteq> set (cs_owed c')" using new(7) first_sweep_simps(8) publish_tier_simps(6) by (metis subset_trans)
  show ?case
    by (rule exI [of _ "?t # new"]) (use new ow in \<open>simp add: replicate_append_same [symmetric]\<close>)
qed auto

lemma publish_one_transport:
  assumes "cs_tiers c \<noteq> []" "one_transport s m c" "\<not> transport_conflict c rt"
  shows "one_transport s m (first_sweep (published c rt) p (publish_tier d rt c))"
  using assms(2) conflict_iff [OF assms(1,2), of rt] assms(3) by (auto simp: one_transport_def)

lemma probe_loop_transport:
  "probe_loop ds ps c = (st, n, c') \<Longrightarrow> cs_tiers c \<noteq> [] \<Longrightarrow> one_transport s m c \<Longrightarrow> one_transport s m c'"
proof (induction rule: probe_loop_induct)
  case (admit d ds p ps c st n c' rt)
  then show ?case using publish_one_transport by simp
qed auto

text \<open>
  What happens to each entry.  The verdict is the one on the cascade the pass started with:
  admissions do not change the transport, so they do not change who conflicts with it.
\<close>

definition ruled_out :: "cascade \<Rightarrow> tier_probe \<Rightarrow> bool" where
  "ruled_out c p \<longleftrightarrow> (case pr_build p of Undecided \<Rightarrow> False | Unusable \<Rightarrow> True | Built rt \<Rightarrow> transport_conflict c rt)"

definition seats :: "deferred_tier \<Rightarrow> tier \<Rightarrow> bool" where
  "seats d t \<longleftrightarrow> tr_name t = df_name d \<and> tr_cap t = df_cap d"

definition swept_or_owed :: "cascade \<Rightarrow> tier_probe \<Rightarrow> tier \<Rightarrow> bool" where
  "swept_or_owed c p t \<longleftrightarrow> rt_sweeps (tr_rt t) \<longrightarrow> (pr_swept p \<and> \<not> pr_closing3 p) \<or> tr_rt t \<in> set (cs_owed c)"

lemma probe_loop_admitted:
  "probe_loop ds ps c = (st, n, c') \<Longrightarrow> cs_admitted c' \<subseteq> cs_admitted c \<union> df_pos ` set ds"
proof (induction rule: probe_loop_induct)
  case (admit d ds p ps c st n c' rt)
  then show ?case by auto
qed auto

lemma probe_loop_fate:
  assumes "probe_loop ds ps c = (st, n, c')" "cs_tiers c \<noteq> []" "one_transport s m c"
    "distinct (map df_pos ds)" "\<forall>d \<in> set ds. df_pos d \<notin> cs_admitted c" "d \<in> set ds"
  shows "d \<in> set st \<and> df_pos d \<notin> cs_admitted c'
       \<or> (\<exists>p. (d, p) \<in> set (zip ds ps) \<and> ruled_out c p)
       \<or> (\<exists>p t. (d, p) \<in> set (zip ds ps) \<and> t \<in> set (cs_tiers c') \<and> seats d t \<and> swept_or_owed c' p t)"
  using assms
proof (induction rule: probe_loop_induct)
  case (keep e ds p ps c st n c')
  show ?case
  proof (cases "d = e")
    case True
    have "df_pos e \<notin> cs_admitted c'"
      using probe_loop_admitted [OF keep.hyps(1)] keep.prems(3,4) by auto
    with True show ?thesis by simp
  next
    case False
    then have "d \<in> set ds" using keep.prems(5) by simp
    with keep.IH [OF keep.prems(1,2)] keep.prems(3,4) show ?thesis by auto
  qed
next
  case (skip e ds p ps c st n c')
  show ?case
  proof (cases "d = e")
    case True
    have "df_pos e \<notin> cs_admitted c" using skip.prems(4) by simp
    then have "ruled_out c p" using skip.hyps by (auto simp: ruled_out_def)
    with True show ?thesis by auto
  next
    case False
    then have "d \<in> set ds" using skip.prems(5) by simp
    with skip.IH [OF skip.prems(1,2)] skip.prems(3,4) show ?thesis by auto
  qed
next
  case (admit e ds p ps c st n c' rt)
  let ?c = "first_sweep (published c rt) p (publish_tier e rt c)"
  let ?t = "\<lparr>tr_name = df_name e, tr_rt = published c rt, tr_cap = df_cap e\<rparr>"
  note app = probe_loop_appends [OF admit.hyps(1)]
  show ?case
  proof (cases "d = e")
    case True
    have "?t \<in> set (cs_tiers c')" using app by auto
    moreover have "swept_or_owed c' p ?t"
      using app by (auto simp: swept_or_owed_def first_sweep_def split: if_splits)
    moreover have "seats e ?t" "(e, p) \<in> set (zip (e # ds) (p # ps))" by (simp_all add: seats_def)
    ultimately show ?thesis unfolding True by (intro disjI2 exI [of _ p] exI [of _ ?t] conjI)
  next
    case False
    have u: "one_transport s m ?c" by (rule publish_one_transport [OF admit.prems(1,2) admit.hyps(4)])
    have d: "d \<in> set ds" using False admit.prems(5) by simp
    have ro: "ruled_out ?c q = ruled_out c q" for q
      using conflict_iff [OF _ u] conflict_iff [OF admit.prems(1,2)]
      by (auto simp: ruled_out_def split: build_answer.splits)
    have "\<forall>x \<in> set ds. df_pos x \<notin> cs_admitted ?c" using admit.prems(3,4) by simp (metis image_eqI)
    from admit.IH [OF _ u _ this d] admit.prems(3) show ?thesis unfolding ro by auto
  qed
qed auto

lemma probe_loop_still:
  "probe_loop ds ps c = (st, n, c') \<Longrightarrow>
     set st \<subseteq> set ds \<and> (distinct (map df_pos ds) \<longrightarrow> distinct (map df_pos st))
     \<and> ((\<forall>d \<in> set ds. 0 \<le> df_cap d) \<longrightarrow>
         sum_list (map tr_cap (cs_tiers c')) + sum_list (map df_cap st)
         \<le> sum_list (map tr_cap (cs_tiers c)) + sum_list (map df_cap ds))"
proof (induction rule: probe_loop_induct)
  case (keep d ds p ps c st n c')
  then show ?case by (auto simp: image_subset_iff dest: subsetD)
next
  case (skip d ds p ps c st n c')
  then show ?case by auto
next
  case (admit d ds p ps c st n c' rt)
  then show ?case by auto
qed auto

section \<open>Every history\<close>

text \<open>
  The operations that touch the tiers or the deferred entries, the latch and the gate flags; \<open>other\<close>
  is any step that leaves these alone (spawns, releases, repairs).
\<close>

definition same_tiers :: "cascade \<Rightarrow> cascade \<Rightarrow> bool" where
  "same_tiers c c' \<longleftrightarrow> cs_tiers c' = cs_tiers c \<and> cs_deferred c' = cs_deferred c \<and> cs_admitted c' = cs_admitted c
     \<and> cs_egress c' = cs_egress c"

inductive admission_step :: "cascade \<Rightarrow> cascade \<Rightarrow> bool" where
  sync: "admission_step c (snd (admit_deferred now fin ps c))"
| start: "admission_step c (admit_start now started c)"
| background: "cs_inflight c \<Longrightarrow> admission_step c (admit_probe_bg closing0 as closing1 now ps c)"
| reopened: "admission_step c (reopen c)"
| closing: "admission_step c (begin_close c)"
| egress: "admission_step c (require_egress c)"
| other: "same_tiers c c' \<Longrightarrow> admission_step c c'"

text \<open>What every step keeps.\<close>

definition admission_inv :: "string \<Rightarrow> bool \<Rightarrow> int \<Rightarrow> cascade \<Rightarrow> bool" where
  "admission_inv s m cap c \<longleftrightarrow>
     cs_tiers c \<noteq> [] \<and> one_transport s m c
     \<and> distinct (map df_pos (cs_deferred c)) \<and> (\<forall>d \<in> set (cs_deferred c). df_pos d \<notin> cs_admitted c \<and> 0 \<le> df_cap d)
     \<and> sum_list (map tr_cap (cs_tiers c)) + sum_list (map df_cap (cs_deferred c)) \<le> cap
     \<and> (cs_egress c \<longrightarrow> (\<forall>t \<in> set (cs_tiers c). rt_told_egress (tr_rt t)))"

lemma admission_inv_frame:
  "same_tiers c c' \<Longrightarrow> admission_inv s m cap c \<Longrightarrow> admission_inv s m cap c'"
  by (simp add: admission_inv_def same_tiers_def one_transport_def)

lemma sum_filter_le:
  "(\<forall>d \<in> set ds. 0 \<le> df_cap d) \<Longrightarrow> sum_list (map df_cap (filter P ds)) \<le> sum_list (map df_cap ds)"
  by (induction ds) auto

lemma admit_probe_inv:
  assumes "admission_inv s m cap c"
  shows "admission_inv s m cap (snd (admit_probe now ps c))"
proof -
  obtain st n c' where p: "probe_loop (cs_deferred c) ps c = (st, n, c')" by (metis prod_cases3)
  note i = assms [unfolded admission_inv_def]
  obtain new where new: "cs_tiers c' = cs_tiers c @ new" "cs_egress c' = cs_egress c"
    "cs_egress c \<longrightarrow> (\<forall>t \<in> set new. rt_told_egress (tr_rt t))"
    using probe_loop_appends [OF p] by blast
  have st: "set st \<subseteq> set (cs_deferred c)" "distinct (map df_pos st)"
    "sum_list (map tr_cap (cs_tiers c')) + sum_list (map df_cap st) \<le> cap"
    using probe_loop_still [OF p] i by auto
  have nn: "\<forall>d \<in> set st. 0 \<le> df_cap d" using st(1) i by blast
  have u: "one_transport s m c'" by (rule probe_loop_transport [OF p]) (use i in auto)
  have d: "distinct (map df_pos (filter (\<lambda>d. df_pos d \<notin> cs_admitted c') st))"
    using st(2) by (rule distinct_map_filter)
  have "sum_list (map df_cap (filter (\<lambda>d. df_pos d \<notin> cs_admitted c') st)) \<le> sum_list (map df_cap st)"
    by (rule sum_filter_le [OF nn])
  with st(3) have fit: "sum_list (map tr_cap (cs_tiers c'))
      + sum_list (map df_cap (filter (\<lambda>d. df_pos d \<notin> cs_admitted c') st)) \<le> cap" by linarith
  have told: "cs_egress c' \<longrightarrow> (\<forall>t \<in> set (cs_tiers c'). rt_told_egress (tr_rt t))" using new i by auto
  have ne: "cs_tiers c' \<noteq> []" using new(1) i by simp
  show ?thesis
    using ne u d fit told nn unfolding admission_inv_def admit_probe_def p one_transport_def by simp
qed

lemma sweep_loop_frame: "same_tiers c (sweep_loop owed as c)"
proof (induction owed as c rule: sweep_loop.induct)
  case (1 rt owed closing ok as c)
  then show ?case by (cases closing) (auto simp: same_tiers_def)
qed (auto simp: same_tiers_def)

lemma run_owed_frame: "same_tiers c (run_owed_sweeps closing as c)"
  using sweep_loop_frame [of "c\<lparr>cs_owed := []\<rparr>" "cs_owed c" as]
  by (auto simp: run_owed_sweeps_def same_tiers_def)

lemma admission_step_inv:
  assumes "admission_step c c'" "admission_inv s m cap c"
  shows "admission_inv s m cap c'"
  using assms
proof (cases rule: admission_step.cases)
  case (sync now fin ps)
  have "admission_inv s m cap (c\<lparr>cs_last_admit := Some now, cs_inflight := True\<rparr>)"
    by (rule admission_inv_frame [OF _ assms(2)]) (simp add: same_tiers_def)
  from admit_probe_inv [OF this, of fin ps] assms(2)
  have "admission_inv s m cap (snd (admit_deferred now fin ps c))"
    unfolding admit_deferred_def
    by (auto split: prod.split elim!: admission_inv_frame [rotated] simp: same_tiers_def)
  then show ?thesis using sync by simp
next
  case (start now started)
  have "same_tiers c (admit_start now started c)" by (simp add: admit_start_def same_tiers_def)
  then show ?thesis using start admission_inv_frame assms(2) by blast
next
  case (background closing0 as closing1 now ps)
  let ?c1 = "run_owed_sweeps closing0 as c"
  have 1: "admission_inv s m cap ?c1" by (rule admission_inv_frame [OF run_owed_frame assms(2)])
  have "admission_inv s m cap (if closing1 then ?c1 else snd (admit_probe now ps ?c1))"
    using 1 admit_probe_inv [OF 1] by simp
  then have "admission_inv s m cap (admit_probe_bg closing0 as closing1 now ps c)"
    unfolding admit_probe_bg_def Let_def by (rule admission_inv_frame [rotated]) (simp add: same_tiers_def)
  then show ?thesis using background by simp
next
  case egress
  then show ?thesis
    using assms(2) by (auto simp: admission_inv_def require_egress_def one_transport_def comp_def)
qed (use admission_inv_frame [OF _ assms(2)] in \<open>auto simp: same_tiers_def reopen_def begin_close_def\<close>)

lemma admission_steps_inv: "admission_step\<^sup>*\<^sup>* c c' \<Longrightarrow> admission_inv s m cap c \<Longrightarrow> admission_inv s m cap c'"
  by (induction rule: rtranclp_induct) (auto intro: admission_step_inv)

section \<open>Properties\<close>

text \<open>A cascade as it stands after startup.\<close>

definition fresh_cascade :: "cascade \<Rightarrow> bool" where
  "fresh_cascade c \<longleftrightarrow> cs_tiers c \<noteq> [] \<and> cs_admitted c = {} \<and> \<not> cs_egress c
     \<and> distinct (map df_pos (cs_deferred c)) \<and> (\<forall>d \<in> set (cs_deferred c). 0 \<le> df_cap d)"

text \<open>
  C28: late tiers change nothing the dispatcher relies on.  When the startup checks of the transport passed
  with a dispatch style and a client context, then after any history of admission passes, background
  sweeps, shutdowns, restarts and other operations every tier speaks that style, every network tier has
  a private context exactly when the dispatcher's one is private, the capacity in use never exceeds
  what was declared, and once egress is demanded every tier, however late, has been told.
\<close>

theorem admission_keeps_transport:
  assumes "fresh_cascade c" "dispatch_style c = Inr s" "ssl_context c = Inr x" "admission_step\<^sup>*\<^sup>* c c'"
  shows "(\<forall>t \<in> set (cs_tiers c'). rt_style (tr_rt t) = s
            \<and> (s = ''network'' \<longrightarrow> (rt_ctx (tr_rt t) \<noteq> None) = (x \<noteq> None))
            \<and> (cs_egress c' \<longrightarrow> rt_told_egress (tr_rt t)))
     \<and> sum_list (map tr_cap (cs_tiers c')) + sum_list (map df_cap (cs_deferred c'))
       \<le> sum_list (map tr_cap (cs_tiers c)) + sum_list (map df_cap (cs_deferred c))"
proof -
  let ?cap = "sum_list (map tr_cap (cs_tiers c)) + sum_list (map df_cap (cs_deferred c))"
  have "admission_inv s (x \<noteq> None) ?cap c"
    using assms(1) startup_one_transport [OF assms(2,3)] by (auto simp: admission_inv_def fresh_cascade_def)
  from admission_steps_inv [OF assms(4) this] show ?thesis
    by (auto simp: admission_inv_def one_transport_def)
qed

definition demo_rt :: "nat \<Rightarrow> nat option \<Rightarrow> tier_runtime" where
  "demo_rt i ctx = \<lparr>rt_id = i, rt_style = ''network'', rt_ctx = ctx, rt_ready = 30, rt_cfg_resume = None,
     rt_own_resume = None, rt_cfg_cli = Some 60, rt_own_cli = None, rt_repairs = False, rt_sweeps = True,
     rt_census = None, rt_told_egress = False\<rparr>"

definition demo_cascade :: cascade where
  "demo_cascade =
     (case cascade_init [\<lparr>tr_name = ''static'', tr_rt = demo_rt 0 (Some 7), tr_cap = 4\<rparr>] None
        [declared ''aws-ec2'' 16 1 (Some (demo_rt 1 (Some 7))), declared ''aws-ec2'' 8 2 None] 60 of Inr c \<Rightarrow> c)"

definition demo_probe :: "build_answer \<Rightarrow> bool \<Rightarrow> tier_probe" where
  "demo_probe a closing = \<lparr>pr_closing1 = closing, pr_build = a, pr_closing2 = False, pr_closing3 = False, pr_swept = True\<rparr>"

lemmas demo_defs = demo_cascade_def cascade_init_def demo_rt_def declared_def demo_probe_def or_attr_def

theorem admission_keeps_transport_witness:
  "let c' = snd (admit_deferred 0 5 [demo_probe (Built (demo_rt 1 (Some 7))) False, demo_probe (Built (demo_rt 2 None)) False]
                  demo_cascade)
   in map tr_name (cs_tiers c') = [''static'', ''aws-ec2''] \<and> cs_deferred c' = []
      \<and> (\<forall>t \<in> set (cs_tiers c'). rt_style (tr_rt t) = ''network'' \<and> rt_ctx (tr_rt t) \<noteq> None)"
proof -
  let ?c' = "snd (admit_deferred 0 5 [demo_probe (Built (demo_rt 1 (Some 7))) False, demo_probe (Built (demo_rt 2 None)) False]
                  demo_cascade)"
  have "fresh_cascade demo_cascade" "dispatch_style demo_cascade = Inr ''network''"
    "ssl_context demo_cascade = Inr (Some 7)"
    by (simp_all add: fresh_cascade_def demo_defs dispatch_style_def ssl_context_def network_ctxs_def map_filter_simps Let_def)
  moreover have "admission_step\<^sup>*\<^sup>* demo_cascade ?c'" by (rule r_into_rtranclp, rule admission_step.sync)
  ultimately have "\<forall>t \<in> set (cs_tiers ?c'). rt_style (tr_rt t) = ''network'' \<and> rt_ctx (tr_rt t) \<noteq> None"
    using admission_keeps_transport [of demo_cascade "''network''" "Some 7" ?c'] by auto
  moreover have "map tr_name (cs_tiers ?c') = [''static'', ''aws-ec2''] \<and> cs_deferred ?c' = []"
    by (simp add: admit_deferred_def admit_probe_def rate_limited_def publish_tier_def first_sweep_def published_def
        transport_conflict_def network_ctxs_def demo_defs Let_def)
  ultimately show ?thesis by (simp add: Let_def)
qed

text \<open>
  no declared tier is forgotten.  One admission pass leaves every deferred entry in one of three
  states: it stays deferred, also when a shutdown cuts the pass; or its backend gave a verdict, it is
  unusable or speaks another transport than the admitted tiers; or it has become a tier with its
  declared name and capacity, whose orphans have been swept or whose sweep is recorded as owed.
\<close>

theorem no_tier_forgotten:
  assumes "cs_tiers c \<noteq> []" "one_transport s m c" "distinct (map df_pos (cs_deferred c))"
    and "\<forall>d \<in> set (cs_deferred c). df_pos d \<notin> cs_admitted c"
    and "admit_probe now ps c = (n, c')" "d \<in> set (cs_deferred c)"
  shows "d \<in> set (cs_deferred c')
     \<or> (\<exists>p. (d, p) \<in> set (zip (cs_deferred c) ps) \<and> ruled_out c p)
     \<or> (\<exists>p t. (d, p) \<in> set (zip (cs_deferred c) ps) \<and> t \<in> set (cs_tiers c') \<and> seats d t \<and> swept_or_owed c' p t)"
proof -
  obtain st k c1 where p: "probe_loop (cs_deferred c) ps c = (st, k, c1)" by (metis prod_cases3)
  then have c': "c' = c1\<lparr>cs_last_admit := Some now, cs_deferred := filter (\<lambda>d. df_pos d \<notin> cs_admitted c1) st\<rparr>"
    using assms(5) by (simp add: admit_probe_def)
  from probe_loop_fate [OF p assms(1-4,6)] show ?thesis
    unfolding c' by (auto simp: swept_or_owed_def)
qed

theorem no_tier_forgotten_witness:
  "declared ''aws-ec2'' 8 2 None \<in> set (cs_deferred (snd (admit_probe 5
     [demo_probe (Built (demo_rt 1 (Some 7))) False, demo_probe Undecided True] demo_cascade)))"
proof -
  let ?ps = "[demo_probe (Built (demo_rt 1 (Some 7))) False, demo_probe Undecided True]"
  let ?r = "admit_probe 5 ?ps demo_cascade"
  have d: "cs_deferred demo_cascade = [declared ''aws-ec2'' 16 1 (Some (demo_rt 1 (Some 7))), declared ''aws-ec2'' 8 2 None]"
    "one_transport ''network'' True demo_cascade" "cs_tiers demo_cascade \<noteq> []" "cs_admitted demo_cascade = {}"
    by (simp_all add: demo_cascade_def cascade_init_def one_transport_def demo_rt_def)
  have n: "tr_cap t \<noteq> 8" if "t \<in> set (cs_tiers (snd ?r))" for t
    using that by (auto simp: admit_probe_def publish_tier_def first_sweep_def published_def
        transport_conflict_def network_ctxs_def demo_defs Let_def)
  have "distinct (map df_pos (cs_deferred demo_cascade))" "\<forall>e \<in> set (cs_deferred demo_cascade). df_pos e \<notin> cs_admitted demo_cascade"
    by (simp_all add: d declared_def)
  from no_tier_forgotten [OF d(3,2) this, of 5 ?ps "fst ?r" "snd ?r" "declared ''aws-ec2'' 8 2 None"] d(1) n
  show ?thesis by (auto simp: ruled_out_def demo_probe_def seats_def declared_def)
qed

end
