(* ===== verification/Cascade_Slots.thy ===== *)
theory Cascade_Slots
  imports Cascade_Tiers
begin

text \<open>
  \<^verbatim>\<open>host/runtime/cascade.py\<close>, the slots: which tier serves a spawn, which tier owns a slot, whose
  base is invalidated for which failures.  Each locked block is one definition on the state of
  the cascade; \<open>spawn_from\<close> composes them for one caller, and \<open>cascade_step\<close> runs them for any
  number of threads in any order, with tiers joining in between.  What a backend answers is data.
\<close>

section \<open>The locked blocks\<close>

definition room :: "cascade \<Rightarrow> nat \<Rightarrow> bool" where
  "room c i \<longleftrightarrow> cs_counts c ! i < tr_cap (cs_tiers c ! i)"

definition reserve :: "nat \<Rightarrow> cascade \<Rightarrow> cascade" where
  "reserve i c = c\<lparr>cs_counts := (cs_counts c)[i := cs_counts c ! i + 1]\<rparr>"

definition give_back :: "nat \<Rightarrow> cascade \<Rightarrow> cascade" where
  "give_back i c = c\<lparr>cs_counts := (cs_counts c)[i := cs_counts c ! i - 1]\<rparr>"

definition note_failure :: "nat \<Rightarrow> cascade \<Rightarrow> cascade" where
  "note_failure i c =
     c\<lparr>cs_counts := (cs_counts c)[i := cs_counts c ! i - 1],
       cs_failures := (cs_failures c)[i := cs_failures c ! i + 1]\<rparr>"

definition own :: "nat \<Rightarrow> string \<Rightarrow> cascade \<Rightarrow> cascade" where
  "own i sid c =
     c\<lparr>cs_owner := (cs_owner c)(sid := Some i), cs_failures := (cs_failures c)[i := 0],
       cs_recent := cs_recent c - {i}\<rparr>"

definition repair_due :: "cascade \<Rightarrow> nat \<Rightarrow> int \<Rightarrow> bool" where
  "repair_due c i streak \<longleftrightarrow> 0 < cs_after c \<and> cs_after c \<le> streak \<and> rt_repairs (tr_rt (cs_tiers c ! i))"

definition start_repair :: "nat \<Rightarrow> cascade \<Rightarrow> cascade" where
  "start_repair i c = c\<lparr>cs_failures := (cs_failures c)[i := 0]\<rparr>"

definition end_repair :: "nat \<Rightarrow> int \<Rightarrow> bool \<Rightarrow> cascade \<Rightarrow> cascade" where
  "end_repair i streak ok c =
     (if ok then c\<lparr>cs_unreported := insert (tier_identity c i) (cs_unreported c), cs_episode := insert i (cs_episode c)\<rparr>
      else c\<lparr>cs_failures := (cs_failures c)[i := max (cs_failures c ! i) streak]\<rparr>)"

definition maybe_repair_tier :: "nat \<Rightarrow> int \<Rightarrow> bool \<Rightarrow> cascade \<Rightarrow> cascade" where
  "maybe_repair_tier i streak ok c =
     (if repair_due c i streak then end_repair i streak ok (start_repair i c) else c)"

section \<open>A spawn\<close>

text \<open>
  What one visit of a tier meets: whether it is prepared, what its spawn answers (an exception is a
  reference into a heap of exceptions), whether an invalidation of its base returns.
\<close>

datatype spawn_answer = Spawned string | AtCapacity | Raised exc_heap nat

record visit =
  v_ready :: bool
  v_answer :: spawn_answer
  v_repaired :: bool

datatype visit_outcome = Passed | Full | HostFault | Broke | Got string

definition visit_tier :: "nat \<Rightarrow> visit \<Rightarrow> cascade \<Rightarrow> visit_outcome \<times> cascade" where
  "visit_tier i v c =
     (if \<not> room c i \<or> \<not> v_ready v then (Passed, c)
      else case v_answer v of
        Spawned sid \<Rightarrow> (Got sid, own i sid (reserve i c))
      | AtCapacity \<Rightarrow> (Full, give_back i (reserve i c))
      | Raised h e \<Rightarrow>
          if is_host_resource_failure h e then (HostFault, give_back i (reserve i c))
          else let c1 = note_failure i (reserve i c)
               in (Broke, maybe_repair_tier i (cs_failures c1 ! i) (v_repaired v) c1))"

datatype spawn_result = OnTier nat string | Exhausted | SpawnFailed

fun spawn_from :: "nat \<Rightarrow> visit list \<Rightarrow> bool \<Rightarrow> cascade \<Rightarrow> spawn_result \<times> cascade" where
  "spawn_from i [] failed c = (if failed then SpawnFailed else Exhausted, c)"
| "spawn_from i (v # vs) failed c =
     (case visit_tier i v c of
        (Got sid, c') \<Rightarrow> (OnTier i sid, c')
      | (Passed, c') \<Rightarrow> spawn_from (Suc i) vs failed c'
      | (Full, c') \<Rightarrow> spawn_from (Suc i) vs failed c'
      | (HostFault, c') \<Rightarrow> spawn_from (Suc i) vs True c'
      | (Broke, c') \<Rightarrow> spawn_from (Suc i) vs True c')"

text \<open>A spawn with one visit per tier.\<close>

definition spawn :: "visit list \<Rightarrow> cascade \<Rightarrow> spawn_result \<times> cascade" where
  "spawn vs c = spawn_from 0 (take (length (cs_tiers c)) vs) False c"

section \<open>Release and attribution\<close>

definition unown :: "nat \<Rightarrow> string \<Rightarrow> cascade \<Rightarrow> cascade" where
  "unown i sid c =
     c\<lparr>cs_owner := (cs_owner c)(sid := None), cs_counts := (cs_counts c)[i := max 0 (cs_counts c ! i - 1)]\<rparr>"

text \<open>\<open>reap\<close>: the tier's own reap may raise, and then the slot stays with its tier.\<close>

definition reap :: "string \<Rightarrow> bool \<Rightarrow> cascade \<Rightarrow> cascade" where
  "reap sid raises c = (case cs_owner c sid of None \<Rightarrow> c | Some i \<Rightarrow> if raises then c else unown i sid c)"

definition slot_tier :: "cascade \<Rightarrow> string \<Rightarrow> string option" where
  "slot_tier c sid = map_option (\<lambda>i. tr_name (cs_tiers c ! i)) (cs_owner c sid)"

definition base_identity :: "cascade \<Rightarrow> string \<Rightarrow> string option" where
  "base_identity c sid = map_option (tier_identity c) (cs_owner c sid)"

text \<open>The inner hook answers a worker or nothing (no hook, an exception, an empty name).\<close>

definition worker_identity :: "cascade \<Rightarrow> (nat \<Rightarrow> string \<Rightarrow> string option) \<Rightarrow> string \<Rightarrow> string option" where
  "worker_identity c inner sid =
     (case cs_owner c sid of
        None \<Rightarrow> None
      | Some i \<Rightarrow> (case inner i sid of
          None \<Rightarrow> None
        | Some got \<Rightarrow> if got = [] then None else Some (tier_identity c i @ CHR '':'' # got)))"

definition blame_tier_for_slot :: "string \<Rightarrow> cascade \<Rightarrow> bool \<times> cascade" where
  "blame_tier_for_slot sid c =
     (case cs_owner c sid of
        None \<Rightarrow> (False, c)
      | Some i \<Rightarrow> (True, c\<lparr>cs_failures := (cs_failures c)[i := cs_failures c ! i + 1],
                          cs_recent := insert i (cs_recent c), cs_job_guilty := insert i (cs_job_guilty c)\<rparr>))"

definition clear_job_guilt :: "cascade \<Rightarrow> cascade" where
  "clear_job_guilt c = c\<lparr>cs_job_guilty := {}\<rparr>"

definition spawn_guilty :: "cascade \<Rightarrow> nat set" where
  "spawn_guilty c = {i \<in> {..<length (cs_failures c)}. 0 < cs_failures c ! i} \<union> cs_recent c"

definition spawn_guilty_identities :: "cascade \<Rightarrow> string list" where
  "spawn_guilty_identities c = sorted_list_of_set (tier_identity c ` spawn_guilty c)"

text \<open>\<open>take_repaired_tiers\<close>: which tiers report that they swapped their own base.\<close>

definition take_repaired_tiers :: "nat set \<Rightarrow> cascade \<Rightarrow> string list \<times> cascade" where
  "take_repaired_tiers swapped c =
     (let own = {i \<in> swapped. i < length (cs_tiers c)}
      in (sorted_list_of_set (cs_unreported c \<union> tier_identity c ` own),
          c\<lparr>cs_unreported := {},
            cs_failures := map (\<lambda>(i, n). if i \<in> own then 0 else n) (zip [0..<length (cs_failures c)] (cs_failures c))\<rparr>))"

section \<open>Invalidating bases\<close>

datatype repair_target = AlreadyDone "string list" | Attempt "nat list"

definition tier_range :: "cascade \<Rightarrow> nat list" where "tier_range c = [0..<length (cs_tiers c)]"

definition named_tiers :: "bool \<Rightarrow> string list \<Rightarrow> cascade \<Rightarrow> nat set" where
  "named_tiers by_spawn only c =
     (let guilt = (if by_spawn then {} else cs_job_guilty c);
          wanted = {i \<in> set (tier_range c). tier_identity c i \<in> set only}
      in if only \<noteq> [] \<and> wanted \<noteq> {} then wanted else guilt)"

definition repair_targets :: "bool \<Rightarrow> string list \<Rightarrow> cascade \<Rightarrow> repair_target" where
  "repair_targets by_spawn only c =
     (let named = named_tiers by_spawn only c
      in if named \<noteq> {} then Attempt (filter (\<lambda>i. i \<in> named) (tier_range c))
         else if \<not> by_spawn then Attempt (tier_range c)
         else if spawn_guilty c \<noteq> {} then Attempt (filter (\<lambda>i. i \<in> spawn_guilty c) (tier_range c))
         else if cs_episode c \<noteq> {} then AlreadyDone (sorted_list_of_set (tier_identity c ` cs_episode c))
         else Attempt (tier_range c))"

text \<open>\<open>self.tiers.index(tier)\<close>: the first tier that is equal.\<close>

definition tier_index :: "cascade \<Rightarrow> tier \<Rightarrow> nat" where
  "tier_index c t = length (takeWhile (\<lambda>u. u \<noteq> t) (cs_tiers c))"

definition absolve :: "nat \<Rightarrow> cascade \<Rightarrow> cascade" where
  "absolve i c =
     c\<lparr>cs_failures := (cs_failures c)[i := 0], cs_recent := cs_recent c - {i},
       cs_job_guilty := cs_job_guilty c - {i}\<rparr>"

text \<open>
  The loop over the targets; \<open>ok i\<close> says whether the invalidation of tier \<open>i\<close> returns.  The result
  is the tiers whose invalidation was called, the tiers that failed, the identities repaired.
\<close>

fun repair_loop :: "nat list \<Rightarrow> (nat \<Rightarrow> bool) \<Rightarrow> cascade \<Rightarrow> (nat list \<times> nat list \<times> string list) \<times> cascade" where
  "repair_loop [] ok c = (([], [], []), c)"
| "repair_loop (i # is) ok c =
     (if \<not> rt_repairs (tr_rt (cs_tiers c ! i)) then repair_loop is ok c
      else if ok i
      then (let k = tier_index c (cs_tiers c ! i)
            in case repair_loop is ok (absolve k c) of
                 ((called, failed, repaired), c') \<Rightarrow> ((i # called, failed, tier_identity c k # repaired), c'))
      else (case repair_loop is ok c of
              ((called, failed, repaired), c') \<Rightarrow> ((i # called, i # failed, repaired), c')))"

datatype repair_result = Repaired "string list" | RepairFailed "string list" | NothingRepaired

text \<open>\<open>invalidate_base\<close>, with the tiers it called on.\<close>

definition invalidate_base ::
    "bool \<Rightarrow> string list \<Rightarrow> (nat \<Rightarrow> bool) \<Rightarrow> cascade \<Rightarrow> (nat list \<times> repair_result) \<times> cascade" where
  "invalidate_base by_spawn only ok c =
     (case repair_targets by_spawn only c of
        AlreadyDone names \<Rightarrow> (([], Repaired names), c\<lparr>cs_episode := {}\<rparr>)
      | Attempt is \<Rightarrow>
          (case repair_loop is ok (c\<lparr>cs_recent := {}, cs_episode := {}\<rparr>) of
             ((called, failed, repaired), c') \<Rightarrow>
               ((called,
                 if failed \<noteq> [] then RepairFailed repaired
                 else if called = [] then NothingRepaired else Repaired repaired), c')))"

section \<open>Delegated hooks\<close>

text \<open>
  A hook of the tier that owns the slot: \<open>None\<close> when the tier has no such hook, else what it
  answers (\<open>Inl\<close> for an exception).  Verdicts have three values.
\<close>

type_synonym 'a hook = "nat \<Rightarrow> (py_exc + 'a) option"

definition is_ready :: "cascade \<Rightarrow> string \<Rightarrow> (nat \<Rightarrow> py_exc + bool option) \<Rightarrow> py_exc + bool option" where
  "is_ready c sid h = (case cs_owner c sid of None \<Rightarrow> Inr (Some False) | Some i \<Rightarrow> h i)"

definition is_alive_for_claim ::
    "cascade \<Rightarrow> string \<Rightarrow> bool option hook \<Rightarrow> (nat \<Rightarrow> py_exc + bool option) \<Rightarrow> py_exc + bool option" where
  "is_alive_for_claim c sid fresh alive =
     (case cs_owner c sid of
        None \<Rightarrow> Inr (Some False)
      | Some i \<Rightarrow> (case fresh i of None \<Rightarrow> alive i | Some a \<Rightarrow> a))"

definition is_warming_terminal :: "cascade \<Rightarrow> string \<Rightarrow> bool hook \<Rightarrow> bool" where
  "is_warming_terminal c sid h =
     (case cs_owner c sid of
        None \<Rightarrow> False
      | Some i \<Rightarrow> (case h i of Some (Inr b) \<Rightarrow> b | _ \<Rightarrow> False))"

definition maintain_idle :: "cascade \<Rightarrow> string \<Rightarrow> bool hook \<Rightarrow> py_exc + bool" where
  "maintain_idle c sid h =
     (case cs_owner c sid of None \<Rightarrow> Inr True | Some i \<Rightarrow> (case h i of None \<Rightarrow> Inr True | Some a \<Rightarrow> a))"

definition resume :: "cascade \<Rightarrow> string \<Rightarrow> unit hook \<Rightarrow> (cascade_error + py_exc) + unit" where
  "resume c sid h =
     (case cs_owner c sid of
        None \<Rightarrow> Inl (Inl CascadeSlotUnknown)
      | Some i \<Rightarrow> (case h i of None \<Rightarrow> Inr () | Some (Inr _) \<Rightarrow> Inr () | Some (Inl e) \<Rightarrow> Inl (Inr e)))"

definition delegate :: "cascade \<Rightarrow> string \<Rightarrow> 'a hook \<Rightarrow> (cascade_error + py_exc) + 'a" where
  "delegate c sid h =
     (case cs_owner c sid of
        None \<Rightarrow> Inl (Inl CascadeSlotUnknown)
      | Some i \<Rightarrow> (case h i of
          None \<Rightarrow> Inl (Inl (CascadeMisconfigured ''the tier lacks the warm hook''))
        | Some (Inr x) \<Rightarrow> Inr x | Some (Inl e) \<Rightarrow> Inl (Inr e)))"

definition prepare :: "bool option list \<Rightarrow> bool" where
  "prepare hooks \<longleftrightarrow> (\<exists>h \<in> set hooks. h = None \<or> h = Some True)"

section \<open>Where a spawn goes\<close>

lemma give_back_reserve [simp]: "i < length (cs_counts c) \<Longrightarrow> give_back i (reserve i c) = c"
  by (simp add: give_back_def reserve_def)

text \<open>A tier is tried when it has room and is prepared.\<close>

definition tried :: "cascade \<Rightarrow> visit \<Rightarrow> nat \<Rightarrow> bool" where
  "tried c v i \<longleftrightarrow> room c i \<and> v_ready v"

fun serves :: "spawn_answer \<Rightarrow> bool" where
  "serves (Spawned _) = True"
| "serves _ = False"

fun raises :: "spawn_answer \<Rightarrow> bool" where
  "raises (Raised _ _) = True"
| "raises _ = False"

fun slot_of :: "spawn_answer \<Rightarrow> string" where
  "slot_of (Spawned sid) = sid"
| "slot_of _ = []"

text \<open>The failure streak of a tier after a visit that did not serve.\<close>

definition streak_after :: "cascade \<Rightarrow> visit \<Rightarrow> nat \<Rightarrow> int" where
  "streak_after c v i =
     (if tried c v i
      then case v_answer v of
        Raised h e \<Rightarrow>
          if is_host_resource_failure h e then cs_failures c ! i
          else if repair_due c i (cs_failures c ! i + 1) \<and> v_repaired v then 0
          else max 0 (cs_failures c ! i + 1)
      | _ \<Rightarrow> cs_failures c ! i
      else cs_failures c ! i)"

definition well_formed :: "cascade \<Rightarrow> bool" where
  "well_formed c \<longleftrightarrow> length (cs_counts c) = length (cs_tiers c) \<and> length (cs_failures c) = length (cs_tiers c)
     \<and> (\<forall>n \<in> set (cs_failures c). 0 \<le> n)"

lemma well_formed_nonneg: "well_formed c \<Longrightarrow> i < length (cs_tiers c) \<Longrightarrow> 0 \<le> cs_failures c ! i"
  unfolding well_formed_def by (metis nth_mem)

lemma block_simps [simp]:
  "cs_tiers (reserve i c) = cs_tiers c" "cs_tiers (give_back i c) = cs_tiers c" "cs_tiers (note_failure i c) = cs_tiers c"
  "cs_tiers (own i sid c) = cs_tiers c" "cs_tiers (start_repair i c) = cs_tiers c" "cs_tiers (end_repair i k ok c) = cs_tiers c"
  "cs_tiers (unown i sid c) = cs_tiers c"
  "cs_after (reserve i c) = cs_after c" "cs_after (note_failure i c) = cs_after c" "cs_after (start_repair i c) = cs_after c"
  "cs_owner (reserve i c) = cs_owner c" "cs_owner (give_back i c) = cs_owner c" "cs_owner (note_failure i c) = cs_owner c"
  "cs_owner (start_repair i c) = cs_owner c" "cs_owner (end_repair i k ok c) = cs_owner c"
  "cs_owner (own i sid c) = (cs_owner c)(sid := Some i)" "cs_owner (unown i sid c) = (cs_owner c)(sid := None)"
  "cs_failures (reserve i c) = cs_failures c" "cs_failures (give_back i c) = cs_failures c" "cs_failures (unown i sid c) = cs_failures c"
  "cs_counts (own i sid c) = cs_counts c" "cs_counts (start_repair i c) = cs_counts c" "cs_counts (end_repair i k ok c) = cs_counts c"
  by (simp_all add: reserve_def give_back_def note_failure_def own_def start_repair_def end_repair_def unown_def)

text \<open>A visit that does not serve leaves counts and owners, and moves one streak.\<close>

lemma visit_unserved:
  assumes "well_formed c" "i < length (cs_tiers c)" "\<not> (tried c v i \<and> serves (v_answer v))"
    and "visit_tier i v c = (out, c')"
  shows "(\<forall>sid. out \<noteq> Got sid) \<and> (out \<in> {HostFault, Broke} \<longleftrightarrow> tried c v i \<and> raises (v_answer v))
     \<and> cs_counts c' = cs_counts c \<and> cs_owner c' = cs_owner c \<and> cs_tiers c' = cs_tiers c \<and> cs_after c' = cs_after c
     \<and> cs_failures c' = (cs_failures c)[i := streak_after c v i]"
proof (cases "tried c v i")
  case False
  then have "out = Passed \<and> c' = c" using assms(4) by (auto simp: visit_tier_def tried_def)
  with False show ?thesis by (simp add: streak_after_def)
next
  case True
  have i: "i < length (cs_counts c)" "i < length (cs_failures c)" using assms(1,2) by (simp_all add: well_formed_def)
  have nn: "0 \<le> cs_failures c ! i" by (rule well_formed_nonneg [OF assms(1,2)])
  show ?thesis
  proof (cases "v_answer v")
    case (Spawned sid)
    with True assms(3) show ?thesis by simp
  next
    case AtCapacity
    with True assms(4) i have "out = Full \<and> c' = c" by (simp add: visit_tier_def tried_def)
    with True AtCapacity show ?thesis by (simp add: streak_after_def)
  next
    case (Raised h e)
    show ?thesis
    proof (cases "is_host_resource_failure h e")
      case host: True
      with True assms(4) i Raised have "out = HostFault \<and> c' = c" by (simp add: visit_tier_def tried_def)
      with True Raised host show ?thesis by (simp add: streak_after_def)
    next
      case own: False
      let ?c1 = "note_failure i (reserve i c)"
      have f: "cs_failures ?c1 = (cs_failures c)[i := cs_failures c ! i + 1]" "cs_counts ?c1 = cs_counts c"
        using i by (simp_all add: note_failure_def reserve_def)
      have r: "repair_due ?c1 i k = repair_due c i k" for k by (simp add: repair_due_def)
      have "out = Broke \<and> c' = maybe_repair_tier i (cs_failures c ! i + 1) (v_repaired v) ?c1"
        using True assms(4) Raised own f i by (simp add: visit_tier_def tried_def Let_def)
      then show ?thesis
        using True Raised own f r nn i
        by (auto simp: streak_after_def maybe_repair_tier_def start_repair_def end_repair_def note_failure_def reserve_def)
    qed
  qed
qed

lemma spawn_from_skip:
  "visit_tier i v c = (out, c') \<Longrightarrow> \<forall>sid. out \<noteq> Got sid \<Longrightarrow>
     spawn_from i (v # vs) failed c = spawn_from (Suc i) vs (failed \<or> out \<in> {HostFault, Broke}) c'"
  by (cases out) auto

text \<open>The first visit that serves, counting tiers from \<open>i\<close>.\<close>

fun first_serving :: "cascade \<Rightarrow> nat \<Rightarrow> visit list \<Rightarrow> (nat \<times> visit) option" where
  "first_serving c i [] = None"
| "first_serving c i (v # vs) =
     (if tried c v i \<and> serves (v_answer v) then Some (i, v) else first_serving c (Suc i) vs)"

fun any_raised :: "cascade \<Rightarrow> nat \<Rightarrow> visit list \<Rightarrow> bool" where
  "any_raised c i [] = False"
| "any_raised c i (v # vs) \<longleftrightarrow> tried c v i \<and> raises (v_answer v) \<or> any_raised c (Suc i) vs"

lemma tried_frame:
  "cs_counts c' = cs_counts c \<Longrightarrow> cs_tiers c' = cs_tiers c \<Longrightarrow> tried c' v i = tried c v i"
  by (simp add: tried_def room_def)

lemma serving_frame:
  "cs_counts c' = cs_counts c \<Longrightarrow> cs_tiers c' = cs_tiers c
   \<Longrightarrow> first_serving c' i vs = first_serving c i vs \<and> any_raised c' i vs = any_raised c i vs"
proof (induction vs arbitrary: i)
  case (Cons v vs)
  have "tried c' v i = tried c v i" by (rule tried_frame) (use Cons.prems in auto)
  with Cons.IH [OF Cons.prems] show ?case by simp
qed simp

lemma streak_nonneg: "0 \<le> cs_failures c ! i \<Longrightarrow> 0 \<le> streak_after c v i"
  by (auto simp: streak_after_def split: spawn_answer.splits)

lemma visit_well_formed:
  assumes "well_formed c" "i < length (cs_tiers c)" "\<not> (tried c v i \<and> serves (v_answer v))" "visit_tier i v c = (out, c')"
  shows "well_formed c'"
proof -
  note u = visit_unserved [OF assms]
  have "0 \<le> streak_after c v i" by (rule streak_nonneg [OF well_formed_nonneg [OF assms(1,2)]])
  then show ?thesis
    using u assms(1) unfolding well_formed_def by (auto dest!: set_update_subset_insert [THEN subsetD])
qed

lemma first_serving_ge: "first_serving c i vs = Some (k, v) \<Longrightarrow> i \<le> k \<and> k < i + length vs"
proof (induction vs arbitrary: i)
  case (Cons w vs)
  show ?case
  proof (cases "tried c w i \<and> serves (v_answer w)")
    case True
    then show ?thesis using Cons.prems by simp
  next
    case False
    then have "first_serving c (Suc i) vs = Some (k, v)"
      using Cons.prems unfolding first_serving.simps if_not_P [OF False] by simp
    from Cons.IH [OF this] show ?thesis by simp
  qed
qed simp

definition charged :: "cascade \<Rightarrow> nat \<Rightarrow> visit list \<Rightarrow> nat \<Rightarrow> int" where
  "charged c i vs j = (if i \<le> j \<and> j < i + length vs then streak_after c (vs ! (j - i)) j else cs_failures c ! j)"

lemma charged_Cons: "charged c i (v # vs) j = (if j = i then streak_after c v i else charged c (Suc i) vs j)"
  by (auto simp: charged_def nth_Cons' Suc_diff_le)

lemma streak_after_frame:
  assumes "cs_counts c' = cs_counts c" "cs_tiers c' = cs_tiers c" "cs_after c' = cs_after c"
    "cs_failures c' ! j = cs_failures c ! j"
  shows "streak_after c' v j = streak_after c v j"
  unfolding streak_after_def tried_def room_def repair_due_def assms ..

lemma spawn_from_routes:
  "well_formed c \<Longrightarrow> i + length vs \<le> length (cs_tiers c) \<Longrightarrow> spawn_from i vs failed c = (r, c') \<Longrightarrow>
   (case first_serving c i vs of
      Some (k, v) \<Rightarrow> r = OnTier k (slot_of (v_answer v))
        \<and> cs_owner c' = (cs_owner c)(slot_of (v_answer v) := Some k)
        \<and> cs_counts c' = (cs_counts c)[k := cs_counts c ! k + 1]
        \<and> (\<forall>j < length (cs_tiers c). cs_failures c' ! j = (if j = k then 0 else charged c i (take (k - i) vs) j))
    | None \<Rightarrow> r = (if failed \<or> any_raised c i vs then SpawnFailed else Exhausted)
        \<and> cs_owner c' = cs_owner c \<and> cs_counts c' = cs_counts c
        \<and> (\<forall>j < length (cs_tiers c). cs_failures c' ! j = charged c i vs j))"
proof (induction vs arbitrary: i failed c)
  case Nil
  then show ?case by (auto simp: charged_def)
next
  case (Cons v vs)
  have i: "i < length (cs_tiers c)" "i < length (cs_counts c)" "i < length (cs_failures c)"
    using Cons.prems(1,2) by (simp_all add: well_formed_def)
  show ?case
  proof (cases "tried c v i \<and> serves (v_answer v)")
    case True
    then obtain sid where sid: "v_answer v = Spawned sid" by (cases "v_answer v") auto
    with True have "visit_tier i v c = (Got sid, own i sid (reserve i c))" by (simp add: visit_tier_def tried_def)
    with Cons.prems(3) have "r = OnTier i sid \<and> c' = own i sid (reserve i c)" by simp
    with True sid i Cons.prems(1) show ?thesis
      by (auto simp: own_def reserve_def charged_def well_formed_def nth_list_update)
  next
    case no: False
    obtain out c1 where v: "visit_tier i v c = (out, c1)" by (cases "visit_tier i v c")
    note u = visit_unserved [OF Cons.prems(1) i(1) no v]
    have wf: "well_formed c1" by (rule visit_well_formed [OF Cons.prems(1) i(1) no v])
    have rest: "spawn_from (Suc i) vs (failed \<or> out \<in> {HostFault, Broke}) c1 = (r, c')"
      using Cons.prems(3) spawn_from_skip [OF v] u by simp
    have len: "Suc i + length vs \<le> length (cs_tiers c1)" using Cons.prems(2) u by simp
    note fr = serving_frame [of c1 c] u
    have f1: "cs_failures c1 ! j = (if j = i then streak_after c v i else cs_failures c ! j)"
      if "j < length (cs_tiers c)" for j
      using u that i Cons.prems(1) by (simp add: well_formed_def nth_list_update)
    have ch: "charged c1 (Suc i) ws j = charged c i (v # ws) j" if "j < length (cs_tiers c)" for ws j
      using f1 [OF that] u streak_after_frame [of c1 c j] unfolding charged_Cons by (auto simp: charged_def)
    have first: "first_serving c i (v # vs) = first_serving c1 (Suc i) vs" using fr unfolding first_serving.simps if_not_P [OF no] by simp
    show ?thesis
    proof (cases "first_serving c1 (Suc i) vs")
      case None
      have ar: "any_raised c i (v # vs) \<longleftrightarrow> out \<in> {HostFault, Broke} \<or> any_raised c1 (Suc i) vs"
        using u fr by simp
      show ?thesis
        using Cons.IH [OF wf len rest, unfolded None option.case] u ch
        unfolding first None option.case ar by auto
    next
      case (Some kv)
      obtain k w where kv: "kv = (k, w)" by (cases kv)
      have k: "Suc i \<le> k" using first_serving_ge Some kv by blast
      then have "take (k - i) (v # vs) = v # take (k - Suc i) vs" by (simp add: take_Cons' )
      then show ?thesis
        using Cons.IH [OF wf len rest, unfolded Some kv option.case prod.case] u ch
        unfolding first Some kv option.case prod.case by simp
    qed
  qed
qed

text \<open>
  a spawn goes to the first tier that can take it.  With one visit per tier, the slot is placed
  on the first tier in the declared order that has room, is prepared and answers with a slot; the
  cascade then owns the slot there and counts exactly one more on that tier.  When none serves it is
  CascadeSpawnFailed exactly when some tried tier raised, and CascadeExhausted, the retryable kind,
  otherwise, with counts and owners unchanged.  A streak moves only on tiers tried before the one
  that served: a failure adds one, or ends in a repair; tiers that are full, not prepared, at
  capacity or that met a host fault keep theirs; the tier that served starts again at zero.
\<close>

theorem spawn_routes:
  assumes "well_formed c" "length vs = length (cs_tiers c)" "spawn vs c = (r, c')"
  shows "case first_serving c 0 vs of
      Some (k, v) \<Rightarrow> r = OnTier k (slot_of (v_answer v))
        \<and> cs_owner c' = (cs_owner c)(slot_of (v_answer v) := Some k)
        \<and> cs_counts c' = (cs_counts c)[k := cs_counts c ! k + 1]
        \<and> (\<forall>j < length (cs_tiers c). cs_failures c' ! j =
              (if j = k then 0 else if j < k then streak_after c (vs ! j) j else cs_failures c ! j))
    | None \<Rightarrow> r = (if any_raised c 0 vs then SpawnFailed else Exhausted)
        \<and> cs_owner c' = cs_owner c \<and> cs_counts c' = cs_counts c
        \<and> (\<forall>j < length (cs_tiers c). cs_failures c' ! j = streak_after c (vs ! j) j)"
  using spawn_from_routes [of c 0 vs False r c'] assms first_serving_ge [of c 0 vs]
  by (auto simp: spawn_def charged_def split: option.splits)

definition demo_tier_rt :: "nat \<Rightarrow> tier_runtime" where
  "demo_tier_rt i = \<lparr>rt_id = i, rt_style = ''file'', rt_ctx = None, rt_ready = 30, rt_cfg_resume = None,
     rt_own_resume = None, rt_cfg_cli = None, rt_own_cli = None, rt_repairs = True, rt_sweeps = False,
     rt_census = None, rt_told_egress = False\<rparr>"

definition demo_two :: "int list \<Rightarrow> cascade" where
  "demo_two fails =
     (case cascade_init [\<lparr>tr_name = ''firecracker'', tr_rt = demo_tier_rt 0, tr_cap = 2\<rparr>,
                         \<lparr>tr_name = ''gvisor'', tr_rt = demo_tier_rt 1, tr_cap = 1\<rparr>] (Some 3) [] 60 of
        Inr c \<Rightarrow> c\<lparr>cs_failures := fails\<rparr>)"

definition demo_exc :: exc_heap where
  "demo_exc = [\<lparr>x_class = OtherExc, x_errno = None, x_reason = None, x_cause = None, x_context = None\<rparr>]"

lemmas demo_two_defs = demo_two_def cascade_init_def demo_tier_rt_def demo_exc_def

lemma demo_not_host: "\<not> is_host_resource_failure demo_exc 0"
  by (simp add: is_host_resource_failure_def host_loop.simps xat_def demo_exc_def host_fault_def chain_ref_def)

theorem spawn_routes_witness:
  "\<exists>c'. spawn [\<lparr>v_ready = True, v_answer = Raised demo_exc 0, v_repaired = True\<rparr>,
               \<lparr>v_ready = True, v_answer = Spawned ''s1'', v_repaired = True\<rparr>] (demo_two [2, 0]) = (OnTier 1 ''s1'', c')
     \<and> cs_owner c' ''s1'' = Some 1 \<and> cs_failures c' ! 0 = 0"
proof -
  let ?vs = "[\<lparr>v_ready = True, v_answer = Raised demo_exc 0, v_repaired = True\<rparr>,
              \<lparr>v_ready = True, v_answer = Spawned ''s1'', v_repaired = True\<rparr>]"
  obtain r c' where s: "spawn ?vs (demo_two [2, 0]) = (r, c')" by (cases "spawn ?vs (demo_two [2, 0])")
  have wf: "well_formed (demo_two [2, 0])" "length ?vs = length (cs_tiers (demo_two [2, 0]))"
    by (simp_all add: well_formed_def demo_two_defs)
  have f: "first_serving (demo_two [2, 0]) 0 ?vs = Some (1, \<lparr>v_ready = True, v_answer = Spawned ''s1'', v_repaired = True\<rparr>)"
    by (simp add: tried_def room_def demo_two_defs)
  have k: "streak_after (demo_two [2, 0]) \<lparr>v_ready = True, v_answer = Raised demo_exc 0, v_repaired = True\<rparr> 0 = 0"
    by (simp add: streak_after_def demo_not_host tried_def room_def repair_due_def) (simp add: demo_two_defs)
  have len: "length (cs_tiers (demo_two [2, 0])) = 2" by (simp add: demo_two_defs)
  from spawn_routes [OF wf s, unfolded f option.case prod.case len] s k show ?thesis by simp
qed

end
