(* ===== verification/Cascade_Repair.thy ===== *)
theory Cascade_Repair
  imports Cascade_Slots
begin

text \<open>
  Whose base a repair of the cascade invalidates, what guilt it leaves, and that the identities
  under which the pool keeps its evidence never mix two tiers.
\<close>

section \<open>Identities\<close>

lemma str_nat_digits: "ch \<in> set (str_nat n) \<Longrightarrow> \<exists>d < 10. ch = digit_char d"
proof (induction n rule: str_nat.induct)
  case (1 n)
  have "ch \<in> set (if n < 10 then [digit_char n] else str_nat (n div 10) @ [digit_char (n mod 10)])"
    using "1.prems" by (subst (asm) str_nat.simps)
  then show ?case using "1.IH" by (auto split: if_splits intro: exI [of _ n] exI [of _ "n mod 10"])
qed

lemma str_nat_no_mark: "CHR ''#'' \<notin> set (str_nat n)" "CHR '':'' \<notin> set (str_nat n)"
proof -
  have d: "digit_char d \<noteq> CHR ''#'' \<and> digit_char d \<noteq> CHR '':''" if "d < 10" for d
  proof -
    have "\<forall>d \<in> {0..<10}. digit_char d \<noteq> CHR ''#'' \<and> digit_char d \<noteq> CHR '':''" by code_simp
    with that show ?thesis by auto
  qed
  then show "CHR ''#'' \<notin> set (str_nat n)" "CHR '':'' \<notin> set (str_nat n)"
    using str_nat_digits by metis+
qed

lemma str_nat_inj: "str_nat a = str_nat b \<Longrightarrow> a = b"
  by (metis option.inject of_nat_eq_iff py_int_str_nat)

lemma takeWhile_mark: "ch \<notin> set u \<Longrightarrow> takeWhile (\<lambda>x. x \<noteq> ch) (u @ ch # us) = u"
  by (induction u) auto

lemma suffix_unique:
  assumes "xs @ ch # s = ys @ ch # t" "ch \<notin> set s" "ch \<notin> set t"
  shows "xs = ys \<and> s = t"
proof -
  have tw: "takeWhile (\<lambda>x. x \<noteq> ch) (rev (us @ ch # u)) = rev u" if "ch \<notin> set u" for us u
    using takeWhile_mark [of ch "rev u" "rev us"] that by simp
  from tw [OF assms(2), of xs] tw [OF assms(3), of ys] assms(1) have "s = t" by simp
  with assms(1) show ?thesis by simp
qed

lemma prefix_unique:
  assumes "s @ ch # xs = t @ ch # ys" "ch \<notin> set s" "ch \<notin> set t"
  shows "s = t \<and> xs = ys"
proof -
  have "s = t" using takeWhile_mark [OF assms(2), of xs] takeWhile_mark [OF assms(3), of ys] assms(1) by simp
  with assms(1) show ?thesis by simp
qed

lemma tier_identity_inj: "tier_identity c i = tier_identity c j \<Longrightarrow> i = j"
proof -
  assume "tier_identity c i = tier_identity c j"
  then have "tr_name (cs_tiers c ! i) @ CHR ''#'' # str_nat i = tr_name (cs_tiers c ! j) @ CHR ''#'' # str_nat j"
    by (simp add: tier_identity_def)
  from suffix_unique [OF this str_nat_no_mark(1) str_nat_no_mark(1)] show "i = j" using str_nat_inj by blast
qed

text \<open>
  the histories of workers of different tiers never mix.  When no backend name contains a colon, as
  the declaration guarantees, two slots have the same worker identity only if the same tier owns
  both and that tier gives both the same worker name; so two tiers that each call a box static:0
  keep two failure histories.
\<close>

theorem worker_identity_separates:
  assumes "\<forall>t \<in> set (cs_tiers c). CHR '':'' \<notin> set (tr_name t)"
    and "\<forall>i \<in> ran (cs_owner c). i < length (cs_tiers c)"
    and "worker_identity c inner s1 = Some w" "worker_identity c inner s2 = Some w"
  shows "\<exists>i name. cs_owner c s1 = Some i \<and> cs_owner c s2 = Some i \<and> inner i s1 = Some name \<and> inner i s2 = Some name"
proof -
  obtain i a where a: "cs_owner c s1 = Some i" "inner i s1 = Some a" "w = tier_identity c i @ CHR '':'' # a"
    using assms(3) by (auto simp: worker_identity_def split: option.splits if_splits)
  obtain j b where b: "cs_owner c s2 = Some j" "inner j s2 = Some b" "w = tier_identity c j @ CHR '':'' # b"
    using assms(4) by (auto simp: worker_identity_def split: option.splits if_splits)
  have n: "CHR '':'' \<notin> set (tier_identity c k)" if "k \<in> ran (cs_owner c)" for k
    using assms(1,2) that str_nat_no_mark(2) [of k] by (auto simp: tier_identity_def)
  have "CHR '':'' \<notin> set (tier_identity c i)" "CHR '':'' \<notin> set (tier_identity c j)"
    using n ranI a(1) b(1) by metis+
  from prefix_unique [OF a(3) [unfolded b(3), symmetric] this]
  have "tier_identity c i = tier_identity c j" "a = b" by simp_all
  with a b tier_identity_inj show ?thesis by blast
qed

theorem worker_identity_separates_witness:
  "worker_identity (demo_two [0, 0]\<lparr>cs_owner := [''a'' \<mapsto> 0, ''b'' \<mapsto> 1]\<rparr>) (\<lambda>_ _. Some ''static:0'') ''a''
   \<noteq> worker_identity (demo_two [0, 0]\<lparr>cs_owner := [''a'' \<mapsto> 0, ''b'' \<mapsto> 1]\<rparr>) (\<lambda>_ _. Some ''static:0'') ''b''"
proof
  let ?c = "demo_two [0, 0]\<lparr>cs_owner := [''a'' \<mapsto> 0, ''b'' \<mapsto> 1]\<rparr>" and ?h = "\<lambda>_ _. Some ''static:0''"
  assume eq: "worker_identity ?c ?h ''a'' = worker_identity ?c ?h ''b''"
  obtain w where w: "worker_identity ?c ?h ''b'' = Some w" by (simp add: worker_identity_def)
  have "\<forall>t \<in> set (cs_tiers ?c). CHR '':'' \<notin> set (tr_name t)" "\<forall>i \<in> ran (cs_owner ?c). i < length (cs_tiers ?c)"
    by (auto simp: demo_two_defs ran_def split: if_splits)
  from worker_identity_separates [OF this eq [unfolded w] w] show False by simp
qed

section \<open>The loop of a repair\<close>

definition own_runtimes :: "cascade \<Rightarrow> bool" where
  "own_runtimes c \<longleftrightarrow> distinct (map (\<lambda>t. rt_id (tr_rt t)) (cs_tiers c))"

lemma tier_index_nth:
  assumes "own_runtimes c" "i < length (cs_tiers c)"
  shows "tier_index c (cs_tiers c ! i) = i"
proof -
  have "cs_tiers c ! j \<noteq> cs_tiers c ! i" if "j < i" for j
  proof
    assume "cs_tiers c ! j = cs_tiers c ! i"
    then have "map (\<lambda>t. rt_id (tr_rt t)) (cs_tiers c) ! j = map (\<lambda>t. rt_id (tr_rt t)) (cs_tiers c) ! i"
      using that assms(2) by simp
    then have "j = i"
      using nth_eq_iff_index_eq [OF assms(1) [unfolded own_runtimes_def]] that assms(2) by simp
    then show False using that by simp
  qed
  then have "takeWhile (\<lambda>u. u \<noteq> cs_tiers c ! i) (cs_tiers c) = take i (cs_tiers c)"
    by (intro takeWhile_eq_take_P_nth) auto
  with assms(2) show ?thesis by (simp add: tier_index_def)
qed

definition repairable :: "cascade \<Rightarrow> nat \<Rightarrow> bool" where
  "repairable c i \<longleftrightarrow> rt_repairs (tr_rt (cs_tiers c ! i))"

lemma absolve_simps [simp]:
  "cs_tiers (absolve i c) = cs_tiers c" "cs_counts (absolve i c) = cs_counts c" "cs_owner (absolve i c) = cs_owner c"
  "cs_job_guilty (absolve i c) = cs_job_guilty c - {i}" "cs_recent (absolve i c) = cs_recent c - {i}"
  "cs_failures (absolve i c) = (cs_failures c)[i := 0]" "cs_episode (absolve i c) = cs_episode c"
  "own_runtimes (absolve i c) = own_runtimes c" "repairable (absolve i c) j = repairable c j"
  "tier_identity (absolve i c) j = tier_identity c j"
  by (simp_all add: absolve_def own_runtimes_def repairable_def tier_identity_def)

lemma repair_loop_result:
  "repair_loop is ok c = ((called, failed, repaired), c') \<Longrightarrow> own_runtimes c \<Longrightarrow> \<forall>i \<in> set is. i < length (cs_tiers c) \<Longrightarrow>
     called = filter (repairable c) is \<and> failed = filter (\<lambda>i. \<not> ok i) called
     \<and> repaired = map (tier_identity c) (filter ok called)
     \<and> cs_tiers c' = cs_tiers c \<and> cs_counts c' = cs_counts c \<and> cs_owner c' = cs_owner c
     \<and> cs_job_guilty c' = cs_job_guilty c - set (filter ok called)
     \<and> length (cs_failures c') = length (cs_failures c)
     \<and> (\<forall>j < length (cs_failures c). cs_failures c' ! j = (if j \<in> set (filter ok called) then 0 else cs_failures c ! j))"
proof (induction "is" arbitrary: c called failed repaired)
  case (Cons i "is")
  have i: "i < length (cs_tiers c)" and rest: "\<forall>i \<in> set is. i < length (cs_tiers c)" using Cons.prems(3) by simp_all
  show ?case
  proof (cases "repairable c i")
    case False
    then have "repair_loop is ok c = ((called, failed, repaired), c')"
      using Cons.prems(1) by (simp add: repairable_def)
    from Cons.IH [OF this Cons.prems(2) rest] False show ?thesis by simp
  next
    case rep: True
    show ?thesis
    proof (cases "ok i")
      case True
      have "tier_index c (cs_tiers c ! i) = i" by (rule tier_index_nth [OF Cons.prems(2) i])
      with Cons.prems(1) rep True obtain cl rp where
        e: "repair_loop is ok (absolve i c) = ((cl, failed, rp), c')" "called = i # cl" "repaired = tier_identity c i # rp"
        by (auto simp: repairable_def Let_def split: prod.splits)
      have "\<forall>k \<in> set is. k < length (cs_tiers (absolve i c))" using rest by simp
      from Cons.IH [OF e(1) _ this] Cons.prems(2) show ?thesis
        using rep True unfolding e(2,3) by (auto simp: nth_list_update)
    next
      case False
      with Cons.prems(1) rep obtain cl fl where
        e: "repair_loop is ok c = ((cl, fl, repaired), c')" "called = i # cl" "failed = i # fl"
        by (auto simp: repairable_def Let_def split: prod.splits)
      from Cons.IH [OF e(1) Cons.prems(2) rest] show ?thesis
        using rep False unfolding e(2,3) by simp
    qed
  qed
qed simp

section \<open>Properties\<close>

text \<open>The evidence a repair acts on: the named tiers, else the tiers guilty of failed spawns.\<close>

definition repair_evidence :: "bool \<Rightarrow> string list \<Rightarrow> cascade \<Rightarrow> nat set" where
  "repair_evidence by_spawn only c =
     (if named_tiers by_spawn only c \<noteq> {} then named_tiers by_spawn only c
      else if by_spawn then spawn_guilty c else {})"

lemma repair_attempt:
  assumes "own_runtimes c" "repair_targets by_spawn only c = Attempt (filter P (tier_range c))"
    and "invalidate_base by_spawn only ok c = ((called, res), c')"
  shows "called = filter (\<lambda>i. P i \<and> repairable c i) (tier_range c)
     \<and> res = (if \<exists>i \<in> set called. \<not> ok i then RepairFailed (map (tier_identity c) (filter ok called))
              else if called = [] then NothingRepaired else Repaired (map (tier_identity c) called))
     \<and> cs_job_guilty c' = cs_job_guilty c - {i \<in> set called. ok i}
     \<and> cs_tiers c' = cs_tiers c \<and> cs_counts c' = cs_counts c \<and> cs_owner c' = cs_owner c
     \<and> (\<forall>j < length (cs_failures c). cs_failures c' ! j = (if j \<in> set called \<and> ok j then 0 else cs_failures c ! j))"
proof -
  let ?is = "filter P (tier_range c)"
  let ?c0 = "c\<lparr>cs_recent := {}, cs_episode := {}\<rparr>"
  obtain cl fl rp c1 where l: "repair_loop ?is ok ?c0 = ((cl, fl, rp), c1)" by (metis prod_cases3 surj_pair)
  have r: "called = cl" "c' = c1" "res = (if fl \<noteq> [] then RepairFailed rp else if cl = [] then NothingRepaired else Repaired rp)"
    using assms(3) unfolding invalidate_base_def assms(2) repair_target.case l by auto
  have o: "own_runtimes ?c0" using assms(1) by (simp add: own_runtimes_def)
  have b: "\<forall>i \<in> set ?is. i < length (cs_tiers ?c0)" by (simp add: tier_range_def)
  have f: "repairable ?c0 = repairable c" "tier_identity ?c0 = tier_identity c"
    by (simp_all add: fun_eq_iff repairable_def tier_identity_def)
  note w = repair_loop_result [OF l o b, unfolded f]
  have "cl = filter (\<lambda>i. P i \<and> repairable c i) (tier_range c)"
    using w by (simp add: conj_commute)
  moreover have "filter ok cl = cl" if "filter (\<lambda>i. \<not> ok i) cl = []"
    using that by (simp add: filter_empty_conv)
  ultimately show ?thesis using w unfolding r by (auto simp: filter_empty_conv)
qed

lemma evidence_targets:
  "repair_evidence by_spawn only c \<noteq> {} \<Longrightarrow>
   repair_targets by_spawn only c = Attempt (filter (\<lambda>i. i \<in> repair_evidence by_spawn only c) (tier_range c))"
  by (auto simp: repair_targets_def repair_evidence_def Let_def)

lemma repair_with_evidence:
  assumes "own_runtimes c" "repair_evidence by_spawn only c \<noteq> {}" "invalidate_base by_spawn only ok c = ((called, res), c')"
  shows "called = filter (\<lambda>i. i \<in> repair_evidence by_spawn only c \<and> repairable c i) (tier_range c)
     \<and> res = (if \<exists>i \<in> set called. \<not> ok i then RepairFailed (map (tier_identity c) (filter ok called))
              else if called = [] then NothingRepaired else Repaired (map (tier_identity c) called))
     \<and> cs_job_guilty c' = cs_job_guilty c - {i \<in> set called. ok i}
     \<and> cs_tiers c' = cs_tiers c \<and> cs_counts c' = cs_counts c \<and> cs_owner c' = cs_owner c
     \<and> (\<forall>j < length (cs_failures c). cs_failures c' ! j = (if j \<in> set called \<and> ok j then 0 else cs_failures c ! j))"
proof -
  from repair_attempt [OF assms(1) evidence_targets [OF assms(2)] assms(3)] show ?thesis .
qed

text \<open>
  C27: a repair invalidates the tiers it has evidence against, and every tier when it has none.  The
  evidence is the first of these that names a tier: the identities the caller convicted; for a repair
  after failed spawns, an open failure streak or a recent failure; for a repair after failed jobs, the
  blame of those jobs.  The tiers of the evidence that can be rebuilt are invalidated, each once and in
  order, or every such tier when there is no evidence; those whose invalidation returned are reported as
  repaired, also by the exception of a partial repair, and only their streaks and blame are cleared; a
  repair that invalidated nothing is an error.  The one exception is a repair after failed spawns, without
  evidence, when tiers have repaired themselves in the meantime: it touches nothing and reports those
  tiers.  Tiers, slots and counts stay in every case.
\<close>

theorem repair_hits_only_the_guilty:
  assumes "own_runtimes c" "cs_job_guilty c \<union> cs_recent c \<subseteq> {..<length (cs_tiers c)}"
    and "length (cs_failures c) = length (cs_tiers c)" "invalidate_base by_spawn only ok c = ((called, res), c')"
  shows "let n = length (cs_tiers c);
        guilty = (\<lambda>i. if \<exists>k < n. tier_identity c k \<in> set only then tier_identity c i \<in> set only
                      else if by_spawn then 0 < cs_failures c ! i \<or> i \<in> cs_recent c
                      else i \<in> cs_job_guilty c);
        evidence = (\<exists>k < n. guilty k)
      in (if \<not> evidence \<and> by_spawn \<and> cs_episode c \<noteq> {}
          then called = [] \<and> res = Repaired (sorted_list_of_set (tier_identity c ` cs_episode c))
            \<and> cs_failures c' = cs_failures c \<and> cs_job_guilty c' = cs_job_guilty c
          else called = filter (\<lambda>i. rt_repairs (tr_rt (cs_tiers c ! i)) \<and> (evidence \<longrightarrow> guilty i)) [0..<n]
            \<and> res = (if \<exists>i \<in> set called. \<not> ok i then RepairFailed (map (tier_identity c) (filter ok called))
                     else if called = [] then NothingRepaired else Repaired (map (tier_identity c) called))
            \<and> cs_job_guilty c' = cs_job_guilty c - {i \<in> set called. ok i}
            \<and> (\<forall>j < n. cs_failures c' ! j = (if j \<in> set called \<and> ok j then 0 else cs_failures c ! j)))
        \<and> cs_tiers c' = cs_tiers c \<and> cs_counts c' = cs_counts c \<and> cs_owner c' = cs_owner c"
proof -
  define n where "n = length (cs_tiers c)"
  define guilty where "guilty = (\<lambda>i. if \<exists>k < n. tier_identity c k \<in> set only then tier_identity c i \<in> set only
                      else if by_spawn then 0 < cs_failures c ! i \<or> i \<in> cs_recent c
                      else i \<in> cs_job_guilty c)"
  define evidence where "evidence = (\<exists>k < n. guilty k)"
  have e: "repair_evidence by_spawn only c = {i. i < n \<and> guilty i}" if "by_spawn \<or> named_tiers by_spawn only c \<noteq> {}"
    using assms(2,3) that unfolding repair_evidence_def named_tiers_def spawn_guilty_def guilty_def n_def Let_def tier_range_def
    by (auto split: if_splits)
  have none: "\<not> evidence" if "named_tiers by_spawn only c = {}" "\<not> by_spawn"
    using assms(2) that unfolding evidence_def guilty_def named_tiers_def n_def Let_def tier_range_def
    by (auto split: if_splits)
  have "(if \<not> evidence \<and> by_spawn \<and> cs_episode c \<noteq> {}
          then called = [] \<and> res = Repaired (sorted_list_of_set (tier_identity c ` cs_episode c))
            \<and> cs_failures c' = cs_failures c \<and> cs_job_guilty c' = cs_job_guilty c
          else called = filter (\<lambda>i. rt_repairs (tr_rt (cs_tiers c ! i)) \<and> (evidence \<longrightarrow> guilty i)) [0..<n]
            \<and> res = (if \<exists>i \<in> set called. \<not> ok i then RepairFailed (map (tier_identity c) (filter ok called))
                     else if called = [] then NothingRepaired else Repaired (map (tier_identity c) called))
            \<and> cs_job_guilty c' = cs_job_guilty c - {i \<in> set called. ok i}
            \<and> (\<forall>j < n. cs_failures c' ! j = (if j \<in> set called \<and> ok j then 0 else cs_failures c ! j)))
        \<and> cs_tiers c' = cs_tiers c \<and> cs_counts c' = cs_counts c \<and> cs_owner c' = cs_owner c"
  proof (cases "\<not> evidence \<and> by_spawn \<and> cs_episode c \<noteq> {}")
    case True
    then have "repair_evidence by_spawn only c = {}" using e unfolding evidence_def by auto
    then have "repair_targets by_spawn only c = AlreadyDone (sorted_list_of_set (tier_identity c ` cs_episode c))"
      using True by (auto simp: repair_targets_def repair_evidence_def Let_def split: if_splits)
    then show ?thesis using True assms(4) by (auto simp: invalidate_base_def)
  next
    case False
    have t: "repair_targets by_spawn only c = Attempt (filter (\<lambda>i. evidence \<longrightarrow> guilty i) (tier_range c))"
    proof (cases evidence)
      case True
      then have b: "by_spawn \<or> named_tiers by_spawn only c \<noteq> {}" using none by blast
      have ne: "repair_evidence by_spawn only c \<noteq> {}" using True unfolding e [OF b] evidence_def by blast
      have "filter (\<lambda>i. i \<in> repair_evidence by_spawn only c) (tier_range c) = filter (\<lambda>i. evidence \<longrightarrow> guilty i) (tier_range c)"
        using True unfolding e [OF b] by (intro filter_cong) (simp_all add: tier_range_def n_def)
      with evidence_targets [OF ne] show ?thesis by simp
    next
      case no: False
      have empty: "{i. i < n \<and> guilty i} = {}" using no unfolding evidence_def by blast
      have nt: "named_tiers by_spawn only c = {}"
      proof (rule ccontr)
        assume "named_tiers by_spawn only c \<noteq> {}"
        then show False using e empty by (simp add: repair_evidence_def)
      qed
      have "spawn_guilty c = {} \<and> cs_episode c = {}" if "by_spawn"
        using e empty nt no False that by (simp add: repair_evidence_def)
      then show ?thesis using no nt by (auto simp: repair_targets_def Let_def)
    qed
    have f: "filter (\<lambda>i. (evidence \<longrightarrow> guilty i) \<and> repairable c i) (tier_range c)
        = filter (\<lambda>i. rt_repairs (tr_rt (cs_tiers c ! i)) \<and> (evidence \<longrightarrow> guilty i)) [0..<n]"
      by (auto simp: tier_range_def n_def repairable_def intro!: filter_cong)
    have l: "length (cs_failures c) = n" using assms(3) by (simp add: n_def)
    note w = repair_attempt [OF assms(1) t assms(4), unfolded f l]
    show ?thesis unfolding if_not_P [OF False] using w by blast
  qed
  then show ?thesis unfolding Let_def evidence_def guilty_def n_def .
qed

theorem repair_hits_only_the_guilty_witness:
  "fst (fst (invalidate_base True [] (\<lambda>_. True) (demo_two [3, 0]))) = [0]"
proof -
  let ?c = "demo_two [3, 0]"
  let ?r = "invalidate_base True [] (\<lambda>_. True) ?c"
  have o: "own_runtimes ?c" by (simp add: own_runtimes_def demo_two_defs)
  have w: "cs_job_guilty ?c \<union> cs_recent ?c \<subseteq> {..<length (cs_tiers ?c)}" "length (cs_failures ?c) = length (cs_tiers ?c)"
    by (simp_all add: demo_two_defs)
  have i: "?r = ((fst (fst ?r), snd (fst ?r)), snd ?r)" by simp
  have c: "length (cs_tiers ?c) = 2" "cs_failures ?c = [3, 0]" "cs_recent ?c = {}" "rt_repairs (tr_rt (cs_tiers ?c ! 0))"
    by (simp_all add: demo_two_defs)
  have u: "[0..<2] = [0, Suc 0]" by (simp add: upt_rec)
  have ev: "\<exists>k < (2 :: nat). 0 < [3 :: int, 0] ! k" by (intro exI [of _ 0]) simp
  from repair_hits_only_the_guilty [OF o w i] show ?thesis
    unfolding Let_def c(1-3) using ev c(4) by (simp add: u)
qed

text \<open>
  a retry of a repair goes on where it failed.  When a repair driven by failed jobs raised, the same
  repair tried again invalidates exactly the tiers whose invalidation failed the first time; the tiers
  that were repaired are left alone.
\<close>

theorem repair_retry_only_failed:
  assumes "own_runtimes c" "cs_job_guilty c \<subseteq> set (tier_range c)"
    and "invalidate_base False [] ok c = ((called, RepairFailed names), c')"
    and "cs_job_guilty c \<noteq> {}" "invalidate_base False [] ok' c' = ((called', res), c'')"
  shows "called' = filter (\<lambda>i. \<not> ok i) called \<and> called' \<noteq> []"
proof -
  have e: "repair_evidence False [] c = cs_job_guilty c" using assms(4) by (simp add: repair_evidence_def named_tiers_def)
  note f = repair_with_evidence [OF assms(1) _ assms(3), unfolded e, OF assms(4)]
  have called: "called = filter (\<lambda>i. i \<in> cs_job_guilty c \<and> repairable c i) (tier_range c)"
    and guilt: "cs_job_guilty c' = cs_job_guilty c - {i \<in> set called. ok i}" and tiers: "cs_tiers c' = cs_tiers c"
    using f by blast+
  obtain k where k: "k \<in> set called" "\<not> ok k" using f by (auto split: if_splits)
  then have left: "k \<in> cs_job_guilty c'" using called guilt by auto
  have o: "own_runtimes c'" using assms(1) tiers by (simp add: own_runtimes_def)
  have e': "repair_evidence False [] c' = cs_job_guilty c'" using left by (auto simp: repair_evidence_def named_tiers_def)
  have r: "tier_range c' = tier_range c" "repairable c' = repairable c"
    using tiers by (simp_all add: tier_range_def fun_eq_iff repairable_def)
  have "called' = filter (\<lambda>i. i \<in> cs_job_guilty c' \<and> repairable c i) (tier_range c)"
    using repair_with_evidence [OF o _ assms(5), unfolded e' r] left by blast
  also have "\<dots> = filter (\<lambda>i. \<not> ok i) called"
    unfolding called guilt by (auto simp: filter_filter intro!: filter_cong)
  finally show ?thesis using k by (auto simp: filter_empty_conv)
qed

theorem repair_retry_only_failed_witness:
  "fst (fst (invalidate_base False [] (\<lambda>_. True)
     (snd (invalidate_base False [] (\<lambda>i. i = 0) (demo_two [0, 0]\<lparr>cs_job_guilty := {0, 1}\<rparr>))))) = [1]"
proof -
  let ?c = "demo_two [0, 0]\<lparr>cs_job_guilty := {0, 1}\<rparr>"
  let ?r = "invalidate_base False [] (\<lambda>i. i = 0) ?c"
  let ?s = "invalidate_base False [] (\<lambda>_. True) (snd ?r)"
  have o: "own_runtimes ?c" by (simp add: own_runtimes_def demo_two_defs)
  have g: "cs_job_guilty ?c \<subseteq> set (tier_range ?c)" "cs_job_guilty ?c \<noteq> {}" by (auto simp: tier_range_def demo_two_defs)
  have f: "fst ?r = ([0, 1], RepairFailed [tier_identity ?c 0])"
    by (simp add: invalidate_base_def repair_targets_def named_tiers_def tier_range_def demo_two_defs Let_def
        tier_index_def absolve_def tier_identity_def)
  have r: "?r = (([0, 1], RepairFailed [tier_identity ?c 0]), snd ?r)" using f by (metis prod.collapse)
  have s: "?s = ((fst (fst ?s), snd (fst ?s)), snd ?s)" by simp
  from repair_retry_only_failed [OF o g(1) r g(2) s] show ?thesis by simp
qed

end
