(* ===== verification/Cascade_Run.thy ===== *)
theory Cascade_Run
  imports Cascade_Admission Cascade_Repair
begin

text \<open>
  The cascade under any interleaving of spawns and releases.  A thread is inside one call, at one of
  the program points between the locked blocks of \<open>Cascade_Slots\<close>; tiers may join and other
  operations may run at any time.  The one thing asked of the pool is what its own protocol gives
  (\<open>Pool_Ownership.disposed_once\<close>): no two threads release the same slot at once.
\<close>

section \<open>Program points and steps\<close>

text \<open>
  The loop of a spawn looks at tier \<open>i\<close> (the flag: some tier raised), asks it whether it is prepared,
  takes a place, waits for the backend, judges a failure, waits for an invalidation.
\<close>

datatype cascade_call =
    Looking nat bool
  | Asking nat bool
  | Reserving nat bool
  | Spawning nat bool
  | Judging nat int
  | Repairing nat int
  | SpawnEnded spawn_result
  | Reaping string nat
  | ReapEnded

record run =
  rn_c :: cascade
  rn_calls :: "nat \<Rightarrow> cascade_call option"

definition at_point :: "nat \<Rightarrow> cascade_call \<Rightarrow> run \<Rightarrow> run" where
  "at_point t k s = s\<lparr>rn_calls := (rn_calls s)(t := Some k)\<rparr>"

definition on_cascade :: "(cascade \<Rightarrow> cascade) \<Rightarrow> run \<Rightarrow> run" where
  "on_cascade f s = s\<lparr>rn_c := f (rn_c s)\<rparr>"

definition same_slots :: "cascade \<Rightarrow> cascade \<Rightarrow> bool" where
  "same_slots c c' \<longleftrightarrow> cs_counts c' = cs_counts c \<and> cs_owner c' = cs_owner c
     \<and> map tr_cap (cs_tiers c') = map tr_cap (cs_tiers c)"

abbreviation tier_count :: "run \<Rightarrow> nat" where "tier_count s \<equiv> length (cs_tiers (rn_c s))"

inductive cascade_step :: "nat option \<Rightarrow> run \<Rightarrow> run \<Rightarrow> bool" where
  begin_spawn: "rn_calls s t = None \<Longrightarrow> cascade_step (Some t) s (at_point t (Looking 0 False) s)"
| end_spawn: "rn_calls s t = Some (Looking i e) \<Longrightarrow> tier_count s \<le> i
    \<Longrightarrow> cascade_step (Some t) s (at_point t (SpawnEnded (if e then SpawnFailed else Exhausted)) s)"
| skip_full: "rn_calls s t = Some (Looking i e) \<Longrightarrow> i < tier_count s \<Longrightarrow> \<not> room (rn_c s) i
    \<Longrightarrow> cascade_step (Some t) s (at_point t (Looking (Suc i) e) s)"
| look: "rn_calls s t = Some (Looking i e) \<Longrightarrow> i < tier_count s \<Longrightarrow> room (rn_c s) i
    \<Longrightarrow> cascade_step (Some t) s (at_point t (Asking i e) s)"
| unprepared: "rn_calls s t = Some (Asking i e) \<Longrightarrow> cascade_step (Some t) s (at_point t (Looking (Suc i) e) s)"
| prepared: "rn_calls s t = Some (Asking i e) \<Longrightarrow> cascade_step (Some t) s (at_point t (Reserving i e) s)"
| raced: "rn_calls s t = Some (Reserving i e) \<Longrightarrow> \<not> room (rn_c s) i
    \<Longrightarrow> cascade_step (Some t) s (at_point t (Looking (Suc i) e) s)"
| take_place: "rn_calls s t = Some (Reserving i e) \<Longrightarrow> room (rn_c s) i
    \<Longrightarrow> cascade_step (Some t) s (at_point t (Spawning i e) (on_cascade (reserve i) s))"
| got: "rn_calls s t = Some (Spawning i e) \<Longrightarrow> cs_owner (rn_c s) sid = None
    \<Longrightarrow> cascade_step (Some t) s (at_point t (SpawnEnded (OnTier i sid)) (on_cascade (own i sid) s))"
| at_capacity: "rn_calls s t = Some (Spawning i e)
    \<Longrightarrow> cascade_step (Some t) s (at_point t (Looking (Suc i) e) (on_cascade (give_back i) s))"
| host_fault: "rn_calls s t = Some (Spawning i e)
    \<Longrightarrow> cascade_step (Some t) s (at_point t (Looking (Suc i) True) (on_cascade (give_back i) s))"
| broke: "rn_calls s t = Some (Spawning i e)
    \<Longrightarrow> cascade_step (Some t) s
          (at_point t (Judging i (cs_failures (rn_c s) ! i + 1)) (on_cascade (note_failure i) s))"
| spare: "rn_calls s t = Some (Judging i k) \<Longrightarrow> \<not> repair_due (rn_c s) i k
    \<Longrightarrow> cascade_step (Some t) s (at_point t (Looking (Suc i) True) s)"
| repair: "rn_calls s t = Some (Judging i k) \<Longrightarrow> repair_due (rn_c s) i k
    \<Longrightarrow> cascade_step (Some t) s (at_point t (Repairing i k) (on_cascade (start_repair i) s))"
| repair_ended: "rn_calls s t = Some (Repairing i k)
    \<Longrightarrow> cascade_step (Some t) s (at_point t (Looking (Suc i) True) (on_cascade (end_repair i k ok) s))"
| begin_reap: "rn_calls s t = None \<Longrightarrow> cs_owner (rn_c s) sid = Some i \<Longrightarrow> \<forall>u j. rn_calls s u \<noteq> Some (Reaping sid j)
    \<Longrightarrow> cascade_step (Some t) s (at_point t (Reaping sid i) s)"
| reaped: "rn_calls s t = Some (Reaping sid i)
    \<Longrightarrow> cascade_step (Some t) s (at_point t ReapEnded (on_cascade (unown i sid) s))"
| reap_raised: "rn_calls s t = Some (Reaping sid i) \<Longrightarrow> cascade_step (Some t) s (at_point t ReapEnded s)"
| join: "0 \<le> df_cap d \<Longrightarrow> cascade_step None s (on_cascade (publish_tier d rt) s)"
| other: "same_slots (rn_c s) c' \<Longrightarrow> cascade_step None s (s\<lparr>rn_c := c'\<rparr>)"

inductive labelled_run :: "run \<Rightarrow> nat option list \<Rightarrow> run \<Rightarrow> bool" where
  stop: "labelled_run s [] s"
| more: "labelled_run s ls s1 \<Longrightarrow> cascade_step l s1 s2 \<Longrightarrow> labelled_run s (ls @ [l]) s2"

section \<open>The invariant\<close>

definition owned :: "run \<Rightarrow> nat \<Rightarrow> string set" where
  "owned s i = {sid. cs_owner (rn_c s) sid = Some i}"

definition flying :: "run \<Rightarrow> nat \<Rightarrow> nat set" where
  "flying s i = {t. \<exists>e. rn_calls s t = Some (Spawning i e)}"

fun call_tier :: "cascade_call \<Rightarrow> nat option" where
  "call_tier (Asking i _) = Some i"
| "call_tier (Reserving i _) = Some i"
| "call_tier (Spawning i _) = Some i"
| "call_tier (Judging i _) = Some i"
| "call_tier (Repairing i _) = Some i"
| "call_tier _ = None"

definition places :: "run \<Rightarrow> bool" where
  "places s \<longleftrightarrow> length (cs_counts (rn_c s)) = tier_count s
     \<and> (\<forall>i < tier_count s. cs_counts (rn_c s) ! i = int (card (owned s i)) + int (card (flying s i))
          \<and> cs_counts (rn_c s) ! i \<le> tr_cap (cs_tiers (rn_c s) ! i))"

definition points :: "run \<Rightarrow> bool" where
  "points s \<longleftrightarrow> finite (dom (cs_owner (rn_c s))) \<and> finite (dom (rn_calls s))
     \<and> (\<forall>sid i. cs_owner (rn_c s) sid = Some i \<longrightarrow> i < tier_count s)
     \<and> (\<forall>t k i. rn_calls s t = Some k \<longrightarrow> call_tier k = Some i \<longrightarrow> i < tier_count s)
     \<and> (\<forall>t sid i. rn_calls s t = Some (Reaping sid i) \<longrightarrow> cs_owner (rn_c s) sid = Some i)
     \<and> (\<forall>t u sid i j. rn_calls s t = Some (Reaping sid i) \<longrightarrow> rn_calls s u = Some (Reaping sid j) \<longrightarrow> t = u)"

lemma placesI:
  assumes "length (cs_counts (rn_c s)) = tier_count s"
    and "\<And>i. i < tier_count s \<Longrightarrow> cs_counts (rn_c s) ! i = int (card (owned s i)) + int (card (flying s i))"
    and "\<And>i. i < tier_count s \<Longrightarrow> cs_counts (rn_c s) ! i \<le> tr_cap (cs_tiers (rn_c s) ! i)"
  shows "places s"
  using assms unfolding places_def by blast

lemma placesD:
  assumes "places s"
  shows "length (cs_counts (rn_c s)) = tier_count s"
    and "i < tier_count s \<Longrightarrow> cs_counts (rn_c s) ! i = int (card (owned s i)) + int (card (flying s i))"
    and "i < tier_count s \<Longrightarrow> cs_counts (rn_c s) ! i \<le> tr_cap (cs_tiers (rn_c s) ! i)"
  using assms unfolding places_def by blast+

lemma at_point_simps [simp]:
  "rn_c (at_point t k s) = rn_c s" "rn_calls (at_point t k s) = (rn_calls s)(t := Some k)"
  "rn_c (on_cascade f s) = f (rn_c s)" "rn_calls (on_cascade f s) = rn_calls s"
  by (simp_all add: at_point_def on_cascade_def)

lemma flying_at [simp]:
  "flying (at_point t k s) i = (if \<exists>e. k = Spawning i e then insert t (flying s i) else flying s i - {t})"
  by (auto simp: flying_def)

lemma owned_at [simp]: "owned (at_point t k s) i = owned s i"
  by (simp add: owned_def)

lemma owned_cong: "cs_owner (rn_c s') = cs_owner (rn_c s) \<Longrightarrow> owned s' i = owned s i"
  by (simp add: owned_def)

lemma flying_on [simp]: "flying (on_cascade f s) i = flying s i"
  by (simp add: flying_def)

lemma finite_flying: "points s \<Longrightarrow> finite (flying s i)"
  unfolding points_def flying_def by (elim conjE) (rule finite_subset [of _ "dom (rn_calls s)"], auto)

lemma finite_owned: "points s \<Longrightarrow> finite (owned s i)"
  unfolding points_def owned_def by (elim conjE) (rule finite_subset [of _ "dom (cs_owner (rn_c s))"], auto)

lemma not_flying: "rn_calls s t = Some k \<Longrightarrow> (\<forall>e. k \<noteq> Spawning i e) \<Longrightarrow> t \<notin> flying s i"
  by (auto simp: flying_def)

lemma points_call_tier: "points s \<Longrightarrow> rn_calls s t = Some k \<Longrightarrow> call_tier k = Some i \<Longrightarrow> i < tier_count s"
  unfolding points_def by blast

lemma points_reaping: "points s \<Longrightarrow> rn_calls s t = Some (Reaping sid i) \<Longrightarrow> cs_owner (rn_c s) sid = Some i"
  unfolding points_def by blast

text \<open>A step that leaves the places alone, and the four that do not.\<close>

lemma places_idle:
  assumes "places s" "\<forall>i. t \<notin> flying s i" "\<forall>i e. k \<noteq> Spawning i e"
    "cs_counts (f (rn_c s)) = cs_counts (rn_c s)" "cs_owner (f (rn_c s)) = cs_owner (rn_c s)"
    "cs_tiers (f (rn_c s)) = cs_tiers (rn_c s)"
  shows "places (at_point t k (on_cascade f s))"
proof -
  have o: "owned (on_cascade f s) i = owned s i" for i by (rule owned_cong) (use assms in simp)
  show ?thesis
    by (rule placesI) (use placesD [OF assms(1)] assms(2-4,6) o in simp_all)
qed

lemma on_cascade_id [simp]: "on_cascade (\<lambda>c. c) s = s"
  by (simp add: on_cascade_def)

lemmas places_idle_id = places_idle [where f = "\<lambda>c. c", simplified]

lemma places_take:
  assumes "places s" "points s" "rn_calls s t = Some (Reserving i e)" "room (rn_c s) i"
  shows "places (at_point t (Spawning i e) (on_cascade (reserve i) s))"
proof -
  have i: "i < tier_count s" by (rule points_call_tier [OF assms(2,3)]) simp
  have t: "t \<notin> flying s j" for j by (rule not_flying [OF assms(3)]) simp
  have f: "card (insert t (flying s i)) = Suc (card (flying s i))" using t finite_flying [OF assms(2)] by simp
  have o: "owned (on_cascade (reserve i) s) j = owned s j" for j by (rule owned_cong) simp
  have c: "cs_counts (reserve i (rn_c s)) ! j = cs_counts (rn_c s) ! j + (if j = i then 1 else 0)"
    if "j < tier_count s" for j
    using that placesD(1) [OF assms(1)] by (simp add: reserve_def nth_list_update)
  let ?s = "at_point t (Spawning i e) (on_cascade (reserve i) s)"
  show ?thesis
  proof (rule placesI)
    fix j assume "j < tier_count ?s"
    then have j: "j < tier_count s" by simp
    show "cs_counts (rn_c ?s) ! j = int (card (owned ?s j)) + int (card (flying ?s j))"
    proof (cases "j = i")
      case True
      then have "flying ?s j = insert t (flying s i)" "owned ?s j = owned s i" using o by auto
      then show ?thesis using c [OF j] placesD(2) [OF assms(1) i] f True by simp
    next
      case False
      then have "flying ?s j = flying s j" "owned ?s j = owned s j" using o t [of j] by auto
      then show ?thesis using c [OF j] placesD(2) [OF assms(1) j] False by simp
    qed
    show "cs_counts (rn_c ?s) ! j \<le> tr_cap (cs_tiers (rn_c ?s) ! j)"
      using c [OF j] placesD(3) [OF assms(1) j] assms(4) by (cases "j = i") (simp_all add: room_def)
  qed (use placesD(1) [OF assms(1)] in \<open>simp add: reserve_def\<close>)
qed

lemma card_drop: "finite A \<Longrightarrow> x \<in> A \<Longrightarrow> int (card (A - {x})) = int (card A) - 1"
  using card_Suc_Diff1 [of A x] by simp

lemma places_leave:
  assumes "places s" "points s" "rn_calls s t = Some (Spawning i e)" "\<forall>j e'. k \<noteq> Spawning j e'"
    and "cs_counts (f (rn_c s)) = (cs_counts (rn_c s))[i := cs_counts (rn_c s) ! i - 1]"
    and "cs_owner (f (rn_c s)) = cs_owner (rn_c s)" "cs_tiers (f (rn_c s)) = cs_tiers (rn_c s)"
  shows "places (at_point t k (on_cascade f s))"
proof -
  have i: "i < tier_count s" by (rule points_call_tier [OF assms(2,3)]) simp
  have t: "t \<in> flying s i" "\<And>j. j \<noteq> i \<Longrightarrow> t \<notin> flying s j" using assms(3) by (auto simp: flying_def)
  have f: "int (card (flying s i - {t})) = int (card (flying s i)) - 1"
    by (rule card_drop [OF finite_flying [OF assms(2)] t(1)])
  have o: "owned (on_cascade f s) j = owned s j" for j by (rule owned_cong) (use assms in simp)
  have c: "cs_counts (f (rn_c s)) ! j = cs_counts (rn_c s) ! j - (if j = i then 1 else 0)"
    if "j < tier_count s" for j
    using that placesD(1) [OF assms(1)] assms(5) by (simp add: nth_list_update)
  let ?s = "at_point t k (on_cascade f s)"
  show ?thesis
  proof (rule placesI)
    fix j assume "j < tier_count ?s"
    then have j: "j < tier_count s" using assms(7) by simp
    show "cs_counts (rn_c ?s) ! j = int (card (owned ?s j)) + int (card (flying ?s j))"
      using c [OF j] placesD(2) [OF assms(1) j] o f t(2) [of j] assms(4) by (cases "j = i") simp_all
    show "cs_counts (rn_c ?s) ! j \<le> tr_cap (cs_tiers (rn_c ?s) ! j)"
      using c [OF j] placesD(3) [OF assms(1) j] assms(7) by (simp split: if_splits)
  qed (use placesD(1) [OF assms(1)] assms(5,7) in simp)
qed

lemma places_got:
  assumes "places s" "points s" "rn_calls s t = Some (Spawning i e)" "cs_owner (rn_c s) sid = None"
  shows "places (at_point t (SpawnEnded r) (on_cascade (own i sid) s))"
proof -
  have i: "i < tier_count s" by (rule points_call_tier [OF assms(2,3)]) simp
  have t: "t \<in> flying s i" "\<And>j. j \<noteq> i \<Longrightarrow> t \<notin> flying s j" using assms(3) by (auto simp: flying_def)
  have f: "int (card (flying s i - {t})) = int (card (flying s i)) - 1"
    by (rule card_drop [OF finite_flying [OF assms(2)] t(1)])
  have o: "owned (on_cascade (own i sid) s) j = (if j = i then insert sid (owned s i) else owned s j)" for j
    using assms(4) by (auto simp: owned_def)
  have "sid \<notin> owned s i" using assms(4) by (simp add: owned_def)
  then have c: "card (insert sid (owned s i)) = Suc (card (owned s i))" using finite_owned [OF assms(2)] by simp
  let ?s = "at_point t (SpawnEnded r) (on_cascade (own i sid) s)"
  show ?thesis
  proof (rule placesI)
    fix j assume "j < tier_count ?s"
    then have j: "j < tier_count s" by simp
    show "cs_counts (rn_c ?s) ! j = int (card (owned ?s j)) + int (card (flying ?s j))"
      using placesD(2) [OF assms(1) j] o c f t(2) [of j] by (cases "j = i") simp_all
    show "cs_counts (rn_c ?s) ! j \<le> tr_cap (cs_tiers (rn_c ?s) ! j)"
      using placesD(3) [OF assms(1) j] by simp
  qed (use placesD(1) [OF assms(1)] in simp)
qed

lemma places_reaped:
  assumes "places s" "points s" "rn_calls s t = Some (Reaping sid i)"
  shows "places (at_point t ReapEnded (on_cascade (unown i sid) s))"
proof -
  have own: "cs_owner (rn_c s) sid = Some i" by (rule points_reaping [OF assms(2,3)])
  have i: "i < tier_count s" using assms(2) own unfolding points_def by blast
  have t: "t \<notin> flying s j" for j by (rule not_flying [OF assms(3)]) simp
  have o: "owned (on_cascade (unown i sid) s) j = (if j = i then owned s i - {sid} else owned s j)" for j
    using own by (auto simp: owned_def)
  have sid: "sid \<in> owned s i" using own by (simp add: owned_def)
  have c: "int (card (owned s i - {sid})) = int (card (owned s i)) - 1"
    by (rule card_drop [OF finite_owned [OF assms(2)] sid])
  have "0 < card (owned s i)" using sid finite_owned [OF assms(2)] by (metis card_gt_0_iff empty_iff)
  then have pos: "1 \<le> cs_counts (rn_c s) ! i" using placesD(2) [OF assms(1) i] by simp
  have n: "cs_counts (unown i sid (rn_c s)) ! j = cs_counts (rn_c s) ! j - (if j = i then 1 else 0)"
    if "j < tier_count s" for j
    using that pos placesD(1) [OF assms(1)] by (simp add: unown_def nth_list_update)
  let ?s = "at_point t ReapEnded (on_cascade (unown i sid) s)"
  show ?thesis
  proof (rule placesI)
    fix j assume "j < tier_count ?s"
    then have j: "j < tier_count s" by simp
    show "cs_counts (rn_c ?s) ! j = int (card (owned ?s j)) + int (card (flying ?s j))"
      using n [OF j] placesD(2) [OF assms(1) j] o c t [of j] by (cases "j = i") simp_all
    show "cs_counts (rn_c ?s) ! j \<le> tr_cap (cs_tiers (rn_c ?s) ! j)"
      using n [OF j] placesD(3) [OF assms(1) j] by (simp split: if_splits)
  qed (use placesD(1) [OF assms(1)] in \<open>simp add: unown_def\<close>)
qed

lemma places_join:
  assumes "places s" "points s" "0 \<le> df_cap d"
  shows "places (on_cascade (publish_tier d rt) s)"
proof -
  have "owned s (tier_count s) = {}" using assms(2) unfolding points_def owned_def by blast
  moreover have "flying s (tier_count s) = {}"
    using points_call_tier [OF assms(2)] by (fastforce simp: flying_def)
  moreover have "owned (on_cascade (publish_tier d rt) s) j = owned s j" for j by (simp add: owned_def)
  ultimately show ?thesis
    using placesD [OF assms(1)] assms(3) by (intro placesI) (auto simp: nth_append less_Suc_eq)
qed

lemma places_other:
  assumes "places s" "same_slots (rn_c s) c'"
  shows "places (s\<lparr>rn_c := c'\<rparr>)"
proof -
  have l: "length (cs_tiers c') = tier_count s" using assms(2) by (metis length_map same_slots_def)
  have c: "tr_cap (cs_tiers c' ! i) = tr_cap (cs_tiers (rn_c s) ! i)" if "i < tier_count s" for i
  proof -
    have "map tr_cap (cs_tiers c') ! i = map tr_cap (cs_tiers (rn_c s)) ! i" using assms(2) by (simp add: same_slots_def)
    then show ?thesis using that l by simp
  qed
  have o: "owned (s\<lparr>rn_c := c'\<rparr>) j = owned s j" for j
    by (rule owned_cong) (use assms(2) in \<open>simp add: same_slots_def\<close>)
  have f: "flying (s\<lparr>rn_c := c'\<rparr>) j = flying s j" for j by (simp add: flying_def)
  show ?thesis
    using placesD [OF assms(1)] assms(2) l c o f by (intro placesI) (simp_all add: same_slots_def)
qed

lemma points_frame:
  assumes "points s" "cs_owner (f (rn_c s)) = cs_owner (rn_c s)" "cs_tiers (f (rn_c s)) = cs_tiers (rn_c s)"
    and "\<forall>i. call_tier k = Some i \<longrightarrow> i < tier_count s" "\<forall>sid i. k \<noteq> Reaping sid i"
  shows "points (at_point t k (on_cascade f s))"
proof -
  note p = assms(1) [unfolded points_def]
  let ?s = "at_point t k (on_cascade f s)"
  have c: "rn_calls ?s u = (if u = t then Some k else rn_calls s u)" for u by simp
  show ?thesis
    unfolding points_def
  proof (intro conjI allI impI)
    show "finite (dom (cs_owner (rn_c ?s)))" "finite (dom (rn_calls ?s))" using p assms(2) by simp_all
  next
    fix sid i assume "cs_owner (rn_c ?s) sid = Some i"
    then show "i < tier_count ?s" using p assms(2,3) by simp
  next
    fix u k' i assume "rn_calls ?s u = Some k'" "call_tier k' = Some i"
    then show "i < tier_count ?s" using p assms(3,4) unfolding c by (auto split: if_splits)
  next
    fix u sid i assume "rn_calls ?s u = Some (Reaping sid i)"
    then show "cs_owner (rn_c ?s) sid = Some i" using p assms(2,5) unfolding c by (auto split: if_splits)
  next
    fix u v sid i j assume "rn_calls ?s u = Some (Reaping sid i)" "rn_calls ?s v = Some (Reaping sid j)"
    then have "rn_calls s u = Some (Reaping sid i)" "rn_calls s v = Some (Reaping sid j)"
      using assms(5) unfolding c by (auto split: if_splits)
    then show "u = v" using p by blast
  qed
qed


lemmas points_frame_id = points_frame [where f = "\<lambda>c. c", simplified]

lemma points_got:
  assumes "points s" "rn_calls s t = Some (Spawning i e)" "cs_owner (rn_c s) sid = None"
  shows "points (at_point t (SpawnEnded r) (on_cascade (own i sid) s))"
proof -
  note p = assms(1) [unfolded points_def]
  have i: "i < tier_count s" by (rule points_call_tier [OF assms(1,2)]) simp
  let ?s = "at_point t (SpawnEnded r) (on_cascade (own i sid) s)"
  have c: "rn_calls ?s u = (if u = t then Some (SpawnEnded r) else rn_calls s u)" for u by simp
  have o: "cs_owner (rn_c ?s) x = (if x = sid then Some i else cs_owner (rn_c s) x)" for x by simp
  show ?thesis
    unfolding points_def
  proof (intro conjI allI impI)
    show "finite (dom (cs_owner (rn_c ?s)))" "finite (dom (rn_calls ?s))" using p by simp_all
  next
    fix x j assume "cs_owner (rn_c ?s) x = Some j"
    then show "j < tier_count ?s" using p i unfolding o by (auto split: if_splits)
  next
    fix u k j assume "rn_calls ?s u = Some k" "call_tier k = Some j"
    then show "j < tier_count ?s" using p unfolding c by (auto split: if_splits)
  next
    fix u x j assume "rn_calls ?s u = Some (Reaping x j)"
    then have "cs_owner (rn_c s) x = Some j" using p unfolding c by (auto split: if_splits)
    then show "cs_owner (rn_c ?s) x = Some j" using assms(3) unfolding o by auto
  next
    fix u v x j k assume "rn_calls ?s u = Some (Reaping x j)" "rn_calls ?s v = Some (Reaping x k)"
    then have "rn_calls s u = Some (Reaping x j)" "rn_calls s v = Some (Reaping x k)"
      unfolding c by (auto split: if_splits)
    then show "u = v" using p by blast
  qed
qed

lemma points_begin_reap:
  assumes "points s" "cs_owner (rn_c s) sid = Some i" "\<forall>u j. rn_calls s u \<noteq> Some (Reaping sid j)"
  shows "points (at_point t (Reaping sid i) s)"
proof -
  note p = assms(1) [unfolded points_def]
  let ?s = "at_point t (Reaping sid i) s"
  have c: "rn_calls ?s u = (if u = t then Some (Reaping sid i) else rn_calls s u)" for u by simp
  show ?thesis
    unfolding points_def
  proof (intro conjI allI impI)
    show "finite (dom (cs_owner (rn_c ?s)))" "finite (dom (rn_calls ?s))" using p by simp_all
  next
    fix x j assume "cs_owner (rn_c ?s) x = Some j"
    then show "j < tier_count ?s" using p by simp
  next
    fix u k j assume "rn_calls ?s u = Some k" "call_tier k = Some j"
    then show "j < tier_count ?s" using p unfolding c by (auto split: if_splits)
  next
    fix u x j assume "rn_calls ?s u = Some (Reaping x j)"
    then show "cs_owner (rn_c ?s) x = Some j" using p assms(2) unfolding c by (auto split: if_splits)
  next
    fix u v x j k assume a: "rn_calls ?s u = Some (Reaping x j)" "rn_calls ?s v = Some (Reaping x k)"
    show "u = v"
    proof (cases "x = sid")
      case True
      with a assms(3) show ?thesis unfolding c by (auto split: if_splits)
    next
      case False
      with a have "rn_calls s u = Some (Reaping x j)" "rn_calls s v = Some (Reaping x k)"
        unfolding c by (auto split: if_splits)
      then show ?thesis using p by blast
    qed
  qed
qed

lemma points_reaped:
  assumes "points s" "rn_calls s t = Some (Reaping sid i)"
  shows "points (at_point t ReapEnded (on_cascade (unown i sid) s))"
proof -
  note p = assms(1) [unfolded points_def]
  let ?s = "at_point t ReapEnded (on_cascade (unown i sid) s)"
  have c: "rn_calls ?s u = (if u = t then Some ReapEnded else rn_calls s u)" for u by simp
  have o: "cs_owner (rn_c ?s) x = (if x = sid then None else cs_owner (rn_c s) x)" for x by simp
  show ?thesis
    unfolding points_def
  proof (intro conjI allI impI)
    show "finite (dom (cs_owner (rn_c ?s)))" "finite (dom (rn_calls ?s))" using p by simp_all
  next
    fix x j assume "cs_owner (rn_c ?s) x = Some j"
    then show "j < tier_count ?s" using p unfolding o by (auto split: if_splits)
  next
    fix u k j assume "rn_calls ?s u = Some k" "call_tier k = Some j"
    then show "j < tier_count ?s" using p unfolding c by (auto split: if_splits)
  next
    fix u x j assume a: "rn_calls ?s u = Some (Reaping x j)"
    then have u: "u \<noteq> t" "rn_calls s u = Some (Reaping x j)" unfolding c by (auto split: if_splits)
    have "x \<noteq> sid" using u assms(2) p by blast
    then show "cs_owner (rn_c ?s) x = Some j" using u p unfolding o by simp
  next
    fix u v x j k assume "rn_calls ?s u = Some (Reaping x j)" "rn_calls ?s v = Some (Reaping x k)"
    then have "rn_calls s u = Some (Reaping x j)" "rn_calls s v = Some (Reaping x k)"
      unfolding c by (auto split: if_splits)
    then show "u = v" using p by blast
  qed
qed

lemma points_grow:
  assumes "points s" "cs_owner c' = cs_owner (rn_c s)" "tier_count s \<le> length (cs_tiers c')"
  shows "points (s\<lparr>rn_c := c'\<rparr>)"
proof -
  note p = assms(1) [unfolded points_def]
  show ?thesis
    unfolding points_def
  proof (intro conjI allI impI)
    fix x j assume "cs_owner (rn_c (s\<lparr>rn_c := c'\<rparr>)) x = Some j"
    then show "j < tier_count (s\<lparr>rn_c := c'\<rparr>)" using p assms(2,3) by fastforce
  next
    fix u k j assume "rn_calls (s\<lparr>rn_c := c'\<rparr>) u = Some k" "call_tier k = Some j"
    then show "j < tier_count (s\<lparr>rn_c := c'\<rparr>)" using p assms(3) by fastforce
  next
    fix u v x j k
    assume "rn_calls (s\<lparr>rn_c := c'\<rparr>) u = Some (Reaping x j)" "rn_calls (s\<lparr>rn_c := c'\<rparr>) v = Some (Reaping x k)"
    then show "u = v" using p by simp
  qed (use p assms(2) in simp_all)
qed

lemma failure_counts: "cs_counts (note_failure i c) = (cs_counts c)[i := cs_counts c ! i - 1]"
  "cs_counts (give_back i c) = (cs_counts c)[i := cs_counts c ! i - 1]"
  by (simp_all add: note_failure_def give_back_def)

lemma step_invariant:
  assumes "cascade_step l s s'" "places s" "points s"
  shows "places s' \<and> points s'"
  using assms(1)
proof (cases rule: cascade_step.cases)
  case (begin_spawn t)
  have "t \<notin> flying s i" for i using begin_spawn(3) by (simp add: flying_def)
  then show ?thesis unfolding begin_spawn(2) by (intro conjI places_idle_id points_frame_id assms) simp_all
next
  case (end_spawn t i e)
  have "t \<notin> flying s i" for i by (rule not_flying [OF end_spawn(3)]) simp
  then show ?thesis unfolding end_spawn(2) by (intro conjI places_idle_id points_frame_id assms) simp_all
next
  case (skip_full t i e)
  have "t \<notin> flying s i" for i by (rule not_flying [OF skip_full(3)]) simp
  then show ?thesis unfolding skip_full(2) by (intro conjI places_idle_id points_frame_id assms) simp_all
next
  case (look t i e)
  have "t \<notin> flying s i" for i by (rule not_flying [OF look(3)]) simp
  then show ?thesis using look(4) unfolding look(2) by (intro conjI places_idle_id points_frame_id assms) simp_all
next
  case (unprepared t i e)
  have "t \<notin> flying s i" for i by (rule not_flying [OF unprepared(3)]) simp
  then show ?thesis unfolding unprepared(2) by (intro conjI places_idle_id points_frame_id assms) simp_all
next
  case (prepared t i e)
  have "t \<notin> flying s i" for i by (rule not_flying [OF prepared(3)]) simp
  moreover have "i < tier_count s" by (rule points_call_tier [OF assms(3) prepared(3)]) simp
  ultimately show ?thesis unfolding prepared(2) by (intro conjI places_idle_id points_frame_id assms) simp_all
next
  case (raced t i e)
  have "t \<notin> flying s i" for i by (rule not_flying [OF raced(3)]) simp
  then show ?thesis unfolding raced(2) by (intro conjI places_idle_id points_frame_id assms) simp_all
next
  case (take_place t i e)
  have "i < tier_count s" by (rule points_call_tier [OF assms(3) take_place(3)]) simp
  then show ?thesis unfolding take_place(2)
    by (intro conjI places_take [OF assms(2,3) take_place(3,4)] points_frame assms) simp_all
next
  case (got t i e sid)
  then show ?thesis using places_got [OF assms(2,3)] points_got [OF assms(3)] by blast
next
  case (at_capacity t i e)
  then show ?thesis unfolding at_capacity(2)
    by (intro conjI places_leave [OF assms(2,3) at_capacity(3)] points_frame assms) (simp_all add: failure_counts)
next
  case (host_fault t i e)
  then show ?thesis unfolding host_fault(2)
    by (intro conjI places_leave [OF assms(2,3) host_fault(3)] points_frame assms) (simp_all add: failure_counts)
next
  case (broke t i e)
  have "i < tier_count s" by (rule points_call_tier [OF assms(3) broke(3)]) simp
  then show ?thesis unfolding broke(2)
    by (intro conjI places_leave [OF assms(2,3) broke(3)] points_frame assms) (simp_all add: failure_counts)
next
  case (spare t i k)
  have "t \<notin> flying s i" for i by (rule not_flying [OF spare(3)]) simp
  then show ?thesis unfolding spare(2) by (intro conjI places_idle_id points_frame_id assms) simp_all
next
  case (repair t i k)
  have "t \<notin> flying s i" for i by (rule not_flying [OF repair(3)]) simp
  moreover have "i < tier_count s" by (rule points_call_tier [OF assms(3) repair(3)]) simp
  ultimately show ?thesis unfolding repair(2) by (intro conjI places_idle points_frame assms) simp_all
next
  case (repair_ended t i k ok)
  have "t \<notin> flying s i" for i by (rule not_flying [OF repair_ended(3)]) simp
  then show ?thesis unfolding repair_ended(2) by (intro conjI places_idle points_frame assms) simp_all
next
  case (begin_reap t sid i)
  have "t \<notin> flying s i" for i using begin_reap(3) by (simp add: flying_def)
  then show ?thesis unfolding begin_reap(2)
    using begin_reap by (intro conjI places_idle_id points_begin_reap assms) simp_all
next
  case (reaped t sid i)
  then show ?thesis using places_reaped [OF assms(2,3)] points_reaped [OF assms(3)] by blast
next
  case (reap_raised t sid i)
  have "t \<notin> flying s i" for i by (rule not_flying [OF reap_raised(3)]) simp
  then show ?thesis unfolding reap_raised(2) by (intro conjI places_idle_id points_frame_id assms) simp_all
next
  case (join d rt)
  have "points (s\<lparr>rn_c := publish_tier d rt (rn_c s)\<rparr>)" by (rule points_grow [OF assms(3)]) simp_all
  then show ?thesis using places_join [OF assms(2,3) join(3)] unfolding join(2) by (simp add: on_cascade_def)
next
  case (other c')
  have "points (s\<lparr>rn_c := c'\<rparr>)"
    using other(3) by (intro points_grow [OF assms(3)]) (simp_all add: same_slots_def, metis length_map order_refl)
  then show ?thesis using places_other [OF assms(2) other(3)] unfolding other(2) by blast
qed

lemma run_invariant: "labelled_run s ls s' \<Longrightarrow> places s \<Longrightarrow> points s \<Longrightarrow> places s' \<and> points s'"
  by (induction rule: labelled_run.induct) (auto dest: step_invariant)


section \<open>Progress\<close>

text \<open>How many steps a call has left at most, when no more than \<open>N\<close> tiers exist.\<close>

fun steps_left :: "nat \<Rightarrow> cascade_call option \<Rightarrow> nat" where
  "steps_left N None = 8 * N + 10"
| "steps_left N (Some (Looking i _)) = 8 * (N - i) + 2"
| "steps_left N (Some (Asking i _)) = 8 * (N - i) + 1"
| "steps_left N (Some (Reserving i _)) = 8 * (N - i)"
| "steps_left N (Some (Spawning i _)) = 8 * (N - i) - 1"
| "steps_left N (Some (Judging i _)) = 8 * (N - i) - 2"
| "steps_left N (Some (Repairing i _)) = 8 * (N - i) - 3"
| "steps_left N (Some (SpawnEnded _)) = 0"
| "steps_left N (Some (Reaping _ _)) = 1"
| "steps_left N (Some ReapEnded) = 0"

lemma next_tier_less: "i < N \<Longrightarrow> 8 * (N - Suc i) + 2 < 8 * (N - i) - (3 :: nat)"
  by simp

lemma tier_count_step: "cascade_step l s s' \<Longrightarrow> tier_count s \<le> tier_count s'"
  by (induction rule: cascade_step.cases) (auto simp: same_slots_def dest: map_eq_imp_length_eq)

lemma step_of_another:
  assumes "cascade_step l s s'" "l \<noteq> Some t"
  shows "rn_calls s' t = rn_calls s t"
  using assms by (cases rule: cascade_step.cases) auto

lemma step_uses_up:
  assumes "cascade_step (Some t) s s'" "points s" "tier_count s \<le> N"
  shows "steps_left N (rn_calls s' t) < steps_left N (rn_calls s t)"
  using assms(1)
proof (cases rule: cascade_step.cases)
  case (unprepared i e)
  have "i < N" using points_call_tier [OF assms(2) unprepared(2)] assms(3) by simp
  then show ?thesis using unprepared by simp
next
  case (raced i e)
  have "i < N" using points_call_tier [OF assms(2) raced(2)] assms(3) by simp
  then show ?thesis using raced by simp
next
  case (take_place i e)
  have "i < N" using points_call_tier [OF assms(2) take_place(2)] assms(3) by simp
  then show ?thesis using take_place by simp
next
  case (got i e sid)
  have "i < N" using points_call_tier [OF assms(2) got(2)] assms(3) by simp
  then show ?thesis using got by simp
next
  case (at_capacity i e)
  have "i < N" using points_call_tier [OF assms(2) at_capacity(2)] assms(3) by simp
  then show ?thesis using at_capacity by simp
next
  case (host_fault i e)
  have "i < N" using points_call_tier [OF assms(2) host_fault(2)] assms(3) by simp
  then show ?thesis using host_fault by simp
next
  case (broke i e)
  have "i < N" using points_call_tier [OF assms(2) broke(2)] assms(3) by simp
  then show ?thesis using broke by simp
next
  case (spare i k)
  have "i < N" using points_call_tier [OF assms(2) spare(2)] assms(3) by simp
  then show ?thesis using spare by simp
next
  case (repair i k)
  have "i < N" using points_call_tier [OF assms(2) repair(2)] assms(3) by simp
  then show ?thesis using repair by simp
next
  case (repair_ended i k ok)
  have "i < N" using points_call_tier [OF assms(2) repair_ended(2)] assms(3) by simp
  then show ?thesis using repair_ended by simp
qed (use assms(3) in auto)

lemma run_uses_up:
  "labelled_run s ls s' \<Longrightarrow> places s \<Longrightarrow> points s \<Longrightarrow> tier_count s' \<le> N \<Longrightarrow>
     count_list ls (Some t) + steps_left N (rn_calls s' t) \<le> steps_left N (rn_calls s t)"
proof (induction rule: labelled_run.induct)
  case (more s ls s1 l s2)
  have n: "tier_count s1 \<le> N" using tier_count_step [OF more.hyps(2)] more.prems(3) by simp
  have p: "points s1" using run_invariant [OF more.hyps(1) more.prems(1,2)] by blast
  note ih = more.IH [OF more.prems(1,2) n]
  show ?case
  proof (cases "l = Some t")
    case True
    from step_uses_up [OF more.hyps(2) [unfolded True] p n] ih True show ?thesis by simp
  next
    case False
    from step_of_another [OF more.hyps(2) False] ih False show ?thesis by simp
  qed
qed simp

definition call_ended :: "cascade_call option \<Rightarrow> bool" where
  "call_ended k \<longleftrightarrow> (case k of Some ReapEnded \<Rightarrow> True | Some (SpawnEnded _) \<Rightarrow> True | _ \<Rightarrow> False)"

lemma call_progress: "rn_calls s t = k \<Longrightarrow> \<not> call_ended k \<Longrightarrow> \<exists>s'. cascade_step (Some t) s s'"
proof (cases k)
  case None
  then show "rn_calls s t = k \<Longrightarrow> ?thesis" using cascade_step.begin_spawn by blast
next
  case (Some c)
  assume a: "rn_calls s t = k" "\<not> call_ended k"
  show ?thesis
  proof (cases c)
    case (Looking i e)
    then show ?thesis using a Some cascade_step.end_spawn cascade_step.skip_full cascade_step.look by (metis not_le)
  next
    case (Reserving i e)
    then show ?thesis using a Some cascade_step.raced cascade_step.take_place by metis
  next
    case (Judging i n)
    then show ?thesis using a Some cascade_step.spare cascade_step.repair by metis
  qed (use a Some in \<open>auto simp: call_ended_def intro: cascade_step.unprepared cascade_step.at_capacity
        cascade_step.repair_ended cascade_step.reap_raised\<close>)
qed

section \<open>Properties\<close>

text \<open>A cascade after startup, before any call.\<close>

definition fresh_run :: "run \<Rightarrow> bool" where
  "fresh_run s \<longleftrightarrow> rn_calls s = (\<lambda>_. None) \<and> cs_owner (rn_c s) = (\<lambda>_. None)
     \<and> cs_counts (rn_c s) = replicate (tier_count s) 0 \<and> (\<forall>t \<in> set (cs_tiers (rn_c s)). 0 \<le> tr_cap t)"

lemma fresh_invariant: "fresh_run s \<Longrightarrow> places s \<and> points s"
  by (auto simp: fresh_run_def places_def points_def owned_def flying_def)

text \<open>
  C25: no tier ever holds more workers than it was declared for.  In every interleaving of spawns,
  releases, repairs and joining tiers, by any number of threads, the count of each tier is exactly
  the slots it owns plus the spawns in flight on it, and never exceeds its capacity; a release whose
  backend raised keeps its slot and its place.
\<close>

theorem cascade_capacity:
  assumes "fresh_run s" "labelled_run s ls s'" "i < length (cs_tiers (rn_c s'))"
  shows "int (card (owned s' i)) + int (card (flying s' i)) = cs_counts (rn_c s') ! i
     \<and> cs_counts (rn_c s') ! i \<le> tr_cap (cs_tiers (rn_c s') ! i)"
  using run_invariant [OF assms(2)] fresh_invariant [OF assms(1)] placesD(2,3) [of s' i] assms(3) by simp

definition demo_cascade_run :: run where
  "demo_cascade_run = \<lparr>rn_c = demo_two [0, 0], rn_calls = (\<lambda>_. None)\<rparr>"

definition demo_taken :: run where
  "demo_taken = at_point 5 (Spawning 0 False) (on_cascade (reserve 0)
     (at_point 5 (Reserving 0 False) (at_point 5 (Asking 0 False) (at_point 5 (Looking 0 False) demo_cascade_run))))"

lemma demo_taken_run: "labelled_run demo_cascade_run [Some 5, Some 5, Some 5, Some 5] demo_taken"
proof -
  let ?s1 = "at_point 5 (Looking 0 False) demo_cascade_run"
  let ?s2 = "at_point 5 (Asking 0 False) ?s1"
  let ?s3 = "at_point 5 (Reserving 0 False) ?s2"
  have r: "room (demo_two [0, 0]) 0" "0 < length (cs_tiers (demo_two [0, 0]))" by (simp_all add: room_def demo_two_defs)
  have "labelled_run demo_cascade_run ([] @ [Some 5]) ?s1"
    by (intro labelled_run.more [OF labelled_run.stop] cascade_step.begin_spawn) (simp add: demo_cascade_run_def)
  then have "labelled_run demo_cascade_run (([] @ [Some 5]) @ [Some 5]) ?s2"
    by (rule labelled_run.more, intro cascade_step.look [where e = False and i = 0]) (use r in \<open>simp_all add: demo_cascade_run_def\<close>)
  then have "labelled_run demo_cascade_run ((([] @ [Some 5]) @ [Some 5]) @ [Some 5]) ?s3"
    by (rule labelled_run.more, intro cascade_step.prepared [where e = False and i = 0]) simp
  then have "labelled_run demo_cascade_run (((([] @ [Some 5]) @ [Some 5]) @ [Some 5]) @ [Some 5]) demo_taken"
    unfolding demo_taken_def
    by (rule labelled_run.more, intro cascade_step.take_place [where e = False and i = 0]) (use r in \<open>simp_all add: demo_cascade_run_def\<close>)
  then show ?thesis by simp
qed

lemma demo_cascade_run_fresh: "fresh_run demo_cascade_run"
  by (simp add: fresh_run_def demo_cascade_run_def demo_two_defs numeral_2_eq_2)

theorem cascade_capacity_witness:
  "cs_counts (rn_c demo_taken) ! 0 = 1 \<and> card (flying demo_taken 0) = 1
   \<and> cs_counts (rn_c demo_taken) ! 0 \<le> tr_cap (cs_tiers (rn_c demo_taken) ! 0)"
proof -
  have n: "0 < length (cs_tiers (rn_c demo_taken))" by (simp add: demo_taken_def demo_cascade_run_def demo_two_defs)
  have c: "cs_counts (rn_c demo_taken) ! 0 = 1" by (simp add: demo_taken_def demo_cascade_run_def reserve_def demo_two_defs)
  have f: "card (flying demo_taken 0) = 1"
    by (simp add: demo_taken_def ex_bool_eq flying_def demo_cascade_run_def)
  from cascade_capacity [OF demo_cascade_run_fresh demo_taken_run n] c f show ?thesis by simp
qed

text \<open>
  a spawn ends.  Whatever the other threads do and however many tiers join while it runs, a call takes
  at most eight steps for each tier there is at the end and ten more, and as long as it has not ended it
  can take its next step without waiting for another thread.
\<close>

theorem spawn_terminates:
  assumes "fresh_run s" "labelled_run s ls s'"
  shows "count_list ls (Some t) \<le> 8 * length (cs_tiers (rn_c s')) + 10
     \<and> (call_ended (rn_calls s' t) \<or> (\<exists>s''. cascade_step (Some t) s' s''))"
proof -
  have "rn_calls s t = None" using assms(1) by (simp add: fresh_run_def)
  then show ?thesis
    using run_uses_up [OF assms(2), of "tier_count s'" t] fresh_invariant [OF assms(1)] call_progress by fastforce
qed

theorem spawn_terminates_witness:
  "count_list [Some 5, Some 5, Some 5, Some (5 :: nat)] (Some 5) \<le> 8 * length (cs_tiers (rn_c demo_taken)) + 10
   \<and> (\<exists>s''. cascade_step (Some 5) demo_taken s'')"
proof -
  have "\<not> call_ended (rn_calls demo_taken 5)" by (simp add: demo_taken_def call_ended_def)
  with spawn_terminates [OF demo_cascade_run_fresh demo_taken_run, of 5] show ?thesis by blast
qed

end
