(* ===== verification/Snapshot_Manager.thy ===== *)
theory Snapshot_Manager
  imports Blastbox_Prelude "HOL-Library.Multiset"
begin

text \<open>
  \<^verbatim>\<open>host/runtime/fc_snapshot.py\<close>, the manager of the warm base of a snapshot tier: one published
  artifact from which slots are restored, a refresh staged beside it, superseded artifacts that
  live slots still map, and the files of every artifact, which must be removed, but never under
  a live slot.  Each locked block of the class \<^verbatim>\<open>SnapshotManager\<close> is one definition on its state;
  \<open>Snapshot_Run\<close> runs them in any order.  Artifacts are the identities of the objects.  What the
  clock reads and what the backend answers are arguments.  The acknowledgement protocol of the
  guests and the files themselves are not modelled.
\<close>

type_synonym artifact = nat

text \<open>
  The build thread: none; started, the epoch not read yet; building for an empty manager or to
  replace a base; done with its outcome (was a base published?), tearing down the booted base.
\<close>

datatype builder =
    NoBuilder
  | Starting
  | Fresh nat
  | Refresh artifact nat
  | Finishing bool

record staged =
  sg_artifact :: artifact
  sg_for :: "artifact option"
  sg_epoch :: nat
  sg_at :: real

record snapshots =
  sn_max_age :: real
  sn_backoff :: real
  sn_published_at :: "real option"
  sn_staging :: "nat option"
  sn_refresh_at :: real
  sn_repaired :: bool
  sn_reported :: "nat option"
  sn_staged :: "staged option"
  sn_sweep_due :: bool
  sn_pin_born :: "string \<Rightarrow> real option"
  sn_artifact :: "artifact option"
  sn_pins :: "string \<Rightarrow> artifact option"
  sn_pin_epoch :: "string \<Rightarrow> nat option"
  sn_refs :: "artifact \<Rightarrow> nat"
  sn_retired :: "artifact set"
  sn_epoch :: nat
  sn_builder :: builder
  sn_error :: bool
  sn_retry_at :: real
  sn_held :: "string \<Rightarrow> artifact option"

definition snap_init :: "real \<Rightarrow> real \<Rightarrow> snapshots" where
  "snap_init age backoff =
     \<lparr>sn_max_age = max 0 age, sn_backoff = backoff, sn_published_at = None, sn_staging = None, sn_refresh_at = 0,
      sn_repaired = False, sn_reported = None, sn_staged = None, sn_sweep_due = False, sn_pin_born = (\<lambda>_. None),
      sn_artifact = None, sn_pins = (\<lambda>_. None), sn_pin_epoch = (\<lambda>_. None), sn_refs = (\<lambda>_. 0), sn_retired = {},
      sn_epoch = 0, sn_builder = NoBuilder, sn_error = False, sn_retry_at = 0, sn_held = (\<lambda>_. None)\<rparr>"

section \<open>Retiring, staging, invalidating\<close>

text \<open>An artifact that a slot still maps is parked; any other is handed back to be removed.\<close>

definition retire_locked :: "artifact \<Rightarrow> snapshots \<Rightarrow> artifact list \<times> snapshots" where
  "retire_locked a s = (if 0 < sn_refs s a then ([], s\<lparr>sn_retired := insert a (sn_retired s)\<rparr>) else ([a], s))"

definition clear_staged :: "snapshots \<Rightarrow> snapshots" where
  "clear_staged s = s\<lparr>sn_staged := None\<rparr>"

definition retire_current :: "snapshots \<Rightarrow> artifact list \<times> snapshots" where
  "retire_current s = (case sn_artifact s of None \<Rightarrow> ([], s) | Some a \<Rightarrow> retire_locked a s)"

definition keep_or_drop_staged :: "snapshots \<Rightarrow> artifact list \<times> snapshots" where
  "keep_or_drop_staged s =
     (case sn_staged s of
        None \<Rightarrow> ([], s)
      | Some g \<Rightarrow>
          if sg_for g \<noteq> None \<and> sg_epoch g = sn_epoch s then ([], s\<lparr>sn_staged := Some (g\<lparr>sg_for := None\<rparr>)\<rparr>)
          else ([sg_artifact g], clear_staged s))"

definition invalidate_locked :: "snapshots \<Rightarrow> artifact list \<times> snapshots" where
  "invalidate_locked s =
     (case retire_current (s\<lparr>sn_epoch := sn_epoch s + 1\<rparr>) of
        (c1, s1) \<Rightarrow>
          (case keep_or_drop_staged s1 of
             (c2, s2) \<Rightarrow>
               (c1 @ c2, s2\<lparr>sn_artifact := None, sn_published_at := None, sn_error := False, sn_retry_at := 0\<rparr>)))"

text \<open>The result: whether there was a base, and the artifacts to remove.\<close>

definition invalidate :: "artifact option \<Rightarrow> bool \<Rightarrow> snapshots \<Rightarrow> (bool \<times> artifact list) \<times> snapshots" where
  "invalidate only_if repaired s =
     (if only_if \<noteq> None \<and> sn_artifact s \<noteq> only_if then ((False, []), s)
      else let had = (sn_artifact s \<noteq> None)
           in case invalidate_locked s of
             (c, s1) \<Rightarrow>
               ((had, c),
                if repaired then (if had then s1\<lparr>sn_repaired := True, sn_reported := Some (sn_epoch s1)\<rparr> else s1)
                else s1\<lparr>sn_repaired := False, sn_reported := Some (sn_epoch s1)\<rparr>))"

definition swap_staged :: "snapshots \<Rightarrow> (bool \<times> artifact list) \<times> snapshots" where
  "swap_staged s =
     (case sn_staged s of
        None \<Rightarrow> ((False, []), s)
      | Some g \<Rightarrow>
          if sn_artifact s = sg_for g \<and> sg_epoch g = (if sg_for g = None then sn_epoch s else sn_epoch s + 1)
          then (case (if sg_for g = None then ([], s) else retire_current s) of
                  (c, s1) \<Rightarrow>
                    ((True, c),
                     clear_staged (s1\<lparr>sn_epoch := sg_epoch g, sn_artifact := Some (sg_artifact g),
                                      sn_published_at := Some (sg_at g), sn_error := False\<rparr>)))
          else ((False, [sg_artifact g]), clear_staged s))"

text \<open>The pool's drain: whether it has to retire the slots of the base it knew.\<close>

definition take_repaired :: "snapshots \<Rightarrow> bool \<times> snapshots" where
  "take_repaired s =
     (let adopted = (case sn_staged s of None \<Rightarrow> None | Some g \<Rightarrow> if sg_for g = None then Some (sg_epoch g) else None)
      in case swap_staged (s\<lparr>sn_repaired := False\<rparr>) of
        ((swapped, c), s1) \<Rightarrow>
          (sn_repaired s \<or> (swapped \<and> \<not> (adopted \<noteq> None \<and> adopted = sn_reported s1)),
           if c = [] then s1 else s1\<lparr>sn_retired := set c \<union> sn_retired s1, sn_sweep_due := True\<rparr>))"

section \<open>Building\<close>

definition base_age :: "real \<Rightarrow> snapshots \<Rightarrow> real option" where
  "base_age now s =
     (if sn_max_age s \<le> 0 then None else case sn_published_at s of None \<Rightarrow> None | Some t \<Rightarrow> Some (now - t))"

definition age_ceiling :: "snapshots \<Rightarrow> real" where "age_ceiling s = sn_max_age s * 2"

definition start_fresh :: "real \<Rightarrow> snapshots \<Rightarrow> snapshots" where
  "start_fresh now s =
     (if sn_builder s \<noteq> NoBuilder \<or> sn_staged s \<noteq> None \<or> now < sn_retry_at s then s
      else s\<lparr>sn_builder := Starting\<rparr>)"

definition maybe_start_refresh :: "real \<Rightarrow> artifact \<Rightarrow> real option \<Rightarrow> snapshots \<Rightarrow> snapshots" where
  "maybe_start_refresh now a age s =
     (case age of
        None \<Rightarrow> s
      | Some g \<Rightarrow>
          if g < sn_max_age s \<or> sn_staged s \<noteq> None \<or> sn_builder s \<noteq> NoBuilder \<or> now < sn_refresh_at s then s
          else s\<lparr>sn_staging := Some (sn_epoch s + 1), sn_builder := Refresh a (sn_epoch s)\<rparr>)"

text \<open>The result: whether a sweep thread is started, and the artifacts to remove.\<close>

definition ensure_build_started :: "real \<Rightarrow> snapshots \<Rightarrow> (bool \<times> artifact list) \<times> snapshots" where
  "ensure_build_started now s =
     (let s0 = s\<lparr>sn_sweep_due := False\<rparr>
      in case sn_artifact s of
        None \<Rightarrow> ((sn_sweep_due s, []), start_fresh now s0)
      | Some a \<Rightarrow>
          (case base_age now s of
             None \<Rightarrow> ((sn_sweep_due s, []), s0)
           | Some g \<Rightarrow>
               if g < age_ceiling s then ((sn_sweep_due s, []), maybe_start_refresh now a (Some g) s0)
               else if sn_staged s \<noteq> None then ((sn_sweep_due s, []), s0)
               else (case invalidate_locked s0 of
                  (c, s1) \<Rightarrow>
                    ((sn_sweep_due s, c),
                     start_fresh now (s1\<lparr>sn_repaired := True, sn_reported := Some (sn_epoch s1)\<rparr>)))))"

text \<open>The thread reads the epoch it builds for.\<close>

definition sample_epoch :: "snapshots \<Rightarrow> snapshots" where
  "sample_epoch s =
     (case sn_builder s of
        Starting \<Rightarrow> s\<lparr>sn_builder := Fresh (sn_epoch s)\<rparr>
      | Refresh r e \<Rightarrow> s\<lparr>sn_staging := Some (e + 1)\<rparr>
      | _ \<Rightarrow> s)"

datatype build_outcome = Published | StagedRefresh | Adopted | Rejected

definition end_build :: "artifact \<Rightarrow> real \<Rightarrow> snapshots \<Rightarrow> build_outcome \<times> snapshots" where
  "end_build a now s =
     (case sn_builder s of
        Fresh e \<Rightarrow>
          if e \<noteq> sn_epoch s then (Rejected, s\<lparr>sn_builder := Finishing False\<rparr>)
          else (Published, s\<lparr>sn_artifact := Some a, sn_published_at := Some now, sn_builder := Finishing True\<rparr>)
      | Refresh r e \<Rightarrow>
          if e = sn_epoch s \<and> sn_artifact s = Some r
          then (StagedRefresh,
                s\<lparr>sn_staged := Some \<lparr>sg_artifact = a, sg_for = Some r, sg_epoch = e + 1, sg_at = now\<rparr>,
                  sn_staging := None, sn_builder := Finishing False\<rparr>)
          else if sn_artifact s = None \<and> sn_epoch s = e + 1
          then (Adopted,
                s\<lparr>sn_staged := Some \<lparr>sg_artifact = a, sg_for = None, sg_epoch = sn_epoch s, sg_at = now\<rparr>,
                  sn_staging := None, sn_builder := Finishing False\<rparr>)
          else (Rejected, s\<lparr>sn_staging := None, sn_builder := Finishing False\<rparr>)
      | _ \<Rightarrow> (Rejected, s))"

definition build_failed :: "real \<Rightarrow> snapshots \<Rightarrow> snapshots" where
  "build_failed now s =
     (case sn_builder s of
        Starting \<Rightarrow> s\<lparr>sn_error := True, sn_retry_at := now + sn_backoff s, sn_builder := NoBuilder\<rparr>
      | Fresh e \<Rightarrow>
          if e = sn_epoch s then s\<lparr>sn_error := True, sn_retry_at := now + sn_backoff s, sn_builder := NoBuilder\<rparr>
          else s\<lparr>sn_builder := NoBuilder\<rparr>
      | Refresh r e \<Rightarrow>
          s\<lparr>sn_staging := (if sn_staging s = Some (e + 1) then None else sn_staging s),
            sn_refresh_at := now + sn_backoff s, sn_builder := NoBuilder\<rparr>
      | _ \<Rightarrow> s)"

definition end_thread :: "snapshots \<Rightarrow> snapshots" where
  "end_thread s =
     (case sn_builder s of
        Finishing published \<Rightarrow> s\<lparr>sn_error := (if published then False else sn_error s), sn_builder := NoBuilder\<rparr>
      | _ \<Rightarrow> s)"

section \<open>Slots\<close>

definition slot_id_ok :: "string \<Rightarrow> bool" where
  "slot_id_ok sid \<longleftrightarrow> sid \<noteq> [] \<and> CHR ''/'' \<notin> set sid \<and> CHR 0x00 \<notin> set sid \<and> sid \<noteq> ''.'' \<and> sid \<noteq> ''..''"

text \<open>The pin of a restore, before the backend is asked.\<close>

definition pin :: "string \<Rightarrow> snapshots \<Rightarrow> (artifact \<times> snapshots) option" where
  "pin sid s =
     (if \<not> slot_id_ok sid then None
      else case sn_artifact s of
        None \<Rightarrow> None
      | Some a \<Rightarrow> Some (a,
          s\<lparr>sn_pins := (sn_pins s)(sid := Some a), sn_pin_epoch := (sn_pin_epoch s)(sid := Some (sn_epoch s)),
            sn_pin_born := (if sn_published_at s = None then sn_pin_born s
                            else (sn_pin_born s)(sid := sn_published_at s)),
            sn_refs := (sn_refs s)(a := sn_refs s a + 1)\<rparr>))"

text \<open>One reference less; the last one hands a parked artifact back to be removed.\<close>

definition drop_ref :: "artifact \<Rightarrow> snapshots \<Rightarrow> artifact list \<times> snapshots" where
  "drop_ref a s =
     (if sn_refs s a - 1 = 0
      then (if a \<in> sn_retired s then [a] else [],
            s\<lparr>sn_refs := (sn_refs s)(a := 0), sn_retired := sn_retired s - {a}\<rparr>)
      else ([], s\<lparr>sn_refs := (sn_refs s)(a := sn_refs s a - 1)\<rparr>))"

definition forget_pin :: "string \<Rightarrow> snapshots \<Rightarrow> snapshots" where
  "forget_pin sid s =
     s\<lparr>sn_pins := (sn_pins s)(sid := None), sn_pin_epoch := (sn_pin_epoch s)(sid := None),
       sn_pin_born := (sn_pin_born s)(sid := None)\<rparr>"

definition release_slot :: "string \<Rightarrow> snapshots \<Rightarrow> artifact list \<times> snapshots" where
  "release_slot sid s =
     (case sn_pins s sid of None \<Rightarrow> ([], forget_pin sid s) | Some a \<Rightarrow> drop_ref a (forget_pin sid s))"

definition unpin :: "string \<Rightarrow> artifact \<Rightarrow> snapshots \<Rightarrow> artifact list \<times> snapshots" where
  "unpin sid a s = drop_ref a (if sn_pins s sid = Some a then forget_pin sid s else s)"

definition hold_restore :: "string \<Rightarrow> artifact \<Rightarrow> snapshots \<Rightarrow> snapshots" where
  "hold_restore sid a s = s\<lparr>sn_held := (sn_held s)(sid := Some a)\<rparr>"

definition release_held :: "string \<Rightarrow> snapshots \<Rightarrow> artifact list \<times> snapshots" where
  "release_held sid s =
     (case sn_held s sid of None \<Rightarrow> ([], s) | Some a \<Rightarrow> unpin sid a (s\<lparr>sn_held := (sn_held s)(sid := None)\<rparr>))"

definition slot_should_retire :: "real \<Rightarrow> string \<Rightarrow> snapshots \<Rightarrow> bool" where
  "slot_should_retire now sid s \<longleftrightarrow>
     0 < sn_max_age s \<and> (case sn_pin_born s sid of None \<Rightarrow> False | Some b \<Rightarrow> age_ceiling s \<le> now - b)"

text \<open>\<open>acquire_built\<close>: never builds on the caller's thread.\<close>

definition acquire_built :: "real \<Rightarrow> snapshots \<Rightarrow> artifact option \<times> (bool \<times> artifact list) \<times> snapshots" where
  "acquire_built now s =
     (case sn_artifact s of
        Some a \<Rightarrow> (Some a, (False, []), s)
      | None \<Rightarrow> (case ensure_build_started now s of (c, s1) \<Rightarrow> (None, c, s1)))"

end
