(* ===== verification/Snapshot_Run.thy ===== *)
theory Snapshot_Run
  imports Snapshot_Manager
begin

text \<open>
  The manager of snapshots over every order of its locked blocks: ticks, the build thread, restores
  with their outcomes, releases, invalidations by the pool and for a stale base, the drain, and
  removals of files, which run outside the lock and may fail.  What it relies on of the pool: a slot
  id is restored once at a time, and only slots whose restore answered are released; the two locked
  blocks that let a held restore go are one step.
\<close>

section \<open>Steps\<close>

text \<open>
  Beside the manager: the restores whose backend has not answered; the removals under way (a sweep's
  artifact stays parked until it succeeded, any other is parked again when it fails); and, for the
  statements only, every artifact made, every artifact removed, and the last epoch the pool was
  told about.
\<close>

record snap_world =
  w_s :: snapshots
  w_restoring :: "string \<Rightarrow> artifact option"
  w_doomed :: "(bool \<times> artifact) multiset"
  w_made :: "artifact set"
  w_gone :: "artifact set"
  w_told :: nat

definition doom :: "artifact list \<Rightarrow> snapshots \<Rightarrow> snap_world \<Rightarrow> snap_world" where
  "doom c s w = w\<lparr>w_s := s, w_doomed := w_doomed w + mset (map (Pair False) c)\<rparr>"

inductive snap_step :: "snap_world \<Rightarrow> snap_world \<Rightarrow> bool" where
  tick: "ensure_build_started now (w_s w) = ((sweep, c), s) \<Longrightarrow> snap_step w (doom c s w)"
| sampled: "snap_step w (w\<lparr>w_s := sample_epoch (w_s w)\<rparr>)"
| failed: "snap_step w (w\<lparr>w_s := build_failed now (w_s w)\<rparr>)"
| built: "sn_builder (w_s w) = Fresh e \<or> sn_builder (w_s w) = Refresh r e \<Longrightarrow> a \<notin> w_made w
    \<Longrightarrow> end_build a now (w_s w) = (out, s)
    \<Longrightarrow> snap_step w (doom (if out = Rejected then [a] else []) s (w\<lparr>w_made := insert a (w_made w)\<rparr>))"
| finished: "snap_step w (w\<lparr>w_s := end_thread (w_s w)\<rparr>)"
| invalidated: "invalidate None False (w_s w) = ((had, c), s) \<Longrightarrow> snap_step w (doom c s (w\<lparr>w_told := sn_epoch s\<rparr>))"
| stale: "invalidate (Some a) True (w_s w) = ((had, c), s) \<Longrightarrow> snap_step w (doom c s w)"
| drained: "take_repaired (w_s w) = (told, s)
    \<Longrightarrow> snap_step w (w\<lparr>w_s := s, w_told := (if told then sn_epoch s else w_told w)\<rparr>)"
| restore: "sn_pins (w_s w) sid = None \<Longrightarrow> pin sid (w_s w) = Some (a, s)
    \<Longrightarrow> snap_step w (w\<lparr>w_s := s, w_restoring := (w_restoring w)(sid := Some a)\<rparr>)"
| restored: "w_restoring w sid = Some a \<Longrightarrow> snap_step w (w\<lparr>w_restoring := (w_restoring w)(sid := None)\<rparr>)"
| restore_failed: "w_restoring w sid = Some a \<Longrightarrow> unpin sid a (w_s w) = (c, s)
    \<Longrightarrow> snap_step w (doom c s (w\<lparr>w_restoring := (w_restoring w)(sid := None)\<rparr>))"
| restore_held: "w_restoring w sid = Some a
    \<Longrightarrow> snap_step w (w\<lparr>w_s := hold_restore sid a (w_s w), w_restoring := (w_restoring w)(sid := None)\<rparr>)"
| reclaimed: "release_held sid (w_s w) = (c, s) \<Longrightarrow> snap_step w (doom c s w)"
| released: "w_restoring w sid = None \<Longrightarrow> sn_held (w_s w) sid = None \<Longrightarrow> release_slot sid (w_s w) = (c, s)
    \<Longrightarrow> snap_step w (doom c s w)"
| sweep: "a \<in> sn_retired (w_s w) \<Longrightarrow> sn_refs (w_s w) a = 0
    \<Longrightarrow> snap_step w (w\<lparr>w_doomed := add_mset (True, a) (w_doomed w)\<rparr>)"
| removed: "(k, a) \<in># w_doomed w
    \<Longrightarrow> snap_step w (w\<lparr>w_doomed := w_doomed w - {#(k, a)#}, w_gone := insert a (w_gone w),
                      w_s := (if k then (w_s w)\<lparr>sn_retired := sn_retired (w_s w) - {a}\<rparr> else w_s w)\<rparr>)"
| kept: "(k, a) \<in># w_doomed w
    \<Longrightarrow> snap_step w (w\<lparr>w_doomed := w_doomed w - {#(k, a)#},
                      w_s := (if k then w_s w else (w_s w)\<lparr>sn_retired := insert a (sn_retired (w_s w))\<rparr>)\<rparr>)"

definition snap_start :: "real \<Rightarrow> real \<Rightarrow> snap_world" where
  "snap_start age backoff =
     \<lparr>w_s = snap_init age backoff, w_restoring = (\<lambda>_. None), w_doomed = {#}, w_made = {}, w_gone = {}, w_told = 0\<rparr>"

section \<open>What the blocks do\<close>

text \<open>Current and staged artifact.\<close>

definition current :: "snapshots \<Rightarrow> artifact set" where
  "current s = set_option (sn_artifact s)"

definition waiting :: "snapshots \<Rightarrow> artifact set" where
  "waiting s = sg_artifact ` set_option (sn_staged s)"

definition mapped :: "snapshots \<Rightarrow> artifact \<Rightarrow> bool" where
  "mapped s a \<longleftrightarrow> (\<exists>sid. sn_pins s sid = Some a)"

text \<open>The counting of references.\<close>

definition counted :: "snapshots \<Rightarrow> bool" where
  "counted s \<longleftrightarrow> finite (dom (sn_pins s)) \<and> (\<forall>a. sn_refs s a = card {sid. sn_pins s sid = Some a})"

lemma finite_pinned: "counted s \<Longrightarrow> finite {sid. sn_pins s sid = Some a}"
  unfolding counted_def by (elim conjE, rule finite_subset [of _ "dom (sn_pins s)"]) auto

lemma refs_mapped: "counted s \<Longrightarrow> 0 < sn_refs s a \<longleftrightarrow> mapped s a"
proof -
  assume c: "counted s"
  have "0 < sn_refs s a \<longleftrightarrow> {sid. sn_pins s sid = Some a} \<noteq> {}"
    using c finite_pinned [OF c, of a] unfolding counted_def by (metis card_gt_0_iff)
  then show ?thesis by (auto simp: mapped_def)
qed

lemma counted_cong: "sn_pins s' = sn_pins s \<Longrightarrow> sn_refs s' = sn_refs s \<Longrightarrow> counted s' = counted s"
  by (simp add: counted_def)

lemma counted_pin:
  assumes "counted s" "sn_pins s sid = None" "pin sid s = Some (a, s')"
  shows "counted s'"
proof -
  have p: "sn_pins s' = (sn_pins s)(sid := Some a)" "sn_refs s' = (sn_refs s)(a := sn_refs s a + 1)"
    using assms(3) by (auto simp: pin_def split: if_splits option.splits)
  have new: "{x. sn_pins s' x = Some b} = (if b = a then insert sid {x. sn_pins s x = Some a} else {x. sn_pins s x = Some b})" for b
    using assms(2) by (auto simp: p)
  have "sid \<notin> {x. sn_pins s x = Some a}" using assms(2) by simp
  then have "card (insert sid {x. sn_pins s x = Some a}) = Suc (card {x. sn_pins s x = Some a})"
    using finite_pinned [OF assms(1)] by simp
  then show ?thesis using assms(1) unfolding counted_def new by (simp add: p)
qed

lemma counted_drop:
  assumes "counted s" "sn_pins s sid = Some a" "drop_ref a (forget_pin sid s) = (c, s')"
  shows "counted s'" "sn_refs s' a = 0 \<longleftrightarrow> \<not> mapped s' a"
proof -
  have p: "sn_pins s' = (sn_pins s)(sid := None)" "sn_refs s' = (sn_refs s)(a := sn_refs s a - 1)"
    using assms(3) by (auto simp: drop_ref_def forget_pin_def split: if_splits)
  have new: "{x. sn_pins s' x = Some b} = (if b = a then {x. sn_pins s x = Some a} - {sid} else {x. sn_pins s x = Some b})" for b
    using assms(2) by (auto simp: p)
  have "sid \<in> {x. sn_pins s x = Some a}" using assms(2) by simp
  then have "card ({x. sn_pins s x = Some a} - {sid}) = card {x. sn_pins s x = Some a} - 1"
    by (rule card_Diff_singleton)
  then show c: "counted s'" using assms(1) unfolding counted_def new by (simp add: p)
  show "sn_refs s' a = 0 \<longleftrightarrow> \<not> mapped s' a" using refs_mapped [OF c, of a] by auto
qed


section \<open>The invariants\<close>

text \<open>The staged artifact and the build thread.\<close>

definition stage_ok :: "snapshots \<Rightarrow> bool" where
  "stage_ok s \<longleftrightarrow>
     (case sn_staged s of
        None \<Rightarrow> True
      | Some g \<Rightarrow> (case sg_for g of
          None \<Rightarrow> sg_epoch g = sn_epoch s \<and> sn_artifact s = None \<and> sn_reported s = Some (sn_epoch s)
        | Some r \<Rightarrow> sn_artifact s = Some r \<and> sg_epoch g = sn_epoch s + 1))
   \<and> (case sn_builder s of
        Starting \<Rightarrow> sn_staged s = None \<and> sn_artifact s = None
      | Fresh e \<Rightarrow> sn_staged s = None \<and> sn_artifact s = None \<and> e \<le> sn_epoch s
      | Refresh r e \<Rightarrow> sn_staged s = None \<and> e \<le> sn_epoch s \<and> (e = sn_epoch s \<longrightarrow> sn_artifact s = Some r)
          \<and> (e < sn_epoch s \<longrightarrow> sn_artifact s = None \<and> sn_reported s = Some (sn_epoch s))
      | _ \<Rightarrow> True)"

text \<open>Every artifact is where it belongs: \<open>L\<close> are those being removed or gone, \<open>M\<close> all that were made.\<close>

definition placed_ok :: "snapshots \<Rightarrow> artifact set \<Rightarrow> artifact set \<Rightarrow> bool" where
  "placed_ok s L M \<longleftrightarrow>
     current s \<union> waiting s \<union> sn_retired s \<union> {a. mapped s a} \<union> L \<subseteq> M
   \<and> M \<subseteq> current s \<union> waiting s \<union> sn_retired s \<union> L
   \<and> L \<inter> (current s \<union> waiting s \<union> {a. mapped s a}) = {}
   \<and> sn_retired s \<inter> (current s \<union> waiting s) = {} \<and> current s \<inter> waiting s = {} \<and> waiting s \<inter> {a. mapped s a} = {}"

text \<open>The epochs of the pins.\<close>

definition epochs_ok :: "snapshots \<Rightarrow> bool" where
  "epochs_ok s \<longleftrightarrow>
     (\<forall>sid. (sn_pin_epoch s sid = None) = (sn_pins s sid = None))
   \<and> (\<forall>sid e. sn_pin_epoch s sid = Some e \<longrightarrow> e \<le> sn_epoch s \<and> (e = sn_epoch s \<longrightarrow> sn_pins s sid = sn_artifact s))
   \<and> (\<forall>sid sid' e. sn_pin_epoch s sid = Some e \<longrightarrow> sn_pin_epoch s sid' = Some e \<longrightarrow> sn_pins s sid = sn_pins s sid')"

text \<open>What the pool knows.\<close>

definition told_ok :: "nat \<Rightarrow> snapshots \<Rightarrow> bool" where
  "told_ok n s \<longleftrightarrow> (if sn_repaired s then n < sn_epoch s else n = sn_epoch s)"

lemmas place_defs = placed_ok_def current_def waiting_def mapped_def

subsection \<open>Invalidation\<close>

lemma invalidate_locked_frame:
  assumes "invalidate_locked s = (c, s')"
  shows "sn_pins s' = sn_pins s" "sn_refs s' = sn_refs s" "sn_pin_epoch s' = sn_pin_epoch s" "sn_epoch s' = sn_epoch s + 1"
    "sn_builder s' = sn_builder s" "sn_artifact s' = None" "sn_held s' = sn_held s" "sn_retired s \<subseteq> sn_retired s'"
    "sn_reported s' = sn_reported s" "sn_repaired s' = sn_repaired s"
  using assms
  by (auto simp: invalidate_locked_def retire_current_def retire_locked_def keep_or_drop_staged_def clear_staged_def
      split: prod.splits option.splits if_splits)

lemma invalidate_locked_places:
  assumes "invalidate_locked s = (c, s')" "counted s" "placed_ok s L M"
  shows "placed_ok s' (L \<union> set c) M"
proof -
  have m: "mapped s' = mapped s" using invalidate_locked_frame(1) [OF assms(1)] by (simp add: mapped_def fun_eq_iff)
  have r: "0 < sn_refs s a \<longleftrightarrow> mapped s a" for a by (rule refs_mapped [OF assms(2)])
  show ?thesis
    using assms(1,3) r unfolding placed_ok_def m unfolding current_def waiting_def
    by (auto simp: invalidate_locked_def retire_current_def retire_locked_def keep_or_drop_staged_def clear_staged_def
        split: prod.splits option.splits if_splits)
qed

lemma invalidate_locked_stage:
  assumes "invalidate_locked s = (c, s')" "stage_ok s"
  shows "stage_ok (s'\<lparr>sn_reported := Some (sn_epoch s')\<rparr>)"
proof -
  note f = invalidate_locked_frame [OF assms(1)]
  have st: "sn_staged s' = None \<or> (\<exists>g. sn_staged s' = Some g \<and> sg_for g = None \<and> sg_epoch g = sn_epoch s')"
    using assms(1)
    by (auto simp: invalidate_locked_def retire_current_def retire_locked_def keep_or_drop_staged_def clear_staged_def
        split: prod.splits option.splits if_splits)
  have none: "sn_staged s = None \<Longrightarrow> sn_staged s' = None"
    using assms(1)
    by (auto simp: invalidate_locked_def retire_current_def retire_locked_def keep_or_drop_staged_def clear_staged_def
        split: prod.splits option.splits if_splits)
  show ?thesis
    using assms(2) st none unfolding stage_ok_def
    by (auto simp: f split: option.splits builder.splits)
qed

lemma epochs_okD:
  assumes "epochs_ok s"
  shows "(sn_pin_epoch s sid = None) = (sn_pins s sid = None)"
    and "sn_pin_epoch s sid = Some e \<Longrightarrow> e \<le> sn_epoch s"
    and "sn_pin_epoch s sid = Some (sn_epoch s) \<Longrightarrow> sn_pins s sid = sn_artifact s"
    and "sn_pin_epoch s sid = Some e \<Longrightarrow> sn_pin_epoch s sid' = Some e \<Longrightarrow> sn_pins s sid = sn_pins s sid'"
  using assms unfolding epochs_ok_def by blast+

lemma epochs_okI:
  assumes "\<And>sid. (sn_pin_epoch s sid = None) = (sn_pins s sid = None)"
    and "\<And>sid e. sn_pin_epoch s sid = Some e \<Longrightarrow> e \<le> sn_epoch s"
    and "\<And>sid. sn_pin_epoch s sid = Some (sn_epoch s) \<Longrightarrow> sn_pins s sid = sn_artifact s"
    and "\<And>sid sid' e. sn_pin_epoch s sid = Some e \<Longrightarrow> sn_pin_epoch s sid' = Some e \<Longrightarrow> sn_pins s sid = sn_pins s sid'"
  shows "epochs_ok s"
  using assms unfolding epochs_ok_def by blast

lemma epochs_unpublished: "epochs_ok s \<Longrightarrow> sn_artifact s = None \<Longrightarrow> sn_pin_epoch s sid \<noteq> Some (sn_epoch s)"
  using epochs_okD(1,3) by (metis option.distinct(1))

lemma epochs_publish:
  assumes "epochs_ok s" "sn_artifact s = None" "sn_pins s' = sn_pins s" "sn_pin_epoch s' = sn_pin_epoch s" "sn_epoch s' = sn_epoch s"
  shows "epochs_ok s'"
proof (rule epochs_okI)
  fix x y e
  show "(sn_pin_epoch s' x = None) = (sn_pins s' x = None)" unfolding assms(3-5) by (rule epochs_okD(1) [OF assms(1)])
  show "sn_pin_epoch s' x = Some e \<Longrightarrow> e \<le> sn_epoch s'" unfolding assms(3-5) by (rule epochs_okD(2) [OF assms(1)])
  show "sn_pin_epoch s' x = Some (sn_epoch s') \<Longrightarrow> sn_pins s' x = sn_artifact s'"
    unfolding assms(3-5) using epochs_unpublished [OF assms(1,2)] by blast
  show "sn_pin_epoch s' x = Some e \<Longrightarrow> sn_pin_epoch s' y = Some e \<Longrightarrow> sn_pins s' x = sn_pins s' y"
    unfolding assms(3-5) by (rule epochs_okD(4) [OF assms(1)])
qed

lemma epochs_advance:
  assumes "epochs_ok s" "sn_pins s' = sn_pins s" "sn_pin_epoch s' = sn_pin_epoch s" "sn_epoch s < sn_epoch s'"
  shows "epochs_ok s'"
proof -
  have old: "e < sn_epoch s'" if "sn_pin_epoch s sid = Some e" for sid e
    using assms(1,4) that unfolding epochs_ok_def by (metis le_less_trans)
  show ?thesis
    unfolding epochs_ok_def assms(2,3)
    using assms(1) old unfolding epochs_ok_def by (metis less_irrefl less_imp_le)
qed

lemma epochs_cong:
  "sn_pins s' = sn_pins s \<Longrightarrow> sn_pin_epoch s' = sn_pin_epoch s \<Longrightarrow> sn_epoch s' = sn_epoch s
   \<Longrightarrow> sn_artifact s' = sn_artifact s \<Longrightarrow> epochs_ok s' = epochs_ok s"
  by (simp add: epochs_ok_def)

lemma places_cong:
  "sn_pins s' = sn_pins s \<Longrightarrow> sn_artifact s' = sn_artifact s \<Longrightarrow> sn_staged s' = sn_staged s \<Longrightarrow> sn_retired s' = sn_retired s
   \<Longrightarrow> placed_ok s' L M = placed_ok s L M"
  by (simp add: place_defs)

lemma stage_cong:
  assumes "sn_staged s' = sn_staged s" "sn_artifact s' = sn_artifact s" "sn_epoch s' = sn_epoch s"
    "sn_reported s' = sn_reported s" "sn_builder s' = sn_builder s"
  shows "stage_ok s' = stage_ok s"
  unfolding stage_ok_def assms ..

text \<open>The state invariant of the manager, for the artifacts \<open>L\<close> and \<open>M\<close>.\<close>

definition snap_ok :: "snapshots \<Rightarrow> artifact set \<Rightarrow> artifact set \<Rightarrow> bool" where
  "snap_ok s L M \<longleftrightarrow> counted s \<and> stage_ok s \<and> epochs_ok s \<and> placed_ok s L M"

lemma snap_okD:
  assumes "snap_ok s L M" shows "counted s" "stage_ok s" "epochs_ok s" "placed_ok s L M"
  using assms unfolding snap_ok_def by blast+

lemma snap_ok_invalidate_locked:
  assumes "invalidate_locked s = (c, s')" "snap_ok s L M"
  shows "snap_ok (s'\<lparr>sn_reported := Some (sn_epoch s')\<rparr>) (L \<union> set c) M"
proof -
  note f = invalidate_locked_frame [OF assms(1)]
  let ?s = "s'\<lparr>sn_reported := Some (sn_epoch s')\<rparr>"
  have "counted ?s" using snap_okD(1) [OF assms(2)] counted_cong [of ?s s] f by simp
  moreover have "epochs_ok ?s" by (rule epochs_advance [OF snap_okD(3) [OF assms(2)]]) (use f in simp_all)
  moreover have "placed_ok ?s (L \<union> set c) M"
    using invalidate_locked_places [OF assms(1) snap_okD(1,4) [OF assms(2)]] places_cong [of ?s s'] by simp
  ultimately show ?thesis
    using invalidate_locked_stage [OF assms(1) snap_okD(2) [OF assms(2)]] by (simp add: snap_ok_def)
qed

lemma snap_ok_cong:
  assumes "sn_pins s' = sn_pins s" "sn_artifact s' = sn_artifact s" "sn_staged s' = sn_staged s"
    "sn_retired s' = sn_retired s" "sn_pin_epoch s' = sn_pin_epoch s" "sn_epoch s' = sn_epoch s"
    "sn_reported s' = sn_reported s" "sn_builder s' = sn_builder s" "sn_refs s' = sn_refs s"
  shows "snap_ok s' L M = snap_ok s L M"
  unfolding snap_ok_def counted_cong [OF assms(1,9)] stage_cong [OF assms(3,2,6,7,8)]
    epochs_cong [OF assms(1,5,6,2)] places_cong [OF assms(1,2,3,4)] ..

lemma snap_ok_invalidate:
  assumes "invalidate only repaired s = ((had, c), s')" "snap_ok s L M" "repaired \<longrightarrow> only \<noteq> None"
  shows "snap_ok s' (L \<union> set c) M"
proof (cases "only \<noteq> None \<and> sn_artifact s \<noteq> only")
  case True
  then show ?thesis using assms by (auto simp: invalidate_def)
next
  case False
  obtain s1 where s1: "invalidate_locked s = (c, s1)" and
    s': "s' = (if repaired then (if sn_artifact s \<noteq> None then s1\<lparr>sn_repaired := True, sn_reported := Some (sn_epoch s1)\<rparr> else s1)
               else s1\<lparr>sn_repaired := False, sn_reported := Some (sn_epoch s1)\<rparr>)"
    using assms(1) False by (auto simp: invalidate_def Let_def split: prod.splits)
  note ok = snap_ok_invalidate_locked [OF s1 assms(2)]
  have "sn_artifact s \<noteq> None" if "repaired" using False assms(3) that by auto
  then have "snap_ok s' (L \<union> set c) M = snap_ok (s1\<lparr>sn_reported := Some (sn_epoch s1)\<rparr>) (L \<union> set c) M"
    unfolding s' by (intro snap_ok_cong) auto
  with ok show ?thesis by simp
qed

subsection \<open>Building\<close>

text \<open>A block that only moves the build thread.\<close>

lemma snap_ok_builder:
  assumes "snap_ok s L M" "stage_ok s'"
    "sn_pins s' = sn_pins s" "sn_artifact s' = sn_artifact s" "sn_staged s' = sn_staged s"
    "sn_retired s' = sn_retired s" "sn_pin_epoch s' = sn_pin_epoch s" "sn_epoch s' = sn_epoch s" "sn_refs s' = sn_refs s"
  shows "snap_ok s' L M"
  using snap_okD [OF assms(1)] assms(2)
  unfolding snap_ok_def counted_cong [OF assms(3,9)] epochs_cong [OF assms(3,7,8,4)] places_cong [OF assms(3,4,5,6)]
  by blast

lemma stage_start_fresh: "stage_ok s \<Longrightarrow> sn_artifact s = None \<Longrightarrow> stage_ok (start_fresh now s)"
  by (simp add: start_fresh_def stage_ok_def split: option.split)

lemma stage_start_refresh: "stage_ok s \<Longrightarrow> sn_artifact s = Some a \<Longrightarrow> stage_ok (maybe_start_refresh now a age s)"
  by (cases age) (simp_all add: maybe_start_refresh_def stage_ok_def split: option.split)

lemma snap_ok_start_fresh:
  assumes "snap_ok s L M" "sn_artifact s = None"
  shows "snap_ok (start_fresh now s) L M"
  by (rule snap_ok_builder [OF assms(1) stage_start_fresh [OF snap_okD(2) [OF assms(1)] assms(2)]])
    (simp_all add: start_fresh_def)

lemma snap_ok_start_refresh:
  assumes "snap_ok s L M" "sn_artifact s = Some a"
  shows "snap_ok (maybe_start_refresh now a age s) L M"
  by (rule snap_ok_builder [OF assms(1) stage_start_refresh [OF snap_okD(2) [OF assms(1)] assms(2)]])
    (simp_all add: maybe_start_refresh_def split: option.split)

lemma snap_ok_ensure:
  assumes "ensure_build_started now s = ((sw, c), s')" "snap_ok s L M"
  shows "snap_ok s' (L \<union> set c) M"
proof -
  let ?s0 = "s\<lparr>sn_sweep_due := False\<rparr>"
  have s0: "snap_ok ?s0 L M" using assms(2) snap_ok_cong [of ?s0 s] by simp
  show ?thesis
  proof (cases "sn_artifact s")
    case None
    then have "c = [] \<and> s' = start_fresh now ?s0" using assms(1) by (auto simp: ensure_build_started_def Let_def)
    then show ?thesis using snap_ok_start_fresh [OF s0] None by simp
  next
    case (Some a)
    show ?thesis
    proof (cases "base_age now s")
      case None
      then show ?thesis using assms(1) Some s0 by (auto simp: ensure_build_started_def Let_def)
    next
      case age: (Some g)
      consider "g < age_ceiling s" | "\<not> g < age_ceiling s" "sn_staged s \<noteq> None" | "\<not> g < age_ceiling s" "sn_staged s = None" by blast
      then show ?thesis
      proof cases
        case 1
        then have "c = [] \<and> s' = maybe_start_refresh now a (Some g) ?s0"
          using assms(1) Some age by (auto simp: ensure_build_started_def Let_def)
        then show ?thesis using snap_ok_start_refresh [OF s0] Some by simp
      next
        case 2
        then show ?thesis using assms(1) Some age s0 by (auto simp: ensure_build_started_def Let_def)
      next
        case 3
        obtain s1 where s1: "invalidate_locked ?s0 = (c, s1)"
          "s' = start_fresh now (s1\<lparr>sn_repaired := True, sn_reported := Some (sn_epoch s1)\<rparr>)"
          using assms(1) Some age 3 by (auto simp: ensure_build_started_def Let_def split: prod.splits)
        let ?s1 = "s1\<lparr>sn_repaired := True, sn_reported := Some (sn_epoch s1)\<rparr>"
        have "snap_ok ?s1 (L \<union> set c) M"
          using snap_ok_invalidate_locked [OF s1(1) s0] snap_ok_cong [of ?s1 "s1\<lparr>sn_reported := Some (sn_epoch s1)\<rparr>"] by simp
        then show ?thesis
          unfolding s1(2) by (rule snap_ok_start_fresh) (use invalidate_locked_frame(6) [OF s1(1)] in simp)
      qed
    qed
  qed
qed

lemma stage_sample: "stage_ok s \<Longrightarrow> stage_ok (sample_epoch s)"
  by (cases "sn_builder s") (simp_all add: sample_epoch_def stage_ok_def split: option.split)

lemma stage_failed: "stage_ok s \<Longrightarrow> stage_ok (build_failed now s)"
  by (cases "sn_builder s") (simp_all add: build_failed_def stage_ok_def split: option.split)

lemma stage_end_thread: "stage_ok s \<Longrightarrow> stage_ok (end_thread s)"
  by (cases "sn_builder s"; cases "sn_staged s") (auto simp: end_thread_def stage_ok_def split: option.splits)

lemma snap_ok_thread:
  assumes "snap_ok s L M"
  shows "snap_ok (sample_epoch s) L M" "snap_ok (build_failed now s) L M" "snap_ok (end_thread s) L M"
proof -
  note st = snap_okD(2) [OF assms]
  show "snap_ok (sample_epoch s) L M"
    by (rule snap_ok_builder [OF assms stage_sample [OF st]]) (simp_all add: sample_epoch_def split: builder.split)
  show "snap_ok (build_failed now s) L M"
    by (rule snap_ok_builder [OF assms stage_failed [OF st]]) (simp_all add: build_failed_def split: builder.split)
  show "snap_ok (end_thread s) L M"
    by (rule snap_ok_builder [OF assms stage_end_thread [OF st]]) (simp_all add: end_thread_def split: builder.split)
qed


lemma snap_ok_end_build:
  assumes "snap_ok s L M" "a \<notin> M" "sn_builder s = Fresh e \<or> sn_builder s = Refresh r e" "end_build a now s = (out, s')"
  shows "snap_ok s' (if out = Rejected then insert a L else L) (insert a M)"
proof -
  note c = snap_okD [OF assms(1)]
  have same: "sn_pins s' = sn_pins s" "sn_refs s' = sn_refs s" "sn_pin_epoch s' = sn_pin_epoch s" "sn_epoch s' = sn_epoch s"
    "sn_retired s' = sn_retired s"
    using assms(3,4) by (auto simp: end_build_def split: if_splits)
  have cases: "(out = Rejected \<and> sn_artifact s' = sn_artifact s \<and> sn_staged s' = sn_staged s)
     \<or> (out = Published \<and> sn_artifact s = None \<and> sn_staged s = None \<and> sn_artifact s' = Some a \<and> sn_staged s' = None)
     \<or> (out \<noteq> Rejected \<and> sn_artifact s' = sn_artifact s \<and> sn_staged s = None \<and> (\<exists>g. sn_staged s' = Some g \<and> sg_artifact g = a))"
    using assms(3,4) c(2) by (auto simp: end_build_def stage_ok_def split: if_splits)
  have mapped: "mapped s' = mapped s" by (simp add: mapped_def fun_eq_iff same)
  have new: "\<not> mapped s a" "a \<notin> current s" "a \<notin> waiting s" "a \<notin> sn_retired s" "a \<notin> L"
    using c(4) assms(2) unfolding placed_ok_def by blast+
  have places: "placed_ok s' (if out = Rejected then insert a L else L) (insert a M)"
    using cases
  proof (elim disjE)
    assume h: "out = Rejected \<and> sn_artifact s' = sn_artifact s \<and> sn_staged s' = sn_staged s"
    then have "current s' = current s" "waiting s' = waiting s" by (simp_all add: current_def waiting_def)
    then show ?thesis using c(4) new h unfolding placed_ok_def mapped same by auto
  next
    assume h: "out = Published \<and> sn_artifact s = None \<and> sn_staged s = None \<and> sn_artifact s' = Some a \<and> sn_staged s' = None"
    then have "current s' = {a}" "waiting s' = {}" "current s = {}" "waiting s = {}" by (simp_all add: current_def waiting_def)
    then show ?thesis using c(4) new h unfolding placed_ok_def mapped same by auto
  next
    assume h: "out \<noteq> Rejected \<and> sn_artifact s' = sn_artifact s \<and> sn_staged s = None \<and> (\<exists>g. sn_staged s' = Some g \<and> sg_artifact g = a)"
    then have "current s' = current s" "waiting s' = {a}" "waiting s = {}" by (auto simp: current_def waiting_def)
    then show ?thesis using c(4) new h unfolding placed_ok_def mapped same by auto
  qed
  have stage: "stage_ok s'"
    using assms(3,4) c(2) by (auto simp: end_build_def stage_ok_def split: if_splits option.splits)
  have epochs: "epochs_ok s'"
  proof (cases "sn_artifact s' = sn_artifact s")
    case True
    then show ?thesis using c(3) epochs_cong [of s' s] same by simp
  next
    case False
    then have "sn_artifact s = None" using cases by auto
    then show ?thesis by (rule epochs_publish [OF c(3)]) (simp_all add: same)
  qed
  have "counted s'" using c(1) counted_cong [of s' s] same by simp
  with stage epochs places show ?thesis by (simp add: snap_ok_def)
qed

subsection \<open>Draining\<close>

lemma swap_unstaged: "sn_staged s = None \<Longrightarrow> swap_staged s = ((False, []), s)"
  by (simp add: swap_staged_def)

lemma swap_adopted:
  assumes "stage_ok s" "sn_staged s = Some g" "sg_for g = None"
  shows "swap_staged s = ((True, []),
     clear_staged (s\<lparr>sn_epoch := sg_epoch g, sn_artifact := Some (sg_artifact g), sn_published_at := Some (sg_at g), sn_error := False\<rparr>))"
  using assms by (simp add: swap_staged_def stage_ok_def)

lemma swap_refreshed:
  assumes "stage_ok s" "sn_staged s = Some g" "sg_for g = Some r" "retire_locked r s = (c, s1)"
  shows "swap_staged s = ((True, c),
     clear_staged (s1\<lparr>sn_epoch := sg_epoch g, sn_artifact := Some (sg_artifact g), sn_published_at := Some (sg_at g), sn_error := False\<rparr>))"
  using assms by (simp add: swap_staged_def stage_ok_def retire_current_def)

lemma snap_ok_drain:
  assumes "snap_ok s L M" "take_repaired s = (told, s')" "told_ok n s"
  shows "snap_ok s' L M \<and> told_ok (if told then sn_epoch s' else n) s' \<and> (told \<longrightarrow> n < sn_epoch s')
     \<and> sn_retired s \<subseteq> sn_retired s' \<and> sn_held s' = sn_held s \<and> sn_pins s' = sn_pins s"
proof -
  note c = snap_okD [OF assms(1)]
  let ?s0 = "s\<lparr>sn_repaired := False\<rparr>"
  have st0: "stage_ok ?s0" using c(2) stage_cong [of ?s0 s] by simp
  show ?thesis
  proof (cases "sn_staged s")
    case None
    then have "told = sn_repaired s \<and> s' = ?s0"
      using assms(2) swap_unstaged [of ?s0] by (auto simp: take_repaired_def Let_def)
    then show ?thesis using assms(1,3) snap_ok_cong [of ?s0 s] by (auto simp: told_ok_def)
  next
    case g: (Some g)
    show ?thesis
    proof (cases "sg_for g")
      case None
      let ?s1 = "clear_staged (?s0\<lparr>sn_epoch := sg_epoch g, sn_artifact := Some (sg_artifact g), sn_published_at := Some (sg_at g), sn_error := False\<rparr>)"
      have e: "sg_epoch g = sn_epoch s" "sn_artifact s = None" "sn_reported s = Some (sn_epoch s)"
        using c(2) g None by (auto simp: stage_ok_def)
      have sw: "swap_staged ?s0 = ((True, []), ?s1)" by (rule swap_adopted [OF st0]) (use g None in simp_all)
      then have t: "told = sn_repaired s" "s' = ?s1"
        using assms(2) g None e by (auto simp: take_repaired_def Let_def clear_staged_def)
      have m: "mapped ?s1 = mapped s" by (simp add: mapped_def fun_eq_iff clear_staged_def)
      have "placed_ok ?s1 L M"
        using c(4) g e unfolding placed_ok_def m unfolding current_def waiting_def by (auto simp: clear_staged_def)
      moreover have "epochs_ok ?s1"
        by (rule epochs_publish [OF c(3) e(2)]) (simp_all add: clear_staged_def e(1))
      moreover have "counted ?s1" using c(1) counted_cong [of ?s1 s] by (simp add: clear_staged_def)
      moreover have "stage_ok ?s1"
        using c(2) g e by (cases "sn_builder s") (auto simp: stage_ok_def clear_staged_def)
      ultimately show ?thesis using t e assms(3) by (auto simp: snap_ok_def told_ok_def clear_staged_def)
    next
      case (Some r)
      have e: "sg_epoch g = sn_epoch s + 1" "sn_artifact s = Some r" using c(2) g Some by (auto simp: stage_ok_def)
      obtain l s2 where l: "retire_locked r ?s0 = (l, s2)" by (cases "retire_locked r ?s0")
      let ?s1 = "clear_staged (s2\<lparr>sn_epoch := sg_epoch g, sn_artifact := Some (sg_artifact g), sn_published_at := Some (sg_at g), sn_error := False\<rparr>)"
      have sw: "swap_staged ?s0 = ((True, l), ?s1)" by (rule swap_refreshed [OF st0 _ _ l]) (use g Some in simp_all)
      then have t: "told" "s' = (if l = [] then ?s1 else ?s1\<lparr>sn_retired := set l \<union> sn_retired ?s1, sn_sweep_due := True\<rparr>)"
        using assms(2) g Some by (auto simp: take_repaired_def Let_def)
      have f: "sn_pins s' = sn_pins s" "sn_refs s' = sn_refs s" "sn_pin_epoch s' = sn_pin_epoch s" "sn_epoch s' = sn_epoch s + 1"
        "sn_artifact s' = Some (sg_artifact g)" "sn_staged s' = None" "sn_retired s' = insert r (sn_retired s)"
        "sn_builder s' = sn_builder s" "sn_repaired s' = False" "sn_held s' = sn_held s"
        using l e unfolding t(2) by (auto simp: retire_locked_def clear_staged_def split: if_splits)
      have m: "mapped s' = mapped s" by (simp add: mapped_def fun_eq_iff f)
      have "placed_ok s' L M"
        using c(4) g e unfolding placed_ok_def m unfolding current_def waiting_def by (auto simp: f)
      moreover have "epochs_ok s'" by (rule epochs_advance [OF c(3)]) (simp_all add: f)
      moreover have "counted s'" using c(1) counted_cong [of s' s] by (simp add: f)
      moreover have "stage_ok s'" using c(2) g by (cases "sn_builder s") (auto simp: stage_ok_def f)
      ultimately show ?thesis using t(1) assms(3) by (auto simp: snap_ok_def told_ok_def f split: if_splits)
    qed
  qed
qed

subsection \<open>Slots\<close>

lemma snap_ok_pin:
  assumes "snap_ok s L M" "sn_pins s sid = None" "pin sid s = Some (a, s')"
  shows "snap_ok s' L M \<and> sn_pins s' = (sn_pins s)(sid := Some a) \<and> sn_held s' = sn_held s \<and> sn_retired s' = sn_retired s
     \<and> sn_epoch s' = sn_epoch s \<and> sn_repaired s' = sn_repaired s"
proof -
  note c = snap_okD [OF assms(1)]
  have f: "sn_pins s' = (sn_pins s)(sid := Some a)" "sn_artifact s = Some a" "sn_artifact s' = Some a" "sn_staged s' = sn_staged s"
    "sn_retired s' = sn_retired s" "sn_pin_epoch s' = (sn_pin_epoch s)(sid := Some (sn_epoch s))" "sn_epoch s' = sn_epoch s"
    "sn_reported s' = sn_reported s" "sn_builder s' = sn_builder s" "sn_held s' = sn_held s" "sn_repaired s' = sn_repaired s"
    using assms(3) by (auto simp: pin_def split: if_splits option.splits)
  have m: "mapped s' b \<longleftrightarrow> mapped s b \<or> b = a" for b
  proof
    show "mapped s' b \<Longrightarrow> mapped s b \<or> b = a" by (auto simp: mapped_def f split: if_splits)
  next
    assume "mapped s b \<or> b = a"
    then show "mapped s' b"
    proof
      assume "mapped s b"
      then obtain x where "sn_pins s x = Some b" by (auto simp: mapped_def)
      then have "sn_pins s' x = Some b" using assms(2) by (auto simp: f)
      then show ?thesis by (auto simp: mapped_def)
    next
      assume "b = a"
      then have "sn_pins s' sid = Some b" by (simp add: f)
      then show ?thesis by (auto simp: mapped_def)
    qed
  qed
  have "placed_ok s' L M"
    using c(4) f(2-5) unfolding placed_ok_def m unfolding current_def waiting_def by auto
  moreover have "epochs_ok s'"
  proof (rule epochs_okI)
    fix x y e
    show "(sn_pin_epoch s' x = None) = (sn_pins s' x = None)" using epochs_okD(1) [OF c(3), of x] by (simp add: f)
    show "e \<le> sn_epoch s'" if "sn_pin_epoch s' x = Some e"
      using epochs_okD(2) [OF c(3), of x e] that by (simp add: f split: if_splits)
    show "sn_pins s' x = sn_artifact s'" if "sn_pin_epoch s' x = Some (sn_epoch s')"
      using epochs_okD(3) [OF c(3), of x] that f(2) by (simp add: f(1,3,6,7) split: if_splits)
    show "sn_pins s' x = sn_pins s' y" if "sn_pin_epoch s' x = Some e" "sn_pin_epoch s' y = Some e"
    proof -
      have now: "sn_pins s z = Some a" if "sn_pin_epoch s z = Some (sn_epoch s)" for z
        using epochs_okD(3) [OF c(3) that] f(2) by simp
      have "(x = sid \<or> sn_pin_epoch s x = Some e) \<and> (y = sid \<or> sn_pin_epoch s y = Some e)
          \<and> (x = sid \<or> y = sid \<longrightarrow> e = sn_epoch s)"
        using that by (auto simp: f(6) split: if_splits)
      then show ?thesis using now [of x] now [of y] epochs_okD(4) [OF c(3), of x e y] by (simp add: f(1)) metis
    qed
  qed
  moreover have "stage_ok s'" using c(2) stage_cong [of s' s] f by simp
  ultimately show ?thesis using counted_pin [OF c(1) assms(2,3)] f by (simp add: snap_ok_def)
qed

lemma snap_ok_drop:
  assumes "snap_ok s L M" "sn_pins s sid = Some a" "drop_ref a (forget_pin sid s) = (c, s')"
  shows "snap_ok s' (L \<union> set c) M \<and> sn_pins s' = (sn_pins s)(sid := None) \<and> sn_held s' = sn_held s
     \<and> sn_retired s' = sn_retired s - set c \<and> (\<forall>x \<in> set c. mapped s x)
     \<and> sn_epoch s' = sn_epoch s \<and> sn_repaired s' = sn_repaired s"
proof -
  note k = snap_okD [OF assms(1)]
  have f: "sn_pins s' = (sn_pins s)(sid := None)" "sn_artifact s' = sn_artifact s" "sn_staged s' = sn_staged s"
    "sn_pin_epoch s' = (sn_pin_epoch s)(sid := None)" "sn_epoch s' = sn_epoch s" "sn_reported s' = sn_reported s"
    "sn_builder s' = sn_builder s" "sn_held s' = sn_held s" "sn_repaired s' = sn_repaired s"
    using assms(3) by (auto simp: drop_ref_def forget_pin_def split: if_splits)
  have cnt: "counted s'" "sn_refs s' a = 0 \<longleftrightarrow> \<not> mapped s' a" by (rule counted_drop [OF k(1) assms(2,3)])+
  have r: "sn_retired s' = sn_retired s - set c" "set c = (if \<not> mapped s' a \<and> a \<in> sn_retired s then {a} else {})"
  proof -
    have "sn_refs s' a = sn_refs s a - 1" using assms(3) by (auto simp: drop_ref_def forget_pin_def split: if_splits)
    then have "sn_refs s a - 1 = 0 \<longleftrightarrow> \<not> mapped s' a" using cnt(2) by simp
    then show "sn_retired s' = sn_retired s - set c" "set c = (if \<not> mapped s' a \<and> a \<in> sn_retired s then {a} else {})"
      using assms(3) by (auto simp: drop_ref_def forget_pin_def split: if_splits)
  qed
  have m: "mapped s' b \<Longrightarrow> mapped s b" for b by (auto simp: mapped_def f split: if_splits)
  have ma: "mapped s a" using assms(2) by (auto simp: mapped_def)
  have "placed_ok s' (L \<union> set c) M"
  proof -
    have cw: "current s' = current s" "waiting s' = waiting s" by (simp_all add: current_def waiting_def f)
    show ?thesis
      using k(4) m ma r unfolding placed_ok_def cw by (auto split: if_splits)
  qed
  moreover have "epochs_ok s'"
  proof (rule epochs_okI)
    fix x y e
    show "(sn_pin_epoch s' x = None) = (sn_pins s' x = None)" using epochs_okD(1) [OF k(3), of x] by (simp add: f(1,4))
    show "e \<le> sn_epoch s'" if "sn_pin_epoch s' x = Some e"
      using epochs_okD(2) [OF k(3), of x e] that by (simp add: f(4,5) split: if_splits)
    show "sn_pins s' x = sn_artifact s'" if "sn_pin_epoch s' x = Some (sn_epoch s')"
      using epochs_okD(3) [OF k(3), of x] that by (simp add: f(1,2,4,5) split: if_splits)
    show "sn_pins s' x = sn_pins s' y" if "sn_pin_epoch s' x = Some e" "sn_pin_epoch s' y = Some e"
      using epochs_okD(4) [OF k(3), of x e y] that by (simp add: f(1,4) split: if_splits)
  qed
  moreover have "stage_ok s'" using k(2) stage_cong [of s' s] f by simp
  ultimately show ?thesis using cnt(1) f r ma by (auto simp: snap_ok_def split: if_splits)
qed


section \<open>Every order of steps\<close>

definition leaving :: "snap_world \<Rightarrow> artifact set" where
  "leaving w = snd ` set_mset (w_doomed w) \<union> w_gone w"

text \<open>Restores and held restores keep their pins; a sweep only takes parked artifacts.\<close>

definition threads_ok :: "snap_world \<Rightarrow> bool" where
  "threads_ok w \<longleftrightarrow>
     (\<forall>sid a. w_restoring w sid = Some a \<longrightarrow> sn_pins (w_s w) sid = Some a \<and> sn_held (w_s w) sid = None)
   \<and> (\<forall>sid a. sn_held (w_s w) sid = Some a \<longrightarrow> sn_pins (w_s w) sid = Some a)
   \<and> (\<forall>a. (True, a) \<in># w_doomed w \<longrightarrow> a \<in> sn_retired (w_s w) \<or> a \<in> w_gone w)"

definition world_ok :: "snap_world \<Rightarrow> bool" where
  "world_ok w \<longleftrightarrow> snap_ok (w_s w) (leaving w) (w_made w) \<and> told_ok (w_told w) (w_s w) \<and> threads_ok w"

lemma doom_simps [simp]:
  "w_s (doom c s w) = s" "w_restoring (doom c s w) = w_restoring w" "w_made (doom c s w) = w_made w"
  "w_gone (doom c s w) = w_gone w" "w_told (doom c s w) = w_told w"
  "(True, a) \<in># w_doomed (doom c s w) \<longleftrightarrow> (True, a) \<in># w_doomed w"
  by (auto simp: doom_def)

lemma leaving_doom: "leaving (doom c s w) = leaving w \<union> set c"
  by (simp add: leaving_def doom_def image_Un image_image Un_ac)

lemma threads_okI:
  assumes "threads_ok w" "\<And>sid. w_restoring w' sid = w_restoring w sid \<or> w_restoring w' sid = None"
    "sn_pins (w_s w') = sn_pins (w_s w)" "sn_held (w_s w') = sn_held (w_s w)" "sn_retired (w_s w) \<subseteq> sn_retired (w_s w')"
    "\<And>a. (True, a) \<in># w_doomed w' \<Longrightarrow> (True, a) \<in># w_doomed w" "w_gone w \<subseteq> w_gone w'"
  shows "threads_ok w'"
  using assms unfolding threads_ok_def by (metis option.distinct(1) subsetD)

lemma ensure_frame:
  assumes "ensure_build_started now s = ((sw, c), s')"
  shows "sn_pins s' = sn_pins s" "sn_held s' = sn_held s" "sn_retired s \<subseteq> sn_retired s'" "told_ok n s \<Longrightarrow> told_ok n s'"
proof -
  let ?s0 = "s\<lparr>sn_sweep_due := False\<rparr>"
  have k: "sn_pins (start_fresh now x) = sn_pins x \<and> sn_held (start_fresh now x) = sn_held x
      \<and> sn_retired (start_fresh now x) = sn_retired x \<and> sn_repaired (start_fresh now x) = sn_repaired x
      \<and> sn_epoch (start_fresh now x) = sn_epoch x" for x by (simp add: start_fresh_def)
  have r: "sn_pins (maybe_start_refresh now a g x) = sn_pins x \<and> sn_held (maybe_start_refresh now a g x) = sn_held x
      \<and> sn_retired (maybe_start_refresh now a g x) = sn_retired x \<and> sn_repaired (maybe_start_refresh now a g x) = sn_repaired x
      \<and> sn_epoch (maybe_start_refresh now a g x) = sn_epoch x" for a g x
    by (cases g) (simp_all add: maybe_start_refresh_def)
  have l: "sn_pins s1 = sn_pins s \<and> sn_held s1 = sn_held s \<and> sn_retired s \<subseteq> sn_retired s1
      \<and> sn_epoch s1 = sn_epoch s + 1" if "invalidate_locked ?s0 = (d, s1)" for d s1
    using invalidate_locked_frame [OF that] by simp
  have "sn_pins s' = sn_pins s \<and> sn_held s' = sn_held s \<and> sn_retired s \<subseteq> sn_retired s'
      \<and> (told_ok n s \<longrightarrow> told_ok n s')"
  proof (cases "sn_artifact s")
    case None
    then have "s' = start_fresh now ?s0" using assms by (simp add: ensure_build_started_def Let_def)
    then show ?thesis using k [of ?s0] by (simp add: told_ok_def)
  next
    case (Some a)
    show ?thesis
    proof (cases "base_age now s")
      case None
      then have "s' = ?s0" using assms Some by (simp add: ensure_build_started_def Let_def)
      then show ?thesis by (simp add: told_ok_def)
    next
      case (Some g)
      note age = Some
      show ?thesis
      proof (cases "g < age_ceiling s")
        case True
        then have "s' = maybe_start_refresh now a (Some g) ?s0"
          using assms \<open>sn_artifact s = Some a\<close> age by (simp add: ensure_build_started_def Let_def)
        then show ?thesis using r [of a "Some g" ?s0] by (simp add: told_ok_def)
      next
        case False
        show ?thesis
        proof (cases "sn_staged s")
          case None
          obtain d s1 where e: "invalidate_locked ?s0 = (d, s1)" by fastforce
          let ?s1 = "s1\<lparr>sn_repaired := True, sn_reported := Some (sn_epoch s1)\<rparr>"
          have "s' = start_fresh now ?s1"
            using assms \<open>sn_artifact s = Some a\<close> age False None e by (simp add: ensure_build_started_def Let_def)
          then show ?thesis using l [OF e] k [of ?s1] by (auto simp: told_ok_def split: if_splits)
        next
          case (Some y)
          then have "s' = ?s0"
            using assms \<open>sn_artifact s = Some a\<close> age False by (simp add: ensure_build_started_def Let_def)
          then show ?thesis by (simp add: told_ok_def)
        qed
      qed
    qed
  qed
  then show "sn_pins s' = sn_pins s" "sn_held s' = sn_held s" "sn_retired s \<subseteq> sn_retired s'" "told_ok n s \<Longrightarrow> told_ok n s'"
    by blast+
qed

lemma invalidate_frame:
  assumes "invalidate only repaired s = ((had, c), s')"
  shows "sn_pins s' = sn_pins s" "sn_held s' = sn_held s" "sn_retired s \<subseteq> sn_retired s'"
    "told_ok n s \<Longrightarrow> repaired \<Longrightarrow> only \<noteq> None \<Longrightarrow> told_ok n s'"
    "\<not> repaired \<Longrightarrow> only = None \<Longrightarrow> told_ok (sn_epoch s') s'"
proof -
  consider "s' = s" "only \<noteq> None" | s1 where "\<not> (only \<noteq> None \<and> sn_artifact s \<noteq> only)" "invalidate_locked s = (c, s1)"
    "s' = (if repaired then (if sn_artifact s \<noteq> None then s1\<lparr>sn_repaired := True, sn_reported := Some (sn_epoch s1)\<rparr> else s1)
           else s1\<lparr>sn_repaired := False, sn_reported := Some (sn_epoch s1)\<rparr>)"
  proof (cases "only \<noteq> None \<and> sn_artifact s \<noteq> only")
    case True
    then show ?thesis using that(1) assms by (simp add: invalidate_def)
  next
    case False
    obtain d s1 where e: "invalidate_locked s = (d, s1)" by fastforce
    have u: "((sn_artifact s \<noteq> None, d),
        if repaired then (if sn_artifact s \<noteq> None then s1\<lparr>sn_repaired := True, sn_reported := Some (sn_epoch s1)\<rparr> else s1)
        else s1\<lparr>sn_repaired := False, sn_reported := Some (sn_epoch s1)\<rparr>) = ((had, c), s')"
      using assms unfolding invalidate_def if_not_P [OF False] Let_def e prod.case .
    then have "d = c" by simp
    with e have "invalidate_locked s = (c, s1)" by simp
    then show ?thesis by (rule that(2) [OF False]) (use u in simp)
  qed
  then have "sn_pins s' = sn_pins s \<and> sn_held s' = sn_held s \<and> sn_retired s \<subseteq> sn_retired s'
     \<and> (told_ok n s \<and> repaired \<and> only \<noteq> None \<longrightarrow> told_ok n s') \<and> (\<not> repaired \<and> only = None \<longrightarrow> told_ok (sn_epoch s') s')"
  proof cases
    case (2 s1)
    then show ?thesis using invalidate_locked_frame [OF 2(2)] by (auto simp: told_ok_def split: if_splits)
  qed auto
  then show "sn_pins s' = sn_pins s" "sn_held s' = sn_held s" "sn_retired s \<subseteq> sn_retired s'"
    "told_ok n s \<Longrightarrow> repaired \<Longrightarrow> only \<noteq> None \<Longrightarrow> told_ok n s'"
    "\<not> repaired \<Longrightarrow> only = None \<Longrightarrow> told_ok (sn_epoch s') s'"
    by blast+
qed

lemma snap_ok_unpinned:
  assumes "snap_ok s L M" "sn_pins s sid = None"
  shows "snap_ok (forget_pin sid s) L M"
proof -
  have "sn_pin_epoch s sid = None" using epochs_okD(1) [OF snap_okD(3) [OF assms(1)], of sid] assms(2) by simp
  then have "sn_pins (forget_pin sid s) = sn_pins s" "sn_pin_epoch (forget_pin sid s) = sn_pin_epoch s"
    using assms(2) by (auto simp: forget_pin_def)
  then have "snap_ok (forget_pin sid s) L M = snap_ok s L M" by (intro snap_ok_cong) (simp_all add: forget_pin_def)
  with assms(1) show ?thesis by simp
qed

lemma told_cong: "sn_epoch s' = sn_epoch s \<Longrightarrow> sn_repaired s' = sn_repaired s \<Longrightarrow> told_ok n s' = told_ok n s"
  by (simp add: told_ok_def)

text \<open>A slot lets its pin go: released, failed to restore, or its process confirmed gone.\<close>

lemma world_ok_drop:
  assumes "world_ok w" "sn_pins s0 sid = Some a" "s0 = (w_s w)\<lparr>sn_held := (sn_held (w_s w))(sid := None)\<rparr>"
    and "drop_ref a (forget_pin sid s0) = (c, s')"
    and "\<And>x. w_restoring w' x = (if x = sid then None else w_restoring w x)"
    and "w_s w' = w_s w" "w_doomed w' = w_doomed w" "w_gone w' = w_gone w" "w_made w' = w_made w" "w_told w' = w_told w"
  shows "world_ok (doom c s' w')"
proof -
  note ok = assms(1) [unfolded world_ok_def]
  have s0: "snap_ok s0 (leaving w) (w_made w)" using ok snap_ok_cong [of s0 "w_s w"] assms(3) by simp
  note d = snap_ok_drop [OF s0 assms(2,4)]
  have lv: "leaving w' = leaving w" using assms(7,8) by (simp add: leaving_def)
  have "snap_ok s' (leaving (doom c s' w')) (w_made w')" unfolding leaving_doom lv assms(9) using d by blast
  moreover have "told_ok (w_told w') s'" using ok d told_cong [of s' "w_s w"] assms(3,10) by simp
  moreover have "threads_ok (doom c s' w')"
    unfolding threads_ok_def
  proof (intro conjI allI impI)
    fix x b assume r: "w_restoring (doom c s' w') x = Some b"
    then have "x \<noteq> sid" "w_restoring w x = Some b" using assms(5) by (auto split: if_splits)
    with ok d assms(3) show "sn_pins (w_s (doom c s' w')) x = Some b" "sn_held (w_s (doom c s' w')) x = None"
      by (simp_all add: threads_ok_def)
  next
    fix x b assume h: "sn_held (w_s (doom c s' w')) x = Some b"
    then have "x \<noteq> sid" "sn_held (w_s w) x = Some b" using d assms(3) by (auto split: if_splits)
    with ok d assms(3) show "sn_pins (w_s (doom c s' w')) x = Some b" by (simp add: threads_ok_def)
  next
    fix b assume "(True, b) \<in># w_doomed (doom c s' w')"
    then have db: "(True, b) \<in># w_doomed w" using assms(7) by simp
    then have "b \<in> leaving w" by (force simp: leaving_def)
    then have "\<not> mapped s0 b" using snap_okD(4) [OF s0] unfolding placed_ok_def by blast
    then have "b \<notin> set c" using d by blast
    moreover have "b \<in> sn_retired s0 \<or> b \<in> w_gone w" using ok db assms(3) by (simp add: threads_ok_def)
    ultimately show "b \<in> sn_retired (w_s (doom c s' w')) \<or> b \<in> w_gone (doom c s' w')" using d assms(8) by auto
  qed
  ultimately show ?thesis by (simp add: world_ok_def)
qed

lemma placed_kept:
  assumes "placed_ok s L M" "L' \<subseteq> L" "L \<subseteq> insert a L'" "a \<in> L" "a \<in> sn_retired s' \<or> a \<in> L'"
    "sn_pins s' = sn_pins s" "sn_artifact s' = sn_artifact s" "sn_staged s' = sn_staged s"
    "sn_retired s \<subseteq> sn_retired s'" "sn_retired s' \<subseteq> insert a (sn_retired s)"
  shows "placed_ok s' L' M"
proof -
  have e: "current s' = current s" "waiting s' = waiting s" "mapped s' = mapped s"
    using assms(6-8) by (simp_all add: current_def waiting_def mapped_def fun_eq_iff)
  have o: "current s \<union> waiting s \<union> sn_retired s \<union> {a. mapped s a} \<union> L \<subseteq> M"
    "M \<subseteq> current s \<union> waiting s \<union> sn_retired s \<union> L" "L \<inter> (current s \<union> waiting s \<union> {a. mapped s a}) = {}"
    "sn_retired s \<inter> (current s \<union> waiting s) = {}" "current s \<inter> waiting s = {}" "waiting s \<inter> {a. mapped s a} = {}"
    using assms(1) unfolding placed_ok_def by blast+
  show ?thesis
    unfolding placed_ok_def e
  proof (intro conjI)
    show "current s \<union> waiting s \<union> sn_retired s' \<union> {a. mapped s a} \<union> L' \<subseteq> M" using o(1) assms(2,4,10) by blast
    show "M \<subseteq> current s \<union> waiting s \<union> sn_retired s' \<union> L'" using o(2) assms(3,5,9) by blast
    show "L' \<inter> (current s \<union> waiting s \<union> {a. mapped s a}) = {}" using o(3) assms(2) by blast
    show "sn_retired s' \<inter> (current s \<union> waiting s) = {}" using o(3,4) assms(4,10) by blast
  qed (rule o(5), rule o(6))
qed

lemma world_ok_step:
  assumes "snap_step w w'" "world_ok w"
  shows "world_ok w'"
  using assms(1)
proof (cases rule: snap_step.cases)
  note ok = assms(2) [unfolded world_ok_def]
  note c = snap_okD [OF conjunct1 [OF ok]]
  {
    case (tick now sw c s)
    note f = ensure_frame [OF tick(2)]
    have "threads_ok w'" unfolding tick(1) by (rule threads_okI [of w]) (use ok f in simp_all)
    then show ?thesis
      using snap_ok_ensure [OF tick(2) conjunct1 [OF ok]] ok f(4) [of "w_told w"]
      unfolding world_ok_def tick(1) leaving_doom by simp
  next
    case sampled
    have "threads_ok w'" unfolding sampled
      by (rule threads_okI [of w]) (use ok in \<open>simp_all add: sample_epoch_def split: builder.split\<close>)
    moreover have "told_ok (w_told w) (sample_epoch (w_s w))"
      using ok told_cong [of "sample_epoch (w_s w)" "w_s w"] by (simp add: sample_epoch_def split: builder.split)
    ultimately show ?thesis using snap_ok_thread(1) [OF conjunct1 [OF ok]] by (simp add: world_ok_def sampled leaving_def)
  next
    case (failed now)
    have "threads_ok w'" unfolding failed
      by (rule threads_okI [of w]) (use ok in \<open>simp_all add: build_failed_def split: builder.split\<close>)
    moreover have "told_ok (w_told w) (build_failed now (w_s w))"
      using ok told_cong [of "build_failed now (w_s w)" "w_s w"] by (simp add: build_failed_def split: builder.split)
    ultimately show ?thesis using snap_ok_thread(2) [OF conjunct1 [OF ok]] by (simp add: world_ok_def failed leaving_def)
  next
    case (built e r a now out s)
    have f: "sn_pins s = sn_pins (w_s w)" "sn_held s = sn_held (w_s w)" "sn_retired s = sn_retired (w_s w)"
      "sn_epoch s = sn_epoch (w_s w)" "sn_repaired s = sn_repaired (w_s w)"
      using built(2,4) by (auto simp: end_build_def split: if_splits)
    have "threads_ok w'" unfolding built(1) by (rule threads_okI [of w]) (use ok f in simp_all)
    moreover have lv: "leaving w' = (if out = Rejected then insert a (leaving w) else leaving w)"
      unfolding built(1) leaving_doom by (simp add: leaving_def)
    moreover have "snap_ok s (leaving w') (insert a (w_made w))"
      unfolding lv by (rule snap_ok_end_build [OF conjunct1 [OF ok] built(3,2,4)])
    ultimately show ?thesis using ok told_cong [of s "w_s w"] f by (simp add: world_ok_def built(1))
  next
    case finished
    have "threads_ok w'" unfolding finished
      by (rule threads_okI [of w]) (use ok in \<open>simp_all add: end_thread_def split: builder.split\<close>)
    moreover have "told_ok (w_told w) (end_thread (w_s w))"
      using ok told_cong [of "end_thread (w_s w)" "w_s w"] by (simp add: end_thread_def split: builder.split)
    ultimately show ?thesis using snap_ok_thread(3) [OF conjunct1 [OF ok]] by (simp add: world_ok_def finished leaving_def)
  next
    case (invalidated had c s)
    note f = invalidate_frame [OF invalidated(2)]
    have "threads_ok w'" unfolding invalidated(1) by (rule threads_okI [of w]) (use ok f in simp_all)
    moreover have lv: "leaving w' = leaving w \<union> set c" unfolding invalidated(1) leaving_doom by (simp add: leaving_def)
    moreover have "snap_ok s (leaving w') (w_made w)"
      unfolding lv by (rule snap_ok_invalidate [OF invalidated(2) conjunct1 [OF ok]]) simp
    ultimately show ?thesis using f(5) by (simp add: world_ok_def invalidated(1))
  next
    case (stale a had c s)
    note f = invalidate_frame [OF stale(2)]
    have "threads_ok w'" unfolding stale(1) by (rule threads_okI [of w]) (use ok f in simp_all)
    moreover have lv: "leaving w' = leaving w \<union> set c" unfolding stale(1) leaving_doom by simp
    moreover have "snap_ok s (leaving w') (w_made w)"
      unfolding lv by (rule snap_ok_invalidate [OF stale(2) conjunct1 [OF ok]]) simp
    ultimately show ?thesis using f(4) [of "w_told w"] ok by (simp add: world_ok_def stale(1))
  next
    case (drained told s)
    note d = snap_ok_drain [OF conjunct1 [OF ok] drained(2), of "w_told w"]
    have "threads_ok w'" unfolding drained(1) by (rule threads_okI [of w]) (use ok d in simp_all)
    moreover have "leaving w' = leaving w" by (simp add: drained(1) leaving_def)
    ultimately show ?thesis using d ok by (simp add: world_ok_def drained(1))
  next
    case (restore sid a s)
    note d = snap_ok_pin [OF conjunct1 [OF ok] restore(2,3)]
    have nh: "sn_held (w_s w) sid = None"
      using ok restore(2) by (cases "sn_held (w_s w) sid") (auto simp: threads_ok_def)
    have "threads_ok w'"
      using ok d restore(2) nh unfolding restore(1) threads_ok_def by auto
    moreover have "leaving w' = leaving w" by (simp add: restore(1) leaving_def)
    ultimately show ?thesis using d ok told_cong [of s "w_s w"] by (simp add: world_ok_def restore(1))
  next
    case (restored sid a)
    have "threads_ok w'" unfolding restored(1) by (rule threads_okI [of w]) (use ok in simp_all)
    then show ?thesis using ok by (simp add: world_ok_def restored(1) leaving_def)
  next
    case (restore_failed sid a c s)
    have p: "sn_pins (w_s w) sid = Some a" "sn_held (w_s w) sid = None" using ok restore_failed(2) by (auto simp: threads_ok_def)
    have h: "w_s w = (w_s w)\<lparr>sn_held := (sn_held (w_s w))(sid := None)\<rparr>" using p(2) by (simp add: fun_upd_idem)
    show ?thesis
      unfolding restore_failed(1)
      by (rule world_ok_drop [OF assms(2) p(1) h]) (use restore_failed(3) p(1) in \<open>simp_all add: unpin_def\<close>)
  next
    case (restore_held sid a)
    have p: "sn_pins (w_s w) sid = Some a" using ok restore_held(2) by (auto simp: threads_ok_def)
    have "threads_ok w'"
      using ok p unfolding restore_held(1) threads_ok_def hold_restore_def by auto
    moreover have "snap_ok (hold_restore sid a (w_s w)) (leaving w) (w_made w)"
      using ok snap_ok_cong [of "hold_restore sid a (w_s w)" "w_s w"] by (simp add: hold_restore_def)
    ultimately show ?thesis
      using ok told_cong [of "hold_restore sid a (w_s w)" "w_s w"]
      by (simp add: world_ok_def restore_held(1) leaving_def hold_restore_def)
  next
    case (reclaimed sid c s)
    show ?thesis
    proof (cases "sn_held (w_s w) sid")
      case None
      then have e: "c = [] \<and> s = w_s w" using reclaimed(2) by (simp add: release_held_def)
      have "threads_ok w'" unfolding reclaimed(1) by (rule threads_okI [of w]) (use ok e in simp_all)
      then show ?thesis using ok e by (simp add: world_ok_def reclaimed(1) leaving_doom)
    next
      case (Some a)
      let ?s0 = "(w_s w)\<lparr>sn_held := (sn_held (w_s w))(sid := None)\<rparr>"
      have p: "sn_pins ?s0 sid = Some a" using ok Some by (simp add: threads_ok_def)
      have r: "w_restoring w sid = None" using ok Some by (cases "w_restoring w sid") (auto simp: threads_ok_def)
      have q: "drop_ref a (forget_pin sid ?s0) = (c, s)" using reclaimed(2) Some p by (simp add: release_held_def unpin_def)
      show ?thesis
        unfolding reclaimed(1) by (rule world_ok_drop [OF assms(2) p refl q]) (use r in simp_all)
    qed
  next
    case (released sid c s)
    show ?thesis
    proof (cases "sn_pins (w_s w) sid")
      case None
      then have e: "c = [] \<and> s = forget_pin sid (w_s w)" using released(4) by (simp add: release_slot_def)
      have pn: "sn_pins (forget_pin sid (w_s w)) = sn_pins (w_s w)" using None by (simp add: forget_pin_def fun_upd_idem)
      have "threads_ok w'" unfolding released(1)
        by (rule threads_okI [of w]) (use ok e pn in \<open>simp_all add: forget_pin_def\<close>)
      then show ?thesis
        using ok e snap_ok_unpinned [OF conjunct1 [OF ok] None] told_cong [of "forget_pin sid (w_s w)" "w_s w"]
        by (simp add: world_ok_def released(1) leaving_doom forget_pin_def)
    next
      case (Some a)
      have h: "w_s w = (w_s w)\<lparr>sn_held := (sn_held (w_s w))(sid := None)\<rparr>" using released(3) by (simp add: fun_upd_idem)
      have q: "drop_ref a (forget_pin sid (w_s w)) = (c, s)" using released(4) Some by (simp add: release_slot_def)
      show ?thesis
        unfolding released(1) by (rule world_ok_drop [OF assms(2) Some h q]) (use released(2) in simp_all)
    qed
  next
    case (sweep a)
    have na: "\<not> mapped (w_s w) a" using refs_mapped [OF c(1), of a] sweep(3) by simp
    have lv: "leaving w' = insert a (leaving w)" by (auto simp: sweep(1) leaving_def)
    have "placed_ok (w_s w) (insert a (leaving w)) (w_made w)"
      using c(4) sweep(2) na unfolding placed_ok_def by blast
    then have "snap_ok (w_s w) (leaving w') (w_made w)" using c unfolding lv by (simp add: snap_ok_def)
    moreover have "threads_ok w'" using ok sweep(2) unfolding sweep(1) threads_ok_def by auto
    ultimately show ?thesis using ok by (simp add: world_ok_def sweep(1))
  next
    case (removed k a)
    have al: "a \<in> leaving w" using removed(2) by (force simp: leaving_def)
    have lv: "leaving w' = leaving w"
    proof
      show "leaving w' \<subseteq> leaving w" using al unfolding removed(1) leaving_def by (auto dest: in_diffD)
      show "leaving w \<subseteq> leaving w'"
      proof
        fix x assume x: "x \<in> leaving w"
        show "x \<in> leaving w'"
        proof (cases "x \<in> w_gone w \<or> x = a")
          case True then show ?thesis by (auto simp: removed(1) leaving_def)
        next
          case False
          with x obtain b where "(b, x) \<in># w_doomed w" by (auto simp: leaving_def)
          with False have "(b, x) \<in># w_doomed w - {#(k, a)#}" by (simp add: in_diff_count)
          then show ?thesis by (force simp: removed(1) leaving_def)
        qed
      qed
    qed
    let ?s = "if k then (w_s w)\<lparr>sn_retired := sn_retired (w_s w) - {a}\<rparr> else w_s w"
    have "placed_ok ?s (leaving w) (w_made w)"
      using c(4) al unfolding placed_ok_def current_def waiting_def mapped_def by auto
    moreover have "counted ?s \<and> stage_ok ?s \<and> epochs_ok ?s"
      using c(1-3) counted_cong [of ?s "w_s w"] stage_cong [of ?s "w_s w"] epochs_cong [of ?s "w_s w"] by simp
    moreover have "threads_ok w'"
      using ok unfolding removed(1) threads_ok_def by (auto dest: in_diffD)
    ultimately show ?thesis using ok told_cong [of ?s "w_s w"] lv by (simp add: world_ok_def removed(1) snap_ok_def)
  next
    case (kept k a)
    have al: "a \<in> leaving w" using kept(2) by (force simp: leaving_def)
    let ?s = "if k then w_s w else (w_s w)\<lparr>sn_retired := insert a (sn_retired (w_s w))\<rparr>"
    have sub: "leaving w' \<subseteq> leaving w" unfolding kept(1) leaving_def by (auto dest: in_diffD)
    have sup: "leaving w \<subseteq> insert a (leaving w')"
    proof
      fix x assume x: "x \<in> leaving w"
      show "x \<in> insert a (leaving w')"
      proof (cases "x \<in> w_gone w \<or> x = a")
        case True then show ?thesis by (auto simp: kept(1) leaving_def)
      next
        case False
        with x obtain b where "(b, x) \<in># w_doomed w" by (auto simp: leaving_def)
        with False have "(b, x) \<in># w_doomed w - {#(k, a)#}" by (simp add: in_diff_count)
        then show ?thesis by (force simp: kept(1) leaving_def)
      qed
    qed
    have a: "a \<in> sn_retired ?s \<or> a \<in> leaving w'"
      using ok kept(2) by (cases k) (auto simp: threads_ok_def kept(1) leaving_def)
    have "placed_ok ?s (leaving w') (w_made w)"
      by (rule placed_kept [OF c(4) sub sup al a]) auto
    moreover have "counted ?s \<and> stage_ok ?s \<and> epochs_ok ?s"
      using c(1-3) counted_cong [of ?s "w_s w"] stage_cong [of ?s "w_s w"] epochs_cong [of ?s "w_s w"] by simp
    moreover have "threads_ok w'"
      using ok unfolding kept(1) threads_ok_def by (auto dest: in_diffD)
    ultimately show ?thesis using ok told_cong [of ?s "w_s w"] by (simp add: world_ok_def kept(1) snap_ok_def)
  }
qed

lemma world_ok_start: "world_ok (snap_start age backoff)"
  by (simp add: world_ok_def snap_start_def snap_init_def snap_ok_def counted_def stage_ok_def epochs_ok_def place_defs
      told_ok_def threads_ok_def leaving_def)

lemma world_ok_reachable: "snap_step\<^sup>*\<^sup>* (snap_start age backoff) w \<Longrightarrow> world_ok w"
  by (induction rule: rtranclp_induct) (auto intro: world_ok_start world_ok_step)


section \<open>A run, to witness the properties\<close>

text \<open>
  A base \<open>7\<close> is built, two slots are restored from it, the pool invalidates it, the slots end and
  the files go.
\<close>

definition demo_started :: snap_world where
  "demo_started = doom [] ((snap_init 0 1)\<lparr>sn_builder := Starting\<rparr>) (snap_start 0 1)"

definition demo_sampled :: snap_world where
  "demo_sampled = demo_started\<lparr>w_s := (snap_init 0 1)\<lparr>sn_builder := Fresh 0\<rparr>\<rparr>"

definition demo_base :: snapshots where
  "demo_base = (snap_init 0 1)\<lparr>sn_builder := Finishing True, sn_artifact := Some 7, sn_published_at := Some 5\<rparr>"

definition demo_published :: snap_world where
  "demo_published = doom [] demo_base (demo_sampled\<lparr>w_made := insert 7 (w_made demo_sampled)\<rparr>)"

definition demo_pinned :: "string \<Rightarrow> snap_world \<Rightarrow> snap_world" where
  "demo_pinned sid w = (case pin sid (w_s w) of None \<Rightarrow> w | Some (a, s) \<Rightarrow>
     w\<lparr>w_s := s, w_restoring := (w_restoring w)(sid := Some a)\<rparr>)"

definition demo_two :: snap_world where
  "demo_two = demo_pinned ''b'' (demo_pinned ''a'' demo_published)"

lemma demo_published_reached: "snap_step\<^sup>*\<^sup>* (snap_start 0 1) demo_published"
proof -
  have "snap_step (snap_start 0 1) demo_started"
    unfolding demo_started_def
    by (rule tick [of 5 _ False]) (simp add: snap_start_def snap_init_def ensure_build_started_def start_fresh_def Let_def)
  moreover have "snap_step demo_started demo_sampled"
    unfolding demo_sampled_def
    using sampled [of demo_started] by (simp add: demo_started_def sample_epoch_def snap_init_def)
  moreover have "snap_step demo_sampled demo_published"
    using built [of demo_sampled 0 0 7 5 Published demo_base]
    by (simp add: demo_published_def demo_sampled_def demo_started_def demo_base_def end_build_def snap_init_def snap_start_def doom_def)
  ultimately show ?thesis by (blast intro: converse_rtranclp_into_rtranclp)
qed

lemma demo_pinned_step:
  assumes "sn_pins (w_s w) sid = None" "slot_id_ok sid" "sn_artifact (w_s w) \<noteq> None"
  shows "snap_step w (demo_pinned sid w)"
proof -
  obtain a s where p: "pin sid (w_s w) = Some (a, s)" using assms(2,3) by (auto simp: pin_def)
  show ?thesis using restore [OF assms(1) p] p by (simp add: demo_pinned_def)
qed

lemmas demo_defs = demo_started_def demo_sampled_def demo_base_def demo_published_def demo_pinned_def demo_two_def
  doom_def snap_init_def snap_start_def pin_def slot_id_ok_def

lemma demo_two_reached: "snap_step\<^sup>*\<^sup>* (snap_start 0 1) demo_two"
proof -
  have "snap_step demo_published (demo_pinned ''a'' demo_published)"
    by (rule demo_pinned_step) (simp_all add: demo_defs)
  moreover have "snap_step (demo_pinned ''a'' demo_published) demo_two"
    unfolding demo_two_def by (rule demo_pinned_step) (simp_all add: demo_defs)
  ultimately show ?thesis using demo_published_reached by (blast intro: rtranclp.rtrancl_into_rtrancl)
qed

text \<open>The base that the run drops for its age, and the removal of its files.\<close>

definition demo_stale :: snap_world where
  "demo_stale = (case invalidate (Some 7) True (w_s demo_published) of ((had, c), s) \<Rightarrow> doom c s demo_published)"

definition demo_gone :: snap_world where
  "demo_gone = demo_stale\<lparr>w_doomed := w_doomed demo_stale - {#(False, 7)#}, w_gone := insert 7 (w_gone demo_stale)\<rparr>"

lemma demo_stale_reached: "snap_step\<^sup>*\<^sup>* (snap_start 0 1) demo_stale"
proof -
  obtain had c s where i: "invalidate (Some 7) True (w_s demo_published) = ((had, c), s)" by (metis surj_pair)
  have "snap_step demo_published demo_stale" using stale [OF i] i by (simp add: demo_stale_def)
  with demo_published_reached show ?thesis by (rule rtranclp.rtrancl_into_rtrancl)
qed

lemmas demo_stale_defs = demo_stale_def demo_defs invalidate_def invalidate_locked_def retire_current_def
  retire_locked_def keep_or_drop_staged_def

lemma demo_gone_reached: "snap_step\<^sup>*\<^sup>* (snap_start 0 1) demo_gone"
proof -
  have d: "(False, 7) \<in># w_doomed demo_stale" by (simp add: demo_stale_defs Let_def)
  have "snap_step demo_stale demo_gone" using removed [OF d] by (simp add: demo_gone_def)
  with demo_stale_reached show ?thesis by (rule rtranclp.rtrancl_into_rtrancl)
qed

section \<open>Properties\<close>

text \<open>C37: in every run of the manager, whatever the order of ticks, builds, restores with their
outcomes, releases, invalidations, drains and removals, the files of a base are never removed, nor
handed to a removal, while a slot maps it, while it is the published base or while it is staged.\<close>

theorem mapped_base_never_removed:
  assumes "snap_step\<^sup>*\<^sup>* (snap_start age backoff) w" "a \<in> w_gone w \<or> (k, a) \<in># w_doomed w"
  shows "(\<forall>sid. sn_pins (w_s w) sid \<noteq> Some a) \<and> sn_artifact (w_s w) \<noteq> Some a
    \<and> (\<forall>g. sn_staged (w_s w) = Some g \<longrightarrow> sg_artifact g \<noteq> a)"
proof -
  have "world_ok w" by (rule world_ok_reachable [OF assms(1)])
  then have p: "placed_ok (w_s w) (leaving w) (w_made w)" by (simp add: world_ok_def snap_ok_def)
  have "a \<in> leaving w" using assms(2) by (force simp: leaving_def)
  then have "a \<notin> current (w_s w) \<and> a \<notin> waiting (w_s w) \<and> \<not> mapped (w_s w) a"
    using p unfolding placed_ok_def by blast
  then show ?thesis by (auto simp: current_def waiting_def mapped_def)
qed

lemma mapped_base_never_removed_witness:
  "7 \<in> w_gone demo_gone \<and> sn_artifact (w_s demo_gone) \<noteq> Some 7"
proof -
  have g: "7 \<in> w_gone demo_gone" by (simp add: demo_gone_def)
  then show ?thesis using mapped_base_never_removed [OF demo_gone_reached, of 7 True] by simp
qed

text \<open>no base is lost track of: in every run, every base ever made is published, staged, parked
for a later sweep, handed to a removal or already removed, and the reference count of every base is
the number of slots that map it, so a parked base is swept exactly when its last slot is gone.\<close>

theorem no_base_leaked:
  assumes "snap_step\<^sup>*\<^sup>* (snap_start age backoff) w"
  shows "(\<forall>a \<in> w_made w. sn_artifact (w_s w) = Some a \<or> (\<exists>g. sn_staged (w_s w) = Some g \<and> sg_artifact g = a)
      \<or> a \<in> sn_retired (w_s w) \<or> (\<exists>k. (k, a) \<in># w_doomed w) \<or> a \<in> w_gone w)
    \<and> (\<forall>a. sn_refs (w_s w) a = card {sid. sn_pins (w_s w) sid = Some a})"
proof -
  have "world_ok w" by (rule world_ok_reachable [OF assms])
  then have c: "counted (w_s w)" and p: "placed_ok (w_s w) (leaving w) (w_made w)" by (simp_all add: world_ok_def snap_ok_def)
  have "a \<in> current (w_s w) \<union> waiting (w_s w) \<union> sn_retired (w_s w) \<union> leaving w" if "a \<in> w_made w" for a
    using p that unfolding placed_ok_def by blast
  then show ?thesis using c by (fastforce simp: current_def waiting_def leaving_def counted_def)
qed

lemma no_base_leaked_witness:
  "7 \<in> w_made demo_two \<and> sn_refs (w_s demo_two) 7 = card {sid. sn_pins (w_s demo_two) sid = Some 7}"
proof (rule conjI)
  show "7 \<in> w_made demo_two" by (simp add: demo_defs)
  show "sn_refs (w_s demo_two) 7 = card {sid. sn_pins (w_s demo_two) sid = Some 7}"
    using no_base_leaked [OF demo_two_reached] by blast
qed

text \<open>the epoch a slot was pinned at names its base: in every run, two slots pinned at the same
epoch run from the same base, no pin is from the future, and a pin of the current epoch is of the
published base (which is what the pool compares to decide which slots a refresh outdates).\<close>

theorem epoch_names_base:
  assumes "snap_step\<^sup>*\<^sup>* (snap_start age backoff) w" "sn_pin_epoch (w_s w) x = Some e"
  shows "e \<le> sn_epoch (w_s w) \<and> sn_pins (w_s w) x \<noteq> None
    \<and> (e = sn_epoch (w_s w) \<longrightarrow> sn_pins (w_s w) x = sn_artifact (w_s w))
    \<and> (\<forall>y. sn_pin_epoch (w_s w) y = Some e \<longrightarrow> sn_pins (w_s w) y = sn_pins (w_s w) x)"
proof -
  have e: "epochs_ok (w_s w)" using world_ok_reachable [OF assms(1)] by (simp add: world_ok_def snap_ok_def)
  have "sn_pins (w_s w) x \<noteq> None" using epochs_okD(1) [OF e, of x] assms(2) by simp
  moreover have "sn_pins (w_s w) x = sn_artifact (w_s w)" if "e = sn_epoch (w_s w)"
    using epochs_okD(3) [OF e, of x] assms(2) that by simp
  ultimately show ?thesis using epochs_okD(2,4) [OF e] assms(2) by blast
qed

lemma epoch_names_base_witness:
  "sn_pin_epoch (w_s demo_two) ''b'' = Some 0 \<and> sn_pins (w_s demo_two) ''b'' = sn_pins (w_s demo_two) ''a''"
proof -
  have "sn_pin_epoch (w_s demo_two) ''a'' = Some 0" "sn_pin_epoch (w_s demo_two) ''b'' = Some 0" by (simp_all add: demo_defs)
  with epoch_names_base [OF demo_two_reached this(1)] show ?thesis by blast
qed

text \<open>the pool is told of a new base exactly when there is one: in every run, the drain says that
slots must be retired if and only if the epoch it leaves behind is one the pool has not been told
about, whether a stale base was dropped, a staged refresh was swapped in, or a build was adopted after
the drop was already reported.\<close>

theorem pool_told_exactly:
  assumes "snap_step\<^sup>*\<^sup>* (snap_start age backoff) w" "take_repaired (w_s w) = (told, s)"
  shows "told \<longleftrightarrow> w_told w \<noteq> sn_epoch s"
proof -
  have ok: "world_ok w" by (rule world_ok_reachable [OF assms(1)])
  have d: "told_ok (if told then sn_epoch s else w_told w) s \<and> (told \<longrightarrow> w_told w < sn_epoch s)"
    using snap_ok_drain [OF _ assms(2), of "leaving w" "w_made w" "w_told w"] ok by (simp add: world_ok_def)
  have "\<not> sn_repaired s" using assms(2)
    by (auto simp: take_repaired_def swap_staged_def retire_current_def retire_locked_def clear_staged_def Let_def
        split: prod.splits option.splits if_splits)
  then show ?thesis using d by (auto simp: told_ok_def split: if_splits)
qed

lemma pool_told_exactly_witness:
  "fst (take_repaired (w_s demo_stale)) \<and> w_told demo_stale \<noteq> sn_epoch (snd (take_repaired (w_s demo_stale)))"
proof -
  obtain told s where t: "take_repaired (w_s demo_stale) = (told, s)" by fastforce
  have told: "fst (take_repaired (w_s demo_stale))" by (simp add: take_repaired_def swap_staged_def demo_stale_defs Let_def)
  then show ?thesis using pool_told_exactly [OF demo_stale_reached t] t by simp
qed

end
