(* ===== verification/Vm_Claim.thy ===== *)
theory Vm_Claim
  imports Blastbox_Prelude "HOL-Library.Multiset"
begin

text \<open>
  \<^verbatim>\<open>host/runtime/vm_dispatch.py\<close>: how a remote or VM dispatcher takes a warm slot out of the pool.
  \<open>_claim_resumable_slot\<close> claims, thaws and gives back until a slot answers or the claim window is
  over.  The pool and the runtime are arguments: they answer from what has happened so far.  The
  clock is a sequence of readings, one per call.  The loop of the source is unbounded, so it is a
  partial function; that it returns is a theorem.
\<close>

section \<open>Answers of the pool and the runtime\<close>

text \<open>A slot is its id; \<open>getattr (slot, "slot_id", None)\<close> may be absent.\<close>

type_synonym vm_slot = "string option"

datatype claim_event =
    Claimed vm_slot
  | Resumed vm_slot real real bool
  | Unclaimed vm_slot
  | GivenUp vm_slot

datatype claim_answer = SlotAnswer vm_slot | NoSlotAnswer | ClaimRaises

record claim_exc =
  ce_names :: "string list"
  ce_cause :: "nat option"
  ce_context :: "nat option"

record claim_world =
  cw_clock :: "nat \<Rightarrow> real"
  cw_claim :: "claim_event list \<Rightarrow> real \<Rightarrow> claim_answer"
  cw_resume :: "claim_event list \<Rightarrow> vm_slot \<Rightarrow> nat option"
  cw_can_resume :: bool
  cw_can_unclaim :: bool
  cw_excs :: "claim_exc list"

section \<open>Unknown, not dead\<close>

definition exc_at :: "claim_exc list \<Rightarrow> nat \<Rightarrow> claim_exc option" where
  "exc_at h i = (if i < length h then Some (h ! i) else None)"

definition next_exc :: "claim_exc \<Rightarrow> nat option" where
  "next_exc x = (case ce_cause x of Some j \<Rightarrow> Some j | None \<Rightarrow> ce_context x)"

definition says_unknown :: "claim_exc \<Rightarrow> bool" where
  "says_unknown x \<longleftrightarrow> ''AwsUnknownState'' \<in> set (ce_names x) \<or> ''AwsProbeTimeout'' \<in> set (ce_names x)"

function unknown_walk :: "claim_exc list \<Rightarrow> nat list \<Rightarrow> nat option \<Rightarrow> bool" where
  "unknown_walk h seen cur =
     (case cur of
        None \<Rightarrow> False
      | Some i \<Rightarrow>
          if i \<in> set seen then False
          else case exc_at h i of
            None \<Rightarrow> False
          | Some x \<Rightarrow> if says_unknown x then True else unknown_walk h (i # seen) (next_exc x))"
  by pat_completeness auto
termination
proof (relation "measure (\<lambda>(h, seen, cur). card ({..<length h} - set seen))", simp, goal_cases)
  case (1 h seen cur i x)
  then have "i \<in> {..<length h} - set seen" by (auto simp: exc_at_def split: if_splits)
  then have "{..<length h} - set (i # seen) \<subset> {..<length h} - set seen" by auto
  then show ?case by (simp add: psubset_card_mono)
qed

declare unknown_walk.simps [simp del]

definition is_unknown_not_dead :: "claim_exc list \<Rightarrow> nat \<Rightarrow> bool" where
  "is_unknown_not_dead h i =
     (case exc_at h i of
        None \<Rightarrow> False
      | Some x \<Rightarrow>
          if says_unknown x then True
          else if ''AwsWorkerError'' \<in> set (ce_names x) then False
          else unknown_walk h [] (next_exc x))"

section \<open>One claim\<close>

definition RETRY_SLOT_COOLDOWN_S :: real where "RETRY_SLOT_COOLDOWN_S = 3"

record claim_state =
  cl_tick :: nat
  cl_tried :: "(string \<times> real) list"
  cl_held :: "string list"
  cl_events :: "claim_event list"
  cl_failed :: bool

definition read_clock :: "claim_world \<Rightarrow> claim_state \<Rightarrow> real \<times> claim_state" where
  "read_clock w s = (cw_clock w (cl_tick s), s\<lparr>cl_tick := Suc (cl_tick s)\<rparr>)"

definition log_event :: "claim_event \<Rightarrow> claim_state \<Rightarrow> claim_state" where
  "log_event e s = s\<lparr>cl_events := cl_events s @ [e]\<rparr>"

definition tried_at :: "claim_state \<Rightarrow> string \<Rightarrow> real" where
  "tried_at s sid = (case map_of (cl_tried s) sid of None \<Rightarrow> - (10 ^ 18) | Some t \<Rightarrow> t)"

definition vm_unclaim :: "claim_world \<Rightarrow> vm_slot \<Rightarrow> claim_state \<Rightarrow> claim_state" where
  "vm_unclaim w sl s = (if cw_can_unclaim w then log_event (Unclaimed sl) s else s)"

text \<open>The inner \<open>_release\<close>: a held slot goes back to the pool.\<close>

definition give_held_back :: "claim_world \<Rightarrow> string \<Rightarrow> claim_state \<Rightarrow> claim_state" where
  "give_held_back w sid s =
     (if sid \<notin> set (cl_held s) then s
      else vm_unclaim w (Some sid) (s\<lparr>cl_held := filter (\<lambda>x. x \<noteq> sid) (cl_held s)\<rparr>))"

text \<open>The held slots whose cooldown is over; the clock is read for each.\<close>

fun due_back :: "claim_world \<Rightarrow> string list \<Rightarrow> claim_state \<Rightarrow> string list \<times> claim_state" where
  "due_back w [] s = ([], s)"
| "due_back w (h # hs) s =
     (case read_clock w s of (t, s1) \<Rightarrow>
        (case due_back w hs s1 of (ds, s2) \<Rightarrow>
           (if RETRY_SLOT_COOLDOWN_S \<le> t - tried_at s h then h # ds else ds, s2)))"

definition resume_on_claim :: "claim_world \<Rightarrow> vm_slot \<Rightarrow> real \<Rightarrow> real \<Rightarrow> claim_state \<Rightarrow> bool \<times> claim_state" where
  "resume_on_claim w sl at_t budget s =
     (if \<not> cw_can_resume w then (True, s)
      else case cw_resume w (cl_events s) sl of
        None \<Rightarrow> (True, log_event (Resumed sl at_t budget True) s)
      | Some e \<Rightarrow>
          (False,
           let s1 = log_event (Resumed sl at_t budget False) s
           in if is_unknown_not_dead (cw_excs w) e \<and> cw_can_unclaim w then vm_unclaim w sl s1
              else log_event (GivenUp sl) s1))"

datatype claim_turn = Again | Stop | Got vm_slot | Blew

text \<open>\<open>wait\<close>: no longer than until the first held slot may be tried again.\<close>

definition claim_wait :: "claim_world \<Rightarrow> real \<Rightarrow> claim_state \<Rightarrow> real \<times> claim_state" where
  "claim_wait w remaining s =
     (if cl_held s = [] then (remaining, s)
      else case read_clock w s of (t, s1) \<Rightarrow>
        (min remaining (max 0 (Min (set (map (\<lambda>h. tried_at s h + RETRY_SLOT_COOLDOWN_S) (cl_held s))) - t)), s1))"

text \<open>The slot was tried a moment ago: it is kept aside so that the pool hands out another.\<close>

definition slot_cooling :: "claim_world \<Rightarrow> vm_slot \<Rightarrow> claim_state \<Rightarrow> bool \<times> claim_state" where
  "slot_cooling w sl s =
     (case sl of None \<Rightarrow> (False, s)
      | Some sid \<Rightarrow> (case read_clock w s of (t, s1) \<Rightarrow> (t - tried_at s sid < RETRY_SLOT_COOLDOWN_S, s1)))"

definition stamp :: "claim_world \<Rightarrow> vm_slot \<Rightarrow> claim_state \<Rightarrow> real \<times> claim_state" where
  "stamp w sl s =
     (case sl of None \<Rightarrow> (0, s)
      | Some sid \<Rightarrow> (case read_clock w s of (t, s1) \<Rightarrow> (t, s1\<lparr>cl_tried := AList.update sid t (cl_tried s1)\<rparr>)))"

definition hold_back :: "vm_slot \<Rightarrow> claim_state \<Rightarrow> claim_state" where
  "hold_back sl s =
     (case sl of None \<Rightarrow> s
      | Some sid \<Rightarrow> s\<lparr>cl_held := (if sid \<in> set (cl_held s) then cl_held s else cl_held s @ [sid])\<rparr>)"

definition try_slot :: "claim_world \<Rightarrow> real \<Rightarrow> real option \<Rightarrow> vm_slot \<Rightarrow> claim_state \<Rightarrow> claim_turn \<times> claim_state" where
  "try_slot w deadline thaw sl s =
     (case slot_cooling w sl s of (cool, s1) \<Rightarrow>
        if cool then (Again, hold_back sl s1)
        else case stamp w sl s1 of (at_t, s2) \<Rightarrow>
          (case read_clock w s2 of (t, s3) \<Rightarrow>
             let window = deadline - t
             in if window \<le> 0 then (Stop, vm_unclaim w sl s3)
                else case resume_on_claim w sl at_t (case thaw of Some b \<Rightarrow> b | None \<Rightarrow> window) s3 of (ok, s4) \<Rightarrow>
                  if ok then (Got sl, s4) else (Again, snd (stamp w sl (s4\<lparr>cl_failed := True\<rparr>)))))"

definition claim_turn :: "claim_world \<Rightarrow> real \<Rightarrow> real option \<Rightarrow> claim_state \<Rightarrow> claim_turn \<times> claim_state" where
  "claim_turn w deadline thaw s =
     (case due_back w (cl_held s) s of (ds, s1) \<Rightarrow>
        (case read_clock w (fold (give_held_back w) ds s1) of (t, s2) \<Rightarrow>
           let remaining = deadline - t
           in if remaining \<le> 0 then (Stop, s2)
              else case claim_wait w remaining s2 of (wait, s3) \<Rightarrow>
                (case cw_claim w (cl_events s3) wait of
                   ClaimRaises \<Rightarrow> (Blew, s3)
                 | NoSlotAnswer \<Rightarrow>
                     if cl_held s3 = [] then (Stop, s3)
                     else (case read_clock w s3 of (t', s4) \<Rightarrow> (if 0 < deadline - t' then Again else Stop, s4))
                 | SlotAnswer sl \<Rightarrow> try_slot w deadline thaw sl (log_event (Claimed sl) s3))))"

partial_function (option) claim_loop ::
  "claim_world \<Rightarrow> real \<Rightarrow> real option \<Rightarrow> claim_state \<Rightarrow> (claim_turn \<times> claim_state) option" where
  "claim_loop w deadline thaw s =
     (case claim_turn w deadline thaw s of
        (turn, s1) \<Rightarrow> if turn = Again then claim_loop w deadline thaw s1 else Some (turn, s1))"

declare claim_loop.simps [code]

datatype claim_result = Slot vm_slot | NoneLeft | NoWarmSlot | PoolRaised

definition claim_start :: claim_state where
  "claim_start = \<lparr>cl_tick = 0, cl_tried = [], cl_held = [], cl_events = [], cl_failed = False\<rparr>"

definition claim_end :: "claim_world \<Rightarrow> claim_turn \<times> claim_state \<Rightarrow> claim_result \<times> claim_state" where
  "claim_end w r =
     (case r of (turn, s) \<Rightarrow>
        (case turn of
           Got sl \<Rightarrow> Slot sl
         | Blew \<Rightarrow> PoolRaised
         | _ \<Rightarrow> if cl_failed s then NoWarmSlot else NoneLeft,
         fold (give_held_back w) (cl_held s) s))"

definition claim_resumable_slot ::
  "claim_world \<Rightarrow> real \<Rightarrow> real option \<Rightarrow> (claim_result \<times> claim_state) option" where
  "claim_resumable_slot w timeout thaw =
     (case read_clock w claim_start of (t, s) \<Rightarrow> map_option (claim_end w) (claim_loop w (t + timeout) thaw s))"


section \<open>Frames\<close>

lemma note_simps [simp]:
  "cl_tick (log_event e s) = cl_tick s" "cl_tried (log_event e s) = cl_tried s" "cl_held (log_event e s) = cl_held s"
  "cl_failed (log_event e s) = cl_failed s" "cl_events (log_event e s) = cl_events s @ [e]"
  by (simp_all add: log_event_def)

lemma unclaim_simps [simp]:
  "cl_tick (vm_unclaim w sl s) = cl_tick s" "cl_tried (vm_unclaim w sl s) = cl_tried s" "cl_held (vm_unclaim w sl s) = cl_held s"
  "cl_failed (vm_unclaim w sl s) = cl_failed s"
  by (simp_all add: vm_unclaim_def)

lemma read_clock_simps [simp]: "read_clock w s = (cw_clock w (cl_tick s), s\<lparr>cl_tick := Suc (cl_tick s)\<rparr>)"
  by (simp add: read_clock_def)

lemma due_back_frame:
  "due_back w hs s = (ds, s') \<Longrightarrow>
     cl_held s' = cl_held s \<and> cl_tried s' = cl_tried s \<and> cl_events s' = cl_events s \<and> cl_failed s' = cl_failed s
     \<and> cl_tick s \<le> cl_tick s' \<and> set ds \<subseteq> set hs"
proof (induction hs arbitrary: s ds s')
  case (Cons h hs)
  let ?s1 = "s\<lparr>cl_tick := Suc (cl_tick s)\<rparr>"
  obtain ds1 s2 where d: "due_back w hs ?s1 = (ds1, s2)" by fastforce
  show ?case using Cons.IH [OF d] Cons.prems d by (auto split: if_splits)
qed simp

lemma fold_release_frame:
  "cl_tick (fold (give_held_back w) ds s) = cl_tick s" "cl_tried (fold (give_held_back w) ds s) = cl_tried s"
  "cl_failed (fold (give_held_back w) ds s) = cl_failed s"
  by (induction ds arbitrary: s) (simp_all add: give_held_back_def)

lemma claim_wait_frame:
  "claim_wait w r s = (wt, s') \<Longrightarrow> cl_held s' = cl_held s \<and> cl_tried s' = cl_tried s \<and> cl_events s' = cl_events s
     \<and> cl_failed s' = cl_failed s \<and> cl_tick s \<le> cl_tick s'"
  by (auto simp: claim_wait_def split: if_splits)

section \<open>What a turn does\<close>

text \<open>How often a slot was claimed more than it was given back.\<close>

fun owes :: "vm_slot \<Rightarrow> claim_event \<Rightarrow> int" where
  "owes sl (Claimed x) = (if x = sl then 1 else 0)"
| "owes sl (Unclaimed x) = (if x = sl then - 1 else 0)"
| "owes sl (GivenUp x) = (if x = sl then - 1 else 0)"
| "owes sl (Resumed x t b ok) = 0"

definition owed :: "claim_event list \<Rightarrow> vm_slot \<Rightarrow> int" where
  "owed evs sl = sum_list (map (owes sl) evs)"

lemma owed_simps [simp]: "owed [] sl = 0" "owed (evs @ [e]) sl = owed evs sl + owes sl e"
  by (simp_all add: owed_def)

definition ledger :: "vm_slot option \<Rightarrow> claim_state \<Rightarrow> bool" where
  "ledger extra s \<longleftrightarrow> distinct (cl_held s)
     \<and> (\<forall>sl. owed (cl_events s) sl = (if sl \<in> Some ` set (cl_held s) then 1 else 0) + (if extra = Some sl then 1 else 0))"

text \<open>The pool hands out no slot that is out already.\<close>

definition exclusive :: "claim_world \<Rightarrow> bool" where
  "exclusive w \<longleftrightarrow> (\<forall>evs wt sid. cw_claim w evs wt = SlotAnswer (Some sid) \<longrightarrow> owed evs (Some sid) = 0)"

lemma ledger_cong:
  "cl_held s' = cl_held s \<Longrightarrow> cl_events s' = cl_events s \<Longrightarrow> ledger extra s' = ledger extra s"
  by (simp add: ledger_def)

lemma ledger_release_held:
  assumes "cw_can_unclaim w" "ledger extra s"
  shows "ledger extra (give_held_back w sid s)"
proof (cases "sid \<in> set (cl_held s)")
  case True
  have "(if sl \<in> Some ` set (cl_held s) then 1 else (0::int)) + owes sl (Unclaimed (Some sid))
      = (if sl \<in> Some ` {x \<in> set (cl_held s). x \<noteq> sid} then 1 else 0)" for sl
    using True by auto
  then show ?thesis
    using assms True by (auto simp: give_held_back_def vm_unclaim_def ledger_def simp del: owes.simps)
qed (use assms in \<open>simp add: give_held_back_def\<close>)

lemma ledger_fold_release:
  "cw_can_unclaim w \<Longrightarrow> ledger extra s \<Longrightarrow> ledger extra (fold (give_held_back w) ds s)"
  by (induction ds arbitrary: s) (simp_all add: ledger_release_held)

lemma fold_release_all:
  "set (cl_held (fold (give_held_back w) ds s)) = set (cl_held s) - set ds"
  by (induction ds arbitrary: s) (auto simp: give_held_back_def)

lemma ledger_unclaim:
  "cw_can_unclaim w \<Longrightarrow> ledger (Some sl) s \<Longrightarrow> ledger None (vm_unclaim w sl s)"
  by (auto simp: vm_unclaim_def ledger_def)

lemma ledger_given_up: "ledger (Some sl) s \<Longrightarrow> ledger None (log_event (GivenUp sl) s)"
  by (auto simp: ledger_def)

lemma ledger_resumed [simp]: "ledger extra (log_event (Resumed sl t b ok) s) = ledger extra s"
  by (simp add: ledger_def)

lemma ledger_stamp [simp]: "ledger extra (snd (stamp w sl s)) = ledger extra s"
  by (simp add: stamp_def ledger_def split: option.split)

lemma resume_ledger:
  assumes "cw_can_unclaim w" "ledger (Some sl) s" "resume_on_claim w sl t b s = (ok, s')"
  shows "ledger (if ok then Some sl else None) s'"
  using assms by (auto simp: resume_on_claim_def Let_def ledger_unclaim ledger_given_up split: if_splits option.splits)

lemma try_slot_ledger:
  assumes "cw_can_unclaim w" "ledger (Some sl) s" "\<forall>sid. sl = Some sid \<longrightarrow> sid \<notin> set (cl_held s)"
    and t: "try_slot w deadline thaw sl s = (turn, s')"
  shows "ledger (case turn of Got x \<Rightarrow> Some x | _ \<Rightarrow> None) s' \<and> turn \<noteq> Blew"
proof -
  obtain cool s1 where c: "slot_cooling w sl s = (cool, s1)" by fastforce
  have l1: "ledger (Some sl) s1" "cl_held s1 = cl_held s"
  proof -
    have f: "cl_held s1 = cl_held s" "cl_events s1 = cl_events s" using c by (auto simp: slot_cooling_def split: option.splits)
    then show "cl_held s1 = cl_held s" "ledger (Some sl) s1" using ledger_cong [OF f] assms(2) by simp_all
  qed
  show ?thesis
  proof (cases cool)
    case True
    then have e: "turn = Again" "s' = hold_back sl s1" using t c by (simp_all add: try_slot_def)
    obtain sid where sid: "sl = Some sid" using c True by (cases sl) (auto simp: slot_cooling_def)
    have "ledger None (hold_back sl s1)"
      using l1 assms(3) by (auto simp: hold_back_def sid ledger_def)
    then show ?thesis by (simp add: e)
  next
    case False
    obtain at_t s2 where st: "stamp w sl s1 = (at_t, s2)" by fastforce
    let ?s3 = "s2\<lparr>cl_tick := Suc (cl_tick s2)\<rparr>"
    let ?window = "deadline - cw_clock w (cl_tick s2)"
    have l3: "ledger (Some sl) ?s3"
      using l1(1) ledger_stamp [of "Some sl" w sl s1] ledger_cong [of ?s3 s2 "Some sl"] by (simp add: st)
    show ?thesis
    proof (cases "?window \<le> 0")
      case True
      then have "turn = Stop" "s' = vm_unclaim w sl ?s3" using t c False st by (simp_all add: try_slot_def Let_def)
      then show ?thesis using ledger_unclaim [OF assms(1) l3] by simp
    next
      case nd: False
      obtain ok s4 where r: "resume_on_claim w sl at_t (case thaw of Some b \<Rightarrow> b | None \<Rightarrow> ?window) ?s3 = (ok, s4)" by fastforce
      have l4: "ledger (if ok then Some sl else None) s4" by (rule resume_ledger [OF assms(1) l3 r])
      have e: "(turn, s') = (if ok then (Got sl, s4) else (Again, snd (stamp w sl (s4\<lparr>cl_failed := True\<rparr>))))"
        using t c False st nd r by (simp add: try_slot_def Let_def)
      show ?thesis
      proof (cases ok)
        case True
        then show ?thesis using e l4 by simp
      next
        case no: False
        have "ledger None (s4\<lparr>cl_failed := True\<rparr>)" using l4 no ledger_cong [of "s4\<lparr>cl_failed := True\<rparr>" s4 None] by simp
        then show ?thesis using e no by simp
      qed
    qed
  qed
qed

lemma claim_turn_ledger:
  assumes "exclusive w" "cw_can_unclaim w" "ledger None s" "claim_turn w deadline thaw s = (turn, s')"
  shows "ledger (case turn of Got x \<Rightarrow> Some x | _ \<Rightarrow> None) s'"
proof -
  obtain ds s1 where d: "due_back w (cl_held s) s = (ds, s1)" by fastforce
  note fd = due_back_frame [OF d]
  let ?f = "fold (give_held_back w) ds s1"
  let ?s2 = "?f\<lparr>cl_tick := Suc (cl_tick ?f)\<rparr>"
  let ?rem = "deadline - cw_clock w (cl_tick ?f)"
  have "ledger None s1" using assms(3) fd ledger_cong [of s1 s None] by simp
  then have "ledger None ?f" by (rule ledger_fold_release [OF assms(2)])
  then have l2: "ledger None ?s2" using ledger_cong [of ?s2 ?f None] by simp
  show ?thesis
  proof (cases "?rem \<le> 0")
    case True
    then have "turn = Stop" "s' = ?s2" using assms(4) d by (simp_all add: claim_turn_def Let_def)
    then show ?thesis using l2 by simp
  next
    case False
    obtain wt s3 where wt: "claim_wait w ?rem ?s2 = (wt, s3)" by fastforce
    note fw = claim_wait_frame [OF wt]
    have l3: "ledger None s3" using l2 fw ledger_cong [of s3 ?s2 None] by simp
    have r: "(turn, s') = (case cw_claim w (cl_events s3) wt of
                   ClaimRaises \<Rightarrow> (Blew, s3)
                 | NoSlotAnswer \<Rightarrow>
                     if cl_held s3 = [] then (Stop, s3)
                     else (case read_clock w s3 of (t', s4) \<Rightarrow> (if 0 < deadline - t' then Again else Stop, s4))
                 | SlotAnswer sl \<Rightarrow> try_slot w deadline thaw sl (log_event (Claimed sl) s3))"
      using assms(4) d False wt by (simp add: claim_turn_def Let_def)
    show ?thesis
    proof (cases "cw_claim w (cl_events s3) wt")
      case (SlotAnswer sl)
      have free: "sid \<notin> set (cl_held s3)" if "sl = Some sid" for sid
      proof -
        have "owed (cl_events s3) (Some sid) = 0" using assms(1) SlotAnswer that unfolding exclusive_def by blast
        then show ?thesis using l3 unfolding ledger_def by (metis add.right_neutral image_eqI option.distinct(1) zero_neq_one)
      qed
      have "ledger (Some sl) (log_event (Claimed sl) s3)" using l3 by (auto simp: ledger_def)
      then show ?thesis using r SlotAnswer free
        by (intro conjunct1 [OF try_slot_ledger [OF assms(2)]]) simp_all
    next
      case NoSlotAnswer
      then show ?thesis using r l3 ledger_cong [of s' s3 None] by (auto split: if_splits)
    next
      case ClaimRaises
      then show ?thesis using r l3 by simp
    qed
  qed
qed


section \<open>The clock\<close>

lemma stamp_tick: "cl_tick s \<le> cl_tick (snd (stamp w sl s))"
  by (simp add: stamp_def split: option.split)

lemma resume_frame:
  "resume_on_claim w sl t b s = (ok, s') \<Longrightarrow> cl_tick s' = cl_tick s \<and> cl_tried s' = cl_tried s \<and> cl_held s' = cl_held s"
  by (auto simp: resume_on_claim_def Let_def split: if_splits option.splits)

lemma try_slot_tick:
  assumes "try_slot w deadline thaw sl s = (turn, s')"
  shows "cl_tick s \<le> cl_tick s'"
proof -
  obtain cool s1 where c: "slot_cooling w sl s = (cool, s1)" by fastforce
  obtain at_t s2 where st: "stamp w sl s1 = (at_t, s2)" by fastforce
  let ?s3 = "s2\<lparr>cl_tick := Suc (cl_tick s2)\<rparr>"
  let ?window = "deadline - cw_clock w (cl_tick s2)"
  obtain ok s4 where r: "resume_on_claim w sl at_t (case thaw of Some b \<Rightarrow> b | None \<Rightarrow> ?window) ?s3 = (ok, s4)" by fastforce
  have "cl_tick s \<le> cl_tick s1" using c by (auto simp: slot_cooling_def split: option.splits)
  moreover have "cl_tick s1 \<le> cl_tick s2" using stamp_tick [of s1 w sl] st by simp
  moreover have "cl_tick s4 = Suc (cl_tick s2)" using resume_frame [OF r] by simp
  moreover have "cl_tick s4 \<le> cl_tick (snd (stamp w sl (s4\<lparr>cl_failed := True\<rparr>)))"
    using stamp_tick [of "s4\<lparr>cl_failed := True\<rparr>" w sl] by simp
  moreover have "cl_tick (hold_back sl s1) = cl_tick s1" by (simp add: hold_back_def split: option.split)
  ultimately show ?thesis
    using assms c st r by (auto simp: try_slot_def Let_def split: if_splits)
qed

text \<open>Every turn reads the clock, and one that reads it past the deadline is the last.\<close>

lemma claim_turn_tick:
  assumes "claim_turn w deadline thaw s = (turn, s')"
  shows "cl_tick s < cl_tick s'" "turn = Again \<Longrightarrow> \<exists>n \<ge> cl_tick s. n < cl_tick s' \<and> cw_clock w n < deadline"
proof -
  obtain ds s1 where d: "due_back w (cl_held s) s = (ds, s1)" by fastforce
  note fd = due_back_frame [OF d]
  let ?f = "fold (give_held_back w) ds s1"
  let ?s2 = "?f\<lparr>cl_tick := Suc (cl_tick ?f)\<rparr>"
  let ?rem = "deadline - cw_clock w (cl_tick ?f)"
  have ft: "cl_tick ?f = cl_tick s1" by (rule fold_release_frame(1))
  obtain wt s3 where wt: "claim_wait w ?rem ?s2 = (wt, s3)" by fastforce
  note fw = claim_wait_frame [OF wt]
  have "Suc (cl_tick s1) \<le> cl_tick s' \<and> (turn = Again \<longrightarrow> 0 < ?rem)"
  proof (cases "?rem \<le> 0")
    case True
    then have "turn = Stop" "s' = ?s2" using assms d by (simp_all add: claim_turn_def Let_def)
    then show ?thesis using ft by simp
  next
    case False
    have r: "(turn, s') = (case cw_claim w (cl_events s3) wt of
                   ClaimRaises \<Rightarrow> (Blew, s3)
                 | NoSlotAnswer \<Rightarrow>
                     if cl_held s3 = [] then (Stop, s3)
                     else (case read_clock w s3 of (t', s4) \<Rightarrow> (if 0 < deadline - t' then Again else Stop, s4))
                 | SlotAnswer sl \<Rightarrow> try_slot w deadline thaw sl (log_event (Claimed sl) s3))"
      using assms d False wt by (simp add: claim_turn_def Let_def)
    have "Suc (cl_tick s1) \<le> cl_tick s3" using fw ft by simp
    moreover have "cl_tick s3 \<le> cl_tick s'"
    proof (cases "cw_claim w (cl_events s3) wt")
      case (SlotAnswer sl)
      then have "try_slot w deadline thaw sl (log_event (Claimed sl) s3) = (turn, s')" using r by simp
      from try_slot_tick [OF this] show ?thesis by simp
    qed (use r in \<open>auto split: if_splits\<close>)
    ultimately show ?thesis using False by simp
  qed
  then show "cl_tick s < cl_tick s'" "turn = Again \<Longrightarrow> \<exists>n \<ge> cl_tick s. n < cl_tick s' \<and> cw_clock w n < deadline"
    using fd ft by (auto intro!: exI [of _ "cl_tick s1"])
qed

lemma claim_loop_returns:
  assumes "\<And>n. N \<le> n \<Longrightarrow> deadline \<le> cw_clock w n"
  shows "\<exists>r. claim_loop w deadline thaw s = Some r"
proof (induction "N - cl_tick s" arbitrary: s rule: less_induct)
  case less
  obtain turn s1 where t: "claim_turn w deadline thaw s = (turn, s1)" by fastforce
  show ?case
  proof (cases "turn = Again")
    case False
    then show ?thesis by (subst claim_loop.simps) (simp add: t)
  next
    case True
    obtain n where n: "cl_tick s \<le> n" "n < cl_tick s1" "cw_clock w n < deadline"
      using claim_turn_tick(2) [OF t True] by blast
    have "n < N" using assms [of n] n(3) by (meson leI not_less)
    then have "N - cl_tick s1 < N - cl_tick s" using n by linarith
    from less [OF this] show ?thesis by (subst claim_loop.simps) (simp add: t True)
  qed
qed

text \<open>What holds of a result.\<close>

lemma claim_loop_result:
  assumes "claim_loop w deadline thaw s = Some (turn, s')" "I s"
    and step: "\<And>s turn s'. I s \<Longrightarrow> claim_turn w deadline thaw s = (turn, s') \<Longrightarrow> if turn = Again then I s' else Q turn s'"
  shows "Q turn s'"
proof -
  let ?P = "\<lambda>w' d' th' s r. w' = w \<longrightarrow> d' = deadline \<longrightarrow> th' = thaw \<longrightarrow> I s \<longrightarrow> Q (fst r) (snd r)"
  have "?P w deadline thaw s (turn, s')"
  proof (rule claim_loop.raw_induct [where P = ?P, OF _ assms(1)], intro impI, goal_cases)
    case (1 f w' d' th' s0 r)
    obtain turn1 s2 where t: "claim_turn w' d' th' s0 = (turn1, s2)" by fastforce
    have st: "if turn1 = Again then I s2 else Q turn1 s2" using step [OF 1(6)] t 1(3-5) by blast
    show ?case
    proof (cases "turn1 = Again")
      case True
      then show ?thesis using 1 t st by auto
    next
      case False
      then show ?thesis using 1(2) t st by auto
    qed
  qed
  with assms(2) show ?thesis by simp
qed


section \<open>The cooldown\<close>

fun is_resume :: "claim_event \<Rightarrow> bool" where
  "is_resume (Resumed sl t b ok) = True"
| "is_resume _ = False"

text \<open>Two attempts to thaw the same slot are a cooldown apart.\<close>

definition apart :: "claim_event \<Rightarrow> claim_event \<Rightarrow> bool" where
  "apart e e' \<longleftrightarrow> (\<forall>sid t b ok t' b' ok'. e = Resumed (Some sid) t b ok \<longrightarrow> e' = Resumed (Some sid) t' b' ok'
     \<longrightarrow> t + RETRY_SLOT_COOLDOWN_S \<le> t')"

definition spaced :: "claim_state \<Rightarrow> bool" where
  "spaced s \<longleftrightarrow> sorted_wrt apart (cl_events s)
     \<and> (\<forall>sid t b ok. Resumed (Some sid) t b ok \<in> set (cl_events s) \<longrightarrow> t \<le> tried_at s sid)"

definition ticking :: "claim_world \<Rightarrow> bool" where
  "ticking w \<longleftrightarrow> mono (cw_clock w)"

lemma apart_other: "\<not> is_resume e' \<Longrightarrow> apart e e'"
  by (cases e') (simp_all add: apart_def)

lemma spaced_more:
  assumes "spaced s" "cl_events s' = cl_events s @ es" "list_all (\<lambda>e. \<not> is_resume e) es" "cl_tried s' = cl_tried s"
  shows "spaced s'"
proof -
  have no: "\<And>e. e \<in> set es \<Longrightarrow> \<not> is_resume e" using assms(3) by (simp add: list_all_iff)
  have "sorted_wrt apart es" using no apart_other
    by (metis (no_types, lifting) sorted_wrt_true sorted_wrt_mono_rel)
  then have "sorted_wrt apart (cl_events s')"
    using assms(1,2) no unfolding spaced_def by (simp add: sorted_wrt_append apart_other)
  moreover have "Resumed (Some sid) t b ok \<in> set (cl_events s)" if "Resumed (Some sid) t b ok \<in> set (cl_events s')" for sid t b ok
    using that assms(2) no by fastforce
  moreover have "tried_at s' sid = tried_at s sid" for sid using assms(4) by (simp add: tried_at_def)
  ultimately show ?thesis using assms(1) unfolding spaced_def by fastforce
qed

lemma spaced_cong: "spaced s \<Longrightarrow> cl_events s' = cl_events s \<Longrightarrow> cl_tried s' = cl_tried s \<Longrightarrow> spaced s'"
  by (rule spaced_more [of s s' "[]"]) simp_all

lemma unclaim_more: "\<exists>es. cl_events (vm_unclaim w sl s) = cl_events s @ es \<and> list_all (\<lambda>e. \<not> is_resume e) es"
  by (auto simp: vm_unclaim_def intro: exI [of _ "[Unclaimed sl]"] exI [of _ "[]"])

lemma spaced_unclaim: "spaced s \<Longrightarrow> spaced (vm_unclaim w sl s)"
  using unclaim_more [of w sl s] spaced_more by fastforce

lemma spaced_release_held: "spaced s \<Longrightarrow> spaced (give_held_back w sid s)"
  by (auto simp: give_held_back_def intro!: spaced_unclaim spaced_cong [of s])

lemma spaced_fold_release: "spaced s \<Longrightarrow> spaced (fold (give_held_back w) ds s)"
  by (induction ds arbitrary: s) (simp_all add: spaced_release_held)

text \<open>Stamping at a time that is no earlier than the last stamp.\<close>

lemma tried_at_update:
  "tried_at (s\<lparr>cl_tick := n, cl_tried := AList.update sid t (cl_tried s)\<rparr>) x = (if x = sid then t else tried_at s x)"
  by (simp add: tried_at_def update_conv')

lemma spaced_stamp:
  assumes "spaced s" "\<And>sid. sl = Some sid \<Longrightarrow> tried_at s sid \<le> cw_clock w (cl_tick s)"
  shows "spaced (snd (stamp w sl s))"
proof (cases sl)
  case None
  then show ?thesis using assms(1) by (simp add: stamp_def)
next
  case (Some sid)
  have "t \<le> (if x = sid then cw_clock w (cl_tick s) else tried_at s x)"
    if "Resumed (Some x) t b ok \<in> set (cl_events s)" for x t b ok
  proof -
    have "t \<le> tried_at s x" using assms(1) that unfolding spaced_def by blast
    then show ?thesis using assms(2) [OF Some] by auto
  qed
  then show ?thesis
    using assms(1) Some unfolding spaced_def by (auto simp: stamp_def tried_at_update)
qed

lemma resume_spaced:
  assumes "spaced s" "\<And>sid. sl = Some sid \<Longrightarrow> tried_at s sid = at_t"
    "\<And>sid t b ok. sl = Some sid \<Longrightarrow> Resumed (Some sid) t b ok \<in> set (cl_events s) \<Longrightarrow> t + RETRY_SLOT_COOLDOWN_S \<le> at_t"
    and r: "resume_on_claim w sl at_t budget s = (ok, s')"
  shows "spaced s' \<and> cl_tried s' = cl_tried s \<and> cl_tick s' = cl_tick s"
proof -
  have l: "spaced (log_event (Resumed sl at_t budget k) s)" for k
  proof -
    have "apart e (Resumed sl at_t budget k)" if "e \<in> set (cl_events s)" for e
      using that assms(3) unfolding apart_def by blast
    moreover have "x = sid \<Longrightarrow> sl = Some x \<Longrightarrow> at_t \<le> tried_at s sid" for x sid using assms(2) by simp
    ultimately show ?thesis
      using assms(1) unfolding spaced_def by (auto simp: sorted_wrt_append tried_at_def)
  qed
  then have "spaced (log_event (GivenUp sl) (log_event (Resumed sl at_t budget False) s))"
    using spaced_more [of "log_event (Resumed sl at_t budget False) s" _ "[GivenUp sl]"] by simp
  then show ?thesis
    using r l assms(1) by (auto simp: resume_on_claim_def Let_def spaced_unclaim split: if_splits option.splits)
qed

lemma try_slot_spaced:
  assumes "ticking w" "spaced s" and t: "try_slot w deadline thaw sl s = (turn, s')"
  shows "spaced s'"
proof -
  have mono: "m \<le> n \<Longrightarrow> cw_clock w m \<le> cw_clock w n" for m n using assms(1) by (auto simp: ticking_def dest: monoD)
  obtain cool s1 where c: "slot_cooling w sl s = (cool, s1)" by fastforce
  have f1: "cl_events s1 = cl_events s" "cl_tried s1 = cl_tried s"
    using c by (auto simp: slot_cooling_def split: option.splits)
  have sp1: "spaced s1" by (rule spaced_cong [OF assms(2) f1])
  show ?thesis
  proof (cases cool)
    case True
    then have "s' = hold_back sl s1" using t c by (simp add: try_slot_def)
    then show ?thesis using spaced_cong [OF sp1] by (simp add: hold_back_def split: option.split)
  next
    case False
    have tick: "cl_tick s1 = Suc (cl_tick s)" "RETRY_SLOT_COOLDOWN_S + tried_at s sid \<le> cw_clock w (cl_tick s)"
      if "sl = Some sid" for sid
      using c False that by (auto simp: slot_cooling_def)
    obtain at_t s2 where st: "stamp w sl s1 = (at_t, s2)" by fastforce
    have now: "RETRY_SLOT_COOLDOWN_S + tried_at s1 sid \<le> cw_clock w (cl_tick s1)" if "sl = Some sid" for sid
      using tick [OF that] mono [of "cl_tick s" "cl_tick s1"] by (simp add: tried_at_def f1)
    have cd: "0 < RETRY_SLOT_COOLDOWN_S" by (simp add: RETRY_SLOT_COOLDOWN_S_def)
    have sp2: "spaced s2"
      using spaced_stamp [OF sp1, of sl w] now cd st by (smt (verit) snd_conv)
    have f2: "cl_events s2 = cl_events s1" using st by (auto simp: stamp_def split: option.splits)
    have at2: "tried_at s2 sid = at_t" "at_t = cw_clock w (cl_tick s1)" "cl_tick s2 = Suc (cl_tick s1)" if "sl = Some sid" for sid
      using st that by (auto simp: stamp_def tried_at_def update_conv')
    let ?s3 = "s2\<lparr>cl_tick := Suc (cl_tick s2)\<rparr>"
    let ?window = "deadline - cw_clock w (cl_tick s2)"
    have sp3: "spaced ?s3" by (rule spaced_cong [OF sp2]) simp_all
    have old: "x + RETRY_SLOT_COOLDOWN_S \<le> at_t"
      if "sl = Some sid" "Resumed (Some sid) x b ok \<in> set (cl_events ?s3)" for sid x b ok
    proof -
      have "x \<le> tried_at s1 sid" using sp1 that f2 unfolding spaced_def by simp blast
      then show ?thesis using now [OF that(1)] at2(2) [OF that(1)] by simp
    qed
    show ?thesis
    proof (cases "?window \<le> 0")
      case True
      then have "s' = vm_unclaim w sl ?s3" using t c False st by (simp add: try_slot_def Let_def)
      then show ?thesis using spaced_unclaim [OF sp3] by simp
    next
      case nd: False
      obtain ok s4 where r: "resume_on_claim w sl at_t (case thaw of Some b \<Rightarrow> b | None \<Rightarrow> ?window) ?s3 = (ok, s4)" by fastforce
      have sp4: "spaced s4 \<and> cl_tried s4 = cl_tried ?s3 \<and> cl_tick s4 = cl_tick ?s3"
        by (rule resume_spaced [OF sp3 _ old r]) (use at2(1) in \<open>simp_all add: tried_at_def\<close>)
      have e: "s' = (if ok then s4 else snd (stamp w sl (s4\<lparr>cl_failed := True\<rparr>)))"
        using t c False st nd r by (auto simp add: try_slot_def Let_def split: if_splits)
      have "spaced (snd (stamp w sl (s4\<lparr>cl_failed := True\<rparr>)))"
      proof (rule spaced_stamp)
        show "spaced (s4\<lparr>cl_failed := True\<rparr>)" by (rule spaced_cong [of s4]) (use sp4 in simp_all)
        fix sid assume sl: "sl = Some sid"
        have "tried_at (s4\<lparr>cl_failed := True\<rparr>) sid = cw_clock w (cl_tick s1)"
          using at2 [OF sl] sp4 by (simp add: tried_at_def)
        then show "tried_at (s4\<lparr>cl_failed := True\<rparr>) sid \<le> cw_clock w (cl_tick (s4\<lparr>cl_failed := True\<rparr>))"
          using mono [of "cl_tick s1" "cl_tick s4"] sp4 at2(3) [OF sl] by simp
      qed
      then show ?thesis using e sp4 by simp
    qed
  qed
qed

lemma claim_turn_spaced:
  assumes "ticking w" "spaced s" "claim_turn w deadline thaw s = (turn, s')"
  shows "spaced s'"
proof -
  obtain ds s1 where d: "due_back w (cl_held s) s = (ds, s1)" by fastforce
  note fd = due_back_frame [OF d]
  let ?f = "fold (give_held_back w) ds s1"
  let ?s2 = "?f\<lparr>cl_tick := Suc (cl_tick ?f)\<rparr>"
  let ?rem = "deadline - cw_clock w (cl_tick ?f)"
  have "spaced s1" using assms(2) fd by (auto intro: spaced_cong)
  then have "spaced ?f" by (rule spaced_fold_release)
  then have sp2: "spaced ?s2" by (rule spaced_cong) simp_all
  show ?thesis
  proof (cases "?rem \<le> 0")
    case True
    then have "s' = ?s2" using assms(3) d by (simp_all add: claim_turn_def Let_def)
    then show ?thesis using sp2 by simp
  next
    case False
    obtain wt s3 where wt: "claim_wait w ?rem ?s2 = (wt, s3)" by fastforce
    note fw = claim_wait_frame [OF wt]
    have sp3: "spaced s3" using sp2 fw by (auto intro: spaced_cong)
    have r: "(turn, s') = (case cw_claim w (cl_events s3) wt of
                   ClaimRaises \<Rightarrow> (Blew, s3)
                 | NoSlotAnswer \<Rightarrow>
                     if cl_held s3 = [] then (Stop, s3)
                     else (case read_clock w s3 of (t', s4) \<Rightarrow> (if 0 < deadline - t' then Again else Stop, s4))
                 | SlotAnswer sl \<Rightarrow> try_slot w deadline thaw sl (log_event (Claimed sl) s3))"
      using assms(3) d False wt by (simp add: claim_turn_def Let_def)
    show ?thesis
    proof (cases "cw_claim w (cl_events s3) wt")
      case (SlotAnswer sl)
      have "spaced (log_event (Claimed sl) s3)" by (rule spaced_more [OF sp3, of _ "[Claimed sl]"]) simp_all
      moreover have "try_slot w deadline thaw sl (log_event (Claimed sl) s3) = (turn, s')" using r SlotAnswer by simp
      ultimately show ?thesis by (rule try_slot_spaced [OF assms(1)])
    next
      case NoSlotAnswer
      then show ?thesis using r spaced_cong [OF sp3] by (auto split: if_splits)
    next
      case ClaimRaises
      then show ?thesis using r sp3 by simp
    qed
  qed
qed


section \<open>Properties\<close>

lemma claim_resumable_cases:
  assumes "claim_resumable_slot w timeout thaw = Some (res, s')"
  obtains turn s where "claim_loop w (cw_clock w 0 + timeout) thaw (claim_start\<lparr>cl_tick := Suc 0\<rparr>) = Some (turn, s)"
    "claim_end w (turn, s) = (res, s')"
  using assms by (auto simp: claim_resumable_slot_def claim_start_def)

text \<open>taking a warm slot always comes to an end: whatever the pool and the runtime answer, once
the clock has passed the deadline for good, the loop that claims, thaws, gives back and tries again
returns.\<close>

theorem claim_returns:
  assumes "\<And>n. N \<le> n \<Longrightarrow> cw_clock w 0 + timeout \<le> cw_clock w n"
  shows "\<exists>r. claim_resumable_slot w timeout thaw = Some r"
proof -
  have "\<exists>r. claim_loop w (cw_clock w 0 + timeout) thaw (claim_start\<lparr>cl_tick := Suc 0\<rparr>) = Some r"
    by (rule claim_loop_returns [of N]) (rule assms)
  then show ?thesis by (auto simp: claim_resumable_slot_def claim_start_def)
qed

text \<open>A pool with two slots: the first cannot be thawed, the second can.\<close>

definition demo_exc :: claim_exc where
  "demo_exc = \<lparr>ce_names = [''AwsUnknownState'', ''AwsWorkerError''], ce_cause = None, ce_context = None\<rparr>"

definition demo_claim :: claim_world where
  "demo_claim =
     \<lparr>cw_clock = (\<lambda>n. real n),
      cw_claim = (\<lambda>evs wt. if owed evs (Some ''a'') = 0 \<and> evs = [] then SlotAnswer (Some ''a'')
                           else if owed evs (Some ''b'') = 0 then SlotAnswer (Some ''b'') else NoSlotAnswer),
      cw_resume = (\<lambda>evs sl. if sl = Some ''a'' then Some 0 else None),
      cw_can_resume = True, cw_can_unclaim = True, cw_excs = [demo_exc]\<rparr>"

lemma claim_returns_witness: "\<exists>r. claim_resumable_slot demo_claim 60 None = Some r"
  by (rule claim_returns [of 60]) (simp add: demo_claim_def)

text \<open>C32: no slot is lost and none is given back twice: when the pool hands out no slot that is out
already, every slot that was claimed has been unclaimed or given up as dead exactly as often, except
the one the call returns, which is still out exactly once, on every way the call can end (a slot,
no slot, no resumable slot, a pool that raises).\<close>

theorem claimed_slots_accounted:
  assumes "exclusive w" "cw_can_unclaim w" "claim_resumable_slot w timeout thaw = Some (res, s)"
  shows "owed (cl_events s) sl = (if res = Slot sl then 1 else 0)"
proof -
  obtain turn s0 where l: "claim_loop w (cw_clock w 0 + timeout) thaw (claim_start\<lparr>cl_tick := Suc 0\<rparr>) = Some (turn, s0)"
    and e: "claim_end w (turn, s0) = (res, s)" by (rule claim_resumable_cases [OF assms(3)])
  have "ledger (case turn of Got x \<Rightarrow> Some x | _ \<Rightarrow> None) s0 \<and> turn \<noteq> Again"
  proof (rule claim_loop_result [OF l, where I = "ledger None"])
    show "ledger None (claim_start\<lparr>cl_tick := Suc 0\<rparr>)" by (simp add: ledger_def claim_start_def)
    fix s1 turn1 s2 assume i: "ledger None s1" "claim_turn w (cw_clock w 0 + timeout) thaw s1 = (turn1, s2)"
    from claim_turn_ledger [OF assms(1,2) i]
    show "if turn1 = Again then ledger None s2 else ledger (case turn1 of Got x \<Rightarrow> Some x | _ \<Rightarrow> None) s2 \<and> turn1 \<noteq> Again"
      by auto
  qed
  then have "ledger (case turn of Got x \<Rightarrow> Some x | _ \<Rightarrow> None) (fold (give_held_back w) (cl_held s0) s0)"
    by (intro ledger_fold_release [OF assms(2)]) simp
  then have "ledger (case turn of Got x \<Rightarrow> Some x | _ \<Rightarrow> None) s" "cl_held s = []"
    using e fold_release_all [of w "cl_held s0" s0] by (auto simp: claim_end_def)
  then show ?thesis using e by (auto simp: ledger_def claim_end_def split: claim_turn.splits if_splits)
qed

lemma demo_exclusive: "exclusive demo_claim"
  by (auto simp: exclusive_def demo_claim_def split: if_splits)

lemma claimed_slots_accounted_witness:
  "\<exists>res s. claim_resumable_slot demo_claim 60 None = Some (res, s) \<and> owed (cl_events s) (Some ''a'') = (if res = Slot (Some ''a'') then 1 else 0)"
proof -
  have "\<exists>r. claim_loop demo_claim (cw_clock demo_claim 0 + 60) None (claim_start\<lparr>cl_tick := Suc 0\<rparr>) = Some r"
    by (rule claim_loop_returns [of 60]) (simp add: demo_claim_def)
  then obtain res s where r: "claim_resumable_slot demo_claim 60 None = Some (res, s)"
    by (auto simp: claim_resumable_slot_def claim_start_def) (metis surj_pair)
  have u: "cw_can_unclaim demo_claim" by (simp add: demo_claim_def)
  show ?thesis using claimed_slots_accounted [OF demo_exclusive u r, of "Some ''a''"] r by blast
qed

text \<open>the same slot is never thawed again at once: in every call, two attempts to thaw the same
slot are at least the cooldown apart on the clock.\<close>

theorem thaw_cooldown_kept:
  assumes "ticking w" "claim_resumable_slot w timeout thaw = Some (res, s)"
    and "cl_events s = pre @ Resumed (Some sid) t b ok # mid @ Resumed (Some sid) t' b' ok' # post"
  shows "t + RETRY_SLOT_COOLDOWN_S \<le> t'"
proof -
  obtain turn s0 where l: "claim_loop w (cw_clock w 0 + timeout) thaw (claim_start\<lparr>cl_tick := Suc 0\<rparr>) = Some (turn, s0)"
    and e: "claim_end w (turn, s0) = (res, s)" by (rule claim_resumable_cases [OF assms(2)])
  have "spaced s0"
  proof (rule claim_loop_result [OF l, where I = spaced])
    show "spaced (claim_start\<lparr>cl_tick := Suc 0\<rparr>)" by (simp add: spaced_def claim_start_def)
    fix s1 turn1 s2 assume "spaced s1" "claim_turn w (cw_clock w 0 + timeout) thaw s1 = (turn1, s2)"
    from claim_turn_spaced [OF assms(1) this] show "if turn1 = Again then spaced s2 else spaced s2" by simp
  qed
  then have "spaced s" using e spaced_fold_release by (auto simp: claim_end_def)
  then have "apart (Resumed (Some sid) t b ok) (Resumed (Some sid) t' b' ok')"
    using assms(3) by (auto simp: spaced_def sorted_wrt_append)
  then show ?thesis unfolding apart_def by blast
qed

text \<open>A pool with one slot that never thaws.\<close>

definition demo_frozen :: claim_world where
  "demo_frozen = demo_claim\<lparr>cw_claim := (\<lambda>evs wt. if owed evs (Some ''a'') = 0 then SlotAnswer (Some ''a'') else NoSlotAnswer)\<rparr>"


lemma demo_frozen_run:
  "map_option (\<lambda>(r, s). (r, cl_events s)) (claim_resumable_slot demo_frozen 14 None) = Some (NoWarmSlot,
     [Claimed (Some ''a''), Resumed (Some ''a'') 3 10 False, Unclaimed (Some ''a''), Claimed (Some ''a''), Unclaimed (Some ''a''),
      Claimed (Some ''a''), Resumed (Some ''a'') 11 2 False, Unclaimed (Some ''a'')])"
  by code_simp

lemma thaw_cooldown_kept_witness: "(3::real) + RETRY_SLOT_COOLDOWN_S \<le> 11"
proof -
  obtain s where s: "claim_resumable_slot demo_frozen 14 None = Some (NoWarmSlot, s)"
    "cl_events s = [Claimed (Some ''a'')] @ Resumed (Some ''a'') 3 10 False
       # [Unclaimed (Some ''a''), Claimed (Some ''a''), Unclaimed (Some ''a''), Claimed (Some ''a'')]
       @ Resumed (Some ''a'') 11 2 False # [Unclaimed (Some ''a'')]"
    using demo_frozen_run by auto
  have "ticking demo_frozen" by (simp add: ticking_def demo_frozen_def demo_claim_def monoI)
  then show ?thesis using s(2) by (rule thaw_cooldown_kept [OF _ s(1)])
qed

end
