(* ===== verification/Vm_Remote.thy ===== *)
theory Vm_Remote
  imports Dispatch_Warm Errors Vm_Claim
begin

text \<open>
  \<^verbatim>\<open>host/runtime/remote_http.py\<close>: one detonation on a remote worker.  \<open>detonate_remote\<close> sends the
  sample and reads the result, \<open>make_remote_validate\<close> claims a slot before and releases it after
  with the fault that the outcome is evidence of, and the closure \<open>output_trust\<close> of
  \<^verbatim>\<open>host/runtime/vm_dispatch.py\<close> judges the output in between.  The wire, the worker and the files
  answer from a record; exceptions that the predicates of \<^verbatim>\<open>errors.py\<close> look at are objects of a heap.
\<close>

section \<open>Answers\<close>

datatype rexc =
    RBusy
  | RProbeNotAttempted
  | RLacksEgress
  | RClaimLost bool
  | RTrustUnknown
  | RTrust
  | ROversize
  | ROther nat

datatype open_answer = Response | HttpAnswer nat | NotAttempted | OpenFailed nat
datatype wire_exc = Oversize | Raised nat
datatype meta_answer = NoMeta | MetaTooBig | MetaUnreadable nat | Meta json

record remote_seams =
  vr_params_bytes :: "nat option"
  vr_egress_asked :: bool
  vr_claim :: claim_result
  vr_base :: "nat option"
  vr_prepare :: "nat option"
  vr_up1 :: bool
  vr_clear :: "nat option"
  vr_open :: open_answer
  vr_refusal_body :: bool
  vr_body :: "wire_exc option"
  vr_up2 :: bool
  vr_extract :: "wire_exc option"
  vr_meta :: meta_answer
  vr_hash :: "nat option"
  vr_verdict :: verdict
  vr_escaped :: nat
  vr_up3 :: bool
  vr_write :: "nat option"
  vr_sealed :: "(nat + json) option"

text \<open>What \<open>validate\<close> tells the dispatcher: a summary and whether the job succeeded; that there was no
  slot to run it on; or an exception, by the name of its class.\<close>

datatype vm_answer = VReturned "json option" bool | VNoSlot | VRaised string

section \<open>The detonation\<close>

definition http_code :: "exc_heap \<Rightarrow> nat \<Rightarrow> int option" where
  "http_code h i = (case xat h i of Some x \<Rightarrow> (case x_class x of HttpError c \<Rightarrow> Some c | _ \<Rightarrow> None) | None \<Rightarrow> None)"

definition http_rejection :: "exc_heap \<Rightarrow> remote_seams \<Rightarrow> nat \<Rightarrow> rexc" where
  "http_rejection h s i =
     (if http_code h i = Some 409 then RBusy
      else if vr_egress_asked s \<and> http_code h i = Some 422 \<and> vr_refusal_body s then RLacksEgress
      else ROther i)"

definition wire_rexc :: "wire_exc \<Rightarrow> rexc" where
  "wire_rexc x = (case x of Oversize \<Rightarrow> ROversize | Raised i \<Rightarrow> ROther i)"

definition read_meta :: "remote_seams \<Rightarrow> rexc + json" where
  "read_meta s =
     (case vr_meta s of NoMeta \<Rightarrow> Inr (JObj []) | MetaTooBig \<Rightarrow> Inl ROversize | MetaUnreadable i \<Rightarrow> Inl (ROther i) | Meta m \<Rightarrow> Inr m)"

text \<open>The answer is read and unpacked under a claim that is asked for again.\<close>

definition take_output ::
  "(store_op \<Rightarrow> 's \<Rightarrow> outcome \<times> 's) \<Rightarrow> (string \<Rightarrow> 's \<Rightarrow> job option) \<Rightarrow> remote_seams \<Rightarrow> job \<Rightarrow> 's disp
     \<Rightarrow> (rexc + json) \<times> 's disp" where
  "take_output step get s j d =
     (case vr_body s of
        Some e \<Rightarrow> (Inl (wire_rexc e), d)
      | None \<Rightarrow>
          (case claim_is_still_ours step get (vr_up2 s) j d of (ours, d1) \<Rightarrow>
             if \<not> ours then (Inl (RClaimLost False), d1)
             else case vr_extract s of
               Some e \<Rightarrow> (Inl (wire_rexc e), d1)
             | None \<Rightarrow> (read_meta s, d1)))"

definition detonate_remote ::
  "(store_op \<Rightarrow> 's \<Rightarrow> outcome \<times> 's) \<Rightarrow> (string \<Rightarrow> 's \<Rightarrow> job option) \<Rightarrow> exc_heap \<Rightarrow> remote_seams \<Rightarrow> job \<Rightarrow> 's disp
     \<Rightarrow> (rexc + json) \<times> 's disp" where
  "detonate_remote step get h s j d =
     (case vr_prepare s of
        Some i \<Rightarrow> (Inl (ROther i), d)
      | None \<Rightarrow>
          (case claim_is_still_ours step get (vr_up1 s) j d of (ours, d1) \<Rightarrow>
             if \<not> ours then (Inl (RClaimLost False), d1)
             else case vr_clear s of
               Some i \<Rightarrow> (Inl (ROther i), d1)
             | None \<Rightarrow>
                 (case vr_open s of
                    NotAttempted \<Rightarrow> (Inl RProbeNotAttempted, d1)
                  | OpenFailed i \<Rightarrow> (Inl (ROther i), emit GoSent d1)
                  | HttpAnswer i \<Rightarrow> (Inl (http_rejection h s i), emit GoSent d1)
                  | Response \<Rightarrow> take_output step get s j (emit GoSent d1))))"

section \<open>The judgement\<close>

datatype trust_result = TrustDone | TrustEngineError | TrustRaised rexc

definition output_trust ::
  "(store_op \<Rightarrow> 's \<Rightarrow> outcome \<times> 's) \<Rightarrow> (string \<Rightarrow> 's \<Rightarrow> job option) \<Rightarrow> remote_seams \<Rightarrow> job \<Rightarrow> 's disp
     \<Rightarrow> trust_result \<times> 's disp" where
  "output_trust step get s j d =
     (case vr_hash s of
        Some i \<Rightarrow> (TrustRaised (ROther i), d)
      | None \<Rightarrow>
          (case vr_verdict s of
             Convicted \<Rightarrow> (TrustRaised RTrust, d)
           | Unknown \<Rightarrow> (TrustRaised RTrustUnknown, d)
           | Escaped \<Rightarrow> (TrustRaised (ROther (vr_escaped s)), d)
           | Trusted env \<Rightarrow>
               if e_status env = EnvEngineError then (TrustEngineError, d)
               else case claim_is_still_ours step get (vr_up3 s) j d of (ours, d1) \<Rightarrow>
                 if \<not> ours then (TrustRaised (RClaimLost True), d1)
                 else case vr_write s of
                   Some i \<Rightarrow> (TrustRaised (ROther i), d1)
                 | None \<Rightarrow> (TrustDone, emit Published d1)))"

section \<open>The outcome and the release\<close>

definition sanitized_failure :: "exc_heap \<Rightarrow> rexc \<Rightarrow> string" where
  "sanitized_failure h e =
     (case e of
        ROversize \<Rightarrow> ''remote output exceeded configured limits''
      | RLacksEgress \<Rightarrow> ''worker cannot provide network egress''
      | RTrust \<Rightarrow> ''remote output failed host trust validation''
      | ROther i \<Rightarrow>
          (case xat h i of
             None \<Rightarrow> ''remote job failed''
           | Some x \<Rightarrow>
               if x_class x = SslError then ''remote worker TLS error''
               else if is_oserror (x_class x) then ''remote worker transport error'' else ''remote job failed'')
      | _ \<Rightarrow> ''remote job failed'')"

definition failed_with :: "string \<Rightarrow> vm_answer" where
  "failed_with msg = VReturned (Some (JObj [(''error'', JStr msg)])) False"

text \<open>The handlers: the answer, whether the slot is dirty, and the fault named on its release.\<close>

type_synonym remote_out = "vm_answer \<times> bool \<times> string"

definition handle :: "exc_heap \<Rightarrow> rexc \<Rightarrow> remote_out" where
  "handle h e =
     (case e of
        RBusy \<Rightarrow> (VNoSlot, True, ''unknown'')
      | RProbeNotAttempted \<Rightarrow> (VNoSlot, False, ''unknown'')
      | RLacksEgress \<Rightarrow> (failed_with (sanitized_failure h e), False, ''job'')
      | RClaimLost validated \<Rightarrow> (VRaised ''ClaimLost'', True, if validated then ''job'' else ''unknown'')
      | RTrustUnknown \<Rightarrow> (failed_with (sanitized_failure h e), True, ''unknown'')
      | ROther i \<Rightarrow>
          (failed_with (sanitized_failure h e), True,
           if (case xat h i of None \<Rightarrow> False | Some x \<Rightarrow> is_oserror (x_class x)) \<and> \<not> is_transport_error h i then ''unknown''
           else if is_answered_http_rejection h i then ''job'' else ''worker'')
      | _ \<Rightarrow> (failed_with (sanitized_failure h e), True, ''worker''))"

definition remote_run ::
  "(store_op \<Rightarrow> 's \<Rightarrow> outcome \<times> 's) \<Rightarrow> (string \<Rightarrow> 's \<Rightarrow> job option) \<Rightarrow> exc_heap \<Rightarrow> remote_seams \<Rightarrow> job \<Rightarrow> 's disp
     \<Rightarrow> remote_out \<times> 's disp" where
  "remote_run step get h s j d =
     (case vr_base s of
        Some i \<Rightarrow> (handle h (ROther i), d)
      | None \<Rightarrow>
          (case detonate_remote step get h s j d of (r, d1) \<Rightarrow>
             (case r of
                Inl e \<Rightarrow> (handle h e, d1)
              | Inr meta \<Rightarrow>
                  if \<not> py_truthy meta then ((failed_with ''remote worker returned no metadata'', True, ''worker''), d1)
                  else case output_trust step get s j d1 of (t, d2) \<Rightarrow>
                    (case t of
                       TrustRaised e \<Rightarrow> (handle h e, d2)
                     | TrustEngineError \<Rightarrow> ((failed_with ''remote engine error'', False, ''unknown''), d2)
                     | TrustDone \<Rightarrow>
                         (case vr_sealed s of
                            None \<Rightarrow> ((VReturned (Some meta) True, False, ''unknown''), d2)
                          | Some (Inl i) \<Rightarrow> (handle h (ROther i), d2)
                          | Some (Inr m) \<Rightarrow> ((VReturned (Some m) True, False, ''unknown''), d2))))))"

definition params_too_large :: "remote_seams \<Rightarrow> bool" where
  "params_too_large s \<longleftrightarrow> (case vr_params_bytes s of None \<Rightarrow> False | Some n \<Rightarrow> 65536 < 19 + n + 2)"

definition remote_validate ::
  "(store_op \<Rightarrow> 's \<Rightarrow> outcome \<times> 's) \<Rightarrow> (string \<Rightarrow> 's \<Rightarrow> job option) \<Rightarrow> exc_heap \<Rightarrow> remote_seams \<Rightarrow> job \<Rightarrow> 's disp
     \<Rightarrow> vm_answer \<times> 's disp" where
  "remote_validate step get h s j d =
     (if params_too_large s then (failed_with ''remote job failed'', d)
      else case vr_claim s of
        Slot sl \<Rightarrow>
          (case remote_run step get h s j (emit (SlotClaimed True) d) of ((a, dirty, fault), d1) \<Rightarrow>
             (a, emit (SlotReleased dirty (Some fault) None) d1))
      | PoolRaised \<Rightarrow> (VRaised ''Exception'', emit (SlotClaimed False) d)
      | _ \<Rightarrow> (VNoSlot, emit (SlotClaimed False) d))"


section \<open>What a run does\<close>

text \<open>A look that finds the claim still ours, and the events of a run that reaches each stage.\<close>

definition ours_look :: "job \<Rightarrow> devent \<Rightarrow> bool" where
  "ours_look j e \<longleftrightarrow> (\<exists>cur. e = Looked (job_id j) (Some (Some cur)) \<and> status cur = RUNNING \<and> claim_id cur = claim_id j)"

lemma claim_look:
  assumes "claim_is_still_ours step get up j d = (ours, d')"
  shows "\<exists>r. dp_trace d' = dp_trace d @ [Looked (job_id j) r] \<and> (ours \<longleftrightarrow> ours_look j (Looked (job_id j) r))"
proof -
  obtain r d1 where l: "look step get up (job_id j) d = (r, d1)" by fastforce
  have "d' = d1" "ours \<longleftrightarrow> ours_look j (Looked (job_id j) r)"
    using assms l by (auto simp: claim_is_still_ours_def ours_look_def split: option.splits)
  then show ?thesis using look_trace [OF l] by blast
qed

lemma emit_trace [simp]: "dp_trace (emit e d) = dp_trace d @ [e]"
  by (simp add: emit_def)

text \<open>Nothing is released, launched or written to the store on the way.\<close>

definition looking :: "devent \<Rightarrow> bool" where
  "looking e \<longleftrightarrow> (\<exists>k r. e = Looked k r) \<or> e = GoSent \<or> e = Published"

lemma looking_simps [simp]:
  "looking (Looked k r)" "looking GoSent" "looking Published" "\<not> looking (SlotReleased x y z)" "\<not> looking (Wrote op out)"
  "\<not> looking (SlotClaimed b)"
  by (simp_all add: looking_def)

lemma claim_looking: "claim_is_still_ours step get up j d = (ours, d') \<Longrightarrow> grows looking d d'"
  using claim_look [of step get up j d ours d'] by (auto simp: grows_def)

lemma take_output_looking:
  assumes "take_output step get s j d = (r, d')"
  shows "grows looking d d'"
proof -
  obtain ours d1 where o: "claim_is_still_ours step get (vr_up2 s) j d = (ours, d1)" by fastforce
  show ?thesis using assms o claim_looking [OF o] by (auto simp: take_output_def split: option.splits if_splits)
qed

lemma detonate_looking:
  assumes "detonate_remote step get h s j d = (r, d')"
  shows "grows looking d d'"
proof -
  obtain ours d1 where o: "claim_is_still_ours step get (vr_up1 s) j d = (ours, d1)" by fastforce
  have g: "grows looking d (emit GoSent d1)" using claim_looking [OF o] by (rule grows_emit) simp
  obtain r2 d2 where t: "take_output step get s j (emit GoSent d1) = (r2, d2)" by fastforce
  have "grows looking d d2" by (rule grows_trans [OF g take_output_looking [OF t]])
  then show ?thesis using assms o t g claim_looking [OF o]
    by (auto simp: detonate_remote_def split: option.splits if_splits open_answer.splits)
qed

lemma output_trust_looking:
  assumes "output_trust step get s j d = (r, d')"
  shows "grows looking d d'"
proof -
  obtain ours d1 where o: "claim_is_still_ours step get (vr_up3 s) j d = (ours, d1)" by fastforce
  have g: "grows looking d d1" by (rule claim_looking [OF o])
  have p: "grows looking d (emit Published d1)" using g by (rule grows_emit) simp
  show ?thesis using assms o g p
    by (auto simp: output_trust_def split: option.splits if_splits verdict.splits)
qed

lemma remote_run_looking:
  assumes "remote_run step get h s j d = (out, d')"
  shows "grows looking d d'"
proof -
  obtain r d1 where de: "detonate_remote step get h s j d = (r, d1)" by fastforce
  have g: "grows looking d d1" by (rule detonate_looking [OF de])
  obtain t d2 where tr: "output_trust step get s j d1 = (t, d2)" by fastforce
  have g2: "grows looking d d2" by (rule grows_trans [OF g output_trust_looking [OF tr]])
  show ?thesis using assms de tr g g2
    by (auto simp: remote_run_def split: option.splits if_splits sum.splits trust_result.splits)
qed

text \<open>How a detonation and a judgement can succeed.\<close>

lemma detonate_answered:
  assumes "detonate_remote step get h s j d = (Inr meta, d')"
  shows "vr_open s = Response \<and> read_meta s = Inr meta
    \<and> (\<exists>l1 l2. dp_trace d' = dp_trace d @ [l1, GoSent, l2] \<and> ours_look j l1 \<and> ours_look j l2)"
proof -
  obtain ours d1 where o: "claim_is_still_ours step get (vr_up1 s) j d = (ours, d1)" by fastforce
  obtain ours2 d2 where o2: "claim_is_still_ours step get (vr_up2 s) j (emit GoSent d1) = (ours2, d2)" by fastforce
  have "ours \<and> ours2 \<and> vr_open s = Response \<and> read_meta s = Inr meta \<and> d' = d2"
    using assms o o2
    by (auto simp: detonate_remote_def take_output_def split: option.splits if_splits open_answer.splits)
  then show ?thesis using claim_look [OF o] claim_look [OF o2] by auto
qed

lemma output_trust_done:
  assumes "output_trust step get s j d = (TrustDone, d')"
  shows "\<exists>env l. vr_verdict s = Trusted env \<and> e_status env \<noteq> EnvEngineError \<and> ours_look j l
    \<and> dp_trace d' = dp_trace d @ [l, Published]"
proof -
  obtain ours d1 where o: "claim_is_still_ours step get (vr_up3 s) j d = (ours, d1)" by fastforce
  have "\<exists>env. ours \<and> vr_verdict s = Trusted env \<and> e_status env \<noteq> EnvEngineError \<and> d' = emit Published d1"
    using assms o by (auto simp: output_trust_def split: option.splits if_splits verdict.splits)
  then show ?thesis using claim_look [OF o] by auto
qed

lemma output_trust_engine:
  "output_trust step get s j d = (TrustEngineError, d') \<Longrightarrow> \<exists>env. vr_verdict s = Trusted env \<and> e_status env = EnvEngineError"
  by (auto simp: output_trust_def split: option.splits if_splits verdict.splits prod.splits)

definition outsized :: "remote_seams \<Rightarrow> bool" where
  "outsized s \<longleftrightarrow> vr_body s = Some Oversize \<or> vr_extract s = Some Oversize \<or> vr_meta s = MetaTooBig"

lemma detonate_trust: "detonate_remote step get h s j d = (Inl e, d') \<Longrightarrow> e \<noteq> RTrust \<and> (e = ROversize \<longrightarrow> outsized s)"
  by (auto simp: detonate_remote_def take_output_def read_meta_def http_rejection_def wire_rexc_def outsized_def
      split: option.splits if_splits open_answer.splits wire_exc.splits meta_answer.splits prod.splits)

lemma output_trust_raised:
  "output_trust step get s j d = (TrustRaised e, d') \<Longrightarrow>
   e \<noteq> RProbeNotAttempted \<and> e \<noteq> RLacksEgress \<and> e \<noteq> ROversize \<and> (e = RTrust \<longrightarrow> vr_verdict s = Convicted)"
  by (auto simp: output_trust_def split: option.splits if_splits verdict.splits prod.splits)

lemma detonate_refused:
  assumes "detonate_remote step get h s j d = (Inl e, d')"
  shows "e = RProbeNotAttempted \<Longrightarrow> vr_open s = NotAttempted \<and> (\<exists>l. dp_trace d' = dp_trace d @ [l] \<and> ours_look j l)"
    "e = RLacksEgress \<Longrightarrow> \<exists>i. vr_open s = HttpAnswer i \<and> http_code h i = Some 422 \<and> vr_egress_asked s \<and> vr_refusal_body s"
proof -
  obtain ours d1 where o: "claim_is_still_ours step get (vr_up1 s) j d = (ours, d1)" by fastforce
  obtain ours2 d2 where o2: "claim_is_still_ours step get (vr_up2 s) j (emit GoSent d1) = (ours2, d2)" by fastforce
  have "e = RProbeNotAttempted \<Longrightarrow> vr_open s = NotAttempted \<and> ours \<and> d' = d1"
    using assms o o2 by (auto simp: detonate_remote_def take_output_def read_meta_def http_rejection_def wire_rexc_def
        split: option.splits if_splits open_answer.splits wire_exc.splits meta_answer.splits)
  then show "e = RProbeNotAttempted \<Longrightarrow> vr_open s = NotAttempted \<and> (\<exists>l. dp_trace d' = dp_trace d @ [l] \<and> ours_look j l)"
    using claim_look [OF o] by auto
  show "e = RLacksEgress \<Longrightarrow> \<exists>i. vr_open s = HttpAnswer i \<and> http_code h i = Some 422 \<and> vr_egress_asked s \<and> vr_refusal_body s"
    using assms o o2 by (auto simp: detonate_remote_def take_output_def read_meta_def http_rejection_def wire_rexc_def
        split: option.splits if_splits open_answer.splits wire_exc.splits meta_answer.splits)
qed

text \<open>The stages of a run, once and for all.\<close>

lemma remote_run_cases:
  assumes "remote_run step get h s j d = ((a, dirty, fault), d')"
  obtains (raised) e where "handle h e = (a, dirty, fault)"
        "e \<in> {RProbeNotAttempted, RLacksEgress} \<longrightarrow> detonate_remote step get h s j d = (Inl e, d')"
        "e = RTrust \<longrightarrow> vr_verdict s = Convicted" "e = ROversize \<longrightarrow> outsized s"
    | (no_meta) d1 meta where "detonate_remote step get h s j d = (Inr meta, d1)" "\<not> py_truthy meta" "dirty" "fault = ''worker''"
        "a = failed_with ''remote worker returned no metadata''"
    | (engine) env where "vr_verdict s = Trusted env" "e_status env = EnvEngineError" "a = failed_with ''remote engine error''"
        "\<not> dirty" "fault = ''unknown''"
    | (done') d1 meta m where "detonate_remote step get h s j d = (Inr meta, d1)" "output_trust step get s j d1 = (TrustDone, d')"
        "a = VReturned (Some m) True" "\<not> dirty" "fault = ''unknown''"
proof (cases "vr_base s")
  case (Some i)
  then show ?thesis using assms by (intro raised [of "ROther i"]) (simp_all add: remote_run_def)
next
  case None
  obtain r d1 where de: "detonate_remote step get h s j d = (r, d1)" by fastforce
  show ?thesis
  proof (cases r)
    case (Inl e)
    then show ?thesis using assms None de by (intro raised [of e]) (auto simp: remote_run_def dest: detonate_trust)
  next
    case (Inr meta)
    show ?thesis
    proof (cases "py_truthy meta")
      case False
      then show ?thesis using assms None de Inr by (intro no_meta [of meta d1]) (simp_all add: remote_run_def)
    next
      case True
      obtain t d2 where tr: "output_trust step get s j d1 = (t, d2)" by fastforce
      show ?thesis
      proof (cases t)
        case (TrustRaised e)
        then show ?thesis using assms None de Inr True tr by (intro raised [of e]) (auto simp: remote_run_def dest: output_trust_raised)
      next
        case TrustEngineError
        obtain env where "vr_verdict s = Trusted env" "e_status env = EnvEngineError"
          using output_trust_engine tr TrustEngineError by blast
        then show ?thesis using assms None de Inr True tr TrustEngineError
          by (intro engine [of env]) (simp_all add: remote_run_def)
      next
        case TrustDone
        then have eq: "((a, dirty, fault), d') = (case vr_sealed s of
            None \<Rightarrow> ((VReturned (Some meta) True, False, ''unknown''), d2)
          | Some (Inl i) \<Rightarrow> (handle h (ROther i), d2)
          | Some (Inr m) \<Rightarrow> ((VReturned (Some m) True, False, ''unknown''), d2))"
          using assms None de Inr True tr by (simp add: remote_run_def)
        have td: "output_trust step get s j d1 = (TrustDone, d2)" using tr TrustDone by simp
        have dd: "detonate_remote step get h s j d = (Inr meta, d1)" using de Inr by simp
        show ?thesis
        proof (cases "vr_sealed s")
          case None
          then show ?thesis using eq td dd by (intro done' [of meta d1 meta]) simp_all
        next
          case (Some x)
          then show ?thesis
          proof (cases x)
            case (Inl i)
            then show ?thesis using eq Some by (intro raised [of "ROther i"]) simp_all
          next
            case (Inr m)
            then show ?thesis using eq Some td dd by (intro done' [of meta d1 m]) simp_all
          qed
        qed
      qed
    qed
  qed
qed

lemma handle_not_ok: "handle h e \<noteq> (VReturned m True, dirty, fault)"
  by (cases e) (auto simp: handle_def failed_with_def)

lemma handle_clean: "handle h e = (a, False, fault) \<Longrightarrow> e = RProbeNotAttempted \<or> e = RLacksEgress"
  by (cases e) (auto simp: handle_def failed_with_def)

lemma handle_worker:
  "handle h e = (a, dirty, ''worker'') \<Longrightarrow> dirty \<and> (e = RTrust \<or> e = ROversize
     \<or> (\<exists>i. e = ROther i \<and> \<not> is_answered_http_rejection h i
          \<and> (is_transport_error h i \<or> \<not> (\<exists>x. xat h i = Some x \<and> is_oserror (x_class x)))))"
  by (cases e) (auto simp: handle_def failed_with_def split: if_splits option.splits)


section \<open>Properties\<close>

text \<open>A run in which everything answers, and what changes in it.\<close>

definition demo_remote :: remote_seams where
  "demo_remote =
     \<lparr>vr_params_bytes = None, vr_egress_asked = True, vr_claim = Slot (Some ''a''), vr_base = None, vr_prepare = None,
      vr_up1 = True, vr_clear = None, vr_open = Response, vr_refusal_body = False, vr_body = None, vr_up2 = True,
      vr_extract = None, vr_meta = Meta (JObj [(''status'', JStr ''ok'')]), vr_hash = None, vr_verdict = Trusted demo_sealed,
      vr_escaped = 0, vr_up3 = True, vr_write = None, vr_sealed = None\<rparr>"

abbreviation demo_remote_disp :: "mem_store disp" where
  "demo_remote_disp \<equiv> demo_disp (mem_create (demo_run_job ''t1'') mem_empty)"

lemmas remote_defs = remote_run_def detonate_remote_def take_output_def output_trust_def read_meta_def
  handle_def http_rejection_def wire_rexc_def params_too_large_def

lemma remote_success_trusted:
  assumes "remote_validate step get h s j d = (VReturned m True, d')"
  shows "\<exists>env l1 l2 l3. vr_verdict s = Trusted env \<and> e_status env \<noteq> EnvEngineError
    \<and> ours_look j l1 \<and> ours_look j l2 \<and> ours_look j l3
    \<and> dp_trace d' = dp_trace d @ [SlotClaimed True, l1, GoSent, l2, l3, Published, SlotReleased False (Some ''unknown'') None]"
proof -
  have "\<exists>sl. vr_claim s = Slot sl \<and> \<not> params_too_large s"
    using assms by (auto simp: remote_validate_def failed_with_def split: if_splits claim_result.splits)
  then obtain dirty fault d1 where r: "remote_run step get h s j (emit (SlotClaimed True) d) = ((VReturned m True, dirty, fault), d1)"
    "d' = emit (SlotReleased dirty (Some fault) None) d1"
    using assms by (auto simp: remote_validate_def split: prod.splits)
  from r(1) show ?thesis
  proof (cases rule: remote_run_cases)
    case (done' d2 meta m')
    then show ?thesis using detonate_answered [OF done'(1)] output_trust_done [OF done'(2)] r(2) by auto
  qed (auto simp: handle_not_ok failed_with_def)
qed

text \<open>a remote job succeeds only on output the host itself trusted: whenever \<open>validate\<close> reports
success, the slot was claimed, the claim on the job was confirmed before the sample was sent, again
before the answer was unpacked, and a third time after the host's own validation of the output came
back trusted and not an engine error, right before the host wrote the metadata; and the slot then went
back clean, once.\<close>

theorem remote_success_is_trusted:
  assumes "remote_validate step get h s j d = (VReturned m True, d')"
  shows "\<exists>env l1 l2 l3. vr_verdict s = Trusted env \<and> e_status env \<noteq> EnvEngineError
    \<and> ours_look j l1 \<and> ours_look j l2 \<and> ours_look j l3
    \<and> dp_trace d' = dp_trace d @ [SlotClaimed True, l1, GoSent, l2, l3, Published, SlotReleased False (Some ''unknown'') None]"
  by (rule remote_success_trusted [OF assms])

lemma remote_success_is_trusted_witness:
  "\<exists>m d' env. remote_validate mem_step mem_get [] demo_remote (demo_run_job ''t1'') demo_remote_disp = (VReturned m True, d')
     \<and> vr_verdict demo_remote = Trusted env \<and> length (dp_trace d') = 7"
proof -
  obtain m d' where r: "remote_validate mem_step mem_get [] demo_remote (demo_run_job ''t1'') demo_remote_disp = (VReturned m True, d')"
    by (simp add: remote_validate_def remote_defs demo_remote_def disp_defs demo_store_defs demo_disp_def demo_sealed_def demo_parsed_def)
  have "dp_trace demo_remote_disp = []" by (simp add: demo_disp_def)
  with remote_success_is_trusted [OF r] r show ?thesis by auto
qed

text \<open>a slot goes back to the pool as clean only when nothing unvouched ran on it: the host
trusted its output (a result, or an engine error that validated), the request never reached the
worker, or the agent refused the job for want of egress before running anything; in every other case,
errors included, it goes back dirty.\<close>

theorem clean_release_earned:
  assumes "remote_run step get h s j d = ((a, False, fault), d')"
  shows "(\<exists>env. vr_verdict s = Trusted env)
    \<or> (vr_open s = NotAttempted \<and> GoSent \<notin> set (drop (length (dp_trace d)) (dp_trace d')))
    \<or> (\<exists>i. vr_open s = HttpAnswer i \<and> http_code h i = Some 422 \<and> vr_egress_asked s \<and> vr_refusal_body s)"
  using assms
proof (cases rule: remote_run_cases)
  case (raised e)
  then have e: "e = RProbeNotAttempted \<or> e = RLacksEgress" using handle_clean by blast
  then have de: "detonate_remote step get h s j d = (Inl e, d')" using raised(2) by blast
  from e show ?thesis
  proof
    assume "e = RProbeNotAttempted"
    then show ?thesis using detonate_refused(1) [OF de] by (auto simp: ours_look_def)
  next
    assume "e = RLacksEgress"
    then show ?thesis using detonate_refused(2) [OF de] by blast
  qed
next
  case (done' d1 meta m)
  then show ?thesis using output_trust_done by blast
qed auto

lemma clean_release_earned_witness:
  "\<exists>fault a d'. remote_run mem_step mem_get [] (demo_remote\<lparr>vr_open := NotAttempted, vr_verdict := Unknown\<rparr>)
       (demo_run_job ''t1'') demo_remote_disp = ((a, False, fault), d') \<and> GoSent \<notin> set (dp_trace d')"
proof -
  obtain a fault d' where r: "remote_run mem_step mem_get [] (demo_remote\<lparr>vr_open := NotAttempted, vr_verdict := Unknown\<rparr>)
       (demo_run_job ''t1'') demo_remote_disp = ((a, False, fault), d')"
    by (simp add: remote_defs demo_remote_def disp_defs demo_store_defs demo_disp_def)
  have "dp_trace demo_remote_disp = []" by (simp add: demo_disp_def)
  with clean_release_earned [OF r] r show ?thesis by (auto simp: demo_remote_def)
qed

text \<open>The exceptions that something in a run raises, on this host or on the way to the worker.\<close>

definition raised_by :: "remote_seams \<Rightarrow> nat set" where
  "raised_by s = {i. Some i \<in> {vr_base s, vr_prepare s, vr_clear s, vr_hash s, vr_write s}
     \<or> vr_open s \<in> {OpenFailed i, HttpAnswer i} \<or> Some (Raised i) \<in> {vr_body s, vr_extract s}
     \<or> vr_meta s = MetaUnreadable i \<or> vr_verdict s = Escaped \<and> vr_escaped s = i \<or> vr_sealed s = Some (Inl i)}"

lemma detonate_blame:
  assumes "detonate_remote step get h s j d = (Inl e, d')"
  shows "(e = ROversize \<longrightarrow> outsized s \<and> (\<exists>es. dp_trace d' = dp_trace d @ es \<and> GoSent \<in> set es))
    \<and> (\<forall>i. e = ROther i \<longrightarrow> i \<in> raised_by s)"
proof -
  obtain ours d1 where o: "claim_is_still_ours step get (vr_up1 s) j d = (ours, d1)" by fastforce
  obtain ours2 d2 where o2: "claim_is_still_ours step get (vr_up2 s) j (emit GoSent d1) = (ours2, d2)" by fastforce
  have o': "e = ROversize \<longrightarrow> outsized s \<and> (d' = emit GoSent d1 \<or> d' = d2)"
    using assms o o2 by (auto simp: detonate_remote_def take_output_def read_meta_def http_rejection_def wire_rexc_def outsized_def
        split: option.splits if_splits open_answer.splits wire_exc.splits meta_answer.splits)
  have i: "\<forall>i. e = ROther i \<longrightarrow> i \<in> raised_by s"
    using assms o o2 by (auto simp: detonate_remote_def take_output_def read_meta_def http_rejection_def wire_rexc_def raised_by_def
        split: option.splits if_splits open_answer.splits wire_exc.splits meta_answer.splits)
  have "\<exists>es. dp_trace x = dp_trace d @ es \<and> GoSent \<in> set es" if "x = emit GoSent d1 \<or> x = d2" for x
    using that claim_look [OF o] claim_look [OF o2] by auto
  then show ?thesis using o' i by blast
qed

lemma output_trust_blame:
  "output_trust step get s j d = (TrustRaised e, d') \<Longrightarrow>
     e \<noteq> ROversize \<and> (e = RTrust \<longrightarrow> vr_verdict s = Convicted) \<and> (\<forall>i. e = ROther i \<longrightarrow> i \<in> raised_by s)"
  by (auto simp: output_trust_def raised_by_def split: option.splits if_splits verdict.splits prod.splits)

text \<open>
  C33: a worker is blamed only on evidence against it, never for an operating-system error of this host.
  A release names the fault \<open>worker\<close> only when the sample had been sent and the worker's metadata was
  empty, its output failed the host's validation or a size limit; or when something in the run raised an
  exception that is not an answered rejection of the request and is a transport error or no
  operating-system error at all.  So a lost claim, a busy worker, a probe that was never sent, a validation
  that could not be finished, an engine error and an error of this host's files never blame it; and a slot
  whose worker is blamed is always dirty.
\<close>

theorem worker_blamed_on_evidence:
  assumes "remote_run step get h s j d = ((a, dirty, ''worker''), d')"
  shows "dirty \<and> (\<exists>es. dp_trace d' = dp_trace d @ es
    \<and> (GoSent \<in> set es \<and> ((\<exists>meta. read_meta s = Inr meta \<and> \<not> py_truthy meta) \<or> vr_verdict s = Convicted \<or> outsized s)
      \<or> (\<exists>i \<in> raised_by s. \<not> is_answered_http_rejection h i
          \<and> (is_transport_error h i \<or> \<not> (\<exists>x. xat h i = Some x \<and> is_oserror (x_class x))))))"
proof -
  obtain es where es: "dp_trace d' = dp_trace d @ es" using remote_run_looking [OF assms] by (auto simp: grows_def)
  have h: "dirty \<and> (e = RTrust \<or> e = ROversize \<or> (\<exists>i. e = ROther i \<and> \<not> is_answered_http_rejection h i
          \<and> (is_transport_error h i \<or> \<not> (\<exists>x. xat h i = Some x \<and> is_oserror (x_class x)))))"
    if "handle h e = (a, dirty, ''worker'')" for e by (rule handle_worker [OF that])
  show ?thesis
  proof (cases "vr_base s")
    case (Some i)
    then have "handle h (ROther i) = (a, dirty, ''worker'')" "i \<in> raised_by s" using assms by (auto simp: remote_run_def raised_by_def)
    then show ?thesis using h es by blast
  next
    case None
    obtain r d1 where de: "detonate_remote step get h s j d = (r, d1)" by fastforce
    show ?thesis
    proof (cases r)
      case (Inl e)
      then have e: "handle h e = (a, dirty, ''worker'')" "d' = d1" using assms None de by (auto simp: remote_run_def)
      note b = detonate_blame [OF de [unfolded Inl]] and t = detonate_trust [OF de [unfolded Inl]]
      show ?thesis using h [OF e(1)] b t es unfolding e(2) by fastforce
    next
      case (Inr meta)
      note an = detonate_answered [OF de [unfolded Inr]]
      obtain r2 d2 where tr: "output_trust step get s j d1 = (r2, d2)" by fastforce
      have sent: "GoSent \<in> set es"
      proof -
        obtain l1 l2 where l: "dp_trace d1 = dp_trace d @ [l1, GoSent, l2]" using an by blast
        have "d' = d1 \<or> d' = d2" using assms None de Inr tr
          by (auto simp: remote_run_def split: if_splits trust_result.splits option.splits sum.splits)
        moreover obtain fs where "dp_trace d2 = dp_trace d1 @ fs" using output_trust_looking [OF tr] by (auto simp: grows_def)
        ultimately show ?thesis using es l by auto
      qed
      show ?thesis
      proof (cases "py_truthy meta")
        case False
        then have "dirty" using assms None de Inr by (simp add: remote_run_def)
        then show ?thesis using es sent an False by blast
      next
        case True
        have "\<exists>e. handle h e = (a, dirty, ''worker'') \<and> e \<noteq> ROversize \<and> (e = RTrust \<longrightarrow> vr_verdict s = Convicted) \<and> (\<forall>i. e = ROther i \<longrightarrow> i \<in> raised_by s)"
        proof (cases r2)
          case TrustDone
          then obtain i where "vr_sealed s = Some (Inl i)" "handle h (ROther i) = (a, dirty, ''worker'')"
            using assms None de Inr tr True by (auto simp: remote_run_def split: option.splits sum.splits)
          then show ?thesis by (intro exI [of _ "ROther i"]) (simp add: raised_by_def)
        next
          case TrustEngineError
          then show ?thesis using assms None de Inr tr True by (simp add: remote_run_def)
        next
          case (TrustRaised e)
          then show ?thesis using assms None de Inr tr True output_trust_blame [OF tr [unfolded TrustRaised]]
            by (auto simp: remote_run_def)
        qed
        then show ?thesis using h es sent by blast
      qed
    qed
  qed
qed

definition demo_refused :: exc_obj where
  "demo_refused = \<lparr>x_class = ConnError, x_errno = None, x_reason = None, x_cause = None, x_context = None\<rparr>"

lemma worker_blamed_on_evidence_witness:
  "\<exists>a d'. remote_run mem_step mem_get [demo_refused] (demo_remote\<lparr>vr_open := OpenFailed 0\<rparr>) (demo_run_job ''t1'') demo_remote_disp
       = ((a, True, ''worker''), d') \<and> (\<exists>i \<in> raised_by (demo_remote\<lparr>vr_open := OpenFailed 0\<rparr>). \<not> is_answered_http_rejection [demo_refused] i)"
proof -
  let ?s = "demo_remote\<lparr>vr_open := OpenFailed 0\<rparr>"
  obtain a d' where r: "remote_run mem_step mem_get [demo_refused] ?s (demo_run_job ''t1'') demo_remote_disp = ((a, True, ''worker''), d')"
    by (simp add: remote_defs demo_remote_def disp_defs demo_store_defs demo_disp_def demo_refused_def
        is_answered_http_rejection_def is_transport_error_def is_local_resource_error_def xat_def unwrap_ref_def eval_nat_numeral errno_in_def)
  have "vr_verdict ?s \<noteq> Convicted" "\<not> outsized ?s" by (simp_all add: demo_remote_def outsized_def)
  moreover have "\<not> (\<exists>meta. read_meta ?s = Inr meta \<and> \<not> py_truthy meta)" by (simp add: demo_remote_def read_meta_def)
  ultimately show ?thesis using worker_blamed_on_evidence [OF r] r by blast
qed

text \<open>An exception of this host that is no operating-system error, such as the one for a slot without an
  address, is charged to the worker although nothing was sent.\<close>

lemma local_error_charged:
  assumes "vr_base s = Some i" "xat h i = Some x" "\<not> is_oserror (x_class x)" "\<not> is_answered_http_rejection h i"
  shows "remote_run step get h s j d = ((failed_with (sanitized_failure h (ROther i)), True, ''worker''), d)"
  using assms by (simp add: remote_run_def handle_def)

text \<open>a slot that was claimed is released exactly once, after everything else the run does with
it, and when no slot was claimed nothing is released.\<close>

theorem remote_slot_released_once:
  assumes "remote_validate step get h s j d = (a, d')"
  shows "\<exists>es. dp_trace d' = dp_trace d @ es \<and>
    (if (\<exists>sl. vr_claim s = Slot sl) \<and> \<not> params_too_large s
     then \<exists>mid dirty fault. es = SlotClaimed True # mid @ [SlotReleased dirty (Some fault) None]
            \<and> list_all (\<lambda>e. \<not> is_release e \<and> (\<forall>b. e \<noteq> SlotClaimed b)) mid
     else list_all (\<lambda>e. \<not> is_release e \<and> e \<noteq> SlotClaimed True \<and> e \<noteq> GoSent) es)"
proof (cases "(\<exists>sl. vr_claim s = Slot sl) \<and> \<not> params_too_large s")
  case True
  obtain out dirty fault d1 where r: "remote_run step get h s j (emit (SlotClaimed True) d) = ((out, dirty, fault), d1)"
    by (metis surj_pair)
  have d': "d' = emit (SlotReleased dirty (Some fault) None) d1"
    using assms True r by (auto simp: remote_validate_def)
  obtain mid where mid: "dp_trace d1 = dp_trace d @ SlotClaimed True # mid" "list_all looking mid"
    using remote_run_looking [OF r] by (auto simp: grows_def)
  have "list_all (\<lambda>e. \<not> is_release e \<and> (\<forall>b. e \<noteq> SlotClaimed b)) mid"
    using mid(2) by (auto simp: list_all_iff looking_def)
  then show ?thesis unfolding if_P [OF True]
    using mid(1) d' by (intro exI [of _ "SlotClaimed True # mid @ [SlotReleased dirty (Some fault) None]"]) auto
next
  case False
  have "d' = d \<or> d' = emit (SlotClaimed False) d"
    using assms False by (auto simp: remote_validate_def split: if_splits claim_result.splits)
  then show ?thesis unfolding if_not_P [OF False]
    by (elim disjE) (auto intro: exI [of _ "[]"] exI [of _ "[SlotClaimed False]"])
qed


lemma remote_slot_released_once_witness:
  "\<exists>a d'. remote_validate mem_step mem_get [] (demo_remote\<lparr>vr_up1 := False\<rparr>) (demo_run_job ''t1'') demo_remote_disp = (a, d')
     \<and> (\<exists>mid dirty fault. dp_trace d' = SlotClaimed True # mid @ [SlotReleased dirty (Some fault) None])"
proof -
  obtain a d' where r: "remote_validate mem_step mem_get [] (demo_remote\<lparr>vr_up1 := False\<rparr>) (demo_run_job ''t1'') demo_remote_disp = (a, d')"
    by fastforce
  have "dp_trace demo_remote_disp = []" by (simp add: demo_disp_def)
  with remote_slot_released_once [OF r] r show ?thesis by (auto simp: demo_remote_def params_too_large_def)
qed

end
