(* ===== verification/Vm_Dispatch.thy ===== *)
theory Vm_Dispatch
  imports Vm_Remote Net_Policy
begin

text \<open>
  \<^verbatim>\<open>host/runtime/vm_dispatch.py\<close>, \<open>VmJobDispatcher\<close>: what happens to one claimed job on a remote or
  VM tier: the node's grants, the fixed network policy of the tier, the sample, the validation under
  heartbeats, the trust gate, the metadata, the upload, the terminal write and the \<^verbatim>\<open>finally\<close>.
  The store and the trace are those of \<open>Dispatch_Steps\<close>; \<open>bo_n\<close> of \<open>dp_grants\<close> are the counters
  \<open>_grants_defer_n\<close>.  \<open>validate\<close> is an argument, a function on the state; \<open>Vm_Remote\<close> has the one of
  the remote tier.  A validation that outlives the watchdog runs on in its thread; only the
  exception is modelled then.
\<close>

section \<open>Configuration and answers\<close>

record vm_cfg =
  vc_tier :: string
  vc_engine :: "string option"
  vc_retention :: real
  vc_fixed :: "string option"
  vc_engine_policy :: "string option"
  vc_env :: "(string \<times> string) list"
  vc_blob_backoff :: real
  vc_trust_metadata :: bool
  vc_max_summary :: nat

text \<open>The sample in the spool: there; not there and not addressable; fetched; not fetched; or fetching
  raised something else.\<close>

datatype vm_sample = VPresent | VNoHash | VFetched | VFetchFailed | VFetchRaised string

record vm_seams =
  vm_world :: sg_world
  vm_now :: real
  vm_sample :: vm_sample
  vm_beats :: "real list"
  vm_timed_out :: bool
  vm_bytes :: "json \<Rightarrow> nat option"
  vm_sealed_env :: "envelope option"
  vm_summary_of :: "envelope \<Rightarrow> json"
  vm_output_check :: "string option"
  vm_up_publish :: bool
  vm_metadata :: bool
  vm_up_upload :: bool
  vm_sealed :: bool
  vm_stored :: bool
  vm_up_reap :: bool
  vm_done_at :: real
  vm_raised_at :: real

section \<open>The personality\<close>

definition env_lookup :: "(string \<times> string) list \<Rightarrow> string \<Rightarrow> string option" where
  "env_lookup env k = map_of env k"

text \<open>\<open>engine.upper().replace("-", "_")\<close> on ASCII.\<close>

definition upper_char :: "char \<Rightarrow> char" where
  "upper_char c = (let n = (of_char c :: nat) in if 97 \<le> n \<and> n \<le> 122 then char_of (n - 32) else c)"

definition engine_var :: "string \<Rightarrow> string" where
  "engine_var e = ''BLASTBOX_ENGINE_'' @ map (\<lambda>c. if c = CHR ''-'' then CHR ''_'' else upper_char c) e @ ''_NETPOLICY''"

definition engine_default_policy :: "vm_cfg \<Rightarrow> string \<Rightarrow> string" where
  "engine_default_policy c e =
     (case vc_engine_policy c of
        Some p \<Rightarrow> p
      | None \<Rightarrow>
          if e = [] then ''none''
          else case env_lookup (vc_env c) (engine_var e) of
            None \<Rightarrow> ''none''
          | Some raw \<Rightarrow> if py_strip raw = [] then ''none'' else py_lower (py_strip raw))"

definition or_str :: "string option \<Rightarrow> string \<Rightarrow> string" where
  "or_str x y = (case x of None \<Rightarrow> y | Some s \<Rightarrow> if s = [] then y else s)"

definition effective_policy :: "vm_cfg \<Rightarrow> job \<Rightarrow> string" where
  "effective_policy c j = py_lower (py_strip (or_str (net_policy j) (or_str (Some (engine_default_policy c (engine j))) ''none'')))"

text \<open>\<open>_effective_personality\<close>, by its \<open>exit_driver\<close>; \<^const>\<open>None\<close> stands for the marker of a tier
  that declares no policy.\<close>

definition effective_exit :: "vm_cfg \<Rightarrow> bool \<Rightarrow> job \<Rightarrow> string option" where
  "effective_exit c assume_sealed j =
     (case vc_fixed c of
        None \<Rightarrow> if assume_sealed then Some ''none'' else None
      | Some fixed \<Rightarrow>
          let fx = py_lower (py_strip fixed);
              name = (if fx = [] then effective_policy c j else fx);
              p = resolve_net_policy (Some name) ''none'' (parse_personalities (vc_env c)) True
          in if name \<notin> {''none'', ''drop'', ''''} \<and> pn_name p \<noteq> name then Some (py_lower (py_strip name))
             else Some (pn_exit p))"

text \<open>The gate: the reason to hand the job back, if any.\<close>

datatype vm_refusal = Refused refusal_reason | Undeclared

definition vm_gate :: "vm_cfg \<Rightarrow> sg_world \<Rightarrow> job \<Rightarrow> self_grants \<Rightarrow> vm_refusal option \<times> self_grants" where
  "vm_gate c w j sg =
     (case effective_exit c False j of
        Some d \<Rightarrow> (case refuse w (engine j) (Some d) sg of (why, sg1) \<Rightarrow> (map_option Refused why, sg1))
      | None \<Rightarrow>
          (case self_grants_of w sg of (answer, sg1) \<Rightarrow>
             if answer = NoGate
             then (case refuse w (engine j) (effective_exit c True j) sg1 of (why, sg2) \<Rightarrow> (map_option Refused why, sg2))
             else (Some Undeclared, sg1)))"

text \<open>The counters of refused jobs; the least refused go first when there are too many.\<close>

definition evict_counter :: "string \<Rightarrow> string \<times> nat \<Rightarrow> (string \<times> nat) list \<Rightarrow> (string \<times> nat) list" where
  "evict_counter own kv m = (if fst kv = own then m else AList.delete (fst kv) m)"

definition count_refusal :: "string \<Rightarrow> (string \<times> nat) list \<Rightarrow> nat \<times> (string \<times> nat) list" where
  "count_refusal own m =
     (let n = bo_get m own + 1; m1 = AList.update own n m
      in (n, if 4096 < length m1 then fold (evict_counter own) (take 1024 (sort_key snd m1)) m1 else m1))"

definition refusal_delay :: "nat \<Rightarrow> real" where
  "refusal_delay n = min 300 (2 * 2 ^ min (n - 1) 8)"

section \<open>Steps of a run\<close>

definition vm_requeue ::
  "(store_op \<Rightarrow> 's \<Rightarrow> outcome \<times> 's) \<Rightarrow> job \<Rightarrow> field_upd list \<Rightarrow> 's disp \<Rightarrow> 's disp" where
  "vm_requeue step j fs d = snd (cas step j (FStatus QUEUED # FClaimId None # fs) d)"

definition vm_fail ::
  "(store_op \<Rightarrow> 's \<Rightarrow> outcome \<times> 's) \<Rightarrow> vm_cfg \<Rightarrow> job \<Rightarrow> real \<Rightarrow> string \<Rightarrow> field_upd list \<Rightarrow> 's disp \<Rightarrow> bool \<times> 's disp" where
  "vm_fail step c j now err extra d =
     cas step j ([FStatus FAILED, FFinishedAt (Some now), FError (Some err), FExpiresAt (expires_after (vc_retention c) now)] @ extra) d"

definition refuse_vm_job ::
  "(store_op \<Rightarrow> 's \<Rightarrow> outcome \<times> 's) \<Rightarrow> vm_seams \<Rightarrow> job \<Rightarrow> 's disp \<Rightarrow> 's disp" where
  "refuse_vm_job step s j d =
     (case count_refusal (job_id j) (bo_n (dp_grants d)) of
        (n, m) \<Rightarrow>
          vm_requeue step j [FStartedAt None, FClaimableAfter (Some (vm_now s + refusal_delay n))]
            (d\<lparr>dp_grants := (dp_grants d)\<lparr>bo_n := m\<rparr>\<rparr>))"

text \<open>\<open>_bounded_summary\<close>; \<open>vm_bytes\<close> is the length of \<open>json.dumps\<close>, \<^const>\<open>None\<close> if it raises.\<close>

definition bounded_summary :: "vm_cfg \<Rightarrow> (json \<Rightarrow> nat option) \<Rightarrow> json option \<Rightarrow> json option" where
  "bounded_summary c bytes s =
     (case s of
        None \<Rightarrow> None
      | Some x \<Rightarrow>
          (case bytes x of
             None \<Rightarrow> Some (JObj [(''error'', JStr ''unserializable_summary'')])
           | Some n \<Rightarrow>
               if max 1024 (vc_max_summary c) < n
               then Some (JObj [(''error'', JStr ''summary_too_large''), (''summary_bytes'', JInt (int n))])
               else Some x))"

definition summary_json :: "json option \<Rightarrow> json" where
  "summary_json s = (case s of None \<Rightarrow> JNull | Some x \<Rightarrow> x)"

definition summary_error :: "json option \<Rightarrow> string option" where
  "summary_error s = (case s of Some (JObj kvs) \<Rightarrow> (case jget kvs ''error'' of JStr e \<Rightarrow> Some e | _ \<Rightarrow> None) | _ \<Rightarrow> None)"

text \<open>The heartbeats that fall into the validation.\<close>

definition heartbeat :: "(store_op \<Rightarrow> 's \<Rightarrow> outcome \<times> 's) \<Rightarrow> job \<Rightarrow> real \<Rightarrow> 's disp \<Rightarrow> 's disp" where
  "heartbeat step j t d = snd (cas step j [FStartedAt (Some t)] d)"

definition validate_with_heartbeat ::
  "(store_op \<Rightarrow> 's \<Rightarrow> outcome \<times> 's) \<Rightarrow> vm_seams \<Rightarrow> ('s disp \<Rightarrow> vm_answer \<times> 's disp) \<Rightarrow> job \<Rightarrow> 's disp
     \<Rightarrow> vm_answer \<times> 's disp" where
  "validate_with_heartbeat step s validate j d =
     (let d1 = fold (heartbeat step j) (vm_beats s) d
      in if vm_timed_out s then (VRaised ''TimeoutError'', d1) else validate d1)"


text \<open>What the run leaves to the \<^verbatim>\<open>finally\<close>: whether the result is still to be uploaded, whether the
  last write was ours, and the terminal status it wrote.\<close>

type_synonym vm_left = "bool \<times> bool \<times> job_status option"

definition vm_raised ::
  "(store_op \<Rightarrow> 's \<Rightarrow> outcome \<times> 's) \<Rightarrow> vm_cfg \<Rightarrow> vm_seams \<Rightarrow> job \<Rightarrow> bool \<Rightarrow> string \<Rightarrow> 's disp \<Rightarrow> vm_left \<times> 's disp" where
  "vm_raised step c s j pending name d =
     (case vm_fail step c j (vm_raised_at s) name [] d of (owned, d1) \<Rightarrow> ((pending, owned, Some FAILED), d1))"

definition vm_terminal ::
  "(store_op \<Rightarrow> 's \<Rightarrow> outcome \<times> 's) \<Rightarrow> vm_cfg \<Rightarrow> vm_seams \<Rightarrow> job \<Rightarrow> bool \<Rightarrow> bool \<Rightarrow> json option \<Rightarrow> string option
     \<Rightarrow> 's disp \<Rightarrow> vm_left \<times> 's disp" where
  "vm_terminal step c s j pending ok summary err d =
     (let intended = (if ok then DONE else FAILED)
      in case cas step j [FStatus intended, FFinishedAt (Some (vm_done_at s)), FSummary (summary_json summary), FError err,
                          FExpiresAt (expires_after (vc_retention c) (vm_done_at s))] d of
           (owned, d1) \<Rightarrow> ((pending, owned, Some intended), if ok \<and> owned then emit Indexed d1 else d1))"

text \<open>The receipt is sealed and the output uploaded; on failure the output is kept and a partial copy in
  the store removed.\<close>

definition vm_upload ::
  "(store_op \<Rightarrow> 's \<Rightarrow> outcome \<times> 's) \<Rightarrow> (string \<Rightarrow> 's \<Rightarrow> job option) \<Rightarrow> vm_seams \<Rightarrow> job \<Rightarrow> 's disp \<Rightarrow> bool \<times> 's disp" where
  "vm_upload step get s j d =
     (let d1 = (if vm_sealed s then emit (Uploaded (vm_stored s)) d else d)
      in if vm_sealed s \<and> vm_stored s then (True, d1)
         else case claim_is_still_ours step get (vm_up_reap s) j (emit MarkedPending d1) of (ours, d2) \<Rightarrow>
           (False, if ours then emit Reaped d2 else d2))"

definition upload_error :: "bool \<Rightarrow> string" where
  "upload_error sealed = (if sealed then ''result upload failed'' else ''result not uploaded'')"

definition vm_publish ::
  "(store_op \<Rightarrow> 's \<Rightarrow> outcome \<times> 's) \<Rightarrow> (string \<Rightarrow> 's \<Rightarrow> job option) \<Rightarrow> vm_cfg \<Rightarrow> vm_seams \<Rightarrow> job \<Rightarrow> json option
     \<Rightarrow> 's disp \<Rightarrow> vm_left \<times> 's disp" where
  "vm_publish step get c s j summary d =
     (case claim_is_still_ours step get (vm_up_publish s) j d of (ours, d1) \<Rightarrow>
        if \<not> ours then ((False, False, None), d1)
        else if \<not> vm_metadata s then vm_terminal step c s j False False summary (Some ''metadata_write_failed'') d1
        else case claim_is_still_ours step get (vm_up_upload s) j (emit Published d1) of (ours', d2) \<Rightarrow>
          if \<not> ours' then ((False, False, None), d2)
          else case vm_upload step get s j d2 of (stored, d3) \<Rightarrow>
            if stored then vm_terminal step c s j False True summary None d3
            else vm_terminal step c s j True False summary (Some (upload_error (vm_sealed s))) d3)"

definition vm_summary :: "vm_cfg \<Rightarrow> vm_seams \<Rightarrow> json option \<Rightarrow> bool \<Rightarrow> json option" where
  "vm_summary c s summary ok =
     (let b = bounded_summary c (vm_bytes s) summary
      in if ok \<and> vc_trust_metadata c then (case vm_sealed_env s of None \<Rightarrow> b | Some env \<Rightarrow> Some (vm_summary_of s env)) else b)"

definition vm_judge ::
  "(store_op \<Rightarrow> 's \<Rightarrow> outcome \<times> 's) \<Rightarrow> (string \<Rightarrow> 's \<Rightarrow> job option) \<Rightarrow> vm_cfg \<Rightarrow> vm_seams \<Rightarrow> job \<Rightarrow> json option \<Rightarrow> bool
     \<Rightarrow> 's disp \<Rightarrow> vm_left \<times> 's disp" where
  "vm_judge step get c s j summary ok d =
     (let sm = vm_summary c s summary ok
      in if \<not> ok then vm_terminal step c s j False False sm (summary_error sm) d
         else case vm_output_check s of
           Some msg \<Rightarrow> vm_terminal step c s j False False sm (Some (''output trust validation failed: '' @ msg)) d
         | None \<Rightarrow> vm_publish step get c s j sm d)"

definition vm_run ::
  "(store_op \<Rightarrow> 's \<Rightarrow> outcome \<times> 's) \<Rightarrow> (string \<Rightarrow> 's \<Rightarrow> job option) \<Rightarrow> vm_cfg \<Rightarrow> vm_seams
     \<Rightarrow> ('s disp \<Rightarrow> vm_answer \<times> 's disp) \<Rightarrow> job \<Rightarrow> 's disp \<Rightarrow> vm_left \<times> 's disp" where
  "vm_run step get c s validate j d =
     (case validate_with_heartbeat step s validate j d of (a, d1) \<Rightarrow>
        (case a of
           VReturned summary ok \<Rightarrow> vm_judge step get c s j summary ok d1
         | VNoSlot \<Rightarrow>
             ((False, False, None), vm_requeue step j [FStartedAt None, FWorkerRuntime None, FWorkerTier None] d1)
         | VRaised name \<Rightarrow> vm_raised step c s j False name d1))"

definition vm_try ::
  "(store_op \<Rightarrow> 's \<Rightarrow> outcome \<times> 's) \<Rightarrow> (string \<Rightarrow> 's \<Rightarrow> job option) \<Rightarrow> vm_cfg \<Rightarrow> vm_seams
     \<Rightarrow> ('s disp \<Rightarrow> vm_answer \<times> 's disp) \<Rightarrow> job \<Rightarrow> 's disp \<Rightarrow> vm_left \<times> 's disp" where
  "vm_try step get c s validate j d =
     (case vm_sample s of
        VPresent \<Rightarrow> vm_run step get c s validate j d
      | VNoHash \<Rightarrow> vm_raised step c s j False ''FileNotFoundError'' d
      | VFetchRaised name \<Rightarrow> vm_raised step c s j False name d
      | VFetched \<Rightarrow>
          vm_run step get c s validate j
            (if materialise_attempts j = 0 then d else snd (cas step j [FMaterialiseAttempts 0] d))
      | VFetchFailed \<Rightarrow>
          (let n = materialise_attempts j + 1
           in if int MAX_MATERIALISE_ATTEMPTS \<le> n
              then (case vm_fail step c j (vm_now s) ''sample could not be materialised'' [FMaterialiseAttempts n] d of
                      (owned, d1) \<Rightarrow> ((False, owned, Some FAILED), d1))
              else ((False, False, None),
                    vm_requeue step j [FClaimableAfter (Some (vm_now s + vc_blob_backoff c)), FMaterialiseAttempts n] d)))"

text \<open>The \<^verbatim>\<open>finally\<close>: the job's directory goes unless it holds the only copy of a result.\<close>

definition vm_finally :: "vm_left \<Rightarrow> 's disp \<Rightarrow> 's disp" where
  "vm_finally left d =
     (case left of (pending, owned, terminal) \<Rightarrow>
        if pending \<and> (owned \<or> terminal = None) then d
        else emit (Purged True) (if pending then emit ClearedPending d else d))"

definition policy_honored :: "vm_cfg \<Rightarrow> job \<Rightarrow> bool" where
  "policy_honored c j = (case vc_fixed c of None \<Rightarrow> True | Some f \<Rightarrow> effective_policy c j = py_lower (py_strip f))"

definition vm_process ::
  "(store_op \<Rightarrow> 's \<Rightarrow> outcome \<times> 's) \<Rightarrow> (string \<Rightarrow> 's \<Rightarrow> job option) \<Rightarrow> vm_cfg \<Rightarrow> vm_seams
     \<Rightarrow> ('s disp \<Rightarrow> vm_answer \<times> 's disp) \<Rightarrow> job \<Rightarrow> 's disp \<Rightarrow> 's disp" where
  "vm_process step get c s validate j d =
     (case vm_gate c (vm_world s) j (dp_self d) of (why, sg) \<Rightarrow>
        let d0 = d\<lparr>dp_self := sg\<rparr>
        in if why \<noteq> None then refuse_vm_job step s j d0
           else if \<not> policy_honored c j
           then emit (Purged True) (snd (vm_fail step c j (vm_now s) ''net_policy not honored'' [] d0))
           else case cas step j [FWorkerRuntime (Some ''warm''), FWorkerTier (Some (vc_tier c))] d0 of (ours, d1) \<Rightarrow>
             if \<not> ours then emit (Purged True) d1
             else case vm_try step get c s validate j d1 of (left, d2) \<Rightarrow> vm_finally left d2)"

text \<open>\<open>_claim_is_ours\<close>: a job of another engine goes back to the queue.\<close>

definition claim_is_ours ::
  "(store_op \<Rightarrow> 's \<Rightarrow> outcome \<times> 's) \<Rightarrow> vm_cfg \<Rightarrow> job \<Rightarrow> 's disp \<Rightarrow> bool \<times> 's disp" where
  "claim_is_ours step c j d =
     (if vc_engine c = None \<or> vc_engine c = Some (engine j) then (True, d)
      else (False, vm_requeue step j [FStartedAt None] d))"

text \<open>One turn of the worker loop.\<close>

definition vm_turn ::
  "(store_op \<Rightarrow> 's \<Rightarrow> outcome \<times> 's) \<Rightarrow> (string \<Rightarrow> 's \<Rightarrow> job option) \<Rightarrow> vm_cfg \<Rightarrow> claim_req \<Rightarrow> (job \<Rightarrow> vm_seams)
     \<Rightarrow> (job \<Rightarrow> 's disp \<Rightarrow> vm_answer \<times> 's disp) \<Rightarrow> 's disp \<Rightarrow> 's disp" where
  "vm_turn step get c req s validate d =
     (case submit step (OpClaim req) d of (out, d1) \<Rightarrow>
        (case out of
           OJob (Some j) \<Rightarrow>
             (case claim_is_ours step c j d1 of (ours, d2) \<Rightarrow>
                if ours then vm_process step get c (s j) (validate j) j d2 else d2)
         | _ \<Rightarrow> d1))"


section \<open>What a run writes\<close>

abbreviation no_done :: "devent \<Rightarrow> bool" where "no_done e \<equiv> \<not> done_write e"

lemma cas_no_done: "cas step j fs d = (b, d') \<Longrightarrow> \<not> list_ex sets_done fs \<Longrightarrow> grows no_done d d'"
  by (rule grows_mono [OF cas_grows]) simp_all

lemma cas_no_done': "\<not> list_ex sets_done fs \<Longrightarrow> grows no_done d (snd (cas step j fs d))"
  by (rule cas_no_done [OF prod.collapse [symmetric]])

lemma claim_no_done: "claim_is_still_ours step get up j d = (ours, d') \<Longrightarrow> grows no_done d d'"
  using claim_look by (fastforce simp: grows_def)

text \<open>A run that writes no DONE, or one, right after the upload it was stored with and the check of the
  claim before that.\<close>

definition vm_commits :: "job \<Rightarrow> bool \<Rightarrow> 's disp \<Rightarrow> 's disp \<Rightarrow> bool" where
  "vm_commits j Q d d' \<longleftrightarrow> grows no_done d d'
     \<or> Q \<and> (\<exists>pre l fs out post. list_all no_done pre \<and> ours_look j l \<and> list_all no_done post
        \<and> dp_trace d' = dp_trace d @ pre @ [l, Uploaded True, Wrote (OpCas (job_id j) RUNNING (claim_id j) fs) out] @ post)"

lemma vm_commits_no_done: "grows no_done d d' \<Longrightarrow> vm_commits j Q d d'"
  by (simp add: vm_commits_def)

lemma vm_commits_before:
  assumes "grows no_done d d1" "vm_commits j Q d1 d2"
  shows "vm_commits j Q d d2"
proof -
  obtain es where es: "dp_trace d1 = dp_trace d @ es" "list_all no_done es" using assms(1) by (auto simp: grows_def)
  from assms(2) show ?thesis unfolding vm_commits_def
  proof (elim disjE conjE exE)
    assume "grows no_done d1 d2"
    with assms(1) show "grows no_done d d2 \<or> Q \<and> (\<exists>pre l fs out post. list_all no_done pre \<and> ours_look j l \<and> list_all no_done post
        \<and> dp_trace d2 = dp_trace d @ pre @ [l, Uploaded True, Wrote (OpCas (job_id j) RUNNING (claim_id j) fs) out] @ post)"
      using grows_trans by blast
  next
    fix pre l fs out post
    assume q: Q "list_all no_done pre" "ours_look j l" "list_all no_done post"
      "dp_trace d2 = dp_trace d1 @ pre @ [l, Uploaded True, Wrote (OpCas (job_id j) RUNNING (claim_id j) fs) out] @ post"
    then have "list_all no_done (es @ pre)"
      "dp_trace d2 = dp_trace d @ (es @ pre) @ [l, Uploaded True, Wrote (OpCas (job_id j) RUNNING (claim_id j) fs) out] @ post"
      using es by simp_all
    with q show "grows no_done d d2 \<or> Q \<and> (\<exists>pre l fs out post. list_all no_done pre \<and> ours_look j l \<and> list_all no_done post
        \<and> dp_trace d2 = dp_trace d @ pre @ [l, Uploaded True, Wrote (OpCas (job_id j) RUNNING (claim_id j) fs) out] @ post)"
      by blast
  qed
qed

lemma vm_commits_after:
  assumes "vm_commits j Q d d1" "grows no_done d1 d2"
  shows "vm_commits j Q d d2"
proof -
  obtain es where es: "dp_trace d2 = dp_trace d1 @ es" "list_all no_done es" using assms(2) by (auto simp: grows_def)
  from assms(1) show ?thesis unfolding vm_commits_def
  proof (elim disjE conjE exE)
    assume "grows no_done d d1"
    with assms(2) show "grows no_done d d2 \<or> Q \<and> (\<exists>pre l fs out post. list_all no_done pre \<and> ours_look j l \<and> list_all no_done post
        \<and> dp_trace d2 = dp_trace d @ pre @ [l, Uploaded True, Wrote (OpCas (job_id j) RUNNING (claim_id j) fs) out] @ post)"
      using grows_trans by blast
  next
    fix pre l fs out post
    assume q: Q "list_all no_done pre" "ours_look j l" "list_all no_done post"
      "dp_trace d1 = dp_trace d @ pre @ [l, Uploaded True, Wrote (OpCas (job_id j) RUNNING (claim_id j) fs) out] @ post"
    then have "list_all no_done (post @ es)"
      "dp_trace d2 = dp_trace d @ pre @ [l, Uploaded True, Wrote (OpCas (job_id j) RUNNING (claim_id j) fs) out] @ (post @ es)"
      using es by simp_all
    with q show "grows no_done d d2 \<or> Q \<and> (\<exists>pre l fs out post. list_all no_done pre \<and> ours_look j l \<and> list_all no_done post
        \<and> dp_trace d2 = dp_trace d @ pre @ [l, Uploaded True, Wrote (OpCas (job_id j) RUNNING (claim_id j) fs) out] @ post)"
      by blast
  qed
qed

lemma terminal_failed: "vm_terminal step c s j p False sm e d = (left, d') \<Longrightarrow> grows no_done d d'"
  by (auto simp: vm_terminal_def split: prod.splits dest!: cas_no_done)

lemma terminal_done:
  assumes "vm_terminal step c s j p True sm e d = (left, d')"
  shows "\<exists>fs out post. list_all no_done post \<and> dp_trace d' = dp_trace d @ Wrote (OpCas (job_id j) RUNNING (claim_id j) fs) out # post"
proof -
  let ?fs = "[FStatus DONE, FFinishedAt (Some (vm_done_at s)), FSummary (summary_json sm), FError e,
      FExpiresAt (expires_after (vc_retention c) (vm_done_at s))]"
  obtain owned d1 where a: "cas step j ?fs d = (owned, d1)" by fastforce
  obtain out where o: "dp_trace d1 = dp_trace d @ [Wrote (OpCas (job_id j) RUNNING (claim_id j) ?fs) out]"
    using cas_trace [OF a] by blast
  have "d' = (if owned then emit Indexed d1 else d1)" using assms a by (simp add: vm_terminal_def)
  then have "dp_trace d' = dp_trace d @ Wrote (OpCas (job_id j) RUNNING (claim_id j) ?fs) out # (if owned then [Indexed] else [])"
    using o by simp
  then show ?thesis by (intro exI [of _ ?fs] exI [of _ out] exI [of _ "if owned then [Indexed] else []"]) simp
qed

lemma vm_fail_no_done: "\<not> list_ex sets_done extra \<Longrightarrow> vm_fail step c j now err extra d = (b, d') \<Longrightarrow> grows no_done d d'"
  by (auto simp: vm_fail_def dest!: cas_no_done)

lemma vm_requeue_no_done: "\<not> list_ex sets_done fs \<Longrightarrow> grows no_done d (vm_requeue step j fs d)"
  by (simp add: vm_requeue_def cas_no_done')

lemma vm_upload_cases:
  assumes "vm_upload step get s j d = (stored, d')"
  shows "stored \<and> dp_trace d' = dp_trace d @ [Uploaded True] \<or> \<not> stored \<and> grows no_done d d'"
proof (cases "vm_sealed s \<and> vm_stored s")
  case True
  then have "stored \<and> d' = emit (Uploaded True) d" using assms by (auto simp: vm_upload_def Let_def)
  then show ?thesis by simp
next
  case False
  let ?d1 = "if vm_sealed s then emit (Uploaded (vm_stored s)) d else d"
  obtain ours d2 where o: "claim_is_still_ours step get (vm_up_reap s) j (emit MarkedPending ?d1) = (ours, d2)" by fastforce
  have "grows no_done d ?d1" by (auto intro!: grows_emit)
  then have "grows no_done d (emit MarkedPending ?d1)" by (rule grows_emit) simp
  then have "grows no_done d d2" using claim_no_done [OF o] by (rule grows_trans)
  moreover have "(stored, d') = (False, if ours then emit Reaped d2 else d2)"
    using assms o False by (auto simp: vm_upload_def Let_def)
  ultimately show ?thesis by (auto intro!: grows_emit)
qed

lemma vm_publish_commits:
  assumes "vm_publish step get c s j sm d = (left, d')"
  shows "vm_commits j True d d'"
proof -
  obtain ours d1 where o: "claim_is_still_ours step get (vm_up_publish s) j d = (ours, d1)" by fastforce
  have g1: "grows no_done d d1" by (rule claim_no_done [OF o])
  obtain ours' d2 where o': "claim_is_still_ours step get (vm_up_upload s) j (emit Published d1) = (ours', d2)" by fastforce
  have gp: "grows no_done d (emit Published d1)" using g1 by (rule grows_emit) simp
  have g2: "grows no_done d d2" by (rule grows_trans [OF gp claim_no_done [OF o']])
  obtain st d3 where u: "vm_upload step get s j d2 = (st, d3)" by fastforce
  show ?thesis
  proof (cases "ours \<and> vm_metadata s \<and> ours' \<and> st")
    case False
    have "grows no_done d d'"
    proof (cases "ours \<and> vm_metadata s \<and> ours'")
      case True
      then have ns: "\<not> st" using False by blast
      then have "grows no_done d d3" using vm_upload_cases [OF u] grows_trans [OF g2] by blast
      moreover have "vm_terminal step c s j True False sm (Some (upload_error (vm_sealed s))) d3 = (left, d')"
        using assms o o' u True ns by (simp add: vm_publish_def)
      ultimately show ?thesis using terminal_failed grows_trans by blast
    next
      case stop: False
      then show ?thesis using assms o o' g1 g2
        by (auto simp: vm_publish_def split: if_splits intro: grows_trans dest: terminal_failed)
    qed
    then show ?thesis by (rule vm_commits_no_done)
  next
    case True
    then have w: "vm_terminal step c s j False True sm None d3 = (left, d')" using assms o o' u by (simp add: vm_publish_def)
    obtain l where l: "dp_trace d2 = dp_trace (emit Published d1) @ [l]" "ours_look j l"
      using claim_look [OF o'] True by blast
    obtain es where es: "dp_trace (emit Published d1) = dp_trace d @ es" "list_all no_done es" using gp by (auto simp: grows_def)
    have "dp_trace d3 = dp_trace d2 @ [Uploaded True]" using vm_upload_cases [OF u] True by blast
    moreover obtain fs out post where p: "list_all no_done post"
      "dp_trace d' = dp_trace d3 @ Wrote (OpCas (job_id j) RUNNING (claim_id j) fs) out # post"
      using terminal_done [OF w] by blast
    ultimately have "dp_trace d' = dp_trace d @ es @ [l, Uploaded True, Wrote (OpCas (job_id j) RUNNING (claim_id j) fs) out] @ post"
      using l(1) es(1) by (simp del: emit_trace)
    then show ?thesis using l(2) es(2) p(1) unfolding vm_commits_def by blast
  qed
qed

lemma vm_judge_commits:
  assumes "vm_judge step get c s j sm ok d = (left, d')"
  shows "vm_commits j (ok \<and> vm_output_check s = None) d d'"
proof (cases "ok \<and> vm_output_check s = None")
  case True
  then have "vm_publish step get c s j (vm_summary c s sm True) d = (left, d')" using assms by (simp add: vm_judge_def Let_def)
  from vm_publish_commits [OF this] show ?thesis using True by simp
next
  case False
  then have "grows no_done d d'" using assms
    by (auto simp: vm_judge_def Let_def split: if_splits option.splits dest: terminal_failed)
  then show ?thesis by (rule vm_commits_no_done)
qed

lemma heartbeats_no_done: "grows no_done d (fold (heartbeat step j) ts d)"
proof (induction ts arbitrary: d)
  case (Cons t ts)
  have "grows no_done d (heartbeat step j t d)" by (simp add: heartbeat_def cas_no_done')
  then show ?case using Cons.IH [of "heartbeat step j t d"] by (auto intro: grows_trans)
qed simp

text \<open>The premise is about the validation: it writes no DONE.\<close>

definition judged_ok :: "vm_seams \<Rightarrow> ('s disp \<Rightarrow> vm_answer \<times> 's disp) \<Rightarrow> bool" where
  "judged_ok s validate \<longleftrightarrow> vm_output_check s = None \<and> \<not> vm_timed_out s
     \<and> (\<exists>d summary d'. validate d = (VReturned summary True, d'))"

lemma vm_run_commits:
  assumes "\<And>d. grows no_done d (snd (validate d))" "vm_run step get c s validate j d = (left, d')"
  shows "vm_commits j (judged_ok s validate) d d'"
proof -
  obtain a d1 where v: "validate_with_heartbeat step s validate j d = (a, d1)" by fastforce
  have g: "grows no_done d d1"
    using v heartbeats_no_done [of d step j "vm_beats s"] assms(1)
    by (auto simp: validate_with_heartbeat_def Let_def split: if_splits intro: grows_trans) (metis grows_trans snd_conv)
  show ?thesis
  proof (cases a)
    case (VReturned summary ok)
    then have "vm_judge step get c s j summary ok d1 = (left, d')" using assms(2) v by (simp add: vm_run_def)
    from vm_judge_commits [OF this] have w: "vm_commits j (ok \<and> vm_output_check s = None) d1 d'" .
    have "ok \<and> vm_output_check s = None \<longrightarrow> judged_ok s validate"
      using v VReturned by (auto simp: validate_with_heartbeat_def judged_ok_def Let_def split: if_splits) blast
    then have "vm_commits j (judged_ok s validate) d1 d'" using w by (auto simp: vm_commits_def)
    then show ?thesis by (rule vm_commits_before [OF g])
  next
    case VNoSlot
    then have "d' = vm_requeue step j [FStartedAt None, FWorkerRuntime None, FWorkerTier None] d1" using assms(2) v by (simp add: vm_run_def)
    then show ?thesis using grows_trans [OF g vm_requeue_no_done] by (simp add: vm_commits_no_done)
  next
    case (VRaised name)
    then have "grows no_done d1 d'" using assms(2) v
      by (auto simp: vm_run_def vm_raised_def split: prod.splits dest!: vm_fail_no_done [rotated])
    then show ?thesis using grows_trans [OF g] by (blast intro: vm_commits_no_done)
  qed
qed

lemma vm_try_commits:
  assumes "\<And>d. grows no_done d (snd (validate d))" "vm_try step get c s validate j d = (left, d')"
  shows "vm_commits j (judged_ok s validate) d d'"
proof -
  let ?d1 = "if materialise_attempts j = 0 then d else snd (cas step j [FMaterialiseAttempts 0] d)"
  have g: "grows no_done d ?d1" by (simp add: cas_no_done')
  show ?thesis
  proof (cases "vm_sample s")
    case VFetched
    then have "vm_run step get c s validate j ?d1 = (left, d')" using assms(2) by (simp add: vm_try_def)
    from vm_commits_before [OF g vm_run_commits [OF assms(1) this]] show ?thesis .
  next
    case VPresent
    then show ?thesis using assms(2) vm_run_commits [OF assms(1)] by (simp add: vm_try_def)
  qed (use assms(2) in \<open>auto simp: vm_try_def vm_raised_def Let_def split: prod.splits if_splits
        intro!: vm_commits_no_done vm_requeue_no_done dest!: vm_fail_no_done [rotated]\<close>)
qed

lemma vm_finally_no_done: "grows no_done d (vm_finally left d)"
  by (auto simp: vm_finally_def split: prod.split intro!: grows_emit)


lemma remote_validate_grows:
  assumes "\<And>e. looking e \<Longrightarrow> P e" "\<And>x y z. P (SlotReleased x y z)" "\<And>b. P (SlotClaimed b)"
  shows "grows P d (snd (remote_validate step get h r j d))"
proof (cases "(\<exists>sl. vr_claim r = Slot sl) \<and> \<not> params_too_large r")
  case True
  obtain a dirty fault d1 where rr: "remote_run step get h r j (emit (SlotClaimed True) d) = ((a, dirty, fault), d1)" by (metis surj_pair)
  have "grows P (emit (SlotClaimed True) d) d1" using remote_run_looking [OF rr] assms(1) by (rule grows_mono)
  moreover have "grows P d (emit (SlotClaimed True) d)" by (rule grows_emit [OF grows_refl]) (rule assms(3))
  ultimately have "grows P d (emit (SlotReleased dirty (Some fault) None) d1)"
    by (blast intro: grows_emit grows_trans assms(2))
  moreover have "snd (remote_validate step get h r j d) = emit (SlotReleased dirty (Some fault) None) d1"
    using True rr by (auto simp: remote_validate_def)
  ultimately show ?thesis by simp
next
  case False
  then have "snd (remote_validate step get h r j d) = d \<or> snd (remote_validate step get h r j d) = emit (SlotClaimed False) d"
    by (auto simp: remote_validate_def split: claim_result.splits)
  then show ?thesis using grows_emit [of P d d "SlotClaimed False", OF grows_refl assms(3)] by (metis grows_refl)
qed

lemma remote_validate_no_done: "grows no_done d (snd (remote_validate step get h r j d))"
  by (rule remote_validate_grows) (auto simp: looking_def)

text \<open>What a job must pass before it is validated.\<close>

definition admitted :: "vm_cfg \<Rightarrow> vm_seams \<Rightarrow> job \<Rightarrow> 's disp \<Rightarrow> bool" where
  "admitted c s j d \<longleftrightarrow> fst (vm_gate c (vm_world s) j (dp_self d)) = None \<and> policy_honored c j"

lemma vm_process_cases:
  obtains (refused) d0 n m where "\<not> admitted c s j d" "d0 = d\<lparr>dp_self := snd (vm_gate c (vm_world s) j (dp_self d))\<rparr>"
      "count_refusal (job_id j) (bo_n (dp_grants d)) = (n, m)"
      "vm_process step get c s validate j d =
        vm_requeue step j [FStartedAt None, FClaimableAfter (Some (vm_now s + refusal_delay n))] (d0\<lparr>dp_grants := (dp_grants d0)\<lparr>bo_n := m\<rparr>\<rparr>)"
  | (dishonored) d0 b d1 where "\<not> admitted c s j d" "d0 = d\<lparr>dp_self := snd (vm_gate c (vm_world s) j (dp_self d))\<rparr>"
      "vm_fail step c j (vm_now s) ''net_policy not honored'' [] d0 = (b, d1)"
      "vm_process step get c s validate j d = emit (Purged True) d1"
  | (lost) d0 d1 where "admitted c s j d" "d0 = d\<lparr>dp_self := snd (vm_gate c (vm_world s) j (dp_self d))\<rparr>"
      "cas step j [FWorkerRuntime (Some ''warm''), FWorkerTier (Some (vc_tier c))] d0 = (False, d1)"
      "vm_process step get c s validate j d = emit (Purged True) d1"
  | (ran) d0 d1 left d2 where "admitted c s j d" "d0 = d\<lparr>dp_self := snd (vm_gate c (vm_world s) j (dp_self d))\<rparr>"
      "cas step j [FWorkerRuntime (Some ''warm''), FWorkerTier (Some (vc_tier c))] d0 = (True, d1)"
      "vm_try step get c s validate j d1 = (left, d2)" "vm_process step get c s validate j d = vm_finally left d2"
proof -
  obtain why sg where g: "vm_gate c (vm_world s) j (dp_self d) = (why, sg)" by fastforce
  let ?d0 = "d\<lparr>dp_self := sg\<rparr>"
  have d0: "?d0 = d\<lparr>dp_self := snd (vm_gate c (vm_world s) j (dp_self d))\<rparr>" by (simp add: g)
  show ?thesis
  proof (cases "why = None")
    case False
    obtain n m where cr: "count_refusal (job_id j) (bo_n (dp_grants d)) = (n, m)" by fastforce
    have na: "\<not> admitted c s j d" using False g by (simp add: admitted_def)
    have pr: "vm_process step get c s validate j d =
        vm_requeue step j [FStartedAt None, FClaimableAfter (Some (vm_now s + refusal_delay n))] (?d0\<lparr>dp_grants := (dp_grants ?d0)\<lparr>bo_n := m\<rparr>\<rparr>)"
      using False g cr by (simp add: vm_process_def refuse_vm_job_def Let_def)
    show ?thesis by (rule refused [OF na d0 cr pr])
  next
    case True
    show ?thesis
    proof (cases "policy_honored c j")
      case False
      obtain b d1 where f: "vm_fail step c j (vm_now s) ''net_policy not honored'' [] ?d0 = (b, d1)" by fastforce
      have na: "\<not> admitted c s j d" using False by (simp add: admitted_def)
      have pr: "vm_process step get c s validate j d = emit (Purged True) d1" using False True g f by (simp add: vm_process_def Let_def)
      show ?thesis by (rule dishonored [OF na d0 f pr])
    next
      case honored: True
      obtain ours d1 where c: "cas step j [FWorkerRuntime (Some ''warm''), FWorkerTier (Some (vc_tier c))] ?d0 = (ours, d1)" by fastforce
      obtain left d2 where v: "vm_try step get c s validate j d1 = (left, d2)" by fastforce
      have adm: "admitted c s j d" using True honored g by (simp add: admitted_def)
      show ?thesis
      proof (cases ours)
        case True
        have pr: "vm_process step get c s validate j d = vm_finally left d2"
          using \<open>why = None\<close> honored g c v True by (simp add: vm_process_def Let_def)
        show ?thesis by (rule ran [OF adm d0 _ v pr]) (use c True in simp)
      next
        case False
        have pr: "vm_process step get c s validate j d = emit (Purged True) d1"
          using \<open>why = None\<close> honored g c False by (simp add: vm_process_def Let_def)
        show ?thesis by (rule lost [OF adm d0 _ pr]) (use c False in simp)
      qed
    qed
  qed
qed

lemma grows_self: "grows P (d\<lparr>dp_self := x\<rparr>) d' = grows P d d'" "grows P (d\<lparr>dp_self := x, dp_grants := y\<rparr>) d' = grows P d d'"
  by (simp_all add: grows_def)

lemma vm_process_commits:
  assumes "\<And>d. grows no_done d (snd (validate d))"
  shows "vm_commits j (admitted c s j d \<and> judged_ok s validate) d (vm_process step get c s validate j d)"
proof (cases rule: vm_process_cases [of c s j d step get validate])
  case (refused d0 n m)
  have "grows no_done (d0\<lparr>dp_grants := (dp_grants d0)\<lparr>bo_n := m\<rparr>\<rparr>) (vm_process step get c s validate j d)"
    unfolding refused(4) by (rule vm_requeue_no_done) simp
  then show ?thesis by (intro vm_commits_no_done) (simp add: refused(2) grows_self)
next
  case (dishonored d0 b d1)
  have "grows no_done d0 d1" by (rule vm_fail_no_done [OF _ dishonored(3)]) simp
  then have "grows no_done d d1" by (simp add: dishonored(2) grows_self)
  then show ?thesis by (intro vm_commits_no_done) (simp add: dishonored(4) grows_emit)
next
  case (lost d0 d1)
  have "grows no_done d0 d1" by (rule cas_no_done [OF lost(3)]) simp
  then have "grows no_done d d1" by (simp add: lost(2) grows_self)
  then show ?thesis by (intro vm_commits_no_done) (simp add: lost(4) grows_emit)
next
  case (ran d0 d1 left d2)
  have "grows no_done d0 d1" by (rule cas_no_done [OF ran(3)]) simp
  then have g: "grows no_done d d1" by (simp add: ran(2) grows_self)
  have "vm_commits j (judged_ok s validate) d1 d2" by (rule vm_try_commits [OF assms ran(4)])
  then have "vm_commits j (judged_ok s validate) d1 (vm_finally left d2)" by (rule vm_commits_after [OF _ vm_finally_no_done])
  from vm_commits_before [OF g this] show ?thesis by (simp add: ran(1,5))
qed

lemma vm_commits_done:
  assumes "vm_commits j Q d d'" "dp_trace d' = dp_trace d @ es" "e \<in> set es" "done_write e"
  shows "Q \<and> (\<exists>pre l fs out post. e = Wrote (OpCas (job_id j) RUNNING (claim_id j) fs) out \<and> ours_look j l
    \<and> es = pre @ [l, Uploaded True, e] @ post \<and> list_all no_done (pre @ post))"
proof -
  have "\<not> grows no_done d d'" using assms(2-4) by (auto simp: grows_def list_all_iff)
  then obtain pre l fs out post where q: Q "list_all no_done pre" "ours_look j l" "list_all no_done post"
    "dp_trace d' = dp_trace d @ pre @ [l, Uploaded True, Wrote (OpCas (job_id j) RUNNING (claim_id j) fs) out] @ post"
    using assms(1) unfolding vm_commits_def by blast
  have es: "es = pre @ [l, Uploaded True, Wrote (OpCas (job_id j) RUNNING (claim_id j) fs) out] @ post" using q(5) assms(2) by simp
  have "no_done l" using q(3) by (auto simp: ours_look_def)
  then have "e = Wrote (OpCas (job_id j) RUNNING (claim_id j) fs) out" using assms(3,4) es q(2,4) by (auto simp: list_all_iff)
  then show ?thesis using q es by auto
qed

end
