(* ===== verification/Vm_Job.thy ===== *)
theory Vm_Job
  imports Vm_Dispatch
begin

text \<open>
  What holds of one job on a remote or VM tier (\<open>VmJobDispatcher._process\<close>): DONE only after trust,
  a stale owner is silent, the only copy of a result is kept, and a job whose claim is live is settled.
\<close>

section \<open>The only copy of a result\<close>

text \<open>A write that failed the job.\<close>

fun failed_write :: "devent \<Rightarrow> bool" where
  "failed_write (Wrote (OpCas k st c fs) (OBool True)) = list_ex (\<lambda>f. f = FStatus FAILED) fs"
| "failed_write _ = False"

lemma failed_write_cas: "failed_write (Wrote (OpCas k st c fs) out) \<longleftrightarrow> out = OBool True \<and> list_ex (\<lambda>f. f = FStatus FAILED) fs"
proof (cases "out = OBool True")
  case False
  then show ?thesis
  proof (cases out)
    case (OBool b)
    then show ?thesis using False by (cases b) simp_all
  qed simp_all
qed simp

definition calm :: "devent \<Rightarrow> bool" where
  "calm e \<longleftrightarrow> e \<noteq> MarkedPending \<and> e \<noteq> ClearedPending \<and> e \<noteq> Purged True \<and> \<not> failed_write e"

definition kept_ok :: "vm_left \<Rightarrow> devent list \<Rightarrow> bool" where
  "kept_ok left es \<longleftrightarrow> (case left of (pending, owned, terminal) \<Rightarrow>
     (pending \<longleftrightarrow> MarkedPending \<in> set es) \<and> Purged True \<notin> set es \<and> ClearedPending \<notin> set es
     \<and> (pending \<longrightarrow> terminal \<noteq> None \<and> owned = list_ex failed_write es))"

definition keeps :: "vm_left \<Rightarrow> 's disp \<Rightarrow> 's disp \<Rightarrow> bool" where
  "keeps left d d' \<longleftrightarrow> (\<exists>es. dp_trace d' = dp_trace d @ es \<and> kept_ok left es)"

lemma keeps_before:
  assumes "grows calm d d1" "keeps left d1 d2"
  shows "keeps left d d2"
proof -
  obtain es where es: "dp_trace d1 = dp_trace d @ es" "list_all calm es" using assms(1) by (auto simp: grows_def)
  obtain fs where fs: "dp_trace d2 = dp_trace d1 @ fs" "kept_ok left fs" using assms(2) by (auto simp: keeps_def)
  have "kept_ok left (es @ fs)" using es(2) fs(2)
    by (auto simp: kept_ok_def calm_def list_all_iff list_ex_iff split: prod.splits)
  then show ?thesis using es fs by (auto simp: keeps_def)
qed

lemma keeps_calm: "\<not> fst left \<Longrightarrow> grows (\<lambda>e. e \<noteq> MarkedPending \<and> e \<noteq> ClearedPending \<and> e \<noteq> Purged True) d d' \<Longrightarrow> keeps left d d'"
  by (auto simp: keeps_def kept_ok_def grows_def list_all_iff split: prod.splits)

abbreviation unmarked :: "devent \<Rightarrow> bool" where
  "unmarked e \<equiv> e \<noteq> MarkedPending \<and> e \<noteq> ClearedPending \<and> e \<noteq> Purged True"

lemma cas_unmarked: "cas step j fs d = (b, d') \<Longrightarrow> grows unmarked d d'"
  by (auto simp: grows_def dest!: cas_trace)

lemma cas_unmarked': "grows unmarked d (snd (cas step j fs d))"
  by (rule cas_unmarked [OF prod.collapse [symmetric]])

lemma cas_calm: "cas step j fs d = (b, d') \<Longrightarrow> FStatus FAILED \<notin> set fs \<Longrightarrow> grows calm d d'"
  by (fastforce simp: grows_def calm_def list_ex_iff dest!: cas_trace elim: failed_write.elims)

lemma cas_calm': "FStatus FAILED \<notin> set fs \<Longrightarrow> grows calm d (snd (cas step j fs d))"
  by (rule cas_calm [OF prod.collapse [symmetric]])

lemma claim_calm: "claim_is_still_ours step get up j d = (ours, d') \<Longrightarrow> grows calm d d'"
  using claim_look by (fastforce simp: grows_def calm_def)

lemma grows_unmarked: "grows calm d d' \<Longrightarrow> grows unmarked d d'"
  by (erule grows_mono) (simp add: calm_def)

lemma terminal_keeps_stored:
  "vm_terminal step c s j False ok sm e d = (left, d') \<Longrightarrow> keeps left d d'"
  by (auto simp: vm_terminal_def Let_def split: prod.splits if_splits intro!: keeps_calm grows_emit dest!: cas_unmarked)

lemma terminal_keeps_pending:
  assumes "vm_terminal step c s j True False sm e d = (left, d')"
  shows "\<exists>es. dp_trace d' = dp_trace d @ es \<and> list_all unmarked es \<and> left = (True, list_ex failed_write es, Some FAILED)"
proof -
  let ?fs = "[FStatus FAILED, FFinishedAt (Some (vm_done_at s)), FSummary (summary_json sm), FError e,
      FExpiresAt (expires_after (vc_retention c) (vm_done_at s))]"
  obtain owned d1 where a: "cas step j ?fs d = (owned, d1)" by fastforce
  obtain out where o: "dp_trace d1 = dp_trace d @ [Wrote (OpCas (job_id j) RUNNING (claim_id j) ?fs) out]" "owned = (out = OBool True)"
    using cas_trace [OF a] by blast
  have "failed_write (Wrote (OpCas (job_id j) RUNNING (claim_id j) ?fs) out) = (out = OBool True)"
    by (simp add: failed_write_cas)
  moreover have "left = (True, owned, Some FAILED)" "d' = d1" using assms a by (simp_all add: vm_terminal_def)
  ultimately show ?thesis using o by simp
qed

lemma upload_calm:
  assumes "vm_upload step get s j d = (st, d')"
  shows "st \<and> grows calm d d' \<or> \<not> st \<and> (\<exists>es. dp_trace d' = dp_trace d @ es \<and> MarkedPending \<in> set es
     \<and> list_all (\<lambda>e. e \<noteq> ClearedPending \<and> e \<noteq> Purged True \<and> \<not> failed_write e) es)"
proof (cases "vm_sealed s \<and> vm_stored s")
  case True
  then have "st \<and> d' = emit (Uploaded True) d" using assms by (auto simp: vm_upload_def Let_def)
  then show ?thesis by (auto intro!: grows_emit simp: calm_def)
next
  case False
  let ?d1 = "if vm_sealed s then emit (Uploaded (vm_stored s)) d else d"
  obtain ours d2 where o: "claim_is_still_ours step get (vm_up_reap s) j (emit MarkedPending ?d1) = (ours, d2)" by fastforce
  obtain x where x: "dp_trace d2 = dp_trace (emit MarkedPending ?d1) @ [Looked (job_id j) x]" using claim_look [OF o] by blast
  have "(st, d') = (False, if ours then emit Reaped d2 else d2)" using assms o False by (auto simp: vm_upload_def Let_def)
  then show ?thesis using x by (auto simp: list_all_iff)
qed

lemma vm_publish_keeps:
  assumes "vm_publish step get c s j sm d = (left, d')"
  shows "keeps left d d'"
proof -
  obtain ours d1 where o: "claim_is_still_ours step get (vm_up_publish s) j d = (ours, d1)" by fastforce
  have g1: "grows calm d d1" by (rule claim_calm [OF o])
  obtain ours' d2 where o': "claim_is_still_ours step get (vm_up_upload s) j (emit Published d1) = (ours', d2)" by fastforce
  have gp: "grows calm d (emit Published d1)" using g1 by (rule grows_emit) (simp add: calm_def)
  have g2: "grows calm d d2" by (rule grows_trans [OF gp claim_calm [OF o']])
  obtain st d3 where u: "vm_upload step get s j d2 = (st, d3)" by fastforce
  have stop: "keeps (False, False, None) d x" if "grows calm d x" for x
    by (rule keeps_calm) (use that in \<open>simp_all add: grows_unmarked\<close>)
  consider (a) "\<not> ours" | (b) "ours" "\<not> vm_metadata s" | (c) "ours" "vm_metadata s" "\<not> ours'"
    | (d) "ours" "vm_metadata s" "ours'" "st" | (e) "ours" "vm_metadata s" "ours'" "\<not> st" by blast
  then show ?thesis
  proof cases
    case a then show ?thesis using assms o stop [OF g1] by (simp add: vm_publish_def)
  next
    case b
    then have "vm_terminal step c s j False False sm (Some ''metadata_write_failed'') d1 = (left, d')" using assms o by (simp add: vm_publish_def)
    from keeps_before [OF g1 terminal_keeps_stored [OF this]] show ?thesis .
  next
    case c then show ?thesis using assms o o' stop [OF g2] by (simp add: vm_publish_def)
  next
    case d
    then have "vm_terminal step c s j False True sm None d3 = (left, d')" using assms o o' u by (simp add: vm_publish_def)
    moreover have "grows calm d d3" using upload_calm [OF u] d grows_trans [OF g2] by blast
    ultimately show ?thesis using keeps_before terminal_keeps_stored by blast
  next
    case e
    then have w: "vm_terminal step c s j True False sm (Some (upload_error (vm_sealed s))) d3 = (left, d')"
      using assms o o' u by (simp add: vm_publish_def)
    obtain es where es: "dp_trace d' = dp_trace d3 @ es" "list_all unmarked es" "left = (True, list_ex failed_write es, Some FAILED)"
      using terminal_keeps_pending [OF w] by blast
    obtain us where us: "dp_trace d3 = dp_trace d2 @ us" "MarkedPending \<in> set us"
      "list_all (\<lambda>e. e \<noteq> ClearedPending \<and> e \<noteq> Purged True \<and> \<not> failed_write e) us"
      using upload_calm [OF u] e by blast
    have "list_ex failed_write (us @ es) = list_ex failed_write es" using us(3) by (auto simp: list_all_iff list_ex_iff)
    then have "kept_ok left (us @ es)" using es(2,3) us(2,3) by (auto simp: kept_ok_def list_all_iff)
    then have "keeps left d2 d'" using es(1) us(1) by (auto simp: keeps_def)
    then show ?thesis by (rule keeps_before [OF g2])
  qed
qed

lemma vm_judge_keeps:
  assumes "vm_judge step get c s j sm ok d = (left, d')"
  shows "keeps left d d'"
  using assms by (cases ok; cases "vm_output_check s")
    (simp_all add: vm_judge_def Let_def terminal_keeps_stored vm_publish_keeps)

lemma heartbeats_calm: "grows calm d (fold (heartbeat step j) ts d)"
proof (induction ts arbitrary: d)
  case (Cons t ts)
  have "grows calm d (heartbeat step j t d)" by (simp add: heartbeat_def cas_calm')
  then show ?case using Cons.IH [of "heartbeat step j t d"] by (auto intro: grows_trans)
qed simp

lemma vm_run_keeps:
  assumes "\<And>d. grows calm d (snd (validate d))" "vm_run step get c s validate j d = (left, d')"
  shows "keeps left d d'"
proof -
  obtain a d1 where v: "validate_with_heartbeat step s validate j d = (a, d1)" by fastforce
  have g: "grows calm d d1"
  proof -
    let ?d0 = "fold (heartbeat step j) (vm_beats s) d"
    have "d1 = ?d0 \<or> d1 = snd (validate ?d0)" using v by (auto simp: validate_with_heartbeat_def Let_def split: if_splits)
    then show ?thesis using heartbeats_calm [of d step j "vm_beats s"] assms(1) [of ?d0] grows_trans by blast
  qed
  show ?thesis
  proof (cases a)
    case (VReturned summary ok)
    then have "vm_judge step get c s j summary ok d1 = (left, d')" using assms(2) v by (simp add: vm_run_def)
    from keeps_before [OF g vm_judge_keeps [OF this]] show ?thesis .
  next
    case VNoSlot
    then have "left = (False, False, None)" "d' = vm_requeue step j [FStartedAt None, FWorkerRuntime None, FWorkerTier None] d1"
      using assms(2) v by (simp_all add: vm_run_def)
    then have "keeps left d1 d'" by (auto intro!: keeps_calm simp: vm_requeue_def cas_unmarked')
    then show ?thesis by (rule keeps_before [OF g])
  next
    case (VRaised name)
    then have "\<not> fst left" "grows unmarked d1 d'"
      using assms(2) v by (auto simp: vm_run_def vm_raised_def vm_fail_def split: prod.splits dest!: cas_unmarked)
    then have "keeps left d1 d'" by (rule keeps_calm)
    then show ?thesis by (rule keeps_before [OF g])
  qed
qed

lemma vm_try_keeps:
  assumes "\<And>d. grows calm d (snd (validate d))" "vm_try step get c s validate j d = (left, d')"
  shows "keeps left d d'"
proof -
  let ?d1 = "if materialise_attempts j = 0 then d else snd (cas step j [FMaterialiseAttempts 0] d)"
  have g: "grows calm d ?d1" by (simp add: cas_calm')
  show ?thesis
  proof (cases "vm_sample s")
    case VFetched
    then have "vm_run step get c s validate j ?d1 = (left, d')" using assms(2) by (simp add: vm_try_def)
    from keeps_before [OF g vm_run_keeps [OF assms(1) this]] show ?thesis .
  next
    case VPresent
    then show ?thesis using assms(2) vm_run_keeps [OF assms(1)] by (simp add: vm_try_def)
  qed (use assms(2) in \<open>auto simp: vm_try_def vm_raised_def vm_fail_def vm_requeue_def Let_def cas_unmarked' split: prod.splits if_splits
        intro!: keeps_calm dest!: cas_unmarked\<close>)
qed


section \<open>A claim that is live, and one that is spent\<close>

definition times_ok :: "vm_cfg \<Rightarrow> vm_seams \<Rightarrow> bool" where
  "times_ok c s \<longleftrightarrow> 0 < vm_now s \<and> 0 < vm_done_at s \<and> 0 < vm_raised_at s \<and> list_all (\<lambda>t. 0 < t) (vm_beats s) \<and> 0 \<le> vc_blob_backoff c"

lemma refusal_delay_pos: "0 < refusal_delay n"
  by (simp add: refusal_delay_def)

lemma expires_ok: "0 < t \<Longrightarrow> expires_after r t \<noteq> Some 0"
  by (simp add: expires_after_def)

fun moves_claim :: "field_upd \<Rightarrow> bool" where
  "moves_claim (FStatus st) = True"
| "moves_claim (FClaimId c) = True"
| "moves_claim _ = False"

lemma setattrs_keep:
  "\<not> list_ex moves_claim fs \<Longrightarrow> status (setattrs fs j) = status j \<and> claim_id (setattrs fs j) = claim_id j"
proof (induction fs arbitrary: j)
  case (Cons f fs)
  have "status (setattr f j) = status j \<and> claim_id (setattr f j) = claim_id j" using Cons.prems by (cases f) auto
  then show ?case using Cons.IH [of "setattr f j"] Cons.prems by simp
qed simp

lemma setattrs_status: "\<not> list_ex sets_status fs \<Longrightarrow> status (setattrs fs j) = status j"
proof (induction fs arbitrary: j)
  case (Cons f fs)
  have "status (setattr f j) = status j" using Cons.prems by (cases f) auto
  then show ?case using Cons.IH [of "setattr f j"] Cons.prems by simp
qed simp

lemma emit_state [simp]: "dp_store (emit e d) = dp_store d" "dp_foreign (emit e d) = dp_foreign d"
  by (simp_all add: emit_def)

lemma look_state: "dp_foreign d = [] \<Longrightarrow> claim_is_still_ours step get up j d = (b, d') \<Longrightarrow> dp_store d' = dp_store d \<and> dp_foreign d' = []"
  by (auto simp: claim_is_still_ours_def look_def others_def Let_def split: option.splits if_splits)

text \<open>The validation of the remote tier looks at the job, but writes nothing.\<close>

lemma remote_run_state:
  assumes "dp_foreign d = []" "remote_run step get h r j d = (out, d')"
  shows "dp_store d' = dp_store d \<and> dp_foreign d' = []"
proof -
  obtain o1 d1 where a: "claim_is_still_ours step get (vr_up1 r) j d = (o1, d1)" by fastforce
  note s1 = look_state [OF assms(1) a]
  obtain o2 d2 where b: "claim_is_still_ours step get (vr_up2 r) j (emit GoSent d1) = (o2, d2)" by fastforce
  have s2: "dp_store d2 = dp_store d \<and> dp_foreign d2 = []" using look_state [OF _ b] s1 by simp
  obtain x d3 where de: "detonate_remote step get h r j d = (x, d3)" by fastforce
  have s3: "dp_store d3 = dp_store d \<and> dp_foreign d3 = []"
    using de a b s1 s2 assms(1) by (auto simp: detonate_remote_def take_output_def split: option.splits if_splits open_answer.splits)
  obtain o4 d4 where c: "claim_is_still_ours step get (vr_up3 r) j d3 = (o4, d4)" by fastforce
  have s4: "dp_store d4 = dp_store d \<and> dp_foreign d4 = []" using look_state [OF _ c] s3 by simp
  obtain t d5 where tr: "output_trust step get r j d3 = (t, d5)" by fastforce
  have s5: "dp_store d5 = dp_store d \<and> dp_foreign d5 = []"
    using tr c s3 s4 by (auto simp: output_trust_def split: option.splits if_splits verdict.splits)
  show ?thesis using assms de tr s3 s5
    by (auto simp: remote_run_def split: option.splits if_splits sum.splits trust_result.splits)
qed

lemma remote_validate_state:
  assumes "dp_foreign d = []"
  shows "dp_store (snd (remote_validate step get h r j d)) = dp_store d \<and> dp_foreign (snd (remote_validate step get h r j d)) = []"
proof -
  obtain a dirty fault d1 where rr: "remote_run step get h r j (emit (SlotClaimed True) d) = ((a, dirty, fault), d1)" by (metis surj_pair)
  have "dp_store d1 = dp_store d \<and> dp_foreign d1 = []" using remote_run_state [OF _ rr] assms by simp
  then show ?thesis using rr assms by (auto simp: remote_validate_def split: claim_result.split)
qed

context job_store
begin

definition mine :: "job \<Rightarrow> 's disp \<Rightarrow> bool" where
  "mine j d \<longleftrightarrow> inv (dp_store d) \<and> dp_foreign d = []
     \<and> (\<exists>cur. abs (dp_store d) (job_id j) = Some cur \<and> status cur = RUNNING \<and> claim_id cur = claim_id j)"

definition settled_job :: "job \<Rightarrow> 's disp \<Rightarrow> bool" where
  "settled_job j d \<longleftrightarrow> (\<exists>cur. abs (dp_store d) (job_id j) = Some cur \<and> status cur \<in> {DONE, FAILED, QUEUED})"

lemma mine_emit [simp]: "mine j (emit e d) = mine j d" "settled_job j (emit e d) = settled_job j d"
  by (simp_all add: mine_def settled_job_def)

lemma mine_cas:
  assumes "mine j d" "list_all field_ok fs" "cas step j fs d = (b, d')"
  shows "b \<and> inv (dp_store d') \<and> dp_foreign d' = []
    \<and> (\<exists>cur. status cur = RUNNING \<and> claim_id cur = claim_id j \<and> abs (dp_store d') (job_id j) = Some (setattrs fs cur))"
proof -
  let ?op = "OpCas (job_id j) RUNNING (claim_id j) fs"
  obtain cur where i: "inv (dp_store d)" "dp_foreign d = []" and c: "abs (dp_store d) (job_id j) = Some cur"
    "status cur = RUNNING" "claim_id cur = claim_id j" using assms(1) unfolding mine_def by blast
  have e: "b = (fst (step ?op (dp_store d)) = OBool True)" "dp_store d' = snd (step ?op (dp_store d))" "dp_foreign d' = []"
    using assms(3) i(2) by (auto simp: cas_def submit_def others_def Let_def split_beta emit_def)
  have ok: "op_ok ?op" using assms(2) by simp
  have g: "cas_guard RUNNING (claim_id j) cur" using c by (simp add: cas_guard_def)
  from step_refines [OF i(1) ok] have "fst (step ?op (dp_store d)) = OBool True
      \<and> abs (snd (step ?op (dp_store d))) (job_id j) = Some (setattrs fs cur)"
    by (cases rule: abs_step_cas) (use c(1) g in auto)
  then show ?thesis using e c(2,3) step_inv [OF i(1) ok] by auto
qed

lemma mine_keep:
  assumes "mine j d" "list_all field_ok fs" "\<not> list_ex moves_claim fs" "cas step j fs d = (b, d')"
  shows "b \<and> mine j d'"
  using mine_cas [OF assms(1,2,4)] setattrs_keep [OF assms(3)] unfolding mine_def by metis

lemma mine_settle:
  assumes "mine j d" "list_all field_ok (FStatus st # fs)" "\<not> list_ex sets_status fs" "st \<in> {DONE, FAILED, QUEUED}"
    and "cas step j (FStatus st # fs) d = (b, d')"
  shows "settled_job j d'"
proof -
  obtain cur where "abs (dp_store d') (job_id j) = Some (setattrs (FStatus st # fs) cur)" using mine_cas [OF assms(1,2,5)] by blast
  moreover have "status (setattrs (FStatus st # fs) cur) = st" using setattrs_status [OF assms(3)] by simp
  ultimately show ?thesis using assms(4) unfolding settled_job_def by auto
qed

lemma mine_look:
  assumes "mine j d" "claim_is_still_ours step get True j d = (b, d')"
  shows "b \<and> mine j d'"
proof -
  have f: "dp_foreign d = []" "inv (dp_store d)" using assms(1) by (simp_all add: mine_def)
  have "get (job_id j) (dp_store d) = abs (dp_store d) (job_id j)" by (rule get_abs [OF f(2)])
  then show ?thesis using assms look_state [OF f(1) assms(2)]
    by (auto simp: mine_def claim_is_still_ours_def look_def others_def Let_def)
qed

lemma mine_look_any: "mine j d \<Longrightarrow> claim_is_still_ours step get up j d = (b, d') \<Longrightarrow> mine j d'"
  using look_state [of d step get up j b d'] unfolding mine_def by auto

lemma terminal_settles: "mine j d \<Longrightarrow> times_ok c s \<Longrightarrow> vm_terminal step c s j p ok sm e d = (left, d') \<Longrightarrow> settled_job j d'"
proof -
  assume m: "mine j d" and t: "times_ok c s" and v: "vm_terminal step c s j p ok sm e d = (left, d')"
  let ?fs = "[FFinishedAt (Some (vm_done_at s)), FSummary (summary_json sm), FError e, FExpiresAt (expires_after (vc_retention c) (vm_done_at s))]"
  let ?st = "if ok then DONE else FAILED"
  obtain owned d1 where a: "cas step j (FStatus ?st # ?fs) d = (owned, d1)" by fastforce
  have "settled_job j d1"
    by (rule mine_settle [OF m _ _ _ a]) (use t expires_ok in \<open>auto simp: times_ok_def\<close>)
  moreover have "d' = (if ok \<and> owned then emit Indexed d1 else d1)" using v a by (simp add: vm_terminal_def)
  ultimately show ?thesis by simp
qed

lemma fail_settles:
  "mine j d \<Longrightarrow> 0 < now \<Longrightarrow> list_all field_ok extra \<Longrightarrow> \<not> list_ex sets_status extra
   \<Longrightarrow> vm_fail step c j now err extra d = (b, d') \<Longrightarrow> settled_job j d'"
  unfolding vm_fail_def append.simps
  by (rule mine_settle) (use expires_ok in auto)

lemma requeue_settles:
  assumes "mine j d" "list_all field_ok fs" "\<not> list_ex sets_status fs"
  shows "settled_job j (vm_requeue step j fs d)"
  unfolding vm_requeue_def
  by (rule mine_settle [OF assms(1) _ _ _ prod.collapse [symmetric]]) (use assms in auto)

lemma publish_settles:
  assumes "mine j d" "times_ok c s" "vm_up_publish s" "vm_up_upload s" "vm_publish step get c s j sm d = (left, d')"
  shows "settled_job j d'"
proof -
  obtain ours d1 where o: "claim_is_still_ours step get True j d = (ours, d1)" by fastforce
  note m1 = mine_look [OF assms(1) o]
  obtain ours' d2 where o': "claim_is_still_ours step get True j (emit Published d1) = (ours', d2)" by fastforce
  have m2: "ours' \<and> mine j d2" using mine_look [OF _ o'] m1 by simp
  obtain st d3 where u: "vm_upload step get s j d2 = (st, d3)" by fastforce
  have m3: "mine j d3"
  proof (cases "vm_sealed s \<and> vm_stored s")
    case True
    then show ?thesis using u m2 by (auto simp: vm_upload_def Let_def)
  next
    case False
    let ?e = "emit MarkedPending (if vm_sealed s then emit (Uploaded (vm_stored s)) d2 else d2)"
    obtain x d4 where l: "claim_is_still_ours step get (vm_up_reap s) j ?e = (x, d4)" by fastforce
    have "mine j ?e" using m2 by simp
    then have "mine j d4" using l by (rule mine_look_any)
    moreover have "(st, d3) = (False, if x then emit Reaped d4 else d4)" using u l False by (auto simp: vm_upload_def Let_def)
    ultimately show ?thesis by simp
  qed
  show ?thesis
  proof (cases "vm_metadata s")
    case False
    then have "vm_terminal step c s j False False sm (Some ''metadata_write_failed'') d1 = (left, d')"
      using assms(3,5) o m1 by (simp add: vm_publish_def)
    then show ?thesis using terminal_settles m1 assms(2) by blast
  next
    case True
    have "vm_terminal step c s j (\<not> st) st sm (if st then None else Some (upload_error (vm_sealed s))) d3 = (left, d')"
      using assms(3-5) o m1 o' m2 u True by (cases st) (simp_all add: vm_publish_def)
    then show ?thesis using terminal_settles m3 assms(2) by blast
  qed
qed

lemma judge_settles:
  assumes "mine j d" "times_ok c s" "vm_up_publish s" "vm_up_upload s" "vm_judge step get c s j sm ok d = (left, d')"
  shows "settled_job j d'"
proof (cases "ok \<and> vm_output_check s = None")
  case True
  then show ?thesis using publish_settles [OF assms(1-4)] assms(5) by (simp add: vm_judge_def Let_def)
next
  case False
  then show ?thesis using terminal_settles [OF assms(1,2)] assms(5)
    by (auto simp: vm_judge_def Let_def split: if_splits option.splits)
qed

lemma beats_mine:
  "mine j d \<Longrightarrow> list_all (\<lambda>t. 0 < t) ts \<Longrightarrow> mine j (fold (heartbeat step j) ts d)"
proof (induction ts arbitrary: d)
  case (Cons t ts)
  obtain b d1 where a: "cas step j [FStartedAt (Some t)] d = (b, d1)" by fastforce
  have "mine j d1" using mine_keep [OF Cons.prems(1) _ _ a] Cons.prems(2) by auto
  then show ?case using Cons a by (simp add: heartbeat_def)
qed simp

lemma run_settles:
  assumes "mine j d" "times_ok c s" "vm_up_publish s" "vm_up_upload s"
    and keep: "\<And>d. dp_foreign d = [] \<Longrightarrow> dp_store (snd (validate d)) = dp_store d \<and> dp_foreign (snd (validate d)) = []"
    and r: "vm_run step get c s validate j d = (left, d')"
  shows "settled_job j d'"
proof -
  obtain a d1 where v: "validate_with_heartbeat step s validate j d = (a, d1)" by fastforce
  let ?d0 = "fold (heartbeat step j) (vm_beats s) d"
  have m0: "mine j ?d0" by (rule beats_mine [OF assms(1)]) (use assms(2) in \<open>simp add: times_ok_def\<close>)
  have m1: "mine j d1"
  proof -
    have "d1 = ?d0 \<or> d1 = snd (validate ?d0)" using v by (auto simp: validate_with_heartbeat_def Let_def split: if_splits)
    then show ?thesis using m0 keep [of ?d0] by (auto simp: mine_def)
  qed
  show ?thesis
  proof (cases a)
    case (VReturned sm ok)
    then show ?thesis using judge_settles [OF m1 assms(2-4)] r v by (simp add: vm_run_def)
  next
    case VNoSlot
    then show ?thesis using requeue_settles [OF m1] r v by (auto simp: vm_run_def)
  next
    case (VRaised name)
    then obtain b where "vm_fail step c j (vm_raised_at s) name [] d1 = (b, d')"
      using r v by (auto simp: vm_run_def vm_raised_def split: prod.splits)
    then show ?thesis using fail_settles [OF m1, of "vm_raised_at s" "[]"] assms(2) by (simp add: times_ok_def)
  qed
qed

lemma try_settles:
  assumes "mine j d" "times_ok c s" "vm_up_publish s" "vm_up_upload s"
    and keep: "\<And>d. dp_foreign d = [] \<Longrightarrow> dp_store (snd (validate d)) = dp_store d \<and> dp_foreign (snd (validate d)) = []"
    and r: "vm_try step get c s validate j d = (left, d')"
  shows "settled_job j d'"
proof (cases "vm_sample s")
  case VPresent
  then show ?thesis using run_settles [OF assms(1-5)] r by (simp add: vm_try_def)
next
  case VFetched
  let ?d1 = "if materialise_attempts j = 0 then d else snd (cas step j [FMaterialiseAttempts 0] d)"
  have "mine j ?d1" using assms(1) mine_keep [OF assms(1) _ _ prod.collapse [symmetric], of "[FMaterialiseAttempts 0]"] by simp
  then show ?thesis using run_settles [OF _ assms(2-5)] r VFetched by (simp add: vm_try_def)
next
  case VNoHash
  then obtain b where "vm_fail step c j (vm_raised_at s) ''FileNotFoundError'' [] d = (b, d')"
    using r by (auto simp: vm_try_def vm_raised_def split: prod.splits)
  then show ?thesis using fail_settles [OF assms(1), of "vm_raised_at s" "[]"] assms(2) by (simp add: times_ok_def)
next
  case (VFetchRaised name)
  then obtain b where "vm_fail step c j (vm_raised_at s) name [] d = (b, d')"
    using r by (auto simp: vm_try_def vm_raised_def split: prod.splits)
  then show ?thesis using fail_settles [OF assms(1), of "vm_raised_at s" "[]"] assms(2) by (simp add: times_ok_def)
next
  case VFetchFailed
  let ?n = "materialise_attempts j + 1"
  have pos: "0 < vm_now s" "vm_now s + vc_blob_backoff c \<noteq> 0" using assms(2) by (simp_all add: times_ok_def)
  show ?thesis
  proof (cases "int MAX_MATERIALISE_ATTEMPTS \<le> ?n")
    case True
    then obtain b where "vm_fail step c j (vm_now s) ''sample could not be materialised'' [FMaterialiseAttempts ?n] d = (b, d')"
      using r VFetchFailed by (auto simp: vm_try_def Let_def split: prod.splits)
    then show ?thesis using fail_settles [OF assms(1) pos(1), of "[FMaterialiseAttempts ?n]"] by simp
  next
    case False
    then have "d' = vm_requeue step j [FClaimableAfter (Some (vm_now s + vc_blob_backoff c)), FMaterialiseAttempts ?n] d"
      using r VFetchFailed by (simp add: vm_try_def Let_def)
    then show ?thesis using requeue_settles [OF assms(1)] pos(2) by simp
  qed
qed

lemma process_settles:
  assumes "mine j d" "times_ok c s" "vm_up_publish s" "vm_up_upload s"
    and keep: "\<And>d. dp_foreign d = [] \<Longrightarrow> dp_store (snd (validate d)) = dp_store d \<and> dp_foreign (snd (validate d)) = []"
  shows "settled_job j (vm_process step get c s validate j d)"
proof -
  have m0: "mine j (d\<lparr>dp_self := x\<rparr>)" "mine j (d\<lparr>dp_self := x, dp_grants := y\<rparr>)" for x y using assms(1) by (simp_all add: mine_def)
  have now: "0 < vm_now s" using assms(2) by (simp add: times_ok_def)
  show ?thesis
  proof (cases rule: vm_process_cases [of c s j d step get validate])
    case (refused d0 n m)
    have "vm_now s + refusal_delay n \<noteq> 0" using now refusal_delay_pos [of n] by simp
    then show ?thesis unfolding refused(4) using requeue_settles [OF m0(2)] by (simp add: refused(2))
  next
    case (dishonored d0 b d1)
    have "settled_job j d1" by (rule fail_settles [OF _ now _ _ dishonored(3)]) (simp_all add: dishonored(2) m0)
    then show ?thesis by (simp add: dishonored(4))
  next
    case (lost d0 d1)
    have "mine j d0" by (simp add: lost(2) m0)
    from mine_keep [OF this _ _ lost(3)] show ?thesis by simp
  next
    case (ran d0 d1 left d2)
    have "mine j d0" by (simp add: ran(2) m0)
    from mine_keep [OF this _ _ ran(3)] have "mine j d1" by simp
    from try_settles [OF this assms(2-5) ran(4)] show ?thesis
      by (auto simp: ran(5) vm_finally_def split: prod.split)
  qed
qed

lemma stale_process:
  assumes "inv (dp_store d)" "spent t (abs (dp_store d))" "patient t d" "claim_id j = Some t" "0 < vm_now s"
  shows "\<exists>op post. dp_trace (vm_process step get c s validate j d) = dp_trace d @ Wrote op (OBool False) # post
    \<and> post \<in> {[], [Purged True]}"
proof -
  have stale: "\<exists>d'. cas step j fs d0 = (False, d') \<and> dp_trace d' = dp_trace d0 @ [Wrote (OpCas (job_id j) RUNNING (claim_id j) fs) (OBool False)]"
    if "list_all field_ok fs" "dp_store d0 = dp_store d" "dp_foreign d0 = dp_foreign d" for fs d0
  proof -
    have "patient t d0" using assms(3) that(3) by (simp add: patient_def)
    moreover have "inv (dp_store d0)" "spent t (abs (dp_store d0))" using assms(1,2) that(2) by simp_all
    ultimately have "\<exists>d'. submit step (OpCas (job_id j) RUNNING (claim_id j) fs) d0 = (OBool False, d')"
      using stale_cas [of d0 t j fs] assms(4) that(1) by blast
    then obtain d' where s: "submit step (OpCas (job_id j) RUNNING (claim_id j) fs) d0 = (OBool False, d')" ..
    then show ?thesis using submit_trace [OF s] by (simp add: cas_def)
  qed
  show ?thesis
  proof (cases rule: vm_process_cases [of c s j d step get validate])
    case (refused d0 n m)
    let ?fs = "[FStatus QUEUED, FClaimId None, FStartedAt None, FClaimableAfter (Some (vm_now s + refusal_delay n))]"
    have ok: "list_all field_ok ?fs" using assms(5) refusal_delay_pos [of n] by simp
    obtain d' where "cas step j ?fs (d0\<lparr>dp_grants := (dp_grants d0)\<lparr>bo_n := m\<rparr>\<rparr>) = (False, d')"
      "dp_trace d' = dp_trace d @ [Wrote (OpCas (job_id j) RUNNING (claim_id j) ?fs) (OBool False)]"
      using stale [OF ok, of "d0\<lparr>dp_grants := (dp_grants d0)\<lparr>bo_n := m\<rparr>\<rparr>"] by (auto simp: refused(2))
    then show ?thesis by (simp add: refused(4) vm_requeue_def)
  next
    case (dishonored d0 b d1)
    let ?fs = "[FStatus FAILED, FFinishedAt (Some (vm_now s)), FError (Some ''net_policy not honored''),
        FExpiresAt (expires_after (vc_retention c) (vm_now s))] @ []"
    have ok: "list_all field_ok ?fs" using assms(5) expires_ok by simp
    obtain d' where "cas step j ?fs d0 = (False, d')"
      "dp_trace d' = dp_trace d @ [Wrote (OpCas (job_id j) RUNNING (claim_id j) ?fs) (OBool False)]"
      using stale [OF ok, of d0] by (auto simp: dishonored(2))
    then show ?thesis using dishonored(3,4) by (simp add: vm_fail_def)
  next
    case (lost d0 d1)
    let ?fs = "[FWorkerRuntime (Some ''warm''), FWorkerTier (Some (vc_tier c))]"
    obtain d' where "cas step j ?fs d0 = (False, d')"
      "dp_trace d' = dp_trace d @ [Wrote (OpCas (job_id j) RUNNING (claim_id j) ?fs) (OBool False)]"
      using stale [of ?fs d0] by (auto simp: lost(2))
    then show ?thesis using lost(3,4) by simp
  next
    case (ran d0 d1 left d2)
    let ?fs = "[FWorkerRuntime (Some ''warm''), FWorkerTier (Some (vc_tier c))]"
    have "\<exists>d'. cas step j ?fs d0 = (False, d')" using stale [of ?fs d0] by (auto simp: ran(2))
    then show ?thesis using ran(3) by simp
  qed
qed

end

section \<open>Properties\<close>

text \<open>C30: on a remote or VM tier a job becomes DONE only on output the host trusted: a write of DONE
by a run over the remote validation means that the job passed the node's grants and the tier's network
policy, that the host's validation of the worker's output came back trusted and not an engine error,
that the claim was found to be still ours right before the upload, and that the upload was stored
right before the write, which is fenced by the claim; and the run writes DONE once.\<close>

theorem vm_done_only_after_trust:
  assumes "dp_trace (vm_process step get c s (remote_validate step get h r j) j d) = dp_trace d @ es"
    and "e \<in> set es" "done_write e"
  shows "admitted c s j d \<and> vm_output_check s = None
    \<and> (\<exists>env. vr_verdict r = Trusted env \<and> e_status env \<noteq> EnvEngineError)
    \<and> (\<exists>pre l fs out post. e = Wrote (OpCas (job_id j) RUNNING (claim_id j) fs) out \<and> ours_look j l
         \<and> es = pre @ [l, Uploaded True, e] @ post \<and> list_all no_done (pre @ post))"
proof -
  have c: "vm_commits j (admitted c s j d \<and> judged_ok s (remote_validate step get h r j)) d
      (vm_process step get c s (remote_validate step get h r j) j d)"
    by (rule vm_process_commits) (rule remote_validate_no_done)
  note w = vm_commits_done [OF c assms]
  then obtain d1 sm d2 where v: "remote_validate step get h r j d1 = (VReturned sm True, d2)" by (auto simp: judged_ok_def)
  have "\<exists>env. vr_verdict r = Trusted env \<and> e_status env \<noteq> EnvEngineError" using remote_success_trusted [OF v] by blast
  then show ?thesis using w by (auto simp: judged_ok_def)
qed

definition demo_vm :: vm_cfg where
  "demo_vm = \<lparr>vc_tier = ''static'', vc_engine = None, vc_retention = 0, vc_fixed = Some ''none'', vc_engine_policy = None,
     vc_env = [], vc_blob_backoff = 30, vc_trust_metadata = True, vc_max_summary = 1000\<rparr>"

definition demo_vm_seams :: vm_seams where
  "demo_vm_seams = \<lparr>vm_world = demo_world\<lparr>w_env := (\<lambda>_. None)\<rparr>, vm_now = 60, vm_sample = VPresent, vm_beats = [61], vm_timed_out = False,
     vm_bytes = (\<lambda>_. Some 10), vm_sealed_env = Some demo_sealed, vm_summary_of = (\<lambda>_. JNull), vm_output_check = None,
     vm_up_publish = True, vm_metadata = True, vm_up_upload = True, vm_sealed = True, vm_stored = True, vm_up_reap = True,
     vm_done_at = 70, vm_raised_at = 71\<rparr>"

text \<open>a dispatcher whose claim is gone leaves no mark: once a peer has taken the job over, everything
the run does to the store is one write that the store refuses, no validation is started, nothing is
uploaded or reaped, and at most this node's own working directory is removed (stated for the Redis
store, whatever well-behaved clients do meanwhile).\<close>

theorem vm_stale_owner_silent:
  assumes "redis_inv (dp_store d)" "spent t (\<lambda>k. redis_get k (dp_store d))" "patient t d" "claim_id j = Some t" "0 < vm_now s"
  shows "\<exists>op post. dp_trace (vm_process redis_step redis_get c s validate j d) = dp_trace d @ Wrote op (OBool False) # post
    \<and> post \<in> {[], [Purged True]}"
  by (rule redis.stale_process) (rule assms)+

theorem vm_stale_owner_silent_witness:
  "\<exists>op post. dp_trace (vm_process redis_step redis_get demo_vm demo_vm_seams (Pair VNoSlot) (demo_run_job ''t1'')
      (demo_disp (redis_create (demo_run_job ''t2'') []))) = Wrote op (OBool False) # post"
proof -
  have "redis_inv (dp_store (demo_disp (redis_create (demo_run_job ''t2'') [])))"
    "spent ''t1'' (\<lambda>k. redis_get k (dp_store (demo_disp (redis_create (demo_run_job ''t2'') []))))"
    "patient ''t1'' (demo_disp (redis_create (demo_run_job ''t2'') []))"
    using demo_run_kv(1) [of "''t2''"]
    by (auto simp: demo_disp_def patient_def spent_def live_claim_def redis_create_def redis_get_def fetch_def decode_encode
        split: if_splits)
  from vm_stale_owner_silent [OF this, of "demo_run_job ''t1''" demo_vm_seams demo_vm "Pair VNoSlot"]
  show ?thesis by (auto simp: demo_vm_seams_def demo_disp_def)
qed

text \<open>C31: a claimed job does not stay RUNNING: when the job is stored under our claim, no other client
interferes and the store answers the looks, one run of the dispatcher over the remote validation ends
with the job DONE, FAILED or back in the queue, whatever the sample, the slots, the worker, the trust
gate, the upload and the clocks answer.\<close>

theorem vm_job_settled:
  assumes "mem_inv (dp_store d)" "dp_foreign d = []"
    and "mem_get (job_id j) (dp_store d) = Some cur" "status cur = RUNNING" "claim_id cur = claim_id j"
    and "times_ok c s" "vm_up_publish s" "vm_up_upload s"
  shows "\<exists>cur'. mem_get (job_id j) (dp_store (vm_process mem_step mem_get c s (remote_validate mem_step mem_get h r j) j d)) = Some cur'
    \<and> status cur' \<in> {DONE, FAILED, QUEUED}"
proof -
  have "mem.mine j d" using assms(1-5) by (simp add: mem.mine_def)
  from mem.process_settles [OF this assms(6-8), of "remote_validate mem_step mem_get h r j"] remote_validate_state
  show ?thesis unfolding mem.settled_job_def by blast
qed

theorem vm_job_settled_witness:
  "\<exists>cur'. mem_get ''a1'' (dp_store (vm_process mem_step mem_get demo_vm demo_vm_seams
       (remote_validate mem_step mem_get [] demo_remote (demo_run_job ''t1'')) (demo_run_job ''t1'') demo_remote_disp)) = Some cur'
    \<and> status cur' \<in> {DONE, FAILED, QUEUED}"
proof -
  have "mem_inv (dp_store demo_remote_disp)" "mem_get (job_id (demo_run_job ''t1'')) (dp_store demo_remote_disp) = Some (demo_run_job ''t1'')"
    by (simp_all add: demo_disp_def mem_inv_def mem_create_def mem_empty_def mem_get_def)
  from vm_job_settled [OF this(1) _ this(2), of demo_vm demo_vm_seams "[]" demo_remote]
  show ?thesis by (simp add: demo_disp_def times_ok_def demo_vm_def demo_vm_seams_def)
qed

text \<open>the only copy of a result survives a failed upload, and only then: a run that marked its
output as waiting for an upload keeps the job's directory and the mark exactly when its own write
failed the job; if a peer finished the job first, mark and directory go.\<close>

theorem vm_result_copy_kept:
  assumes "dp_trace (vm_process step get c s (remote_validate step get h r j) j d) = dp_trace d @ es" "MarkedPending \<in> set es"
  shows "(Purged True \<in> set es \<longleftrightarrow> \<not> list_ex failed_write es) \<and> (ClearedPending \<in> set es \<longleftrightarrow> \<not> list_ex failed_write es)"
proof -
  let ?v = "remote_validate step get h r j"
  have calm: "grows calm x (snd (?v x))" for x
    by (rule remote_validate_grows) (auto simp: calm_def looking_def)
  have nm: "MarkedPending \<notin> set fs" if "grows unmarked d d'" "dp_trace d' = dp_trace d @ fs" for d' fs
    using that by (auto simp: grows_def list_all_iff)
  show ?thesis
  proof (cases rule: vm_process_cases [of c s j d step get ?v])
    case (refused d0 n m)
    have "grows unmarked (d0\<lparr>dp_grants := (dp_grants d0)\<lparr>bo_n := m\<rparr>\<rparr>) (vm_process step get c s ?v j d)"
      unfolding refused(4) vm_requeue_def by (rule cas_unmarked')
    then show ?thesis using nm assms by (simp add: refused(2) grows_self)
  next
    case (dishonored d0 b d1)
    have "grows unmarked d d1" using cas_unmarked dishonored(2,3) by (fastforce simp: vm_fail_def grows_self)
    then obtain us where us: "dp_trace d1 = dp_trace d @ us" "list_all unmarked us" unfolding grows_def by blast
    have "es = us @ [Purged True]" using assms(1) us(1) unfolding dishonored(4) by simp
    then show ?thesis using assms(2) us(2) by (auto simp: list_all_iff)
  next
    case (lost d0 d1)
    have "grows unmarked d d1" using cas_unmarked [OF lost(3)] by (simp add: lost(2) grows_self)
    then obtain us where us: "dp_trace d1 = dp_trace d @ us" "list_all unmarked us" unfolding grows_def by blast
    have "es = us @ [Purged True]" using assms(1) us(1) unfolding lost(4) by simp
    then show ?thesis using assms(2) us(2) by (auto simp: list_all_iff)
  next
    case (ran d0 d1 left d2)
    have "grows calm d0 d1" by (rule cas_calm [OF ran(3)]) simp
    then have g: "grows calm d d1" by (simp add: ran(2) grows_self)
    obtain fs where fs: "dp_trace d2 = dp_trace d @ fs" "kept_ok left fs"
      using keeps_before [OF g vm_try_keeps [OF calm ran(4)]] by (auto simp: keeps_def)
    obtain pending owned terminal where l: "left = (pending, owned, terminal)" by (cases left) auto
    let ?post = "if pending \<and> (owned \<or> terminal = None) then [] else (if pending then [ClearedPending] else []) @ [Purged True]"
    have "dp_trace (vm_finally left d2) = dp_trace d2 @ ?post" unfolding l by (simp add: vm_finally_def)
    then have es: "es = fs @ ?post" using assms(1) fs(1) unfolding ran(5) by simp
    have k: "pending \<longleftrightarrow> MarkedPending \<in> set fs" "Purged True \<notin> set fs" "ClearedPending \<notin> set fs"
      "pending \<Longrightarrow> terminal \<noteq> None \<and> owned = list_ex failed_write fs"
      using fs(2) unfolding l kept_ok_def by simp_all
    have "MarkedPending \<notin> set ?post" by simp
    then have p: pending using assms(2) k(1) unfolding es set_append by blast
    obtain y where "terminal = Some y" using k(4) [OF p] by blast
    then have post: "?post = (if owned then [] else [ClearedPending, Purged True])" using p by simp
    have own: "list_ex failed_write fs = owned" using k(4) [OF p] by blast
    show ?thesis
    proof (cases owned)
      case True
      then have "es = fs" using es post by simp
      then show ?thesis using k(2,3) own True by simp
    next
      case False
      then have "es = fs @ [ClearedPending, Purged True]" using es post by simp
      then show ?thesis using own False by simp
    qed
  qed
qed


section \<open>Runs that witness the properties\<close>

text \<open>The demonstration job passes the gate; a run of it that stores the result, and one that does not.\<close>

definition demo_vm_run :: "vm_seams \<Rightarrow> mem_store disp" where
  "demo_vm_run s = vm_process mem_step mem_get demo_vm s (remote_validate mem_step mem_get [] demo_remote (demo_run_job ''t1''))
     (demo_run_job ''t1'') demo_remote_disp"

lemma demo_gate: "fst (vm_gate demo_vm (vm_world demo_vm_seams) (demo_run_job ''t1'') sg_init) = None"
  by code_simp


lemmas vm_defs = vm_process_def vm_try_def vm_run_def vm_judge_def vm_publish_def vm_upload_def vm_terminal_def vm_finally_def
  validate_with_heartbeat_def heartbeat_def remote_validate_def vm_summary_def

lemma demo_policy: "policy_honored demo_vm (demo_run_job ''t1'')"
  by code_simp

lemma demo_vm_trace:
  "\<exists>pre w. dp_trace (demo_vm_run demo_vm_seams) = pre @ [Uploaded True, w, Indexed, Purged True] \<and> done_write w"
proof -
  obtain sg where g: "vm_gate demo_vm (vm_world demo_vm_seams) (demo_run_job ''t1'') sg_init = (None, sg)"
    using demo_gate by (metis prod.collapse)
  have s: "dp_self demo_remote_disp = sg_init" by (simp add: demo_disp_def)
  show ?thesis
    using g demo_policy
    by (simp add: demo_vm_run_def vm_defs s remote_defs demo_remote_def disp_defs demo_store_defs demo_disp_def demo_sealed_def
        demo_parsed_def demo_vm_def demo_vm_seams_def)
qed


theorem vm_done_only_after_trust_witness:
  "\<exists>pre w env. dp_trace (demo_vm_run demo_vm_seams) = pre @ [Uploaded True, w, Indexed, Purged True] \<and> done_write w
     \<and> vr_verdict demo_remote = Trusted env \<and> e_status env \<noteq> EnvEngineError"
proof -
  obtain pre w where t: "dp_trace (demo_vm_run demo_vm_seams) = pre @ [Uploaded True, w, Indexed, Purged True]" "done_write w"
    using demo_vm_trace by blast
  have n: "dp_trace demo_remote_disp = []" by (simp add: demo_disp_def)
  from vm_done_only_after_trust [of mem_step mem_get demo_vm demo_vm_seams "[]" demo_remote "demo_run_job ''t1''" demo_remote_disp
      "pre @ [Uploaded True, w, Indexed, Purged True]" w] t n
  show ?thesis by (simp add: demo_vm_run_def)
qed

lemma demo_unstored_trace:
  "\<exists>pre post. dp_trace (demo_vm_run (demo_vm_seams\<lparr>vm_stored := False\<rparr>)) = pre @ MarkedPending # post"
proof -
  obtain sg where g: "vm_gate demo_vm (vm_world demo_vm_seams) (demo_run_job ''t1'') sg_init = (None, sg)"
    using demo_gate by (metis prod.collapse)
  have s: "dp_self demo_remote_disp = sg_init" by (simp add: demo_disp_def)
  have "MarkedPending \<in> set (dp_trace (demo_vm_run (demo_vm_seams\<lparr>vm_stored := False\<rparr>)))"
    using g demo_policy
    by (simp add: demo_vm_run_def vm_defs s remote_defs demo_remote_def disp_defs demo_store_defs demo_disp_def demo_sealed_def
        demo_parsed_def demo_vm_def demo_vm_seams_def)
  then show ?thesis by (simp add: in_set_conv_decomp)
qed

theorem vm_result_copy_kept_witness:
  "MarkedPending \<in> set (dp_trace (demo_vm_run (demo_vm_seams\<lparr>vm_stored := False\<rparr>)))
   \<and> (Purged True \<in> set (dp_trace (demo_vm_run (demo_vm_seams\<lparr>vm_stored := False\<rparr>)))
      \<longleftrightarrow> \<not> list_ex failed_write (dp_trace (demo_vm_run (demo_vm_seams\<lparr>vm_stored := False\<rparr>))))"
proof -
  have m: "MarkedPending \<in> set (dp_trace (demo_vm_run (demo_vm_seams\<lparr>vm_stored := False\<rparr>)))"
    using demo_unstored_trace by auto
  have n: "dp_trace demo_remote_disp = []" by (simp add: demo_disp_def)
  from vm_result_copy_kept [of mem_step mem_get demo_vm "demo_vm_seams\<lparr>vm_stored := False\<rparr>" "[]" demo_remote "demo_run_job ''t1''"
      demo_remote_disp "dp_trace (demo_vm_run (demo_vm_seams\<lparr>vm_stored := False\<rparr>))"] m n
  show ?thesis by (simp add: demo_vm_run_def)
qed

section \<open>What is not honored never runs\<close>

text \<open>a job that this tier must not run is never sent to a worker: when the tier's fixed egress is
not the job's effective policy, when the node's certificate does not grant the work, or when the tier
declares no egress at all on a node that checks its grants, the run is one write (back to the queue, or
FAILED), after which at most the job's directory goes; no slot is claimed, nothing is sent, nothing
uploaded.\<close>

theorem vm_dishonored_never_runs:
  assumes "dp_trace (vm_process step get c s validate j d) = dp_trace d @ es"
    and "(\<exists>f. vc_fixed c = Some f \<and> effective_policy c j \<noteq> py_lower (py_strip f))
      \<or> (vc_fixed c = None \<and> fst (self_grants_of (vm_world s) (dp_self d)) \<noteq> NoGate)
      \<or> fst (vm_gate c (vm_world s) j (dp_self d)) \<noteq> None"
  shows "\<exists>fs st out. es \<in> {[Wrote (OpCas (job_id j) RUNNING (claim_id j) fs) out], [Wrote (OpCas (job_id j) RUNNING (claim_id j) fs) out, Purged True]}
    \<and> FStatus st \<in> set fs \<and> st \<in> {QUEUED, FAILED}"
proof -
  have "\<not> admitted c s j d"
    using assms(2)
  proof (elim disjE)
    assume "vc_fixed c = None \<and> fst (self_grants_of (vm_world s) (dp_self d)) \<noteq> NoGate"
    then have "fst (vm_gate c (vm_world s) j (dp_self d)) = Some Undeclared"
      by (auto simp: vm_gate_def effective_exit_def split: prod.splits)
    then show ?thesis by (simp add: admitted_def)
  qed (auto simp: admitted_def policy_honored_def)
  have one: "\<exists>out. dp_trace x = dp_trace y @ [Wrote (OpCas (job_id j) RUNNING (claim_id j) fs) out]"
    if "snd (cas step j fs y) = x" for x y fs
    using cas_trace [OF prod.collapse [symmetric], of step j fs y] that by auto
  show ?thesis
  proof (cases rule: vm_process_cases [of c s j d step get validate])
    case (refused d0 n m)
    let ?fs = "[FStatus QUEUED, FClaimId None, FStartedAt None, FClaimableAfter (Some (vm_now s + refusal_delay n))]"
    obtain out where "es = [Wrote (OpCas (job_id j) RUNNING (claim_id j) ?fs) out]"
      using one [of ?fs "d0\<lparr>dp_grants := (dp_grants d0)\<lparr>bo_n := m\<rparr>\<rparr>"] assms(1)
      by (auto simp: refused(2,4) vm_requeue_def)
    then show ?thesis by (intro exI [of _ ?fs] exI [of _ QUEUED]) auto
  next
    case (dishonored d0 b d1)
    let ?fs = "[FStatus FAILED, FFinishedAt (Some (vm_now s)), FError (Some ''net_policy not honored''),
        FExpiresAt (expires_after (vc_retention c) (vm_now s))]"
    have "snd (cas step j ?fs d0) = d1" using dishonored(3) by (simp add: vm_fail_def)
    from one [OF this] obtain out where "es = [Wrote (OpCas (job_id j) RUNNING (claim_id j) ?fs) out, Purged True]"
      using assms(1) by (auto simp: dishonored(2,4))
    then show ?thesis by (intro exI [of _ ?fs] exI [of _ FAILED]) auto
  next
    case (lost d0 d1)
    then show ?thesis using \<open>\<not> admitted c s j d\<close> by simp
  next
    case (ran d0 d1 left d2)
    then show ?thesis using \<open>\<not> admitted c s j d\<close> by simp
  qed
qed


theorem vm_dishonored_never_runs_witness:
  "\<exists>e post. dp_trace (vm_process mem_step mem_get (demo_vm\<lparr>vc_fixed := Some ''tor''\<rparr>) demo_vm_seams (Pair VNoSlot)
      (demo_run_job ''t1'') demo_remote_disp) = e # post \<and> set post \<subseteq> {Purged True}"
proof -
  have n: "dp_trace demo_remote_disp = []" by (simp add: demo_disp_def)
  have "effective_policy (demo_vm\<lparr>vc_fixed := Some ''tor''\<rparr>) (demo_run_job ''t1'') \<noteq> py_lower (py_strip ''tor'')" by code_simp
  then have "\<exists>f. vc_fixed (demo_vm\<lparr>vc_fixed := Some ''tor''\<rparr>) = Some f
      \<and> effective_policy (demo_vm\<lparr>vc_fixed := Some ''tor''\<rparr>) (demo_run_job ''t1'') \<noteq> py_lower (py_strip f)" by simp
  from vm_dishonored_never_runs [of mem_step mem_get "demo_vm\<lparr>vc_fixed := Some ''tor''\<rparr>" demo_vm_seams "Pair VNoSlot"
      "demo_run_job ''t1''" demo_remote_disp, OF _ disjI1 [OF this]] n
  show ?thesis by auto
qed

end
