(* ===== verification/Vm_Build.thy ===== *)
theory Vm_Build
  imports Vm_Job Worker_Env
begin

text \<open>
  \<^verbatim>\<open>host/runtime/vm_dispatch.py\<close> around the single job: the maintenance sweeps of
  \<open>VmJobDispatcher\<close> over any job store, when the maintenance loop is due, and what
  \<open>build_remote_vm_dispatcher\<close> computes before it builds a dispatcher: the placement of egress, the
  budgets, and the environment every remote worker is given.
\<close>

section \<open>Sweeps\<close>

text \<open>A job that lost its owner: running, of this engine, not claimed by a node that holds no store
  credentials, started by a dispatcher of this tier, and without a heartbeat since the cutoff.\<close>

definition vm_orphan :: "vm_cfg \<Rightarrow> bool \<Rightarrow> real \<Rightarrow> job \<Rightarrow> bool" where
  "vm_orphan c sole_owner cutoff j \<longleftrightarrow>
     (vc_engine c = None \<or> vc_engine c = Some (engine j)) \<and> \<not> is_node_claim (claim_id j)
     \<and> (sole_owner \<or> worker_runtime j = Some ''warm'' \<and> worker_tier j = Some (vc_tier c))
     \<and> (case started_at j of None \<Rightarrow> False | Some t \<Rightarrow> t < cutoff)"

definition orphan_fields :: "vm_cfg \<Rightarrow> string \<Rightarrow> real \<Rightarrow> field_upd list" where
  "orphan_fields c err now =
     [FStatus FAILED, FFinishedAt (Some now), FError (Some err), FExpiresAt (expires_after (vc_retention c) now)]"

definition fail_orphan :: "vm_cfg \<Rightarrow> (job \<Rightarrow> real) \<Rightarrow> job \<Rightarrow> store_op" where
  "fail_orphan c finished j = OpCas (job_id j) RUNNING (claim_id j) (orphan_fields c ''orphaned'' (finished j))"

definition recover_orphans ::
  "(store_op \<Rightarrow> 's \<Rightarrow> outcome \<times> 's) \<Rightarrow> (job \<Rightarrow> store_op list) \<Rightarrow> vm_cfg \<Rightarrow> bool \<Rightarrow> real \<Rightarrow> (job \<Rightarrow> real) \<Rightarrow> job list \<Rightarrow> 's
     \<Rightarrow> string list \<times> 's" where
  "recover_orphans step foreign c sole_owner cutoff finished running s =
     sweep step foreign (fail_orphan c finished) (filter (vm_orphan c sole_owner cutoff) running) s"

definition vm_stale :: "vm_cfg \<Rightarrow> bool \<Rightarrow> real \<Rightarrow> job \<Rightarrow> bool" where
  "vm_stale c sole_owner cutoff j \<longleftrightarrow>
     (sole_owner \<or> vc_engine c = None \<or> vc_engine c = Some (engine j)) \<and> created_at j \<le> cutoff"

definition fail_queued :: "vm_cfg \<Rightarrow> (job \<Rightarrow> real) \<Rightarrow> job \<Rightarrow> store_op" where
  "fail_queued c finished j = OpCas (job_id j) QUEUED None (orphan_fields c ''max queued age'' (finished j))"

definition fail_stale_queued ::
  "(store_op \<Rightarrow> 's \<Rightarrow> outcome \<times> 's) \<Rightarrow> (job \<Rightarrow> store_op list) \<Rightarrow> vm_cfg \<Rightarrow> bool \<Rightarrow> real \<Rightarrow> real \<Rightarrow> (job \<Rightarrow> real) \<Rightarrow> job list \<Rightarrow> 's
     \<Rightarrow> string list \<times> 's" where
  "fail_stale_queued step foreign c sole_owner max_age now finished queued s =
     (if max_age \<le> 0 then ([], s)
      else sweep step foreign (fail_queued c finished) (filter (vm_stale c sole_owner (now - max_age)) queued) s)"

text \<open>The maintenance loop: how long it sleeps (\<^const>\<open>None\<close> when nothing is to be done, ever), and
  what is due when it wakes.\<close>

record maint =
  mt_interval :: real
  mt_canary_every :: "real option"
  mt_last_maint :: real
  mt_last_canary :: real

definition canary_on :: "maint \<Rightarrow> bool" where
  "canary_on m = (case mt_canary_every m of None \<Rightarrow> False | Some every \<Rightarrow> 0 < every)"

definition maint_waits :: "real \<Rightarrow> maint \<Rightarrow> real list" where
  "maint_waits now m =
     (if 0 < mt_interval m then [mt_interval m - (now - mt_last_maint m)] else [])
     @ (if canary_on m then [the (mt_canary_every m) - (now - mt_last_canary m)] else [])"

definition maint_sleep :: "real \<Rightarrow> maint \<Rightarrow> real option" where
  "maint_sleep now m = (case maint_waits now m of [] \<Rightarrow> None | ws \<Rightarrow> Some (max (1 / 20) (Min (set ws))))"

definition canary_due :: "real \<Rightarrow> maint \<Rightarrow> bool" where
  "canary_due now m \<longleftrightarrow> canary_on m \<and> the (mt_canary_every m) \<le> now - mt_last_canary m"

definition maint_due :: "real \<Rightarrow> maint \<Rightarrow> bool" where
  "maint_due now m \<longleftrightarrow> 0 < mt_interval m \<and> mt_interval m \<le> now - mt_last_maint m"

text \<open>One wake-up; the canary takes time, so its stamp is read after it.\<close>

definition maint_wake :: "real \<Rightarrow> real \<Rightarrow> real \<Rightarrow> real \<Rightarrow> maint \<Rightarrow> bool \<times> bool \<times> maint" where
  "maint_wake now now_canary after_canary after_maint m =
     (let c = canary_due now_canary m; m1 = (if c then m\<lparr>mt_last_canary := after_canary\<rparr> else m); d = maint_due now m1
      in (c, d, if d then m1\<lparr>mt_last_maint := now\<rparr> else m1))"

section \<open>Building a remote dispatcher\<close>

text \<open>\<open>_place_egress\<close>: \<open>require\<close> is whether the runtime can place egress at all, the census counts the
  static workers that have it, do not, or do not say.\<close>

definition place_egress :: "bool \<Rightarrow> (nat \<times> nat \<times> nat) option \<Rightarrow> bool" where
  "place_egress require census \<longleftrightarrow>
     \<not> require \<or> (case census of None \<Rightarrow> True | Some (yes, no, unknown) \<Rightarrow> \<not> (yes = 0 \<and> unknown = 0 \<and> 0 < no))"

text \<open>The thaw budget: a finite number of seconds that the tier's configuration or its runtime declares.\<close>

definition resume_budget :: "pyfloat option \<Rightarrow> pyfloat option \<Rightarrow> real option" where
  "resume_budget cfg_value runtime_value =
     (case (if cfg_value = None then runtime_value else cfg_value) of Some (Fin r) \<Rightarrow> Some r | _ \<Rightarrow> None)"

definition thaw_budget :: "real option \<Rightarrow> real option" where
  "thaw_budget r = (case r of Some x \<Rightarrow> if 0 < x then Some x else None | None \<Rightarrow> None)"

definition seal_slack :: "nat option \<Rightarrow> real" where
  "seal_slack max_output = 30 + real (case max_output of None \<Rightarrow> 0 | Some n \<Rightarrow> n) / (50 * 1024 * 1024)"

definition watchdog :: "real \<Rightarrow> real option \<Rightarrow> real \<Rightarrow> nat option \<Rightarrow> real \<Rightarrow> real" where
  "watchdog claim_timeout resume worker_timeout max_output cleanup =
     claim_timeout + (case resume of None \<Rightarrow> 0 | Some r \<Rightarrow> r) + worker_timeout + seal_slack max_output + cleanup"

text \<open>The environment the host forces on every job of the tier; the caps are given as text.\<close>

record caps =
  cp_metadata :: "string option"
  cp_total :: "string option"
  cp_count :: "string option"
  cp_artifact :: "string option"

definition cap_env :: "caps \<Rightarrow> (string \<times> string) list" where
  "cap_env cp =
     List.map_filter (\<lambda>(k, v). map_option (Pair k) v)
       [(''BLASTBOX_MAX_METADATA'', cp_metadata cp), (''BLASTBOX_MAX_TOTAL_ARTIFACTS'', cp_total cp),
        (''BLASTBOX_MAX_ARTIFACTS'', cp_count cp), (''BLASTBOX_MAX_ARTIFACT'', cp_artifact cp)]"

definition remote_personality :: "(string \<times> string) list \<Rightarrow> engine_spec \<Rightarrow> personality" where
  "remote_personality env es =
     resolve_net_policy None (if es_net_policy es = [] then ''none'' else es_net_policy es) (parse_personalities env) False"

definition resolved_policy :: "(string \<times> string) list \<Rightarrow> engine_spec \<Rightarrow> string option" where
  "resolved_policy env es = (if es_net_policy es = [] then None else Some (pn_name (remote_personality env es)))"

definition grants_egress :: "personality \<Rightarrow> bool" where
  "grants_egress p \<longleftrightarrow> pn_exit p \<notin> {''none'', ''drop''}"

definition remote_net_env :: "personality \<Rightarrow> (string \<times> string) list \<Rightarrow> caps \<Rightarrow> (string \<times> string) list" where
  "remote_net_env p proxy_env cp =
     fold (\<lambda>(k, v). AList.update k v) (proxy_env @ cap_env cp)
       [(''BLASTBOX_NET_EGRESS'', if grants_egress p then ''1'' else ''0'')]"

text \<open>\<open>sanitize\<close>: what is left of the client's parameters, then the host's environment, which wins.\<close>

definition remote_params ::
  "(json \<Rightarrow> string) \<Rightarrow> engine_spec \<Rightarrow> (string \<times> string) list \<Rightarrow> (string \<times> json) list \<Rightarrow> (string \<times> string) list" where
  "remote_params render es host_env ps =
     fold (\<lambda>(k, v). AList.update k v) host_env (sanitize_params render ps (es_allowed es) (es_reserved es) (es_defaults es))"

section \<open>Properties\<close>

text \<open>orphan recovery fails exactly the jobs nobody works on: on the in-memory store without
interference, the jobs failed are the running ones of this dispatcher's engine and tier (or of any tier,
when it is the sole owner) that have had no heartbeat since the cutoff and are not claimed by a
credential-less node; every other listed job is left as it was, and a failed one keeps its claim.\<close>

theorem vm_recovery_exact:
  assumes "mem_inv s" "distinct (map job_id running)"
    and "\<forall>r \<in> set running. mem_get (job_id r) s = Some r \<and> status r = RUNNING"
    and "\<forall>r. 0 < finished r" "r \<in> set running"
  shows "fst (recover_orphans mem_step (\<lambda>_. []) c sole cutoff finished running s) = map job_id (filter (vm_orphan c sole cutoff) running)
    \<and> (\<exists>x. mem_get (job_id r) (snd (recover_orphans mem_step (\<lambda>_. []) c sole cutoff finished running s)) = Some x
         \<and> (if vm_orphan c sole cutoff r then status x = FAILED \<and> claim_id x = claim_id r else x = r))"
proof -
  let ?O = "filter (vm_orphan c sole cutoff) running"
  have ok: "list_all field_ok (orphan_fields c e (finished q))" for e q
    using assms(4) expires_ok by (simp add: orphan_fields_def) (metis less_irrefl)
  have pick: "find (\<lambda>q. job_id q = job_id r) (filter P running) = (if P r then Some r else None)" for P
    using assms(2,5) by (induction running) (auto simp: find_None_iff image_iff)
  have q: "fst (sweep mem_step (\<lambda>_. []) (fail_orphan c finished) ?O s) = map job_id ?O
    \<and> mem_get (job_id r) (snd (sweep mem_step (\<lambda>_. []) (fail_orphan c finished) ?O s))
      = (case find (\<lambda>q. job_id q = job_id r) ?O of
           Some q \<Rightarrow> Some (setattrs (orphan_fields c ''orphaned'' (finished q)) q) | None \<Rightarrow> mem_get (job_id r) s)"
    by (rule mem.sweep_quiet [where st = RUNNING and fence = claim_id and upd = "\<lambda>q. orphan_fields c ''orphaned'' (finished q)"])
       (use assms ok in \<open>auto simp: fail_orphan_def distinct_map_filter\<close>)
  show ?thesis
    using q assms(3,5) unfolding recover_orphans_def pick by (simp add: orphan_fields_def)
qed

text \<open>a client cannot lift the host's limits on a remote worker: whatever parameters it sends, the
switch for network egress, the proxy and every cap that the host forwards have the host's value, and any
other parameter that arrives is one the engine allows.\<close>

theorem remote_env_not_forged:
  assumes "distinct (map fst host_env)" "remote_params render es host_env ps = out"
  shows "(\<forall>(k, v) \<in> set host_env. map_of out k = Some v)
    \<and> (\<forall>k v. map_of out k = Some v \<longrightarrow> k \<in> fst ` set host_env \<or> keep_param (es_allowed es) (es_reserved es) k)"
proof -
  let ?s = "sanitize_params render ps (es_allowed es) (es_reserved es) (es_defaults es)"
  have d: "distinct (map fst (rev host_env))" using assms(1) by (simp add: rev_map [symmetric])
  have m: "map_of out k = (map_of ?s ++ map_of (rev host_env)) k" for k
    unfolding assms(2) [symmetric] remote_params_def fold_update_map ..
  have "map_of out k = Some v" if "(k, v) \<in> set host_env" for k v
  proof -
    have "map_of (rev host_env) k = Some v" using d that by (simp add: map_of_eq_Some_iff)
    then show ?thesis by (simp add: m map_add_def)
  qed
  moreover have "k \<in> fst ` set host_env \<or> keep_param (es_allowed es) (es_reserved es) k" if "map_of out k = Some v" for k v
  proof (cases "map_of (rev host_env) k")
    case None
    then have "map_of ?s k = Some v" using that by (simp add: m map_add_def)
    then show ?thesis by (auto simp: sanitized split: if_splits)
  next
    case (Some w)
    then show ?thesis by (auto dest!: map_of_SomeD intro: rev_image_eqI)
  qed
  ultimately show ?thesis by blast
qed

text \<open>maintenance is not forgotten and does not spin: whatever is due later, the loop never sleeps
past the first deadline (give or take the floor of a twentieth of a second), and when it wakes at a
deadline that task is due.\<close>

theorem maintenance_wakes_in_time:
  assumes "maint_sleep now m = Some w"
  shows "1 / 20 \<le> w
    \<and> (0 < mt_interval m \<longrightarrow> now + w \<le> max (mt_last_maint m + mt_interval m) (now + 1 / 20))
    \<and> (\<forall>every. mt_canary_every m = Some every \<longrightarrow> 0 < every \<longrightarrow> now + w \<le> max (mt_last_canary m + every) (now + 1 / 20))
    \<and> (\<forall>t \<ge> now + w. maint_due t m \<or> canary_due t m)"
proof -
  let ?ws = "maint_waits now m"
  obtain x xs where ne: "?ws = x # xs" using assms by (cases ?ws) (simp_all add: maint_sleep_def)
  then have w: "w = max (1 / 20) (Min (set ?ws))" using assms by (simp add: maint_sleep_def)
  have fin: "finite (set ?ws)" "set ?ws \<noteq> {}" using ne by auto
  have le: "Min (set ?ws) \<le> y" if "y \<in> set ?ws" for y using that by simp
  have "Min (set ?ws) \<in> set ?ws" using fin by (rule Min_in)
  then have due: "maint_due t m \<or> canary_due t m" if "now + w \<le> t" for t
  proof -
    have "now + Min (set ?ws) \<le> t" using that w by linarith
    moreover have "(0 < mt_interval m \<and> Min (set ?ws) = mt_interval m - (now - mt_last_maint m))
        \<or> (canary_on m \<and> Min (set ?ws) = the (mt_canary_every m) - (now - mt_last_canary m))"
      using \<open>Min (set ?ws) \<in> set ?ws\<close> unfolding maint_waits_def by (auto split: if_splits)
    ultimately show ?thesis unfolding maint_due_def canary_due_def by auto
  qed
  have "now + w \<le> max (mt_last_maint m + mt_interval m) (now + 1 / 20)" if "0 < mt_interval m"
  proof -
    have "mt_interval m - (now - mt_last_maint m) \<in> set ?ws" using that by (simp add: maint_waits_def)
    from le [OF this] show ?thesis by (auto simp: w max_def)
  qed
  moreover have "now + w \<le> max (mt_last_canary m + every) (now + 1 / 20)" if "mt_canary_every m = Some every" "0 < every" for every
  proof -
    have "every - (now - mt_last_canary m) \<in> set ?ws" using that by (simp add: maint_waits_def canary_on_def)
    from le [OF this] show ?thesis by (auto simp: w max_def)
  qed
  ultimately show ?thesis using due w by auto
qed


lemma vm_recovery_exact_witness:
  "\<exists>x. mem_get ''a1'' (snd (recover_orphans mem_step (\<lambda>_. []) demo_vm True 1000 (\<lambda>_. 1000) [demo_run_job ''t1'']
        (mem_create (demo_run_job ''t1'') mem_empty))) = Some x \<and> status x = FAILED"
proof -
  have o: "vm_orphan demo_vm True 1000 (demo_run_job ''t1'')"
    by (simp add: vm_orphan_def demo_vm_def is_node_claim_def NODE_CLAIM_PREFIX_def startswith_def)
  show ?thesis
    using vm_recovery_exact [OF demo_run_mem(1), where running = "[demo_run_job ''t1'']" and finished = "\<lambda>_. 1000"
        and r = "demo_run_job ''t1''" and c = demo_vm and sole = True and cutoff = 1000] o
    by (auto simp: demo_run_mem)
qed

definition demo_host_env :: "(string \<times> string) list" where
  "demo_host_env = remote_net_env NONE [] \<lparr>cp_metadata = Some ''10'', cp_total = None, cp_count = Some ''5'', cp_artifact = None\<rparr>"

lemma remote_env_not_forged_witness:
  "map_of (remote_params (\<lambda>_. []) demo_engine demo_host_env [(''BLASTBOX_NET_EGRESS'', JStr ''1'')]) ''BLASTBOX_NET_EGRESS'' = Some ''0''"
proof -
  have d: "demo_host_env = [(''BLASTBOX_NET_EGRESS'', ''0''), (''BLASTBOX_MAX_METADATA'', ''10''), (''BLASTBOX_MAX_ARTIFACTS'', ''5'')]"
    by code_simp
  have "distinct (map fst demo_host_env)" by (simp add: d)
  from remote_env_not_forged [OF this refl] show ?thesis by (simp add: d)
qed

lemma maintenance_wakes_in_time_witness:
  "maint_due 70 \<lparr>mt_interval = 60, mt_canary_every = None, mt_last_maint = 10, mt_last_canary = 0\<rparr>"
proof -
  have "maint_sleep 50 \<lparr>mt_interval = 60, mt_canary_every = None, mt_last_maint = 10, mt_last_canary = 0\<rparr> = Some 20"
    by (simp add: maint_sleep_def maint_waits_def canary_on_def)
  from maintenance_wakes_in_time [OF this] show ?thesis by (simp add: canary_due_def canary_on_def)
qed

end
