(* ===== verification/Static_Pool.thy ===== *)
theory Static_Pool
  imports Blastbox_Prelude
begin

text \<open>
  \<^verbatim>\<open>host/runtime/static_pool.py\<close>: the tier of always-on workers.  Nothing is booted; a spawn claims a
  free worker of a fixed fleet and a reap gives it back.  The state is the free list, the workers
  the pool convicted, the cooldowns after dirty releases and what each worker last said about
  egress.  The code holds its lock for short blocks only and probes between them, so \<open>scan\<close>, the
  loop of \<open>spawn\<close>, takes for each block what the other threads did before it.
\<close>

section \<open>Configuration\<close>

record static_worker =
  sw_host :: "string option"
  sw_port :: int
  sw_url :: "string option"
  sw_token :: "string option"

definition rstrip_slash :: "string \<Rightarrow> string" where
  "rstrip_slash s = rev (dropWhile (\<lambda>c. c = CHR ''/'') (rev s))"

definition port_of :: "int \<Rightarrow> string \<Rightarrow> int res" where
  "port_of default_port port =
     (if port = [] then Inr default_port
      else case py_int port of None \<Rightarrow> Inl (ValueError ''int'') | Some n \<Rightarrow> Inr n)"

definition parse_worker :: "int \<Rightarrow> string option \<Rightarrow> string \<Rightarrow> static_worker res" where
  "parse_worker default_port default_token spec0 =
     (let spec = py_strip spec0 in
      if startswith spec ''http://'' \<or> startswith spec ''https://'' then
        Inr \<lparr>sw_host = None, sw_port = 8765, sw_url = Some (rstrip_slash spec), sw_token = default_token\<rparr>
      else
        let host = takeWhile (\<lambda>c. c \<noteq> CHR '':'') spec in
        case port_of default_port (drop (length host + 1) spec) of
          Inl e \<Rightarrow> Inl e
        | Inr p \<Rightarrow> Inr \<lparr>sw_host = Some host, sw_port = p, sw_url = None, sw_token = default_token\<rparr>)"

text \<open>
  \<open>float(s)\<close>: surrounding whitespace, a sign, an infinity or \<open>nan\<close> in any case, or a decimal
  fraction with an exponent, single underscores between digits.  A magnitude that rounds past the
  largest double is an infinity; smaller ones are kept exactly.
\<close>

definition digits_val :: "string \<Rightarrow> int option" where
  "digits_val s = digits_acc False 0 s"

definition frac_digits :: "string \<Rightarrow> nat" where
  "frac_digits s = length (filter (\<lambda>c. c \<noteq> CHR ''_'') s)"

definition mantissa :: "string \<Rightarrow> real option" where
  "mantissa s =
     (let whole = takeWhile (\<lambda>c. c \<noteq> CHR ''.'') s; frac = drop (length whole + 1) s in
      if whole = [] \<and> frac = [] then None
      else case (if whole = [] then Some 0 else digits_val whole, if frac = [] then Some 0 else digits_val frac) of
        (Some w, Some f) \<Rightarrow> Some (real_of_int w + real_of_int f / 10 ^ frac_digits frac)
      | _ \<Rightarrow> None)"

definition exponent :: "string \<Rightarrow> int option" where
  "exponent s =
     (case s of
        [] \<Rightarrow> None
      | c # cs \<Rightarrow> if c = CHR ''-'' then map_option uminus (digits_val cs)
                  else if c = CHR ''+'' then digits_val cs else digits_val s)"

definition scaled :: "real \<Rightarrow> int \<Rightarrow> real" where
  "scaled m e = (if 0 \<le> e then m * 10 ^ nat e else m / 10 ^ nat (- e))"

definition unsigned_float :: "string \<Rightarrow> pyfloat option" where
  "unsigned_float s =
     (if s = ''inf'' \<or> s = ''infinity'' then Some PInf
      else if s = ''nan'' then Some NaN
      else
        let m = takeWhile (\<lambda>c. c \<noteq> CHR ''e'') s in
        case (mantissa m, if m = s then Some 0 else exponent (drop (length m + 1) s)) of
          (Some x, Some e) \<Rightarrow>
            Some (if 2 ^ 1024 - 2 ^ 970 \<le> scaled x e then PInf else Fin (scaled x e))
        | _ \<Rightarrow> None)"

fun negate :: "pyfloat \<Rightarrow> pyfloat" where
  "negate (Fin x) = Fin (- x)"
| "negate PInf = NInf"
| "negate NInf = PInf"
| "negate NaN = NaN"

definition py_float :: "string \<Rightarrow> pyfloat option" where
  "py_float s0 =
     (let s = py_lower (py_strip s0) in
      case s of
        [] \<Rightarrow> None
      | c # cs \<Rightarrow> if c = CHR ''-'' then map_option negate (unsigned_float cs)
                  else if c = CHR ''+'' then unsigned_float cs else unsigned_float s)"

text \<open>\<open>a < b\<close> on floats, and Python's \<open>max\<close> and \<open>min\<close>, which keep the first argument when the
  comparison says no, so also when one of them is \<open>nan\<close>.\<close>

fun pf_less :: "pyfloat \<Rightarrow> pyfloat \<Rightarrow> bool" where
  "pf_less (Fin a) (Fin b) = (a < b)"
| "pf_less NInf b = (b \<noteq> NInf \<and> b \<noteq> NaN)"
| "pf_less (Fin _) b = (b = PInf)"
| "pf_less _ _ = False"

definition py_max :: "pyfloat \<Rightarrow> pyfloat \<Rightarrow> pyfloat" where
  "py_max a b = (if pf_less a b then b else a)"

definition py_min :: "pyfloat \<Rightarrow> pyfloat \<Rightarrow> pyfloat" where
  "py_min a b = (if pf_less b a then b else a)"

definition MIN_PROBE_S :: pyfloat where
  "MIN_PROBE_S = Fin (1 / 4)"

record static_cfg =
  sc_workers :: "static_worker list"
  sc_health_path :: string
  sc_probe_timeout :: pyfloat
  sc_cooldown :: pyfloat

text \<open>\<open>__post_init__\<close> of the configuration.\<close>

definition clamped :: "static_cfg \<Rightarrow> static_cfg" where
  "clamped c = (if pf_less (sc_probe_timeout c) MIN_PROBE_S then c\<lparr>sc_probe_timeout := MIN_PROBE_S\<rparr> else c)"

definition env_default :: "(string \<Rightarrow> string option) \<Rightarrow> string \<Rightarrow> string option \<Rightarrow> string option" where
  "env_default get k d = (case get k of Some v \<Rightarrow> if v = [] then d else Some v | None \<Rightarrow> d)"

fun parse_all :: "(string \<Rightarrow> static_worker res) \<Rightarrow> string list \<Rightarrow> static_worker list res" where
  "parse_all p [] = Inr []"
| "parse_all p (x # xs) =
     (if py_strip x = [] then parse_all p xs
      else case p x of
        Inl e \<Rightarrow> Inl e
      | Inr w \<Rightarrow> (case parse_all p xs of Inl e \<Rightarrow> Inl e | Inr ws \<Rightarrow> Inr (w # ws)))"

definition float_env :: "(string \<Rightarrow> string option) \<Rightarrow> string \<Rightarrow> string \<Rightarrow> pyfloat res" where
  "float_env get k d =
     (case py_float (case env_default get k (Some d) of Some v \<Rightarrow> v | None \<Rightarrow> d) of
        None \<Rightarrow> Inl (ValueError ''float'') | Some x \<Rightarrow> Inr x)"

definition static_from_env :: "(string \<Rightarrow> string option) \<Rightarrow> static_cfg res" where
  "static_from_env get =
     (case port_of 8765 (case env_default get ''BLASTBOX_STATIC_AGENT_PORT'' (Some ''8765'') of Some v \<Rightarrow> v | None \<Rightarrow> ''8765'') of
        Inl e \<Rightarrow> Inl e
      | Inr default_port \<Rightarrow>
          let token = env_default get ''BLASTBOX_STATIC_WORKER_TOKEN'' None;
              raw = (case env_default get ''BLASTBOX_STATIC_WORKERS'' None of Some v \<Rightarrow> v | None \<Rightarrow> []) in
          case parse_all (parse_worker default_port token) (split_on (CHR '','') raw) of
            Inl e \<Rightarrow> Inl e
          | Inr ws \<Rightarrow>
              case float_env get ''BLASTBOX_STATIC_PROBE_TIMEOUT_S'' ''5'' of
                Inl e \<Rightarrow> Inl e
              | Inr timeout \<Rightarrow>
                  case float_env get ''BLASTBOX_STATIC_DIRTY_COOLDOWN_S'' ''60'' of
                    Inl e \<Rightarrow> Inl e
                  | Inr cooldown \<Rightarrow>
                      Inr (clamped \<lparr>sc_workers = ws,
                             sc_health_path = (case env_default get ''BLASTBOX_STATIC_HEALTH_PATH'' (Some ''/healthz'') of
                                                 Some v \<Rightarrow> v | None \<Rightarrow> ''/healthz''),
                             sc_probe_timeout = timeout, sc_cooldown = cooldown\<rparr>))"

section \<open>Asking a worker\<close>

fun show_nat :: "nat \<Rightarrow> string" where
  "show_nat n = (if n < 10 then [char_of (48 + n)] else show_nat (n div 10) @ [char_of (48 + n mod 10)])"
declare show_nat.simps [simp del]

definition show_int :: "int \<Rightarrow> string" where
  "show_int i = (if i < 0 then CHR ''-'' # show_nat (nat (- i)) else show_nat (nat i))"

definition base_url :: "bool \<Rightarrow> static_worker \<Rightarrow> string" where
  "base_url tls w =
     (case sw_url w of
        Some (c # u) \<Rightarrow>
          let url = rstrip_slash (c # u) in
          if tls \<and> startswith url ''http://'' then ''https://'' @ drop 7 url else url
      | _ \<Rightarrow> (if tls then ''https'' else ''http'') @ ''://'' @ (case sw_host w of Some h \<Rightarrow> h | None \<Rightarrow> ''None'')
               @ '':'' @ show_int (sw_port w))"

text \<open>A probe says alive, dead or nothing; it could not be attempted; or it raised something else.\<close>

datatype probe_answer = Says "bool option" | NotAttempted | Broke py_exc

fun health_ok :: "probe_answer \<Rightarrow> bool option res" where
  "health_ok (Says v) = Inr v"
| "health_ok NotAttempted = Inr None"
| "health_ok (Broke e) = Inl e"

definition probe_budget :: "static_cfg \<Rightarrow> pyfloat option \<Rightarrow> pyfloat" where
  "probe_budget c timeout = py_max MIN_PROBE_S (case timeout of None \<Rightarrow> sc_probe_timeout c | Some t \<Rightarrow> t)"

text \<open>The time a hand-out probe may take; \<^const>\<open>None\<close>: it is not asked at all.\<close>

definition claim_probe_budget :: "static_cfg \<Rightarrow> pyfloat option \<Rightarrow> pyfloat option" where
  "claim_probe_budget c budget =
     (let timeout = (case budget of None \<Rightarrow> sc_probe_timeout c
                     | Some b \<Rightarrow> py_min (sc_probe_timeout c) (py_max (Fin 0) b)) in
      if pf_less timeout MIN_PROBE_S then None else Some (probe_budget c (Some timeout)))"

definition static_alive_for_claim :: "static_cfg \<Rightarrow> pyfloat option \<Rightarrow> (pyfloat \<Rightarrow> probe_answer) \<Rightarrow> bool option res" where
  "static_alive_for_claim c budget ask =
     (case claim_probe_budget c budget of None \<Rightarrow> Inr None | Some t \<Rightarrow> health_ok (ask t))"

text \<open>The exchange behind \<open>make_capability_probe\<close>: too long a body, a failed request, something else
  raised, or a reply.  \<open>loads\<close> is \<open>json.loads\<close>.\<close>

datatype exchange = CapTooLarge | CapFailed | CapCrashed | CapReply int string

fun capability_probe :: "(string \<Rightarrow> json option) \<Rightarrow> exchange \<Rightarrow> (string \<times> json) list option option" where
  "capability_probe loads CapTooLarge = Some (Some [])"
| "capability_probe loads CapFailed = Some None"
| "capability_probe loads CapCrashed = None"
| "capability_probe loads (CapReply status raw) =
     Some (if \<not> (200 \<le> status \<and> status < 300) then None
           else case loads (if raw = [] then ''{}'' else raw) of
             Some (JObj kvs) \<Rightarrow> Some kvs
           | _ \<Rightarrow> Some [])"

definition ask_egress :: "(string \<times> json) list option option \<Rightarrow> bool option" where
  "ask_egress answer =
     (case answer of Some (Some info) \<Rightarrow> Some (jget info ''egress'' = JBool True) | _ \<Rightarrow> None)"

fun available_loop :: "bool \<Rightarrow> probe_answer list \<Rightarrow> bool option res" where
  "available_loop unknown [] = Inr (if unknown then None else Some False)"
| "available_loop unknown (a # as) =
     (case health_ok a of
        Inl e \<Rightarrow> Inl e
      | Inr v \<Rightarrow> if v = Some True then Inr (Some True) else available_loop (unknown \<or> v = None) as)"

definition available :: "probe_answer list \<Rightarrow> bool option res" where
  "available answers = (if answers = [] then Inr (Some False) else available_loop False answers)"

text \<open>The census: of the \<open>total\<close> workers the first \<open>length futs\<close> probes could be scheduled; \<^const>\<open>None\<close>
  is a probe that did not end in time or raised.\<close>

definition static_census :: "nat \<Rightarrow> bool option option list \<Rightarrow> nat \<times> nat \<times> nat" where
  "static_census total_workers futs =
     (if total_workers = 0 then (0, 0, 0)
      else let yes = length (filter (\<lambda>f. f = Some (Some True)) futs);
               no = length (filter (\<lambda>f. f = Some (Some False)) futs) in
           (yes, no, (total_workers - length futs) + (length futs - yes - no)))"

end
