(* ===== verification/Static_Fleet.thy ===== *)
theory Static_Fleet
  imports Static_Pool
begin

text \<open>
  \<^verbatim>\<open>host/runtime/static_pool.py\<close>, \<open>StaticPoolRuntime\<close>: claiming and releasing the workers of the
  fleet.  A spawn probes outside the lock, so other threads run between its locked blocks; what
  they do is an argument of \<open>spawn\<close>, and \<open>fleet_step\<close> is what one locked block of any thread does.
  \<open>fl_out\<close> is a history the code does not keep: the workers handed out and not yet given back.
\<close>

section \<open>The locked blocks\<close>

record fleet =
  fl_free :: "nat list"
  fl_burned :: "nat set"
  fl_until :: "nat \<Rightarrow> pyfloat option"
  fl_seen :: "nat \<Rightarrow> bool option"
  fl_ids :: nat
  fl_out :: "nat set"

definition new_fleet :: "static_cfg \<Rightarrow> fleet" where
  "new_fleet c = \<lparr>fl_free = [0..<length (sc_workers c)], fl_burned = {}, fl_until = (\<lambda>_. None), fl_seen = (\<lambda>_. None),
                  fl_ids = 1, fl_out = {}\<rparr>"

definition cooldown_of :: "fleet \<Rightarrow> nat \<Rightarrow> pyfloat" where
  "cooldown_of s i = (case fl_until s i of None \<Rightarrow> Fin 0 | Some t \<Rightarrow> t)"

definition note_egress :: "nat \<Rightarrow> bool option \<Rightarrow> fleet \<Rightarrow> fleet" where
  "note_egress i verdict s =
     (case verdict of None \<Rightarrow> s | Some v \<Rightarrow> s\<lparr>fl_seen := (fl_seen s)(i \<mapsto> v)\<rparr>)"

definition take_worker :: "nat \<Rightarrow> fleet \<Rightarrow> bool \<times> fleet" where
  "take_worker i s =
     (if i \<notin> set (fl_free s) then (False, s)
      else (True, s\<lparr>fl_free := remove1 i (fl_free s), fl_out := insert i (fl_out s)\<rparr>))"

definition fresh_id :: "fleet \<Rightarrow> string \<times> fleet" where
  "fresh_id s = (''static-'' @ show_nat (fl_ids s), s\<lparr>fl_ids := fl_ids s + 1\<rparr>)"

definition known_capable :: "nat \<Rightarrow> fleet \<Rightarrow> bool" where
  "known_capable n s \<longleftrightarrow> (\<exists>i \<in> set [0..<n]. fl_seen s i = Some True \<and> i \<notin> fl_burned s)"

definition burn_out :: "nat \<Rightarrow> fleet \<Rightarrow> fleet" where
  "burn_out i s = s\<lparr>fl_burned := insert i (fl_burned s), fl_free := remove1 i (fl_free s)\<rparr>"

definition cooldown_end :: "static_cfg \<Rightarrow> real \<Rightarrow> pyfloat" where
  "cooldown_end c now = (case sc_cooldown c of Fin d \<Rightarrow> Fin (now + d) | x \<Rightarrow> x)"

definition static_reap :: "static_cfg \<Rightarrow> nat \<Rightarrow> bool \<Rightarrow> real \<Rightarrow> fleet \<Rightarrow> fleet" where
  "static_reap c i dirty now s =
     (let s1 = s\<lparr>fl_until := (if dirty \<and> pf_less (Fin 0) (sc_cooldown c) then (fl_until s)(i \<mapsto> cooldown_end c now)
                              else (fl_until s)(i := None)),
                 fl_out := fl_out s - {i}\<rparr> in
      if i \<notin> set (fl_free s1) \<and> i \<notin> fl_burned s1 then s1\<lparr>fl_free := fl_free s1 @ [i]\<rparr> else s1)"

section \<open>Spawning\<close>

record static_slot =
  ss_id :: string
  ss_worker :: nat
  ss_ip :: "string option"
  ss_url :: string
  ss_token :: "string option"
  ss_port :: int
  ss_spawned_at :: real

definition endpoint :: "static_slot \<Rightarrow> (string \<times> int) option" where
  "endpoint sl = (case ss_ip sl of Some ip \<Rightarrow> Some (ip, ss_port sl) | None \<Rightarrow> None)"

definition static_identity :: "static_slot \<Rightarrow> string" where
  "static_identity sl = ''static:'' @ show_nat (ss_worker sl)"

text \<open>The answers a spawn gets, its two clock readings, and what other threads do before each of its
  locked blocks: before it looks at a worker, notes its answer, takes it, and before it gives up.\<close>

record spawn_world =
  sw_probe :: "nat \<Rightarrow> probe_answer"
  sw_cap :: "nat \<Rightarrow> (string \<times> json) list option option"
  sw_now :: real
  sw_stamp :: real
  sw_look :: "nat \<Rightarrow> fleet \<Rightarrow> fleet"
  sw_note :: "nat \<Rightarrow> fleet \<Rightarrow> fleet"
  sw_take :: "nat \<Rightarrow> fleet \<Rightarrow> fleet"
  sw_ids :: "nat \<Rightarrow> fleet \<Rightarrow> fleet"
  sw_end :: "fleet \<Rightarrow> fleet"

record skips =
  saw_unhealthy :: bool
  saw_cooling :: bool
  saw_no_egress :: bool
  saw_egress_unknown :: bool
  saw_health_unknown :: bool

definition no_skips :: skips where
  "no_skips = \<lparr>saw_unhealthy = False, saw_cooling = False, saw_no_egress = False, saw_egress_unknown = False,
               saw_health_unknown = False\<rparr>"

datatype static_spawned = Slot static_slot | PoolExhausted | PoolNoEgress | PoolUnhealthy | ProbeRaised py_exc

definition index_of :: "static_worker \<Rightarrow> static_worker list \<Rightarrow> nat" where
  "index_of w ws = length (takeWhile (\<lambda>v. v \<noteq> w) ws)"

definition give_up :: "nat \<Rightarrow> skips \<Rightarrow> fleet \<Rightarrow> static_spawned" where
  "give_up n k s =
     (if saw_no_egress k \<and> \<not> saw_unhealthy k \<and> \<not> saw_cooling k \<and> \<not> saw_egress_unknown k
         \<and> \<not> saw_health_unknown k \<and> \<not> known_capable n s then PoolNoEgress
      else if \<not> saw_unhealthy k then PoolExhausted
      else PoolUnhealthy)"

definition claim_slot :: "static_cfg \<Rightarrow> bool \<Rightarrow> real \<Rightarrow> nat \<Rightarrow> string \<Rightarrow> static_slot" where
  "claim_slot c tls stamp i sid =
     (let w = sc_workers c ! i in
      \<lparr>ss_id = sid, ss_worker = i, ss_ip = sw_host w, ss_url = base_url tls w, ss_token = sw_token w,
       ss_port = sw_port w, ss_spawned_at = stamp\<rparr>)"

text \<open>What asking one candidate gives: a reason to skip it, or it may be taken.\<close>

datatype static_asked = Skip "skips \<Rightarrow> skips" | MayTake | Raises py_exc

definition ask_candidate :: "static_cfg \<Rightarrow> bool \<Rightarrow> spawn_world \<Rightarrow> nat \<Rightarrow> fleet \<Rightarrow> static_asked \<times> fleet" where
  "ask_candidate c require w i s0 =
     (let s = sw_look w i s0 in
      if pf_less (Fin (sw_now w)) (cooldown_of s i) then (Skip (saw_cooling_update (\<lambda>_. True)), s)
      else case health_ok (sw_probe w i) of
        Inl e \<Rightarrow> (Raises e, s)
      | Inr verdict \<Rightarrow>
          if verdict \<noteq> Some True then
            (Skip (if verdict = Some False then saw_unhealthy_update (\<lambda>_. True) else saw_health_unknown_update (\<lambda>_. True)), s)
          else if \<not> require then (MayTake, s)
          else
            let cap = ask_egress (sw_cap w i);
                s1 = note_egress (index_of (sc_workers c ! i) (sc_workers c)) cap (sw_note w i s) in
            if cap \<noteq> Some True then
              (Skip (if cap = Some False then saw_no_egress_update (\<lambda>_. True) else saw_egress_unknown_update (\<lambda>_. True)), s1)
            else (MayTake, s1))"

fun scan :: "static_cfg \<Rightarrow> bool \<Rightarrow> bool \<Rightarrow> spawn_world \<Rightarrow> nat list \<Rightarrow> skips \<Rightarrow> fleet \<Rightarrow> static_spawned \<times> fleet" where
  "scan c tls require w [] k s =
     (let s1 = sw_end w s in (give_up (length (sc_workers c)) k s1, s1))"
| "scan c tls require w (i # is) k s =
     (case ask_candidate c require w i s of
        (Raises e, s1) \<Rightarrow> (ProbeRaised e, s1)
      | (Skip f, s1) \<Rightarrow> scan c tls require w is (f k) s1
      | (MayTake, s1) \<Rightarrow>
          (case take_worker i (sw_take w i s1) of
             (False, s2) \<Rightarrow> scan c tls require w is k s2
           | (True, s2) \<Rightarrow>
               (case fresh_id (sw_ids w i s2) of
                  (sid, s3) \<Rightarrow> (Slot (claim_slot c tls (sw_stamp w) i sid), s3))))"

definition static_spawn :: "static_cfg \<Rightarrow> bool \<Rightarrow> bool \<Rightarrow> spawn_world \<Rightarrow> fleet \<Rightarrow> static_spawned \<times> fleet" where
  "static_spawn c tls require w s =
     (if fl_free s = [] then (PoolExhausted, s) else scan c tls require w (fl_free s) no_skips s)"

section \<open>Selecting the tier\<close>

datatype selection = Selected static_cfg bool | Unavailable | NoVerdict | SelectRaised py_exc

text \<open>\<open>tls\<close> is whether the dispatcher has a TLS context; \<open>ask\<close> is the probe.\<close>

definition select_static_pool_runtime ::
  "(string \<Rightarrow> string option) \<Rightarrow> bool \<Rightarrow> bool \<Rightarrow> (static_cfg \<Rightarrow> static_worker \<Rightarrow> probe_answer) \<Rightarrow> selection" where
  "select_static_pool_runtime get require_available tls ask =
     (case static_from_env get of
        Inl e \<Rightarrow> SelectRaised e
      | Inr c \<Rightarrow>
          if sc_workers c = [] \<and> require_available then Unavailable
          else if \<not> require_available then Selected c tls
          else case available (map (ask c) (sc_workers c)) of
            Inl e \<Rightarrow> SelectRaised e
          | Inr None \<Rightarrow> NoVerdict
          | Inr (Some v) \<Rightarrow> if v then Selected c tls else Unavailable)"

end
