(* ===== verification/Static_Run.thy ===== *)
theory Static_Run
  imports Static_Fleet
begin

text \<open>
  The static fleet over every order of its locked blocks, and what one spawn does among them.  The
  locale \<open>lease_office\<close> is what a pool relies on of a provider of workers: a worker is given only
  when it is not out.  Its client lemma, that two leases of one worker have a return in between, is
  proved once and interpreted on the fleet.  A reap names a worker, not a lease, and a slot can be reaped
  twice (\<open>Pool_Protocol\<close>): \<open>slot_run\<close> follows the slots, the second reaps included, under what is left
  to the pool, that a slot is not reaped again when its worker is already with the next one.
\<close>

section \<open>Leases\<close>

datatype 'w lease = Given 'w | Back 'w

fun leased :: "'w lease \<Rightarrow> 'w set \<Rightarrow> 'w set" where
  "leased (Given w) ws = insert w ws"
| "leased (Back w) ws = ws - {w}"

inductive lease_run :: "('w lease option \<Rightarrow> 's \<Rightarrow> 's \<Rightarrow> bool) \<Rightarrow> 's \<Rightarrow> 'w lease list \<Rightarrow> 's \<Rightarrow> bool"
  for move where
  start: "lease_run move s [] s"
| silent: "lease_run move s es s' \<Longrightarrow> move None s' s'' \<Longrightarrow> lease_run move s es s''"
| event: "lease_run move s es s' \<Longrightarrow> move (Some e) s' s'' \<Longrightarrow> lease_run move s (es @ [e]) s''"

lemma lease_run_trans:
  "lease_run move s' es' s'' \<Longrightarrow> lease_run move s es s' \<Longrightarrow> lease_run move s (es @ es') s''"
proof (induction rule: lease_run.induct)
  case (event s1 es1 s2 e s3)
  then show ?case using lease_run.event [of move s "es @ es1" s2 e s3] by simp
qed (auto intro: lease_run.silent)

lemma lease_run_silent: "move None s s' \<Longrightarrow> lease_run move s [] s'"
  by (rule lease_run.silent [OF lease_run.start])

lemma lease_run_event: "move (Some e) s s' \<Longrightarrow> lease_run move s [e] s'"
  using lease_run.event [OF lease_run.start, of move e s s'] by simp

lemma leased_kept: "w \<in> ws \<Longrightarrow> Back w \<notin> set es \<Longrightarrow> w \<in> fold leased es ws"
proof (induction es arbitrary: ws)
  case (Cons e es)
  have "w \<in> leased e ws" using Cons.prems by (cases e) auto
  then show ?case using Cons by simp
qed simp

locale lease_office =
  fixes inv :: "'s \<Rightarrow> bool"
    and out :: "'s \<Rightarrow> 'w set"
    and move :: "'w lease option \<Rightarrow> 's \<Rightarrow> 's \<Rightarrow> bool"
  assumes keeps: "move m s s' \<Longrightarrow> inv s \<Longrightarrow> inv s'"
    and counts: "move (Some e) s s' \<Longrightarrow> inv s \<Longrightarrow> out s' = leased e (out s)"
    and gives_free: "move (Some (Given w)) s s' \<Longrightarrow> inv s \<Longrightarrow> w \<notin> out s"
    and silent_out: "move None s s' \<Longrightarrow> inv s \<Longrightarrow> out s' = out s"
begin

lemma run_keeps: "lease_run move s es s' \<Longrightarrow> inv s \<Longrightarrow> inv s'"
  by (induction rule: lease_run.induct) (auto intro: keeps)

lemma run_counts: "lease_run move s es s' \<Longrightarrow> inv s \<Longrightarrow> out s' = fold leased es (out s)"
proof (induction rule: lease_run.induct)
  case (silent s es s' s'')
  then show ?case using silent_out run_keeps by metis
next
  case (event s es s' e s'')
  have "out s'' = leased e (out s')" by (rule counts [OF event.hyps(2) run_keeps [OF event.hyps(1) event.prems]])
  then show ?case using event.IH [OF event.prems] by simp
qed simp

lemma run_gives_free:
  "lease_run move s es s' \<Longrightarrow> inv s \<Longrightarrow> es = xs @ Given w # ys \<Longrightarrow> w \<notin> fold leased xs (out s)"
proof (induction arbitrary: xs ys rule: lease_run.induct)
  case (event s es s' e s'')
  show ?case
  proof (cases ys rule: rev_cases)
    case Nil
    then have "es = xs" "e = Given w" using event.prems(2) by auto
    then show ?thesis
      using gives_free [of w s' s''] event.hyps run_keeps [OF event.hyps(1) event.prems(1)]
        run_counts [OF event.hyps(1) event.prems(1)] by simp
  next
    case (snoc zs z)
    then have "es = xs @ Given w # zs" using event.prems(2) by simp
    then show ?thesis by (rule event.IH [OF event.prems(1)])
  qed
qed auto

lemma returned_between:
  assumes run: "lease_run move s (xs @ Given w # ys @ Given w # zs) s'" and inv: "inv s"
  shows "Back w \<in> set ys"
proof (rule ccontr)
  assume "Back w \<notin> set ys"
  then have "w \<in> fold leased ys (insert w (fold leased xs (out s)))" by (rule leased_kept [rotated]) simp
  moreover have "w \<notin> fold leased (xs @ Given w # ys) (out s)"
    by (rule run_gives_free [OF run inv, of "xs @ Given w # ys" w zs]) simp
  ultimately show False by simp
qed

end

section \<open>The fleet's moves\<close>

inductive fleet_move :: "static_cfg \<Rightarrow> nat lease option \<Rightarrow> fleet \<Rightarrow> fleet \<Rightarrow> bool" for c where
  said: "i < length (sc_workers c) \<Longrightarrow> fleet_move c None s (note_egress i v s)"
| numbered: "fleet_move c None s (snd (fresh_id s))"
| burn: "i < length (sc_workers c) \<Longrightarrow> fleet_move c None s (burn_out i s)"
| given: "take_worker i s = (True, s') \<Longrightarrow> fleet_move c (Some (Given i)) s s'"
| returned: "i \<in> fl_out s \<Longrightarrow> fleet_move c (Some (Back i)) s (static_reap c i dirty now s)"
| again: "i < length (sc_workers c) \<Longrightarrow> i \<notin> fl_out s \<Longrightarrow> fleet_move c None s (static_reap c i dirty now s)"

inductive_cases fleet_move_none: "fleet_move c None s s'"
inductive_cases fleet_move_given: "fleet_move c (Some (Given i)) s s'"
inductive_cases fleet_move_back: "fleet_move c (Some (Back i)) s s'"

definition fleet_inv :: "static_cfg \<Rightarrow> fleet \<Rightarrow> bool" where
  "fleet_inv c s \<longleftrightarrow>
     distinct (fl_free s) \<and> set (fl_free s) \<inter> fl_out s = {} \<and> set (fl_free s) \<inter> fl_burned s = {}
     \<and> set (fl_free s) \<union> fl_out s \<union> fl_burned s = {..<length (sc_workers c)}"

lemma reap_out [simp]: "fl_out (static_reap c i dirty now s) = fl_out s - {i}"
  by (simp add: static_reap_def Let_def)

lemma fleet_inv_new: "fleet_inv c (new_fleet c)"
  by (auto simp: fleet_inv_def new_fleet_def)

lemma fleet_inv_move: "fleet_move c e s s' \<Longrightarrow> fleet_inv c s \<Longrightarrow> fleet_inv c s'"
proof (induction rule: fleet_move.induct)
  case (said i s v)
  then show ?case by (auto simp: note_egress_def fleet_inv_def split: option.splits)
next
  case (numbered s)
  then show ?case by (simp add: fresh_id_def fleet_inv_def)
next
  case (burn i s)
  then show ?case by (auto simp: burn_out_def fleet_inv_def)
next
  case (given i s s')
  then show ?case by (auto simp: take_worker_def fleet_inv_def split: if_splits)
next
  case (returned i s dirty now)
  then show ?case by (auto simp: static_reap_def fleet_inv_def Let_def)
next
  case (again i s dirty now)
  then show ?case by (auto simp: static_reap_def fleet_inv_def Let_def)
qed

interpretation fleet_lease: lease_office "fleet_inv c" fl_out "fleet_move c" for c
proof unfold_locales
  fix m s s' assume "fleet_move c m s s'" "fleet_inv c s"
  then show "fleet_inv c s'" by (rule fleet_inv_move)
next
  fix e s s' assume "fleet_move c (Some e) s s'" "fleet_inv c s"
  then show "fl_out s' = leased e (fl_out s)"
    by (cases e) (auto elim!: fleet_move_given fleet_move_back simp: take_worker_def static_reap_def Let_def split: if_splits)
next
  fix w s s' assume "fleet_move c (Some (Given w)) s s'" "fleet_inv c s"
  then show "w \<notin> fl_out s" by (auto elim!: fleet_move_given simp: take_worker_def fleet_inv_def split: if_splits)
next
  fix s s' assume "fleet_move c None s s'" "fleet_inv c s"
  then show "fl_out s' = fl_out s"
    by (auto elim!: fleet_move_none simp: note_egress_def fresh_id_def burn_out_def reap_out split: option.splits)
qed

lemma burned_move: "fleet_move c e s s' \<Longrightarrow> fl_burned s \<subseteq> fl_burned s'"
  by (induction rule: fleet_move.induct)
     (auto simp: note_egress_def fresh_id_def burn_out_def take_worker_def static_reap_def Let_def split: option.splits if_splits)

lemma burned_run: "lease_run (fleet_move c) s es s' \<Longrightarrow> fl_burned s \<subseteq> fl_burned s'"
  by (induction rule: lease_run.induct) (use burned_move in fastforce)+

lemma burned_not_given:
  "lease_run (fleet_move c) s es s' \<Longrightarrow> fleet_inv c s \<Longrightarrow> i \<in> fl_burned s \<Longrightarrow> Given i \<notin> set es"
proof (induction rule: lease_run.induct)
  case (event s es s' e s'')
  have inv: "fleet_inv c s'" by (rule fleet_lease.run_keeps [OF event.hyps(1) event.prems(1)])
  have burned: "i \<in> fl_burned s'" using burned_run [OF event.hyps(1)] event.prems(2) by blast
  have "e \<noteq> Given i"
    using event.hyps(2) inv burned by (auto elim!: fleet_move_given simp: take_worker_def fleet_inv_def split: if_splits)
  then show ?case using event.IH [OF event.prems] by auto
qed auto

section \<open>The slots and their workers\<close>

text \<open>
  The hand-outs, numbered in their order, that still have their worker (\<open>live\<close>) and that were reaped
  (\<open>past\<close>).  A reaped slot may be reaped again, any number of times, while no slot has its worker.
\<close>

inductive slot_run :: "static_cfg \<Rightarrow> fleet \<Rightarrow> (nat \<times> nat) list \<Rightarrow> (nat \<times> nat) list \<Rightarrow> bool" for c where
  opened: "slot_run c (new_fleet c) [] []"
| said: "slot_run c s live past \<Longrightarrow> i < length (sc_workers c) \<Longrightarrow> slot_run c (note_egress i v s) live past"
| numbered: "slot_run c s live past \<Longrightarrow> slot_run c (snd (fresh_id s)) live past"
| burn: "slot_run c s live past \<Longrightarrow> i < length (sc_workers c) \<Longrightarrow> slot_run c (burn_out i s) live past"
| given: "slot_run c s live past \<Longrightarrow> take_worker i s = (True, s')
     \<Longrightarrow> slot_run c s' ((length live + length past, i) # live) past"
| reaped: "slot_run c s (bf @ (k, i) # af) past
     \<Longrightarrow> slot_run c (static_reap c i dirty now s) (bf @ af) ((k, i) # past)"
| again: "slot_run c s live past \<Longrightarrow> (k, i) \<in> set past \<Longrightarrow> i \<notin> snd ` set live
     \<Longrightarrow> slot_run c (static_reap c i dirty now s) live past"

lemma slot_run_fleet:
  "slot_run c s live past \<Longrightarrow>
     fleet_inv c s \<and> distinct (map snd live) \<and> snd ` set live = fl_out s \<and> snd ` set past \<subseteq> {..<length (sc_workers c)}"
proof (induction rule: slot_run.induct)
  case opened
  show ?case using fleet_inv_new by (simp add: new_fleet_def)
next
  case (said s live past i v)
  then show ?case
    using fleet_inv_move [OF fleet_move.said] by (auto simp: note_egress_def split: option.splits)
next
  case (numbered s live past)
  then show ?case using fleet_inv_move [OF fleet_move.numbered] by (auto simp: fresh_id_def)
next
  case (burn s live past i)
  then show ?case using fleet_inv_move [OF fleet_move.burn] by (auto simp: burn_out_def)
next
  case (given s live past i s')
  have "fl_out s' = insert i (fl_out s)" "i \<in> set (fl_free s)"
    using given.hyps(2) by (auto simp: take_worker_def split: if_splits)
  then show ?case
    using given.IH fleet_inv_move [OF fleet_move.given [OF given.hyps(2)]] by (auto simp: fleet_inv_def)
next
  case (reaped s bf k i af past dirty now)
  have ih: "distinct (map snd bf @ i # map snd af)" "snd ` set (bf @ (k, i) # af) = fl_out s"
    using reaped.IH by simp_all
  have out: "i \<in> fl_out s" using ih(2) by auto
  have "snd ` set (bf @ af) = fl_out s - {i}" unfolding ih(2) [symmetric] using ih(1) by auto
  moreover have "i < length (sc_workers c)" using reaped.IH out by (auto simp: fleet_inv_def)
  ultimately show ?case
    using reaped.IH fleet_inv_move [OF fleet_move.returned [OF out]] by auto
next
  case (again s live past k i dirty now)
  have out: "i \<notin> fl_out s" using again.IH again.hyps(3) by blast
  have i: "i < length (sc_workers c)" using again.IH again.hyps(2) by force
  then show ?case using again.IH out fleet_inv_move [OF fleet_move.again [OF i out]] by auto
qed

section \<open>One spawn among the others\<close>

definition by_others :: "static_cfg \<Rightarrow> (fleet \<Rightarrow> fleet) \<Rightarrow> bool" where
  "by_others c f \<longleftrightarrow> (\<forall>s. \<exists>es. lease_run (fleet_move c) s es (f s))"

definition fair_world :: "static_cfg \<Rightarrow> spawn_world \<Rightarrow> bool" where
  "fair_world c w \<longleftrightarrow>
     (\<forall>i. by_others c (sw_look w i) \<and> by_others c (sw_note w i) \<and> by_others c (sw_take w i) \<and> by_others c (sw_ids w i))
     \<and> by_others c (sw_end w)"

lemma by_othersE:
  assumes "by_others c f" obtains es where "lease_run (fleet_move c) s es (f s)"
  using assms unfolding by_others_def by blast

lemma index_of_less: "w \<in> set ws \<Longrightarrow> index_of w ws < length ws"
  unfolding index_of_def by (induction ws) auto

definition moves :: "static_cfg \<Rightarrow> fleet \<Rightarrow> fleet \<Rightarrow> bool" where
  "moves c s s' \<longleftrightarrow> (\<exists>es. lease_run (fleet_move c) s es s')"

lemma moves_refl [simp]: "moves c s s"
  unfolding moves_def by (blast intro: lease_run.start)

lemma moves_trans: "moves c s s' \<Longrightarrow> moves c s' s'' \<Longrightarrow> moves c s s''"
  unfolding moves_def by (blast intro: lease_run_trans)

lemma moves_others: "by_others c f \<Longrightarrow> moves c s (f s)"
  by (simp add: by_others_def moves_def)

lemma moves_note:
  assumes "i < length (sc_workers c)" shows "moves c s (note_egress i v s)"
  unfolding moves_def by (blast intro: lease_run_silent fleet_move.said assms)

lemma ask_moves:
  assumes fair: "fair_world c w" and i: "i < length (sc_workers c)"
    and ask: "ask_candidate c require w i s = (a, s')"
  shows "moves c s s'"
proof -
  let ?i = "index_of (sc_workers c ! i) (sc_workers c)"
  have look: "moves c s (sw_look w i s)" using fair by (simp add: fair_world_def moves_others)
  have "moves c (sw_look w i s) (sw_note w i (sw_look w i s))" using fair by (simp add: fair_world_def moves_others)
  moreover have "moves c (sw_note w i (sw_look w i s)) (note_egress ?i v (sw_note w i (sw_look w i s)))" for v
    by (rule moves_note [OF index_of_less [OF nth_mem [OF i]]])
  ultimately have noted: "moves c s (note_egress ?i v (sw_note w i (sw_look w i s)))" for v
    using look moves_trans by blast
  have "s' = sw_look w i s \<or> (\<exists>v. s' = note_egress ?i v (sw_note w i (sw_look w i s)))"
    using ask unfolding ask_candidate_def Let_def by (auto split: if_splits sum.splits)
  then show ?thesis using look noted by auto
qed

lemma may_take:
  assumes "ask_candidate c require w i s = (MayTake, s')"
  shows "sw_probe w i = Says (Some True)" "require \<Longrightarrow> ask_egress (sw_cap w i) = Some True"
    "\<not> pf_less (Fin (sw_now w)) (cooldown_of (sw_look w i s) i)"
  using assms unfolding ask_candidate_def Let_def
  by (cases "sw_probe w i"; auto split: if_splits sum.splits)+

definition hands_out :: "static_cfg \<Rightarrow> bool \<Rightarrow> bool \<Rightarrow> spawn_world \<Rightarrow> fleet \<Rightarrow> nat list \<Rightarrow> static_slot \<Rightarrow> fleet \<Rightarrow> bool" where
  "hands_out c tls require w s cands sl s' \<longleftrightarrow>
     ss_worker sl \<in> set cands \<and> sw_probe w (ss_worker sl) = Says (Some True)
     \<and> (require \<longrightarrow> ask_egress (sw_cap w (ss_worker sl)) = Some True)
     \<and> (\<exists>sid. sl = claim_slot c tls (sw_stamp w) (ss_worker sl) sid)
     \<and> (\<exists>before after. lease_run (fleet_move c) s (before @ Given (ss_worker sl) # after) s')"

lemma scan_hands_out:
  assumes fair: "fair_world c w"
  shows "(\<forall>i \<in> set cands. i < length (sc_workers c)) \<Longrightarrow> scan c tls require w cands k s = (Slot sl, s')
     \<Longrightarrow> hands_out c tls require w s cands sl s'"
proof (induction cands arbitrary: k s)
  case (Cons i cands)
  obtain a s1 where ask: "ask_candidate c require w i s = (a, s1)" by (cases "ask_candidate c require w i s")
  have i: "i < length (sc_workers c)" using Cons.prems(1) by simp
  have m1: "moves c s s1" by (rule ask_moves [OF fair i ask])
  have later: "hands_out c tls require w s (i # cands) sl s'"
    if sc: "scan c tls require w cands k' s2 = (Slot sl, s')" and m: "moves c s s2" for k' s2
  proof -
    have h: "hands_out c tls require w s2 cands sl s'" using Cons.IH [OF _ sc] Cons.prems(1) by simp
    then obtain bf af where r: "lease_run (fleet_move c) s2 (bf @ Given (ss_worker sl) # af) s'"
      unfolding hands_out_def by blast
    obtain es where es: "lease_run (fleet_move c) s es s2" using m unfolding moves_def by blast
    have "lease_run (fleet_move c) s ((es @ bf) @ Given (ss_worker sl) # af) s'"
      using lease_run_trans [OF r es] by simp
    then show ?thesis using h unfolding hands_out_def by fastforce
  qed
  show ?case
  proof (cases a)
    case (Skip f)
    then show ?thesis using later m1 Cons.prems(2) ask by simp
  next
    case (Raises e)
    then show ?thesis using Cons.prems(2) ask by simp
  next
    case MayTake
    let ?t = "sw_take w i s1"
    have m2: "moves c s ?t" using moves_trans [OF m1] moves_others fair by (simp add: fair_world_def)
    obtain ok s2 where tk: "take_worker i ?t = (ok, s2)" by (cases "take_worker i ?t")
    show ?thesis
    proof (cases ok)
      case False
      then have "s2 = ?t" using tk by (simp add: take_worker_def split: if_splits)
      then show ?thesis using later m2 Cons.prems(2) ask MayTake tk False by simp
    next
      case True
      let ?n = "sw_ids w i s2"
      have sl: "sl = claim_slot c tls (sw_stamp w) i (fst (fresh_id ?n))" and s': "s' = snd (fresh_id ?n)"
        using Cons.prems(2) ask MayTake tk True by (auto simp: fresh_id_def)
      have wk: "ss_worker sl = i" by (simp add: sl claim_slot_def Let_def)
      obtain bf where bf: "lease_run (fleet_move c) s bf ?t" using m2 unfolding moves_def by blast
      have taken: "fleet_move c (Some (Given i)) ?t s2" using tk True by (auto intro: fleet_move.given)
      obtain af where af: "lease_run (fleet_move c) s2 af ?n"
        using fair unfolding fair_world_def by (blast elim: by_othersE)
      have af': "lease_run (fleet_move c) s2 af s'" unfolding s' by (rule lease_run.silent [OF af fleet_move.numbered])
      have "lease_run (fleet_move c) s ((bf @ [Given i]) @ af) s'"
        by (rule lease_run_trans [OF af' lease_run.event [OF bf taken]])
      then have "\<exists>bf af. lease_run (fleet_move c) s (bf @ Given i # af) s'" by auto
      then show ?thesis
        using may_take [OF ask [unfolded MayTake]] wk sl unfolding hands_out_def by auto
    qed
  qed
qed (simp add: give_up_def Let_def split: if_splits)

section \<open>What a failed spawn says\<close>

lemma scan_unhealthy:
  "scan c tls require w cands k s = (PoolUnhealthy, s')
     \<Longrightarrow> saw_unhealthy k \<or> (\<exists>i \<in> set cands. sw_probe w i = Says (Some False))"
proof (induction cands arbitrary: k s)
  case (Cons i cands)
  obtain a s1 where ask: "ask_candidate c require w i s = (a, s1)" by (cases "ask_candidate c require w i s")
  show ?case
  proof (cases a)
    case (Skip f)
    then have rec: "saw_unhealthy (f k) \<or> (\<exists>j \<in> set cands. sw_probe w j = Says (Some False))"
      using Cons.IH [of "f k" s1] Cons.prems ask by simp
    have "saw_unhealthy (f k) \<longrightarrow> saw_unhealthy k \<or> sw_probe w i = Says (Some False)"
      using ask Skip unfolding ask_candidate_def Let_def
      by (cases "sw_probe w i"; auto split: if_splits sum.splits)
    then show ?thesis using rec by auto
  next
    case MayTake
    then show ?thesis
      using Cons.IH Cons.prems ask by (fastforce simp: take_worker_def fresh_id_def split: if_splits)
  next
    case (Raises e)
    then show ?thesis using Cons.prems ask by simp
  qed
qed (simp add: give_up_def Let_def split: if_splits)

lemma scan_no_egress:
  "scan c tls require w cands k s = (PoolNoEgress, s')
     \<Longrightarrow> \<not> saw_unhealthy k \<and> \<not> saw_cooling k \<and> \<not> saw_egress_unknown k \<and> \<not> saw_health_unknown k
       \<and> (saw_no_egress k \<or> require \<and> (\<exists>i \<in> set cands. ask_egress (sw_cap w i) = Some False))
       \<and> (\<forall>i \<in> set cands. sw_probe w i = Says (Some True) \<and> (require \<longrightarrow> ask_egress (sw_cap w i) \<noteq> None))
       \<and> \<not> known_capable (length (sc_workers c)) s'"
proof (induction cands arbitrary: k s)
  case (Cons i cands)
  obtain a s1 where ask: "ask_candidate c require w i s = (a, s1)" by (cases "ask_candidate c require w i s")
  show ?case
  proof (cases a)
    case (Skip f)
    note rec = Cons.IH [of "f k" s1]
    have f: "f = saw_cooling_update (\<lambda>_. True) \<or> f = saw_unhealthy_update (\<lambda>_. True)
         \<or> f = saw_health_unknown_update (\<lambda>_. True) \<or> f = saw_egress_unknown_update (\<lambda>_. True)
         \<or> f = saw_no_egress_update (\<lambda>_. True) \<and> sw_probe w i = Says (Some True) \<and> require
            \<and> ask_egress (sw_cap w i) = Some False"
      using ask Skip unfolding ask_candidate_def Let_def
      by (cases "sw_probe w i"; auto split: if_splits sum.splits)
    show ?thesis using f rec Cons.prems ask Skip by auto
  next
    case MayTake
    then have "sw_probe w i = Says (Some True)" "require \<Longrightarrow> ask_egress (sw_cap w i) = Some True"
      using may_take ask by blast+
    then show ?thesis
      using Cons.IH Cons.prems ask MayTake by (fastforce simp: take_worker_def fresh_id_def split: if_splits)
  next
    case (Raises e)
    then show ?thesis using Cons.prems ask by simp
  qed
qed (auto simp: give_up_def Let_def split: if_splits)

section \<open>A spawn that nobody disturbs\<close>

definition undisturbed :: "spawn_world \<Rightarrow> bool" where
  "undisturbed w \<longleftrightarrow> sw_look w = (\<lambda>_ s. s) \<and> sw_note w = (\<lambda>_ s. s) \<and> sw_take w = (\<lambda>_ s. s)
                     \<and> sw_ids w = (\<lambda>_ s. s) \<and> sw_end w = (\<lambda>s. s)"

definition is_cooling :: "spawn_world \<Rightarrow> fleet \<Rightarrow> nat \<Rightarrow> bool" where
  "is_cooling w s i \<longleftrightarrow> pf_less (Fin (sw_now w)) (cooldown_of s i)"

definition ready_worker :: "bool \<Rightarrow> spawn_world \<Rightarrow> fleet \<Rightarrow> nat \<Rightarrow> bool" where
  "ready_worker require w s i \<longleftrightarrow>
     \<not> is_cooling w s i \<and> sw_probe w i = Says (Some True) \<and> (require \<longrightarrow> ask_egress (sw_cap w i) = Some True)"

text \<open>What a spawn that finds no claimable worker is to report, from the answers alone.\<close>

definition miss :: "static_cfg \<Rightarrow> bool \<Rightarrow> spawn_world \<Rightarrow> fleet \<Rightarrow> fleet \<Rightarrow> static_spawned" where
  "miss c require w s s' =
     (if \<exists>i \<in> set (fl_free s). \<not> is_cooling w s i \<and> sw_probe w i = Says (Some False) then PoolUnhealthy
      else if fl_free s \<noteq> [] \<and> require
         \<and> (\<forall>i \<in> set (fl_free s). \<not> is_cooling w s i \<and> sw_probe w i = Says (Some True)
                                 \<and> ask_egress (sw_cap w i) = Some False)
         \<and> \<not> known_capable (length (sc_workers c)) s' then PoolNoEgress
      else PoolExhausted)"

definition skip_of :: "bool \<Rightarrow> spawn_world \<Rightarrow> fleet \<Rightarrow> nat \<Rightarrow> skips \<Rightarrow> skips" where
  "skip_of require w s i =
     (if is_cooling w s i then saw_cooling_update (\<lambda>_. True)
      else if sw_probe w i = Says (Some False) then saw_unhealthy_update (\<lambda>_. True)
      else if sw_probe w i \<noteq> Says (Some True) then saw_health_unknown_update (\<lambda>_. True)
      else if ask_egress (sw_cap w i) = Some False then saw_no_egress_update (\<lambda>_. True)
      else saw_egress_unknown_update (\<lambda>_. True))"

lemma ask_undisturbed:
  assumes "undisturbed w" "\<forall>e. sw_probe w i \<noteq> Broke e" "ask_candidate c require w i s = (a, s')"
  shows "a = (if ready_worker require w s i then MayTake else Skip (skip_of require w s i))"
    "fl_free s' = fl_free s" "fl_until s' = fl_until s" "fl_ids s' = fl_ids s"
proof -
  have frame: "fl_free (note_egress j v s) = fl_free s" "fl_until (note_egress j v s) = fl_until s"
      "fl_ids (note_egress j v s) = fl_ids s" for j v
    by (simp_all add: note_egress_def split: option.split)
  have "a = (if ready_worker require w s i then MayTake else Skip (skip_of require w s i))
        \<and> (s' = s \<or> (\<exists>j v. s' = note_egress j v s))"
  proof (cases "sw_probe w i")
    case (Says v)
    then show ?thesis
      using assms(1,3) unfolding ask_candidate_def Let_def ready_worker_def skip_of_def is_cooling_def undisturbed_def
      by (auto split: if_splits)
  next
    case NotAttempted
    then show ?thesis
      using assms(1,3) unfolding ask_candidate_def Let_def ready_worker_def skip_of_def is_cooling_def undisturbed_def
      by (auto split: if_splits)
  next
    case (Broke e)
    then show ?thesis using assms(2) by simp
  qed
  then show "a = (if ready_worker require w s i then MayTake else Skip (skip_of require w s i))"
    "fl_free s' = fl_free s" "fl_until s' = fl_until s" "fl_ids s' = fl_ids s"
    using frame by auto
qed

lemma same_cooling:
  "fl_until s' = fl_until s \<Longrightarrow> is_cooling w s' = is_cooling w s \<and> ready_worker require w s' = ready_worker require w s
      \<and> skip_of require w s' = skip_of require w s"
  by (auto simp: is_cooling_def ready_worker_def skip_of_def cooldown_of_def fun_eq_iff)

lemma scan_undisturbed:
  assumes u: "undisturbed w"
  shows "(\<forall>i \<in> set cands. i \<in> set (fl_free s) \<and> (\<forall>e. sw_probe w i \<noteq> Broke e)) \<Longrightarrow>
     scan c tls require w cands k s = (r, s') \<Longrightarrow>
     r = (case find (ready_worker require w s) cands of
            Some i \<Rightarrow> Slot (claim_slot c tls (sw_stamp w) i (''static-'' @ show_nat (fl_ids s)))
          | None \<Rightarrow> give_up (length (sc_workers c)) (fold (skip_of require w s) cands k) s')"
proof (induction cands arbitrary: k s)
  case (Cons i cands)
  obtain a s1 where ask: "ask_candidate c require w i s = (a, s1)" by (cases "ask_candidate c require w i s")
  have nb: "\<forall>e. sw_probe w i \<noteq> Broke e" using Cons.prems(1) by simp
  note a = ask_undisturbed [OF u nb ask]
  note same = same_cooling [OF a(3), of w require]
  show ?case
  proof (cases "ready_worker require w s i")
    case True
    then show ?thesis
      using Cons.prems a ask u by (auto simp: take_worker_def fresh_id_def undisturbed_def)
  next
    case False
    have "scan c tls require w cands (skip_of require w s i k) s1 = (r, s')"
      using Cons.prems(2) ask a(1) False by simp
    from Cons.IH [OF _ this] Cons.prems(1) a(2) have
      "r = (case find (ready_worker require w s1) cands of
            Some i \<Rightarrow> Slot (claim_slot c tls (sw_stamp w) i (''static-'' @ show_nat (fl_ids s1)))
          | None \<Rightarrow> give_up (length (sc_workers c)) (fold (skip_of require w s1) cands (skip_of require w s i k)) s')"
      by simp
    moreover obtain f g where "skip_of require w s1 = f" "skip_of require w s = f"
      "ready_worker require w s1 = g" "ready_worker require w s = g" using same by blast
    ultimately show ?thesis using a(4) False by (auto split: option.splits)
  qed
qed (use u in \<open>simp add: undisturbed_def Let_def\<close>)

lemma fold_skips:
  "saw_unhealthy (fold (skip_of require w s) cands k) \<longleftrightarrow> saw_unhealthy k \<or> (\<exists>i \<in> set cands. \<not> is_cooling w s i \<and> sw_probe w i = Says (Some False))"
  "saw_cooling (fold (skip_of require w s) cands k) \<longleftrightarrow> saw_cooling k \<or> (\<exists>i \<in> set cands. is_cooling w s i)"
  "saw_health_unknown (fold (skip_of require w s) cands k) \<longleftrightarrow> saw_health_unknown k
     \<or> (\<exists>i \<in> set cands. \<not> is_cooling w s i \<and> sw_probe w i \<notin> {Says (Some True), Says (Some False)})"
  "saw_no_egress (fold (skip_of require w s) cands k) \<longleftrightarrow> saw_no_egress k
     \<or> (\<exists>i \<in> set cands. \<not> is_cooling w s i \<and> sw_probe w i = Says (Some True) \<and> ask_egress (sw_cap w i) = Some False)"
  "saw_egress_unknown (fold (skip_of require w s) cands k) \<longleftrightarrow> saw_egress_unknown k
     \<or> (\<exists>i \<in> set cands. \<not> is_cooling w s i \<and> sw_probe w i = Says (Some True) \<and> ask_egress (sw_cap w i) \<noteq> Some False)"
  by (induction cands arbitrary: k) (auto simp: skip_of_def)

lemma give_up_miss:
  assumes "fl_free s \<noteq> []" "find (ready_worker require w s) (fl_free s) = None"
  shows "give_up n (fold (skip_of require w s) (fl_free s) no_skips) s'
     = (if \<exists>i \<in> set (fl_free s). \<not> is_cooling w s i \<and> sw_probe w i = Says (Some False) then PoolUnhealthy
        else if require
           \<and> (\<forall>i \<in> set (fl_free s). \<not> is_cooling w s i \<and> sw_probe w i = Says (Some True)
                                   \<and> ask_egress (sw_cap w i) = Some False)
           \<and> \<not> known_capable n s' then PoolNoEgress
        else PoolExhausted)" (is "_ = (if ?dead then _ else if ?all then _ else _)")
proof -
  let ?k = "fold (skip_of require w s) (fl_free s) no_skips"
  have none: "\<forall>i \<in> set (fl_free s). \<not> ready_worker require w s i" using assms(2) by (simp add: find_None_iff)
  have dead: "saw_unhealthy ?k \<longleftrightarrow> ?dead" by (simp add: fold_skips no_skips_def)
  have "saw_no_egress ?k \<and> \<not> saw_cooling ?k \<and> \<not> saw_egress_unknown ?k \<and> \<not> saw_health_unknown ?k \<and> \<not> known_capable n s' \<longleftrightarrow> ?all"
    if "\<not> ?dead"
  proof
    assume l: "saw_no_egress ?k \<and> \<not> saw_cooling ?k \<and> \<not> saw_egress_unknown ?k \<and> \<not> saw_health_unknown ?k \<and> \<not> known_capable n s'"
    then have awake: "\<forall>i \<in> set (fl_free s). \<not> is_cooling w s i"
      and ok: "\<forall>i \<in> set (fl_free s). sw_probe w i = Says (Some True)"
      and no: "\<forall>i \<in> set (fl_free s). ask_egress (sw_cap w i) = Some False"
      using that by (auto simp: fold_skips no_skips_def)
    obtain i where "i \<in> set (fl_free s)" using assms(1) by (cases "fl_free s") auto
    then have require using none awake ok by (auto simp: ready_worker_def)
    then show ?all using l awake ok no by blast
  next
    assume r: ?all
    obtain i where "i \<in> set (fl_free s)" using assms(1) by (cases "fl_free s") auto
    then show "saw_no_egress ?k \<and> \<not> saw_cooling ?k \<and> \<not> saw_egress_unknown ?k \<and> \<not> saw_health_unknown ?k \<and> \<not> known_capable n s'"
      using r by (auto simp: fold_skips no_skips_def)
  qed
  then show ?thesis using dead unfolding give_up_def by auto
qed

section \<open>Properties\<close>

text \<open>A small fleet: two workers, the second one behind a full URL.\<close>

definition demo_fleet :: static_cfg where
  "demo_fleet =
     \<lparr>sc_workers = [\<lparr>sw_host = Some ''a'', sw_port = 8765, sw_url = None, sw_token = Some ''t''\<rparr>,
                    \<lparr>sw_host = None, sw_port = 8765, sw_url = Some ''http://b'', sw_token = Some ''t''\<rparr>],
      sc_health_path = ''/healthz'', sc_probe_timeout = Fin 5, sc_cooldown = Fin 60\<rparr>"

definition demo_world :: spawn_world where
  "demo_world =
     \<lparr>sw_probe = (\<lambda>i. if i = 0 then Says (Some False) else Says (Some True)), sw_cap = (\<lambda>_. Some (Some [(''egress'', JBool True)])),
      sw_now = 90, sw_stamp = 91, sw_look = (\<lambda>_ s. s), sw_note = (\<lambda>_ s. s), sw_take = (\<lambda>_ s. s), sw_ids = (\<lambda>_ s. s),
      sw_end = (\<lambda>s. s)\<rparr>"

lemma by_others_id: "by_others c (\<lambda>s. s)"
  unfolding by_others_def by (blast intro: lease_run.start)

lemma fair_demo: "fair_world c demo_world"
  by (simp add: fair_world_def demo_world_def by_others_id)

text \<open>
  C35: No two slots of the static fleet ever hold one worker, whatever spawns, reaps, convictions and
  notes other threads interleave and however often a reaped slot is reaped again, so long as no slot is
  reaped again after its worker went to the next one; the workers of the live slots are off the free
  list, which names no worker twice, so that the next hand-out is of a worker no live slot has.
\<close>

theorem worker_leased_exclusively:
  assumes "slot_run c s live past"
  shows "distinct (map snd live) \<and> set (map snd live) \<inter> set (fl_free s) = {} \<and> distinct (fl_free s)
    \<and> (\<forall>i s'. take_worker i s = (True, s') \<longrightarrow> i \<notin> set (map snd live) \<and> i \<notin> fl_burned s)"
proof -
  have r: "fleet_inv c s" "distinct (map snd live)" "snd ` set live = fl_out s"
    using slot_run_fleet [OF assms] by blast+
  then show ?thesis by (auto simp: fleet_inv_def take_worker_def split: if_splits)
qed

theorem worker_leased_exclusively_witness:
  "(let s = snd (take_worker 0 (static_reap demo_fleet 0 False 9 (static_reap demo_fleet 0 False 7
      (snd (take_worker 0 (new_fleet demo_fleet)))))) in
    distinct [0::nat] \<and> {0} \<inter> set (fl_free s) = {} \<and> distinct (fl_free s)
    \<and> (\<forall>i s'. take_worker i s = (True, s') \<longrightarrow> i \<noteq> 0 \<and> i \<notin> fl_burned s))"
proof -
  let ?g = "snd (take_worker 0 (new_fleet demo_fleet))"
  let ?r = "static_reap demo_fleet 0 False 9 (static_reap demo_fleet 0 False 7 ?g)"
  have "slot_run demo_fleet ?g [(0, 0)] []"
    using slot_run.given [OF slot_run.opened, of 0 demo_fleet ?g]
    by (simp add: take_worker_def new_fleet_def demo_fleet_def)
  then have "slot_run demo_fleet (static_reap demo_fleet 0 False 7 ?g) [] [(0, 0)]"
    using slot_run.reaped [of demo_fleet ?g "[]" 0 0 "[]" "[]" False 7] by simp
  then have "slot_run demo_fleet ?r [] [(0, 0)]"
    using slot_run.again [of demo_fleet _ "[]" "[(0, 0)]" 0 0 False 9] by simp
  moreover have "take_worker 0 ?r = (True, snd (take_worker 0 ?r))"
    by (simp add: take_worker_def new_fleet_def demo_fleet_def static_reap_def upt_rec)
  ultimately have "slot_run demo_fleet (snd (take_worker 0 ?r)) [(1, 0)] [(0, 0)]"
    using slot_run.given [of demo_fleet ?r "[]" "[(0, 0)]" 0] by simp
  from worker_leased_exclusively [OF this] show ?thesis by (simp add: Let_def)
qed

lemma demo_leases:
  "lease_run (fleet_move demo_fleet) (new_fleet demo_fleet) ([] @ Given 0 # [Back 0] @ Given 0 # [])
     (snd (take_worker 0 (static_reap demo_fleet 0 False 7 (snd (take_worker 0 (new_fleet demo_fleet))))))"
proof -
  have g1: "fleet_move demo_fleet (Some (Given 0)) (new_fleet demo_fleet) (snd (take_worker 0 (new_fleet demo_fleet)))"
    by (rule fleet_move.given) (simp add: take_worker_def new_fleet_def demo_fleet_def)
  have b: "fleet_move demo_fleet (Some (Back 0)) (snd (take_worker 0 (new_fleet demo_fleet)))
      (static_reap demo_fleet 0 False 7 (snd (take_worker 0 (new_fleet demo_fleet))))"
    by (rule fleet_move.returned) (simp add: take_worker_def new_fleet_def demo_fleet_def)
  have g2: "fleet_move demo_fleet (Some (Given 0)) (static_reap demo_fleet 0 False 7 (snd (take_worker 0 (new_fleet demo_fleet))))
      (snd (take_worker 0 (static_reap demo_fleet 0 False 7 (snd (take_worker 0 (new_fleet demo_fleet))))))"
    by (rule fleet_move.given) (simp add: take_worker_def new_fleet_def demo_fleet_def static_reap_def upt_rec)
  show ?thesis
    using lease_run.event [OF lease_run.event [OF lease_run_event [where move = "fleet_move demo_fleet", OF g1] b] g2] by simp
qed

text \<open>
  The free list names each worker once; a free worker is neither handed out nor convicted, and every
  worker of the configuration is free, handed out or convicted; and a convicted worker is never handed out again.
\<close>

theorem fleet_accounted:
  assumes "lease_run (fleet_move c) (new_fleet c) es s"
  shows "distinct (fl_free s) \<and> set (fl_free s) \<inter> (fl_out s \<union> fl_burned s) = {}
    \<and> set (fl_free s) \<union> fl_out s \<union> fl_burned s = {..<length (sc_workers c)}
    \<and> (\<forall>i \<in> fl_burned s. \<forall>es' s'. lease_run (fleet_move c) s es' s' \<longrightarrow> Given i \<notin> set es')"
proof -
  have inv: "fleet_inv c s" by (rule fleet_lease.run_keeps [OF assms fleet_inv_new])
  then show ?thesis using burned_not_given unfolding fleet_inv_def by fast
qed

theorem fleet_accounted_witness:
  "(let s = snd (take_worker 0 (static_reap demo_fleet 0 False 7 (snd (take_worker 0 (new_fleet demo_fleet))))) in
    distinct (fl_free s) \<and> set (fl_free s) \<inter> (fl_out s \<union> fl_burned s) = {}
    \<and> set (fl_free s) \<union> fl_out s \<union> fl_burned s = {..<length (sc_workers demo_fleet)}
    \<and> (\<forall>i \<in> fl_burned s. \<forall>es' s'. lease_run (fleet_move demo_fleet) s es' s' \<longrightarrow> Given i \<notin> set es'))"
  unfolding Let_def by (rule fleet_accounted [OF demo_leases])

text \<open>
  A spawn hands out only a worker that was free when it began, that answered its health probe as
  alive and, when the tier requires egress, advertised it; the slot carries that worker's address,
  and in between the other threads' blocks the spawn takes that one worker.
\<close>

theorem spawn_hands_out:
  assumes "fair_world c w" "set (fl_free s) \<subseteq> {..<length (sc_workers c)}"
    and "static_spawn c tls require w s = (Slot sl, s')"
  shows "hands_out c tls require w s (fl_free s) sl s'"
proof -
  have "scan c tls require w (fl_free s) no_skips s = (Slot sl, s')"
    using assms(3) unfolding static_spawn_def by (simp split: if_splits)
  then show ?thesis using scan_hands_out [OF assms(1)] assms(2) by blast
qed

theorem spawn_hands_out_witness:
  "hands_out demo_fleet True True demo_world (new_fleet demo_fleet) [0, 1]
     (claim_slot demo_fleet True 91 1 ''static-1'') (snd (static_spawn demo_fleet True True demo_world (new_fleet demo_fleet)))"
proof -
  have "static_spawn demo_fleet True True demo_world (new_fleet demo_fleet)
    = (Slot (claim_slot demo_fleet True 91 1 ''static-1''), snd (static_spawn demo_fleet True True demo_world (new_fleet demo_fleet)))"
    by (rule prod_eqI) (code_simp, simp)
  then show ?thesis
    using spawn_hands_out [OF fair_demo, of "new_fleet demo_fleet" demo_fleet]
    by (simp add: new_fleet_def demo_fleet_def upt_rec)
qed

text \<open>
  A spawn reports a broken fleet only if a free worker answered its probe as dead, and a fleet that
  cannot serve the egress policy only if every free worker answered, none unhealthy, at least one said no, and no
  worker is known to be capable; answers that did not come are never a fault of the fleet.
\<close>

theorem spawn_fault_needs_verdict:
  assumes "static_spawn c tls require w s = (r, s')"
  shows "(r = PoolUnhealthy \<longrightarrow> (\<exists>i \<in> set (fl_free s). sw_probe w i = Says (Some False)))
    \<and> (r = PoolNoEgress \<longrightarrow> require \<and> (\<exists>i \<in> set (fl_free s). ask_egress (sw_cap w i) = Some False)
        \<and> (\<forall>i \<in> set (fl_free s). sw_probe w i = Says (Some True) \<and> ask_egress (sw_cap w i) \<noteq> None)
        \<and> \<not> known_capable (length (sc_workers c)) s')"
  using assms scan_unhealthy [of c tls require w "fl_free s" no_skips s s']
    scan_no_egress [of c tls require w "fl_free s" no_skips s s']
  unfolding static_spawn_def by (auto simp: no_skips_def split: if_splits)

theorem spawn_fault_needs_verdict_witness:
  "\<exists>i \<in> set (fl_free (burn_out 1 (new_fleet demo_fleet))). sw_probe demo_world i = Says (Some False)"
proof -
  have "static_spawn demo_fleet True True demo_world (burn_out 1 (new_fleet demo_fleet))
    = (PoolUnhealthy, snd (static_spawn demo_fleet True True demo_world (burn_out 1 (new_fleet demo_fleet))))"
    by (rule prod_eqI) (code_simp, simp)
  then show ?thesis using spawn_fault_needs_verdict by blast
qed

text \<open>
  C36: An undisturbed spawn gives the first free worker in the order of the free list that is out of its
  cooldown, healthy and, when required, capable; without one it reports exactly what the answers support.
\<close>

theorem undisturbed_spawn_exact:
  assumes "undisturbed w" "\<forall>i \<in> set (fl_free s). \<forall>e. sw_probe w i \<noteq> Broke e"
    and "static_spawn c tls require w s = (r, s')"
  shows "r = (case find (ready_worker require w s) (fl_free s) of
       Some i \<Rightarrow> Slot (claim_slot c tls (sw_stamp w) i (''static-'' @ show_nat (fl_ids s)))
     | None \<Rightarrow> miss c require w s s')"
proof (cases "fl_free s = []")
  case True
  then show ?thesis using assms(3) by (simp add: static_spawn_def miss_def)
next
  case False
  then have "scan c tls require w (fl_free s) no_skips s = (r, s')" using assms(3) by (simp add: static_spawn_def)
  then have "r = (case find (ready_worker require w s) (fl_free s) of
       Some i \<Rightarrow> Slot (claim_slot c tls (sw_stamp w) i (''static-'' @ show_nat (fl_ids s)))
     | None \<Rightarrow> give_up (length (sc_workers c)) (fold (skip_of require w s) (fl_free s) no_skips) s')"
    using scan_undisturbed [OF assms(1)] assms(2) by blast
  then show ?thesis using give_up_miss [OF False] False by (auto simp: miss_def split: option.splits)
qed

theorem undisturbed_spawn_exact_witness:
  "fst (static_spawn demo_fleet False True demo_world (new_fleet demo_fleet)) = Slot (claim_slot demo_fleet False 91 1 ''static-1'')"
proof -
  have u: "undisturbed demo_world" by (simp add: undisturbed_def demo_world_def)
  have nb: "\<forall>i \<in> set (fl_free (new_fleet demo_fleet)). \<forall>e. sw_probe demo_world i \<noteq> Broke e" by (simp add: demo_world_def)
  have fd: "find (ready_worker True demo_world (new_fleet demo_fleet)) (fl_free (new_fleet demo_fleet)) = Some 1"
    by code_simp
  have ids: "''static-'' @ show_nat (fl_ids (new_fleet demo_fleet)) = ''static-1''" by code_simp
  show ?thesis
    using undisturbed_spawn_exact [OF u nb prod.collapse [symmetric]] fd ids
    by (simp add: demo_world_def)
qed

text \<open>
  The cooldown after a dirty release is looked at before the probe and not again when the worker is
  taken: a spawn can hand out a worker that another thread meanwhile used and released dirty, inside its cooldown.
\<close>

definition used_meanwhile :: "nat \<Rightarrow> fleet \<Rightarrow> fleet" where
  "used_meanwhile i s = (if i \<in> set (fl_free s) then static_reap demo_fleet i True 95 (snd (take_worker i s)) else s)"

lemma used_by_others: "by_others demo_fleet (used_meanwhile i)"
proof -
  have "\<exists>es. lease_run (fleet_move demo_fleet) s es (used_meanwhile i s)" for s
  proof (cases "i \<in> set (fl_free s)")
    case True
    have g: "fleet_move demo_fleet (Some (Given i)) s (snd (take_worker i s))"
      by (rule fleet_move.given) (simp add: take_worker_def True)
    have "fleet_move demo_fleet (Some (Back i)) (snd (take_worker i s)) (used_meanwhile i s)"
      unfolding used_meanwhile_def if_P [OF True] by (rule fleet_move.returned) (simp add: take_worker_def True)
    then show ?thesis using lease_run.event [OF lease_run_event [where move = "fleet_move demo_fleet", OF g]] by blast
  next
    case False
    then show ?thesis unfolding used_meanwhile_def by (auto intro: lease_run.start)
  qed
  then show ?thesis by (simp add: by_others_def)
qed

theorem cooldown_not_rechecked:
  "\<exists>w sl s'. fair_world demo_fleet w \<and> static_spawn demo_fleet True False w (new_fleet demo_fleet) = (Slot sl, s')
     \<and> pf_less (Fin (ss_spawned_at sl)) (cooldown_of s' (ss_worker sl))"
proof (intro exI conjI)
  let ?w = "demo_world\<lparr>sw_stamp := 96, sw_take := used_meanwhile\<rparr>"
  show "fair_world demo_fleet ?w" by (simp add: fair_world_def demo_world_def by_others_id used_by_others)
  show "static_spawn demo_fleet True False ?w (new_fleet demo_fleet)
     = (Slot (claim_slot demo_fleet True 96 1 ''static-1''), snd (static_spawn demo_fleet True False ?w (new_fleet demo_fleet)))"
    by (rule prod_eqI) (code_simp, simp)
  show "pf_less (Fin (ss_spawned_at (claim_slot demo_fleet True 96 1 ''static-1'')))
     (cooldown_of (snd (static_spawn demo_fleet True False ?w (new_fleet demo_fleet))) (ss_worker (claim_slot demo_fleet True 96 1 ''static-1'')))"
    by code_simp
qed

section \<open>Addresses and probe budgets\<close>

lemma rstrip_slash_keeps:
  assumes "c \<in> set rest" "c \<noteq> CHR ''/''"
  shows "\<exists>u. rstrip_slash (p @ rest) = p @ u"
proof -
  have "dropWhile (\<lambda>c. c = CHR ''/'') (rev rest @ rev p) = dropWhile (\<lambda>c. c = CHR ''/'') (rev rest) @ rev p"
    by (rule dropWhile_append1 [of c]) (use assms in simp_all)
  then show ?thesis by (simp add: rstrip_slash_def)
qed

lemma rstrip_slash_idem [simp]: "rstrip_slash (rstrip_slash s) = rstrip_slash s"
proof -
  have "dropWhile (\<lambda>c. c = CHR ''/'') (dropWhile (\<lambda>c. c = CHR ''/'') xs) = dropWhile (\<lambda>c. c = CHR ''/'') xs" for xs
    by (induction xs) auto
  then show ?thesis by (simp add: rstrip_slash_def)
qed

text \<open>
  With TLS on, every worker of the fleet is addressed over https, whatever scheme its entry
  names, so that its token is not sent in the clear; an entry that is a bare scheme addresses nobody.
\<close>

theorem tls_never_in_the_clear:
  assumes "parse_worker port token spec = Inr w"
  shows "startswith (base_url True w) ''https://'' \<or> (\<forall>c \<in> set (drop 5 (py_strip spec)). c \<in> {CHR ''/'', CHR '':''})"
proof (cases "sw_url w")
  case None
  then show ?thesis by (simp add: base_url_def startswith_def)
next
  case (Some url)
  let ?s = "py_strip spec"
  have s: "startswith ?s ''http://'' \<or> startswith ?s ''https://''" and url: "url = rstrip_slash ?s"
    using assms Some unfolding parse_worker_def Let_def by (auto split: if_splits sum.splits)
  show ?thesis
  proof (rule disjCI)
    assume "\<not> (\<forall>c \<in> set (drop 5 ?s). c \<in> {CHR ''/'', CHR '':''})"
    then obtain c where c: "c \<in> set (drop 5 ?s)" "c \<noteq> CHR ''/''" "c \<noteq> CHR '':''" by auto
    from s show "startswith (base_url True w) ''https://''"
    proof
      assume "startswith ?s ''http://''"
      then obtain rest where r: "?s = ''http://'' @ rest" by (auto simp: startswith_iff_prefix elim!: prefixE)
      then obtain u where u: "url = ''http://'' @ u" using rstrip_slash_keeps [of c rest "''http://''"] c url by auto
      have "rstrip_slash url = url" using url by simp
      then show ?thesis using Some u by (simp add: base_url_def startswith_def Let_def)
    next
      assume "startswith ?s ''https://''"
      then obtain rest where r: "?s = ''https://'' @ rest" by (auto simp: startswith_iff_prefix elim!: prefixE)
      then obtain u where u: "url = ''https://'' @ u" using rstrip_slash_keeps [of c rest "''https://''"] c url by auto
      have "rstrip_slash url = url" using url by simp
      then show ?thesis using Some u by (simp add: base_url_def startswith_def Let_def)
    qed
  qed
qed

theorem tls_never_in_the_clear_witness:
  "startswith (base_url True \<lparr>sw_host = None, sw_port = 8765, sw_url = Some ''http://b'', sw_token = None\<rparr>) ''https://''"
proof -
  have "parse_worker 8765 None '' http://b/ '' = Inr \<lparr>sw_host = None, sw_port = 8765, sw_url = Some ''http://b'', sw_token = None\<rparr>"
    by code_simp
  moreover have "\<not> (\<forall>c \<in> set (drop 5 (py_strip '' http://b/ '')). c \<in> {CHR ''/'', CHR '':''})" by code_simp
  ultimately show ?thesis using tls_never_in_the_clear by blast
qed

text \<open>
  A hand-out probe is asked within the time the caller has left: never with less than the minimum that can
  give a verdict, and never with more than the budget, unless the configured timeout is \<open>nan\<close>.
\<close>

theorem claim_probe_in_budget:
  assumes "claim_probe_budget c (Some (Fin b)) = Some t"
  shows "\<not> pf_less t MIN_PROBE_S \<and> (t = Fin b \<or> pf_less t (Fin b) \<or> sc_probe_timeout c = NaN \<and> t = MIN_PROBE_S)"
  using assms
  by (cases "sc_probe_timeout c")
     (auto simp: claim_probe_budget_def probe_budget_def py_min_def py_max_def MIN_PROBE_S_def Let_def split: if_splits)

theorem claim_probe_in_budget_witness: "\<not> pf_less (Fin 2) MIN_PROBE_S \<and> claim_probe_budget demo_fleet (Some (Fin 2)) = Some (Fin 2)"
proof -
  have "claim_probe_budget demo_fleet (Some (Fin 2)) = Some (Fin 2)"
    by (simp add: claim_probe_budget_def probe_budget_def py_min_def py_max_def MIN_PROBE_S_def demo_fleet_def)
  then show ?thesis using claim_probe_in_budget by blast
qed

end
