(* ===== verification/Tar_Extract.thy ===== *)
theory Tar_Extract
  imports Blastbox_Prelude Errors
begin

text \<open>
  \<^verbatim>\<open>host/runtime/remote_http.py\<close>, the unpacking of a worker's output: \<open>_bounded_copy\<close>,
  \<open>_make_traversable\<close>, \<open>_empty_dir\<close> and \<open>_safe_extract_tar\<close>, over a file system with directories,
  files and symbolic links.  The kernel walks a path component by component and follows at most 40
  links; Python's \<open>resolve\<close> does the same walk but passes over what is missing.  Member names are
  the worker's.  Errors of this host (a full disk, no descriptors) are an argument; the directory is
  not touched by anyone else meanwhile.  A leading \<open>//\<close> is read as \<open>/\<close>.
\<close>

section \<open>The file system\<close>

datatype fs_node = DirN nat | FileN nat string | LinkN bool "string list"

type_synonym path = "string list"
type_synonym fsys = "path \<Rightarrow> fs_node option"

definition ENOENT :: int where "ENOENT = 2"
definition EEXIST :: int where "EEXIST = 17"
definition ENOTDIR :: int where "ENOTDIR = 20"
definition EISDIR :: int where "EISDIR = 21"
definition ELOOP :: int where "ELOOP = 40"

definition skipped :: "string \<Rightarrow> bool" where
  "skipped c \<longleftrightarrow> c = [] \<or> c = ''.''"

text \<open>The walk to a directory; the first argument is how many links may still be followed.\<close>

fun dir_walk :: "nat \<Rightarrow> fsys \<Rightarrow> path \<Rightarrow> path \<Rightarrow> int + path" where
  "dir_walk n fs cur [] = Inr cur"
| "dir_walk n fs cur (c # cs) =
     (if skipped c then dir_walk n fs cur cs
      else if c = ''..'' then dir_walk n fs (butlast cur) cs
      else case fs (cur @ [c]) of
        None \<Rightarrow> Inl ENOENT
      | Some (FileN _ _) \<Rightarrow> Inl ENOTDIR
      | Some (DirN _) \<Rightarrow> dir_walk n fs (cur @ [c]) cs
      | Some (LinkN rooted target) \<Rightarrow>
          (case n of 0 \<Rightarrow> Inl ELOOP | Suc k \<Rightarrow> dir_walk k fs (if rooted then [] else cur) (target @ cs)))"

text \<open>\<open>resolve()\<close>, not strict; \<^const>\<open>None\<close> is a cycle of links.\<close>

fun resolve :: "nat \<Rightarrow> fsys \<Rightarrow> path \<Rightarrow> path \<Rightarrow> path option" where
  "resolve n fs cur [] = Some cur"
| "resolve n fs cur (c # cs) =
     (if skipped c then resolve n fs cur cs
      else if c = ''..'' then resolve n fs (butlast cur) cs
      else case fs (cur @ [c]) of
        Some (LinkN rooted target) \<Rightarrow>
          (case n of 0 \<Rightarrow> None | Suc k \<Rightarrow> resolve k fs (if rooted then [] else cur) (target @ cs))
      | _ \<Rightarrow> resolve n fs (cur @ [c]) cs)"

definition MAX_LINKS :: nat where
  "MAX_LINKS = 40"

text \<open>Errors of the host for \<open>mkdir\<close> and \<open>open\<close> of a path, the mode \<open>mkdir\<close> gives under the umask, and
  more links than a cycle-free path can have.\<close>

record disk =
  dk_mkdir :: "path \<Rightarrow> int option"
  dk_open :: "path \<Rightarrow> int option"
  dk_mode :: nat
  dk_links :: nat

definition is_dir :: "fsys \<Rightarrow> path \<Rightarrow> bool" where
  "is_dir fs p = (case dir_walk MAX_LINKS fs [] p of Inr _ \<Rightarrow> True | Inl _ \<Rightarrow> False)"

definition sys_mkdir :: "disk \<Rightarrow> fsys \<Rightarrow> path \<Rightarrow> int + fsys" where
  "sys_mkdir w fs p =
     (case dk_mkdir w p of
        Some e \<Rightarrow> Inl e
      | None \<Rightarrow>
          if p = [] then Inl EEXIST
          else case dir_walk MAX_LINKS fs [] (butlast p) of
            Inl e \<Rightarrow> Inl e
          | Inr d \<Rightarrow>
              if last p = ''..'' \<or> fs (d @ [last p]) \<noteq> None then Inl EEXIST
              else Inr (fs(d @ [last p] \<mapsto> DirN (dk_mode w))))"

text \<open>\<open>Path.mkdir(exist_ok=True)\<close> without and with \<open>parents\<close>; the first component of the answer is the error.\<close>

definition mkdir_once :: "disk \<Rightarrow> fsys \<Rightarrow> path \<Rightarrow> int option \<times> fsys" where
  "mkdir_once w fs p =
     (case sys_mkdir w fs p of
        Inr fs' \<Rightarrow> (None, fs')
      | Inl e \<Rightarrow> if e \<noteq> ENOENT \<and> is_dir fs p then (None, fs) else (Some e, fs))"

function mkdir_parents :: "disk \<Rightarrow> fsys \<Rightarrow> path \<Rightarrow> int option \<times> fsys" where
  "mkdir_parents w fs p =
     (case sys_mkdir w fs p of
        Inr fs' \<Rightarrow> (None, fs')
      | Inl e \<Rightarrow>
          if e \<noteq> ENOENT then (if is_dir fs p then (None, fs) else (Some e, fs))
          else if p = [] then (Some e, fs)
          else case mkdir_parents w fs (butlast p) of
            (Some e', fs') \<Rightarrow> (Some e', fs')
          | (None, fs') \<Rightarrow> mkdir_once w fs' p)"
  by pat_completeness auto
termination by (relation "measure (\<lambda>(w, fs, p). length p)") auto

declare mkdir_parents.simps [simp del]

definition sys_chmod :: "fsys \<Rightarrow> path \<Rightarrow> nat \<Rightarrow> fsys" where
  "sys_chmod fs p mode = (case dir_walk MAX_LINKS fs [] p of Inr d \<Rightarrow> fs(d \<mapsto> DirN mode) | Inl _ \<Rightarrow> fs)"

function chmod_up :: "path \<Rightarrow> fsys \<Rightarrow> path \<Rightarrow> fsys" where
  "chmod_up dest fs p =
     (let fs' = sys_chmod fs p 493 in
      if p = dest \<or> \<not> strict_prefix dest p then fs' else chmod_up dest fs' (butlast p))"
  by pat_completeness auto
termination by (relation "measure (\<lambda>(dest, fs, p). length p)") (auto simp: strict_prefix_def prefix_def)

declare chmod_up.simps [simp del]

definition make_traversable :: "disk \<Rightarrow> path \<Rightarrow> fsys \<Rightarrow> path \<Rightarrow> int option \<times> fsys" where
  "make_traversable w dest fs p =
     (case mkdir_parents w fs p of (Some e, fs') \<Rightarrow> (Some e, fs') | (None, fs') \<Rightarrow> (None, chmod_up dest fs' p))"

text \<open>\<open>os.open\<close> with \<open>O_CREAT | O_TRUNC | O_NOFOLLOW\<close> and the \<open>fchmod\<close> after it.\<close>

definition open_nofollow :: "disk \<Rightarrow> fsys \<Rightarrow> path \<Rightarrow> int + (path \<times> fsys)" where
  "open_nofollow w fs p =
     (case dk_open w p of
        Some e \<Rightarrow> Inl e
      | None \<Rightarrow>
          if p = [] then Inl EISDIR
          else case dir_walk MAX_LINKS fs [] (butlast p) of
            Inl e \<Rightarrow> Inl e
          | Inr d \<Rightarrow>
              if last p = ''..'' then Inl EISDIR
              else (case fs (d @ [last p]) of
                Some (DirN _) \<Rightarrow> Inl EISDIR
              | Some (LinkN _ _) \<Rightarrow> Inl ELOOP
              | _ \<Rightarrow> Inr (d @ [last p], fs(d @ [last p] \<mapsto> FileN 420 []))))"

text \<open>\<open>_empty_dir\<close>; \<open>stays\<close> is what could not be removed, which nobody reports.\<close>

definition empty_dir :: "path set \<Rightarrow> path \<Rightarrow> fsys \<Rightarrow> fsys" where
  "empty_dir stays d fs = (\<lambda>p. if strict_prefix d p \<and> p \<notin> stays then None else fs p)"

section \<open>Copying\<close>

datatype copy_exc = CopyTimeout | CopyTooLarge | CopyRead

text \<open>One turn of the loop: whether the deadline has passed when it starts, what the read gives,
  whether it has passed when the read fails, and whether the guard cut the read off.\<close>

record read_turn =
  rt_late :: bool
  rt_read :: "string option"
  rt_failed_late :: bool
  rt_fired :: bool

fun bounded_copy :: "bool \<Rightarrow> nat option \<Rightarrow> read_turn list \<Rightarrow> nat \<Rightarrow> string \<Rightarrow> copy_exc option \<times> nat \<times> string" where
  "bounded_copy timed limit [] n out = (None, n, out)"
| "bounded_copy timed limit (t # ts) n out =
     (if timed \<and> rt_late t then (Some CopyTimeout, n, out)
      else case rt_read t of
        None \<Rightarrow> (Some (if timed \<and> rt_failed_late t then CopyTimeout else CopyRead), n, out)
      | Some chunk \<Rightarrow>
          if timed \<and> rt_fired t then (Some CopyTimeout, n, out)
          else if chunk = [] then (None, n, out)
          else let n' = n + length chunk in
            if (case limit of None \<Rightarrow> False | Some l \<Rightarrow> l < n') then (Some CopyTooLarge, n', out)
            else bounded_copy timed limit ts n' (out @ chunk))"

section \<open>Extracting\<close>

record member =
  mb_name :: string
  mb_isfile :: bool
  mb_body :: "read_turn list option"

datatype tar_event = Entry member | BadTar

record extract_caps =
  xc_total :: "nat option"
  xc_members :: "nat option"
  xc_metadata :: "nat option"

record extraction =
  ex_fs :: fsys
  ex_total :: nat
  ex_files :: nat
  ex_written :: "path list"

datatype extract_exc = XTooLarge | XMalformed | XHost int | XLoop | XTar | XCopy copy_exc

definition member_path :: "path \<Rightarrow> string \<Rightarrow> path" where
  "member_path dest name =
     (let parts = filter (\<lambda>c. \<not> skipped c) (split_on (CHR ''/'') name) in
      if startswith name ''/'' then parts else dest @ parts)"

definition over :: "nat option \<Rightarrow> nat \<Rightarrow> bool" where
  "over cap n = (case cap of None \<Rightarrow> False | Some l \<Rightarrow> l < n)"

text \<open>The open of a member and the copy of its body; \<open>r\<close> is its resolved path.\<close>

definition write_member :: "disk \<Rightarrow> extract_caps \<Rightarrow> path \<Rightarrow> path \<Rightarrow> path \<Rightarrow> read_turn list \<Rightarrow> extraction
    \<Rightarrow> extract_exc option \<times> extraction" where
  "write_member w caps dest raw r body st =
     (case open_nofollow w (ex_fs st) raw of
        Inl e \<Rightarrow> (if e \<in> set HOST_RESOURCE_ERRNOS then Some (XHost e) else None, st)
      | Inr (p, fs') \<Rightarrow>
          let meta = (drop (length dest) r = [''metadata.json'']);
              limit = (if meta then xc_metadata caps else map_option (\<lambda>l. l - ex_total st) (xc_total caps)) in
          (case bounded_copy False limit body 0 [] of
             (exc, n, out) \<Rightarrow>
               let st' = st\<lparr>ex_fs := fs'(p \<mapsto> FileN 420 out)\<rparr> in
               (case exc of
                  Some CopyTooLarge \<Rightarrow> (Some XTooLarge, st')
                | Some e \<Rightarrow> (Some (XCopy e), st')
                | None \<Rightarrow> (None, st'\<lparr>ex_total := (if meta then ex_total st else ex_total st + n),
                                   ex_written := ex_written st @ [drop (length dest) r]\<rparr>))))"

definition extract_member :: "disk \<Rightarrow> extract_caps \<Rightarrow> path \<Rightarrow> member \<Rightarrow> extraction \<Rightarrow> extract_exc option \<times> extraction" where
  "extract_member w caps dest m st0 =
     (let st = st0\<lparr>ex_files := ex_files st0 + 1\<rparr> in
      if over (xc_members caps) (ex_files st) then (Some XTooLarge, st)
      else if \<not> mb_isfile m then (None, st)
      else
        let raw = member_path dest (mb_name m) in
        case resolve (dk_links w) (ex_fs st) [] raw of
          None \<Rightarrow> (Some XLoop, st)
        | Some r \<Rightarrow>
            if \<not> prefix dest r then (None, st)
            else case make_traversable w dest (ex_fs st) (butlast raw) of
              (Some e, fs') \<Rightarrow>
                (Some (if e \<in> set HOST_RESOURCE_ERRNOS then XHost e else XMalformed), st\<lparr>ex_fs := fs'\<rparr>)
            | (None, fs') \<Rightarrow>
                (case mb_body m of
                   None \<Rightarrow> (None, st\<lparr>ex_fs := fs'\<rparr>)
                 | Some body \<Rightarrow> write_member w caps dest raw r body (st\<lparr>ex_fs := fs'\<rparr>)))"

fun extract_all :: "disk \<Rightarrow> extract_caps \<Rightarrow> path \<Rightarrow> tar_event list \<Rightarrow> extraction \<Rightarrow> extract_exc option \<times> extraction" where
  "extract_all w caps dest [] st = (None, st)"
| "extract_all w caps dest (BadTar # es) st = (Some XTar, st)"
| "extract_all w caps dest (Entry m # es) st =
     (case extract_member w caps dest m st of
        (Some x, st') \<Rightarrow> (Some x, st')
      | (None, st') \<Rightarrow> extract_all w caps dest es st')"

definition safe_extract_tar :: "disk \<Rightarrow> extract_caps \<Rightarrow> path \<Rightarrow> tar_event list \<Rightarrow> fsys \<Rightarrow> extract_exc option \<times> extraction" where
  "safe_extract_tar w caps dest es fs =
     extract_all w caps dest es \<lparr>ex_fs = fs, ex_total = 0, ex_files = 0, ex_written = []\<rparr>"

end
