(* ===== verification/Tar_Confined.thy ===== *)
theory Tar_Confined
  imports Tar_Extract
begin

text \<open>
  What the unpacking of a hostile archive can do to the file system: file contents change only under
  the destination and within the caps, but directories outside of it can be made and opened up.
\<close>

section \<open>Walks\<close>

definition same_links :: "fsys \<Rightarrow> fsys \<Rightarrow> bool" where
  "same_links fs fs' \<longleftrightarrow> (\<forall>q b t. fs q = Some (LinkN b t) \<longleftrightarrow> fs' q = Some (LinkN b t))"

lemma same_links_refl [simp]: "same_links fs fs"
  by (simp add: same_links_def)

lemma same_links_trans: "same_links fs fs' \<Longrightarrow> same_links fs' fs'' \<Longrightarrow> same_links fs fs''"
  by (simp add: same_links_def)

lemma resolve_links:
  "same_links fs fs' \<Longrightarrow> resolve n fs cur cs = resolve n fs' cur cs"
proof (induction n fs cur cs rule: resolve.induct)
  case (2 n fs cur c cs)
  show ?case
  proof (cases "\<exists>b t. fs (cur @ [c]) = Some (LinkN b t)")
    case True
    then obtain b t where l: "fs (cur @ [c]) = Some (LinkN b t)" by blast
    then have "fs' (cur @ [c]) = Some (LinkN b t)" using 2 by (simp add: same_links_def)
    then show ?thesis using 2 l by (auto split: nat.splits)
  next
    case False
    then have f': "\<nexists>b t. fs' (cur @ [c]) = Some (LinkN b t)" using 2 by (simp add: same_links_def)
    have step: "resolve n g cur (c # cs) = (if skipped c then resolve n g cur cs
        else if c = ''..'' then resolve n g (butlast cur) cs else resolve n g (cur @ [c]) cs)"
      if "\<nexists>b t. g (cur @ [c]) = Some (LinkN b t)" for g
      using that by (auto split: option.splits fs_node.splits)
    have nl: "resolve n fs (cur @ [c]) cs = resolve n fs' (cur @ [c]) cs" if "\<not> skipped c" "c \<noteq> ''..''"
    proof (cases "fs (cur @ [c])")
      case None
      then show ?thesis using 2 that by simp
    next
      case (Some a)
      then show ?thesis using 2 that False by (cases a) auto
    qed
    show ?thesis unfolding step [of fs, OF False] step [of fs', OF f'] using 2 nl by auto
  qed
qed simp

lemma walk_resolve:
  "dir_walk n fs cur cs = Inr d \<Longrightarrow> n \<le> k \<Longrightarrow> \<exists>j. resolve k fs cur (cs @ rest) = resolve j fs d rest"
proof (induction n fs cur cs arbitrary: k rule: dir_walk.induct)
  case (1 n fs cur)
  then show ?case by auto
next
  case (2 n fs cur c cs)
  show ?case
  proof (cases "skipped c \<or> c = ''..''")
    case True
    then show ?thesis using 2 by (auto split: if_splits)
  next
    case False
    then obtain nd where nd: "fs (cur @ [c]) = Some nd" using 2 by (cases "fs (cur @ [c])") auto
    show ?thesis
    proof (cases nd)
      case (DirN m)
      then show ?thesis using 2 nd False by auto
    next
      case (FileN m x)
      then show ?thesis using 2 nd False by auto
    next
      case (LinkN b t)
      then obtain m where n: "n = Suc m" using 2 nd False by (cases n) auto
      then obtain k' where k: "k = Suc k'" using 2 by (cases k) auto
      have "dir_walk m fs (if b then [] else cur) (t @ cs) = Inr d" using 2 nd False LinkN n by simp
      moreover have "m \<le> k'" using 2 n k by simp
      ultimately have "\<exists>j. resolve k' fs (if b then [] else cur) ((t @ cs) @ rest) = resolve j fs d rest"
        using 2(4) False nd LinkN n by blast
      then show ?thesis using False nd LinkN k by simp
    qed
  qed
qed

lemma open_result:
  assumes "open_nofollow w fs p = Inr (q, fs')"
  shows "\<exists>d. p \<noteq> [] \<and> dir_walk MAX_LINKS fs [] (butlast p) = Inr d \<and> last p \<noteq> ''..'' \<and> q = d @ [last p]"
    "fs' = fs(q \<mapsto> FileN 420 [])" "\<nexists>m. fs q = Some (DirN m)" "\<nexists>b t. fs q = Some (LinkN b t)"
  using assms unfolding open_nofollow_def
  by (auto split: option.splits if_splits sum.splits fs_node.splits)

lemma open_resolve:
  assumes "open_nofollow w fs p = Inr (q, fs')" "MAX_LINKS \<le> n" "\<not> skipped (last p)"
  shows "resolve n fs [] p = Some q"
proof -
  obtain d where d: "p \<noteq> []" "dir_walk MAX_LINKS fs [] (butlast p) = Inr d" "last p \<noteq> ''..''" "q = d @ [last p]"
    using open_result(1) [OF assms(1)] by blast
  obtain j where j: "resolve n fs [] (butlast p @ [last p]) = resolve j fs d [last p]"
    using walk_resolve [OF d(2) assms(2)] by blast
  have "resolve j fs d [last p] = Some q"
    using open_result(4) [OF assms(1)] assms(3) d(3) unfolding d(4) by (auto split: option.splits fs_node.splits)
  then show ?thesis using j d(1) by simp
qed

section \<open>Trees\<close>

definition dir_at :: "fsys \<Rightarrow> path \<Rightarrow> bool" where
  "dir_at fs q \<longleftrightarrow> (\<exists>m. fs q = Some (DirN m))"

definition tree :: "fsys \<Rightarrow> bool" where
  "tree fs \<longleftrightarrow> dir_at fs [] \<and> (\<forall>q c. fs (q @ [c]) \<noteq> None \<longrightarrow> dir_at fs q)"

definition kept :: "fsys \<Rightarrow> fsys \<Rightarrow> path \<Rightarrow> bool" where
  "kept fs fs' q \<longleftrightarrow> fs' q = fs q \<or> dir_at fs' q \<and> (fs q = None \<or> dir_at fs q)"

lemma dir_at_upd [simp]: "dir_at (fs(p := v)) q \<longleftrightarrow> (if q = p then (\<exists>m. v = Some (DirN m)) else dir_at fs q)"
  by (simp add: dir_at_def)

lemma kept_trans: "kept fs fs' q \<Longrightarrow> kept fs' fs'' q \<Longrightarrow> kept fs fs'' q"
  by (auto simp: kept_def dir_at_def)

lemma kept_refl [simp]: "kept fs fs q"
  by (simp add: kept_def)

lemma tree_butlast: "tree fs \<Longrightarrow> dir_at fs q \<Longrightarrow> dir_at fs (butlast q)"
  by (cases q rule: rev_cases) (auto simp: tree_def dir_at_def)

lemma walk_dir: "dir_walk n fs cur cs = Inr d \<Longrightarrow> tree fs \<Longrightarrow> dir_at fs cur \<Longrightarrow> dir_at fs d"
proof (induction n fs cur cs rule: dir_walk.induct)
  case (2 n fs cur c cs)
  show ?case
  proof (cases "skipped c \<or> c = ''..''")
    case True
    then show ?thesis using 2 tree_butlast by (auto split: if_splits)
  next
    case False
    then obtain nd where nd: "fs (cur @ [c]) = Some nd" using 2 by (cases "fs (cur @ [c])") auto
    have top: "dir_at fs []" using 2 by (simp add: tree_def)
    show ?thesis
      using 2 nd False top by (cases nd) (auto simp: dir_at_def split: nat.splits if_splits)
  qed
qed simp

lemma walk_from_top: "dir_walk n fs [] cs = Inr d \<Longrightarrow> tree fs \<Longrightarrow> dir_at fs d"
  using walk_dir by (simp add: tree_def)

definition dirs_only :: "fsys \<Rightarrow> fsys \<Rightarrow> bool" where
  "dirs_only fs fs' \<longleftrightarrow> tree fs' \<and> (\<forall>q. kept fs fs' q)"

lemma dirs_only_refl: "tree fs \<Longrightarrow> dirs_only fs fs"
  by (simp add: dirs_only_def)

lemma dirs_only_trans: "dirs_only fs fs' \<Longrightarrow> dirs_only fs' fs'' \<Longrightarrow> dirs_only fs fs''"
  unfolding dirs_only_def using kept_trans by blast

lemma dirs_only_links: "dirs_only fs fs' \<Longrightarrow> same_links fs fs'"
  unfolding dirs_only_def kept_def same_links_def dir_at_def by (metis fs_node.distinct(3) not_Some_eq option.inject)

lemma dirs_only_dir: "dirs_only fs fs' \<Longrightarrow> dir_at fs q \<Longrightarrow> dir_at fs' q"
  unfolding dirs_only_def kept_def dir_at_def by metis

lemma dirs_only_file: "dirs_only fs fs' \<Longrightarrow> fs q = Some (FileN m x) \<Longrightarrow> fs' q = Some (FileN m x)"
  unfolding dirs_only_def kept_def dir_at_def by (metis fs_node.distinct(1) option.distinct(1) option.inject)

lemma sys_mkdir_dirs:
  assumes "sys_mkdir w fs p = Inr fs'" "tree fs" shows "dirs_only fs fs'"
proof -
  obtain d where d: "dir_walk MAX_LINKS fs [] (butlast p) = Inr d" "fs (d @ [last p]) = None"
    "fs' = fs(d @ [last p] \<mapsto> DirN (dk_mode w))"
    using assms(1) unfolding sys_mkdir_def by (auto split: option.splits if_splits sum.splits)
  have "dir_at fs d" by (rule walk_from_top [OF d(1) assms(2)])
  then have "tree fs'" using assms(2) d unfolding tree_def by auto
  then show ?thesis using d(2,3) by (auto simp: dirs_only_def kept_def)
qed

lemma mkdir_once_dirs:
  assumes "tree fs" shows "dirs_only fs (snd (mkdir_once w fs p))"
  using sys_mkdir_dirs [OF _ assms] dirs_only_refl [OF assms]
  unfolding mkdir_once_def by (auto split: sum.splits)

lemma mkdir_parents_dirs: "tree fs \<Longrightarrow> dirs_only fs (snd (mkdir_parents w fs p))"
proof (induction w fs p rule: mkdir_parents.induct)
  case (1 w fs p)
  show ?case
  proof (cases "sys_mkdir w fs p")
    case (Inr fs')
    then show ?thesis using sys_mkdir_dirs [OF Inr 1(2)] by (subst mkdir_parents.simps) simp
  next
    case (Inl e)
    show ?thesis
    proof (cases "e = ENOENT \<and> p \<noteq> []")
      case True
      have "dirs_only fs (snd (mkdir_parents w fs (butlast p)))" using 1 Inl True by simp
      moreover from this have "dirs_only (snd (mkdir_parents w fs (butlast p))) (snd (mkdir_once w (snd (mkdir_parents w fs (butlast p))) p))"
        using mkdir_once_dirs unfolding dirs_only_def by blast
      ultimately show ?thesis
        using Inl True dirs_only_trans by (subst mkdir_parents.simps) (auto split: prod.splits option.splits)
    next
      case False
      then show ?thesis using Inl dirs_only_refl [OF 1(2)] by (subst mkdir_parents.simps) auto
    qed
  qed
qed

lemma tree_upd_dir:
  assumes "tree fs" "dir_at fs d"
  shows "tree (fs(d \<mapsto> DirN m))"
  unfolding tree_def
proof (intro conjI allI impI)
  show "dir_at (fs(d \<mapsto> DirN m)) []" using assms(1) by (simp add: tree_def)
next
  fix q c assume "(fs(d \<mapsto> DirN m)) (q @ [c]) \<noteq> None"
  then have "fs (q @ [c]) \<noteq> None" using assms(2) by (auto simp: dir_at_def split: if_splits)
  then show "dir_at (fs(d \<mapsto> DirN m)) q" using assms(1) by (auto simp: tree_def)
qed

lemma tree_upd_file:
  assumes "tree fs" "\<not> dir_at fs p" "dir_at fs (butlast p)" "p \<noteq> []"
  shows "tree (fs(p \<mapsto> FileN m x))"
  unfolding tree_def
proof (intro conjI allI impI)
  show "dir_at (fs(p \<mapsto> FileN m x)) []" using assms(1,4) by (simp add: tree_def)
next
  fix q c assume "(fs(p \<mapsto> FileN m x)) (q @ [c]) \<noteq> None"
  then have "fs (q @ [c]) \<noteq> None \<or> q @ [c] = p" by (auto split: if_splits)
  then have "dir_at fs q" using assms(1,3) by (auto simp: tree_def)
  then show "dir_at (fs(p \<mapsto> FileN m x)) q" using assms(2) by auto
qed

lemma sys_chmod_dirs:
  assumes "tree fs" shows "dirs_only fs (sys_chmod fs p m)"
proof (cases "dir_walk MAX_LINKS fs [] p")
  case (Inr d)
  have "dir_at fs d" by (rule walk_from_top [OF Inr assms])
  then show ?thesis using assms Inr tree_upd_dir by (auto simp: sys_chmod_def dirs_only_def kept_def)
qed (simp add: sys_chmod_def dirs_only_refl assms)

lemma chmod_up_dirs: "tree fs \<Longrightarrow> dirs_only fs (chmod_up dest fs p)"
proof (induction dest fs p rule: chmod_up.induct)
  case (1 dest fs p)
  have d: "dirs_only fs (sys_chmod fs p 493)" by (rule sys_chmod_dirs [OF 1(2)])
  show ?case
  proof (cases "p = dest \<or> \<not> strict_prefix dest p")
    case True
    then show ?thesis using d by (subst chmod_up.simps) simp
  next
    case False
    then have "dirs_only (sys_chmod fs p 493) (chmod_up dest (sys_chmod fs p 493) (butlast p))"
      using 1 d by (simp add: dirs_only_def)
    then show ?thesis using False dirs_only_trans [OF d] by (subst chmod_up.simps) simp
  qed
qed

lemma make_traversable_dirs:
  assumes "tree fs" "make_traversable w dest fs p = (x, fs')" shows "dirs_only fs fs'"
proof -
  have m: "dirs_only fs (snd (mkdir_parents w fs p))" by (rule mkdir_parents_dirs [OF assms(1)])
  then have "tree (snd (mkdir_parents w fs p))" by (simp add: dirs_only_def)
  then have "dirs_only (snd (mkdir_parents w fs p)) (chmod_up dest (snd (mkdir_parents w fs p)) p)"
    by (rule chmod_up_dirs)
  then show ?thesis
    using assms(2) m dirs_only_trans unfolding make_traversable_def by (auto split: prod.splits option.splits)
qed

section \<open>Copies\<close>

lemma bounded_copy_limit:
  "bounded_copy timed limit ts n out = (x, n', out') \<Longrightarrow> length out = n \<Longrightarrow> \<not> over limit n
     \<Longrightarrow> \<not> over limit (length out') \<and> (x = None \<longrightarrow> n' = length out')"
proof (induction timed limit ts n out rule: bounded_copy.induct)
  case (2 timed limit t ts n out)
  then show ?case
    by (cases "rt_read t") (auto simp: Let_def over_def split: if_splits option.splits)
qed auto

section \<open>One member\<close>

definition fsize :: "fs_node option \<Rightarrow> nat" where
  "fsize v = (case v of Some (FileN _ x) \<Rightarrow> length x | _ \<Rightarrow> 0)"

definition meta_path :: "path \<Rightarrow> path" where
  "meta_path dest = dest @ [''metadata.json'']"

definition stored :: "path \<Rightarrow> fsys \<Rightarrow> path set \<Rightarrow> nat" where
  "stored dest fs ws = (\<Sum>q \<in> ws - {meta_path dest}. fsize (fs q))"

text \<open>\<open>ws\<close> are the files that may have been written; everything else is as it was, but for directories.\<close>

definition confined :: "extract_caps \<Rightarrow> path \<Rightarrow> fsys \<Rightarrow> fsys \<Rightarrow> path set \<Rightarrow> bool" where
  "confined caps dest fs fs' ws \<longleftrightarrow>
     finite ws \<and> (\<forall>q \<in> ws. strict_prefix dest q) \<and> (\<forall>q. q \<notin> ws \<longrightarrow> kept fs fs' q)
     \<and> \<not> over (xc_total caps) (stored dest fs' ws)
     \<and> (meta_path dest \<in> ws \<longrightarrow> \<not> over (xc_metadata caps) (fsize (fs' (meta_path dest))))
     \<and> \<not> over (xc_members caps) (card ws)"

definition going :: "extract_caps \<Rightarrow> path \<Rightarrow> fsys \<Rightarrow> extraction \<Rightarrow> path set \<Rightarrow> bool" where
  "going caps dest fs st ws \<longleftrightarrow>
     confined caps dest fs (ex_fs st) ws \<and> tree (ex_fs st) \<and> dir_at (ex_fs st) dest
     \<and> (\<forall>q \<in> ws. \<exists>m x. ex_fs st q = Some (FileN m x))
     \<and> stored dest (ex_fs st) ws \<le> ex_total st \<and> \<not> over (xc_total caps) (ex_total st)
     \<and> card ws \<le> ex_files st \<and> \<not> over (xc_members caps) (ex_files st)"

definition plain_path :: "path \<Rightarrow> bool" where
  "plain_path p \<longleftrightarrow> p \<noteq> [] \<and> (\<forall>c \<in> set p. \<not> skipped c)"

lemma over_mono: "\<not> over cap n \<Longrightarrow> m \<le> n \<Longrightarrow> \<not> over cap m"
  by (auto simp: over_def split: option.splits)

lemma member_path_plain: "plain_path dest \<Longrightarrow> c \<in> set (member_path dest name) \<Longrightarrow> \<not> skipped c"
  by (auto simp: member_path_def plain_path_def Let_def split: if_splits)

lemma stored_dirs:
  assumes "dirs_only fs fs'" "\<forall>q \<in> ws. \<exists>m x. fs q = Some (FileN m x)"
  shows "stored dest fs' ws = stored dest fs ws" "\<forall>q \<in> ws. fs' q = fs q"
proof -
  show eq: "\<forall>q \<in> ws. fs' q = fs q" using dirs_only_file [OF assms(1)] assms(2) by metis
  show "stored dest fs' ws = stored dest fs ws"
    unfolding stored_def by (rule sum.cong) (use eq in auto)
qed

lemma going_dirs:
  assumes g: "going caps dest fs st ws" and d: "dirs_only (ex_fs st) fs'"
  shows "going caps dest fs (st\<lparr>ex_fs := fs'\<rparr>) ws"
proof -
  have files: "\<forall>q \<in> ws. \<exists>m x. ex_fs st q = Some (FileN m x)" using g by (simp add: going_def)
  note st = stored_dirs [OF d files]
  have frame: "\<forall>q. q \<notin> ws \<longrightarrow> kept fs fs' q"
    using g d kept_trans unfolding going_def confined_def dirs_only_def by blast
  have dest: "dir_at fs' dest" using g dirs_only_dir [OF d] by (simp add: going_def)
  show ?thesis
    using g frame dest st files d unfolding going_def confined_def dirs_only_def by auto
qed

lemma stored_write:
  assumes "finite ws"
  shows "stored dest (f(q \<mapsto> FileN m x)) (insert q ws)
     \<le> stored dest f ws + (if q = meta_path dest then 0 else length x)"
proof -
  let ?w = "insert q ws - {meta_path dest}" and ?g = "f(q \<mapsto> FileN m x)"
  have "sum (\<lambda>p. fsize (?g p)) (?w - {q}) \<le> sum (\<lambda>p. fsize (f p)) (ws - {meta_path dest})"
  proof -
    have "sum (\<lambda>p. fsize (?g p)) (?w - {q}) = sum (\<lambda>p. fsize (f p)) (?w - {q})"
      by (rule sum.cong) auto
    also have "\<dots> \<le> sum (\<lambda>p. fsize (f p)) (ws - {meta_path dest})"
      by (rule sum_mono2) (use assms in auto)
    finally show ?thesis .
  qed
  moreover have "sum (\<lambda>p. fsize (?g p)) ?w
     = sum (\<lambda>p. fsize (?g p)) (?w - {q}) + (if q = meta_path dest then 0 else length x)"
    using assms sum.remove [of ?w q "\<lambda>p. fsize (?g p)"] by (auto simp: fsize_def)
  ultimately show ?thesis unfolding stored_def by linarith
qed

lemma going_write:
  assumes g: "going caps dest fs st ws" and files: "card ws < ex_files st"
    and q: "strict_prefix dest q" "\<not> dir_at (ex_fs st) q" "dir_at (ex_fs st) (butlast q)"
    and total: "q \<noteq> meta_path dest \<Longrightarrow> \<not> over (xc_total caps) (ex_total st + length out)"
    and meta: "q = meta_path dest \<Longrightarrow> \<not> over (xc_metadata caps) (length out)"
  shows "going caps dest fs (st\<lparr>ex_fs := (ex_fs st)(q \<mapsto> FileN 420 out),
       ex_total := (if q = meta_path dest then ex_total st else ex_total st + length out)\<rparr>) (insert q ws)"
proof -
  let ?f = "(ex_fs st)(q \<mapsto> FileN 420 out)"
  let ?t = "if q = meta_path dest then ex_total st else ex_total st + length out"
  have fin: "finite ws" using g by (simp add: going_def confined_def)
  have s: "stored dest ?f (insert q ws) \<le> ?t"
    using stored_write [OF fin, of dest "ex_fs st" q 420 out] g by (auto simp: going_def split: if_splits)
  have t: "\<not> over (xc_total caps) ?t" using g total by (auto simp: going_def)
  have s': "\<not> over (xc_total caps) (stored dest ?f (insert q ws))" by (rule over_mono [OF t s])
  have c: "card (insert q ws) \<le> ex_files st" using files fin by (simp add: card_insert_if)
  have c': "\<not> over (xc_members caps) (card (insert q ws))"
    by (rule over_mono [OF _ c]) (use g in \<open>simp add: going_def\<close>)
  have m: "meta_path dest \<in> insert q ws \<longrightarrow> \<not> over (xc_metadata caps) (fsize (?f (meta_path dest)))"
    using g meta by (auto simp: going_def confined_def fsize_def)
  have tr: "tree ?f" by (rule tree_upd_file) (use g q in \<open>auto simp: going_def\<close>)
  have frame: "\<forall>p. p \<notin> insert q ws \<longrightarrow> kept fs ?f p"
    using g by (auto simp: going_def confined_def kept_def)
  have dest: "dir_at ?f dest" using g q(1) by (auto simp: going_def)
  have inside: "\<forall>p \<in> insert q ws. strict_prefix dest p" using g q(1) by (auto simp: going_def confined_def)
  have fl: "\<forall>p \<in> insert q ws. \<exists>m x. ?f p = Some (FileN m x)" using g by (auto simp: going_def)
  have nf: "\<not> over (xc_members caps) (ex_files st)" using g by (simp add: going_def)
  show ?thesis
    unfolding going_def confined_def extraction.simps
    using fin s t s' c c' m tr frame dest inside fl nf by (intro conjI) (simp_all del: fun_upd_apply)
qed

lemma meta_iff: "prefix dest r \<Longrightarrow> drop (length dest) r = [''metadata.json''] \<longleftrightarrow> r = meta_path dest"
  by (auto simp: meta_path_def elim!: prefixE)

lemma going_written [simp]: "going caps dest fs (st\<lparr>ex_written := xs\<rparr>) ws = going caps dest fs st ws"
  by (simp add: going_def)

lemma write_member_confined:
  assumes g: "going caps dest fs st ws" and files: "card ws < ex_files st"
    and r: "resolve (dk_links w) (ex_fs st) [] raw = Some r" "prefix dest r"
    and raw: "\<not> skipped (last raw)" and links: "MAX_LINKS \<le> dk_links w"
    and wm: "write_member w caps dest raw r body st = (x, st')"
  shows "\<exists>ws'. confined caps dest fs (ex_fs st') ws' \<and> (x = None \<longrightarrow> going caps dest fs st' ws' \<and> card ws' \<le> ex_files st')"
proof (cases "open_nofollow w (ex_fs st) raw")
  case (Inl e)
  then have "st' = st" using wm by (simp add: write_member_def)
  then show ?thesis using g by (auto simp: going_def)
next
  case (Inr res)
  obtain p fs1 where op: "open_nofollow w (ex_fs st) raw = Inr (p, fs1)" using Inr by (cases res) auto
  have pr: "p = r" using open_resolve [OF op links raw] r(1) by simp
  have nd: "\<not> dir_at (ex_fs st) r" using open_result(3) [OF op] pr by (simp add: dir_at_def)
  then have sp: "strict_prefix dest r" using r(2) g unfolding going_def strict_prefix_def by metis
  obtain d where "dir_walk MAX_LINKS (ex_fs st) [] (butlast raw) = Inr d" "p = d @ [last raw]"
    using open_result(1) [OF op] by blast
  then have up: "dir_at (ex_fs st) (butlast r)"
    using walk_from_top g pr by (auto simp: going_def)
  let ?meta = "r = meta_path dest"
  let ?limit = "if ?meta then xc_metadata caps else map_option (\<lambda>l. l - ex_total st) (xc_total caps)"
  obtain exc n out where cp: "bounded_copy False ?limit body 0 [] = (exc, n, out)"
    by (cases "bounded_copy False ?limit body 0 []")
  have lim: "\<not> over ?limit (length out)" "exc = None \<Longrightarrow> n = length out"
    using bounded_copy_limit [OF cp] by (auto simp: over_def split: option.splits)
  have total: "\<not> over (xc_total caps) (ex_total st + length out)" if "\<not> ?meta"
    using lim(1) that g by (cases "xc_total caps") (auto simp: over_def going_def)
  have meta: "\<not> over (xc_metadata caps) (length out)" if ?meta using lim(1) that by simp
  let ?st = "st\<lparr>ex_fs := (ex_fs st)(r \<mapsto> FileN 420 out), ex_total := (if ?meta then ex_total st else ex_total st + length out)\<rparr>"
  have gw: "going caps dest fs ?st (insert r ws)"
    by (rule going_write [OF g files sp nd up total meta])
  have st': "st' = (if x = None then ?st\<lparr>ex_written := ex_written st @ [drop (length dest) r]\<rparr>
       else st\<lparr>ex_fs := (ex_fs st)(r \<mapsto> FileN 420 out)\<rparr>)" and x: "x = None \<longleftrightarrow> exc = None"
    using wm op cp lim(2) open_result(2) [OF op] unfolding write_member_def pr meta_iff [OF r(2)]
    by (auto simp: Let_def split: option.splits copy_exc.splits)
  have "confined caps dest fs (ex_fs st') (insert r ws)" using gw unfolding st' going_def by simp
  moreover have "going caps dest fs st' (insert r ws)" if "x = None"
    using gw that unfolding st' by simp
  then have "x = None \<longrightarrow> going caps dest fs st' (insert r ws) \<and> card (insert r ws) \<le> ex_files st'"
    by (simp add: going_def)
  ultimately show ?thesis by blast
qed

lemma extract_member_confined:
  assumes g: "going caps dest fs st ws" and dest: "plain_path dest" and links: "MAX_LINKS \<le> dk_links w"
    and em: "extract_member w caps dest m st = (x, st')"
  shows "\<exists>ws'. confined caps dest fs (ex_fs st') ws' \<and> (x = None \<longrightarrow> going caps dest fs st' ws')"
proof (cases "over (xc_members caps) (ex_files st + 1)")
  case True
  then show ?thesis using em g by (auto simp: extract_member_def going_def)
next
  case False
  let ?st = "st\<lparr>ex_files := ex_files st + 1\<rparr>"
  let ?raw = "member_path dest (mb_name m)"
  have g1: "going caps dest fs ?st ws" "card ws < ex_files ?st"
    using g False by (auto simp: going_def)
  have same: "\<exists>ws'. confined caps dest fs (ex_fs ?st) ws' \<and> going caps dest fs ?st ws'"
    using g1 by (auto simp: going_def)
  show ?thesis
  proof (cases "mb_isfile m \<and> (\<exists>r. resolve (dk_links w) (ex_fs st) [] ?raw = Some r \<and> prefix dest r)")
    case False
    then have "st' = ?st"
      using em \<open>\<not> over _ _\<close> by (auto simp: extract_member_def Let_def split: if_splits option.splits)
    then show ?thesis using same by auto
  next
    case True
    then obtain r where r: "mb_isfile m" "resolve (dk_links w) (ex_fs st) [] ?raw = Some r" "prefix dest r" by blast
    obtain e fs1 where mt: "make_traversable w dest (ex_fs st) (butlast ?raw) = (e, fs1)" by fastforce
    have d: "dirs_only (ex_fs st) fs1" using make_traversable_dirs [OF _ mt] g by (simp add: going_def)
    then have g2: "going caps dest fs (?st\<lparr>ex_fs := fs1\<rparr>) ws" "card ws < ex_files (?st\<lparr>ex_fs := fs1\<rparr>)"
      using going_dirs [OF g1(1)] g1(2) by auto
    then have same2: "confined caps dest fs (ex_fs (?st\<lparr>ex_fs := fs1\<rparr>)) ws" by (simp add: going_def)
    show ?thesis
    proof (cases "e = None \<and> mb_body m \<noteq> None")
      case False
      then have "st' = ?st\<lparr>ex_fs := fs1\<rparr>"
        using em \<open>\<not> over _ _\<close> r mt by (auto simp: extract_member_def Let_def split: option.splits)
      then show ?thesis using g2 same2 by blast
    next
      case True
      then obtain body where b: "mb_body m = Some body" "e = None" by blast
      have wm: "write_member w caps dest ?raw r body (?st\<lparr>ex_fs := fs1\<rparr>) = (x, st')"
        using em \<open>\<not> over _ _\<close> r mt b by (simp add: extract_member_def Let_def)
      have rs: "resolve (dk_links w) fs1 [] ?raw = Some r"
        using resolve_links [OF dirs_only_links [OF d]] r(2) by simp
      have ne: "?raw \<noteq> []"
      proof
        assume "?raw = []"
        then have "r = []" using r(2) by simp
        then show False using r(3) dest by (simp add: plain_path_def)
      qed
      have "\<not> skipped (last ?raw)" using member_path_plain [OF dest] last_in_set [OF ne] by blast
      then show ?thesis using write_member_confined [OF g2 _ r(3) _ links wm] rs by auto
    qed
  qed
qed

lemma extract_all_confined:
  "going caps dest fs st ws \<Longrightarrow> plain_path dest \<Longrightarrow> MAX_LINKS \<le> dk_links w \<Longrightarrow>
     extract_all w caps dest es st = (x, st') \<Longrightarrow> \<exists>ws'. confined caps dest fs (ex_fs st') ws'"
proof (induction w caps dest es st arbitrary: ws rule: extract_all.induct)
  case (3 w caps dest m es st)
  obtain y st1 where em: "extract_member w caps dest m st = (y, st1)" by fastforce
  then obtain ws1 where w: "confined caps dest fs (ex_fs st1) ws1" "y = None \<Longrightarrow> going caps dest fs st1 ws1"
    using extract_member_confined [OF 3(2-4)] by blast
  show ?case using 3(1) [OF em [symmetric]] 3(3-5) w em by (cases y) auto
qed (auto simp: going_def)

section \<open>Plain names\<close>

definition no_links :: "fsys \<Rightarrow> bool" where
  "no_links fs \<longleftrightarrow> (\<forall>q b t. fs q \<noteq> Some (LinkN b t))"

definition no_dots :: "path \<Rightarrow> bool" where
  "no_dots p \<longleftrightarrow> (\<forall>c \<in> set p. \<not> skipped c \<and> c \<noteq> ''..'')"

definition below_only :: "path \<Rightarrow> fsys \<Rightarrow> fsys \<Rightarrow> bool" where
  "below_only dest fs fs' \<longleftrightarrow> (\<forall>q. \<not> prefix dest q \<longrightarrow> fs' q = fs q)"

definition sane :: "path \<Rightarrow> fsys \<Rightarrow> bool" where
  "sane dest fs \<longleftrightarrow> tree fs \<and> no_links fs \<and> dir_at fs dest"

lemma below_only_refl [simp]: "below_only dest fs fs"
  by (simp add: below_only_def)

lemma below_only_trans: "below_only dest fs fs' \<Longrightarrow> below_only dest fs' fs'' \<Longrightarrow> below_only dest fs fs''"
  by (simp add: below_only_def)

lemma below_only_upd: "prefix dest p \<Longrightarrow> below_only dest fs (fs(p := v))"
  by (auto simp: below_only_def)

lemma sane_dirs: "sane dest fs \<Longrightarrow> dirs_only fs fs' \<Longrightarrow> sane dest fs'"
  using dirs_only_dir dirs_only_links unfolding sane_def no_links_def same_links_def dirs_only_def by metis

lemma plain_walk: "dir_walk n fs cur cs = Inr d \<Longrightarrow> no_links fs \<Longrightarrow> no_dots cs \<Longrightarrow> d = cur @ cs"
proof (induction n fs cur cs rule: dir_walk.induct)
  case (2 n fs cur c cs)
  then have c: "\<not> skipped c" "c \<noteq> ''..''" "no_dots cs" by (auto simp: no_dots_def)
  obtain m where "fs (cur @ [c]) = Some (DirN m)"
    using 2 c by (cases "fs (cur @ [c])") (auto simp: no_links_def split: fs_node.splits)
  then show ?case using 2 c by auto
qed simp

lemma plain_resolve: "no_links fs \<Longrightarrow> no_dots cs \<Longrightarrow> resolve n fs cur cs = Some (cur @ cs)"
proof (induction n fs cur cs rule: resolve.induct)
  case (2 n fs cur c cs)
  then have c: "\<not> skipped c" "c \<noteq> ''..''" "no_dots cs" by (auto simp: no_dots_def)
  have "resolve n fs (cur @ [c]) cs = Some ((cur @ [c]) @ cs)"
  proof (cases "fs (cur @ [c])")
    case None
    then show ?thesis using 2 c by simp
  next
    case (Some a)
    moreover have "\<nexists>b t. a = LinkN b t" using Some 2 by (auto simp: no_links_def)
    ultimately show ?thesis using 2 c by (cases a) auto
  qed
  moreover have "\<nexists>b t. fs (cur @ [c]) = Some (LinkN b t)" using 2 by (simp add: no_links_def)
  ultimately show ?case using c by (auto split: option.splits fs_node.splits)
qed simp

lemma dir_at_prefix: "tree fs \<Longrightarrow> dir_at fs (p @ cs) \<Longrightarrow> dir_at fs p"
proof (induction cs rule: rev_induct)
  case (snoc c cs)
  then have "dir_at fs (p @ cs)" unfolding tree_def dir_at_def by (metis append_assoc option.distinct(1))
  then show ?case using snoc by simp
qed simp

lemma walk_down:
  "tree fs \<Longrightarrow> dir_at fs (cur @ cs) \<Longrightarrow> no_dots cs \<Longrightarrow> dir_walk n fs cur cs = Inr (cur @ cs)"
proof (induction cs arbitrary: cur)
  case (Cons c cs)
  have "dir_at fs (cur @ [c])" using dir_at_prefix [of fs "cur @ [c]" cs] Cons.prems by simp
  then show ?case using Cons.IH [of "cur @ [c]"] Cons.prems by (auto simp: no_dots_def dir_at_def)
qed simp

lemma no_dots_butlast: "no_dots p \<Longrightarrow> no_dots (butlast p)"
  by (auto simp: no_dots_def dest: in_set_butlastD)

lemma prefix_butlast: "prefix dest p \<Longrightarrow> p \<noteq> dest \<Longrightarrow> prefix dest (butlast p)"
  by (cases p rule: rev_cases) auto

lemma sys_mkdir_below:
  assumes "sane dest fs" "no_dots p" "prefix dest p" "plain_path dest"
  shows "sys_mkdir w fs p = Inr fs' \<Longrightarrow> below_only dest fs fs'"
    "sys_mkdir w fs p = Inl ENOENT \<Longrightarrow> dk_mkdir w p \<noteq> Some ENOENT \<Longrightarrow> p \<noteq> dest"
proof -
  have ne: "p \<noteq> []" using assms(3,4) by (auto simp: plain_path_def)
  {
    assume "sys_mkdir w fs p = Inr fs'"
    then obtain d where d: "dir_walk MAX_LINKS fs [] (butlast p) = Inr d" "fs' = fs(d @ [last p] \<mapsto> DirN (dk_mode w))"
      unfolding sys_mkdir_def by (auto split: option.splits if_splits sum.splits)
    have "d = butlast p"
      using plain_walk [OF d(1)] assms(1,2) no_dots_butlast by (simp add: sane_def)
    then show "below_only dest fs fs'" using d(2) ne assms(3) below_only_upd by simp
  next
    assume e: "sys_mkdir w fs p = Inl ENOENT" and w: "dk_mkdir w p \<noteq> Some ENOENT"
    show "p \<noteq> dest"
    proof
      assume pd: "p = dest"
      have "dir_at fs p" using pd assms(1) by (simp add: sane_def)
      moreover have "dir_at fs (butlast p)" using assms(1) calculation tree_butlast by (simp add: sane_def)
      ultimately have "dir_walk MAX_LINKS fs [] (butlast p) = Inr (butlast p)" "fs (butlast p @ [last p]) \<noteq> None"
        using walk_down [of fs "[]" "butlast p"] assms(1,2) no_dots_butlast ne by (auto simp: sane_def dir_at_def)
      then show False using e w ne by (auto simp: sys_mkdir_def ENOENT_def EEXIST_def split: option.splits if_splits)
    qed
  }
qed

lemma mkdir_parents_below:
  "sane dest fs \<Longrightarrow> no_dots p \<Longrightarrow> prefix dest p \<Longrightarrow> plain_path dest \<Longrightarrow> \<forall>q. dk_mkdir w q \<noteq> Some ENOENT
     \<Longrightarrow> below_only dest fs (snd (mkdir_parents w fs p))"
proof (induction w fs p rule: mkdir_parents.induct)
  case (1 w fs p)
  have once: "below_only dest fs1 (snd (mkdir_once w fs1 p))" if "sane dest fs1" for fs1
    using sys_mkdir_below(1) [OF that 1(3,4,5)] unfolding mkdir_once_def by (auto split: sum.splits)
  show ?case
  proof (cases "sys_mkdir w fs p")
    case (Inr fs')
    then show ?thesis using sys_mkdir_below(1) [OF 1(2-5)] by (subst mkdir_parents.simps) simp
  next
    case (Inl e)
    show ?thesis
    proof (cases "e = ENOENT \<and> p \<noteq> []")
      case True
      then have "p \<noteq> dest" using sys_mkdir_below(2) [OF 1(2-5)] Inl 1(6) by blast
      then have "below_only dest fs (snd (mkdir_parents w fs (butlast p)))"
        using 1 Inl True prefix_butlast [OF 1(4) \<open>p \<noteq> dest\<close>] no_dots_butlast by simp
      moreover have "sane dest (snd (mkdir_parents w fs (butlast p)))"
        using sane_dirs [OF 1(2) mkdir_parents_dirs] 1(2) by (simp add: sane_def)
      ultimately show ?thesis
        using Inl True once below_only_trans by (subst mkdir_parents.simps) (auto split: prod.splits option.splits)
    next
      case False
      then show ?thesis using Inl by (subst mkdir_parents.simps) auto
    qed
  qed
qed

lemma chmod_up_below:
  "sane dest fs \<Longrightarrow> no_dots p \<Longrightarrow> prefix dest p \<Longrightarrow> below_only dest fs (chmod_up dest fs p)"
proof (induction dest fs p rule: chmod_up.induct)
  case (1 dest fs p)
  have s: "sane dest (sys_chmod fs p 493)" using sane_dirs [OF 1(2) sys_chmod_dirs] 1(2) by (simp add: sane_def)
  have b: "below_only dest fs (sys_chmod fs p 493)"
    using plain_walk [of MAX_LINKS fs "[]" p] 1 below_only_upd
    by (auto simp: sys_chmod_def sane_def split: sum.splits)
  show ?case
  proof (cases "p = dest \<or> \<not> strict_prefix dest p")
    case True
    then show ?thesis using b by (subst chmod_up.simps) simp
  next
    case False
    then have "below_only dest (sys_chmod fs p 493) (chmod_up dest (sys_chmod fs p 493) (butlast p))"
      using 1 s no_dots_butlast prefix_butlast [OF 1(4)] by simp
    then show ?thesis using False below_only_trans [OF b] by (subst chmod_up.simps) simp
  qed
qed

definition plain_member :: "path \<Rightarrow> member \<Rightarrow> bool" where
  "plain_member dest m \<longleftrightarrow> no_dots (member_path dest (mb_name m)) \<and> member_path dest (mb_name m) \<noteq> dest"

lemma extract_member_below:
  assumes s: "sane dest (ex_fs st)" and dest: "plain_path dest" and m: "plain_member dest m"
    and w: "\<forall>q. dk_mkdir w q \<noteq> Some ENOENT"
    and em: "extract_member w caps dest m st = (x, st')"
  shows "below_only dest (ex_fs st) (ex_fs st') \<and> sane dest (ex_fs st')"
proof -
  let ?raw = "member_path dest (mb_name m)"
  let ?st = "st\<lparr>ex_files := ex_files st + 1\<rparr>"
  have nd: "no_dots ?raw" "?raw \<noteq> dest" using m by (auto simp: plain_member_def)
  have r: "resolve (dk_links w) (ex_fs st) [] ?raw = Some ?raw"
    using plain_resolve [OF _ nd(1)] s by (simp add: sane_def)
  show ?thesis
  proof (cases "over (xc_members caps) (ex_files st + 1) \<or> \<not> mb_isfile m \<or> \<not> prefix dest ?raw")
    case True
    then have "ex_fs st' = ex_fs st" using em r by (auto simp: extract_member_def Let_def split: if_splits)
    then show ?thesis using s by simp
  next
    case False
    then have pre: "prefix dest ?raw" by blast
    obtain e fs1 where mt: "make_traversable w dest (ex_fs st) (butlast ?raw) = (e, fs1)" by fastforce
    have d: "dirs_only (ex_fs st) fs1" using make_traversable_dirs [OF _ mt] s by (simp add: sane_def)
    have s1: "sane dest fs1" by (rule sane_dirs [OF s d])
    have pb: "prefix dest (butlast ?raw)" "no_dots (butlast ?raw)"
      using prefix_butlast [OF pre nd(2)] no_dots_butlast [OF nd(1)] .
    have mp: "below_only dest (ex_fs st) (snd (mkdir_parents w (ex_fs st) (butlast ?raw)))"
      by (rule mkdir_parents_below [OF s pb(2,1) dest w])
    moreover have "sane dest (snd (mkdir_parents w (ex_fs st) (butlast ?raw)))"
      using sane_dirs [OF s mkdir_parents_dirs] s by (simp add: sane_def)
    ultimately have b1: "below_only dest (ex_fs st) fs1"
      using mt below_only_trans chmod_up_below [OF _ pb(2,1)]
      unfolding make_traversable_def by (auto split: prod.splits option.splits)
    show ?thesis
    proof (cases "e = None \<and> mb_body m \<noteq> None")
      case False
      then have "ex_fs st' = fs1" using em \<open>\<not> (_ \<or> _)\<close> r mt by (auto simp: extract_member_def Let_def split: option.splits)
      then show ?thesis using b1 s1 by simp
    next
      case True
      then obtain body where b: "mb_body m = Some body" "e = None" by blast
      have wm: "write_member w caps dest ?raw ?raw body (?st\<lparr>ex_fs := fs1\<rparr>) = (x, st')"
        using em \<open>\<not> (_ \<or> _)\<close> r mt b by (simp add: extract_member_def Let_def)
      have "ex_fs st' = fs1 \<or> (\<exists>out. ex_fs st' = fs1(?raw \<mapsto> FileN 420 out) \<and> \<not> dir_at fs1 ?raw \<and> dir_at fs1 (butlast ?raw) \<and> ?raw \<noteq> [])"
      proof (cases "open_nofollow w fs1 ?raw")
        case (Inl y)
        then show ?thesis using wm by (auto simp: write_member_def)
      next
        case (Inr res)
        obtain p fs2 where op: "open_nofollow w fs1 ?raw = Inr (p, fs2)" using Inr by (cases res) auto
        obtain d' where d': "?raw \<noteq> []" "dir_walk MAX_LINKS fs1 [] (butlast ?raw) = Inr d'" "p = d' @ [last ?raw]"
          using open_result(1) [OF op] by blast
        have "d' = butlast ?raw" using plain_walk [OF d'(2) _ pb(2)] s1 by (simp add: sane_def)
        then have p: "p = ?raw" "dir_at fs1 (butlast ?raw)" using d' walk_from_top s1 by (auto simp: sane_def)
        have "\<not> dir_at fs1 ?raw" using open_result(3) [OF op] p by (simp add: dir_at_def)
        moreover have "\<exists>out. ex_fs st' = fs1(?raw \<mapsto> FileN 420 out)"
          using wm op open_result(2) [OF op] p(1) unfolding write_member_def
          by (auto simp: Let_def split: prod.splits option.splits copy_exc.splits)
        ultimately show ?thesis using p(2) d'(1) by blast
      qed
      then show ?thesis
      proof
        assume "ex_fs st' = fs1"
        then show ?thesis using b1 s1 by simp
      next
        assume "\<exists>out. ex_fs st' = fs1(?raw \<mapsto> FileN 420 out) \<and> \<not> dir_at fs1 ?raw \<and> dir_at fs1 (butlast ?raw) \<and> ?raw \<noteq> []"
        then obtain out where o: "ex_fs st' = fs1(?raw \<mapsto> FileN 420 out)" "\<not> dir_at fs1 ?raw" "dir_at fs1 (butlast ?raw)" "?raw \<noteq> []"
          by blast
        have "sane dest (ex_fs st')"
          using s1 o tree_upd_file [OF _ o(2,3,4)] unfolding o(1) sane_def by (auto simp: no_links_def)
        then show ?thesis using b1 below_only_trans [OF b1 below_only_upd [OF pre]] o(1) by simp
      qed
    qed
  qed
qed

lemma extract_all_below:
  "sane dest (ex_fs st) \<Longrightarrow> plain_path dest \<Longrightarrow> \<forall>m. Entry m \<in> set es \<longrightarrow> plain_member dest m
     \<Longrightarrow> \<forall>q. dk_mkdir w q \<noteq> Some ENOENT \<Longrightarrow> extract_all w caps dest es st = (x, st') \<Longrightarrow> below_only dest (ex_fs st) (ex_fs st')"
proof (induction w caps dest es st rule: extract_all.induct)
  case (3 w caps dest m es st)
  obtain y st1 where em: "extract_member w caps dest m st = (y, st1)" by fastforce
  have b: "below_only dest (ex_fs st) (ex_fs st1)" "sane dest (ex_fs st1)"
    using extract_member_below [OF 3(2,3) _ 3(5) em] 3(4) by auto
  show ?case using 3(1) [OF em [symmetric]] 3 b em below_only_trans by (cases y) auto
qed auto

section \<open>Properties\<close>

text \<open>A job directory that only the host may enter, with the output directory in it, and a disk without faults.\<close>

definition job_fs :: fsys where
  "job_fs = (\<lambda>_. None)([] \<mapsto> DirN 493, [''job''] \<mapsto> DirN 448, [''job'', ''output''] \<mapsto> DirN 493)"

definition good_disk :: disk where
  "good_disk = \<lparr>dk_mkdir = (\<lambda>_. None), dk_open = (\<lambda>_. None), dk_mode = 493, dk_links = 40\<rparr>"

definition file_of :: "string \<Rightarrow> string \<Rightarrow> tar_event" where
  "file_of name body =
     Entry \<lparr>mb_name = name, mb_isfile = True,
            mb_body = Some [\<lparr>rt_late = False, rt_read = Some body, rt_failed_late = False, rt_fired = False\<rparr>]\<rparr>"

definition demo_caps :: extract_caps where
  "demo_caps = \<lparr>xc_total = Some 4, xc_members = Some 3, xc_metadata = Some 2\<rparr>"

lemma tree_job: "tree job_fs"
  by (auto simp: tree_def dir_at_def job_fs_def append_eq_Cons_conv split: if_splits)

lemma job_ok: "tree job_fs" "dir_at job_fs [''job'', ''output'']" "plain_path [''job'', ''output'']" "MAX_LINKS \<le> dk_links good_disk"
  by (simp_all add: tree_job) (simp_all add: dir_at_def job_fs_def plain_path_def skipped_def MAX_LINKS_def good_disk_def)

text \<open>
  C34: Whatever archive a worker sends, and whatever links an earlier attempt left behind, extraction
  changes files only strictly below the destination; everywhere else it can at most make
  directories and set their mode.  However it ends, the artifacts it has put on the disk are within the byte cap
  together, the metadata within its own, and they are no more than the cap on members.
\<close>

theorem extraction_confined:
  assumes "tree fs" "dir_at fs dest" "plain_path dest" "MAX_LINKS \<le> dk_links w"
    and "safe_extract_tar w caps dest es fs = (x, st)"
  shows "\<exists>ws. finite ws \<and> (\<forall>q \<in> ws. strict_prefix dest q) \<and> (\<forall>q. q \<notin> ws \<longrightarrow> kept fs (ex_fs st) q)
     \<and> \<not> over (xc_total caps) (\<Sum>q \<in> ws - {meta_path dest}. fsize (ex_fs st q))
     \<and> (meta_path dest \<in> ws \<longrightarrow> \<not> over (xc_metadata caps) (fsize (ex_fs st (meta_path dest))))
     \<and> \<not> over (xc_members caps) (card ws)"
proof -
  have z: "\<not> over cap 0" for cap by (simp add: over_def split: option.split)
  have "going caps dest fs \<lparr>ex_fs = fs, ex_total = 0, ex_files = 0, ex_written = []\<rparr> {}"
    using assms(1,2) z by (simp add: going_def confined_def stored_def)
  then have "\<exists>ws. confined caps dest fs (ex_fs st) ws"
    using extract_all_confined [OF _ assms(3,4)] assms(5) unfolding safe_extract_tar_def by blast
  then show ?thesis unfolding confined_def stored_def .
qed

theorem extraction_confined_witness:
  "\<exists>ws. finite ws \<and> (\<forall>q \<in> ws. strict_prefix [''job'', ''output''] q)
     \<and> (\<forall>q. q \<notin> ws \<longrightarrow> kept job_fs (ex_fs (snd (safe_extract_tar good_disk demo_caps [''job'', ''output'']
          [file_of ''a/b'' ''xyz'', file_of ''./metadata.json'' ''{}'', file_of ''c'' ''xyz''] job_fs))) q)"
  using extraction_confined [OF job_ok prod.collapse [symmetric], of demo_caps
      "[file_of ''a/b'' ''xyz'', file_of ''./metadata.json'' ''{}'', file_of ''c'' ''xyz'']"] by blast

text \<open>
  With member names free of \<open>..\<close> that do not name the destination itself, and no links in the way, extraction
  changes nothing outside of the destination, not even a directory.
\<close>

theorem plain_names_stay_inside:
  assumes "tree fs" "no_links fs" "dir_at fs dest" "plain_path dest" "\<forall>q. dk_mkdir w q \<noteq> Some ENOENT"
    and "\<forall>m. Entry m \<in> set es \<longrightarrow> plain_member dest m"
    and "safe_extract_tar w caps dest es fs = (x, st)" "\<not> prefix dest q"
  shows "ex_fs st q = fs q"
  using extract_all_below [of dest "\<lparr>ex_fs = fs, ex_total = 0, ex_files = 0, ex_written = []\<rparr>" es w caps x st] assms
  unfolding safe_extract_tar_def sane_def below_only_def by simp

theorem plain_names_stay_inside_witness:
  "ex_fs (snd (safe_extract_tar good_disk demo_caps [''job'', ''output''] [file_of ''a/b'' ''xyz''] job_fs)) [''job'']
     = Some (DirN 448)"
proof -
  have "no_links job_fs" by (simp add: no_links_def job_fs_def)
  moreover have "\<forall>q. dk_mkdir good_disk q \<noteq> Some ENOENT" by (simp add: good_disk_def)
  moreover have "\<forall>m. Entry m \<in> set [file_of ''a/b'' ''xyz''] \<longrightarrow> plain_member [''job'', ''output''] m"
    by (simp add: file_of_def plain_member_def member_path_def no_dots_def skipped_def startswith_def Let_def)
  moreover have "\<not> prefix [''job'', ''output''] [''job'']" by simp
  ultimately have "ex_fs (snd (safe_extract_tar good_disk demo_caps [''job'', ''output''] [file_of ''a/b'' ''xyz''] job_fs)) [''job'']
      = job_fs [''job'']"
    using plain_names_stay_inside [OF job_ok(1) _ job_ok(2,3) _ _ prod.collapse [symmetric]] by blast
  then show ?thesis by (simp add: job_fs_def)
qed

lemma write_member_dirs:
  assumes "write_member w caps dest raw r body st = (x, st')" "dir_at (ex_fs st) q"
  shows "dir_at (ex_fs st') q"
proof (cases "open_nofollow w (ex_fs st) raw")
  case (Inl e)
  then show ?thesis using assms by (auto simp: write_member_def)
next
  case (Inr res)
  obtain p fs2 where op: "open_nofollow w (ex_fs st) raw = Inr (p, fs2)" using Inr by (cases res) auto
  obtain out where "ex_fs st' = (ex_fs st)(p \<mapsto> FileN 420 out)"
    using assms(1) op open_result(2) [OF op] unfolding write_member_def
    by (auto simp: Let_def split: prod.splits option.splits copy_exc.splits)
  moreover have "q \<noteq> p" using open_result(3) [OF op] assms(2) by (auto simp: dir_at_def)
  ultimately show ?thesis using assms(2) by simp
qed

text \<open>What \<open>mkdir\<close> made for a member stays, however the member ends.\<close>

lemma extract_member_makes:
  assumes "tree (ex_fs st)" "\<not> over (xc_members caps) (ex_files st + 1)" "mb_isfile m"
    and "resolve (dk_links w) (ex_fs st) [] (member_path dest (mb_name m)) = Some r" "prefix dest r"
    and "extract_member w caps dest m st = (x, st')"
    and "dir_at (snd (mkdir_parents w (ex_fs st) (butlast (member_path dest (mb_name m))))) q"
  shows "dir_at (ex_fs st') q"
proof -
  let ?p = "butlast (member_path dest (mb_name m))"
  obtain e fs1 where mt: "make_traversable w dest (ex_fs st) ?p = (e, fs1)" by fastforce
  have "tree (snd (mkdir_parents w (ex_fs st) ?p))" using mkdir_parents_dirs [OF assms(1)] by (simp add: dirs_only_def)
  from dirs_only_dir [OF chmod_up_dirs [OF this] assms(7)] have d: "dir_at fs1 q"
    using mt assms(7) unfolding make_traversable_def by (auto split: prod.splits option.splits)
  have wm: "dir_at (ex_fs st2) q" if "write_member w caps dest raw r body (st1\<lparr>ex_fs := fs1\<rparr>) = (y, st2)" for raw body st1 y st2
    using write_member_dirs [OF that] d by simp
  show ?thesis
    using assms(2-6) mt d wm by (auto simp: extract_member_def Let_def split: option.splits)
qed

definition climbing :: member where
  "climbing = \<lparr>mb_name = ''x/../../evil/../output/f'', mb_isfile = True, mb_body = Some []\<rparr>"

lemma climbing_makes: "dir_at (ex_fs (snd (safe_extract_tar good_disk demo_caps [''job'', ''output''] [Entry climbing] job_fs))) [''job'', ''evil'']"
proof -
  let ?st = "\<lparr>ex_fs = job_fs, ex_total = 0, ex_files = 0, ex_written = []\<rparr>"
  obtain x st where em: "extract_member good_disk demo_caps [''job'', ''output''] climbing ?st = (x, st)" by fastforce
  have "snd (mkdir_parents good_disk job_fs (butlast (member_path [''job'', ''output''] (mb_name climbing)))) [''job'', ''evil'']
      = Some (DirN 493)" by code_simp
  then have made: "dir_at (snd (mkdir_parents good_disk (ex_fs ?st) (butlast (member_path [''job'', ''output''] (mb_name climbing)))))
      [''job'', ''evil'']" by (simp add: dir_at_def)
  have res: "resolve (dk_links good_disk) (ex_fs ?st) [] (member_path [''job'', ''output''] (mb_name climbing))
      = Some [''job'', ''output'', ''f'']" by code_simp
  have "dir_at (ex_fs st) [''job'', ''evil'']"
    by (rule extract_member_makes [OF _ _ _ res _ em made]) (simp_all add: tree_job over_def demo_caps_def climbing_def)
  then show ?thesis using em by (cases x) (simp_all add: safe_extract_tar_def)
qed

text \<open>
  Directories are not confined: a member named \<open>.\<close> opens up the directory above the destination, and a
  name through \<open>..\<close> makes a directory beside it, although both resolve to inside.
\<close>

theorem extraction_reaches_parent:
  "job_fs [''job''] = Some (DirN 448) \<and> job_fs [''job'', ''evil''] = None
   \<and> ex_fs (snd (safe_extract_tar good_disk demo_caps [''job'', ''output''] [file_of ''.'' []] job_fs)) [''job''] = Some (DirN 493)
   \<and> dir_at (ex_fs (snd (safe_extract_tar good_disk demo_caps [''job'', ''output''] [Entry climbing] job_fs))) [''job'', ''evil'']"
proof -
  have "ex_fs (snd (safe_extract_tar good_disk demo_caps [''job'', ''output''] [file_of ''.'' []] job_fs)) [''job''] = Some (DirN 493)"
    by code_simp
  then show ?thesis using climbing_makes by (simp add: job_fs_def)
qed

section \<open>Whose fault a failed extraction is\<close>

definition layout_errno :: "int \<Rightarrow> bool" where
  "layout_errno e \<longleftrightarrow> e \<in> {ENOENT, EEXIST, ENOTDIR, EISDIR, ELOOP}"

lemma layout_not_host: "layout_errno e \<Longrightarrow> e \<notin> set HOST_RESOURCE_ERRNOS"
  by (auto simp: layout_errno_def ENOENT_def EEXIST_def ENOTDIR_def EISDIR_def ELOOP_def HOST_RESOURCE_ERRNOS_def
      EMFILE_def ENFILE_def ENOMEM_def EIO_def ENOSPC_def EDQUOT_def EROFS_def)

lemma walk_errno: "dir_walk n fs cur cs = Inl e \<Longrightarrow> layout_errno e"
proof (induction n fs cur cs rule: dir_walk.induct)
  case (2 n fs cur c cs)
  then show ?case by (auto simp: layout_errno_def split: if_splits option.splits fs_node.splits nat.splits)
qed simp

lemma mkdir_errno: "dk_mkdir w p = None \<Longrightarrow> sys_mkdir w fs p = Inl e \<Longrightarrow> layout_errno e"
  using walk_errno unfolding sys_mkdir_def by (auto simp: layout_errno_def split: if_splits sum.splits)

lemma open_errno: "dk_open w p = None \<Longrightarrow> open_nofollow w fs p = Inl e \<Longrightarrow> layout_errno e"
  using walk_errno unfolding open_nofollow_def
  by (auto simp: layout_errno_def split: if_splits sum.splits option.splits fs_node.splits)

lemma mkdir_parents_errno: "\<forall>p. dk_mkdir w p = None \<Longrightarrow> mkdir_parents w fs p = (Some e, fs') \<Longrightarrow> layout_errno e"
proof (induction w fs p arbitrary: e fs' rule: mkdir_parents.induct)
  case (1 w fs p)
  have once: "layout_errno e'" if "mkdir_once w g p = (Some e', g')" for g e' g'
  proof (cases "sys_mkdir w g p")
    case (Inl e2)
    then have "e' = e2" using that by (auto simp: mkdir_once_def split: if_splits)
    then show ?thesis using mkdir_errno [OF _ Inl] 1(2) by simp
  qed (use that in \<open>simp add: mkdir_once_def\<close>)
  show ?case
  proof (cases "sys_mkdir w fs p")
    case (Inl e1)
    have l: "layout_errno e1" using mkdir_errno [OF _ Inl] 1(2) by simp
    obtain y g where m: "mkdir_parents w fs (butlast p) = (y, g)" by fastforce
    show ?thesis
    proof (cases "e1 = ENOENT \<and> p \<noteq> []")
      case True
      then have "(case y of Some e' \<Rightarrow> (Some e', g) | None \<Rightarrow> mkdir_once w g p) = (Some e, fs')"
        using 1(3) Inl m by (subst (asm) mkdir_parents.simps) (auto split: option.splits)
      then show ?thesis using 1(1) [OF Inl _ _ 1(2)] True m once by (cases y) auto
    next
      case False
      then show ?thesis using 1(3) Inl l by (subst (asm) mkdir_parents.simps) (auto split: if_splits)
    qed
  qed (use 1(3) in \<open>subst (asm) mkdir_parents.simps, simp\<close>)
qed

text \<open>
  No archive can make a failed extraction look like a fault of this host: as long as the host's own
  disk serves every call, no layout of names, files and links ends in the error that spares the worker.
\<close>

theorem no_archive_blames_host:
  assumes "\<forall>p. dk_mkdir w p = None" "\<forall>p. dk_open w p = None"
    and "safe_extract_tar w caps dest es fs = (x, st)"
  shows "x \<noteq> Some (XHost e)"
proof -
  have wm: "y \<noteq> Some (XHost e)" if "write_member w caps dest raw r body st1 = (y, st2)" for raw r body st1 st2 y
  proof (cases "open_nofollow w (ex_fs st1) raw")
    case (Inl e')
    then show ?thesis using that open_errno [OF _ Inl] assms(2) layout_not_host by (auto simp: write_member_def)
  next
    case (Inr res)
    then show ?thesis using that unfolding write_member_def
      by (cases res) (auto simp: Let_def split: prod.splits option.splits copy_exc.splits)
  qed
  have em: "y \<noteq> Some (XHost e)" if em: "extract_member w caps dest m st1 = (y, st2)" for m st1 st2 y
  proof
    assume y: "y = Some (XHost e)"
    show False
    proof (cases "make_traversable w dest (ex_fs st1) (butlast (member_path dest (mb_name m)))")
      case (Pair z g)
      have "layout_errno e'" if "z = Some e'" for e'
        using Pair that mkdir_parents_errno [OF assms(1)] unfolding make_traversable_def
        by (auto split: prod.splits option.splits)
      moreover have "write_member w caps dest raw r body st1 \<noteq> (Some (XHost e), st2)" for raw r body st1 st2
        using wm by blast
      ultimately show False using em y Pair layout_not_host
        unfolding extract_member_def by (auto simp: Let_def split: if_splits option.splits)
    qed
  qed
  have "extract_all w caps dest es st1 = (y, st2) \<Longrightarrow> y \<noteq> Some (XHost e)" for st1 y st2
  proof (induction es arbitrary: st1)
    case (Cons ev es)
    have "extract_member w caps dest m st1 \<noteq> (Some (XHost e), st3)" for m st3 using em by blast
    then show ?case using Cons by (cases ev) (auto split: prod.splits option.splits)
  qed auto
  then show ?thesis using assms(3) unfolding safe_extract_tar_def by blast
qed

theorem no_archive_blames_host_witness:
  "fst (safe_extract_tar good_disk demo_caps [''job'', ''output''] [file_of ''a'' ''x'', file_of ''a/b'' ''y''] job_fs) \<noteq> Some (XHost EIO)"
proof -
  have "\<forall>p. dk_mkdir good_disk p = None" "\<forall>p. dk_open good_disk p = None" by (simp_all add: good_disk_def)
  then show ?thesis using no_archive_blames_host [OF _ _ prod.collapse [symmetric]] by blast
qed

end
