(* ===== verification/Spec2Isabelle.thy ===== *)
theory Spec2Isabelle
  imports Job_Redis Output_Trust Node_Sizer Placement Concurrency_Gate Node_Share
    Pool_Ownership Pool_Sizing Pool_Health Net_Policy Dispatch_Backoff Dispatch_Recovery Dispatch_Net
    Worker_Env Dispatch_Once Retention_Uploads Egress_Teardown Egress_Plan Cascade_Run Snapshot_Run Vm_Build
    Static_Run Tar_Confined
begin

text \<open>
  Verification library of blastbox, a host that runs untrusted documents through analysis engines
  in throw-away workers.  Clients submit jobs to a store; dispatchers claim them, run each on a
  warm, a cold or a remote worker, judge the worker's output as untrusted data, and write one terminal
  state back.  The theories model \<^verbatim>\<open>src/src/blastbox\<close>; names follow the code, and file and function
  names in the theories are relative to that directory.

  \<^bold>\<open>Shared vocabulary.\<close>  \<open>Blastbox_Prelude\<close>: JSON values, Python's truth, \<open>int\<close> parsing, slicing and
  sorting, floats with their non-finite values, errors as values of a sum, and the lemmas on
  association lists (insertion-ordered dictionaries) that the components share.

  \<^bold>\<open>Jobs.\<close>
  \<^item> \<open>Job_Model\<close>: \<^verbatim>\<open>host/jobs/base.py\<close>, the job record, its JSON form, field updates, the routing
    predicate of a claim and the listing window.
  \<^item> \<open>Job_Spec\<close>: the contract of a job store, as the step relation \<open>abs_step\<close> on a map from job ids
    to jobs, and the locale \<open>job_store\<close> whose clients get the exclusion of a second terminal write.
  \<^item> \<open>Job_Memory\<close>, \<open>Job_Redis\<close>: \<^verbatim>\<open>host/jobs/memory.py\<close> and \<^verbatim>\<open>redis_store.py\<close>.  The in-memory methods run
    under one lock and are one step each.  The Redis transactions are loops over attempts, and an
    attempt carries the foreign writes before the read and between WATCH and EXEC; the list of
    attempts is finite, and when it is used up the next attempt meets no interference, so a loop
    always returns.  Both interpret the locale on their own definitions.
  \<^item> \<open>Job_Retention\<close>, \<open>Retention_Uploads\<close>: \<^verbatim>\<open>host/jobs/retention.py\<close>, the expiry of jobs, the reclaim of
    scratch directories, the retries of failed uploads.

  \<^bold>\<open>Contract and trust.\<close>
  \<^item> \<open>Contract_Nodes\<close>, \<open>Contract_Envelope\<close>: \<^verbatim>\<open>contract/leaf.py\<close>, \<^verbatim>\<open>nodes.py\<close>, \<^verbatim>\<open>walk.py\<close> and
    \<^verbatim>\<open>envelope.py\<close>: the node tree and its bounded walks, the confined open, the capped hash, sealing
    and checking an envelope.  A file system is a function from a relative path to what the kernel
    answers.  Pydantic's parse of a JSON text is a parameter (\<open>parsers\<close>).
  \<^item> \<open>Resource_Limits\<close>: \<^verbatim>\<open>limits.py\<close>.  \<open>Errors\<close>: \<^verbatim>\<open>errors.py\<close>, the classifiers over the graph of an
    exception's causes and contexts.
  \<^item> \<open>Output_Trust\<close>: \<^verbatim>\<open>host/trust.py\<close>, the verdict on a worker's output directory.

  \<^bold>\<open>Dispatcher\<close> (\<^verbatim>\<open>host/dispatch.py\<close>, \<^verbatim>\<open>host/runtime/docker.py\<close>).
  \<^item> \<open>Dispatch_Steps\<close>: the state of a dispatcher, the store behind it, and the steps that every kind of run shares.
    \<open>Dispatch_Warm\<close> and \<open>Dispatch_Cold\<close>: one job on a warm slot and in a fresh container.
    \<open>Dispatch_Once\<close>: one round of claim, permit, reservation and run.  Store, workers, clocks and
    foreign writes are arguments.
  \<^item> \<open>Dispatch_Recovery\<close>: handing a job back, failing it, recovering the jobs of dead dispatchers, stale jobs.
    \<open>Dispatch_Backoff\<close>: the delays after refusals.  \<open>Dispatch_Net\<close>: the network of a worker.
  \<^item> \<open>Worker_Launch\<close>, \<open>Worker_Env\<close>: the command line of a worker container, read as docker reads it.
    \<open>AppArmor\<close>: \<^verbatim>\<open>worker/sandbox/apparmor.py\<close>, the evidence that a confinement is enforced.

  \<^bold>\<open>Remote dispatcher\<close> (\<^verbatim>\<open>host/runtime/vm_dispatch.py\<close>, \<^verbatim>\<open>remote_http.py\<close>).
  \<^item> \<open>Vm_Claim\<close>: taking a slot, with held slots, cooldowns and a deadline.  The loop is a partial function;
    that it returns is a theorem, from a clock that passes the deadline for good.
  \<^item> \<open>Vm_Remote\<close>: one detonation over HTTP and the attribution of its outcome.  \<open>Vm_Dispatch\<close>, \<open>Vm_Job\<close>: the
    whole run of a claimed job and what holds of it.  \<open>Vm_Build\<close>: sweeps, schedule, budgets, environment.
  \<^item> \<open>Tar_Extract\<close>, \<open>Tar_Confined\<close>: the unpacking of a worker's archive over a file system with links;
    40 links are followed as in Linux, and Python's \<open>resolve\<close> has at least as many.

  \<^bold>\<open>Pools and runtimes.\<close>
  \<^item> \<open>Pool_Protocol\<close>, \<open>Pool_Ownership\<close>: \<^verbatim>\<open>host/pool.py\<close>, the life of a warm slot.  A state is the pool's
    record, the multiset of activities that threads are in between two locked blocks, and a
    history of the workers spawned and disposed of.  \<open>step\<close> runs one locked block or lets one call
    into the runtime return, in any order.  \<open>Pool_Sizing\<close>: targets, burst, spawn rate.
    \<open>Pool_Health\<close>: the failure accounting and the rebuild of a base; what other threads do
    between two locked blocks of one rebuild decision is a function argument.
  \<^item> \<open>Cascade_Tiers\<close>, \<open>Cascade_Admission\<close>, \<open>Cascade_Slots\<close>, \<open>Cascade_Repair\<close>, \<open>Cascade_Run\<close>:
    \<^verbatim>\<open>host/runtime/cascade.py\<close>, several tiers behind one pool: declaration, late admission, routing of spawns,
    whose base a failure repairs, and the whole under any interleaving.
  \<^item> \<open>Snapshot_Manager\<close>, \<open>Snapshot_Run\<close>: \<^verbatim>\<open>host/runtime/fc_snapshot.py\<close>, the base a tier restores from, over
    every order of the manager's locked blocks.
  \<^item> \<open>Static_Pool\<close>, \<open>Static_Fleet\<close>, \<open>Static_Run\<close>: \<^verbatim>\<open>host/runtime/static_pool.py\<close>, a fixed fleet of workers.  The
    locale \<open>lease_office\<close> states what a pool relies on of a provider of workers and is interpreted on the fleet.
  \<^item> \<open>Node_Sizer\<close>, \<open>Placement\<close>, \<open>Concurrency_Gate\<close>, \<open>Node_Share\<close>: the modules of the same names under
    \<^verbatim>\<open>host\<close>: sizing the pools of a node to its budget, the certificates' grants and the node's own
    check, the dynamic semaphore of the cold path, the directory in which the pools of a node
    publish their demand.

  \<^bold>\<open>Networks.\<close>
  \<^item> \<open>Net_Policy\<close>, \<open>Net_Wire\<close>, \<open>Net_Daemon\<close>: \<^verbatim>\<open>host/netpolicy.py\<close>, \<^verbatim>\<open>netapply.py\<close>, \<^verbatim>\<open>netwire.py\<close>, \<^verbatim>\<open>netd.py\<close>:
    policies, the rules and labels of a worker, the daemon that guards and wires it.
  \<^item> \<open>Egress_Subnets\<close>, \<open>Egress_Steps\<close>, \<open>Egress_Teardown\<close>, \<open>Egress_Check\<close>, \<open>Egress_Plan\<close>: \<^verbatim>\<open>host/egress.py\<close> and
    \<^verbatim>\<open>egress_apply.py\<close>: subnets, the commands of an exit host and a forwarder with their effect on the packet filter
    and the routing rules, the teardown, the check over live rules, the adoption of live bridges.

  How the parts interact.  A claim in \<open>Job_Memory\<close> or \<open>Job_Redis\<close> hands out a job under a fresh
  token, and the compare-and-set on status and token is what makes its terminal write unique; the
  dispatchers reach the store only through these operations.  The verdict of \<open>Output_Trust\<close> is built from
  \<open>Contract_Envelope\<close>'s reads and seals under the caps of \<open>Resource_Limits\<close>, and from \<open>Errors\<close>' classification of
  what went wrong: a host fault is never evidence against the worker.  The dispatchers write DONE only
  on that verdict, and the fault it names feeds the release accounting of \<open>Pool_Health\<close>, which decides on the
  rebuild that \<open>Cascade_Repair\<close> directs and \<open>Snapshot_Manager\<close> performs.  \<open>Node_Sizer\<close> computes the targets that
  \<open>Pool_Sizing\<close>'s \<open>resize\<close> takes, from the demands that \<open>Node_Share\<close> exchanges.  The plan of \<open>Dispatch_Net\<close> labels a
  worker for \<open>Net_Daemon\<close> and routes it into the containment of \<open>Egress_Steps\<close>.

  What the groups of lemmas show.  Stores: each method refines the contract, claims are
  exclusive and oldest first, a transaction linearises under any interference.  Contract and
  trust: what a trusted output guarantees, that host faults never convict, that the depth guards
  are exact.  Dispatchers: DONE only after trust and a confirmed claim, one settled outcome for every run, permits
  and reservations balanced, recovery exact, launches confined.  Pool: exclusive claims, reaps of draining slots
  only, one disposal per worker until shutdown (and the trace on which shutdown breaks it), no lost worker, the
  eviction budget, rebuilds only on consumed evidence and never after a success.  Runtimes: capacities are kept
  under any interleaving, a repair hits only the guilty tier, a base that is mapped is never removed, a
  static worker is leased once at a time.  Extraction: files change only below the destination and within the
  caps; directories above it are a gap, shown by a trace.  Networks: a route exists only behind the leak guard,
  the commands contain what they are to contain whatever the host's rules were, and tearing down undoes them.
  Sizing and placement: the plan fits the budget, honours floors and wastes nothing; grants are intersections and
  the self-check fails closed.

  Times are real numbers, since the code only subtracts and compares clock readings; non-finite
  floats occur where untrusted values are read and are modelled there.  Python integers are
  unbounded, so nothing wraps.  Recursion is structural or has a measure but for the claim loop of
  \<open>Vm_Claim\<close>; Redis transactions and rebuild decisions run on finite lists of attempts and phases.

  Not modelled: the drivers of containers, virtual machines and cloud services and the guests behind
  them, the policies of operating-system sandboxes, the worker's harness and links, the SQL and HTTP stores, blob
  stores, the HTTP interface, certificates and receipts, image builds and pins, the engines and the command line.
  They are I/O around the parts modelled here, or enter as parameters: what a probe, a command, a
  socket or a service answers is data of the model, and the theorems hold for every answer.
\<close>

text \<open>
  The remote dispatcher refuses to start a tier that needs egress on a static fleet exactly when the census
  could ask every worker and every one answered that it has none (\<open>_place_egress\<close> on the counts of
  \<open>egress_census\<close>): a probe that did not end, raised or could not be scheduled never stops it.
\<close>

theorem census_refusal_exact:
  assumes "length futs \<le> n"
  shows "\<not> place_egress True (Some (static_census n futs))
     \<longleftrightarrow> 0 < n \<and> length futs = n \<and> (\<forall>f \<in> set futs. f = Some (Some False))"
proof -
  let ?no = "filter (\<lambda>f. f = Some (Some False)) futs" and ?yes = "filter (\<lambda>f. f = Some (Some True)) futs"
  have all: "length ?no = length futs \<longleftrightarrow> (\<forall>f \<in> set futs. f = Some (Some False))"
    by (metis (mono_tags, lifting) filter_True filter_id_conv length_filter_less less_irrefl)
  have le: "length ?no \<le> length futs" by (rule length_filter_le)
  have none: "(\<forall>f \<in> set futs. f = Some (Some False)) \<Longrightarrow> ?yes = []" by (auto simp: filter_empty_conv)
  show ?thesis
  proof (cases "n = 0")
    case True
    then show ?thesis by (simp add: static_census_def place_egress_def)
  next
    case False
    have "\<not> place_egress True (Some (static_census n futs))
       \<longleftrightarrow> ?yes = [] \<and> (n - length futs) + (length futs - length ?yes - length ?no) = 0 \<and> 0 < length ?no"
      using False unfolding static_census_def place_egress_def Let_def by (simp only: prod.case option.case if_False not_True_eq_False length_0_conv) auto
    also have "\<dots> \<longleftrightarrow> length futs = n \<and> length ?no = length futs"
    proof
      assume a: "?yes = [] \<and> (n - length futs) + (length futs - length ?yes - length ?no) = 0 \<and> 0 < length ?no"
      have "length ?yes = 0" using a by simp
      then have "n - length futs = 0" "length futs - length ?no = 0" using a by linarith+
      then show "length futs = n \<and> length ?no = length futs" using assms le by linarith
    next
      assume a: "length futs = n \<and> length ?no = length futs"
      then show "?yes = [] \<and> (n - length futs) + (length futs - length ?yes - length ?no) = 0 \<and> 0 < length ?no"
        using all none False by simp
    qed
    finally show ?thesis using all False by auto
  qed
qed

theorem census_refusal_exact_witness:
  "\<not> place_egress True (Some (static_census 2 [Some (Some False), Some (Some False)]))
   \<and> place_egress True (Some (static_census 2 [Some (Some False), None]))"
  using census_refusal_exact [of "[Some (Some False), Some (Some False)]" 2]
    census_refusal_exact [of "[Some (Some False), None]" 2] by simp

end
